(* ===== verification/Go_Base.thy ===== *)
theory Go_Base
  imports Main "HOL-Library.Word" "HOL-Library.Sublist"
begin

text \<open>
  Shared vocabulary of the development: Go byte strings, the results of fallible
  functions, the operations of Go's \<open>bytes\<close> and \<open>strings\<close> packages that the
  modelled code calls, and the generic lemmas the component theories build on.

  A Go \<open>string\<close> or \<open>[]byte\<close> is a \<open>char list\<close>: an Isabelle \<open>char\<close> is one of
  256 bytes, so lengths and offsets count bytes as they do in Go. Offsets are \<open>nat\<close>; a Go
  result \<open>-1\<close> for "not found" is \<open>None\<close>. An error return is \<open>Inl (Err msg)\<close>, with
  the message text of the source up to its formatted arguments, and a run-time panic (index
  or slice out of range) is \<open>Inl (Panic msg)\<close>.
\<close>

named_theorems lex_simps \<open>character classes and scanning\<close>
named_theorems bound_simps \<open>bounds of the offsets scanners return\<close>

type_synonym bytes = string

datatype failure = Err string | Panic string

type_synonym 'a res = "failure + 'a"

abbreviation NL :: char where "NL \<equiv> CHR 0x0A"
abbreviation CR :: char where "CR \<equiv> CHR 0x0D"
abbreviation TAB :: char where "TAB \<equiv> CHR 0x09"
abbreviation NUL :: char where "NUL \<equiv> CHR 0x00"
abbreviation DQ :: char where "DQ \<equiv> CHR 0x22"
abbreviation SQ :: char where "SQ \<equiv> CHR 0x27"
abbreviation BSL :: char where "BSL \<equiv> CHR 0x5C"

subsection \<open>Sequencing of fallible computations\<close>

definition rbind :: "'a res \<Rightarrow> ('a \<Rightarrow> 'b res) \<Rightarrow> 'b res" where
  "rbind m f = (case m of Inl e \<Rightarrow> Inl e | Inr x \<Rightarrow> f x)"

lemma rbind_simps [simp]: "rbind (Inl e) f = Inl e" "rbind (Inr x) f = f x"
  by (simp_all add: rbind_def)

lemma rbind_eq_Inr: "rbind m f = Inr y \<longleftrightarrow> (\<exists>x. m = Inr x \<and> f x = Inr y)"
  by (cases m) simp_all

lemma rbind_eq_Inl: "rbind m f = Inl e \<longleftrightarrow> m = Inl e \<or> (\<exists>x. m = Inr x \<and> f x = Inl e)"
  by (cases m) simp_all

fun map_res :: "('a \<Rightarrow> 'b res) \<Rightarrow> 'a list \<Rightarrow> 'b list res" where
  "map_res f [] = Inr []"
| "map_res f (x # xs) = rbind (f x) (\<lambda>y. rbind (map_res f xs) (\<lambda>ys. Inr (y # ys)))"

lemma map_res_length: "map_res f xs = Inr ys \<Longrightarrow> length ys = length xs"
  by (induction xs arbitrary: ys) (auto simp: rbind_eq_Inr)

lemma map_res_all: "(\<And>x. x \<in> set xs \<Longrightarrow> f x = Inr (g x)) \<Longrightarrow> map_res f xs = Inr (map g xs)"
  by (induction xs) simp_all

text \<open>The same for a computation that may also not return (\<open>None\<close>).\<close>

definition obind :: "'a res option \<Rightarrow> ('a \<Rightarrow> 'b res option) \<Rightarrow> 'b res option" where
  "obind m f = (case m of None \<Rightarrow> None | Some (Inl e) \<Rightarrow> Some (Inl e) | Some (Inr x) \<Rightarrow> f x)"

lemma obind_simps [simp]:
  "obind None f = None" "obind (Some (Inl e)) f = Some (Inl e)" "obind (Some (Inr x)) f = f x"
  by (simp_all add: obind_def)

lemma obind_eq_Some:
  "obind m f = Some r \<longleftrightarrow>
     (\<exists>e. m = Some (Inl e) \<and> r = Inl e) \<or> (\<exists>x. m = Some (Inr x) \<and> f x = Some r)"
  by (auto simp: obind_def split: option.splits sum.splits)

text \<open>\<open>buf[a:b]\<close> and \<open>buf[i]\<close>, with the run-time checks of Go.\<close>

definition go_slice :: "'a list \<Rightarrow> nat \<Rightarrow> nat \<Rightarrow> 'a list res" where
  "go_slice xs a b =
     (if a \<le> b \<and> b \<le> length xs then Inr (take (b - a) (drop a xs))
      else Inl (Panic ''slice bounds out of range''))"

definition go_index :: "'a list \<Rightarrow> nat \<Rightarrow> 'a res" where
  "go_index xs i = (if i < length xs then Inr (xs ! i) else Inl (Panic ''index out of range''))"

text \<open>The slice expression where the bounds are known to be in range.\<close>

definition sub :: "'a list \<Rightarrow> nat \<Rightarrow> nat \<Rightarrow> 'a list" where
  "sub xs a b = take (b - a) (drop a xs)"

lemma length_sub [simp]: "length (sub xs a b) = min (b - a) (length xs - a)"
  by (simp add: sub_def min.commute)

lemma go_slice_sub: "a \<le> b \<Longrightarrow> b \<le> length xs \<Longrightarrow> go_slice xs a b = Inr (sub xs a b)"
  by (simp add: go_slice_def sub_def)

lemma nth_sub: "a + i < b \<Longrightarrow> b \<le> length xs \<Longrightarrow> sub xs a b ! i = xs ! (a + i)"
  by (simp add: sub_def)

lemma sub_append_sub: "a \<le> b \<Longrightarrow> b \<le> c \<Longrightarrow> sub xs a b @ sub xs b c = sub xs a c"
proof -
  assume le: "a \<le> b" "b \<le> c"
  have "take (c - a) (drop a xs) =
      take (b - a) (drop a xs) @ take (c - b) (drop (b - a) (drop a xs))"
    using le by (metis add_diff_inverse_nat diff_diff_left le_add_diff_inverse
        not_less take_add Nat.add_diff_assoc2 add_diff_cancel_left' diff_add_inverse2)
  then show ?thesis using le by (simp add: sub_def)
qed

lemma sub_whole [simp]: "sub xs 0 (length xs) = xs"
  by (simp add: sub_def)

text \<open>Reading an updated list, whatever the indices.\<close>

lemma nth_upd: "xs[i := v] ! j = (if i = j \<and> i < length xs then v else xs ! j)"
  by (cases "i < length xs") (auto simp: nth_list_update list_update_beyond)

lemma list_update_same_nth [simp]: "xs[i := xs ! i] = xs"
  by (cases "i < length xs") (auto simp: list_update_beyond)

subsection \<open>Searching: bytes.IndexByte, bytes.IndexAny, bytes.Count\<close>

fun index_of :: "('a \<Rightarrow> bool) \<Rightarrow> 'a list \<Rightarrow> nat option" where
  "index_of P [] = None"
| "index_of P (x # xs) = (if P x then Some 0 else map_option Suc (index_of P xs))"

definition index_byte :: "bytes \<Rightarrow> char \<Rightarrow> nat option" where
  "index_byte s c = index_of (\<lambda>x. x = c) s"

definition index_any :: "bytes \<Rightarrow> bytes \<Rightarrow> nat option" where
  "index_any s cs = index_of (\<lambda>x. x \<in> set cs) s"

definition count_byte :: "bytes \<Rightarrow> char \<Rightarrow> nat" where
  "count_byte s c = length (filter (\<lambda>x. x = c) s)"

lemma index_of_None: "index_of P xs = None \<longleftrightarrow> (\<forall>x \<in> set xs. \<not> P x)"
  by (induction xs) auto

lemma index_of_Some:
  "index_of P xs = Some i \<longleftrightarrow> i < length xs \<and> P (xs ! i) \<and> (\<forall>j < i. \<not> P (xs ! j))"
proof (induction xs arbitrary: i)
  case Nil
  then show ?case by simp
next
  case (Cons x xs)
  then show ?case by (cases i) (auto simp: All_less_Suc2)
qed

lemma index_of_lt: "index_of P xs = Some i \<Longrightarrow> i < length xs"
  by (simp add: index_of_Some)

lemma index_of_append:
  "index_of P (xs @ ys) =
     (case index_of P xs of Some i \<Rightarrow> Some i | None \<Rightarrow> map_option (\<lambda>i. length xs + i) (index_of P ys))"
proof (induction xs)
  case Nil
  then show ?case by (cases "index_of P ys") simp_all
next
  case (Cons x xs)
  then show ?case
    by (cases "index_of P xs"; cases "index_of P ys") simp_all
qed

lemma index_of_append_first:
  "(\<And>x. x \<in> set xs \<Longrightarrow> \<not> P x) \<Longrightarrow> P y \<Longrightarrow> index_of P (xs @ y # ys) = Some (length xs)"
  by (induction xs) auto

lemma index_byte_lt [bound_simps]: "index_byte s c = Some i \<Longrightarrow> i < length s"
  by (simp add: index_byte_def index_of_lt)

lemma index_byte_nth: "index_byte s c = Some i \<Longrightarrow> s ! i = c"
  by (simp add: index_byte_def index_of_Some)

lemma index_byte_None: "index_byte s c = None \<longleftrightarrow> c \<notin> set s"
  by (auto simp: index_byte_def index_of_None)

lemma index_byte_drop_lt [bound_simps]:
  "index_byte (drop a s) c = Some i \<Longrightarrow> a + i < length s"
  by (drule index_byte_lt) simp

subsection \<open>Prefixes and suffixes: HasPrefix, TrimPrefix, TrimSuffix, Contains, Cut\<close>

definition has_prefix :: "bytes \<Rightarrow> bytes \<Rightarrow> bool" where
  "has_prefix s p \<longleftrightarrow> take (length p) s = p"

definition has_suffix :: "bytes \<Rightarrow> bytes \<Rightarrow> bool" where
  "has_suffix s p \<longleftrightarrow> length p \<le> length s \<and> drop (length s - length p) s = p"

definition trim_prefix :: "bytes \<Rightarrow> bytes \<Rightarrow> bytes" where
  "trim_prefix s p = (if has_prefix s p then drop (length p) s else s)"

definition trim_suffix :: "bytes \<Rightarrow> bytes \<Rightarrow> bytes" where
  "trim_suffix s p = (if has_suffix s p then take (length s - length p) s else s)"

fun str_contains :: "bytes \<Rightarrow> bytes \<Rightarrow> bool" where
  "str_contains [] p = (p = [])"
| "str_contains (c # s) p = (has_prefix (c # s) p \<or> str_contains s p)"

text \<open>\<open>strings.Cut\<close> with a one-byte separator: the parts around its first occurrence.\<close>

definition str_cut :: "bytes \<Rightarrow> char \<Rightarrow> (bytes \<times> bytes) option" where
  "str_cut s c = map_option (\<lambda>i. (take i s, drop (Suc i) s)) (index_byte s c)"

lemma has_prefix_append [simp]: "has_prefix (p @ s) p"
  by (simp add: has_prefix_def)

lemma has_prefix_iff: "has_prefix s p \<longleftrightarrow> (\<exists>t. s = p @ t)"
  by (auto simp: has_prefix_def) (metis append_take_drop_id)

lemma has_prefix_Nil [simp]: "has_prefix s []"
  by (simp add: has_prefix_def)

lemma has_prefix_Cons [simp]:
  "has_prefix (c # s) (d # p) \<longleftrightarrow> c = d \<and> has_prefix s p" "\<not> has_prefix [] (d # p)"
  by (auto simp: has_prefix_def)

lemma has_suffix_iff: "has_suffix s p \<longleftrightarrow> (\<exists>t. s = t @ p)"
  by (auto simp: has_suffix_def) (metis append_take_drop_id)

lemma trim_prefix_append [simp]: "trim_prefix (p @ s) p = s"
  by (simp add: trim_prefix_def)

lemma length_trim_prefix: "length (trim_prefix s p) \<le> length s"
  by (simp add: trim_prefix_def)

lemma str_contains_char: "str_contains s [c] \<longleftrightarrow> c \<in> set s"
  by (induction s) auto

subsection \<open>White space trimming: bytes.TrimSpace and strings.TrimSpace\<close>

text \<open>
  \<open>TrimSpace\<close> removes the code points of \<open>unicode.IsSpace\<close> from both ends. UTF-8 is
  prefix-free and self-synchronising, so decoding a leading (or trailing) white-space rune
  succeeds exactly when the encoding of one is a prefix (or suffix); the list holds the
  encodings of U+0009..U+000D, U+0020, U+0085, U+00A0, U+1680, U+2000..U+200A, U+2028,
  U+2029, U+202F, U+205F and U+3000.
\<close>

definition space_runes :: "bytes list" where
  "space_runes =
     [[CHR 0x09], [CHR 0x0A], [CHR 0x0B], [CHR 0x0C], [CHR 0x0D], [CHR 0x20],
      [CHR 0xC2, CHR 0x85], [CHR 0xC2, CHR 0xA0], [CHR 0xE1, CHR 0x9A, CHR 0x80],
      [CHR 0xE2, CHR 0x80, CHR 0x80], [CHR 0xE2, CHR 0x80, CHR 0x81],
      [CHR 0xE2, CHR 0x80, CHR 0x82], [CHR 0xE2, CHR 0x80, CHR 0x83],
      [CHR 0xE2, CHR 0x80, CHR 0x84], [CHR 0xE2, CHR 0x80, CHR 0x85],
      [CHR 0xE2, CHR 0x80, CHR 0x86], [CHR 0xE2, CHR 0x80, CHR 0x87],
      [CHR 0xE2, CHR 0x80, CHR 0x88], [CHR 0xE2, CHR 0x80, CHR 0x89],
      [CHR 0xE2, CHR 0x80, CHR 0x8A], [CHR 0xE2, CHR 0x80, CHR 0xA8],
      [CHR 0xE2, CHR 0x80, CHR 0xA9], [CHR 0xE2, CHR 0x80, CHR 0xAF],
      [CHR 0xE2, CHR 0x81, CHR 0x9F], [CHR 0xE3, CHR 0x80, CHR 0x80]]"

definition lead_space :: "bytes \<Rightarrow> nat" where
  "lead_space s = (case find (has_prefix s) space_runes of None \<Rightarrow> 0 | Some w \<Rightarrow> length w)"

definition trail_space :: "bytes \<Rightarrow> nat" where
  "trail_space s = (case find (has_suffix s) space_runes of None \<Rightarrow> 0 | Some w \<Rightarrow> length w)"

lemma lead_space_le: "lead_space s \<le> length s"
  by (auto simp: lead_space_def split: option.splits)
    (metis find_Some_iff has_prefix_iff le_add1 length_append)

lemma trail_space_le: "trail_space s \<le> length s"
  by (auto simp: trail_space_def split: option.splits)
    (metis find_Some_iff has_suffix_iff le_add2 length_append)

function trim_left :: "bytes \<Rightarrow> bytes" where
  "trim_left s = (if lead_space s = 0 then s else trim_left (drop (lead_space s) s))"
  by pat_completeness auto
termination
  using lead_space_le by (relation "measure length") (auto, metis diff_less le_zero_eq length_0_conv length_greater_0_conv not_gr_zero)

function trim_right :: "bytes \<Rightarrow> bytes" where
  "trim_right s = (if trail_space s = 0 then s else trim_right (take (length s - trail_space s) s))"
  by pat_completeness auto
termination
  using trail_space_le by (relation "measure length") (auto, metis diff_less le_zero_eq length_0_conv length_greater_0_conv not_gr_zero)

declare trim_left.simps [simp del] trim_right.simps [simp del]

definition trim_space :: "bytes \<Rightarrow> bytes" where
  "trim_space s = trim_right (trim_left s)"

lemma length_trim_left [bound_simps]: "length (trim_left s) \<le> length s"
proof (induction s rule: trim_left.induct)
  case (1 s)
  then show ?case by (subst trim_left.simps) (auto intro: le_trans)
qed

lemma length_trim_right [bound_simps]: "length (trim_right s) \<le> length s"
proof (induction s rule: trim_right.induct)
  case (1 s)
  then show ?case by (subst trim_right.simps) (auto intro: le_trans)
qed

lemma length_trim_space [bound_simps]: "length (trim_space s) \<le> length s"
  unfolding trim_space_def using length_trim_left length_trim_right le_trans by blast

lemma trim_left_id: "lead_space s = 0 \<Longrightarrow> trim_left s = s"
  by (subst trim_left.simps) simp

lemma trim_right_id: "trail_space s = 0 \<Longrightarrow> trim_right s = s"
  by (subst trim_right.simps) simp

lemma lead_space_trim_left [simp]: "lead_space (trim_left s) = 0"
proof (induction s rule: trim_left.induct)
  case (1 s)
  then show ?case by (cases "lead_space s = 0") (simp_all add: trim_left.simps [of s])
qed

lemma trail_space_trim_right [simp]: "trail_space (trim_right s) = 0"
proof (induction s rule: trim_right.induct)
  case (1 s)
  then show ?case by (cases "trail_space s = 0") (simp_all add: trim_right.simps [of s])
qed

text \<open>A string that neither starts nor ends with the first (or last) byte of a white-space
  encoding is left alone; it covers every string whose ends are printable ASCII.\<close>

lemma lead_space_graph:
  "s \<noteq> [] \<Longrightarrow> hd s \<notin> set (map hd space_runes) \<Longrightarrow> lead_space s = 0"
  by (cases s) (auto simp: lead_space_def space_runes_def)

lemma trail_space_graph:
  assumes "s \<noteq> []" and "last s \<notin> set (map last space_runes)"
  shows "trail_space s = 0"
proof -
  have "find (has_suffix s) space_runes = None"
  proof (rule ccontr)
    assume "find (has_suffix s) space_runes \<noteq> None"
    then obtain w where w: "w \<in> set space_runes" "has_suffix s w"
      by (auto simp: find_None_iff)
    then have "w \<noteq> []" by (auto simp: space_runes_def)
    with w(2) have "last s = last w" by (auto simp: has_suffix_iff)
    with w(1) assms(2) show False by simp
  qed
  then show ?thesis by (simp add: trail_space_def)
qed

lemma trim_space_graph:
  "s \<noteq> [] \<Longrightarrow> hd s \<notin> set (map hd space_runes) \<Longrightarrow> last s \<notin> set (map last space_runes) \<Longrightarrow>
   trim_space s = s"
  by (simp add: trim_space_def trim_left_id lead_space_graph trim_right_id trail_space_graph)

subsection \<open>Sets kept as Go maps: first occurrences in order\<close>

text \<open>The loop idiom \<open>if seen[x] { continue }; seen[x] = true; out = append(out, x)\<close>.\<close>

fun add_unseen :: "'a list \<Rightarrow> 'a list \<Rightarrow> 'a list" where
  "add_unseen acc [] = acc"
| "add_unseen acc (x # xs) = add_unseen (if x \<in> set acc then acc else acc @ [x]) xs"

lemma set_add_unseen [simp]: "set (add_unseen acc xs) = set acc \<union> set xs"
  by (induction xs arbitrary: acc) auto

lemma distinct_add_unseen [simp]: "distinct acc \<Longrightarrow> distinct (add_unseen acc xs)"
  by (induction xs arbitrary: acc) auto

lemma add_unseen_prefix: "\<exists>ys. add_unseen acc xs = acc @ ys"
proof (induction xs arbitrary: acc)
  case Nil
  then show ?case by simp
next
  case (Cons x xs)
  show ?case using Cons.IH [of acc] Cons.IH [of "acc @ [x]"] by auto
qed

lemma subseq_add_unseen: "\<exists>ys. add_unseen acc xs = acc @ ys \<and> subseq ys xs"
proof (induction xs arbitrary: acc)
  case Nil
  then show ?case by simp
next
  case (Cons x xs)
  show ?case
    using Cons.IH [of acc] Cons.IH [of "acc @ [x]"] by (auto intro: subseq_Cons')
qed

end
