(* ===== verification/Lexer.thy ===== *)
theory Lexer
  imports Go_Base
begin

unbundle bit_operations_syntax

text \<open>
  The byte-level scanner of the ninja manifest parser (\<open>toolsupport/ninjautil/lexer.go\<close>):
  the 256-bit character sets, the search for the end of a logical line, and the skipping of
  white space and line continuations. Buffers are whole files and positions are offsets into
  them, as in the source. The lemmas give the sets as predicates on bytes and bound every
  offset a scanner returns, which the parsers above rely on for progress.
\<close>

subsection \<open>findNextLine\<close>

text \<open>\<open>buf[s:]\<close> needs \<open>s \<le> len(buf)\<close>; every call site passes such an \<open>s\<close>.\<close>

function findNextLine :: "bytes \<Rightarrow> nat \<Rightarrow> nat" where
  "findNextLine buf s =
     (case index_byte (drop s buf) NL of
        None \<Rightarrow> length buf
      | Some i \<Rightarrow>
          if i > 1 \<and> buf ! (s + i - 2) = CHR ''$'' \<and> buf ! (s + i - 1) = CR
          then findNextLine buf (s + i + 1)
          else if i > 0 \<and> buf ! (s + i - 1) = CHR ''$''
          then findNextLine buf (s + i + 1)
          else s + i + 1)"
  by pat_completeness auto
termination
  by (relation "measure (\<lambda>(buf, s). length buf - s)") (auto dest!: index_byte_lt)

declare findNextLine.simps [simp del]

subsection \<open>Character sets\<close>

type_synonym charmap = "32 word list"

definition charmap_zero :: charmap where
  "charmap_zero = replicate 8 0"

definition charmap_set :: "charmap \<Rightarrow> char \<Rightarrow> charmap" where
  "charmap_set m ch =
     (let c = (of_char ch :: 8 word); i = unat (drop_bit 5 c)
      in m[i := (m ! i) OR push_bit (unat (c AND 31)) 1])"

definition charmap_contains :: "charmap \<Rightarrow> char \<Rightarrow> bool" where
  "charmap_contains m ch =
     (let c = (of_char ch :: 8 word)
      in (m ! unat (drop_bit 5 c)) AND push_bit (unat (c AND 31)) 1 \<noteq> 0)"

definition alnum_chars :: bytes where
  "alnum_chars = ''abcdefghijklmnopqrstuvwxyz'' @ ''ABCDEFGHIJKLMNOPQRSTUVWXYZ'' @ ''0123456789''"

definition varnameChar :: charmap where
  "varnameChar =
     charmap_set (charmap_set (charmap_set (fold (\<lambda>c m. charmap_set m c) alnum_chars charmap_zero)
       CHR ''_'') CHR ''.'') CHR ''-''"

definition simpleVarnameChar :: charmap where
  "simpleVarnameChar =
     charmap_set (charmap_set (fold (\<lambda>c m. charmap_set m c) alnum_chars charmap_zero)
       CHR ''_'') CHR ''-''"

definition nonLiteralChar :: charmap where
  "nonLiteralChar =
     fold (\<lambda>c m. charmap_set m c) (''$ :'' @ [TAB, CR, NL] @ ''|'' @ [NUL]) charmap_zero"

definition whitespaceChar :: charmap where
  "whitespaceChar = fold (\<lambda>c m. charmap_set m c) ('' '' @ [TAB, CR, NL]) charmap_zero"

text \<open>A byte is determined by its word index and its bit index.\<close>

lemma charmap_slot_lt: "unat (drop_bit 5 (of_char ch :: 8 word)) < 8"
proof -
  have "unat (drop_bit 5 (of_char ch :: 8 word)) = unat (of_char ch :: 8 word) div 32"
    by (simp add: drop_bit_eq_div unat_div)
  moreover have "unat (of_char ch :: 8 word) < 2 ^ 8"
    using unsigned_less [of "of_char ch :: 8 word"] by simp
  ultimately show ?thesis by simp
qed

lemma charmap_bit_lt: "unat ((of_char ch :: 8 word) AND 31) < 32"
proof -
  have "unat ((of_char ch :: 8 word) AND 31) \<le> unat (31 :: 8 word)"
    by (rule word_and_le1 [THEN word_le_nat_alt [THEN iffD1]])
  then show ?thesis by simp
qed

lemma byte_split: "unat (w :: 8 word) = 32 * unat (drop_bit 5 w) + unat (w AND 31)"
proof -
  have mask: "(31 :: 8 word) = mask 5" by (simp add: mask_eq_exp_minus_1)
  have "w AND 31 = take_bit 5 w" unfolding mask by (rule take_bit_eq_mask [symmetric])
  then have "unat (w AND 31) = unat w mod 32"
    by (simp only: unsigned_take_bit_eq) (simp add: take_bit_eq_mod)
  moreover have "unat (drop_bit 5 w) = unat w div 32"
    by (simp add: drop_bit_eq_div unat_div)
  ultimately show ?thesis by simp
qed

lemma unat_of_char: "unat (of_char c :: 8 word) = of_char c"
proof -
  have "unat (of_nat (of_char c) :: 8 word) = of_char c mod 2 ^ 8"
    by (simp only: unat_of_nat) (simp add: take_bit_eq_mod)
  then show ?thesis by (simp only: of_nat_of_char of_char_mod_256 power2_eq_square) (simp add: of_char_mod_256)
qed

lemma charmap_slot_inject:
  assumes "unat (drop_bit 5 (of_char a :: 8 word)) = unat (drop_bit 5 (of_char b :: 8 word))"
    and "unat ((of_char a :: 8 word) AND 31) = unat ((of_char b :: 8 word) AND 31)"
  shows "a = b"
proof -
  have "unat (of_char a :: 8 word) = unat (of_char b :: 8 word)"
    using assms byte_split by metis
  then have "char_of (of_char a :: nat) = (char_of (of_char b :: nat) :: char)"
    by (simp only: unat_of_char)
  then show ?thesis by simp
qed

lemma word_test_bit: "k < 32 \<Longrightarrow> (w :: 32 word) AND push_bit k 1 \<noteq> 0 \<longleftrightarrow> bit w k"
proof -
  assume k: "k < 32"
  have "bit (w AND push_bit k 1) n \<longleftrightarrow> n = k \<and> bit w k" for n
    using k by (auto simp only: bit_and_iff bit_push_bit_iff bit_1_iff) (auto dest: bit_imp_le_length)
  then show ?thesis by (metis bit_0_eq bit_eqI bot_apply bot_bool_def)
qed

lemma charmap_contains_bit:
  "charmap_contains m ch \<longleftrightarrow>
     bit (m ! unat (drop_bit 5 (of_char ch :: 8 word))) (unat ((of_char ch :: 8 word) AND 31))"
  unfolding charmap_contains_def Let_def by (rule word_test_bit) (rule charmap_bit_lt)

lemma charmap_contains_set:
  assumes "length m = 8"
  shows "charmap_contains (charmap_set m c) d \<longleftrightarrow> d = c \<or> charmap_contains m d"
proof (cases "unat (drop_bit 5 (of_char c :: 8 word)) = unat (drop_bit 5 (of_char d :: 8 word))")
  case True
  then show ?thesis
    using charmap_slot_lt [of d] charmap_bit_lt [of d] assms charmap_slot_inject [of d c]
    by (auto simp: charmap_contains_bit charmap_set_def Let_def bit_simps)
next
  case False
  then show ?thesis
    using assms by (auto simp: charmap_contains_bit charmap_set_def Let_def)
qed

lemma length_charmap_set [simp]: "length (charmap_set m c) = length m"
  by (simp add: charmap_set_def Let_def)

lemma length_charmap_fold [simp]:
  "length (fold (\<lambda>c m. charmap_set m c) cs m) = length m"
  by (induction cs arbitrary: m) simp_all

lemma charmap_contains_zero [simp]: "\<not> charmap_contains charmap_zero d"
  using charmap_slot_lt [of d] by (simp add: charmap_contains_bit charmap_zero_def)

lemma charmap_contains_fold:
  "length m = 8 \<Longrightarrow>
   charmap_contains (fold (\<lambda>c m. charmap_set m c) cs m) d \<longleftrightarrow> d \<in> set cs \<or> charmap_contains m d"
  by (induction cs arbitrary: m) (auto simp: charmap_contains_set)

lemma length_charmap_zero [simp]: "length charmap_zero = 8"
  by (simp add: charmap_zero_def)

lemma contains_varnameChar [lex_simps]:
  "charmap_contains varnameChar d \<longleftrightarrow> d \<in> set (alnum_chars @ ''_.-'')"
  by (auto simp: varnameChar_def charmap_contains_set charmap_contains_fold)

lemma contains_simpleVarnameChar [lex_simps]:
  "charmap_contains simpleVarnameChar d \<longleftrightarrow> d \<in> set (alnum_chars @ ''_-'')"
  by (auto simp: simpleVarnameChar_def charmap_contains_set charmap_contains_fold)

lemma contains_nonLiteralChar [lex_simps]:
  "charmap_contains nonLiteralChar d \<longleftrightarrow> d \<in> set ([CHR ''$'', CHR '' '', CHR '':'', TAB, CR, NL, CHR ''|'', NUL])"
  unfolding nonLiteralChar_def by (subst charmap_contains_fold) auto

lemma contains_whitespaceChar [lex_simps]:
  "charmap_contains whitespaceChar d \<longleftrightarrow> d \<in> set ([CHR '' '', TAB, CR, NL])"
  unfolding whitespaceChar_def by (subst charmap_contains_fold) auto

subsection \<open>Scanning with a character set\<close>

definition indexBytesAny :: "bytes \<Rightarrow> charmap \<Rightarrow> nat" where
  "indexBytesAny buf cm =
     (case index_of (charmap_contains cm) buf of Some i \<Rightarrow> i | None \<Rightarrow> length buf)"

definition skipBytesAny :: "bytes \<Rightarrow> charmap \<Rightarrow> nat" where
  "skipBytesAny buf cm =
     (case index_of (\<lambda>c. \<not> charmap_contains cm c) buf of Some i \<Rightarrow> i | None \<Rightarrow> length buf)"

lemma indexBytesAny_le [bound_simps]: "indexBytesAny buf cm \<le> length buf"
  by (auto simp: indexBytesAny_def dest: index_of_lt split: option.splits)

lemma skipBytesAny_le [bound_simps]: "skipBytesAny buf cm \<le> length buf"
  by (auto simp: skipBytesAny_def dest: index_of_lt split: option.splits)

text \<open>The loop of \<open>skipSpaces\<close> over \<open>n\<close>; the guard reads \<open>len(buf) == pos+n\<close>.\<close>

function skipSpaces_loop :: "bytes \<Rightarrow> nat \<Rightarrow> charmap \<Rightarrow> nat \<Rightarrow> nat" where
  "skipSpaces_loop buf pos cm n0 =
     (let n = n0 + skipBytesAny (drop (pos + n0) buf) cm in
      if length buf \<le> pos + n then n
      else if buf ! (pos + n) \<noteq> CHR ''$'' then n
      else if pos + n + 1 < length buf then
        (if buf ! (pos + n + 1) \<in> {NL, CHR '' '', TAB} then skipSpaces_loop buf pos cm (n + 2)
         else if buf ! (pos + n + 1) = CR \<and> pos + n + 2 < length buf \<and> buf ! (pos + n + 2) = NL
         then skipSpaces_loop buf pos cm (n + 3)
         else n)
      else n)"
  by pat_completeness auto
termination
  by (relation "measure (\<lambda>(buf, pos, cm, n). length buf - (pos + n))") (auto simp: Let_def)

declare skipSpaces_loop.simps [simp del]

definition skipSpaces :: "bytes \<Rightarrow> nat \<Rightarrow> charmap \<Rightarrow> nat" where
  "skipSpaces buf pos cm = skipSpaces_loop buf pos cm 0"

subsection \<open>Bounds and progress\<close>

lemma findNextLine_bounds:
  assumes "s < length buf"
  shows "s < findNextLine buf s \<and> findNextLine buf s \<le> length buf"
  using assms
proof (induction buf s rule: findNextLine.induct)
  case (1 buf s)
  show ?case
  proof (cases "index_byte (drop s buf) NL")
    case None
    then show ?thesis using "1.prems" by (simp add: findNextLine.simps [of buf s])
  next
    case (Some i)
    then have lt: "s + i < length buf" by (rule index_byte_drop_lt)
    have eof: "findNextLine buf (length buf) = length buf"
      by (simp add: findNextLine.simps [of buf "length buf"] index_byte_def)
    have rec: "s < findNextLine buf (s + i + 1) \<and> findNextLine buf (s + i + 1) \<le> length buf"
      if "(i > 1 \<and> buf ! (s + i - 2) = CHR ''$'' \<and> buf ! (s + i - 1) = CR)
          \<or> (i > 0 \<and> buf ! (s + i - 1) = CHR ''$'')"
    proof (cases "s + i + 1 < length buf")
      case True
      then show ?thesis using "1.IH"(1) [OF Some] "1.IH"(2) [OF Some] that by linarith
    next
      case False
      then have "s + i + 1 = length buf" using lt by simp
      then show ?thesis using eof lt by simp
    qed
    show ?thesis
    proof (cases "(i > 1 \<and> buf ! (s + i - 2) = CHR ''$'' \<and> buf ! (s + i - 1) = CR)
          \<or> (i > 0 \<and> buf ! (s + i - 1) = CHR ''$'')")
      case True
      then have "findNextLine buf s = findNextLine buf (s + i + 1)"
        using Some by (auto simp: findNextLine.simps [of buf s])
      then show ?thesis using rec [OF True] by simp
    next
      case False
      then have "findNextLine buf s = s + i + 1"
        using Some by (auto simp: findNextLine.simps [of buf s])
      then show ?thesis using lt by simp
    qed
  qed
qed

lemma skipSpaces_loop_bounds:
  "pos + n \<le> length buf \<Longrightarrow>
   n \<le> skipSpaces_loop buf pos cm n \<and> pos + skipSpaces_loop buf pos cm n \<le> length buf"
proof (induction buf pos cm n rule: skipSpaces_loop.induct)
  case (1 buf pos cm n)
  define m where "m = n + skipBytesAny (drop (pos + n) buf) cm"
  have m: "n \<le> m" "pos + m \<le> length buf"
    using skipBytesAny_le [of "drop (pos + n) buf" cm] "1.prems" by (auto simp: m_def)
  have eq: "skipSpaces_loop buf pos cm n =
      (if length buf \<le> pos + m then m
      else if buf ! (pos + m) \<noteq> CHR ''$'' then m
      else if pos + m + 1 < length buf then
        (if buf ! (pos + m + 1) \<in> {NL, CHR '' '', TAB} then skipSpaces_loop buf pos cm (m + 2)
         else if buf ! (pos + m + 1) = CR \<and> pos + m + 2 < length buf \<and> buf ! (pos + m + 2) = NL
         then skipSpaces_loop buf pos cm (m + 3)
         else m)
      else m)"
    by (simp add: skipSpaces_loop.simps [of buf pos cm n] m_def Let_def)
  show ?case
    using m "1.IH" [OF m_def] by (auto simp: eq)
qed

lemma skipSpaces_bounds [bound_simps]: "pos \<le> length buf \<Longrightarrow> pos + skipSpaces buf pos cm \<le> length buf"
  using skipSpaces_loop_bounds [of pos 0 buf cm] by (simp add: skipSpaces_def)

text \<open>Where the next byte is neither in the set nor a \<open>$\<close>, nothing is skipped.\<close>

lemma skipBytesAny_none [simp]: "\<not> charmap_contains cm c \<Longrightarrow> skipBytesAny (c # s) cm = 0"
  by (simp add: skipBytesAny_def)

lemma skipSpaces_none:
  "pos < length buf \<Longrightarrow> \<not> charmap_contains cm (buf ! pos) \<Longrightarrow> buf ! pos \<noteq> CHR ''$'' \<Longrightarrow>
   skipSpaces buf pos cm = 0"
  by (simp add: skipSpaces_def skipSpaces_loop.simps [of buf pos cm 0] Cons_nth_drop_Suc [symmetric])

text \<open>Skipping stops at a byte that is neither white space nor the start of an escaped one.\<close>

lemma skipSpaces_end: "skipSpaces buf (length buf) cm = 0"
  by (simp add: skipSpaces_def skipSpaces_loop.simps [of buf "length buf" cm 0] skipBytesAny_def)

end
