(* ===== verification/Eval.thy ===== *)
theory Eval
  imports Lexer
begin

text \<open>
  Evaluation of ninja strings (\<open>toolsupport/ninjautil/eval.go\<close>): \<open>evalString\<close>, its
  validating parser, and the expansion of \<open>$\<close>-escapes and variable references in an
  environment. \<open>evaluateAppend\<close> and its byte loop are mutually recursive, as a reference is
  expanded by evaluating the value it is bound to; the chain of names being expanded is the
  \<open>lookups\<close> argument, whose length the code caps at 255 and which bounds the recursion.
\<close>

record evalString =
  es_pos :: int
  es_v :: bytes
  es_esc :: nat

text \<open>\<open>lookupVar(pos, name)\<close> of the interface \<open>evalEnv\<close>.\<close>

type_synonym evalEnv = "int \<Rightarrow> bytes \<Rightarrow> evalString option"

definition mk_es :: "bytes \<Rightarrow> nat \<Rightarrow> evalString" where
  "mk_es v esc = \<lparr>es_pos = 0, es_v = v, es_esc = esc\<rparr>"

lemma mk_es_sel [simp]: "es_pos (mk_es v e) = 0" "es_v (mk_es v e) = v" "es_esc (mk_es v e) = e"
  by (simp_all add: mk_es_def)

subsection \<open>parseEvalString\<close>

text \<open>The position of the last byte of the simple variable name that starts at \<open>i + 1\<close>; the
  inner loop leaves \<open>i\<close> at the \<open>$\<close> when the name runs to the end.\<close>

definition simple_var_end :: "bytes \<Rightarrow> nat \<Rightarrow> nat" where
  "simple_var_end v i =
     (case index_of (\<lambda>c. \<not> charmap_contains simpleVarnameChar c) (drop (i + 1) v) of
        None \<Rightarrow> i | Some j \<Rightarrow> i + j)"

function parseEvalString_loop :: "bytes \<Rightarrow> nat \<Rightarrow> nat \<Rightarrow> nat res" where
  "parseEvalString_loop v i0 esc =
     (if i0 < length v then
        (case index_byte (drop i0 v) CHR ''$'' of
           None \<Rightarrow> Inr esc
         | Some j \<Rightarrow>
             let i = i0 + j in
             if i + 1 \<ge> length v then Inl (Err ''invalid $-escape'')
             else if v ! (i + 1) \<in> {CHR '' '', TAB, CHR '':'', CHR ''$'', NL}
             then parseEvalString_loop v (i + 2) (Suc esc)
             else if v ! (i + 1) = CR then
               (if i + 2 \<ge> length v \<or> v ! (i + 2) \<noteq> NL then Inl (Err ''invalid $-escape for CR'')
                else parseEvalString_loop v (i + 3) (Suc esc))
             else if v ! (i + 1) = CHR ''{'' then
               (case index_byte (drop (i + 2) v) CHR ''}'' of
                  None \<Rightarrow> Inl (Err ''unclosed ${'')
                | Some k \<Rightarrow> parseEvalString_loop v (i + 2 + k + 1) (Suc esc))
             else if \<not> charmap_contains simpleVarnameChar (v ! (i + 1))
             then Inl (Err ''invalid $-escape'')
             else parseEvalString_loop v (simple_var_end v i + 1) (Suc esc))
      else Inr esc)"
  by pat_completeness auto
termination
  by (relation "measure (\<lambda>(v, i, esc). length v - i)")
    (auto simp: simple_var_end_def split: option.splits)

declare parseEvalString_loop.simps [simp del]

definition parseEvalString :: "bytes \<Rightarrow> evalString res" where
  "parseEvalString v0 =
     (let v = drop (skipSpaces v0 0 whitespaceChar) v0 in
      rbind (parseEvalString_loop v 0 0)
        (\<lambda>esc. Inr (mk_es (trim_suffix (trim_suffix v [CR, NL]) [NL]) esc)))"

subsection \<open>evaluate and evaluateAppend\<close>

text \<open>After \<open>$\<close> and a line break at \<open>i\<close>: the index the loop counter is left at.\<close>

definition continuation_end :: "bytes \<Rightarrow> nat \<Rightarrow> nat" where
  "continuation_end v i =
     (case index_of (\<lambda>c. \<not> charmap_contains whitespaceChar c) (take (length v - (i + 1)) (drop i v)) of
        None \<Rightarrow> i | Some j \<Rightarrow> i + j - 1)"

text \<open>The variable name after a \<open>$\<close>, read at \<open>i\<close>, and the index its last byte has.\<close>

definition var_ref :: "bytes \<Rightarrow> nat \<Rightarrow> (bytes \<times> nat) res" where
  "var_ref v i =
     (if v ! i = CHR ''{'' then
        (case index_byte (drop (i + 1) v) CHR ''}'' of
           None \<Rightarrow> Inl (Err ''unclosed ${'')
         | Some j \<Rightarrow> Inr (take j (drop (i + 1) v), i + 1 + j))
      else if charmap_contains simpleVarnameChar (v ! i) then
        (case index_of (\<lambda>c. \<not> charmap_contains simpleVarnameChar c) (drop i v) of
           Some j \<Rightarrow> Inr (take j (drop i v), i + j - 1)
         | None \<Rightarrow> Inr (drop i v, length v))
      else Inl (Err ''invalid $-escape?''))"

lemma continuation_end_ge: "v ! i \<in> {CR, NL} \<Longrightarrow> i < length v \<Longrightarrow> i \<le> continuation_end v i"
proof -
  assume c: "v ! i \<in> {CR, NL}" and i: "i < length v"
  have "j \<noteq> 0"
    if "index_of (\<lambda>c. \<not> charmap_contains whitespaceChar c) (take (length v - (i + 1)) (drop i v)) = Some j"
    for j
    using that c i by (cases j) (auto simp: index_of_Some lex_simps)
  then show ?thesis by (fastforce simp: continuation_end_def split: option.splits)
qed

lemma var_ref_ge:
  assumes "var_ref v i = Inr (name, i')" and "i < length v"
  shows "i \<le> i'"
proof (cases "v ! i = CHR ''{''")
  case True
  then show ?thesis using assms by (auto simp: var_ref_def split: option.splits)
next
  case False
  then have sv: "charmap_contains simpleVarnameChar (v ! i)"
    using assms by (auto simp: var_ref_def split: if_splits)
  have "j \<noteq> 0" if "index_of (\<lambda>c. \<not> charmap_contains simpleVarnameChar c) (drop i v) = Some j" for j
    using that sv assms(2) by (cases j) (auto simp: index_of_Some)
  then show ?thesis using assms False sv
    by (fastforce simp: var_ref_def split: option.splits)
qed

function evaluateAppend :: "evalEnv option \<Rightarrow> bytes \<Rightarrow> evalString \<Rightarrow> bytes list \<Rightarrow> bytes res"
  and eval_loop :: "evalEnv option \<Rightarrow> bytes \<Rightarrow> int \<Rightarrow> bytes \<Rightarrow> nat \<Rightarrow> bytes list \<Rightarrow> bytes res" where
  "evaluateAppend env buf val lookups =
     (if es_v val = [] then Inr buf
      else if es_esc val = 0 then Inr (buf @ es_v val)
      else eval_loop env buf (es_pos val) (es_v val) 0 lookups)"
| "eval_loop env buf pos v i lookups =
     (if i < length v then
        if v ! i = CHR ''$'' then
          if i + 1 = length v then Inl (Err ''invalid $-escape?'')
          else if v ! (i + 1) \<in> {CHR '' '', CHR '':'', CHR ''$''}
          then eval_loop env (buf @ [v ! (i + 1)]) pos v (i + 2) lookups
          else if v ! (i + 1) \<in> {CR, NL}
          then eval_loop env buf pos v (continuation_end v (i + 1) + 1) lookups
          else
            (case var_ref v (i + 1) of
               Inl e \<Rightarrow> Inl e
             | Inr (varname, i') \<Rightarrow>
                 (case env of
                    None \<Rightarrow> eval_loop env buf pos v (i' + 1) lookups
                  | Some lookupVar \<Rightarrow>
                      if length lookups > 255 then Inl (Err ''cycle in rule variable'')
                      else
                        (case lookupVar pos varname of
                           None \<Rightarrow> eval_loop env buf pos v (i' + 1) lookups
                         | Some ev \<Rightarrow>
                             (case evaluateAppend env buf ev (lookups @ [varname]) of
                                Inl e \<Rightarrow> Inl e
                              | Inr buf' \<Rightarrow> eval_loop env buf' pos v (i' + 1) lookups))))
        else eval_loop env (buf @ [v ! i]) pos v (i + 1) lookups
      else Inr buf)"
  by pat_completeness auto
termination
proof (relation "measures [\<lambda>x. case x of Inl (env, buf, val, l) \<Rightarrow> 256 - length l
                                      | Inr (env, buf, pos, v, i, l) \<Rightarrow> 256 - length l,
                           \<lambda>x. case x of Inl (env, buf, val, l) \<Rightarrow> Suc (length (es_v val))
                                      | Inr (env, buf, pos, v, i, l) \<Rightarrow> length v - i]", goal_cases)
  case (4 env buf pos v i lookups)
  then have "i + 1 \<le> continuation_end v (i + 1)" by (auto intro!: continuation_end_ge)
  with 4 show ?case by auto
next
  case (5 env buf pos v i lookups a x y)
  then have "i + 1 \<le> y" by (auto intro!: var_ref_ge)
  with 5 show ?case by auto
next
  case (6 env buf pos v i lookups a x y)
  then have "i + 1 \<le> y" by (auto intro!: var_ref_ge)
  with 6 show ?case by auto
next
  case (8 env buf pos v i lookups a x y)
  then have "i + 1 \<le> y" by (auto intro!: var_ref_ge)
  with 8 show ?case by auto
qed auto

declare evaluateAppend.simps [simp del] eval_loop.simps [simp del]

definition evaluate :: "evalEnv option \<Rightarrow> evalString \<Rightarrow> bytes res" where
  "evaluate env val =
     (if es_v val = [] then Inr []
      else if es_esc val = 0 then Inr (es_v val)
      else evaluateAppend env [] val [])"

subsection \<open>Literal text and escapes\<close>

text \<open>The escaping of \<open>escapeNinjaToken\<close> on bytes: \<open>$\<close> before a space, a \<open>$\<close> or a colon.\<close>

definition dollar_escape :: "bytes \<Rightarrow> bytes" where
  "dollar_escape s = concat (map (\<lambda>c. if c \<in> set '' $:'' then [CHR ''$'', c] else [c]) s)"

lemma dollar_escape_simps [simp]:
  "dollar_escape [] = []"
  "dollar_escape (c # s) = (if c \<in> set '' $:'' then [CHR ''$'', c] else [c]) @ dollar_escape s"
  by (simp_all add: dollar_escape_def)

lemma dollar_escape_id: "set s \<inter> set '' $:'' = {} \<Longrightarrow> dollar_escape s = s"
  by (induction s) auto

lemma eval_loop_plain:
  "i < length v \<Longrightarrow> v ! i \<noteq> CHR ''$'' \<Longrightarrow>
   eval_loop env buf pos v i l = eval_loop env (buf @ [v ! i]) pos v (i + 1) l"
  by (simp add: eval_loop.simps [of env buf pos v i l])

lemma eval_loop_escape:
  "i + 1 < length v \<Longrightarrow> v ! i = CHR ''$'' \<Longrightarrow> v ! (i + 1) \<in> set '' $:'' \<Longrightarrow>
   eval_loop env buf pos v i l = eval_loop env (buf @ [v ! (i + 1)]) pos v (i + 2) l"
  by (auto simp: eval_loop.simps [of env buf pos v i l])

lemma eval_loop_end: "length v \<le> i \<Longrightarrow> eval_loop env buf pos v i l = Inr buf"
  by (simp add: eval_loop.simps [of env buf pos v i l])

lemma eval_loop_dollar_escape:
  "eval_loop env buf pos (A @ dollar_escape s) (length A) l = Inr (buf @ s)"
proof (induction s arbitrary: A buf)
  case Nil
  then show ?case by (simp add: eval_loop_end)
next
  case (Cons c s)
  show ?case
  proof (cases "c \<in> set '' $:''")
    case True
    then have "eval_loop env buf pos (A @ dollar_escape (c # s)) (length A) l =
        eval_loop env (buf @ [c]) pos ((A @ [CHR ''$'', c]) @ dollar_escape s) (length (A @ [CHR ''$'', c])) l"
      by (subst eval_loop_escape) (auto simp: nth_append)
    then show ?thesis by (simp only: Cons.IH) simp
  next
    case False
    then have "eval_loop env buf pos (A @ dollar_escape (c # s)) (length A) l =
        eval_loop env (buf @ [c]) pos ((A @ [c]) @ dollar_escape s) (length (A @ [c])) l"
      by (subst eval_loop_plain) (auto simp: nth_append)
    then show ?thesis by (simp only: Cons.IH) simp
  qed
qed

text \<open>An escaped token evaluates to the token, in any environment.\<close>

lemma evaluate_dollar_escape:
  assumes "es_v val = dollar_escape s" and "es_esc val = 0 \<Longrightarrow> set s \<inter> set '' $:'' = {}"
  shows "evaluate env val = Inr s"
proof -
  have "eval_loop env [] (es_pos val) (dollar_escape s) 0 [] = Inr s"
    using eval_loop_dollar_escape [of env "[]" "es_pos val" "[]" s "[]"] by simp
  moreover have "s = []" if "dollar_escape s = []"
    using that by (cases s) (auto split: if_splits)
  ultimately show ?thesis
    using assms by (auto simp: evaluate_def evaluateAppend.simps dollar_escape_id)
qed

subsection \<open>References\<close>

lemma var_ref_braced:
  assumes "CHR ''}'' \<notin> set n"
  shows "var_ref (A @ ''${'' @ n @ CHR ''}'' # rest) (Suc (length A)) = Inr (n, length A + 2 + length n)"
proof -
  have "index_byte (n @ CHR ''}'' # rest) CHR ''}'' = Some (length n)"
    unfolding index_byte_def using assms by (intro index_of_append_first) auto
  then show ?thesis by (simp add: var_ref_def nth_append)
qed

text \<open>A reference \<open>${n}\<close> to a bound name expands to the value, one lookup deeper.\<close>

lemma eval_loop_braced:
  assumes "CHR ''}'' \<notin> set n" and "lookupVar pos n = Some ev"
  shows "eval_loop (Some lookupVar) buf pos (A @ ''${'' @ n @ CHR ''}'' # rest) (length A) l =
     (if length l > 255 then Inl (Err ''cycle in rule variable'')
      else rbind (evaluateAppend (Some lookupVar) buf ev (l @ [n]))
        (\<lambda>buf'. eval_loop (Some lookupVar) buf' pos (A @ ''${'' @ n @ CHR ''}'' # rest)
            (length A + 2 + length n + 1) l))"
proof -
  let ?v = "A @ ''${'' @ n @ CHR ''}'' # rest"
  have at: "?v ! length A = CHR ''$''" "?v ! (length A + 1) = CHR ''{''"
    by (auto simp: nth_append)
  have len: "length A < length ?v" "length A + 1 \<noteq> length ?v" by auto
  have ref: "var_ref ?v (length A + 1) = Inr (n, length A + 2 + length n)"
    using var_ref_braced [OF assms(1)] by simp
  show ?thesis
    unfolding rbind_def
    by (subst eval_loop.simps)
      (simp only: at len ref assms(2) if_True if_False sum.case prod.case option.case, simp)
qed

text \<open>
  A set of names each of which is bound, at every position, to a value that starts with a
  reference to a name of the set: every evaluation in it runs into the lookup limit.
\<close>

definition cyclic_names :: "evalEnv \<Rightarrow> bytes set \<Rightarrow> bool" where
  "cyclic_names lookupVar N \<longleftrightarrow>
     (\<forall>n \<in> N. \<forall>pos. \<exists>ev m rest. lookupVar pos n = Some ev \<and> es_esc ev > 0 \<and>
        es_v ev = ''${'' @ m @ CHR ''}'' # rest \<and> m \<in> N \<and> CHR ''}'' \<notin> set m)"

lemma evaluateAppend_cyclic:
  assumes "cyclic_names lookupVar N" and "n \<in> N" and "CHR ''}'' \<notin> set n"
    and "es_esc val > 0" and "es_v val = ''${'' @ n @ CHR ''}'' # rest"
  shows "evaluateAppend (Some lookupVar) buf val l = Inl (Err ''cycle in rule variable'')"
  using assms(2-)
proof (induction "256 - length l" arbitrary: n val rest buf l)
  case 0
  from assms(1) \<open>n \<in> N\<close> obtain ev where "lookupVar (es_pos val) n = Some ev"
    by (fastforce simp: cyclic_names_def)
  with 0 show ?case
    using eval_loop_braced [of n lookupVar "es_pos val" ev buf "[]" rest l]
    by (simp add: evaluateAppend.simps)
next
  case (Suc k)
  from assms(1) \<open>n \<in> N\<close> obtain ev m rest' where ev: "lookupVar (es_pos val) n = Some ev"
    "es_esc ev > 0" "es_v ev = ''${'' @ m @ CHR ''}'' # rest'" "m \<in> N" "CHR ''}'' \<notin> set m"
    unfolding cyclic_names_def by blast
  have "k = 256 - length (l @ [n])" using Suc.hyps(2) by simp
  then have "evaluateAppend (Some lookupVar) buf ev (l @ [n]) = Inl (Err ''cycle in rule variable'')"
    using ev by (intro Suc.hyps(1)) auto
  with Suc.prems ev(1) show ?case
    using eval_loop_braced [of n lookupVar "es_pos val" ev buf "[]" rest l]
    by (simp add: evaluateAppend.simps)
qed

end
