(* ===== verification/Paths.thy ===== *)
theory Paths
  imports Eval
begin

text \<open>
  The parser of path lists on a build, default, include or subninja line
  (\<open>toolsupport/ninjautil/paths.go\<close>). The parser object is a record of the line and the
  position; each method returns the advanced parser with its result. A line that ends in a
  lone \<open>$\<close> makes \<open>path\<close> slice past the end of the line, a run-time panic.
\<close>

record pathParser =
  pp_buf :: bytes
  pp_pos :: nat

definition newPathParser :: "bytes \<Rightarrow> pathParser" where
  "newPathParser buf = \<lparr>pp_buf = buf, pp_pos = 0\<rparr>"

definition pp_skip :: "pathParser \<Rightarrow> pathParser" where
  "pp_skip p = p\<lparr>pp_pos := pp_pos p + skipSpaces (pp_buf p) (pp_pos p) whitespaceChar\<rparr>"

definition pp_ident :: "pathParser \<Rightarrow> pathParser \<times> bytes res" where
  "pp_ident p0 =
     (let p = pp_skip p0; buf = drop (pp_pos p) (pp_buf p) in
      if buf = [] then (p, Inl (Err ''no ident''))
      else let e = skipBytesAny buf varnameChar in
        (p\<lparr>pp_pos := pp_pos p + e\<rparr>, Inr (take e buf)))"

text \<open>The loop of \<open>path\<close>: the number of bytes consumed, and the \<open>esc\<close> count.\<close>

function path_loop :: "bytes \<Rightarrow> nat \<Rightarrow> nat \<Rightarrow> (nat \<times> nat) res" where
  "path_loop buf i esc =
     (if length buf < i then Inl (Panic ''slice bounds out of range'')
      else let n = indexBytesAny (drop i buf) nonLiteralChar in
        if i + n = length buf then Inr (length buf, esc)
        else if buf ! (i + n) = CHR ''$'' then
          (if has_prefix (drop (i + n + 1) buf) [CR, NL] \<or> has_prefix (drop (i + n + 1) buf) [NL]
           then Inr (i + n, esc)
           else path_loop buf (i + n + 2) (Suc esc))
        else Inr (i + n, esc))"
  by pat_completeness auto
termination
  by (relation "measure (\<lambda>(buf, i, esc). Suc (length buf) - i)") (auto simp: Let_def)

declare path_loop.simps [simp del]

definition pp_path :: "pathParser \<Rightarrow> (pathParser \<times> evalString) res" where
  "pp_path p0 =
     (let p = pp_skip p0; buf = drop (pp_pos p) (pp_buf p) in
      if buf = [] then Inr (p, mk_es [] 0)
      else rbind (path_loop buf 0 0)
        (\<lambda>(n, esc). Inr (p\<lparr>pp_pos := pp_pos p + n\<rparr>, mk_es (take n buf) esc)))"

subsection \<open>Progress of path\<close>

lemma path_loop_bounds:
  "path_loop buf i esc = Inr (n, esc') \<Longrightarrow> i \<le> n \<and> n \<le> length buf"
proof (induction buf i esc rule: path_loop.induct)
  case (1 buf i esc)
  show ?case
  proof (cases "length buf < i")
    case True
    with "1.prems" show ?thesis by (simp add: path_loop.simps [of buf i])
  next
    case False
    define k where "k = indexBytesAny (drop i buf) nonLiteralChar"
    have k: "i + k \<le> length buf"
      using indexBytesAny_le [of "drop i buf" nonLiteralChar] False by (simp add: k_def)
    show ?thesis
      using "1.IH" [OF False k_def] "1.prems" k False
      by (auto simp: path_loop.simps [of buf i esc] k_def [symmetric] Let_def split: if_splits)
  qed
qed

lemma pp_skip_buf [simp]: "pp_buf (pp_skip p) = pp_buf p"
  by (simp add: pp_skip_def)

lemma pp_skip_pos: "pp_pos p \<le> length (pp_buf p) \<Longrightarrow>
   pp_pos p \<le> pp_pos (pp_skip p) \<and> pp_pos (pp_skip p) \<le> length (pp_buf p)"
  by (simp add: pp_skip_def skipSpaces_bounds)

lemma pp_path_progress:
  assumes "pp_path p = Inr (p', e)" and "es_v e \<noteq> []"
  shows "pp_buf p' = pp_buf p \<and> pp_pos p < pp_pos p' \<and> pp_pos p' \<le> length (pp_buf p)"
  using assms
  by (auto simp: pp_path_def Let_def rbind_eq_Inr pp_skip_def split: if_splits dest!: path_loop_bounds)

lemma pp_path_bounds:
  assumes "pp_path p = Inr (p', e)" and "pp_pos p \<le> length (pp_buf p)"
  shows "pp_buf p' = pp_buf p \<and> pp_pos p \<le> pp_pos p' \<and> pp_pos p' \<le> length (pp_buf p)"
  using assms pp_skip_pos [of p]
  by (auto simp: pp_path_def Let_def rbind_eq_Inr split: if_splits dest!: path_loop_bounds)

subsection \<open>pathList\<close>

function pp_pathList :: "pathParser \<Rightarrow> evalString list \<Rightarrow> nat \<Rightarrow> (pathParser \<times> evalString list \<times> nat) res" where
  "pp_pathList p pl n =
     (case pp_path p of
        Inl e \<Rightarrow> Inl e
      | Inr (p', path) \<Rightarrow>
          if es_v path = [] then Inr (p', pl, n)
          else pp_pathList p' (pl @ [path]) (Suc n))"
  by pat_completeness auto
termination
  by (relation "measure (\<lambda>(p, pl, n). length (pp_buf p) - pp_pos p)") (auto dest: pp_path_progress)

declare pp_pathList.simps [simp del]

text \<open>\<open>pathList(pl)\<close> appends to \<open>pl\<close> and counts the paths it appended.\<close>

lemma pp_pathList_count:
  "pp_pathList p pl n = Inr (p', pl', n') \<Longrightarrow>
   \<exists>qs. pl' = pl @ qs \<and> n' = n + length qs \<and> (\<forall>q \<in> set qs. es_v q \<noteq> [])"
proof (induction p pl n arbitrary: p' pl' n' rule: pp_pathList.induct)
  case (1 p pl n)
  show ?case
  proof (cases "pp_path p")
    case (Inl e)
    then show ?thesis using "1.prems" by (simp add: pp_pathList.simps [of p])
  next
    case (Inr r)
    obtain q path where r: "r = (q, path)" by force
    show ?thesis
    proof (cases "es_v path = []")
      case True
      then show ?thesis using "1.prems" Inr r by (simp add: pp_pathList.simps [of p])
    next
      case False
      then have "pp_pathList q (pl @ [path]) (Suc n) = Inr (p', pl', n')"
        using "1.prems" Inr r by (simp add: pp_pathList.simps [of p])
      then obtain qs where "pl' = (pl @ [path]) @ qs" "n' = Suc n + length qs"
          "\<forall>q \<in> set qs. es_v q \<noteq> []"
        using "1.IH" [OF Inr r [symmetric] False] by blast
      then show ?thesis using False by (intro exI [of _ "path # qs"]) auto
    qed
  qed
qed

lemma pp_pathList_bounds:
  "pp_pathList p pl n = Inr (p', pl', n') \<Longrightarrow> pp_pos p \<le> length (pp_buf p) \<Longrightarrow>
   pp_buf p' = pp_buf p \<and> pp_pos p \<le> pp_pos p' \<and> pp_pos p' \<le> length (pp_buf p)"
proof (induction p pl n arbitrary: p' pl' n' rule: pp_pathList.induct)
  case (1 p pl n)
  then obtain q path where step: "pp_path p = Inr (q, path)"
    by (auto simp: pp_pathList.simps [of p] split: sum.splits)
  note b = pp_path_bounds [OF step "1.prems"(2)]
  show ?case
  proof (cases "es_v path = []")
    case True
    then show ?thesis using step b "1.prems" by (simp add: pp_pathList.simps [of p])
  next
    case False
    then have "pp_pathList q (pl @ [path]) (Suc n) = Inr (p', pl', n')"
      using step "1.prems" by (simp add: pp_pathList.simps [of p])
    with "1.IH" [OF step refl False] b show ?thesis by fastforce
  qed
qed

subsection \<open>Separators\<close>

definition pp_colon :: "pathParser \<Rightarrow> pathParser \<times> bool" where
  "pp_colon p0 =
     (let p = pp_skip p0 in
      if pp_pos p = length (pp_buf p) then (p, False)
      else if pp_buf p ! pp_pos p \<noteq> CHR '':'' then (p, False)
      else (p\<lparr>pp_pos := pp_pos p + 1\<rparr>, True))"

definition pp_pipe :: "pathParser \<Rightarrow> pathParser \<times> bool" where
  "pp_pipe p0 =
     (let p = pp_skip p0 in
      if pp_pos p = length (pp_buf p) then (p, False)
      else if pp_buf p ! pp_pos p \<noteq> CHR ''|'' then (p, False)
      else if pp_pos p + 1 = length (pp_buf p) then (p\<lparr>pp_pos := pp_pos p + 1\<rparr>, True)
      else if pp_buf p ! (pp_pos p + 1) \<in> {CHR ''|'', CHR 0x40} then (p, False)
      else (p\<lparr>pp_pos := pp_pos p + 1\<rparr>, True))"

definition pp_pipe2 :: "pathParser \<Rightarrow> pathParser \<times> bool" where
  "pp_pipe2 p0 =
     (let p = pp_skip p0 in
      if pp_pos p + 1 \<ge> length (pp_buf p) then (p, False)
      else if has_prefix (drop (pp_pos p) (pp_buf p)) ''||'' then (p\<lparr>pp_pos := pp_pos p + 2\<rparr>, True)
      else (p, False))"

definition pp_pipeAt :: "pathParser \<Rightarrow> pathParser \<times> bool" where
  "pp_pipeAt p0 =
     (let p = pp_skip p0 in
      if pp_pos p + 1 \<ge> length (pp_buf p) then (p, False)
      else if has_prefix (drop (pp_pos p) (pp_buf p)) [CHR ''|'', CHR 0x40]
      then (p\<lparr>pp_pos := pp_pos p + 2\<rparr>, True)
      else (p, False))"

subsection \<open>Reading back an escaped path\<close>

text \<open>Bytes that end a path and that no escape of \<open>escapeNinjaToken\<close> protects.\<close>

definition path_safe :: "bytes \<Rightarrow> bool" where
  "path_safe s \<longleftrightarrow> set s \<inter> {TAB, CR, NL, CHR ''|'', NUL} = {}"

definition dollar_count :: "bytes \<Rightarrow> nat" where
  "dollar_count s = length (filter (\<lambda>c. c \<in> set '' $:'') s)"

lemma indexBytesAny_append_safe:
  assumes "\<And>c. c \<in> set xs \<Longrightarrow> \<not> charmap_contains cm c"
  shows "indexBytesAny (xs @ ys) cm = length xs + indexBytesAny ys cm"
proof -
  have "index_of (charmap_contains cm) xs = None" using assms by (auto simp: index_of_None)
  then show ?thesis
    by (cases "index_of (charmap_contains cm) ys") (simp_all add: indexBytesAny_def index_of_append)
qed

text \<open>A path scan at the start of an escaped token stops at the byte after the token.\<close>

lemma path_loop_plain:
  assumes "\<not> charmap_contains nonLiteralChar c"
  shows "path_loop (A @ c # B) (length A) esc = path_loop (A @ c # B) (Suc (length A)) esc"
proof -
  have "indexBytesAny (c # B) nonLiteralChar = Suc (indexBytesAny B nonLiteralChar)"
    using indexBytesAny_append_safe [of "[c]" nonLiteralChar B] assms by simp
  then show ?thesis
    using indexBytesAny_le [of B nonLiteralChar]
    by (simp add: path_loop.simps [of _ "length A"] path_loop.simps [of _ "Suc (length A)"] Let_def)
qed

lemma path_loop_escaped:
  assumes "c \<notin> {CR, NL}"
  shows "path_loop (A @ CHR ''$'' # c # B) (length A) esc =
         path_loop (A @ CHR ''$'' # c # B) (length A + 2) (Suc esc)"
proof -
  have "indexBytesAny (CHR ''$'' # c # B) nonLiteralChar = 0"
    by (simp add: indexBytesAny_def lex_simps)
  then show ?thesis
    using assms by (simp add: path_loop.simps [of _ "length A"] Let_def)
qed

lemma path_loop_token:
  assumes "path_safe s" and "B = [] \<or> hd B \<in> {CHR '' '', CHR '':'', CHR ''|'', TAB, CR, NL}"
  shows "path_loop (A @ dollar_escape s @ B) (length A) esc =
         Inr (length A + length (dollar_escape s), esc + dollar_count s)"
  using assms(1)
proof (induction s arbitrary: A esc)
  case Nil
  have "indexBytesAny B nonLiteralChar = 0"
    using assms(2) by (cases B) (auto simp: indexBytesAny_def lex_simps)
  then show ?case
    using assms(2) by (cases B) (auto simp: path_loop.simps [of _ "length A"] dollar_count_def Let_def)
next
  case (Cons c s)
  have s: "path_safe s" using Cons.prems by (simp add: path_safe_def)
  show ?case
  proof (cases "c \<in> set '' $:''")
    case True
    then have "path_loop (A @ dollar_escape (c # s) @ B) (length A) esc =
        path_loop ((A @ [CHR ''$'', c]) @ dollar_escape s @ B) (length (A @ [CHR ''$'', c])) (Suc esc)"
      using path_loop_escaped [of c A "dollar_escape s @ B" esc] by auto
    then show ?thesis using True by (simp only: Cons.IH [OF s]) (simp add: dollar_count_def)
  next
    case False
    with Cons.prems have "\<not> charmap_contains nonLiteralChar c"
      by (auto simp: lex_simps path_safe_def)
    then have "path_loop (A @ dollar_escape (c # s) @ B) (length A) esc =
        path_loop ((A @ [c]) @ dollar_escape s @ B) (length (A @ [c])) esc"
      using path_loop_plain [of c A "dollar_escape s @ B" esc] False by auto
    then show ?thesis using False by (simp only: Cons.IH [OF s]) (auto simp: dollar_count_def)
  qed
qed

lemma dollar_count_zero: "dollar_count s = 0 \<Longrightarrow> set s \<inter> set '' $:'' = {}"
  by (auto simp: dollar_count_def filter_empty_conv)

text \<open>Skipping white space stops before the token: its first byte is neither white space nor a
  continuation, even when it is the \<open>$\<close> of an escaped dollar or colon.\<close>

lemma skipSpaces_loop_stop:
  assumes "pos < length buf"
    and "buf ! pos \<notin> {CHR '' '', TAB, CR, NL}"
    and "buf ! pos = CHR ''$'' \<Longrightarrow> pos + 1 < length buf \<Longrightarrow>
           buf ! (pos + 1) \<notin> {NL, CHR '' '', TAB, CR}"
  shows "skipSpaces buf pos whitespaceChar = 0"
  using assms
  by (auto simp: skipSpaces_def skipSpaces_loop.simps [of buf pos _ 0] Let_def
      Cons_nth_drop_Suc [symmetric] lex_simps)

lemma skip_at_token:
  assumes "path_safe s" and "s \<noteq> []" and "hd s \<noteq> CHR '' ''"
  shows "skipSpaces (A @ dollar_escape s @ B) (length A) whitespaceChar = 0"
proof -
  obtain c t where s: "s = c # t" using assms(2) by (cases s) auto
  show ?thesis
    using assms unfolding s by (intro skipSpaces_loop_stop) (auto simp: nth_append path_safe_def)
qed

end
