(* ===== verification/Bindings.thy ===== *)
theory Bindings
  imports Eval
begin

unbundle bit_operations_syntax

text \<open>
  Variable bindings (\<open>toolsupport/ninjautil/binding.go\<close> and the bindings of
  \<open>rule.go\<close>). A file scope keeps its bindings in a hash-sharded multimap that several
  parser goroutines fill in any order; a rule keeps them in a list. Both answer a lookup with
  the latest binding that precedes a statement position. The locale \<open>var_store\<close> states
  that contract; its lemma \<open>get_sets_perm\<close> says that a lookup does not depend on the order
  the bindings were inserted in, and both stores are interpretations of it. Go's
  \<open>maphash.Bytes(seed, key)\<close> is an arbitrary function \<open>hash\<close>: nothing proved here
  depends on its values.
\<close>

record binding =
  b_name :: bytes
  b_value :: evalString

type_synonym bindingList = "binding list"

subsection \<open>The lookup loop shared by shards and rules\<close>

text \<open>One iteration of the loop, with \<open>ret, found\<close> as an option.\<close>

definition pick_binding :: "int \<Rightarrow> bytes \<Rightarrow> evalString option \<Rightarrow> binding \<Rightarrow> evalString option" where
  "pick_binding pos key ret b =
     (if pos \<ge> 0 \<and> es_pos (b_value b) \<ge> pos then ret
      else if (case ret of None \<Rightarrow> False | Some r \<Rightarrow> es_pos (b_value b) < es_pos r) then ret
      else if key = b_name b then Some (b_value b)
      else ret)"

text \<open>The loop runs from the last element to the first.\<close>

definition latest_binding :: "int \<Rightarrow> bytes \<Rightarrow> bindingList \<Rightarrow> evalString option" where
  "latest_binding pos key bs = fold (\<lambda>b ret. pick_binding pos key ret b) (rev bs) None"

definition visible :: "int \<Rightarrow> evalString \<Rightarrow> bool" where
  "visible pos v \<longleftrightarrow> pos < 0 \<or> es_pos v < pos"

definition later :: "evalString option \<Rightarrow> evalString \<Rightarrow> evalString option" where
  "later old v = (case old of None \<Rightarrow> Some v
     | Some w \<Rightarrow> if es_pos v \<le> es_pos w then Some w else Some v)"

lemma pick_binding_eq:
  "pick_binding pos key ret b =
     (if key = b_name b \<and> visible pos (b_value b) \<and>
        (case ret of None \<Rightarrow> True | Some r \<Rightarrow> es_pos r \<le> es_pos (b_value b))
      then Some (b_value b) else ret)"
  by (auto simp: pick_binding_def visible_def split: option.splits)

lemma latest_binding_Nil [simp]: "latest_binding pos key [] = None"
  by (simp add: latest_binding_def)

lemma latest_binding_Cons:
  "latest_binding pos key (b # bs) = pick_binding pos key (latest_binding pos key bs) b"
  by (simp add: latest_binding_def)

lemma latest_binding_other [simp]:
  "(\<And>b. b \<in> set bs \<Longrightarrow> b_name b \<noteq> key) \<Longrightarrow> latest_binding pos key bs = None"
  by (induction bs) (auto simp: latest_binding_Cons pick_binding_eq)

lemma latest_binding_append1:
  "latest_binding pos key (bs @ [b]) =
     (if key = b_name b \<and> visible pos (b_value b)
      then later (latest_binding pos key bs) (b_value b)
      else latest_binding pos key bs)"
proof (induction bs)
  case Nil
  then show ?case by (simp add: latest_binding_Cons pick_binding_eq later_def)
next
  case (Cons a bs)
  then show ?case
    by (cases "latest_binding pos key bs")
      (auto simp: latest_binding_Cons pick_binding_eq later_def)
qed

lemma latest_binding_sound:
  "latest_binding pos key bs = Some v \<Longrightarrow>
   visible pos v \<and> (\<exists>b \<in> set bs. b_name b = key \<and> b_value b = v)"
  by (induction bs) (auto simp: latest_binding_Cons pick_binding_eq split: if_splits)

lemma latest_binding_maximal:
  "b \<in> set bs \<Longrightarrow> b_name b = key \<Longrightarrow> visible pos (b_value b) \<Longrightarrow>
   \<exists>v. latest_binding pos key bs = Some v \<and> es_pos (b_value b) \<le> es_pos v"
  by (induction bs) (fastforce simp: latest_binding_Cons pick_binding_eq split: option.splits)+

subsection \<open>shardBindings\<close>

record shardBindings =
  sb_shards :: "bindingList list"

text \<open>\<open>init\<close>: the number of shards is the first power of two with \<open>n/size < 8\<close>.\<close>

lemma le_div_imp_mult_le: "\<not> n div k < (8::nat) \<Longrightarrow> 8 * k \<le> n"
  by (meson div_times_less_eq_dividend le_trans linorder_not_less mult_le_mono1)

function shard_count :: "nat \<Rightarrow> nat \<Rightarrow> nat" where
  "shard_count n sz =
     (if sz = 0 then 1 else if n div sz < 8 then sz else shard_count n (2 * sz))"
  by pat_completeness auto
termination
proof (relation "measure (\<lambda>(n, sz). n - sz)", goal_cases)
  case (2 n sz)
  then have "8 * sz \<le> n" by (simp add: le_div_imp_mult_le)
  with 2 show ?case by auto
qed auto

declare shard_count.simps [simp del]

definition newShardBindings :: "nat \<Rightarrow> shardBindings" where
  "newShardBindings n = \<lparr>sb_shards = replicate (shard_count n 1) []\<rparr>"

text \<open>The shard of a key: \<open>h & uint64(len(shards)-1)\<close>, the first one when there is only one.\<close>

definition shard_index :: "(bytes \<Rightarrow> 64 word) \<Rightarrow> nat \<Rightarrow> bytes \<Rightarrow> nat" where
  "shard_index hash n key =
     (if n = 1 then 0 else unat (hash key AND (of_nat n - 1)))"

definition sb_get :: "(bytes \<Rightarrow> 64 word) \<Rightarrow> shardBindings option \<Rightarrow> int \<Rightarrow> bytes \<Rightarrow> evalString option" where
  "sb_get hash sb pos key =
     (case sb of None \<Rightarrow> None
      | Some s \<Rightarrow>
          if sb_shards s = [] then None
          else latest_binding pos key (sb_shards s ! shard_index hash (length (sb_shards s)) key))"

definition sb_set :: "(bytes \<Rightarrow> 64 word) \<Rightarrow> bytes \<Rightarrow> evalString \<Rightarrow> shardBindings option \<Rightarrow> shardBindings option" where
  "sb_set hash key value sb =
     (case sb of None \<Rightarrow> None
      | Some s \<Rightarrow>
          if sb_shards s = [] then Some s
          else let i = shard_index hash (length (sb_shards s)) key in
            Some (s\<lparr>sb_shards := (sb_shards s)[i := sb_shards s ! i @ [\<lparr>b_name = key, b_value = value\<rparr>]]\<rparr>))"

definition sb_keys :: "shardBindings option \<Rightarrow> bytes list" where
  "sb_keys sb = (case sb of None \<Rightarrow> [] | Some s \<Rightarrow> concat (map (map b_name) (sb_shards s)))"

text \<open>A usable store: at least one shard, and few enough for the mask arithmetic of 64 bits.\<close>

definition sb_ok :: "shardBindings option \<Rightarrow> bool" where
  "sb_ok sb \<longleftrightarrow> (\<exists>s. sb = Some s \<and> 0 < length (sb_shards s) \<and> length (sb_shards s) < 2 ^ 63)"

lemma shard_index_lt: "0 < n \<Longrightarrow> n < 2 ^ 63 \<Longrightarrow> shard_index hash n key < n"
proof -
  assume n: "0 < n" "n < 2 ^ 63"
  have eq: "(of_nat n - 1 :: 64 word) = of_nat (n - 1)"
    using n by (simp add: of_nat_diff)
  have "unat (hash key AND (of_nat (n - 1) :: 64 word)) \<le> unat (of_nat (n - 1) :: 64 word)"
    by (rule word_and_le1 [THEN word_le_nat_alt [THEN iffD1]])
  also have "\<dots> \<le> n - 1" by (simp only: unat_of_nat mod_less_eq_dividend)
  finally have "unat (hash key AND (of_nat (n - 1) :: 64 word)) < n" using n(1) by linarith
  then show ?thesis using n(1) unfolding shard_index_def eq by presburger
qed

lemma shard_count_pos: "0 < sz \<Longrightarrow> 0 < shard_count n sz"
proof (induction n sz rule: shard_count.induct)
  case (1 n sz)
  then show ?case by (subst shard_count.simps) auto
qed

lemma shard_count_bound: "0 < sz \<Longrightarrow> shard_count n sz \<le> max sz n"
proof (induction n sz rule: shard_count.induct)
  case (1 n sz)
  show ?case
  proof (cases "n div sz < 8")
    case True
    then show ?thesis using "1.prems" by (subst shard_count.simps) auto
  next
    case False
    then have "8 * sz \<le> n" by (rule le_div_imp_mult_le)
    then have "2 * sz \<le> n" by simp
    moreover have "shard_count n (2 * sz) \<le> max (2 * sz) n"
      using "1.IH" "1.prems" False by auto
    ultimately show ?thesis using False "1.prems" by (subst shard_count.simps) auto
  qed
qed

subsection \<open>The contract of a variable store\<close>

locale var_store =
  fixes get :: "'s \<Rightarrow> int \<Rightarrow> bytes \<Rightarrow> evalString option"
    and set_var :: "bytes \<Rightarrow> evalString \<Rightarrow> 's \<Rightarrow> 's"
    and ok :: "'s \<Rightarrow> bool"
  assumes get_set: "ok s \<Longrightarrow> get (set_var k v s) pos key =
      (if key = k \<and> visible pos v then later (get s pos key) v else get s pos key)"
    and ok_set: "ok s \<Longrightarrow> ok (set_var k v s)"
begin

definition sets :: "(bytes \<times> evalString) list \<Rightarrow> 's \<Rightarrow> 's" where
  "sets kvs s = fold (\<lambda>(k, v) s. set_var k v s) kvs s"

lemma ok_sets: "ok s \<Longrightarrow> ok (sets kvs s)"
  unfolding sets_def by (induction kvs arbitrary: s) (auto simp: ok_set)

lemma get_sets_snoc: "ok s \<Longrightarrow> get (sets (kvs @ [(k, v)]) s) pos key =
    (if key = k \<and> visible pos v then later (get (sets kvs s) pos key) v else get (sets kvs s) pos key)"
  using get_set [OF ok_sets] by (simp add: sets_def)

text \<open>On a store with no binding of the key, the result is the one with the largest position.\<close>

lemma get_sets_Some:
  assumes "ok s" and "get s pos key = None" and "get (sets kvs s) pos key = Some w"
  shows "(key, w) \<in> set kvs \<and> visible pos w \<and>
    (\<forall>v. (key, v) \<in> set kvs \<longrightarrow> visible pos v \<longrightarrow> es_pos v \<le> es_pos w)"
  using assms(3)
proof (induction kvs arbitrary: w rule: rev_induct)
  case Nil
  then show ?case using assms by (simp add: sets_def)
next
  case (snoc kv kvs)
  obtain k v where kv: "kv = (k, v)" by force
  show ?case
  proof (cases "get (sets kvs s) pos key")
    case None
    have none: "\<not> (key = k' \<and> visible pos v')" if "(k', v') \<in> set kvs" for k' v'
      using None that
    proof (induction kvs rule: rev_induct)
      case (snoc a as)
      obtain a1 a2 where "a = (a1, a2)" by force
      with snoc show ?case
        by (auto simp: get_sets_snoc [OF assms(1)] later_def split: if_splits option.splits)
    qed simp
    then show ?thesis using snoc.prems None
      by (auto simp: kv get_sets_snoc [OF assms(1)] later_def split: if_splits)
  next
    case (Some u)
    note IH = snoc.IH [OF this]
    then show ?thesis using snoc.prems Some
      by (fastforce simp: kv get_sets_snoc [OF assms(1)] later_def split: if_splits)
  qed
qed

lemma get_sets_None:
  assumes "ok s" and "get s pos key = None"
  shows "get (sets kvs s) pos key = None \<longleftrightarrow> (\<forall>v. (key, v) \<in> set kvs \<longrightarrow> \<not> visible pos v)"
proof (induction kvs rule: rev_induct)
  case Nil
  then show ?case using assms by (simp add: sets_def)
next
  case (snoc kv kvs)
  obtain k v where "kv = (k, v)" by force
  with snoc show ?case
    by (auto simp: get_sets_snoc [OF assms(1)] later_def split: option.splits if_splits)
qed

text \<open>Inserting the same bindings in another order gives the same lookups, when no two bindings
  of a name have the same position.\<close>

lemma get_sets_perm:
  assumes ok: "ok s" and empty: "get s pos key = None" and same: "set kvs = set kvs'"
    and dist: "\<And>v w. (key, v) \<in> set kvs \<Longrightarrow> (key, w) \<in> set kvs \<Longrightarrow> es_pos v = es_pos w \<Longrightarrow> v = w"
  shows "get (sets kvs s) pos key = get (sets kvs' s) pos key"
proof (cases "get (sets kvs s) pos key")
  case None
  then show ?thesis using get_sets_None [OF ok empty] same by metis
next
  case (Some w)
  then have "get (sets kvs' s) pos key \<noteq> None"
    using get_sets_None [OF ok empty] same by (metis option.distinct(1))
  then obtain u where u: "get (sets kvs' s) pos key = Some u" by blast
  have "es_pos u = es_pos w"
    using get_sets_Some [OF ok empty Some] get_sets_Some [OF ok empty u] same
    by (auto intro: antisym)
  then show ?thesis
    using Some u dist same get_sets_Some [OF ok empty Some] get_sets_Some [OF ok empty u] by metis
qed

end

lemma sb_get_set:
  assumes "sb_ok s"
  shows "sb_get hash (sb_set hash k v s) pos key =
      (if key = k \<and> visible pos v then later (sb_get hash s pos key) v else sb_get hash s pos key)"
proof -
  obtain t where t: "s = Some t" "0 < length (sb_shards t)" "length (sb_shards t) < 2 ^ 63"
    using assms by (auto simp: sb_ok_def)
  let ?n = "length (sb_shards t)"
  have lt: "shard_index hash ?n x < ?n" for x
    using shard_index_lt t by blast
  have ne: "sb_shards t \<noteq> []" using t(2) by auto
  show ?thesis
  proof (cases "shard_index hash ?n k = shard_index hash ?n key")
    case True
    define i where "i = shard_index hash ?n key"
    define bs where "bs = sb_shards t ! i"
    have "sb_get hash (sb_set hash k v s) pos key =
        latest_binding pos key (bs @ [\<lparr>b_name = k, b_value = v\<rparr>])"
      using ne lt [of key] by (simp add: t(1) sb_get_def sb_set_def Let_def True i_def bs_def)
    moreover have "sb_get hash s pos key = latest_binding pos key bs"
      using ne by (simp add: t(1) sb_get_def i_def bs_def)
    ultimately show ?thesis by (simp only: latest_binding_append1) simp
  next
    case False
    then have "key \<noteq> k" by auto
    with False show ?thesis using t(1) ne by (simp add: sb_get_def sb_set_def Let_def)
  qed
qed

lemma sb_ok_set: "sb_ok s \<Longrightarrow> sb_ok (sb_set hash k v s)"
proof -
  assume "sb_ok s"
  then obtain t where t: "s = Some t" and ok: "sb_ok (Some t)" by (auto simp: sb_ok_def)
  have "\<exists>u. sb_set hash k v (Some t) = Some u \<and> length (sb_shards u) = length (sb_shards t)"
    by (simp add: sb_set_def Let_def)
  then show ?thesis using ok unfolding t sb_ok_def by auto
qed

lemma sb_ok_new: "n < 2 ^ 63 \<Longrightarrow> sb_ok (Some (newShardBindings n))"
  using shard_count_pos [of 1 n] shard_count_bound [of 1 n]
  by (simp add: sb_ok_def newShardBindings_def)

lemma sb_get_new: "sb_get hash (Some (newShardBindings n)) pos key = None" if "n < 2 ^ 63"
proof -
  have "shard_index hash (shard_count n 1) key < shard_count n 1"
    using sb_ok_new [OF that] by (intro shard_index_lt) (auto simp: sb_ok_def newShardBindings_def)
  then show ?thesis by (simp add: sb_get_def newShardBindings_def)
qed

interpretation shard_store: var_store "sb_get hash" "sb_set hash" sb_ok
proof
  show "sb_ok s \<Longrightarrow> sb_get hash (sb_set hash k v s) pos key =
      (if key = k \<and> visible pos v then later (sb_get hash s pos key) v else sb_get hash s pos key)"
    for s k v pos key by (rule sb_get_set)
  show "sb_ok s \<Longrightarrow> sb_ok (sb_set hash k v s)" for s k v
    by (rule sb_ok_set)
qed

subsection \<open>Rules\<close>

text \<open>
  A rule is referred to by pointer; \<open>r_ptr\<close> stands for the address, which is compared with
  the one of the predeclared \<open>phonyRule\<close>.
\<close>

record rule =
  r_ptr :: nat
  r_name :: bytes
  r_bindings :: bindingList

definition phonyRule :: rule where
  "phonyRule = \<lparr>r_ptr = 0, r_name = ''phony'', r_bindings = []\<rparr>"

definition rule_setVar :: "bytes \<Rightarrow> evalString \<Rightarrow> rule \<Rightarrow> rule" where
  "rule_setVar key val r = r\<lparr>r_bindings := r_bindings r @ [\<lparr>b_name = key, b_value = val\<rparr>]\<rparr>"

definition rule_lookupVar :: "rule \<Rightarrow> int \<Rightarrow> bytes \<Rightarrow> evalString option" where
  "rule_lookupVar r pos key = latest_binding pos key (r_bindings r)"

interpretation rule_store: var_store rule_lookupVar rule_setVar "\<lambda>_. True"
  by unfold_locales (simp_all add: rule_lookupVar_def rule_setVar_def latest_binding_append1)

end
