(* ===== verification/Scope.thy ===== *)
theory Scope
  imports Bindings
begin

text \<open>
  Statements, rule tables and scopes of the manifest parser
  (\<open>statement.go\<close>, \<open>rule.go\<close>, \<open>scope.go\<close> under \<open>toolsupport/ninjautil/\<close>).
  A rule table is an array of linked chains, a chain being the list of its rules with the head
  first; the locale \<open>rule_table\<close> is the contract of such a table and the interpretation
  \<open>rule_chains\<close> discharges it for the code's. A file scope has its own rules and bindings
  and an optional parent scope.
\<close>

subsection \<open>Statements\<close>

datatype statementType =
    statementNone | statementVarDecl | statementPool | statementPoolVar | statementRule
  | statementRuleVar | statementBuild | statementBuildVar | statementDefault
  | statementInclude | statementSubninja

record statement =
  st_pos :: int
  st_t :: statementType
  st_s :: nat
  st_v :: nat
  st_e :: nat

text \<open>\<open>isStatement\<close> reads the byte after the keyword without a bounds check.\<close>

definition isStatement :: "bytes \<Rightarrow> nat \<Rightarrow> bytes \<Rightarrow> nat option res" where
  "isStatement buf i name =
     (if \<not> has_prefix (drop i buf) name then Inr None
      else rbind (go_index buf (i + length name))
        (\<lambda>ch. if ch \<in> {CHR '' '', TAB} then Inr (Some (i + length name + 1)) else Inr None))"

subsection \<open>Rule tables\<close>

record ruleMap =
  rm_rules :: "rule list list"

text \<open>The bucket count of \<open>newRuleMap\<close> is computed by the same doubling loop as the shard
  count of \<open>shardBindings\<close>: while \<open>n/numBuckets >= 8\<close>, double.\<close>

definition newRuleMap :: "nat \<Rightarrow> ruleMap" where
  "newRuleMap n = \<lparr>rm_rules = replicate (shard_count n 1) []\<rparr>"

definition rm_setRule :: "(bytes \<Rightarrow> 64 word) \<Rightarrow> rule \<Rightarrow> ruleMap option \<Rightarrow> ruleMap option res" where
  "rm_setRule hash r rm =
     (case rm of
        None \<Rightarrow> Inl (Err ''no rule map'')
      | Some m \<Rightarrow>
          if rm_rules m = [] then Inl (Err ''no rule map'')
          else let i = shard_index hash (length (rm_rules m)) (r_name r) in
            if r_name r \<in> r_name ` set (rm_rules m ! i) then Inl (Err ''duplicate rule'')
            else Inr (Some (m\<lparr>rm_rules := (rm_rules m)[i := r # rm_rules m ! i]\<rparr>)))"

definition rm_lookupRule :: "(bytes \<Rightarrow> 64 word) \<Rightarrow> ruleMap option \<Rightarrow> bytes \<Rightarrow> rule option" where
  "rm_lookupRule hash rm name =
     (case rm of
        None \<Rightarrow> None
      | Some m \<Rightarrow>
          if rm_rules m = [] then None
          else find (\<lambda>r. r_name r = name) (rm_rules m ! shard_index hash (length (rm_rules m)) name))"

definition rm_ok :: "ruleMap option \<Rightarrow> bool" where
  "rm_ok rm \<longleftrightarrow> (\<exists>m. rm = Some m \<and> 0 < length (rm_rules m) \<and> length (rm_rules m) < 2 ^ 63)"

locale rule_table =
  fixes lookup :: "'t \<Rightarrow> bytes \<Rightarrow> rule option"
    and insert_rule :: "rule \<Rightarrow> 't \<Rightarrow> 't res"
    and ok :: "'t \<Rightarrow> bool"
  assumes insert_new: "ok t \<Longrightarrow> lookup t (r_name r) = None \<Longrightarrow>
      \<exists>t'. insert_rule r t = Inr t' \<and> ok t' \<and> lookup t' = (lookup t)(r_name r \<mapsto> r)"
    and insert_dup: "ok t \<Longrightarrow> lookup t (r_name r) \<noteq> None \<Longrightarrow>
      insert_rule r t = Inl (Err ''duplicate rule'')"
begin

fun insert_rules :: "rule list \<Rightarrow> 't \<Rightarrow> 't res" where
  "insert_rules [] t = Inr t"
| "insert_rules (r # rs) t = rbind (insert_rule r t) (insert_rules rs)"

text \<open>A batch of rules goes in exactly when the names are new and pairwise different, and each
  name then finds its rule.\<close>

lemma insert_rules_iff:
  "ok t \<Longrightarrow>
   (\<exists>t'. insert_rules rs t = Inr t') \<longleftrightarrow>
     distinct (map r_name rs) \<and> (\<forall>r \<in> set rs. lookup t (r_name r) = None)"
proof (induction rs arbitrary: t)
  case Nil
  then show ?case by simp
next
  case (Cons r rs)
  show ?case
  proof (cases "lookup t (r_name r)")
    case None
    then obtain t1 where t1: "insert_rule r t = Inr t1" "ok t1" "lookup t1 = (lookup t)(r_name r \<mapsto> r)"
      using insert_new Cons.prems by blast
    have "(\<forall>q \<in> set rs. lookup t1 (r_name q) = None) \<longleftrightarrow>
        r_name r \<notin> r_name ` set rs \<and> (\<forall>q \<in> set rs. lookup t (r_name q) = None)"
      unfolding t1(3) by (auto simp: image_iff)
    then show ?thesis using Cons.IH [OF t1(2)] None t1(1) by auto
  next
    case (Some x)
    then show ?thesis using insert_dup [of t r] Cons.prems by auto
  qed
qed

lemma insert_rules_lookup:
  "ok t \<Longrightarrow> insert_rules rs t = Inr t' \<Longrightarrow>
   ok t' \<and> (\<forall>r \<in> set rs. lookup t' (r_name r) = Some r) \<and>
   (\<forall>n. n \<notin> r_name ` set rs \<longrightarrow> lookup t' n = lookup t n)"
proof (induction rs arbitrary: t)
  case Nil
  then show ?case by simp
next
  case (Cons r rs)
  have new: "lookup t (r_name r) = None"
    using Cons.prems insert_dup [of t r] by (cases "lookup t (r_name r)") auto
  then obtain t1 where t1: "insert_rule r t = Inr t1" "ok t1" "lookup t1 = (lookup t)(r_name r \<mapsto> r)"
    using insert_new Cons.prems by blast
  have rest: "insert_rules rs t1 = Inr t'" using Cons.prems t1 by simp
  have "r_name r \<notin> r_name ` set rs"
    using insert_rules_iff [OF t1(2), of rs] rest t1(3) by (metis fun_upd_same imageE option.distinct(1))
  then show ?case using Cons.IH [OF t1(2) rest] t1(3) by auto
qed

end

lemma find_Cons_if: "find P (x # xs) = (if P x then Some x else find P xs)"
  by simp

interpretation rule_chains: rule_table "rm_lookupRule hash" "rm_setRule hash" rm_ok
proof
  fix t and r :: rule
  assume ok: "rm_ok t" and new: "rm_lookupRule hash t (r_name r) = None"
  obtain m where m: "t = Some m" "0 < length (rm_rules m)" "length (rm_rules m) < 2 ^ 63"
    using ok by (auto simp: rm_ok_def)
  define n where "n = length (rm_rules m)"
  define i where "i = shard_index hash n (r_name r)"
  have i: "i < n" using shard_index_lt m(2,3) by (simp add: i_def n_def)
  have ne: "rm_rules m \<noteq> []" using m(2) by auto
  let ?m = "m\<lparr>rm_rules := (rm_rules m)[i := r # rm_rules m ! i]\<rparr>"
  have notin: "r_name r \<notin> r_name ` set (rm_rules m ! i)"
    using new ne unfolding m(1) rm_lookupRule_def
    by (auto simp: find_None_iff i_def n_def)
  have set: "rm_setRule hash r t = Inr (Some ?m)"
    using notin ne by (simp add: m(1) rm_setRule_def Let_def i_def n_def)
  have len: "length (rm_rules ?m) = n" by (simp add: n_def)
  have "rm_lookupRule hash (Some ?m) name = ((rm_lookupRule hash t)(r_name r \<mapsto> r)) name" for name
  proof (cases "shard_index hash n name = i")
    case True
    have "rm_rules ?m \<noteq> []" using ne by simp
    moreover have "rm_rules ?m ! shard_index hash n name = r # rm_rules m ! i"
      using i True by (simp add: n_def)
    ultimately have l: "rm_lookupRule hash (Some ?m) name = find (\<lambda>q. r_name q = name) (r # rm_rules m ! i)"
      unfolding rm_lookupRule_def option.case len by (simp only: if_False)
    have "rm_lookupRule hash t name = find (\<lambda>q. r_name q = name) (rm_rules m ! i)"
      unfolding m(1) rm_lookupRule_def option.case n_def [symmetric] True using ne by (simp only: if_False)
    then show ?thesis unfolding l find_Cons_if by auto
  next
    case False
    then have "name \<noteq> r_name r" by (auto simp: i_def)
    with False show ?thesis using ne by (simp add: m(1) rm_lookupRule_def n_def)
  qed
  moreover have "rm_ok (Some ?m)" using m by (simp add: rm_ok_def)
  ultimately show "\<exists>t'. rm_setRule hash r t = Inr t' \<and> rm_ok t' \<and>
      rm_lookupRule hash t' = (rm_lookupRule hash t)(r_name r \<mapsto> r)"
    using set by blast
next
  fix t and r :: rule
  assume ok: "rm_ok t" and old: "rm_lookupRule hash t (r_name r) \<noteq> None"
  obtain m where m: "t = Some m" "0 < length (rm_rules m)" using ok by (auto simp: rm_ok_def)
  then have ne: "rm_rules m \<noteq> []" by auto
  then have "r_name r \<in> r_name ` set (rm_rules m ! shard_index hash (length (rm_rules m)) (r_name r))"
    using old by (auto simp: m(1) rm_lookupRule_def find_None_iff image_iff) metis
  then show "rm_setRule hash r t = Inl (Err ''duplicate rule'')"
    using ne by (simp add: m(1) rm_setRule_def Let_def)
qed

text \<open>A new rule table.\<close>

lemma rm_ok_new: "n < 2 ^ 63 \<Longrightarrow> rm_ok (Some (newRuleMap n))"
  using shard_count_pos [of 1 n] shard_count_bound [of 1 n]
  by (simp add: rm_ok_def newRuleMap_def)

lemma rm_lookupRule_new:
  assumes "n < 2 ^ 63"
  shows "rm_lookupRule hash (Some (newRuleMap n)) name = None"
proof -
  have "shard_index hash (shard_count n 1) name < shard_count n 1"
    using rm_ok_new [OF assms] by (intro shard_index_lt) (auto simp: rm_ok_def newRuleMap_def)
  then show ?thesis by (simp add: rm_lookupRule_def newRuleMap_def)
qed

subsection \<open>File scopes\<close>

datatype fileScope =
  FileScope (fsc_rules: "ruleMap option") (fsc_bindings: "shardBindings option") (fsc_parent: "fileScope option")

definition newFileScope :: "fileScope option \<Rightarrow> fileScope" where
  "newFileScope parent = FileScope None None parent"

fun fs_lookupRule :: "(bytes \<Rightarrow> 64 word) \<Rightarrow> fileScope \<Rightarrow> bytes \<Rightarrow> rule option" where
  "fs_lookupRule hash (FileScope rules bindings parent) name =
     (case rm_lookupRule hash rules name of
        Some r \<Rightarrow> Some r
      | None \<Rightarrow> (case parent of Some p \<Rightarrow> fs_lookupRule hash p name | None \<Rightarrow> None))"

definition fs_setRule :: "(bytes \<Rightarrow> 64 word) \<Rightarrow> rule \<Rightarrow> fileScope \<Rightarrow> fileScope res" where
  "fs_setRule hash r s =
     rbind (rm_setRule hash r (fsc_rules s)) (\<lambda>rm. Inr (FileScope rm (fsc_bindings s) (fsc_parent s)))"

text \<open>A parent scope is searched without a position check.\<close>

fun fs_lookupVar :: "(bytes \<Rightarrow> 64 word) \<Rightarrow> fileScope \<Rightarrow> int \<Rightarrow> bytes \<Rightarrow> evalString option" where
  "fs_lookupVar hash (FileScope rules bindings parent) pos name =
     (case sb_get hash bindings pos name of
        Some v \<Rightarrow> Some v
      | None \<Rightarrow> (case parent of Some p \<Rightarrow> fs_lookupVar hash p (-1) name | None \<Rightarrow> None))"

definition fs_setVar :: "(bytes \<Rightarrow> 64 word) \<Rightarrow> bytes \<Rightarrow> evalString \<Rightarrow> fileScope \<Rightarrow> fileScope" where
  "fs_setVar hash name value s =
     FileScope (fsc_rules s) (sb_set hash name value (fsc_bindings s)) (fsc_parent s)"

subsection \<open>Build scopes\<close>

record buildScope =
  bs_buf :: bytes
  bs_statements :: "statement list"

text \<open>The indented bindings of a build or pool statement, searched from the last to the first.\<close>

definition bs_lookupVar :: "buildScope \<Rightarrow> int \<Rightarrow> bytes \<Rightarrow> evalString option" where
  "bs_lookupVar b pos name =
     map_option
       (\<lambda>st. let v = trim_space (sub (bs_buf b) (st_v st + 1) (st_e st)) in mk_es v (count_byte v CHR ''$''))
       (find (\<lambda>st. \<not> (pos \<ge> 0 \<and> st_pos st \<ge> pos) \<and>
                   trim_space (sub (bs_buf b) (st_s st) (st_v st)) = name)
         (rev (bs_statements b)))"

definition bs_set :: "bytes \<Rightarrow> statement list \<Rightarrow> buildScope \<Rightarrow> buildScope" where
  "bs_set buf statements b = b\<lparr>bs_buf := buf, bs_statements := statements\<rparr>"

lemma fs_lookupVar_setVar:
  "sb_ok (fsc_bindings s) \<Longrightarrow> visible pos v \<Longrightarrow> sb_get hash (fsc_bindings s) pos name = None \<Longrightarrow>
   fs_lookupVar hash (fs_setVar hash name v s) pos name = Some v"
  by (simp add: fs_setVar_def sb_get_set later_def)

end
