(* ===== verification/NodeMap.thy ===== *)
theory NodeMap
  imports Go_Base
begin

unbundle bit_operations_syntax

text \<open>
  The concurrent node table (\<open>toolsupport/ninjautil/nodemap.go\<close>): an array of lock-free
  linked chains, one node per path. First the operations as one goroutine runs them, with the
  locale \<open>node_table\<close> for what the parser relies on; then \<open>nodeMap.node\<close> as the
  load / compare-and-swap protocol it is, with any number of goroutines interleaved, and the
  invariant that no path ever gets two nodes.

  A node is its address and its path; \<open>maphash.Bytes(seed, key)\<close> is an arbitrary function.
  A chain is the list of its nodes from the slot's head: the \<open>next\<close> field of a published node
  never changes, so the list a goroutine loaded stays what it searches.
\<close>

record node_cell =
  nc_ptr :: nat
  nc_path :: bytes

definition nodeMapArraySize :: nat where
  "nodeMapArraySize = 2 ^ 25"

definition node_slot :: "(bytes \<Rightarrow> 64 word) \<Rightarrow> bytes \<Rightarrow> nat" where
  "node_slot hash key = unat (hash key AND (2 ^ 25 - 1))"

record nodeMap =
  nm_nodes :: "nat \<Rightarrow> node_cell list"
  nm_n :: nat

definition newNodeMap :: nodeMap where
  "newNodeMap = \<lparr>nm_nodes = (\<lambda>_. []), nm_n = 0\<rparr>"

lemma node_slot_lt: "node_slot hash key < nodeMapArraySize"
proof -
  have "unat (hash key AND (2 ^ 25 - 1 :: 64 word)) \<le> unat (2 ^ 25 - 1 :: 64 word)"
    by (rule word_and_le1 [THEN word_le_nat_alt [THEN iffD1]])
  then show ?thesis by (simp add: node_slot_def nodeMapArraySize_def)
qed

subsection \<open>One goroutine\<close>

definition chain_find :: "bytes \<Rightarrow> node_cell list \<Rightarrow> node_cell option" where
  "chain_find key chain = find (\<lambda>c. nc_path c = key) chain"

definition nm_lookup :: "(bytes \<Rightarrow> 64 word) \<Rightarrow> nodeMap \<Rightarrow> bytes \<Rightarrow> node_cell option" where
  "nm_lookup hash nm key = chain_find key (nm_nodes nm (node_slot hash key))"

text \<open>The address of a new node is the number of nodes so far: a fresh one.\<close>

definition nm_node :: "(bytes \<Rightarrow> 64 word) \<Rightarrow> bytes \<Rightarrow> nodeMap \<Rightarrow> node_cell \<times> nodeMap" where
  "nm_node hash key nm =
     (let slot = node_slot hash key; head = nm_nodes nm slot in
      case chain_find key head of
        Some c \<Rightarrow> (c, nm)
      | None \<Rightarrow>
          let newHead = \<lparr>nc_ptr = nm_n nm, nc_path = key\<rparr> in
          (newHead, nm\<lparr>nm_nodes := (nm_nodes nm)(slot := newHead # head), nm_n := nm_n nm + 1\<rparr>))"

text \<open>\<open>freeze\<close>: all nodes slot by slot; the index in the result is the node's id, 0 is unused.\<close>

definition nm_freeze :: "nodeMap \<Rightarrow> node_cell option list" where
  "nm_freeze nm = None # map Some (concat (map (nm_nodes nm) [0..<nodeMapArraySize]))"

locale node_table =
  fixes lookup :: "'t \<Rightarrow> bytes \<Rightarrow> node_cell option"
    and node :: "bytes \<Rightarrow> 't \<Rightarrow> node_cell \<times> 't"
    and ok :: "'t \<Rightarrow> bool"
  assumes node_ok: "ok t \<Longrightarrow> ok (snd (node key t))"
    and node_lookup: "ok t \<Longrightarrow> lookup (snd (node key t)) = (lookup t)(key \<mapsto> fst (node key t))"
    and node_path: "ok t \<Longrightarrow> nc_path (fst (node key t)) = key"
    and node_found: "ok t \<Longrightarrow> lookup t key = Some c \<Longrightarrow> node key t = (c, t)"
    and lookup_inj: "ok t \<Longrightarrow> lookup t a = Some c \<Longrightarrow> lookup t b = Some d \<Longrightarrow>
      nc_ptr c = nc_ptr d \<Longrightarrow> a = b"
begin

text \<open>Requesting the nodes of a list of paths in turn.\<close>

fun nodes :: "bytes list \<Rightarrow> 't \<Rightarrow> node_cell list \<times> 't" where
  "nodes [] t = ([], t)"
| "nodes (k # ks) t = (let (c, t1) = node k t; (cs, t2) = nodes ks t1 in (c # cs, t2))"

lemma node_mono: "ok t \<Longrightarrow> lookup t k = Some c \<Longrightarrow> lookup (snd (node key t)) k = Some c"
  using node_found [of t k c] by (cases "k = key") (simp_all add: node_lookup)

lemma nodes_mono: "ok t \<Longrightarrow> lookup t k = Some c \<Longrightarrow> lookup (snd (nodes ks t)) k = Some c"
proof (induction ks arbitrary: t)
  case Nil
  then show ?case by simp
next
  case (Cons a ks)
  obtain d t1 where n: "node a t = (d, t1)" by force
  have "ok t1" "lookup t1 k = Some c"
    using node_ok [OF Cons.prems(1), of a] node_mono [OF Cons.prems, of a] n by simp_all
  from Cons.IH [OF this] show ?case using n by (simp add: case_prod_unfold Let_def)
qed

lemma nodes_ok: "ok t \<Longrightarrow> ok (snd (nodes ks t))"
proof (induction ks arbitrary: t)
  case (Cons a ks)
  have "ok (snd (node a t))" using Cons.prems by (rule node_ok)
  then show ?case using Cons.IH by (auto split: prod.splits) (metis snd_conv)
qed simp

text \<open>The results are the nodes of the final table, so equal paths give the same node and
  different paths different nodes.\<close>

lemma nodes_lookup:
  "ok t \<Longrightarrow> map Some (fst (nodes ks t)) = map (lookup (snd (nodes ks t))) ks"
proof (induction ks arbitrary: t)
  case Nil
  then show ?case by simp
next
  case (Cons a ks)
  obtain c t1 where n: "node a t = (c, t1)" by force
  obtain cs t2 where ns: "nodes ks t1 = (cs, t2)" by force
  have ok1: "ok t1" using node_ok [OF Cons.prems, of a] n by simp
  have "lookup t1 a = Some c" using node_lookup [OF Cons.prems, of a] n by simp
  then have "lookup t2 a = Some c" using nodes_mono [OF ok1] ns by (metis snd_conv)
  then show ?case using Cons.IH [OF ok1] n ns by simp
qed

end

text \<open>Each node is in the slot of its path, no path occurs twice in a slot, and addresses are
  below the counter and unique.\<close>

definition nm_ok :: "(bytes \<Rightarrow> 64 word) \<Rightarrow> nodeMap \<Rightarrow> bool" where
  "nm_ok hash nm \<longleftrightarrow>
     (\<forall>i. distinct (map nc_path (nm_nodes nm i)) \<and>
          (\<forall>c \<in> set (nm_nodes nm i). node_slot hash (nc_path c) = i \<and> nc_ptr c < nm_n nm)) \<and>
     (\<forall>i j. \<forall>c \<in> set (nm_nodes nm i). \<forall>d \<in> set (nm_nodes nm j). nc_ptr c = nc_ptr d \<longrightarrow> c = d)"

lemma chain_find_Some: "chain_find key ch = Some c \<Longrightarrow> c \<in> set ch \<and> nc_path c = key"
  by (auto simp: chain_find_def find_Some_iff)

lemma chain_find_None: "chain_find key ch = None \<longleftrightarrow> key \<notin> nc_path ` set ch"
  by (auto simp: chain_find_def find_None_iff)

lemma nm_ok_new: "nm_ok hash newNodeMap"
  by (simp add: nm_ok_def newNodeMap_def)

lemma nm_ok_slot: "nm_ok hash nm \<Longrightarrow> c \<in> set (nm_nodes nm i) \<Longrightarrow> node_slot hash (nc_path c) = i"
  by (simp add: nm_ok_def)

lemma nm_node_new:
  assumes "nm_lookup hash nm key = None"
  shows "nm_node hash key nm =
     (\<lparr>nc_ptr = nm_n nm, nc_path = key\<rparr>,
      nm\<lparr>nm_nodes := (nm_nodes nm)(node_slot hash key :=
            \<lparr>nc_ptr = nm_n nm, nc_path = key\<rparr> # nm_nodes nm (node_slot hash key)), nm_n := nm_n nm + 1\<rparr>)"
  using assms by (simp add: nm_node_def nm_lookup_def Let_def)

lemma nm_node_old: "nm_lookup hash nm key = Some c \<Longrightarrow> nm_node hash key nm = (c, nm)"
  by (simp add: nm_node_def nm_lookup_def Let_def)

lemma nm_node_ok:
  assumes "nm_ok hash nm"
  shows "nm_ok hash (snd (nm_node hash key nm))"
proof (cases "nm_lookup hash nm key")
  case None
  then have new: "key \<notin> nc_path ` set (nm_nodes nm (node_slot hash key))"
    by (simp add: nm_lookup_def chain_find_None)
  have lt: "nc_ptr c < nm_n nm" if "c \<in> set (nm_nodes nm i)" for c i
    using assms that unfolding nm_ok_def by blast
  then have fresh: "nc_ptr c \<noteq> nm_n nm" if "c \<in> set (nm_nodes nm i)" for c i
    using that by fastforce
  show ?thesis
    using assms new fresh lt unfolding nm_node_new [OF None] nm_ok_def
    by (fastforce simp: less_Suc_eq split: if_splits)
next
  case (Some c)
  then show ?thesis using assms by (simp add: nm_node_old)
qed

interpretation node_chains: node_table "nm_lookup hash" "nm_node hash" "nm_ok hash"
proof
  fix t key c
  assume ok: "nm_ok hash t"
  show "nm_ok hash (snd (nm_node hash key t))" by (rule nm_node_ok [OF ok])
  show "nm_lookup hash (snd (nm_node hash key t)) = (nm_lookup hash t)(key \<mapsto> fst (nm_node hash key t))"
  proof (cases "nm_lookup hash t key")
    case None
    then show ?thesis
      by (auto simp: nm_node_new fun_eq_iff nm_lookup_def chain_find_def)
  next
    case (Some d)
    then show ?thesis by (simp add: nm_node_old fun_upd_idem)
  qed
  show "nc_path (fst (nm_node hash key t)) = key"
    by (cases "nm_lookup hash t key")
      (auto simp: nm_node_new nm_node_old nm_lookup_def dest: chain_find_Some)
  show "nm_lookup hash t key = Some c \<Longrightarrow> nm_node hash key t = (c, t)" by (rule nm_node_old)
next
  fix t a b c d
  assume "nm_ok hash t" "nm_lookup hash t a = Some c" "nm_lookup hash t b = Some d" "nc_ptr c = nc_ptr d"
  then have "c = d" "nc_path c = a" "nc_path d = b"
    unfolding nm_ok_def nm_lookup_def by (blast dest: chain_find_Some)+
  then show "a = b" by simp
qed

subsection \<open>Interleaved goroutines\<close>

text \<open>
  The state of one call \<open>node(key)\<close>: about to load the slot (with the node it allocated in an
  earlier round, if any), about to compare and swap against the chain it loaded, or returned.
\<close>

datatype node_call =
    Load "node_cell option"
  | Cas "node_cell list" node_cell
  | Returned node_cell

record node_sys =
  ns_slots :: "nat \<Rightarrow> node_cell list"
  ns_n :: nat
  ns_keys :: "nat \<Rightarrow> bytes"
  ns_calls :: "nat \<Rightarrow> node_call"

fun held :: "node_call \<Rightarrow> node_cell option" where
  "held (Load c) = c"
| "held (Cas ch c) = Some c"
| "held (Returned c) = None"

definition head_ptr :: "node_cell list \<Rightarrow> nat option" where
  "head_ptr ch = (case ch of [] \<Rightarrow> None | c # _ \<Rightarrow> Some (nc_ptr c))"

text \<open>An address the allocator may hand out: no published node and no node another call holds
  has it (a node given back by \<open>unnew\<close> may be handed out again).\<close>

definition fresh_ptr :: "node_sys \<Rightarrow> nat \<Rightarrow> bool" where
  "fresh_ptr s p \<longleftrightarrow>
     (\<forall>i. p \<notin> nc_ptr ` set (ns_slots s i)) \<and> (\<forall>t c. held (ns_calls s t) = Some c \<longrightarrow> nc_ptr c \<noteq> p)"

inductive node_step :: "(bytes \<Rightarrow> 64 word) \<Rightarrow> node_sys \<Rightarrow> node_sys \<Rightarrow> bool" for hash where
  found: "ns_calls s t = Load new \<Longrightarrow>
      chain_find (ns_keys s t) (ns_slots s (node_slot hash (ns_keys s t))) = Some c \<Longrightarrow>
      node_step hash s (s\<lparr>ns_calls := (ns_calls s)(t := Returned c)\<rparr>)"
| alloc: "ns_calls s t = Load None \<Longrightarrow>
      chain_find (ns_keys s t) (ns_slots s (node_slot hash (ns_keys s t))) = None \<Longrightarrow>
      fresh_ptr s p \<Longrightarrow>
      node_step hash s (s\<lparr>ns_calls := (ns_calls s)(t :=
        Cas (ns_slots s (node_slot hash (ns_keys s t))) \<lparr>nc_ptr = p, nc_path = ns_keys s t\<rparr>)\<rparr>)"
| reload: "ns_calls s t = Load (Some c) \<Longrightarrow>
      chain_find (ns_keys s t) (ns_slots s (node_slot hash (ns_keys s t))) = None \<Longrightarrow>
      node_step hash s (s\<lparr>ns_calls := (ns_calls s)(t := Cas (ns_slots s (node_slot hash (ns_keys s t))) c)\<rparr>)"
| swap: "ns_calls s t = Cas ch c \<Longrightarrow>
      head_ptr (ns_slots s (node_slot hash (ns_keys s t))) = head_ptr ch \<Longrightarrow>
      node_step hash s (s\<lparr>ns_slots := (ns_slots s)(node_slot hash (ns_keys s t) := c # ch),
        ns_n := ns_n s + 1, ns_calls := (ns_calls s)(t := Returned c)\<rparr>)"
| retry: "ns_calls s t = Cas ch c \<Longrightarrow>
      head_ptr (ns_slots s (node_slot hash (ns_keys s t))) \<noteq> head_ptr ch \<Longrightarrow>
      node_step hash s (s\<lparr>ns_calls := (ns_calls s)(t := Load (Some c))\<rparr>)"

inductive node_reachable :: "(bytes \<Rightarrow> 64 word) \<Rightarrow> (nat \<Rightarrow> bytes) \<Rightarrow> node_sys \<Rightarrow> bool" for hash keys where
  init: "node_reachable hash keys
     \<lparr>ns_slots = (\<lambda>_. []), ns_n = 0, ns_keys = keys, ns_calls = (\<lambda>_. Load None)\<rparr>"
| step: "node_reachable hash keys s \<Longrightarrow> node_step hash s s' \<Longrightarrow> node_reachable hash keys s'"

text \<open>Published nodes are in the slot of their path, once per path and per address.\<close>

definition slots_inv :: "(bytes \<Rightarrow> 64 word) \<Rightarrow> node_sys \<Rightarrow> bool" where
  "slots_inv hash s \<longleftrightarrow>
     (\<forall>i. distinct (map nc_path (ns_slots s i)) \<and> distinct (map nc_ptr (ns_slots s i)) \<and>
        (\<forall>c \<in> set (ns_slots s i). node_slot hash (nc_path c) = i)) \<and>
     (\<forall>i j. i \<noteq> j \<longrightarrow> nc_ptr ` set (ns_slots s i) \<inter> nc_ptr ` set (ns_slots s j) = {})"

text \<open>A held node is unpublished, has the call's key and an address of its own; a loaded chain is
  a suffix of the current one and lacks the key; a returned node is published.\<close>

definition call_inv :: "(bytes \<Rightarrow> 64 word) \<Rightarrow> node_sys \<Rightarrow> nat \<Rightarrow> bool" where
  "call_inv hash s t \<longleftrightarrow>
     (\<forall>c. held (ns_calls s t) = Some c \<longrightarrow> nc_path c = ns_keys s t \<and>
        (\<forall>i. nc_ptr c \<notin> nc_ptr ` set (ns_slots s i)) \<and>
        (\<forall>t' c'. t' \<noteq> t \<longrightarrow> held (ns_calls s t') = Some c' \<longrightarrow> nc_ptr c' \<noteq> nc_ptr c)) \<and>
     (\<forall>ch c. ns_calls s t = Cas ch c \<longrightarrow> ns_keys s t \<notin> nc_path ` set ch \<and>
        suffix ch (ns_slots s (node_slot hash (ns_keys s t)))) \<and>
     (\<forall>c. ns_calls s t = Returned c \<longrightarrow> nc_path c = ns_keys s t \<and>
        c \<in> set (ns_slots s (node_slot hash (ns_keys s t))))"

lemma head_ptr_suffix:
  assumes "suffix ch cur" and "distinct (map nc_ptr cur)" and "head_ptr cur = head_ptr ch"
  shows "cur = ch"
proof (cases ch)
  case Nil
  then show ?thesis using assms(3) by (cases cur) (auto simp: head_ptr_def)
next
  case (Cons c cs)
  obtain pre where pre: "cur = pre @ ch" using assms(1) by (auto simp: suffix_def)
  show ?thesis
  proof (cases pre)
    case Nil
    then show ?thesis using pre by simp
  next
    case (Cons p ps)
    then have "nc_ptr p = nc_ptr c" using assms(3) pre \<open>ch = c # cs\<close> by (simp add: head_ptr_def)
    then show ?thesis using assms(2) pre Cons \<open>ch = c # cs\<close> by auto
  qed
qed

text \<open>A step that leaves the slots alone keeps the invariants of the other calls as long as the
  address the moving call then holds is its own.\<close>

lemma call_inv_frame:
  assumes "\<forall>u. call_inv hash s u"
    and "\<And>c'. held x = Some c' \<Longrightarrow> (\<forall>i. nc_ptr c' \<notin> nc_ptr ` set (ns_slots s i)) \<and>
         (\<forall>u c. u \<noteq> t \<longrightarrow> held (ns_calls s u) = Some c \<longrightarrow> nc_ptr c \<noteq> nc_ptr c')"
    and "u \<noteq> t"
  shows "call_inv hash (s\<lparr>ns_calls := (ns_calls s)(t := x)\<rparr>) u"
  using assms unfolding call_inv_def by (auto simp: fun_upd_def) (metis (no_types, lifting))

lemma held_own:
  "\<forall>u. call_inv hash s u \<Longrightarrow> held (ns_calls s t) = Some c \<Longrightarrow>
   (\<forall>i. nc_ptr c \<notin> nc_ptr ` set (ns_slots s i)) \<and>
   (\<forall>u d. u \<noteq> t \<longrightarrow> held (ns_calls s u) = Some d \<longrightarrow> nc_ptr d \<noteq> nc_ptr c)"
  unfolding call_inv_def by blast

lemma node_step_inv:
  assumes "node_step hash s s'" and slots: "slots_inv hash s" and calls: "\<forall>t. call_inv hash s t"
  shows "slots_inv hash s' \<and> (\<forall>t. call_inv hash s' t)"
  using assms(1)
proof cases
  case (found t new c)
  have "call_inv hash s' t"
    using found chain_find_Some [OF found(3)] by (auto simp: call_inv_def)
  moreover have "call_inv hash s' u" if "u \<noteq> t" for u
    unfolding found(1) using calls that by (intro call_inv_frame) auto
  ultimately have "\<forall>u. call_inv hash s' u" by metis
  then show ?thesis using slots by (simp add: found(1) slots_inv_def)
next
  case (alloc t p)
  have "call_inv hash s' t"
    using alloc by (auto simp: call_inv_def fresh_ptr_def chain_find_None)
  moreover have "call_inv hash s' u" if "u \<noteq> t" for u
    unfolding alloc(1) using calls that alloc(4) by (intro call_inv_frame) (force simp: fresh_ptr_def)+
  ultimately have "\<forall>u. call_inv hash s' u" by metis
  then show ?thesis using slots by (simp add: alloc(1) slots_inv_def)
next
  case (reload t c)
  have c: "held (ns_calls s t) = Some c" using reload by simp
  have "call_inv hash s' t"
    using calls [THEN spec, of t] c reload unfolding call_inv_def by (auto simp: chain_find_None)
  moreover have "call_inv hash s' u" if "u \<noteq> t" for u
    unfolding reload(1) using calls that held_own [OF calls c]
    by (intro call_inv_frame) auto
  ultimately have "\<forall>u. call_inv hash s' u" by metis
  then show ?thesis using slots by (simp add: reload(1) slots_inv_def)
next
  case (retry t ch c)
  have c: "held (ns_calls s t) = Some c" using retry by simp
  have "call_inv hash s' t"
    using calls [THEN spec, of t] c retry unfolding call_inv_def by auto
  moreover have "call_inv hash s' u" if "u \<noteq> t" for u
    unfolding retry(1) using calls that held_own [OF calls c]
    by (intro call_inv_frame) auto
  ultimately have "\<forall>u. call_inv hash s' u" by metis
  then show ?thesis using slots by (simp add: retry(1) slots_inv_def)
next
  case (swap t ch c)
  let ?i = "node_slot hash (ns_keys s t)"
  have held: "held (ns_calls s t) = Some c" using swap by simp
  have inv: "call_inv hash s t" using calls by blast
  have cur: "ns_slots s ?i = ch"
    using inv slots swap by (intro head_ptr_suffix) (auto simp: call_inv_def slots_inv_def)
  have c: "nc_path c = ns_keys s t" "ns_keys s t \<notin> nc_path ` set ch"
      "\<And>i. nc_ptr c \<notin> nc_ptr ` set (ns_slots s i)"
    using inv held swap(2) unfolding call_inv_def by auto
  have slot: "ns_slots s' i = (if i = ?i then c # ch else ns_slots s i)" for i
    by (simp add: swap(1))
  have "slots_inv hash s'"
    unfolding slots_inv_def
  proof (intro conjI allI impI)
    show "distinct (map nc_path (ns_slots s' i))" for i
      using slots c cur by (auto simp: slot slots_inv_def)
    show "distinct (map nc_ptr (ns_slots s' i))" for i
      using slots c(3) [of ?i] cur by (auto simp: slot slots_inv_def)
    show "\<forall>d \<in> set (ns_slots s' i). node_slot hash (nc_path d) = i" for i
      using slots c(1) cur by (auto simp: slot slots_inv_def)
    show "nc_ptr ` set (ns_slots s' i) \<inter> nc_ptr ` set (ns_slots s' j) = {}" if "i \<noteq> j" for i j
    proof -
      have "nc_ptr ` set (ns_slots s i) \<inter> nc_ptr ` set (ns_slots s j) = {}"
        using slots that unfolding slots_inv_def by blast
      then show ?thesis using that c(3) [of i] c(3) [of j] cur by (auto simp: slot)
    qed
  qed
  moreover have "call_inv hash s' u" for u
  proof (cases "u = t")
    case True
    then show ?thesis using c(1) unfolding swap(1) by (auto simp: call_inv_def)
  next
    case False
    then have own: "nc_ptr c' \<noteq> nc_ptr c" if "held (ns_calls s u) = Some c'" for c'
      using inv held that unfolding call_inv_def by blast
    have "suffix ch' (c # ch)" if "suffix ch' ch" for ch'
      using that by (simp add: suffix_Cons)
    then show ?thesis
      using calls [THEN spec, of u] own False cur unfolding swap(1) call_inv_def
      by (auto simp: fun_upd_def) blast+
  qed
  ultimately show ?thesis by blast
qed

lemma node_step_keys: "node_step hash s s' \<Longrightarrow> ns_keys s' = ns_keys s"
  by (cases rule: node_step.cases) auto

lemma node_reachable_inv:
  "node_reachable hash keys s \<Longrightarrow>
   slots_inv hash s \<and> (\<forall>t. call_inv hash s t) \<and> ns_keys s = keys"
proof (induction rule: node_reachable.induct)
  case init
  then show ?case by (auto simp: slots_inv_def call_inv_def)
next
  case (step s s')
  then show ?case using node_step_inv node_step_keys by metis
qed

text \<open>A failed compare-and-swap means that another goroutine published a node meanwhile.\<close>

lemma retry_means_progress:
  assumes "node_reachable hash keys s" and "ns_calls s t = Cas ch c"
    and "head_ptr (ns_slots s (node_slot hash (ns_keys s t))) \<noteq> head_ptr ch"
  shows "length ch < length (ns_slots s (node_slot hash (ns_keys s t)))"
proof -
  have "suffix ch (ns_slots s (node_slot hash (ns_keys s t)))"
    using node_reachable_inv [OF assms(1)] assms(2) by (auto simp: call_inv_def)
  then obtain pre where "ns_slots s (node_slot hash (ns_keys s t)) = pre @ ch"
    by (auto simp: suffix_def)
  then show ?thesis using assms(3) by (cases pre) auto
qed

text \<open>Ids: the frozen table lists every published node once.\<close>

lemma distinct_concat_map:
  assumes "distinct is" and "\<And>i. i \<in> set is \<Longrightarrow> distinct (f i)"
    and "\<And>i j. i \<in> set is \<Longrightarrow> j \<in> set is \<Longrightarrow> i \<noteq> j \<Longrightarrow> set (f i) \<inter> set (f j) = {}"
  shows "distinct (concat (map f is))"
  using assms
proof (induction "is")
  case (Cons a as)
  then have "set (f a) \<inter> set (f j) = {}" if "j \<in> set as" for j
    using that by (metis distinct.simps(2) list.set_intros(1,2))
  with Cons show ?case by auto
qed simp

lemma nm_freeze_distinct:
  assumes "nm_ok hash nm"
  shows "distinct (nm_freeze nm)"
proof -
  define js where "js = [0..<nodeMapArraySize]"
  have "distinct (concat (map (nm_nodes nm) js))"
  proof (rule distinct_concat_map)
    show "distinct js" by (simp add: js_def)
    show "distinct (nm_nodes nm i)" for i
      using assms unfolding nm_ok_def by (meson distinct_map)
    show "i \<noteq> j \<Longrightarrow> set (nm_nodes nm i) \<inter> set (nm_nodes nm j) = {}" for i j
      using nm_ok_slot [OF assms] by blast
  qed
  moreover have "distinct (None # map Some xs)" if "distinct xs" for xs :: "node_cell list"
    using that by (auto simp: distinct_map)
  ultimately show ?thesis unfolding nm_freeze_def js_def by blast
qed

end
