(* ===== verification/Shell.thy ===== *)
theory Shell
  imports Go_Base
begin

text \<open>
  Shell quoting (\<open>toolsupport/ninjautil/shell_escape.go\<close>) and splitting of a command line
  (\<open>toolsupport/shutil/split.go\<close>). Both range over the runes of a string, so Go's UTF-8 decoding
  comes first: an invalid byte is the rune U+FFFD of width one. The code compares runes with ASCII
  characters only, which are exactly the runes of width one below 128.
\<close>

subsection \<open>Runes\<close>

definition in_range :: "nat \<Rightarrow> nat \<Rightarrow> char \<Rightarrow> bool" where
  "in_range lo hi c \<longleftrightarrow> lo \<le> of_char c \<and> of_char c \<le> hi"

definition runeError :: bytes where
  "runeError = [CHR 0xEF, CHR 0xBF, CHR 0xBD]"

text \<open>The first rune, as its UTF-8 encoding, and its width in the input.\<close>

definition decode_rune :: "bytes \<Rightarrow> bytes \<times> nat" where
  "decode_rune s =
     (case s of
        [] \<Rightarrow> (runeError, 0)
      | b0 # r \<Rightarrow>
          let valid = (\<lambda>n lo hi. length r \<ge> n \<and> in_range lo hi (r ! 0) \<and>
                         list_all (in_range 0x80 0xBF) (take (n - 1) (drop 1 r)));
              pick = (\<lambda>n lo hi. if valid n lo hi then (b0 # take n r, Suc n) else (runeError, 1)) in
          if of_char b0 < (0x80 :: nat) then ([b0], 1)
          else if in_range 0xC2 0xDF b0 then pick 1 0x80 0xBF
          else if b0 = CHR 0xE0 then pick 2 0xA0 0xBF
          else if b0 = CHR 0xED then pick 2 0x80 0x9F
          else if in_range 0xE1 0xEF b0 then pick 2 0x80 0xBF
          else if b0 = CHR 0xF0 then pick 3 0x90 0xBF
          else if in_range 0xF1 0xF3 b0 then pick 3 0x80 0xBF
          else if b0 = CHR 0xF4 then pick 3 0x80 0x8F
          else (runeError, 1))"

lemma decode_rune_width: "s \<noteq> [] \<Longrightarrow> 0 < snd (decode_rune s)"
  by (cases s) (simp_all add: decode_rune_def Let_def)

text \<open>The runes of a string with the offsets \<open>range\<close> yields.\<close>

function runes_from :: "nat \<Rightarrow> bytes \<Rightarrow> (nat \<times> bytes) list" where
  "runes_from i s =
     (if s = [] then []
      else (i, fst (decode_rune s)) # runes_from (i + snd (decode_rune s)) (drop (snd (decode_rune s)) s))"
  by pat_completeness auto
termination
  by (relation "measure (\<lambda>(i, s). length s)") (use decode_rune_width in \<open>auto simp: neq_Nil_conv\<close>)

declare runes_from.simps [simp del]

definition runes :: "bytes \<Rightarrow> bytes list" where
  "runes s = map snd (runes_from 0 s)"

definition ascii :: "bytes \<Rightarrow> bool" where
  "ascii s \<longleftrightarrow> list_all (\<lambda>c. of_char c < (0x80 :: nat)) s"

lemma decode_rune_ascii: "of_char c < (0x80 :: nat) \<Longrightarrow> decode_rune (c # s) = ([c], 1)"
  by (simp add: decode_rune_def)

lemma runes_from_Nil [simp]: "runes_from i [] = []"
  by (simp add: runes_from.simps)

lemma runes_from_ascii:
  "of_char c < (0x80 :: nat) \<Longrightarrow> runes_from i (c # s) = (i, [c]) # runes_from (Suc i) s"
  by (subst runes_from.simps) (simp add: decode_rune_ascii)

lemma runes_ascii: "ascii s \<Longrightarrow> map snd (runes_from i s) = map (\<lambda>c. [c]) s"
  by (induction s arbitrary: i) (simp_all add: ascii_def runes_from_ascii)

subsection \<open>shellEscape\<close>

definition isShellSafeChar :: "bytes \<Rightarrow> bool" where
  "isShellSafeChar ch \<longleftrightarrow>
     (case ch of
        [c] \<Rightarrow> in_range 0x41 0x5A c \<or> in_range 0x61 0x7A c \<or> in_range 0x30 0x39 c \<or>
               c \<in> {CHR ''_'', CHR ''+'', CHR ''-'', CHR ''.'', CHR ''/''}
      | _ \<Rightarrow> False)"

definition needShellEscape :: "bytes \<Rightarrow> bool" where
  "needShellEscape s \<longleftrightarrow> list_ex (\<lambda>ch. \<not> isShellSafeChar ch) (runes s)"

definition shellEscape :: "bytes \<Rightarrow> bytes" where
  "shellEscape s =
     (if \<not> needShellEscape s then s
      else [SQ] @ concat (map (\<lambda>ch. if ch = [SQ] then [SQ, BSL, SQ, SQ] else ch) (runes s)) @ [SQ])"

subsection \<open>Split\<close>

record split_state =
  sp_args :: "bytes list"
  sp_sb :: "bytes option"
  sp_escaped :: bool
  sp_qch :: "char option"
  sp_inspace :: bool
  sp_si :: nat

definition shell_meta :: "char set" where
  "shell_meta = set [CHR '';'', CHR ''&'', CHR ''|'', CHR ''<'', CHR ''>'', CHR ''$'', CHR ''#'', CHR 0x60]"

text \<open>The bytes since \<open>si\<close> go to the builder before an escape or a quote.\<close>

definition split_flush :: "bytes \<Rightarrow> nat \<Rightarrow> split_state \<Rightarrow> bytes" where
  "split_flush cmdline i s =
     (case sp_sb s of None \<Rightarrow> [] | Some b \<Rightarrow> b) @ (if sp_si s < i then sub cmdline (sp_si s) i else [])"

definition split_rune :: "bytes \<Rightarrow> nat \<Rightarrow> bytes \<Rightarrow> split_state \<Rightarrow> split_state res" where
  "split_rune cmdline i ch s =
     (let sb = (case sp_sb s of None \<Rightarrow> [] | Some b \<Rightarrow> b) in
      if sp_escaped s then
        Inr (s\<lparr>sp_sb := Some (sb @ ch), sp_escaped := False, sp_si := i + 1\<rparr>)
      else if sp_qch s \<noteq> None then
        if ch = [BSL] then Inr (s\<lparr>sp_escaped := True\<rparr>)
        else if ch = [the (sp_qch s)] then Inr (s\<lparr>sp_qch := None, sp_si := i + 1\<rparr>)
        else Inr (s\<lparr>sp_sb := Some (sb @ ch), sp_si := i + 1\<rparr>)
      else if ch = [BSL] then
        Inr (s\<lparr>sp_sb := Some (split_flush cmdline i s), sp_inspace := False, sp_escaped := True, sp_si := i + 1\<rparr>)
      else if ch \<in> {[DQ], [SQ]} then
        Inr (s\<lparr>sp_sb := Some (split_flush cmdline i s), sp_inspace := False, sp_qch := Some (hd ch), sp_si := i + 1\<rparr>)
      else if ch \<in> {'' '', [TAB]} then
        if sp_inspace s then Inr (s\<lparr>sp_si := i + 1\<rparr>)
        else
          Inr (s\<lparr>sp_inspace := True, sp_si := i + 1, sp_sb := None,
                 sp_args := sp_args s @
                   [case sp_sb s of Some b \<Rightarrow> b | None \<Rightarrow> if sp_si s < i then sub cmdline (sp_si s) i else []]\<rparr>)
      else if length ch = 1 \<and> hd ch \<in> shell_meta then
        Inl (Err ''failed to split: cmdline contains shell metachar'')
      else if \<not> sp_inspace s \<and> sp_sb s \<noteq> None then
        Inr (s\<lparr>sp_sb := Some (sb @ ch), sp_si := i + 1, sp_inspace := False\<rparr>)
      else Inr (s\<lparr>sp_inspace := False\<rparr>))"

fun split_loop :: "bytes \<Rightarrow> (nat \<times> bytes) list \<Rightarrow> split_state \<Rightarrow> split_state res" where
  "split_loop cmdline [] s = Inr s"
| "split_loop cmdline ((i, ch) # rs) s = rbind (split_rune cmdline i ch s) (split_loop cmdline rs)"

definition split_end :: "bytes \<Rightarrow> split_state \<Rightarrow> bytes list res" where
  "split_end cmdline s =
     (if sp_escaped s then Inl (Err ''failed to split: end with backslash-escape'')
      else if sp_qch s \<noteq> None then Inl (Err ''failed to split: unclosed quote'')
      else
        let args =
          (case sp_sb s of
             Some b \<Rightarrow> sp_args s @ [b]
           | None \<Rightarrow> if sp_si s < length cmdline then sp_args s @ [drop (sp_si s) cmdline] else sp_args s) in
        if args \<noteq> [] \<and> CHR ''='' \<in> set (hd args) then Inl (Err ''argv[0] is env set'') else Inr args)"

definition Split :: "bytes \<Rightarrow> bytes list res" where
  "Split cmdline0 =
     (let cmdline = trim_space cmdline0 in
      rbind (split_loop cmdline (runes_from 0 cmdline)
          \<lparr>sp_args = [], sp_sb = Some [], sp_escaped = False, sp_qch = None, sp_inspace = False, sp_si = 0\<rparr>)
        (split_end cmdline))"

subsection \<open>Splitting undoes quoting\<close>

definition safe_word :: "bytes \<Rightarrow> bool" where
  "safe_word w \<longleftrightarrow> list_all (\<lambda>c. isShellSafeChar [c]) w"

lemma safe_char_range:
  assumes "isShellSafeChar [c]"
  shows "of_char c < (0x80 :: nat)" "c \<notin> shell_meta" "c \<notin> {BSL, DQ, SQ, CHR '' '', TAB, CHR ''=''}"
proof -
  have "of_char c \<in> {0x2B, 0x2D, 0x2E, 0x2F, 0x5F} \<union> {0x30..0x39} \<union> {0x41..0x5A} \<union> {0x61..(0x7A :: nat)}"
    using assms by (auto simp: isShellSafeChar_def in_range_def)
  then have r: "of_char c \<in> {0x2B..0x39} \<union> {0x41..0x5A} \<union> {0x5F :: nat} \<union> {0x61..0x7A}" by auto
  then show "of_char c < (0x80 :: nat)" by auto
  show "c \<notin> shell_meta" using r by (auto simp: shell_meta_def)
  show "c \<notin> {BSL, DQ, SQ, CHR '' '', TAB, CHR ''=''}" using r by auto
qed

text \<open>A safe word at the start of the line goes to the builder.\<close>

lemma split_word_start:
  assumes "safe_word w" "sp_sb st = Some acc" "\<not> sp_escaped st" "sp_qch st = None" "\<not> sp_inspace st"
  shows "split_loop cmdline (runes_from i (w @ r)) st =
    split_loop cmdline (runes_from (i + length w) r)
      (if w = [] then st else st\<lparr>sp_sb := Some (acc @ w), sp_si := i + length w\<rparr>)"
  using assms
proof (induction w arbitrary: i acc st)
  case (Cons c w)
  note c = safe_char_range [of c]
  have step: "split_rune cmdline i [c] st = Inr (st\<lparr>sp_sb := Some (acc @ [c]), sp_si := i + 1\<rparr>)"
    using Cons.prems c by (simp add: split_rune_def safe_word_def)
  then show ?case
    using Cons.prems c Cons.IH [of "st\<lparr>sp_sb := Some (acc @ [c]), sp_si := i + 1\<rparr>" "acc @ [c]" "Suc i"]
    by (simp add: runes_from_ascii safe_word_def)
qed simp

text \<open>Later safe words stay in the line and are cut out at their end.\<close>

lemma split_word_later:
  assumes "safe_word w" "sp_sb st = None" "\<not> sp_escaped st" "sp_qch st = None"
  shows "split_loop cmdline (runes_from i (w @ r)) st =
    split_loop cmdline (runes_from (i + length w) r) (if w = [] then st else st\<lparr>sp_inspace := False\<rparr>)"
  using assms
proof (induction w arbitrary: i st)
  case (Cons c w)
  note c = safe_char_range [of c]
  have "split_rune cmdline i [c] st = Inr (st\<lparr>sp_inspace := False\<rparr>)"
    using Cons.prems c by (simp add: split_rune_def safe_word_def)
  then show ?case
    using Cons.prems c Cons.IH [of "st\<lparr>sp_inspace := False\<rparr>" "Suc i"]
    by (simp add: runes_from_ascii safe_word_def)
qed simp

definition quoted :: "bytes \<Rightarrow> bytes" where
  "quoted s = concat (map (\<lambda>c. if c = SQ then [SQ, BSL, SQ, SQ] else [c]) s)"

lemma split_quoted:
  assumes "ascii s" "BSL \<notin> set s" "sp_sb st = Some acc" "\<not> sp_escaped st" "sp_qch st = Some SQ"
    "\<not> sp_inspace st" "sp_si st = i"
  shows "split_loop cmdline (runes_from i (quoted s @ r)) st =
    split_loop cmdline (runes_from (i + length (quoted s)) r)
      (st\<lparr>sp_sb := Some (acc @ s), sp_si := i + length (quoted s)\<rparr>)"
  using assms
proof (induction s arbitrary: i acc st)
  case Nil
  then show ?case by (cases st) (simp add: quoted_def)
next
  case (Cons c s)
  have c: "of_char c < (0x80 :: nat)" "c \<noteq> BSL" "ascii s" "BSL \<notin> set s"
    using Cons.prems by (auto simp: ascii_def)
  show ?case
  proof (cases "c = SQ")
    case False
    let ?st = "st\<lparr>sp_sb := Some (acc @ [c]), sp_si := Suc i\<rparr>"
    have "split_rune cmdline i [c] st = Inr ?st" using Cons.prems c False by (simp add: split_rune_def)
    moreover have "quoted (c # s) = c # quoted s" using False by (simp add: quoted_def)
    ultimately show ?thesis
      using Cons.IH [of ?st "acc @ [c]" "Suc i"] Cons.prems c by (simp add: runes_from_ascii)
  next
    case True
    let ?st = "st\<lparr>sp_sb := Some (acc @ [SQ]), sp_si := i + 4\<rparr>"
    have q: "quoted (SQ # s) = [SQ, BSL, SQ, SQ] @ quoted s" by (simp add: quoted_def)
    have "runes_from i ([SQ, BSL, SQ, SQ] @ quoted s @ r) =
        (i, [SQ]) # (i + 1, [BSL]) # (i + 2, [SQ]) # (i + 3, [SQ]) # runes_from (i + 4) (quoted s @ r)"
      by (simp add: runes_from_ascii eval_nat_numeral)
    moreover have "split_loop cmdline ((i, [SQ]) # (i + 1, [BSL]) # (i + 2, [SQ]) # (i + 3, [SQ]) # rs) st =
        split_loop cmdline rs ?st" for rs :: "(nat \<times> bytes) list"
      using Cons.prems by (cases st) (simp add: split_rune_def split_flush_def add.commute)
    ultimately have "split_loop cmdline (runes_from i (quoted (c # s) @ r)) st =
        split_loop cmdline (runes_from (i + 4) (quoted s @ r)) ?st"
      unfolding True q append_assoc by (simp only:)
    moreover have "length (quoted (c # s)) = 4 + length (quoted s)" unfolding True q by simp
    ultimately show ?thesis
      using Cons.IH [of ?st "acc @ [SQ]" "i + 4"] Cons.prems c True by (simp add: add.assoc)
  qed
qed

lemma shellEscape_ascii:
  assumes "ascii s"
  shows "shellEscape s = (if safe_word s then s else [SQ] @ quoted s @ [SQ])"
proof -
  have r: "runes s = map (\<lambda>c. [c]) s" using runes_ascii [OF assms] by (simp add: runes_def)
  have "needShellEscape s \<longleftrightarrow> \<not> safe_word s"
    by (simp add: needShellEscape_def r safe_word_def list_ex_iff list_all_iff)
  moreover have "concat (map (\<lambda>ch. if ch = [SQ] then [SQ, BSL, SQ, SQ] else ch) (runes s)) = quoted s"
    unfolding r quoted_def by (simp add: comp_def cong: if_cong)
  ultimately show ?thesis by (simp add: shellEscape_def)
qed

lemma trim_space_cmd:
  assumes "safe_word w" "w \<noteq> []" "r \<noteq> []" "last r = SQ \<or> isShellSafeChar [last r]"
  shows "trim_space (w @ '' '' @ r) = w @ '' '' @ r"
proof (rule trim_space_graph)
  have edge: "c \<notin> set (map hd space_runes) \<and> c \<notin> set (map last space_runes)" if "c = SQ \<or> isShellSafeChar [c]" for c
    using that by (auto simp: space_runes_def isShellSafeChar_def in_range_def)
  have "hd (w @ '' '' @ r) = hd w" "last (w @ '' '' @ r) = last r" using assms by auto
  moreover have "isShellSafeChar [hd w]" using assms(1,2) by (cases w) (simp_all add: safe_word_def)
  ultimately show "hd (w @ '' '' @ r) \<notin> set (map hd space_runes)" "last (w @ '' '' @ r) \<notin> set (map last space_runes)"
    using edge assms(4) by simp_all
qed simp

text \<open>
  C27: a quoted argument comes back unchanged, if it is a nonempty ASCII string without a backslash
  (inside single quotes \<open>Split\<close> still takes a backslash for an escape, and an empty argument is lost). After
  a command word of safe characters, splitting the word, a space and the quoted argument gives the
  word and the argument.
\<close>

theorem split_shellEscape:
  assumes "safe_word w" "w \<noteq> []" "ascii s" "s \<noteq> []" "BSL \<notin> set s"
  shows "Split (w @ '' '' @ shellEscape s) = Inr [w, s]"
proof -
  let ?cmd = "w @ '' '' @ shellEscape s" and ?n = "Suc (length w)"
  have "shellEscape s \<noteq> []" "last (shellEscape s) = SQ \<or> isShellSafeChar [last (shellEscape s)]"
    using assms(4) by (auto simp: shellEscape_ascii [OF assms(3)] safe_word_def list_all_iff)
  then have trim: "trim_space ?cmd = ?cmd" using assms by (intro trim_space_cmd)
  have eq: "CHR ''='' \<notin> set w" using assms(1) safe_char_range by (fastforce simp: safe_word_def list_all_iff)
  define st0 where "st0 = \<lparr>sp_args = [], sp_sb = Some [], sp_escaped = False, sp_qch = None,
    sp_inspace = False, sp_si = 0\<rparr>"
  define st1 where "st1 = \<lparr>sp_args = [w], sp_sb = None, sp_escaped = False, sp_qch = None,
    sp_inspace = True, sp_si = ?n\<rparr>"
  have "split_rune ?cmd (length w) '' '' (st0\<lparr>sp_sb := Some w, sp_si := length w\<rparr>) = Inr st1"
    by (simp add: split_rune_def st0_def st1_def)
  then have start: "split_loop ?cmd (runes_from 0 ?cmd) st0 = split_loop ?cmd (runes_from ?n (shellEscape s)) st1"
    using split_word_start [OF assms(1), of st0 "[]" ?cmd 0 "'' '' @ shellEscape s"] assms(2)
    by (simp add: st0_def runes_from_ascii)
  have "rbind (split_loop ?cmd (runes_from ?n (shellEscape s)) st1) (split_end ?cmd) = Inr [w, s]"
  proof (cases "safe_word s")
    case True
    have "split_loop ?cmd (runes_from ?n s) st1 = Inr (st1\<lparr>sp_inspace := False\<rparr>)"
      using split_word_later [OF True, of st1 ?cmd ?n "[]"] assms(4) by (simp add: st1_def)
    then show ?thesis
      using True assms(4) eq by (simp add: shellEscape_ascii [OF assms(3)] split_end_def st1_def)
  next
    case False
    let ?m = "Suc ?n + length (quoted s)"
    define st2 where "st2 = st1\<lparr>sp_sb := Some [], sp_inspace := False, sp_qch := Some SQ, sp_si := Suc ?n\<rparr>"
    have q: "shellEscape s = SQ # quoted s @ [SQ]" using False by (simp add: shellEscape_ascii [OF assms(3)])
    have "split_rune ?cmd ?n [SQ] st1 = Inr st2" by (simp add: split_rune_def split_flush_def st1_def st2_def)
    then have "split_loop ?cmd (runes_from ?n (shellEscape s)) st1 = split_loop ?cmd (runes_from (Suc ?n) (quoted s @ [SQ])) st2"
      by (simp add: q runes_from_ascii)
    also have "\<dots> = split_loop ?cmd (runes_from ?m [SQ]) (st2\<lparr>sp_sb := Some s, sp_si := ?m\<rparr>)"
      using split_quoted [OF assms(3,5), of st2 "[]" "Suc ?n" ?cmd "[SQ]"] by (simp add: st1_def st2_def)
    also have "\<dots> = Inr (st2\<lparr>sp_sb := Some s, sp_qch := None, sp_si := Suc ?m\<rparr>)"
      by (simp add: runes_from_ascii split_rune_def st1_def st2_def)
    finally show ?thesis using eq by (simp add: split_end_def st1_def st2_def)
  qed
  then show ?thesis
    unfolding Split_def Let_def trim st0_def [symmetric] start .
qed

theorem split_shellEscape_witness: "Split (''echo'' @ '' '' @ shellEscape (''it'' @ [SQ] @ ''s $x'')) = Inr [''echo'', ''it'' @ [SQ] @ ''s $x'']"
  by (rule split_shellEscape) (simp_all add: safe_word_def isShellSafeChar_def in_range_def ascii_def)

text \<open>
  \<open>Split\<close> duplicates bytes of a multi-byte character. After a character of the first word that
  takes two bytes, \<open>si\<close> points into the character, and the quote that follows copies its second
  byte once more: the word comes out with three bytes instead of two.
\<close>

theorem split_multibyte: "Split ([CHR 0xC3, CHR 0xA9] @ [SQ, SQ]) = Inr [[CHR 0xC3, CHR 0xA9, CHR 0xA9]]"
proof -
  let ?c = "[CHR 0xC3, CHR 0xA9, SQ, SQ]"
  have "trim_space ?c = ?c" by (rule trim_space_graph) (simp_all add: space_runes_def)
  moreover have "decode_rune ?c = ([CHR 0xC3, CHR 0xA9], 2)"
    by (simp add: decode_rune_def in_range_def Let_def)
  then have "runes_from 0 ?c = [(0, [CHR 0xC3, CHR 0xA9]), (2, [SQ]), (3, [SQ])]"
    by (subst runes_from.simps) (simp add: runes_from_ascii numeral_2_eq_2 numeral_3_eq_3)
  ultimately show ?thesis
    by (simp add: Split_def split_rune_def split_flush_def sub_def split_end_def shell_meta_def numeral_2_eq_2)
qed

end
