(* ===== verification/Plan.thy ===== *)
theory Plan
  imports Go_Base "HOL-Library.Multiset"
begin

text \<open>
  The build plan (\<open>build/plan.go\<close>, \<open>Step.ReadyToRun\<close> of \<open>build/step.go\<close> and
  \<open>Graph.StepDef\<close> of \<open>build/ninjabuild/ninjabuild.go\<close>). This theory holds the data
  and the operations; the theorems are in \<open>Plan_Schedule\<close> and \<open>Plan_Run\<close>.

  The build graph is a record of what \<open>StepDef\<close> reads from the parsed manifest: the edge
  that generates a target, and the edge's trigger inputs, order-only inputs, outputs and
  validations as target ids. \<open>g_stat\<close> says whether \<open>hashFS.Stat\<close> finds the file of a
  target and \<open>ctxDone n\<close> whether the context is cancelled when the \<open>n\<close>-th edge is
  visited. Step objects live in the list \<open>pl_steps\<close> and are referred to by index, as the
  code refers to them by pointer; the channel \<open>q\<close> is the list \<open>pl_q\<close> with capacity
  \<open>pl_cap\<close>. Clock readings and progress output are left out. \<open>scheduleTarget\<close> recurses
  over the graph with a fuel argument; \<open>scheduleTarget_fuel\<close> of \<open>Plan_Schedule\<close> shows
  that one more than the number of unvisited targets is enough.
\<close>

subsection \<open>The build graph\<close>

record build_edge =
  be_name :: bytes
  be_inputs :: "nat list"
  be_orderOnly :: "nat list"
  be_outputs :: "nat list"
  be_validations :: "nat list"
  be_phony :: bool
  be_phonyOutput :: bool

record graph =
  g_numTargets :: nat
  g_inEdge :: "nat \<Rightarrow> nat option"
  g_edge :: "nat \<Rightarrow> build_edge"
  g_path :: "nat \<Rightarrow> bytes"
  g_stat :: "nat \<Rightarrow> bool"

datatype scanState = scanStateNotVisited | scanStateVisiting | scanStateIgnored | scanStateDone

datatype sched_err =
    ErrNoTarget
  | NoTargets
  | DependencyCycleError "bytes list"
  | MissingSourceError nat "nat option"
  | PhonyOutputError nat nat
  | Interrupted
  | ScheduleError nat sched_err
  | ScanVisitingError nat
  | IndexPanic
  | OutOfFuel

record targetInfo =
  ti_scan :: scanState
  ti_waits :: "nat list"
  ti_source :: bool
  ti_output :: bool
  ti_phonyOutput :: bool

record step =
  sp_def :: nat
  sp_nwaits :: int
  sp_outputs :: "nat list"
  sp_prevStepID :: bytes
  sp_prevStepOut :: nat

record plan =
  pl_closed :: bool
  pl_q :: "nat list"
  pl_cap :: nat
  pl_ready :: "nat list"
  pl_targets :: "targetInfo list"
  pl_npendings :: int
  pl_steps :: "step list"

record scheduler = plan +
  sc_total :: nat
  sc_visited :: nat
  sc_edges :: "nat list"
  sc_validations :: "nat list"
  sc_phony :: "nat list"

definition emptyTarget :: targetInfo where
  "emptyTarget = \<lparr>ti_scan = scanStateNotVisited, ti_waits = [], ti_source = False,
     ti_output = False, ti_phonyOutput = False\<rparr>"

definition newScheduler :: "nat \<Rightarrow> scheduler" where
  "newScheduler numTargets =
     \<lparr>pl_closed = False, pl_q = [], pl_cap = 10000, pl_ready = [],
      pl_targets = replicate numTargets emptyTarget, pl_npendings = 0, pl_steps = [],
      sc_total = 0, sc_visited = 0, sc_edges = [], sc_validations = [], sc_phony = []\<rparr>"

subsection \<open>Graph.StepDef\<close>

datatype step_def_result =
    SD_NoTarget
  | SD_Source
  | SD_Duplicate nat
  | SD_New nat

definition lookupNode :: "graph \<Rightarrow> nat \<Rightarrow> bool" where
  "lookupNode g t \<longleftrightarrow> 0 < t \<and> t < g_numTargets g"

definition stepDef :: "graph \<Rightarrow> nat \<Rightarrow> scheduler \<Rightarrow> step_def_result \<times> scheduler" where
  "stepDef g t st =
     (if \<not> lookupNode g t then (SD_NoTarget, st)
      else case g_inEdge g t of
        None \<Rightarrow> (SD_Source, st)
      | Some e \<Rightarrow>
          if e \<in> set (sc_edges st) then (SD_Duplicate e, st)
          else (SD_New e, st\<lparr>sc_edges := sc_edges st @ [e],
                 sc_validations := sc_validations st @ be_validations (g_edge g e),
                 sc_phony := (if be_phony (g_edge g e) then sc_phony st @ [t] else sc_phony st)\<rparr>))"

subsection \<open>Updates of targets and steps\<close>

definition upd_target :: "nat \<Rightarrow> (targetInfo \<Rightarrow> targetInfo) \<Rightarrow> 'a plan_scheme \<Rightarrow> 'a plan_scheme" where
  "upd_target t f p = p\<lparr>pl_targets := (pl_targets p)[t := f (pl_targets p ! t)]\<rparr>"

definition upd_step :: "nat \<Rightarrow> (step \<Rightarrow> step) \<Rightarrow> 'a plan_scheme \<Rightarrow> 'a plan_scheme" where
  "upd_step i f p = p\<lparr>pl_steps := (pl_steps p)[i := f (pl_steps p ! i)]\<rparr>"

abbreviation set_scan :: "nat \<Rightarrow> scanState \<Rightarrow> 'a plan_scheme \<Rightarrow> 'a plan_scheme" where
  "set_scan t v \<equiv> upd_target t (\<lambda>ti. ti\<lparr>ti_scan := v\<rparr>)"

abbreviation scan_of :: "'a plan_scheme \<Rightarrow> nat \<Rightarrow> scanState" where
  "scan_of p t \<equiv> ti_scan (pl_targets p ! t)"

subsection \<open>Queueing\<close>

text \<open>The non-blocking send \<open>select { case p.q <- s: ... default: ... }\<close>.\<close>

definition try_send :: "nat \<Rightarrow> 'a plan_scheme \<Rightarrow> 'a plan_scheme \<times> bool" where
  "try_send i p = (if length (pl_q p) < pl_cap p then (p\<lparr>pl_q := pl_q p @ [i]\<rparr>, True) else (p, False))"

text \<open>\<open>Step.ReadyToRun\<close>: one wait less (for a real target), and whether none is left.\<close>

definition readyToRun :: "nat \<Rightarrow> bytes \<Rightarrow> nat \<Rightarrow> 'a plan_scheme \<Rightarrow> 'a plan_scheme \<times> bool" where
  "readyToRun i prev out p =
     (let s = pl_steps p ! i;
          n = (if out \<noteq> 0 then sp_nwaits s - 1 else sp_nwaits s) in
      if n = 0
      then (upd_step i (\<lambda>s. s\<lparr>sp_nwaits := n, sp_prevStepID := prev, sp_prevStepOut := out\<rparr>) p, True)
      else (upd_step i (\<lambda>s. s\<lparr>sp_nwaits := n\<rparr>) p, False))"

definition addStep :: "graph \<Rightarrow> nat \<Rightarrow> scheduler \<Rightarrow> scheduler" where
  "addStep g i st =
     (let st1 = st\<lparr>sc_total := sc_total st + 1\<rparr>;
          s = pl_steps st1 ! i;
          st2 = (if be_phony (g_edge g (sp_def s)) then st1
                 else fold (\<lambda>out. upd_target out (\<lambda>ti. ti\<lparr>ti_output := True\<rparr>)) (sp_outputs s) st1);
          (st3, rdy) = readyToRun i [] 0 st2 in
      if rdy then
        (case try_send i st3 of
           (st4, True) \<Rightarrow> st4
         | (st4, False) \<Rightarrow> st4\<lparr>pl_ready := pl_ready st4 @ [i]\<rparr>)
      else st3\<lparr>pl_npendings := pl_npendings st3 + 1\<rparr>)"

subsection \<open>Scheduling\<close>

definition mark :: "graph \<Rightarrow> nat \<Rightarrow> nat option \<Rightarrow> scheduler \<Rightarrow> scheduler \<times> sched_err option" where
  "mark g t next st =
     (if \<not> lookupNode g t then (st, Some ErrNoTarget)
      else if \<not> g_stat g t then (st, Some (MissingSourceError t next))
      else (upd_target t (\<lambda>ti. ti\<lparr>ti_source := True\<rparr>) st, None))"

text \<open>\<open>errors.As(err, &cycleErr)\<close>.\<close>

fun as_cycle :: "sched_err \<Rightarrow> bytes list option" where
  "as_cycle (DependencyCycleError ts) = Some ts"
| "as_cycle (ScheduleError t e) = as_cycle e"
| "as_cycle _ = None"

text \<open>What the input loop returns for an error of scheduling input \<open>i\<close>.\<close>

definition input_error :: "graph \<Rightarrow> nat \<Rightarrow> sched_err \<Rightarrow> sched_err" where
  "input_error g i err =
     (case as_cycle err of
        Some ts \<Rightarrow>
          if length ts \<le> 1 \<or> hd ts \<noteq> last ts then DependencyCycleError (ts @ [g_path g i])
          else DependencyCycleError ts
      | None \<Rightarrow> ScheduleError i err)"

text \<open>The deferred marking of the other outputs of a visited edge.\<close>

definition mark_outputs :: "nat list \<Rightarrow> 'a plan_scheme \<Rightarrow> 'a plan_scheme" where
  "mark_outputs outs p =
     fold (\<lambda>out. upd_target out (\<lambda>ti. if ti_scan ti = scanStateNotVisited
                                    then ti\<lparr>ti_scan := scanStateDone\<rparr> else ti)) outs p"

text \<open>
  \<open>scheduleTarget\<close>; \<open>scheduleStep\<close> is the part after a step definition was found and
  \<open>scheduleInputs\<close> its loop over \<open>append(inputs, orderOnly...)\<close>, where the flag says that
  the input is not order-only. The deferred functions run on error returns too.
\<close>

function (sequential) scheduleTarget ::
    "nat \<Rightarrow> graph \<Rightarrow> (nat \<Rightarrow> bool) \<Rightarrow> nat \<Rightarrow> nat option \<Rightarrow> scheduler \<Rightarrow> scheduler \<times> sched_err option"
  and scheduleStep ::
    "nat \<Rightarrow> graph \<Rightarrow> (nat \<Rightarrow> bool) \<Rightarrow> nat \<Rightarrow> nat \<Rightarrow> scheduler \<Rightarrow> scheduler \<times> sched_err option"
  and scheduleInputs ::
    "nat \<Rightarrow> graph \<Rightarrow> (nat \<Rightarrow> bool) \<Rightarrow> nat \<Rightarrow> nat \<Rightarrow> nat \<Rightarrow> (nat \<times> bool) list \<Rightarrow> scheduler \<Rightarrow>
     scheduler \<times> sched_err option" where
  "scheduleTarget 0 g ctxDone target next st = (st, Some OutOfFuel)"
| "scheduleTarget (Suc fuel) g ctxDone target next st =
     (if length (pl_targets st) \<le> target then (st, Some IndexPanic)
      else if scan_of st target = scanStateVisiting
      then (st, Some (DependencyCycleError [g_path g target]))
      else if scan_of st target = scanStateDone then (st, None)
      else
        let st1 = set_scan target scanStateVisiting st;
            (st2, err) =
              (if ti_source (pl_targets st1 ! target) then (st1, None)
               else case stepDef g target st1 of
                 (SD_NoTarget, st') \<Rightarrow> (st', Some ErrNoTarget)
               | (SD_Source, st') \<Rightarrow> mark g target next st'
               | (SD_Duplicate e, st') \<Rightarrow>
                   if scan_of st target = scanStateIgnored
                   then scheduleStep fuel g ctxDone target e st' else (st', None)
               | (SD_New e, st') \<Rightarrow> scheduleStep fuel g ctxDone target e st')
        in (set_scan target scanStateDone st2, err))"
| "scheduleStep fuel g ctxDone target e st =
     (let st1 = upd_target target (\<lambda>ti. ti\<lparr>ti_phonyOutput := be_phonyOutput (g_edge g e)\<rparr>) st;
          st2 = st1\<lparr>sc_visited := sc_visited st1 + 1\<rparr>;
          (st3, err) =
            (if ctxDone (sc_visited st2) then (st2, Some Interrupted)
             else
               let i = length (pl_steps st2);
                   ins = map (\<lambda>t. (t, True)) (be_inputs (g_edge g e)) @
                         map (\<lambda>t. (t, False)) (be_orderOnly (g_edge g e)) in
               case scheduleInputs fuel g ctxDone target e i ins
                      (st2\<lparr>pl_steps := pl_steps st2 @ [\<lparr>sp_def = e, sp_nwaits = 0, sp_outputs = [],
                              sp_prevStepID = [], sp_prevStepOut = 0\<rparr>]\<rparr>) of
                 (st', Some err) \<Rightarrow> (st', Some err)
               | (st', None) \<Rightarrow>
                   (addStep g i (upd_step i (\<lambda>s. s\<lparr>sp_outputs := be_outputs (g_edge g e)\<rparr>) st'), None))
      in (mark_outputs (be_outputs (g_edge g e)) st3, err))"
| "scheduleInputs fuel g ctxDone target e i [] st = (st, None)"
| "scheduleInputs fuel g ctxDone target e i ((inp, trigger) # ins) st =
     (if length (pl_targets st) \<le> inp then (st, Some IndexPanic)
      else
        case (if scan_of st inp \<noteq> scanStateDone
              then scheduleTarget fuel g ctxDone inp (Some e) st else (st, None)) of
          (st1, Some err) \<Rightarrow> (st1, Some (input_error g inp err))
        | (st1, None) \<Rightarrow>
            let st2 = (if \<not> ti_source (pl_targets st1 ! inp)
                       then upd_step i (\<lambda>s. s\<lparr>sp_nwaits := sp_nwaits s + 1\<rparr>)
                              (upd_target inp (\<lambda>ti. ti\<lparr>ti_waits := ti_waits ti @ [i]\<rparr>) st1)
                       else st1) in
            if trigger \<and> ti_phonyOutput (pl_targets st2 ! inp) \<and> \<not> be_phonyOutput (g_edge g e)
            then (st2, Some (PhonyOutputError target inp))
            else scheduleInputs fuel g ctxDone target e i ins st2)"
  by pat_completeness auto
termination
  by (relation "measures
      [\<lambda>x. case x of Inl (fuel, _) \<Rightarrow> fuel | Inr (Inl (fuel, _)) \<Rightarrow> fuel | Inr (Inr (fuel, _)) \<Rightarrow> fuel,
       \<lambda>x. case x of Inl _ \<Rightarrow> 0 | Inr (Inl _) \<Rightarrow> 2 | Inr (Inr _) \<Rightarrow> 1,
       \<lambda>x. case x of Inr (Inr (fuel, g, c, t, e, i, ins, st)) \<Rightarrow> length ins | _ \<Rightarrow> 0]") auto

declare scheduleStep.simps [simp del]

text \<open>\<open>schedule\<close> for already looked-up targets, then for the validations found meanwhile.\<close>

fun scheduleTargets ::
    "nat \<Rightarrow> graph \<Rightarrow> (nat \<Rightarrow> bool) \<Rightarrow> nat list \<Rightarrow> scheduler \<Rightarrow> scheduler \<times> sched_err option" where
  "scheduleTargets fuel g ctxDone [] st = (st, None)"
| "scheduleTargets fuel g ctxDone (t # ts) st =
     (if length (pl_targets st) \<le> t then (st, Some IndexPanic)
      else if scan_of st t = scanStateVisiting then (st, Some (ScanVisitingError t))
      else if scan_of st t \<in> {scanStateDone, scanStateIgnored}
      then scheduleTargets fuel g ctxDone ts st
      else
        case scheduleTarget fuel g ctxDone t None st of
          (st', Some err) \<Rightarrow> (st', Some (ScheduleError t err))
        | (st', None) \<Rightarrow> scheduleTargets fuel g ctxDone ts st')"

text \<open>\<open>range graph.Validations()\<close> evaluates the slice once: validations found while these are
  scheduled are not visited.\<close>

definition schedule ::
    "graph \<Rightarrow> (nat \<Rightarrow> bool) \<Rightarrow> nat list \<Rightarrow> scheduler \<Rightarrow> scheduler \<times> sched_err option" where
  "schedule g ctxDone targets st =
     (if targets = [] then (st, Some NoTargets)
      else
        let fuel = Suc (length (pl_targets st)) in
        case scheduleTargets fuel g ctxDone targets st of
          (st', Some err) \<Rightarrow> (st', Some err)
        | (st', None) \<Rightarrow> scheduleTargets fuel g ctxDone (sc_validations st') st')"

subsection \<open>Running the plan\<close>

definition pushReady :: "'a plan_scheme \<Rightarrow> 'a plan_scheme" where
  "pushReady p =
     (case pl_ready p of
        [] \<Rightarrow> p
      | s # rest \<Rightarrow>
          (case try_send s p of (p', True) \<Rightarrow> p'\<lparr>pl_ready := rest\<rparr> | (p', False) \<Rightarrow> p'))"

text \<open>The first loop of \<open>done\<close>: the spilled steps that fit go to the queue.\<close>

fun flush_ready :: "nat list \<Rightarrow> nat list \<Rightarrow> 'a plan_scheme \<Rightarrow> 'a plan_scheme" where
  "flush_ready kept [] p = p\<lparr>pl_ready := kept\<rparr>"
| "flush_ready kept (s # ss) p =
     (case try_send s p of
        (p', True) \<Rightarrow> flush_ready kept ss p'
      | (p', False) \<Rightarrow> flush_ready (kept @ [s]) ss p')"

text \<open>The loop over the steps that wait for one output: kept waiters, newly spilled steps.\<close>

fun done_waits :: "bytes \<Rightarrow> nat \<Rightarrow> nat list \<Rightarrow> nat list \<Rightarrow> nat list \<Rightarrow> 'a plan_scheme \<Rightarrow>
    'a plan_scheme \<times> nat list \<times> nat list" where
  "done_waits prev out [] kept spill p = (p, kept, spill)"
| "done_waits prev out (s # ss) kept spill p =
     (case readyToRun s prev out p of
        (p1, True) \<Rightarrow>
          (case try_send s (p1\<lparr>pl_npendings := pl_npendings p1 - 1\<rparr>) of
             (p2, True) \<Rightarrow> done_waits prev out ss kept spill p2
           | (p2, False) \<Rightarrow> done_waits prev out ss kept (spill @ [s]) p2)
      | (p1, False) \<Rightarrow> done_waits prev out ss (kept @ [s]) spill p1)"

fun done_outs :: "bytes \<Rightarrow> nat list \<Rightarrow> nat list \<Rightarrow> 'a plan_scheme \<Rightarrow> 'a plan_scheme \<times> nat list" where
  "done_outs prev [] spill p = (p, spill)"
| "done_outs prev (out # outs) spill p =
     (case done_waits prev out (ti_waits (pl_targets p ! out)) [] spill p of
        (p1, kept, spill1) \<Rightarrow>
          done_outs prev outs spill1 (upd_target out (\<lambda>ti. ti\<lparr>ti_waits := kept\<rparr>) p1))"

definition planDone :: "graph \<Rightarrow> nat \<Rightarrow> 'a plan_scheme \<Rightarrow> 'a plan_scheme" where
  "planDone g i p =
     (if pl_closed p then p
      else
        let step = pl_steps p ! i;
            p1 = flush_ready [] (pl_ready p) p;
            prev = (if be_phony (g_edge g (sp_def step)) then sp_prevStepID step
                    else be_name (g_edge g (sp_def step)));
            (p2, spill) = done_outs prev (sp_outputs step) [] p1;
            p3 = p2\<lparr>pl_ready := pl_ready p2 @ spill\<rparr> in
        if pl_ready p3 = [] \<and> pl_npendings p3 = 0 then p3\<lparr>pl_closed := True\<rparr> else p3)"

text \<open>\<open>plan.stats\<close>: pending steps, and steps that are queued or spilled.\<close>

definition plan_stats :: "'a plan_scheme \<Rightarrow> int \<times> nat" where
  "plan_stats p = (pl_npendings p, length (pl_q p) + length (pl_ready p))"

end
