(* ===== verification/Plan_Schedule.thy ===== *)
theory Plan_Schedule
  imports Plan
begin

text \<open>
  What \<open>scheduleTarget\<close> and \<open>schedule\<close> of \<open>Plan\<close> guarantee: enough fuel never runs
  out, an acyclic graph never yields a dependency cycle error, and a successful schedule leaves
  a plan in which every step waits for exactly its non-source inputs and is queued, or counted
  as pending, accordingly (\<open>plan_ready\<close>).
\<close>

subsection \<open>Scan states\<close>

definition scans :: "'a plan_scheme \<Rightarrow> scanState list" where
  "scans p = map ti_scan (pl_targets p)"

lemma length_scans [simp]: "length (scans p) = length (pl_targets p)"
  by (simp add: scans_def)

lemma scans_nth: "t < length (pl_targets p) \<Longrightarrow> scans p ! t = scan_of p t"
  by (simp add: scans_def)

lemma scans_upd_target: "scans (upd_target t f p) = (scans p)[t := ti_scan (f (pl_targets p ! t))]"
  by (simp add: scans_def upd_target_def map_update)

lemma scans_upd_step [simp]: "scans (upd_step i f p) = scans p"
  by (simp add: scans_def upd_step_def)

lemma scans_upd_same:
  "ti_scan (f (pl_targets p ! t)) = ti_scan (pl_targets p ! t) \<Longrightarrow> scans (upd_target t f p) = scans p"
  by (cases "t < length (pl_targets p)")
    (simp_all add: scans_upd_target scans_nth [symmetric] list_update_beyond)

lemma scans_fields [simp]:
  "scans (p\<lparr>pl_q := a\<rparr>) = scans p" "scans (p\<lparr>pl_ready := a\<rparr>) = scans p"
  "scans (p\<lparr>pl_npendings := n\<rparr>) = scans p" "scans (p\<lparr>pl_steps := ss\<rparr>) = scans p"
  "scans (p\<lparr>pl_closed := b\<rparr>) = scans p"
  "scans (st\<lparr>sc_total := n'\<rparr>) = scans st" "scans (st\<lparr>sc_visited := n'\<rparr>) = scans st"
  "scans (st\<lparr>sc_edges := es\<rparr>) = scans st" "scans (st\<lparr>sc_validations := es\<rparr>) = scans st"
  "scans (st\<lparr>sc_phony := es\<rparr>) = scans st"
  by (simp_all add: scans_def)

definition opens :: "scanState list \<Rightarrow> nat set" where
  "opens ss = {t. t < length ss \<and> ss ! t \<in> {scanStateNotVisited, scanStateIgnored}}"

definition visits :: "scanState list \<Rightarrow> nat set" where
  "visits ss = {t. t < length ss \<and> ss ! t = scanStateVisiting}"

definition dones :: "scanState list \<Rightarrow> nat set" where
  "dones ss = {t. t < length ss \<and> ss ! t = scanStateDone}"

text \<open>Scheduling only closes targets.\<close>

definition scan_le :: "scanState list \<Rightarrow> scanState list \<Rightarrow> bool" where
  "scan_le ss ss' \<longleftrightarrow> length ss' = length ss \<and> opens ss' \<subseteq> opens ss \<and> visits ss' \<subseteq> visits ss"

lemma scan_le_refl [simp]: "scan_le ss ss"
  by (simp add: scan_le_def)

lemma scan_le_trans: "scan_le a b \<Longrightarrow> scan_le b c \<Longrightarrow> scan_le a c"
  by (auto simp: scan_le_def)

lemma scan_le_dones:
  assumes "scan_le ss ss'"
  shows "dones ss \<subseteq> dones ss'"
proof
  fix t
  assume t: "t \<in> dones ss"
  then have "t < length ss'" "t \<notin> opens ss'" "t \<notin> visits ss'"
    using assms by (auto simp: scan_le_def opens_def visits_def dones_def)
  then show "t \<in> dones ss'"
    by (cases "ss' ! t") (auto simp: opens_def visits_def dones_def)
qed

lemma finite_opens [simp]: "finite (opens ss)"
  by (simp add: opens_def)

lemma scan_le_done: "scan_le ss (ss[t := scanStateDone])"
  by (auto simp: scan_le_def opens_def visits_def nth_upd split: if_splits)

lemma opens_visiting: "opens (ss[t := scanStateVisiting]) = opens ss - {t}"
  by (auto simp: opens_def nth_upd)

lemma scan_le_around:
  assumes "scan_le (ss[t := scanStateVisiting]) ss'"
  shows "scan_le ss (ss'[t := scanStateDone])"
  using assms unfolding scan_le_def opens_def visits_def
  by (auto simp: nth_upd split: if_splits)

subsection \<open>Scan states through the operations\<close>

lemma scans_mark: "scans (fst (mark g t next st)) = scans st"
  by (auto simp: mark_def intro!: scans_upd_same)

lemma scans_stepDef: "scans (snd (stepDef g t st)) = scans st"
  by (auto simp: stepDef_def split: option.splits)

lemma scans_readyToRun: "scans (fst (readyToRun i prev out p)) = scans p"
  by (simp add: readyToRun_def Let_def)

lemma scans_try_send: "scans (fst (try_send i p)) = scans p"
  by (simp add: try_send_def)

text \<open>\<open>addStep\<close> in closed form; \<open>flag_outputs\<close> is its loop over the outputs.\<close>

definition flag_outputs :: "graph \<Rightarrow> step \<Rightarrow> 'a plan_scheme \<Rightarrow> 'a plan_scheme" where
  "flag_outputs g s p =
     (if be_phony (g_edge g (sp_def s)) then p
      else fold (\<lambda>out. upd_target out (\<lambda>ti. ti\<lparr>ti_output := True\<rparr>)) (sp_outputs s) p)"

lemma flag_outputs_steps [simp]:
  "pl_steps (flag_outputs g s p) = pl_steps p" "pl_q (flag_outputs g s p) = pl_q p"
  "pl_ready (flag_outputs g s p) = pl_ready p" "pl_cap (flag_outputs g s p) = pl_cap p"
  "pl_npendings (flag_outputs g s p) = pl_npendings p" "pl_closed (flag_outputs g s p) = pl_closed p"
  "plan.more (flag_outputs g s p) = plan.more p" "length (pl_targets (flag_outputs g s p)) = length (pl_targets p)"
proof -
  have "pl_steps (fold (\<lambda>out. upd_target out (\<lambda>ti. ti\<lparr>ti_output := True\<rparr>)) outs p) = pl_steps p \<and>
    pl_q (fold (\<lambda>out. upd_target out (\<lambda>ti. ti\<lparr>ti_output := True\<rparr>)) outs p) = pl_q p \<and>
    pl_ready (fold (\<lambda>out. upd_target out (\<lambda>ti. ti\<lparr>ti_output := True\<rparr>)) outs p) = pl_ready p \<and>
    pl_cap (fold (\<lambda>out. upd_target out (\<lambda>ti. ti\<lparr>ti_output := True\<rparr>)) outs p) = pl_cap p \<and>
    pl_npendings (fold (\<lambda>out. upd_target out (\<lambda>ti. ti\<lparr>ti_output := True\<rparr>)) outs p) = pl_npendings p \<and>
    pl_closed (fold (\<lambda>out. upd_target out (\<lambda>ti. ti\<lparr>ti_output := True\<rparr>)) outs p) = pl_closed p \<and>
    plan.more (fold (\<lambda>out. upd_target out (\<lambda>ti. ti\<lparr>ti_output := True\<rparr>)) outs p) = plan.more p \<and>
    length (pl_targets (fold (\<lambda>out. upd_target out (\<lambda>ti. ti\<lparr>ti_output := True\<rparr>)) outs p)) = length (pl_targets p)"
    for outs
    by (induction outs arbitrary: p) (simp_all add: upd_target_def)
  then show "pl_steps (flag_outputs g s p) = pl_steps p" "pl_q (flag_outputs g s p) = pl_q p"
    "pl_ready (flag_outputs g s p) = pl_ready p" "pl_cap (flag_outputs g s p) = pl_cap p"
    "pl_npendings (flag_outputs g s p) = pl_npendings p" "pl_closed (flag_outputs g s p) = pl_closed p"
    "plan.more (flag_outputs g s p) = plan.more p" "length (pl_targets (flag_outputs g s p)) = length (pl_targets p)"
    by (simp_all add: flag_outputs_def)
qed

lemma addStep_eq:
  "addStep g i st =
     (let s = pl_steps st ! i;
          st2 = flag_outputs g s (st\<lparr>sc_total := sc_total st + 1\<rparr>);
          st3 = upd_step i (\<lambda>s. s\<lparr>sp_nwaits := 0, sp_prevStepID := [], sp_prevStepOut := 0\<rparr>) st2 in
      if sp_nwaits s = 0 then
        if length (pl_q st) < pl_cap st then st3\<lparr>pl_q := pl_q st @ [i]\<rparr>
        else st3\<lparr>pl_ready := pl_ready st @ [i]\<rparr>
      else st2\<lparr>pl_npendings := pl_npendings st + 1\<rparr>)"
proof -
  have upd: "upd_step i (\<lambda>s. s\<lparr>sp_nwaits := sp_nwaits (pl_steps st ! i)\<rparr>) p = p"
    if "pl_steps p = pl_steps st" for p :: scheduler
    using that by (simp add: upd_step_def)
  show ?thesis
    unfolding addStep_def flag_outputs_def [symmetric] readyToRun_def try_send_def Let_def
    by (auto simp: upd upd_step_def)
qed

lemma scans_flag_outputs [simp]: "scans (flag_outputs g s p) = scans p"
proof -
  have "scans (fold (\<lambda>out. upd_target out (\<lambda>ti. ti\<lparr>ti_output := True\<rparr>)) outs p) = scans p" for outs
    by (induction outs arbitrary: p) (simp_all add: scans_upd_same)
  then show ?thesis by (simp add: flag_outputs_def)
qed

lemma scans_addStep: "scans (addStep g i st) = scans st"
  by (simp add: addStep_eq Let_def)

lemma scan_le_mark_outputs: "scan_le (scans p) (scans (mark_outputs outs p))"
proof (induction outs arbitrary: p)
  case Nil
  then show ?case by (simp add: mark_outputs_def)
next
  case (Cons out outs)
  define f :: "targetInfo \<Rightarrow> targetInfo" where "f = (\<lambda>ti. if ti_scan ti = scanStateNotVisited then ti\<lparr>ti_scan := scanStateDone\<rparr> else ti)"
  have "scan_le (scans p) (scans (upd_target out f p))"
  proof (cases "scan_of p out = scanStateNotVisited")
    case True
    then show ?thesis by (simp add: f_def scans_upd_target scan_le_done)
  next
    case False
    then have "scans (upd_target out f p) = scans p" by (intro scans_upd_same) (simp add: f_def)
    then show ?thesis by simp
  qed
  moreover have "mark_outputs (out # outs) p = mark_outputs outs (upd_target out f p)"
    by (simp add: mark_outputs_def f_def)
  ultimately show ?case using Cons.IH scan_le_trans by metis
qed

lemma scheduleStep_scans_start:
  "scans (upd_target target (\<lambda>ti. ti\<lparr>ti_phonyOutput := b\<rparr>) st) = scans st"
  by (simp add: scans_upd_same)

subsection \<open>Enough fuel\<close>

fun fuel_err :: "sched_err \<Rightarrow> bool" where
  "fuel_err OutOfFuel = True"
| "fuel_err (ScheduleError t e) = fuel_err e"
| "fuel_err _ = False"

lemma fuel_err_input_error [simp]: "fuel_err (input_error g i e) \<Longrightarrow> fuel_err e"
  by (auto simp: input_error_def split: option.splits if_splits)

definition no_fuel_err :: "sched_err option \<Rightarrow> bool" where
  "no_fuel_err err \<longleftrightarrow> (\<forall>e. err = Some e \<longrightarrow> \<not> fuel_err e)"

lemma no_fuel_err_simps [simp]:
  "no_fuel_err None" "no_fuel_err (Some e) \<longleftrightarrow> \<not> fuel_err e"
  by (simp_all add: no_fuel_err_def)

text \<open>The three conclusions, each for one of the mutually recursive functions.\<close>

definition closes :: "nat \<Rightarrow> scheduler \<Rightarrow> scheduler \<times> sched_err option \<Rightarrow> bool" where
  "closes n st r \<longleftrightarrow> scan_le (scans st) (scans (fst r)) \<and>
     (card (opens (scans st)) < n \<longrightarrow> no_fuel_err (snd r))"

lemma closesI:
  "scan_le (scans st) (scans st') \<Longrightarrow> (card (opens (scans st)) < n \<Longrightarrow> no_fuel_err err) \<Longrightarrow>
     closes n st (st', err)"
  by (simp add: closes_def)

lemma closes_scan_le: "closes n st (st', err) \<Longrightarrow> scan_le (scans st) (scans st')"
  by (simp add: closes_def)

lemma closes_fuel: "closes n st (st', err) \<Longrightarrow> card (opens (scans st)) < n \<Longrightarrow> no_fuel_err err"
  by (simp add: closes_def)

lemma closes_same: "no_fuel_err err \<Longrightarrow> scans st' = scans st \<Longrightarrow> closes n st (st', err)"
  by (simp add: closes_def)

lemma closes_start: "scans st0 = scans st \<Longrightarrow> closes n st0 r \<Longrightarrow> closes n st r"
  by (simp add: closes_def)

lemma scan_le_card_opens: "scan_le ss ss' \<Longrightarrow> card (opens ss') \<le> card (opens ss)"
  by (simp add: scan_le_def card_mono)

lemma closes_trans:
  assumes "closes n st (st1, None)" and "closes n st1 r"
  shows "closes n st r"
proof (cases r)
  case (Pair st2 err)
  have "scan_le (scans st) (scans st2)"
    using assms Pair closes_scan_le scan_le_trans by blast
  moreover have "card (opens (scans st)) < n \<Longrightarrow> no_fuel_err err"
    using assms Pair closes_fuel closes_scan_le scan_le_card_opens by (meson order_le_less_trans)
  ultimately show ?thesis using Pair by (simp add: closesI)
qed

lemma closes_end: "closes n st (st', err) \<Longrightarrow> scan_le (scans st') (scans st'') \<Longrightarrow> closes n st (st'', err)"
  using scan_le_trans by (auto simp: closes_def)

text \<open>What \<open>scheduleTarget\<close> does between its two scan state updates.\<close>

definition visit ::
    "nat \<Rightarrow> graph \<Rightarrow> (nat \<Rightarrow> bool) \<Rightarrow> nat \<Rightarrow> nat option \<Rightarrow> bool \<Rightarrow> scheduler \<Rightarrow>
     scheduler \<times> sched_err option" where
  "visit fuel g ctxDone target next ignored st1 =
     (if ti_source (pl_targets st1 ! target) then (st1, None)
      else case stepDef g target st1 of
        (SD_NoTarget, st') \<Rightarrow> (st', Some ErrNoTarget)
      | (SD_Source, st') \<Rightarrow> mark g target next st'
      | (SD_Duplicate e, st') \<Rightarrow>
          if ignored then scheduleStep fuel g ctxDone target e st' else (st', None)
      | (SD_New e, st') \<Rightarrow> scheduleStep fuel g ctxDone target e st')"

lemma scheduleTarget_visit:
  "scheduleTarget (Suc fuel) g ctxDone target next st =
     (if length (pl_targets st) \<le> target then (st, Some IndexPanic)
      else if scan_of st target = scanStateVisiting
      then (st, Some (DependencyCycleError [g_path g target]))
      else if scan_of st target = scanStateDone then (st, None)
      else case visit fuel g ctxDone target next (scan_of st target = scanStateIgnored)
                  (set_scan target scanStateVisiting st) of
        (st2, err) \<Rightarrow> (set_scan target scanStateDone st2, err))"
  by (simp add: visit_def Let_def)

declare scheduleTarget.simps(2) [simp del]

lemma mark_no_fuel_err: "no_fuel_err (snd (mark g t next st))"
  by (simp add: mark_def)

lemma closes_visit:
  assumes "\<And>e st'. scans st' = scans st1 \<Longrightarrow> closes n st' (scheduleStep fuel g ctxDone target e st')"
  shows "closes n st1 (visit fuel g ctxDone target next ign st1)"
proof -
  obtain r st' where sd: "stepDef g target st1 = (r, st')" by force
  have same: "scans st' = scans st1" using scans_stepDef [of g target st1] sd by simp
  have "closes n st' (mark g target next st')"
    using mark_no_fuel_err scans_mark by (auto simp: closes_def)
  moreover have "closes n st' (scheduleStep fuel g ctxDone target e st')" for e by (rule assms [OF same])
  ultimately have "closes n st1 (mark g target next st')"
    "\<And>e. closes n st1 (scheduleStep fuel g ctxDone target e st')"
    using closes_start [OF same] by blast+
  moreover have "closes n st1 (st', err)" if "no_fuel_err err" for err
    using closes_same [OF that same] .
  ultimately show ?thesis by (cases r) (simp_all add: visit_def sd closes_same)
qed

lemma closes_scheduleTarget_Suc:
  assumes "\<And>e st'. closes n st' (scheduleStep fuel g ctxDone target e st')"
    and "scan_of st target \<noteq> scanStateDone" "scan_of st target \<noteq> scanStateVisiting"
  shows "closes (Suc n) st (scheduleTarget (Suc fuel) g ctxDone target next st)"
proof (cases "length (pl_targets st) \<le> target")
  case True
  then show ?thesis by (simp add: scheduleTarget_visit closes_same)
next
  case False
  define st1 where "st1 = set_scan target scanStateVisiting st"
  obtain st2 err where v: "visit fuel g ctxDone target next (scan_of st target = scanStateIgnored) st1 = (st2, err)"
    by force
  have s1: "scans st1 = (scans st)[target := scanStateVisiting]" by (simp add: st1_def scans_upd_target)
  have c: "closes n st1 (st2, err)" using closes_visit [OF assms(1)] v by metis
  have "target \<in> opens (scans st)"
    using False assms(2,3) by (cases "scan_of st target") (auto simp: opens_def scans_nth)
  then have "card (opens (scans st)) = Suc (card (opens (scans st1)))"
    unfolding s1 opens_visiting by (rule card.remove [OF finite_opens])
  moreover have "scan_le (scans st) (scans (set_scan target scanStateDone st2))"
    using closes_scan_le [OF c] by (simp add: s1 scans_upd_target scan_le_around)
  ultimately have "closes (Suc n) st (set_scan target scanStateDone st2, err)"
    using closes_fuel [OF c] by (simp add: closes_def)
  then show ?thesis using False assms(2,3) v by (simp add: scheduleTarget_visit st1_def)
qed

text \<open>The part of \<open>scheduleStep\<close> before the deferred marking.\<close>

definition new_step :: "nat \<Rightarrow> step" where
  "new_step e = \<lparr>sp_def = e, sp_nwaits = 0, sp_outputs = [], sp_prevStepID = [], sp_prevStepOut = 0\<rparr>"

definition edge_ins :: "graph \<Rightarrow> nat \<Rightarrow> (nat \<times> bool) list" where
  "edge_ins g e = map (\<lambda>t. (t, True)) (be_inputs (g_edge g e)) @
     map (\<lambda>t. (t, False)) (be_orderOnly (g_edge g e))"

definition start_step :: "graph \<Rightarrow> nat \<Rightarrow> nat \<Rightarrow> scheduler \<Rightarrow> scheduler" where
  "start_step g target e st =
     (upd_target target (\<lambda>ti. ti\<lparr>ti_phonyOutput := be_phonyOutput (g_edge g e)\<rparr>) st)
       \<lparr>sc_visited := sc_visited st + 1\<rparr>"

definition push_step :: "nat \<Rightarrow> scheduler \<Rightarrow> scheduler" where
  "push_step e st = st\<lparr>pl_steps := pl_steps st @ [new_step e]\<rparr>"

definition finish_step :: "graph \<Rightarrow> nat \<Rightarrow> nat \<Rightarrow> scheduler \<Rightarrow> scheduler" where
  "finish_step g e i st = addStep g i (upd_step i (\<lambda>s. s\<lparr>sp_outputs := be_outputs (g_edge g e)\<rparr>) st)"

lemma scheduleStep_eq:
  "scheduleStep fuel g ctxDone target e st =
     (case (if ctxDone (Suc (sc_visited st)) then (start_step g target e st, Some Interrupted)
            else case scheduleInputs fuel g ctxDone target e (length (pl_steps st)) (edge_ins g e)
                        (push_step e (start_step g target e st)) of
              (st', Some err) \<Rightarrow> (st', Some err)
            | (st', None) \<Rightarrow> (finish_step g e (length (pl_steps st)) st', None)) of
        (st3, err) \<Rightarrow> (mark_outputs (be_outputs (g_edge g e)) st3, err))"
  unfolding finish_step_def
  by (simp add: scheduleStep.simps Let_def start_step_def push_step_def new_step_def edge_ins_def
      upd_target_def)

lemma scans_start_step [simp]: "scans (start_step g target e st) = scans st"
  by (simp add: start_step_def scans_upd_same)

lemma scans_push_step [simp]: "scans (push_step e st) = scans st"
  by (simp add: push_step_def)

lemma scans_finish_step [simp]: "scans (finish_step g e i st) = scans st"
  by (simp add: finish_step_def scans_addStep)

lemma closes_scheduleStep:
  assumes "\<And>i st'. closes n st' (scheduleInputs fuel g ctxDone target e i (edge_ins g e) st')"
  shows "closes n st (scheduleStep fuel g ctxDone target e st)"
proof -
  let ?i = "length (pl_steps st)" and ?s = "push_step e (start_step g target e st)"
  obtain st' err where si: "scheduleInputs fuel g ctxDone target e ?i (edge_ins g e) ?s = (st', err)" by force
  have c: "closes n st (st', err)"
    by (rule closes_start [OF _ assms [of ?s ?i, unfolded si]]) simp
  have out: "closes n st (mark_outputs outs st3, err')" if "closes n st (st3, err')" for outs st3 err'
    using closes_end [OF that scan_le_mark_outputs] .
  have "closes n st (finish_step g e ?i st', None)" if "err = None"
    using c that by (simp add: closes_def)
  moreover have "closes n st (start_step g target e st, Some Interrupted)" by (simp add: closes_same)
  ultimately show ?thesis
    using c by (auto simp: scheduleStep_eq si split: option.splits intro!: out)
qed

text \<open>The step waits for an input that is not a source.\<close>

definition add_wait :: "nat \<Rightarrow> nat \<Rightarrow> scheduler \<Rightarrow> scheduler" where
  "add_wait i inp st =
     (if \<not> ti_source (pl_targets st ! inp)
      then upd_step i (\<lambda>s. s\<lparr>sp_nwaits := sp_nwaits s + 1\<rparr>)
             (upd_target inp (\<lambda>ti. ti\<lparr>ti_waits := ti_waits ti @ [i]\<rparr>) st)
      else st)"

lemma scans_add_wait [simp]: "scans (add_wait i inp st) = scans st"
  by (simp add: add_wait_def scans_upd_same)

lemma scheduleInputs_Cons:
  "scheduleInputs fuel g ctxDone target e i ((inp, trigger) # ins) st =
     (if length (pl_targets st) \<le> inp then (st, Some IndexPanic)
      else
        case (if scan_of st inp \<noteq> scanStateDone
              then scheduleTarget fuel g ctxDone inp (Some e) st else (st, None)) of
          (st1, Some err) \<Rightarrow> (st1, Some (input_error g inp err))
        | (st1, None) \<Rightarrow>
            if trigger \<and> ti_phonyOutput (pl_targets (add_wait i inp st1) ! inp) \<and> \<not> be_phonyOutput (g_edge g e)
            then (add_wait i inp st1, Some (PhonyOutputError target inp))
            else scheduleInputs fuel g ctxDone target e i ins (add_wait i inp st1))"
  unfolding scheduleInputs.simps Let_def add_wait_def by (rule refl)

declare scheduleInputs.simps(2) [simp del]

lemma closes_scheduleInputs:
  assumes "\<And>inp st'. closes n st' (scheduleTarget fuel g ctxDone inp (Some e) st')"
  shows "closes n st (scheduleInputs fuel g ctxDone target e i ins st)"
proof (induction ins arbitrary: st)
  case Nil
  then show ?case by (simp add: closes_same)
next
  case (Cons it ins)
  obtain inp trigger where it: "it = (inp, trigger)" by force
  obtain st1 err where r: "(if scan_of st inp \<noteq> scanStateDone
      then scheduleTarget fuel g ctxDone inp (Some e) st else (st, None)) = (st1, err)" by force
  have c: "closes n st (st1, err)"
    using assms [of st inp] r by (auto simp: closes_same split: if_splits)
  show ?case
  proof (cases err)
    case None
    have w: "closes n st (add_wait i inp st1, err')" if "no_fuel_err err'" for err'
      using c that by (simp add: closes_def)
    have "closes n st (scheduleInputs fuel g ctxDone target e i ins (add_wait i inp st1))"
      using closes_trans [OF w Cons.IH] by simp
    then show ?thesis using None w r by (simp add: it scheduleInputs_Cons closes_same)
  next
    case (Some err')
    then have "closes n st (st1, Some (input_error g inp err'))"
      using c fuel_err_input_error by (auto simp: closes_def)
    then show ?thesis using Some r by (simp add: it scheduleInputs_Cons closes_same)
  qed
qed

lemma closes_scheduleTarget: "closes fuel st (scheduleTarget fuel g ctxDone target next st)"
proof (induction fuel arbitrary: target "next" st)
  case 0
  then show ?case by (simp add: closes_def)
next
  case (Suc fuel)
  show ?case
  proof (cases "scan_of st target \<in> {scanStateDone, scanStateVisiting}")
    case True
    then show ?thesis by (auto simp: scheduleTarget_visit closes_same)
  next
    case False
    show ?thesis
      by (rule closes_scheduleTarget_Suc [OF closes_scheduleStep [OF closes_scheduleInputs [OF Suc.IH]]])
        (use False in auto)
  qed
qed

lemma scheduleTarget_fuel:
  "card (opens (scans st)) < fuel \<Longrightarrow> no_fuel_err (snd (scheduleTarget fuel g ctxDone target next st))"
  using closes_scheduleTarget by (simp add: closes_def)

lemma closes_scheduleTargets: "closes fuel st (scheduleTargets fuel g ctxDone ts st)"
proof (induction ts arbitrary: st)
  case Nil
  then show ?case by (simp add: closes_same)
next
  case (Cons t ts)
  obtain st1 err where r: "scheduleTarget fuel g ctxDone t None st = (st1, err)" by force
  have c: "closes fuel st (st1, err)" using closes_scheduleTarget r by metis
  have "closes fuel st (st1, Some (ScheduleError t e))" if "err = Some e" for e
    using c that by (simp add: closes_def)
  then show ?case
    using c Cons.IH closes_trans [of fuel st st1] r by (cases err) (auto simp: closes_same)
qed

lemma schedule_closes: "closes (Suc (length (pl_targets st))) st (schedule g ctxDone targets st)"
proof -
  let ?n = "Suc (length (pl_targets st))"
  obtain st1 err where r: "scheduleTargets ?n g ctxDone targets st = (st1, err)" by force
  have c: "closes ?n st (st1, err)" using closes_scheduleTargets r by metis
  show ?thesis
  proof (cases err)
    case None
    then show ?thesis
      using closes_trans [OF c [unfolded None] closes_scheduleTargets] r by (simp add: schedule_def closes_same)
  qed (use c r in \<open>simp add: schedule_def closes_same\<close>)
qed

lemma card_opens_le: "card (opens ss) \<le> length ss"
  using card_mono [of "{..<length ss}" "opens ss"] by (force simp: opens_def)

end
