(* ===== verification/Plan_Inv.thy ===== *)
theory Plan_Inv
  imports Plan_Schedule
begin

text \<open>
  The invariant of a plan under construction, and that every operation of the scheduler keeps it.
  \<open>P\<close> is the set of steps whose inputs are still being scheduled (they are on the Go call
  stack) and \<open>W i\<close> the inputs of such a step that were handled so far; every other step
  waits for all its inputs and order-only inputs.
\<close>

subsection \<open>The invariant\<close>

definition step_ins :: "graph \<Rightarrow> nat \<Rightarrow> nat list" where
  "step_ins g e = be_inputs (g_edge g e) @ be_orderOnly (g_edge g e)"

definition need :: "graph \<Rightarrow> (nat \<Rightarrow> nat list) \<Rightarrow> nat set \<Rightarrow> step list \<Rightarrow> nat \<Rightarrow> nat list" where
  "need g W P ss i = (if i \<in> P then W i else step_ins g (sp_def (ss ! i)))"

definition wf_edge :: "graph \<Rightarrow> nat \<Rightarrow> bool" where
  "wf_edge g e \<longleftrightarrow>
     list_all (\<lambda>t. lookupNode g t \<and> g_inEdge g t = Some e) (be_outputs (g_edge g e)) \<and>
     be_outputs (g_edge g e) \<noteq> [] \<and> distinct (be_outputs (g_edge g e)) \<and>
     list_all (lookupNode g) (step_ins g e)"

definition wf_graph :: "graph \<Rightarrow> bool" where
  "wf_graph g \<longleftrightarrow>
     list_all (\<lambda>t. case g_inEdge g t of None \<Rightarrow> True
                   | Some e \<Rightarrow> t \<in> set (be_outputs (g_edge g e)) \<and> wf_edge g e) [0..<g_numTargets g]"

definition waits_inv :: "targetInfo list \<Rightarrow> nat \<Rightarrow> (nat \<Rightarrow> nat list) \<Rightarrow> bool" where
  "waits_inv ts n nd \<longleftrightarrow>
     (\<forall>t < length ts. \<forall>i. count_list (ti_waits (ts ! t)) i =
        (if i < n \<and> \<not> ti_source (ts ! t) then count_list (nd i) t else 0))"

definition needs_inv :: "targetInfo list \<Rightarrow> nat \<Rightarrow> (nat \<Rightarrow> nat list) \<Rightarrow> bool" where
  "needs_inv ts n nd \<longleftrightarrow>
     (\<forall>i < n. \<forall>t \<in> set (nd i). t < length ts \<and> ti_scan (ts ! t) = scanStateDone)"

definition nwaits_inv :: "targetInfo list \<Rightarrow> step list \<Rightarrow> (nat \<Rightarrow> nat list) \<Rightarrow> bool" where
  "nwaits_inv ts ss nd \<longleftrightarrow>
     (\<forall>i < length ss. sp_nwaits (ss ! i) = int (length (filter (\<lambda>t. \<not> ti_source (ts ! t)) (nd i))))"

definition target_inv :: "graph \<Rightarrow> nat set \<Rightarrow> targetInfo list \<Rightarrow> bool" where
  "target_inv g es ts \<longleftrightarrow> length ts = g_numTargets g \<and>
     (\<forall>t < length ts. ti_scan (ts ! t) \<noteq> scanStateIgnored \<and>
        (ti_source (ts ! t) \<longrightarrow> g_inEdge g t = None \<and> g_stat g t) \<and>
        (ti_scan (ts ! t) = scanStateDone \<and> \<not> ti_source (ts ! t) \<longrightarrow> (\<exists>e \<in> es. g_inEdge g t = Some e)))"

definition edges_inv :: "graph \<Rightarrow> nat list \<Rightarrow> nat set \<Rightarrow> step list \<Rightarrow> bool" where
  "edges_inv g es P ss \<longleftrightarrow> map sp_def ss = es \<and> distinct es \<and>
     (\<forall>i < length ss. wf_edge g (sp_def (ss ! i)) \<and>
        (i \<notin> P \<longrightarrow> sp_outputs (ss ! i) = be_outputs (g_edge g (sp_def (ss ! i)))))"

definition steps_with :: "(int \<Rightarrow> bool) \<Rightarrow> nat set \<Rightarrow> step list \<Rightarrow> nat set" where
  "steps_with Q P ss = {i. i < length ss \<and> i \<notin> P \<and> Q (sp_nwaits (ss ! i))}"

definition queue_inv :: "nat set \<Rightarrow> 'a plan_scheme \<Rightarrow> bool" where
  "queue_inv P p \<longleftrightarrow> distinct (pl_q p @ pl_ready p) \<and>
     set (pl_q p @ pl_ready p) = steps_with (\<lambda>n. n = 0) P (pl_steps p) \<and>
     pl_npendings p = int (card (steps_with (\<lambda>n. n \<noteq> 0) P (pl_steps p))) \<and>
     P \<subseteq> {..<length (pl_steps p)} \<and> \<not> pl_closed p"

definition plan_inv :: "graph \<Rightarrow> (nat \<Rightarrow> nat list) \<Rightarrow> nat set \<Rightarrow> scheduler \<Rightarrow> bool" where
  "plan_inv g W P st \<longleftrightarrow>
     waits_inv (pl_targets st) (length (pl_steps st)) (need g W P (pl_steps st)) \<and>
     needs_inv (pl_targets st) (length (pl_steps st)) (need g W P (pl_steps st)) \<and>
     nwaits_inv (pl_targets st) (pl_steps st) (need g W P (pl_steps st)) \<and>
     target_inv g (set (sc_edges st)) (pl_targets st) \<and>
     edges_inv g (sc_edges st) P (pl_steps st) \<and>
     queue_inv P st \<and> sc_total st + card P = length (pl_steps st)"

lemma plan_invI:
  assumes "waits_inv (pl_targets st) (length (pl_steps st)) (need g W P (pl_steps st))"
    and "needs_inv (pl_targets st) (length (pl_steps st)) (need g W P (pl_steps st))"
    and "nwaits_inv (pl_targets st) (pl_steps st) (need g W P (pl_steps st))"
    and "target_inv g (set (sc_edges st)) (pl_targets st)"
    and "edges_inv g (sc_edges st) P (pl_steps st)"
    and "queue_inv P st" and "sc_total st + card P = length (pl_steps st)"
  shows "plan_inv g W P st"
  using assms by (simp only: plan_inv_def simp_thms)

lemma plan_invD:
  assumes "plan_inv g W P st"
  shows "waits_inv (pl_targets st) (length (pl_steps st)) (need g W P (pl_steps st))"
    and "needs_inv (pl_targets st) (length (pl_steps st)) (need g W P (pl_steps st))"
    and "nwaits_inv (pl_targets st) (pl_steps st) (need g W P (pl_steps st))"
    and "target_inv g (set (sc_edges st)) (pl_targets st)"
    and "edges_inv g (sc_edges st) P (pl_steps st)"
    and "queue_inv P st" and "sc_total st + card P = length (pl_steps st)"
  using assms by (simp_all only: plan_inv_def simp_thms)

lemma wf_graph_edge:
  "wf_graph g \<Longrightarrow> lookupNode g t \<Longrightarrow> g_inEdge g t = Some e \<Longrightarrow>
     t \<in> set (be_outputs (g_edge g e)) \<and> wf_edge g e"
  unfolding wf_graph_def lookupNode_def list_all_iff by (drule bspec [of _ _ t]) auto

lemma finite_steps_with [simp]: "finite (steps_with Q P ss)"
  by (simp add: steps_with_def)

lemma steps_with_Nil [simp]: "steps_with Q P [] = {}"
  by (simp add: steps_with_def)

lemma steps_with_upd: "i \<in> P \<Longrightarrow> steps_with Q P (ss[i := s]) = steps_with Q P ss"
  by (auto simp: steps_with_def nth_upd)

lemma steps_with_push: "P \<subseteq> {..<length ss} \<Longrightarrow> steps_with Q (insert (length ss) P) (ss @ [s]) = steps_with Q P ss"
  by (auto simp: steps_with_def nth_append less_Suc_eq)

lemma steps_with_close:
  "i \<in> P \<Longrightarrow> i < length ss \<Longrightarrow>
     steps_with Q (P - {i}) ss = (if Q (sp_nwaits (ss ! i)) then insert i (steps_with Q P ss) else steps_with Q P ss)"
  by (auto simp: steps_with_def)

lemma plan_inv_init: "plan_inv g W {} (newScheduler (g_numTargets g))"
  by (rule plan_invI)
    (simp_all add: newScheduler_def waits_inv_def needs_inv_def nwaits_inv_def target_inv_def
      edges_inv_def queue_inv_def emptyTarget_def)

subsection \<open>Changes of the targets that keep the invariant\<close>

definition target_step :: "graph \<Rightarrow> nat set \<Rightarrow> targetInfo list \<Rightarrow> targetInfo list \<Rightarrow> bool" where
  "target_step g es ts ts' \<longleftrightarrow> length ts' = length ts \<and>
     (\<forall>t < length ts. ti_waits (ts' ! t) = ti_waits (ts ! t) \<and>
        (ti_scan (ts ! t) = scanStateDone \<longrightarrow>
           ti_scan (ts' ! t) = scanStateDone \<and> ti_source (ts' ! t) = ti_source (ts ! t))) \<and>
     target_inv g es ts'"

lemma needs_done:
  "needs_inv ts n nd \<Longrightarrow> i < n \<Longrightarrow> t \<in> set (nd i) \<Longrightarrow> t < length ts \<and> ti_scan (ts ! t) = scanStateDone"
  by (simp add: needs_inv_def)

lemma needs_not_done:
  "needs_inv ts n nd \<Longrightarrow> i < n \<Longrightarrow> ti_scan (ts ! t) \<noteq> scanStateDone \<Longrightarrow> count_list (nd i) t = 0"
  by (auto simp: needs_inv_def count_list_0_iff)

lemma waits_inv_target_step:
  assumes "waits_inv ts n nd" "needs_inv ts n nd" "target_step g es ts ts'"
  shows "waits_inv ts' n nd"
  unfolding waits_inv_def
proof (intro allI impI)
  fix t i
  assume "t < length ts'"
  then have t: "t < length ts" and w: "ti_waits (ts' ! t) = ti_waits (ts ! t)"
    using assms(3) by (simp_all add: target_step_def)
  have c: "count_list (ti_waits (ts ! t)) i = (if i < n \<and> \<not> ti_source (ts ! t) then count_list (nd i) t else 0)"
    using assms(1) t by (simp add: waits_inv_def)
  show "count_list (ti_waits (ts' ! t)) i = (if i < n \<and> \<not> ti_source (ts' ! t) then count_list (nd i) t else 0)"
  proof (cases "ti_scan (ts ! t) = scanStateDone")
    case True
    then show ?thesis using assms(3) t c w by (simp add: target_step_def)
  next
    case False
    then show ?thesis using needs_not_done [OF assms(2)] c w by simp
  qed
qed

lemma needs_inv_target_step:
  "needs_inv ts n nd \<Longrightarrow> target_step g es ts ts' \<Longrightarrow> needs_inv ts' n nd"
  by (simp add: needs_inv_def target_step_def)

lemma nwaits_inv_target_step:
  assumes "nwaits_inv ts ss nd" "needs_inv ts (length ss) nd" "target_step g es ts ts'"
  shows "nwaits_inv ts' ss nd"
proof -
  have "filter (\<lambda>t. \<not> ti_source (ts' ! t)) (nd i) = filter (\<lambda>t. \<not> ti_source (ts ! t)) (nd i)"
    if "i < length ss" for i
    using assms(2,3) that by (intro filter_cong) (auto simp: needs_inv_def target_step_def)
  then show ?thesis using assms(1) by (simp add: nwaits_inv_def)
qed

lemma plan_inv_target_step:
  assumes inv: "plan_inv g W P st" and ts: "target_step g (set (sc_edges st)) (pl_targets st) ts"
  shows "plan_inv g W P (st\<lparr>pl_targets := ts\<rparr>)"
proof (rule plan_invI, goal_cases)
  case 4
  then show ?case using ts by (simp add: target_step_def)
next
  case 6
  then show ?case using plan_invD(6) [OF inv] by (simp add: queue_inv_def)
qed (use plan_invD [OF inv] ts in \<open>simp_all add: waits_inv_target_step needs_inv_target_step
      nwaits_inv_target_step\<close>)

text \<open>Fields the invariant does not read.\<close>

lemma plan_inv_fields [simp]:
  "plan_inv g W P (st\<lparr>sc_visited := n\<rparr>) = plan_inv g W P st"
  by (simp_all add: plan_inv_def queue_inv_def)

lemma target_invD:
  assumes "target_inv g es ts" "t < length ts"
  shows "ti_scan (ts ! t) \<noteq> scanStateIgnored"
    and "ti_source (ts ! t) \<Longrightarrow> g_inEdge g t = None"
    and "ti_source (ts ! t) \<Longrightarrow> g_stat g t"
  using assms by (simp_all add: target_inv_def)

lemma target_inv_upd:
  assumes "target_inv g es ts"
    and "t < length ts \<Longrightarrow> ti_scan v \<noteq> scanStateIgnored"
    and "t < length ts \<Longrightarrow> ti_source v \<Longrightarrow> g_inEdge g t = None \<and> g_stat g t"
    and "t < length ts \<Longrightarrow> ti_scan v = scanStateDone \<Longrightarrow> \<not> ti_source v \<Longrightarrow> \<exists>e \<in> es. g_inEdge g t = Some e"
  shows "target_inv g es (ts[t := v])"
  using assms unfolding target_inv_def by (simp add: nth_upd)

lemma plan_inv_upd_target:
  assumes inv: "plan_inv g W P st"
    and "ti_waits (f (pl_targets st ! t)) = ti_waits (pl_targets st ! t)"
    and "t < length (pl_targets st) \<Longrightarrow> scan_of st t = scanStateDone \<Longrightarrow>
      ti_scan (f (pl_targets st ! t)) = scanStateDone \<and>
      ti_source (f (pl_targets st ! t)) = ti_source (pl_targets st ! t)"
    and "t < length (pl_targets st) \<Longrightarrow> ti_scan (f (pl_targets st ! t)) \<noteq> scanStateIgnored"
    and "t < length (pl_targets st) \<Longrightarrow> ti_source (f (pl_targets st ! t)) \<Longrightarrow>
      g_inEdge g t = None \<and> g_stat g t"
    and "t < length (pl_targets st) \<Longrightarrow> ti_scan (f (pl_targets st ! t)) = scanStateDone \<Longrightarrow>
      \<not> ti_source (f (pl_targets st ! t)) \<Longrightarrow> \<exists>e \<in> set (sc_edges st). g_inEdge g t = Some e"
  shows "plan_inv g W P (upd_target t f st)"
  unfolding upd_target_def
proof (rule plan_inv_target_step [OF inv])
  have "target_inv g (set (sc_edges st)) ((pl_targets st)[t := f (pl_targets st ! t)])"
    using plan_invD(4) [OF inv] assms(4-6) by (rule target_inv_upd)
  then show "target_step g (set (sc_edges st)) (pl_targets st) ((pl_targets st)[t := f (pl_targets st ! t)])"
    using assms(2,3) by (simp add: target_step_def nth_upd)
qed

text \<open>The flags that only the phony and output bookkeeping sets.\<close>

lemma plan_inv_flag_target:
  assumes inv: "plan_inv g W P st"
    and f: "\<And>ti. ti_waits (f ti) = ti_waits ti \<and> ti_scan (f ti) = ti_scan ti \<and> ti_source (f ti) = ti_source ti"
  shows "plan_inv g W P (upd_target t f st)"
proof (rule plan_inv_upd_target [OF inv])
  have ti: "target_inv g (set (sc_edges st)) (pl_targets st)" by (rule plan_invD(4) [OF inv])
  show "t < length (pl_targets st) \<Longrightarrow> ti_source (f (pl_targets st ! t)) \<Longrightarrow> g_inEdge g t = None \<and> g_stat g t"
    using ti f by (simp add: target_inv_def)
  show "t < length (pl_targets st) \<Longrightarrow> ti_scan (f (pl_targets st ! t)) \<noteq> scanStateIgnored"
    using ti f by (simp add: target_inv_def)
  show "t < length (pl_targets st) \<Longrightarrow> ti_scan (f (pl_targets st ! t)) = scanStateDone \<Longrightarrow>
      \<not> ti_source (f (pl_targets st ! t)) \<Longrightarrow> \<exists>e \<in> set (sc_edges st). g_inEdge g t = Some e"
    using ti f by (simp add: target_inv_def)
qed (use f in simp_all)

text \<open>A target may be closed once it is a source or a visited edge generates it.\<close>

definition settled :: "graph \<Rightarrow> scheduler \<Rightarrow> nat \<Rightarrow> bool" where
  "settled g st t \<longleftrightarrow> ti_source (pl_targets st ! t) \<or> (\<exists>e \<in> set (sc_edges st). g_inEdge g t = Some e)"

lemma plan_inv_set_done:
  assumes inv: "plan_inv g W P st" and "settled g st t"
  shows "plan_inv g W P (set_scan t scanStateDone st)"
  by (rule plan_inv_upd_target [OF inv])
    (use plan_invD(4) [OF inv] assms(2) in \<open>auto simp: target_inv_def settled_def\<close>)

lemma plan_inv_set_visiting:
  assumes inv: "plan_inv g W P st" and "scan_of st t \<noteq> scanStateDone"
  shows "plan_inv g W P (set_scan t scanStateVisiting st)"
  by (rule plan_inv_upd_target [OF inv])
    (use plan_invD(4) [OF inv] assms(2) in \<open>auto simp: target_inv_def\<close>)

lemma plan_inv_set_source:
  assumes inv: "plan_inv g W P st" and "scan_of st t \<noteq> scanStateDone"
    and "g_inEdge g t = None" "g_stat g t"
  shows "plan_inv g W P (upd_target t (\<lambda>ti. ti\<lparr>ti_source := True\<rparr>) st)"
  by (rule plan_inv_upd_target [OF inv])
    (use plan_invD(4) [OF inv] assms(2-) in \<open>auto simp: target_inv_def\<close>)

lemma settled_upd:
  assumes "\<And>ti. ti_source (f ti) = ti_source ti"
  shows "settled g (upd_target t f st) t' = settled g st t'"
  by (cases "t' = t"; cases "t < length (pl_targets st)")
    (simp_all add: settled_def upd_target_def assms list_update_beyond nth_upd)

lemma plan_inv_mark_outputs:
  assumes "plan_inv g W P st" "list_all (settled g st) outs"
  shows "plan_inv g W P (mark_outputs outs st)"
  using assms
proof (induction outs arbitrary: st)
  case Nil
  then show ?case by (simp add: mark_outputs_def)
next
  case (Cons out outs)
  define f :: "targetInfo \<Rightarrow> targetInfo" where "f = (\<lambda>ti. if ti_scan ti = scanStateNotVisited then ti\<lparr>ti_scan := scanStateDone\<rparr> else ti)"
  have src: "\<And>ti. ti_source (f ti) = ti_source ti" by (simp add: f_def)
  have "plan_inv g W P (upd_target out f st)"
  proof (cases "scan_of st out = scanStateNotVisited")
    case True
    then have "upd_target out f st = set_scan out scanStateDone st" by (simp add: f_def upd_target_def)
    then show ?thesis using plan_inv_set_done Cons.prems by simp
  next
    case False
    then have "upd_target out f st = st" by (simp add: f_def upd_target_def)
    then show ?thesis using Cons.prems(1) by simp
  qed
  moreover have "list_all (settled g (upd_target out f st)) outs"
    using Cons.prems(2) settled_upd [OF src] by (simp add: list_all_iff)
  moreover have "mark_outputs (out # outs) st = mark_outputs outs (upd_target out f st)"
    by (simp add: mark_outputs_def f_def)
  ultimately show ?case using Cons.IH by simp
qed

subsection \<open>A step is created, waits for an input, is added\<close>

lemma need_push:
  "j < length ss \<Longrightarrow> need g (W(length ss := [])) (insert (length ss) P) (ss @ [s]) j = need g W P ss j"
  by (simp add: need_def nth_append)

lemma need_push_new:
  "need g (W(length ss := [])) (insert (length ss) P) (ss @ [s]) (length ss) = []"
  by (simp add: need_def)

lemma waits_inv_push:
  assumes "waits_inv ts n nd" "\<And>j. j < n \<Longrightarrow> nd' j = nd j" "nd' n = []"
  shows "waits_inv ts (Suc n) nd'"
  using assms unfolding waits_inv_def by (auto simp: less_Suc_eq)

lemma plan_inv_open_step:
  assumes inv: "plan_inv g W P st" and e: "e \<notin> set (sc_edges st)" "wf_edge g e"
  defines "i \<equiv> length (pl_steps st)"
  shows "plan_inv g (W(i := [])) (insert i P)
    (push_step e (st\<lparr>sc_edges := sc_edges st @ [e], sc_validations := vs, sc_phony := ps\<rparr>))"
    (is "plan_inv g ?W ?P ?st")
proof -
  note D = plan_invD [OF inv]
  let ?nd = "need g W P (pl_steps st)"
  let ?nd' = "need g ?W ?P (pl_steps st @ [new_step e])"
  have nd: "\<And>j. j < i \<Longrightarrow> ?nd' j = ?nd j" "?nd' i = []"
    by (simp_all add: i_def need_push need_push_new)
  have P: "P \<subseteq> {..<i}" "i \<notin> P" "finite P"
    using D(6) finite_subset by (auto simp: queue_inv_def i_def)
  show ?thesis
  proof (rule plan_invI, goal_cases)
    case 1
    then show ?case using waits_inv_push [OF D(1)] nd by (simp add: push_step_def i_def)
  next
    case 2
    then show ?case using D(2) nd by (auto simp: needs_inv_def push_step_def less_Suc_eq i_def)
  next
    case 3
    then show ?case using D(3) nd
      by (auto simp: nwaits_inv_def push_step_def less_Suc_eq nth_append new_step_def i_def)
  next
    case 4
    then show ?case using D(4) by (auto simp: target_inv_def push_step_def)
  next
    case 5
    then show ?case using D(5) e
      by (auto simp: edges_inv_def push_step_def less_Suc_eq nth_append new_step_def i_def)
  next
    case 6
    have "P \<subseteq> {..<length (pl_steps st)}" using P by (simp add: i_def)
    then show ?case
      using D(6) by (auto simp: queue_inv_def push_step_def i_def steps_with_push)
  next
    case 7
    then show ?case using D(7) P by (simp add: push_step_def)
  qed
qed

lemma plan_inv_start_push:
  assumes "plan_inv g W P (push_step e st)"
  shows "plan_inv g W P (push_step e (start_step g target e st))"
proof -
  let ?f = "\<lambda>ti. ti\<lparr>ti_phonyOutput := be_phonyOutput (g_edge g e)\<rparr>"
  have "push_step e (start_step g target e st) =
      (upd_target target ?f (push_step e st))\<lparr>sc_visited := sc_visited st + 1\<rparr>"
    by (simp add: push_step_def start_step_def upd_target_def)
  moreover have "plan_inv g W P (upd_target target ?f (push_step e st))"
    by (rule plan_inv_flag_target [OF assms]) simp
  ultimately show ?thesis by simp
qed

lemma need_cong:
  "map sp_def ss' = map sp_def ss \<Longrightarrow> j < length ss \<Longrightarrow> need g W P ss' j = need g W P ss j"
  by (metis need_def length_map nth_map)

lemma map_sp_def_upd [simp]: "sp_def s = sp_def (ss ! i) \<Longrightarrow> map sp_def (ss[i := s]) = map sp_def ss"
  by (cases "i < length ss") (simp_all add: list_update_beyond list_eq_iff_nth_eq nth_upd)

lemma edges_inv_upd:
  assumes "edges_inv g es P ss" "i \<in> P" "sp_def s = sp_def (ss ! i)"
  shows "edges_inv g es P (ss[i := s])"
  using assms unfolding edges_inv_def by (auto simp: nth_upd)

lemma queue_inv_upd:
  assumes "queue_inv P p" "i \<in> P"
  shows "queue_inv P (p\<lparr>pl_steps := (pl_steps p)[i := s]\<rparr>)"
  using assms by (simp add: queue_inv_def steps_with_upd)

lemma plan_inv_add_wait_wait:
  assumes inv: "plan_inv g W P st" and i: "i \<in> P" and t: "inp < length (pl_targets st)"
    and dn: "scan_of st inp = scanStateDone" and src: "\<not> ti_source (pl_targets st ! inp)"
  shows "plan_inv g (W(i := W i @ [inp])) P (add_wait i inp st)"
proof -
  note D = plan_invD [OF inv]
  let ?n = "length (pl_steps st)"
  define ss where "ss = (pl_steps st)[i := (pl_steps st ! i)\<lparr>sp_nwaits := sp_nwaits (pl_steps st ! i) + 1\<rparr>]"
  define ts where "ts = (pl_targets st)[inp := (pl_targets st ! inp)\<lparr>ti_waits := ti_waits (pl_targets st ! inp) @ [i]\<rparr>]"
  have st: "add_wait i inp st = st\<lparr>pl_targets := ts, pl_steps := ss\<rparr>"
    using src by (simp add: add_wait_def upd_step_def upd_target_def ss_def ts_def)
  have iN: "i < ?n" using D(6) i by (auto simp: queue_inv_def)
  have defs: "map sp_def ss = map sp_def (pl_steps st)" by (simp add: ss_def)
  let ?nd = "need g W P (pl_steps st)" and ?nd' = "need g (W(i := W i @ [inp])) P ss"
  have "sp_def (ss ! j) = sp_def (pl_steps st ! j)" if "j < ?n" for j
    using defs that by (metis length_map nth_map)
  then have nd: "?nd' i = ?nd i @ [inp]" "\<And>j. j < ?n \<Longrightarrow> j \<noteq> i \<Longrightarrow> ?nd' j = ?nd j"
    using i by (simp_all add: need_def)
  have lens: "length ss = ?n" "length ts = length (pl_targets st)" by (simp_all add: ss_def ts_def)
  have tn: "ti_source (ts ! t') = ti_source (pl_targets st ! t')" "ti_scan (ts ! t') = scan_of st t'" for t'
    using t by (auto simp: ts_def nth_upd)
  have waits: "waits_inv ts ?n ?nd'"
    unfolding waits_inv_def lens
  proof (intro allI impI)
    fix t' j
    assume t': "t' < length (pl_targets st)"
    have "count_list (ti_waits (ts ! t')) j =
        count_list (ti_waits (pl_targets st ! t')) j + (if t' = inp \<and> j = i then 1 else 0)"
      using t' by (auto simp: ts_def nth_upd)
    moreover have "count_list (?nd' j) t' = count_list (?nd j) t' + (if t' = inp \<and> j = i then 1 else 0)"
      if "j < ?n"
      using nd that by (cases "j = i") auto
    ultimately show "count_list (ti_waits (ts ! t')) j =
        (if j < ?n \<and> \<not> ti_source (ts ! t') then count_list (?nd' j) t' else 0)"
      using D(1) t' src iN by (auto simp: waits_inv_def tn)
  qed
  have "\<And>j. j < ?n \<Longrightarrow> set (?nd' j) \<subseteq> set (?nd j) \<union> {inp}"
    using nd by (metis (no_types, lifting) Un_upper1 list.set set_append subset_refl)
  then have needs: "needs_inv ts ?n ?nd'"
    using D(2) t dn unfolding needs_inv_def lens tn by blast
  have "sp_nwaits (ss ! j) = int (length (filter (\<lambda>t. \<not> ti_source (pl_targets st ! t)) (?nd' j)))"
    if "j < ?n" for j
    using D(3) nd src that by (cases "j = i") (auto simp: nwaits_inv_def ss_def nth_upd)
  then have nwaits: "nwaits_inv ts ss ?nd'" by (simp add: nwaits_inv_def lens tn)
  show ?thesis
    unfolding st
    by (rule plan_invI)
      (use D waits needs nwaits edges_inv_upd [OF D(5) i] queue_inv_upd [OF D(6) i] in
        \<open>simp_all add: lens tn target_inv_def ss_def queue_inv_def\<close>)
qed

lemma plan_inv_add_wait:
  assumes inv: "plan_inv g W P st" and i: "i \<in> P" and t: "inp < length (pl_targets st)"
    and dn: "scan_of st inp = scanStateDone"
  shows "plan_inv g (W(i := W i @ [inp])) P (add_wait i inp st)"
proof (cases "ti_source (pl_targets st ! inp)")
  case False
  then show ?thesis using plan_inv_add_wait_wait assms by blast
next
  case True
  note D = plan_invD [OF inv]
  let ?nd = "need g W P (pl_steps st)" and ?nd' = "need g (W(i := W i @ [inp])) P (pl_steps st)"
  have nd: "?nd' i = ?nd i @ [inp]" "\<And>j. j \<noteq> i \<Longrightarrow> ?nd' j = ?nd j"
    using i by (simp_all add: need_def)
  have "plan_inv g (W(i := W i @ [inp])) P st"
  proof (rule plan_invI, goal_cases)
    case 1
    have "count_list (?nd' j) t' = count_list (?nd j) t'" if "\<not> ti_source (pl_targets st ! t')" for j t'
      using nd True that by (cases "j = i") auto
    then show ?case using D(1) unfolding waits_inv_def by simp
  next
    case 2
    have "\<And>j. set (?nd' j) \<subseteq> set (?nd j) \<union> {inp}"
      using nd by (metis (no_types, lifting) Un_upper1 list.set set_append subset_refl)
    then show ?case using D(2) t dn unfolding needs_inv_def by blast
  next
    case 3
    have "filter (\<lambda>t. \<not> ti_source (pl_targets st ! t)) (?nd' j) =
        filter (\<lambda>t. \<not> ti_source (pl_targets st ! t)) (?nd j)" for j
      using nd True by (cases "j = i") auto
    then show ?case using D(3) by (simp add: nwaits_inv_def)
  qed (use D in simp_all)
  then show ?thesis using True by (simp add: add_wait_def)
qed

text \<open>\<open>finish_step\<close> moves the step from \<open>P\<close> to the queue or to the pending steps.\<close>

lemma plan_inv_flag_outputs: "plan_inv g W P st \<Longrightarrow> plan_inv g W P (flag_outputs g s st)"
proof -
  have "plan_inv g W P st \<Longrightarrow>
      plan_inv g W P (fold (\<lambda>out. upd_target out (\<lambda>ti. ti\<lparr>ti_output := True\<rparr>)) outs st)" for outs
    by (induction outs arbitrary: st) (simp_all add: plan_inv_flag_target)
  then show "plan_inv g W P st \<Longrightarrow> plan_inv g W P (flag_outputs g s st)"
    by (simp add: flag_outputs_def)
qed

text \<open>The queue after \<open>addStep\<close>, given what the queue held before.\<close>

definition enqueue :: "nat \<Rightarrow> scheduler \<Rightarrow> scheduler" where
  "enqueue i st =
     (if sp_nwaits (pl_steps st ! i) = 0 then
        if length (pl_q st) < pl_cap st then st\<lparr>pl_q := pl_q st @ [i]\<rparr>
        else st\<lparr>pl_ready := pl_ready st @ [i]\<rparr>
      else st\<lparr>pl_npendings := pl_npendings st + 1\<rparr>)"

lemma queue_inv_enqueue:
  assumes q: "queue_inv P st" and i: "i \<in> P"
  shows "queue_inv (P - {i}) (enqueue i st)"
proof -
  have iN: "i < length (pl_steps st)" using q i by (auto simp: queue_inv_def)
  have new: "i \<notin> steps_with Q P (pl_steps st)" for Q using i by (simp add: steps_with_def)
  then have "i \<notin> set (pl_q st @ pl_ready st)" using q by (simp add: queue_inv_def)
  then show ?thesis
    using q new unfolding queue_inv_def enqueue_def
    by (auto simp: steps_with_close [OF i iN])
qed

lemma plan_inv_enqueue:
  assumes inv: "plan_inv g W P st" and i: "i \<in> P"
    and W: "W i = step_ins g (sp_def (pl_steps st ! i))"
    and out: "sp_outputs (pl_steps st ! i) = be_outputs (g_edge g (sp_def (pl_steps st ! i)))"
  shows "plan_inv g W (P - {i}) ((enqueue i st)\<lparr>sc_total := sc_total st + 1\<rparr>)"
proof -
  note D = plan_invD [OF inv]
  have nd: "need g W (P - {i}) (pl_steps st) = need g W P (pl_steps st)"
    using W by (auto simp: need_def)
  have views: "pl_steps (enqueue i st) = pl_steps st" "pl_targets (enqueue i st) = pl_targets st"
    "sc_edges (enqueue i st) = sc_edges st"
    by (simp_all add: enqueue_def)
  have "finite P" using D(6) finite_subset by (auto simp: queue_inv_def)
  then have card: "card P = Suc (card (P - {i}))" by (rule card.remove [OF _ i])
  have "edges_inv g (sc_edges st) (P - {i}) (pl_steps st)"
    using D(5) out unfolding edges_inv_def by auto
  moreover have "queue_inv (P - {i}) ((enqueue i st)\<lparr>sc_total := sc_total st + 1\<rparr>)"
    using queue_inv_enqueue [OF D(6) i] by (simp add: queue_inv_def)
  ultimately show ?thesis
    by (intro plan_invI) (use D card in \<open>simp_all add: views nd\<close>)
qed

lemma plan_inv_upd_step:
  assumes inv: "plan_inv g W P st" and i: "i \<in> P"
    and f: "sp_def (f (pl_steps st ! i)) = sp_def (pl_steps st ! i)"
      "sp_nwaits (f (pl_steps st ! i)) = sp_nwaits (pl_steps st ! i)"
  shows "plan_inv g W P (upd_step i f st)"
proof -
  note D = plan_invD [OF inv]
  let ?ss = "(pl_steps st)[i := f (pl_steps st ! i)]"
  have nd: "need g W P ?ss j = need g W P (pl_steps st) j" if "j < length (pl_steps st)" for j
    using that f by (auto simp: need_def nth_upd)
  have "nwaits_inv (pl_targets st) ?ss (need g W P ?ss)"
    using D(3) f nd by (auto simp: nwaits_inv_def nth_upd)
  moreover have "waits_inv (pl_targets st) (length (pl_steps st)) (need g W P ?ss)"
    using D(1) nd by (simp add: waits_inv_def)
  moreover have "needs_inv (pl_targets st) (length (pl_steps st)) (need g W P ?ss)"
    using D(2) nd by (simp add: needs_inv_def)
  ultimately show ?thesis
    unfolding upd_step_def
    by (intro plan_invI)
      (use D edges_inv_upd [OF D(5) i] queue_inv_upd [OF D(6) i] f in simp_all)
qed

lemma upd_target_total: "upd_target t f (p\<lparr>sc_total := n\<rparr>) = (upd_target t f p)\<lparr>sc_total := n\<rparr>"
  by (cases p) (simp add: upd_target_def)

lemma flag_outputs_total:
  "flag_outputs g s (p\<lparr>sc_total := n\<rparr>) = (flag_outputs g s p)\<lparr>sc_total := n\<rparr>"
  "sc_total (flag_outputs g s p) = sc_total p"
proof -
  let ?F = "fold (\<lambda>out. upd_target out (\<lambda>ti. ti\<lparr>ti_output := True\<rparr>))"
  have "?F outs (p\<lparr>sc_total := n\<rparr>) = (?F outs p)\<lparr>sc_total := n\<rparr>" "sc_total (?F outs p) = sc_total p" for outs
    by (induction outs arbitrary: p) (simp_all add: upd_target_total, simp add: upd_target_def)
  then show "flag_outputs g s (p\<lparr>sc_total := n\<rparr>) = (flag_outputs g s p)\<lparr>sc_total := n\<rparr>"
    "sc_total (flag_outputs g s p) = sc_total p"
    by (simp_all add: flag_outputs_def)
qed

lemma addStep_enqueue:
  fixes g :: graph and st :: scheduler
  assumes "i < length (pl_steps st)"
  defines "st2 \<equiv> flag_outputs g (pl_steps st ! i) st"
  defines "st3 \<equiv> (if sp_nwaits (pl_steps st2 ! i) = 0
    then upd_step i (\<lambda>s. s\<lparr>sp_nwaits := 0, sp_prevStepID := [], sp_prevStepOut := 0\<rparr>) st2 else st2)"
  shows "addStep g i st = (enqueue i st3)\<lparr>sc_total := sc_total st3 + 1\<rparr>"
proof -
  have v: "pl_steps st = pl_steps st2" "pl_q st = pl_q st2" "pl_cap st = pl_cap st2"
    "pl_ready st = pl_ready st2" "pl_npendings st = pl_npendings st2" "sc_total st = sc_total st2"
    by (simp_all add: st2_def flag_outputs_total)
  have "addStep g i st =
     (let st4 = st2\<lparr>sc_total := sc_total st2 + 1\<rparr>;
          st5 = upd_step i (\<lambda>s. s\<lparr>sp_nwaits := 0, sp_prevStepID := [], sp_prevStepOut := 0\<rparr>) st4 in
      if sp_nwaits (pl_steps st2 ! i) = 0 then
        if length (pl_q st2) < pl_cap st2 then st5\<lparr>pl_q := pl_q st2 @ [i]\<rparr>
        else st5\<lparr>pl_ready := pl_ready st2 @ [i]\<rparr>
      else st4\<lparr>pl_npendings := pl_npendings st2 + 1\<rparr>)"
    unfolding addStep_eq Let_def flag_outputs_total st2_def [symmetric] by (simp add: v)
  moreover have "i < length (pl_steps st2)" using assms(1) v(1) by simp
  ultimately show ?thesis
    by (cases st2) (simp add: st3_def enqueue_def upd_step_def)
qed

lemma plan_inv_finish_step:
  assumes inv: "plan_inv g W P st" and i: "i \<in> P"
    and e: "sp_def (pl_steps st ! i) = e" and W: "W i = step_ins g e"
  shows "plan_inv g W (P - {i}) (finish_step g e i st)"
proof -
  have iN: "i < length (pl_steps st)" using plan_invD(6) [OF inv] i by (auto simp: queue_inv_def)
  define st1 where "st1 = upd_step i (\<lambda>s. s\<lparr>sp_outputs := be_outputs (g_edge g e)\<rparr>) st"
  define st2 where "st2 = flag_outputs g (pl_steps st1 ! i) st1"
  define st3 where "st3 = (if sp_nwaits (pl_steps st2 ! i) = 0
    then upd_step i (\<lambda>s. s\<lparr>sp_nwaits := 0, sp_prevStepID := [], sp_prevStepOut := 0\<rparr>) st2 else st2)"
  have "plan_inv g W P st1" unfolding st1_def by (rule plan_inv_upd_step [OF inv i]) simp_all
  then have "plan_inv g W P st2" unfolding st2_def by (rule plan_inv_flag_outputs)
  then have "plan_inv g W P st3" unfolding st3_def using plan_inv_upd_step [OF _ i] by simp
  moreover have "sp_def (pl_steps st3 ! i) = e" "sp_outputs (pl_steps st3 ! i) = be_outputs (g_edge g e)"
    using e iN by (simp_all add: st3_def st2_def st1_def upd_step_def)
  ultimately have "plan_inv g W (P - {i}) ((enqueue i st3)\<lparr>sc_total := sc_total st3 + 1\<rparr>)"
    using plan_inv_enqueue [OF _ i] W by simp
  moreover have "finish_step g e i st = (enqueue i st3)\<lparr>sc_total := sc_total st3 + 1\<rparr>"
    using iN unfolding finish_step_def st1_def [symmetric] st3_def st2_def
    by (intro addStep_enqueue) (simp add: st1_def upd_step_def)
  ultimately show ?thesis by simp
qed

subsection \<open>What scheduling leaves alone\<close>

definition grows :: "nat \<Rightarrow> scheduler \<Rightarrow> scheduler \<Rightarrow> bool" where
  "grows n st st' \<longleftrightarrow>
     length (pl_steps st) \<le> length (pl_steps st') \<and>
     take n (pl_steps st') = take n (pl_steps st) \<and>
     take (length (sc_edges st)) (sc_edges st') = sc_edges st \<and>
     length (pl_targets st') = length (pl_targets st) \<and>
     (\<forall>t < length (pl_targets st). scan_of st t = scanStateDone \<longrightarrow>
        scan_of st' t = scanStateDone \<and> ti_source (pl_targets st' ! t) = ti_source (pl_targets st ! t))"

lemma grows_refl [simp]: "grows n st st"
  by (simp add: grows_def)

lemma grows_trans:
  assumes "grows n a b" "grows n b c"
  shows "grows n a c"
proof -
  have "length (sc_edges a) \<le> length (sc_edges b)"
    using assms(1) unfolding grows_def by (metis length_take min.cobounded2 min_def nat_le_linear)
  then have "take (length (sc_edges a)) (sc_edges c) = take (length (sc_edges a)) (sc_edges b)"
    using assms(2) unfolding grows_def by (metis min.absorb1 take_take)
  then show ?thesis using assms by (auto simp: grows_def)
qed

lemma grows_le: "grows n st st' \<Longrightarrow> m \<le> n \<Longrightarrow> grows m st st'"
  unfolding grows_def by (metis min.absorb1 take_take)

lemma grows_upd_target:
  assumes "t < length (pl_targets st) \<Longrightarrow> scan_of st t = scanStateDone \<Longrightarrow>
      ti_scan (f (pl_targets st ! t)) = scanStateDone \<and>
      ti_source (f (pl_targets st ! t)) = ti_source (pl_targets st ! t)"
  shows "grows n st (upd_target t f st)"
  using assms by (auto simp: grows_def upd_target_def nth_upd)

lemma grows_mark_outputs: "grows n st (mark_outputs outs st)"
proof (induction outs arbitrary: st)
  case Nil
  then show ?case by (simp add: mark_outputs_def)
next
  case (Cons out outs)
  define f :: "targetInfo \<Rightarrow> targetInfo" where "f = (\<lambda>ti. if ti_scan ti = scanStateNotVisited then ti\<lparr>ti_scan := scanStateDone\<rparr> else ti)"
  have "grows n st (upd_target out f st)" by (rule grows_upd_target) (simp add: f_def)
  moreover have "mark_outputs (out # outs) st = mark_outputs outs (upd_target out f st)"
    by (simp add: mark_outputs_def f_def)
  ultimately show ?case using Cons.IH grows_trans by metis
qed

lemma grows_add_wait: "n \<le> i \<Longrightarrow> grows n st (add_wait i inp st)"
  by (auto simp: add_wait_def grows_def upd_step_def upd_target_def nth_upd)

lemma grows_flag_outputs: "grows n st (flag_outputs g s st)"
proof -
  have "grows n st (fold (\<lambda>out. upd_target out (\<lambda>ti. ti\<lparr>ti_output := True\<rparr>)) outs st)" for outs
  proof (induction outs arbitrary: st)
    case (Cons out outs)
    have "grows n st (upd_target out (\<lambda>ti. ti\<lparr>ti_output := True\<rparr>) st)" by (rule grows_upd_target) simp
    from grows_trans [OF this Cons.IH] show ?case by (simp only: fold_simps)
  qed simp
  then show ?thesis by (simp add: flag_outputs_def)
qed

lemma grows_upd_step: "n \<le> i \<Longrightarrow> grows n st (upd_step i f st)"
  by (simp add: grows_def upd_step_def)

lemma grows_finish_step:
  assumes "n \<le> i" "i < length (pl_steps st)"
  shows "grows n st (finish_step g e i st)"
proof -
  define st1 where "st1 = upd_step i (\<lambda>s. s\<lparr>sp_outputs := be_outputs (g_edge g e)\<rparr>) st"
  define st2 where "st2 = flag_outputs g (pl_steps st1 ! i) st1"
  define st3 where "st3 = (if sp_nwaits (pl_steps st2 ! i) = 0
    then upd_step i (\<lambda>s. s\<lparr>sp_nwaits := 0, sp_prevStepID := [], sp_prevStepOut := 0\<rparr>) st2 else st2)"
  have "grows n st st1" "grows n st1 st2" "grows n st2 st3"
    using grows_upd_step [OF assms(1)] grows_flag_outputs by (simp_all add: st1_def st2_def st3_def)
  then have "grows n st st3" by (meson grows_trans)
  moreover have "finish_step g e i st = (enqueue i st3)\<lparr>sc_total := sc_total st3 + 1\<rparr>"
    using assms(2) unfolding finish_step_def st1_def [symmetric] st3_def st2_def
    by (intro addStep_enqueue) (simp add: st1_def upd_step_def)
  ultimately show ?thesis by (simp add: grows_def enqueue_def)
qed

lemma grows_settled:
  assumes "grows n st st'" "\<exists>e \<in> set (sc_edges st). g_inEdge g t = Some e"
  shows "settled g st' t"
  using assms set_take_subset unfolding grows_def settled_def by (metis in_mono)

subsection \<open>A successful schedule keeps the invariant\<close>

definition kept :: "graph \<Rightarrow> (nat \<Rightarrow> nat list) \<Rightarrow> nat set \<Rightarrow> scheduler \<Rightarrow> scheduler \<Rightarrow> bool" where
  "kept g W P st st' \<longleftrightarrow> plan_inv g W P st' \<and> grows (length (pl_steps st)) st st'"

lemma scheduleInputs_kept:
  assumes T: "\<And>W P inp st st'. plan_inv g W P st \<Longrightarrow> scheduleTarget fuel g ctxDone inp (Some e) st = (st', None) \<Longrightarrow>
      kept g W P st st' \<and> scan_of st' inp = scanStateDone"
    and "plan_inv g W P st" "i \<in> P" "scheduleInputs fuel g ctxDone target e i ins st = (st', None)"
  shows "plan_inv g (W(i := W i @ map fst ins)) P st' \<and> grows i st st'"
  using assms(2-)
proof (induction ins arbitrary: W st)
  case Nil
  then show ?case by simp
next
  case (Cons it ins)
  obtain inp trigger where it: "it = (inp, trigger)" by force
  obtain st1 err where r: "(if scan_of st inp \<noteq> scanStateDone
      then scheduleTarget fuel g ctxDone inp (Some e) st else (st, None)) = (st1, err)" by force
  have ok: "inp < length (pl_targets st)" "err = None"
    "scheduleInputs fuel g ctxDone target e i ins (add_wait i inp st1) = (st', None)"
    using Cons.prems(3) r by (auto simp: it scheduleInputs_Cons split: if_splits option.splits)
  have iN: "i < length (pl_steps st)"
    using plan_invD(6) [OF Cons.prems(1)] Cons.prems(2) by (auto simp: queue_inv_def)
  have "plan_inv g W P st1 \<and> grows (length (pl_steps st)) st st1 \<and> scan_of st1 inp = scanStateDone"
    using T [OF Cons.prems(1)] r ok(2) Cons.prems(1) by (auto simp: kept_def split: if_splits)
  then have inv1: "plan_inv g W P st1" and g1: "grows i st st1" and dn: "scan_of st1 inp = scanStateDone"
    using grows_le iN by auto
  have "inp < length (pl_targets st1)" using ok(1) g1 by (simp add: grows_def)
  then have "plan_inv g (W(i := W i @ [inp])) P (add_wait i inp st1)"
    using plan_inv_add_wait [OF inv1 Cons.prems(2) _ dn] by simp
  from Cons.IH [OF this Cons.prems(2) ok(3)]
  have "plan_inv g (W(i := W i @ [inp] @ map fst ins)) P st' \<and> grows i (add_wait i inp st1) st'"
    by (simp only: fun_upd_upd fun_upd_same append_assoc)
  moreover have "grows i st (add_wait i inp st1)"
    using g1 grows_add_wait grows_trans by blast
  ultimately show ?case
    using grows_trans unfolding it list.map fst_conv append.simps by blast
qed

lemma map_fst_edge_ins [simp]: "map fst (edge_ins g e) = step_ins g e"
  by (simp add: edge_ins_def step_ins_def comp_def)

lemma plan_inv_W: "plan_inv g W P st \<Longrightarrow> (\<And>j. j \<in> P \<Longrightarrow> W' j = W j) \<Longrightarrow> plan_inv g W' P st"
proof -
  assume inv: "plan_inv g W P st" and eq: "\<And>j. j \<in> P \<Longrightarrow> W' j = W j"
  have "need g W' P (pl_steps st) = need g W P (pl_steps st)" using eq by (auto simp: need_def)
  then show ?thesis using inv by (simp add: plan_inv_def)
qed

lemma scheduleStep_kept:
  assumes T: "\<And>W P inp st st'. plan_inv g W P st \<Longrightarrow> scheduleTarget fuel g ctxDone inp (Some e) st = (st', None) \<Longrightarrow>
      kept g W P st st' \<and> scan_of st' inp = scanStateDone"
    and inv: "plan_inv g W P st" and e: "e \<notin> set (sc_edges st)" "wf_edge g e"
    and st1: "st1 = st\<lparr>sc_edges := sc_edges st @ [e], sc_validations := vs, sc_phony := ps\<rparr>"
    and run: "scheduleStep fuel g ctxDone target e st1 = (st', None)"
  shows "kept g W P st st' \<and> e \<in> set (sc_edges st')"
proof -
  define i where "i = length (pl_steps st)"
  define st2 where "st2 = push_step e (start_step g target e st1)"
  obtain st3 where si: "scheduleInputs fuel g ctxDone target e i (edge_ins g e) st2 = (st3, None)"
    and st': "st' = mark_outputs (be_outputs (g_edge g e)) (finish_step g e i st3)"
    using run by (auto simp: scheduleStep_eq i_def st2_def st1 split: if_splits prod.splits option.splits)
  have P: "P \<subseteq> {..<i}" "i \<notin> P" using plan_invD(6) [OF inv] by (auto simp: queue_inv_def i_def)
  have inv2: "plan_inv g (W(i := [])) (insert i P) st2"
    using plan_inv_start_push [OF plan_inv_open_step [OF inv e]] by (simp add: st2_def st1 i_def)
  have inv3: "plan_inv g (W(i := step_ins g e)) (insert i P) st3" and g3: "grows i st2 st3"
    using scheduleInputs_kept [OF T inv2 _ si] by auto
  have es: "sc_edges st2 = sc_edges st @ [e]"
    by (simp add: st2_def st1 push_step_def start_step_def upd_target_def)
  have "map sp_def (pl_steps st) = sc_edges st" using plan_invD(5) [OF inv] by (simp add: edges_inv_def)
  then have len: "length (sc_edges st) = i" unfolding i_def by (metis length_map)
  have "take (Suc i) (sc_edges st3) = sc_edges st @ [e]" using g3 es len by (simp add: grows_def)
  then have nth: "i < length (sc_edges st3)" "sc_edges st3 ! i = e"
    using len by (metis length_append_singleton length_take lessI min_less_iff_conj, metis len lessI nth_append_length nth_take)
  have iN: "i < length (pl_steps st3)" and di: "sp_def (pl_steps st3 ! i) = e"
    using nth plan_invD(5) [OF inv3] unfolding edges_inv_def by (metis length_map, metis length_map nth_map)
  have "insert i P - {i} = P" using P by auto
  then have inv4: "plan_inv g W P (finish_step g e i st3)"
    using plan_inv_finish_step [OF inv3 _ di] plan_inv_W [of g _ P _ W] P by fastforce
  have g4: "grows i st2 (finish_step g e i st3)"
    using grows_finish_step [OF order_refl iN] g3 grows_trans by blast
  moreover have "grows i st st2"
  proof -
    have "grows i st st1" "grows i st1 (start_step g target e st1)" "length (pl_steps st1) = i"
      by (auto simp: grows_def st1 start_step_def upd_target_def nth_upd i_def)
    then show ?thesis
      unfolding st2_def push_step_def using grows_trans
      by (auto simp: grows_def start_step_def upd_target_def nth_upd st1)
  qed
  ultimately have g5: "grows i st (finish_step g e i st3)" using grows_trans by blast
  have e4: "e \<in> set (sc_edges (finish_step g e i st3))"
    using g4 es unfolding grows_def by (metis in_set_conv_decomp in_set_takeD)
  then have "list_all (settled g (finish_step g e i st3)) (be_outputs (g_edge g e))"
    using e(2) by (auto simp: list_all_iff wf_edge_def settled_def)
  then have "plan_inv g W P st'" using plan_inv_mark_outputs [OF inv4] st' by simp
  moreover have gm: "grows n (finish_step g e i st3) st'" for n using grows_mark_outputs st' by simp
  moreover have "e \<in> set (sc_edges st')"
    using e4 gm [of 0] unfolding grows_def by (metis in_set_takeD)
  ultimately show ?thesis using grows_trans [OF g5 gm] by (simp add: kept_def i_def)
qed

lemma stepDef_cases:
  assumes "stepDef g t st = (r, st')"
  obtains "r = SD_NoTarget" "st' = st"
  | "r = SD_Source" "st' = st" "g_inEdge g t = None"
  | e where "r = SD_Duplicate e" "st' = st" "lookupNode g t" "g_inEdge g t = Some e" "e \<in> set (sc_edges st)"
  | e where "r = SD_New e" "lookupNode g t" "g_inEdge g t = Some e" "e \<notin> set (sc_edges st)"
      "st' = st\<lparr>sc_edges := sc_edges st @ [e],
         sc_validations := sc_validations st @ be_validations (g_edge g e),
         sc_phony := (if be_phony (g_edge g e) then sc_phony st @ [t] else sc_phony st)\<rparr>"
proof (cases "lookupNode g t")
  case False
  then show thesis using assms that(1) by (simp add: stepDef_def)
next
  case True
  show thesis
  proof (cases "g_inEdge g t")
    case None
    then show thesis using assms True that(2) by (simp add: stepDef_def)
  next
    case (Some e)
    show thesis
    proof (cases "e \<in> set (sc_edges st)")
      case dup: True
      show thesis by (rule that(3) [OF _ _ True Some dup]) (use assms True Some dup in \<open>simp_all add: stepDef_def\<close>)
    next
      case new: False
      show thesis by (rule that(4) [OF _ True Some new]) (use assms True Some new in \<open>simp_all add: stepDef_def\<close>)
    qed
  qed
qed

lemma visit_kept:
  assumes wf: "wf_graph g"
    and T: "\<And>W P inp nx st st'. plan_inv g W P st \<Longrightarrow> scheduleTarget fuel g ctxDone inp nx st = (st', None) \<Longrightarrow>
      kept g W P st st' \<and> scan_of st' inp = scanStateDone"
    and inv: "plan_inv g W P st" and vis: "scan_of st target = scanStateVisiting"
    and run: "visit fuel g ctxDone target next False st = (st', None)"
  shows "kept g W P st st' \<and> settled g st' target"
proof (cases "ti_source (pl_targets st ! target)")
  case True
  then show ?thesis using run inv by (simp add: visit_def settled_def kept_def)
next
  case False
  obtain r st1 where sd: "stepDef g target st = (r, st1)" by force
  then show ?thesis
  proof (cases rule: stepDef_cases)
    case 1
    then show ?thesis using run False sd by (simp add: visit_def)
  next
    case 2
    then have m: "mark g target next st = (st', None)" using run False sd by (simp add: visit_def)
    then have st': "st' = upd_target target (\<lambda>ti. ti\<lparr>ti_source := True\<rparr>) st" "g_stat g target"
      by (auto simp: mark_def split: if_splits)
    have "lookupNode g target" using m by (auto simp: mark_def split: if_splits)
    then have "target < length (pl_targets st)"
      using plan_invD(4) [OF inv] by (simp add: lookupNode_def target_inv_def)
    then have "settled g st' target" by (simp add: st'(1) settled_def upd_target_def)
    moreover have "plan_inv g W P st'"
      unfolding st'(1) by (rule plan_inv_set_source [OF inv]) (use vis 2 st' in simp_all)
    moreover have "grows (length (pl_steps st)) st st'"
      unfolding st'(1) by (rule grows_upd_target) (use vis in simp)
    ultimately show ?thesis by (simp add: kept_def)
  next
    case (3 e)
    then show ?thesis using run False sd inv by (auto simp: visit_def kept_def settled_def)
  next
    case (4 e)
    then have ss: "scheduleStep fuel g ctxDone target e st1 = (st', None)"
      using run False sd by (simp add: visit_def)
    have "wf_edge g e" using wf_graph_edge [OF wf] 4 by blast
    then have "kept g W P st st' \<and> e \<in> set (sc_edges st')"
      by (intro scheduleStep_kept [OF _ inv 4(4) _ 4(5) ss]) (rule T)
    then show ?thesis using 4 by (auto simp: settled_def)
  qed
qed

lemma scheduleTarget_kept:
  assumes wf: "wf_graph g"
  shows "plan_inv g W P st \<Longrightarrow> scheduleTarget fuel g ctxDone target next st = (st', None) \<Longrightarrow>
    kept g W P st st' \<and> scan_of st' target = scanStateDone"
proof (induction fuel arbitrary: W P target "next" st st')
  case 0
  then show ?case by simp
next
  case (Suc fuel)
  have T: "target < length (pl_targets st)" "scan_of st target \<noteq> scanStateVisiting"
    using Suc.prems(2) by (auto simp: scheduleTarget_visit split: if_splits)
  show ?case
  proof (cases "scan_of st target = scanStateDone")
    case True
    then show ?thesis using Suc.prems T by (simp add: scheduleTarget_visit kept_def)
  next
    case False
    define st1 where "st1 = set_scan target scanStateVisiting st"
    have ign: "scan_of st target \<noteq> scanStateIgnored"
      using plan_invD(4) [OF Suc.prems(1)] T(1) by (rule target_invD)
    obtain st2 where v: "visit fuel g ctxDone target next False st1 = (st2, None)"
      and st': "st' = set_scan target scanStateDone st2"
      using Suc.prems(2) T False ign by (auto simp: scheduleTarget_visit st1_def split: prod.splits)
    have inv1: "plan_inv g W P st1" unfolding st1_def using plan_inv_set_visiting Suc.prems(1) False .
    have "scan_of st1 target = scanStateVisiting" using T(1) by (simp add: st1_def upd_target_def)
    then have "kept g W P st1 st2 \<and> settled g st2 target"
      by (intro visit_kept [OF wf Suc.IH inv1 _ v])
    then have k: "kept g W P st1 st2" "settled g st2 target" by blast+
    have g1: "grows n st st1" for n unfolding st1_def by (rule grows_upd_target) (use False in simp)
    have g2: "grows n st2 st'" for n unfolding st' by (rule grows_upd_target) simp
    have len: "length (pl_steps st1) = length (pl_steps st)" by (simp add: st1_def upd_target_def)
    have "grows (length (pl_steps st)) st1 st2" using k(1) len by (simp add: kept_def)
    then have g3: "grows (length (pl_steps st)) st st'" using g1 g2 by (meson grows_trans)
    moreover have "plan_inv g W P st'"
      unfolding st' using plan_inv_set_done k by (simp add: kept_def)
    moreover have "target < length (pl_targets st2)"
      using T(1) g3 by (simp add: grows_def st' upd_target_def)
    then have "scan_of st' target = scanStateDone" by (simp add: st' upd_target_def)
    ultimately show ?thesis by (simp add: kept_def)
  qed
qed

lemma grows_done:
  "grows n st st' \<Longrightarrow> t < length (pl_targets st) \<Longrightarrow> scan_of st t = scanStateDone \<Longrightarrow> scan_of st' t = scanStateDone"
  by (simp add: grows_def)

lemma grows_length: "grows n st st' \<Longrightarrow> length (pl_targets st') = length (pl_targets st)"
  by (simp add: grows_def)

lemma scheduleTargets_kept:
  assumes wf: "wf_graph g"
  shows "plan_inv g W {} st \<Longrightarrow> scheduleTargets fuel g ctxDone ts st = (st', None) \<Longrightarrow>
    plan_inv g W {} st' \<and> grows 0 st st' \<and>
    (\<forall>t \<in> set ts. t < length (pl_targets st') \<and> scan_of st' t = scanStateDone)"
proof (induction ts arbitrary: st)
  case Nil
  then show ?case by simp
next
  case (Cons t ts)
  have t: "t < length (pl_targets st)" using Cons.prems(2) by (auto split: if_splits)
  show ?case
  proof (cases "scan_of st t = scanStateDone")
    case True
    then have IH: "plan_inv g W {} st' \<and> grows 0 st st' \<and>
        (\<forall>t \<in> set ts. t < length (pl_targets st') \<and> scan_of st' t = scanStateDone)"
      using Cons t by simp
    then show ?thesis using grows_done [of 0 st st' t] grows_length [of 0 st st'] t True by auto
  next
    case False
    have ign: "scan_of st t \<noteq> scanStateIgnored"
      using plan_invD(4) [OF Cons.prems(1)] t by (rule target_invD)
    obtain st1 where r: "scheduleTarget fuel g ctxDone t None st = (st1, None)"
      "scheduleTargets fuel g ctxDone ts st1 = (st', None)"
      using Cons.prems(2) False ign t by (auto split: if_splits prod.splits option.splits)
    have k: "plan_inv g W {} st1" "grows 0 st st1" "scan_of st1 t = scanStateDone"
      using scheduleTarget_kept [OF wf Cons.prems(1) r(1)] grows_le by (auto simp: kept_def)
    have IH: "plan_inv g W {} st' \<and> grows 0 st1 st' \<and>
        (\<forall>t \<in> set ts. t < length (pl_targets st') \<and> scan_of st' t = scanStateDone)"
      using Cons.IH [OF k(1) r(2)] .
    have "grows 0 st st'" using k(2) IH grows_trans by blast
    moreover have "t < length (pl_targets st1)" using t k(2) by (simp add: grows_def)
    then have "scan_of st' t = scanStateDone" using IH grows_done k(3) by blast
    ultimately show ?thesis using IH t grows_length [of 0 st st'] by auto
  qed
qed

text \<open>A plan that is ready to run: no step is in progress.\<close>

lemma schedule_kept:
  assumes wf: "wf_graph g" and run: "schedule g ctxDone targets (newScheduler (g_numTargets g)) = (st, None)"
  shows "plan_inv g W {} st"
    and "t \<in> set targets \<Longrightarrow> t < length (pl_targets st) \<and> scan_of st t = scanStateDone"
proof -
  obtain st1 fuel where r: "scheduleTargets fuel g ctxDone targets (newScheduler (g_numTargets g)) = (st1, None)"
    "scheduleTargets fuel g ctxDone (sc_validations st1) st1 = (st, None)"
    using run by (auto simp: schedule_def Let_def split: prod.splits option.splits if_splits)
  note k1 = scheduleTargets_kept [OF wf plan_inv_init r(1)]
  have inv1: "plan_inv g W {} st1" using k1 by blast
  note k2 = scheduleTargets_kept [OF wf inv1 r(2)]
  show "plan_inv g W {} st" using k2 by blast
  show "t < length (pl_targets st) \<and> scan_of st t = scanStateDone" if "t \<in> set targets"
    using k1 k2 that grows_done [of 0 st1 st t] grows_length [of 0 st1 st] by auto
qed

end
