(* ===== verification/Plan_Run.thy ===== *)
theory Plan_Run
  imports Plan_Inv
begin

text \<open>
  Running a scheduled plan. The builder receives steps from the queue, and every worker calls
  \<open>done\<close> when its step succeeded; both, and \<open>pushReady\<close>, are the transitions of
  \<open>run_trans\<close>. The methods of the plan hold its mutex, so each is one transition.
\<close>

record running =
  rn_plan :: scheduler
  rn_active :: "nat set"
  rn_finished :: "nat set"

inductive run_trans :: "graph \<Rightarrow> running \<Rightarrow> running \<Rightarrow> bool" for g where
  receive: "pl_q (rn_plan r) = i # rest \<Longrightarrow>
    run_trans g r (r\<lparr>rn_plan := (rn_plan r)\<lparr>pl_q := rest\<rparr>, rn_active := insert i (rn_active r)\<rparr>)"
| push: "run_trans g r (r\<lparr>rn_plan := pushReady (rn_plan r)\<rparr>)"
| finish: "i \<in> rn_active r \<Longrightarrow>
    run_trans g r (r\<lparr>rn_plan := planDone g i (rn_plan r), rn_active := rn_active r - {i},
      rn_finished := insert i (rn_finished r)\<rparr>)"

definition run_start :: "scheduler \<Rightarrow> running" where
  "run_start st = \<lparr>rn_plan = st, rn_active = {}, rn_finished = {}\<rparr>"

inductive run_reach :: "graph \<Rightarrow> scheduler \<Rightarrow> running \<Rightarrow> bool" for g st where
  start: "run_reach g st (run_start st)"
| step: "run_reach g st r \<Longrightarrow> run_trans g r r' \<Longrightarrow> run_reach g st r'"

inductive_cases run_transE: "run_trans g r r'"

subsection \<open>What a run never changes\<close>

definition core :: "'a plan_scheme \<Rightarrow> nat \<times> nat list \<times> nat list list \<times> bool list \<times> scanState list" where
  "core p = (pl_cap p, map sp_def (pl_steps p), map sp_outputs (pl_steps p),
     map ti_source (pl_targets p), map ti_scan (pl_targets p))"

lemma core_fields [simp]:
  "core (p\<lparr>pl_q := a\<rparr>) = core p" "core (p\<lparr>pl_ready := a\<rparr>) = core p"
  "core (p\<lparr>pl_npendings := n\<rparr>) = core p" "core (p\<lparr>pl_closed := b\<rparr>) = core p"
  by (simp_all add: core_def)

lemma map_list_update_same: "f v = f (xs ! i) \<Longrightarrow> map f (xs[i := v]) = map f xs"
  by (cases "i < length xs") (simp_all add: list_update_beyond list_eq_iff_nth_eq nth_upd)

lemma core_upd_step:
  "sp_def (f (pl_steps p ! i)) = sp_def (pl_steps p ! i) \<Longrightarrow>
   sp_outputs (f (pl_steps p ! i)) = sp_outputs (pl_steps p ! i) \<Longrightarrow> core (upd_step i f p) = core p"
  by (simp add: core_def upd_step_def map_list_update_same)

lemma core_upd_waits: "core (upd_target t (\<lambda>ti. ti\<lparr>ti_waits := w\<rparr>) p) = core p"
  by (simp add: core_def upd_target_def map_list_update_same)

lemma core_readyToRun: "core (fst (readyToRun i prev out p)) = core p"
  by (simp add: readyToRun_def Let_def core_upd_step)

lemma core_try_send: "core (fst (try_send i p)) = core p"
  by (simp add: try_send_def)

subsection \<open>The counters\<close>

text \<open>
  \<open>c i\<close> is the number of outputs step \<open>i\<close> still waits for. The steps that wait for none
  are queued, spilled to \<open>ready\<close> or to the list \<open>spill\<close> of \<open>done\<close>, or were taken.
\<close>

definition counted :: "nat \<Rightarrow> nat set \<Rightarrow> (nat \<Rightarrow> nat) \<Rightarrow> nat list \<Rightarrow> 'a plan_scheme \<Rightarrow> bool" where
  "counted n T c spill p \<longleftrightarrow>
     length (pl_steps p) = n \<and> (\<forall>i < n. sp_nwaits (pl_steps p ! i) = int (c i)) \<and>
     distinct (pl_q p @ pl_ready p @ spill) \<and>
     set (pl_q p @ pl_ready p @ spill) = {i. i < n \<and> c i = 0} - T \<and>
     T \<subseteq> {i. i < n \<and> c i = 0} \<and>
     pl_npendings p = int (card {i. i < n \<and> c i \<noteq> 0})"

lemma counted_cong:
  assumes "counted n T c spill p" "\<And>i. i < n \<Longrightarrow> c' i = c i"
  shows "counted n T c' spill p"
proof -
  have "{i. i < n \<and> c' i = 0} = {i. i < n \<and> c i = 0}" "{i. i < n \<and> c' i \<noteq> 0} = {i. i < n \<and> c i \<noteq> 0}"
    using assms(2) by auto
  then show ?thesis using assms by (simp only: counted_def) simp
qed

lemma counted_waits [simp]: "counted n T c spill (upd_target t f p) = counted n T c spill p"
  by (simp add: counted_def upd_target_def)

lemma counted_closed [simp]: "counted n T c spill (p\<lparr>pl_closed := b\<rparr>) = counted n T c spill p"
  by (simp add: counted_def)

lemma counted_ready:
  "counted n T c spill p \<Longrightarrow> counted n T c [] (p\<lparr>pl_ready := pl_ready p @ spill\<rparr>)"
  by (simp add: counted_def)

lemma counted_send:
  assumes "counted n T c (i # spill) p"
  shows "case try_send i p of (p', True) \<Rightarrow> counted n T c spill p' | (p', False) \<Rightarrow> counted n T c (spill @ [i]) p'"
  using assms by (auto simp: counted_def try_send_def)

lemma counted_readyToRun:
  assumes C: "counted n T c spill p" and s: "s < n" "0 < c s" and out: "out \<noteq> 0"
    and r: "readyToRun s prev out p = (p1, rdy)"
  shows "rdy \<longleftrightarrow> c s = 1"
    and "rdy \<Longrightarrow> counted n T (c(s := 0)) (s # spill) (p1\<lparr>pl_npendings := pl_npendings p1 - 1\<rparr>)"
    and "\<not> rdy \<Longrightarrow> counted n T (c(s := c s - 1)) spill p1"
proof -
  have nw: "sp_nwaits (pl_steps p ! s) = int (c s)" using C s by (simp add: counted_def)
  show R: "rdy \<longleftrightarrow> c s = 1"
    using r nw s out by (auto simp: readyToRun_def Let_def split: if_splits)
  have T: "s \<notin> T" using C s(2) by (auto simp: counted_def)
  have "set (pl_q p) \<union> set (pl_ready p) \<union> set spill \<subseteq> {i. c i = 0}" using C by (auto simp: counted_def)
  then have "s \<notin> set (pl_q p)" "s \<notin> set (pl_ready p)" "s \<notin> set spill" using s(2) by auto
  note T = T this
  show "counted n T (c(s := 0)) (s # spill) (p1\<lparr>pl_npendings := pl_npendings p1 - 1\<rparr>)" if rdy
  proof -
    have c1: "c s = 1" using R that by simp
    have p1: "p1 = upd_step s (\<lambda>x. x\<lparr>sp_nwaits := 0, sp_prevStepID := prev, sp_prevStepOut := out\<rparr>) p"
      using r nw out that c1 by (auto simp: readyToRun_def Let_def split: if_splits)
    have z: "{i. i < n \<and> (c(s := 0)) i = 0} = insert s {i. i < n \<and> c i = 0}" using s by auto
    have nz: "{i. i < n \<and> c i \<noteq> 0} = insert s {i. i < n \<and> (c(s := 0)) i \<noteq> 0}" using s by auto
    have "card {i. i < n \<and> c i \<noteq> 0} = Suc (card {i. i < n \<and> (c(s := 0)) i \<noteq> 0})"
      unfolding nz by (rule card_insert_disjoint) auto
    then show ?thesis using C T s unfolding counted_def p1 z by (auto simp: upd_step_def nth_upd)
  qed
  show "counted n T (c(s := c s - 1)) spill p1" if "\<not> rdy"
  proof -
    have c2: "c s \<noteq> 1" using R that by simp
    have p1: "p1 = upd_step s (\<lambda>x. x\<lparr>sp_nwaits := int (c s - 1)\<rparr>) p"
      using r nw out s(2) c2 by (auto simp: readyToRun_def Let_def of_nat_diff split: if_splits)
    have z: "{i. i < n \<and> (c(s := c s - 1)) i = 0} = {i. i < n \<and> c i = 0}"
      "{i. i < n \<and> (c(s := c s - 1)) i \<noteq> 0} = {i. i < n \<and> c i \<noteq> 0}"
      using s(2) c2 by auto
    show ?thesis using C s unfolding counted_def p1 z by (auto simp: upd_step_def nth_upd)
  qed
qed

text \<open>The loop over the waiters of one output counts each of them down.\<close>

lemma counted_done_waits:
  assumes "counted n T c spill p" "out \<noteq> 0"
    and "\<And>i. count_list ws i \<le> (if i < n then c i else 0)"
    and "done_waits prev out ws ks spill p = (p', ks', spill')"
  shows "counted n T (\<lambda>i. c i - count_list ws i) spill' p' \<and> core p' = core p \<and>
    pl_targets p' = pl_targets p \<and> pl_closed p' = pl_closed p"
  using assms
proof (induction ws arbitrary: c ks spill p)
  case Nil
  then show ?case by simp
next
  case (Cons s ws)
  have s: "s < n" "0 < c s" using Cons.prems(3) [of s] by (auto split: if_splits)
  obtain p1 rdy where r: "readyToRun s prev out p = (p1, rdy)" by force
  have k1: "core p1 = core p" "pl_targets p1 = pl_targets p" "pl_closed p1 = pl_closed p"
    using core_readyToRun [of s prev out p] r
    by (auto simp: readyToRun_def Let_def upd_step_def split: if_splits)
  note R = counted_readyToRun [OF Cons.prems(1) s Cons.prems(2) r]
  have le: "count_list ws i \<le> (if i < n then (c(s := c s - 1)) i else 0)" for i
    using Cons.prems(3) [of i] s by (cases "i = s") (auto split: if_splits)
  have eq: "(\<lambda>i. (c(s := c s - 1)) i - count_list ws i) = (\<lambda>i. c i - count_list (s # ws) i)"
    by auto
  show ?case
  proof (cases rdy)
    case True
    define p2 where "p2 = p1\<lparr>pl_npendings := pl_npendings p1 - 1\<rparr>"
    have c1: "c(s := c s - 1) = c(s := 0)" using R(1) True by auto
    have C2: "counted n T (c(s := c s - 1)) (s # spill) p2" using R(2) True c1 by (simp add: p2_def)
    obtain p3 b where snd: "try_send s p2 = (p3, b)" by force
    have k3: "core p3 = core p" "pl_targets p3 = pl_targets p" "pl_closed p3 = pl_closed p"
      using core_try_send [of s p2] snd k1 by (auto simp: try_send_def p2_def split: if_splits)
    define spill1 where "spill1 = (if b then spill else spill @ [s])"
    have "counted n T (c(s := c s - 1)) spill1 p3"
      using counted_send [OF C2] snd by (cases b) (simp_all add: spill1_def)
    moreover have "done_waits prev out ws ks spill1 p3 = (p', ks', spill')"
      using Cons.prems(4) r True snd by (cases b) (simp_all add: p2_def spill1_def)
    ultimately show ?thesis using Cons.IH [OF _ Cons.prems(2) le] k3 eq by metis
  next
    case False
    then have "done_waits prev out ws (ks @ [s]) spill p1 = (p', ks', spill')"
      using Cons.prems(4) r by simp
    then show ?thesis using Cons.IH [OF R(3) Cons.prems(2) le] False k1 eq by metis
  qed
qed

subsection \<open>What a step still waits for\<close>

definition unmet :: "graph \<Rightarrow> nat list \<Rightarrow> bool list \<Rightarrow> nat set \<Rightarrow> nat \<Rightarrow> nat" where
  "unmet g defs srcs D i = length (filter (\<lambda>t. \<not> srcs ! t \<and> t \<notin> D) (step_ins g (defs ! i)))"

definition waiting :: "graph \<Rightarrow> nat list \<Rightarrow> bool list \<Rightarrow> nat set \<Rightarrow> 'a plan_scheme \<Rightarrow> bool" where
  "waiting g defs srcs D p \<longleftrightarrow>
     (\<forall>t < length (pl_targets p). t \<notin> D \<longrightarrow>
        (\<forall>i. count_list (ti_waits (pl_targets p ! t)) i =
           (if i < length defs \<and> \<not> srcs ! t then count_list (step_ins g (defs ! i)) t else 0)))"

lemma waitingD:
  "waiting g defs srcs D p \<Longrightarrow> t < length (pl_targets p) \<Longrightarrow> t \<notin> D \<Longrightarrow>
     count_list (ti_waits (pl_targets p ! t)) i =
       (if i < length defs \<and> \<not> srcs ! t then count_list (step_ins g (defs ! i)) t else 0)"
  by (simp add: waiting_def)

lemma waiting_mono: "waiting g defs srcs D p \<Longrightarrow> D \<subseteq> D' \<Longrightarrow> waiting g defs srcs D' p"
  unfolding waiting_def by blast

lemma waiting_targets: "pl_targets p' = pl_targets p \<Longrightarrow> waiting g defs srcs D p' = waiting g defs srcs D p"
  by (simp add: waiting_def)

lemma waiting_upd: "waiting g defs srcs (insert t D) (upd_target t f p) = waiting g defs srcs (insert t D) p"
  by (auto simp: waiting_def upd_target_def nth_upd)

lemma unmet_insert:
  assumes "\<not> srcs ! t" "t \<notin> D"
  shows "unmet g defs srcs D i = unmet g defs srcs (insert t D) i + count_list (step_ins g (defs ! i)) t"
proof -
  have "length (filter (\<lambda>t. \<not> srcs ! t \<and> t \<notin> D) xs) =
      length (filter (\<lambda>t'. \<not> srcs ! t' \<and> t' \<notin> insert t D) xs) + count_list xs t" for xs
    using assms by (induction xs) auto
  then show ?thesis by (simp add: unmet_def)
qed

lemma unmet_mono_zero: "D \<subseteq> D' \<Longrightarrow> unmet g defs srcs D i = 0 \<Longrightarrow> unmet g defs srcs D' i = 0"
  by (auto simp: unmet_def filter_empty_conv)

lemma unmet_zero: "unmet g defs srcs D i = 0 \<longleftrightarrow> (\<forall>t \<in> set (step_ins g (defs ! i)). srcs ! t \<or> t \<in> D)"
  by (auto simp: unmet_def filter_empty_conv)

lemma length_targets_core: "core p' = core p \<Longrightarrow> length (pl_targets p') = length (pl_targets p)"
  unfolding core_def by (metis Pair_inject length_map)

lemma done_outs_counted:
  assumes "counted n T (unmet g defs srcs D) spill p" "waiting g defs srcs D p" "length defs = n"
    and "distinct outs" "set outs \<inter> D = {}"
    and "\<forall>out \<in> set outs. 0 < out \<and> out < length (pl_targets p) \<and> \<not> srcs ! out"
    and "done_outs prev outs spill p = (p', spill')"
  shows "counted n T (unmet g defs srcs (D \<union> set outs)) spill' p' \<and>
    waiting g defs srcs (D \<union> set outs) p' \<and> core p' = core p \<and> pl_closed p' = pl_closed p"
  using assms
proof (induction outs arbitrary: D spill p)
  case Nil
  then show ?case by simp
next
  case (Cons out outs)
  let ?ws = "ti_waits (pl_targets p ! out)"
  obtain p1 ks spill1 where dw: "done_waits prev out ?ws [] spill p = (p1, ks, spill1)"
    using prod_cases3 by blast
  define p2 where "p2 = upd_target out (\<lambda>ti. ti\<lparr>ti_waits := ks\<rparr>) p1"
  have out: "out \<noteq> 0" "out < length (pl_targets p)" "\<not> srcs ! out" "out \<notin> D"
    using Cons.prems(5,6) by auto
  have cnt: "count_list ?ws i = (if i < n then count_list (step_ins g (defs ! i)) out else 0)" for i
    using waitingD [OF Cons.prems(2) out(2,4)] out(3) Cons.prems(3) by simp
  have un: "unmet g defs srcs D i = unmet g defs srcs (insert out D) i + count_list (step_ins g (defs ! i)) out" for i
    by (rule unmet_insert [OF out(3,4)])
  have le: "count_list ?ws i \<le> (if i < n then unmet g defs srcs D i else 0)" for i
    by (simp add: cnt un)
  note dwC = counted_done_waits [OF Cons.prems(1) out(1) le dw]
  have "counted n T (unmet g defs srcs (insert out D)) spill1 p1"
    by (rule counted_cong [OF conjunct1 [OF dwC]]) (simp add: cnt un)
  then have C2: "counted n T (unmet g defs srcs (insert out D)) spill1 p2" by (simp add: p2_def)
  have core2: "core p2 = core p" using dwC by (simp add: p2_def core_upd_waits)
  have "waiting g defs srcs (insert out D) p1"
    using waiting_mono [OF Cons.prems(2) subset_insertI] dwC waiting_targets by blast
  then have W2: "waiting g defs srcs (insert out D) p2" by (simp add: p2_def waiting_upd)
  have IH: "counted n T (unmet g defs srcs (insert out D \<union> set outs)) spill' p' \<and>
    waiting g defs srcs (insert out D \<union> set outs) p' \<and> core p' = core p2 \<and> pl_closed p' = pl_closed p2"
    by (rule Cons.IH [OF C2 W2 Cons.prems(3)])
      (use Cons.prems dw length_targets_core [OF core2] in \<open>auto simp: p2_def\<close>)
  moreover have "pl_closed p2 = pl_closed p" using dwC by (simp add: p2_def upd_target_def)
  ultimately show ?case using core2 by simp
qed

lemma flush_ready_counted:
  assumes "counted n T c (ks @ ss) (p\<lparr>pl_ready := []\<rparr>)"
  shows "counted n T c [] (flush_ready ks ss p) \<and> core (flush_ready ks ss p) = core p \<and>
    pl_targets (flush_ready ks ss p) = pl_targets p \<and> pl_closed (flush_ready ks ss p) = pl_closed p"
  using assms
proof (induction ss arbitrary: ks p)
  case Nil
  then show ?case by (simp add: counted_def)
next
  case (Cons s ss)
  show ?case
  proof (cases "length (pl_q p) < pl_cap p")
    case True
    have "counted n T c (ks @ ss) (p\<lparr>pl_q := pl_q p @ [s], pl_ready := []\<rparr>)"
      using Cons.prems by (auto simp: counted_def)
    then show ?thesis using Cons.IH [of ks "p\<lparr>pl_q := pl_q p @ [s]\<rparr>"] True by (simp add: try_send_def)
  next
    case False
    then show ?thesis using Cons.IH [of "ks @ [s]" p] Cons.prems by (simp add: try_send_def)
  qed
qed

lemma counted_flush: "counted n T c [] p \<Longrightarrow> counted n T c (pl_ready p) (p\<lparr>pl_ready := []\<rparr>)"
  by (simp add: counted_def)

lemma planDone_counted:
  assumes C: "counted n T (unmet g defs srcs D) [] p" and W: "waiting g defs srcs D p"
    and n: "length defs = n" and open': "\<not> pl_closed p"
    and outs: "outs = sp_outputs (pl_steps p ! i)" "distinct outs" "set outs \<inter> D = {}"
      "\<forall>out \<in> set outs. 0 < out \<and> out < length (pl_targets p) \<and> \<not> srcs ! out"
  shows "counted n T (unmet g defs srcs (D \<union> set outs)) [] (planDone g i p)"
    and "waiting g defs srcs (D \<union> set outs) (planDone g i p)"
    and "core (planDone g i p) = core p"
    and "pl_closed (planDone g i p) \<Longrightarrow> pl_ready (planDone g i p) = [] \<and> pl_npendings (planDone g i p) = 0"
    and "pl_closed (planDone g i p) \<or> pl_ready (planDone g i p) \<noteq> [] \<or> pl_npendings (planDone g i p) \<noteq> 0"
proof -
  define p1 where "p1 = flush_ready [] (pl_ready p) p"
  define prev where "prev = (if be_phony (g_edge g (sp_def (pl_steps p ! i))) then sp_prevStepID (pl_steps p ! i)
    else be_name (g_edge g (sp_def (pl_steps p ! i))))"
  obtain p2 spill where d: "done_outs prev outs [] p1 = (p2, spill)" by force
  define p3 where "p3 = p2\<lparr>pl_ready := pl_ready p2 @ spill\<rparr>"
  have F: "counted n T (unmet g defs srcs D) [] p1" "core p1 = core p" "pl_targets p1 = pl_targets p"
    "pl_closed p1 = pl_closed p"
    using flush_ready_counted [of n T _ "[]" "pl_ready p" p] counted_flush [OF C] by (simp_all add: p1_def)
  have "waiting g defs srcs D p1" using waiting_targets [OF F(3)] W by blast
  moreover have "\<forall>out \<in> set outs. 0 < out \<and> out < length (pl_targets p1) \<and> \<not> srcs ! out"
    using outs(4) by (simp add: F(3))
  ultimately have "counted n T (unmet g defs srcs (D \<union> set outs)) spill p2 \<and>
      waiting g defs srcs (D \<union> set outs) p2 \<and> core p2 = core p1 \<and> pl_closed p2 = pl_closed p1"
    using done_outs_counted [OF F(1) _ n outs(2,3) _ d] by simp
  then have "counted n T (unmet g defs srcs (D \<union> set outs)) spill p2"
    and W2: "waiting g defs srcs (D \<union> set outs) p2" and core2: "core p2 = core p1" and "pl_closed p2 = pl_closed p1" by blast+
  then have closed3: "\<not> pl_closed p3" using open' F(4) by (simp add: p3_def)
  from counted_ready [OF \<open>counted n T (unmet g defs srcs (D \<union> set outs)) spill p2\<close>] have C3: "counted n T (unmet g defs srcs (D \<union> set outs)) [] p3"
    by (simp add: p3_def)
  have res: "planDone g i p = (if pl_ready p3 = [] \<and> pl_npendings p3 = 0 then p3\<lparr>pl_closed := True\<rparr> else p3)"
    using open' d outs(1) unfolding planDone_def Let_def p1_def prev_def p3_def by simp
  show "counted n T (unmet g defs srcs (D \<union> set outs)) [] (planDone g i p)"
    using C3 by (simp add: res)
  have "waiting g defs srcs (D \<union> set outs) p3" using W2 by (simp add: p3_def waiting_def)
  then show "waiting g defs srcs (D \<union> set outs) (planDone g i p)" by (simp add: res waiting_def)
  show "core (planDone g i p) = core p" using core2 F(2) by (simp add: res p3_def)
  show "pl_closed (planDone g i p) \<or> pl_ready (planDone g i p) \<noteq> [] \<or> pl_npendings (planDone g i p) \<noteq> 0"
    by (simp add: res)
  show "pl_ready (planDone g i p) = [] \<and> pl_npendings (planDone g i p) = 0" if "pl_closed (planDone g i p)"
    using that closed3 by (simp add: res split: if_splits)
qed

subsection \<open>The invariant of a run\<close>

definition produced :: "scheduler \<Rightarrow> nat set \<Rightarrow> nat set" where
  "produced st F = (\<Union>i \<in> F. set (sp_outputs (pl_steps st ! i)))"

definition run_inv :: "graph \<Rightarrow> scheduler \<Rightarrow> running \<Rightarrow> bool" where
  "run_inv g st r \<longleftrightarrow>
     (let p = rn_plan r; A = rn_active r; F = rn_finished r; n = length (pl_steps st);
          defs = map sp_def (pl_steps st); srcs = map ti_source (pl_targets st); D = produced st F in
      core p = core st \<and> counted n (A \<union> F) (unmet g defs srcs D) [] p \<and> waiting g defs srcs D p \<and>
      A \<inter> F = {} \<and> (pl_closed p \<longrightarrow> pl_ready p = [] \<and> pl_npendings p = 0) \<and>
      (pl_closed p \<or> F = {} \<or> A \<noteq> {} \<or> pl_q p \<noteq> [] \<or> pl_ready p \<noteq> [] \<or> pl_npendings p \<noteq> 0))"

lemma run_invD:
  assumes "run_inv g st r"
  shows "core (rn_plan r) = core st"
    and "counted (length (pl_steps st)) (rn_active r \<union> rn_finished r)
      (unmet g (map sp_def (pl_steps st)) (map ti_source (pl_targets st)) (produced st (rn_finished r))) [] (rn_plan r)"
    and "waiting g (map sp_def (pl_steps st)) (map ti_source (pl_targets st)) (produced st (rn_finished r)) (rn_plan r)"
    and "rn_active r \<inter> rn_finished r = {}"
    and "pl_closed (rn_plan r) \<Longrightarrow> pl_ready (rn_plan r) = [] \<and> pl_npendings (rn_plan r) = 0"
    and "pl_closed (rn_plan r) \<or> rn_finished r = {} \<or> rn_active r \<noteq> {} \<or> pl_q (rn_plan r) \<noteq> [] \<or>
      pl_ready (rn_plan r) \<noteq> [] \<or> pl_npendings (rn_plan r) \<noteq> 0"
  using assms by (simp_all add: run_inv_def Let_def)

lemma run_inv_start:
  assumes inv: "plan_inv g W {} st"
  shows "run_inv g st (run_start st)"
proof -
  note D = plan_invD [OF inv]
  let ?ss = "pl_steps st" and ?ts = "pl_targets st"
  let ?c = "unmet g (map sp_def ?ss) (map ti_source ?ts) {}"
  have nd: "need g W {} ?ss i = step_ins g (sp_def (?ss ! i))" for i by (simp add: need_def)
  have flt: "filter (\<lambda>t. \<not> ti_source (?ts ! t)) (step_ins g (sp_def (?ss ! i))) =
      filter (\<lambda>t. \<not> map ti_source ?ts ! t) (step_ins g (sp_def (?ss ! i)))" if "i < length ?ss" for i
    using D(2) that by (intro filter_cong) (auto simp: needs_inv_def nd)
  have nw: "sp_nwaits (?ss ! i) = int (?c i)" if "i < length ?ss" for i
    using D(3) that by (simp add: nwaits_inv_def nd unmet_def flt)
  have sw: "steps_with Q {} ?ss = {i. i < length ?ss \<and> Q (int (?c i))}" for Q
    using nw by (auto simp: steps_with_def)
  have "counted (length ?ss) {} ?c [] st"
    using D(6) nw unfolding queue_inv_def sw by (simp add: counted_def)
  moreover have "waiting g (map sp_def ?ss) (map ti_source ?ts) {} st"
    using D(1) by (simp add: waits_inv_def waiting_def nd)
  moreover have "\<not> pl_closed st" using D(6) by (simp add: queue_inv_def)
  ultimately show ?thesis by (simp add: run_inv_def run_start_def produced_def Let_def)
qed

lemma core_steps:
  assumes "core p = core st"
  shows "length (pl_steps p) = length (pl_steps st)"
    and "i < length (pl_steps st) \<Longrightarrow> sp_outputs (pl_steps p ! i) = sp_outputs (pl_steps st ! i)"
proof -
  have m: "map sp_outputs (pl_steps p) = map sp_outputs (pl_steps st)" using assms by (simp add: core_def)
  then show l: "length (pl_steps p) = length (pl_steps st)" by (metis length_map)
  show "i < length (pl_steps st) \<Longrightarrow> sp_outputs (pl_steps p ! i) = sp_outputs (pl_steps st ! i)"
    using m l by (metis nth_map)
qed

text \<open>The outputs of a scheduled step: no other step generates them, and none is a source.\<close>

lemma step_outputs:
  assumes inv: "plan_inv g W {} st" and i: "i < length (pl_steps st)"
  shows "distinct (sp_outputs (pl_steps st ! i))"
    and "out \<in> set (sp_outputs (pl_steps st ! i)) \<Longrightarrow>
      0 < out \<and> out < length (pl_targets st) \<and> \<not> ti_source (pl_targets st ! out) \<and>
      g_inEdge g out = Some (sp_def (pl_steps st ! i))"
proof -
  note D = plan_invD [OF inv]
  have o: "sp_outputs (pl_steps st ! i) = be_outputs (g_edge g (sp_def (pl_steps st ! i)))"
    "wf_edge g (sp_def (pl_steps st ! i))"
    using D(5) i by (auto simp: edges_inv_def)
  then show "distinct (sp_outputs (pl_steps st ! i))" by (simp add: wf_edge_def)
  assume "out \<in> set (sp_outputs (pl_steps st ! i))"
  then have e: "lookupNode g out" "g_inEdge g out = Some (sp_def (pl_steps st ! i))"
    using o by (auto simp: wf_edge_def list_all_iff)
  then have "out < length (pl_targets st)" using D(4) by (simp add: lookupNode_def target_inv_def)
  moreover have "\<not> ti_source (pl_targets st ! out)"
    using target_invD(2) [OF D(4) calculation] e by auto
  ultimately show "0 < out \<and> out < length (pl_targets st) \<and> \<not> ti_source (pl_targets st ! out) \<and>
      g_inEdge g out = Some (sp_def (pl_steps st ! i))"
    using e by (simp add: lookupNode_def)
qed

lemma step_outputs_disjoint:
  assumes inv: "plan_inv g W {} st" and "i < length (pl_steps st)" "j < length (pl_steps st)"
    and "out \<in> set (sp_outputs (pl_steps st ! i))" "out \<in> set (sp_outputs (pl_steps st ! j))"
  shows "i = j"
proof -
  have "sp_def (pl_steps st ! i) = sp_def (pl_steps st ! j)"
    using step_outputs(2) [OF inv assms(2,4)] step_outputs(2) [OF inv assms(3,5)] by simp
  moreover have "distinct (map sp_def (pl_steps st))"
    using plan_invD(5) [OF inv] by (simp add: edges_inv_def)
  ultimately show ?thesis using assms(2,3) by (metis length_map nth_eq_iff_index_eq nth_map)
qed

lemma run_inv_receive:
  assumes R: "run_inv g st r" and q: "pl_q (rn_plan r) = i # rest"
  shows "run_inv g st (r\<lparr>rn_plan := (rn_plan r)\<lparr>pl_q := rest\<rparr>, rn_active := insert i (rn_active r)\<rparr>)"
proof -
  note D = run_invD [OF R]
  let ?T = "rn_active r \<union> rn_finished r"
  have "counted n (insert i T) c [] (p\<lparr>pl_q := rest\<rparr>)" if "counted n T c [] p" "pl_q p = i # rest" for n T c p
    using that by (auto simp: counted_def)
  from this [OF D(2) q] have C: "counted (length (pl_steps st)) (insert i ?T)
      (unmet g (map sp_def (pl_steps st)) (map ti_source (pl_targets st)) (produced st (rn_finished r))) []
      ((rn_plan r)\<lparr>pl_q := rest\<rparr>)" .
  have "i \<notin> ?T" using D(2) q by (auto simp: counted_def)
  then show ?thesis using D C by (simp add: run_inv_def Let_def waiting_def)
qed

lemma pushReady_counted: "counted n T c [] p \<Longrightarrow> counted n T c [] (pushReady p)"
  by (auto simp: counted_def pushReady_def try_send_def split: list.splits)

lemma pushReady_same:
  "core (pushReady p) = core p" "pl_targets (pushReady p) = pl_targets p"
  "pl_closed (pushReady p) = pl_closed p" "pl_npendings (pushReady p) = pl_npendings p"
  "pl_q (pushReady p) = [] \<and> pl_ready (pushReady p) = [] \<longleftrightarrow> pl_q p = [] \<and> pl_ready p = []"
  "pl_ready p = [] \<Longrightarrow> pushReady p = p"
  by (auto simp: pushReady_def try_send_def split: list.splits)

lemma run_inv_push: "run_inv g st r \<Longrightarrow> run_inv g st (r\<lparr>rn_plan := pushReady (rn_plan r)\<rparr>)"
proof -
  assume R: "run_inv g st r"
  note D = run_invD [OF R]
  have "waiting g defs srcs X (pushReady (rn_plan r)) = waiting g defs srcs X (rn_plan r)" for defs srcs X
    by (simp add: waiting_def pushReady_same)
  moreover have "pl_closed (rn_plan r) \<Longrightarrow> pushReady (rn_plan r) = rn_plan r" using D(5) pushReady_same by blast
  ultimately show ?thesis
    using D pushReady_counted [OF D(2)] pushReady_same [of "rn_plan r"]
    unfolding run_inv_def Let_def by auto
qed

lemma produced_insert: "produced st (insert i F) = produced st F \<union> set (sp_outputs (pl_steps st ! i))"
  by (auto simp: produced_def)

text \<open>After the queue was closed nothing waits any more, and \<open>done\<close> returns at once.\<close>

lemma counted_all_met:
  assumes "counted n T (unmet g defs srcs D) [] p" "pl_npendings p = 0" "D \<subseteq> D'"
  shows "counted n T (unmet g defs srcs D') [] p"
proof -
  have "{i. i < n \<and> unmet g defs srcs D i \<noteq> 0} = {}"
    using assms(1,2) by (simp add: counted_def)
  then have "unmet g defs srcs D i = 0" if "i < n" for i using that by blast
  then have "unmet g defs srcs D' i = unmet g defs srcs D i" if "i < n" for i
    using that unmet_mono_zero [OF assms(3)] by simp
  then show ?thesis by (rule counted_cong [OF assms(1)])
qed

lemma run_inv_finish:
  assumes inv: "plan_inv g W {} st" and R: "run_inv g st r" and i: "i \<in> rn_active r"
  shows "run_inv g st (r\<lparr>rn_plan := planDone g i (rn_plan r), rn_active := rn_active r - {i},
      rn_finished := insert i (rn_finished r)\<rparr>)"
proof -
  note D = run_invD [OF R]
  let ?p = "rn_plan r" and ?F = "rn_finished r" and ?n = "length (pl_steps st)"
  let ?outs = "sp_outputs (pl_steps st ! i)"
  let ?c = "unmet g (map sp_def (pl_steps st)) (map ti_source (pl_targets st))"
  let ?w = "waiting g (map sp_def (pl_steps st)) (map ti_source (pl_targets st))"
  have T: "insert i (rn_active r - {i} \<union> ?F) = rn_active r \<union> ?F" using i by auto
  have disj: "(rn_active r - {i}) \<inter> insert i ?F = {}" using D(4) by auto
  have iN: "i < ?n" and F: "?F \<subseteq> {..<?n}" "i \<notin> ?F" using D(2,4) i by (auto simp: counted_def)
  show ?thesis
  proof (cases "pl_closed ?p")
    case True
    then have "counted ?n (rn_active r \<union> ?F) (?c (produced st (insert i ?F))) [] ?p"
      using counted_all_met [OF D(2)] D(5) by (simp add: produced_insert)
    moreover have "?w (produced st (insert i ?F)) ?p"
      using waiting_mono [OF D(3)] by (simp add: produced_insert)
    moreover have "planDone g i ?p = ?p" using True by (simp add: planDone_def)
    ultimately show ?thesis using D True disj by (simp add: run_inv_def Let_def T)
  next
    case False
    have o: "?outs = sp_outputs (pl_steps ?p ! i)" using core_steps(2) [OF D(1) iN] by simp
    have "set ?outs \<inter> produced st ?F = {}"
      using step_outputs_disjoint [OF inv iN] F by (auto simp: produced_def)
    moreover have "\<forall>out \<in> set ?outs. 0 < out \<and> out < length (pl_targets ?p) \<and> \<not> map ti_source (pl_targets st) ! out"
      using step_outputs(2) [OF inv iN] length_targets_core [OF D(1)] by simp
    ultimately have dn: "counted ?n (rn_active r \<union> ?F) (?c (produced st (insert i ?F))) [] (planDone g i ?p)"
      "?w (produced st (insert i ?F)) (planDone g i ?p)" "core (planDone g i ?p) = core ?p"
      "pl_closed (planDone g i ?p) \<Longrightarrow> pl_ready (planDone g i ?p) = [] \<and> pl_npendings (planDone g i ?p) = 0"
      "pl_closed (planDone g i ?p) \<or> pl_ready (planDone g i ?p) \<noteq> [] \<or> pl_npendings (planDone g i ?p) \<noteq> 0"
      using planDone_counted [OF D(2,3) _ False o step_outputs(1) [OF inv iN]]
      by (simp_all only: produced_insert length_map refl simp_thms)
    then show ?thesis using D(1) disj by (simp add: run_inv_def Let_def T)
  qed
qed

theorem run_reach_inv:
  assumes inv: "plan_inv g W {} st" and "run_reach g st r"
  shows "run_inv g st r"
  using assms(2)
proof induction
  case start
  then show ?case by (rule run_inv_start [OF inv])
next
  case (step r r')
  from step.hyps(2) show ?case
    by (cases rule: run_transE)
      (use run_inv_receive [OF step.IH] run_inv_push [OF step.IH] run_inv_finish [OF inv step.IH] in auto)
qed

subsection \<open>Consequences\<close>

text \<open>The steps that generate a target.\<close>

definition started :: "running \<Rightarrow> nat set" where
  "started r = set (pl_q (rn_plan r)) \<union> set (pl_ready (rn_plan r)) \<union> rn_active r \<union> rn_finished r"

lemma started_iff:
  assumes "run_inv g st r"
  shows "i \<in> started r \<longleftrightarrow> i < length (pl_steps st) \<and>
    unmet g (map sp_def (pl_steps st)) (map ti_source (pl_targets st)) (produced st (rn_finished r)) i = 0"
  using run_invD(2) [OF assms] by (auto simp: counted_def started_def)

text \<open>Every generated input of a queued step was generated by a finished step.\<close>

lemma started_inputs:
  assumes inv: "plan_inv g W {} st" and R: "run_inv g st r" and i: "i \<in> started r"
    and t: "t \<in> set (step_ins g (sp_def (pl_steps st ! i)))"
  shows "ti_source (pl_targets st ! t) \<or>
    (\<exists>j \<in> rn_finished r. t \<in> set (sp_outputs (pl_steps st ! j)))"
proof -
  have iN: "i < length (pl_steps st)" using started_iff [OF R] i by simp
  then have "map ti_source (pl_targets st) ! t \<or> t \<in> produced st (rn_finished r)"
    using started_iff [OF R] i t by (simp add: unmet_zero)
  moreover have "t < length (pl_targets st)"
    using plan_invD(2) [OF inv] iN t by (auto simp: needs_inv_def need_def)
  ultimately show ?thesis by (auto simp: produced_def)
qed

text \<open>A rank on the edges: an edge's inputs are generated by edges of smaller rank.\<close>

definition ranked :: "graph \<Rightarrow> (nat \<Rightarrow> nat) \<Rightarrow> bool" where
  "ranked g rk \<longleftrightarrow>
     list_all (\<lambda>t. case g_inEdge g t of None \<Rightarrow> True
                   | Some e \<Rightarrow> list_all (\<lambda>i. case g_inEdge g i of None \<Rightarrow> True | Some e' \<Rightarrow> rk e' < rk e)
                                 (step_ins g e)) [0..<g_numTargets g]"

lemma rankedD:
  assumes "ranked g rk" "t < g_numTargets g" "g_inEdge g t = Some e" "i \<in> set (step_ins g e)" "g_inEdge g i = Some e'"
  shows "rk e' < rk e"
proof -
  have "list_all (\<lambda>i. case g_inEdge g i of None \<Rightarrow> True | Some e' \<Rightarrow> rk e' < rk e) (step_ins g e)"
    using assms(1-3) unfolding ranked_def list_all_iff [of _ "[0..<g_numTargets g]"]
    by (drule_tac bspec [of _ _ t]) auto
  then show ?thesis using assms(4,5) by (auto simp: list_all_iff)
qed

text \<open>A step that is not started waits for a step of smaller rank that did not finish.\<close>

lemma not_started_waits:
  assumes wf: "wf_graph g" and inv: "plan_inv g W {} st" and R: "run_inv g st r" and rk: "ranked g rk"
    and i: "i < length (pl_steps st)" "i \<notin> started r"
  obtains j where "j < length (pl_steps st)" "j \<notin> rn_finished r"
    "rk (sp_def (pl_steps st ! j)) < rk (sp_def (pl_steps st ! i))"
proof -
  note D = plan_invD [OF inv]
  let ?e = "sp_def (pl_steps st ! i)"
  obtain t where t: "t \<in> set (step_ins g ?e)" "\<not> map ti_source (pl_targets st) ! t" "t \<notin> produced st (rn_finished r)"
    using started_iff [OF R] i by (auto simp: unmet_zero)
  have tN: "t < length (pl_targets st)" "scan_of st t = scanStateDone"
    using D(2) i t(1) by (auto simp: needs_inv_def need_def)
  then obtain e' where e': "e' \<in> set (sc_edges st)" "g_inEdge g t = Some e'"
    using D(4) t(2) by (auto simp: target_inv_def)
  have "e' \<in> set (map sp_def (pl_steps st))" using D(5) e'(1) by (simp add: edges_inv_def)
  then obtain j where j: "j < length (pl_steps st)" "sp_def (pl_steps st ! j) = e'"
    by (auto simp: in_set_conv_nth)
  have E: "wf_edge g ?e" "sp_outputs (pl_steps st ! i) = be_outputs (g_edge g ?e)"
    "sp_outputs (pl_steps st ! j) = be_outputs (g_edge g e')"
    using D(5) i(1) j by (auto simp: edges_inv_def)
  have "lookupNode g t" using E(1) t(1) by (auto simp: wf_edge_def list_all_iff)
  then have out: "t \<in> set (sp_outputs (pl_steps st ! j))"
    using wf_graph_edge [OF wf _ e'(2)] E(3) by simp
  then have "j \<notin> rn_finished r" using t(3) by (auto simp: produced_def)
  moreover obtain o' where o': "o' \<in> set (sp_outputs (pl_steps st ! i))" using E(1,2) by (metis list.set_sel(1) wf_edge_def)
  then have "o' < g_numTargets g" "g_inEdge g o' = Some ?e"
    using step_outputs(2) [OF inv i(1)] D(4) by (auto simp: target_inv_def)
  then have "rk e' < rk ?e" using rankedD [OF rk _ _ t(1) e'(2)] by blast
  ultimately show thesis using that j by blast
qed

text \<open>
  With a rank, an unfinished step means that something is queued or active: the builder never
  waits for a step that nobody will run.
\<close>

lemma run_progress:
  assumes wf: "wf_graph g" and inv: "plan_inv g W {} st" and R: "run_inv g st r" and rk: "ranked g rk"
    and open': "i < length (pl_steps st)" "i \<notin> rn_finished r"
  shows "pl_q (rn_plan r) \<noteq> [] \<or> pl_ready (rn_plan r) \<noteq> [] \<or> rn_active r \<noteq> {}"
  using open'
proof (induction "rk (sp_def (pl_steps st ! i))" arbitrary: i rule: less_induct)
  case less
  show ?case
  proof (cases "i \<in> started r")
    case True
    then show ?thesis using less.prems by (auto simp: started_def)
  next
    case False
    then obtain j where "j < length (pl_steps st)" "j \<notin> rn_finished r"
      "rk (sp_def (pl_steps st ! j)) < rk (sp_def (pl_steps st ! i))"
      using not_started_waits [OF wf inv R rk less.prems(1)] by blast
    then show ?thesis using less.hyps by blast
  qed
qed

text \<open>Each receive and each finish uses up one step, so a run is finite up to idle \<open>pushReady\<close> calls.\<close>

definition run_left :: "running \<Rightarrow> nat" where
  "run_left r = 2 * (length (pl_steps (rn_plan r)) - card (rn_active r \<union> rn_finished r)) + card (rn_active r)"

lemma run_finite:
  assumes "run_inv g st r"
  shows "finite (rn_active r \<union> rn_finished r)" "rn_active r \<union> rn_finished r \<subseteq> {..<length (pl_steps st)}"
    "length (pl_steps (rn_plan r)) = length (pl_steps st)"
proof -
  show s: "rn_active r \<union> rn_finished r \<subseteq> {..<length (pl_steps st)}"
    using run_invD(2) [OF assms] by (auto simp: counted_def)
  then show "finite (rn_active r \<union> rn_finished r)" using finite_subset by blast
  show "length (pl_steps (rn_plan r)) = length (pl_steps st)" using core_steps(1) [OF run_invD(1) [OF assms]] .
qed

lemma run_left_receive:
  assumes R: "run_inv g st r" and q: "pl_q (rn_plan r) = i # rest"
  shows "run_left (r\<lparr>rn_plan := (rn_plan r)\<lparr>pl_q := rest\<rparr>, rn_active := insert i (rn_active r)\<rparr>) < run_left r"
proof -
  let ?U = "rn_active r \<union> rn_finished r"
  note F = run_finite [OF R]
  have i: "i \<notin> ?U" "i < length (pl_steps st)" using run_invD(2) [OF R] q by (auto simp: counted_def)
  have "card (insert i ?U) = Suc (card ?U)" "card (insert i (rn_active r)) = Suc (card (rn_active r))"
    using F(1) i by auto
  moreover have "card (insert i ?U) \<le> length (pl_steps st)"
    using card_mono [of "{..<length (pl_steps st)}" "insert i ?U"] F(2) i by auto
  ultimately show ?thesis using F(3) by (simp add: run_left_def)
qed

lemma run_left_finish:
  assumes inv: "plan_inv g W {} st" and R: "run_inv g st r" and i: "i \<in> rn_active r"
  shows "run_left (r\<lparr>rn_plan := planDone g i (rn_plan r), rn_active := rn_active r - {i},
    rn_finished := insert i (rn_finished r)\<rparr>) < run_left r"
proof -
  let ?r' = "r\<lparr>rn_plan := planDone g i (rn_plan r), rn_active := rn_active r - {i},
    rn_finished := insert i (rn_finished r)\<rparr>"
  have "length (pl_steps (planDone g i (rn_plan r))) = length (pl_steps (rn_plan r))"
    using run_finite(3) [OF run_inv_finish [OF inv R i]] run_finite(3) [OF R] by simp
  moreover have "rn_active r - {i} \<union> insert i (rn_finished r) = rn_active r \<union> rn_finished r" using i by auto
  moreover have "card (rn_active r - {i}) < card (rn_active r)"
    using run_finite(1) [OF R] card_Diff1_less [OF _ i] by blast
  ultimately show ?thesis unfolding run_left_def by simp
qed

subsection \<open>An acyclic graph has no dependency cycle error\<close>

definition target_rank :: "graph \<Rightarrow> (nat \<Rightarrow> nat) \<Rightarrow> nat \<Rightarrow> nat" where
  "target_rank g rk t = (case g_inEdge g t of None \<Rightarrow> 0 | Some e \<Rightarrow> Suc (rk e))"

definition above :: "graph \<Rightarrow> (nat \<Rightarrow> nat) \<Rightarrow> nat \<Rightarrow> scheduler \<Rightarrow> bool" where
  "above g rk t st \<longleftrightarrow> (\<forall>v \<in> visits (scans st). target_rank g rk t < target_rank g rk v)"

definition no_cycle :: "sched_err option \<Rightarrow> bool" where
  "no_cycle err \<longleftrightarrow> (\<forall>e. err = Some e \<longrightarrow> as_cycle e = None)"

lemma no_cycle_simps [simp]: "no_cycle None" "no_cycle (Some e) \<longleftrightarrow> as_cycle e = None"
  by (simp_all add: no_cycle_def)

lemma above_scan_le: "above g rk t st \<Longrightarrow> scan_le (scans st) (scans st') \<Longrightarrow> above g rk t st'"
  by (auto simp: above_def scan_le_def)

lemma as_cycle_input_error: "as_cycle err = None \<Longrightarrow> as_cycle (input_error g inp err) = None"
  by (simp add: input_error_def)

lemma scheduleInputs_no_cycle:
  assumes T: "\<And>inp st. above g rk inp st \<Longrightarrow> no_cycle (snd (scheduleTarget fuel g ctxDone inp (Some e) st))"
    and "\<forall>inp \<in> fst ` set ins. above g rk inp st"
  shows "no_cycle (snd (scheduleInputs fuel g ctxDone target e i ins st))"
  using assms(2)
proof (induction ins arbitrary: st)
  case Nil
  then show ?case by simp
next
  case (Cons it ins)
  obtain inp trigger where it: "it = (inp, trigger)" by force
  obtain st1 err where r: "(if scan_of st inp \<noteq> scanStateDone
      then scheduleTarget fuel g ctxDone inp (Some e) st else (st, None)) = (st1, err)" by force
  have "no_cycle err" using T [of inp st] Cons.prems r by (auto simp: it split: if_splits)
  moreover have "scan_le (scans st) (scans st1)"
    using closes_scheduleTarget [of fuel st g ctxDone inp "Some e"] r
    by (auto simp: closes_def split: if_splits)
  then have "\<forall>inp' \<in> fst ` set ins. above g rk inp' (add_wait i inp st1)"
    using Cons.prems above_scan_le [of g rk _ st "add_wait i inp st1"] by simp
  ultimately show ?case
    using Cons.IH [of "add_wait i inp st1"] r as_cycle_input_error
    by (cases err) (simp_all add: it scheduleInputs_Cons)
qed

lemma scheduleStep_no_cycle:
  assumes T: "\<And>inp st. above g rk inp st \<Longrightarrow> no_cycle (snd (scheduleTarget fuel g ctxDone inp (Some e) st))"
    and "\<forall>inp \<in> set (step_ins g e). above g rk inp st"
  shows "no_cycle (snd (scheduleStep fuel g ctxDone target e st))"
proof -
  have "fst ` set (edge_ins g e) = set (step_ins g e)"
    by (metis list.set_map map_fst_edge_ins)
  then have "no_cycle (snd (scheduleInputs fuel g ctxDone target e (length (pl_steps st)) (edge_ins g e)
      (push_step e (start_step g target e st))))"
    using assms by (intro scheduleInputs_no_cycle) (auto simp: above_def)
  then show ?thesis by (auto simp: scheduleStep_eq split: prod.splits option.splits)
qed

lemma scheduleTarget_no_cycle:
  assumes rk: "ranked g rk"
  shows "above g rk target st \<Longrightarrow> no_cycle (snd (scheduleTarget fuel g ctxDone target next st))"
proof (induction fuel arbitrary: target "next" st)
  case 0
  then show ?case by simp
next
  case (Suc fuel)
  show ?case
  proof (cases "target < length (pl_targets st) \<and> scan_of st target \<noteq> scanStateDone")
    case False
    then show ?thesis using Suc.prems by (auto simp: scheduleTarget_visit above_def visits_def scans_nth)
  next
    case True
    have nv: "scan_of st target \<noteq> scanStateVisiting"
      using Suc.prems True by (auto simp: above_def visits_def scans_nth)
    define st1 where "st1 = set_scan target scanStateVisiting st"
    have vis: "visits (scans st1) \<subseteq> insert target (visits (scans st))"
      by (auto simp: st1_def scans_upd_target visits_def nth_upd split: if_splits)
    have step: "no_cycle (snd (scheduleStep fuel g ctxDone target e st2))"
      if "scans st2 = scans st1" "g_inEdge g target = Some e" "lookupNode g target" for e st2
    proof (rule scheduleStep_no_cycle [OF Suc.IH])
      show "\<forall>inp \<in> set (step_ins g e). above g rk inp st2"
      proof
        fix inp
        assume inp: "inp \<in> set (step_ins g e)"
        have "target_rank g rk inp < target_rank g rk target"
          using rankedD [OF rk _ that(2) inp] that(2,3)
          by (cases "g_inEdge g inp") (auto simp: target_rank_def lookupNode_def)
        then show "above g rk inp st2"
          using vis Suc.prems that(1) by (fastforce simp: above_def)
      qed
    qed
    have "no_cycle (snd (visit fuel g ctxDone target next ign st1))" for ign
    proof (cases "stepDef g target st1")
      case (Pair r st2)
      have "scans st2 = scans st1" using scans_stepDef [of g target st1] Pair by simp
      from Pair step [OF this] show ?thesis
        by (cases rule: stepDef_cases) (simp_all add: visit_def mark_def Pair)
    qed
    then show ?thesis
      using True nv by (simp add: scheduleTarget_visit st1_def split: prod.split) (metis snd_conv)
  qed
qed

lemma scheduleTargets_no_cycle:
  assumes rk: "ranked g rk"
  shows "visits (scans st) = {} \<Longrightarrow> no_cycle (snd (scheduleTargets fuel g ctxDone ts st))"
proof (induction ts arbitrary: st)
  case Nil
  then show ?case by simp
next
  case (Cons t ts)
  obtain st1 err where r: "scheduleTarget fuel g ctxDone t None st = (st1, err)" by force
  have "no_cycle err"
    using scheduleTarget_no_cycle [OF rk, of t st fuel ctxDone None] Cons.prems r by (simp add: above_def)
  moreover have "visits (scans st1) = {}"
    using closes_scheduleTarget [of fuel st g ctxDone t None] r Cons.prems by (auto simp: closes_def scan_le_def)
  ultimately show ?case using Cons r by (cases err) simp_all
qed

end
