(* ===== verification/Plan_Props.thy ===== *)
theory Plan_Props
  imports Plan_Run
begin

text \<open>
  The properties of scheduling and running a plan, with the graphs their witnesses use:
  \<open>demo_graph\<close> is a small acyclic build (a source, two objects and an application, one of
  them order-only), \<open>sibling_graph\<close> an edge with two outputs that needs one of them.
\<close>

definition demo_edges :: "build_edge list" where
  "demo_edges =
     [\<lparr>be_name = ''a.o'', be_inputs = [1], be_orderOnly = [], be_outputs = [2], be_validations = [],
       be_phony = False, be_phonyOutput = False\<rparr>,
      \<lparr>be_name = ''b.o'', be_inputs = [1], be_orderOnly = [2], be_outputs = [3], be_validations = [],
       be_phony = False, be_phonyOutput = False\<rparr>,
      \<lparr>be_name = ''app'', be_inputs = [2, 3], be_orderOnly = [], be_outputs = [4], be_validations = [],
       be_phony = False, be_phonyOutput = False\<rparr>]"

definition list_graph :: "build_edge list \<Rightarrow> nat option list \<Rightarrow> graph" where
  "list_graph es ins =
     \<lparr>g_numTargets = length ins, g_inEdge = (\<lambda>t. if t < length ins then ins ! t else None),
      g_edge = (\<lambda>e. es ! e), g_path = (\<lambda>t. replicate t CHR ''x''), g_stat = (\<lambda>_. True)\<rparr>"

definition demo_graph :: graph where
  "demo_graph = list_graph demo_edges [None, None, Some 0, Some 1, Some 2]"

definition demo_plan :: scheduler where
  "demo_plan =
     \<lparr>pl_closed = False, pl_q = [1], pl_cap = 10000, pl_ready = [],
      pl_targets =
        [emptyTarget,
         \<lparr>ti_scan = scanStateDone, ti_waits = [], ti_source = True, ti_output = False, ti_phonyOutput = False\<rparr>,
         \<lparr>ti_scan = scanStateDone, ti_waits = [0, 2], ti_source = False, ti_output = True, ti_phonyOutput = False\<rparr>,
         \<lparr>ti_scan = scanStateDone, ti_waits = [0], ti_source = False, ti_output = True, ti_phonyOutput = False\<rparr>,
         \<lparr>ti_scan = scanStateDone, ti_waits = [], ti_source = False, ti_output = True, ti_phonyOutput = False\<rparr>],
      pl_npendings = 2,
      pl_steps =
        [\<lparr>sp_def = 2, sp_nwaits = 2, sp_outputs = [4], sp_prevStepID = [], sp_prevStepOut = 0\<rparr>,
         \<lparr>sp_def = 0, sp_nwaits = 0, sp_outputs = [2], sp_prevStepID = [], sp_prevStepOut = 0\<rparr>,
         \<lparr>sp_def = 1, sp_nwaits = 1, sp_outputs = [3], sp_prevStepID = [], sp_prevStepOut = 0\<rparr>],
      sc_total = 3, sc_visited = 3, sc_edges = [2, 0, 1], sc_validations = [], sc_phony = []\<rparr>"

definition sibling_graph :: graph where
  "sibling_graph = list_graph
     [\<lparr>be_name = ''a'', be_inputs = [2], be_orderOnly = [], be_outputs = [1, 2], be_validations = [],
       be_phony = False, be_phonyOutput = False\<rparr>] [None, Some 0, Some 0]"

definition loop_graph :: graph where
  "loop_graph = list_graph
     [\<lparr>be_name = ''a'', be_inputs = [2], be_orderOnly = [], be_outputs = [1], be_validations = [],
       be_phony = False, be_phonyOutput = False\<rparr>,
      \<lparr>be_name = ''b'', be_inputs = [1], be_orderOnly = [], be_outputs = [2], be_validations = [],
       be_phony = False, be_phonyOutput = False\<rparr>] [None, Some 0, Some 1]"

lemmas schedule_simps = schedule_def scheduleTarget.simps scheduleStep.simps scheduleInputs.simps
  stepDef_def lookupNode_def mark_def addStep_def readyToRun_def try_send_def mark_outputs_def
  upd_target_def upd_step_def newScheduler_def emptyTarget_def Let_def input_error_def

lemmas demo_simps = demo_graph_def list_graph_def demo_edges_def

lemma demo_wf: "wf_graph demo_graph"
  by (simp add: demo_simps wf_graph_def wf_edge_def step_ins_def lookupNode_def)

lemma demo_ranked: "ranked demo_graph (\<lambda>e. e)"
  by (simp add: demo_simps ranked_def step_ins_def)

lemma demo_schedule: "schedule demo_graph (\<lambda>_. False) [4] (newScheduler (g_numTargets demo_graph)) = (demo_plan, None)"
  by (simp add: demo_simps demo_plan_def schedule_simps)

text \<open>The demo run: step 1 (\<open>a.o\<close>) is received and finishes, which queues step 2 (\<open>b.o\<close>).\<close>

definition demo_run :: running where
  "demo_run = \<lparr>rn_plan = planDone demo_graph 1 (demo_plan\<lparr>pl_q := []\<rparr>), rn_active = {}, rn_finished = {1}\<rparr>"

lemma demo_run_reach: "run_reach demo_graph demo_plan demo_run"
proof -
  have q: "pl_q (rn_plan (run_start demo_plan)) = 1 # []" by (simp add: run_start_def demo_plan_def)
  let ?r = "run_start demo_plan"
  let ?r1 = "?r\<lparr>rn_plan := (rn_plan ?r)\<lparr>pl_q := []\<rparr>, rn_active := insert 1 (rn_active ?r)\<rparr>"
  have r1: "run_reach demo_graph demo_plan ?r1"
    by (rule run_reach.step [OF run_reach.start run_trans.receive [OF q]])
  have "1 \<in> rn_active ?r1" by simp
  from run_reach.step [OF r1 run_trans.finish [OF this]] show ?thesis
    by (simp add: demo_run_def run_start_def)
qed

lemmas run_simps = planDone_def flush_ready.simps done_outs.simps done_waits.simps readyToRun_def
  try_send_def upd_step_def upd_target_def Let_def

lemma demo_run_queue:
  "pl_q (rn_plan demo_run) = [2]" "rn_finished demo_run = {1}"
  by (simp_all add: demo_run_def demo_plan_def demo_simps run_simps)

subsection \<open>Scheduling\<close>

text \<open>
  C25: \<open>schedule\<close> returns: on every graph, cyclic or not, and from every scheduler state, the
  recursion of \<open>scheduleTarget\<close> ends within one level per target plus one.
\<close>

theorem schedule_terminates: "no_fuel_err (snd (schedule g ctxDone targets st))"
proof -
  have "card (opens (scans st)) < Suc (length (pl_targets st))"
    using card_opens_le [of "scans st"] by simp
  then show ?thesis using schedule_closes [of st g ctxDone targets] by (simp add: closes_def)
qed

text \<open>
  C1: after a successful \<open>schedule\<close> every requested target was visited, every step waits for
  exactly its generated inputs and order-only inputs, exactly the steps that wait for none are
  queued (once, in \<open>q\<close> or spilled to \<open>ready\<close>), \<open>npendings\<close> counts the others, and no edge
  has two steps.
\<close>

theorem schedule_ready:
  assumes "wf_graph g" and "schedule g ctxDone targets (newScheduler (g_numTargets g)) = (st, None)"
  shows "(\<forall>t \<in> set targets. scan_of st t = scanStateDone) \<and>
    (\<forall>i < length (pl_steps st).
      sp_nwaits (pl_steps st ! i) =
        int (length (filter (\<lambda>t. \<not> ti_source (pl_targets st ! t)) (step_ins g (sp_def (pl_steps st ! i))))) \<and>
      (i \<in> set (pl_q st @ pl_ready st) \<longleftrightarrow> sp_nwaits (pl_steps st ! i) = 0)) \<and>
    distinct (pl_q st @ pl_ready st) \<and>
    pl_npendings st = int (card {i. i < length (pl_steps st) \<and> sp_nwaits (pl_steps st ! i) \<noteq> 0}) \<and>
    sc_total st = length (pl_steps st) \<and> distinct (map sp_def (pl_steps st))"
proof -
  note D = plan_invD [OF schedule_kept(1) [OF assms, of "\<lambda>_. []"]]
  have "sp_nwaits (pl_steps st ! i) =
      int (length (filter (\<lambda>t. \<not> ti_source (pl_targets st ! t)) (step_ins g (sp_def (pl_steps st ! i)))))"
    if "i < length (pl_steps st)" for i
    using D(3) that by (simp add: nwaits_inv_def need_def)
  moreover have "\<forall>i < length (pl_steps st). i \<in> set (pl_q st @ pl_ready st) \<longleftrightarrow> sp_nwaits (pl_steps st ! i) = 0"
    using D(6) unfolding queue_inv_def steps_with_def by auto
  moreover have "pl_npendings st = int (card {i. i < length (pl_steps st) \<and> sp_nwaits (pl_steps st ! i) \<noteq> 0})"
    using D(6) by (simp add: queue_inv_def steps_with_def)
  moreover have "distinct (pl_q st @ pl_ready st)" using D(6) by (simp only: queue_inv_def)
  moreover have "distinct (map sp_def (pl_steps st))" using D(5) by (simp add: edges_inv_def)
  moreover have "sc_total st = length (pl_steps st)" using D(7) by simp
  ultimately show ?thesis using schedule_kept(2) [OF assms] by blast
qed

theorem schedule_ready_witness:
  "sp_nwaits (pl_steps demo_plan ! 0) = 2 \<and> scan_of demo_plan 4 = scanStateDone \<and> pl_npendings demo_plan = 2"
  using schedule_ready [OF demo_wf demo_schedule] by (simp add: demo_plan_def)

text \<open>
  C26: a build graph in which every edge can be ranked above the edges that generate its inputs
  is never rejected with a dependency cycle error.
\<close>

theorem schedule_acyclic:
  assumes "ranked g rk" and "schedule g ctxDone targets (newScheduler n) = (st, Some err)"
  shows "as_cycle err = None"
proof -
  let ?st0 = "newScheduler n"
  have v0: "visits (scans ?st0) = {}"
    by (auto simp: newScheduler_def scans_def visits_def emptyTarget_def)
  obtain st1 err1 where r: "scheduleTargets (Suc n) g ctxDone targets ?st0 = (st1, err1)" by force
  have "scan_le (scans ?st0) (scans st1)"
    using closes_scheduleTargets [of "Suc n" ?st0 g ctxDone targets] r by (simp add: closes_def)
  then have "visits (scans st1) = {}" using v0 by (auto simp: scan_le_def)
  then have "no_cycle (snd (scheduleTargets (Suc n) g ctxDone (sc_validations st1) st1))"
    by (rule scheduleTargets_no_cycle [OF assms(1)])
  moreover have "no_cycle err1" using scheduleTargets_no_cycle [OF assms(1) v0, of "Suc n" ctxDone targets] r by simp
  ultimately have "no_cycle (snd (schedule g ctxDone targets ?st0))"
    using r by (cases err1) (simp_all add: schedule_def newScheduler_def)
  then show ?thesis using assms(2) by simp
qed

theorem schedule_acyclic_witness: "as_cycle (ScheduleError 4 Interrupted) = None"
proof -
  have "snd (schedule demo_graph (\<lambda>_. True) [4] (newScheduler (g_numTargets demo_graph))) = Some (ScheduleError 4 Interrupted)"
    by (simp add: demo_simps schedule_simps)
  then show ?thesis using schedule_acyclic [OF demo_ranked] by (metis prod.collapse)
qed

subsection \<open>The cycle error names one target only\<close>

definition cycle_form :: "graph \<Rightarrow> nat \<Rightarrow> sched_err option \<Rightarrow> bool" where
  "cycle_form g t err \<longleftrightarrow>
     (\<forall>e ts. err = Some e \<longrightarrow> as_cycle e = Some ts \<longrightarrow>
        e = DependencyCycleError ts \<and> (ts = [g_path g t] \<or> (\<exists>u. ts = [g_path g u, g_path g u])))"

definition cycle_pair :: "graph \<Rightarrow> sched_err option \<Rightarrow> bool" where
  "cycle_pair g err \<longleftrightarrow>
     (\<forall>e ts. err = Some e \<longrightarrow> as_cycle e = Some ts \<longrightarrow> (\<exists>u. ts = [g_path g u, g_path g u]))"

lemma cycle_pair_input: "cycle_form g t (Some e) \<Longrightarrow> cycle_pair g (Some (input_error g t e))"
  by (auto simp: cycle_form_def cycle_pair_def input_error_def split: option.splits)

lemma scheduleInputs_cycle_pair:
  assumes T: "\<And>inp st. cycle_form g inp (snd (scheduleTarget fuel g ctxDone inp (Some e) st))"
  shows "cycle_pair g (snd (scheduleInputs fuel g ctxDone target e i ins st))"
proof (induction ins arbitrary: st)
  case Nil
  then show ?case by (simp add: cycle_pair_def)
next
  case (Cons it ins)
  obtain inp trigger where it: "it = (inp, trigger)" by force
  obtain st1 err where r: "(if scan_of st inp \<noteq> scanStateDone
      then scheduleTarget fuel g ctxDone inp (Some e) st else (st, None)) = (st1, err)" by force
  have "cycle_form g inp err" using T [of inp st] r by (auto simp: cycle_form_def split: if_splits)
  then have "cycle_pair g (Some (input_error g inp e'))" if "err = Some e'" for e'
    using cycle_pair_input that by simp
  moreover have "cycle_pair g (Some (PhonyOutputError target inp))" "cycle_pair g (Some IndexPanic)"
    by (simp_all add: cycle_pair_def)
  ultimately show ?case
    using Cons.IH [of "add_wait i inp st1"] r by (cases err) (simp_all add: it scheduleInputs_Cons)
qed

lemma input_error_direct: "as_cycle (input_error g t e) = Some ts \<Longrightarrow> input_error g t e = DependencyCycleError ts"
  by (auto simp: input_error_def split: option.splits if_splits)

lemma scheduleInputs_cycle_direct:
  "scheduleInputs fuel g ctxDone target e i ins st = (st', Some err) \<Longrightarrow> as_cycle err = Some ts \<Longrightarrow>
     err = DependencyCycleError ts"
  by (induction ins arbitrary: st)
    (auto simp: scheduleInputs_Cons input_error_direct split: if_splits prod.splits option.splits)

lemma scheduleTarget_cycle_form: "cycle_form g target (snd (scheduleTarget fuel g ctxDone target next st))"
proof (induction fuel arbitrary: target "next" st)
  case 0
  then show ?case by (simp add: cycle_form_def)
next
  case (Suc fuel)
  have step: "cycle_form g target (snd (scheduleStep fuel g ctxDone target e st1))" for e st1
  proof -
    obtain st2 err where r: "scheduleInputs fuel g ctxDone target e (length (pl_steps st1)) (edge_ins g e)
        (push_step e (start_step g target e st1)) = (st2, err)" by force
    have "cycle_pair g err"
      using scheduleInputs_cycle_pair [OF Suc.IH] r by (metis snd_conv)
    moreover have "as_cycle e' = Some ts \<Longrightarrow> e' = DependencyCycleError ts" if "err = Some e'" for e' ts
      using scheduleInputs_cycle_direct r that by blast
    ultimately have "cycle_form g target err" by (simp add: cycle_form_def cycle_pair_def)
    then show ?thesis
      using r by (cases err) (simp_all add: scheduleStep_eq cycle_form_def)
  qed
  have "cycle_form g target (snd (visit fuel g ctxDone target next ign st1))" for ign st1
    using step by (simp add: visit_def mark_def cycle_form_def split: prod.split step_def_result.split)
  moreover obtain st2 err where v: "visit fuel g ctxDone target next (scan_of st target = scanStateIgnored)
      (set_scan target scanStateVisiting st) = (st2, err)" by force
  ultimately have "cycle_form g target err" by (metis snd_conv)
  moreover have "cycle_form g target (Some IndexPanic)" "cycle_form g target None"
    "cycle_form g target (Some (DependencyCycleError [g_path g target]))"
    by (simp_all add: cycle_form_def)
  ultimately show ?case by (simp add: scheduleTarget_visit v)
qed

lemma scheduleTarget_top:
  assumes "scheduleTarget (Suc n) g ctxDone t next st = (st1, Some e)"
    and "t < length (pl_targets st) \<and> scan_of st t = scanStateNotVisited"
  shows "cycle_pair g (Some (ScheduleError t e))"
proof -
  have step: "cycle_pair g (snd (scheduleStep n g ctxDone t e' st'))" for e' st'
  proof -
    obtain st2 err where r: "scheduleInputs n g ctxDone t e' (length (pl_steps st')) (edge_ins g e')
        (push_step e' (start_step g t e' st')) = (st2, err)" by force
    have "cycle_pair g err" using scheduleInputs_cycle_pair [OF scheduleTarget_cycle_form] r by (metis snd_conv)
    then show ?thesis using r by (cases err) (simp_all add: scheduleStep_eq cycle_pair_def)
  qed
  have "cycle_pair g (snd (visit n g ctxDone t next ign st'))" for ign st'
    using step by (simp add: visit_def mark_def cycle_pair_def split: prod.split step_def_result.split)
  then have "cycle_pair g (snd (scheduleTarget (Suc n) g ctxDone t next st))"
    using assms(2) by (simp add: scheduleTarget_visit split: prod.split) (metis snd_conv)
  then show ?thesis using assms(1) by (simp add: cycle_pair_def)
qed

lemma scheduleTargets_cycle_pair:
  assumes "visits (scans st) = {}"
  shows "cycle_pair g (snd (scheduleTargets fuel g ctxDone ts st))"
  using assms
proof (induction ts arbitrary: st)
  case Nil
  then show ?case by (simp add: cycle_pair_def)
next
  case (Cons t ts)
  show ?case
  proof (cases "t < length (pl_targets st) \<and> scan_of st t = scanStateNotVisited")
    case True
    obtain st1 err where r: "scheduleTarget fuel g ctxDone t None st = (st1, err)" by force
    have "visits (scans st1) = {}"
      using closes_scheduleTarget [of fuel st g ctxDone t None] r Cons.prems by (auto simp: closes_def scan_le_def)
    then have IH: "cycle_pair g (snd (scheduleTargets fuel g ctxDone ts st1))" by (rule Cons.IH)
    have "cycle_pair g (Some (ScheduleError t e))" if e: "err = Some e" for e
    proof (cases fuel)
      case 0
      then show ?thesis using r e by (auto simp: cycle_pair_def)
    next
      case (Suc n)
      then show ?thesis using scheduleTarget_top [OF _ True] r e by simp
    qed
    then show ?thesis using True IH r by (cases err) simp_all
  next
    case False
    have "scan_of st t \<noteq> scanStateVisiting" if "t < length (pl_targets st)"
      using Cons.prems that by (auto simp: visits_def scans_nth)
    then show ?thesis
      using False Cons by (cases "scan_of st t") (auto simp: cycle_pair_def)
  qed
qed

text \<open>
  A dependency cycle error names only one target: the reported path is always
  \<open>t -> t\<close>, whatever the length of the cycle.
\<close>

theorem schedule_cycle_report:
  assumes "schedule g ctxDone targets (newScheduler n) = (st, Some err)" and "as_cycle err = Some ts"
  shows "\<exists>t. ts = [g_path g t, g_path g t]"
proof -
  let ?st0 = "newScheduler n"
  have v0: "visits (scans ?st0) = {}"
    by (auto simp: newScheduler_def scans_def visits_def emptyTarget_def)
  obtain st1 err1 where r: "scheduleTargets (Suc n) g ctxDone targets ?st0 = (st1, err1)" by force
  have "scan_le (scans ?st0) (scans st1)"
    using closes_scheduleTargets [of "Suc n" ?st0 g ctxDone targets] r by (simp add: closes_def)
  then have "visits (scans st1) = {}" using v0 by (auto simp: scan_le_def)
  then have "cycle_pair g (snd (scheduleTargets (Suc n) g ctxDone (sc_validations st1) st1))"
    by (rule scheduleTargets_cycle_pair)
  moreover have "cycle_pair g err1" using scheduleTargets_cycle_pair [OF v0] r by (metis snd_conv)
  ultimately have "cycle_pair g (snd (schedule g ctxDone targets ?st0))"
    using r by (cases err1) (simp_all add: schedule_def newScheduler_def cycle_pair_def)
  then show ?thesis using assms by (simp add: cycle_pair_def)
qed

theorem schedule_cycle_report_witness:
  "\<exists>t. [''x'', ''x''] = [g_path loop_graph t, g_path loop_graph t]"
proof -
  have "snd (schedule loop_graph (\<lambda>_. False) [1] (newScheduler (g_numTargets loop_graph))) =
      Some (ScheduleError 1 (DependencyCycleError [''x'', ''x'']))"
    by (simp add: loop_graph_def list_graph_def schedule_simps)
  then obtain st where "schedule loop_graph (\<lambda>_. False) [1] (newScheduler (g_numTargets loop_graph)) =
      (st, Some (ScheduleError 1 (DependencyCycleError [''x'', ''x''])))"
    by (metis prod.collapse)
  from schedule_cycle_report [OF this] show ?thesis by simp
qed

subsection \<open>Running\<close>

text \<open>
  C2: ordering. In every state a run can reach, a step that is queued, active or finished has
  each of its inputs and order-only inputs either on disk as a source or generated by a step that
  already finished.
\<close>

theorem run_ordered:
  assumes "wf_graph g" "schedule g ctxDone targets (newScheduler (g_numTargets g)) = (st, None)"
    and "run_reach g st r" "i \<in> started r" "t \<in> set (step_ins g (sp_def (pl_steps st ! i)))"
  shows "ti_source (pl_targets st ! t) \<or> (\<exists>j \<in> rn_finished r. t \<in> set (sp_outputs (pl_steps st ! j)))"
proof -
  have inv: "plan_inv g (\<lambda>_. []) {} st" by (rule schedule_kept(1) [OF assms(1,2)])
  show ?thesis by (rule started_inputs [OF inv run_reach_inv [OF inv assms(3)] assms(4,5)])
qed

theorem run_ordered_witness:
  "ti_source (pl_targets demo_plan ! 2) \<or> (\<exists>j \<in> rn_finished demo_run. 2 \<in> set (sp_outputs (pl_steps demo_plan ! j)))"
  by (rule run_ordered [OF demo_wf demo_schedule demo_run_reach, of 2])
    (simp_all add: started_def demo_run_queue demo_plan_def step_ins_def demo_simps)

text \<open>
  C3: every step runs at most once. In every reachable state a step is in at most one of the
  queue, the spilled steps, the active steps and the finished steps, and occurs there once.
\<close>

theorem run_once:
  assumes "wf_graph g" "schedule g ctxDone targets (newScheduler (g_numTargets g)) = (st, None)"
    and "run_reach g st r"
  shows "distinct (pl_q (rn_plan r) @ pl_ready (rn_plan r)) \<and>
    set (pl_q (rn_plan r) @ pl_ready (rn_plan r)) \<inter> (rn_active r \<union> rn_finished r) = {} \<and>
    rn_active r \<inter> rn_finished r = {}"
proof -
  have inv: "plan_inv g (\<lambda>_. []) {} st" by (rule schedule_kept(1) [OF assms(1,2)])
  note D = run_invD [OF run_reach_inv [OF inv assms(3)]]
  show ?thesis using D(2,4) by (auto simp: counted_def)
qed

theorem run_once_witness: "2 \<notin> rn_active demo_run \<union> rn_finished demo_run"
  using run_once [OF demo_wf demo_schedule demo_run_reach] by (auto simp: demo_run_queue)

text \<open>
  C7: no deadlock. If the edges of the graph can be ranked, a state without queued, spilled or
  active steps has finished every step, and the queue was closed if there was any step.
\<close>

theorem run_complete:
  assumes "wf_graph g" "ranked g rk"
    and "schedule g ctxDone targets (newScheduler (g_numTargets g)) = (st, None)"
    and "run_reach g st r" "pl_q (rn_plan r) = []" "pl_ready (rn_plan r) = []" "rn_active r = {}"
  shows "rn_finished r = {..<length (pl_steps st)} \<and> (pl_steps st \<noteq> [] \<longrightarrow> pl_closed (rn_plan r))"
proof -
  have inv: "plan_inv g (\<lambda>_. []) {} st" by (rule schedule_kept(1) [OF assms(1,3)])
  have R: "run_inv g st r" by (rule run_reach_inv [OF inv assms(4)])
  note D = run_invD [OF R]
  have all: "rn_finished r = {..<length (pl_steps st)}"
    using run_progress [OF assms(1) inv R assms(2)] run_finite(2) [OF R] assms(5-7) by blast
  have "{i. i < length (pl_steps st) \<and> unmet g (map sp_def (pl_steps st)) (map ti_source (pl_targets st))
      (produced st (rn_finished r)) i \<noteq> 0} = {}"
    using D(2) all assms(7) by (auto simp: counted_def)
  then have "pl_npendings (rn_plan r) = 0" using D(2) by (simp add: counted_def)
  then show ?thesis using D(6) all assms(5-7) by auto
qed

theorem run_complete_witness: "\<exists>r. run_reach demo_graph demo_plan r \<and> rn_finished r = {..<3} \<and> pl_closed (rn_plan r)"
proof -
  have recv: "\<exists>r'. run_reach g st r' \<and> r' = r\<lparr>rn_plan := planDone g i ((rn_plan r)\<lparr>pl_q := rest\<rparr>),
      rn_active := insert i (rn_active r) - {i}, rn_finished := insert i (rn_finished r)\<rparr>"
    if "run_reach g st r" "pl_q (rn_plan r) = i # rest" for g st r i rest
    using run_reach.step [OF run_reach.step [OF that(1) run_trans.receive [OF that(2)]] run_trans.finish [of i]]
    by simp
  obtain r1 where r1: "run_reach demo_graph demo_plan r1" "pl_q (rn_plan r1) = [0]" "rn_active r1 = {}"
    "rn_plan r1 = planDone demo_graph 2 ((rn_plan demo_run)\<lparr>pl_q := []\<rparr>)"
    using recv [OF demo_run_reach demo_run_queue(1)]
    by (auto simp: demo_run_def demo_plan_def demo_simps run_simps)
  obtain r2 where r2: "run_reach demo_graph demo_plan r2" "pl_q (rn_plan r2) = []" "pl_ready (rn_plan r2) = []"
    "rn_active r2 = {}"
    using recv [OF r1(1,2)] r1(3,4) by (auto simp: demo_run_def demo_plan_def demo_simps run_simps)
  have "length (pl_steps demo_plan) = 3" "pl_steps demo_plan \<noteq> []" by (simp_all add: demo_plan_def)
  then show ?thesis
    using run_complete [OF demo_wf demo_ranked demo_schedule r2] r2(1) by auto
qed

text \<open>
  The queue is closed only when nothing will be sent to it any more. In a reachable state
  with a closed queue no step is spilled, none is pending, and every step was already handed to the
  queue; so neither \<open>pushReady\<close> nor \<open>done\<close> sends on the closed channel.
\<close>

theorem run_closed:
  assumes "wf_graph g" "schedule g ctxDone targets (newScheduler (g_numTargets g)) = (st, None)"
    and "run_reach g st r" "pl_closed (rn_plan r)"
  shows "pl_ready (rn_plan r) = [] \<and> pl_npendings (rn_plan r) = 0 \<and> started r = {..<length (pl_steps st)} \<and>
    pushReady (rn_plan r) = rn_plan r \<and> planDone g i (rn_plan r) = rn_plan r"
proof -
  have inv: "plan_inv g (\<lambda>_. []) {} st" by (rule schedule_kept(1) [OF assms(1,2)])
  have R: "run_inv g st r" by (rule run_reach_inv [OF inv assms(3)])
  note D = run_invD [OF R]
  have z: "pl_ready (rn_plan r) = []" "pl_npendings (rn_plan r) = 0" using D(5) assms(4) by blast+
  have "{i. i < length (pl_steps st) \<and> unmet g (map sp_def (pl_steps st)) (map ti_source (pl_targets st))
      (produced st (rn_finished r)) i \<noteq> 0} = {}"
    using D(2) z(2) by (simp add: counted_def)
  then have "started r = {..<length (pl_steps st)}" using started_iff [OF R] by blast
  then show ?thesis using z assms(4) by (simp add: planDone_def pushReady_def)
qed

theorem run_closed_witness: "\<exists>r. pl_closed (rn_plan r) \<and> started r = {..<length (pl_steps demo_plan)}"
proof -
  let ?r = "demo_run\<lparr>rn_plan := (rn_plan demo_run)\<lparr>pl_q := []\<rparr>, rn_active := insert 2 (rn_active demo_run)\<rparr>"
  have "run_reach demo_graph demo_plan ?r"
    by (rule run_reach.step [OF demo_run_reach run_trans.receive [OF demo_run_queue(1)]])
  then have "run_reach demo_graph demo_plan (?r\<lparr>rn_plan := planDone demo_graph 2 (rn_plan ?r),
      rn_active := rn_active ?r - {2}, rn_finished := insert 2 (rn_finished ?r)\<rparr>)" (is "run_reach _ _ ?r'")
    by (rule run_reach.step [OF _ run_trans.finish]) simp
  moreover have "pl_closed (rn_plan ?r')" by (simp add: demo_run_def demo_plan_def demo_simps run_simps)
  ultimately show ?thesis using run_closed [OF demo_wf demo_schedule] by blast
qed

text \<open>
  A run makes progress with every step it takes. Each receive and each finish
  decreases \<open>run_left\<close>, which starts at twice the number of steps; only \<open>pushReady\<close> keeps it.
\<close>

theorem run_decreases:
  assumes "wf_graph g" "schedule g ctxDone targets (newScheduler (g_numTargets g)) = (st, None)"
    and "run_reach g st r" "run_trans g r r'"
  shows "run_left r' < run_left r \<or> r' = r\<lparr>rn_plan := pushReady (rn_plan r)\<rparr>"
proof -
  have inv: "plan_inv g (\<lambda>_. []) {} st" by (rule schedule_kept(1) [OF assms(1,2)])
  have R: "run_inv g st r" by (rule run_reach_inv [OF inv assms(3)])
  from assms(4) show ?thesis
    by (cases rule: run_transE) (use run_left_receive [OF R] run_left_finish [OF inv R] in blast)+
qed

theorem run_decreases_witness:
  "\<exists>r'. run_trans demo_graph (run_start demo_plan) r' \<and>
    (run_left r' < run_left (run_start demo_plan) \<or> r' = (run_start demo_plan)\<lparr>rn_plan := pushReady demo_plan\<rparr>)"
proof -
  have "pl_q (rn_plan (run_start demo_plan)) = 1 # []" by (simp add: run_start_def demo_plan_def)
  from run_trans.receive [OF this, of demo_graph] run_decreases [OF demo_wf demo_schedule run_reach.start this [THEN run_trans.receive]]
  show ?thesis by (auto simp: run_start_def)
qed

subsection \<open>A cycle through another output of the same edge\<close>

lemma sibling_schedule:
  "schedule sibling_graph (\<lambda>_. False) [1] (newScheduler (g_numTargets sibling_graph)) =
     (fst (schedule sibling_graph (\<lambda>_. False) [1] (newScheduler (g_numTargets sibling_graph))), None)"
  "pl_q (fst (schedule sibling_graph (\<lambda>_. False) [1] (newScheduler (g_numTargets sibling_graph)))) = []"
  "pl_ready (fst (schedule sibling_graph (\<lambda>_. False) [1] (newScheduler (g_numTargets sibling_graph)))) = []"
  "pl_npendings (fst (schedule sibling_graph (\<lambda>_. False) [1] (newScheduler (g_numTargets sibling_graph)))) = 1"
  "pl_closed (fst (schedule sibling_graph (\<lambda>_. False) [1] (newScheduler (g_numTargets sibling_graph)))) = False"
  by (simp_all add: sibling_graph_def list_graph_def schedule_simps)

lemma run_idle:
  assumes "run_reach g st r" "pl_q st = []" "pl_ready st = []"
  shows "r = run_start st"
  using assms(1)
proof induction
  case (step r r')
  have q: "rn_plan r = st" "rn_active r = {}" by (simp_all add: step.IH run_start_def)
  have "pushReady st = st" using assms(3) by (simp add: pushReady_def)
  then have "r\<lparr>rn_plan := pushReady (rn_plan r)\<rparr> = r" using q by (cases r) simp
  moreover have "pl_q (rn_plan r) \<noteq> i # rest" for i rest using q assms(2) by simp
  moreover have "i \<notin> rn_active r" for i using q(2) by simp
  ultimately have "r' = r" using step.hyps(2) run_transE [of g r r' "r' = r"] by metis
  then show ?case using step.IH by simp
qed simp

text \<open>
  A cycle through a second output of the same edge is not detected. For an edge that
  generates targets 1 and 2 and needs target 2, \<open>schedule\<close> succeeds, but the step is pending for
  ever: no transition of the run ever changes the plan, so the builder would wait for its queue
  without end.
\<close>

theorem sibling_cycle_hangs:
  "\<exists>st. schedule sibling_graph (\<lambda>_. False) [1] (newScheduler (g_numTargets sibling_graph)) = (st, None) \<and>
     pl_npendings st = 1 \<and> (\<forall>r. run_reach sibling_graph st r \<longrightarrow> r = run_start st \<and> \<not> pl_closed (rn_plan r))"
proof -
  let ?st = "fst (schedule sibling_graph (\<lambda>_. False) [1] (newScheduler (g_numTargets sibling_graph)))"
  have "r = run_start ?st \<and> \<not> pl_closed (rn_plan r)" if "run_reach sibling_graph ?st r" for r
    using run_idle [OF that sibling_schedule(2,3)] sibling_schedule(5) by (simp add: run_start_def)
  then show ?thesis using sibling_schedule(1,4) by blast
qed

theorem sibling_cycle_hangs_witness:
  "pl_npendings (fst (schedule sibling_graph (\<lambda>_. False) [1] (newScheduler (g_numTargets sibling_graph)))) = 1"
  using sibling_cycle_hangs by (metis fst_conv)

end
