(* ===== verification/Deps_Log.thy ===== *)
theory Deps_Log
  imports Go_Base "HOL-Library.Word"
begin

text \<open>
  The deps log (\<open>toolsupport/ninjautil/deps_log.go\<close>): the binary file of path and deps
  records, its reader and writer, and the in-memory tables. File contents are byte strings;
  \<open>int32\<close> and \<open>int64\<close> are words. \<open>filepath.ToSlash\<close> is the identity where the path separator
  is a slash. The slices \<open>deps\<close> and \<open>rDeps\<close> share one backing array until \<open>update\<close> allocates a
  bigger one: \<open>dl_alias\<close> says whether they do, and \<open>dl_cap\<close> is the capacity. Writes to the open
  file append and succeed.
\<close>

unbundle bit_operations_syntax

type_synonym int32 = "32 word"
type_synonym int64 = "64 word"

subsection \<open>Little-endian integers\<close>

definition put32 :: "int32 \<Rightarrow> bytes" where
  "put32 w = map (\<lambda>k. char_of (unat w div 256 ^ k)) [0..<4]"

definition get32 :: "bytes \<Rightarrow> int32" where
  "get32 bs = word_of_nat (\<Sum>k<4. of_char (bs ! k) * 256 ^ k)"

subsection \<open>Records\<close>

definition fileSignature :: bytes where
  "fileSignature = ''# ninjadeps'' @ [NL]"

definition currentVersion :: int32 where
  "currentVersion = 4"

definition maxRecordSize :: nat where
  "maxRecordSize = 2 ^ 19 - 1"

definition isDepsRecord :: "int32 \<Rightarrow> bool" where
  "isDepsRecord h \<longleftrightarrow> signed_drop_bit 31 h \<noteq> 0"

definition recordSize :: "int32 \<Rightarrow> nat" where
  "recordSize h = unat ((scast h :: int64) AND 0x7FFFFFF)"

record depsRecord =
  dr_mtime :: int64
  dr_inputs :: "bytes list"

definition verifySignature :: "bytes \<Rightarrow> bytes res" where
  "verifySignature f =
     (if length f < length fileSignature \<or> take (length fileSignature) f \<noteq> fileSignature then Inl (Err ''wrong signature'')
      else Inr (drop (length fileSignature) f))"

definition verifyVersion :: "bytes \<Rightarrow> bytes res" where
  "verifyVersion f =
     (if length f < 4 \<or> get32 (take 4 f) \<noteq> currentVersion then Inl (Err ''wrong version'') else Inr (drop 4 f))"

text \<open>The 32-bit integers of a record, as \<open>binary.Read\<close> fills the slice \<open>rec\<close>.\<close>

definition rec_ints :: "bytes \<Rightarrow> int32 list" where
  "rec_ints buf = map (\<lambda>k. get32 (take 4 (drop (4 * k) buf))) [0..<length buf div 4]"

definition mtime_of :: "int32 \<Rightarrow> int32 \<Rightarrow> int64" where
  "mtime_of lo hi = push_bit 32 (ucast hi) OR ucast lo"

definition readDepsRecord :: "bytes \<Rightarrow> bytes list \<Rightarrow> (int32 \<times> depsRecord option) res" where
  "readDepsRecord buf depsLogPaths =
     (let rec = rec_ints buf in
      if length rec < 3 then Inl (Panic ''index out of range'')
      else if list_all (\<lambda>i. 0 \<le> sint i \<and> sint i < int (length depsLogPaths)) (drop 3 rec)
      then Inr (rec ! 0, Some \<lparr>dr_mtime = mtime_of (rec ! 1) (rec ! 2),
                 dr_inputs = map (\<lambda>i. depsLogPaths ! nat (sint i)) (drop 3 rec)\<rparr>)
      else Inr (-1, None))"

text \<open>One round of the loop that strips at most three padding bytes.\<close>

definition strip_pad :: "bytes \<Rightarrow> nat \<Rightarrow> nat res" where
  "strip_pad buf n = (if n = 0 then Inl (Err ''path size is corrupted?'') else if buf ! (n - 1) = NUL then Inr (n - 1) else Inr n)"

definition readPathRecord :: "bytes \<Rightarrow> nat \<Rightarrow> bytes res" where
  "readPathRecord buf numDepsLogPaths =
     (if length buf < 4 then Inl (Err ''path size is corrupted?'')
      else rbind (strip_pad buf (length buf - 4)) (\<lambda>n1.
           rbind (strip_pad buf n1) (\<lambda>n2.
           rbind (strip_pad buf n2) (\<lambda>n3.
           (let expectedID = NOT (get32 (drop (length buf - 4) buf)) in
            if int numDepsLogPaths \<noteq> sint expectedID then Inl (Err ''failed to match checksum'') else Inr (take n3 buf))))))"

subsection \<open>The log\<close>

record depsLog =
  dl_rPaths :: "bytes list"
  dl_rPathIdx :: "bytes \<Rightarrow> nat option"
  dl_rDeps :: "depsRecord option list"
  dl_paths :: "bytes list"
  dl_pathIdx :: "bytes \<Rightarrow> nat option"
  dl_deps :: "depsRecord option list"
  dl_cap :: nat
  dl_alias :: bool
  dl_open :: bool
  dl_file :: bytes
  dl_needsRecompact :: bool

definition empty_log :: "bytes \<Rightarrow> depsLog" where
  "empty_log file =
     \<lparr>dl_rPaths = [], dl_rPathIdx = (\<lambda>_. None), dl_rDeps = [], dl_paths = [], dl_pathIdx = (\<lambda>_. None),
      dl_deps = [], dl_cap = 0, dl_alias = False, dl_open = False, dl_file = file, dl_needsRecompact = False\<rparr>"

definition createNewDepsLogFile :: bytes where
  "createNewDepsLogFile = fileSignature @ put32 currentVersion"

text \<open>
  \<open>update\<close> for a non-negative id: whether it existed, and the new log. A new id grows the slice
  within its capacity or reallocates it; the 32-bit capacity arithmetic overflows near the top.
\<close>

definition update_deps :: "int32 \<Rightarrow> depsRecord option \<Rightarrow> depsLog \<Rightarrow> (bool \<times> depsLog) res" where
  "update_deps outID deps d =
     (if sint outID < 0 then Inl (Panic ''index out of range'')
      else
        let i = nat (sint outID); n = length (dl_deps d) in
        if i < n then
          Inr (True, d\<lparr>dl_deps := (dl_deps d)[i := deps],
                 dl_rDeps := (if dl_alias d then (dl_rDeps d)[i := deps] else dl_rDeps d)\<rparr>)
        else
          let grown = (dl_deps d @ replicate (Suc i - n) None)[i := deps] in
          if i < dl_cap d then Inr (False, d\<lparr>dl_deps := grown\<rparr>)
          else if 2 ^ 31 \<le> i + 100 then Inl (Panic ''makeslice: cap out of range'')
          else Inr (False, d\<lparr>dl_deps := grown, dl_cap := (i + 100) div 100 * 100, dl_alias := False\<rparr>))"

text \<open>The read loop of \<open>NewDepsLog\<close>: the log, the record counts, and whether it broke off.\<close>

function (sequential) readLoop :: "bytes \<Rightarrow> depsLog \<Rightarrow> nat \<Rightarrow> nat \<Rightarrow> (depsLog \<times> nat \<times> nat \<times> bool) res" where
  "readLoop f d tot uniq =
     (if f = [] then Inr (d, tot, uniq, False)
      else if length f < 4 then Inr (d, tot, uniq, True)
      else
        let header = get32 (take 4 f); f1 = drop 4 f; sz = recordSize header in
        if maxRecordSize < sz then Inr (d, tot, uniq, True)
        else if length f1 < sz \<or> f1 = [] then Inr (d, tot, uniq, True)
        else if isDepsRecord header then
          (case readDepsRecord (take sz f1) (dl_paths d) of
             Inl e \<Rightarrow> Inl e
           | Inr (outID, deps) \<Rightarrow>
               if outID = -1 then readLoop (drop sz f1) d tot uniq
               else
                 (case update_deps outID deps d of
                    Inl e \<Rightarrow> Inl e
                  | Inr (existed, d') \<Rightarrow>
                      readLoop (drop sz f1) d' (tot + 1) (if existed then uniq else uniq + 1)))
        else
          (case readPathRecord (take sz f1) (length (dl_paths d)) of
             Inl (Err _) \<Rightarrow> Inr (d, tot, uniq, True)
           | Inl (Panic m) \<Rightarrow> Inl (Panic m)
           | Inr pathname \<Rightarrow>
               readLoop (drop sz f1)
                 (d\<lparr>dl_pathIdx := (dl_pathIdx d)(pathname \<mapsto> length (dl_paths d)),
                    dl_paths := dl_paths d @ [pathname]\<rparr>) tot uniq))"
  by pat_completeness auto
termination
  by (relation "measure (\<lambda>(f, _). length f)") auto

declare readLoop.simps [simp del]

text \<open>\<open>Reset\<close>, and the end of \<open>NewDepsLog\<close>: what was recorded becomes visible to \<open>Get\<close>.\<close>

definition dl_reset :: "depsLog \<Rightarrow> depsLog" where
  "dl_reset d = d\<lparr>dl_rPaths := dl_paths d, dl_rPathIdx := dl_rPathIdx d ++ dl_pathIdx d,
     dl_rDeps := dl_deps d, dl_alias := True\<rparr>"

text \<open>\<open>NewDepsLog\<close> on the contents of the file (\<open>None\<close>: the file does not exist).\<close>

definition newDepsLog :: "bytes option \<Rightarrow> depsLog res" where
  "newDepsLog file =
     (case file of
        None \<Rightarrow> Inr (empty_log createNewDepsLogFile)
      | Some fbuf \<Rightarrow>
          (case verifySignature fbuf of
             Inl e \<Rightarrow> Inr (empty_log createNewDepsLogFile)
           | Inr f1 \<Rightarrow>
               (case verifyVersion f1 of
                  Inl e \<Rightarrow> Inr (empty_log createNewDepsLogFile)
                | Inr f2 \<Rightarrow>
                    (case readLoop f2 (empty_log fbuf) 0 0 of
                       Inl e \<Rightarrow> Inl e
                     | Inr (d, tot, uniq, broken) \<Rightarrow>
                         Inr ((dl_reset d)\<lparr>dl_needsRecompact :=
                                broken \<or> (1000 < tot \<and> uniq * 3 < tot) \<or> tot = 0\<rparr>)))))"

datatype get_err = ErrNoDepsLog | ErrInconsistent

definition dl_get :: "depsLog \<Rightarrow> bytes \<Rightarrow> get_err + (bytes list \<times> int64)" where
  "dl_get d output =
     (case dl_rPathIdx d output of
        None \<Rightarrow> Inl ErrNoDepsLog
      | Some i \<Rightarrow>
          if length (dl_rPaths d) \<le> i then Inl ErrNoDepsLog
          else if dl_rPaths d ! i \<noteq> output then Inl ErrInconsistent
          else if length (dl_rDeps d) \<le> i then Inl ErrNoDepsLog
          else case dl_rDeps d ! i of None \<Rightarrow> Inl ErrNoDepsLog
               | Some deps \<Rightarrow> Inr (dr_inputs deps, dr_mtime deps))"

definition lookupDepRecord :: "depsLog \<Rightarrow> nat \<Rightarrow> depsRecord option" where
  "lookupDepRecord d i = (if length (dl_deps d) \<le> i then None else dl_deps d ! i)"

definition uniquePathIdx :: "bytes \<Rightarrow> depsLog \<Rightarrow> nat \<times> bool \<times> depsLog" where
  "uniquePathIdx path d =
     (case dl_pathIdx d path of
        Some i \<Rightarrow> (i, False, d)
      | None \<Rightarrow> (length (dl_paths d), True,
                 d\<lparr>dl_paths := dl_paths d @ [path], dl_pathIdx := (dl_pathIdx d)(path \<mapsto> length (dl_paths d))\<rparr>))"

definition path_record :: "nat \<Rightarrow> bytes \<Rightarrow> bytes" where
  "path_record i path =
     (let padding = (4 - length path mod 4) mod 4 in
      put32 (word_of_nat (length path + padding + 4)) @ path @ replicate padding NUL @
      put32 (NOT (word_of_nat i)))"

definition recordPath :: "nat \<Rightarrow> bytes \<Rightarrow> depsLog \<Rightarrow> failure option \<times> depsLog" where
  "recordPath i path d =
     (let padding = (4 - length path mod 4) mod 4 in
      if maxRecordSize < length path + padding + 4 then (Some (Err ''too large record''), d)
      else (None, d\<lparr>dl_file := dl_file d @ path_record i path\<rparr>))"

definition deps_record :: "nat \<Rightarrow> int64 \<Rightarrow> nat list \<Rightarrow> bytes" where
  "deps_record i mtime inputs =
     put32 (word_of_nat (4 + 4 + 4 + 4 * length inputs) OR push_bit 31 1) @ put32 (word_of_nat i) @
     put32 (ucast (mtime AND 0xffffffff)) @ put32 (ucast (signed_drop_bit 32 mtime)) @
     concat (map (\<lambda>j. put32 (word_of_nat j)) inputs)"

definition recordDeps :: "nat \<Rightarrow> int64 \<Rightarrow> nat list \<Rightarrow> depsLog \<Rightarrow> failure option \<times> depsLog" where
  "recordDeps i mtime inputs d =
     (if maxRecordSize < 4 + 4 + 4 + 4 * length inputs then (Some (Err ''too large record''), d)
      else (None, d\<lparr>dl_file := dl_file d @ deps_record i mtime inputs\<rparr>))"

text \<open>The loop of \<open>Record\<close> over the deps: their ids, and whether a path was added.\<close>

fun record_paths :: "bytes list \<Rightarrow> bool \<Rightarrow> depsLog \<Rightarrow> failure option \<times> nat list \<times> bool \<times> depsLog" where
  "record_paths [] upd d = (None, [], upd, d)"
| "record_paths (dep # deps) upd d =
     (case uniquePathIdx dep d of
        (di, added, d1) \<Rightarrow>
          (case (if added then recordPath di dep d1 else (None, d1)) of
             (Some e, d2) \<Rightarrow> (Some e, [], upd, d2)
           | (None, d2) \<Rightarrow>
               (case record_paths deps (upd \<or> added) d2 of
                  (err, ids, upd', d3) \<Rightarrow> (err, di # ids, upd', d3))))"

text \<open>\<open>Record\<close>: whether the log was updated, or the error, and the log.\<close>

definition dl_record :: "bytes \<Rightarrow> int64 \<Rightarrow> bytes list \<Rightarrow> depsLog \<Rightarrow> bool res \<times> depsLog" where
  "dl_record output mtime deps d =
     (let d0 = d\<lparr>dl_open := True\<rparr> in
      case record_paths [output] False d0 of
        (Some e, _, _, d1) \<Rightarrow> (Inl e, d1)
      | (None, ids, upd, d1) \<Rightarrow>
          (case record_paths deps upd d1 of
             (Some e, _, _, d2) \<Rightarrow> (Inl e, d2)
           | (None, depIDs, upd2, d2) \<Rightarrow>
               let i = hd ids;
                   changed = (upd2 \<or>
                     (case lookupDepRecord d2 i of
                        None \<Rightarrow> True
                      | Some dr \<Rightarrow> length depIDs \<noteq> length (dr_inputs dr) \<or> mtime \<noteq> dr_mtime dr \<or>
                                   dr_inputs dr \<noteq> deps)) in
               if \<not> changed then (Inr False, d2)
               else
                 (case update_deps (word_of_nat i) (Some \<lparr>dr_mtime = mtime, dr_inputs = deps\<rparr>) d2 of
                    Inl e \<Rightarrow> (Inl e, d2)
                  | Inr (_, d3) \<Rightarrow>
                      (case recordDeps i mtime depIDs d3 of
                         (Some e, d4) \<Rightarrow> (Inl e, d4)
                       | (None, d4) \<Rightarrow> (Inr True, d4)))))"

definition dl_close :: "depsLog \<Rightarrow> depsLog" where
  "dl_close d = d\<lparr>dl_open := False\<rparr>"

text \<open>The loop of \<open>Recompact\<close> over the visible deps, from index \<open>i\<close>.\<close>

fun recompact_loop :: "depsRecord option list \<Rightarrow> bytes list \<Rightarrow> nat \<Rightarrow> depsLog \<Rightarrow> failure option \<times> depsLog" where
  "recompact_loop [] rPaths i nd = (None, nd)"
| "recompact_loop (None # ds) rPaths i nd = recompact_loop ds rPaths (Suc i) nd"
| "recompact_loop (Some deps # ds) rPaths i nd =
     (if length rPaths \<le> i then (Some (Panic ''index out of range''), nd)
      else case dl_record (rPaths ! i) (dr_mtime deps) (dr_inputs deps) nd of
        (Inl e, nd') \<Rightarrow> (Some e, nd')
      | (Inr _, nd') \<Rightarrow> recompact_loop ds rPaths (Suc i) nd')"

definition dl_recompact :: "depsLog \<Rightarrow> failure option \<times> depsLog" where
  "dl_recompact d =
     (case recompact_loop (dl_rDeps d) (dl_rPaths d) 0 ((empty_log createNewDepsLogFile)\<lparr>dl_open := True\<rparr>) of
        (Some e, _) \<Rightarrow> (Some e, dl_close d)
      | (None, nd) \<Rightarrow>
          (None, d\<lparr>dl_open := False, dl_file := dl_file nd, dl_rPaths := dl_paths nd,
             dl_rPathIdx := dl_rPathIdx d ++ dl_pathIdx nd, dl_rDeps := dl_deps nd,
             dl_paths := dl_paths nd, dl_pathIdx := dl_pathIdx nd, dl_deps := dl_deps nd,
             dl_cap := dl_cap nd, dl_alias := True, dl_needsRecompact := False\<rparr>))"

text \<open>\<open>RecordedTargets\<close>.\<close>

definition recordedTargets :: "depsLog \<Rightarrow> bytes list" where
  "recordedTargets d =
     map fst (filter (\<lambda>(_, dep). dep \<noteq> None) (zip (dl_rPaths d) (dl_rDeps d)))"

end
