(* ===== verification/Deps_Log_Proofs.thy ===== *)
theory Deps_Log_Proofs
  imports Deps_Log
begin

text \<open>
  The deps log read back: encoding and decoding of records, the read loop on what \<open>Record\<close>
  wrote, and the log of a session reopened from its file.
\<close>

unbundle bit_operations_syntax

subsection \<open>Integers\<close>

lemma digits_sum: "(\<Sum>k<n. (x div b ^ k mod b) * b ^ k) = (x :: nat) mod b ^ n"
proof (induction n)
  case (Suc n)
  have "x mod b ^ Suc n = b ^ n * (x div b ^ n mod b) + x mod b ^ n"
    by (simp add: mod_mult2_eq mult.commute [of b])
  then show ?case using Suc by (simp add: mult.commute)
qed simp

lemma length_put32 [simp]: "length (put32 w) = 4"
  by (simp add: put32_def)

lemma put32_not_Nil [simp]: "put32 w \<noteq> []"
  using length_put32 [of w] by (metis list.size(3) zero_neq_numeral)

lemma get32_put32 [simp]: "get32 (put32 w) = w"
proof -
  have "of_char (put32 w ! k) = unat w div 256 ^ k mod (256 :: nat)" if "k < 4" for k
    using that by (simp add: put32_def)
  then have "get32 (put32 w) = word_of_nat (\<Sum>k<4. (unat w div 256 ^ k mod 256) * 256 ^ k)"
    by (simp add: get32_def)
  also have "\<dots> = word_of_nat (unat w mod 256 ^ 4)" by (simp only: digits_sum)
  also have "unat w mod 256 ^ 4 = unat w"
    using unsigned_less [of w, where 'a = nat] by simp
  finally show ?thesis by simp
qed

lemma recordSize_eq: "recordSize h = unat h mod 2 ^ 27"
proof -
  have m: "(0x7FFFFFF :: int64) = mask 27" by (simp add: mask_eq_exp_minus_1)
  have "(scast h :: int64) AND 0x7FFFFFF = ucast (take_bit 27 h)"
    unfolding m by (rule bit_word_eqI) (auto simp: bit_simps)
  moreover have "unat h < 4294967296" using unsigned_less [of h, where 'a = nat] by simp
  ultimately show ?thesis
    by (simp add: recordSize_def unsigned_ucast_eq unsigned_take_bit_eq take_bit_take_bit take_bit_nat_def)
qed

lemma isDepsRecord_bit: "isDepsRecord h \<longleftrightarrow> bit h 31"
proof
  assume "isDepsRecord h"
  then obtain n where "bit (signed_drop_bit 31 h) n" by (auto simp: isDepsRecord_def bit_eq_iff)
  then show "bit h 31"
    by (cases n) (auto simp: bit_simps split: if_splits dest: bit_imp_le_length)
next
  assume "bit h 31"
  then have "bit (signed_drop_bit 31 h) 0" by (simp add: bit_simps)
  then show "isDepsRecord h" by (metis isDepsRecord_def bit_0_eq bot_apply bot_bool_def)
qed

lemma mtime_of_split: "mtime_of (ucast (t AND 0xffffffff)) (ucast (signed_drop_bit 32 t)) = (t::int64)"
proof -
  have m: "(0xffffffff :: int64) = mask 32" by (simp add: mask_eq_exp_minus_1)
  show ?thesis unfolding mtime_of_def m
  proof (rule bit_word_eqI)
    fix n
    assume "n < LENGTH(64)"
    then show "bit (push_bit 32 (ucast (ucast (signed_drop_bit 32 t) :: int32)) OR
        ucast (ucast (t AND mask 32) :: int32) :: int64) n = bit t n"
      by (cases "n < 32") (auto simp: bit_simps)
  qed
qed

lemma deps_header:
  assumes "n < 2 ^ 27"
  shows "unat ((word_of_nat n :: int32) OR push_bit 31 1) = n + 2 ^ 31"
proof -
  have "\<not> bit n 31" using assms by (simp add: bit_iff_odd)
  moreover have "bit (push_bit 31 (1 :: int32)) m \<longleftrightarrow> m = 31" for m
    unfolding bit_push_bit_iff bit_1_iff by auto
  ultimately have "(word_of_nat n :: int32) AND push_bit 31 1 = 0"
    by (intro bit_word_eqI) (auto simp only: bit_and_iff bit_of_nat_iff bit_0_eq bot_apply bot_bool_def)
  then have "(word_of_nat n :: int32) OR push_bit 31 1 = word_of_nat n + push_bit 31 1"
    by (simp only: disjunctive_add_eq_or)
  also have "\<dots> = word_of_nat (n + 2 ^ 31)" by (simp add: push_bit_eq_mult)
  finally have "(word_of_nat n :: int32) OR push_bit 31 1 = word_of_nat (n + 2 ^ 31)" .
  then show ?thesis using assms by (simp add: unat_of_nat take_bit_nat_def del: of_nat_add)
qed

lemma deps_header_size:
  assumes "n \<le> maxRecordSize"
  shows "recordSize (word_of_nat n) = n" "\<not> isDepsRecord (word_of_nat n)"
    "recordSize (word_of_nat n OR push_bit 31 1) = n" "isDepsRecord (word_of_nat n OR push_bit 31 1)"
proof -
  have n: "n < 524288" using assms by (simp add: maxRecordSize_def)
  have u: "unat (word_of_nat n :: int32) = n" using n by (simp add: unat_of_nat take_bit_nat_def)
  show "recordSize (word_of_nat n) = n" using n by (simp add: recordSize_eq u)
  have "\<not> bit n 31" using n by (simp add: bit_iff_odd)
  then show "\<not> isDepsRecord (word_of_nat n)" by (simp add: isDepsRecord_bit bit_of_nat_iff)
  show "recordSize (word_of_nat n OR push_bit 31 1) = n"
    using deps_header [of n] n mod_mult_self1 [of n 16 134217728] by (simp add: recordSize_eq)
  show "isDepsRecord (word_of_nat n OR push_bit 31 1)"
    by (simp add: isDepsRecord_bit bit_or_iff bit_push_bit_iff)
qed

lemma sint_small: "n < 2 ^ 31 \<Longrightarrow> sint (word_of_nat n :: int32) = int n"
  by (simp add: sint_uint unsigned_of_nat signed_take_bit_eq_if_positive bit_iff_odd take_bit_nat_def
      uint_nat unat_of_nat take_bit_int_eq_self)

subsection \<open>Path records\<close>

definition good_path :: "bytes \<Rightarrow> bool" where
  "good_path p \<longleftrightarrow> p \<noteq> [] \<and> last p \<noteq> NUL \<and> length p + 7 \<le> maxRecordSize"

lemma strip_pad_nul: "0 < k \<Longrightarrow> strip_pad (p @ replicate k NUL @ r) (length p + k) = Inr (length p + k - 1)"
  by (auto simp: strip_pad_def nth_append)

lemma strip_pad_last: "p \<noteq> [] \<Longrightarrow> last p \<noteq> NUL \<Longrightarrow> strip_pad (p @ r) (length p) = Inr (length p)"
  by (auto simp: strip_pad_def nth_append last_conv_nth)

lemma strip_pad_step:
  assumes "p \<noteq> []" "last p \<noteq> NUL" "j \<le> k"
  shows "strip_pad (p @ replicate k NUL @ r) (length p + j) = Inr (length p + (j - 1))"
proof (cases j)
  case 0
  then show ?thesis using strip_pad_last [OF assms(1,2)] by simp
next
  case (Suc j')
  have "p @ replicate k NUL @ r = p @ replicate j NUL @ (replicate (k - j) NUL @ r)"
    using assms(3) by (simp add: append_assoc [symmetric] replicate_add [symmetric] del: append_assoc)
  then show ?thesis using strip_pad_nul [of j p] Suc by simp
qed

lemma readPathRecord_check:
  assumes "p \<noteq> []" "last p \<noteq> NUL" "k \<le> 3" "i < 2 ^ 31"
  shows "readPathRecord (p @ replicate k NUL @ put32 (NOT (word_of_nat i))) j =
    (if j \<noteq> i then Inl (Err ''failed to match checksum'') else Inr p)"
proof -
  let ?buf = "p @ replicate k NUL @ put32 (NOT (word_of_nat i))"
  have len: "length ?buf - 4 = length p + k" by simp
  have "drop (length p + k) ?buf = put32 (NOT (word_of_nat i))" by simp
  then have id: "sint (NOT (get32 (drop (length ?buf - 4) ?buf))) = int i"
    using assms(4) len by (simp only: get32_put32 bit.double_compl sint_small)
  have "k - 1 \<le> k" "k - 1 - 1 \<le> k" "k - 1 - 1 - 1 = 0" using assms(3) by auto
  then have "readPathRecord ?buf j =
      (if j \<noteq> i then Inl (Err ''failed to match checksum'') else Inr (take (length p) ?buf))"
    using strip_pad_step [OF assms(1,2) order_refl, of k "put32 (NOT (word_of_nat i))"]
      strip_pad_step [OF assms(1,2), of "k - 1" k "put32 (NOT (word_of_nat i))"]
      strip_pad_step [OF assms(1,2), of "k - 1 - 1" k "put32 (NOT (word_of_nat i))"] id
    unfolding readPathRecord_def len by simp
  then show ?thesis by simp
qed

lemma path_record_shape:
  assumes "good_path p"
  obtains k where "k \<le> 3" "length p + k + 4 \<le> maxRecordSize"
    "path_record i p = put32 (word_of_nat (length p + k + 4)) @ p @ replicate k NUL @ put32 (NOT (word_of_nat i))"
proof -
  define k where "k = (4 - length p mod 4) mod 4"
  have "k < 4" unfolding k_def by simp
  moreover have "length p + 7 \<le> maxRecordSize" using assms by (simp add: good_path_def)
  ultimately show thesis by (intro that [of k]) (simp_all add: path_record_def k_def [symmetric])
qed

text \<open>The read loop at a path record: its checksum must be the number of paths read so far.\<close>

lemma readLoop_path_check:
  assumes "good_path p" "i < 2 ^ 31"
  shows "readLoop (path_record i p @ rest) d t u =
    (if length (dl_paths d) \<noteq> i then Inr (d, t, u, True)
     else readLoop rest (d\<lparr>dl_pathIdx := (dl_pathIdx d)(p \<mapsto> i), dl_paths := dl_paths d @ [p]\<rparr>) t u)"
proof -
  obtain k where k: "k \<le> 3" "length p + k + 4 \<le> maxRecordSize"
    and rec: "path_record i p = put32 (word_of_nat (length p + k + 4)) @ p @ replicate k NUL @ put32 (NOT (word_of_nat i))"
    by (rule path_record_shape [OF assms(1)])
  define b where "b = p @ replicate k NUL @ put32 (NOT (word_of_nat i))"
  have lb: "length b = length p + k + 4" by (simp add: b_def)
  have chk: "readPathRecord b (length (dl_paths d)) =
      (if length (dl_paths d) \<noteq> i then Inl (Err ''failed to match checksum'') else Inr p)"
    unfolding b_def using assms k(1) by (intro readPathRecord_check) (auto simp: good_path_def)
  have rec': "path_record i p = put32 (word_of_nat (length b)) @ b" by (simp only: rec b_def [symmetric] lb)
  have sz: "length b \<le> maxRecordSize" "b \<noteq> []" using k(2) lb by auto
  show ?thesis
    using deps_header_size [OF sz(1)] sz chk
    by (subst readLoop.simps) (simp add: rec' Let_def del: of_nat_add)
qed

lemma readLoop_path:
  assumes "good_path p" "length (dl_paths d) < 2 ^ 31"
  shows "readLoop (path_record (length (dl_paths d)) p @ rest) d t u =
    readLoop rest (d\<lparr>dl_pathIdx := (dl_pathIdx d)(p \<mapsto> length (dl_paths d)), dl_paths := dl_paths d @ [p]\<rparr>) t u"
  using readLoop_path_check [OF assms] by simp

subsection \<open>Deps records\<close>

lemma length_concat_put32 [simp]: "length (concat (map (\<lambda>j. put32 (f j)) xs)) = 4 * length xs"
  by (induction xs) simp_all

lemma drop_put32: "k < length xs \<Longrightarrow>
   take 4 (drop (4 * k) (concat (map put32 xs))) = put32 (xs ! k)"
proof (induction xs arbitrary: k)
  case (Cons x xs)
  then show ?case by (cases k) simp_all
qed simp

lemma rec_ints_put32: "rec_ints (concat (map put32 ws)) = ws"
  using length_concat_put32 [of "\<lambda>w. w" ws]
  by (intro nth_equalityI) (simp_all add: rec_ints_def drop_put32)

lemma readDepsRecord_ok:
  assumes "\<forall>j \<in> set ids. j < length paths" "length paths \<le> 2 ^ 31"
  shows "readDepsRecord (drop 4 (deps_record i mtime ids)) paths =
    Inr (word_of_nat i, Some \<lparr>dr_mtime = mtime, dr_inputs = map (\<lambda>j. paths ! j) ids\<rparr>)"
proof -
  let ?lo = "ucast (mtime AND 0xffffffff) :: int32" and ?hi = "ucast (signed_drop_bit 32 mtime) :: int32"
  have "drop 4 (deps_record i mtime ids) =
      concat (map put32 ([word_of_nat i, ?lo, ?hi] @ map word_of_nat ids))"
    by (simp add: deps_record_def comp_def)
  then have ints: "rec_ints (drop 4 (deps_record i mtime ids)) = [word_of_nat i, ?lo, ?hi] @ map word_of_nat ids"
    by (simp only: rec_ints_put32)
  have s: "sint (word_of_nat j :: int32) = int j" if "j \<in> set ids" for j
    using assms that by (intro sint_small) auto
  show ?thesis
    unfolding readDepsRecord_def ints Let_def
    using assms s by (simp add: list_all_iff mtime_of_split comp_def cong: map_cong)
qed

lemma readLoop_deps:
  assumes "\<forall>j \<in> set ids. j < length (dl_paths d)" "length (dl_paths d) \<le> 2 ^ 31" "i < 2 ^ 31"
    and "12 + 4 * length ids \<le> maxRecordSize"
    and "update_deps (word_of_nat i) (Some \<lparr>dr_mtime = mtime, dr_inputs = map (\<lambda>j. dl_paths d ! j) ids\<rparr>) d = Inr (ex, d')"
  shows "readLoop (deps_record i mtime ids @ rest) d t u = readLoop rest d' (t + 1) (if ex then u else u + 1)"
proof -
  define b where "b = drop 4 (deps_record i mtime ids)"
  have lb: "length b = 12 + 4 * length ids" by (simp add: b_def deps_record_def)
  have rec: "deps_record i mtime ids = put32 (word_of_nat (length b) OR push_bit 31 1) @ b"
    unfolding lb by (simp add: b_def deps_record_def add.commute)
  have "sint (word_of_nat i :: int32) = int i" by (rule sint_small [OF assms(3)])
  then have "(word_of_nat i :: int32) \<noteq> -1" by force
  moreover have "readDepsRecord b (dl_paths d) =
      Inr (word_of_nat i, Some \<lparr>dr_mtime = mtime, dr_inputs = map (\<lambda>j. dl_paths d ! j) ids\<rparr>)"
    unfolding b_def by (rule readDepsRecord_ok [OF assms(1,2)])
  moreover have sz: "length b \<le> maxRecordSize" using assms(4) lb by simp
  moreover have "b \<noteq> []" using lb by auto
  ultimately show ?thesis
    using deps_header_size [OF sz] assms(5) lb
    by (subst readLoop.simps) (simp add: rec Let_def del: of_nat_add)
qed

subsection \<open>A log as a sequence of records\<close>

datatype log_rec = PathRec bytes | DepsRec nat int64 "nat list"

definition max_paths :: nat where
  "max_paths = 2 ^ 31 - 100"

fun log_bytes :: "nat \<Rightarrow> log_rec list \<Rightarrow> bytes" where
  "log_bytes n [] = []"
| "log_bytes n (PathRec p # rs) = path_record n p @ log_bytes (Suc n) rs"
| "log_bytes n (DepsRec i m ids # rs) = deps_record i m ids @ log_bytes n rs"

fun log_ok :: "nat \<Rightarrow> log_rec list \<Rightarrow> bool" where
  "log_ok n [] \<longleftrightarrow> True"
| "log_ok n (PathRec p # rs) \<longleftrightarrow> good_path p \<and> n < max_paths \<and> log_ok (Suc n) rs"
| "log_ok n (DepsRec i m ids # rs) \<longleftrightarrow> i < n \<and> (\<forall>j \<in> set ids. j < n) \<and> n \<le> max_paths \<and>
     12 + 4 * length ids \<le> maxRecordSize \<and> log_ok n rs"

text \<open>The tables of a log, and what a record does to them.\<close>

type_synonym log_view = "bytes list \<times> (bytes \<Rightarrow> nat option) \<times> depsRecord option list"

definition view :: "depsLog \<Rightarrow> log_view" where
  "view d = (dl_paths d, dl_pathIdx d, dl_deps d)"

definition put_dep :: "nat \<Rightarrow> 'a option \<Rightarrow> 'a option list \<Rightarrow> 'a option list" where
  "put_dep i r xs = (xs @ replicate (Suc i - length xs) None)[i := r]"

fun replay :: "log_rec list \<Rightarrow> log_view \<Rightarrow> log_view" where
  "replay [] v = v"
| "replay (PathRec p # rs) (paths, idx, deps) = replay rs (paths @ [p], idx(p \<mapsto> length paths), deps)"
| "replay (DepsRec i m ids # rs) (paths, idx, deps) =
     replay rs (paths, idx, put_dep i (Some \<lparr>dr_mtime = m, dr_inputs = map (\<lambda>j. paths ! j) ids\<rparr>) deps)"

fun path_count :: "log_rec list \<Rightarrow> nat" where
  "path_count [] = 0"
| "path_count (PathRec p # rs) = Suc (path_count rs)"
| "path_count (DepsRec i m ids # rs) = path_count rs"

lemma log_bytes_append: "log_bytes n (rs @ rs') = log_bytes n rs @ log_bytes (n + path_count rs) rs'"
  by (induction n rs rule: log_bytes.induct) simp_all

lemma log_ok_append: "log_ok n (rs @ rs') \<longleftrightarrow> log_ok n rs \<and> log_ok (n + path_count rs) rs'"
  by (induction n rs rule: log_ok.induct) auto

lemma replay_append: "replay (rs @ rs') v = replay rs' (replay rs v)"
  by (induction rs v rule: replay.induct) simp_all

lemma replay_paths: "length (fst (replay rs v)) = length (fst v) + path_count rs"
  by (induction rs v rule: replay.induct) simp_all

definition keeps :: "depsLog \<Rightarrow> depsLog \<Rightarrow> bool" where
  "keeps d d' \<longleftrightarrow> dl_rPaths d' = dl_rPaths d \<and> dl_rPathIdx d' = dl_rPathIdx d \<and> dl_file d' = dl_file d \<and>
     (\<not> dl_alias d \<longrightarrow> \<not> dl_alias d' \<and> dl_rDeps d' = dl_rDeps d)"

lemma keeps_trans: "keeps a b \<Longrightarrow> keeps b c \<Longrightarrow> keeps a c"
  by (auto simp: keeps_def)

lemma update_deps_ok:
  assumes "i < max_paths"
  obtains ex d' where "update_deps (word_of_nat i) r d = Inr (ex, d')"
    "view d' = (dl_paths d, dl_pathIdx d, put_dep i r (dl_deps d))" "keeps d d'" "dl_open d' = dl_open d"
proof -
  have lt: "i < 2147483548" using assms by (simp add: max_paths_def)
  have s: "nat (sint (word_of_nat i :: int32)) = i" "\<not> sint (word_of_nat i :: int32) < 0"
    using sint_small [of i] lt by simp_all
  have big: "\<not> 2 ^ 31 \<le> i + 100" using lt by simp
  show thesis
  proof (cases "i < length (dl_deps d)")
    case True
    then show thesis
      by (intro that [of True "d\<lparr>dl_deps := (dl_deps d)[i := r],
          dl_rDeps := (if dl_alias d then (dl_rDeps d)[i := r] else dl_rDeps d)\<rparr>"])
        (simp_all add: update_deps_def s Let_def view_def put_dep_def keeps_def)
  next
    case False
    let ?g = "put_dep i r (dl_deps d)"
    show thesis
    proof (cases "i < dl_cap d")
      case True
      then show thesis
        using False
        by (intro that [of False "d\<lparr>dl_deps := ?g\<rparr>"])
          (simp_all add: update_deps_def s Let_def view_def put_dep_def keeps_def)
    next
      case cap: False
      then show thesis
        using False big
        by (intro that [of False "d\<lparr>dl_deps := ?g, dl_cap := (i + 100) div 100 * 100, dl_alias := False\<rparr>"])
          (simp_all add: update_deps_def s Let_def view_def put_dep_def keeps_def del: div_mult_self1_is_m)
    qed
  qed
qed

lemma readLoop_replay:
  assumes "log_ok (length (dl_paths d)) rs"
  shows "\<exists>d' t' u'. readLoop (log_bytes (length (dl_paths d)) rs) d t u = Inr (d', t', u', False) \<and>
    view d' = replay rs (view d) \<and> keeps d d'"
  using assms
proof (induction rs arbitrary: d t u)
  case Nil
  then show ?case by (subst readLoop.simps) (simp add: keeps_def)
next
  case (Cons r rs)
  have lim: "max_paths \<le> 2 ^ 31 - 100" by (simp add: max_paths_def)
  show ?case
  proof (cases r)
    case (PathRec p)
    define d1 where "d1 = d\<lparr>dl_pathIdx := (dl_pathIdx d)(p \<mapsto> length (dl_paths d)), dl_paths := dl_paths d @ [p]\<rparr>"
    have "length (dl_paths d) < 2 ^ 31" using Cons.prems PathRec lim by simp
    then have "readLoop (log_bytes (length (dl_paths d)) (r # rs)) d t u =
        readLoop (log_bytes (length (dl_paths d1)) rs) d1 t u"
      using Cons.prems PathRec readLoop_path by (simp add: d1_def)
    moreover have "log_ok (length (dl_paths d1)) rs" using Cons.prems PathRec by (simp add: d1_def)
    moreover have "keeps d d1" "replay (r # rs) (view d) = replay rs (view d1)"
      using PathRec by (simp_all add: d1_def keeps_def view_def)
    ultimately show ?thesis using Cons.IH [of d1 t u] keeps_trans by metis
  next
    case (DepsRec i m ids)
    let ?r = "Some \<lparr>dr_mtime = m, dr_inputs = map (\<lambda>j. dl_paths d ! j) ids\<rparr>"
    have ok: "\<forall>j \<in> set ids. j < length (dl_paths d)" "length (dl_paths d) \<le> 2 ^ 31" "i < 2 ^ 31"
      "i < max_paths" "12 + 4 * length ids \<le> maxRecordSize"
      using Cons.prems DepsRec lim by auto
    obtain ex d1 where u: "update_deps (word_of_nat i) ?r d = Inr (ex, d1)"
      "view d1 = (dl_paths d, dl_pathIdx d, put_dep i ?r (dl_deps d))" "keeps d d1"
      using update_deps_ok [OF ok(4)] by metis
    have p1: "dl_paths d1 = dl_paths d" using u(2) by (simp add: view_def)
    have "readLoop (log_bytes (length (dl_paths d)) (r # rs)) d t u =
        readLoop (log_bytes (length (dl_paths d1)) rs) d1 (t + 1) (if ex then u else u + 1)"
      unfolding p1 using readLoop_deps [OF ok(1-3,5) u(1)] DepsRec by simp
    moreover have "log_ok (length (dl_paths d1)) rs" using Cons.prems DepsRec p1 by simp
    moreover have "replay (r # rs) (view d) = replay rs (view d1)" using DepsRec u(2) by (simp add: view_def)
    ultimately show ?thesis using Cons.IH [of d1] u(3) keeps_trans by metis
  qed
qed

subsection \<open>The tables as a finite map\<close>

definition idx_ok :: "log_view \<Rightarrow> bool" where
  "idx_ok v = (case v of (paths, idx, deps) \<Rightarrow>
     length deps \<le> length paths \<and> (\<forall>p i. idx p = Some i \<longrightarrow> i < length paths \<and> paths ! i = p))"

definition dep_at :: "log_view \<Rightarrow> bytes \<Rightarrow> depsRecord option" where
  "dep_at v out = (case v of (paths, idx, deps) \<Rightarrow>
     (case idx out of None \<Rightarrow> None | Some i \<Rightarrow> if i < length deps then deps ! i else None))"

lemma length_put_dep [simp]: "length (put_dep i r xs) = max (length xs) (Suc i)"
  by (simp add: put_dep_def)

lemma nth_put_dep:
  "j < max (length xs) (Suc i) \<Longrightarrow>
     put_dep i r xs ! j = (if j = i then r else if j < length xs then xs ! j else None)"
  by (auto simp: put_dep_def nth_upd nth_append)

lemma idx_ok_path: "idx_ok (paths, idx, deps) \<Longrightarrow> idx_ok (paths @ [p], idx(p \<mapsto> length paths), deps)"
  by (auto simp: idx_ok_def nth_append less_SucI)

lemma idx_ok_put: "idx_ok (paths, idx, deps) \<Longrightarrow> i < length paths \<Longrightarrow> idx_ok (paths, idx, put_dep i r deps)"
  by (auto simp: idx_ok_def)

lemma dep_at_path:
  assumes "idx_ok (paths, idx, deps)" "idx p = None"
  shows "dep_at (paths @ [p], idx(p \<mapsto> length paths), deps) = dep_at (paths, idx, deps)"
  using assms by (auto simp: dep_at_def idx_ok_def fun_eq_iff)

lemma dep_at_put:
  assumes "idx_ok (paths, idx, deps)" "idx p = Some i"
  shows "dep_at (paths, idx, put_dep i (Some r) deps) = (dep_at (paths, idx, deps))(p \<mapsto> r)"
proof
  fix out
  show "dep_at (paths, idx, put_dep i (Some r) deps) out = ((dep_at (paths, idx, deps))(p \<mapsto> r)) out"
  proof (cases "idx out")
    case None
    then show ?thesis using assms(2) by (auto simp: dep_at_def)
  next
    case (Some j)
    have "j = i \<longleftrightarrow> out = p" using assms Some by (auto simp: idx_ok_def)
    then show ?thesis using Some by (auto simp: dep_at_def nth_put_dep)
  qed
qed

lemma dl_get_reset:
  assumes "idx_ok (view d)" "dl_rPathIdx d = (\<lambda>_. None)"
  shows "dl_get (dl_reset d) out = (case dep_at (view d) out of
    None \<Rightarrow> Inl ErrNoDepsLog | Some r \<Rightarrow> Inr (dr_inputs r, dr_mtime r))"
  using assms
  by (auto simp: dl_get_def dl_reset_def view_def idx_ok_def dep_at_def map_add_def split: option.splits)

subsection \<open>Record\<close>

text \<open>The file of the log holds records that rebuild its tables.\<close>

definition log_inv :: "depsLog \<Rightarrow> log_rec list \<Rightarrow> bool" where
  "log_inv d rs \<longleftrightarrow> dl_file d = createNewDepsLogFile @ log_bytes 0 rs \<and> log_ok 0 rs \<and>
     view d = replay rs ([], (\<lambda>_. None), []) \<and> idx_ok (view d)"

lemma log_inv_paths: "log_inv d rs \<Longrightarrow> path_count rs = length (dl_paths d)"
  using replay_paths [of rs "([], (\<lambda>_. None), [])"] by (simp add: log_inv_def view_def) (metis fst_conv)

lemma log_inv_idx: "log_inv d rs \<Longrightarrow> idx_ok (dl_paths d, dl_pathIdx d, dl_deps d)"
  unfolding log_inv_def view_def by blast

lemma log_inv_replay: "log_inv d rs \<Longrightarrow> replay rs ([], (\<lambda>_. None), []) = (dl_paths d, dl_pathIdx d, dl_deps d)"
  unfolding log_inv_def view_def by metis

lemma dl_get_flag: "dl_get (d\<lparr>dl_needsRecompact := n\<rparr>) out = dl_get d out"
  by (cases "dl_rPathIdx d out"; cases "dl_rDeps d ! the (dl_rPathIdx d out)") (simp_all add: dl_get_def)

lemma log_inv_empty: "log_inv ((empty_log createNewDepsLogFile)\<lparr>dl_open := b\<rparr>) []"
  by (simp add: log_inv_def empty_log_def view_def idx_ok_def)

lemma good_path_size: "good_path p \<Longrightarrow> length p + (4 - length p mod 4) mod 4 + 4 \<le> maxRecordSize"
proof -
  assume "good_path p"
  moreover have "(4 - length p mod 4) mod 4 < 4" by simp
  ultimately show ?thesis unfolding good_path_def by linarith
qed

lemma record_path_one:
  assumes inv: "log_inv d rs" and "good_path p" "length (dl_paths d) < max_paths"
    and u: "uniquePathIdx p d = (i, added, d1)"
  obtains d2 rs' where "(if added then recordPath i p d1 else (None, d1)) = (None, d2)"
    "log_inv d2 rs'" "dl_pathIdx d2 p = Some i" "\<And>q j. dl_pathIdx d q = Some j \<Longrightarrow> dl_pathIdx d2 q = Some j"
    "length (dl_paths d2) \<le> Suc (length (dl_paths d))" "dep_at (view d2) = dep_at (view d)"
proof (cases "dl_pathIdx d p")
  case (Some j)
  then have "(i, added, d1) = (j, False, d)" using u by (simp add: uniquePathIdx_def)
  then show thesis using that [of d rs] Some inv by simp
next
  case None
  define d2 where "d2 = d\<lparr>dl_paths := dl_paths d @ [p], dl_pathIdx := (dl_pathIdx d)(p \<mapsto> length (dl_paths d)),
    dl_file := dl_file d @ path_record (length (dl_paths d)) p\<rparr>"
  have r: "recordPath i p d1 = (None, d2)" "added" "i = length (dl_paths d)"
    using u None good_path_size [OF assms(2)] by (auto simp: uniquePathIdx_def recordPath_def d2_def)
  have I: "idx_ok (dl_paths d, dl_pathIdx d, dl_deps d)" using log_inv_idx [OF inv] .
  have v2: "view d2 = (dl_paths d @ [p], (dl_pathIdx d)(p \<mapsto> length (dl_paths d)), dl_deps d)"
    by (simp add: d2_def view_def)
  have "log_inv d2 (rs @ [PathRec p])"
  proof -
    have "replay (rs @ [PathRec p]) ([], (\<lambda>_. None), []) = view d2"
      using log_inv_replay [OF inv] by (simp add: replay_append v2)
    moreover have "idx_ok (view d2)" unfolding v2 by (rule idx_ok_path [OF I])
    moreover have "log_ok 0 (rs @ [PathRec p])" "log_bytes 0 (rs @ [PathRec p]) = log_bytes 0 rs @ path_record (length (dl_paths d)) p"
      using inv assms(2,3) log_inv_paths [OF inv] by (auto simp: log_ok_append log_bytes_append log_inv_def)
    ultimately show ?thesis using inv by (simp add: log_inv_def d2_def)
  qed
  moreover have "dep_at (view d2) = dep_at (view d)"
    unfolding v2 using dep_at_path [OF I None] by (simp add: view_def)
  moreover have "dl_pathIdx d q = Some j \<Longrightarrow> dl_pathIdx d2 q = Some j" for q j using None by (auto simp: d2_def)
  ultimately show thesis
    using r by (intro that [of d2 "rs @ [PathRec p]"]) (auto simp: d2_def)
qed

lemma record_paths_ok:
  assumes "log_inv d rs" "list_all good_path ps" "length (dl_paths d) + length ps \<le> max_paths"
  shows "\<exists>ids upd' d' rs'. record_paths ps upd d = (None, ids, upd', d') \<and> log_inv d' rs' \<and>
    list_all2 (\<lambda>p i. dl_pathIdx d' p = Some i) ps ids \<and>
    (\<forall>q j. dl_pathIdx d q = Some j \<longrightarrow> dl_pathIdx d' q = Some j) \<and>
    length (dl_paths d') \<le> length (dl_paths d) + length ps \<and> dep_at (view d') = dep_at (view d)"
  using assms
proof (induction ps arbitrary: d rs upd)
  case Nil
  then show ?case by (intro exI [of _ "[]"] exI [of _ upd] exI [of _ d] exI [of _ rs]) simp
next
  case (Cons p ps)
  obtain i added d1 where u: "uniquePathIdx p d = (i, added, d1)" using prod_cases3 by blast
  have "length (dl_paths d) < max_paths" "good_path p" using Cons.prems by auto
  then obtain d2 rs2 where st: "(if added then recordPath i p d1 else (None, d1)) = (None, d2)"
    "log_inv d2 rs2" "dl_pathIdx d2 p = Some i" "\<And>q j. dl_pathIdx d q = Some j \<Longrightarrow> dl_pathIdx d2 q = Some j"
    "length (dl_paths d2) \<le> Suc (length (dl_paths d))" "dep_at (view d2) = dep_at (view d)"
    using record_path_one [OF Cons.prems(1) _ _ u] by metis
  obtain ids upd' d' rs' where IH: "record_paths ps (upd \<or> added) d2 = (None, ids, upd', d')" "log_inv d' rs'"
    "list_all2 (\<lambda>p i. dl_pathIdx d' p = Some i) ps ids"
    "\<forall>q j. dl_pathIdx d2 q = Some j \<longrightarrow> dl_pathIdx d' q = Some j"
    "length (dl_paths d') \<le> length (dl_paths d2) + length ps" "dep_at (view d') = dep_at (view d2)"
    using Cons.IH [OF st(2), of "upd \<or> added"] Cons.prems st(5) by auto
  have "record_paths (p # ps) upd d = (None, i # ids, upd', d')" using u st(1) IH(1) by simp
  then show ?case using IH st by (intro exI [of _ "i # ids"] exI [of _ upd'] exI [of _ d'] exI [of _ rs']) auto
qed

definition good_entry :: "bytes \<times> int64 \<times> bytes list \<Rightarrow> bool" where
  "good_entry e = (case e of (out, m, deps) \<Rightarrow>
     good_path out \<and> list_all good_path deps \<and> 12 + 4 * length deps \<le> maxRecordSize)"

lemma dl_record_ok:
  assumes inv: "log_inv d rs" and good: "good_entry (out, m, deps)"
    and room: "length (dl_paths d) + Suc (length deps) \<le> max_paths"
  shows "\<exists>b d' rs'. dl_record out m deps d = (Inr b, d') \<and> log_inv d' rs' \<and>
    length (dl_paths d') \<le> length (dl_paths d) + Suc (length deps) \<and>
    dep_at (view d') = (dep_at (view d))(out \<mapsto> \<lparr>dr_mtime = m, dr_inputs = deps\<rparr>)"
proof -
  have v0: "view (d\<lparr>dl_open := True\<rparr>) = view d" by (simp add: view_def)
  have fl: "dl_file (d\<lparr>dl_open := True\<rparr>) = dl_file d" by simp
  have inv0: "log_inv (d\<lparr>dl_open := True\<rparr>) rs" using inv unfolding log_inv_def v0 fl .
  note inv0 = inv0 v0
  obtain i ids upd1 d1 rs1 where r1: "record_paths [out] False (d\<lparr>dl_open := True\<rparr>) = (None, i # ids, upd1, d1)"
    "log_inv d1 rs1" "dl_pathIdx d1 out = Some i" "length (dl_paths d1) \<le> length (dl_paths d) + 1"
    "dep_at (view d1) = dep_at (view d)"
    using record_paths_ok [OF inv0(1), of "[out]" False] good room
    by (auto simp: good_entry_def inv0(2) list_all2_Cons1)
  obtain depIDs upd2 d2 rs2 where r2: "record_paths deps upd1 d1 = (None, depIDs, upd2, d2)" "log_inv d2 rs2"
    "list_all2 (\<lambda>p i. dl_pathIdx d2 p = Some i) deps depIDs" "dl_pathIdx d2 out = Some i"
    "length (dl_paths d2) \<le> length (dl_paths d) + Suc (length deps)" "dep_at (view d2) = dep_at (view d)"
    using record_paths_ok [OF r1(2), of deps upd1] good room r1(3-5) by (auto simp: good_entry_def)
  have I: "idx_ok (dl_paths d2, dl_pathIdx d2, dl_deps d2)" using log_inv_idx [OF r2(2)] .
  have i: "i < length (dl_paths d2)" using I r2(4) by (auto simp: idx_ok_def)
  have ids: "map (\<lambda>j. dl_paths d2 ! j) depIDs = deps" "\<forall>j \<in> set depIDs. j < length (dl_paths d2)"
    "length depIDs = length deps"
  proof -
    have nth: "dl_pathIdx d2 (deps ! k) = Some (depIDs ! k)" if "k < length deps" for k
      using r2(3) that by (simp add: list_all2_conv_all_nth)
    show len: "length depIDs = length deps" using r2(3) by (simp add: list_all2_lengthD)
    have "depIDs ! k < length (dl_paths d2) \<and> dl_paths d2 ! (depIDs ! k) = deps ! k" if "k < length deps" for k
      using nth [OF that] I by (simp add: idx_ok_def)
    then show "map (\<lambda>j. dl_paths d2 ! j) depIDs = deps" "\<forall>j \<in> set depIDs. j < length (dl_paths d2)"
      using len by (auto simp: in_set_conv_nth intro: nth_equalityI)
  qed
  let ?dr = "\<lparr>dr_mtime = m, dr_inputs = deps\<rparr>"
  have lim: "i < max_paths" "length (dl_paths d2) \<le> max_paths" using i r2(5) room by auto
  show ?thesis
  proof (cases "\<not> upd2 \<and> lookupDepRecord d2 i = Some ?dr")
    case True
    then have "dl_record out m deps d = (Inr False, d2)" using r1(1) r2(1) ids(3) by (simp add: dl_record_def)
    moreover have "dep_at (view d2) out = Some ?dr"
      using True r2(4) by (auto simp: dep_at_def view_def lookupDepRecord_def split: if_splits)
    ultimately show ?thesis using r2 by (metis fun_upd_triv)
  next
    case False
    obtain ex d3 where u: "update_deps (word_of_nat i) (Some ?dr) d2 = Inr (ex, d3)"
      "view d3 = (dl_paths d2, dl_pathIdx d2, put_dep i (Some ?dr) (dl_deps d2))" "keeps d2 d3"
      using update_deps_ok [OF lim(1)] by metis
    define d4 where "d4 = d3\<lparr>dl_file := dl_file d3 @ deps_record i m depIDs\<rparr>"
    have sz: "12 + 4 * length depIDs \<le> maxRecordSize" using good ids(3) by (simp add: good_entry_def)
    have rd: "recordDeps i m depIDs d3 = (None, d4)" using sz by (simp add: recordDeps_def d4_def)
    have "upd2 \<or> (case lookupDepRecord d2 i of None \<Rightarrow> True
        | Some dr \<Rightarrow> length depIDs \<noteq> length (dr_inputs dr) \<or> m \<noteq> dr_mtime dr \<or> dr_inputs dr \<noteq> deps)"
      using False by (auto split: option.splits)
    then have "dl_record out m deps d = (Inr True, d4)"
      using r1(1) r2(1) u(1) rd by (simp add: dl_record_def)
    moreover have v4: "view d4 = (dl_paths d2, dl_pathIdx d2, put_dep i (Some ?dr) (dl_deps d2))"
      using u(2) by (simp add: d4_def view_def)
    moreover have "log_inv d4 (rs2 @ [DepsRec i m depIDs])"
    proof -
      have "replay (rs2 @ [DepsRec i m depIDs]) ([], (\<lambda>_. None), []) = view d4"
        using log_inv_replay [OF r2(2)] ids(1) by (simp add: replay_append v4)
      moreover have "log_ok 0 (rs2 @ [DepsRec i m depIDs])"
        using r2(2) i ids(2) lim(2) sz log_inv_paths [OF r2(2)] by (simp add: log_ok_append log_inv_def)
      moreover have "dl_file d4 = createNewDepsLogFile @ log_bytes 0 (rs2 @ [DepsRec i m depIDs])"
        using r2(2) u(3) by (simp add: log_inv_def log_bytes_append keeps_def d4_def)
      moreover have "idx_ok (view d4)" unfolding v4 by (rule idx_ok_put [OF I i])
      ultimately show ?thesis unfolding log_inv_def by simp
    qed
    moreover have "dep_at (view d4) = (dep_at (view d))(out \<mapsto> ?dr)"
      unfolding v4 using dep_at_put [OF I r2(4)] r2(6) by (simp add: view_def)
    moreover have "length (dl_paths d4) \<le> length (dl_paths d) + Suc (length deps)"
      using v4 r2(5) by (simp add: view_def)
    ultimately show ?thesis by blast
  qed
qed

text \<open>A session: records one after the other, the results ignored.\<close>

fun record_all :: "(bytes \<times> int64 \<times> bytes list) list \<Rightarrow> depsLog \<Rightarrow> depsLog" where
  "record_all [] d = d"
| "record_all ((out, m, deps) # es) d = record_all es (snd (dl_record out m deps d))"

fun entry_paths :: "(bytes \<times> int64 \<times> bytes list) list \<Rightarrow> nat" where
  "entry_paths [] = 0"
| "entry_paths ((out, m, deps) # es) = Suc (length deps) + entry_paths es"

fun last_entries :: "(bytes \<times> int64 \<times> bytes list) list \<Rightarrow> (bytes \<Rightarrow> depsRecord option) \<Rightarrow> bytes \<Rightarrow> depsRecord option" where
  "last_entries [] f = f"
| "last_entries ((out, m, deps) # es) f = last_entries es (f(out \<mapsto> \<lparr>dr_mtime = m, dr_inputs = deps\<rparr>))"

lemma record_all_ok:
  assumes "log_inv d rs" "list_all good_entry es" "length (dl_paths d) + entry_paths es \<le> max_paths"
  shows "\<exists>rs'. log_inv (record_all es d) rs' \<and> dep_at (view (record_all es d)) = last_entries es (dep_at (view d))"
  using assms
proof (induction es arbitrary: d rs)
  case Nil
  then show ?case by auto
next
  case (Cons e es)
  obtain out m deps where e: "e = (out, m, deps)" using prod_cases3 by blast
  have "good_entry (out, m, deps)" "length (dl_paths d) + Suc (length deps) \<le> max_paths"
    using Cons.prems by (auto simp: e)
  then obtain b d1 rs1 where r: "dl_record out m deps d = (Inr b, d1)" "log_inv d1 rs1"
    "length (dl_paths d1) \<le> length (dl_paths d) + Suc (length deps)"
    "dep_at (view d1) = (dep_at (view d))(out \<mapsto> \<lparr>dr_mtime = m, dr_inputs = deps\<rparr>)"
    using dl_record_ok [OF Cons.prems(1)] by blast
  then have "record_all (e # es) d = record_all es d1" "length (dl_paths d1) + entry_paths es \<le> max_paths"
    using Cons.prems by (simp_all add: e)
  then show ?case using Cons.IH [OF r(2)] Cons.prems(2) r(4) by (simp only: e last_entries.simps list.pred_inject simp_thms)
qed

lemma reopen_ok:
  assumes "log_inv d rs"
  obtains d2 where "newDepsLog (Some (dl_file d)) = Inr d2" "dl_rPathIdx d2 = dl_pathIdx d"
    "dl_rPaths d2 = dl_paths d" "dl_rDeps d2 = dl_deps d"
    "\<And>out. dl_get d2 out = (case dep_at (view d) out of
      None \<Rightarrow> Inl ErrNoDepsLog | Some r \<Rightarrow> Inr (dr_inputs r, dr_mtime r))"
proof -
  let ?e = "empty_log (dl_file d)"
  have f: "dl_file d = fileSignature @ put32 currentVersion @ log_bytes 0 rs"
    using assms by (simp add: log_inv_def createNewDepsLogFile_def)
  have vs: "verifySignature (dl_file d) = Inr (put32 currentVersion @ log_bytes 0 rs)"
    by (simp add: verifySignature_def f)
  have vv: "verifyVersion (put32 currentVersion @ log_bytes 0 rs) = Inr (log_bytes 0 rs)"
    by (simp add: verifyVersion_def)
  obtain d1 t u where rl: "readLoop (log_bytes 0 rs) ?e 0 0 = Inr (d1, t, u, False)"
    "view d1 = replay rs (view ?e)" "keeps ?e d1"
    using readLoop_replay [of ?e rs 0 0] assms by (auto simp: log_inv_def empty_log_def)
  have v: "view d1 = view d" using rl(2) assms by (simp add: log_inv_def empty_log_def view_def)
  have r1: "dl_rPathIdx d1 = (\<lambda>_. None)" using rl(3) by (simp add: keeps_def empty_log_def)
  define n where "n = (1000 < t \<and> u * 3 < t \<or> t = 0)"
  define d2 where "d2 = (dl_reset d1)\<lparr>dl_needsRecompact := n\<rparr>"
  have "newDepsLog (Some (dl_file d)) = Inr d2" by (simp add: newDepsLog_def vs vv rl(1) d2_def n_def)
  moreover have "dl_get d2 out = dl_get (dl_reset d1) out" for out by (simp add: d2_def dl_get_flag)
  moreover have "idx_ok (view d1)" unfolding v using assms unfolding log_inv_def by blast
  ultimately show thesis
    using that [of d2] dl_get_reset [of d1] r1 v by (simp add: d2_def dl_reset_def view_def)
qed

subsection \<open>Recompaction\<close>

text \<open>Every path has an index, so no path occurs twice.\<close>

definition idx_full :: "log_view \<Rightarrow> bool" where
  "idx_full v = (case v of (paths, idx, deps) \<Rightarrow> \<forall>j < length paths. idx (paths ! j) = Some j)"

lemma view_file [simp]: "view (d\<lparr>dl_file := x\<rparr>) = view d" "view (d\<lparr>dl_open := b\<rparr>) = view d"
  by (simp_all add: view_def)

lemma idx_full_unique: "idx_full (view d) \<Longrightarrow> uniquePathIdx p d = (i, added, d1) \<Longrightarrow> idx_full (view d1)"
  by (auto simp: uniquePathIdx_def idx_full_def view_def nth_append less_Suc_eq split: option.splits)

lemma idx_full_recordPath: "recordPath i p d = (err, d') \<Longrightarrow> view d' = view d"
  by (auto simp: recordPath_def Let_def split: if_splits)

lemma idx_full_record_paths:
  "idx_full (view d) \<Longrightarrow> record_paths ps upd d = (err, ids, upd', d') \<Longrightarrow> idx_full (view d')"
proof (induction ps arbitrary: upd d err ids upd')
  case (Cons p ps)
  obtain i added d1 where u: "uniquePathIdx p d = (i, added, d1)" using prod_cases3 by blast
  obtain e2 d2 where r: "(if added then recordPath i p d1 else (None, d1)) = (e2, d2)" by force
  have "idx_full (view d2)"
    using idx_full_unique [OF Cons.prems(1) u] idx_full_recordPath r by (metis prod.inject)
  then show ?case
    using Cons.IH Cons.prems(2) u r by (cases e2) (auto split: prod.splits)
qed simp

lemma idx_full_update: "update_deps i r d = Inr (ex, d') \<Longrightarrow> idx_full (view d) \<Longrightarrow> idx_full (view d')"
  by (auto simp: update_deps_def Let_def view_def idx_full_def split: if_splits)

lemma idx_full_record: "idx_full (view d) \<Longrightarrow> idx_full (view (snd (dl_record out m deps d)))"
proof -
  assume f: "idx_full (view d)"
  obtain e1 ids upd1 d1 where r1: "record_paths [out] False (d\<lparr>dl_open := True\<rparr>) = (e1, ids, upd1, d1)"
    using prod_cases4 by blast
  obtain e2 depIDs upd2 d2 where r2: "record_paths deps upd1 d1 = (e2, depIDs, upd2, d2)"
    using prod_cases4 by blast
  have f1: "idx_full (view d1)" using idx_full_record_paths [OF _ r1] f by simp
  have f2: "idx_full (view d2)" using idx_full_record_paths [OF f1 r2] .
  have "idx_full (view d3)" if "update_deps i r d2 = Inr (ex, d3)" for i r ex d3
    using idx_full_update [OF that f2] .
  moreover have "view (snd (recordDeps i m ids' d3)) = view d3" for i ids' d3 by (simp add: recordDeps_def)
  ultimately show ?thesis
    using f1 f2 r1 r2 unfolding dl_record_def Let_def
    by (auto split: option.splits sum.splits prod.splits if_splits) (metis snd_conv)+
qed

lemma idx_full_record_all: "idx_full (view d) \<Longrightarrow> idx_full (view (record_all es d))"
  by (induction es d rule: record_all.induct) (simp_all add: idx_full_record)

text \<open>The live entries of a log.\<close>

fun live :: "depsRecord option list \<Rightarrow> bytes list \<Rightarrow> nat \<Rightarrow> (bytes \<times> int64 \<times> bytes list) list" where
  "live [] paths i = []"
| "live (None # ds) paths i = live ds paths (Suc i)"
| "live (Some r # ds) paths i = (paths ! i, dr_mtime r, dr_inputs r) # live ds paths (Suc i)"

lemma recompact_loop_live:
  assumes "log_inv nd rs" "list_all good_entry (live ds paths i)" "i + length ds \<le> length paths"
    "length (dl_paths nd) + entry_paths (live ds paths i) \<le> max_paths"
  shows "recompact_loop ds paths i nd = (None, record_all (live ds paths i) nd)"
  using assms
proof (induction ds paths i nd arbitrary: rs rule: recompact_loop.induct)
  case (3 deps ds rPaths i nd)
  have g: "good_entry (rPaths ! i, dr_mtime deps, dr_inputs deps)" using "3.prems"(2) by simp
  have room: "length (dl_paths nd) + Suc (length (dr_inputs deps)) \<le> max_paths" using "3.prems"(4) by simp
  obtain b d' rs' where r: "dl_record (rPaths ! i) (dr_mtime deps) (dr_inputs deps) nd = (Inr b, d')" "log_inv d' rs'"
    "length (dl_paths d') \<le> length (dl_paths nd) + Suc (length (dr_inputs deps))"
    using dl_record_ok [OF "3.prems"(1) g room] by blast
  have "\<not> length rPaths \<le> i" using "3.prems"(3) by simp
  then show ?case using "3.IH" [OF _ r(1) [symmetric] refl r(2)] "3.prems" r(1,3) by simp
qed simp_all

lemma last_entries_dead:
  assumes "\<And>k. k < length ds \<Longrightarrow> paths ! (i + k) = p \<Longrightarrow> ds ! k = None"
  shows "last_entries (live ds paths i) f p = f p"
  using assms
proof (induction ds arbitrary: i f)
  case (Cons r ds)
  have IH: "last_entries (live ds paths (Suc i)) f' p = f' p" for f'
    using Cons.prems [of "Suc k" for k] by (intro Cons.IH) simp
  then show ?case using Cons.prems [of 0] by (cases r) auto
qed simp

lemma last_entries_live:
  assumes "distinct paths" "i + length ds \<le> length paths" "k < length ds" "ds ! k = Some r"
  shows "last_entries (live ds paths i) f (paths ! (i + k)) = Some r"
  using assms(2-)
proof (induction ds arbitrary: i f k)
  case (Cons r' ds)
  show ?case
  proof (cases k)
    case 0
    have "paths ! (Suc i + k') \<noteq> paths ! i" if "k' < length ds" for k'
      using assms(1) Cons.prems(1) that by (simp add: nth_eq_iff_index_eq)
    then have "last_entries (live ds paths (Suc i)) f' (paths ! i) = f' (paths ! i)" for f'
      by (intro last_entries_dead) blast
    then show ?thesis using 0 Cons.prems by simp
  next
    case (Suc k')
    then have "last_entries (live ds paths (Suc i)) f' (paths ! (Suc i + k')) = Some r" for f'
      using Cons.IH [of "Suc i" k'] Cons.prems by simp
    then show ?thesis using Suc by (cases r') simp_all
  qed
qed simp

lemma idx_full_distinct: "idx_full (paths, idx, deps) \<Longrightarrow> distinct paths"
  by (auto simp: idx_full_def distinct_conv_nth) (metis option.inject)

text \<open>The tables hold good entries only, if the file does.\<close>

definition good_view :: "log_view \<Rightarrow> bool" where
  "good_view v = (case v of (paths, idx, deps) \<Rightarrow> list_all good_path paths \<and>
     (\<forall>r. Some r \<in> set deps \<longrightarrow> list_all good_path (dr_inputs r) \<and> 12 + 4 * length (dr_inputs r) \<le> maxRecordSize))"

lemma set_put_dep: "set (put_dep i r xs) \<subseteq> insert r (insert None (set xs))"
  unfolding put_dep_def using set_update_subset_insert by fastforce

lemma good_view_replay: "log_ok (length (fst v)) rs \<Longrightarrow> good_view v \<Longrightarrow> good_view (replay rs v)"
proof (induction rs v rule: replay.induct)
  case (2 p rs paths idx deps)
  then show ?case by (simp add: good_view_def)
next
  case (3 i m ids rs paths idx deps)
  let ?r = "\<lparr>dr_mtime = m, dr_inputs = map (\<lambda>j. paths ! j) ids\<rparr>"
  have "list_all good_path (dr_inputs ?r)" "12 + 4 * length (dr_inputs ?r) \<le> maxRecordSize"
    using 3 by (auto simp: good_view_def list_all_iff)
  then have "good_view (paths, idx, put_dep i (Some ?r) deps)"
    using "3.prems"(2) set_put_dep [of i "Some ?r" deps] unfolding good_view_def by auto
  then show ?case using 3 by simp
qed simp

lemma live_good:
  assumes "good_view (paths, idx, deps)" "set ds \<subseteq> set deps" "i + length ds \<le> length paths"
  shows "list_all good_entry (live ds paths i)"
  using assms(2,3)
proof (induction ds arbitrary: i)
  case (Cons r ds)
  have "good_path (paths ! i)" using assms(1) Cons.prems by (simp add: good_view_def list_all_length)
  then show ?case
    using Cons assms(1) by (cases r) (auto simp: good_view_def good_entry_def)
qed simp

lemma log_inv_good: "log_inv d rs \<Longrightarrow> good_view (view d)"
proof -
  assume inv: "log_inv d rs"
  have "good_view ([], (\<lambda>_. None), [])" by (simp add: good_view_def)
  moreover have "log_ok 0 rs" using inv by (simp add: log_inv_def)
  ultimately have "good_view (replay rs ([], (\<lambda>_. None), []))" by (intro good_view_replay) simp_all
  then show ?thesis using log_inv_replay [OF inv] by (simp add: view_def)
qed

lemma recompact_view:
  assumes inv: "log_inv d rs" and full: "idx_full (view d)"
    and room: "entry_paths (live (dl_deps d) (dl_paths d) 0) \<le> max_paths"
  obtains nd rs' where
    "recompact_loop (dl_deps d) (dl_paths d) 0 ((empty_log createNewDepsLogFile)\<lparr>dl_open := True\<rparr>) = (None, nd)"
    "log_inv nd rs'" "idx_full (view nd)" "dep_at (view nd) = dep_at (view d)"
proof -
  let ?e = "(empty_log createNewDepsLogFile)\<lparr>dl_open := True\<rparr>" and ?l = "live (dl_deps d) (dl_paths d) 0"
  have I: "length (dl_deps d) \<le> length (dl_paths d)"
    "\<And>p i. dl_pathIdx d p = Some i \<Longrightarrow> i < length (dl_paths d) \<and> dl_paths d ! i = p"
    using log_inv_idx [OF inv] by (auto simp: idx_ok_def)
  have F: "\<And>j. j < length (dl_paths d) \<Longrightarrow> dl_pathIdx d (dl_paths d ! j) = Some j"
    using full by (simp add: idx_full_def view_def)
  have good: "list_all good_entry ?l"
    using live_good [of "dl_paths d" "dl_pathIdx d" "dl_deps d" "dl_deps d" 0] log_inv_good [OF inv] I
    by (simp add: view_def)
  have e0: "dl_paths ?e = []" "dep_at (view ?e) = (\<lambda>_. None)" "idx_full (view ?e)"
    by (auto simp: empty_log_def view_def dep_at_def idx_full_def)
  have loop: "recompact_loop (dl_deps d) (dl_paths d) 0 ?e = (None, record_all ?l ?e)"
    using I(1) room e0(1) by (intro recompact_loop_live [OF log_inv_empty good]) simp_all
  obtain rs' where nd: "log_inv (record_all ?l ?e) rs'" "dep_at (view (record_all ?l ?e)) = last_entries ?l (\<lambda>_. None)"
    using record_all_ok [OF log_inv_empty good, of True] room e0 by auto
  have "last_entries ?l (\<lambda>_. None) p = dep_at (view d) p" for p
  proof (cases "dep_at (view d) p")
    case None
    have "dl_deps d ! k = None" if "k < length (dl_deps d)" "dl_paths d ! (0 + k) = p" for k
      using None that F [of k] I(1) by (auto simp: dep_at_def view_def)
    then show ?thesis using last_entries_dead [of "dl_deps d" "dl_paths d" 0 p] None by simp
  next
    case (Some r)
    then obtain k where k: "dl_pathIdx d p = Some k" "k < length (dl_deps d)" "dl_deps d ! k = Some r"
      by (auto simp: dep_at_def view_def split: option.splits if_splits)
    then show ?thesis
      using last_entries_live [of "dl_paths d" 0 "dl_deps d" k r] idx_full_distinct full I Some
      by (auto simp: view_def)
  qed
  then have "dep_at (view (record_all ?l ?e)) = dep_at (view d)" using nd(2) by (simp add: fun_eq_iff)
  then show thesis using that loop nd(1) idx_full_record_all [OF e0(3)] by blast
qed

end
