(* ===== verification/Deps_Log_Props.thy ===== *)
theory Deps_Log_Props
  imports Deps_Log_Proofs
begin

text \<open>The properties of the deps log.\<close>

unbundle bit_operations_syntax

definition demo_entries :: "(bytes \<times> int64 \<times> bytes list) list" where
  "demo_entries = [(''a.o'', 7, [''a.c'', ''a.h'']), (''b.o'', 8, [''b.c'']), (''a.o'', 9, [''a.c''])]"

abbreviation fresh_log :: depsLog where
  "fresh_log \<equiv> empty_log createNewDepsLogFile"

lemma fresh_log_inv: "log_inv fresh_log []"
  using log_inv_empty [of "dl_open fresh_log"] by simp

lemma fresh_log_full: "idx_full (view fresh_log)" "dep_at (view fresh_log) = (\<lambda>_. None)"
  by (auto simp: empty_log_def view_def idx_full_def dep_at_def)

lemma demo_entries_good: "list_all good_entry demo_entries" "entry_paths demo_entries \<le> max_paths"
  by (simp_all add: demo_entries_def good_entry_def good_path_def maxRecordSize_def max_paths_def)

lemma session_inv:
  assumes "list_all good_entry es" "entry_paths es \<le> max_paths"
  obtains rs where "log_inv (record_all es fresh_log) rs"
    "dep_at (view (record_all es fresh_log)) = last_entries es (\<lambda>_. None)"
proof -
  have "length (dl_paths fresh_log) + entry_paths es \<le> max_paths" using assms(2) by (simp add: empty_log_def)
  from record_all_ok [OF fresh_log_inv assms(1) this] show thesis
    unfolding fresh_log_full(2) using that by blast
qed

text \<open>
  C11: what \<open>Record\<close> writes, \<open>NewDepsLog\<close> reads back. After any sequence of \<open>Record\<close> calls on
  a new log, opening its file again succeeds, and \<open>Get\<close> returns for every output the deps and mtime
  of its last \<open>Record\<close>, and \<open>ErrNoDepsLog\<close> for an output that was never recorded.
\<close>

theorem deps_log_reopen:
  assumes "list_all good_entry es" "entry_paths es \<le> max_paths"
  shows "\<exists>d2. newDepsLog (Some (dl_file (record_all es fresh_log))) = Inr d2 \<and>
    (\<forall>out. dl_get d2 out = (case last_entries es (\<lambda>_. None) out of
       None \<Rightarrow> Inl ErrNoDepsLog | Some r \<Rightarrow> Inr (dr_inputs r, dr_mtime r)))"
proof -
  obtain rs where inv: "log_inv (record_all es fresh_log) rs"
    and dep: "dep_at (view (record_all es fresh_log)) = last_entries es (\<lambda>_. None)"
    by (rule session_inv [OF assms])
  show ?thesis by (rule reopen_ok [OF inv]) (use dep in auto)
qed

theorem deps_log_reopen_witness:
  "\<exists>d2. newDepsLog (Some (dl_file (record_all demo_entries fresh_log))) = Inr d2 \<and>
    dl_get d2 ''a.o'' = Inr ([''a.c''], 9) \<and> dl_get d2 ''c.o'' = Inl ErrNoDepsLog"
proof -
  obtain d2 where d2: "newDepsLog (Some (dl_file (record_all demo_entries fresh_log))) = Inr d2"
    "\<forall>out. dl_get d2 out = (case last_entries demo_entries (\<lambda>_. None) out of
       None \<Rightarrow> Inl ErrNoDepsLog | Some r \<Rightarrow> Inr (dr_inputs r, dr_mtime r))"
    using deps_log_reopen [OF demo_entries_good] by blast
  have "last_entries demo_entries (\<lambda>_. None) ''a.o'' = Some \<lparr>dr_mtime = 9, dr_inputs = [''a.c'']\<rparr>"
    "last_entries demo_entries (\<lambda>_. None) ''c.o'' = None"
    by (simp_all add: demo_entries_def)
  then show ?thesis using d2 by simp
qed

lemma dl_get_recompacted:
  assumes "idx_ok (view nd)" "idx_full (view nd)"
    and "dl_rPaths d = dl_paths nd" "dl_rDeps d = dl_deps nd" "dl_rPathIdx d = old ++ dl_pathIdx nd"
  shows "dl_get d out = Inr x \<longleftrightarrow> (\<exists>r. dep_at (view nd) out = Some r \<and> x = (dr_inputs r, dr_mtime r))"
proof (cases "dl_pathIdx nd out")
  case None
  then have "out \<notin> set (dl_paths nd)" using assms(2) by (auto simp: idx_full_def view_def in_set_conv_nth)
  then have "dl_get d out \<noteq> Inr x"
    using None assms(3-5) by (auto simp: dl_get_def map_add_def in_set_conv_nth split: option.splits)
  then show ?thesis using None by (simp add: dep_at_def view_def)
next
  case (Some i)
  then have "i < length (dl_paths nd)" "dl_paths nd ! i = out" using assms(1) by (auto simp: idx_ok_def view_def)
  then show ?thesis
    using Some assms(3-5) by (auto simp: dl_get_def map_add_def dep_at_def view_def split: option.splits)
qed

text \<open>
  C20: \<open>Recompact\<close> loses nothing. For a log that was written by \<open>Record\<close> calls and opened again,
  recompaction succeeds; afterwards, and after opening the compacted file, \<open>Get\<close> returns the same
  deps and mtime for exactly the same outputs.
\<close>

theorem deps_log_recompact:
  assumes "list_all good_entry es" "entry_paths es \<le> max_paths"
    and "newDepsLog (Some (dl_file (record_all es fresh_log))) = Inr d"
    and "entry_paths (live (dl_rDeps d) (dl_rPaths d) 0) \<le> max_paths"
  shows "\<exists>d3 d4. dl_recompact d = (None, d3) \<and> newDepsLog (Some (dl_file d3)) = Inr d4 \<and>
    (\<forall>out x. (dl_get d3 out = Inr x \<longleftrightarrow> dl_get d out = Inr x) \<and> (dl_get d4 out = Inr x \<longleftrightarrow> dl_get d out = Inr x))"
proof -
  let ?s = "record_all es fresh_log"
  obtain rs where inv: "log_inv ?s rs" by (rule session_inv [OF assms(1,2)])
  have full: "idx_full (view ?s)" by (rule idx_full_record_all [OF fresh_log_full(1)])
  obtain d' where d': "newDepsLog (Some (dl_file ?s)) = Inr d'"
    "dl_rPaths d' = dl_paths ?s" "dl_rDeps d' = dl_deps ?s"
    "\<And>out. dl_get d' out = (case dep_at (view ?s) out of
      None \<Rightarrow> Inl ErrNoDepsLog | Some r \<Rightarrow> Inr (dr_inputs r, dr_mtime r))"
    by (rule reopen_ok [OF inv]) (rule that, assumption+)
  then have dd: "d' = d" using assms(3) by simp
  have room: "entry_paths (live (dl_deps ?s) (dl_paths ?s) 0) \<le> max_paths" using assms(4) d' dd by simp
  obtain nd rs' where nd:
    "recompact_loop (dl_deps ?s) (dl_paths ?s) 0 (fresh_log\<lparr>dl_open := True\<rparr>) = (None, nd)"
    "log_inv nd rs'" "idx_full (view nd)" "dep_at (view nd) = dep_at (view ?s)"
    using recompact_view [OF inv full room] by blast
  define d3 where "d3 = d\<lparr>dl_open := False, dl_file := dl_file nd, dl_rPaths := dl_paths nd,
     dl_rPathIdx := dl_rPathIdx d ++ dl_pathIdx nd, dl_rDeps := dl_deps nd,
     dl_paths := dl_paths nd, dl_pathIdx := dl_pathIdx nd, dl_deps := dl_deps nd,
     dl_cap := dl_cap nd, dl_alias := True, dl_needsRecompact := False\<rparr>"
  have "dl_recompact d = (None, d3)" using nd(1) d'(2,3) dd by (simp add: dl_recompact_def d3_def)
  moreover have "dl_get d3 out = Inr x \<longleftrightarrow> (\<exists>r. dep_at (view nd) out = Some r \<and> x = (dr_inputs r, dr_mtime r))" for out x
    using log_inv_idx [OF nd(2)] nd(3) by (intro dl_get_recompacted) (simp_all add: d3_def view_def)
  moreover obtain d4 where "newDepsLog (Some (dl_file nd)) = Inr d4"
    "\<And>out. dl_get d4 out = (case dep_at (view nd) out of
      None \<Rightarrow> Inl ErrNoDepsLog | Some r \<Rightarrow> Inr (dr_inputs r, dr_mtime r))"
    by (rule reopen_ok [OF nd(2)]) (rule that, assumption+)
  moreover have "dl_file d3 = dl_file nd" by (simp add: d3_def)
  moreover have "dl_get d out = Inr x \<longleftrightarrow> (\<exists>r. dep_at (view nd) out = Some r \<and> x = (dr_inputs r, dr_mtime r))" for out x
    using d'(4) dd nd(4) by (auto split: option.splits)
  ultimately show ?thesis by (auto split: option.splits)
qed

definition small_entries :: "(bytes \<times> int64 \<times> bytes list) list" where
  "small_entries = [(''o'', 1, [''a'']), (''o'', 2, [''b''])]"

lemma small_entries_log:
  "dl_paths (record_all small_entries fresh_log) = [''o'', ''a'', ''b'']"
  "dl_deps (record_all small_entries fresh_log) = [Some \<lparr>dr_mtime = 2, dr_inputs = [''b'']\<rparr>]"
  by (simp_all add: small_entries_def dl_record_def empty_log_def uniquePathIdx_def recordPath_def
      recordDeps_def lookupDepRecord_def update_deps_def maxRecordSize_def)

lemma small_entries_good: "list_all good_entry small_entries" "entry_paths small_entries \<le> max_paths"
  by (simp_all add: small_entries_def good_entry_def good_path_def maxRecordSize_def max_paths_def)

lemma deps_log_reopen_get:
  "\<exists>d2. newDepsLog (Some (dl_file (record_all small_entries fresh_log))) = Inr d2 \<and> dl_get d2 ''o'' = Inr ([''b''], 2)"
proof -
  obtain rs where inv: "log_inv (record_all small_entries fresh_log) rs"
    and "dep_at (view (record_all small_entries fresh_log)) = last_entries small_entries (\<lambda>_. None)"
    by (rule session_inv [OF small_entries_good])
  then have "dep_at (view (record_all small_entries fresh_log)) ''o'' = Some \<lparr>dr_mtime = 2, dr_inputs = [''b'']\<rparr>"
    by (simp add: small_entries_def)
  note dep = this
  show ?thesis by (rule reopen_ok [OF inv]) (use dep in auto)
qed

text \<open>The log of \<open>small_entries\<close> opened again: the dependency \<open>a\<close> is no longer used.\<close>

lemma small_log_open:
  obtains d where "newDepsLog (Some (dl_file (record_all small_entries fresh_log))) = Inr d"
    "dl_rPaths d = [''o'', ''a'', ''b'']" "dl_rDeps d = [Some \<lparr>dr_mtime = 2, dr_inputs = [''b'']\<rparr>]"
    "dl_rPathIdx d ''a'' = Some 1"
proof -
  obtain rs where inv: "log_inv (record_all small_entries fresh_log) rs"
    by (rule session_inv [OF small_entries_good])
  have "idx_full (view (record_all small_entries fresh_log))" by (rule idx_full_record_all [OF fresh_log_full(1)])
  then have "\<forall>j < 3. dl_pathIdx (record_all small_entries fresh_log) ([''o'', ''a'', ''b''] ! j) = Some j"
    unfolding idx_full_def view_def by (simp add: small_entries_log numeral_3_eq_3)
  from this [rule_format, of 1]
  have "dl_pathIdx (record_all small_entries fresh_log) ''a'' = Some 1" by simp
  note idx = this
  show thesis
  proof (rule reopen_ok [OF inv])
    fix d2
    assume d2: "newDepsLog (Some (dl_file (record_all small_entries fresh_log))) = Inr d2"
      "dl_rPathIdx d2 = dl_pathIdx (record_all small_entries fresh_log)"
      "dl_rPaths d2 = dl_paths (record_all small_entries fresh_log)"
      "dl_rDeps d2 = dl_deps (record_all small_entries fresh_log)"
    show thesis using that [OF d2(1)] d2(2-) idx by (simp only: small_entries_log)
  qed
qed

theorem deps_log_recompact_witness:
  "\<exists>d d3 d4. newDepsLog (Some (dl_file (record_all small_entries fresh_log))) = Inr d \<and>
     dl_recompact d = (None, d3) \<and> newDepsLog (Some (dl_file d3)) = Inr d4 \<and>
     dl_get d4 ''o'' = dl_get d ''o''"
proof -
  obtain d where d: "newDepsLog (Some (dl_file (record_all small_entries fresh_log))) = Inr d"
    "dl_rPaths d = [''o'', ''a'', ''b'']" "dl_rDeps d = [Some \<lparr>dr_mtime = 2, dr_inputs = [''b'']\<rparr>]"
    by (rule small_log_open)
  have "entry_paths (live (dl_rDeps d) (dl_rPaths d) 0) \<le> max_paths" by (simp add: d max_paths_def)
  from deps_log_recompact [OF small_entries_good d(1) this]
  obtain d3 d4 where r: "dl_recompact d = (None, d3)" "newDepsLog (Some (dl_file d3)) = Inr d4"
    "\<And>x. dl_get d4 ''o'' = Inr x \<longleftrightarrow> dl_get d ''o'' = Inr x"
    by blast
  obtain d2 where "newDepsLog (Some (dl_file (record_all small_entries fresh_log))) = Inr d2"
    "dl_get d2 ''o'' = Inr ([''b''], 2)"
    using deps_log_reopen_get by blast
  then have "dl_get d ''o'' = Inr ([''b''], 2)" using d(1) by simp
  then show ?thesis using d(1) r(1,2) r(3) [of "([''b''], 2)"]
    by (intro exI [of _ d] exI [of _ d3] exI [of _ d4]) simp
qed

text \<open>
  After a recompaction \<open>Get\<close> no longer reports \<open>ErrNoDepsLog\<close> for a path whose only records were
  dropped: \<open>Recompact\<close> copies the new indices over the old ones in \<open>rPathIdx\<close> without clearing it,
  so the stale index names another path and \<open>Get\<close> fails with the inconsistent path error.
\<close>

theorem recompact_stale_index:
  "\<exists>d d3. newDepsLog (Some (dl_file (record_all small_entries fresh_log))) = Inr d \<and>
     dl_get d ''a'' = Inl ErrNoDepsLog \<and> dl_recompact d = (None, d3) \<and> dl_get d3 ''a'' = Inl ErrInconsistent"
proof -
  obtain d where d: "newDepsLog (Some (dl_file (record_all small_entries fresh_log))) = Inr d"
    "dl_rPaths d = [''o'', ''a'', ''b'']" "dl_rDeps d = [Some \<lparr>dr_mtime = 2, dr_inputs = [''b'']\<rparr>]"
    "dl_rPathIdx d ''a'' = Some 1"
    by (rule small_log_open)
  have "dl_get d ''a'' = Inl ErrNoDepsLog" by (simp add: dl_get_def d)
  moreover obtain nd where nd: "recompact_loop (dl_rDeps d) (dl_rPaths d) 0 (fresh_log\<lparr>dl_open := True\<rparr>) = (None, nd)"
    "dl_paths nd = [''o'', ''b'']" "dl_pathIdx nd ''a'' = None"
    by (simp add: d dl_record_def empty_log_def uniquePathIdx_def recordPath_def
      recordDeps_def lookupDepRecord_def update_deps_def maxRecordSize_def)
  have "dl_recompact d = (None, snd (dl_recompact d))" "dl_get (snd (dl_recompact d)) ''a'' = Inl ErrInconsistent"
    using nd d by (simp_all add: dl_recompact_def dl_get_def map_add_def)
  ultimately show ?thesis using d(1) by blast
qed

text \<open>
  A \<open>Record\<close> that fails because a path is too long corrupts the log. The path keeps its
  place in the in-memory table although it was not written, so the next path record carries a
  checksum the reader rejects: everything recorded afterwards is lost when the log is opened again.
\<close>

theorem record_too_long_desyncs:
  assumes "maxRecordSize < length p" "good_path q" "p \<noteq> q"
  shows "\<exists>d1 d2 d3. dl_record p m [] fresh_log = (Inl (Err ''too large record''), d1) \<and>
    dl_record q m' [] d1 = (Inr True, d2) \<and> dl_get (dl_reset d2) q = Inr ([], m') \<and>
    newDepsLog (Some (dl_file d2)) = Inr d3 \<and> dl_needsRecompact d3 \<and> dl_get d3 q = Inl ErrNoDepsLog"
proof -
  define d1 where "d1 = snd (dl_record p m [] fresh_log)"
  define d2 where "d2 = snd (dl_record q m' [] d1)"
  define e where "e = fresh_log\<lparr>dl_open := True, dl_paths := [p], dl_pathIdx := [p \<mapsto> 0]\<rparr>"
  have r1: "dl_record p m [] fresh_log = (Inl (Err ''too large record''), e)"
    using assms(1) by (simp add: dl_record_def uniquePathIdx_def recordPath_def empty_log_def e_def Let_def)
  then have d1: "d1 = e" by (simp add: d1_def)
  have s1: "sint (1 :: int32) = 1" by simp
  have sz: "length q + (4 - length q mod 4) mod 4 + 4 \<le> maxRecordSize" "12 \<le> maxRecordSize"
    using good_path_size [OF assms(2)] by (simp_all add: maxRecordSize_def)
  have r2: "dl_record q m' [] d1 = (Inr True,
      e\<lparr>dl_paths := [p, q], dl_pathIdx := [p \<mapsto> 0, q \<mapsto> 1],
        dl_file := createNewDepsLogFile @ path_record 1 q @ deps_record 1 m' [],
        dl_deps := [None, Some \<lparr>dr_mtime = m', dr_inputs = []\<rparr>], dl_cap := 100\<rparr>)"
    using assms(3) sz
    by (simp add: d1 dl_record_def uniquePathIdx_def recordPath_def recordDeps_def empty_log_def e_def Let_def
        update_deps_def s1)
  let ?f = "createNewDepsLogFile @ path_record 1 q @ deps_record 1 m' []"
  have f: "dl_file d2 = ?f" by (simp add: d2_def r2)
  have "readLoop (path_record 1 q @ deps_record 1 m' []) (empty_log ?f) 0 0 = Inr (empty_log ?f, 0, 0, True)"
    using readLoop_path_check [OF assms(2), of 1] by (simp add: empty_log_def)
  then have "newDepsLog (Some (dl_file d2)) = Inr ((dl_reset (empty_log ?f))\<lparr>dl_needsRecompact := True\<rparr>)"
    by (simp add: newDepsLog_def f verifySignature_def verifyVersion_def createNewDepsLogFile_def)
  moreover have "dl_get ((dl_reset (empty_log ?f))\<lparr>dl_needsRecompact := True\<rparr>) q = Inl ErrNoDepsLog"
    by (simp add: dl_get_def dl_reset_def empty_log_def)
  moreover have "dl_get (dl_reset d2) q = Inr ([], m')"
    by (simp add: d2_def r2 dl_get_def dl_reset_def e_def empty_log_def)
  moreover have "dl_record p m [] fresh_log = (Inl (Err ''too large record''), d1)" "dl_record q m' [] d1 = (Inr True, d2)"
    using r1 r2 by (simp_all add: d1_def d2_def)
  ultimately show ?thesis by fastforce
qed

theorem record_too_long_desyncs_witness:
  "\<exists>p q d1 d2. dl_record p 1 [] fresh_log = (Inl (Err ''too large record''), d1) \<and>
     dl_record q 1 [] d1 = (Inr True, d2)"
proof -
  have "maxRecordSize < length (replicate (Suc maxRecordSize) CHR ''x'')" "good_path ''q''"
    by (simp_all add: good_path_def maxRecordSize_def del: replicate.simps)
  moreover have "replicate (Suc maxRecordSize) CHR ''x'' \<noteq> ''q''" by simp
  ultimately show ?thesis using record_too_long_desyncs [of _ "''q''" 1 1] by blast
qed

text \<open>
  \<open>Get\<close> sees a new \<open>Record\<close> of a known output without a \<open>Reset\<close>, because the
  table \<open>rDeps\<close> shares its array with \<open>deps\<close>.
\<close>

theorem record_visible_without_reset:
  assumes "dl_alias d" "dl_pathIdx d out = Some i" "dl_rPathIdx d out = Some i"
    and "i < length (dl_rPaths d)" "dl_rPaths d ! i = out" "i < length (dl_rDeps d)" "i < length (dl_deps d)"
    and "i < max_paths" "dl_deps d ! i = Some r" "dr_mtime r \<noteq> m"
  shows "dl_get (snd (dl_record out m [] d)) out = Inr ([], m)"
proof -
  have s: "nat (sint (word_of_nat i :: int32)) = i" "\<not> sint (word_of_nat i :: int32) < 0"
    using sint_small [of i] assms(8) by (simp_all add: max_paths_def)
  have "snd (dl_record out m [] d) = d\<lparr>dl_open := True,
      dl_deps := (dl_deps d)[i := Some \<lparr>dr_mtime = m, dr_inputs = []\<rparr>],
      dl_rDeps := (dl_rDeps d)[i := Some \<lparr>dr_mtime = m, dr_inputs = []\<rparr>],
      dl_file := dl_file d @ deps_record i m []\<rparr>"
    using assms s
    by (simp add: dl_record_def uniquePathIdx_def lookupDepRecord_def update_deps_def recordDeps_def Let_def
        maxRecordSize_def)
  then show ?thesis using assms by (simp add: dl_get_def)
qed

theorem record_visible_without_reset_witness:
  "\<exists>d. dl_get (snd (dl_record ''o'' 3 [] d)) ''o'' = Inr ([], 3)"
proof -
  let ?d = "fresh_log\<lparr>dl_alias := True, dl_paths := [''o''], dl_rPaths := [''o''], dl_pathIdx := [''o'' \<mapsto> 0],
    dl_rPathIdx := [''o'' \<mapsto> 0], dl_deps := [Some \<lparr>dr_mtime = 2, dr_inputs = []\<rparr>],
    dl_rDeps := [Some \<lparr>dr_mtime = 2, dr_inputs = []\<rparr>]\<rparr>"
  have "dl_get (snd (dl_record ''o'' 3 [] ?d)) ''o'' = Inr ([], 3)"
    by (rule record_visible_without_reset [of _ _ 0 "\<lparr>dr_mtime = 2, dr_inputs = []\<rparr>"])
      (simp_all add: max_paths_def)
  then show ?thesis by blast
qed

end
