(* ===== verification/Alloc.thy ===== *)
theory Alloc
  imports Go_Base
begin

text \<open>
  The allocators of the manifest parser (\<open>arena.go\<close> and \<open>slab.go\<close> under
  \<open>toolsupport/ninjautil/\<close>). What the parser relies on is which memory cell a call hands out,
  so a cell is its address: an arena is the address of its first cell, its capacity and the
  next unused index; a slab is the number of its current block, the block size and the next
  index. Address \<open>0\<close> is reserved for the predeclared \<open>phonyRule\<close>.
\<close>

subsection \<open>Arenas\<close>

record arena =
  ar_base :: nat
  ar_cap :: nat
  ar_next :: nat

definition arena_reserve :: "nat \<Rightarrow> nat \<Rightarrow> arena" where
  "arena_reserve base n = \<lparr>ar_base = base, ar_cap = n, ar_next = 0\<rparr>"

definition arena_new :: "arena \<Rightarrow> (nat \<times> arena) res" where
  "arena_new a =
     (if ar_next a < ar_cap a
      then Inr (ar_base a + ar_next a, a\<lparr>ar_next := ar_next a + 1\<rparr>)
      else Inl (Panic ''index out of range''))"

definition arena_chunk :: "nat \<Rightarrow> arena \<Rightarrow> (arena \<times> arena) res" where
  "arena_chunk n a =
     (if ar_next a + n \<le> ar_cap a
      then Inr (\<lparr>ar_base = ar_base a + ar_next a, ar_cap = n, ar_next = 0\<rparr>,
                a\<lparr>ar_next := ar_next a + n\<rparr>)
      else Inl (Panic ''slice bounds out of range''))"

definition arena_slice :: "nat \<Rightarrow> arena \<Rightarrow> (nat list \<times> arena) res" where
  "arena_slice n a =
     (if ar_next a + n \<le> ar_cap a
      then Inr (map (\<lambda>k. ar_base a + ar_next a + k) [0..<n], a\<lparr>ar_next := ar_next a + n\<rparr>)
      else Inl (Panic ''slice bounds out of range''))"

definition arena_len :: "arena \<Rightarrow> nat" where
  "arena_len a = ar_next a"

definition arena_used :: "arena \<Rightarrow> nat list" where
  "arena_used a = map (\<lambda>k. ar_base a + k) [0..<ar_next a]"

definition arena_at :: "arena \<Rightarrow> nat \<Rightarrow> nat res" where
  "arena_at a i = (if i < ar_cap a then Inr (ar_base a + i) else Inl (Panic ''index out of range''))"

text \<open>The cells an arena can hand out from now on.\<close>

definition arena_free :: "arena \<Rightarrow> nat set" where
  "arena_free a = {ar_base a + ar_next a ..< ar_base a + ar_cap a}"

fun arena_chunks :: "nat list \<Rightarrow> arena \<Rightarrow> (arena list \<times> arena) res" where
  "arena_chunks [] a = Inr ([], a)"
| "arena_chunks (n # ns) a =
     rbind (arena_chunk n a) (\<lambda>(c, a1). rbind (arena_chunks ns a1) (\<lambda>(cs, a2). Inr (c # cs, a2)))"

lemma arena_new_free:
  "arena_new a = Inr (p, a') \<Longrightarrow> p \<in> arena_free a \<and> arena_free a' = arena_free a - {p}"
  by (auto simp: arena_new_def arena_free_def split: if_splits)

lemma arena_chunk_free:
  "arena_chunk n a = Inr (c, a') \<Longrightarrow>
   arena_free c \<subseteq> arena_free a \<and> arena_free a' = arena_free a - arena_free c \<and>
   ar_cap c = n \<and> ar_next c = 0 \<and> card (arena_free c) = n"
  by (auto simp: arena_chunk_def arena_free_def split: if_splits)

lemma arena_chunks_ok:
  "ar_next a + sum_list ns \<le> ar_cap a \<Longrightarrow>
   \<exists>cs a'. arena_chunks ns a = Inr (cs, a') \<and> map ar_cap cs = ns \<and> (\<forall>c \<in> set cs. ar_next c = 0) \<and>
     ar_base a' = ar_base a \<and> ar_cap a' = ar_cap a \<and> ar_next a' = ar_next a + sum_list ns"
proof (induction ns arbitrary: a)
  case Nil
  then show ?case by simp
next
  case (Cons n ns)
  let ?a1 = "a\<lparr>ar_next := ar_next a + n\<rparr>"
  have "ar_next ?a1 + sum_list ns \<le> ar_cap ?a1" using Cons.prems by simp
  from Cons.IH [OF this] show ?case using Cons.prems by (auto simp: arena_chunk_def)
qed

lemma arena_chunks_disjoint:
  "arena_chunks ns a = Inr (cs, a') \<Longrightarrow>
   (\<forall>c \<in> set cs. arena_free c \<subseteq> arena_free a) \<and>
   (\<forall>i j. i < j \<longrightarrow> j < length cs \<longrightarrow> arena_free (cs ! i) \<inter> arena_free (cs ! j) = {})"
proof (induction ns arbitrary: a cs)
  case Nil
  then show ?case by simp
next
  case (Cons n ns)
  then obtain c a1 ds where c: "arena_chunk n a = Inr (c, a1)" and ds: "arena_chunks ns a1 = Inr (ds, a')"
    and cs: "cs = c # ds"
    by (auto simp: rbind_eq_Inr)
  note f = arena_chunk_free [OF c] and IH = Cons.IH [OF ds]
  have sub: "arena_free d \<subseteq> arena_free a - arena_free c" if "d \<in> set ds" for d
    using IH f that by blast
  have "arena_free (cs ! i) \<inter> arena_free (cs ! j) = {}" if "i < j" "j < length cs" for i j
  proof (cases i)
    case 0
    then show ?thesis using that sub [of "ds ! (j - 1)"] by (cases j) (auto simp: cs)
  next
    case (Suc k)
    then show ?thesis using that IH by (cases j) (auto simp: cs)
  qed
  moreover have "arena_free d \<subseteq> arena_free a" if "d \<in> set cs" for d
    using that sub f unfolding cs by (cases "d = c") (auto dest: subsetD)
  ultimately show ?case by blast
qed

subsection \<open>Slabs\<close>

text \<open>A cell of a slab is a block number and an index; a slice that does not come from a block is
  \<open>None\<close>: memory of its own.\<close>

record slab =
  sl_block :: nat
  sl_size :: nat
  sl_next :: nat

definition newSlab :: "nat \<Rightarrow> slab" where
  "newSlab n = \<lparr>sl_block = 0, sl_size = n, sl_next = 0\<rparr>"

definition slab_refill :: "slab \<Rightarrow> slab" where
  "slab_refill s =
     (if sl_next s \<ge> sl_size s then s\<lparr>sl_block := sl_block s + 1, sl_next := 0\<rparr> else s)"

definition slab_new :: "slab \<Rightarrow> ((nat \<times> nat) \<times> slab) res" where
  "slab_new s0 =
     (let s = slab_refill s0 in
      if sl_next s < sl_size s
      then Inr ((sl_block s, sl_next s), s\<lparr>sl_next := sl_next s + 1\<rparr>)
      else Inl (Panic ''index out of range''))"

definition slab_unnew :: "slab \<Rightarrow> slab" where
  "slab_unnew s = (if sl_next s = 0 then s else s\<lparr>sl_next := sl_next s - 1\<rparr>)"

definition slab_slice :: "nat \<Rightarrow> slab \<Rightarrow> (nat \<times> nat) list option \<times> slab" where
  "slab_slice n s0 =
     (let s = slab_refill s0 in
      if n \<ge> sl_size s div 2 then (None, s)
      else if sl_next s + n > sl_size s then (None, s)
      else (Some (map (\<lambda>k. (sl_block s, sl_next s + k)) [0..<n]), s\<lparr>sl_next := sl_next s + n\<rparr>))"

text \<open>The cells handed out so far.\<close>

definition slab_taken :: "slab \<Rightarrow> (nat \<times> nat) set" where
  "slab_taken s = {(b, i). b < sl_block s \<and> i < sl_size s \<or> b = sl_block s \<and> i < sl_next s}"

definition slab_ok :: "slab \<Rightarrow> bool" where
  "slab_ok s \<longleftrightarrow> sl_next s \<le> sl_size s \<and> 0 < sl_size s"

lemma slab_refill_ok: "slab_ok s \<Longrightarrow> slab_ok (slab_refill s) \<and> slab_taken (slab_refill s) = slab_taken s"
  by (auto simp: slab_ok_def slab_refill_def slab_taken_def less_Suc_eq)

lemma slab_new_fresh:
  assumes "slab_ok s"
  obtains c s' where "slab_new s = Inr (c, s')" "c \<notin> slab_taken s"
    "slab_taken s' = insert c (slab_taken s)" "slab_ok s'"
proof -
  let ?r = "slab_refill s"
  have ok: "slab_ok ?r" "slab_taken ?r = slab_taken s" using slab_refill_ok [OF assms] by blast+
  have room: "sl_next ?r < sl_size ?r" using assms by (auto simp: slab_refill_def slab_ok_def)
  have new: "slab_new s = Inr ((sl_block ?r, sl_next ?r), ?r\<lparr>sl_next := sl_next ?r + 1\<rparr>)"
    using room by (simp add: slab_new_def Let_def)
  show thesis
  proof (rule that [OF new])
    show "(sl_block ?r, sl_next ?r) \<notin> slab_taken s"
      unfolding ok(2) [symmetric] by (simp add: slab_taken_def)
    show "slab_taken (?r\<lparr>sl_next := sl_next ?r + 1\<rparr>) = insert (sl_block ?r, sl_next ?r) (slab_taken s)"
      unfolding ok(2) [symmetric] by (auto simp: slab_taken_def)
    show "slab_ok (?r\<lparr>sl_next := sl_next ?r + 1\<rparr>)" using room ok(1) by (simp add: slab_ok_def)
  qed
qed

text \<open>\<open>unnew\<close> undoes the last \<open>new\<close>.\<close>

lemma slab_unnew_new: "slab_new s = Inr (c, s') \<Longrightarrow> slab_unnew s' = slab_refill s"
  by (auto simp: slab_new_def slab_unnew_def Let_def split: if_splits)

lemma slab_slice_fresh:
  assumes "slab_ok s" and "slab_slice n s = (Some cs, s')"
  shows "length cs = n \<and> distinct cs \<and> set cs \<inter> slab_taken s = {} \<and>
         slab_taken s' = set cs \<union> slab_taken s \<and> slab_ok s'"
proof -
  define r where "r = slab_refill s"
  have ok: "slab_ok r" and taken: "slab_taken s = slab_taken r"
    using slab_refill_ok [OF assms(1)] by (simp_all add: r_def)
  have cs: "cs = map (\<lambda>k. (sl_block r, sl_next r + k)) [0..<n]" "s' = r\<lparr>sl_next := sl_next r + n\<rparr>"
    "sl_next r + n \<le> sl_size r"
    using assms(2) by (auto simp: slab_slice_def Let_def r_def [symmetric] split: if_splits)
  have set: "set cs = {sl_block r} \<times> {sl_next r ..< sl_next r + n}"
  proof -
    have "(sl_block r, j) \<in> (\<lambda>k. (sl_block r, sl_next r + k)) ` {0..<n}"
      if "sl_next r \<le> j" "j < sl_next r + n" for j
      using that by (intro image_eqI [of _ _ "j - sl_next r"]) auto
    then show ?thesis by (auto simp: cs(1))
  qed
  show ?thesis
    unfolding taken set using ok cs(3)
    by (auto simp: cs(1,2) slab_taken_def slab_ok_def distinct_map inj_on_def)
qed

end
