(* ===== verification/Graph.thy ===== *)
theory Graph
  imports Scope NodeMap Shell Alloc Paths
begin

text \<open>
  Nodes, edges and the evaluation of an edge's bindings (\<open>toolsupport/ninjautil/graph.go\<close>).
  Nodes and edges are referred to by address: a node is a \<open>node_cell\<close> of the node table and its
  mutable fields (\<open>inEdge\<close>, \<open>nouts\<close>, \<open>nvalidations\<close>, \<open>outs\<close>) are tables of the parser state
  indexed by the node's address (theory \<open>State\<close>); an edge is a record with its own address.
\<close>

record pool =
  po_name :: bytes
  po_depth :: int

definition newPool :: "bytes \<Rightarrow> int \<Rightarrow> pool" where
  "newPool name depth = \<lparr>po_name = name, po_depth = depth\<rparr>"

definition defaultPool :: pool where
  "defaultPool = newPool [] 0"

definition consolePool :: pool where
  "consolePool = newPool ''console'' 1"

record edge =
  ed_rule :: rule
  ed_pool :: pool
  ed_pos :: int
  ed_env :: buildScope
  ed_scope :: "fileScope option"
  ed_inputs :: "node_cell list"
  ed_outputs :: "node_cell list"
  ed_validations :: "node_cell list"
  ed_implicitDeps :: nat
  ed_orderOnlyDeps :: nat
  ed_implicitOuts :: nat

text \<open>The counts never exceed the lists they count in; the slice expressions below rely on it.\<close>

definition edge_ok :: "edge \<Rightarrow> bool" where
  "edge_ok e \<longleftrightarrow>
     ed_implicitDeps e + ed_orderOnlyDeps e \<le> length (ed_inputs e) \<and>
     ed_implicitOuts e \<le> length (ed_outputs e)"

subsection \<open>Inputs and outputs\<close>

definition edge_Ins :: "edge \<Rightarrow> node_cell list" where
  "edge_Ins e = take (length (ed_inputs e) - ed_implicitDeps e - ed_orderOnlyDeps e) (ed_inputs e)"

definition edge_TriggerInputs :: "edge \<Rightarrow> node_cell list" where
  "edge_TriggerInputs e = take (length (ed_inputs e) - ed_orderOnlyDeps e) (ed_inputs e)"

definition edge_IsPhony :: "edge \<Rightarrow> bool" where
  "edge_IsPhony e \<longleftrightarrow> r_ptr (ed_rule e) = r_ptr phonyRule"

text \<open>The explicit outputs, for \<open>$out\<close>.\<close>

definition edge_Outs :: "edge \<Rightarrow> node_cell list" where
  "edge_Outs e = take (length (ed_outputs e) - ed_implicitOuts e) (ed_outputs e)"

subsection \<open>edgeEnv\<close>

fun join :: "bytes list \<Rightarrow> bytes \<Rightarrow> bytes" where
  "join [] sep = []"
| "join [s] sep = s"
| "join (s # t # ts) sep = s @ sep @ join (t # ts) sep"

definition env_pathList :: "bool \<Rightarrow> node_cell list \<Rightarrow> bytes \<Rightarrow> bytes" where
  "env_pathList escape paths sep =
     join (map (\<lambda>n. if escape then shellEscape (nc_path n) else nc_path n) paths) sep"

text \<open>The special keys \<open>in\<close>, \<open>in_newline\<close> and \<open>out\<close>.\<close>

definition special_var :: "bool \<Rightarrow> edge \<Rightarrow> bytes \<Rightarrow> bytes option" where
  "special_var escape e key =
     (if key = ''in_newline'' then Some (env_pathList escape (edge_Ins e) [NL])
      else if key = ''in'' then Some (env_pathList escape (edge_Ins e) '' '')
      else if key = ''out'' then Some (env_pathList escape (edge_Outs e) '' '')
      else None)"

definition edgeEnv_lookupVar :: "(bytes \<Rightarrow> 64 word) \<Rightarrow> bool \<Rightarrow> edge \<Rightarrow> evalEnv" where
  "edgeEnv_lookupVar hash escape e pos key =
     (case special_var escape e key of
        Some v \<Rightarrow> Some (mk_es v 0)
      | None \<Rightarrow>
          (case bs_lookupVar (ed_env e) pos key of
             Some ev \<Rightarrow> Some ev
           | None \<Rightarrow>
               (case rule_lookupVar (ed_rule e) (-1) key of
                  Some ev \<Rightarrow> Some (ev\<lparr>es_pos := ed_pos e\<rparr>)
                | None \<Rightarrow>
                    (case ed_scope e of
                       None \<Rightarrow> None
                     | Some s \<Rightarrow> fs_lookupVar hash s (-1) key))))"

text \<open>The value a key is bound to for \<open>Lookup\<close> and \<open>rawBinding\<close>, before evaluation.\<close>

definition edge_binding :: "(bytes \<Rightarrow> 64 word) \<Rightarrow> edge \<Rightarrow> bytes \<Rightarrow> evalString option" where
  "edge_binding hash e key =
     (case bs_lookupVar (ed_env e) (ed_pos e) key of
        Some val \<Rightarrow> Some val
      | None \<Rightarrow>
          (case rule_lookupVar (ed_rule e) (-1) key of
             Some val \<Rightarrow> Some (val\<lparr>es_pos := ed_pos e\<rparr>)
           | None \<Rightarrow>
               (case ed_scope e of
                  None \<Rightarrow> None
                | Some s \<Rightarrow> fs_lookupVar hash s (ed_pos e) key)))"

definition edgeEnv_Lookup :: "(bytes \<Rightarrow> 64 word) \<Rightarrow> bool \<Rightarrow> edge \<Rightarrow> bytes \<Rightarrow> bytes" where
  "edgeEnv_Lookup hash escape e key =
     (case edge_binding hash e key of
        None \<Rightarrow> []
      | Some val \<Rightarrow>
          (case evaluate (Some (edgeEnv_lookupVar hash escape e)) val of Inl err \<Rightarrow> [] | Inr s \<Rightarrow> s))"

definition edge_Binding :: "(bytes \<Rightarrow> 64 word) \<Rightarrow> edge \<Rightarrow> bytes \<Rightarrow> bytes" where
  "edge_Binding hash e name = edgeEnv_Lookup hash True e name"

definition edge_BindingBool :: "(bytes \<Rightarrow> 64 word) \<Rightarrow> edge \<Rightarrow> bytes \<Rightarrow> bool" where
  "edge_BindingBool hash e name \<longleftrightarrow> edge_Binding hash e name \<noteq> []"

definition edge_UnescapedBinding :: "(bytes \<Rightarrow> 64 word) \<Rightarrow> edge \<Rightarrow> bytes \<Rightarrow> bytes" where
  "edge_UnescapedBinding hash e name = edgeEnv_Lookup hash False e name"

definition edge_rawBinding :: "(bytes \<Rightarrow> 64 word) \<Rightarrow> edge \<Rightarrow> bytes \<Rightarrow> bytes option" where
  "edge_rawBinding hash e name = map_option es_v (edge_binding hash e name)"

definition edge_RawBinding :: "(bytes \<Rightarrow> 64 word) \<Rightarrow> edge \<Rightarrow> bytes \<Rightarrow> bytes" where
  "edge_RawBinding hash e name =
     (case special_var True e name of
        Some v \<Rightarrow> v
      | None \<Rightarrow> (case edge_rawBinding hash e name of Some val \<Rightarrow> val | None \<Rightarrow> []))"

subsection \<open>Escaping of tokens\<close>

text \<open>Invalid UTF-8 becomes U+FFFD in a token that needs escaping, as \<open>range\<close> decodes runes.\<close>

definition escapeNinjaToken :: "bytes \<Rightarrow> bytes" where
  "escapeNinjaToken s =
     (if set s \<inter> set '' $:'' \<noteq> {}
      then concat (map (\<lambda>ch. if ch \<in> {'' '', ''$'', '':''} then CHR ''$'' # ch else ch) (runes s))
      else s)"

lemma escape_ascii: "ascii s \<Longrightarrow> escapeNinjaToken s = dollar_escape s"
proof -
  assume a: "ascii s"
  have eq: "concat (map (\<lambda>ch. if ch \<in> {'' '', ''$'', '':''} then CHR ''$'' # ch else ch) (map (\<lambda>c. [c]) s)) =
      dollar_escape s" for s
    by (induction s) auto
  have "runes s = map (\<lambda>c. [c]) s" using runes_ascii [OF a] by (simp add: runes_def)
  then show ?thesis using eq [of s] dollar_escape_id [of s] by (simp add: escapeNinjaToken_def)
qed

text \<open>A printed token at the front of the rest of a line: \<open>path\<close> reads it whole.\<close>

lemma pp_path_token:
  assumes "path_safe s" and "s \<noteq> []" and "hd s \<noteq> CHR '' ''"
    and "B = [] \<or> hd B \<in> {CHR '' '', CHR '':'', CHR ''|'', TAB, CR, NL}"
  shows "pp_path \<lparr>pp_buf = A @ dollar_escape s @ B, pp_pos = length A\<rparr> =
    Inr (\<lparr>pp_buf = A @ dollar_escape s @ B, pp_pos = length A + length (dollar_escape s)\<rparr>,
         mk_es (dollar_escape s) (dollar_count s))"
proof -
  have ne: "dollar_escape s \<noteq> []" using assms(2) by (cases s) auto
  have skip: "pp_skip \<lparr>pp_buf = A @ dollar_escape s @ B, pp_pos = length A\<rparr> =
      \<lparr>pp_buf = A @ dollar_escape s @ B, pp_pos = length A\<rparr>"
    using skip_at_token [OF assms(1-3), of A B] by (simp add: pp_skip_def)
  have "path_loop (dollar_escape s @ B) 0 0 = Inr (length (dollar_escape s), dollar_count s)"
    using path_loop_token [OF assms(1,4), of "[]" 0] by simp
  then show ?thesis unfolding pp_path_def Let_def skip using ne by simp
qed

lemma evaluate_token: "evaluate env (mk_es (dollar_escape s) (dollar_count s)) = Inr s"
  by (rule evaluate_dollar_escape) (use dollar_count_zero in \<open>auto simp del: set_simps\<close>)

subsection \<open>Bindings\<close>

lemma edge_Ins_prefix:
  assumes "edge_ok e"
  shows "ed_inputs e = edge_Ins e @ drop (length (edge_Ins e)) (ed_inputs e)"
    and "length (edge_Ins e) + ed_implicitDeps e + ed_orderOnlyDeps e = length (ed_inputs e)"
    and "edge_TriggerInputs e = edge_Ins e @ take (ed_implicitDeps e) (drop (length (edge_Ins e)) (ed_inputs e))"
proof -
  let ?n = "length (ed_inputs e) - ed_implicitDeps e - ed_orderOnlyDeps e"
  have len: "length (edge_Ins e) = ?n" by (simp add: edge_Ins_def)
  show "ed_inputs e = edge_Ins e @ drop (length (edge_Ins e)) (ed_inputs e)"
    by (simp only: len) (simp add: edge_Ins_def)
  show "length (edge_Ins e) + ed_implicitDeps e + ed_orderOnlyDeps e = length (ed_inputs e)"
    using assms by (simp add: len edge_ok_def)
  have "length (ed_inputs e) - ed_orderOnlyDeps e = ?n + ed_implicitDeps e"
    using assms by (simp add: edge_ok_def)
  then show "edge_TriggerInputs e = edge_Ins e @ take (ed_implicitDeps e) (drop (length (edge_Ins e)) (ed_inputs e))"
    unfolding edge_TriggerInputs_def len edge_Ins_def by (simp add: take_add)
qed

end
