(* ===== verification/State.thy ===== *)
theory State
  imports Graph
begin

text \<open>
  The parser state (\<open>toolsupport/ninjautil/state.go\<close>, \<open>mergeFileState\<close> and the per-file state
  of \<open>file_parser.go\<close>). Edges live in the table \<open>gs_edgeAt\<close> indexed by address, the mutable
  fields of a node in tables indexed by the node's address. \<open>gs_heap\<close> is the next unused address;
  \<open>0\<close> is the address of \<open>phonyRule\<close>.
\<close>

record state =
  gs_pools :: "bytes \<Rightarrow> pool option"
  gs_nodeMap :: nodeMap
  gs_nodes :: "node_cell option list"
  gs_scope :: fileScope
  gs_edges :: "nat list"
  gs_defaults :: "node_cell list"
  gs_filenames :: "bytes list"
  gs_heap :: nat
  gs_edgeAt :: "nat \<Rightarrow> edge option"
  gs_inEdge :: "nat \<Rightarrow> nat option"
  gs_nouts :: "nat \<Rightarrow> nat"
  gs_nvalidations :: "nat \<Rightarrow> nat"
  gs_outs :: "nat \<Rightarrow> nat list"

definition newState :: state where
  "newState =
     \<lparr>gs_pools = [[] \<mapsto> defaultPool, ''console'' \<mapsto> consolePool], gs_nodeMap = newNodeMap, gs_nodes = [],
      gs_scope = newFileScope None, gs_edges = [], gs_defaults = [], gs_filenames = [], gs_heap = 1,
      gs_edgeAt = (\<lambda>_. None), gs_inEdge = (\<lambda>_. None), gs_nouts = (\<lambda>_. 0),
      gs_nvalidations = (\<lambda>_. 0), gs_outs = (\<lambda>_. [])\<rparr>"

subsection \<open>Pools and bindings\<close>

definition addPool :: "pool \<Rightarrow> state \<Rightarrow> state" where
  "addPool p s = s\<lparr>gs_pools := (gs_pools s)(po_name p \<mapsto> p)\<rparr>"

definition lookupPool :: "state \<Rightarrow> bytes \<Rightarrow> pool option" where
  "lookupPool s poolName = gs_pools s poolName"

definition addBinding :: "(bytes \<Rightarrow> 64 word) \<Rightarrow> bytes \<Rightarrow> bytes \<Rightarrow> state \<Rightarrow> state" where
  "addBinding hash name value s = s\<lparr>gs_scope := fs_setVar hash name (mk_es value 0) (gs_scope s)\<rparr>"

subsection \<open>Nodes\<close>

definition setInEdge :: "node_cell \<Rightarrow> nat \<Rightarrow> state \<Rightarrow> (state \<times> bool)" where
  "setInEdge n e s =
     (if gs_inEdge s (nc_ptr n) = None
      then (s\<lparr>gs_inEdge := (gs_inEdge s)(nc_ptr n \<mapsto> e)\<rparr>, True)
      else (s, False))"

definition numNodes :: "state \<Rightarrow> nat" where
  "numNodes s = length (gs_nodes s)"

definition state_LookupNode :: "state \<Rightarrow> int \<Rightarrow> node_cell option" where
  "state_LookupNode s i =
     (if i \<le> 0 \<or> i \<ge> int (length (gs_nodes s)) then None else gs_nodes s ! nat i)"

definition lookupNodeByPath :: "(bytes \<Rightarrow> 64 word) \<Rightarrow> state \<Rightarrow> bytes \<Rightarrow> node_cell option" where
  "lookupNodeByPath hash s path = nm_lookup hash (gs_nodeMap s) path"

definition allNodes :: "state \<Rightarrow> node_cell list" where
  "allNodes s = map the (filter (\<lambda>n. n \<noteq> None) (gs_nodes s))"

text \<open>The edge objects of \<open>s.edges\<close>.\<close>

definition state_edges :: "state \<Rightarrow> edge list" where
  "state_edges s = map (\<lambda>p. the (gs_edgeAt s p)) (gs_edges s)"

definition rootNodes :: "state \<Rightarrow> node_cell list res" where
  "rootNodes s =
     (let roots = concat (map (\<lambda>e. filter (\<lambda>out. gs_outs s (nc_ptr out) = []) (ed_outputs e)) (state_edges s)) in
      if gs_edges s \<noteq> [] \<and> roots = []
      then Inl (Err ''could not determine root nodes of build graph'') else Inr roots)"

definition defaultNodes :: "state \<Rightarrow> node_cell list res" where
  "defaultNodes s = (if gs_defaults s \<noteq> [] then Inr (gs_defaults s) else rootNodes s)"

definition phonyNodes :: "state \<Rightarrow> node_cell list" where
  "phonyNodes s = concat (map ed_outputs (filter edge_IsPhony (state_edges s)))"

subsection \<open>Per-file state\<close>

record fileState =
  fst_edges :: "nat list"
  fst_defaults :: "node_cell list"
  fst_filenames :: "bytes list"
  fst_subninjas :: "bytes list"

definition newFileState :: fileState where
  "newFileState = \<lparr>fst_edges = [], fst_defaults = [], fst_filenames = [], fst_subninjas = []\<rparr>"

definition addDefaults :: "node_cell list \<Rightarrow> fileState \<Rightarrow> fileState" where
  "addDefaults nodes f = f\<lparr>fst_defaults := fst_defaults f @ nodes\<rparr>"

definition addSubninja :: "bytes \<Rightarrow> fileState \<Rightarrow> fileState" where
  "addSubninja fname f = f\<lparr>fst_subninjas := fst_subninjas f @ [fname]\<rparr>"

definition mergeFileState :: "fileState \<Rightarrow> state \<Rightarrow> state" where
  "mergeFileState f s = s\<lparr>gs_edges := gs_edges s @ fst_edges f,
     gs_defaults := gs_defaults s @ fst_defaults f, gs_filenames := gs_filenames s @ fst_filenames f\<rparr>"

text \<open>A scope without a binding store ignores assignments, and the top-level scope of
  \<open>NewState\<close> has none.\<close>

lemma addBinding_newState: "addBinding hash name value newState = newState"
  by (simp add: addBinding_def newState_def newFileScope_def fs_setVar_def sb_set_def)

end
