(* ===== verification/Chunk.thy ===== *)
theory Chunk
  imports State
begin

text \<open>
  The chunk parser (\<open>toolsupport/ninjautil/chunk_parser.go\<close>): splitting a manifest into chunks,
  parsing a chunk into statements, and interpreting the statements. \<open>parseChunk\<close> may run forever
  (a comment that ends the file without a newline), so its loop is a partial function whose value
  is \<open>None\<close> where it does not return; \<open>parseLine\<close> is one round of it. Error values carry the text
  of the source's message without its line number and quoted arguments.
\<close>

record chunk =
  ch_buf :: bytes
  ch_start :: nat
  ch_end :: nat
  ch_statements :: "statement list"
  ch_ruleArena :: arena
  ch_edgeArena :: arena
  ch_poolArena :: arena
  ch_bindingArena :: arena
  ch_edgePathSlab :: slab
  ch_nvar :: nat
  ch_nrule :: nat
  ch_nrulevar :: nat
  ch_nbuild :: nat
  ch_nbuildvar :: nat
  ch_npool :: nat
  ch_npoolvar :: nat
  ch_ndefault :: nat
  ch_ninclude :: nat
  ch_nsubninja :: nat
  ch_ncomment :: nat

definition noArena :: arena where
  "noArena = arena_reserve 0 0"

definition newChunk :: "bytes \<Rightarrow> nat \<Rightarrow> nat \<Rightarrow> chunk" where
  "newChunk buf s e =
     \<lparr>ch_buf = buf, ch_start = s, ch_end = e, ch_statements = [], ch_ruleArena = noArena,
      ch_edgeArena = noArena, ch_poolArena = noArena, ch_bindingArena = noArena,
      ch_edgePathSlab = newSlab 0, ch_nvar = 0, ch_nrule = 0, ch_nrulevar = 0, ch_nbuild = 0,
      ch_nbuildvar = 0, ch_npool = 0, ch_npoolvar = 0, ch_ndefault = 0, ch_ninclude = 0,
      ch_nsubninja = 0, ch_ncomment = 0\<rparr>"

subsection \<open>splitIntoChunks\<close>

function nextChunk :: "bytes \<Rightarrow> nat \<Rightarrow> nat" where
  "nextChunk buf i =
     (case index_byte (drop i buf) NL of
        None \<Rightarrow> length buf
      | Some n \<Rightarrow>
          let j = i + n + 1 in
          if j \<ge> 2 \<and> buf ! (j - 2) = CHR ''$'' then nextChunk buf j
          else if j \<ge> 3 \<and> buf ! (j - 3) = CHR ''$'' \<and> buf ! (j - 2) = CR then nextChunk buf j
          else if j \<ge> length buf then length buf
          else if buf ! j \<in> {CHR '' '', TAB, CHR ''#'', CR, NL} then nextChunk buf j
          else j)"
  by pat_completeness auto
termination
  by (relation "measure (\<lambda>(buf, i). length buf - i)") (auto dest!: index_byte_lt)

declare nextChunk.simps [simp del]

text \<open>The loop either goes on behind the next newline, or stops there, or at the end of the file.\<close>

lemma nextChunk_cases:
  obtains "nextChunk buf i = length buf"
  | j where "i < j" "j \<le> length buf" "nextChunk buf i = nextChunk buf j"
  | n where "index_byte (drop i buf) NL = Some n" "i + n + 1 < length buf" "nextChunk buf i = i + n + 1"
      "\<not> (i + n \<ge> 1 \<and> buf ! (i + n - 1) = CHR ''$'')"
      "\<not> (i + n \<ge> 2 \<and> buf ! (i + n - 2) = CHR ''$'' \<and> buf ! (i + n - 1) = CR)"
      "buf ! (i + n + 1) \<notin> {CHR '' '', TAB, CHR ''#'', CR, NL}"
proof (cases "index_byte (drop i buf) NL")
  case None
  then show thesis by (intro that(1)) (simp add: nextChunk.simps [of buf i])
next
  case (Some n)
  define j where "j = i + n + 1"
  have j: "i < j" "j \<le> length buf" using index_byte_drop_lt [OF Some] by (auto simp: j_def)
  have ix: "j - 2 = i + n - 1" "j - 3 = i + n - 2" "j \<ge> 2 \<longleftrightarrow> i + n \<ge> 1" "j \<ge> 3 \<longleftrightarrow> i + n \<ge> 2"
    by (auto simp: j_def)
  have eq: "nextChunk buf i =
      (if i + n \<ge> 1 \<and> buf ! (i + n - 1) = CHR ''$'' then nextChunk buf j
       else if i + n \<ge> 2 \<and> buf ! (i + n - 2) = CHR ''$'' \<and> buf ! (i + n - 1) = CR then nextChunk buf j
       else if j \<ge> length buf then length buf
       else if buf ! j \<in> {CHR '' '', TAB, CHR ''#'', CR, NL} then nextChunk buf j
       else j)"
    unfolding nextChunk.simps [of buf i] Some option.case Let_def j_def [symmetric] ix ..
  show thesis
  proof (cases "nextChunk buf i = length buf \<or> nextChunk buf i = nextChunk buf j")
    case True
    then show thesis using that(1) that(2) [OF j] by blast
  next
    case False
    then show thesis using j by (intro that(3) [OF Some]) (auto simp: eq j_def split: if_splits)
  qed
qed

lemma nextChunk_bounds: "i \<le> length buf \<Longrightarrow> i \<le> nextChunk buf i \<and> nextChunk buf i \<le> length buf"
proof (induction "length buf - i" arbitrary: i rule: less_induct)
  case less
  show ?case
  proof (cases rule: nextChunk_cases [of buf i])
    case (2 j)
    then have "length buf - j < length buf - i" by linarith
    from less.hyps [OF this 2(2)] 2 show ?thesis by linarith
  qed (use less.prems in auto)
qed

function split_loop_from :: "bytes \<Rightarrow> nat \<Rightarrow> nat \<Rightarrow> chunk list" where
  "split_loop_from buf chunkSize start =
     (if start < length buf \<and> 0 < chunkSize then
        let to = min (start + chunkSize) (length buf);
            to' = (if to < length buf then nextChunk buf to else to) in
        newChunk buf start to' # split_loop_from buf chunkSize to'
      else [])"
  by pat_completeness auto
termination
proof (relation "measure (\<lambda>(buf, k, s). length buf - s)", goal_cases)
  case (2 buf chunkSize start to to')
  then show ?case using nextChunk_bounds [of to buf] by (auto split: if_splits)
qed simp

declare split_loop_from.simps [simp del]

text \<open>\<open>ncpu\<close> is \<open>runtime.NumCPU()\<close>, which is positive; the chunk size is at least one megabyte.\<close>

definition splitIntoChunks :: "nat \<Rightarrow> bytes \<Rightarrow> chunk list" where
  "splitIntoChunks ncpu buf = split_loop_from buf (max (1024 * 1024) (length buf div ncpu + 1)) 0"

text \<open>A file shorter than a megabyte is one chunk; the equation also spares evaluation the large
  number.\<close>

lemma splitIntoChunks_short [code]:
  "splitIntoChunks ncpu buf =
     (if buf \<noteq> [] \<and> length buf < 1000 then [newChunk buf 0 (length buf)]
      else split_loop_from buf (max (1024 * 1024) (length buf div ncpu + 1)) 0)"
proof (cases "buf \<noteq> [] \<and> length buf < 1000")
  case True
  define k where "k = max (1024 * 1024) (length buf div ncpu + 1)"
  have "length buf \<le> k" "0 < k" using True by (auto simp: k_def)
  then show ?thesis
    using True unfolding splitIntoChunks_def k_def [symmetric]
    by (simp add: split_loop_from.simps [of _ _ 0] split_loop_from.simps [of _ _ "length buf"] Let_def)
qed (auto simp: splitIntoChunks_def)

subsection \<open>parseChunk\<close>

definition add_statement :: "statementType \<Rightarrow> nat \<Rightarrow> nat \<Rightarrow> nat \<Rightarrow> chunk \<Rightarrow> chunk" where
  "add_statement t s v e ch =
     ch\<lparr>ch_statements := ch_statements ch @ [\<lparr>st_pos = 0, st_t = t, st_s = s, st_v = v, st_e = e\<rparr>]\<rparr>"

text \<open>The keyword a first byte selects, its statement type, and the counter of such statements.\<close>

definition keyword_of :: "char \<Rightarrow> (bytes \<times> statementType) option" where
  "keyword_of c =
     (if c = CHR ''b'' then Some (''build'', statementBuild)
      else if c = CHR ''d'' then Some (''default'', statementDefault)
      else if c = CHR ''i'' then Some (''include'', statementInclude)
      else if c = CHR ''p'' then Some (''pool'', statementPool)
      else if c = CHR ''r'' then Some (''rule'', statementRule)
      else if c = CHR ''s'' then Some (''subninja'', statementSubninja)
      else None)"

fun count_statement :: "statementType \<Rightarrow> chunk \<Rightarrow> chunk" where
  "count_statement statementBuild ch = ch\<lparr>ch_nbuild := ch_nbuild ch + 1\<rparr>"
| "count_statement statementDefault ch = ch\<lparr>ch_ndefault := ch_ndefault ch + 1\<rparr>"
| "count_statement statementInclude ch = ch\<lparr>ch_ninclude := ch_ninclude ch + 1\<rparr>"
| "count_statement statementPool ch = ch\<lparr>ch_npool := ch_npool ch + 1\<rparr>"
| "count_statement statementRule ch = ch\<lparr>ch_nrule := ch_nrule ch + 1\<rparr>"
| "count_statement statementSubninja ch = ch\<lparr>ch_nsubninja := ch_nsubninja ch + 1\<rparr>"
| "count_statement statementBuildVar ch = ch\<lparr>ch_nbuildvar := ch_nbuildvar ch + 1\<rparr>"
| "count_statement statementPoolVar ch = ch\<lparr>ch_npoolvar := ch_npoolvar ch + 1\<rparr>"
| "count_statement statementRuleVar ch = ch\<lparr>ch_nrulevar := ch_nrulevar ch + 1\<rparr>"
| "count_statement statementVarDecl ch = ch\<lparr>ch_nvar := ch_nvar ch + 1\<rparr>"
| "count_statement statementNone ch = ch"

text \<open>The type of an indented binding after a statement.\<close>

definition indent_type :: "statementType \<Rightarrow> statementType option" where
  "indent_type lastStatement =
     (if lastStatement = statementBuild then Some statementBuildVar
      else if lastStatement = statementPool then Some statementPoolVar
      else if lastStatement = statementRule then Some statementRuleVar
      else None)"

type_synonym parse_pos = "nat \<times> statementType \<times> chunk"

definition parseIndent :: "nat \<Rightarrow> statementType \<Rightarrow> chunk \<Rightarrow> parse_pos res" where
  "parseIndent i lastStatement ch =
     (let buf = ch_buf ch; e = findNextLine buf i in
      case indent_type lastStatement of
        None \<Rightarrow> Inl (Err ''unexpected indent'')
      | Some st \<Rightarrow>
          let ch1 = count_statement st ch in
          (case index_byte (sub buf i e) CHR ''='' of
             None \<Rightarrow>
               let j = skipSpaces (sub buf i e) 0 whitespaceChar in
               if j = length (sub buf i e) \<or> buf ! (i + j) = CHR ''#'' then Inr (e, lastStatement, ch1)
               else Inl (Err ''wrong var binding?'')
           | Some v \<Rightarrow>
               let ch2 = add_statement st i (i + v) e ch1 in
               Inr (e, lastStatement, ch2\<lparr>ch_nvar := ch_nvar ch2 + 1\<rparr>)))"

text \<open>A variable declaration; the \<open>=\<close> is searched for in the whole rest of the file.\<close>

definition parseVarDecl :: "nat \<Rightarrow> chunk \<Rightarrow> parse_pos res" where
  "parseVarDecl i ch =
     (let buf = ch_buf ch; e = findNextLine buf i in
      case index_byte (drop i buf) CHR ''='' of
        None \<Rightarrow> Inl (Err ''wrong var decl?'')
      | Some v \<Rightarrow> Inr (e, statementVarDecl, count_statement statementVarDecl (add_statement statementVarDecl i (i + v) e ch)))"

text \<open>One round of the loop at \<open>i\<close>. A comment is skipped to its newline; without one, the index
  \<open>-1\<close> brings the loop back to \<open>i\<close>.\<close>

definition parseLine :: "nat \<Rightarrow> statementType \<Rightarrow> chunk \<Rightarrow> parse_pos res" where
  "parseLine i lastStatement ch =
     (let buf = ch_buf ch; c = buf ! i in
      if c \<in> {NL, CR} then Inr (i + 1, lastStatement, ch)
      else if c = CHR ''#'' then
        Inr (case index_byte (drop (i + 1) buf) NL of None \<Rightarrow> i | Some j \<Rightarrow> i + j + 1,
             lastStatement, ch\<lparr>ch_ncomment := ch_ncomment ch + 1\<rparr>)
      else if c \<in> {CHR '' '', TAB} then parseIndent i lastStatement ch
      else
        case keyword_of c of
          None \<Rightarrow> parseVarDecl i ch
        | Some (name, t) \<Rightarrow>
            rbind (isStatement buf i name)
              (\<lambda>ok. case ok of
                  None \<Rightarrow> parseVarDecl i ch
                | Some v \<Rightarrow>
                    let e = findNextLine buf i in
                    Inr (e, t, count_statement t (add_statement t i v e ch))))"

partial_function (option) parseChunk_loop :: "nat \<Rightarrow> statementType \<Rightarrow> chunk \<Rightarrow> chunk res option" where
  "parseChunk_loop i lastStatement ch =
     (if i < length (ch_buf ch) \<and> i < ch_end ch then
        (case parseLine i lastStatement ch of
           Inl err \<Rightarrow> Some (Inl err)
         | Inr (i', lastStatement', ch') \<Rightarrow> parseChunk_loop i' lastStatement' ch')
      else Some (Inr ch))"

declare parseChunk_loop.simps [code]

definition parseChunk :: "chunk \<Rightarrow> chunk res option" where
  "parseChunk ch = parseChunk_loop (ch_start ch) statementNone (ch\<lparr>ch_statements := []\<rparr>)"

text \<open>
  \<open>fileParser.parseChunks\<close> parses the chunks concurrently in an error group; they share nothing but the
  buffer. All of them run to their end, also after one has failed: if one does not return, \<open>Wait\<close> gives
  no result (\<open>None\<close>, which also stands for a panic of another chunk meanwhile), and a panic of one
  prevails over the errors. When several of them fail, the group reports the error of the one that
  failed first in time; here it is the first one in the file (\<open>group_result\<close> of \<open>Chunk_Split\<close> has all
  possible reports).
\<close>

fun group_join :: "'a res \<Rightarrow> 'a list res \<Rightarrow> 'a list res" where
  "group_join (Inr x) (Inr xs) = Inr (x # xs)"
| "group_join (Inr x) (Inl e) = Inl e"
| "group_join (Inl e) (Inl (Panic m)) = Inl (Panic m)"
| "group_join (Inl e) rs = Inl e"

fun parseChunks :: "chunk list \<Rightarrow> chunk list res option" where
  "parseChunks [] = Some (Inr [])"
| "parseChunks (c # cs) =
     (case parseChunk c of
        None \<Rightarrow> None
      | Some r \<Rightarrow> map_option (group_join r) (parseChunks cs))"

lemma group_join_Inr: "group_join r rs = Inr xs \<longleftrightarrow> (\<exists>x ys. r = Inr x \<and> rs = Inr ys \<and> xs = x # ys)"
  by (cases "(r, rs)" rule: group_join.cases) auto

end
