(* ===== verification/Chunk_Build.thy ===== *)
theory Chunk_Build
  imports Chunk
begin

text \<open>
  The interpretation of a chunk's statements (second half of \<open>chunk_parser.go\<close>):
  \<open>setupInChunk\<close> declares variables, pools and rules in the file scope and reads includes,
  \<open>buildGraphInChunk\<close> adds the edges, defaults and subninjas. The graph operations change the
  parser state of theory \<open>State\<close>; a scope is a value that is passed on, which is what the code's
  pointer amounts to, as the bindings of a rule are complete before any build statement is
  interpreted.
\<close>

subsection \<open>Helpers\<close>

definition skipStatement :: "chunk \<Rightarrow> nat \<Rightarrow> statementType \<Rightarrow> nat" where
  "skipStatement ch i t = i + length (takeWhile (\<lambda>st. st_t st = t) (drop i (ch_statements ch)))"

definition countStatement :: "chunk \<Rightarrow> nat \<Rightarrow> statementType \<Rightarrow> nat" where
  "countStatement ch i t = length (takeWhile (\<lambda>st. st_t st = t) (drop i (ch_statements ch)))"

definition parseName :: "chunk \<Rightarrow> nat \<Rightarrow> nat \<Rightarrow> bytes res" where
  "parseName ch s e =
     rbind (go_slice (ch_buf ch) s e)
       (\<lambda>b. let name = trim_space b in if name = [] then Inl (Err ''missing name'') else Inr name)"

text \<open>\<open>strconv.Atoi\<close> for 64-bit integers.\<close>

fun digits_val :: "int \<Rightarrow> bytes \<Rightarrow> int option" where
  "digits_val acc [] = Some acc"
| "digits_val acc (c # cs) =
     (if of_char c \<ge> (48 :: nat) \<and> of_char c \<le> (57 :: nat)
      then digits_val (10 * acc + (of_char c - 48)) cs else None)"

definition go_atoi :: "bytes \<Rightarrow> int option" where
  "go_atoi s =
     (let neg = (s \<noteq> [] \<and> hd s = CHR ''-'');
          ds = (if s \<noteq> [] \<and> hd s \<in> {CHR ''-'', CHR ''+''} then tl s else s) in
      if ds = [] then None
      else case digits_val 0 ds of
        None \<Rightarrow> None
      | Some n \<Rightarrow>
          let m = (if neg then - n else n) in
          if - (2 ^ 63) \<le> m \<and> m < 2 ^ 63 then Some m else None)"

text \<open>\<open>parseVarBinding\<close> up to the \<open>setVar\<close> of its environment: the name and the value.\<close>

definition parseVarBinding :: "chunk \<Rightarrow> nat \<Rightarrow> (bytes \<times> evalString) res" where
  "parseVarBinding ch i =
     rbind (go_index (ch_statements ch) i) (\<lambda>st.
     rbind (parseName ch (st_s st) (st_v st)) (\<lambda>name.
     rbind (go_slice (ch_buf ch) (st_v st + 1) (st_e st)) (\<lambda>b.
     rbind (parseEvalString b) (\<lambda>val. Inr (name, val\<lparr>es_pos := st_pos st\<rparr>)))))"

subsection \<open>Pools and rules\<close>

definition parsePool :: "(bytes \<Rightarrow> 64 word) \<Rightarrow> chunk \<Rightarrow> nat \<Rightarrow> fileScope \<Rightarrow> state \<Rightarrow> (nat \<times> state) res" where
  "parsePool hash ch i scope s =
     rbind (go_index (ch_statements ch) i) (\<lambda>st.
     rbind (parseName ch (st_v st) (st_e st)) (\<lambda>name.
     let n = countStatement ch (i + 1) statementPoolVar;
         poolScope = bs_set (ch_buf ch) (take n (drop (i + 1) (ch_statements ch))) \<lparr>bs_buf = [], bs_statements = []\<rparr>;
         i' = i + 1 + n in
     rbind (go_index (ch_statements ch) i') (\<lambda>nst.
     case bs_lookupVar poolScope (st_pos nst) ''depth'' of
       None \<Rightarrow> Inl (Err ''expect depth= line'')
     | Some v \<Rightarrow>
         rbind (evaluate (Some (fs_lookupVar hash scope)) v) (\<lambda>value.
         case go_atoi value of
           None \<Rightarrow> Inl (Err ''invalid pool depth'')
         | Some depth \<Rightarrow>
             if depth < 0 then Inl (Err ''invalid pool depth'')
             else Inr (i', addPool (newPool name depth) s)))))"

function parseRuleBindings :: "chunk \<Rightarrow> nat \<Rightarrow> rule \<Rightarrow> (nat \<times> rule) res" where
  "parseRuleBindings ch i r =
     (if i < length (ch_statements ch) \<and> st_t (ch_statements ch ! i) = statementRuleVar then
        (case parseVarBinding ch i of
           Inl e \<Rightarrow> Inl e
         | Inr (name, val) \<Rightarrow> parseRuleBindings ch (i + 1) (rule_setVar name val r))
      else Inr (i, r))"
  by pat_completeness auto
termination
  by (relation "measure (\<lambda>(ch, i, r). length (ch_statements ch) - i)") auto

declare parseRuleBindings.simps [simp del]

text \<open>
  The rule object is entered into the scope first and gets its bindings afterwards; entering a
  copy without bindings reports the same duplicate, and the completed rule takes its place.
\<close>

definition parseRule ::
    "(bytes \<Rightarrow> 64 word) \<Rightarrow> chunk \<Rightarrow> nat \<Rightarrow> fileScope \<Rightarrow> nat \<Rightarrow> (nat \<times> fileScope \<times> chunk) res" where
  "parseRule hash ch i scope ptr =
     rbind (go_index (ch_statements ch) i) (\<lambda>st.
     rbind (parseName ch (st_v st) (st_e st)) (\<lambda>name.
     let r = \<lparr>r_ptr = ptr, r_name = name, r_bindings = []\<rparr> in
     rbind (fs_setRule hash r scope) (\<lambda>_.
     rbind (arena_slice (countStatement ch (i + 1) statementRuleVar) (ch_bindingArena ch)) (\<lambda>(_, ba).
     rbind (parseRuleBindings ch (i + 1) r) (\<lambda>(i', r').
     rbind (fs_setRule hash r' scope) (\<lambda>scope'.
     Inr (i', scope', ch\<lparr>ch_bindingArena := ba\<rparr>)))))))"

subsection \<open>Paths\<close>

definition targetPath :: "evalEnv \<Rightarrow> evalString \<Rightarrow> bytes res" where
  "targetPath env target = rbind (evaluate (Some env) target) (\<lambda>t. Inr (trim_prefix t ''./''))"

definition targetNode ::
    "(bytes \<Rightarrow> 64 word) \<Rightarrow> evalEnv \<Rightarrow> evalString \<Rightarrow> state \<Rightarrow> (node_cell \<times> state) res" where
  "targetNode hash env target s =
     rbind (targetPath env target) (\<lambda>t.
       let (n, nm) = nm_node hash t (gs_nodeMap s) in Inr (n, s\<lparr>gs_nodeMap := nm\<rparr>))"

text \<open>The paths of the line of \<open>statements[i]\<close>, for default, include and subninja.\<close>

definition statement_paths :: "chunk \<Rightarrow> nat \<Rightarrow> evalString list res" where
  "statement_paths ch i =
     rbind (go_index (ch_statements ch) i) (\<lambda>st.
     rbind (go_slice (ch_buf ch) (st_v st) (st_e st)) (\<lambda>line.
     rbind (pp_pathList (newPathParser line) [] 0) (\<lambda>(_, paths, _). Inr paths)))"

fun default_nodes ::
    "(bytes \<Rightarrow> 64 word) \<Rightarrow> evalEnv \<Rightarrow> evalString list \<Rightarrow> state \<Rightarrow> (node_cell list \<times> state) res" where
  "default_nodes hash env [] s = Inr ([], s)"
| "default_nodes hash env (p # ps) s =
     rbind (targetNode hash env p s) (\<lambda>(n, s1).
     rbind (default_nodes hash env ps s1) (\<lambda>(ns, s2). Inr (n # ns, s2)))"

definition parseDefault ::
    "(bytes \<Rightarrow> 64 word) \<Rightarrow> chunk \<Rightarrow> nat \<Rightarrow> fileScope \<Rightarrow> state \<Rightarrow> (node_cell list \<times> state) res" where
  "parseDefault hash ch i scope s =
     rbind (statement_paths ch i) (\<lambda>paths. default_nodes hash (fs_lookupVar hash scope) paths s)"

definition parseInclude :: "(bytes \<Rightarrow> 64 word) \<Rightarrow> chunk \<Rightarrow> nat \<Rightarrow> fileScope \<Rightarrow> bytes res" where
  "parseInclude hash ch i scope =
     rbind (statement_paths ch i) (\<lambda>paths.
       case paths of
         [p] \<Rightarrow> targetPath (fs_lookupVar hash scope) p
       | _ \<Rightarrow> Inl (Err ''bad include paths''))"

definition parseSubninja :: "(bytes \<Rightarrow> 64 word) \<Rightarrow> chunk \<Rightarrow> nat \<Rightarrow> fileScope \<Rightarrow> bytes res" where
  "parseSubninja hash ch i scope =
     rbind (statement_paths ch i) (\<lambda>paths.
       case paths of
         [p] \<Rightarrow> targetPath (fs_lookupVar hash scope) p
       | _ \<Rightarrow> Inl (Err ''bad subninja paths''))"

subsection \<open>Build statements\<close>

text \<open>The outputs, and the number of implicit ones.\<close>

definition parse_outs :: "pathParser \<Rightarrow> (pathParser \<times> evalString list \<times> nat) res" where
  "parse_outs pp =
     rbind (pp_pathList pp [] 0) (\<lambda>(pp1, outs, _).
       case pp_pipe pp1 of
         (pp2, True) \<Rightarrow> pp_pathList pp2 outs 0
       | (pp2, False) \<Rightarrow> Inr (pp2, outs, 0))"

text \<open>The inputs with the numbers of implicit and order-only ones, and the validations.\<close>

definition parse_ins ::
    "pathParser \<Rightarrow> (evalString list \<times> nat \<times> nat \<times> evalString list) res" where
  "parse_ins pp =
     rbind (pp_pathList pp [] 0) (\<lambda>(pp1, ins, _).
     rbind (case pp_pipe pp1 of
              (pp2, True) \<Rightarrow> pp_pathList pp2 ins 0
            | (pp2, False) \<Rightarrow> Inr (pp2, ins, 0)) (\<lambda>(pp3, ins3, implicit).
     rbind (case pp_pipe2 pp3 of
              (pp4, True) \<Rightarrow> pp_pathList pp4 ins3 0
            | (pp4, False) \<Rightarrow> Inr (pp4, ins3, 0)) (\<lambda>(pp5, ins5, orderOnly).
     rbind (case pp_pipeAt pp5 of
              (pp6, True) \<Rightarrow> pp_pathList pp6 [] 0
            | (pp6, False) \<Rightarrow> Inr (pp6, [], 0)) (\<lambda>(_, validations, _).
     Inr (ins5, implicit, orderOnly, validations)))))"

text \<open>The loops over outputs, inputs and validations; \<open>ptr\<close> is the address of the edge, which
  already serves as the environment of the paths.\<close>

fun build_outs ::
    "(bytes \<Rightarrow> 64 word) \<Rightarrow> nat \<Rightarrow> evalString list \<Rightarrow> edge \<Rightarrow> state \<Rightarrow> (edge \<times> state) res" where
  "build_outs hash ptr [] e s = Inr (e, s)"
| "build_outs hash ptr (p # ps) e s =
     rbind (targetNode hash (edgeEnv_lookupVar hash False e) p s) (\<lambda>(n, s1).
       case setInEdge n ptr s1 of
         (s2, False) \<Rightarrow> Inl (Err ''multiple rules generates'')
       | (s2, True) \<Rightarrow> build_outs hash ptr ps (e\<lparr>ed_outputs := ed_outputs e @ [n]\<rparr>) s2)"

fun build_ins ::
    "(bytes \<Rightarrow> 64 word) \<Rightarrow> evalString list \<Rightarrow> edge \<Rightarrow> state \<Rightarrow> (edge \<times> state) res" where
  "build_ins hash [] e s = Inr (e, s)"
| "build_ins hash (p # ps) e s =
     rbind (targetNode hash (edgeEnv_lookupVar hash False e) p s) (\<lambda>(n, s1).
       build_ins hash ps (e\<lparr>ed_inputs := ed_inputs e @ [n]\<rparr>)
         (s1\<lparr>gs_nouts := (gs_nouts s1)(nc_ptr n := gs_nouts s1 (nc_ptr n) + 1)\<rparr>))"

fun build_validations ::
    "(bytes \<Rightarrow> 64 word) \<Rightarrow> evalString list \<Rightarrow> edge \<Rightarrow> state \<Rightarrow> (edge \<times> state) res" where
  "build_validations hash [] e s = Inr (e, s)"
| "build_validations hash (p # ps) e s =
     rbind (targetNode hash (edgeEnv_lookupVar hash False e) p s) (\<lambda>(n, s1).
       build_validations hash ps (e\<lparr>ed_validations := ed_validations e @ [n]\<rparr>)
         (s1\<lparr>gs_nvalidations := (gs_nvalidations s1)(nc_ptr n := gs_nvalidations s1 (nc_ptr n) + 1)\<rparr>))"

text \<open>The edge before its paths are evaluated: rule, pool, position and bindings.\<close>

definition new_edge ::
    "(bytes \<Rightarrow> 64 word) \<Rightarrow> chunk \<Rightarrow> nat \<Rightarrow> nat \<Rightarrow> rule \<Rightarrow> fileScope \<Rightarrow> state \<Rightarrow> edge res" where
  "new_edge hash ch i n r scope s =
     rbind (go_index (ch_statements ch) (i + n)) (\<lambda>lst.
     let e = \<lparr>ed_rule = r, ed_pool = defaultPool, ed_pos = st_pos lst + 1,
               ed_env = bs_set (ch_buf ch) (take n (drop (i + 1) (ch_statements ch))) \<lparr>bs_buf = [], bs_statements = []\<rparr>,
               ed_scope = Some scope, ed_inputs = [], ed_outputs = [], ed_validations = [],
               ed_implicitDeps = 0, ed_orderOnlyDeps = 0, ed_implicitOuts = 0\<rparr> in
     case edge_rawBinding hash e ''pool'' of
       None \<Rightarrow> Inr e
     | Some poolName \<Rightarrow>
         if poolName = [] then Inr e
         else case lookupPool s poolName of
                None \<Rightarrow> Inl (Err ''unknown pool name'')
              | Some p \<Rightarrow> Inr (e\<lparr>ed_pool := p\<rparr>))"

definition parseBuild ::
    "(bytes \<Rightarrow> 64 word) \<Rightarrow> chunk \<Rightarrow> nat \<Rightarrow> fileScope \<Rightarrow> state \<Rightarrow> (nat \<times> chunk \<times> state) res" where
  "parseBuild hash ch i scope s =
     rbind (go_index (ch_statements ch) i) (\<lambda>st.
     rbind (arena_new (ch_edgeArena ch)) (\<lambda>(ptr, ea).
     rbind (go_slice (ch_buf ch) (st_v st) (st_e st)) (\<lambda>line.
     rbind (parse_outs (newPathParser line)) (\<lambda>(pp, outs, implicitOuts).
     if outs = [] then Inl (Err ''expected output path'')
     else case pp_colon pp of
       (pp1, False) \<Rightarrow> Inl (Err ''expected :'')
     | (pp1, True) \<Rightarrow>
         (case pp_ident pp1 of
            (pp2, Inl err) \<Rightarrow> Inl err
          | (pp2, Inr ruleName) \<Rightarrow>
              (case fs_lookupRule hash scope ruleName of
                 None \<Rightarrow> Inl (Err ''unknown build rule'')
               | Some r \<Rightarrow>
                   rbind (parse_ins pp2) (\<lambda>(ins, implicit, orderOnly, validations).
                   let n = countStatement ch (i + 1) statementBuildVar in
                   rbind (new_edge hash ch i n r scope s) (\<lambda>e0.
                   rbind (build_outs hash ptr outs e0 s) (\<lambda>(e1, s1).
                   rbind (build_ins hash ins (e1\<lparr>ed_implicitOuts := implicitOuts\<rparr>) s1) (\<lambda>(e2, s2).
                   rbind (build_validations hash validations
                            (e2\<lparr>ed_implicitDeps := implicit, ed_orderOnlyDeps := orderOnly\<rparr>) s2) (\<lambda>(e3, s3).
                   Inr (i + 1 + n,
                        ch\<lparr>ch_edgeArena := ea,
                           ch_edgePathSlab := snd (slab_slice (length ins) (snd (slab_slice (length outs) (ch_edgePathSlab ch))))\<rparr>,
                        s3\<lparr>gs_edgeAt := (gs_edgeAt s3)(ptr \<mapsto> e3)\<rparr>))))))))))))"

subsection \<open>setupInChunk\<close>

text \<open>Renumbering of \<open>n\<close> statements from index \<open>j\<close>, with the index check of \<open>statements[j]\<close>.\<close>

fun set_positions :: "nat \<Rightarrow> nat \<Rightarrow> int \<Rightarrow> statement list \<Rightarrow> (int \<times> statement list) res" where
  "set_positions 0 j pos sts = Inr (pos, sts)"
| "set_positions (Suc n) j pos sts =
     (if j < length sts then set_positions n (Suc j) (pos + 1) (sts[j := (sts ! j)\<lparr>st_pos := pos\<rparr>])
      else Inl (Panic ''index out of range''))"

fun include_positions :: "chunk list \<Rightarrow> int \<Rightarrow> statement list \<Rightarrow> (int \<times> statement list) res" where
  "include_positions [] pos sts = Inr (pos, sts)"
| "include_positions (c # cs) pos sts =
     rbind (set_positions (length (ch_statements c)) 0 pos sts) (\<lambda>(pos', sts'). include_positions cs pos' sts')"

text \<open>\<open>includeChunks\<close> renumbers the statements of the including chunk for those of the included
  chunks, then the statements behind the include.\<close>

definition includeChunks :: "nat \<Rightarrow> chunk list \<Rightarrow> chunk \<Rightarrow> chunk res" where
  "includeChunks i chunks ch =
     rbind (go_index (ch_statements ch) i) (\<lambda>st.
     rbind (include_positions chunks (st_pos st + 1) (ch_statements ch)) (\<lambda>(pos, sts).
     rbind (set_positions (length sts - (i + 1)) (i + 1) pos sts) (\<lambda>(_, sts').
     Inr (ch\<lparr>ch_statements := sts'\<rparr>))))"

lemma set_positions_length: "set_positions n j pos sts = Inr (pos', sts') \<Longrightarrow> length sts' = length sts"
  by (induction n j pos sts rule: set_positions.induct) (auto split: if_splits)

lemma include_positions_length: "include_positions cs pos sts = Inr (pos', sts') \<Longrightarrow> length sts' = length sts"
  by (induction cs pos sts rule: include_positions.induct) (auto simp: rbind_eq_Inr dest: set_positions_length)

lemma includeChunks_length: "includeChunks i cs ch = Inr ch' \<Longrightarrow> length (ch_statements ch') = length (ch_statements ch)"
  by (auto simp: includeChunks_def rbind_eq_Inr dest!: set_positions_length include_positions_length)

lemma parsePool_progress: "parsePool hash ch i scope s = Inr (i', s') \<Longrightarrow> i < i'"
  by (auto simp: parsePool_def rbind_eq_Inr Let_def split: option.splits if_splits)

lemma parseRuleBindings_ge: "parseRuleBindings ch i r = Inr (i', r') \<Longrightarrow> i \<le> i'"
proof (induction ch i r rule: parseRuleBindings.induct)
  case (1 ch i r)
  note run = "1.prems" [unfolded parseRuleBindings.simps [of ch i r]]
  then show ?case
    using "1.IH" by (fastforce split: if_splits sum.splits prod.splits)
qed

lemma parseRule_progress:
  "parseRule hash ch i scope ptr = Inr (i', scope', ch') \<Longrightarrow> i < i' \<and> ch_statements ch' = ch_statements ch"
  by (auto simp: parseRule_def rbind_eq_Inr Let_def dest!: parseRuleBindings_ge)

text \<open>
  \<open>incl fname parent s\<close> stands for reading an included file up to its \<open>setup\<close> (theory
  \<open>File_Parser\<close>): it gives the file's chunks. The result carries the chunk, the scope, the state
  and the list \<open>ch.includes\<close>.
\<close>

type_synonym include_fun = "bytes \<Rightarrow> fileScope option \<Rightarrow> state \<Rightarrow> (chunk list \<times> state) res option"

function setup_loop ::
    "(bytes \<Rightarrow> 64 word) \<Rightarrow> include_fun \<Rightarrow> nat \<Rightarrow> chunk \<Rightarrow> fileScope \<Rightarrow> state \<Rightarrow> chunk list list \<Rightarrow>
     (chunk \<times> fileScope \<times> state \<times> chunk list list) res option" where
  "setup_loop hash incl i ch scope s includes =
     (if i < length (ch_statements ch) then
        (case st_t (ch_statements ch ! i) of
           statementVarDecl \<Rightarrow>
             (case parseVarBinding ch i of
                Inl err \<Rightarrow> Some (Inl err)
              | Inr (name, val) \<Rightarrow> setup_loop hash incl (i + 1) ch (fs_setVar hash name val scope) s includes)
         | statementPool \<Rightarrow>
             (case arena_new (ch_poolArena ch) of
                Inl err \<Rightarrow> Some (Inl err)
              | Inr (_, pa) \<Rightarrow>
                  (case parsePool hash ch i scope s of
                     Inl err \<Rightarrow> Some (Inl err)
                   | Inr (i', s') \<Rightarrow> setup_loop hash incl i' (ch\<lparr>ch_poolArena := pa\<rparr>) scope s' includes))
         | statementRule \<Rightarrow>
             (case arena_new (ch_ruleArena ch) of
                Inl err \<Rightarrow> Some (Inl err)
              | Inr (ptr, ra) \<Rightarrow>
                  (case parseRule hash ch i scope ptr of
                     Inl err \<Rightarrow> Some (Inl err)
                   | Inr (i', scope', ch') \<Rightarrow>
                       setup_loop hash incl i' (ch'\<lparr>ch_ruleArena := ra\<rparr>) scope' s includes))
         | statementBuild \<Rightarrow> setup_loop hash incl (skipStatement ch (i + 1) statementBuildVar) ch scope s includes
         | statementDefault \<Rightarrow> setup_loop hash incl (i + 1) ch scope s includes
         | statementInclude \<Rightarrow>
             (case parseInclude hash ch i scope of
                Inl err \<Rightarrow> Some (Inl err)
              | Inr fname \<Rightarrow>
                  (case incl fname (fsc_parent scope) (s\<lparr>gs_filenames := gs_filenames s @ [fname]\<rparr>) of
                     None \<Rightarrow> None
                   | Some (Inl err) \<Rightarrow> Some (Inl err)
                   | Some (Inr (chunks, s')) \<Rightarrow>
                       (case includeChunks i chunks ch of
                          Inl err \<Rightarrow> Some (Inl err)
                        | Inr ch' \<Rightarrow> setup_loop hash incl (i + 1) ch' scope s' (includes @ [chunks]))))
         | statementSubninja \<Rightarrow> setup_loop hash incl (i + 1) ch scope s includes
         | _ \<Rightarrow> Some (Inl (Err ''bad statement?'')))
      else Some (Inr (ch, scope, s, includes)))"
  by pat_completeness auto
termination
  by (relation "measure (\<lambda>(hash, incl, i, ch, scope, s, inc). length (ch_statements ch) - i)")
    (auto simp: skipStatement_def dest: parsePool_progress parseRule_progress includeChunks_length)

declare setup_loop.simps [simp del]

definition setupInChunk ::
    "(bytes \<Rightarrow> 64 word) \<Rightarrow> include_fun \<Rightarrow> chunk \<Rightarrow> fileScope \<Rightarrow> state \<Rightarrow>
     (chunk \<times> fileScope \<times> state \<times> chunk list list) res option" where
  "setupInChunk hash incl ch scope s = setup_loop hash incl 0 ch scope s []"

subsection \<open>buildGraphInChunk\<close>

lemma parseBuild_frame:
  "parseBuild hash ch i scope s = Inr (i', ch', s') \<Longrightarrow> i < i' \<and> ch_statements ch' = ch_statements ch"
  by (auto simp: parseBuild_def rbind_eq_Inr Let_def split: if_splits prod.splits bool.splits sum.splits option.splits)

function build_loop ::
    "(bytes \<Rightarrow> 64 word) \<Rightarrow> nat \<Rightarrow> chunk \<Rightarrow> fileState \<Rightarrow> fileScope \<Rightarrow> state \<Rightarrow> (chunk \<times> fileState \<times> state) res" where
  "build_loop hash i ch f scope s =
     (if i < length (ch_statements ch) then
        (case st_t (ch_statements ch ! i) of
           statementVarDecl \<Rightarrow> build_loop hash (i + 1) ch f scope s
         | statementPool \<Rightarrow> build_loop hash (skipStatement ch (i + 1) statementPoolVar) ch f scope s
         | statementRule \<Rightarrow> build_loop hash (skipStatement ch (i + 1) statementRuleVar) ch f scope s
         | statementBuild \<Rightarrow>
             (case parseBuild hash ch i scope s of
                Inl err \<Rightarrow> Inl err
              | Inr (i', ch', s') \<Rightarrow> build_loop hash i' ch' f scope s')
         | statementDefault \<Rightarrow>
             (case parseDefault hash ch i scope s of
                Inl err \<Rightarrow> Inl err
              | Inr (nodes, s') \<Rightarrow> build_loop hash (i + 1) ch (addDefaults nodes f) scope s')
         | statementInclude \<Rightarrow> build_loop hash (i + 1) ch f scope s
         | statementSubninja \<Rightarrow>
             (case parseSubninja hash ch i scope of
                Inl err \<Rightarrow> Inl err
              | Inr fname \<Rightarrow> build_loop hash (i + 1) ch (addSubninja fname f) scope s)
         | _ \<Rightarrow> Inl (Err ''bad statement?''))
      else Inr (ch, f, s))"
  by pat_completeness auto
termination
  by (relation "measure (\<lambda>(hash, i, ch, f, scope, s). length (ch_statements ch) - i)")
    (auto simp: skipStatement_def dest: parseBuild_frame)

declare build_loop.simps [simp del]

definition buildGraphInChunk ::
    "(bytes \<Rightarrow> 64 word) \<Rightarrow> chunk \<Rightarrow> fileState \<Rightarrow> fileScope \<Rightarrow> state \<Rightarrow> (chunk \<times> fileState \<times> state) res" where
  "buildGraphInChunk hash ch f scope s = build_loop hash 0 ch f scope s"

end
