(* ===== verification/Filepath.thy ===== *)
theory Filepath
  imports Go_Base
begin

text \<open>
  The lexical path functions of Go's \<open>path/filepath\<close> that the modelled code calls, for systems
  whose separator is a slash: \<open>Clean\<close>, \<open>Join\<close>, \<open>Base\<close>, \<open>Dir\<close>, \<open>Ext\<close> and \<open>IsAbs\<close>;
  \<open>ToSlash\<close> is the identity there. A path is handled as the list of its elements.
\<close>

fun split_on :: "char \<Rightarrow> bytes \<Rightarrow> bytes list" where
  "split_on c [] = [[]]"
| "split_on c (x # xs) =
     (if x = c then [] # split_on c xs
      else case split_on c xs of [] \<Rightarrow> [[x]] | y # ys \<Rightarrow> (x # y) # ys)"

fun join_with :: "bytes \<Rightarrow> bytes list \<Rightarrow> bytes" where
  "join_with sep [] = []"
| "join_with sep [s] = s"
| "join_with sep (s # t # ts) = s @ sep @ join_with sep (t # ts)"

definition isAbs :: "bytes \<Rightarrow> bool" where
  "isAbs p \<longleftrightarrow> p \<noteq> [] \<and> hd p = CHR ''/''"

text \<open>The elements that \<open>Clean\<close> has written so far, last one first.\<close>

definition clean_elem :: "bool \<Rightarrow> bytes list \<Rightarrow> bytes \<Rightarrow> bytes list" where
  "clean_elem rooted out e =
     (if e = [] \<or> e = ''.'' then out
      else if e = ''..'' then
        (case out of
           [] \<Rightarrow> if rooted then [] else [''..'']
         | o1 # os \<Rightarrow> if o1 = ''..'' then ''..'' # out else os)
      else e # out)"

definition clean_elems :: "bool \<Rightarrow> bytes list \<Rightarrow> bytes list" where
  "clean_elems rooted es = rev (fold (\<lambda>e out. clean_elem rooted out e) es [])"

definition fp_clean :: "bytes \<Rightarrow> bytes" where
  "fp_clean p =
     (let rooted = isAbs p; es = clean_elems rooted (split_on CHR ''/'' p) in
      if rooted then CHR ''/'' # join_with ''/'' es
      else if es = [] then ''.'' else join_with ''/'' es)"

text \<open>\<open>Join\<close> of two elements: empty ones are ignored, the rest is cleaned.\<close>

definition fp_join :: "bytes list \<Rightarrow> bytes" where
  "fp_join es = (let ne = dropWhile (\<lambda>e. e = []) es in if ne = [] then [] else fp_clean (join_with ''/'' ne))"

definition strip_slashes :: "bytes \<Rightarrow> bytes" where
  "strip_slashes p = rev (dropWhile (\<lambda>c. c = CHR ''/'') (rev p))"

definition fp_base :: "bytes \<Rightarrow> bytes" where
  "fp_base p =
     (if p = [] then ''.''
      else let q = strip_slashes p in if q = [] then ''/'' else last (split_on CHR ''/'' q))"

definition fp_dir :: "bytes \<Rightarrow> bytes" where
  "fp_dir p = fp_clean (rev (dropWhile (\<lambda>c. c \<noteq> CHR ''/'') (rev p)))"

definition fp_ext :: "bytes \<Rightarrow> bytes" where
  "fp_ext p =
     (let b = rev (takeWhile (\<lambda>c. c \<noteq> CHR ''/'') (rev p)) in
      if CHR ''.'' \<in> set b then CHR ''.'' # rev (takeWhile (\<lambda>c. c \<noteq> CHR ''.'') (rev b)) else [])"

subsection \<open>Splitting and joining\<close>

lemma split_on_ne [simp]: "split_on c s \<noteq> []"
  by (induction s) (auto split: list.splits)

lemma split_on_noSep: "e \<in> set (split_on c s) \<Longrightarrow> c \<notin> set e"
  by (induction s arbitrary: e) (auto split: list.splits if_splits)

lemma join_split_on: "join_with [c] (split_on c s) = s"
proof (induction s)
  case Nil
  then show ?case by simp
next
  case (Cons x s)
  obtain y ys where sp: "split_on c s = y # ys" by (cases "split_on c s") (use split_on_ne in auto)
  then show ?case using Cons by (cases ys) auto
qed

lemma split_on_nosep_id: "c \<notin> set s \<Longrightarrow> split_on c s = [s]"
  by (induction s) auto

lemma split_on_append:
  "c \<notin> set e \<Longrightarrow> split_on c (e @ c # s) = e # split_on c s"
  by (induction e) auto

lemma split_join:
  "es \<noteq> [] \<Longrightarrow> \<forall>e \<in> set es. c \<notin> set e \<Longrightarrow> split_on c (join_with [c] es) = es"
proof (induction es rule: induct_list012)
  case (2 x)
  then show ?case by (simp add: split_on_nosep_id)
next
  case (3 x y zs)
  then show ?case by (simp add: split_on_append)
qed simp

subsection \<open>Cleaned paths\<close>

text \<open>The elements of a cleaned path, last one first: no empty and no \<open>.\<close> element, and \<open>..\<close> only in
  front of a relative path.\<close>

definition elem_ok :: "bytes \<Rightarrow> bool" where
  "elem_ok e \<longleftrightarrow> e \<noteq> [] \<and> e \<noteq> ''.'' \<and> CHR ''/'' \<notin> set e"

definition clean_stack :: "bool \<Rightarrow> bytes list \<Rightarrow> bool" where
  "clean_stack rooted out \<longleftrightarrow>
     (\<exists>as k. out = as @ replicate k ''..'' \<and> (\<forall>e \<in> set as. elem_ok e \<and> e \<noteq> ''..'') \<and> (rooted \<longrightarrow> k = 0))"

lemma clean_stackI:
  "(\<And>e. e \<in> set as \<Longrightarrow> elem_ok e \<and> e \<noteq> ''..'') \<Longrightarrow> (rooted \<Longrightarrow> k = 0) \<Longrightarrow>
   clean_stack rooted (as @ replicate k ''..'')"
  unfolding clean_stack_def by blast

lemma clean_stack_empty: "clean_stack rooted []"
  using clean_stackI [of "[]" rooted 0] by simp

lemma clean_stack_cases:
  assumes "clean_stack rooted out"
  obtains (up) k where "out = replicate k ''..''" "rooted \<Longrightarrow> k = 0"
  | (down) a out' where "out = a # out'" "clean_stack rooted out'" "elem_ok a" "a \<noteq> ''..''"
proof -
  obtain as k where out: "out = as @ replicate k ''..''" "\<forall>e \<in> set as. elem_ok e \<and> e \<noteq> ''..''" "rooted \<longrightarrow> k = 0"
    using assms unfolding clean_stack_def by blast
  show thesis
  proof (cases as)
    case Nil
    then show thesis using out up by simp
  next
    case (Cons a as')
    have "clean_stack rooted (as' @ replicate k ''..'')"
      using out Cons by (intro clean_stackI) auto
    then show thesis using out Cons down by simp
  qed
qed

lemma clean_stack_Cons:
  assumes "clean_stack rooted out" and "elem_ok a" and "a \<noteq> ''..''"
  shows "clean_stack rooted (a # out)"
proof -
  obtain as k where out: "out = as @ replicate k ''..''" "\<forall>e \<in> set as. elem_ok e \<and> e \<noteq> ''..''" "rooted \<longrightarrow> k = 0"
    using assms(1) unfolding clean_stack_def by blast
  then show ?thesis using clean_stackI [of "a # as" rooted k] assms(2,3) by auto
qed

lemma clean_stack_dots: "\<not> rooted \<or> k = 0 \<Longrightarrow> clean_stack rooted (replicate k ''..'')"
  using clean_stackI [of "[]" rooted k] by auto

lemma clean_stack_ok: "clean_stack rooted out \<Longrightarrow> x \<in> set out \<Longrightarrow> elem_ok x"
proof -
  assume "clean_stack rooted out" and x: "x \<in> set out"
  then obtain as k where "out = as @ replicate k ''..''" "\<forall>e \<in> set as. elem_ok e \<and> e \<noteq> ''..''"
    unfolding clean_stack_def by blast
  then have "x = ''..'' \<or> elem_ok x" using x by auto
  then show ?thesis by (auto simp: elem_ok_def)
qed

lemma clean_elem_dots:
  "clean_elem rooted (replicate k ''..'') ''..'' =
     (if k = 0 \<and> rooted then [] else replicate (Suc k) ''..'')"
  by (cases k) (simp_all add: clean_elem_def)

lemma clean_elem_stack:
  assumes "clean_stack rooted out" and "CHR ''/'' \<notin> set e"
  shows "clean_stack rooted (clean_elem rooted out e)"
proof -
  consider "e = [] \<or> e = ''.''" | "e = ''..''" | "elem_ok e" "e \<noteq> ''..''"
    using assms(2) by (auto simp: elem_ok_def)
  then show ?thesis
  proof cases
    case 1
    then show ?thesis using assms(1) by (auto simp: clean_elem_def)
  next
    case 2
    from assms(1) show ?thesis
    proof (cases rule: clean_stack_cases)
      case (up k)
      then show ?thesis
        unfolding up(1) 2 clean_elem_dots using clean_stack_dots [of rooted "Suc k"] clean_stack_empty up(2) by (cases rooted) auto
    next
      case (down a out')
      then show ?thesis using 2 by (simp add: clean_elem_def)
    qed
  next
    case 3
    then show ?thesis using clean_stack_Cons [OF assms(1)] by (auto simp: clean_elem_def elem_ok_def)
  qed
qed

lemma clean_fold_stack:
  "clean_stack rooted out \<Longrightarrow> \<forall>e \<in> set es. CHR ''/'' \<notin> set e \<Longrightarrow>
   clean_stack rooted (fold (\<lambda>e out. clean_elem rooted out e) es out)"
  by (induction es arbitrary: out) (auto intro: clean_elem_stack)

lemma fold_dots:
  "\<not> rooted \<or> k = 0 \<Longrightarrow>
   fold (\<lambda>e out. clean_elem rooted out e) (replicate k ''..'') (replicate j ''..'') = replicate (j + k) ''..''"
proof (induction k arbitrary: j)
  case (Suc k)
  then have "clean_elem rooted (replicate j ''..'') ''..'' = replicate (Suc j) ''..''"
    by (simp add: clean_elem_dots)
  then show ?case using Suc.IH [of "Suc j"] Suc.prems by simp
qed simp

text \<open>A clean stack is not changed by cleaning it again.\<close>

lemma fold_clean_stack:
  "clean_stack rooted out \<Longrightarrow> fold (\<lambda>e out. clean_elem rooted out e) (rev out) [] = out"
proof (induction out)
  case (Cons x out)
  from Cons.prems show ?case
  proof (cases rule: clean_stack_cases)
    case (up k)
    then have "\<not> rooted \<or> k = 0" by blast
    from fold_dots [OF this, of 0] show ?thesis unfolding up(1) by simp
  next
    case (down a out')
    then show ?thesis using Cons.IH by (auto simp: clean_elem_def elem_ok_def)
  qed
qed simp

lemma clean_elems_stack:
  assumes "\<forall>e \<in> set es. CHR ''/'' \<notin> set e"
  shows "clean_stack rooted (rev (clean_elems rooted es))"
  using clean_fold_stack [OF clean_stack_empty assms] by (simp add: clean_elems_def)

lemma clean_elems_idem:
  assumes "\<forall>e \<in> set es. CHR ''/'' \<notin> set e"
  shows "clean_elems rooted (clean_elems rooted es) = clean_elems rooted es"
  using fold_clean_stack [OF clean_elems_stack [OF assms]] by (simp add: clean_elems_def)

lemma clean_elems_ok:
  assumes "\<forall>e \<in> set es. CHR ''/'' \<notin> set e" and "x \<in> set (clean_elems rooted es)"
  shows "elem_ok x"
  using clean_stack_ok [OF clean_elems_stack [OF assms(1)]] assms(2) by simp

text \<open>\<open>Clean\<close> is idempotent.\<close>

lemma hd_join: "es \<noteq> [] \<Longrightarrow> hd es \<noteq> [] \<Longrightarrow> hd (join_with sep es) = hd (hd es) \<and> join_with sep es \<noteq> []"
  by (cases es rule: list.exhaust; cases "tl es") auto

lemma fp_clean_idem: "fp_clean (fp_clean p) = fp_clean p"
proof -
  let ?r = "isAbs p"
  define es where "es = clean_elems ?r (split_on CHR ''/'' p)"
  have nosep: "\<forall>e \<in> set (split_on CHR ''/'' p). CHR ''/'' \<notin> set e" using split_on_noSep by blast
  have idem: "clean_elems ?r es = es" using clean_elems_idem [OF nosep] by (simp add: es_def)
  have ok: "elem_ok e" if "e \<in> set es" for e using clean_elems_ok [OF nosep] that by (simp add: es_def)
  then have split: "split_on CHR ''/'' (join_with ''/'' es) = es" if "es \<noteq> []"
    using that split_join [of es "CHR ''/''"] by (auto simp: elem_ok_def)
  have eq: "fp_clean p = (if ?r then CHR ''/'' # join_with ''/'' es else if es = [] then ''.'' else join_with ''/'' es)"
    by (simp add: fp_clean_def Let_def es_def)
  have skip: "clean_elems r ([] # xs) = clean_elems r xs" for r xs
    by (simp add: clean_elems_def clean_elem_def)
  show ?thesis
  proof (cases "es = []")
    case True
    then show ?thesis using eq by (cases ?r) (simp_all add: fp_clean_def clean_elems_def clean_elem_def isAbs_def)
  next
    case False
    then have hd: "hd (join_with ''/'' es) = hd (hd es)" "join_with ''/'' es \<noteq> []" "elem_ok (hd es)"
      using hd_join [of es "''/''"] ok [of "hd es"] by (auto simp: elem_ok_def)
    show ?thesis
    proof (cases ?r)
      case True
      have "fp_clean (CHR ''/'' # join_with ''/'' es) = CHR ''/'' # join_with ''/'' (clean_elems True ([] # es))"
        using split [OF False] by (simp add: fp_clean_def isAbs_def)
      then show ?thesis using eq True idem skip by simp
    next
      case rel: False
      have "\<not> isAbs (join_with ''/'' es)"
        using hd by (cases "hd es") (auto simp: isAbs_def elem_ok_def)
      then show ?thesis using eq rel idem split [OF False] False by (simp add: fp_clean_def)
    qed
  qed
qed

end
