(* ===== verification/File_Parser.thy ===== *)
theory File_Parser
  imports Chunk_Build Filepath
begin

text \<open>
  Parsing of one manifest file (\<open>toolsupport/ninjautil/file_parser.go\<close>) and of a manifest with
  its subninjas (\<open>manifest_parser.go\<close>). \<open>readFile\<close> gives the contents of a file and \<open>ncpu\<close> the
  number of processors. The goroutines of an error group run in file order here, which is one of
  their interleavings: they share the file scope, whose lookups do not depend on the order of
  insertion (theory \<open>Bindings\<close>), and the node table, which theory \<open>NodeMap\<close> treats with every
  interleaving. Nested includes are followed to the depth \<open>fuel\<close>.
\<close>

subsection \<open>alloc\<close>

fun number_chunks :: "int \<Rightarrow> chunk list \<Rightarrow> chunk list" where
  "number_chunks pos [] = []"
| "number_chunks pos (c # cs) =
     (let sts = ch_statements c in
      c\<lparr>ch_statements := map (\<lambda>(k, st). st\<lparr>st_pos := pos + int k\<rparr>) (zip [0..<length sts] sts)\<rparr>
      # number_chunks (pos + int (length sts)) cs)"

definition give_arenas :: "chunk \<Rightarrow> arena \<Rightarrow> arena \<Rightarrow> arena \<Rightarrow> arena \<Rightarrow> chunk" where
  "give_arenas c ra ea pa ba =
     c\<lparr>ch_ruleArena := ra, ch_edgeArena := ea, ch_poolArena := pa, ch_bindingArena := ba,
       ch_edgePathSlab := newSlab (ch_nbuild c)\<rparr>"

text \<open>The arenas of the file, one sub-arena per chunk, and the empty scope of the file. The edge
  arena is part of the result, as \<open>finalize\<close> walks over it.\<close>

definition alloc :: "chunk list \<Rightarrow> fileScope option \<Rightarrow> state \<Rightarrow> (chunk list \<times> fileScope \<times> arena \<times> state) res" where
  "alloc chunks parent s =
     (let cs = number_chunks 0 chunks;
          nrule = sum_list (map ch_nrule chunks);
          nbuild = sum_list (map ch_nbuild chunks);
          npool = sum_list (map ch_npool chunks);
          nbind = sum_list (map ch_nrulevar chunks) + sum_list (map ch_nbuildvar chunks);
          base = gs_heap s in
      rbind (arena_chunks (map ch_nrule chunks) (arena_reserve base nrule)) (\<lambda>(ras, _).
      rbind (arena_chunks (map ch_nbuild chunks) (arena_reserve (base + nrule) nbuild)) (\<lambda>(eas, edgeArena).
      rbind (arena_chunks (map ch_npool chunks) (arena_reserve (base + nrule + nbuild) npool)) (\<lambda>(pas, _).
      rbind (arena_chunks (map (\<lambda>c. ch_nrulevar c + ch_nbuildvar c) chunks)
               (arena_reserve (base + nrule + nbuild + npool) nbind)) (\<lambda>(bas, _).
      Inr (map (\<lambda>(c, ra, ea, pa, ba). give_arenas c ra ea pa ba) (zip cs (zip ras (zip eas (zip pas bas)))),
           FileScope (Some (newRuleMap nrule)) (Some (newShardBindings (sum_list (map ch_nvar chunks)))) parent,
           edgeArena, s\<lparr>gs_heap := base + nrule + nbuild + npool + nbind\<rparr>))))))"

subsection \<open>setup\<close>

text \<open>
  The renumbering after \<open>eg.Go\<close> in a file with includes: it reads the last statement of chunk \<open>i\<close>
  and the first statement of chunk \<open>i + 1\<close>, also for the last chunk.
\<close>

definition adjust_positions :: "nat \<Rightarrow> chunk list \<Rightarrow> chunk list res" where
  "adjust_positions i chunks =
     rbind (go_index chunks i) (\<lambda>ch.
     if ch_statements ch = [] then Inl (Panic ''index out of range'')
     else
       let pos = st_pos (last (ch_statements ch)) in
       rbind (go_index chunks (i + 1)) (\<lambda>nch.
       rbind (go_index (ch_statements nch) 0) (\<lambda>st.
       if st_pos st < pos
       then Inr (chunks[i + 1 := hd (number_chunks (pos + 1) [nch])])
       else Inr chunks)))"

lemma adjust_positions_length: "adjust_positions i chunks = Inr cs \<Longrightarrow> length cs = length chunks"
  by (auto simp: adjust_positions_def rbind_eq_Inr Let_def split: if_splits)

text \<open>
  The loop of \<open>setup\<close> from chunk \<open>i\<close>; \<open>ninclude\<close> is the number of includes in the file. An error
  of one chunk does not stop the loop, which may still run into a panic.
\<close>

function setup_chunks ::
    "(bytes \<Rightarrow> 64 word) \<Rightarrow> include_fun \<Rightarrow> nat \<Rightarrow> nat \<Rightarrow> chunk list \<Rightarrow> fileScope \<Rightarrow> state \<Rightarrow> chunk list list \<Rightarrow>
     (chunk list \<times> fileScope \<times> state \<times> chunk list list) res option" where
  "setup_chunks hash incl ninclude i chunks scope s includes =
     (if i < length chunks then
        (case (if 0 < ninclude then adjust_positions i chunks else Inr chunks) of
           Inl err \<Rightarrow> Some (Inl err)
         | Inr cs \<Rightarrow>
               (case setupInChunk hash incl (cs ! i) scope s of
                  None \<Rightarrow> None
                | Some (Inl (Panic m)) \<Rightarrow> Some (Inl (Panic m))
                | Some (Inl (Err e)) \<Rightarrow>
                    (case setup_chunks hash incl ninclude (i + 1) cs scope s includes of
                       None \<Rightarrow> None
                     | Some (Inl (Panic m)) \<Rightarrow> Some (Inl (Panic m))
                     | Some _ \<Rightarrow> Some (Inl (Err e)))
                | Some (Inr (ch, scope', s', incs)) \<Rightarrow>
                    setup_chunks hash incl ninclude (i + 1) (cs[i := ch]) scope' s' (includes @ incs)))
      else Some (Inr (chunks, scope, s, includes)))"
  by pat_completeness auto
termination
  by (relation "measure (\<lambda>(hash, incl, n, i, chunks, scope, s, inc). length chunks - i)")
    (auto dest: adjust_positions_length split: if_splits)

declare setup_chunks.simps [simp del]

definition fp_setup ::
    "(bytes \<Rightarrow> 64 word) \<Rightarrow> include_fun \<Rightarrow> chunk list \<Rightarrow> fileScope \<Rightarrow> state \<Rightarrow>
     (chunk list \<times> fileScope \<times> state \<times> chunk list list) res option" where
  "fp_setup hash incl chunks scope s =
     setup_chunks hash incl (sum_list (map ch_ninclude chunks)) 0 chunks scope s []"

text \<open>A file up to its \<open>setup\<close>: the common part of \<open>parseContent\<close> and of an include.\<close>

fun prepare ::
    "nat \<Rightarrow> (bytes \<Rightarrow> 64 word) \<Rightarrow> nat \<Rightarrow> (bytes \<Rightarrow> bytes option) \<Rightarrow> fileScope option \<Rightarrow> bytes \<Rightarrow> state \<Rightarrow>
     (chunk list \<times> fileScope \<times> arena \<times> state \<times> chunk list list) res option" where
  "prepare 0 hash ncpu readFile parent buf s = None"
| "prepare (Suc fuel) hash ncpu readFile parent buf s =
     obind (parseChunks (splitIntoChunks ncpu buf)) (\<lambda>chunks.
     obind (Some (alloc chunks parent s)) (\<lambda>(chunks1, scope, ea, s1).
     obind (fp_setup hash
              (\<lambda>fname parent' s'. case readFile fname of
                  None \<Rightarrow> Some (Inl (Err ''open''))
                | Some b \<Rightarrow>
                    obind (prepare fuel hash ncpu readFile parent' b s')
                      (\<lambda>(chunks', _, _, s'', _). Some (Inr (chunks', s''))))
              chunks1 scope s1) (\<lambda>(chunks2, scope2, s2, includes).
     Some (Inr (chunks2, scope2, ea, s2, includes)))))"

subsection \<open>buildGraph and finalize\<close>

fun build_chunks ::
    "(bytes \<Rightarrow> 64 word) \<Rightarrow> chunk list \<Rightarrow> fileState \<Rightarrow> fileScope \<Rightarrow> state \<Rightarrow> (fileState \<times> state) res" where
  "build_chunks hash [] f scope s = Inr (f, s)"
| "build_chunks hash (c # cs) f scope s =
     rbind (buildGraphInChunk hash c f scope s) (\<lambda>(_, f1, s1). build_chunks hash cs f1 scope s1)"

text \<open>Every chunk, then the chunks of the files it includes.\<close>

definition buildGraph ::
    "(bytes \<Rightarrow> 64 word) \<Rightarrow> chunk list \<Rightarrow> chunk list list \<Rightarrow> fileState \<Rightarrow> fileScope \<Rightarrow> state \<Rightarrow> (fileState \<times> state) res" where
  "buildGraph hash chunks includes f scope s = build_chunks hash (chunks @ concat includes) f scope s"

definition finalize :: "arena \<Rightarrow> fileState \<Rightarrow> state \<Rightarrow> state" where
  "finalize ea f s =
     mergeFileState (f\<lparr>fst_edges := filter (\<lambda>p. gs_edgeAt s p \<noteq> None) (arena_used ea)\<rparr>) s"

definition parseContent ::
    "nat \<Rightarrow> (bytes \<Rightarrow> 64 word) \<Rightarrow> nat \<Rightarrow> (bytes \<Rightarrow> bytes option) \<Rightarrow> fileScope option \<Rightarrow> bytes \<Rightarrow> fileState \<Rightarrow> state \<Rightarrow>
     (fileScope \<times> fileState \<times> state) res option" where
  "parseContent fuel hash ncpu readFile parent buf f s =
     obind (prepare fuel hash ncpu readFile parent buf s) (\<lambda>(chunks, scope, ea, s1, includes).
     obind (Some (buildGraph hash chunks includes f scope s1)) (\<lambda>(f1, s2).
     Some (Inr (scope, f1, finalize ea f1 s2))))"

definition parseFile ::
    "nat \<Rightarrow> (bytes \<Rightarrow> 64 word) \<Rightarrow> nat \<Rightarrow> (bytes \<Rightarrow> bytes option) \<Rightarrow> fileScope option \<Rightarrow> bytes \<Rightarrow> state \<Rightarrow>
     (fileScope \<times> fileState \<times> state) res option" where
  "parseFile fuel hash ncpu readFile parent fname s =
     (case readFile fname of
        None \<Rightarrow> Some (Inl (Err ''open''))
      | Some buf \<Rightarrow>
          parseContent fuel hash ncpu readFile parent buf
            (newFileState\<lparr>fst_filenames := [fname]\<rparr>) s)"

subsection \<open>ManifestParser\<close>

text \<open>The scope of \<open>NewManifestParser\<close>: the top-level scope with the rule \<open>phony\<close>; the error of
  \<open>setRule\<close> is dropped.\<close>

definition newManifestParser :: "(bytes \<Rightarrow> 64 word) \<Rightarrow> state \<Rightarrow> fileScope" where
  "newManifestParser hash s =
     (let scope = FileScope (Some (newRuleMap 1)) None (Some (gs_scope s)) in
      case fs_setRule hash phonyRule scope of Inl _ \<Rightarrow> scope | Inr scope' \<Rightarrow> scope')"

text \<open>\<open>loadFile\<close>: the subninjas that are to be loaded next, with the scope they see. The working
  directory \<open>p.wd\<close> is empty, so \<open>filepath.Join\<close> only cleans the name.\<close>

definition loadFile ::
    "nat \<Rightarrow> (bytes \<Rightarrow> 64 word) \<Rightarrow> nat \<Rightarrow> (bytes \<Rightarrow> bytes option) \<Rightarrow> bytes \<Rightarrow> fileScope \<Rightarrow> state \<Rightarrow>
     ((bytes \<times> fileScope) list \<times> state) res option" where
  "loadFile fuel hash ncpu readFile fname scope s =
     obind (parseFile fuel hash ncpu readFile (Some scope) (fp_join [[], fname]) s) (\<lambda>(scope1, f, s1).
     Some (Inr (map (\<lambda>sub. (sub, scope1)) (fst_subninjas f), s1)))"

text \<open>The files of the error group, in the order they are added to it. A manifest that loads
  itself as a subninja is loaded forever.\<close>

partial_function (option) load_loop ::
    "nat \<Rightarrow> (bytes \<Rightarrow> 64 word) \<Rightarrow> nat \<Rightarrow> (bytes \<Rightarrow> bytes option) \<Rightarrow> (bytes \<times> fileScope) list \<Rightarrow> state \<Rightarrow> state res option" where
  "load_loop fuel hash ncpu readFile pending s =
     (case pending of
        [] \<Rightarrow> Some (Inr s)
      | (fname, scope) # rest \<Rightarrow>
          (case loadFile fuel hash ncpu readFile fname scope s of
             None \<Rightarrow> None
           | Some (Inl err) \<Rightarrow> Some (Inl err)
           | Some (Inr (subs, s')) \<Rightarrow> load_loop fuel hash ncpu readFile (rest @ subs) s'))"

declare load_loop.simps [code]

definition add_out :: "nat \<Rightarrow> node_cell \<Rightarrow> (nat \<Rightarrow> nat list) \<Rightarrow> (nat \<Rightarrow> nat list)" where
  "add_out e n outs = outs(nc_ptr n := outs (nc_ptr n) @ [e])"

text \<open>After the last file: node ids, and the out-edges of the nodes.\<close>

definition link_nodes :: "state \<Rightarrow> state" where
  "link_nodes s =
     s\<lparr>gs_nodes := nm_freeze (gs_nodeMap s),
       gs_outs := fold (\<lambda>p outs. fold (add_out p) (ed_inputs (the (gs_edgeAt s p))) outs) (gs_edges s) (gs_outs s)\<rparr>"

definition manifest_Load ::
    "nat \<Rightarrow> (bytes \<Rightarrow> 64 word) \<Rightarrow> nat \<Rightarrow> (bytes \<Rightarrow> bytes option) \<Rightarrow> bytes \<Rightarrow> fileScope \<Rightarrow> state \<Rightarrow> state res option" where
  "manifest_Load fuel hash ncpu readFile fname scope s =
     obind (load_loop fuel hash ncpu readFile [(fname, scope)] s) (\<lambda>s'. Some (Inr (link_nodes s')))"

subsection \<open>A file with an include is never set up\<close>

lemma adjust_positions_last: "\<exists>m. adjust_positions (length chunks - 1) chunks = Inl (Panic m)"
proof (cases "chunks = []")
  case True
  then show ?thesis by (simp add: adjust_positions_def go_index_def)
next
  case False
  then have "length chunks - 1 + 1 = length chunks" by simp
  then show ?thesis
    unfolding adjust_positions_def go_index_def using False by (simp add: Let_def)
qed

lemma adjust_positions_panics: "adjust_positions i chunks = Inl e \<Longrightarrow> \<exists>m. e = Panic m"
  by (auto simp: adjust_positions_def rbind_eq_Inl go_index_def Let_def split: if_splits)

lemma setup_chunks_include:
  assumes "0 < n" and "i < length chunks"
  shows "setup_chunks hash incl n i chunks scope s inc0 = None \<or>
    (\<exists>m. setup_chunks hash incl n i chunks scope s inc0 = Some (Inl (Panic m)))"
  using assms
proof (induction "length chunks - i" arbitrary: i chunks scope s inc0 rule: less_induct)
  case less
  let ?r = "setup_chunks hash incl n i chunks scope s inc0"
  show ?case
  proof (cases "adjust_positions i chunks")
    case (Inl e)
    then obtain m where "e = Panic m" using adjust_positions_panics by blast
    then show ?thesis using Inl less.prems by (simp add: setup_chunks.simps [of hash incl n i])
  next
    case (Inr cs)
    then have len: "length cs = length chunks" by (rule adjust_positions_length)
    have "i \<noteq> length chunks - 1" using Inr adjust_positions_last [of chunks] by auto
    then have lt: "i + 1 < length chunks" using less.prems(2) by linarith
    have IH: "setup_chunks hash incl n (i + 1) cs' sc st inc = None \<or>
        (\<exists>m. setup_chunks hash incl n (i + 1) cs' sc st inc = Some (Inl (Panic m)))"
      if "length cs' = length chunks" for cs' sc st inc
      using that lt less.prems by (intro less.hyps) auto
    show ?thesis
    proof (cases "setupInChunk hash incl (cs ! i) scope s")
      case None
      then show ?thesis using Inr len less.prems by (simp add: setup_chunks.simps [of hash incl n i])
    next
      case (Some q)
      show ?thesis
      proof (cases q)
        case (Inl err)
        then show ?thesis
          using Some Inr len less.prems IH [of cs scope s inc0]
          by (cases err) (auto simp: setup_chunks.simps [of hash incl n i])
      next
        case q: (Inr r)
        obtain ch sc st inc where "r = (ch, sc, st, inc)" by (cases r)
        then show ?thesis
          using Some Inr len less.prems q IH [of "cs[i := ch]" sc st "inc0 @ inc"]
          by (simp add: setup_chunks.simps [of hash incl n i])
      qed
    qed
  qed
qed

end
