(* ===== verification/Parse_Inv.thy ===== *)
theory Parse_Inv
  imports File_Parser
begin

text \<open>
  The invariant of the build graph under construction: nodes come from the node table, an edge is
  the in-edge of exactly its outputs, no node has two in-edges, and the counts of an edge fit its
  lists. Every operation of the chunk parser keeps it, so it holds of a loaded manifest.
\<close>

subsection \<open>Nodes\<close>

text \<open>\<open>s'\<close> differs from \<open>s\<close> only in nodes that were added.\<close>

definition grows_nodes :: "(bytes \<Rightarrow> 64 word) \<Rightarrow> state \<Rightarrow> state \<Rightarrow> bool" where
  "grows_nodes hash s s' \<longleftrightarrow> nm_ok hash (gs_nodeMap s') \<and>
     (\<forall>k c. nm_lookup hash (gs_nodeMap s) k = Some c \<longrightarrow> nm_lookup hash (gs_nodeMap s') k = Some c)"

definition known :: "(bytes \<Rightarrow> 64 word) \<Rightarrow> state \<Rightarrow> node_cell \<Rightarrow> bool" where
  "known hash s n \<longleftrightarrow> nm_lookup hash (gs_nodeMap s) (nc_path n) = Some n"

lemma grows_nodes_trans: "grows_nodes hash a b \<Longrightarrow> grows_nodes hash b c \<Longrightarrow> grows_nodes hash a c"
  by (simp add: grows_nodes_def)

lemma grows_nodes_known: "grows_nodes hash s s' \<Longrightarrow> known hash s n \<Longrightarrow> known hash s' n"
  by (simp add: grows_nodes_def known_def)

lemma known_update [simp]:
  "known hash (s\<lparr>gs_inEdge := x\<rparr>) = known hash s" "known hash (s\<lparr>gs_nouts := y\<rparr>) = known hash s"
  "known hash (s\<lparr>gs_nvalidations := y\<rparr>) = known hash s" "known hash (s\<lparr>gs_edgeAt := z\<rparr>) = known hash s"
  by (auto simp: known_def)

lemma known_inj: "nm_ok hash (gs_nodeMap s) \<Longrightarrow> known hash s n \<Longrightarrow> known hash s m \<Longrightarrow> nc_ptr n = nc_ptr m \<Longrightarrow> n = m"
  using node_chains.lookup_inj [of hash "gs_nodeMap s" "nc_path n" n "nc_path m" m]
  by (simp add: known_def)

lemma targetNode_ok:
  assumes "nm_ok hash (gs_nodeMap s)" and "targetNode hash env t s = Inr (n, s')"
  obtains nm where "s' = s\<lparr>gs_nodeMap := nm\<rparr>" "grows_nodes hash s s'" "known hash s' n"
proof -
  obtain p where s': "s' = s\<lparr>gs_nodeMap := snd (nm_node hash p (gs_nodeMap s))\<rparr>"
    and n: "n = fst (nm_node hash p (gs_nodeMap s))"
    using assms(2) by (auto simp: targetNode_def rbind_eq_Inr Let_def case_prod_unfold)
  have "grows_nodes hash s s'"
    using node_chains.node_ok [OF assms(1)] node_chains.node_mono [OF assms(1)] by (simp add: grows_nodes_def s')
  moreover have "known hash s' n"
    using node_chains.node_lookup [OF assms(1), of p] node_chains.node_path [OF assms(1), of p]
    by (simp add: known_def s' n)
  ultimately show thesis using that s' by blast
qed

subsection \<open>The loops of parseBuild\<close>

lemma build_outs_ok:
  assumes "nm_ok hash (gs_nodeMap s)" and "build_outs hash ptr ps e s = Inr (e', s')"
  shows "\<exists>new nm. e' = e\<lparr>ed_outputs := ed_outputs e @ new\<rparr> \<and> length new = length ps \<and>
    grows_nodes hash s s' \<and> (\<forall>n \<in> set new. known hash s' n \<and> gs_inEdge s (nc_ptr n) = None) \<and>
    distinct (map nc_ptr new) \<and>
    s' = s\<lparr>gs_nodeMap := nm, gs_inEdge := (\<lambda>x. if x \<in> nc_ptr ` set new then Some ptr else gs_inEdge s x)\<rparr>"
  using assms
proof (induction ps arbitrary: e s)
  case Nil
  then show ?case by (auto simp: grows_nodes_def intro!: exI [of _ "gs_nodeMap s"])
next
  case (Cons p ps)
  from Cons.prems(2) obtain n s1 where t: "targetNode hash (edgeEnv_lookupVar hash False e) p s = Inr (n, s1)"
    and free: "gs_inEdge s1 (nc_ptr n) = None"
    and rest: "build_outs hash ptr ps (e\<lparr>ed_outputs := ed_outputs e @ [n]\<rparr>)
        (s1\<lparr>gs_inEdge := (gs_inEdge s1)(nc_ptr n \<mapsto> ptr)\<rparr>) = Inr (e', s')"
    by (auto simp: rbind_eq_Inr setInEdge_def split: if_splits)
  obtain nm where s1: "s1 = s\<lparr>gs_nodeMap := nm\<rparr>" "grows_nodes hash s s1" "known hash s1 n"
    using targetNode_ok [OF Cons.prems(1) t] by blast
  let ?s2 = "s1\<lparr>gs_inEdge := (gs_inEdge s1)(nc_ptr n \<mapsto> ptr)\<rparr>"
  have ok2: "nm_ok hash (gs_nodeMap ?s2)" using s1(2) by (simp add: grows_nodes_def)
  obtain new nm' where IH: "e' = e\<lparr>ed_outputs := (ed_outputs e @ [n]) @ new\<rparr>" "length new = length ps"
    "grows_nodes hash ?s2 s'" "\<forall>m \<in> set new. known hash s' m \<and> gs_inEdge ?s2 (nc_ptr m) = None"
    "distinct (map nc_ptr new)"
    "s' = ?s2\<lparr>gs_nodeMap := nm', gs_inEdge := (\<lambda>x. if x \<in> nc_ptr ` set new then Some ptr else gs_inEdge ?s2 x)\<rparr>"
    using Cons.IH [OF ok2 rest] by auto
  have "grows_nodes hash s s'" using s1(2) IH(3) by (simp add: grows_nodes_def)
  moreover have "known hash s' n"
    using IH(3) s1(3) by (intro grows_nodes_known [OF IH(3)]) simp
  moreover have "gs_inEdge s (nc_ptr n) = None" using free s1(1) by simp
  moreover have other: "\<forall>m \<in> set new. nc_ptr m \<noteq> nc_ptr n \<and> gs_inEdge s (nc_ptr m) = None"
    using IH(4) s1(1) by (auto split: if_splits)
  moreover have "distinct (map nc_ptr (n # new))" using other IH(5) by auto
  moreover have f: "(\<lambda>x. if x \<in> nc_ptr ` set new then Some ptr else gs_inEdge ?s2 x) =
      (\<lambda>x. if x \<in> nc_ptr ` set (n # new) then Some ptr else gs_inEdge s x)"
    by (rule ext) (simp add: s1(1))
  have "s' = s\<lparr>gs_nodeMap := nm',
      gs_inEdge := (\<lambda>x. if x \<in> nc_ptr ` set (n # new) then Some ptr else gs_inEdge s x)\<rparr>"
    using IH(6) unfolding f by (simp only:) (simp add: s1(1))
  ultimately show ?case
    using IH(1,2,4) by (intro exI [of _ "n # new"] exI [of _ nm']) auto
qed

lemma build_ins_ok:
  assumes "nm_ok hash (gs_nodeMap s)" and "build_ins hash ps e s = Inr (e', s')"
  shows "\<exists>new nm no. e' = e\<lparr>ed_inputs := ed_inputs e @ new\<rparr> \<and> length new = length ps \<and>
    grows_nodes hash s s' \<and> (\<forall>n \<in> set new. known hash s' n) \<and> s' = s\<lparr>gs_nodeMap := nm, gs_nouts := no\<rparr>"
  using assms
proof (induction ps arbitrary: e s)
  case Nil
  then show ?case by (auto simp: grows_nodes_def intro!: exI [of _ "gs_nodeMap s"] exI [of _ "gs_nouts s"])
next
  case (Cons p ps)
  from Cons.prems(2) obtain n s1 where t: "targetNode hash (edgeEnv_lookupVar hash False e) p s = Inr (n, s1)"
    and rest: "build_ins hash ps (e\<lparr>ed_inputs := ed_inputs e @ [n]\<rparr>)
        (s1\<lparr>gs_nouts := (gs_nouts s1)(nc_ptr n := gs_nouts s1 (nc_ptr n) + 1)\<rparr>) = Inr (e', s')"
    by (auto simp: rbind_eq_Inr)
  obtain nm where s1: "s1 = s\<lparr>gs_nodeMap := nm\<rparr>" "grows_nodes hash s s1" "known hash s1 n"
    using targetNode_ok [OF Cons.prems(1) t] by blast
  let ?s2 = "s1\<lparr>gs_nouts := (gs_nouts s1)(nc_ptr n := gs_nouts s1 (nc_ptr n) + 1)\<rparr>"
  have ok2: "nm_ok hash (gs_nodeMap ?s2)" using s1(2) by (simp add: grows_nodes_def)
  obtain new nm' no where IH: "e' = e\<lparr>ed_inputs := (ed_inputs e @ [n]) @ new\<rparr>" "length new = length ps"
    "grows_nodes hash ?s2 s'" "\<forall>m \<in> set new. known hash s' m" "s' = ?s2\<lparr>gs_nodeMap := nm', gs_nouts := no\<rparr>"
    using Cons.IH [OF ok2 rest] by auto
  have "grows_nodes hash s s'" using s1(2) IH(3) by (simp add: grows_nodes_def)
  moreover have "known hash s' n" using s1(3) by (intro grows_nodes_known [OF IH(3)]) simp
  ultimately show ?case
    using IH s1(1) by (intro exI [of _ "n # new"] exI [of _ nm'] exI [of _ no]) auto
qed

lemma build_validations_ok:
  assumes "nm_ok hash (gs_nodeMap s)" and "build_validations hash ps e s = Inr (e', s')"
  shows "\<exists>new nm nv. e' = e\<lparr>ed_validations := ed_validations e @ new\<rparr> \<and> length new = length ps \<and>
    grows_nodes hash s s' \<and> (\<forall>n \<in> set new. known hash s' n) \<and> s' = s\<lparr>gs_nodeMap := nm, gs_nvalidations := nv\<rparr>"
  using assms
proof (induction ps arbitrary: e s)
  case Nil
  then show ?case by (auto simp: grows_nodes_def intro!: exI [of _ "gs_nodeMap s"] exI [of _ "gs_nvalidations s"])
next
  case (Cons p ps)
  from Cons.prems(2) obtain n s1 where t: "targetNode hash (edgeEnv_lookupVar hash False e) p s = Inr (n, s1)"
    and rest: "build_validations hash ps (e\<lparr>ed_validations := ed_validations e @ [n]\<rparr>)
        (s1\<lparr>gs_nvalidations := (gs_nvalidations s1)(nc_ptr n := gs_nvalidations s1 (nc_ptr n) + 1)\<rparr>) = Inr (e', s')"
    by (auto simp: rbind_eq_Inr)
  obtain nm where s1: "s1 = s\<lparr>gs_nodeMap := nm\<rparr>" "grows_nodes hash s s1" "known hash s1 n"
    using targetNode_ok [OF Cons.prems(1) t] by blast
  let ?s2 = "s1\<lparr>gs_nvalidations := (gs_nvalidations s1)(nc_ptr n := gs_nvalidations s1 (nc_ptr n) + 1)\<rparr>"
  have ok2: "nm_ok hash (gs_nodeMap ?s2)" using s1(2) by (simp add: grows_nodes_def)
  obtain new nm' nv where IH: "e' = e\<lparr>ed_validations := (ed_validations e @ [n]) @ new\<rparr>" "length new = length ps"
    "grows_nodes hash ?s2 s'" "\<forall>m \<in> set new. known hash s' m" "s' = ?s2\<lparr>gs_nodeMap := nm', gs_nvalidations := nv\<rparr>"
    using Cons.IH [OF ok2 rest] by auto
  have "grows_nodes hash s s'" using s1(2) IH(3) by (simp add: grows_nodes_def)
  moreover have "known hash s' n" using s1(3) by (intro grows_nodes_known [OF IH(3)]) simp
  ultimately show ?case
    using IH s1(1) by (intro exI [of _ "n # new"] exI [of _ nm'] exI [of _ nv]) auto
qed

subsection \<open>The lists of a build line\<close>

lemma parse_outs_count:
  assumes "parse_outs pp = Inr (pp', outs, k)"
  shows "k \<le> length outs"
proof -
  obtain pp1 outs1 n1 where 1: "pp_pathList pp [] 0 = Inr (pp1, outs1, n1)"
    and 2: "(case pp_pipe pp1 of (pp2, True) \<Rightarrow> pp_pathList pp2 outs1 0 | (pp2, False) \<Rightarrow> Inr (pp2, outs1, 0)) = Inr (pp', outs, k)"
    using assms by (auto simp: parse_outs_def rbind_eq_Inr)
  from 2 show ?thesis
    by (cases "pp_pipe pp1"; cases "snd (pp_pipe pp1)") (auto dest!: pp_pathList_count)
qed

lemma pipe_list_count:
  assumes "(case q of (pp2, True) \<Rightarrow> pp_pathList pp2 pl 0 | (pp2, False) \<Rightarrow> Inr (pp2, pl, 0)) = Inr (pp', pl', k)"
  shows "length pl' = length pl + k"
  using assms by (cases q; cases "snd q") (auto dest!: pp_pathList_count)

lemma parse_ins_count:
  assumes "parse_ins pp = Inr (ins, implicit, orderOnly, vals)"
  shows "implicit + orderOnly \<le> length ins"
proof -
  obtain pp1 ins1 n1 pp3 ins3 pp5 where
      "pp_pathList pp [] 0 = Inr (pp1, ins1, n1)"
      "(case pp_pipe pp1 of (pp2, True) \<Rightarrow> pp_pathList pp2 ins1 0 | (pp2, False) \<Rightarrow> Inr (pp2, ins1, 0)) = Inr (pp3, ins3, implicit)"
      "(case pp_pipe2 pp3 of (pp4, True) \<Rightarrow> pp_pathList pp4 ins3 0 | (pp4, False) \<Rightarrow> Inr (pp4, ins3, 0)) = Inr (pp5, ins, orderOnly)"
    using assms by (auto simp: parse_ins_def rbind_eq_Inr)
  then show ?thesis by (auto dest!: pipe_list_count)
qed

subsection \<open>The invariant\<close>

definition edge_inv :: "(bytes \<Rightarrow> 64 word) \<Rightarrow> state \<Rightarrow> nat \<Rightarrow> edge \<Rightarrow> bool" where
  "edge_inv hash s p e \<longleftrightarrow>
     edge_ok e \<and> ed_outputs e \<noteq> [] \<and> distinct (map nc_ptr (ed_outputs e)) \<and>
     (\<forall>n \<in> set (ed_outputs e). gs_inEdge s (nc_ptr n) = Some p) \<and>
     (\<forall>n \<in> set (ed_outputs e @ ed_inputs e @ ed_validations e). known hash s n)"

definition graph_inv :: "(bytes \<Rightarrow> 64 word) \<Rightarrow> state \<Rightarrow> bool" where
  "graph_inv hash s \<longleftrightarrow>
     nm_ok hash (gs_nodeMap s) \<and>
     (\<forall>p e. gs_edgeAt s p = Some e \<longrightarrow> edge_inv hash s p e) \<and>
     (\<forall>x p. gs_inEdge s x = Some p \<longrightarrow> (\<exists>e. gs_edgeAt s p = Some e \<and> x \<in> nc_ptr ` set (ed_outputs e)))"

text \<open>The invariant and the nodes are kept, and the addresses in \<open>U\<close> are all that may get an edge.\<close>

definition keeps :: "(bytes \<Rightarrow> 64 word) \<Rightarrow> nat set \<Rightarrow> state \<Rightarrow> state \<Rightarrow> bool" where
  "keeps hash U s s' \<longleftrightarrow> graph_inv hash s' \<and> dom (gs_edgeAt s') \<subseteq> dom (gs_edgeAt s) \<union> U \<and>
     gs_heap s' = gs_heap s \<and> gs_edges s' = gs_edges s \<and> map_le (gs_edgeAt s) (gs_edgeAt s')"

lemma keeps_state_trans: "keeps hash U a b \<Longrightarrow> keeps hash V b c \<Longrightarrow> keeps hash (U \<union> V) a c"
  using map_le_trans [of "gs_edgeAt a" "gs_edgeAt b" "gs_edgeAt c"] by (simp add: keeps_def) blast

lemma keeps_mono: "keeps hash U a b \<Longrightarrow> U \<subseteq> V \<Longrightarrow> keeps hash V a b"
  by (auto simp: keeps_def)

lemma edge_inv_grows:
  assumes "edge_inv hash s p e" and "grows_nodes hash s s'"
    and "\<And>x q. gs_inEdge s x = Some q \<Longrightarrow> gs_inEdge s' x = Some q"
  shows "edge_inv hash s' p e"
  using assms grows_nodes_known [OF assms(2)] by (auto simp: edge_inv_def)

lemma graph_inv_nodes:
  assumes "graph_inv hash s" and "grows_nodes hash s s'" and "gs_inEdge s' = gs_inEdge s"
    and "gs_edgeAt s' = gs_edgeAt s"
  shows "graph_inv hash s'"
  using assms edge_inv_grows [OF _ assms(2)] by (auto simp: graph_inv_def grows_nodes_def)

lemma default_nodes_ok:
  assumes "graph_inv hash s" and "default_nodes hash env ps s = Inr (ns, s')"
  shows "keeps hash {} s s' \<and> grows_nodes hash s s'"
  using assms
proof (induction ps arbitrary: s ns)
  case Nil
  then show ?case by (auto simp: keeps_def graph_inv_def grows_nodes_def)
next
  case (Cons p ps)
  then obtain n s1 ns' where t: "targetNode hash env p s = Inr (n, s1)" and r: "default_nodes hash env ps s1 = Inr (ns', s')"
    by (auto simp: rbind_eq_Inr)
  have ok: "nm_ok hash (gs_nodeMap s)" using Cons.prems(1) by (simp add: graph_inv_def)
  obtain nm where s1: "s1 = s\<lparr>gs_nodeMap := nm\<rparr>" "grows_nodes hash s s1"
    using targetNode_ok [OF ok t] by blast
  have "graph_inv hash s1" using graph_inv_nodes [OF Cons.prems(1) s1(2)] s1(1) by simp
  from Cons.IH [OF this r] show ?case
    using s1 by (auto simp: keeps_def grows_nodes_def)
qed

end
