(* ===== verification/Chunk_Split.thy ===== *)
theory Chunk_Split
  imports Chunk_Proofs
begin

text \<open>
  Splitting is invisible: the parser may cut a file at any boundary \<open>nextChunk\<close> finds, parse the
  pieces separately, and get the statements of the whole file. A boundary is a position the
  sequential parse loop always stops at, and what it does there does not depend on the statement
  before. The bounds of statements and the counters of a chunk follow.
\<close>

lemma newChunk_sel [simp]:
  "ch_buf (newChunk buf s e) = buf" "ch_start (newChunk buf s e) = s" "ch_end (newChunk buf s e) = e"
  "ch_statements (newChunk buf s e) = []" "(newChunk buf s e)\<lparr>ch_statements := []\<rparr> = newChunk buf s e"
  by (simp_all add: newChunk_def)

subsection \<open>Boundaries\<close>

definition chunk_boundary :: "bytes \<Rightarrow> nat \<Rightarrow> bool" where
  "chunk_boundary buf b \<longleftrightarrow>
     b = length buf \<or>
     (0 < b \<and> b < length buf \<and> buf ! (b - 1) = NL \<and>
      \<not> (b \<ge> 2 \<and> buf ! (b - 2) = CHR ''$'') \<and>
      \<not> (b \<ge> 3 \<and> buf ! (b - 3) = CHR ''$'' \<and> buf ! (b - 2) = CR) \<and>
      buf ! b \<notin> {CHR '' '', TAB, CHR ''#'', CR, NL})"

lemma chunk_boundary_le: "chunk_boundary buf b \<Longrightarrow> b \<le> length buf"
  by (auto simp: chunk_boundary_def)

lemma nextChunk_boundary: "i \<le> length buf \<Longrightarrow> chunk_boundary buf (nextChunk buf i)"
proof (induction "length buf - i" arbitrary: i rule: less_induct)
  case less
  show ?case
  proof (cases rule: nextChunk_cases [of buf i])
    case 1
    then show ?thesis by (simp add: chunk_boundary_def)
  next
    case (2 j)
    then have "length buf - j < length buf - i" by linarith
    from less.hyps [OF this 2(2)] 2(3) show ?thesis by simp
  next
    case (3 n)
    have "buf ! (i + n) = NL"
      using index_byte_nth [OF 3(1)] index_byte_drop_lt [OF 3(1)] by simp
    then show ?thesis using 3 by (auto simp: chunk_boundary_def)
  qed
qed

lemma first_newline_le:
  assumes "s \<le> k" and "k < length buf" and "buf ! k = NL"
  obtains i where "index_byte (drop s buf) NL = Some i" "s + i \<le> k"
proof (cases "index_byte (drop s buf) NL")
  case None
  have "drop s buf ! (k - s) = NL" "k - s < length (drop s buf)" using assms by simp_all
  then have "NL \<in> set (drop s buf)" by (metis nth_mem)
  then show thesis using None by (simp add: index_byte_None)
next
  case (Some i)
  have "\<not> k - s < i"
    using Some assms by (auto simp: index_byte_def index_of_Some)
  then show thesis using that [OF Some] assms(1) by linarith
qed

lemma findNextLine_boundary:
  assumes "chunk_boundary buf b"
  shows "s < b \<Longrightarrow> findNextLine buf s \<le> b"
proof (induction "length buf - s" arbitrary: s rule: less_induct)
  case less
  have s: "s < length buf" using less.prems chunk_boundary_le [OF assms] by linarith
  show ?case
  proof (cases "b = length buf")
    case True
    then show ?thesis using findNextLine_bounds [OF s] by simp
  next
    case False
    then have b: "0 < b" "b < length buf" "buf ! (b - 1) = NL"
      "\<not> (b \<ge> 2 \<and> buf ! (b - 2) = CHR ''$'')"
      "\<not> (b \<ge> 3 \<and> buf ! (b - 3) = CHR ''$'' \<and> buf ! (b - 2) = CR)"
      using assms by (auto simp: chunk_boundary_def)
    have "s \<le> b - 1" "b - 1 < length buf" using less.prems b by linarith+
    then obtain i where i: "index_byte (drop s buf) NL = Some i" "s + i \<le> b - 1"
      using first_newline_le b(3) by metis
    have rec: "findNextLine buf (s + i + 1) \<le> b" if "s + i + 1 < b"
      using that s by (intro less.hyps) linarith+
    show ?thesis
    proof (cases "s + i + 1 = b")
      case True
      then have "b - 2 = s + i - 1" "b - 3 = s + i - 2" by linarith+
      then have "\<not> (i > 1 \<and> buf ! (s + i - 2) = CHR ''$'' \<and> buf ! (s + i - 1) = CR)"
        "\<not> (i > 0 \<and> buf ! (s + i - 1) = CHR ''$'')"
        using b(4,5) True by auto
      then have "findNextLine buf s = s + i + 1"
        unfolding findNextLine.simps [of buf s] i(1) option.case by (simp only: if_False)
      then show ?thesis using True by simp
    next
      case False
      then have lt: "s + i + 1 < b" using i(2) b(1) by linarith
      have "findNextLine buf s \<in> {findNextLine buf (s + i + 1), s + i + 1}"
        unfolding findNextLine.simps [of buf s] i(1) option.case by (simp split: if_split)
      then show ?thesis using rec [OF lt] lt by auto
    qed
  qed
qed

lemma line_step_boundary:
  assumes "line_step buf i i' sts" and "i < b" and "chunk_boundary buf b"
  shows "i' \<le> b"
  using assms(1)
proof cases
  case (comment j)
  show ?thesis
  proof (cases "b = length buf")
    case True
    then show ?thesis using comment index_byte_drop_lt [of "i + 1" buf NL j] by simp
  next
    case False
    then have b: "buf ! (b - 1) = NL" "b < length buf" "0 < b"
      using assms(3) by (auto simp: chunk_boundary_def)
    then have "i \<noteq> b - 1" using comment by auto
    then have "i + 1 \<le> b - 1" using assms(2) by linarith
    then obtain k where "index_byte (drop (i + 1) buf) NL = Some k" "i + 1 + k \<le> b - 1"
      using first_newline_le [of "i + 1" "b - 1" buf] b by (metis less_imp_diff_less)
    then show ?thesis using comment by simp
  qed
qed (use assms findNextLine_boundary [OF assms(3,2)] in auto)

subsection \<open>Rebasing a chunk on what was parsed before\<close>

definition rebase :: "chunk \<Rightarrow> nat \<Rightarrow> chunk \<Rightarrow> chunk" where
  "rebase A E ch = A\<lparr>ch_end := E, ch_statements := ch_statements A @ ch_statements ch,
     ch_nvar := ch_nvar A + ch_nvar ch, ch_nrule := ch_nrule A + ch_nrule ch,
     ch_nrulevar := ch_nrulevar A + ch_nrulevar ch, ch_nbuild := ch_nbuild A + ch_nbuild ch,
     ch_nbuildvar := ch_nbuildvar A + ch_nbuildvar ch, ch_npool := ch_npool A + ch_npool ch,
     ch_npoolvar := ch_npoolvar A + ch_npoolvar ch, ch_ndefault := ch_ndefault A + ch_ndefault ch,
     ch_ninclude := ch_ninclude A + ch_ninclude ch, ch_nsubninja := ch_nsubninja A + ch_nsubninja ch,
     ch_ncomment := ch_ncomment A + ch_ncomment ch\<rparr>"

lemma rebase_sel [simp]:
  "ch_buf (rebase A E ch) = ch_buf A" "ch_end (rebase A E ch) = E"
  "ch_statements (rebase A E ch) = ch_statements A @ ch_statements ch"
  "ch_nbuild (rebase A E ch) = ch_nbuild A + ch_nbuild ch"
  "ch_nrule (rebase A E ch) = ch_nrule A + ch_nrule ch"
  by (simp_all add: rebase_def)

lemma rebase_counts:
  "ch_nvar (rebase A E ch) = ch_nvar A + ch_nvar ch"
  "ch_nrulevar (rebase A E ch) = ch_nrulevar A + ch_nrulevar ch"
  "ch_nbuildvar (rebase A E ch) = ch_nbuildvar A + ch_nbuildvar ch"
  "ch_npool (rebase A E ch) = ch_npool A + ch_npool ch"
  "ch_npoolvar (rebase A E ch) = ch_npoolvar A + ch_npoolvar ch"
  "ch_ndefault (rebase A E ch) = ch_ndefault A + ch_ndefault ch"
  "ch_ninclude (rebase A E ch) = ch_ninclude A + ch_ninclude ch"
  "ch_nsubninja (rebase A E ch) = ch_nsubninja A + ch_nsubninja ch"
  by (simp_all add: rebase_def)

lemma rebase_update:
  "count_statement t (rebase A E ch) = rebase A E (count_statement t ch)"
  "add_statement t s v e (rebase A E ch) = rebase A E (add_statement t s v e ch)"
  "(rebase A E ch)\<lparr>ch_nvar := ch_nvar (rebase A E ch) + 1\<rparr> = rebase A E (ch\<lparr>ch_nvar := ch_nvar ch + 1\<rparr>)"
  "(rebase A E ch)\<lparr>ch_ncomment := ch_ncomment (rebase A E ch) + 1\<rparr> = rebase A E (ch\<lparr>ch_ncomment := ch_ncomment ch + 1\<rparr>)"
  by (cases t) (simp_all add: rebase_def add_statement_def)

abbreviation rebase_pos :: "chunk \<Rightarrow> nat \<Rightarrow> parse_pos \<Rightarrow> parse_pos" where
  "rebase_pos A E \<equiv> (\<lambda>(i, l, ch). (i, l, rebase A E ch))"

lemma parseIndent_rebase:
  assumes "ch_buf A = ch_buf ch"
  shows "parseIndent i l (rebase A E ch) = map_sum id (rebase_pos A E) (parseIndent i l ch)"
  unfolding parseIndent_def Let_def rebase_sel assms rebase_update
  by (auto split: option.split)

lemma parseVarDecl_rebase:
  assumes "ch_buf A = ch_buf ch"
  shows "parseVarDecl i (rebase A E ch) = map_sum id (rebase_pos A E) (parseVarDecl i ch)"
  unfolding parseVarDecl_def Let_def rebase_sel assms rebase_update
  by (auto split: option.split)

lemma parseLine_rebase:
  assumes "ch_buf A = ch_buf ch"
  shows "parseLine i l (rebase A E ch) = map_sum id (rebase_pos A E) (parseLine i l ch)"
  unfolding parseLine_def Let_def rebase_sel assms rebase_update
    parseIndent_rebase [OF assms] parseVarDecl_rebase [OF assms]
  by (cases "isStatement (ch_buf ch) i (fst (the (keyword_of (ch_buf ch ! i))))")
    (auto split: option.split)

lemma parseLine_boundary:
  "ch_buf ch ! i \<notin> {CHR '' '', TAB, CHR ''#'', CR, NL} \<Longrightarrow> parseLine i l ch = parseLine i l' ch"
  by (simp add: parseLine_def Let_def)

lemma parseChunk_loop_boundary:
  assumes "chunk_boundary (ch_buf ch) i"
  shows "parseChunk_loop i l ch = parseChunk_loop i l' ch"
proof (cases "i < length (ch_buf ch)")
  case True
  then have "parseLine i l ch = parseLine i l' ch"
    using assms by (intro parseLine_boundary) (auto simp: chunk_boundary_def)
  then show ?thesis unfolding loop_unfold [of i l ch] loop_unfold [of i l' ch] by simp
next
  case False
  then show ?thesis by (simp add: parseChunk_loop_stop)
qed

text \<open>A run up to the boundary \<open>b\<close>, continued behind it.\<close>

lemma parseChunk_loop_segment:
  assumes "parseChunk_loop i l ch = Some r"
    and "chunk_boundary (ch_buf ch) b" and "ch_end ch = b" and "i \<le> b" and "b \<le> E"
    and "ch_buf A = ch_buf ch"
  shows "case r of
      Inl err \<Rightarrow> parseChunk_loop i l (rebase A E ch) = Some (Inl err)
    | Inr ch' \<Rightarrow> ch_buf ch' = ch_buf ch \<and>
        parseChunk_loop i l (rebase A E ch) = parseChunk_loop b statementNone (rebase A E ch')"
  using assms
proof (induction i l ch r rule: parseChunk_loop_induct)
  case (stop i l ch)
  then have "i = b" using chunk_boundary_le by fastforce
  then have "chunk_boundary (ch_buf (rebase A E ch)) i" using stop.prems by simp
  from parseChunk_loop_boundary [OF this, of l statementNone] show ?case using \<open>i = b\<close> by simp
next
  case (err i l ch e)
  have "parseLine i l (rebase A E ch) = Inl e" using err by (simp add: parseLine_rebase)
  moreover have "i < length (ch_buf (rebase A E ch))" "i < ch_end (rebase A E ch)" using err by simp_all
  ultimately show ?case using parseChunk_loop_err by (simp del: rebase_sel)
next
  case (step i l ch i' l' ch' r)
  obtain sts where st: "line_step (ch_buf ch) i i' sts" "ch_buf ch' = ch_buf ch" "ch_end ch' = ch_end ch"
    using parseLine_line_step [OF step.hyps(3)] by blast
  have "i' \<le> b" using line_step_boundary [OF st(1) _ step.prems(1)] step.hyps(2) step.prems(2) by simp
  then have IH: "case r of
      Inl err \<Rightarrow> parseChunk_loop i' l' (rebase A E ch') = Some (Inl err)
    | Inr ch'' \<Rightarrow> ch_buf ch'' = ch_buf ch' \<and>
        parseChunk_loop i' l' (rebase A E ch') = parseChunk_loop b statementNone (rebase A E ch'')"
    using step.IH step.prems st by simp
  have "parseLine i l (rebase A E ch) = Inr (i', l', rebase A E ch')"
    using step.hyps(3) step.prems(5) by (simp add: parseLine_rebase)
  moreover have "i < length (ch_buf (rebase A E ch))" "i < ch_end (rebase A E ch)" using step by simp_all
  ultimately have "parseChunk_loop i l (rebase A E ch) = parseChunk_loop i' l' (rebase A E ch')"
    using parseChunk_loop_step by (simp del: rebase_sel)
  then show ?case using IH st(2) by (cases r) simp_all
qed

lemma rebase_newChunk: "ch_end A = E \<Longrightarrow> rebase A E (newChunk buf s e) = A"
  by (simp add: rebase_def newChunk_def)

subsection \<open>All chunks\<close>

lemma split_loop_from_cases:
  assumes "start < length buf" and "0 < k"
  obtains b where "split_loop_from buf k start = newChunk buf start b # split_loop_from buf k b"
    "chunk_boundary buf b" "start < b"
proof -
  let ?to = "min (start + k) (length buf)"
  let ?b = "if ?to < length buf then nextChunk buf ?to else ?to"
  have "split_loop_from buf k start = newChunk buf start ?b # split_loop_from buf k ?b"
    using assms unfolding split_loop_from.simps [of buf k start] by (simp add: Let_def)
  moreover have "chunk_boundary buf ?b"
    using nextChunk_boundary [of ?to buf] by (auto simp: chunk_boundary_def [of buf "length buf"])
  moreover have "start < ?b" using nextChunk_bounds [of ?to buf] assms by (auto simp: min_def split: if_splits)
  ultimately show thesis by (rule that)
qed

text \<open>What was parsed before, followed by the chunks.\<close>

definition rebase_all :: "chunk \<Rightarrow> chunk list \<Rightarrow> chunk" where
  "rebase_all A cs = foldl (\<lambda>A c. rebase A (length (ch_buf A)) c) A cs"

lemma rebase_all_simps [simp]:
  "rebase_all A [] = A" "rebase_all A (c # cs) = rebase_all (rebase A (length (ch_buf A)) c) cs"
  by (simp_all add: rebase_all_def)

text \<open>
  The reference: the chunks one after the other, up to the first that fails or does not return.
\<close>

fun parse_in_order :: "chunk list \<Rightarrow> chunk list res option" where
  "parse_in_order [] = Some (Inr [])"
| "parse_in_order (c # cs) = obind (parseChunk c) (\<lambda>c'. obind (parse_in_order cs) (\<lambda>cs'. Some (Inr (c' # cs'))))"

lemma parse_in_order_from:
  assumes "start \<le> length buf" and "0 < k"
    and "parse_in_order (split_loop_from buf k start) = Some r"
    and "ch_buf A = buf" and "ch_end A = length buf"
  shows "parseChunk_loop start statementNone A = Some (map_sum id (rebase_all A) r)"
  using assms
proof (induction "length buf - start" arbitrary: start r A rule: less_induct)
  case less
  show ?case
  proof (cases "start < length buf")
    case False
    then have "split_loop_from buf k start = []" by (simp add: split_loop_from.simps [of buf k start])
    then show ?thesis using less.prems False by (auto simp: parseChunk_loop_stop)
  next
    case True
    obtain b where b: "split_loop_from buf k start = newChunk buf start b # split_loop_from buf k b"
      "chunk_boundary buf b" "start < b"
      using split_loop_from_cases [OF True less.prems(2)] by blast
    let ?A = "rebase A (length buf) (newChunk buf start b)"
    have le: "b \<le> length buf" using chunk_boundary_le [OF b(2)] .
    have A: "?A = A" using less.prems(5) by (simp add: rebase_newChunk)
    have start: "parseChunk (newChunk buf start b) = parseChunk_loop start statementNone (newChunk buf start b)"
      by (simp add: parseChunk_def newChunk_def)
    have seg: "parseChunk_loop start statementNone (newChunk buf start b) = Some q \<Longrightarrow>
       (case q of Inl err \<Rightarrow> parseChunk_loop start statementNone ?A = Some (Inl err)
        | Inr ch' \<Rightarrow> ch_buf ch' = buf \<and>
            parseChunk_loop start statementNone ?A = parseChunk_loop b statementNone (rebase A (length buf) ch'))" for q
      using parseChunk_loop_segment [of start statementNone "newChunk buf start b" q b "length buf" A]
        b(2,3) le less.prems(4) by (cases q) simp_all
    from less.prems(3) consider
        (err) e where "parseChunk (newChunk buf start b) = Some (Inl e)" "r = Inl e"
      | (ok) c where "parseChunk (newChunk buf start b) = Some (Inr c)"
          "obind (parse_in_order (split_loop_from buf k b)) (\<lambda>cs'. Some (Inr (c # cs'))) = Some r"
      by (auto simp: b(1) obind_eq_Some)
    then show ?thesis
    proof cases
      case err
      then show ?thesis using seg [of "Inl e"] A start by simp
    next
      case ok
      obtain q where q1: "parse_in_order (split_loop_from buf k b) = Some q"
        using ok(2) by (cases "parse_in_order (split_loop_from buf k b)") auto
      have q2: "r = map_sum id ((#) c) q" using ok(2) q1 by (cases q) auto
      note q = q1 q2
      have "parseChunk_loop b statementNone (rebase A (length buf) c) =
          Some (map_sum id (rebase_all (rebase A (length buf) c)) q)"
        using b(3) True le less.prems(2,4) q(1) by (intro less.hyps) auto
      then show ?thesis using seg [of "Inr c"] ok(1) A start q(2) less.prems(4) by (cases q) simp_all
    qed
  qed
qed

text \<open>
  What an error group may report of the results of its functions: all values, or the error of one of
  them, which is a panic if there is one.
\<close>

definition group_result :: "'a res list \<Rightarrow> 'a list res \<Rightarrow> bool" where
  "group_result rs r \<longleftrightarrow>
     (case r of
        Inr xs \<Rightarrow> rs = map Inr xs
      | Inl e \<Rightarrow> Inl e \<in> set rs \<and> ((\<exists>m. e = Panic m) \<or> (\<forall>m. Inl (Panic m) \<notin> set rs)))"

lemma group_join_result: "group_result rs q \<Longrightarrow> group_result (r # rs) (group_join r q)"
  by (cases "(r, q)" rule: group_join.cases) (auto simp: group_result_def split: sum.splits)

text \<open>If all chunks return, the model reports one of the possible results.\<close>

lemma parseChunks_reports:
  "map parseChunk cs = map Some rs \<Longrightarrow> \<exists>r. parseChunks cs = Some r \<and> group_result rs r"
proof (induction cs arbitrary: rs)
  case (Cons c cs)
  obtain x rs' where x: "rs = x # rs'" "parseChunk c = Some x" "map parseChunk cs = map Some rs'"
    using Cons.prems by (cases rs) auto
  obtain q where "parseChunks cs = Some q" "group_result rs' q" using Cons.IH [OF x(3)] by blast
  then show ?case using x(1,2) group_join_result by auto
qed (auto simp: group_result_def)

lemma parseChunks_all_Inr: "map parseChunk cs = map (Some \<circ> Inr) xs \<Longrightarrow> parseChunks cs = Some (Inr xs)"
proof (induction cs arbitrary: xs)
  case (Cons c cs)
  then show ?case by (cases xs) (auto simp: comp_def)
qed simp

text \<open>If all chunks return, the reference gives the values, or the error of the first chunk that fails.\<close>

fun first_failure :: "'a res list \<Rightarrow> failure option" where
  "first_failure [] = None"
| "first_failure (Inl e # rs) = Some e"
| "first_failure (Inr x # rs) = first_failure rs"

lemma parse_in_order_results:
  "map parseChunk cs = map Some rs \<Longrightarrow>
    parse_in_order cs = Some (case first_failure rs of None \<Rightarrow> Inr (map projr rs) | Some e \<Rightarrow> Inl e)"
proof (induction cs arbitrary: rs)
  case (Cons c cs)
  obtain x rs' where x: "rs = x # rs'" "parseChunk c = Some x" "map parseChunk cs = map Some rs'" using Cons.prems by (cases rs) auto
  show ?case using Cons.IH [OF x(3)] x(1,2) by (cases x) (auto split: option.splits)
qed auto

lemma first_failure_None: "first_failure rs = None \<longleftrightarrow> (\<forall>e. Inl e \<notin> set rs)"
  by (induction rs rule: first_failure.induct) auto

lemma group_result_Inr: "group_result rs (Inr xs) \<Longrightarrow> first_failure rs = None \<and> map projr rs = xs"
  by (auto simp: group_result_def first_failure_None comp_def)

lemma group_result_Inl: "group_result rs (Inl e) \<Longrightarrow> \<exists>e'. first_failure rs = Some e'"
  using first_failure_None [of rs] by (cases "first_failure rs") (auto simp: group_result_def)

lemma rebase_all_sel:
  "ch_statements (rebase_all A cs) = ch_statements A @ concat (map ch_statements cs)"
  "ch_nbuild (rebase_all A cs) = ch_nbuild A + sum_list (map ch_nbuild cs)"
  "ch_nrule (rebase_all A cs) = ch_nrule A + sum_list (map ch_nrule cs)"
  "ch_nvar (rebase_all A cs) = ch_nvar A + sum_list (map ch_nvar cs)"
  "ch_nrulevar (rebase_all A cs) = ch_nrulevar A + sum_list (map ch_nrulevar cs)"
  "ch_nbuildvar (rebase_all A cs) = ch_nbuildvar A + sum_list (map ch_nbuildvar cs)"
  "ch_npool (rebase_all A cs) = ch_npool A + sum_list (map ch_npool cs)"
  "ch_npoolvar (rebase_all A cs) = ch_npoolvar A + sum_list (map ch_npoolvar cs)"
  "ch_ndefault (rebase_all A cs) = ch_ndefault A + sum_list (map ch_ndefault cs)"
  "ch_ninclude (rebase_all A cs) = ch_ninclude A + sum_list (map ch_ninclude cs)"
  "ch_nsubninja (rebase_all A cs) = ch_nsubninja A + sum_list (map ch_nsubninja cs)"
  by (induction cs arbitrary: A) (simp_all add: rebase_counts)

subsection \<open>Bounds and order of the statements\<close>

lemma findNextLine_ge:
  assumes "s \<le> k" and "k \<le> length buf" and "NL \<notin> set (sub buf s k)"
  shows "k \<le> findNextLine buf s"
proof (cases "index_byte (drop s buf) NL")
  case None
  then show ?thesis using assms(2) by (simp add: findNextLine.simps [of buf s])
next
  case (Some i)
  have "\<not> s + i < k"
  proof
    assume lt: "s + i < k"
    then have "sub buf s k ! i = NL" "i < length (sub buf s k)"
      using index_byte_nth [OF Some] assms(2) by (simp_all add: nth_sub)
    then show False using assms(3) by (metis nth_mem)
  qed
  moreover have "s + i < findNextLine buf s"
  proof -
    have lt: "s + i < length buf" using index_byte_drop_lt [OF Some] .
    have "findNextLine buf (s + i + 1) > s + i"
    proof (cases "s + i + 1 < length buf")
      case True
      then show ?thesis using findNextLine_bounds [OF True] by linarith
    next
      case False
      then have "findNextLine buf (s + i + 1) = length buf"
        unfolding findNextLine.simps [of buf "s + i + 1"] by (simp add: index_byte_def)
      then show ?thesis using lt by simp
    qed
    moreover have "findNextLine buf s \<in> {findNextLine buf (s + i + 1), s + i + 1}"
      unfolding findNextLine.simps [of buf s] Some option.case by (simp split: if_split)
    ultimately show ?thesis by auto
  qed
  ultimately show ?thesis by linarith
qed

definition statement_ok :: "bytes \<Rightarrow> statement \<Rightarrow> bool" where
  "statement_ok buf st \<longleftrightarrow>
     st_s st < st_e st \<and> st_e st \<le> length buf \<and> st_s st \<le> st_v st \<and> st_v st \<le> length buf \<and>
     (st_t st \<noteq> statementVarDecl \<longrightarrow> st_v st \<le> st_e st)"

lemma keyword_ok:
  assumes "keyword_of (buf ! i) = Some (name, t)" and "isStatement buf i name = Inr (Some v)" and "i < length buf"
  shows "i \<le> v \<and> v \<le> findNextLine buf i \<and> v \<le> length buf"
proof -
  have name: "NL \<notin> set name"
    using assms(1) by (auto simp: keyword_of_def split: if_splits)
  have p: "has_prefix (drop i buf) name" "i + length name < length buf"
    "buf ! (i + length name) \<in> {CHR '' '', TAB}" "v = i + length name + 1"
    using assms(2) by (auto simp: isStatement_def rbind_eq_Inr go_index_def split: if_splits)
  have "take (length name) (drop i buf) = name" using p(1) by (simp add: has_prefix_def)
  then have "sub buf i v = name @ [buf ! (i + length name)]"
    using p(2,4) by (simp add: sub_def take_Suc_conv_app_nth)
  then have "NL \<notin> set (sub buf i v)" using name p(3) by auto
  then show ?thesis using findNextLine_ge [of i v buf] p(2,4) by simp
qed

lemma line_step_statements:
  assumes "line_step buf i i' sts" and "i < length buf" and "st \<in> set sts"
  shows "statement_ok buf st \<and> st_s st = i \<and> st_e st = i'"
  using assms(1)
proof cases
  case (indented v t)
  have "v < length (sub buf i (findNextLine buf i))" using index_byte_lt [OF indented(4)] .
  then show ?thesis
    using indented assms(3) findNextLine_bounds [OF assms(2)] by (auto simp: statement_ok_def)
next
  case (keyword name t v)
  then show ?thesis
    using keyword_ok [OF keyword(3,4) assms(2)] findNextLine_bounds [OF assms(2)] assms(3)
    by (auto simp: statement_ok_def)
next
  case (varDecl v)
  then show ?thesis
    using index_byte_drop_lt [OF varDecl(3)] findNextLine_bounds [OF assms(2)] assms(3)
    by (auto simp: statement_ok_def)
qed (use assms(3) in simp_all)

text \<open>Statements are in file order and do not overlap.\<close>

definition statements_ok :: "bytes \<Rightarrow> nat \<Rightarrow> statement list \<Rightarrow> bool" where
  "statements_ok buf i sts \<longleftrightarrow>
     (\<forall>st \<in> set sts. statement_ok buf st \<and> st_e st \<le> i) \<and>
     sorted_wrt (\<lambda>a b. st_e a \<le> st_s b) sts"

lemma statements_ok_step:
  assumes "statements_ok buf i sts" and "line_step buf i i' new" and "i < length buf"
  shows "statements_ok buf i' (sts @ new)"
proof -
  have "i \<le> i'" using line_step_progress [OF assms(2,3)] by auto
  moreover have "length new \<le> 1" using assms(2) by cases simp_all
  then have "sorted_wrt (\<lambda>a b. st_e a \<le> st_s b) new" by (cases new) (auto simp: le_Suc_eq)
  ultimately show ?thesis
    using assms(1) line_step_statements [OF assms(2,3)]
    by (fastforce simp: statements_ok_def sorted_wrt_append)
qed

lemma parseChunk_statements_ok:
  assumes "parseChunk ch = Some (Inr ch')" and "ch_start ch \<le> length (ch_buf ch)"
  shows "statements_ok (ch_buf ch) (length (ch_buf ch)) (ch_statements ch') \<and> ch_buf ch' = ch_buf ch"
proof -
  let ?I = "\<lambda>i (l :: statementType) c. ch_buf c = ch_buf ch \<and> i \<le> length (ch_buf ch) \<and>
      statements_ok (ch_buf ch) i (ch_statements c)"
  have "\<exists>i l. ?I i l ch' \<and> \<not> (i < length (ch_buf ch') \<and> i < ch_end ch')"
  proof (rule parseChunk_loop_inv [OF assms(1) [unfolded parseChunk_def]])
    show "?I (ch_start ch) statementNone (ch\<lparr>ch_statements := []\<rparr>)"
      using assms(2) by (simp add: statements_ok_def)
    fix i i' l l' c c'
    assume I: "?I i l c" and lt: "i < length (ch_buf c)" and "parseLine i l c = Inr (i', l', c')"
    then obtain sts where "line_step (ch_buf c) i i' sts" "ch_statements c' = ch_statements c @ sts" "ch_buf c' = ch_buf c"
      using parseLine_line_step by blast
    then show "?I i' l' c'"
      using I lt line_step_progress [of "ch_buf c" i i' sts] statements_ok_step [of "ch_buf c" i "ch_statements c" i' sts]
      by simp
  qed
  then show ?thesis by (fastforce simp: statements_ok_def)
qed

end
