(* ===== verification/Parse_Load.thy ===== *)
theory Parse_Load
  imports Parse_Inv Chunk_Split
begin

text \<open>
  From one build statement to a loaded manifest: the graph invariant of theory \<open>Parse_Inv\<close> is kept
  by \<open>parseBuild\<close>, by a chunk, by a file and by loading all files. The counters of a parsed chunk
  agree with its statements, so the arenas of \<open>alloc\<close> have a cell for every rule, edge and pool.
\<close>

subsection \<open>parseBuild\<close>

lemma new_edge_fresh:
  assumes "new_edge hash ch i n r scope s = Inr e"
  shows "ed_inputs e = [] \<and> ed_outputs e = [] \<and> ed_validations e = []"
proof -
  obtain lst where lst: "go_index (ch_statements ch) (i + n) = Inr lst"
    using assms by (cases "go_index (ch_statements ch) (i + n)") (auto simp: new_edge_def)
  define e0 where "e0 = \<lparr>ed_rule = r, ed_pool = defaultPool, ed_pos = st_pos lst + 1,
      ed_env = bs_set (ch_buf ch) (take n (drop (i + 1) (ch_statements ch))) \<lparr>bs_buf = [], bs_statements = []\<rparr>,
      ed_scope = Some scope, ed_inputs = [], ed_outputs = [], ed_validations = [],
      ed_implicitDeps = 0, ed_orderOnlyDeps = 0, ed_implicitOuts = 0\<rparr>"
  note run = assms [unfolded new_edge_def lst rbind_simps Let_def e0_def [symmetric]]
  have "e = e0 \<or> (\<exists>p. e = e0\<lparr>ed_pool := p\<rparr>)"
  proof (cases "edge_rawBinding hash e0 ''pool''")
    case (Some name)
    then show ?thesis using run by (cases "lookupPool s name") (auto split: if_splits)
  qed (use run in simp)
  then show ?thesis by (auto simp: e0_def)
qed

lemma parseBuild_parts:
  assumes "parseBuild hash ch i scope s = Inr (i', ch', s')"
  obtains ptr ea outs k ins a b vals e0 e1 s1 e2 s2 e3 s3 where
    "arena_new (ch_edgeArena ch) = Inr (ptr, ea)" "k \<le> length outs" "outs \<noteq> []" "a + b \<le> length ins"
    "ed_inputs e0 = [] \<and> ed_outputs e0 = [] \<and> ed_validations e0 = []"
    "build_outs hash ptr outs e0 s = Inr (e1, s1)"
    "build_ins hash ins (e1\<lparr>ed_implicitOuts := k\<rparr>) s1 = Inr (e2, s2)"
    "build_validations hash vals (e2\<lparr>ed_implicitDeps := a, ed_orderOnlyDeps := b\<rparr>) s2 = Inr (e3, s3)"
    "ch_edgeArena ch' = ea" "s' = s3\<lparr>gs_edgeAt := (gs_edgeAt s3)(ptr \<mapsto> e3)\<rparr>"
proof -
  obtain st ptr ea line pp outs k where 1: "go_index (ch_statements ch) i = Inr st"
      "arena_new (ch_edgeArena ch) = Inr (ptr, ea)" "go_slice (ch_buf ch) (st_v st) (st_e st) = Inr line"
      "parse_outs (newPathParser line) = Inr (pp, outs, k)" "outs \<noteq> []"
    using assms by (auto simp: parseBuild_def rbind_eq_Inr split: if_splits)
  note run = assms [unfolded parseBuild_def 1 rbind_simps prod.case Let_def]
  obtain pp1 where col: "pp_colon pp = (pp1, True)"
    using run 1(5) by (cases "pp_colon pp"; cases "snd (pp_colon pp)") auto
  obtain pp2 name where id: "pp_ident pp1 = (pp2, Inr name)"
    using run 1(5) col by (cases "pp_ident pp1"; cases "snd (pp_ident pp1)") auto
  obtain r where r: "fs_lookupRule hash scope name = Some r"
    using run 1(5) col id by (cases "fs_lookupRule hash scope name") auto
  obtain ins a b vals where ins: "parse_ins pp2 = Inr (ins, a, b, vals)"
    using run 1(5) col id r by (cases "parse_ins pp2") auto
  let ?n = "countStatement ch (i + 1) statementBuildVar"
  obtain e0 where e0: "new_edge hash ch i ?n r scope s = Inr e0"
    using run 1(5) col id r ins by (cases "new_edge hash ch i ?n r scope s") auto
  note run = run [unfolded col id r ins e0 prod.case bool.case sum.case option.case rbind_simps if_not_P [OF 1(5)]]
  obtain e1 s1 where out: "build_outs hash ptr outs e0 s = Inr (e1, s1)"
    using run by (auto simp: rbind_eq_Inr)
  note run = run [unfolded out prod.case rbind_simps]
  obtain e2 s2 where inn: "build_ins hash ins (e1\<lparr>ed_implicitOuts := k\<rparr>) s1 = Inr (e2, s2)"
    using run by (auto simp: rbind_eq_Inr)
  note run = run [unfolded inn prod.case rbind_simps]
  obtain e3 s3 where val: "build_validations hash vals (e2\<lparr>ed_implicitDeps := a, ed_orderOnlyDeps := b\<rparr>) s2 = Inr (e3, s3)"
    using run by (auto simp: rbind_eq_Inr)
  note run = run [unfolded val prod.case rbind_simps]
  show thesis
    using that [OF 1(2) parse_outs_count [OF 1(4)] 1(5) parse_ins_count [OF ins] new_edge_fresh [OF e0] out inn val]
      run by auto
qed

lemma parseBuild_keeps:
  assumes inv: "graph_inv hash s" and run: "parseBuild hash ch i scope s = Inr (i', ch', s')"
    and free: "arena_free (ch_edgeArena ch) \<inter> dom (gs_edgeAt s) = {}"
  shows "\<exists>p \<in> arena_free (ch_edgeArena ch). arena_free (ch_edgeArena ch') = arena_free (ch_edgeArena ch) - {p} \<and>
    keeps hash {p} s s'"
proof -
  obtain ptr ea outs k ins a b vals e0 e1 s1 e2 s2 e3 s3 where
    new: "arena_new (ch_edgeArena ch) = Inr (ptr, ea)" and k: "k \<le> length outs" "outs \<noteq> []" "a + b \<le> length ins"
    and e0: "ed_inputs e0 = [] \<and> ed_outputs e0 = [] \<and> ed_validations e0 = []"
    and out: "build_outs hash ptr outs e0 s = Inr (e1, s1)"
    and inn: "build_ins hash ins (e1\<lparr>ed_implicitOuts := k\<rparr>) s1 = Inr (e2, s2)"
    and val: "build_validations hash vals (e2\<lparr>ed_implicitDeps := a, ed_orderOnlyDeps := b\<rparr>) s2 = Inr (e3, s3)"
    and fin: "ch_edgeArena ch' = ea" "s' = s3\<lparr>gs_edgeAt := (gs_edgeAt s3)(ptr \<mapsto> e3)\<rparr>"
    by (rule parseBuild_parts [OF run])
  have ok: "nm_ok hash (gs_nodeMap s)" using inv by (simp add: graph_inv_def)
  obtain os nm1 where O: "e1 = e0\<lparr>ed_outputs := os\<rparr>" "length os = length outs" "grows_nodes hash s s1"
      "\<forall>n \<in> set os. known hash s1 n \<and> gs_inEdge s (nc_ptr n) = None" "distinct (map nc_ptr os)"
      "s1 = s\<lparr>gs_nodeMap := nm1, gs_inEdge := (\<lambda>x. if x \<in> nc_ptr ` set os then Some ptr else gs_inEdge s x)\<rparr>"
    using build_outs_ok [OF ok out] e0 by auto
  have ok1: "nm_ok hash (gs_nodeMap s1)" using O(3) by (simp add: grows_nodes_def)
  obtain is1 nm2 no where I: "e2 = e1\<lparr>ed_implicitOuts := k, ed_inputs := is1\<rparr>" "length is1 = length ins"
      "grows_nodes hash s1 s2" "\<forall>n \<in> set is1. known hash s2 n" "s2 = s1\<lparr>gs_nodeMap := nm2, gs_nouts := no\<rparr>"
    using build_ins_ok [OF ok1 inn] e0 O(1) by auto
  have ok2: "nm_ok hash (gs_nodeMap s2)" using I(3) by (simp add: grows_nodes_def)
  obtain vs nm3 nv where V: "e3 = e2\<lparr>ed_implicitDeps := a, ed_orderOnlyDeps := b, ed_validations := vs\<rparr>"
      "grows_nodes hash s2 s3" "\<forall>n \<in> set vs. known hash s3 n" "s3 = s2\<lparr>gs_nodeMap := nm3, gs_nvalidations := nv\<rparr>"
    using build_validations_ok [OF ok2 val] e0 O(1) I(1) by auto
  have g: "grows_nodes hash s s3" using O(3) I(3) V(2) grows_nodes_trans by metis
  have p: "ptr \<in> arena_free (ch_edgeArena ch)" "arena_free ea = arena_free (ch_edgeArena ch) - {ptr}"
    using arena_new_free [OF new] by auto
  have none: "gs_edgeAt s ptr = None" using p(1) free by auto
  have in3: "gs_inEdge s3 = (\<lambda>x. if x \<in> nc_ptr ` set os then Some ptr else gs_inEdge s x)"
    and at3: "gs_edgeAt s3 = gs_edgeAt s" "gs_heap s3 = gs_heap s" "gs_edges s3 = gs_edges s"
    by (simp_all add: V(4) I(5) O(6))
  have old: "gs_inEdge s3 x = Some q" if "gs_inEdge s x = Some q" for x q
    using that O(4) by (auto simp: in3)
  have known: "known hash s3 n" if "n \<in> set (os @ is1 @ vs)" for n
    using that O(4) I(4) V(3) grows_nodes_known I(3) V(2) by fastforce
  have e3: "ed_outputs e3 = os" "ed_inputs e3 = is1" "ed_validations e3 = vs" "edge_ok e3"
    using k O(2) I(2) e0 by (simp_all add: V(1) I(1) O(1) edge_ok_def)
  have new_ok: "edge_inv hash s' ptr e3"
    unfolding edge_inv_def e3(1-3) using e3(4) O(2,5) k(2) known by (auto simp: fin(2) in3)
  have old_ok: "edge_inv hash s' q e" if "gs_edgeAt s q = Some e" for q e
  proof -
    have "edge_inv hash s q e" using inv that by (simp add: graph_inv_def)
    then have "edge_inv hash s3 q e" using g old by (rule edge_inv_grows)
    then show ?thesis by (simp add: edge_inv_def fin(2))
  qed
  have ins: "\<exists>e. gs_edgeAt s' q = Some e \<and> x \<in> nc_ptr ` set (ed_outputs e)" if "gs_inEdge s' x = Some q" for x q
  proof (cases "x \<in> nc_ptr ` set os")
    case True
    then show ?thesis using that by (simp add: fin(2) in3 e3)
  next
    case False
    then have "gs_inEdge s x = Some q" using that by (simp add: fin(2) in3)
    then obtain e where "gs_edgeAt s q = Some e" "x \<in> nc_ptr ` set (ed_outputs e)"
      using inv unfolding graph_inv_def by blast
    then show ?thesis using none by (auto simp: fin(2) at3)
  qed
  have edge: "edge_inv hash s' q e" if "gs_edgeAt s' q = Some e" for q e
    using that new_ok old_ok by (auto simp: fin(2) at3 split: if_splits)
  have nm: "nm_ok hash (gs_nodeMap s')" using g by (simp add: grows_nodes_def fin(2))
  have "graph_inv hash s'" unfolding graph_inv_def using nm edge ins by blast
  then have "keeps hash {ptr} s s'" using none by (auto simp: keeps_def fin(2) at3 map_le_def)
  then show ?thesis using p fin(1) by blast
qed

subsection \<open>A chunk\<close>

lemma build_loop_keeps:
  assumes "graph_inv hash s" and "build_loop hash i ch f scope s = Inr (ch', f', s')"
    and "arena_free (ch_edgeArena ch) \<inter> dom (gs_edgeAt s) = {}"
  shows "keeps hash (arena_free (ch_edgeArena ch)) s s'"
  using assms
proof (induction hash i ch f scope s arbitrary: f' rule: build_loop.induct)
  case (1 hash i ch f scope s)
  show ?case
  proof (cases "i < length (ch_statements ch)")
    case False
    then show ?thesis
      using "1.prems" by (auto simp: build_loop.simps [of hash i ch] keeps_def)
  next
    case True
    note run = "1.prems"(2) [unfolded build_loop.simps [of hash i ch] if_P [OF True]]
    show ?thesis
    proof (cases "st_t (ch_statements ch ! i)")
      case statementVarDecl
      then show ?thesis using "1.IH"(1) [OF True] run "1.prems" by simp
    next
      case statementPool
      then show ?thesis using "1.IH"(2) [OF True] run "1.prems" by simp
    next
      case statementRule
      then show ?thesis using "1.IH"(3) [OF True] run "1.prems" by simp
    next
      case statementBuild
      then obtain i1 ch1 s1 where b: "parseBuild hash ch i scope s = Inr (i1, ch1, s1)"
        and rest: "build_loop hash i1 ch1 f scope s1 = Inr (ch', f', s')"
        using run by (auto split: sum.splits)
      obtain p where p: "p \<in> arena_free (ch_edgeArena ch)"
        "arena_free (ch_edgeArena ch1) = arena_free (ch_edgeArena ch) - {p}" "keeps hash {p} s s1"
        using parseBuild_keeps [OF "1.prems"(1) b "1.prems"(3)] by blast
      have "keeps hash (arena_free (ch_edgeArena ch1)) s1 s'"
      proof (rule "1.IH"(4) [OF True statementBuild b _ _ _ rest])
        show "graph_inv hash s1" using p(3) by (simp add: keeps_def)
        show "arena_free (ch_edgeArena ch1) \<inter> dom (gs_edgeAt s1) = {}"
        proof -
          have "dom (gs_edgeAt s1) \<subseteq> dom (gs_edgeAt s) \<union> {p}" using p(3) by (simp add: keeps_def)
          then show ?thesis using p(2) "1.prems"(3) by blast
        qed
      qed simp_all
      from keeps_state_trans [OF p(3) this] show ?thesis
        using p(1,2) by (simp add: insert_absorb)
    next
      case statementDefault
      then obtain ns s1 where d: "parseDefault hash ch i scope s = Inr (ns, s1)"
        and rest: "build_loop hash (i + 1) ch (addDefaults ns f) scope s1 = Inr (ch', f', s')"
        using run by (auto split: sum.splits)
      obtain paths where "default_nodes hash (fs_lookupVar hash scope) paths s = Inr (ns, s1)"
        using d by (auto simp: parseDefault_def rbind_eq_Inr)
      then have k: "keeps hash {} s s1" using default_nodes_ok [OF "1.prems"(1)] by blast
      then have "graph_inv hash s1" "dom (gs_edgeAt s1) \<subseteq> dom (gs_edgeAt s)" by (simp_all add: keeps_def)
      then have "keeps hash (arena_free (ch_edgeArena ch)) s1 s'"
        using "1.prems"(3) by (intro "1.IH"(5) [OF True statementDefault d refl _ rest]) blast+
      then show ?thesis using keeps_state_trans [OF k] by simp
    next
      case statementInclude
      then show ?thesis using "1.IH"(6) [OF True] run "1.prems" by simp
    next
      case statementSubninja
      then obtain fname where d: "parseSubninja hash ch i scope = Inr fname"
        and rest: "build_loop hash (i + 1) ch (addSubninja fname f) scope s = Inr (ch', f', s')"
        using run by (auto split: sum.splits)
      show ?thesis using "1.prems" rest by (intro "1.IH"(7) [OF True statementSubninja d]) auto
    qed (use run in simp_all)
  qed
qed

lemma build_chunks_keeps:
  assumes "graph_inv hash s" and "build_chunks hash cs f scope s = Inr (f', s')"
    and "\<forall>c \<in> set cs. arena_free (ch_edgeArena c) \<inter> dom (gs_edgeAt s) = {}"
    and "\<forall>i j. i < j \<longrightarrow> j < length cs \<longrightarrow> arena_free (ch_edgeArena (cs ! i)) \<inter> arena_free (ch_edgeArena (cs ! j)) = {}"
  shows "keeps hash (\<Union>c \<in> set cs. arena_free (ch_edgeArena c)) s s'"
  using assms
proof (induction cs arbitrary: f s)
  case Nil
  then show ?case by (simp add: keeps_def)
next
  case (Cons c cs)
  obtain c1 f1 s1 where c: "build_loop hash 0 c f scope s = Inr (c1, f1, s1)"
    and rest: "build_chunks hash cs f1 scope s1 = Inr (f', s')"
    using Cons.prems(2) by (auto simp: rbind_eq_Inr buildGraphInChunk_def)
  have k: "keeps hash (arena_free (ch_edgeArena c)) s s1"
    using Cons.prems(3) by (intro build_loop_keeps [OF Cons.prems(1) c]) simp
  have disj: "arena_free (ch_edgeArena d) \<inter> arena_free (ch_edgeArena c) = {}" if d: "d \<in> set cs" for d
  proof -
    obtain j where "j < length cs" "cs ! j = d" using d unfolding in_set_conv_nth by blast
    then show ?thesis using Cons.prems(4) [rule_format, of 0 "Suc j"] by auto
  qed
  have "keeps hash (\<Union>c \<in> set cs. arena_free (ch_edgeArena c)) s1 s'"
  proof (rule Cons.IH [OF _ rest])
    show "graph_inv hash s1" using k by (simp add: keeps_def)
    show "\<forall>d \<in> set cs. arena_free (ch_edgeArena d) \<inter> dom (gs_edgeAt s1) = {}"
    proof
      fix d assume d: "d \<in> set cs"
      have "arena_free (ch_edgeArena d) \<inter> dom (gs_edgeAt s) = {}" using Cons.prems(3) d by simp
      moreover have "dom (gs_edgeAt s1) \<subseteq> dom (gs_edgeAt s) \<union> arena_free (ch_edgeArena c)"
        using k by (simp add: keeps_def)
      ultimately show "arena_free (ch_edgeArena d) \<inter> dom (gs_edgeAt s1) = {}" using disj [OF d] by blast
    qed
    show "\<forall>i j. i < j \<longrightarrow> j < length cs \<longrightarrow>
        arena_free (ch_edgeArena (cs ! i)) \<inter> arena_free (ch_edgeArena (cs ! j)) = {}"
      using Cons.prems(4) by (metis Suc_less_eq length_Cons nth_Cons_Suc)
  qed
  from keeps_state_trans [OF k this] show ?case by simp
qed

end
