(* ===== verification/Load_Inv.thy ===== *)
theory Load_Inv
  imports Parse_Load
begin

text \<open>
  The counters of parsed chunks, the allocation of a file, and the invariant of loading: every
  edge of the graph is listed once in \<open>s.edges\<close>, its address is allocated, and the graph invariant
  holds.
\<close>

subsection \<open>Counters\<close>

definition st_count :: "statementType \<Rightarrow> statement list \<Rightarrow> nat" where
  "st_count t sts = length (filter (\<lambda>st. st_t st = t) sts)"

text \<open>Declarations are counted exactly; indented lines that turn out to be blank are counted too.\<close>

definition counts_ok :: "chunk \<Rightarrow> bool" where
  "counts_ok ch \<longleftrightarrow>
     ch_nbuild ch = st_count statementBuild (ch_statements ch) \<and>
     ch_nrule ch = st_count statementRule (ch_statements ch) \<and>
     ch_npool ch = st_count statementPool (ch_statements ch) \<and>
     ch_ninclude ch = st_count statementInclude (ch_statements ch) \<and>
     st_count statementRuleVar (ch_statements ch) \<le> ch_nrulevar ch \<and>
     st_count statementBuildVar (ch_statements ch) \<le> ch_nbuildvar ch"

lemma counts_ok_add:
  "counts_ok ch \<Longrightarrow> counts_ok (count_statement t (add_statement t s v e ch))"
  "counts_ok ch \<Longrightarrow> counts_ok (add_statement t s v e (count_statement t ch))"
  by (cases t; simp add: counts_ok_def st_count_def add_statement_def)+

lemma counts_ok_count: "counts_ok ch \<Longrightarrow> indent_type l = Some t \<Longrightarrow> counts_ok (count_statement t ch)"
  by (auto simp: counts_ok_def indent_type_def split: if_splits)

lemma counts_ok_nvar [simp]:
  "counts_ok (ch\<lparr>ch_nvar := k\<rparr>) = counts_ok ch" "counts_ok (ch\<lparr>ch_ncomment := k\<rparr>) = counts_ok ch"
  by (simp_all add: counts_ok_def)

lemma parseIndent_counts: "counts_ok ch \<Longrightarrow> parseIndent i l ch = Inr (i', l', ch') \<Longrightarrow> counts_ok ch'"
  by (auto simp: parseIndent_def Let_def counts_ok_count counts_ok_add split: option.splits if_splits)

lemma parseVarDecl_counts: "counts_ok ch \<Longrightarrow> parseVarDecl i ch = Inr (i', l', ch') \<Longrightarrow> counts_ok ch'"
  unfolding parseVarDecl_def Let_def by (auto simp del: count_statement.simps simp: counts_ok_add split: option.splits)

lemma parseLine_counts: "counts_ok ch \<Longrightarrow> parseLine i l ch = Inr (i', l', ch') \<Longrightarrow> counts_ok ch'"
  by (auto simp: parseLine_def Let_def rbind_eq_Inr counts_ok_add simp del: count_statement.simps
      dest: parseIndent_counts parseVarDecl_counts split: if_splits option.splits prod.splits)

lemma parseChunk_counts:
  assumes "parseChunk (newChunk buf s e) = Some (Inr ch)"
  shows "counts_ok ch"
proof -
  have "\<exists>i (l :: statementType). counts_ok ch \<and> \<not> (i < length (ch_buf ch) \<and> i < ch_end ch)"
  proof (rule parseChunk_loop_inv [OF assms [unfolded parseChunk_def], where I = "\<lambda>_ _ c. counts_ok c"])
    show "counts_ok ((newChunk buf s e)\<lparr>ch_statements := []\<rparr>)"
      by (simp add: newChunk_def counts_ok_def st_count_def)
  qed (rule parseLine_counts)
  then show ?thesis by blast
qed

subsection \<open>setup without includes\<close>

text \<open>A setup that reads no file changes the state only in its pools.\<close>

definition same_graph :: "state \<Rightarrow> state \<Rightarrow> bool" where
  "same_graph s s' \<longleftrightarrow> (\<exists>p. s' = s\<lparr>gs_pools := p\<rparr>)"

lemma same_graph_refl: "same_graph s s"
  unfolding same_graph_def by (rule exI [of _ "gs_pools s"]) simp

lemma same_graph_trans: "same_graph a b \<Longrightarrow> same_graph b c \<Longrightarrow> same_graph a c"
  by (auto simp: same_graph_def)

lemma parsePool_graph: "parsePool hash ch i scope s = Inr (i', s') \<Longrightarrow> same_graph s s'"
  by (auto simp: parsePool_def rbind_eq_Inr Let_def addPool_def same_graph_def split: option.splits if_splits)

lemma parseRule_frame:
  "parseRule hash ch i scope ptr = Inr (i', scope', ch') \<Longrightarrow>
   ch_statements ch' = ch_statements ch \<and> ch_edgeArena ch' = ch_edgeArena ch"
  by (auto simp: parseRule_def rbind_eq_Inr Let_def)

definition no_include :: "chunk \<Rightarrow> bool" where
  "no_include ch \<longleftrightarrow> (\<forall>st \<in> set (ch_statements ch). st_t st \<noteq> statementInclude)"

lemma setup_loop_frame:
  assumes "setup_loop hash incl i ch scope s inc0 = Some (Inr (ch', scope', s', inc1))" and "no_include ch"
  shows "inc1 = inc0 \<and> ch_edgeArena ch' = ch_edgeArena ch \<and> same_graph s s'"
  using assms
proof (induction hash incl i ch scope s inc0 rule: setup_loop.induct)
  case (1 hash incl i ch scope s inc0)
  show ?case
  proof (cases "i < length (ch_statements ch)")
    case False
    then show ?thesis using "1.prems" by (simp add: setup_loop.simps [of hash incl i ch] same_graph_refl)
  next
    case True
    note run = "1.prems"(1) [unfolded setup_loop.simps [of hash incl i ch] if_P [OF True]]
    show ?thesis
    proof (cases "st_t (ch_statements ch ! i)")
      case statementVarDecl
      then obtain name val where b: "parseVarBinding ch i = Inr (name, val)"
        and rest: "setup_loop hash incl (i + 1) ch (fs_setVar hash name val scope) s inc0 = Some (Inr (ch', scope', s', inc1))"
        using run by (auto split: sum.splits)
      show ?thesis using "1.IH"(1) [OF True statementVarDecl b refl rest "1.prems"(2)] .
    next
      case statementPool
      then obtain q pa i1 s1 where b: "arena_new (ch_poolArena ch) = Inr (q, pa)" "parsePool hash ch i scope s = Inr (i1, s1)"
        and rest: "setup_loop hash incl i1 (ch\<lparr>ch_poolArena := pa\<rparr>) scope s1 inc0 = Some (Inr (ch', scope', s', inc1))"
        using run by (auto split: sum.splits)
      have ni: "no_include (ch\<lparr>ch_poolArena := pa\<rparr>)" using "1.prems"(2) by (simp add: no_include_def)
      show ?thesis
        using "1.IH"(2) [OF True statementPool b(1) refl b(2) refl rest ni] parsePool_graph [OF b(2)] same_graph_trans
        by auto
    next
      case statementRule
      then obtain ptr ra i1 scope1 ch1 where b: "arena_new (ch_ruleArena ch) = Inr (ptr, ra)"
        "parseRule hash ch i scope ptr = Inr (i1, scope1, ch1)"
        and rest: "setup_loop hash incl i1 (ch1\<lparr>ch_ruleArena := ra\<rparr>) scope1 s inc0 = Some (Inr (ch', scope', s', inc1))"
        using run by (auto split: sum.splits)
      have ni: "no_include (ch1\<lparr>ch_ruleArena := ra\<rparr>)"
        using "1.prems"(2) parseRule_frame [OF b(2)] by (simp add: no_include_def)
      show ?thesis
        using "1.IH"(3) [OF True statementRule b(1) refl b(2) refl _ rest ni] parseRule_frame [OF b(2)] by simp
    next
      case statementBuild
      then show ?thesis using "1.IH"(4) [OF True] run "1.prems"(2) by simp
    next
      case statementDefault
      then show ?thesis using "1.IH"(5) [OF True] run "1.prems"(2) by simp
    next
      case statementInclude
      then show ?thesis using "1.prems"(2) True by (auto simp: no_include_def)
    next
      case statementSubninja
      then show ?thesis using "1.IH"(7) [OF True] run "1.prems"(2) by simp
    qed (use run in simp_all)
  qed
qed

lemma setup_chunks_frame:
  assumes "setup_chunks hash incl 0 i chunks scope s inc0 = Some (Inr (chunks', scope', s', inc1))"
    and "\<forall>c \<in> set chunks. no_include c"
  shows "inc1 = inc0 \<and> map ch_edgeArena chunks' = map ch_edgeArena chunks \<and> same_graph s s'"
proof -
  have "inc1 = inc0 \<and> map ch_edgeArena chunks' = map ch_edgeArena chunks \<and> same_graph s s'"
    if "\<forall>k. i \<le> k \<longrightarrow> k < length chunks \<longrightarrow> no_include (chunks ! k)"
    using assms(1) that
  proof (induction "length chunks - i" arbitrary: i chunks scope s inc0 rule: less_induct)
    case less
    show ?case
    proof (cases "i < length chunks")
      case False
      then show ?thesis using less.prems by (simp add: setup_chunks.simps [of hash incl 0 i] same_graph_refl)
    next
      case True
      note run = less.prems(1) [unfolded setup_chunks.simps [of hash incl 0 i] if_P [OF True]]
      obtain ch1 scope1 s1 inc2 where c: "setupInChunk hash incl (chunks ! i) scope s = Some (Inr (ch1, scope1, s1, inc2))"
        and rest: "setup_chunks hash incl 0 (i + 1) (chunks[i := ch1]) scope1 s1 (inc0 @ inc2) =
            Some (Inr (chunks', scope', s', inc1))"
        using run by (auto split: option.splits sum.splits failure.splits prod.splits)
      have f: "inc2 = [] \<and> ch_edgeArena ch1 = ch_edgeArena (chunks ! i) \<and> same_graph s s1"
        using setup_loop_frame [OF c [unfolded setupInChunk_def]] less.prems(2) True by simp
      have "inc1 = inc0 @ inc2 \<and> map ch_edgeArena chunks' = map ch_edgeArena (chunks[i := ch1]) \<and> same_graph s1 s'"
        using True less.prems(2) by (intro less.hyps [OF _ rest]) (auto simp: nth_list_update)
      moreover have "map ch_edgeArena (chunks[i := ch1]) = map ch_edgeArena chunks"
        using f by (metis list_update_id map_update)
      ultimately show ?thesis using f same_graph_trans by auto
    qed
  qed
  then show ?thesis using assms(2) by simp
qed

subsection \<open>alloc\<close>

lemma number_chunks_length [simp]: "length (number_chunks pos cs) = length cs"
  by (induction cs arbitrary: pos) (simp_all add: Let_def)

lemma number_chunks_types:
  "k < length cs \<Longrightarrow> map st_t (ch_statements (number_chunks pos cs ! k)) = map st_t (ch_statements (cs ! k))"
proof (induction cs arbitrary: pos k)
  case (Cons c cs)
  have "map st_t (map (\<lambda>(k, st). st\<lparr>st_pos := pos + int k\<rparr>) (zip [0..<length sts] sts)) = map st_t sts" for sts :: "statement list"
    by (rule nth_equalityI) simp_all
  then show ?case using Cons by (cases k) (simp_all add: Let_def)
qed simp

text \<open>The arenas always have room: \<open>alloc\<close> never fails. The edge arenas of the chunks are disjoint
  parts of the file's, which lies in newly allocated memory.\<close>

lemma alloc_ok:
  "\<exists>cs scope ea s'. alloc chunks parent s = Inr (cs, scope, ea, s') \<and> length cs = length chunks \<and>
    (\<forall>k < length chunks. map st_t (ch_statements (cs ! k)) = map st_t (ch_statements (chunks ! k))) \<and>
    (\<forall>k < length chunks. ch_ninclude (cs ! k) = ch_ninclude (chunks ! k)) \<and>
    (\<forall>c \<in> set cs. arena_free (ch_edgeArena c) \<subseteq> set (arena_used ea)) \<and>
    (\<forall>i j. i < j \<longrightarrow> j < length cs \<longrightarrow> arena_free (ch_edgeArena (cs ! i)) \<inter> arena_free (ch_edgeArena (cs ! j)) = {}) \<and>
    distinct (arena_used ea) \<and> set (arena_used ea) \<subseteq> {gs_heap s ..< gs_heap s'} \<and> gs_heap s \<le> gs_heap s' \<and>
    (\<exists>h. s' = s\<lparr>gs_heap := h\<rparr>)"
proof -
  let ?nr = "sum_list (map ch_nrule chunks)" and ?nb = "sum_list (map ch_nbuild chunks)"
  let ?np = "sum_list (map ch_npool chunks)"
  let ?nv = "sum_list (map ch_nrulevar chunks) + sum_list (map ch_nbuildvar chunks)"
  let ?h = "gs_heap s"
  obtain ras ra where R: "arena_chunks (map ch_nrule chunks) (arena_reserve ?h ?nr) = Inr (ras, ra)" "map ar_cap ras = map ch_nrule chunks"
    using arena_chunks_ok [of "arena_reserve ?h ?nr" "map ch_nrule chunks"] by (auto simp: arena_reserve_def)
  obtain eas ea where E: "arena_chunks (map ch_nbuild chunks) (arena_reserve (?h + ?nr) ?nb) = Inr (eas, ea)" "map ar_cap eas = map ch_nbuild chunks"
    "ar_base ea = ?h + ?nr" "ar_next ea = ?nb"
    using arena_chunks_ok [of "arena_reserve (?h + ?nr) ?nb" "map ch_nbuild chunks"] by (auto simp: arena_reserve_def)
  obtain pas pa where P: "arena_chunks (map ch_npool chunks) (arena_reserve (?h + ?nr + ?nb) ?np) = Inr (pas, pa)" "map ar_cap pas = map ch_npool chunks"
    using arena_chunks_ok [of "arena_reserve (?h + ?nr + ?nb) ?np" "map ch_npool chunks"] by (auto simp: arena_reserve_def)
  have sum: "sum_list (map (\<lambda>c. ch_nrulevar c + ch_nbuildvar c) chunks) = ?nv" by (simp add: sum_list_addf)
  obtain bas ba where B: "arena_chunks (map (\<lambda>c. ch_nrulevar c + ch_nbuildvar c) chunks) (arena_reserve (?h + ?nr + ?nb + ?np) ?nv) = Inr (bas, ba)"
    "map ar_cap bas = map (\<lambda>c. ch_nrulevar c + ch_nbuildvar c) chunks"
    using arena_chunks_ok [of "arena_reserve (?h + ?nr + ?nb + ?np) ?nv" "map (\<lambda>c. ch_nrulevar c + ch_nbuildvar c) chunks"] sum
    by (auto simp: arena_reserve_def)
  have len: "length ras = length chunks" "length eas = length chunks" "length pas = length chunks" "length bas = length chunks"
    using R(2) E(2) P(2) B(2) by (metis length_map)+
  define cs where "cs = map (\<lambda>(c, ra, ea, pa, ba). give_arenas c ra ea pa ba)
      (zip (number_chunks 0 chunks) (zip ras (zip eas (zip pas bas))))"
  have nth: "cs ! k = give_arenas (number_chunks 0 chunks ! k) (ras ! k) (eas ! k) (pas ! k) (bas ! k)"
    if "k < length chunks" for k using that len by (simp add: cs_def)
  have lcs: "length cs = length chunks" using len by (simp add: cs_def)
  have inc: "ch_ninclude (number_chunks pos xs ! k) = ch_ninclude (xs ! k)" if "k < length xs" for k pos xs
    using that by (induction xs arbitrary: k pos) (auto simp: Let_def nth_Cons split: nat.splits)
  have eas: "map ch_edgeArena cs = eas"
    by (rule nth_equalityI) (use nth lcs len in \<open>simp_all add: give_arenas_def\<close>)
  have used: "arena_used ea = [?h + ?nr ..< ?h + ?nr + ?nb]"
  proof -
    have "map (\<lambda>k. b + k) [0..<n] = [b ..< b + n]" for b n :: nat by (induction n) simp_all
    then show ?thesis unfolding arena_used_def E(3,4) .
  qed
  have free: "arena_free (arena_reserve (?h + ?nr) ?nb) = set (arena_used ea)"
    by (simp add: used arena_free_def arena_reserve_def)
  note D = arena_chunks_disjoint [OF E(1)]
  let ?s' = "s\<lparr>gs_heap := ?h + ?nr + ?nb + ?np + ?nv\<rparr>"
  have "alloc chunks parent s = Inr (cs, FileScope (Some (newRuleMap ?nr))
      (Some (newShardBindings (sum_list (map ch_nvar chunks)))) parent, ea, ?s')"
    by (simp add: alloc_def Let_def R(1) E(1) P(1) B(1) cs_def)
  moreover have "map st_t (ch_statements (cs ! k)) = map st_t (ch_statements (chunks ! k))" if "k < length chunks" for k
    using number_chunks_types [OF that, of 0] by (simp add: nth [OF that] give_arenas_def)
  moreover have "ch_ninclude (cs ! k) = ch_ninclude (chunks ! k)" if "k < length chunks" for k
    using inc [OF that] by (simp add: nth [OF that] give_arenas_def)
  moreover have "arena_free (ch_edgeArena c) \<subseteq> set (arena_used ea)" if "c \<in> set cs" for c
    using D that eas free by (metis image_eqI image_set)
  moreover have "arena_free (ch_edgeArena (cs ! i)) \<inter> arena_free (ch_edgeArena (cs ! j)) = {}" if "i < j" "j < length cs" for i j
    using D that eas by (metis length_map less_trans nth_map)
  moreover have "distinct (arena_used ea)" "set (arena_used ea) \<subseteq> {?h ..< gs_heap ?s'}" "?h \<le> gs_heap ?s'"
    by (auto simp: used)
  ultimately show ?thesis using lcs by blast
qed

subsection \<open>A file\<close>

lemma parseChunks_all:
  "parseChunks cs = Some (Inr cs') \<Longrightarrow> list_all2 (\<lambda>c c'. parseChunk c = Some (Inr c')) cs cs'"
  by (induction cs arbitrary: cs') (auto simp: group_join_Inr split: option.splits)

lemma split_loop_from_new: "c \<in> set (split_loop_from buf k start) \<Longrightarrow> \<exists>s e. c = newChunk buf s e"
proof (induction buf k start rule: split_loop_from.induct)
  case (1 buf k start)
  show ?case
  proof (cases "start < length buf \<and> 0 < k")
    case True
    then show ?thesis
      using "1.IH" [OF True refl refl] "1.prems" unfolding split_loop_from.simps [of buf k start]
      by (auto simp: Let_def)
  next
    case False
    have "split_loop_from buf k start = []"
      unfolding split_loop_from.simps [of buf k start] by (rule if_not_P [OF False])
    then show ?thesis using "1.prems" by simp
  qed
qed

lemma parseChunks_counts:
  assumes "parseChunks (splitIntoChunks ncpu buf) = Some (Inr cs)" and "c \<in> set cs"
  shows "counts_ok c"
proof -
  obtain k where k: "k < length cs" "cs ! k = c" using assms(2) unfolding in_set_conv_nth by blast
  have all: "list_all2 (\<lambda>c c'. parseChunk c = Some (Inr c')) (splitIntoChunks ncpu buf) cs"
    using parseChunks_all [OF assms(1)] .
  then have len: "length (splitIntoChunks ncpu buf) = length cs" by (rule list_all2_lengthD)
  then have "splitIntoChunks ncpu buf ! k \<in> set (splitIntoChunks ncpu buf)" using k by simp
  then obtain s e where "splitIntoChunks ncpu buf ! k = newChunk buf s e"
    unfolding splitIntoChunks_def using split_loop_from_new by blast
  then have "parseChunk (newChunk buf s e) = Some (Inr c)"
    using list_all2_nthD2 [OF all k(1)] k(2) by simp
  then show ?thesis by (rule parseChunk_counts)
qed

lemma prepare_frame:
  assumes "prepare fuel hash ncpu readFile parent buf s = Some (Inr (cs, scope, ea, s', incs))"
  shows "incs = [] \<and> (\<exists>h p. s' = s\<lparr>gs_heap := h, gs_pools := p\<rparr> \<and> gs_heap s \<le> h \<and> set (arena_used ea) \<subseteq> {gs_heap s ..< h}) \<and>
    distinct (arena_used ea) \<and> (\<forall>c \<in> set cs. arena_free (ch_edgeArena c) \<subseteq> set (arena_used ea)) \<and>
    (\<forall>i j. i < j \<longrightarrow> j < length cs \<longrightarrow> arena_free (ch_edgeArena (cs ! i)) \<inter> arena_free (ch_edgeArena (cs ! j)) = {})"
proof (cases fuel)
  case 0
  then show ?thesis using assms by simp
next
  case (Suc fuel')
  obtain chunks where chunks: "parseChunks (splitIntoChunks ncpu buf) = Some (Inr chunks)"
    using assms Suc by (auto simp: obind_eq_Some)
  obtain cs1 scope1 ea1 s1 where al: "alloc chunks parent s = Inr (cs1, scope1, ea1, s1)" "length cs1 = length chunks"
    and types: "\<forall>k < length chunks. map st_t (ch_statements (cs1 ! k)) = map st_t (ch_statements (chunks ! k))"
    and ninc: "\<forall>k < length chunks. ch_ninclude (cs1 ! k) = ch_ninclude (chunks ! k)"
    and used: "\<forall>c \<in> set cs1. arena_free (ch_edgeArena c) \<subseteq> set (arena_used ea1)"
    and disj: "\<forall>i j. i < j \<longrightarrow> j < length cs1 \<longrightarrow> arena_free (ch_edgeArena (cs1 ! i)) \<inter> arena_free (ch_edgeArena (cs1 ! j)) = {}"
    and heap: "distinct (arena_used ea1)" "set (arena_used ea1) \<subseteq> {gs_heap s ..< gs_heap s1}" "gs_heap s \<le> gs_heap s1"
      "\<exists>h. s1 = s\<lparr>gs_heap := h\<rparr>"
    using alloc_ok [of chunks parent s] by (elim exE conjE) blast
  obtain incl where st: "fp_setup hash incl cs1 scope1 s1 = Some (Inr (cs, scope, s', incs))" and ea: "ea = ea1"
    using assms Suc chunks al(1) by (auto simp: obind_eq_Some)
  let ?n = "sum_list (map ch_ninclude cs1)"
  have "?n = 0"
  proof (rule ccontr)
    assume "?n \<noteq> 0"
    then have "cs1 \<noteq> []" by auto
    then show False
      using setup_chunks_include [of ?n 0 cs1 hash incl scope1 s1 "[]"] st \<open>?n \<noteq> 0\<close> by (auto simp: fp_setup_def)
  qed
  have "no_include (cs1 ! k)" if k: "k < length cs1" for k
  proof -
    have "ch_ninclude (cs1 ! k) = 0" using \<open>?n = 0\<close> k by (simp add: sum_list_eq_0_iff)
    then have "st_count statementInclude (ch_statements (chunks ! k)) = 0"
      using parseChunks_counts [OF chunks, of "chunks ! k"] ninc k al(2) by (simp add: counts_ok_def)
    then have "statementInclude \<notin> set (map st_t (ch_statements (chunks ! k)))"
      by (auto simp: st_count_def filter_empty_conv)
    then have "statementInclude \<notin> set (map st_t (ch_statements (cs1 ! k)))"
      using types [rule_format, of k] k al(2) by simp
    then show ?thesis by (auto simp: no_include_def image_iff)
  qed
  then have "\<forall>c \<in> set cs1. no_include c" by (auto simp: in_set_conv_nth)
  from setup_chunks_frame [OF st [unfolded fp_setup_def \<open>?n = 0\<close>] this]
  have f: "incs = []" "map ch_edgeArena cs = map ch_edgeArena cs1" "same_graph s1 s'" by auto
  have len: "length cs = length cs1" using f(2) by (metis length_map)
  have nth: "ch_edgeArena (cs ! k) = ch_edgeArena (cs1 ! k)" if "k < length cs" for k
    using f(2) that len by (metis nth_map)
  obtain h p where s': "s' = s\<lparr>gs_heap := h, gs_pools := p\<rparr>" "h = gs_heap s1"
    using heap(4) f(3) by (auto simp: same_graph_def)
  have "\<forall>c \<in> set cs. arena_free (ch_edgeArena c) \<subseteq> set (arena_used ea)"
  proof
    fix c assume "c \<in> set cs"
    then obtain k where "k < length cs" "cs ! k = c" unfolding in_set_conv_nth by blast
    then show "arena_free (ch_edgeArena c) \<subseteq> set (arena_used ea)"
      using nth [of k] used [rule_format, of "cs1 ! k"] len ea by simp
  qed
  moreover have "\<forall>i j. i < j \<longrightarrow> j < length cs \<longrightarrow>
      arena_free (ch_edgeArena (cs ! i)) \<inter> arena_free (ch_edgeArena (cs ! j)) = {}"
    using disj nth len by (metis (no_types) less_trans)
  ultimately show ?thesis using f(1) s' heap(1-3) ea by auto
qed

subsection \<open>Loading\<close>

definition load_inv :: "(bytes \<Rightarrow> 64 word) \<Rightarrow> state \<Rightarrow> bool" where
  "load_inv hash s \<longleftrightarrow>
     graph_inv hash s \<and> dom (gs_edgeAt s) \<subseteq> {..<gs_heap s} \<and>
     set (gs_edges s) = dom (gs_edgeAt s) \<and> distinct (gs_edges s)"

lemma graph_inv_frame:
  "gs_nodeMap s' = gs_nodeMap s \<Longrightarrow> gs_edgeAt s' = gs_edgeAt s \<Longrightarrow> gs_inEdge s' = gs_inEdge s \<Longrightarrow>
   graph_inv hash s' = graph_inv hash s"
  by (simp add: graph_inv_def edge_inv_def known_def)

lemma load_inv_new: "load_inv hash newState"
  by (simp add: load_inv_def graph_inv_def newState_def nm_ok_new)

lemma parseContent_load_inv:
  assumes inv: "load_inv hash s"
    and run: "parseContent fuel hash ncpu readFile parent buf f s = Some (Inr (scope, f', s'))"
  shows "load_inv hash s'"
proof -
  obtain cs scope1 ea s1 incs f1 s2 where p: "prepare fuel hash ncpu readFile parent buf s = Some (Inr (cs, scope1, ea, s1, incs))"
    and b: "build_chunks hash (cs @ concat incs) f scope1 s1 = Inr (f1, s2)" and s': "s' = finalize ea f1 s2"
    using run by (auto simp: parseContent_def obind_eq_Some buildGraph_def)
  obtain h pl where incs: "incs = []" and s1: "s1 = s\<lparr>gs_heap := h, gs_pools := pl\<rparr>" "gs_heap s \<le> h"
      "set (arena_used ea) \<subseteq> {gs_heap s ..< h}" and ea: "distinct (arena_used ea)"
      "\<forall>c \<in> set cs. arena_free (ch_edgeArena c) \<subseteq> set (arena_used ea)"
      "\<forall>i j. i < j \<longrightarrow> j < length cs \<longrightarrow> arena_free (ch_edgeArena (cs ! i)) \<inter> arena_free (ch_edgeArena (cs ! j)) = {}"
    using prepare_frame [OF p] by blast
  have g1: "graph_inv hash s1" using inv graph_inv_frame [of s1 s hash] by (simp add: load_inv_def s1(1))
  have dom: "dom (gs_edgeAt s) \<subseteq> {..<gs_heap s}" using inv by (simp add: load_inv_def)
  have fresh: "set (arena_used ea) \<inter> dom (gs_edgeAt s) = {}" using dom s1(3) by fastforce
  have k: "keeps hash (\<Union>c \<in> set cs. arena_free (ch_edgeArena c)) s1 s2"
  proof (rule build_chunks_keeps [OF g1 _ _ ea(3)])
    show "build_chunks hash cs f scope1 s1 = Inr (f1, s2)" using b incs by simp
    show "\<forall>c \<in> set cs. arena_free (ch_edgeArena c) \<inter> dom (gs_edgeAt s1) = {}"
      using ea(2) fresh by (simp add: s1(1)) blast
  qed
  have dom2: "dom (gs_edgeAt s2) \<subseteq> dom (gs_edgeAt s) \<union> set (arena_used ea)"
    using k ea(2) by (simp add: keeps_def s1(1)) blast
  have le: "dom (gs_edgeAt s) \<subseteq> dom (gs_edgeAt s2)"
    using k map_le_implies_dom_le [of "gs_edgeAt s1" "gs_edgeAt s2"] by (simp add: keeps_def s1(1))
  have fields: "gs_heap s2 = h" "gs_edges s2 = gs_edges s" "graph_inv hash s2" using k by (simp_all add: keeps_def s1(1))
  have e': "gs_edges s' = gs_edges s @ filter (\<lambda>p. gs_edgeAt s2 p \<noteq> None) (arena_used ea)"
    "gs_edgeAt s' = gs_edgeAt s2" "gs_heap s' = h" "gs_nodeMap s' = gs_nodeMap s2" "gs_inEdge s' = gs_inEdge s2"
    by (simp_all add: s' finalize_def mergeFileState_def fields)
  have old: "set (gs_edges s) = dom (gs_edgeAt s)" "distinct (gs_edges s)" using inv by (simp_all add: load_inv_def)
  have "graph_inv hash s'" using fields(3) graph_inv_frame [of s' s2 hash] e' by simp
  moreover have "dom (gs_edgeAt s') \<subseteq> {..<gs_heap s'}"
    using dom2 dom s1(2,3) unfolding e' by fastforce
  moreover have "set (gs_edges s') = dom (gs_edgeAt s')"
    unfolding e' using old(1) dom2 le by auto
  moreover have "distinct (gs_edges s')" unfolding e' using old ea(1) fresh by auto
  ultimately show ?thesis unfolding load_inv_def by blast
qed

lemma loadFile_load_inv:
  assumes "load_inv hash s" and "loadFile fuel hash ncpu readFile fname scope s = Some (Inr (subs, s'))"
  shows "load_inv hash s'"
proof -
  obtain buf f scope1 f1 where "parseContent fuel hash ncpu readFile (Some scope) buf f s = Some (Inr (scope1, f1, s'))"
    using assms(2) by (auto simp: loadFile_def obind_eq_Some parseFile_def split: option.splits)
  then show ?thesis by (rule parseContent_load_inv [OF assms(1)])
qed

lemma load_loop_inv:
  assumes "load_loop fuel hash ncpu readFile pending s = Some r" and "load_inv hash s" and "r = Inr s'"
  shows "load_inv hash s'"
proof -
  have "load_inv hash s \<longrightarrow> (\<forall>s'. r = Inr s' \<longrightarrow> load_inv hash s')"
    using assms(1)
  proof (rule load_loop.raw_induct [rotated])
    fix load fuel hash ncpu readFile pending s r
    assume IH: "\<And>fuel hash ncpu readFile pending s r. load fuel hash ncpu readFile pending s = Some r \<Longrightarrow>
        load_inv hash s \<longrightarrow> (\<forall>s'. r = Inr s' \<longrightarrow> load_inv hash s')"
      and run: "(case pending of [] \<Rightarrow> Some (Inr s)
          | (fname, scope) # rest \<Rightarrow>
              (case loadFile fuel hash ncpu readFile fname scope s of
                 None \<Rightarrow> None
               | Some (Inl err) \<Rightarrow> Some (Inl err)
               | Some (Inr (subs, s')) \<Rightarrow> load fuel hash ncpu readFile (rest @ subs) s')) = Some r"
    show "load_inv hash s \<longrightarrow> (\<forall>s'. r = Inr s' \<longrightarrow> load_inv hash s')"
    proof (cases pending)
      case Nil
      then show ?thesis using run by auto
    next
      case (Cons q rest)
      obtain fname scope where q: "q = (fname, scope)" by force
      show ?thesis
      proof (cases "loadFile fuel hash ncpu readFile fname scope s")
        case None
        then show ?thesis using run Cons q by simp
      next
        case (Some x)
        show ?thesis
        proof (cases x)
          case (Inl e)
          then show ?thesis using run Cons q Some by auto
        next
          case (Inr y)
          obtain subs s1 where y: "y = (subs, s1)" by force
          have "load fuel hash ncpu readFile (rest @ subs) s1 = Some r" using run Cons q Some Inr y by simp
          from IH [OF this] show ?thesis using loadFile_load_inv Some Inr y by blast
        qed
      qed
    qed
  qed
  then show ?thesis using assms(2,3) by blast
qed

lemma manifest_Load_inv:
  assumes "load_inv hash s" and "manifest_Load fuel hash ncpu readFile fname scope s = Some (Inr s')"
  obtains s1 where "load_inv hash s1" "s' = link_nodes s1"
proof -
  obtain s1 where "load_loop fuel hash ncpu readFile [(fname, scope)] s = Some (Inr s1)" "s' = link_nodes s1"
    using assms(2) by (auto simp: manifest_Load_def obind_eq_Some)
  then show thesis using that load_loop_inv [OF _ assms(1) refl] by blast
qed

end
