(* ===== verification/Ninja_Graph.thy ===== *)
theory Ninja_Graph
  imports Load_Inv Filepath Plan_Inv
begin

text \<open>
  The build graph of a loaded manifest (\<open>build/ninjabuild/ninjabuild.go\<close>): \<open>Load\<close>,
  \<open>NewGraph\<close> with the gn targets that \<open>initGlobals\<close> infers, \<open>StepDef\<close>,
  \<open>TargetPath\<close> and \<open>StepLimits\<close>. \<open>build_graph\<close> gathers what the scheduler of
  \<open>Plan\<close> reads through the \<open>build.Graph\<close> interface; that the result is a well-formed
  graph in the sense of \<open>Plan_Inv\<close> composes the parser with the scheduler.
\<close>

subsection \<open>Loading and node ids\<close>

definition ninja_Load ::
    "nat \<Rightarrow> (bytes \<Rightarrow> 64 word) \<Rightarrow> nat \<Rightarrow> (bytes \<Rightarrow> bytes option) \<Rightarrow> bytes \<Rightarrow> bytes \<Rightarrow> bytes \<Rightarrow> state res option" where
  "ninja_Load fuel hash ncpu readFile execRoot dir fname =
     (let s = addBinding hash ''working_directory'' dir (addBinding hash ''exec_root'' execRoot newState) in
      manifest_Load fuel hash ncpu readFile fname (newManifestParser hash s) s)"

text \<open>\<open>freeze\<close> numbers the nodes by their index; a node that was not there has id 0.\<close>

definition node_id :: "state \<Rightarrow> node_cell \<Rightarrow> nat" where
  "node_id s n =
     (if Some n \<in> set (gs_nodes s) then length (takeWhile (\<lambda>x. x \<noteq> Some n) (gs_nodes s)) else 0)"

definition node_inEdge :: "state \<Rightarrow> node_cell \<Rightarrow> nat option" where
  "node_inEdge s n = gs_inEdge s (nc_ptr n)"

definition globals_targetPath :: "bytes \<Rightarrow> node_cell \<Rightarrow> bytes" where
  "globals_targetPath dir n =
     (if isAbs (nc_path n) then nc_path n else fp_join [dir, nc_path n])"

subsection \<open>The graph the scheduler sees\<close>

definition step_edge :: "(bytes \<Rightarrow> 64 word) \<Rightarrow> (nat \<Rightarrow> bytes) \<Rightarrow> state \<Rightarrow> nat \<Rightarrow> edge \<Rightarrow> build_edge" where
  "step_edge hash ids s p e =
     \<lparr>be_name = ids p,
      be_inputs = map (node_id s) (edge_TriggerInputs e),
      be_orderOnly = map (node_id s) (drop (length (edge_TriggerInputs e)) (ed_inputs e)),
      be_outputs = map (node_id s) (ed_outputs e),
      be_validations = map (node_id s) (ed_validations e),
      be_phony = edge_IsPhony e,
      be_phonyOutput = (edge_Binding hash e ''phony_output'' \<noteq> [])\<rparr>"

definition no_edge :: build_edge where
  "no_edge = \<lparr>be_name = [], be_inputs = [], be_orderOnly = [], be_outputs = [], be_validations = [],
     be_phony = False, be_phonyOutput = False\<rparr>"

definition build_graph ::
    "(bytes \<Rightarrow> 64 word) \<Rightarrow> (nat \<Rightarrow> bytes) \<Rightarrow> bytes \<Rightarrow> (bytes \<Rightarrow> bool) \<Rightarrow> state \<Rightarrow> graph" where
  "build_graph hash ids dir stat s =
     (let path = (\<lambda>t. case state_LookupNode s (int t) of None \<Rightarrow> [] | Some n \<Rightarrow> globals_targetPath dir n) in
      \<lparr>g_numTargets = numNodes s,
       g_inEdge = (\<lambda>t. case state_LookupNode s (int t) of None \<Rightarrow> None | Some n \<Rightarrow> node_inEdge s n),
       g_edge = (\<lambda>p. case gs_edgeAt s p of None \<Rightarrow> no_edge | Some e \<Rightarrow> step_edge hash ids s p e),
       g_path = path,
       g_stat = (\<lambda>t. stat (path t))\<rparr>)"

definition stepLimits :: "state \<Rightarrow> bytes \<Rightarrow> int option" where
  "stepLimits s k =
     (case gs_pools s k of None \<Rightarrow> None | Some p \<Rightarrow> if po_depth p = 0 then None else Some (po_depth p))"

subsection \<open>Inferred gn targets\<close>

record gnTarget =
  gt_target :: bytes
  gt_rule :: bytes
  gt_pref :: nat

definition gnTargetsRulePrefs :: "bytes list" where
  "gnTargetsRulePrefs = [''phony'', ''stamp'', ''solink'', ''alink'', ''link'']"

definition rulePref :: "bytes \<Rightarrow> nat" where
  "rulePref rule_name =
     (let r = last (split_on CHR ''_'' rule_name) in
      length (takeWhile (\<lambda>p. p \<noteq> r) gnTargetsRulePrefs))"

text \<open>The inner loop over the inputs of the edge that generates an input of the gn target.\<close>

definition gn_child :: "state \<Rightarrow> bytes \<Rightarrow> bytes \<Rightarrow> nat \<Rightarrow> node_cell \<Rightarrow> (nat \<Rightarrow> gnTarget option) \<Rightarrow> (nat \<Rightarrow> gnTarget option)" where
  "gn_child s target rule_name pref cn m =
     (case node_inEdge s cn of
        None \<Rightarrow> m
      | Some ce \<Rightarrow>
          (case m ce of
             Some gt \<Rightarrow> if gt_pref gt \<le> pref then m
                        else m(ce \<mapsto> \<lparr>gt_target = target, gt_rule = rule_name, gt_pref = pref\<rparr>)
           | None \<Rightarrow> m(ce \<mapsto> \<lparr>gt_target = target, gt_rule = rule_name, gt_pref = pref\<rparr>)))"

definition gn_input :: "state \<Rightarrow> bytes \<Rightarrow> node_cell \<Rightarrow> (nat \<Rightarrow> gnTarget option) \<Rightarrow> (nat \<Rightarrow> gnTarget option)" where
  "gn_input s target n m =
     (case node_inEdge s n of
        None \<Rightarrow> m
      | Some ne \<Rightarrow>
          let e = the (gs_edgeAt s ne);
              m1 = m(ne \<mapsto> \<lparr>gt_target = target, gt_rule = ''phony'', gt_pref = 0\<rparr>) in
          fold (gn_child s target (r_name (ed_rule e)) (rulePref (r_name (ed_rule e)))) (edge_Ins e) m1)"

definition gn_phony :: "state \<Rightarrow> node_cell \<Rightarrow> (nat \<Rightarrow> gnTarget option) \<Rightarrow> (nat \<Rightarrow> gnTarget option)" where
  "gn_phony s p m =
     (if CHR '':'' \<notin> set (nc_path p) then m
      else case node_inEdge s p of
        None \<Rightarrow> m
      | Some e \<Rightarrow> fold (gn_input s (nc_path p)) (edge_Ins (the (gs_edgeAt s e))) m)"

definition initGlobals :: "state \<Rightarrow> nat \<Rightarrow> gnTarget option" where
  "initGlobals s = fold (gn_phony s) (phonyNodes s) (\<lambda>_. None)"

subsection \<open>Node ids\<close>

lemma freeze_known:
  assumes "nm_lookup hash nm (nc_path n) = Some n"
  shows "Some n \<in> set (nm_freeze nm)"
proof -
  have "n \<in> set (nm_nodes nm (node_slot hash (nc_path n)))"
    using chain_find_Some [OF assms [unfolded nm_lookup_def]] by (rule conjunct1)
  moreover have "node_slot hash (nc_path n) \<in> set [0..<nodeMapArraySize]"
    by (simp only: set_upt atLeastLessThan_iff node_slot_lt le0 simp_thms)
  ultimately have "n \<in> set (concat (map (nm_nodes nm) [0..<nodeMapArraySize]))"
    unfolding set_concat set_map by blast
  then show ?thesis unfolding nm_freeze_def list.set set_map by blast
qed

lemma chain_find_member:
  "distinct (map nc_path ch) \<Longrightarrow> c \<in> set ch \<Longrightarrow> chain_find (nc_path c) ch = Some c"
  by (induction ch) (auto simp: chain_find_def)

lemma freeze_lookup:
  assumes "nm_ok hash nm" and "Some n \<in> set (nm_freeze nm)"
  shows "nm_lookup hash nm (nc_path n) = Some n"
proof -
  obtain i where i: "n \<in> set (nm_nodes nm i)"
    using assms(2) unfolding nm_freeze_def list.set set_map set_concat by blast
  then have "node_slot hash (nc_path n) = i" "distinct (map nc_path (nm_nodes nm i))"
    using assms(1) by (simp_all add: nm_ok_def)
  then show ?thesis using chain_find_member i by (simp add: nm_lookup_def)
qed

lemma freeze_head: "nm_freeze nm \<noteq> [] \<and> hd (nm_freeze nm) = None"
  by (simp only: nm_freeze_def list.sel list.simps simp_thms)

lemma takeWhile_index:
  "x \<in> set xs \<Longrightarrow> length (takeWhile (\<lambda>y. y \<noteq> x) xs) < length xs \<and> xs ! length (takeWhile (\<lambda>y. y \<noteq> x) xs) = x"
  by (induction xs) auto

lemma index_takeWhile:
  "distinct xs \<Longrightarrow> i < length xs \<Longrightarrow> length (takeWhile (\<lambda>y. y \<noteq> xs ! i) xs) = i"
proof (induction xs arbitrary: i)
  case (Cons a xs)
  then show ?case by (cases i) auto
qed simp

lemma node_id_lookup:
  assumes "Some n \<in> set (gs_nodes s)" "gs_nodes s \<noteq> []" "hd (gs_nodes s) = None"
  shows "state_LookupNode s (int (node_id s n)) = Some n"
    and "0 < node_id s n" "node_id s n < length (gs_nodes s)"
proof -
  have i: "node_id s n < length (gs_nodes s)" "gs_nodes s ! node_id s n = Some n"
    using takeWhile_index [OF assms(1)] assms(1) by (simp_all add: node_id_def)
  moreover have "node_id s n \<noteq> 0" using assms(2,3) i(2) hd_conv_nth [of "gs_nodes s"] by (metis option.distinct(1))
  ultimately show "state_LookupNode s (int (node_id s n)) = Some n" "0 < node_id s n" "node_id s n < length (gs_nodes s)"
    by (simp_all add: state_LookupNode_def)
qed

lemma lookup_node_id:
  assumes "distinct (gs_nodes s)" "state_LookupNode s (int t) = Some n"
  shows "node_id s n = t"
proof -
  have t: "t < length (gs_nodes s)" "gs_nodes s ! t = Some n"
    using assms(2) by (auto simp: state_LookupNode_def split: if_splits)
  then have "Some n \<in> set (gs_nodes s)" unfolding in_set_conv_nth by blast
  then show ?thesis using index_takeWhile [OF assms(1) t(1)] t(2) by (simp add: node_id_def)
qed

lemma node_id_inj:
  "Some n \<in> set (gs_nodes s) \<Longrightarrow> Some m \<in> set (gs_nodes s) \<Longrightarrow> node_id s n = node_id s m \<Longrightarrow> n = m"
  using takeWhile_index by (metis node_id_def option.inject)

subsection \<open>A loaded manifest is a well-formed graph\<close>

lemma graph_inv_wf:
  assumes inv: "graph_inv hash s1" and s: "s = link_nodes s1"
  shows "wf_graph (build_graph hash ids dir stat s)"
proof -
  let ?g = "build_graph hash ids dir stat s"
  have nodes: "gs_nodes s = nm_freeze (gs_nodeMap s1)" and eq: "gs_edgeAt s = gs_edgeAt s1" "gs_inEdge s = gs_inEdge s1"
    by (simp_all add: s link_nodes_def)
  have dist: "distinct (gs_nodes s)" using inv nm_freeze_distinct unfolding nodes graph_inv_def by blast
  have hd: "gs_nodes s \<noteq> []" "hd (gs_nodes s) = None" using freeze_head unfolding nodes by blast+
  have mem: "Some n \<in> set (gs_nodes s)" if "known hash s1 n" for n
    using that freeze_known unfolding nodes known_def by blast
  note look = node_id_lookup [OF mem hd]
  have lk: "lookupNode ?g (node_id s n)" if "known hash s1 n" for n
    using look [OF that] by (simp add: lookupNode_def build_graph_def Let_def numNodes_def)
  have edge: "wf_edge ?g p" if e: "gs_edgeAt s1 p = Some e" for p e
  proof -
    have inv_e: "edge_inv hash s1 p e" using inv e by (simp add: graph_inv_def)
    have g_e: "g_edge ?g p = step_edge hash ids s p e" using e eq by (simp add: build_graph_def Let_def)
    have outs: "g_inEdge ?g (node_id s n) = Some p" if "n \<in> set (ed_outputs e)" for n
    proof -
      have "known hash s1 n" "gs_inEdge s1 (nc_ptr n) = Some p" using inv_e that by (simp_all add: edge_inv_def)
      then show ?thesis using look by (simp add: build_graph_def Let_def node_inEdge_def eq)
    qed
    have "distinct (map (node_id s) (ed_outputs e))"
      unfolding distinct_map
    proof
      show "distinct (ed_outputs e)" using inv_e by (simp add: edge_inv_def distinct_map)
      show "inj_on (node_id s) (set (ed_outputs e))"
        using inv_e mem by (intro inj_onI node_id_inj) (simp_all add: edge_inv_def)
    qed
    moreover have "\<forall>n \<in> set (ed_inputs e). known hash s1 n" using inv_e by (simp add: edge_inv_def)
    then have "\<forall>t \<in> set (step_ins ?g p). lookupNode ?g t"
      using lk by (auto simp: step_ins_def g_e step_edge_def edge_TriggerInputs_def dest: in_set_takeD in_set_dropD)
    moreover have "ed_outputs e \<noteq> []" "\<forall>n \<in> set (ed_outputs e). known hash s1 n"
      using inv_e by (simp_all add: edge_inv_def)
    ultimately show ?thesis
      using lk outs by (simp add: wf_edge_def g_e list_all_iff) (simp add: step_edge_def)
  qed
  show ?thesis
    unfolding wf_graph_def list_all_iff
  proof
    fix t
    show "case g_inEdge ?g t of None \<Rightarrow> True | Some p \<Rightarrow> t \<in> set (be_outputs (g_edge ?g p)) \<and> wf_edge ?g p"
    proof (cases "g_inEdge ?g t")
      case (Some p)
      then obtain n where n: "state_LookupNode s (int t) = Some n" "gs_inEdge s1 (nc_ptr n) = Some p"
        by (auto simp: build_graph_def Let_def node_inEdge_def eq split: option.splits)
      obtain e m where e: "gs_edgeAt s1 p = Some e" and m: "m \<in> set (ed_outputs e)" "nc_ptr m = nc_ptr n"
        using inv n(2) unfolding graph_inv_def by (metis (no_types) imageE)
      have "known hash s1 m" using inv e m(1) by (simp add: graph_inv_def edge_inv_def)
      moreover have "known hash s1 n"
      proof -
        have "t < length (gs_nodes s)" "gs_nodes s ! t = Some n"
          using n(1) by (auto simp: state_LookupNode_def split: if_splits)
        then have "Some n \<in> set (gs_nodes s)" unfolding in_set_conv_nth by blast
        then show ?thesis using freeze_lookup inv unfolding nodes known_def graph_inv_def by blast
      qed
      ultimately have "m = n" using known_inj inv m(2) unfolding graph_inv_def by blast
      then have "t \<in> set (be_outputs (g_edge ?g p))"
        using m(1) e eq lookup_node_id [OF dist n(1)] by (auto simp: build_graph_def Let_def step_edge_def)
      then show ?thesis using Some edge [OF e] by simp
    qed simp
  qed
qed

text \<open>Loading the manifest into a fresh state, as \<open>Load\<close> does.\<close>

lemma ninja_Load_inv:
  assumes "ninja_Load fuel hash ncpu readFile execRoot dir fname = Some (Inr s)"
  obtains s1 where "load_inv hash s1" "s = link_nodes s1"
proof (rule manifest_Load_inv [of hash newState])
  show "load_inv hash newState" by (rule load_inv_new)
  show "manifest_Load fuel hash ncpu readFile fname (newManifestParser hash newState) newState = Some (Inr s)"
    using assms by (simp add: ninja_Load_def addBinding_newState Let_def)
qed (use that in blast)

subsection \<open>The preferred gn target\<close>

text \<open>What each edge is offered, in the order of the loops.\<close>

definition child_offers :: "state \<Rightarrow> nat \<Rightarrow> (nat \<times> nat) list" where
  "child_offers s ne =
     (let e = the (gs_edgeAt s ne) in
      concat (map (\<lambda>cn. case node_inEdge s cn of None \<Rightarrow> [] | Some ce \<Rightarrow> [(ce, rulePref (r_name (ed_rule e)))]) (edge_Ins e)))"

definition input_offers :: "state \<Rightarrow> node_cell \<Rightarrow> (nat \<times> nat) list" where
  "input_offers s n = (case node_inEdge s n of None \<Rightarrow> [] | Some ne \<Rightarrow> (ne, 0) # child_offers s ne)"

definition phony_offers :: "state \<Rightarrow> node_cell \<Rightarrow> (nat \<times> nat) list" where
  "phony_offers s p =
     (if CHR '':'' \<notin> set (nc_path p) then []
      else case node_inEdge s p of None \<Rightarrow> []
        | Some e \<Rightarrow> concat (map (input_offers s) (edge_Ins (the (gs_edgeAt s e)))))"

definition gn_offers :: "state \<Rightarrow> (nat \<times> nat) list" where
  "gn_offers s = concat (map (phony_offers s) (phonyNodes s))"

fun best_offer :: "nat \<Rightarrow> (nat \<times> nat) list \<Rightarrow> nat option \<Rightarrow> nat option" where
  "best_offer e [] b = b"
| "best_offer e ((x, k) # os) b =
     best_offer e os (if x = e then Some (case b of None \<Rightarrow> k | Some j \<Rightarrow> min j k) else b)"

lemma best_offer_append: "best_offer e (xs @ ys) b = best_offer e ys (best_offer e xs b)"
  by (induction xs arbitrary: b) auto

lemma gn_child_pref:
  "map_option gt_pref (gn_child s t r k cn m e) =
     best_offer e (case node_inEdge s cn of None \<Rightarrow> [] | Some ce \<Rightarrow> [(ce, k)]) (map_option gt_pref (m e))"
  by (auto simp: gn_child_def min_def split: option.splits)

lemma gn_children_pref:
  "map_option gt_pref (fold (gn_child s t r k) cns m e) =
     best_offer e (concat (map (\<lambda>cn. case node_inEdge s cn of None \<Rightarrow> [] | Some ce \<Rightarrow> [(ce, k)]) cns))
       (map_option gt_pref (m e))"
  by (induction cns arbitrary: m) (simp_all add: gn_child_pref best_offer_append)

lemma gn_input_pref:
  "map_option gt_pref (gn_input s t n m e) = best_offer e (input_offers s n) (map_option gt_pref (m e))"
  by (simp add: gn_input_def input_offers_def child_offers_def Let_def gn_children_pref split: option.split)

lemma gn_phony_pref:
  "map_option gt_pref (gn_phony s p m e) = best_offer e (phony_offers s p) (map_option gt_pref (m e))"
proof -
  have "map_option gt_pref (fold (gn_input s t) ns m e) =
      best_offer e (concat (map (input_offers s) ns)) (map_option gt_pref (m e))" for t ns
    by (induction ns arbitrary: m) (simp_all add: gn_input_pref best_offer_append)
  then show ?thesis by (simp add: gn_phony_def phony_offers_def split: option.split)
qed

lemma initGlobals_offers: "map_option gt_pref (initGlobals s e) = best_offer e (gn_offers s) None"
proof -
  have "map_option gt_pref (fold (gn_phony s) ps m e) =
      best_offer e (concat (map (phony_offers s) ps)) (map_option gt_pref (m e))" for ps m
    by (induction ps arbitrary: m) (simp_all add: gn_phony_pref best_offer_append)
  from this [of "phonyNodes s" "\<lambda>_. None"] show ?thesis by (simp add: initGlobals_def gn_offers_def)
qed

lemma Min_insert_min: "finite A \<Longrightarrow> Min (insert (min a b) A) = min a (Min (insert b A))" for a b :: nat
  by (cases "A = {}") (simp_all add: min.assoc)

lemma best_offer_min:
  "best_offer e os b =
     (let ks = map snd (filter (\<lambda>q. fst q = e) os) @ (case b of None \<Rightarrow> [] | Some j \<Rightarrow> [j]) in
      if ks = [] then None else Some (Min (set ks)))"
proof (induction os arbitrary: b)
  case Nil
  then show ?case by (simp split: option.split)
next
  case (Cons q os)
  obtain x k where q: "q = (x, k)" by force
  show ?case
    using Cons by (auto simp: q Let_def Min_insert_min insert_commute split: option.splits)
qed

end
