(* ===== verification/Parse_Props.thy ===== *)
theory Parse_Props
  imports Ninja_Graph
begin

text \<open>
  The main properties of the manifest parser and of the graph it hands to the scheduler. The demo
  manifest at the beginning serves the witnesses; the hash function there is constant, so all names
  share one chain of every table.
\<close>

subsection \<open>A small manifest\<close>

definition demo_manifest :: bytes where
  "demo_manifest = ''build a: phony b'' @ [NL] @ ''build b: phony'' @ [NL]"

definition demo_files :: "bytes \<Rightarrow> bytes option" where
  "demo_files f = (if f = ''build.ninja'' then Some demo_manifest else None)"

abbreviation demo_hash :: "bytes \<Rightarrow> 64 word" where
  "demo_hash \<equiv> \<lambda>_. 0"

subsection \<open>Chunks\<close>

text \<open>C18: When all chunks of a manifest return, \<open>parseChunks\<close> reports one of the results that the error
  group may report, and whatever the group may report agrees with parsing the whole file: if it reports
  success, the whole file parses, to the statements of the chunks in the same order and with the sums of
  all their counters; if it reports an error, the whole file gives the error of the first chunk that
  fails. The split never cuts a statement and never separates an indented binding from its statement.\<close>

theorem split_equiv:
  assumes rs: "map parseChunk (splitIntoChunks ncpu buf) = map Some rs" and q: "group_result rs q"
  shows "(\<exists>r. parseChunks (splitIntoChunks ncpu buf) = Some r \<and> group_result rs r) \<and>
    (case q of
      Inl err \<Rightarrow> \<exists>err'. first_failure rs = Some err' \<and>
        parseChunk (newChunk buf 0 (length buf)) = Some (Inl err')
    | Inr cs \<Rightarrow> \<exists>ch. parseChunk (newChunk buf 0 (length buf)) = Some (Inr ch) \<and>
        parseChunks (splitIntoChunks ncpu buf) = Some (Inr cs) \<and>
        ch_statements ch = concat (map ch_statements cs) \<and>
        ch_nvar ch = sum_list (map ch_nvar cs) \<and>
        ch_nrule ch = sum_list (map ch_nrule cs) \<and> ch_nrulevar ch = sum_list (map ch_nrulevar cs) \<and>
        ch_nbuild ch = sum_list (map ch_nbuild cs) \<and> ch_nbuildvar ch = sum_list (map ch_nbuildvar cs) \<and>
        ch_npool ch = sum_list (map ch_npool cs) \<and> ch_npoolvar ch = sum_list (map ch_npoolvar cs) \<and>
        ch_ndefault ch = sum_list (map ch_ndefault cs) \<and>
        ch_ninclude ch = sum_list (map ch_ninclude cs) \<and> ch_nsubninja ch = sum_list (map ch_nsubninja cs))"
proof -
  note reports = parseChunks_reports [OF rs]
  define A where "A = newChunk buf 0 (length buf)"
  have A: "ch_buf A = buf" "ch_end A = length buf" "ch_statements A = []" "ch_start A = 0"
    "A\<lparr>ch_statements := []\<rparr> = A" by (simp_all add: A_def)
  have zero: "ch_nvar A = 0" "ch_nrule A = 0" "ch_nrulevar A = 0" "ch_nbuild A = 0" "ch_nbuildvar A = 0"
    "ch_npool A = 0" "ch_npoolvar A = 0" "ch_ndefault A = 0" "ch_ninclude A = 0" "ch_nsubninja A = 0"
    by (simp_all add: A_def newChunk_def)
  define r where "r = (case first_failure rs of None \<Rightarrow> Inr (map projr rs) | Some e \<Rightarrow> Inl e)"
  have "parse_in_order (splitIntoChunks ncpu buf) = Some r"
    unfolding r_def by (rule parse_in_order_results [OF rs])
  then have "parseChunk_loop 0 statementNone A = Some (map_sum id (rebase_all A) r)"
    unfolding splitIntoChunks_def by (rule parse_in_order_from [rotated 2]) (simp_all add: A)
  then have whole: "parseChunk A = Some (map_sum id (rebase_all A) r)" by (simp add: parseChunk_def A)
  show ?thesis
  proof (cases q)
    case (Inl err)
    then obtain err' where "first_failure rs = Some err'" using group_result_Inl q by metis
    then show ?thesis using whole Inl reports by (simp add: r_def A_def)
  next
    case (Inr cs)
    then have "first_failure rs = None \<and> map projr rs = cs" "rs = map Inr cs"
      using q group_result_Inr [of rs cs] by (auto simp: group_result_def)
    then show ?thesis
      using whole Inr parseChunks_all_Inr [of "splitIntoChunks ncpu buf" cs] rs reports
      by (simp add: r_def A_def [symmetric] rebase_all_sel A zero)
  qed
qed

definition demo_chunk :: chunk where
  "demo_chunk = (newChunk demo_manifest 0 32)\<lparr>ch_statements :=
       [\<lparr>st_pos = 0, st_t = statementBuild, st_s = 0, st_v = 6, st_e = 17\<rparr>,
        \<lparr>st_pos = 0, st_t = statementBuild, st_s = 17, st_v = 23, st_e = 32\<rparr>], ch_nbuild := 2\<rparr>"

definition broken_manifest :: bytes where
  "broken_manifest = ''build a: phony b'' @ [NL] @ ''junk'' @ [NL]"

lemma demo_parse: "parseChunks (splitIntoChunks 1 demo_manifest) = Some (Inr [demo_chunk])"
  by code_simp

theorem split_equiv_witness:
  "(\<exists>ch. parseChunk (newChunk demo_manifest 0 (length demo_manifest)) = Some (Inr ch) \<and>
     length (ch_statements ch) = 2 \<and> ch_nbuild ch = 2 \<and> ch_nrule ch = 0) \<and>
   (\<exists>err. parseChunk (newChunk broken_manifest 0 (length broken_manifest)) = Some (Inl err))"
proof -
  have 1: "map parseChunk (splitIntoChunks 1 demo_manifest) = map Some [Inr demo_chunk]"
    "group_result [Inr demo_chunk] (Inr [demo_chunk])" by code_simp (simp add: group_result_def)
  have "(case map parseChunk (splitIntoChunks 1 broken_manifest) of [Some (Inl e)] \<Rightarrow> True | _ \<Rightarrow> False)"
    by code_simp
  then obtain e where 2: "map parseChunk (splitIntoChunks 1 broken_manifest) = map Some [Inl e]"
    by (auto split: list.splits option.splits sum.splits)
  have 3: "group_result [Inl e :: chunk res] (Inl e)" by (auto simp: group_result_def)
  show ?thesis using split_equiv [OF 1] split_equiv [OF 2 3] by (auto simp: demo_chunk_def newChunk_def)
qed

text \<open>C32: Parsing returns for every manifest that ends with a newline, however it is split.\<close>

theorem parseChunks_returns:
  assumes "buf \<noteq> []" and "last buf = NL"
  shows "\<exists>r. parseChunks (splitIntoChunks ncpu buf) = Some r"
proof -
  have "\<exists>r. parseChunks cs = Some r" if "\<forall>c \<in> set cs. \<exists>s e. c = newChunk buf s e" for cs
    using that
  proof (induction cs)
    case (Cons c cs)
    obtain s e where c: "c = newChunk buf s e" using Cons.prems by auto
    have "\<exists>r. parseChunk c = Some r"
      unfolding parseChunk_def
      by (rule parseChunk_loop_returns) (use comments_closed_newline [OF assms] in \<open>simp add: c newChunk_def\<close>)
    then obtain x where "parseChunk c = Some x" by blast
    moreover obtain y where "parseChunks cs = Some y" using Cons by auto
    ultimately show ?case by simp
  qed simp
  then show ?thesis unfolding splitIntoChunks_def using split_loop_from_new by blast
qed

theorem parseChunks_returns_witness:
  "\<exists>r. parseChunks (splitIntoChunks 8 demo_manifest) = Some r"
  by (rule parseChunks_returns) (simp_all add: demo_manifest_def)

text \<open>A comment on the last line without a newline is never left: the index of the newline is
  \<open>-1\<close>, and the test that should catch it looks at \<open>i\<close> instead.\<close>

theorem parseChunk_open_comment:
  assumes "NL \<notin> set c"
  shows "parseChunk (newChunk (CHR ''#'' # c) 0 (Suc (length c))) = None"
  unfolding parseChunk_def by (rule parseChunk_loop_diverges) (simp_all add: newChunk_def assms)

theorem parseChunk_open_comment_witness: "parseChunk (newChunk ''# done'' 0 6) = None"
  using parseChunk_open_comment [of "'' done''"] by (simp add: eval_nat_numeral)

text \<open>Every statement of a parsed chunk lies within the buffer, statements do not overlap and are
  in file order, and the value position lies inside the statement, except in a variable declaration.\<close>

theorem parseChunk_bounds:
  assumes "parseChunk ch = Some (Inr ch')" and "ch_start ch \<le> length (ch_buf ch)"
  shows "(\<forall>st \<in> set (ch_statements ch').
      st_s st < st_e st \<and> st_e st \<le> length (ch_buf ch) \<and> st_s st \<le> st_v st \<and> st_v st \<le> length (ch_buf ch) \<and>
      (st_t st \<noteq> statementVarDecl \<longrightarrow> st_v st \<le> st_e st)) \<and>
    sorted_wrt (\<lambda>a b. st_e a \<le> st_s b) (ch_statements ch')"
  using parseChunk_statements_ok [OF assms] by (auto simp: statements_ok_def statement_ok_def)

lemma demo_parse1: "parseChunk (newChunk demo_manifest 0 32) = Some (Inr demo_chunk)"
  by code_simp

theorem parseChunk_bounds_witness:
  "list_all (\<lambda>st. st_s st < st_e st \<and> st_e st \<le> length demo_manifest) (ch_statements demo_chunk) \<and>
   sorted_wrt (\<lambda>a b. st_e a \<le> st_s b) (ch_statements demo_chunk)"
  using parseChunk_bounds [OF demo_parse1] by (simp add: newChunk_def list_all_iff)

text \<open>A variable declaration line without an equals sign is not rejected when a later line has
  one: the statement gets a value position behind its own end, and interpreting it panics with a
  slice out of range.\<close>

theorem vardecl_next_line:
  "\<exists>ch m. parseChunk (newChunk (''a'' @ [NL] @ ''b=c'' @ [NL]) 0 6) = Some (Inr ch) \<and>
     length (ch_statements ch) = 2 \<and> st_v (ch_statements ch ! 0) > st_e (ch_statements ch ! 0) \<and>
     parseVarBinding ch 0 = Inl (Panic m)"
proof -
  let ?p = "parseChunk (newChunk (''a'' @ [NL] @ ''b=c'' @ [NL]) 0 6)"
  have "(case ?p of Some (Inr ch) \<Rightarrow> length (ch_statements ch) = 2 \<and>
      st_v (ch_statements ch ! 0) > st_e (ch_statements ch ! 0) \<and>
      (case parseVarBinding ch 0 of Inl (Panic m) \<Rightarrow> True | _ \<Rightarrow> False) | _ \<Rightarrow> False)"
    by code_simp
  then show ?thesis by (auto split: option.splits sum.splits failure.splits)
qed

subsection \<open>Loading\<close>

lemma obind_stuck:
  "x = None \<or> (\<exists>m. x = Some (Inl (Panic m))) \<Longrightarrow> obind x f = None \<or> (\<exists>m. obind x f = Some (Inl (Panic m)))"
  by (auto simp: obind_def)

text \<open>C36: A manifest file with an include statement is never set up: the loop over the chunks
  reads the chunk behind the last one and panics, whatever the included file holds.\<close>

theorem include_panics:
  assumes "parseChunks (splitIntoChunks ncpu buf) = Some (Inr cs)"
    and "c \<in> set cs" and "statementInclude \<in> st_t ` set (ch_statements c)"
  shows "prepare (Suc fuel) hash ncpu readFile parent buf s = None \<or>
    (\<exists>m. prepare (Suc fuel) hash ncpu readFile parent buf s = Some (Inl (Panic m)))"
proof -
  obtain cs1 scope1 ea1 s1 where al: "alloc cs parent s = Inr (cs1, scope1, ea1, s1)" "length cs1 = length cs"
    and ninc: "\<forall>k < length cs. ch_ninclude (cs1 ! k) = ch_ninclude (cs ! k)"
    using alloc_ok [of cs parent s] by (elim exE conjE) blast
  obtain k where k: "k < length cs" "cs ! k = c" using assms(2) unfolding in_set_conv_nth by blast
  have "0 < ch_ninclude c"
    using parseChunks_counts [OF assms(1,2)] assms(3)
    by (simp add: counts_ok_def st_count_def filter_empty_conv) (metis (no_types) imageE)
  then have "0 < ch_ninclude (cs1 ! k)" using ninc k by simp
  moreover have "ch_ninclude (cs1 ! k) \<in> ch_ninclude ` set cs1" using k al(2) by simp
  ultimately have n: "0 < sum_list (map ch_ninclude cs1)" "0 < length cs1"
    using k al(2) member_le_sum_list [of "ch_ninclude (cs1 ! k)" "map ch_ninclude cs1"] by auto
  show ?thesis
    unfolding prepare.simps assms(1) obind_simps al(1) prod.case fp_setup_def
    by (rule obind_stuck [OF setup_chunks_include [OF n]])
qed

definition include_manifest :: bytes where
  "include_manifest = ''include x'' @ [NL]"

theorem include_panics_witness:
  "prepare 1 demo_hash 1 demo_files None include_manifest newState = None \<or>
    (\<exists>m. prepare 1 demo_hash 1 demo_files None include_manifest newState = Some (Inl (Panic m)))"
proof -
  have "(case parseChunks (splitIntoChunks 1 include_manifest) of
      Some (Inr [c]) \<Rightarrow> map st_t (ch_statements c) = [statementInclude] | _ \<Rightarrow> False)"
    by code_simp
  then obtain c where c: "parseChunks (splitIntoChunks 1 include_manifest) = Some (Inr [c])"
      "map st_t (ch_statements c) = [statementInclude]"
    by (auto split: option.splits sum.splits list.splits)
  have "c \<in> set [c]" "statementInclude \<in> st_t ` set (ch_statements c)" using c(2) by auto
  from include_panics [OF c(1) this, of 0] show ?thesis unfolding One_nat_def by blast
qed

text \<open>C9: A successfully loaded manifest gives the scheduler a well-formed graph: every target that
  an edge generates is an output of that edge and of no other, its outputs are distinct and not
  empty, and all inputs are known targets. Every theorem on plans applies to it.\<close>

theorem loaded_graph_wf:
  assumes "ninja_Load fuel hash ncpu readFile execRoot dir fname = Some (Inr s)"
  shows "wf_graph (build_graph hash ids wd stat s)"
  using ninja_Load_inv [OF assms] graph_inv_wf by (metis load_inv_def)

definition demo_load :: "state res option" where
  "demo_load = load_loop 1 demo_hash 1 demo_files [(''build.ninja'', newManifestParser demo_hash newState)] newState"

lemma demo_load: "\<exists>s. demo_load = Some (Inr s) \<and> length (gs_edges s) = 2"
proof -
  have "(case demo_load of Some (Inr s) \<Rightarrow> length (gs_edges s) = 2 | _ \<Rightarrow> False)" by code_simp
  then show ?thesis by (auto split: option.splits sum.splits)
qed

lemma demo_ninja_Load:
  "\<exists>s. ninja_Load 1 demo_hash 1 demo_files ''/src'' ''out'' ''build.ninja'' = Some (Inr s) \<and> length (gs_edges s) = 2"
proof -
  obtain s where s: "demo_load = Some (Inr s)" "length (gs_edges s) = 2" using demo_load by blast
  have "ninja_Load 1 demo_hash 1 demo_files ''/src'' ''out'' ''build.ninja'' = Some (Inr (link_nodes s))"
    unfolding ninja_Load_def addBinding_newState Let_def manifest_Load_def demo_load_def [symmetric] s(1)
    by (simp add: obind_def)
  moreover have "gs_edges (link_nodes s) = gs_edges s" by (simp add: link_nodes_def)
  ultimately show ?thesis using s(2) by auto
qed

theorem loaded_graph_wf_witness:
  "\<exists>s. ninja_Load 1 demo_hash 1 demo_files ''/src'' ''out'' ''build.ninja'' = Some (Inr s) \<and>
     length (gs_edges s) = 2 \<and> wf_graph (build_graph demo_hash (\<lambda>_. ''id'') ''out'' (\<lambda>_. True) s)"
  using demo_ninja_Load loaded_graph_wf by blast

text \<open>C24: In a loaded manifest the edges are distinct objects, every edge keeps its counts of implicit
  and order-only inputs within its lists, and two edges never generate the same path.\<close>

theorem loaded_edges:
  assumes "ninja_Load fuel hash ncpu readFile execRoot dir fname = Some (Inr s)"
  shows "distinct (gs_edges s) \<and> (\<forall>p \<in> set (gs_edges s). \<exists>e. gs_edgeAt s p = Some e \<and> edge_ok e) \<and>
    (\<forall>p q e f. gs_edgeAt s p = Some e \<longrightarrow> gs_edgeAt s q = Some f \<longrightarrow>
      nc_path ` set (ed_outputs e) \<inter> nc_path ` set (ed_outputs f) \<noteq> {} \<longrightarrow> p = q)"
proof -
  obtain s1 where inv: "load_inv hash s1" and s: "s = link_nodes s1" by (rule ninja_Load_inv [OF assms])
  have eq: "gs_edges s = gs_edges s1" "gs_edgeAt s = gs_edgeAt s1" by (simp_all add: s link_nodes_def)
  have e_inv: "gs_edgeAt s1 p = Some e \<Longrightarrow> edge_inv hash s1 p e" for p e
    using inv by (simp add: load_inv_def graph_inv_def)
  have "p = q" if at: "gs_edgeAt s1 p = Some e" "gs_edgeAt s1 q = Some f"
      "x \<in> nc_path ` set (ed_outputs e)" "x \<in> nc_path ` set (ed_outputs f)" for p q e f x
  proof -
    obtain m n where mn: "m \<in> set (ed_outputs e)" "nc_path m = x" "n \<in> set (ed_outputs f)" "nc_path n = x"
      using at(3,4) by (elim imageE) metis
    then have "known hash s1 m" "known hash s1 n" using e_inv [OF at(1)] e_inv [OF at(2)] by (simp_all add: edge_inv_def)
    then have "m = n" using mn by (simp add: known_def)
    moreover have "gs_inEdge s1 (nc_ptr m) = Some p" "gs_inEdge s1 (nc_ptr n) = Some q"
      using e_inv [OF at(1)] e_inv [OF at(2)] mn by (simp_all add: edge_inv_def)
    ultimately show ?thesis by simp
  qed
  moreover have "\<exists>e. gs_edgeAt s1 p = Some e \<and> edge_ok e" if "p \<in> set (gs_edges s1)" for p
  proof -
    obtain e where "gs_edgeAt s1 p = Some e" using inv \<open>p \<in> set (gs_edges s1)\<close> by (auto simp: load_inv_def)
    then show ?thesis using e_inv by (auto simp: edge_inv_def)
  qed
  moreover have "distinct (gs_edges s1)" using inv by (simp add: load_inv_def)
  ultimately show ?thesis unfolding eq by blast
qed

theorem loaded_edges_witness:
  "\<exists>s. ninja_Load 1 demo_hash 1 demo_files ''/src'' ''out'' ''build.ninja'' = Some (Inr s) \<and>
     length (gs_edges s) = 2 \<and> distinct (gs_edges s)"
  using demo_ninja_Load loaded_edges by blast

end
