(* ===== verification/Table_Props.thy ===== *)
theory Table_Props
  imports Ninja_Graph
begin

text \<open>
  Properties of the tables the parser's goroutines share (variable bindings, rules, nodes), of path
  tokens and of the gn targets inferred from the graph.
\<close>

subsection \<open>Variables and rules\<close>

text \<open>A lookup in the sharded bindings of a file does not depend on the order in which the
  goroutines set the variables, as long as no two bindings of the name have the same position.\<close>

theorem bindings_order:
  assumes "n < 2 ^ 63" and "set kvs = set kvs'"
    and "\<forall>v w. (key, v) \<in> set kvs \<longrightarrow> (key, w) \<in> set kvs \<longrightarrow> es_pos v = es_pos w \<longrightarrow> v = w"
  shows "sb_get hash (fold (\<lambda>(k, v). sb_set hash k v) kvs (Some (newShardBindings n))) pos key =
    sb_get hash (fold (\<lambda>(k, v). sb_set hash k v) kvs' (Some (newShardBindings n))) pos key"
proof -
  have "sb_get hash (Some (newShardBindings n)) pos key = None"
    by (rule sb_get_new [OF assms(1)])
  from shard_store.get_sets_perm [OF sb_ok_new [OF assms(1)] this assms(2)]
  show ?thesis using assms(3) unfolding shard_store.sets_def by blast
qed

definition demo_vars :: "(bytes \<times> evalString) list" where
  "demo_vars = [(''x'', (mk_es ''1'' 0)\<lparr>es_pos := 3\<rparr>), (''x'', (mk_es ''2'' 0)\<lparr>es_pos := 7\<rparr>)]"

theorem bindings_order_witness:
  "sb_get (\<lambda>_. 0) (fold (\<lambda>(k, v). sb_set (\<lambda>_. 0) k v) demo_vars (Some (newShardBindings 2))) 5 ''x'' =
   sb_get (\<lambda>_. 0) (fold (\<lambda>(k, v). sb_set (\<lambda>_. 0) k v) (rev demo_vars) (Some (newShardBindings 2))) 5 ''x''"
  by (rule bindings_order) (auto simp: demo_vars_def)

text \<open>A lookup at a position finds the binding of the name with the largest position before it,
  and finds one whenever there is one.\<close>

theorem bindings_latest:
  assumes "n < 2 ^ 63"
    and "sb_get hash (fold (\<lambda>(k, v). sb_set hash k v) kvs (Some (newShardBindings n))) pos key = r"
  shows "case r of
      None \<Rightarrow> \<forall>v. (key, v) \<in> set kvs \<longrightarrow> \<not> (pos < 0 \<or> es_pos v < pos)
    | Some w \<Rightarrow> (key, w) \<in> set kvs \<and> (pos < 0 \<or> es_pos w < pos) \<and>
        (\<forall>v. (key, v) \<in> set kvs \<longrightarrow> pos < 0 \<or> es_pos v < pos \<longrightarrow> es_pos v \<le> es_pos w)"
proof -
  have new: "sb_get hash (Some (newShardBindings n)) pos key = None" by (rule sb_get_new [OF assms(1)])
  note ok = sb_ok_new [OF assms(1)]
  have r: "sb_get hash (shard_store.sets hash kvs (Some (newShardBindings n))) pos key = r"
    using assms(2) by (simp add: shard_store.sets_def)
  show ?thesis
  proof (cases r)
    case None
    then show ?thesis using shard_store.get_sets_None [OF ok new] r by (auto simp: visible_def)
  next
    case (Some w)
    then show ?thesis using shard_store.get_sets_Some [OF ok new] r by (fastforce simp: visible_def)
  qed
qed

theorem bindings_latest_witness:
  "es_v (the (sb_get (\<lambda>_. 0) (fold (\<lambda>(k, v). sb_set (\<lambda>_. 0) k v) demo_vars (Some (newShardBindings 2))) 9 ''x'')) = ''2''"
proof -
  let ?r = "sb_get (\<lambda>_. 0) (fold (\<lambda>(k, v). sb_set (\<lambda>_. 0) k v) demo_vars (Some (newShardBindings 2))) 9 ''x''"
  have "case ?r of
      None \<Rightarrow> \<forall>v. (''x'', v) \<in> set demo_vars \<longrightarrow> \<not> ((9 :: int) < 0 \<or> es_pos v < 9)
    | Some w \<Rightarrow> (''x'', w) \<in> set demo_vars \<and> ((9 :: int) < 0 \<or> es_pos w < 9) \<and>
        (\<forall>v. (''x'', v) \<in> set demo_vars \<longrightarrow> (9 :: int) < 0 \<or> es_pos v < 9 \<longrightarrow> es_pos v \<le> es_pos w)"
    by (rule bindings_latest [OF _ refl]) simp
  then show ?thesis by (auto simp: demo_vars_def split: option.splits)
qed

text \<open>Rules can be declared in a file scope in any order, and the declarations succeed exactly
  when no two of them have the same name.\<close>

primrec declare_rules :: "(bytes \<Rightarrow> 64 word) \<Rightarrow> rule list \<Rightarrow> ruleMap option \<Rightarrow> ruleMap option res" where
  "declare_rules hash [] t = Inr t"
| "declare_rules hash (r # rs) t = rbind (rm_setRule hash r t) (declare_rules hash rs)"

lemma declare_rules_insert: "declare_rules hash rs t = rule_chains.insert_rules hash rs t"
  by (induction rs arbitrary: t) (auto simp: rbind_def split: sum.split)

theorem rules_distinct:
  assumes "n < 2 ^ 63"
  shows "if distinct (map r_name rs)
    then \<exists>t. declare_rules hash rs (Some (newRuleMap n)) = Inr t \<and>
      (\<forall>r \<in> set rs. rm_lookupRule hash t (r_name r) = Some r)
    else \<exists>err. declare_rules hash rs (Some (newRuleMap n)) = Inl err"
proof -
  have "rm_lookupRule hash (Some (newRuleMap n)) k = None" for k by (rule rm_lookupRule_new [OF assms])
  then have "(\<exists>t. declare_rules hash rs (Some (newRuleMap n)) = Inr t) \<longleftrightarrow> distinct (map r_name rs)"
    unfolding declare_rules_insert rule_chains.insert_rules_iff [OF rm_ok_new [OF assms]] by simp
  then show ?thesis
    using rule_chains.insert_rules_lookup [OF rm_ok_new [OF assms], of hash rs]
    unfolding declare_rules_insert [symmetric]
    by (cases "declare_rules hash rs (Some (newRuleMap n))") auto
qed

theorem rules_distinct_witness:
  "\<exists>t. declare_rules (\<lambda>_. 0) [phonyRule, phonyRule\<lparr>r_name := ''cc''\<rparr>] (Some (newRuleMap 2)) = Inr t \<and>
     rm_lookupRule (\<lambda>_. 0) t ''phony'' = Some phonyRule"
  using rules_distinct [where n = 2 and hash = "\<lambda>_. 0" and rs = "[phonyRule, phonyRule\<lparr>r_name := ''cc''\<rparr>]"] by (auto simp: phonyRule_def)

subsection \<open>Nodes\<close>

text \<open>C22: Whatever the interleaving of concurrent calls, two calls that returned for the same path
  returned the same node, and calls for different paths returned different nodes.\<close>

theorem node_calls_agree:
  assumes "node_reachable hash keys s"
    and "ns_calls s t = Returned c" and "ns_calls s u = Returned d"
  shows "nc_path c = keys t \<and> nc_path d = keys u \<and> (keys t = keys u \<longrightarrow> c = d) \<and>
    (keys t \<noteq> keys u \<longrightarrow> nc_ptr c \<noteq> nc_ptr d)"
proof -
  have slots: "slots_inv hash s" and calls: "\<forall>t. call_inv hash s t" and keys: "ns_keys s = keys"
    using node_reachable_inv [OF assms(1)] by auto
  have c: "nc_path c = keys t" "c \<in> set (ns_slots s (node_slot hash (keys t)))"
    and d: "nc_path d = keys u" "d \<in> set (ns_slots s (node_slot hash (keys u)))"
    using calls assms(2,3) keys unfolding call_inv_def by metis+
  have "c = d" if "keys t = keys u"
    using slots c d that unfolding slots_inv_def distinct_map inj_on_def by metis
  moreover have "nc_ptr c \<noteq> nc_ptr d" if "keys t \<noteq> keys u"
  proof
    assume eq: "nc_ptr c = nc_ptr d"
    then have "node_slot hash (keys t) = node_slot hash (keys u)"
      using slots c(2) d(2) unfolding slots_inv_def by (metis disjoint_iff image_eqI)
    then have "c = d" using slots c(2) d(2) eq unfolding slots_inv_def distinct_map inj_on_def by metis
    then show False using c(1) d(1) that by simp
  qed
  ultimately show ?thesis using c(1) d(1) by blast
qed

theorem node_calls_agree_witness:
  "\<exists>s c. node_reachable (\<lambda>_. 0) (\<lambda>_. ''a'') s \<and> ns_calls s 0 = Returned c \<and> ns_calls s 1 = Returned c"
proof -
  let ?n = "\<lparr>nc_ptr = 7, nc_path = ''a''\<rparr>" and ?k = "node_slot (\<lambda>_. 0) ''a''"
  let ?s0 = "\<lparr>ns_slots = (\<lambda>_. []), ns_n = 0, ns_keys = (\<lambda>_. ''a''), ns_calls = (\<lambda>_. Load None)\<rparr> :: node_sys"
  let ?s1 = "?s0\<lparr>ns_calls := (ns_calls ?s0)(0 := Cas [] ?n)\<rparr>"
  let ?s2 = "?s1\<lparr>ns_slots := (ns_slots ?s1)(?k := [?n]), ns_n := 1, ns_calls := (ns_calls ?s1)(0 := Returned ?n)\<rparr>"
  let ?s3 = "?s2\<lparr>ns_calls := (ns_calls ?s2)(1 := Returned ?n)\<rparr>"
  have "node_step (\<lambda>_. 0) ?s0 ?s1"
    using node_step.alloc [of ?s0 0 "\<lambda>_. 0" 7] by (simp add: chain_find_def fresh_ptr_def)
  moreover have "node_step (\<lambda>_. 0) ?s1 ?s2"
    using node_step.swap [of ?s1 0 "[]" ?n "\<lambda>_. 0"] by simp
  moreover have "node_step (\<lambda>_. 0) ?s2 ?s3"
    using node_step.found [of ?s2 1 None "\<lambda>_. 0" ?n] by (simp add: chain_find_def)
  ultimately have r: "node_reachable (\<lambda>_. 0) (\<lambda>_. ''a'') ?s3"
    using node_reachable.init [of "\<lambda>_. 0" "\<lambda>_. ''a''"] by (meson node_reachable.step)
  moreover have ret: "ns_calls ?s3 0 = Returned ?n" "ns_calls ?s3 1 = Returned ?n" by simp_all
  moreover have "nc_path ?n = ''a''" using node_calls_agree [OF r ret] by blast
  ultimately show ?thesis by blast
qed

subsection \<open>Path tokens\<close>

text \<open>A path that is written escaped, as the printer of edges writes it, is read back by the path
  parser as one token, and evaluating the token gives the path, whatever the scope.\<close>

theorem path_roundtrip:
  assumes "ascii s" "path_safe s" "s \<noteq> []" "hd s \<noteq> CHR '' ''"
    and "rest = [] \<or> hd rest \<in> {CHR '' '', CHR '':'', CHR ''|'', TAB, CR, NL}"
  shows "\<exists>tok. pp_path \<lparr>pp_buf = pre @ escapeNinjaToken s @ rest, pp_pos = length pre\<rparr> =
      Inr (\<lparr>pp_buf = pre @ escapeNinjaToken s @ rest, pp_pos = length pre + length (escapeNinjaToken s)\<rparr>, tok) \<and>
    (\<forall>env. evaluate env tok = Inr s)"
  unfolding escape_ascii [OF assms(1)] using pp_path_token [OF assms(2-5)] evaluate_token by blast

theorem path_roundtrip_witness:
  "\<exists>tok. pp_path \<lparr>pp_buf = ''build '' @ escapeNinjaToken ''a b:c'' @ '' d'', pp_pos = length ''build ''\<rparr> =
      Inr (\<lparr>pp_buf = ''build '' @ escapeNinjaToken ''a b:c'' @ '' d'',
            pp_pos = length ''build '' + length (escapeNinjaToken ''a b:c'')\<rparr>, tok) \<and>
    (\<forall>env. evaluate env tok = Inr ''a b:c'')"
  by (rule path_roundtrip) (simp_all add: ascii_def path_safe_def)

subsection \<open>gn targets\<close>

text \<open>The gn target recorded for an edge is one of highest preference (smallest rank) among
  those offered to it, and an edge has one exactly if it is offered one.\<close>

theorem gn_target_best:
  "map_option gt_pref (initGlobals s e) =
     (let ks = {k. (e, k) \<in> set (gn_offers s)} in if ks = {} then None else Some (Min ks))"
proof -
  have "{k. (e, k) \<in> set (gn_offers s)} = snd ` {q \<in> set (gn_offers s). fst q = e}" by force
  then show ?thesis
    unfolding initGlobals_offers best_offer_min Let_def by (auto simp: filter_empty_conv)
qed

end
