(* ===== verification/Edit_Distance.thy ===== *)
theory Edit_Distance
  imports Go_Base
begin

text \<open>
  \<open>editDistance\<close> (\<open>toolsupport/ninjautil/edit_distance.go\<close>): the Levenshtein distance with one
  row of the dynamic-programming table and an early exit. The specification is an edit script, a
  left-to-right sequence of kept, replaced, inserted and deleted bytes; the distance is the least
  number of edits of any script.
\<close>

subsection \<open>The code\<close>

text \<open>The inner loop from column \<open>x\<close>; it returns the row and the best entry of it.\<close>

function ed_row :: "bytes \<Rightarrow> bytes \<Rightarrow> nat \<Rightarrow> nat \<Rightarrow> nat list \<Rightarrow> nat \<Rightarrow> nat \<Rightarrow> nat list \<times> nat" where
  "ed_row s1 s2 y x row previous bestThisRow =
     (if x \<le> length s2 then
        let oldRow = row ! x;
            p = (if s1 ! (y - 1) \<noteq> s2 ! (x - 1) then previous + 1 else previous);
            v = min p (min (row ! (x - 1)) (row ! x) + 1) in
        ed_row s1 s2 y (x + 1) (row[x := v]) oldRow (min bestThisRow v)
      else (row, bestThisRow))"
  by pat_completeness auto
termination
  by (relation "measure (\<lambda>(s1, s2, y, x, row, p, b). Suc (length s2) - x)") auto

declare ed_row.simps [simp del]

function ed_rows :: "bytes \<Rightarrow> bytes \<Rightarrow> int \<Rightarrow> nat \<Rightarrow> nat list \<Rightarrow> int" where
  "ed_rows s1 s2 maxd y row =
     (if y \<le> length s1 then
        (case ed_row s1 s2 y 1 (row[0 := y]) (y - 1) y of
           (row', bestThisRow) \<Rightarrow>
             if maxd > 0 \<and> int bestThisRow > maxd then maxd + 1
             else ed_rows s1 s2 maxd (y + 1) row')
      else int (row ! length s2))"
  by pat_completeness auto
termination
  by (relation "measure (\<lambda>(s1, s2, m, y, row). Suc (length s1) - y)") auto

declare ed_rows.simps [simp del]

definition editDistance :: "bytes \<Rightarrow> bytes \<Rightarrow> int \<Rightarrow> int" where
  "editDistance s1 s2 maxd = ed_rows s1 s2 maxd 1 [0..<Suc (length s2)]"

subsection \<open>Edit scripts\<close>

inductive edit_script :: "nat \<Rightarrow> 'a list \<Rightarrow> 'a list \<Rightarrow> bool" where
  finished: "edit_script 0 [] []"
| keep: "edit_script n xs ys \<Longrightarrow> edit_script n (x # xs) (x # ys)"
| replace: "edit_script n xs ys \<Longrightarrow> edit_script (Suc n) (x # xs) (y # ys)"
| remove: "edit_script n xs ys \<Longrightarrow> edit_script (Suc n) (x # xs) ys"
| add: "edit_script n xs ys \<Longrightarrow> edit_script (Suc n) xs (y # ys)"

definition levenshtein :: "'a list \<Rightarrow> 'a list \<Rightarrow> nat" where
  "levenshtein xs ys = (LEAST n. edit_script n xs ys)"

fun lev :: "'a list \<Rightarrow> 'a list \<Rightarrow> nat" where
  "lev [] ys = length ys"
| "lev xs [] = length xs"
| "lev (x # xs) (y # ys) =
     min (lev xs ys + (if x \<noteq> y then 1 else 0)) (min (lev (x # xs) ys) (lev xs (y # ys)) + 1)"

lemma script_add_all: "edit_script (length ys) [] ys"
  by (induction ys) (auto intro: edit_script.intros)

lemma script_remove_all: "edit_script (length xs) xs []"
  by (induction xs) (auto intro: edit_script.intros)

lemma script_lev: "edit_script (lev xs ys) xs ys"
proof (induction xs ys rule: lev.induct)
  case (3 x xs y ys)
  have "lev (x # xs) (y # ys) \<in> {lev xs ys + (if x \<noteq> y then 1 else 0), lev (x # xs) ys + 1, lev xs (y # ys) + 1}"
    by (simp add: min_def)
  then show ?case using 3 by (auto intro: edit_script.intros split: if_splits)
qed (use script_add_all script_remove_all in \<open>simp_all add: script_remove_all [of "_ # _", simplified]\<close>)

lemma lev_Nil2: "lev xs [] = length xs"
  by (cases xs) auto

lemma lev_le_Cons: "lev (x # xs) ys \<le> Suc (lev xs ys)" "lev xs (y # ys) \<le> Suc (lev xs ys)"
  by (cases ys; simp add: lev_Nil2) (cases xs; simp)

lemma lev_le_script: "edit_script n xs ys \<Longrightarrow> lev xs ys \<le> n"
proof (induction rule: edit_script.induct)
  case (remove n xs ys x)
  then show ?case using lev_le_Cons(1) [of x xs ys] by linarith
next
  case (add n xs ys y)
  then show ?case using lev_le_Cons(2) [of xs y ys] by linarith
qed auto

lemma levenshtein_lev: "levenshtein xs ys = lev xs ys"
  unfolding levenshtein_def by (rule Least_equality) (auto intro: script_lev lev_le_script)

lemma script_append:
  "edit_script m as bs \<Longrightarrow> edit_script n xs ys \<Longrightarrow> edit_script (m + n) (as @ xs) (bs @ ys)"
  by (induction rule: edit_script.induct) (auto intro: edit_script.intros)

lemma script_rev: "edit_script n xs ys \<Longrightarrow> edit_script n (rev xs) (rev ys)"
proof (induction rule: edit_script.induct)
  case (keep n xs ys x)
  then show ?case using script_append [OF keep.IH edit_script.keep [OF edit_script.finished, of x]] by simp
next
  case (replace n xs ys x y)
  then show ?case using script_append [OF replace.IH edit_script.replace [OF edit_script.finished, of x y]] by simp
next
  case (remove n xs ys x)
  then show ?case using script_append [OF remove.IH edit_script.remove [OF edit_script.finished, of x]] by simp
next
  case (add n xs ys y)
  then show ?case using script_append [OF add.IH edit_script.add [OF edit_script.finished, of y]] by simp
qed (simp add: edit_script.finished)

lemma lev_rev: "lev (rev xs) (rev ys) = lev xs ys"
proof (rule antisym)
  show "lev (rev xs) (rev ys) \<le> lev xs ys" by (intro lev_le_script script_rev script_lev)
  have "lev (rev (rev xs)) (rev (rev ys)) \<le> lev (rev xs) (rev ys)" by (intro lev_le_script script_rev script_lev)
  then show "lev xs ys \<le> lev (rev xs) (rev ys)" by simp
qed

subsection \<open>The table\<close>

text \<open>The entry for the first \<open>y\<close> bytes of \<open>s1\<close> and the first \<open>x\<close> bytes of \<open>s2\<close>.\<close>

definition tab :: "bytes \<Rightarrow> bytes \<Rightarrow> nat \<Rightarrow> nat \<Rightarrow> nat" where
  "tab s1 s2 y x = lev (rev (take y s1)) (rev (take x s2))"

lemma tab_0: "x \<le> length s2 \<Longrightarrow> tab s1 s2 0 x = x" "y \<le> length s1 \<Longrightarrow> tab s1 s2 y 0 = y"
  by (simp_all add: tab_def lev_Nil2)

lemma tab_Suc:
  assumes "y < length s1" "x < length s2"
  shows "tab s1 s2 (Suc y) (Suc x) =
    min (tab s1 s2 y x + (if s1 ! y \<noteq> s2 ! x then 1 else 0)) (min (tab s1 s2 (Suc y) x) (tab s1 s2 y (Suc x)) + 1)"
  using assms by (simp add: tab_def take_Suc_conv_app_nth)

lemma tab_full: "tab s1 s2 (length s1) (length s2) = levenshtein s1 s2"
  by (simp add: tab_def lev_rev levenshtein_lev)

definition row_is :: "bytes \<Rightarrow> bytes \<Rightarrow> nat \<Rightarrow> nat list \<Rightarrow> bool" where
  "row_is s1 s2 y row \<longleftrightarrow> row = map (tab s1 s2 y) [0..<Suc (length s2)]"

text \<open>In the inner loop the entries before \<open>x\<close> are of row \<open>y\<close>, the others of the row above.\<close>

definition half_row :: "bytes \<Rightarrow> bytes \<Rightarrow> nat \<Rightarrow> nat \<Rightarrow> nat list \<Rightarrow> bool" where
  "half_row s1 s2 y x row \<longleftrightarrow> length row = Suc (length s2) \<and>
     (\<forall>j \<le> length s2. row ! j = (if j < x then tab s1 s2 y j else tab s1 s2 (y - 1) j))"

definition best_of :: "bytes \<Rightarrow> bytes \<Rightarrow> nat \<Rightarrow> nat \<Rightarrow> nat" where
  "best_of s1 s2 y x = Min (tab s1 s2 y ` {..<x})"

lemma best_of_Suc: "0 < x \<Longrightarrow> best_of s1 s2 y (Suc x) = min (best_of s1 s2 y x) (tab s1 s2 y x)"
  by (simp add: best_of_def lessThan_Suc Min_insert2 min.commute) (subst Min_insert; auto simp: min.commute)

lemma ed_row_ok:
  assumes "half_row s1 s2 y x row" "0 < x" "x \<le> Suc (length s2)" "0 < y" "y \<le> length s1"
  shows "ed_row s1 s2 y x row (tab s1 s2 (y - 1) (x - 1)) (best_of s1 s2 y x) =
    (map (tab s1 s2 y) [0..<Suc (length s2)], best_of s1 s2 y (Suc (length s2)))"
  using assms
proof (induction "Suc (length s2) - x" arbitrary: x row)
  case 0
  then have "x = Suc (length s2)" by simp
  moreover from this have "row = map (tab s1 s2 y) [0..<Suc (length s2)]"
    using "0.prems"(1) by (auto simp: half_row_def intro!: nth_equalityI simp del: upt_Suc)
  ultimately show ?case by (simp add: ed_row.simps [of _ _ _ "Suc (length s2)"])
next
  case (Suc k)
  then have x: "x \<le> length s2" by simp
  obtain x0 y0 where x0: "x = Suc x0" and y0: "y = Suc y0" using Suc.prems by (metis gr0_implies_Suc)
  let ?v = "min (if s1 ! (y - 1) \<noteq> s2 ! (x - 1) then tab s1 s2 (y - 1) (x - 1) + 1 else tab s1 s2 (y - 1) (x - 1))
     (min (row ! (x - 1)) (row ! x) + 1)"
  have r: "row ! (x - 1) = tab s1 s2 y (x - 1)" "row ! x = tab s1 s2 (y - 1) x" "length row = Suc (length s2)"
    using Suc.prems x by (auto simp: half_row_def)
  have v: "?v = tab s1 s2 y x"
    using tab_Suc [of y0 s1 x0 s2] x Suc.prems(5) unfolding r by (simp add: x0 y0)
  have half: "half_row s1 s2 y (x + 1) (row[x := tab s1 s2 y x])"
    using Suc.prems(1) x by (auto simp: half_row_def nth_list_update)
  have best: "min (best_of s1 s2 y x) (tab s1 s2 y x) = best_of s1 s2 y (x + 1)"
    using best_of_Suc [of x] Suc.prems(2) by simp
  have "ed_row s1 s2 y x row (tab s1 s2 (y - 1) (x - 1)) (best_of s1 s2 y x) =
      ed_row s1 s2 y (x + 1) (row[x := ?v]) (row ! x) (min (best_of s1 s2 y x) ?v)"
    by (subst ed_row.simps) (simp add: x Let_def)
  also have "\<dots> = ed_row s1 s2 y (x + 1) (row[x := tab s1 s2 y x]) (tab s1 s2 (y - 1) (x + 1 - 1)) (best_of s1 s2 y (x + 1))"
    unfolding v best by (simp add: r(2))
  also have "\<dots> = (map (tab s1 s2 y) [0..<Suc (length s2)], best_of s1 s2 y (Suc (length s2)))"
    by (rule Suc.hyps(1)) (use Suc.hyps(2) half x Suc.prems in auto)
  finally show ?case .
qed

subsection \<open>The early exit\<close>

lemma best_row_mono:
  assumes "y < length s1"
  shows "best_of s1 s2 y (Suc (length s2)) \<le> best_of s1 s2 (Suc y) (Suc (length s2))"
proof -
  let ?b = "best_of s1 s2 y (Suc (length s2))"
  have le: "?b \<le> tab s1 s2 y x" if "x \<le> length s2" for x
    using that by (simp add: best_of_def)
  have "?b \<le> tab s1 s2 (Suc y) x" if "x \<le> length s2" for x
    using that
  proof (induction x)
    case 0
    have "?b \<le> tab s1 s2 y 0" by (rule le) simp
    then show ?case using assms by (simp add: tab_0)
  next
    case (Suc x)
    then have "?b \<le> tab s1 s2 (Suc y) x" "?b \<le> tab s1 s2 y x" "?b \<le> tab s1 s2 y (Suc x)" using le by auto
    then show ?case using tab_Suc [of y s1 x s2] assms Suc.prems by auto
  qed
  then show ?thesis unfolding best_of_def [of _ _ "Suc y"] by (intro Min.boundedI) auto
qed

lemma best_row_le:
  assumes "y \<le> length s1"
  shows "best_of s1 s2 y (Suc (length s2)) \<le> levenshtein s1 s2"
  using assms
proof (induction rule: inc_induct)
  case base
  have "best_of s1 s2 (length s1) (Suc (length s2)) \<le> tab s1 s2 (length s1) (length s2)"
    by (simp add: best_of_def)
  then show ?case by (simp add: tab_full)
next
  case (step y)
  then show ?case using best_row_mono [of y s1 s2] by linarith
qed

lemma ed_rows_ok:
  assumes "row_is s1 s2 (y - 1) row" "0 < y" "y \<le> Suc (length s1)"
  shows "ed_rows s1 s2 maxd y row = int (levenshtein s1 s2) \<or>
    0 < maxd \<and> maxd < int (levenshtein s1 s2) \<and> ed_rows s1 s2 maxd y row = maxd + 1"
  using assms
proof (induction "Suc (length s1) - y" arbitrary: y row)
  case 0
  then have "y = Suc (length s1)" by simp
  then show ?case
    using "0.prems"(1) by (simp add: ed_rows.simps [of _ _ _ "Suc (length s1)"] row_is_def tab_full del: upt_Suc)
next
  case (Suc k)
  then have y: "y \<le> length s1" by simp
  let ?best = "best_of s1 s2 y (Suc (length s2))"
  have t0: "tab s1 s2 (y - 1) 0 = y - 1" "best_of s1 s2 y 1 = y" using y by (simp_all add: tab_0 best_of_def lessThan_Suc)
  have "half_row s1 s2 y 1 (row[0 := y])"
    using Suc.prems(1) y by (auto simp: half_row_def row_is_def nth_list_update tab_0 simp del: upt_Suc)
  from ed_row_ok [OF this] have run:
    "ed_row s1 s2 y 1 (row[0 := y]) (y - 1) y = (map (tab s1 s2 y) [0..<Suc (length s2)], ?best)"
    using y Suc.prems(2) t0 by (simp del: upt_Suc)
  show ?case
  proof (cases "maxd > 0 \<and> int ?best > maxd")
    case True
    then show ?thesis
      using best_row_le [OF y, of s2] y run by (subst (1 2) ed_rows.simps) (simp del: upt_Suc)
  next
    case False
    have "ed_rows s1 s2 maxd y row = ed_rows s1 s2 maxd (y + 1) (map (tab s1 s2 y) [0..<Suc (length s2)])"
      using False y run by (subst ed_rows.simps) (auto simp del: upt_Suc)
    moreover have "row_is s1 s2 (y + 1 - 1) (map (tab s1 s2 y) [0..<Suc (length s2)])"
      by (simp add: row_is_def del: upt_Suc)
    ultimately show ?thesis using Suc.hyps(1) [of "y + 1"] Suc.hyps(2) y by simp
  qed
qed

lemma editDistance_ok:
  "editDistance s1 s2 maxd = int (levenshtein s1 s2) \<or>
   0 < maxd \<and> maxd < int (levenshtein s1 s2) \<and> editDistance s1 s2 maxd = maxd + 1"
  unfolding editDistance_def
proof (rule ed_rows_ok)
  show "row_is s1 s2 (1 - 1) [0..<Suc (length s2)]"
    by (auto simp: row_is_def tab_0 intro!: nth_equalityI simp del: upt_Suc)
qed simp_all

end
