(* ===== verification/Cpp_Scan.thy ===== *)
theory Cpp_Scan
  imports Go_Base
begin

text \<open>
  The scanner for preprocessor directives (\<open>scandeps/cpp.go\<close>): \<open>CPPScan\<close> with \<open>addInclude\<close> and
  \<open>addDefine\<close>, and the expansion of macros in include directives. The Go code indexes \<open>line[0]\<close>
  behind a keyword without looking at the length; this is a panic of the model. The expansion
  recurses over the macro table without a check for cycles; it takes fuel, and the lemmas at the
  end say when some fuel is enough and when none is.
\<close>

type_synonym cpp_defines = "bytes \<Rightarrow> bytes list option"

definition add_value :: "bytes \<Rightarrow> bytes \<Rightarrow> cpp_defines \<Rightarrow> cpp_defines" where
  "add_value macro v d = d(macro \<mapsto> (case d macro of None \<Rightarrow> [] | Some vs \<Rightarrow> vs) @ [v])"

definition is_upper :: "char \<Rightarrow> bool" where
  "is_upper c \<longleftrightarrow> of_char c \<ge> (65 :: nat) \<and> of_char c \<le> (90 :: nat)"

definition isMacro :: "bytes \<Rightarrow> bool" where
  "isMacro s \<longleftrightarrow> s \<noteq> [] \<and> hd s \<noteq> CHR ''<'' \<and> hd s \<noteq> DQ"

subsection \<open>One directive\<close>

definition cpp_addInclude :: "bytes list \<Rightarrow> bytes \<Rightarrow> bytes list" where
  "cpp_addInclude paths incpath =
     (let quoted = (hd incpath = DQ \<or> hd incpath = CHR ''<'');
          delim = (if hd incpath = DQ then [DQ] else if hd incpath = CHR ''<'' then ''>'' else [CHR '' '', TAB]) in
      case index_any (tl incpath) delim of
        None \<Rightarrow>
          if quoted then paths
          else if is_upper (hd incpath) then paths @ [incpath] else paths
      | Some i \<Rightarrow>
          if quoted then paths @ [take (i + 2) incpath]
          else if is_upper (hd incpath) then paths @ [take (i + 1) incpath] else paths)"

definition addDefine :: "cpp_defines \<Rightarrow> bytes \<Rightarrow> cpp_defines" where
  "addDefine d line =
     (case index_any line [CHR '' '', TAB] of
        None \<Rightarrow> d
      | Some i \<Rightarrow>
          let macro = take i line; rest = trim_space (drop (i + 1) line) in
          if CHR ''('' \<in> set macro then d
          else if rest = [] then d
          else if hd rest = CHR ''<'' \<or> hd rest = DQ then
            (case index_byte (tl rest) (if hd rest = CHR ''<'' then CHR ''>'' else DQ) of
               None \<Rightarrow> d
             | Some j \<Rightarrow> add_value macro (take (j + 2) rest) d)
          else
            let v = (case index_any rest [CHR '' '', TAB] of None \<Rightarrow> rest | Some j \<Rightarrow> take j rest) in
            if v = [] \<or> CHR ''('' \<in> set v then d
            else if is_upper (hd v) then add_value macro v d else d)"

text \<open>The directive behind the \<open>#\<close>. The byte behind a keyword has to be there.\<close>

definition scan_include :: "bytes \<Rightarrow> bytes list \<Rightarrow> bytes list" where
  "scan_include line includes =
     (let l = trim_space line in if l = [] then includes else cpp_addInclude includes l)"

definition scan_directive :: "bytes \<Rightarrow> bytes list \<Rightarrow> cpp_defines \<Rightarrow> (bytes list \<times> cpp_defines) res" where
  "scan_directive line includes d =
     (if has_prefix line ''include'' then
        let l = drop 7 line in
        if has_prefix l ''_next'' then Inr (scan_include (drop 5 l) includes, d)
        else rbind (go_index l 0) (\<lambda>c.
          if c = CHR '' '' \<or> c = TAB then Inr (scan_include l includes, d) else Inr (includes, d))
      else if has_prefix line ''import'' then
        let l = drop 6 line in
        rbind (go_index l 0) (\<lambda>c.
          if c = CHR '' '' \<or> c = TAB then Inr (scan_include l includes, d) else Inr (includes, d))
      else if has_prefix line ''define'' then
        let l = drop 6 line in
        rbind (go_index l 0) (\<lambda>c.
          if c = CHR '' '' \<or> c = TAB then Inr (includes, addDefine d (trim_space l)) else Inr (includes, d))
      else Inr (includes, d))"

subsection \<open>CPPScan\<close>

function cpp_loop :: "bytes \<Rightarrow> bytes list \<Rightarrow> cpp_defines \<Rightarrow> (bytes list \<times> cpp_defines) res" where
  "cpp_loop buf includes d =
     (let b = trim_space buf in
      if b = [] then Inr (includes, d)
      else
        let i = index_byte b NL;
            line = (case i of None \<Rightarrow> b | Some n \<Rightarrow> take n b);
            rest = (case i of None \<Rightarrow> [] | Some n \<Rightarrow> drop (n + 1) b) in
        rbind (go_index line 0) (\<lambda>c.
          if c \<noteq> CHR ''#'' then cpp_loop rest includes d
          else
            case scan_directive (trim_space (tl line)) includes d of
              Inl err \<Rightarrow> Inl err
            | Inr (includes', d') \<Rightarrow> cpp_loop rest includes' d'))"
  by pat_completeness auto
termination
proof -
  have lt: "length (case index_byte (trim_space buf) NL of None \<Rightarrow> [] | Some n \<Rightarrow> drop (n + 1) (trim_space buf)) < length buf"
    if "trim_space buf \<noteq> []" for buf
  proof -
    have "0 < length (trim_space buf)" "length (trim_space buf) \<le> length buf" using that length_trim_space by auto
    then show ?thesis
      by (cases "index_byte (trim_space buf) NL") (simp_all del: length_greater_0_conv)
  qed
  show ?thesis
    by (relation "measure (\<lambda>(buf, i, d). length buf)") (auto simp: Let_def dest: lt)
qed

declare cpp_loop.simps [simp del]

definition cPPScan :: "bytes \<Rightarrow> (bytes list \<times> cpp_defines) res" where
  "cPPScan buf = cpp_loop buf [] (\<lambda>_. None)"

subsection \<open>Macros\<close>

text \<open>\<open>cppExpandMacros\<close>: an undefined macro gives no paths at all, also none of those found before.\<close>

fun cppExpandMacros :: "nat \<Rightarrow> bytes list \<Rightarrow> bytes \<Rightarrow> cpp_defines \<Rightarrow> bytes list option"
  and expand_values :: "nat \<Rightarrow> bytes list \<Rightarrow> bytes list \<Rightarrow> cpp_defines \<Rightarrow> bytes list option" where
  "cppExpandMacros 0 paths incname macros = None"
| "cppExpandMacros (Suc fuel) paths incname macros =
     (if incname = [] then Some []
      else if \<not> isMacro incname then Some (paths @ [incname])
      else case macros incname of
        None \<Rightarrow> Some []
      | Some vs \<Rightarrow> expand_values fuel paths vs macros)"
| "expand_values fuel paths [] macros = Some paths"
| "expand_values fuel paths (v # vs) macros =
     (case cppExpandMacros fuel paths v macros of
        None \<Rightarrow> None
      | Some paths' \<Rightarrow> expand_values fuel paths' vs macros)"

text \<open>With a rank that decreases along the table, two more than the rank is enough fuel.\<close>

definition macro_rank :: "cpp_defines \<Rightarrow> (bytes \<Rightarrow> nat) \<Rightarrow> bool" where
  "macro_rank macros rk \<longleftrightarrow>
     (\<forall>m vs v. macros m = Some vs \<longrightarrow> v \<in> set vs \<longrightarrow> isMacro v \<longrightarrow> rk v < rk m)"

lemma expand_values_returns:
  "(\<And>v ps. v \<in> set vs \<Longrightarrow> \<exists>qs. cppExpandMacros fuel ps v macros = Some qs) \<Longrightarrow>
   \<exists>qs. expand_values fuel paths vs macros = Some qs"
proof (induction vs arbitrary: paths)
  case (Cons v vs)
  obtain qs where "cppExpandMacros fuel paths v macros = Some qs" using Cons.prems [of v] by auto
  then show ?case using Cons by simp
qed simp

lemma expand_returns:
  assumes "macro_rank macros rk"
  shows "(if isMacro x then rk x + 2 else 1) \<le> fuel \<Longrightarrow> \<exists>qs. cppExpandMacros fuel paths x macros = Some qs"
proof (induction fuel arbitrary: x paths)
  case (Suc fuel)
  show ?case
  proof (cases "x \<noteq> [] \<and> isMacro x \<and> macros x \<noteq> None")
    case True
    then obtain vs where vs: "macros x = Some vs" by blast
    have "\<exists>qs. cppExpandMacros fuel ps v macros = Some qs" if "v \<in> set vs" for v ps
    proof (rule Suc.IH)
      have "isMacro v \<Longrightarrow> rk v < rk x" using assms vs that unfolding macro_rank_def by blast
      then show "(if isMacro v then rk v + 2 else 1) \<le> fuel" using Suc.prems True by auto
    qed
    then show ?thesis using expand_values_returns [of vs fuel macros paths] True vs by simp
  qed auto
qed (simp split: if_splits)

text \<open>A macro whose first value leads back to it is never expanded.\<close>

lemma expand_diverges:
  assumes "\<And>x. x \<in> M \<Longrightarrow> isMacro x \<and> (\<exists>v vs. macros x = Some (v # vs) \<and> v \<in> M)" and "x \<in> M"
  shows "cppExpandMacros fuel paths x macros = None"
  using assms(2)
proof (induction fuel arbitrary: x)
  case (Suc fuel)
  then obtain v vs where v: "isMacro x" "macros x = Some (v # vs)" "v \<in> M" using assms(1) by blast
  then have "x \<noteq> []" by (auto simp: isMacro_def)
  then show ?case using Suc.IH [OF v(3)] v by simp
qed simp

subsection \<open>Include lines\<close>

definition include_line :: "bytes \<Rightarrow> bytes" where
  "include_line n = ''#include '' @ [DQ] @ n @ [DQ, NL]"

lemma trim_right_newline: "trim_right (s @ [NL]) = trim_right s"
proof -
  have "trail_space (s @ [NL]) = 1" by (simp add: trail_space_def space_runes_def has_suffix_def)
  then show ?thesis by (subst trim_right.simps) simp
qed

lemma trim_lines:
  assumes "ns \<noteq> []"
  shows "trim_space (concat (map include_line ns)) = butlast (concat (map include_line ns))"
    and "trim_space (butlast (concat (map include_line ns))) = butlast (concat (map include_line ns))"
proof -
  let ?b = "concat (map include_line ns)"
  obtain n ms where ns: "ns = ms @ [n]" using assms by (cases ns rule: rev_cases) auto
  define t where "t = concat (map include_line ms) @ ''#include '' @ [DQ] @ n @ [DQ]"
  have b: "?b = t @ [NL]" by (simp add: ns t_def include_line_def)
  have ht: "t \<noteq> []" "hd t = CHR ''#''" by (cases ms; simp add: t_def include_line_def)+
  have "hd t \<notin> set (map hd space_runes)" unfolding ht(2) by (simp add: space_runes_def)
  then have "lead_space ?b = 0" unfolding b using ht by (intro lead_space_graph) simp_all
  moreover have "last t = DQ" by (simp add: t_def)
  then have "trim_right t = t" using ht(1) by (intro trim_right_id trail_space_graph) (simp_all add: space_runes_def)
  ultimately show "trim_space ?b = butlast ?b" by (simp add: trim_space_def trim_left_id b trim_right_newline)
  have "lead_space t = 0" using ht \<open>hd t \<notin> set (map hd space_runes)\<close> by (intro lead_space_graph)
  then show "trim_space (butlast ?b) = butlast ?b"
    using \<open>trim_right t = t\<close> by (simp add: trim_space_def trim_left_id b)
qed

lemma index_line: "NL \<notin> set n \<Longrightarrow> index_byte (include_line n @ s) NL = Some (length n + 11)"
proof -
  assume "NL \<notin> set n"
  then have "index_of (\<lambda>x. x = NL) ((''#include '' @ [DQ] @ n @ [DQ]) @ NL # s) = Some (length (''#include '' @ [DQ] @ n @ [DQ]))"
    by (intro index_of_append_first) auto
  then show ?thesis by (simp add: index_byte_def include_line_def)
qed

lemma scan_include_line:
  assumes "DQ \<notin> set n"
  shows "scan_directive (trim_space (''include '' @ [DQ] @ n @ [DQ])) includes d = Inr (includes @ [[DQ] @ n @ [DQ]], d)"
proof -
  let ?q = "[DQ] @ n @ [DQ]"
  have t1: "trim_space (''include '' @ ?q) = ''include '' @ ?q"
    by (rule trim_space_graph) (simp_all add: space_runes_def)
  have "lead_space ([CHR '' ''] @ ?q) = 1" by (simp add: lead_space_def space_runes_def has_prefix_def)
  then have "trim_left ([CHR '' ''] @ ?q) = trim_left ?q" by (subst trim_left.simps) simp
  moreover have "trim_space ?q = ?q" by (rule trim_space_graph) (simp_all add: space_runes_def)
  ultimately have t2: "trim_space ([CHR '' ''] @ ?q) = ?q" by (simp add: trim_space_def)
  have i: "index_of (\<lambda>x. x = DQ) (n @ [DQ]) = Some (length n)"
    using assms index_of_append_first [of n "\<lambda>x. x = DQ" DQ "[]"] by auto
  have "cpp_addInclude includes ?q = includes @ [?q]"
    by (simp add: cpp_addInclude_def index_any_def i Let_def)
  then have "scan_include ([CHR '' ''] @ ?q) includes = includes @ [?q]"
    unfolding scan_include_def t2 Let_def by simp
  then show ?thesis
    unfolding t1 by (simp add: scan_directive_def has_prefix_def go_index_def)
qed

lemma cpp_loop_line:
  assumes "NL \<notin> set n" and "DQ \<notin> set n"
  shows "cpp_loop (concat (map include_line (n # ns))) includes d =
    cpp_loop (concat (map include_line ns)) (includes @ [[DQ] @ n @ [DQ]]) d"
proof -
  let ?b = "concat (map include_line (n # ns))" and ?r = "concat (map include_line ns)"
  let ?l = "''#include '' @ [DQ] @ n @ [DQ]"
  have t: "trim_space ?b = butlast ?b" by (rule trim_lines) simp
  have tail: "cpp_loop (butlast ?r) i e = cpp_loop ?r i e" for i e
  proof (cases "ns = []")
    case False
    then show ?thesis using trim_lines [OF False] by (subst (1 2) cpp_loop.simps) simp
  qed simp
  have dir: "scan_directive (trim_space (tl ?l)) includes d = Inr (includes @ [[DQ] @ n @ [DQ]], d)"
    using scan_include_line [OF assms(2)] by simp
  have step: "cpp_loop ?b includes d = cpp_loop rest (includes @ [[DQ] @ n @ [DQ]]) d"
    if "(case index_byte (butlast ?b) NL of None \<Rightarrow> (butlast ?b, []) | Some k \<Rightarrow> (take k (butlast ?b), drop (k + 1) (butlast ?b))) = (?l, rest)"
    for rest
  proof -
    have ne: "butlast ?b \<noteq> []" by (simp add: include_line_def butlast_append)
    have lr: "(case index_byte (butlast ?b) NL of None \<Rightarrow> butlast ?b | Some k \<Rightarrow> take k (butlast ?b)) = ?l"
      "(case index_byte (butlast ?b) NL of None \<Rightarrow> [] | Some k \<Rightarrow> drop (k + 1) (butlast ?b)) = rest"
      using that by (auto split: option.splits)
    show ?thesis
      unfolding cpp_loop.simps [of ?b] t Let_def lr using ne dir by (simp add: go_index_def)
  qed
  show ?thesis
  proof (cases "ns = []")
    case True
    then have b: "butlast ?b = ?l" by (simp add: include_line_def butlast_append)
    have "index_byte ?l NL = None" using assms(1) by (auto simp: index_byte_def index_of_None)
    then show ?thesis using step [of "[]"] unfolding b by (simp add: True)
  next
    case False
    then have "?r \<noteq> []" by (cases ns) (auto simp: include_line_def)
    then have b: "butlast ?b = include_line n @ butlast ?r" by (simp only: list.map concat.simps butlast_append if_False)
    have "take (length n + 11) (include_line n @ butlast ?r) = ?l"
      "drop (length n + 11 + 1) (include_line n @ butlast ?r) = butlast ?r"
    proof -
      define l where "l = ?l"
      have "length n + 11 = length l" "include_line n @ butlast ?r = l @ NL # butlast ?r"
        by (simp_all add: include_line_def l_def)
      then have "take (length n + 11) (include_line n @ butlast ?r) = l"
        "drop (length n + 11 + 1) (include_line n @ butlast ?r) = butlast ?r" by simp_all
      then show "take (length n + 11) (include_line n @ butlast ?r) = ?l"
        "drop (length n + 11 + 1) (include_line n @ butlast ?r) = butlast ?r" by (simp_all only: l_def)
    qed
    then have "cpp_loop ?b includes d = cpp_loop (butlast ?r) (includes @ [[DQ] @ n @ [DQ]]) d"
      by (intro step) (simp only: b index_line [OF assms(1)] option.case)
    then show ?thesis by (simp only: tail)
  qed
qed

lemma cpp_loop_lines:
  "\<forall>n \<in> set ns. NL \<notin> set n \<and> DQ \<notin> set n \<Longrightarrow>
   cpp_loop (concat (map include_line ns)) incs d = Inr (incs @ map (\<lambda>n. [DQ] @ n @ [DQ]) ns, d)"
proof (induction ns arbitrary: incs)
  case Nil
  show ?case by (subst cpp_loop.simps) (simp add: trim_space_def trim_left.simps lead_space_def trail_space_def
      trim_right.simps space_runes_def has_prefix_def has_suffix_def)
next
  case (Cons n ns)
  then show ?case using cpp_loop_line [of n ns incs d] by simp
qed

end
