(* ===== verification/Targets.thy ===== *)
theory Targets
  imports State Filepath Edit_Distance Cpp_Scan "HOL-Library.List_Lexorder" "HOL-Library.Char_ord"
begin

text \<open>
  Target names of the command line (\<open>toolsupport/ninjautil/state.go\<close>): \<open>Targets\<close>, the search for
  the target of a source or header file with the \<open>^\<close> syntax (\<open>hatTarget\<close>), and the suggestion for
  an unknown target (\<open>SpellcheckTarget\<close>). The file system is a record of parameters. \<open>hatTarget\<close>
  recurses through header files; it takes fuel, and the set \<open>seen\<close> that it shares with its
  recursive calls is passed along.
\<close>

record file_system =
  os_exists :: "bytes \<Rightarrow> bool"
  os_readDir :: "bytes \<Rightarrow> bytes list option"
  os_readFile :: "bytes \<Rightarrow> bytes option"

subsection \<open>The target of a source file\<close>

definition headerExts :: "bytes list" where
  "headerExts = [''.h'', ''.hxx'', ''.hpp'', ''.inc'']"

definition sourceExts :: "bytes list" where
  "sourceExts = [''.cc'', ''_test.cc'', ''_unittest.cc'', ''.c'', ''.cxx'', ''.cpp'', ''.m'', ''.mm'', ''.S'']"

text \<open>The files to look at, in order: those with the stem of the header, then the rest of the directory.\<close>

definition hat_candidates :: "bytes \<Rightarrow> bytes list \<Rightarrow> bytes list" where
  "hat_candidates t names =
     (let tbase = trim_suffix t (fp_ext t);
          tts = map (\<lambda>ext. tbase @ ext) sourceExts;
          filenames = sorted_list_of_set (set names - fp_base ` set tts) in
      tts @ map (\<lambda>fname. fp_join [fp_dir t, fname]) filenames)"

type_synonym hat_result = "(node_cell option \<times> bytes set) res option"

text \<open>The include directives of one candidate; \<open>again\<close> is the recursive call on a header file.\<close>

fun hat_includes :: "(bytes \<Rightarrow> bytes set \<Rightarrow> hat_result) \<Rightarrow> (bytes \<Rightarrow> 64 word) \<Rightarrow> state \<Rightarrow> bytes \<Rightarrow> bytes \<Rightarrow>
    bytes list \<Rightarrow> bytes set \<Rightarrow> hat_result" where
  "hat_includes again hash s incname fname [] seen = Some (Inr (None, seen))"
| "hat_includes again hash s incname fname (inc # incs) seen =
     (if inc = [] then Some (Inl (Panic ''index out of range''))
      else if last inc \<noteq> DQ \<and> last inc \<noteq> CHR ''>'' then hat_includes again hash s incname fname incs seen
      else case go_slice inc 1 (length inc - 1) of
        Inl err \<Rightarrow> Some (Inl err)
      | Inr name \<Rightarrow>
          if fp_base name \<noteq> incname then hat_includes again hash s incname fname incs seen
          else case lookupNodeByPath hash s fname of
            Some n \<Rightarrow> Some (Inr (Some n, seen))
          | None \<Rightarrow>
              if fp_ext fname \<notin> set headerExts then hat_includes again hash s incname fname incs seen
              else case again fname seen of
                None \<Rightarrow> None
              | Some (Inl err) \<Rightarrow> Some (Inl err)
              | Some (Inr (Some n, seen')) \<Rightarrow> Some (Inr (Some n, seen'))
              | Some (Inr (None, seen')) \<Rightarrow> hat_includes again hash s incname fname incs seen')"

text \<open>\<open>checkNode\<close> on the candidates in turn.\<close>

definition checkNode :: "(bytes \<Rightarrow> bytes set \<Rightarrow> hat_result) \<Rightarrow> (bytes \<Rightarrow> 64 word) \<Rightarrow> file_system \<Rightarrow> state \<Rightarrow> bytes \<Rightarrow>
    bytes \<Rightarrow> bytes set \<Rightarrow> hat_result" where
  "checkNode again hash fsys s incname fname seen =
     (case os_readFile fsys fname of
        None \<Rightarrow> Some (Inr (None, seen))
      | Some buf \<Rightarrow>
          case cPPScan buf of
            Inl err \<Rightarrow> Some (Inl err)
          | Inr (incs, _) \<Rightarrow> hat_includes again hash s incname fname incs seen)"

fun hat_files :: "(bytes \<Rightarrow> bytes set \<Rightarrow> hat_result) \<Rightarrow> (bytes \<Rightarrow> 64 word) \<Rightarrow> file_system \<Rightarrow> state \<Rightarrow> bytes \<Rightarrow>
    bytes list \<Rightarrow> bytes set \<Rightarrow> hat_result" where
  "hat_files again hash fsys s incname [] seen = Some (Inr (None, seen))"
| "hat_files again hash fsys s incname (fname # fnames) seen =
     (case checkNode again hash fsys s incname fname seen of
        None \<Rightarrow> None
      | Some (Inl err) \<Rightarrow> Some (Inl err)
      | Some (Inr (Some n, seen')) \<Rightarrow> Some (Inr (Some n, seen'))
      | Some (Inr (None, seen')) \<Rightarrow> hat_files again hash fsys s incname fnames seen')"

fun hatTarget :: "nat \<Rightarrow> (bytes \<Rightarrow> 64 word) \<Rightarrow> file_system \<Rightarrow> state \<Rightarrow> bytes \<Rightarrow> bytes set \<Rightarrow> hat_result" where
  "hatTarget 0 hash fsys s t seen = None"
| "hatTarget (Suc fuel) hash fsys s t seen =
     (if t \<in> seen then Some (Inr (None, seen))
      else
        let seen1 = insert t seen; t1 = trim_suffix t ''^'' in
        case lookupNodeByPath hash s t1 of
          Some n \<Rightarrow> Some (Inr (Some n, seen1))
        | None \<Rightarrow>
            if fp_ext t1 \<notin> set headerExts then Some (Inr (None, seen1))
            else if \<not> os_exists fsys t1 then Some (Inr (None, seen1))
            else case os_readDir fsys (fp_dir t1) of
              None \<Rightarrow> Some (Inr (None, seen1))
            | Some names \<Rightarrow>
                hat_files (hatTarget fuel hash fsys s) hash fsys s (fp_base t1) (hat_candidates t1 names) seen1)"

text \<open>
  The search ends: every recursive call is on a candidate not seen before. If \<open>U\<close> is a finite set of
  paths that contains the target and the candidates of each of its members, as many calls as \<open>U\<close> has
  unseen members are enough.
\<close>

definition hat_closed :: "file_system \<Rightarrow> bytes set \<Rightarrow> bool" where
  "hat_closed fsys U \<longleftrightarrow>
     (\<forall>t \<in> U. \<forall>names. fp_ext (trim_suffix t ''^'') \<in> set headerExts \<longrightarrow>
        os_exists fsys (trim_suffix t ''^'') \<longrightarrow>
        os_readDir fsys (fp_dir (trim_suffix t ''^'')) = Some names \<longrightarrow>
        set (hat_candidates (trim_suffix t ''^'') names) \<subseteq> U)"

definition hat_returns :: "bytes set \<Rightarrow> hat_result \<Rightarrow> bool" where
  "hat_returns seen r \<longleftrightarrow> (\<exists>v. r = Some v \<and> (\<forall>m seen'. v = Inr (m, seen') \<longrightarrow> seen \<subseteq> seen'))"

lemma hat_returns_simps [simp]:
  "hat_returns seen (Some (Inl err))" "hat_returns seen (Some (Inr (m, seen'))) \<longleftrightarrow> seen \<subseteq> seen'"
  "\<not> hat_returns seen None"
  by (auto simp: hat_returns_def)

lemma hat_returns_mono: "hat_returns seen' r \<Longrightarrow> seen \<subseteq> seen' \<Longrightarrow> hat_returns seen r"
  by (fastforce simp: hat_returns_def)

lemma hat_returns_cases:
  assumes "hat_returns seen r"
  obtains err where "r = Some (Inl err)" | n seen' where "r = Some (Inr (Some n, seen'))" "seen \<subseteq> seen'"
  | seen' where "r = Some (Inr (None, seen'))" "seen \<subseteq> seen'"
proof -
  from assms obtain v where r: "r = Some v" and v: "\<forall>m seen'. v = Inr (m, seen') \<longrightarrow> seen \<subseteq> seen'"
    by (auto simp: hat_returns_def)
  show thesis
  proof (cases v)
    case (Inl err) then show thesis using that(1) r by blast
  next
    case (Inr w)
    obtain m seen' where w: "w = (m, seen')" by fastforce
    then have "seen \<subseteq> seen'" using v Inr by blast
    then show thesis using that(2,3) r Inr w by (cases m) auto
  qed
qed

lemma hat_includes_returns:
  assumes "\<And>seen'. seen \<subseteq> seen' \<Longrightarrow> hat_returns seen' (again fname seen')"
  shows "hat_returns seen (hat_includes again hash s incname fname incs seen)"
  using assms
proof (induction incs arbitrary: seen)
  case (Cons inc incs)
  have rest: "hat_returns seen (hat_includes again hash s incname fname incs seen)"
    by (rule Cons.IH) (rule Cons.prems)
  show ?case
  proof (rule hat_returns_cases [OF Cons.prems [OF subset_refl]])
    fix seen' assume r: "again fname seen = Some (Inr (None, seen'))" and sub: "seen \<subseteq> seen'"
    have "hat_returns seen' (hat_includes again hash s incname fname incs seen')"
      by (rule Cons.IH) (use Cons.prems sub in blast)
    from hat_returns_mono [OF this sub] show ?thesis using rest r
      by (auto split: sum.split option.split)
  qed (use rest in \<open>auto split: sum.split option.split\<close>)
qed simp

lemma checkNode_returns:
  assumes "\<And>seen'. seen \<subseteq> seen' \<Longrightarrow> hat_returns seen' (again fname seen')"
  shows "hat_returns seen (checkNode again hash fsys s incname fname seen)"
  using hat_includes_returns [of seen again fname, OF assms]
  by (auto simp: checkNode_def split: option.split sum.split)

lemma hat_files_returns:
  assumes "\<And>f seen'. f \<in> set fnames \<Longrightarrow> seen \<subseteq> seen' \<Longrightarrow> hat_returns seen' (again f seen')"
  shows "hat_returns seen (hat_files again hash fsys s incname fnames seen)"
  using assms
proof (induction fnames arbitrary: seen)
  case (Cons f fnames)
  have "hat_returns seen (checkNode again hash fsys s incname f seen)"
    by (rule checkNode_returns) (use Cons.prems in auto)
  then show ?case
  proof (cases rule: hat_returns_cases)
    case (3 seen')
    have "hat_returns seen' (hat_files again hash fsys s incname fnames seen')"
      by (rule Cons.IH) (use Cons.prems 3(2) in fastforce)
    from hat_returns_mono [OF this 3(2)] show ?thesis using 3 by simp
  qed simp_all
qed simp

lemma hatTarget_returns:
  assumes "finite U" "hat_closed fsys U" "t \<in> U" "card (U - seen) < fuel"
  shows "hat_returns seen (hatTarget fuel hash fsys s t seen)"
  using assms(3,4)
proof (induction fuel arbitrary: t seen)
  case (Suc fuel)
  let ?t = "trim_suffix t ''^''"
  have files: "hat_returns (insert t seen) (hat_files (hatTarget fuel hash fsys s) hash fsys s (fp_base ?t)
      (hat_candidates ?t names) (insert t seen))"
    if new: "t \<notin> seen" and ex: "fp_ext ?t \<in> set headerExts" "os_exists fsys ?t"
      and dir: "os_readDir fsys (fp_dir ?t) = Some names" for names
  proof (rule hat_files_returns)
    fix f seen' assume f: "f \<in> set (hat_candidates ?t names)" and sub: "insert t seen \<subseteq> seen'"
    have "U - seen' \<subset> U - seen" using sub new Suc.prems(1) by auto
    then have "card (U - seen') < card (U - seen)"
      using assms(1) by (intro psubset_card_mono) auto
    moreover have "f \<in> U" using assms(2) Suc.prems(1) ex dir f unfolding hat_closed_def by blast
    ultimately show "hat_returns seen' (hatTarget fuel hash fsys s f seen')"
      by (intro Suc.IH) (use Suc.prems(2) in auto)
  qed
  show ?case
    using hat_returns_mono [OF files, of _ seen]
    by (auto simp: Let_def split: option.split)
qed simp

subsection \<open>Targets\<close>

text \<open>\<open>Targets\<close> returns the nodes it found and the joined errors; an edge without outputs ends it.\<close>

fun first_outputs :: "state \<Rightarrow> nat list \<Rightarrow> node_cell list option" where
  "first_outputs s [] = Some []"
| "first_outputs s (p # ps) =
     (case ed_outputs (the (gs_edgeAt s p)) of
        [] \<Rightarrow> None
      | o1 # _ \<Rightarrow> map_option (\<lambda>os. o1 # os) (first_outputs s ps))"

fun targets_loop :: "nat \<Rightarrow> (bytes \<Rightarrow> 64 word) \<Rightarrow> file_system \<Rightarrow> state \<Rightarrow> bytes list \<Rightarrow> node_cell list \<Rightarrow> failure list \<Rightarrow>
    (node_cell list \<times> failure list) res option" where
  "targets_loop fuel hash fsys s [] nodes errs = Some (Inr (nodes, errs))"
| "targets_loop fuel hash fsys s (a # args) nodes errs =
     (let t = fp_clean a in
      if has_suffix t ''^'' then
        (case hatTarget fuel hash fsys s t {} of
           None \<Rightarrow> None
         | Some (Inl err) \<Rightarrow> Some (Inl err)
         | Some (Inr (None, _)) \<Rightarrow> targets_loop fuel hash fsys s args nodes (errs @ [Err ''unknown target''])
         | Some (Inr (Some n, _)) \<Rightarrow>
             if gs_outs s (nc_ptr n) = [] then targets_loop fuel hash fsys s args nodes (errs @ [Err ''no outs''])
             else case first_outputs s (gs_outs s (nc_ptr n)) of
               None \<Rightarrow> Some (Inl (Err ''out edge has no output''))
             | Some os \<Rightarrow> targets_loop fuel hash fsys s args (nodes @ os) errs)
      else case lookupNodeByPath hash s t of
        None \<Rightarrow> targets_loop fuel hash fsys s args nodes (errs @ [Err ''unknown target''])
      | Some n \<Rightarrow> targets_loop fuel hash fsys s args (nodes @ [n]) errs)"

definition state_Targets :: "nat \<Rightarrow> (bytes \<Rightarrow> 64 word) \<Rightarrow> file_system \<Rightarrow> state \<Rightarrow> bytes list \<Rightarrow>
    (node_cell list \<times> failure list) res option" where
  "state_Targets fuel hash fsys s args =
     (if args = [] then
        Some (case defaultNodes s of Inl err \<Rightarrow> Inl err | Inr ns \<Rightarrow> Inr (ns, []))
      else targets_loop fuel hash fsys s args [] [])"

subsection \<open>Suggestions\<close>

fun spell_loop :: "bytes \<Rightarrow> node_cell option list \<Rightarrow> int \<Rightarrow> bytes \<Rightarrow> bytes \<Rightarrow> bytes \<times> bytes" where
  "spell_loop t [] minDistance similar submatch = (similar, submatch)"
| "spell_loop t (None # ns) minDistance similar submatch = spell_loop t ns minDistance similar submatch"
| "spell_loop t (Some n # ns) minDistance similar submatch =
     (let p = nc_path n; d = editDistance t p 3;
          submatch' = (if (submatch = [] \<or> length p < length submatch) \<and> str_contains p t then p else submatch) in
      if d < minDistance then spell_loop t ns d p submatch'
      else spell_loop t ns minDistance similar submatch')"

definition spellcheckTarget :: "state \<Rightarrow> bytes \<Rightarrow> bytes res" where
  "spellcheckTarget s t =
     (case spell_loop t (gs_nodes s) 4 [] [] of
        (similar, submatch) \<Rightarrow>
          if similar \<noteq> [] then Inr similar
          else if submatch \<noteq> [] then Inr submatch
          else Inl (Err ''no target similar''))"

text \<open>The distance with the limit three tells apart exactly the distances up to three.\<close>

definition near :: "bytes \<Rightarrow> bytes \<Rightarrow> bool" where
  "near t p \<longleftrightarrow> levenshtein t p \<le> 3"

lemma editDistance_near: "near t p \<Longrightarrow> editDistance t p 3 = int (levenshtein t p)"
  and editDistance_far: "\<not> near t p \<Longrightarrow> editDistance t p 3 \<ge> 4"
  using editDistance_ok [of t p 3] by (auto simp: near_def)

text \<open>\<open>best\<close> is what has been found so far: the smallest distance and a path that has it.\<close>

definition paths_of :: "node_cell option list \<Rightarrow> bytes list" where
  "paths_of ns = map nc_path (List.map_filter id ns)"

lemma paths_of_simps [simp]:
  "paths_of [] = []" "paths_of (None # ns) = paths_of ns" "paths_of (Some n # ns) = nc_path n # paths_of ns"
  by (simp_all add: paths_of_def List.map_filter_def)

text \<open>\<open>spell_best t S r\<close>: among the non-empty paths \<open>S\<close>, \<open>r\<close> is nearest to \<open>t\<close>, or empty when none is near.\<close>

definition spell_best :: "bytes \<Rightarrow> bytes set \<Rightarrow> bytes \<Rightarrow> bool" where
  "spell_best t S r \<longleftrightarrow>
     (if r = [] then \<forall>p \<in> S. \<not> near t p
      else r \<in> S \<and> near t r \<and> (\<forall>p \<in> S. near t p \<longrightarrow> levenshtein t r \<le> levenshtein t p))"

definition spell_dist :: "bytes \<Rightarrow> bytes \<Rightarrow> int" where
  "spell_dist t r = (if r = [] then 4 else int (levenshtein t r))"

lemma spell_best_nearer:
  assumes best: "spell_best t S r" and p: "p \<noteq> []" and lt: "editDistance t p 3 < spell_dist t r"
  shows "spell_best t (insert p S) p \<and> editDistance t p 3 = spell_dist t p"
proof -
  have "spell_dist t r \<le> 4" using best by (auto simp: spell_best_def spell_dist_def near_def)
  then have near: "near t p" using lt editDistance_far [of t p] by force
  note dist = editDistance_near [OF near]
  have "levenshtein t p \<le> levenshtein t q" if "q \<in> S" "near t q" for q
  proof (cases "r = []")
    case True then show ?thesis using best that by (simp add: spell_best_def)
  next
    case False
    then have "levenshtein t r \<le> levenshtein t q" using best that by (simp add: spell_best_def)
    then show ?thesis using lt False dist by (simp add: spell_dist_def)
  qed
  then show ?thesis using near p dist by (simp add: spell_best_def spell_dist_def)
qed

lemma spell_best_farther:
  assumes best: "spell_best t S r" and ge: "\<not> editDistance t p 3 < spell_dist t r"
  shows "spell_best t (insert p S) r"
proof (cases "near t p")
  case False then show ?thesis using best by (simp add: spell_best_def)
next
  case True
  note dist = editDistance_near [OF True]
  have "r \<noteq> []" using ge True dist by (auto simp: spell_dist_def near_def)
  moreover from this have "levenshtein t r \<le> levenshtein t p" using ge dist by (simp add: spell_dist_def)
  ultimately show ?thesis using best by (simp add: spell_best_def)
qed

lemma spell_loop_similar:
  assumes "spell_best t S similar" "[] \<notin> set (paths_of ns)"
  shows "spell_best t (S \<union> set (paths_of ns)) (fst (spell_loop t ns (spell_dist t similar) similar submatch))"
  using assms
proof (induction ns arbitrary: S similar submatch)
  case (Cons m ns)
  show ?case
  proof (cases m)
    case None then show ?thesis using Cons by simp
  next
    case (Some n)
    have p: "nc_path n \<noteq> []" "[] \<notin> set (paths_of ns)" using Cons.prems(2) Some by auto
    have set: "S \<union> set (paths_of (m # ns)) = insert (nc_path n) S \<union> set (paths_of ns)" using Some by simp
    show ?thesis
    proof (cases "editDistance t (nc_path n) 3 < spell_dist t similar")
      case True
      note near = spell_best_nearer [OF Cons.prems(1) p(1) True]
      show ?thesis unfolding set using Cons.IH [OF conjunct1 [OF near] p(2)] True near Some
        by (simp add: Let_def)
    next
      case False
      show ?thesis unfolding set using Cons.IH [OF spell_best_farther [OF Cons.prems(1) False] p(2)] False Some
        by (simp add: Let_def)
    qed
  qed
qed simp

text \<open>The suggestion for names that contain the target: the shortest, the first of them.\<close>

definition sub_best :: "bytes \<Rightarrow> bytes set \<Rightarrow> bytes \<Rightarrow> bool" where
  "sub_best t S r \<longleftrightarrow>
     (if r = [] then \<forall>p \<in> S. \<not> str_contains p t
      else r \<in> S \<and> str_contains r t \<and> (\<forall>p \<in> S. str_contains p t \<longrightarrow> length r \<le> length p))"

lemma sub_best_insert:
  assumes "sub_best t S r" "p \<noteq> []"
  shows "sub_best t (insert p S) (if (r = [] \<or> length p < length r) \<and> str_contains p t then p else r)"
proof (cases "str_contains p t")
  case False then show ?thesis using assms by (auto simp: sub_best_def)
next
  case True
  show ?thesis
  proof (cases "r = [] \<or> length p < length r")
    case c: True
    have "length p \<le> length q" if "q \<in> S" "str_contains q t" for q
      using assms(1) c that unfolding sub_best_def by (cases "r = []") force+
    then show ?thesis using True c assms(2) by (simp add: sub_best_def)
  next
    case False
    then show ?thesis using assms(1) by (simp add: sub_best_def)
  qed
qed

lemma spell_loop_submatch:
  assumes "sub_best t S submatch" "[] \<notin> set (paths_of ns)"
  shows "sub_best t (S \<union> set (paths_of ns)) (snd (spell_loop t ns k similar submatch))"
  using assms
proof (induction ns arbitrary: S k similar submatch)
  case (Cons m ns)
  show ?case
  proof (cases m)
    case None then show ?thesis using Cons by simp
  next
    case (Some n)
    have p: "nc_path n \<noteq> []" "[] \<notin> set (paths_of ns)" using Cons.prems(2) Some by auto
    have set: "S \<union> set (paths_of (m # ns)) = insert (nc_path n) S \<union> set (paths_of ns)" using Some by simp
    note IH = Cons.IH [OF sub_best_insert [OF Cons.prems(1) p(1)] p(2)]
    show ?thesis unfolding set unfolding Some spell_loop.simps Let_def
      using IH by (cases "editDistance t (nc_path n) 3 < k") simp_all
  qed
qed simp

lemma spell_loop_start:
  assumes "[] \<notin> set (paths_of ns)"
  shows "spell_best t (set (paths_of ns)) (fst (spell_loop t ns 4 [] []))"
    and "sub_best t (set (paths_of ns)) (snd (spell_loop t ns 4 [] []))"
  using spell_loop_similar [of t "{}" "[]" ns "[]"] spell_loop_submatch [of t "{}" "[]" ns] assms
  by (simp_all add: spell_best_def spell_dist_def sub_best_def)

end
