(* ===== verification/Depfile.thy ===== *)
theory Depfile
  imports Go_Base
begin

text \<open>
  The depfile parser (\<open>toolsupport/makeutil/deps.go\<close>): \<open>ParseDeps\<close> and \<open>nextToken\<close>. The loop
  over the tokens may run forever: \<open>nextToken\<close> returns an empty token and consumes nothing at a
  backslash before a carriage return that is not followed by a newline. The loop is therefore a
  partial function whose value is \<open>None\<close> where it does not return.
\<close>

subsection \<open>Tokens\<close>

definition is_sep :: "char \<Rightarrow> bool" where
  "is_sep c \<longleftrightarrow> c \<in> {CHR '' '', TAB, NL, CR}"

definition is_eol :: "char \<Rightarrow> bool" where
  "is_eol c \<longleftrightarrow> c \<in> {CR, NL}"

text \<open>The number of bytes that the loop \<open>skipSpaces\<close> passes over in one round.\<close>

definition blank_width :: "bytes \<Rightarrow> nat" where
  "blank_width s =
     (case s of
        [] \<Rightarrow> 0
      | c # t \<Rightarrow>
          if c = BSL \<and> t \<noteq> [] \<and> hd t = NL then 2
          else if c = BSL \<and> 2 \<le> length t \<and> hd t = CR \<and> t ! 1 = NL then 3
          else if c \<noteq> NL \<and> is_sep c then 1
          else 0)"

lemma blank_width_le: "blank_width s \<le> length s"
  by (auto simp: blank_width_def Suc_le_eq split: list.split)

text \<open>\<open>Inl\<close> is the return at a newline, \<open>Inr\<close> the rest of the input.\<close>

function skip_blank :: "bytes \<Rightarrow> bytes + bytes" where
  "skip_blank s =
     (if blank_width s \<noteq> 0 then skip_blank (drop (blank_width s) s)
      else if s \<noteq> [] \<and> hd s = NL then Inl (tl s)
      else Inr s)"
  by pat_completeness auto
termination
  using blank_width_le by (relation "measure length") (auto simp: diff_less_mono2 intro!: diff_less, metis le_zero_eq list.size(3) not_gr_zero)

declare skip_blank.simps [simp del]

text \<open>The second loop; \<open>sb\<close> is what the builder holds.\<close>

fun take_token :: "bytes \<Rightarrow> bytes \<Rightarrow> bytes \<times> bytes" where
  "take_token sb [] = (sb, [])"
| "take_token sb (c # s) =
     (if c = BSL \<and> s \<noteq> [] then
        (if hd s = CHR '' '' then take_token (sb @ [hd s]) (tl s)
         else if is_eol (hd s) then (sb, c # s)
         else take_token (sb @ [BSL, hd s]) (tl s))
      else if is_sep c then (sb, c # s)
      else if c = CHR '':'' \<and> length sb = 0 then ('':'', s)
      else if c = CHR '':'' \<and> length sb \<noteq> 1 then (sb, c # s)
      else take_token (sb @ [c]) s)"

definition nextToken :: "bytes \<Rightarrow> bytes \<times> bytes" where
  "nextToken s = (case skip_blank s of Inl rest \<Rightarrow> ([NL], rest) | Inr s' \<Rightarrow> take_token [] s')"

subsection \<open>ParseDeps\<close>

text \<open>
  Both loops in one: \<open>inner\<close> is true while inputs are collected. The inner loop ends with the input,
  and so does the outer one then.
\<close>

partial_function (option) deps_loop :: "bool \<Rightarrow> bytes \<Rightarrow> bytes list \<Rightarrow> bytes list res option" where
  "deps_loop inner s inputs =
     (if s = [] then Some (Inr inputs)
      else if inner then
        (case nextToken s of (token, s') \<Rightarrow>
           if token = [] then deps_loop True s' inputs
           else if token = '':'' then Some (Inl (Err ''multiple colon in dep line''))
           else if token = [NL] then deps_loop False s' inputs
           else deps_loop True s' (if token \<in> set inputs then inputs else inputs @ [token]))
      else
        (case index_byte s CHR '':'' of
           None \<Rightarrow> Some (Inr inputs)
         | Some i \<Rightarrow>
             if trim_space (take i s) = [] then Some (Inl (Err ''missing output in deps''))
             else deps_loop True (drop (i + 1) s) inputs))"

declare deps_loop.simps [code]

definition parseDeps :: "bytes \<Rightarrow> bytes list res option" where
  "parseDeps b = deps_loop False b []"

definition parseDepsFile :: "(bytes \<Rightarrow> bytes option) \<Rightarrow> bytes \<Rightarrow> bytes list res option" where
  "parseDepsFile readFile fname =
     (if fname = [] then Some (Inr [])
      else case readFile fname of
        None \<Rightarrow> Some (Inl (Err ''read''))
      | Some b \<Rightarrow> parseDeps b)"

subsection \<open>Progress\<close>

text \<open>Every carriage return behind a backslash is followed by a newline.\<close>

definition continuations_ok :: "bytes \<Rightarrow> bool" where
  "continuations_ok s \<longleftrightarrow> (\<forall>t. suffix (BSL # CR # t) s \<longrightarrow> t \<noteq> [] \<and> hd t = NL)"

lemma continuations_ok_suffix: "continuations_ok s \<Longrightarrow> suffix t s \<Longrightarrow> continuations_ok t"
  unfolding continuations_ok_def by (metis suffix_order.trans)

lemma skip_blank_suffix:
  "case skip_blank s of
     Inl r \<Rightarrow> strict_suffix r s
   | Inr r \<Rightarrow> suffix r s \<and> blank_width r = 0 \<and> (r = [] \<or> hd r \<noteq> NL)"
proof (induction s rule: skip_blank.induct)
  case (1 s)
  show ?case
  proof (cases "blank_width s = 0")
    case True
    then have "skip_blank s = (if s \<noteq> [] \<and> hd s = NL then Inl (tl s) else Inr s)"
      by (subst skip_blank.simps) simp
    then show ?thesis using True by (auto simp: neq_Nil_conv strict_suffix_def suffix_ConsI)
  next
    case False
    have eq: "skip_blank s = skip_blank (drop (blank_width s) s)" using False by (subst skip_blank.simps) simp
    have "suffix (drop (blank_width s) s) s" by (rule suffix_drop)
    then show ?thesis
      unfolding eq using 1 [OF False]
      by (auto split: sum.splits intro: suffix_order.trans suffix_order.less_le_trans)
  qed
qed

lemma take_token_suffix: "suffix (snd (take_token sb s)) s"
proof (induction sb s rule: take_token.induct)
  case (2 sb c s)
  have "suffix x (d # s)" if "suffix x (tl s)" for x d
    using that suffix_tl suffix_order.trans suffix_ConsI by metis
  then show ?case using 2 by (simp add: suffix_ConsI)
qed simp

lemma take_token_stop:
  assumes "snd (take_token sb s) = s" and "s \<noteq> []"
  shows "is_sep (hd s) \<or> hd s = CHR '':'' \<and> sb \<noteq> [] \<or> (\<exists>t. s = BSL # t \<and> t \<noteq> [] \<and> is_eol (hd t))"
proof (cases s)
  case (Cons c t)
  have "snd (take_token x u) \<noteq> s" if "length u < length s" for x u
    using take_token_suffix [of x u] that suffix_length_le by (metis leD)
  then have "snd (take_token x (tl t)) \<noteq> s" "snd (take_token x t) \<noteq> s" for x
    using Cons by simp_all
  then show ?thesis using assms Cons by (auto split: if_splits)
qed (use assms in simp)

lemma blank_width_sep: "blank_width r = 0 \<Longrightarrow> r \<noteq> [] \<Longrightarrow> hd r \<noteq> NL \<Longrightarrow> \<not> is_sep (hd r)"
  by (auto simp: blank_width_def split: list.splits if_splits)

lemma nextToken_progress:
  assumes "s \<noteq> []" and "continuations_ok s"
  shows "strict_suffix (snd (nextToken s)) s"
proof (cases "skip_blank s")
  case (Inl r)
  then show ?thesis using skip_blank_suffix [of s] by (simp add: nextToken_def)
next
  case (Inr r)
  then have r: "suffix r s" "blank_width r = 0" "r = [] \<or> hd r \<noteq> NL" using skip_blank_suffix [of s] by auto
  let ?t = "snd (take_token [] r)"
  have "suffix ?t r" by (rule take_token_suffix)
  moreover have "?t \<noteq> s"
  proof
    assume eq: "?t = s"
    then have "r = s" using r(1) \<open>suffix ?t r\<close> by (metis suffix_order.antisym)
    then have stop: "is_sep (hd r) \<or> (\<exists>t. r = BSL # t \<and> t \<noteq> [] \<and> is_eol (hd t))"
      using take_token_stop [of "[]" r] eq assms(1) by auto
    moreover have "\<not> is_sep (hd r)" using blank_width_sep r \<open>r = s\<close> assms(1) by blast
    ultimately obtain t where t: "r = BSL # t" "t \<noteq> []" "is_eol (hd t)" by blast
    then have "hd t = CR" using r(2) by (auto simp: is_eol_def blank_width_def)
    then have "t = CR # tl t" using t(2) by (metis list.collapse)
    then have "suffix (BSL # CR # tl t) s" using t(1) \<open>r = s\<close> by simp
    then have "tl t \<noteq> []" "hd (tl t) = NL" using assms(2) unfolding continuations_ok_def by blast+
    then have "2 \<le> length t" "t ! 1 = NL" using t(2) by (auto simp: neq_Nil_conv)
    then show False using r(2) t \<open>hd t = CR\<close> by (simp add: blank_width_def)
  qed
  ultimately show ?thesis using Inr r(1) by (auto simp: nextToken_def strict_suffix_def intro: suffix_order.trans)
qed

lemma deps_loop_returns: "continuations_ok s \<Longrightarrow> \<exists>r. deps_loop inner s inputs = Some r"
proof (induction "length s" arbitrary: inner s inputs rule: less_induct)
  case less
  have IH: "\<exists>r. deps_loop b t ins = Some r" if "suffix t s" "length t < length s" for b t ins
    using less.hyps [OF that(2)] continuations_ok_suffix [OF less.prems that(1)] by blast
  show ?case
  proof (cases "s = []")
    case True
    then show ?thesis by (simp add: deps_loop.simps)
  next
    case False
    obtain token s' where nt: "nextToken s = (token, s')" by force
    have "strict_suffix s' s" using nextToken_progress [OF False less.prems] nt by simp
    then have t: "suffix s' s" "length s' < length s" by (auto simp: strict_suffix_def suffix_def)
    have d: "suffix (drop (i + 1) s) s \<and> length (drop (i + 1) s) < length s" for i
      using False by (simp add: suffix_drop)
    show ?thesis
      using IH [OF t] IH d False
      by (subst deps_loop.simps) (auto simp: nt split: option.split)
  qed
qed

text \<open>At a backslash before a lone carriage return the loop makes no progress.\<close>

definition stuck :: "bytes \<Rightarrow> bool" where
  "stuck s \<longleftrightarrow> (\<exists>t. s = BSL # CR # t \<and> (t = [] \<or> hd t \<noteq> NL))"

lemma nextToken_stuck: "stuck s \<Longrightarrow> nextToken s = ([], s)"
proof -
  assume "stuck s"
  then obtain t where s: "s = BSL # CR # t" "t = [] \<or> hd t \<noteq> NL" by (auto simp: stuck_def)
  have "blank_width s = 0" using s by (cases t) (auto simp: blank_width_def is_sep_def)
  then have "skip_blank s = Inr s" using s by (subst skip_blank.simps) simp
  then show ?thesis using s by (simp add: nextToken_def is_eol_def)
qed

lemma deps_loop_stuck: "stuck s \<Longrightarrow> deps_loop True s inputs = None"
proof (rule ccontr)
  assume st: "stuck s" and "deps_loop True s inputs \<noteq> None"
  then obtain r where "deps_loop True s inputs = Some r" by blast
  then have "\<not> (True \<and> stuck s)"
  proof (rule deps_loop.raw_induct [rotated])
    fix loop inner s inputs r
    assume IH: "\<And>inner s inputs r. loop inner s inputs = Some r \<Longrightarrow> \<not> (inner \<and> stuck s)"
      and run: "(if s = [] then Some (Inr inputs)
        else if inner then
          (case nextToken s of (token, s') \<Rightarrow>
             if token = [] then loop True s' inputs
             else if token = '':'' then Some (Inl (Err ''multiple colon in dep line''))
             else if token = [NL] then loop False s' inputs
             else loop True s' (if token \<in> set inputs then inputs else inputs @ [token]))
        else
          (case index_byte s CHR '':'' of
             None \<Rightarrow> Some (Inr inputs)
           | Some i \<Rightarrow>
               if trim_space (take i s) = [] then Some (Inl (Err ''missing output in deps''))
               else loop True (drop (i + 1) s) inputs)) = Some r"
    show "\<not> (inner \<and> stuck s)"
    proof
      assume i: "inner \<and> stuck s"
      then have "s \<noteq> []" by (auto simp: stuck_def)
      then have "loop True s inputs = Some r" using run i nextToken_stuck [of s] by simp
      from IH [OF this] show False using i by simp
    qed
  qed
  then show False using st by simp
qed

subsection \<open>Reading back what was written\<close>

definition dep_name :: "bytes \<Rightarrow> bool" where
  "dep_name n \<longleftrightarrow> n \<noteq> [] \<and> set n \<inter> {BSL, TAB, CR, NL, CHR '':''} = {} "

definition dep_escape :: "bytes \<Rightarrow> bytes" where
  "dep_escape n = concat (map (\<lambda>c. if c = CHR '' '' then [BSL, c] else [c]) n)"

definition dep_line :: "bytes \<Rightarrow> bytes list \<Rightarrow> bytes" where
  "dep_line out ins = out @ '':'' @ concat (map (\<lambda>n. CHR '' '' # dep_escape n) ins) @ [NL]"

lemma take_token_name:
  assumes "set n \<inter> {BSL, TAB, CR, NL, CHR '':''} = {}" and "is_sep c"
  shows "take_token sb (dep_escape n @ c # rest) = (sb @ n, c # rest)"
  using assms(1)
proof (induction n arbitrary: sb)
  case Nil
  have "c \<noteq> BSL" using assms(2) by (auto simp: is_sep_def)
  then show ?case using assms(2) by (simp add: dep_escape_def)
next
  case (Cons x n)
  have IH: "take_token sb' (dep_escape n @ c # rest) = (sb' @ n, c # rest)" for sb'
    using Cons by simp
  show ?case
  proof (cases "x = CHR '' ''")
    case True
    then show ?thesis using IH [of "sb @ [x]"] by (simp add: dep_escape_def)
  next
    case False
    then have x: "x \<noteq> BSL" "\<not> is_sep x" "x \<noteq> CHR '':''" using Cons.prems by (auto simp: is_sep_def)
    then show ?thesis using IH [of "sb @ [x]"] False by (simp add: dep_escape_def)
  qed
qed

lemma nextToken_name:
  assumes "dep_name n" and "is_sep c"
  shows "nextToken (CHR '' '' # dep_escape n @ c # rest) = (n, c # rest)"
proof -
  let ?s = "dep_escape n @ c # rest"
  obtain x m where n: "n = x # m" using assms(1) by (cases n) (auto simp: dep_name_def)
  have hd: "?s \<noteq> []" "hd ?s \<noteq> NL" using assms(1) n by (auto simp: dep_escape_def dep_name_def)
  have "blank_width ?s = 0"
    using assms(1) n by (auto simp: dep_escape_def dep_name_def blank_width_def is_sep_def)
  then have "skip_blank ?s = Inr ?s" using hd by (subst skip_blank.simps) simp
  moreover have "blank_width (CHR '' '' # ?s) = 1" by (simp add: blank_width_def is_sep_def)
  ultimately have "skip_blank (CHR '' '' # ?s) = Inr ?s" by (subst skip_blank.simps) simp
  then show ?thesis using take_token_name [of n c "[]"] assms by (simp add: nextToken_def dep_name_def)
qed

lemma nextToken_newline: "nextToken [NL] = ([NL], [])"
  by (simp add: nextToken_def skip_blank.simps blank_width_def is_sep_def)

lemma deps_loop_names:
  assumes "\<forall>n \<in> set ns. dep_name n"
  shows "deps_loop True (concat (map (\<lambda>n. CHR '' '' # dep_escape n) ns) @ [NL]) inputs =
    Some (Inr (add_unseen inputs ns))"
  using assms
proof (induction ns arbitrary: inputs)
  case Nil
  show ?case by (simp add: deps_loop.simps nextToken_newline)
next
  case (Cons n ns)
  let ?rest = "concat (map (\<lambda>n. CHR '' '' # dep_escape n) ns) @ [NL]"
  obtain c r where c: "?rest = c # r" "is_sep c" by (cases ns) (auto simp: is_sep_def)
  have n: "n \<noteq> []" "n \<noteq> '':''" "n \<noteq> [NL]" using Cons.prems by (auto simp: dep_name_def)
  have "nextToken (CHR '' '' # dep_escape n @ ?rest) = (n, ?rest)"
    using nextToken_name [of n c r] Cons.prems c by simp
  then have "deps_loop True (CHR '' '' # dep_escape n @ ?rest) inputs =
      deps_loop True ?rest (if n \<in> set inputs then inputs else inputs @ [n])"
    by (subst deps_loop.simps) (simp add: n)
  then show ?case using Cons by simp
qed

lemma parseDeps_line:
  assumes "CHR '':'' \<notin> set out" and "trim_space out \<noteq> []" and "\<forall>n \<in> set ns. dep_name n"
  shows "parseDeps (dep_line out ns) = Some (Inr (add_unseen [] ns))"
proof -
  let ?rest = "concat (map (\<lambda>n. CHR '' '' # dep_escape n) ns) @ [NL]"
  have eq: "dep_line out ns = out @ CHR '':'' # ?rest" by (simp add: dep_line_def)
  have i: "index_byte (out @ CHR '':'' # ?rest) CHR '':'' = Some (length out)"
    unfolding index_byte_def by (rule index_of_append_first) (use assms(1) in auto)
  have "parseDeps (dep_line out ns) = deps_loop True ?rest []"
    unfolding parseDeps_def eq using assms(2) by (subst deps_loop.simps) (simp add: i)
  then show ?thesis using deps_loop_names [OF assms(3)] by simp
qed

end
