(* ===== verification/Mtime_Check.thy ===== *)
theory Mtime_Check
  imports Go_Base
begin

text \<open>
  The decision whether a step has to run (\<open>build/mtimecheck.go\<close>, \<open>calculateCmdHash\<close> of
  \<open>build/step.go\<close>). A time is a number, 0 being the zero \<open>time.Time\<close>. What the builder asks of
  other components are parameters: \<open>stat\<close> for \<open>hashFS.Stat\<close>, \<open>flush\<close> for \<open>hashFS.Flush\<close>,
  \<open>targetPath\<close> for \<open>graph.TargetPath\<close> and \<open>sha256\<close>. \<open>stepView\<close> holds what a \<open>StepDef\<close> answers;
  \<open>phony\<close> is the map \<open>b.phony\<close>.
\<close>

record fileInfo =
  fi_mtime :: nat
  fi_updated :: nat
  fi_cmdHash :: bytes
  fi_changed :: bool

record stepView =
  sv_phony :: bool
  sv_binding :: "bytes \<Rightarrow> bytes"
  sv_trigger :: "bytes list"
  sv_deps :: "bytes list res"
  sv_depfile :: bytes

record phonyState =
  ps_dirty :: bool
  ps_mtime :: nat

datatype mtime_err = DepsError failure | MissingInput bytes | Dirty bytes

record builder =
  b_stat :: "bytes \<Rightarrow> fileInfo option"
  b_targetPath :: "nat \<Rightarrow> bytes option"
  b_phony :: "bytes \<Rightarrow> phonyState option"
  b_clobber :: bool
  b_outputLocal :: "(bytes \<Rightarrow> bool) option"
  b_flush :: "bytes list \<Rightarrow> bool"
  b_sha256 :: "bytes \<Rightarrow> bytes"

definition calculateCmdHash :: "(bytes \<Rightarrow> bytes) \<Rightarrow> bytes \<Rightarrow> bytes \<Rightarrow> bytes" where
  "calculateCmdHash sha256 cmdline rspfileContent =
     sha256 (cmdline @ (if rspfileContent \<noteq> [] then rspfileContent else []))"

subsection \<open>Outputs\<close>

text \<open>The loop of \<open>outputMtime\<close>: the accumulator is \<open>(oerr, outmtime, outcmdhash)\<close>.\<close>

fun output_loop :: "builder \<Rightarrow> bool \<Rightarrow> nat \<Rightarrow> nat list \<Rightarrow> bool \<Rightarrow> nat \<Rightarrow> bytes \<Rightarrow> bool \<times> nat \<times> bytes" where
  "output_loop b restat i [] oerr outmtime outcmdhash = (oerr, outmtime, outcmdhash)"
| "output_loop b restat i (out # outs) oerr outmtime outcmdhash =
     (case b_targetPath b out of
        None \<Rightarrow> output_loop b restat (i + 1) outs True outmtime outcmdhash
      | Some outPath \<Rightarrow>
          (case b_stat b outPath of
             None \<Rightarrow> output_loop b restat (i + 1) outs True outmtime outcmdhash
           | Some fi \<Rightarrow>
               let h1 = (if i = 0 then fi_cmdHash fi else outcmdhash);
                   h2 = (if h1 \<noteq> fi_cmdHash fi then [] else h1);
                   t = (if restat then fi_updated fi else fi_mtime fi);
                   outmtime' = (if outmtime = 0 then t else if t < outmtime then t else outmtime) in
               output_loop b restat (i + 1) outs oerr outmtime' h2))"

definition outputMtime :: "builder \<Rightarrow> nat list \<Rightarrow> bool \<Rightarrow> nat \<times> bytes" where
  "outputMtime b outputs restat =
     (case output_loop b restat 0 outputs False 0 [] of
        (oerr, outmtime, outcmdhash) \<Rightarrow> (if oerr then 0 else outmtime, outcmdhash))"

subsection \<open>Inputs\<close>

fun input_loop :: "builder \<Rightarrow> bytes list \<Rightarrow> bytes set \<Rightarrow> nat \<Rightarrow> nat \<times> mtime_err option" where
  "input_loop b [] seen inmtime = (inmtime, None)"
| "input_loop b (x # ins) seen inmtime =
     (if x \<in> seen then input_loop b ins seen inmtime
      else case b_phony b x of
        Some ps \<Rightarrow>
          if ps_dirty ps then (inmtime, Some (Dirty x))
          else input_loop b ins (insert x seen) (max inmtime (ps_mtime ps))
      | None \<Rightarrow>
          (case b_stat b x of
             None \<Rightarrow> (inmtime, Some (MissingInput x))
           | Some fi \<Rightarrow>
               let inmtime' = max inmtime (fi_mtime fi) in
               if fi_changed fi then (inmtime', Some (Dirty x))
               else input_loop b ins (insert x seen) inmtime'))"

definition inputMtime :: "builder \<Rightarrow> stepView \<Rightarrow> nat \<times> mtime_err option" where
  "inputMtime b sv =
     (case sv_deps sv of
        Inl err \<Rightarrow> (0, Some (DepsError err))
      | Inr deps \<Rightarrow> input_loop b (sv_trigger sv @ deps) {} 0)"

subsection \<open>The decision\<close>

fun local_outputs :: "builder \<Rightarrow> (bytes \<Rightarrow> bool) \<Rightarrow> nat list \<Rightarrow> bytes set \<Rightarrow> bytes list" where
  "local_outputs b outputLocal [] seen = []"
| "local_outputs b outputLocal (out # outs) seen =
     (case b_targetPath b out of
        None \<Rightarrow> local_outputs b outputLocal outs seen
      | Some p \<Rightarrow>
          if p \<in> seen then local_outputs b outputLocal outs seen
          else if \<not> outputLocal p then local_outputs b outputLocal outs (insert p seen)
          else p # local_outputs b outputLocal outs (insert p seen))"

definition flush_outputs :: "builder \<Rightarrow> stepView \<Rightarrow> nat list \<Rightarrow> bool" where
  "flush_outputs b sv outputs =
     (case b_outputLocal b of
        None \<Rightarrow> True
      | Some outputLocal \<Rightarrow>
          let depFile = sv_depfile sv;
              localOutputs = local_outputs b outputLocal outputs {} @
                (if depFile \<noteq> [] \<and> sv_binding sv ''deps'' \<noteq> ''gcc'' \<and> outputLocal depFile then [depFile] else []) in
          localOutputs = [] \<or> b_flush b localOutputs)"

definition checkUpToDate :: "builder \<Rightarrow> stepView \<Rightarrow> nat list \<Rightarrow> bool" where
  "checkUpToDate b sv outputs =
     (let generator = (sv_binding sv ''generator'' \<noteq> []);
          stepCmdHash = calculateCmdHash (b_sha256 b) (sv_binding sv ''command'') (sv_binding sv ''rspfile_content'') in
      case outputMtime b outputs (sv_binding sv ''restat'' \<noteq> []) of (outmtime, cmdhash) \<Rightarrow>
      (case inputMtime b sv of (inmtime, err) \<Rightarrow>
        if err \<noteq> None then False
        else if outmtime = 0 then False
        else if outmtime < inmtime then False
        else if \<not> generator \<and> cmdhash \<noteq> stepCmdHash then False
        else if b_clobber b then False
        else flush_outputs b sv outputs))"

fun is_dirty :: "mtime_err option \<Rightarrow> bool" where
  "is_dirty (Some (Dirty x)) = True"
| "is_dirty _ = False"

definition store_phony :: "builder \<Rightarrow> bool \<Rightarrow> nat \<Rightarrow> nat \<Rightarrow> builder" where
  "store_phony b dirty mtime out =
     (case b_targetPath b out of
        None \<Rightarrow> b
      | Some p \<Rightarrow> b\<lparr>b_phony := (b_phony b)(p \<mapsto> \<lparr>ps_dirty = dirty, ps_mtime = mtime\<rparr>)\<rparr>)"

definition needToRun :: "builder \<Rightarrow> stepView \<Rightarrow> nat list \<Rightarrow> bool \<times> builder" where
  "needToRun b sv outputs =
     (if sv_phony sv then
        case inputMtime b sv of (mtime, err) \<Rightarrow>
          (False, fold (\<lambda>out b. store_phony b (is_dirty err) mtime out) outputs b)
      else (\<not> checkUpToDate b sv outputs, b))"

subsection \<open>What the loops compute\<close>

text \<open>The state of one input: clean with a time, or not.\<close>

definition input_clean :: "builder \<Rightarrow> bytes \<Rightarrow> nat option" where
  "input_clean b x =
     (case b_phony b x of
        Some ps \<Rightarrow> if ps_dirty ps then None else Some (ps_mtime ps)
      | None \<Rightarrow> (case b_stat b x of None \<Rightarrow> None | Some fi \<Rightarrow> if fi_changed fi then None else Some (fi_mtime fi)))"

lemma input_loop_ok:
  "(\<exists>m. input_loop b ins seen t = (m, None)) \<longleftrightarrow> (\<forall>x \<in> set ins - seen. input_clean b x \<noteq> None)"
proof (induction ins arbitrary: seen t)
  case (Cons x ins)
  show ?case
  proof (cases "x \<in> seen")
    case True
    then have "set (x # ins) - seen = set ins - seen" by auto
    then show ?thesis using Cons True by simp
  next
    case False
    then have s: "set (x # ins) - seen = insert x (set ins - insert x seen)" by auto
    show ?thesis
      unfolding s using Cons [of "insert x seen"] False
      by (auto simp: input_clean_def Let_def split: option.splits if_splits)
  qed
qed simp

lemma input_loop_mtime:
  assumes "input_loop b ins seen t = (m, None)"
  shows "(\<forall>k. m \<le> k \<longleftrightarrow> t \<le> k \<and> (\<forall>x \<in> set ins - seen. the (input_clean b x) \<le> k))"
  using assms
proof (induction ins arbitrary: seen t)
  case (Cons x ins)
  show ?case
  proof (cases "x \<in> seen")
    case True
    then have "set (x # ins) - seen = set ins - seen" by auto
    then show ?thesis using Cons True by simp
  next
    case False
    then have s: "set (x # ins) - seen = insert x (set ins - insert x seen)" by auto
    obtain v where v: "input_clean b x = Some v" "input_loop b ins (insert x seen) (max t v) = (m, None)"
      using Cons.prems False by (auto simp: input_clean_def Let_def split: option.splits if_splits)
    show ?thesis
      unfolding s using Cons.IH [OF v(2)] v(1) by auto
  qed
qed simp

text \<open>The state of one output: its time and command hash, if it is there.\<close>

definition output_info :: "builder \<Rightarrow> bool \<Rightarrow> nat \<Rightarrow> (nat \<times> bytes) option" where
  "output_info b restat out =
     (case b_targetPath b out of None \<Rightarrow> None
      | Some p \<Rightarrow> (case b_stat b p of None \<Rightarrow> None
          | Some fi \<Rightarrow> Some (if restat then fi_updated fi else fi_mtime fi, fi_cmdHash fi)))"

lemma output_loop_err:
  "fst (output_loop b restat i outs e t h) \<longleftrightarrow> e \<or> (\<exists>out \<in> set outs. output_info b restat out = None)"
  by (induction outs arbitrary: i e t h) (auto simp: output_info_def Let_def split: option.splits)

lemma output_loop_step:
  assumes "output_info b restat x = Some (v, g)"
  shows "output_loop b restat i (x # outs) e t h =
    output_loop b restat (i + 1) outs e (if t = 0 then v else min t v)
      (if i = 0 \<or> h = g then g else [])"
proof -
  obtain p fi where p: "b_targetPath b x = Some p" "b_stat b p = Some fi"
    "v = (if restat then fi_updated fi else fi_mtime fi)" "g = fi_cmdHash fi"
    using assms by (auto simp: output_info_def split: option.splits)
  have "(if (if i = 0 then g else h) \<noteq> g then [] else if i = 0 then g else h) = (if i = 0 \<or> h = g then g else [])"
    by simp
  moreover have "(if t = 0 then v else if v < t then v else t) = (if t = 0 then v else min t v)"
    by (simp add: min_def)
  ultimately show ?thesis
    by (simp only: output_loop.simps p(1,2) option.case Let_def p(3) [symmetric] p(4) [symmetric])
qed

lemma output_loop_time:
  assumes "\<forall>out \<in> set outs. \<exists>v h. output_info b restat out = Some (v, h) \<and> 0 < v"
    and "0 < t \<or> outs \<noteq> []"
  shows "\<exists>t' h'. output_loop b restat i outs e t h = (e, t', h') \<and> 0 < t' \<and>
    (\<forall>k. k \<le> t' \<longleftrightarrow> (0 < t \<longrightarrow> k \<le> t) \<and> (\<forall>out \<in> set outs. k \<le> fst (the (output_info b restat out))))"
  using assms
proof (induction outs arbitrary: i t h)
  case (Cons x outs)
  obtain v g where v: "output_info b restat x = Some (v, g)" "0 < v" using Cons.prems by auto
  define t1 where "t1 = (if t = 0 then v else min t v)"
  have t1: "0 < t1" "\<And>k. k \<le> t1 \<longleftrightarrow> (0 < t \<longrightarrow> k \<le> t) \<and> k \<le> v" using v(2) by (auto simp: t1_def)
  show ?case
    using Cons.IH [of t1 "i + 1" "if i = 0 \<or> h = g then g else []"] Cons.prems t1 v(1)
    unfolding output_loop_step [OF v(1)] t1_def [symmetric] by auto
qed auto

lemma output_loop_hash:
  assumes "\<forall>out \<in> set outs. output_info b restat out \<noteq> None" and "H \<noteq> []" and "0 < i"
  shows "snd (snd (output_loop b restat i outs e t h)) = H \<longleftrightarrow>
    h = H \<and> (\<forall>out \<in> set outs. snd (the (output_info b restat out)) = H)"
  using assms(1,3)
proof (induction outs arbitrary: i t h)
  case (Cons x outs)
  obtain v g where v: "output_info b restat x = Some (v, g)" using Cons.prems by auto
  show ?case
    using Cons.IH [of "i + 1" "if t = 0 then v else min t v" "if i = 0 \<or> h = g then g else []"] Cons.prems v assms(2)
    unfolding output_loop_step [OF v] by auto
qed simp

lemma outputMtime_ok:
  assumes "outputs \<noteq> []" and "\<forall>out \<in> set outputs. \<exists>v h. output_info b restat out = Some (v, h) \<and> 0 < v"
    and "outputMtime b outputs restat = (m, cmdhash)"
  shows "0 < m" and "\<And>k. k \<le> m \<longleftrightarrow> (\<forall>out \<in> set outputs. k \<le> fst (the (output_info b restat out)))"
    and "\<And>H. H \<noteq> [] \<Longrightarrow> cmdhash = H \<longleftrightarrow> (\<forall>out \<in> set outputs. snd (the (output_info b restat out)) = H)"
proof -
  obtain t' h' where run: "output_loop b restat 0 outputs False 0 [] = (False, t', h')" "0 < t'"
    "\<forall>k. k \<le> t' \<longleftrightarrow> (\<forall>out \<in> set outputs. k \<le> fst (the (output_info b restat out)))"
    using output_loop_time [of outputs b restat 0 0 False "[]"] assms(1,2) by auto
  have mh: "m = t'" "cmdhash = h'" using assms(3) run(1) by (auto simp: outputMtime_def)
  show "0 < m" using run(2) mh by simp
  show "k \<le> m \<longleftrightarrow> (\<forall>out \<in> set outputs. k \<le> fst (the (output_info b restat out)))" for k
    using run(3) mh by blast
  show "cmdhash = H \<longleftrightarrow> (\<forall>out \<in> set outputs. snd (the (output_info b restat out)) = H)" if H: "H \<noteq> []" for H
  proof -
    obtain x outs where o: "outputs = x # outs" using assms(1) by (cases outputs) auto
    obtain v g where v: "output_info b restat x = Some (v, g)" using assms(2) o by auto
    have rest: "\<forall>out \<in> set outs. output_info b restat out \<noteq> None" using assms(2) o by auto
    have "output_loop b restat 0 outputs False 0 [] = output_loop b restat 1 outs False v g"
      using output_loop_step [OF v, of 0 outs False 0 "[]"] o by (simp del: output_loop.simps)
    then have "h' = snd (snd (output_loop b restat 1 outs False v g))"
      using run(1) by (metis snd_conv)
    then show ?thesis using output_loop_hash [OF rest H, of 1 False v g] v o mh by auto
  qed
qed

lemma outputMtime_missing:
  assumes "outputs = [] \<or> (\<exists>out \<in> set outputs. output_info b restat out = None)"
  shows "fst (outputMtime b outputs restat) = 0"
proof (cases "outputs = []")
  case False
  then have "fst (output_loop b restat 0 outputs False 0 [])" using assms output_loop_err by blast
  then show ?thesis by (auto simp: outputMtime_def split: prod.splits)
qed (simp add: outputMtime_def)

subsection \<open>The decision, declaratively\<close>

definition up_to_date :: "builder \<Rightarrow> stepView \<Rightarrow> nat list \<Rightarrow> bool" where
  "up_to_date b sv outputs \<longleftrightarrow>
     (let info = output_info b (sv_binding sv ''restat'' \<noteq> []) in
      outputs \<noteq> [] \<and> (\<forall>out \<in> set outputs. info out \<noteq> None) \<and>
      (\<exists>deps. sv_deps sv = Inr deps \<and>
         (\<forall>x \<in> set (sv_trigger sv @ deps). input_clean b x \<noteq> None \<and>
            (\<forall>out \<in> set outputs. the (input_clean b x) \<le> fst (the (info out))))) \<and>
      (sv_binding sv ''generator'' \<noteq> [] \<or>
         (\<forall>out \<in> set outputs. snd (the (info out)) =
            calculateCmdHash (b_sha256 b) (sv_binding sv ''command'') (sv_binding sv ''rspfile_content''))) \<and>
      \<not> b_clobber b)"

lemma inputMtime_ok:
  "(\<exists>m. inputMtime b sv = (m, None)) \<longleftrightarrow>
     (\<exists>deps. sv_deps sv = Inr deps \<and> (\<forall>x \<in> set (sv_trigger sv @ deps). input_clean b x \<noteq> None))"
  using input_loop_ok [of b _ "{}" 0] by (cases "sv_deps sv") (auto simp: inputMtime_def)

lemma inputMtime_le:
  assumes "inputMtime b sv = (m, None)" and "sv_deps sv = Inr deps"
  shows "m \<le> k \<longleftrightarrow> (\<forall>x \<in> set (sv_trigger sv @ deps). the (input_clean b x) \<le> k)"
  using input_loop_mtime [of b "sv_trigger sv @ deps" "{}" 0 m] assms by (simp add: inputMtime_def)

lemma checkUpToDate_iff:
  assumes sha: "\<And>x. b_sha256 b x \<noteq> []"
    and pos: "\<forall>out \<in> set outputs. \<forall>v h. output_info b (sv_binding sv ''restat'' \<noteq> []) out = Some (v, h) \<longrightarrow> 0 < v"
  shows "checkUpToDate b sv outputs \<longleftrightarrow> up_to_date b sv outputs \<and> flush_outputs b sv outputs"
proof -
  let ?r = "sv_binding sv ''restat'' \<noteq> []"
  let ?H = "calculateCmdHash (b_sha256 b) (sv_binding sv ''command'') (sv_binding sv ''rspfile_content'')"
  have H: "?H \<noteq> []" using sha by (simp add: calculateCmdHash_def)
  obtain m cmdhash where o: "outputMtime b outputs ?r = (m, cmdhash)" by force
  obtain t err where i: "inputMtime b sv = (t, err)" by force
  have chk: "checkUpToDate b sv outputs \<longleftrightarrow> err = None \<and> m \<noteq> 0 \<and> t \<le> m \<and>
      (sv_binding sv ''generator'' \<noteq> [] \<or> cmdhash = ?H) \<and> \<not> b_clobber b \<and> flush_outputs b sv outputs"
    unfolding checkUpToDate_def Let_def o i prod.case by auto
  show ?thesis
  proof (cases "outputs \<noteq> [] \<and> (\<forall>out \<in> set outputs. output_info b ?r out \<noteq> None)")
    case False
    then have "outputs = [] \<or> (\<exists>out \<in> set outputs. output_info b ?r out = None)" by meson
    then have "fst (outputMtime b outputs ?r) = 0" by (rule outputMtime_missing)
    then have "m = 0" using o by simp
    then show ?thesis using False by (auto simp: chk up_to_date_def Let_def)
  next
    case True
    then have all: "\<forall>out \<in> set outputs. \<exists>v h. output_info b ?r out = Some (v, h) \<and> 0 < v" using pos by fastforce
    note ok = outputMtime_ok [OF _ all o]
    show ?thesis
    proof (cases "err = None \<and> (\<exists>deps. sv_deps sv = Inr deps)")
      case False
      then have "\<not> (\<exists>m. inputMtime b sv = (m, None)) \<or> \<not> (\<exists>deps. sv_deps sv = Inr deps)" using i by auto
      then have "\<not> up_to_date b sv outputs" using inputMtime_ok by (auto simp: up_to_date_def Let_def)
      moreover have "err \<noteq> None" using False i inputMtime_ok [of b sv] by auto
      ultimately show ?thesis by (simp add: chk)
    next
      case t: True
      then obtain deps where deps: "sv_deps sv = Inr deps" by blast
      have clean: "\<forall>x \<in> set (sv_trigger sv @ deps). input_clean b x \<noteq> None"
        using inputMtime_ok [of b sv] i t deps by auto
      have le: "t \<le> m \<longleftrightarrow> (\<forall>x \<in> set (sv_trigger sv @ deps). \<forall>out \<in> set outputs.
          the (input_clean b x) \<le> fst (the (output_info b ?r out)))"
        using inputMtime_le [of b sv t deps m] i t deps ok(2) True by blast
      show ?thesis
        unfolding chk up_to_date_def Let_def using le clean t deps ok(1) ok(3) [OF _ H] True by auto
    qed
  qed
qed

subsection \<open>Phony steps\<close>

lemma b_fields_store [simp]:
  "b_targetPath (store_phony b d t out) = b_targetPath b" "b_stat (store_phony b d t out) = b_stat b"
  by (auto simp: store_phony_def split: option.split)

lemma fold_store_phony:
  "b_targetPath (fold (\<lambda>out b. store_phony b d t out) outs b) = b_targetPath b \<and>
   b_stat (fold (\<lambda>out b. store_phony b d t out) outs b) = b_stat b"
  by (induction outs arbitrary: b) auto

lemma store_phony_keeps:
  "b_phony b p = Some \<lparr>ps_dirty = d, ps_mtime = t\<rparr> \<Longrightarrow>
   b_phony (store_phony b d t out) p = Some \<lparr>ps_dirty = d, ps_mtime = t\<rparr>"
  by (auto simp: store_phony_def split: option.split)

lemma fold_store_phony_keeps:
  "b_phony b p = Some \<lparr>ps_dirty = d, ps_mtime = t\<rparr> \<Longrightarrow>
   b_phony (fold (\<lambda>out b. store_phony b d t out) outs b) p = Some \<lparr>ps_dirty = d, ps_mtime = t\<rparr>"
  by (induction outs arbitrary: b) (auto simp: store_phony_keeps)

lemma fold_store_phony_out:
  assumes "out \<in> set outs" and "b_targetPath b out = Some p"
  shows "b_phony (fold (\<lambda>out b. store_phony b d t out) outs b) p = Some \<lparr>ps_dirty = d, ps_mtime = t\<rparr>"
proof -
  obtain us vs where "outs = us @ out # vs" using split_list [OF assms(1)] by blast
  moreover define c where "c = fold (\<lambda>out b. store_phony b d t out) us b"
  moreover have "b_targetPath c out = Some p" using fold_store_phony [of d t us b] assms(2) by (simp add: c_def)
  then have "b_phony (store_phony c d t out) p = Some \<lparr>ps_dirty = d, ps_mtime = t\<rparr>"
    by (simp add: store_phony_def)
  ultimately show ?thesis by (simp add: fold_store_phony_keeps)
qed

lemma needToRun_phony:
  assumes "sv_phony sv" and "inputMtime b sv = (m, err)" and "out \<in> set outputs" and "b_targetPath b out = Some p"
  shows "fst (needToRun b sv outputs) = False \<and>
    input_clean (snd (needToRun b sv outputs)) p = (if is_dirty err then None else Some m)"
  using fold_store_phony_out [OF assms(3,4)] assms(1,2) by (simp add: needToRun_def input_clean_def)

end
