(* ===== verification/Build_Path.thy ===== *)
theory Build_Path
  imports Filepath
begin

text \<open>
  Path conversion between the working directory and the exec root (\<open>build/path.go\<close>) and the string
  table behind it (\<open>build/symtab.go\<close>). \<open>fp_rel\<close> and
  \<open>fp_isLocal\<close> are Go's \<open>filepath.Rel\<close> and \<open>filepath.IsLocal\<close> for systems whose separator is a
  slash. Both caches are state; the lemmas show that they never change an answer.
\<close>

subsection \<open>Rel and IsLocal\<close>

fun strip_common :: "'a list \<Rightarrow> 'a list \<Rightarrow> 'a list \<times> 'a list" where
  "strip_common (x # xs) (y # ys) = (if x = y then strip_common xs ys else (x # xs, y # ys))"
| "strip_common xs ys = (xs, ys)"

text \<open>The elements of a cleaned path; the root directory has none.\<close>

definition path_elems :: "bytes \<Rightarrow> bytes list" where
  "path_elems q =
     (if isAbs q then (if tl q = [] then [] else split_on CHR ''/'' (tl q)) else split_on CHR ''/'' q)"

definition fp_rel :: "bytes \<Rightarrow> bytes \<Rightarrow> bytes res" where
  "fp_rel basepath targpath =
     (let base = fp_clean basepath; targ = fp_clean targpath in
      if targ = base then Inr ''.''
      else if isAbs base \<noteq> isAbs targ then Inl (Err ''Rel: cannot make relative'')
      else
        case strip_common (if base = ''.'' then [] else path_elems base) (path_elems targ) of
          (bs, ts) \<Rightarrow>
            if bs \<noteq> [] \<and> ts \<noteq> [] \<and> hd bs = ''..'' then Inl (Err ''Rel: cannot make relative'')
            else Inr (join_with ''/'' (replicate (length bs) ''..'' @ ts)))"

definition fp_isLocal :: "bytes \<Rightarrow> bool" where
  "fp_isLocal path \<longleftrightarrow>
     \<not> isAbs path \<and> path \<noteq> [] \<and> fp_clean path \<noteq> ''..'' \<and> \<not> has_prefix (fp_clean path) ''../''"

subsection \<open>The string table\<close>

type_synonym symtab = "bytes \<Rightarrow> bytes option"

definition symtab_Lookup :: "symtab \<Rightarrow> bytes \<Rightarrow> bytes option" where
  "symtab_Lookup m v = m v"

text \<open>\<open>LoadOrStore\<close> of \<open>sync.Map\<close>.\<close>

definition loadOrStore :: "('k \<Rightarrow> 'v option) \<Rightarrow> 'k \<Rightarrow> 'v \<Rightarrow> 'v \<times> ('k \<Rightarrow> 'v option)" where
  "loadOrStore m k v = (case m k of Some w \<Rightarrow> (w, m) | None \<Rightarrow> (v, m(k \<mapsto> v)))"

definition symtab_Intern :: "symtab \<Rightarrow> bytes \<Rightarrow> bytes \<times> symtab" where
  "symtab_Intern m v = loadOrStore m v v"

fun symtab_InternSlice :: "symtab \<Rightarrow> bytes list \<Rightarrow> bytes list \<times> symtab" where
  "symtab_InternSlice m [] = ([], m)"
| "symtab_InternSlice m (v # vs) =
     (case (case m v of Some w \<Rightarrow> (w, m) | None \<Rightarrow> loadOrStore m v v) of
        (w, m1) \<Rightarrow> (case symtab_InternSlice m1 vs of (ws, m2) \<Rightarrow> (w # ws, m2)))"

definition symtab_ok :: "symtab \<Rightarrow> bool" where
  "symtab_ok m \<longleftrightarrow> (\<forall>v w. m v = Some w \<longrightarrow> w = v)"

lemma symtab_Intern_ok: "symtab_ok m \<Longrightarrow> fst (symtab_Intern m v) = v \<and> symtab_ok (snd (symtab_Intern m v))"
  by (auto simp: symtab_ok_def symtab_Intern_def loadOrStore_def split: option.split)

lemma symtab_InternSlice_ok:
  "symtab_ok m \<Longrightarrow> fst (symtab_InternSlice m vs) = vs \<and> symtab_ok (snd (symtab_InternSlice m vs))"
proof (induction vs arbitrary: m)
  case (Cons v vs)
  obtain w m1 where w: "(case m v of Some w \<Rightarrow> (w, m) | None \<Rightarrow> loadOrStore m v v) = (w, m1)" by force
  then have "w = v" "symtab_ok m1"
    using Cons.prems by (auto simp: symtab_ok_def loadOrStore_def split: option.splits if_splits)
  then show ?case using Cons.IH [of m1] w by (auto split: prod.splits)
qed simp

subsection \<open>Path\<close>

record path =
  p_execRoot :: bytes
  p_dir :: bytes
  p_intern :: symtab
  p_m :: "bytes \<Rightarrow> bytes option"

definition newPath :: "bytes \<Rightarrow> bytes \<Rightarrow> path" where
  "newPath execRoot dir = \<lparr>p_execRoot = execRoot, p_dir = dir, p_intern = (\<lambda>_. None), p_m = (\<lambda>_. None)\<rparr>"

definition path_Check :: "path \<Rightarrow> unit res" where
  "path_Check p =
     (if \<not> isAbs (p_execRoot p) then Inl (Err ''exec_root must be absolute path'')
      else if isAbs (p_dir p) then Inl (Err ''dir must be relative to exec_root'')
      else Inr ())"

definition store_path :: "path \<Rightarrow> bytes \<Rightarrow> bytes \<Rightarrow> bytes \<times> path" where
  "store_path p x s =
     (case symtab_Intern (p_intern p) s of (s', it) \<Rightarrow>
        (case loadOrStore (p_m p) x s' of (v, m) \<Rightarrow> (v, p\<lparr>p_intern := it, p_m := m\<rparr>)))"

definition fromWD :: "path \<Rightarrow> bytes \<Rightarrow> bytes res \<times> path" where
  "fromWD p x =
     (if x = [] then (Inr [], p)
      else case p_m p x of
        Some v \<Rightarrow> (Inr v, p)
      | None \<Rightarrow>
          if isAbs x then
            (case fp_rel (p_execRoot p) x of
               Inl err \<Rightarrow> (Inl err, p)
             | Inr rel \<Rightarrow>
                 if \<not> fp_isLocal rel then (Inr x, p)
                 else (case store_path p x rel of (v, p') \<Rightarrow> (Inr v, p')))
          else (case store_path p x (fp_join [p_dir p, x]) of (v, p') \<Rightarrow> (Inr v, p')))"

definition maybeFromWD :: "path \<Rightarrow> bytes \<Rightarrow> bytes \<times> path" where
  "maybeFromWD p x = (case fromWD p x of (Inl _, p') \<Rightarrow> (x, p') | (Inr s, p') \<Rightarrow> (s, p'))"

definition maybeToWD :: "path \<Rightarrow> bytes \<Rightarrow> bytes" where
  "maybeToWD p x =
     (if x = [] then []
      else if isAbs x then x
      else case fp_rel (p_dir p) x of Inl _ \<Rightarrow> x | Inr rel \<Rightarrow> rel)"

definition absFromWD :: "path \<Rightarrow> bytes \<Rightarrow> bytes" where
  "absFromWD p x = (if isAbs x then x else fp_join [p_execRoot p, p_dir p, x])"

text \<open>The search for the exec root; \<open>exists\<close> is \<open>os.Stat\<close> without an error.\<close>

partial_function (option) detectExecRoot :: "(bytes \<Rightarrow> bool) \<Rightarrow> bytes \<Rightarrow> bytes \<Rightarrow> bytes res option" where
  "detectExecRoot exists execRoot crdir =
     (if exists (fp_join [execRoot, crdir]) then Some (Inr execRoot)
      else
        let dir = fp_dir execRoot in
        if dir = execRoot then Some (Inl (Err ''can not detect exec_root''))
        else detectExecRoot exists dir crdir)"

subsection \<open>The cache keeps the answers\<close>

text \<open>What \<open>FromWD\<close> computes without its cache.\<close>

definition from_wd :: "bytes \<Rightarrow> bytes \<Rightarrow> bytes \<Rightarrow> bytes res" where
  "from_wd execRoot dir x =
     (if x = [] then Inr []
      else if isAbs x then
        (case fp_rel execRoot x of
           Inl err \<Rightarrow> Inl err
         | Inr rel \<Rightarrow> if fp_isLocal rel then Inr rel else Inr x)
      else Inr (fp_join [dir, x]))"

definition path_ok :: "path \<Rightarrow> bool" where
  "path_ok p \<longleftrightarrow> symtab_ok (p_intern p) \<and>
     (\<forall>x v. p_m p x = Some v \<longrightarrow> from_wd (p_execRoot p) (p_dir p) x = Inr v)"

lemma path_ok_new: "path_ok (newPath execRoot dir)"
  by (simp add: path_ok_def newPath_def symtab_ok_def)

lemma store_path_ok:
  assumes "path_ok p" and "p_m p x = None" and "from_wd (p_execRoot p) (p_dir p) x = Inr s"
    and "store_path p x s = (v, p')"
  shows "v = s \<and> path_ok p' \<and> p_execRoot p' = p_execRoot p \<and> p_dir p' = p_dir p"
proof -
  obtain s' it where it: "symtab_Intern (p_intern p) s = (s', it)" by force
  then have "s' = s" "symtab_ok it" using symtab_Intern_ok [of "p_intern p" s] assms(1) by (auto simp: path_ok_def)
  then show ?thesis
    using assms it by (auto simp: store_path_def loadOrStore_def path_ok_def split: if_splits)
qed

lemma fromWD_pure:
  assumes "path_ok p"
  shows "fst (fromWD p x) = from_wd (p_execRoot p) (p_dir p) x \<and> path_ok (snd (fromWD p x)) \<and>
    p_execRoot (snd (fromWD p x)) = p_execRoot p \<and> p_dir (snd (fromWD p x)) = p_dir p"
proof (cases "p_m p x")
  case (Some v)
  then have "from_wd (p_execRoot p) (p_dir p) x = Inr v" using assms by (auto simp: path_ok_def)
  then show ?thesis using Some assms by (auto simp: fromWD_def from_wd_def)
next
  case None
  have store: "fst (store_path p x s) = s \<and> path_ok (snd (store_path p x s)) \<and>
      p_execRoot (snd (store_path p x s)) = p_execRoot p \<and> p_dir (snd (store_path p x s)) = p_dir p"
    if "from_wd (p_execRoot p) (p_dir p) x = Inr s" for s
    using store_path_ok [OF assms None that] by (cases "store_path p x s") auto
  show ?thesis
    using None assms store by (auto simp: fromWD_def from_wd_def split: sum.split prod.split)
qed

subsection \<open>There and back\<close>

text \<open>A path below the exec root in normal form: the root itself, or elements without dots.\<close>

definition plain_elem :: "bytes \<Rightarrow> bool" where
  "plain_elem e \<longleftrightarrow> elem_ok e \<and> e \<noteq> ''..''"

definition plain_path :: "bytes \<Rightarrow> bytes list \<Rightarrow> bool" where
  "plain_path p es \<longleftrightarrow> (\<forall>e \<in> set es. plain_elem e) \<and> p = (if es = [] then ''.'' else join_with ''/'' es)"

lemma plain_split:
  assumes "plain_path p es"
  shows "split_on CHR ''/'' p = (if es = [] then [''.''] else es)"
  using assms split_join [of es "CHR ''/''"] by (auto simp: plain_path_def plain_elem_def elem_ok_def)

lemma plain_not_abs: "plain_path p es \<Longrightarrow> \<not> isAbs p \<and> p \<noteq> []"
proof (cases "es = []")
  case False
  assume p: "plain_path p es"
  have "hd es \<noteq> []" "CHR ''/'' \<notin> set (hd es)"
    using p False by (auto simp: plain_path_def plain_elem_def elem_ok_def)
  moreover have "hd p = hd (hd es)" "p \<noteq> []"
    using hd_join [OF False \<open>hd es \<noteq> []\<close>] p False by (auto simp: plain_path_def)
  ultimately show ?thesis using hd_in_set [of "hd es"] unfolding isAbs_def by metis
qed (simp add: plain_path_def isAbs_def)

lemma fold_plain:
  "\<forall>e \<in> set es. plain_elem e \<Longrightarrow> fold (\<lambda>e out. clean_elem r out e) es out = rev es @ out"
  by (induction es arbitrary: out) (auto simp: clean_elem_def plain_elem_def elem_ok_def)

lemma fold_up:
  "\<forall>e \<in> set es. plain_elem e \<Longrightarrow>
   fold (\<lambda>e out. clean_elem r out e) (replicate (length es) ''..'') (rev es @ out) = out"
proof (induction es arbitrary: out rule: rev_induct)
  case (snoc e es)
  then show ?case by (simp add: clean_elem_def plain_elem_def)
qed simp

lemma plain_clean:
  assumes "plain_path p es"
  shows "fp_clean p = p"
proof -
  have "clean_elems False (split_on CHR ''/'' p) = es"
  proof (cases "es = []")
    case True
    then show ?thesis using plain_split [OF assms] by (simp add: clean_elems_def clean_elem_def)
  next
    case False
    then show ?thesis
      using plain_split [OF assms] fold_plain [of es False "[]"] assms by (simp add: clean_elems_def plain_path_def)
  qed
  then have "fp_clean p = (if es = [] then ''.'' else join_with ''/'' es)"
    using plain_not_abs [OF assms] by (simp add: fp_clean_def Let_def)
  then show ?thesis using assms by (simp add: plain_path_def)
qed

lemma strip_common_split:
  "strip_common xs ys = (bs, ts) \<Longrightarrow> \<exists>c. xs = c @ bs \<and> ys = c @ ts"
proof (induction xs ys rule: strip_common.induct)
  case (1 x xs y ys)
  then show ?case by (auto split: if_splits intro: exI [of _ "x # _"])
qed auto

lemma path_elems_plain: "plain_path p es \<Longrightarrow> path_elems p = (if es = [] then [''.''] else es)"
  using plain_split [of p es] plain_not_abs [of p es] by (simp add: path_elems_def)

lemma fp_rel_plain:
  assumes d: "plain_path dir ds" and q: "plain_path q es" and ne: "q \<noteq> dir"
  obtains c bs ts where "ds = c @ bs" "es = c @ ts"
    "fp_rel dir q = Inr (join_with ''/'' (replicate (length bs) ''..'' @ (if es = [] then [''.''] else ts)))"
proof -
  let ?b = "if dir = ''.'' then [] else path_elems dir"
  have b: "?b = ds"
  proof (cases "ds = []")
    case False
    have "dir \<noteq> ''.''"
    proof
      assume "dir = ''.''"
      then have "ds = [''.'']" using plain_split [OF d] False by simp
      then show False using d by (simp add: plain_path_def plain_elem_def elem_ok_def)
    qed
    then show ?thesis using False path_elems_plain [OF d] by simp
  qed (use d in \<open>simp add: plain_path_def\<close>)
  obtain bs ts where st: "strip_common ds (path_elems q) = (bs, ts)" by force
  then obtain c where c: "ds = c @ bs" "path_elems q = c @ ts" using strip_common_split by blast
  have "hd bs \<noteq> ''..''" if "bs \<noteq> []" using d c that by (auto simp: plain_path_def plain_elem_def)
  then have rel: "fp_rel dir q = Inr (join_with ''/'' (replicate (length bs) ''..'' @ ts))"
    using ne plain_clean [OF d] plain_clean [OF q] plain_not_abs [OF d] plain_not_abs [OF q] st b
    by (auto simp: fp_rel_def Let_def)
  show thesis
  proof (cases "es = []")
    case False
    then have "es = c @ ts" using c path_elems_plain [OF q] by simp
    show thesis by (rule that [OF c(1) \<open>es = c @ ts\<close>]) (use rel False in simp)
  next
    case True
    then have "c @ ts = [''.'']" using c path_elems_plain [OF q] by simp
    moreover have "c \<noteq> [''.'']"
    proof
      assume "c = [''.'']"
      moreover have "\<forall>e \<in> set ds. plain_elem e" using d by (simp add: plain_path_def)
      ultimately show False by (simp add: c(1) plain_elem_def elem_ok_def)
    qed
    ultimately have "c = []" "ts = [''.'']" by (auto simp: append_eq_Cons_conv)
    then show thesis using that [of "[]" bs "[]"] c(1) rel True by simp
  qed
qed

lemma join_clean:
  assumes "d \<noteq> []" and "\<not> isAbs d" and "r = join_with ''/'' rs" and "rs \<noteq> []" "\<forall>e \<in> set rs. CHR ''/'' \<notin> set e"
  shows "fp_join [d, r] =
    (let es = clean_elems False (split_on CHR ''/'' d @ rs) in if es = [] then ''.'' else join_with ''/'' es)"
proof -
  have dd: "join_with ''/'' (split_on CHR ''/'' d) = d" by (rule join_split_on)
  have app: "join_with ''/'' (xs @ ys) = join_with ''/'' xs @ ''/'' @ join_with ''/'' ys" if "xs \<noteq> []" "ys \<noteq> []" for xs ys
    using that
  proof (induction xs rule: induct_list012)
    case (2 x)
    then show ?case by (cases ys) auto
  qed auto
  have "d @ ''/'' @ r = join_with ''/'' (split_on CHR ''/'' d @ rs)"
    using app [OF split_on_ne assms(4), of "CHR ''/''" d] dd assms(3) by simp
  moreover have "split_on CHR ''/'' (join_with ''/'' (split_on CHR ''/'' d @ rs)) = split_on CHR ''/'' d @ rs"
    using assms(5) split_on_noSep by (intro split_join) auto
  moreover have "\<not> isAbs (d @ ''/'' @ r)" using assms(1,2) by (simp add: isAbs_def)
  ultimately show ?thesis using assms(1) by (simp add: fp_join_def fp_clean_def Let_def)
qed

lemma to_from_wd:
  assumes p: "p_dir p = dir" and d: "plain_path dir ds" and q: "plain_path q es"
  shows "from_wd (p_execRoot p) dir (maybeToWD p q) = Inr q"
proof (cases "q = dir")
  case True
  then have to: "maybeToWD p q = ''.''" using plain_not_abs [OF q] p by (simp add: maybeToWD_def fp_rel_def)
  have "clean_elems False (split_on CHR ''/'' dir @ [''.'']) = ds"
    using plain_split [OF d] d fold_plain [of ds False "[]"]
    by (auto simp: clean_elems_def clean_elem_def [of _ _ "''.''"] plain_path_def)
  then have "fp_join [dir, ''.''] = dir"
    using join_clean [of dir "''.''" "[''.'']"] plain_not_abs [OF d] d by (simp add: Let_def plain_path_def)
  then show ?thesis using True to by (simp add: from_wd_def isAbs_def)
next
  case False
  obtain c bs ts where s: "ds = c @ bs" "es = c @ ts"
    "fp_rel dir q = Inr (join_with ''/'' (replicate (length bs) ''..'' @ (if es = [] then [''.''] else ts)))"
    by (rule fp_rel_plain [OF d q False])
  let ?rs = "replicate (length bs) ''..'' @ (if es = [] then [''.''] else ts)"
  let ?r = "join_with ''/'' ?rs"
  have to: "maybeToWD p q = ?r" using plain_not_abs [OF q] p s(3) by (simp add: maybeToWD_def)
  have ne: "?rs \<noteq> []"
  proof
    assume "?rs = []"
    then have "ds = es" using s by (auto split: if_splits)
    then show False using False d q by (auto simp: plain_path_def)
  qed
  have els: "\<forall>e \<in> set ?rs. CHR ''/'' \<notin> set e \<and> e \<noteq> []"
  proof -
    have "\<forall>e \<in> set es. plain_elem e" using q by (simp add: plain_path_def)
    then have "\<forall>e \<in> set ts. CHR ''/'' \<notin> set e \<and> e \<noteq> []" by (simp add: s(2) plain_elem_def elem_ok_def)
    then show ?thesis by (simp add: set_replicate_conv_if)
  qed
  have fold: "fold (\<lambda>e out. clean_elem False out e) (c @ bs @ ?rs) [] = rev es"
  proof -
    have pl: "\<forall>e \<in> set c. plain_elem e" "\<forall>e \<in> set bs. plain_elem e" "\<forall>e \<in> set ts. plain_elem e"
      using d q s by (auto simp: plain_path_def)
    have "fold (\<lambda>e out. clean_elem False out e) (c @ bs @ replicate (length bs) ''..'') [] = rev c"
      using fold_plain [OF pl(1)] fold_plain [OF pl(2)] fold_up [OF pl(2)] by simp
    then show ?thesis using fold_plain [OF pl(3)] s(2) by (auto simp: clean_elem_def [of _ _ "''.''"])
  qed
  have dsplit: "fold (\<lambda>e out. clean_elem False out e) (split_on CHR ''/'' dir @ ?rs) [] = rev es"
    using fold plain_split [OF d] s(1) by (auto simp: clean_elem_def [of _ _ "''.''"])
  have "fp_join [dir, ?r] = q"
  proof -
    have "clean_elems False (split_on CHR ''/'' dir @ ?rs) = es" unfolding clean_elems_def dsplit by simp
    then show ?thesis
      using join_clean [OF _ _ refl ne, of dir] plain_not_abs [OF d] els q by (simp add: Let_def plain_path_def)
  qed
  moreover have "?r \<noteq> [] \<and> \<not> isAbs ?r"
  proof -
    have h: "hd ?rs \<noteq> []" "CHR ''/'' \<notin> set (hd ?rs)" using els hd_in_set [OF ne] by blast+
    then show ?thesis using hd_join [OF ne h(1), of "''/''"] hd_in_set [OF h(1)] unfolding isAbs_def by metis
  qed
  ultimately show ?thesis using to by (simp add: from_wd_def)
qed

end
