(* ===== verification/Tool_Props.thy ===== *)
theory Tool_Props
  imports Targets Depfile Mtime_Check Build_Path
begin

text \<open>
  Properties of the routines around the parser and the scheduler: the suggestion for a misspelled
  target, the search for the target of a header file, the dependency file parser, the decision
  whether a step has to run, and the conversion of paths.
\<close>

subsection \<open>Targets\<close>

text \<open>
  C34: The distance routine with its early exit computes the length of a shortest edit script
  (\<open>levenshtein\<close>), and one more than the limit exactly when a positive limit stopped it, in
  which case the distance is above the limit.
\<close>

theorem edit_distance_limit:
  "editDistance s1 s2 maxd = int (levenshtein s1 s2) \<or>
   0 < maxd \<and> maxd < int (levenshtein s1 s2) \<and> editDistance s1 s2 maxd = maxd + 1"
  by (rule editDistance_ok)

text \<open>
  The suggestion for an unknown target is a known path with the smallest edit distance among
  those within three edits; only if there is none, it is a shortest known path that contains the
  target; and only if there is neither, the routine reports an error.
\<close>

theorem spellcheck_nearest:
  assumes "[] \<notin> set (paths_of (gs_nodes s))"
  shows "case spellcheckTarget s t of
      Inr r \<Rightarrow> r \<in> set (paths_of (gs_nodes s)) \<and>
        (if \<exists>p \<in> set (paths_of (gs_nodes s)). levenshtein t p \<le> 3
         then \<forall>p \<in> set (paths_of (gs_nodes s)). levenshtein t r \<le> levenshtein t p
         else str_contains r t \<and>
           (\<forall>p \<in> set (paths_of (gs_nodes s)). str_contains p t \<longrightarrow> length r \<le> length p))
    | Inl _ \<Rightarrow> \<forall>p \<in> set (paths_of (gs_nodes s)). 3 < levenshtein t p \<and> \<not> str_contains p t"
proof -
  let ?P = "set (paths_of (gs_nodes s))"
  obtain sim sub where run: "spell_loop t (gs_nodes s) 4 [] [] = (sim, sub)" by force
  have best: "spell_best t ?P sim" "sub_best t ?P sub"
    using spell_loop_start [OF assms, of t] by (simp_all add: run)
  consider "sim \<noteq> []" | "sim = []" "sub \<noteq> []" | "sim = []" "sub = []" by blast
  then show ?thesis
  proof cases
    case 1
    then have sim: "sim \<in> ?P" "levenshtein t sim \<le> 3" "\<forall>p \<in> ?P. near t p \<longrightarrow> levenshtein t sim \<le> levenshtein t p"
      using best(1) by (auto simp: spell_best_def near_def)
    then have "\<forall>p \<in> ?P. levenshtein t sim \<le> levenshtein t p"
      by (meson le_cases le_trans near_def)
    moreover have "spellcheckTarget s t = Inr sim" using 1 run by (simp add: spellcheckTarget_def)
    ultimately show ?thesis using sim by auto
  next
    case 2
    then have far: "\<forall>p \<in> ?P. \<not> levenshtein t p \<le> 3" using best(1) by (simp add: spell_best_def near_def)
    have "spellcheckTarget s t = Inr sub" using 2 run by (simp add: spellcheckTarget_def)
    then show ?thesis using 2 best(2) far by (simp add: sub_best_def)
  next
    case 3
    then show ?thesis using best run by (simp add: spellcheckTarget_def spell_best_def sub_best_def near_def not_le)
  qed
qed

definition spell_demo :: state where
  "spell_demo = newState\<lparr>gs_nodes := [None, Some \<lparr>nc_ptr = 1, nc_path = ''all''\<rparr>]\<rparr>"

lemma spell_demo_run: "spellcheckTarget spell_demo ''al'' = Inr ''all''"
proof -
  have "editDistance ''al'' ''all'' 3 = 1"
    by (simp add: editDistance_def ed_rows.simps ed_row.simps upt_rec)
  then show ?thesis by (simp add: spellcheckTarget_def spell_demo_def Let_def)
qed

theorem spellcheck_nearest_witness:
  "spellcheckTarget spell_demo ''al'' = Inr ''all'' \<and> ''all'' \<in> set (paths_of (gs_nodes spell_demo))"
proof -
  have paths: "paths_of (gs_nodes spell_demo) = [''all'']" by (simp add: spell_demo_def)
  have "[] \<notin> set (paths_of (gs_nodes spell_demo))" by (simp add: paths)
  from spellcheck_nearest [OF this, of "''al''"] show ?thesis
    using spell_demo_run by simp
qed

text \<open>
  The search for the target of a header file ends on every file system: if a finite set of paths
  contains the target and the candidates of each existing header file in it, then one call more than
  the set has members is enough for a result, whatever the graph and the contents of the files are.
\<close>

theorem hat_target_terminates:
  assumes "finite U" "hat_closed fsys U" "t \<in> U"
  shows "hatTarget (Suc (card U)) hash fsys s t {} \<noteq> None"
  using hatTarget_returns [OF assms, of "{}" "Suc (card U)" hash s] by (auto simp: hat_returns_def)

definition hat_demo :: file_system where
  "hat_demo = \<lparr>os_exists = (\<lambda>p. p = ''a.h''), os_readDir = (\<lambda>p. Some [''a.cc'', ''a.h'']),
     os_readFile = (\<lambda>p. if p = ''a.h'' then Some (include_line ''a.h'') else None)\<rparr>"

definition hat_demo_paths :: "bytes set" where
  "hat_demo_paths = set [''a.h^'', ''a.cc'', ''a_test.cc'', ''a_unittest.cc'', ''a.c'', ''a.cxx'', ''a.cpp'',
     ''a.m'', ''a.mm'', ''a.S'', ''a.h'']"

lemma hat_demo_closed: "hat_closed hat_demo hat_demo_paths"
proof -
  have "hat_candidates ''a.h'' [''a.cc'', ''a.h''] =
      [''a.cc'', ''a_test.cc'', ''a_unittest.cc'', ''a.c'', ''a.cxx'', ''a.cpp'', ''a.m'', ''a.mm'', ''a.S'', ''a.h'']"
    by code_simp
  then show ?thesis by (auto simp: hat_closed_def hat_demo_def hat_demo_paths_def)
qed

theorem hat_target_terminates_witness:
  "hatTarget 12 (\<lambda>_. 0) hat_demo newState ''a.h^'' {} \<noteq> None"
proof -
  have card: "card hat_demo_paths = 11" unfolding hat_demo_paths_def by code_simp
  have "''a.h^'' \<in> hat_demo_paths" "finite hat_demo_paths" by (simp_all add: hat_demo_paths_def)
  moreover have n: "12 = Suc (card hat_demo_paths)" by (simp add: card)
  ultimately show ?thesis unfolding n by (intro hat_target_terminates hat_demo_closed)
qed

subsection \<open>Dependency files\<close>

text \<open>
  C28: Reading a dependency line that was written with escaped spaces gives the written inputs, each
  one once, in the order of their first occurrence.
\<close>

theorem parseDeps_roundtrip:
  assumes "CHR '':'' \<notin> set out" and "trim_space out \<noteq> []" and "\<forall>n \<in> set ns. dep_name n"
  shows "\<exists>ins. parseDeps (dep_line out ns) = Some (Inr ins) \<and> set ins = set ns \<and> distinct ins \<and> subseq ins ns"
  using parseDeps_line [OF assms] subseq_add_unseen [of "[]" ns] by auto

theorem parseDeps_roundtrip_witness:
  "\<exists>ins. parseDeps (dep_line ''a.o'' [''a.c'', ''b c.h'', ''a.c'']) = Some (Inr ins) \<and>
     set ins = set [''a.c'', ''b c.h'', ''a.c''] \<and> distinct ins \<and> subseq ins [''a.c'', ''b c.h'', ''a.c'']"
proof -
  have "trim_space ''a.o'' \<noteq> []" "CHR '':'' \<notin> set ''a.o''" by code_simp+
  moreover have "\<forall>n \<in> set [''a.c'', ''b c.h'', ''a.c'']. dep_name n" by (simp add: dep_name_def)
  ultimately show ?thesis by (intro parseDeps_roundtrip)
qed

text \<open>
  Reading a dependency file ends for every input in which no backslash stands before a lone
  carriage return, and this condition is needed: an input list that reaches one never ends.
\<close>

theorem parseDeps_terminates:
  assumes "stuck s" "CHR '':'' \<notin> set out" "trim_space out \<noteq> []"
  shows "(\<forall>b. continuations_ok b \<longrightarrow> parseDeps b \<noteq> None) \<and> parseDeps (out @ '':'' @ s) = None"
proof -
  have i: "index_byte (out @ CHR '':'' # s) CHR '':'' = Some (length out)"
    unfolding index_byte_def by (rule index_of_append_first) (use assms(2) in auto)
  have "parseDeps (out @ '':'' @ s) = deps_loop True s []"
    unfolding parseDeps_def using assms(3) by (subst deps_loop.simps) (simp add: i)
  then show ?thesis using deps_loop_stuck [OF assms(1)] deps_loop_returns by (auto simp: parseDeps_def)
qed

theorem parseDeps_terminates_witness: "parseDeps (''a.o:'' @ [BSL, CR]) = None"
proof -
  have "trim_space ''a.o'' \<noteq> []" "CHR '':'' \<notin> set ''a.o''" by code_simp+
  moreover have "stuck [BSL, CR]" by (simp add: stuck_def)
  ultimately show ?thesis using parseDeps_terminates [of "[BSL, CR]" "''a.o''"] by simp
qed

subsection \<open>Up-to-date checks\<close>

text \<open>
  C10: A step that is not phony is skipped exactly if it is up to date and its local outputs could be
  written out: it has outputs and all of them exist, no trigger input or dependency is missing, changed in this
  build or newer than any output, every output was made by the same command line (unless the step
  is a generator), and nothing is clobbered. Hashes are never empty and the time stamp of a file
  is never zero.
\<close>

theorem need_to_run_exact:
  assumes "\<not> sv_phony sv" and "\<And>x. b_sha256 b x \<noteq> []"
    and "\<And>out v h. out \<in> set outputs \<Longrightarrow> output_info b (sv_binding sv ''restat'' \<noteq> []) out = Some (v, h) \<Longrightarrow> 0 < v"
  shows "needToRun b sv outputs = (\<not> (up_to_date b sv outputs \<and> flush_outputs b sv outputs), b)"
  using checkUpToDate_iff [of b outputs sv] assms by (auto simp: needToRun_def)

definition mtime_demo :: builder where
  "mtime_demo = \<lparr>b_stat = [''a.o'' \<mapsto> \<lparr>fi_mtime = 7, fi_updated = 7, fi_cmdHash = ''h'', fi_changed = False\<rparr>,
       ''a.c'' \<mapsto> \<lparr>fi_mtime = 5, fi_updated = 5, fi_cmdHash = [], fi_changed = False\<rparr>],
     b_targetPath = [0 \<mapsto> ''a.o''], b_phony = Map.empty, b_clobber = False, b_outputLocal = None,
     b_flush = (\<lambda>_. True), b_sha256 = (\<lambda>_. ''h'')\<rparr>"

definition mtime_demo_step :: stepView where
  "mtime_demo_step = \<lparr>sv_phony = False, sv_binding = (\<lambda>_. []), sv_trigger = [''a.c''], sv_deps = Inr [], sv_depfile = []\<rparr>"

theorem need_to_run_exact_witness: "needToRun mtime_demo mtime_demo_step [0] = (False, mtime_demo)"
proof -
  have "up_to_date mtime_demo mtime_demo_step [0]" "flush_outputs mtime_demo mtime_demo_step [0]"
    by (simp_all add: up_to_date_def mtime_demo_def mtime_demo_step_def output_info_def input_clean_def
        calculateCmdHash_def flush_outputs_def)
  moreover have "needToRun mtime_demo mtime_demo_step [0] =
      (\<not> (up_to_date mtime_demo mtime_demo_step [0] \<and> flush_outputs mtime_demo mtime_demo_step [0]), mtime_demo)"
    by (rule need_to_run_exact)
      (auto simp: mtime_demo_def mtime_demo_step_def output_info_def split: if_splits)
  ultimately show ?thesis by simp
qed

text \<open>
  A phony step never runs, and whoever depends on one of its outputs sees the state of the inputs
  of the phony step: dirty if an input is dirty, otherwise clean with the largest time stamp among
  them.
\<close>

theorem phony_forwards:
  assumes "sv_phony sv" and "inputMtime b sv = (m, err)" and "out \<in> set outputs" and "b_targetPath b out = Some p"
  shows "fst (needToRun b sv outputs) = False \<and>
    input_clean (snd (needToRun b sv outputs)) p = (if is_dirty err then None else Some m) \<and>
    (\<forall>deps. err = None \<longrightarrow> sv_deps sv = Inr deps \<longrightarrow>
      (\<forall>k. m \<le> k \<longleftrightarrow> (\<forall>x \<in> set (sv_trigger sv @ deps). the (input_clean b x) \<le> k)))"
  using needToRun_phony [OF assms] inputMtime_le assms(2) by blast

theorem phony_forwards_witness:
  "input_clean (snd (needToRun mtime_demo (mtime_demo_step\<lparr>sv_phony := True\<rparr>) [0])) ''a.o'' = Some 5"
proof -
  have "inputMtime mtime_demo (mtime_demo_step\<lparr>sv_phony := True\<rparr>) = (5, None)"
    by (simp add: inputMtime_def mtime_demo_def mtime_demo_step_def)
  from phony_forwards [OF _ this, of 0 "[0]" "''a.o''"] show ?thesis
    by (simp add: mtime_demo_def mtime_demo_step_def)
qed

subsection \<open>Paths\<close>

fun fromWD_all :: "path \<Rightarrow> bytes list \<Rightarrow> path" where
  "fromWD_all p [] = p"
| "fromWD_all p (x # xs) = fromWD_all (snd (fromWD p x)) xs"

lemma fromWD_all_ok:
  "path_ok p \<Longrightarrow> path_ok (fromWD_all p xs) \<and> p_execRoot (fromWD_all p xs) = p_execRoot p \<and> p_dir (fromWD_all p xs) = p_dir p"
proof (induction xs arbitrary: p)
  case (Cons x xs)
  show ?case using fromWD_pure [OF Cons.prems, of x] Cons.IH [of "snd (fromWD p x)"] by simp
qed simp

text \<open>
  C29: The caches of the path converter keep their type: from a new converter on, every call returns
  what the computation without caches gives for that argument, so that no sequence of earlier calls
  can change an answer; and a path below the exec root comes back unchanged when it is taken to the
  working directory and back.
\<close>

theorem path_roundtrip_cached:
  assumes "plain_path dir ds" and "plain_path q es"
  shows "fst (fromWD (fromWD_all (newPath execRoot dir) xs) x) = from_wd execRoot dir x \<and>
    fst (fromWD (fromWD_all (newPath execRoot dir) xs) (maybeToWD (newPath execRoot dir) q)) = Inr q"
proof -
  let ?p = "fromWD_all (newPath execRoot dir) xs"
  have "path_ok ?p" "p_execRoot ?p = execRoot" "p_dir ?p = dir"
    using fromWD_all_ok [OF path_ok_new] by (simp_all add: newPath_def)
  then have pure: "fst (fromWD ?p y) = from_wd execRoot dir y" for y using fromWD_pure [of ?p y] by simp
  moreover have "from_wd execRoot dir (maybeToWD (newPath execRoot dir) q) = Inr q"
    using to_from_wd [OF _ assms, of "newPath execRoot dir"] by (simp add: newPath_def)
  ultimately show ?thesis by simp
qed

theorem path_roundtrip_cached_witness:
  "fst (fromWD (fromWD_all (newPath ''/src'' ''out'') [''../a.c'']) (maybeToWD (newPath ''/src'' ''out'') ''a.c'')) = Inr ''a.c''"
  using path_roundtrip_cached [of "''out''" "[''out'']" "''a.c''" "[''a.c'']" "''/src''" "[''../a.c'']" "''a.c''"]
  by (simp add: plain_path_def plain_elem_def elem_ok_def)

end
