(* ===== verification/Digest.thy ===== *)
theory Digest
  imports Go_Base "HOL-Library.AList"
begin

text \<open>
  Content digests and the content addressed store (\<open>reapi/digest/digest.go\<close>,
  \<open>reapi/digest/digest_store.go\<close>). SHA-256 is a parameter. A \<open>Source\<close> is what reading it gives:
  its bytes, or \<open>None\<close> when it cannot be opened or read. A store is a map; its list order stands
  for the order in which Go visits the keys, which is arbitrary.
\<close>

record digest =
  dg_Hash :: bytes
  dg_SizeBytes :: nat

record data =
  da_digest :: digest
  da_source :: "bytes option"

definition zero_digest :: digest where
  "zero_digest = \<lparr>dg_Hash = [], dg_SizeBytes = 0\<rparr>"

definition hex_digit :: "nat \<Rightarrow> char" where
  "hex_digit n = ''0123456789abcdef'' ! n"

definition hex_encode :: "bytes \<Rightarrow> bytes" where
  "hex_encode b = concat (map (\<lambda>c. [hex_digit (of_char c div 16), hex_digit (of_char c mod 16)]) b)"

definition ofBytes :: "(bytes \<Rightarrow> bytes) \<Rightarrow> bytes \<Rightarrow> digest" where
  "ofBytes sha256 b = \<lparr>dg_Hash = hex_encode (sha256 b), dg_SizeBytes = length b\<rparr>"

definition digest_IsZero :: "digest \<Rightarrow> bool" where
  "digest_IsZero d \<longleftrightarrow> dg_Hash d = []"

text \<open>A digest message of the API: \<open>None\<close> is the nil pointer.\<close>

definition digest_Proto :: "digest \<Rightarrow> digest option" where
  "digest_Proto d = (if digest_IsZero d then None else Some d)"

definition digest_FromProto :: "digest option \<Rightarrow> digest" where
  "digest_FromProto d = (case d of None \<Rightarrow> zero_digest | Some x \<Rightarrow> x)"

definition data_IsZero :: "data \<Rightarrow> bool" where
  "data_IsZero d \<longleftrightarrow> digest_IsZero (da_digest d)"

definition zero_data :: data where
  "zero_data = \<lparr>da_digest = zero_digest, da_source = None\<rparr>"

definition data_FromBytes :: "(bytes \<Rightarrow> bytes) \<Rightarrow> bytes \<Rightarrow> data" where
  "data_FromBytes sha256 b = \<lparr>da_digest = ofBytes sha256 b, da_source = Some b\<rparr>"

definition fromProtoMessage :: "(bytes \<Rightarrow> bytes) \<Rightarrow> ('m \<Rightarrow> bytes option) \<Rightarrow> 'm \<Rightarrow> data res" where
  "fromProtoMessage sha256 marshal m =
     (case marshal m of None \<Rightarrow> Inl (Err ''marshal'') | Some b \<Rightarrow> Inr (data_FromBytes sha256 b))"

definition dataToBytes :: "data \<Rightarrow> bytes option" where
  "dataToBytes d = da_source d"

definition data_FromSource :: "(bytes \<Rightarrow> bytes) \<Rightarrow> bytes option \<Rightarrow> data res" where
  "data_FromSource sha256 src =
     (case src of None \<Rightarrow> Inl (Err ''open'') | Some b \<Rightarrow> Inr \<lparr>da_digest = ofBytes sha256 b, da_source = src\<rparr>)"

lemma hex_digit_inj: "a < 16 \<Longrightarrow> b < 16 \<Longrightarrow> hex_digit a = hex_digit b \<Longrightarrow> a = b"
proof -
  have "distinct ''0123456789abcdef''" by simp
  then show "a < 16 \<Longrightarrow> b < 16 \<Longrightarrow> hex_digit a = hex_digit b \<Longrightarrow> a = b"
    unfolding hex_digit_def by (subst (asm) nth_eq_iff_index_eq) auto
qed

lemma hex_encode_inj: "hex_encode a = hex_encode b \<Longrightarrow> a = b"
proof (induction a arbitrary: b)
  case Nil
  then show ?case by (cases b) (simp_all add: hex_encode_def)
next
  case (Cons c a)
  then obtain d e where b: "b = d # e" by (cases b) (simp_all add: hex_encode_def)
  have eq: "hex_digit (of_char c div 16) = hex_digit (of_char d div 16)" "hex_digit (of_char c mod 16) = hex_digit (of_char d mod 16)"
    and rest: "hex_encode a = hex_encode e"
    using Cons.prems b by (simp_all add: hex_encode_def)
  have lt: "of_char x < (256 :: nat)" for x by simp
  have "of_char c div 16 = (of_char d div 16 :: nat)" "of_char c mod 16 = (of_char d mod 16 :: nat)"
    using hex_digit_inj [OF _ _ eq(1)] hex_digit_inj [OF _ _ eq(2)] lt [of c] lt [of d] by (simp_all add: less_mult_imp_div_less)
  then have "of_char c = (of_char d :: nat)" by (metis div_mult_mod_eq)
  then have "c = d" by simp
  then show ?case using Cons.IH [OF rest] b by simp
qed

subsection \<open>The store\<close>

type_synonym digest_store = "(digest \<times> data) list"

definition newStore :: digest_store where
  "newStore = []"

definition store_Set :: "data \<Rightarrow> digest_store \<Rightarrow> digest_store" where
  "store_Set d s = AList.update (da_digest d) d s"

definition store_Get :: "digest_store \<Rightarrow> digest \<Rightarrow> data option" where
  "store_Get s d = map_of s d"

definition store_GetSource :: "digest_store \<Rightarrow> digest \<Rightarrow> bytes option option" where
  "store_GetSource s d = map_option da_source (store_Get s d)"

definition store_Delete :: "digest \<Rightarrow> digest_store \<Rightarrow> digest_store" where
  "store_Delete d s = AList.delete d s"

text \<open>\<open>Size\<close> of a nil store is zero.\<close>

definition store_Size :: "digest_store option \<Rightarrow> nat" where
  "store_Size s = (case s of None \<Rightarrow> 0 | Some m \<Rightarrow> length m)"

definition store_List :: "digest_store \<Rightarrow> digest list" where
  "store_List s = map fst s"

text \<open>
  The contract of a content addressed store: entries are found under their digest, others are not
  touched, and the listing has each stored digest once.
\<close>

locale content_store =
  fixes put :: "data \<Rightarrow> 's \<Rightarrow> 's" and get :: "'s \<Rightarrow> digest \<Rightarrow> data option"
    and remove :: "digest \<Rightarrow> 's \<Rightarrow> 's" and keys :: "'s \<Rightarrow> digest list"
    and ok :: "'s \<Rightarrow> bool"
  assumes put_ok: "ok s \<Longrightarrow> ok (put d s)"
    and remove_ok: "ok s \<Longrightarrow> ok (remove k s)"
    and get_put: "ok s \<Longrightarrow> get (put d s) k = (if k = da_digest d then Some d else get s k)"
    and get_remove: "ok s \<Longrightarrow> get (remove k s) k' = (if k' = k then None else get s k')"
    and get_digest: "ok s \<Longrightarrow> get s k = Some d \<Longrightarrow> da_digest d = k"
    and keys_get: "ok s \<Longrightarrow> k \<in> set (keys s) \<longleftrightarrow> get s k \<noteq> None"
    and keys_distinct: "ok s \<Longrightarrow> distinct (keys s)"
begin

definition copy_all :: "'s \<Rightarrow> 's \<Rightarrow> 's" where
  "copy_all src dst = fold (\<lambda>k s. case get src k of None \<Rightarrow> s | Some d \<Rightarrow> put d s) (keys src) dst"

lemma copy_keys:
  assumes "ok src" "ok dst" "set ks \<subseteq> set (keys src)"
  shows "ok (fold (\<lambda>k s. case get src k of None \<Rightarrow> s | Some d \<Rightarrow> put d s) ks dst) \<and>
    get (fold (\<lambda>k s. case get src k of None \<Rightarrow> s | Some d \<Rightarrow> put d s) ks dst) k =
      (if k \<in> set ks then get src k else get dst k)"
  using assms(2,3)
proof (induction ks arbitrary: dst)
  case (Cons x ks)
  then obtain d where d: "get src x = Some d" "da_digest d = x"
    using keys_get [OF assms(1)] get_digest [OF assms(1)] by fastforce
  show ?case
    using Cons.IH [OF put_ok [OF Cons.prems(1)], of d] Cons.prems d get_put [OF Cons.prems(1), of d k]
    by (auto split: option.split)
qed simp

lemma copy_all_ok:
  assumes "ok src" "ok dst"
  shows "ok (copy_all src dst)"
    and "get (copy_all src dst) k = (case get src k of Some d \<Rightarrow> Some d | None \<Rightarrow> get dst k)"
  using copy_keys [OF assms subset_refl, of k] keys_get [OF assms(1), of k]
  by (auto simp: copy_all_def split: option.split)

end

definition store_ok :: "digest_store \<Rightarrow> bool" where
  "store_ok s \<longleftrightarrow> distinct (map fst s) \<and> (\<forall>(k, d) \<in> set s. da_digest d = k)"

lemma store_Set_entries:
  "(k, x) \<in> set (store_Set d s) \<Longrightarrow> (k, x) = (da_digest d, d) \<or> (k, x) \<in> set s"
proof -
  have "(k, x) \<in> set (AList.update q v s) \<Longrightarrow> (k, x) = (q, v) \<or> (k, x) \<in> set s" for q v
    by (induction s) (auto split: if_splits)
  then show "(k, x) \<in> set (store_Set d s) \<Longrightarrow> (k, x) = (da_digest d, d) \<or> (k, x) \<in> set s"
    unfolding store_Set_def by blast
qed

lemma store_Set_ok: "store_ok s \<Longrightarrow> store_ok (store_Set d s)"
  using store_Set_entries [of _ _ d s] by (fastforce simp: store_ok_def store_Set_def distinct_update)

lemma store_Delete_ok: "store_ok s \<Longrightarrow> store_ok (store_Delete k s)"
  by (auto simp: store_ok_def store_Delete_def distinct_map_filter AList.delete_eq)

interpretation cas: content_store store_Set store_Get store_Delete store_List store_ok
proof unfold_locales
  fix s k d assume "store_ok s" "store_Get s k = Some d"
  then show "da_digest d = k" by (auto simp: store_ok_def store_Get_def dest: map_of_SomeD)
qed (simp_all only: store_Set_ok store_Delete_ok,
    auto simp: store_Get_def store_Set_def store_Delete_def store_List_def store_ok_def
      update_conv' delete_conv' map_of_eq_None_iff)

end
