(* ===== verification/Merkle.thy ===== *)
theory Merkle
  imports Digest Build_Path "HOL-Library.List_Lexorder" "HOL-Library.Char_ord"
begin

text \<open>
  The Merkle tree of an action's inputs (\<open>reapi/merkletree/merkletree.go\<close>, \<open>traverse.go\<close>). The table
  \<open>m\<close> maps a directory name to its message; \<open>Some None\<close> is the nil of a precomputed subtree. The
  code keeps pointers into the table; a \<open>dirstate\<close> holds the key of the directory it points to,
  the empty one for the root. SHA-256 and the protocol buffer encoding are parameters. \<open>Build\<close> and
  \<open>Traverse\<close> recurse through the table and the store and take fuel.
\<close>

record fileNode =
  fn_Name :: bytes
  fn_Digest :: "digest option"
  fn_IsExecutable :: bool

record symlinkNode =
  sn_Name :: bytes
  sn_Target :: bytes

record dirNode =
  dn_Name :: bytes
  dn_Digest :: "digest option"

record directory =
  dir_Files :: "fileNode list"
  dir_Symlinks :: "symlinkNode list"
  dir_Directories :: "dirNode list"

definition empty_dir :: directory where
  "empty_dir = \<lparr>dir_Files = [], dir_Symlinks = [], dir_Directories = []\<rparr>"

record merkleTree =
  mt_m :: "bytes \<Rightarrow> directory option option"
  mt_store :: "digest_store option"

definition merkle_New :: "digest_store option \<Rightarrow> merkleTree" where
  "merkle_New store = \<lparr>mt_m = [[] \<mapsto> Some empty_dir], mt_store = store\<rparr>"

record entry =
  en_Name :: bytes
  en_Data :: data
  en_IsExecutable :: bool
  en_Target :: bytes

definition entry_IsDir :: "entry \<Rightarrow> bool" where
  "entry_IsDir e \<longleftrightarrow> data_IsZero (en_Data e) \<and> en_Target e = []"

definition entry_IsSymlink :: "entry \<Rightarrow> bool" where
  "entry_IsSymlink e \<longleftrightarrow> data_IsZero (en_Data e) \<and> en_Target e \<noteq> []"

definition errAbsPath :: failure where "errAbsPath = Err ''merkletree: absolute path name''"
definition errAmbigFileSymlink :: failure where
  "errAmbigFileSymlink = Err ''merkletree: unable to determine file vs symlink''"
definition errBadPath :: failure where "errBadPath = Err ''merkletree: bad path component''"
definition errBadTree :: failure where "errBadTree = Err ''merkletree: bad tree''"
definition errPrecomputedSubTree :: failure where
  "errPrecomputedSubTree = Err ''merkletree: set in precomputed subtree''"

record dirstate =
  ds_name :: bytes
  ds_dir :: bytes

definition root_state :: dirstate where
  "root_state = \<lparr>ds_name = ''.'', ds_dir = []\<rparr>"

definition splitElem :: "bytes \<Rightarrow> bytes list" where
  "splitElem fname = split_on CHR ''/'' fname"

definition pathJoin :: "bytes \<Rightarrow> bytes \<Rightarrow> bytes" where
  "pathJoin dir base = (if dir = ''.'' \<or> dir = [] then base else dir @ ''/'' @ base)"

text \<open>A change of the directory that a pointer refers to.\<close>

definition upd_dir :: "bytes \<Rightarrow> (directory \<Rightarrow> directory) \<Rightarrow> merkleTree \<Rightarrow> merkleTree" where
  "upd_dir k f t = t\<lparr>mt_m := (mt_m t)(k := map_option (map_option f) (mt_m t k))\<rparr>"

definition add_file :: "fileNode \<Rightarrow> directory \<Rightarrow> directory" where
  "add_file f d = d\<lparr>dir_Files := dir_Files d @ [f]\<rparr>"

definition add_symlink :: "symlinkNode \<Rightarrow> directory \<Rightarrow> directory" where
  "add_symlink s d = d\<lparr>dir_Symlinks := dir_Symlinks d @ [s]\<rparr>"

definition add_dirnode :: "dirNode \<Rightarrow> directory \<Rightarrow> directory" where
  "add_dirnode n d = d\<lparr>dir_Directories := dir_Directories d @ [n]\<rparr>"

definition put_data :: "data \<Rightarrow> merkleTree \<Rightarrow> merkleTree" where
  "put_data d t = t\<lparr>mt_store := map_option (store_Set d) (mt_store t)\<rparr>"

subsection \<open>Set\<close>

definition setDir :: "dirstate \<Rightarrow> bytes \<Rightarrow> merkleTree \<Rightarrow> dirstate res \<times> merkleTree" where
  "setDir cur name t =
     (let dirname = pathJoin (ds_name cur) name in
      case mt_m t dirname of
        None \<Rightarrow>
          (let t1 = upd_dir (ds_dir cur) (add_dirnode \<lparr>dn_Name = name, dn_Digest = None\<rparr>) t in
           (Inr \<lparr>ds_name = dirname, ds_dir = dirname\<rparr>, t1\<lparr>mt_m := (mt_m t1)(dirname \<mapsto> Some empty_dir)\<rparr>))
      | Some None \<Rightarrow> (Inl errPrecomputedSubTree, t)
      | Some (Some _) \<Rightarrow> (Inr \<lparr>ds_name = dirname, ds_dir = dirname\<rparr>, t))"

text \<open>
  The loop over the path elements, which \<open>Set\<close> and \<open>SetTree\<close> share up to what they do with the last
  element: \<open>leaf\<close> gets the current directory, the name and whether the directory stack is empty.
\<close>

type_synonym leaf = "dirstate \<Rightarrow> bytes \<Rightarrow> bool \<Rightarrow> merkleTree \<Rightarrow> unit res \<times> merkleTree"

fun walk :: "leaf \<Rightarrow> bytes list \<Rightarrow> dirstate \<Rightarrow> dirstate list \<Rightarrow> merkleTree \<Rightarrow> unit res \<times> merkleTree" where
  "walk leaf [] cur dirstack t = (Inl (Panic ''index out of range''), t)"
| "walk leaf [name] cur dirstack t = leaf cur name (dirstack = []) t"
| "walk leaf (name # e # elems) cur dirstack t =
     (if name = [] \<or> name = ''.'' then walk leaf (e # elems) cur dirstack t
      else if name = ''..'' then
        (case dirstack of
           [] \<Rightarrow> (Inl errBadPath, t)
         | up # rest \<Rightarrow> walk leaf (e # elems) up rest t)
      else
        case setDir cur name t of
          (Inl err, t1) \<Rightarrow> (Inl err, t1)
        | (Inr cur', t1) \<Rightarrow> walk leaf (e # elems) cur' (cur # dirstack) t1)"

definition set_leaf :: "entry \<Rightarrow> leaf" where
  "set_leaf e cur name at_root t =
     (if data_IsZero (en_Data e) then
        if name = [] then (Inl errBadPath, t)
        else if name = ''.'' then (Inr (), t)
        else if name = ''..'' \<and> at_root then (Inl errBadPath, t)
        else if name = ''..'' then (Inr (), t)
        else if entry_IsSymlink e then
          (Inr (), upd_dir (ds_dir cur) (add_symlink \<lparr>sn_Name = name, sn_Target = en_Target e\<rparr>) t)
        else (case setDir cur name t of (Inl err, t1) \<Rightarrow> (Inl err, t1) | (Inr _, t1) \<Rightarrow> (Inr (), t1))
      else if name = ''.'' \<or> name = ''..'' then (Inl errBadPath, t)
      else
        (Inr (), upd_dir (ds_dir cur)
           (add_file \<lparr>fn_Name = name, fn_Digest = digest_Proto (da_digest (en_Data e)), fn_IsExecutable = en_IsExecutable e\<rparr>)
           (put_data (en_Data e) t)))"

definition bad_root :: "bytes \<Rightarrow> bool" where
  "bad_root fname \<longleftrightarrow> isAbs fname \<or> has_prefix fname ''/'' \<or> has_prefix fname [BSL]"

definition merkle_Set :: "entry \<Rightarrow> merkleTree \<Rightarrow> unit res \<times> merkleTree" where
  "merkle_Set e t =
     (let fname = en_Name e in
      if en_Target e \<noteq> [] \<and> \<not> data_IsZero (en_Data e) then (Inl errAmbigFileSymlink, t)
      else if bad_root fname then (Inl errAbsPath, t)
      else if (entry_IsDir e \<or> en_Target e \<noteq> []) \<and> mt_m t fname \<noteq> None then (Inr (), t)
      else walk (set_leaf e) (splitElem fname) root_state [] t)"

subsection \<open>SetTree\<close>

record treeEntry =
  te_Name :: bytes
  te_Digest :: digest
  te_Store :: "digest_store option"

definition copy_store :: "digest_store \<Rightarrow> digest_store \<Rightarrow> digest_store" where
  "copy_store src dst =
     fold (\<lambda>d s. case store_Get src d of None \<Rightarrow> s | Some x \<Rightarrow> store_Set x s) (store_List src) dst"

definition setTree_leaf :: "treeEntry \<Rightarrow> leaf" where
  "setTree_leaf te cur name at_root t =
     (if name = [] \<or> name = ''.'' \<or> name = ''..'' then (Inl errBadPath, t)
      else
        let dirname = pathJoin (ds_name cur) name;
            t1 = upd_dir (ds_dir cur) (add_dirnode \<lparr>dn_Name = name, dn_Digest = digest_Proto (te_Digest te)\<rparr>) t;
            t2 = (if mt_m t1 dirname = None then t1\<lparr>mt_m := (mt_m t1)(dirname \<mapsto> None)\<rparr> else t1) in
        (Inr (), case te_Store te of
           None \<Rightarrow> t2
         | Some src \<Rightarrow> t2\<lparr>mt_store := map_option (copy_store src) (mt_store t2)\<rparr>))"

definition merkle_SetTree :: "treeEntry \<Rightarrow> merkleTree \<Rightarrow> unit res \<times> merkleTree" where
  "merkle_SetTree te t =
     (let dname = te_Name te in
      if digest_IsZero (te_Digest te) then (Inl errBadTree, t)
      else if bad_root dname then (Inl errAbsPath, t)
      else if mt_m t dname \<noteq> None then (Inl errPrecomputedSubTree, t)
      else walk (setTree_leaf te) (splitElem dname) root_state [] t)"

subsection \<open>Build\<close>

datatype message = FileMsg fileNode | SymlinkMsg symlinkNode | DirMsg dirNode

text \<open>
  The three loops of \<open>buildTree\<close>: messages with a name that was seen before are dropped when they
  are equal to the first one and an error otherwise. A directory behind a symlink is dropped.
\<close>

fun keep_files :: "fileNode list \<Rightarrow> (bytes \<Rightarrow> message option) \<Rightarrow> fileNode list \<Rightarrow>
    ((bytes \<Rightarrow> message option) \<times> fileNode list) res" where
  "keep_files [] names files = Inr (names, files)"
| "keep_files (f # fs) names files =
     (case names (fn_Name f) of
        Some p \<Rightarrow> if p \<noteq> FileMsg f then Inl (Err ''duplicate file'') else keep_files fs names files
      | None \<Rightarrow> keep_files fs (names(fn_Name f \<mapsto> FileMsg f)) (files @ [f]))"

fun keep_symlinks :: "symlinkNode list \<Rightarrow> (bytes \<Rightarrow> message option) \<Rightarrow> symlinkNode list \<Rightarrow>
    ((bytes \<Rightarrow> message option) \<times> symlinkNode list) res" where
  "keep_symlinks [] names symlinks = Inr (names, symlinks)"
| "keep_symlinks (s # ss) names symlinks =
     (case names (sn_Name s) of
        Some p \<Rightarrow> if p \<noteq> SymlinkMsg s then Inl (Err ''duplicate symlink'') else keep_symlinks ss names symlinks
      | None \<Rightarrow> keep_symlinks ss (names(sn_Name s \<mapsto> SymlinkMsg s)) (symlinks @ [s]))"

fun is_symlink_msg :: "message option \<Rightarrow> bool" where
  "is_symlink_msg (Some (SymlinkMsg s)) = True"
| "is_symlink_msg _ = False"

type_synonym build_result = "(digest option \<times> merkleTree) res option"

fun build_dirs :: "(merkleTree \<Rightarrow> bytes \<Rightarrow> build_result) \<Rightarrow> bytes \<Rightarrow> dirNode list \<Rightarrow> (bytes \<Rightarrow> message option) \<Rightarrow>
    dirNode list \<Rightarrow> merkleTree \<Rightarrow> (dirNode list \<times> merkleTree) res option" where
  "build_dirs again dirname [] names dirs t = Some (Inr (dirs, t))"
| "build_dirs again dirname (subdir # subdirs) names dirs t =
     (let path = pathJoin dirname (dn_Name subdir); p = names (dn_Name subdir) in
      case mt_m t path of
        None \<Rightarrow> Some (Inl (Err ''directory not found''))
      | Some dir \<Rightarrow>
          if is_symlink_msg p then build_dirs again dirname subdirs names dirs t
          else
            obind
              (if dir \<noteq> None \<and> dn_Digest subdir = None
               then obind (again t path) (\<lambda>(dg, t1). Some (Inr (subdir\<lparr>dn_Digest := dg\<rparr>, t1)))
               else Some (Inr (subdir, t)))
              (\<lambda>(subdir', t1).
                case p of
                  Some q \<Rightarrow>
                    if q \<noteq> DirMsg subdir' then Some (Inl (Err ''duplicate dir''))
                    else build_dirs again dirname subdirs names dirs t1
                | None \<Rightarrow>
                    build_dirs again dirname subdirs (names(dn_Name subdir \<mapsto> DirMsg subdir')) (dirs @ [subdir']) t1))"

fun buildTree :: "nat \<Rightarrow> (bytes \<Rightarrow> bytes) \<Rightarrow> (directory \<Rightarrow> bytes option) \<Rightarrow> merkleTree \<Rightarrow> bytes \<Rightarrow> build_result" where
  "buildTree 0 sha256 marshal t dirname = None"
| "buildTree (Suc fuel) sha256 marshal t dirname =
     (case mt_m t dirname of
        Some (Some curdir) \<Rightarrow>
          obind (Some (keep_files (dir_Files curdir) Map.empty [])) (\<lambda>(names, files).
          obind (Some (keep_symlinks (dir_Symlinks curdir) names [])) (\<lambda>(names, symlinks).
          obind (build_dirs (buildTree fuel sha256 marshal) dirname (dir_Directories curdir) names [] t) (\<lambda>(dirs, t1).
            let curdir' = \<lparr>dir_Files = sort_key fn_Name files, dir_Symlinks = sort_key sn_Name symlinks,
                           dir_Directories = sort_key dn_Name dirs\<rparr>;
                t2 = t1\<lparr>mt_m := (mt_m t1)(dirname \<mapsto> Some curdir')\<rparr> in
            Some (case fromProtoMessage sha256 marshal curdir' of
              Inl err \<Rightarrow> Inl err
            | Inr data \<Rightarrow> Inr (digest_Proto (da_digest data), put_data data t2)))))
      | _ \<Rightarrow> Some (Inl (Panic ''nil pointer'')))"

definition merkle_Build :: "nat \<Rightarrow> (bytes \<Rightarrow> bytes) \<Rightarrow> (directory \<Rightarrow> bytes option) \<Rightarrow> merkleTree \<Rightarrow>
    (digest \<times> merkleTree) res option" where
  "merkle_Build fuel sha256 marshal t =
     obind (buildTree fuel sha256 marshal t []) (\<lambda>(d, t'). Some (Inr (digest_FromProto d, t')))"

definition rootDirectory :: "merkleTree \<Rightarrow> directory option option" where
  "rootDirectory t = mt_m t []"

subsection \<open>Traverse\<close>

record outputFile =
  of_Path :: bytes
  of_Digest :: "digest option"
  of_IsExecutable :: bool

record outputSymlink =
  os_Path :: bytes
  os_Target :: bytes

record outputDirectory =
  od_Path :: bytes
  od_TreeDigest :: "digest option"

type_synonym traversal = "outputFile list \<times> outputSymlink list \<times> outputDirectory list"

definition readProto :: "(bytes \<Rightarrow> 'm option) \<Rightarrow> data \<Rightarrow> 'm option" where
  "readProto unmarshal d = Option.bind (dataToBytes d) unmarshal"

fun traverse_dirs :: "(bytes \<Rightarrow> directory \<Rightarrow> traversal option) \<Rightarrow> (bytes \<Rightarrow> bytes) \<Rightarrow> (bytes \<Rightarrow> directory option) \<Rightarrow> bytes \<Rightarrow>
    dirNode list \<Rightarrow> digest_store \<Rightarrow> traversal \<Rightarrow> traversal option" where
  "traverse_dirs again sha256 unmarshal base [] ds acc = Some acc"
| "traverse_dirs again sha256 unmarshal base (subd # subds) ds (files, symlinks, dirs) =
     (let subdirname = fp_join [base, dn_Name subd] in
      case Option.bind (store_Get ds (digest_FromProto (dn_Digest subd))) (readProto unmarshal) of
        None \<Rightarrow> traverse_dirs again sha256 unmarshal base subds ds (files, symlinks, dirs)
      | Some subdir \<Rightarrow>
          case again subdirname subdir of
            None \<Rightarrow> None
          | Some (sfiles, ssymlinks, sdirs) \<Rightarrow>
              traverse_dirs again sha256 unmarshal base subds ds
                (files @ sfiles, symlinks @ ssymlinks,
                 dirs @ [\<lparr>od_Path = subdirname, od_TreeDigest = digest_Proto (ofBytes sha256 [])\<rparr>] @ sdirs))"

fun traverse :: "nat \<Rightarrow> (bytes \<Rightarrow> bytes) \<Rightarrow> (bytes \<Rightarrow> directory option) \<Rightarrow> digest_store \<Rightarrow> bytes \<Rightarrow> directory \<Rightarrow> traversal option" where
  "traverse 0 sha256 unmarshal ds base dir = None"
| "traverse (Suc fuel) sha256 unmarshal ds base dir =
     traverse_dirs (traverse fuel sha256 unmarshal ds) sha256 unmarshal base (dir_Directories dir) ds
       (map (\<lambda>f. \<lparr>of_Path = fp_join [base, fn_Name f], of_Digest = fn_Digest f, of_IsExecutable = fn_IsExecutable f\<rparr>) (dir_Files dir),
        map (\<lambda>s. \<lparr>os_Path = fp_join [base, sn_Name s], os_Target = sn_Target s\<rparr>) (dir_Symlinks dir), [])"

end
