(* ===== verification/Merkle_Proofs.thy ===== *)
theory Merkle_Proofs
  imports Merkle
begin

text \<open>
  The invariant of the Merkle tree, that every operation keeps it, and that \<open>Build\<close> returns.
\<close>

subsection \<open>Keys\<close>

definition key_of :: "bytes list \<Rightarrow> bytes" where
  "key_of es = join_with ''/'' es"

definition plain_elems :: "bytes list \<Rightarrow> bool" where
  "plain_elems es \<longleftrightarrow> (\<forall>e \<in> set es. plain_elem e)"

definition key_ok :: "bytes \<Rightarrow> bool" where
  "key_ok k \<longleftrightarrow> (\<exists>es. plain_elems es \<and> k = key_of es)"

lemma plain_elem_ne: "plain_elem e \<Longrightarrow> e \<noteq> [] \<and> e \<noteq> ''.'' \<and> e \<noteq> ''..'' \<and> CHR ''/'' \<notin> set e"
  by (simp add: plain_elem_def elem_ok_def)

lemma plain_elemI: "e \<noteq> [] \<Longrightarrow> e \<noteq> ''.'' \<Longrightarrow> e \<noteq> ''..'' \<Longrightarrow> CHR ''/'' \<notin> set e \<Longrightarrow> plain_elem e"
  by (simp add: plain_elem_def elem_ok_def)

lemma key_of_snoc: "es \<noteq> [] \<Longrightarrow> key_of (es @ [n]) = key_of es @ ''/'' @ n"
proof (induction es rule: induct_list012)
  case (3 x y zs)
  then show ?case by (simp add: key_of_def)
qed (simp_all add: key_of_def)

lemma key_plain_path: "plain_elems es \<Longrightarrow> es \<noteq> [] \<Longrightarrow> plain_path (key_of es) es"
  by (simp add: plain_elems_def plain_path_def key_of_def)

lemma key_of_ne:
  assumes "plain_elems es" "es \<noteq> []"
  shows "key_of es \<noteq> []" "key_of es \<noteq> ''.''" "split_on CHR ''/'' (key_of es) = es"
proof -
  note p = key_plain_path [OF assms]
  show "key_of es \<noteq> []" using plain_not_abs [OF p] by blast
  show sp: "split_on CHR ''/'' (key_of es) = es" using plain_split [OF p] assms(2) by simp
  show "key_of es \<noteq> ''.''"
  proof
    assume "key_of es = ''.''"
    then have "es = [''.'']" using sp by simp
    then show False using assms(1) by (simp add: plain_elems_def plain_elem_def elem_ok_def)
  qed
qed

lemma key_of_Nil [simp]: "key_of [] = []"
  by (simp add: key_of_def)

lemma pathJoin_key: "plain_elems es \<Longrightarrow> pathJoin (key_of es) n = key_of (es @ [n])"
  by (cases "es = []") (simp_all add: pathJoin_def key_of_ne key_of_snoc, simp add: key_of_def)

lemma key_ok_join: "key_ok k \<Longrightarrow> plain_elem n \<Longrightarrow> key_ok (pathJoin k n)"
proof -
  assume "key_ok k" "plain_elem n"
  then obtain es where es: "plain_elems es" "k = key_of es" by (auto simp: key_ok_def)
  then have "plain_elems (es @ [n])" using \<open>plain_elem n\<close> by (simp add: plain_elems_def)
  then show ?thesis using es pathJoin_key unfolding key_ok_def by blast
qed

lemma pathJoin_longer: "plain_elem n \<Longrightarrow> k \<noteq> ''.'' \<Longrightarrow> length k < length (pathJoin k n)"
  using plain_elem_ne by (auto simp: pathJoin_def)

lemma key_ok_not_dot: "key_ok k \<Longrightarrow> k \<noteq> ''.''"
  using key_of_ne(2) by (auto simp: key_ok_def) (metis key_of_Nil list.distinct(1))

lemma key_ok_Nil [simp]: "key_ok []"
  unfolding key_ok_def by (rule exI [of _ "[]"]) (simp add: plain_elems_def)

subsection \<open>The invariant\<close>

definition tree_ok :: "merkleTree \<Rightarrow> bool" where
  "tree_ok t \<longleftrightarrow> finite (dom (mt_m t)) \<and> (\<exists>root. mt_m t [] = Some (Some root)) \<and>
     (\<forall>k. mt_m t k \<noteq> None \<longrightarrow> key_ok k) \<and>
     (\<forall>k dir n. mt_m t k = Some (Some dir) \<longrightarrow> n \<in> set (dir_Directories dir) \<longrightarrow>
        plain_elem (dn_Name n) \<and> mt_m t (pathJoin k (dn_Name n)) \<noteq> None)"

lemma tree_okD:
  assumes "tree_ok t"
  shows "finite (dom (mt_m t))" "\<exists>root. mt_m t [] = Some (Some root)" "mt_m t k \<noteq> None \<Longrightarrow> key_ok k"
    "mt_m t k = Some (Some dir) \<Longrightarrow> n \<in> set (dir_Directories dir) \<Longrightarrow>
      plain_elem (dn_Name n) \<and> mt_m t (pathJoin k (dn_Name n)) \<noteq> None"
  using assms unfolding tree_ok_def by blast+

lemma tree_ok_New: "tree_ok (merkle_New store)"
  by (simp add: tree_ok_def merkle_New_def empty_dir_def)

definition cur_ok :: "merkleTree \<Rightarrow> dirstate \<Rightarrow> bool" where
  "cur_ok t cur \<longleftrightarrow> (\<exists>dir. mt_m t (ds_dir cur) = Some (Some dir)) \<and>
     ds_name cur = (if ds_dir cur = [] then ''.'' else ds_dir cur)"

lemma cur_ok_root: "tree_ok t \<Longrightarrow> cur_ok t root_state"
  using tree_okD(2) by (auto simp: cur_ok_def root_state_def)

lemma cur_join: "cur_ok t cur \<Longrightarrow> pathJoin (ds_name cur) n = pathJoin (ds_dir cur) n"
  by (auto simp: cur_ok_def pathJoin_def)

text \<open>What an operation may do to the table: directories stay, and nothing else is lost.\<close>

definition grows :: "merkleTree \<Rightarrow> merkleTree \<Rightarrow> bool" where
  "grows t t' \<longleftrightarrow> (\<forall>k. mt_m t k \<noteq> None \<longrightarrow> mt_m t' k \<noteq> None) \<and>
     (\<forall>k dir. mt_m t k = Some (Some dir) \<longrightarrow> (\<exists>dir'. mt_m t' k = Some (Some dir')))"

lemma tree_grows_refl [simp]: "grows t t"
  by (simp add: grows_def)

lemma tree_grows_trans: "grows t t' \<Longrightarrow> grows t' t'' \<Longrightarrow> grows t t''"
  unfolding grows_def by metis

lemma cur_ok_grows: "cur_ok t cur \<Longrightarrow> grows t t' \<Longrightarrow> cur_ok t' cur"
  by (auto simp: cur_ok_def grows_def)

lemma mt_m_put [simp]: "mt_m (put_data d t) = mt_m t"
  by (simp add: put_data_def)

lemma tree_ok_cong: "mt_m t' = mt_m t \<Longrightarrow> tree_ok t' = tree_ok t"
  by (simp add: tree_ok_def)

lemma mt_m_upd: "mt_m (upd_dir k f t) k' = (if k' = k then map_option (map_option f) (mt_m t k) else mt_m t k')"
  by (simp add: upd_dir_def)

lemma grows_upd [simp]: "grows t (upd_dir k f t)"
  by (auto simp: grows_def mt_m_upd)

lemma tree_ok_upd:
  assumes ok: "tree_ok t" and f: "\<And>d. dir_Directories (f d) = dir_Directories d"
  shows "tree_ok (upd_dir k f t)"
proof -
  have none: "mt_m (upd_dir k f t) k' = None \<longleftrightarrow> mt_m t k' = None" for k' by (simp add: mt_m_upd)
  then have dom: "dom (mt_m (upd_dir k f t)) = dom (mt_m t)" by (auto simp: dom_def)
  have dirs: "\<exists>dir'. mt_m t k' = Some (Some dir') \<and> dir_Directories dir' = dir_Directories dir"
    if "mt_m (upd_dir k f t) k' = Some (Some dir)" for k' dir
    using that f by (auto simp: mt_m_upd split: if_splits)
  show ?thesis
    unfolding tree_ok_def dom none using tree_okD [OF ok] dirs by (fastforce simp: mt_m_upd)
qed

text \<open>A new directory node together with its entry in the table.\<close>

definition add_child :: "bytes \<Rightarrow> dirNode \<Rightarrow> directory option \<Rightarrow> merkleTree \<Rightarrow> merkleTree" where
  "add_child k n d t =
     (let t1 = upd_dir k (add_dirnode n) t; p = pathJoin k (dn_Name n) in
      if mt_m t1 p = None then t1\<lparr>mt_m := (mt_m t1)(p \<mapsto> d)\<rparr> else t1)"

lemma mt_m_add_child:
  assumes "pathJoin k (dn_Name n) \<noteq> k"
  shows "mt_m (add_child k n d t) q =
    (if q = pathJoin k (dn_Name n) \<and> mt_m t q = None then Some d
     else if q = k then map_option (map_option (add_dirnode n)) (mt_m t k) else mt_m t q)"
  using assms by (auto simp: add_child_def Let_def mt_m_upd)

lemma add_child_ok:
  assumes ok: "tree_ok t" and k: "mt_m t k = Some (Some dir)" and n: "plain_elem (dn_Name n)"
    and d: "\<forall>x. d = Some x \<longrightarrow> dir_Directories x = []"
  shows "tree_ok (add_child k n d t) \<and> grows t (add_child k n d t)"
proof
  let ?p = "pathJoin k (dn_Name n)"
  have kok: "key_ok k" using tree_okD(3) [OF ok] k by simp
  have "length k < length ?p" by (rule pathJoin_longer [OF n key_ok_not_dot [OF kok]])
  then have ne: "?p \<noteq> k" by auto
  note m = mt_m_add_child [OF ne, of d t]
  show "grows t (add_child k n d t)" by (auto simp: grows_def m)
  have dom: "dom (mt_m (add_child k n d t)) = insert ?p (dom (mt_m t))"
    using k by (auto simp: m split: if_splits)
  have root: "\<exists>root. mt_m (add_child k n d t) [] = Some (Some root)"
    using tree_okD(2) [OF ok] by (auto simp: m)
  have keys: "key_ok q" if "mt_m (add_child k n d t) q \<noteq> None" for q
    using that tree_okD(3) [OF ok] key_ok_join [OF kok n] by (auto simp: m split: if_splits)
  have nodes: "plain_elem (dn_Name x) \<and> mt_m (add_child k n d t) (pathJoin q (dn_Name x)) \<noteq> None"
    if q: "mt_m (add_child k n d t) q = Some (Some e)" and x: "x \<in> set (dir_Directories e)" for q e x
  proof -
    consider "q = ?p" "mt_m t q = None" | "q = k" "e = add_dirnode n dir" | "q \<noteq> k" "mt_m t q = Some (Some e)"
      using q k by (auto simp: m split: if_splits)
    then show ?thesis
    proof cases
      case 1
      then show ?thesis using q x d by (auto simp: m)
    next
      case 2
      then have "x = n \<or> x \<in> set (dir_Directories dir)" using x by (auto simp: add_dirnode_def)
      then show ?thesis using 2 n tree_okD(4) [OF ok k] k by (auto simp: m)
    next
      case 3
      then show ?thesis using tree_okD(4) [OF ok _ x] k by (auto simp: m)
    qed
  qed
  show "tree_ok (add_child k n d t)"
    unfolding tree_ok_def dom using tree_okD(1) [OF ok] root keys nodes by blast
qed

subsection \<open>Set and SetTree keep the invariant\<close>

lemma setDir_add_child:
  assumes "cur_ok t cur" and "mt_m t (pathJoin (ds_dir cur) name) = None"
  shows "setDir cur name t =
    (Inr \<lparr>ds_name = pathJoin (ds_dir cur) name, ds_dir = pathJoin (ds_dir cur) name\<rparr>,
     add_child (ds_dir cur) \<lparr>dn_Name = name, dn_Digest = None\<rparr> (Some empty_dir) t)"
proof -
  have ne: "pathJoin (ds_dir cur) name \<noteq> ds_dir cur" using assms by (auto simp: cur_ok_def)
  show ?thesis
    using assms(2) ne by (simp add: setDir_def cur_join [OF assms(1)] add_child_def Let_def mt_m_upd)
qed

lemma setDir_ok:
  assumes ok: "tree_ok t" and cur: "cur_ok t cur" and name: "plain_elem name" and run: "setDir cur name t = (r, t')"
  shows "tree_ok t' \<and> grows t t' \<and> (\<forall>cur'. r = Inr cur' \<longrightarrow> cur_ok t' cur' \<and> ds_dir cur' = pathJoin (ds_dir cur) name)"
proof -
  obtain dir where dir: "mt_m t (ds_dir cur) = Some (Some dir)" using cur by (auto simp: cur_ok_def)
  let ?p = "pathJoin (ds_dir cur) name"
  have ne: "?p \<noteq> []" using name plain_elem_ne by (auto simp: pathJoin_def)
  show ?thesis
  proof (cases "mt_m t ?p")
    case None
    have t': "t' = add_child (ds_dir cur) \<lparr>dn_Name = name, dn_Digest = None\<rparr> (Some empty_dir) t"
      and r: "r = Inr \<lparr>ds_name = ?p, ds_dir = ?p\<rparr>"
      using run setDir_add_child [OF cur None] by simp_all
    have "mt_m t' ?p = Some (Some empty_dir)"
      using None dir unfolding t' by (subst mt_m_add_child) auto
    then have "cur_ok t' \<lparr>ds_name = ?p, ds_dir = ?p\<rparr>" using ne by (simp add: cur_ok_def)
    moreover have "tree_ok t' \<and> grows t t'"
      unfolding t' using add_child_ok [OF ok dir, of "\<lparr>dn_Name = name, dn_Digest = None\<rparr>" "Some empty_dir"] name
      by (simp add: empty_dir_def)
    ultimately show ?thesis using r by simp
  next
    case (Some d)
    then show ?thesis
      using run ok ne by (cases d) (auto simp: setDir_def cur_join [OF cur] cur_ok_def Let_def)
  qed
qed

lemma walk_ok:
  assumes leaf: "\<And>cur name b t. tree_ok t \<Longrightarrow> cur_ok t cur \<Longrightarrow> CHR ''/'' \<notin> set name \<Longrightarrow> tree_ok (snd (leaf cur name b t))"
    and "tree_ok t" "cur_ok t cur" "\<forall>c \<in> set dirstack. cur_ok t c" "\<forall>e \<in> set elems. CHR ''/'' \<notin> set e"
  shows "tree_ok (snd (walk leaf elems cur dirstack t))"
  using assms(2-)
proof (induction elems arbitrary: cur dirstack t rule: induct_list012)
  case (3 name e elems)
  note IH = "3.IH"(2)
  consider "name = [] \<or> name = ''.''" | "name = ''..''" | "plain_elem name"
    using "3.prems"(4) plain_elemI by auto
  then show ?case
  proof cases
    case 1
    then show ?thesis using IH [OF "3.prems"(1-3)] "3.prems"(4) by simp
  next
    case 2
    then show ?thesis using IH "3.prems" by (cases dirstack) auto
  next
    case plain: 3
    obtain r t1 where run: "setDir cur name t = (r, t1)" by force
    note ok = setDir_ok [OF "3.prems"(1,2) plain run]
    then have "\<forall>c \<in> set (cur # dirstack). cur_ok t1 c" using "3.prems"(2,3) cur_ok_grows by auto
    then show ?thesis using plain_elem_ne [OF plain] run ok IH "3.prems"(4) by (cases r) auto
  qed
qed (auto intro: leaf)

lemma set_leaf_ok:
  assumes ok: "tree_ok t" and cur: "cur_ok t cur" and name: "CHR ''/'' \<notin> set name"
  shows "tree_ok (snd (set_leaf e cur name b t))"
proof -
  have files: "tree_ok (upd_dir k (add_file f) (put_data d t))" for k f d
    by (rule tree_ok_upd) (simp_all add: tree_ok_cong [of "put_data d t" t] ok add_file_def)
  have links: "tree_ok (upd_dir k (add_symlink s) t)" for k s
    by (rule tree_ok_upd) (simp_all add: ok add_symlink_def)
  have dirs: "tree_ok (snd (setDir cur name t))" if "name \<noteq> []" "name \<noteq> ''.''" "name \<noteq> ''..''"
    using setDir_ok [OF ok cur plain_elemI [OF that name]] by (cases "setDir cur name t") simp
  show ?thesis
    using ok files links dirs by (auto simp: set_leaf_def split: prod.split sum.split)
qed

lemma setTree_leaf_ok:
  assumes ok: "tree_ok t" and cur: "cur_ok t cur" and name: "CHR ''/'' \<notin> set name"
  shows "tree_ok (snd (setTree_leaf te cur name b t))"
proof (cases "name = [] \<or> name = ''.'' \<or> name = ''..''")
  case False
  then have plain: "plain_elem name" using name by (auto intro: plain_elemI)
  obtain dir where dir: "mt_m t (ds_dir cur) = Some (Some dir)" using cur by (auto simp: cur_ok_def)
  define t2 where "t2 = add_child (ds_dir cur) \<lparr>dn_Name = name, dn_Digest = digest_Proto (te_Digest te)\<rparr> None t"
  have "tree_ok t2" unfolding t2_def using add_child_ok [OF ok dir] plain by simp
  moreover have "mt_m (snd (setTree_leaf te cur name b t)) = mt_m t2"
    using False by (auto simp: setTree_leaf_def cur_join [OF cur] t2_def add_child_def Let_def split: option.split)
  ultimately show ?thesis using tree_ok_cong by blast
qed (use ok in \<open>auto simp: setTree_leaf_def\<close>)

lemma walk_root_ok:
  assumes "tree_ok t" and "\<And>cur name b t. tree_ok t \<Longrightarrow> cur_ok t cur \<Longrightarrow> CHR ''/'' \<notin> set name \<Longrightarrow> tree_ok (snd (leaf cur name b t))"
  shows "tree_ok (snd (walk leaf (splitElem fname) root_state [] t))"
  by (rule walk_ok [OF assms(2) assms(1) cur_ok_root [OF assms(1)]])
    (auto simp: splitElem_def dest: split_on_noSep)

lemma merkle_Set_ok: "tree_ok t \<Longrightarrow> tree_ok (snd (merkle_Set e t))"
  using walk_root_ok [of t "set_leaf e" "en_Name e"] set_leaf_ok by (simp add: merkle_Set_def Let_def)

lemma merkle_SetTree_ok: "tree_ok t \<Longrightarrow> tree_ok (snd (merkle_SetTree te t))"
  using walk_root_ok [of t "setTree_leaf te" "te_Name te"] setTree_leaf_ok by (simp add: merkle_SetTree_def Let_def)

subsection \<open>Build returns\<close>

text \<open>\<open>Build\<close> changes directories in place: the keys and the precomputed subtrees stay.\<close>

definition same_shape :: "merkleTree \<Rightarrow> merkleTree \<Rightarrow> bool" where
  "same_shape t t' \<longleftrightarrow> (\<forall>k. map_option (map_option (\<lambda>_. ())) (mt_m t' k) = map_option (map_option (\<lambda>_. ())) (mt_m t k))"

lemma same_shape_refl [simp]: "same_shape t t"
  by (simp add: same_shape_def)

lemma same_shape_trans: "same_shape t t' \<Longrightarrow> same_shape t' t'' \<Longrightarrow> same_shape t t''"
  by (simp add: same_shape_def)

lemma same_shape_None: "same_shape t t' \<Longrightarrow> mt_m t' k = None \<longleftrightarrow> mt_m t k = None"
  unfolding same_shape_def by (metis option.map_disc_iff)

lemma same_shape_dir: "same_shape t t' \<Longrightarrow> (\<exists>d. mt_m t' k = Some (Some d)) \<longleftrightarrow> (\<exists>d. mt_m t k = Some (Some d))"
proof -
  assume "same_shape t t'"
  then have "map_option (map_option (\<lambda>_. ())) (mt_m t' k) = map_option (map_option (\<lambda>_. ())) (mt_m t k)"
    by (simp add: same_shape_def)
  then show ?thesis by (cases "mt_m t k"; cases "mt_m t' k"; cases "the (mt_m t k)"; cases "the (mt_m t' k)") auto
qed

definition build_error :: "failure \<Rightarrow> bool" where
  "build_error e \<longleftrightarrow> e \<in> {Err ''duplicate file'', Err ''duplicate symlink'', Err ''duplicate dir'', Err ''marshal''}"

lemma keep_files_error: "keep_files fs names files = Inl e \<Longrightarrow> build_error e"
  by (induction fs arbitrary: names files) (auto simp: build_error_def split: option.splits if_splits)

lemma keep_symlinks_error: "keep_symlinks ss names links = Inl e \<Longrightarrow> build_error e"
  by (induction ss arbitrary: names links) (auto simp: build_error_def split: option.splits if_splits)

text \<open>The outcome of a call: an expected error, or a tree of the same shape that is well-formed.\<close>

definition built :: "merkleTree \<Rightarrow> (merkleTree \<Rightarrow> 'b \<Rightarrow> bool) \<Rightarrow> ('b \<times> merkleTree) res option \<Rightarrow> bool" where
  "built t P r \<longleftrightarrow> (\<exists>e. r = Some (Inl e) \<and> build_error e) \<or>
     (\<exists>x t'. r = Some (Inr (x, t')) \<and> tree_ok t' \<and> same_shape t t' \<and> P t' x)"

lemma builtE:
  assumes "built t P r"
  obtains e where "r = Some (Inl e)" "build_error e"
  | x t' where "r = Some (Inr (x, t'))" "tree_ok t'" "same_shape t t'" "P t' x"
  using assms unfolding built_def by blast

lemma built_Inl [simp]: "built t P (Some (Inl e)) \<longleftrightarrow> build_error e"
  by (simp add: built_def)

lemma built_Inr [simp]: "built t P (Some (Inr (x, t'))) \<longleftrightarrow> tree_ok t' \<and> same_shape t t' \<and> P t' x"
  by (simp add: built_def)

lemma built_shape: "built t' P r \<Longrightarrow> same_shape t t' \<Longrightarrow> built t P r"
  unfolding built_def using same_shape_trans by metis

definition nodes_ok :: "merkleTree \<Rightarrow> bytes \<Rightarrow> dirNode list \<Rightarrow> bool" where
  "nodes_ok t k ns \<longleftrightarrow> (\<forall>n \<in> set ns. plain_elem (dn_Name n) \<and> mt_m t (pathJoin k (dn_Name n)) \<noteq> None)"

lemma nodes_ok_shape: "same_shape t t' \<Longrightarrow> nodes_ok t' k ns = nodes_ok t k ns"
  by (simp add: nodes_ok_def same_shape_None)

lemma build_dirs_built:
  assumes again: "\<And>t' n. tree_ok t' \<Longrightarrow> same_shape t t' \<Longrightarrow> n \<in> set subs \<Longrightarrow>
      (\<exists>d. mt_m t' (pathJoin k (dn_Name n)) = Some (Some d)) \<Longrightarrow> built t' (\<lambda>_ _. True) (again t' (pathJoin k (dn_Name n)))"
    and "tree_ok t" "nodes_ok t k subs" "nodes_ok t k dirs"
  shows "built t (\<lambda>t' ns. nodes_ok t' k ns) (build_dirs again k subs names dirs t)"
  using assms
proof (induction subs arbitrary: names dirs t)
  case (Cons n subs)
  let ?p = "pathJoin k (dn_Name n)"
  obtain d where d: "mt_m t ?p = Some d" using Cons.prems(3) by (auto simp: nodes_ok_def)
  have rest: "built t (\<lambda>t' ns. nodes_ok t' k ns) (build_dirs again k subs names' dirs' t')"
    if "tree_ok t'" "same_shape t t'" "nodes_ok t k dirs'" for names' dirs' t'
    by (rule built_shape [OF Cons.IH that(2)])
      (use Cons.prems(1,3) that same_shape_trans [OF that(2)] in \<open>auto simp: nodes_ok_shape [OF that(2)], auto simp: nodes_ok_def\<close>)
  define step where "step = (if d \<noteq> None \<and> dn_Digest n = None
      then obind (again t ?p) (\<lambda>(dg, t1). Some (Inr (n\<lparr>dn_Digest := dg\<rparr>, t1))) else Some (Inr (n, t)))"
  have "built t (\<lambda>_ n'. dn_Name n' = dn_Name n) step"
  proof (cases "d \<noteq> None \<and> dn_Digest n = None")
    case True
    then have "built t (\<lambda>_ _. True) (again t ?p)"
      using Cons.prems(1) [OF Cons.prems(2) same_shape_refl, of n] d by auto
    then show ?thesis using True by (auto simp: step_def elim!: builtE)
  qed (use Cons.prems(2) in \<open>auto simp: step_def\<close>)
  then show ?case
  proof (cases rule: builtE)
    case (1 e)
    show ?thesis
      unfolding build_dirs.simps Let_def d option.case step_def [symmetric] 1(1) obind_simps
      using 1(2) rest [OF Cons.prems(2) same_shape_refl Cons.prems(4)] by simp
  next
    case (2 n' t1)
    have "nodes_ok t k (dirs @ [n'])" using Cons.prems(3,4) 2(4) by (auto simp: nodes_ok_def)
    note r = rest [OF 2(2,3) this] rest [OF 2(2,3) Cons.prems(4)] rest [OF Cons.prems(2) same_shape_refl Cons.prems(4)]
    show ?thesis
      unfolding build_dirs.simps Let_def d option.case step_def [symmetric] 2(1) obind_simps prod.case
      using r by (auto simp: build_error_def split: option.split)
  qed
qed simp

lemma buildTree_built:
  assumes "tree_ok t" "\<forall>k \<in> dom (mt_m t). length k \<le> N" "\<exists>d. mt_m t k = Some (Some d)" "N < fuel + length k"
  shows "built t (\<lambda>_ _. True) (buildTree fuel sha256 marshal t k)"
  using assms
proof (induction fuel arbitrary: t k)
  case 0
  then have "length k \<le> N" by blast
  then show ?case using "0.prems"(4) by simp
next
  case (Suc fuel)
  obtain dir where dir: "mt_m t k = Some (Some dir)" using Suc.prems(3) by blast
  have kdot: "k \<noteq> ''.''" using tree_okD(3) [OF Suc.prems(1), of k] dir key_ok_not_dot by simp
  have nodes: "nodes_ok t k (dir_Directories dir)" using tree_okD(4) [OF Suc.prems(1) dir] by (auto simp: nodes_ok_def)
  have sub: "built t (\<lambda>t' ns. nodes_ok t' k ns) (build_dirs (buildTree fuel sha256 marshal) k (dir_Directories dir) names [] t)" for names
  proof (rule build_dirs_built [OF _ Suc.prems(1) nodes])
    fix t' n assume t': "tree_ok t'" "same_shape t t'" and n: "n \<in> set (dir_Directories dir)"
      and d: "\<exists>d. mt_m t' (pathJoin k (dn_Name n)) = Some (Some d)"
    have "\<forall>q \<in> dom (mt_m t'). length q \<le> N" using Suc.prems(2) same_shape_None [OF t'(2)] by (metis domIff)
    moreover have "N < fuel + length (pathJoin k (dn_Name n))"
      using Suc.prems(4) pathJoin_longer [of "dn_Name n" k] kdot nodes n unfolding nodes_ok_def
      by (metis Suc_leI add_Suc add_Suc_right le_less_trans not_less nat_add_left_cancel_le)
    ultimately show "built t' (\<lambda>_ _. True) (buildTree fuel sha256 marshal t' (pathJoin k (dn_Name n)))"
      using Suc.IH [OF t'(1) _ d] by blast
  qed (simp add: nodes_ok_def)
  show ?case
  proof (cases "keep_files (dir_Files dir) Map.empty []")
    case (Inl e)
    then show ?thesis using dir keep_files_error by auto
  next
    case (Inr nf)
    obtain names files where nf: "nf = (names, files)" by force
    show ?thesis
    proof (cases "keep_symlinks (dir_Symlinks dir) names []")
      case (Inl e)
      then show ?thesis using dir Inr nf keep_symlinks_error by auto
    next
      case inr: (Inr ns)
      obtain names' links where ns: "ns = (names', links)" by force
      from sub [of names'] show ?thesis
      proof (cases rule: builtE)
        case (1 e)
        then show ?thesis using dir Inr nf inr ns by simp
      next
        case (2 dirs t1)
        define c where "c = \<lparr>dir_Files = sort_key fn_Name files, dir_Symlinks = sort_key sn_Name links,
            dir_Directories = sort_key dn_Name dirs\<rparr>"
        define t2 where "t2 = t1\<lparr>mt_m := (mt_m t1)(k \<mapsto> Some c)\<rparr>"
        have shape: "same_shape t1 t2"
          using same_shape_dir [OF 2(3), of k] dir by (auto simp: same_shape_def t2_def)
        have "tree_ok t2"
          unfolding tree_ok_def
        proof (intro conjI allI impI)
          show "finite (dom (mt_m t2))" using tree_okD(1) [OF 2(2)] by (simp add: t2_def)
          show "\<exists>root. mt_m t2 [] = Some (Some root)" using tree_okD(2) [OF 2(2)] by (simp add: t2_def)
          show "key_ok q" if "mt_m t2 q \<noteq> None" for q
            using that same_shape_None [OF shape] tree_okD(3) [OF 2(2)] by metis
          fix q e n assume q: "mt_m t2 q = Some (Some e)" "n \<in> set (dir_Directories e)"
          have "plain_elem (dn_Name n) \<and> mt_m t1 (pathJoin q (dn_Name n)) \<noteq> None"
            using q 2(4) tree_okD(4) [OF 2(2), of q e n] by (auto simp: t2_def c_def nodes_ok_def split: if_splits)
          then show "plain_elem (dn_Name n)" "mt_m t2 (pathJoin q (dn_Name n)) \<noteq> None"
            using same_shape_None [OF shape] by metis+
        qed
        then have "tree_ok (put_data d t2) \<and> same_shape t (put_data d t2)" for d
          using tree_ok_cong [of "put_data d t2" t2] same_shape_trans [OF 2(3) shape] by (simp add: same_shape_def)
        then show ?thesis
          using dir Inr nf inr ns 2(1)
          by (auto simp: Let_def fromProtoMessage_def build_error_def c_def [symmetric] t2_def [symmetric] split: sum.split option.split)
      qed
    qed
  qed
qed

end
