(* ===== verification/Merkle_Content.thy ===== *)
theory Merkle_Content
  imports Merkle_Proofs
begin

text \<open>
  What a built tree holds: the directory under every digest in the store is the sorted and
  duplicate-free form of the directory it was made from, and \<open>Traverse\<close> gives back the files,
  symlinks and directories that were set.
\<close>

subsection \<open>Abstract content\<close>

type_synonym content = "fileNode set \<times> symlinkNode set \<times> bytes set"

definition dir_content :: "directory \<Rightarrow> content" where
  "dir_content d = (set (dir_Files d), set (dir_Symlinks d), dn_Name ` set (dir_Directories d))"

definition tree_content :: "merkleTree \<Rightarrow> bytes \<Rightarrow> content option" where
  "tree_content t k = (case mt_m t k of Some (Some d) \<Rightarrow> Some (dir_content d) | _ \<Rightarrow> None)"

definition canonical :: "directory \<Rightarrow> bool" where
  "canonical d \<longleftrightarrow> sorted (map fn_Name (dir_Files d)) \<and> sorted (map sn_Name (dir_Symlinks d)) \<and>
     sorted (map dn_Name (dir_Directories d)) \<and>
     distinct (map fn_Name (dir_Files d) @ map sn_Name (dir_Symlinks d) @ map dn_Name (dir_Directories d))"

lemma distinct_sort_key: "distinct (map f (sort_key f xs)) \<longleftrightarrow> distinct (map f xs)"
  by (simp add: distinct_map)

text \<open>\<open>represents n ds k g\<close>: the digest \<open>g\<close> leads to the content of \<open>k\<close>, at most \<open>n\<close> levels deep.\<close>

fun represents :: "nat \<Rightarrow> (bytes \<Rightarrow> bytes) \<Rightarrow> (directory \<Rightarrow> bytes option) \<Rightarrow> (bytes \<Rightarrow> content option) \<Rightarrow> digest_store \<Rightarrow> bytes \<Rightarrow> digest \<Rightarrow> bool" where
  "represents 0 sha256 marshal a ds k g = False"
| "represents (Suc n) sha256 marshal a ds k g =
     (\<exists>dir b. marshal dir = Some b \<and> g = ofBytes sha256 b \<and> store_Get ds g = Some (data_FromBytes sha256 b) \<and>
        canonical dir \<and> a k = Some (dir_content dir) \<and>
        (\<forall>x \<in> set (dir_Directories dir). \<exists>g'. dn_Digest x = Some g' \<and>
           represents n sha256 marshal a ds (pathJoin k (dn_Name x)) g'))"

lemma represents_Suc: "represents n sha256 marshal a ds k g \<Longrightarrow> represents (Suc n) sha256 marshal a ds k g"
proof (induction n arbitrary: k g)
  case (Suc n)
  then obtain dir b where d: "marshal dir = Some b" "g = ofBytes sha256 b" "store_Get ds g = Some (data_FromBytes sha256 b)"
      "canonical dir" "a k = Some (dir_content dir)"
      "\<forall>x \<in> set (dir_Directories dir). \<exists>g'. dn_Digest x = Some g' \<and> represents n sha256 marshal a ds (pathJoin k (dn_Name x)) g'"
    by auto
  have "\<forall>x \<in> set (dir_Directories dir). \<exists>g'. dn_Digest x = Some g' \<and> represents (Suc n) sha256 marshal a ds (pathJoin k (dn_Name x)) g'"
    using d(6) Suc.IH by blast
  then show ?case unfolding represents.simps(2) [of "Suc n"] using d(1-5) by blast
qed simp

lemma represents_mono: "represents n sha256 marshal a ds k g \<Longrightarrow> n \<le> m \<Longrightarrow> represents m sha256 marshal a ds k g"
  by (induction m) (auto simp: le_Suc_eq simp del: represents.simps intro: represents_Suc)

text \<open>Storing another directory keeps what a digest represents, as long as hashes do not collide.\<close>

definition no_collision :: "(bytes \<Rightarrow> bytes) \<Rightarrow> bool" where
  "no_collision sha256 \<longleftrightarrow> (\<forall>b b'. ofBytes sha256 b = ofBytes sha256 b' \<longrightarrow> b = b') \<and> (\<forall>b. sha256 b \<noteq> [])"

lemma store_put:
  assumes "no_collision sha256" "store_Get ds (ofBytes sha256 b) = Some (data_FromBytes sha256 b)"
  shows "store_Get (store_Set (data_FromBytes sha256 b') ds) (ofBytes sha256 b) = Some (data_FromBytes sha256 b)"
  using assms by (auto simp: store_Get_def store_Set_def update_conv' data_FromBytes_def no_collision_def)

lemma represents_put:
  assumes "no_collision sha256" "represents n sha256 marshal a ds k g"
  shows "represents n sha256 marshal a (store_Set (data_FromBytes sha256 b') ds) k g"
  using assms(2)
proof (induction n arbitrary: k g)
  case (Suc n)
  then obtain dir b where d: "marshal dir = Some b" "g = ofBytes sha256 b" "store_Get ds g = Some (data_FromBytes sha256 b)"
      "canonical dir" "a k = Some (dir_content dir)"
      "\<forall>x \<in> set (dir_Directories dir). \<exists>g'. dn_Digest x = Some g' \<and> represents n sha256 marshal a ds (pathJoin k (dn_Name x)) g'"
    by auto
  then show ?case
    unfolding represents.simps using store_put [OF assms(1), of ds b b'] Suc.IH by blast
qed simp

subsection \<open>The three loops\<close>

definition names_are :: "(bytes \<Rightarrow> message option) \<Rightarrow> bytes list \<Rightarrow> bool" where
  "names_are names xs \<longleftrightarrow> dom names = set xs \<and> distinct xs"

lemma names_are_add: "names_are names xs \<Longrightarrow> names n = None \<Longrightarrow> names_are (names(n \<mapsto> v)) (xs @ [n])"
  by (auto simp: names_are_def)

lemma keep_files_content:
  assumes "keep_files fs names files = Inr (names', files')"
    and "names_are names (map fn_Name files)" "\<forall>m \<in> ran names. \<exists>f \<in> set files. m = FileMsg f"
  shows "set files' = set files \<union> set fs \<and> names_are names' (map fn_Name files') \<and>
    (\<forall>m \<in> ran names'. \<exists>f \<in> set files'. m = FileMsg f)"
    (is "_ \<and> _ \<and> ?P names'")
  using assms
proof (induction fs arbitrary: names files)
  case (Cons f fs)
  show ?case
  proof (cases "names (fn_Name f)")
    case None
    let ?names = "names(fn_Name f \<mapsto> FileMsg f)"
    have ran: "ran ?names = insert (FileMsg f) (ran names)" using None by (rule ran_map_upd)
    have "keep_files fs ?names (files @ [f]) = Inr (names', files')" using Cons.prems(1) None by simp
    moreover have "names_are ?names (map fn_Name (files @ [f]))" using names_are_add [OF Cons.prems(2) None] by simp
    moreover have "\<forall>m \<in> ran ?names. \<exists>g \<in> set (files @ [f]). m = FileMsg g" unfolding ran using Cons.prems(3) by auto
    ultimately have "set files' = set (files @ [f]) \<union> set fs \<and> names_are names' (map fn_Name files') \<and> ?P names'"
      by (rule Cons.IH)
    then show ?thesis by auto
  next
    case (Some p)
    then have p: "p = FileMsg f" "keep_files fs names files = Inr (names', files')"
      using Cons.prems(1) by (simp_all split: if_splits)
    then have "f \<in> set files" using Cons.prems(3) Some by (auto simp: ran_def)
    then show ?thesis using Cons.IH [OF p(2) Cons.prems(2,3)] by auto
  qed
qed auto

lemma keep_symlinks_content:
  assumes "keep_symlinks ss names links = Inr (names', links')"
    and "names_are names (xs @ map sn_Name links)" "\<forall>s. SymlinkMsg s \<in> ran names \<longrightarrow> s \<in> set links"
  shows "set links' = set links \<union> set ss \<and> names_are names' (xs @ map sn_Name links') \<and>
    (\<forall>s. SymlinkMsg s \<in> ran names' \<longrightarrow> s \<in> set links')"
    (is "_ \<and> _ \<and> ?P names'")
  using assms
proof (induction ss arbitrary: names links)
  case (Cons s ss)
  show ?case
  proof (cases "names (sn_Name s)")
    case None
    let ?names = "names(sn_Name s \<mapsto> SymlinkMsg s)"
    have ran: "ran ?names = insert (SymlinkMsg s) (ran names)" using None by (rule ran_map_upd)
    have "keep_symlinks ss ?names (links @ [s]) = Inr (names', links')" using Cons.prems(1) None by simp
    moreover have "names_are ?names (xs @ map sn_Name (links @ [s]))" using names_are_add [OF Cons.prems(2) None] by simp
    moreover have "\<forall>r. SymlinkMsg r \<in> ran ?names \<longrightarrow> r \<in> set (links @ [s])" unfolding ran using Cons.prems(3) by auto
    ultimately have "set links' = set (links @ [s]) \<union> set ss \<and> names_are names' (xs @ map sn_Name links') \<and> ?P names'"
      by (rule Cons.IH)
    then show ?thesis by auto
  next
    case (Some p)
    then have p: "p = SymlinkMsg s" "keep_symlinks ss names links = Inr (names', links')"
      using Cons.prems(1) by (simp_all split: if_splits)
    then have "s \<in> set links" using Cons.prems(3) Some by (auto simp: ran_def)
    then show ?thesis using Cons.IH [OF p(2) Cons.prems(2,3)] by auto
  qed
qed auto

lemma keep_symlinks_msgs:
  "keep_symlinks ss names links = Inr (names', links') \<Longrightarrow> names' n = Some m \<Longrightarrow>
   names n = Some m \<or> (\<exists>s \<in> set ss. m = SymlinkMsg s \<and> sn_Name s = n)"
proof (induction ss arbitrary: names links)
  case (Cons s ss)
  show ?case
  proof (cases "names (sn_Name s)")
    case None
    then have "keep_symlinks ss (names(sn_Name s \<mapsto> SymlinkMsg s)) (links @ [s]) = Inr (names', links')"
      using Cons.prems(1) by simp
    from Cons.IH [OF this Cons.prems(2)] show ?thesis by (auto split: if_splits)
  next
    case (Some p)
    then have "keep_symlinks ss names links = Inr (names', links')" using Cons.prems(1) by (auto split: if_splits)
    from Cons.IH [OF this Cons.prems(2)] show ?thesis by auto
  qed
qed simp

text \<open>
  The parameters of the encoding, the content and the largest length of a key are fixed during
  \<open>Build\<close>; \<open>stands\<close> says what a digest at a path stands for. The state keeps its content, and digests
  that are set already are right.
\<close>

record build_env =
  be_sha :: "bytes \<Rightarrow> bytes"
  be_marshal :: "directory \<Rightarrow> bytes option"
  be_content :: "bytes \<Rightarrow> content option"
  be_max :: nat

definition stands :: "build_env \<Rightarrow> merkleTree \<Rightarrow> bytes \<Rightarrow> digest \<Rightarrow> bool" where
  "stands E t p g \<longleftrightarrow> represents (Suc (be_max E) - length p) (be_sha E) (be_marshal E) (be_content E) (the (mt_store t)) p g"

definition node_right :: "build_env \<Rightarrow> merkleTree \<Rightarrow> bytes \<Rightarrow> dirNode \<Rightarrow> bool" where
  "node_right E t k x \<longleftrightarrow> (\<exists>g. dn_Digest x = Some g \<and> stands E t (pathJoin k (dn_Name x)) g)"

definition build_inv :: "build_env \<Rightarrow> merkleTree \<Rightarrow> bool" where
  "build_inv E t \<longleftrightarrow> tree_content t = be_content E \<and> (\<forall>k. mt_m t k \<noteq> Some None) \<and> mt_store t \<noteq> None \<and>
     (\<forall>k dir x. mt_m t k = Some (Some dir) \<longrightarrow> x \<in> set (dir_Directories dir) \<longrightarrow> dn_Digest x \<noteq> None \<longrightarrow> node_right E t k x)"

definition later :: "build_env \<Rightarrow> merkleTree \<Rightarrow> merkleTree \<Rightarrow> bool" where
  "later E t t' \<longleftrightarrow> (\<forall>p g. stands E t p g \<longrightarrow> stands E t' p g)"

lemma later_refl [simp]: "later E t t"
  by (simp add: later_def)

lemma later_trans: "later E t t' \<Longrightarrow> later E t' t'' \<Longrightarrow> later E t t''"
  by (simp add: later_def)

lemma node_right_later: "later E t t' \<Longrightarrow> node_right E t k x \<Longrightarrow> node_right E t' k x"
  by (auto simp: node_right_def later_def)

definition build_sound :: "build_env \<Rightarrow> (merkleTree \<Rightarrow> bytes \<Rightarrow> build_result) \<Rightarrow> bool" where
  "build_sound E build \<longleftrightarrow> (\<forall>t p dg t'. build_inv E t \<longrightarrow> build t p = Some (Inr (dg, t')) \<longrightarrow>
     build_inv E t' \<and> later E t t' \<and> (\<exists>g. dg = Some g \<and> stands E t' p g))"

lemma build_dirs_content:
  assumes again: "build_sound E again" and run: "build_dirs again k subs names dirs t = Some (Inr (dirs', t'))"
    and inv: "build_inv E t" and names: "names_are names (xs @ map dn_Name dirs)"
    and msgs: "\<forall>x. DirMsg x \<in> ran names \<longrightarrow> x \<in> set dirs"
    and right: "\<forall>x \<in> set dirs. node_right E t k x"
    and set_right: "\<forall>x \<in> set subs. dn_Digest x \<noteq> None \<longrightarrow> node_right E t k x"
    and clear: "\<forall>x \<in> set subs. \<not> is_symlink_msg (names (dn_Name x))"
  shows "build_inv E t' \<and> later E t t' \<and> (\<forall>x \<in> set dirs'. node_right E t' k x) \<and>
    dn_Name ` set dirs' = dn_Name ` set dirs \<union> dn_Name ` set subs \<and> distinct (xs @ map dn_Name dirs')"
  using run inv names msgs right set_right clear
proof (induction subs arbitrary: names dirs t)
  case Nil
  then show ?case by (auto simp: names_are_def)
next
  case (Cons n subs)
  let ?p = "pathJoin k (dn_Name n)"
  note run = Cons.prems(1) and inv = Cons.prems(2)
  obtain d where d: "mt_m t ?p = Some (Some d)"
    using run inv by (cases "mt_m t ?p"; cases "the (mt_m t ?p)") (auto simp: build_inv_def)
  have clear: "\<not> is_symlink_msg (names (dn_Name n))" using Cons.prems(7) by simp
  obtain n' t1 where step: "(if dn_Digest n = None
       then obind (again t ?p) (\<lambda>(dg, t1). Some (Inr (n\<lparr>dn_Digest := dg\<rparr>, t1))) else Some (Inr (n, t))) = Some (Inr (n', t1))"
    and rest: "(case names (dn_Name n) of
        Some q \<Rightarrow> if q \<noteq> DirMsg n' then Some (Inl (Err ''duplicate dir'')) else build_dirs again k subs names dirs t1
      | None \<Rightarrow> build_dirs again k subs (names(dn_Name n \<mapsto> DirMsg n')) (dirs @ [n']) t1) = Some (Inr (dirs', t'))"
    using run d clear by (auto simp: Let_def obind_eq_Some split: if_splits)
  have "build_inv E t1 \<and> later E t t1 \<and> dn_Name n' = dn_Name n \<and> node_right E t1 k n'"
  proof (cases "dn_Digest n = None")
    case True
    then obtain dg where dg: "again t ?p = Some (Inr (dg, t1))" "n' = n\<lparr>dn_Digest := dg\<rparr>"
      using step by (auto simp: obind_eq_Some)
    then show ?thesis using again inv unfolding build_sound_def node_right_def by fastforce
  next
    case False
    then have "n' = n" "t1 = t" using step by auto
    then show ?thesis using False inv Cons.prems(6) by simp
  qed
  then have n': "build_inv E t1" "later E t t1" "dn_Name n' = dn_Name n" "node_right E t1 k n'" by blast+
  have subs: "\<forall>x \<in> set subs. dn_Digest x \<noteq> None \<longrightarrow> node_right E t1 k x"
    and dirs: "\<forall>x \<in> set dirs. node_right E t1 k x"
    using Cons.prems(5,6) node_right_later [OF n'(2)] by auto
  show ?case
  proof (cases "names (dn_Name n)")
    case None
    let ?names = "names(dn_Name n \<mapsto> DirMsg n')"
    have ran: "ran ?names = insert (DirMsg n') (ran names)" using None by (rule ran_map_upd)
    have run': "build_dirs again k subs ?names (dirs @ [n']) t1 = Some (Inr (dirs', t'))" using rest None by simp
    have "names_are ?names (xs @ map dn_Name (dirs @ [n']))" using names_are_add [OF Cons.prems(3) None] n'(3) by simp
    moreover have "\<forall>x. DirMsg x \<in> ran ?names \<longrightarrow> x \<in> set (dirs @ [n'])" unfolding ran using Cons.prems(4) by auto
    moreover have "\<forall>x \<in> set (dirs @ [n']). node_right E t1 k x" using dirs n'(4) by auto
    moreover note subs
    moreover have "\<forall>x \<in> set subs. \<not> is_symlink_msg (?names (dn_Name x))" using Cons.prems(7) by auto
    ultimately have "build_inv E t' \<and> later E t1 t' \<and> (\<forall>x \<in> set dirs'. node_right E t' k x) \<and>
        dn_Name ` set dirs' = dn_Name ` set (dirs @ [n']) \<union> dn_Name ` set subs \<and> distinct (xs @ map dn_Name dirs')"
      by (rule Cons.IH [OF run' n'(1)])
    then show ?thesis using n'(3) later_trans [OF n'(2)] by (simp del: distinct_append)
  next
    case (Some q)
    then have q: "q = DirMsg n'" "build_dirs again k subs names dirs t1 = Some (Inr (dirs', t'))"
      using rest by (auto split: if_splits)
    then have "n' \<in> set dirs" using Cons.prems(4) Some by (auto simp: ran_def)
    then have "dn_Name n \<in> dn_Name ` set dirs" using n'(3) by (metis imageI)
    moreover have "build_inv E t' \<and> later E t1 t' \<and> (\<forall>x \<in> set dirs'. node_right E t' k x) \<and>
        dn_Name ` set dirs' = dn_Name ` set dirs \<union> dn_Name ` set subs \<and> distinct (xs @ map dn_Name dirs')"
      using Cons.IH [OF q(2) n'(1) Cons.prems(3,4) dirs subs] Cons.prems(7) by (simp del: distinct_append)
    ultimately show ?thesis using later_trans [OF n'(2)] by (simp add: insert_absorb del: distinct_append)
  qed
qed

text \<open>What the environment has to satisfy: no symlink hides a directory, and children have longer keys.\<close>

definition env_ok :: "build_env \<Rightarrow> bool" where
  "env_ok E \<longleftrightarrow> no_collision (be_sha E) \<and>
     (\<forall>k F S D. be_content E k = Some (F, S, D) \<longrightarrow> sn_Name ` S \<inter> D = {} \<and> length k \<le> be_max E \<and>
        (\<forall>n \<in> D. length k < length (pathJoin k n)))"

lemma stands_put: "no_collision (be_sha E) \<Longrightarrow> mt_store t \<noteq> None \<Longrightarrow> later E t (put_data (data_FromBytes (be_sha E) b) t)"
  by (auto simp: later_def stands_def put_data_def intro: represents_put)

lemma tree_content_put [simp]: "tree_content (put_data d t) = tree_content t"
  by (simp add: tree_content_def fun_eq_iff)

lemma tree_content_upd:
  "tree_content (t\<lparr>mt_m := (mt_m t)(k \<mapsto> Some d)\<rparr>) = (tree_content t)(k \<mapsto> dir_content d)"
  by (auto simp: tree_content_def)

lemma digest_Proto_ofBytes: "no_collision sha256 \<Longrightarrow> digest_Proto (ofBytes sha256 b) = Some (ofBytes sha256 b)"
proof -
  assume "no_collision sha256"
  then obtain c cs where "sha256 b = c # cs" unfolding no_collision_def by (meson list.exhaust)
  then show ?thesis by (simp add: digest_Proto_def digest_IsZero_def ofBytes_def hex_encode_def)
qed

text \<open>Putting the finished directory into the table and the store.\<close>

lemma build_finish:
  assumes E: "env_ok E" and inv: "build_inv E t1" and k: "be_content E k = Some (dir_content c)"
    and c: "canonical c" "\<forall>x \<in> set (dir_Directories c). node_right E t1 k x" and b: "be_marshal E c = Some b"
    and t': "t' = put_data (data_FromBytes (be_sha E) b) (t1\<lparr>mt_m := (mt_m t1)(k \<mapsto> Some c)\<rparr>)"
  shows "build_inv E t' \<and> later E t1 t' \<and> stands E t' k (ofBytes (be_sha E) b)"
proof -
  let ?sha = "be_sha E"
  have sha: "no_collision ?sha" and le: "length k \<le> be_max E"
    using E k by (auto simp: env_ok_def dir_content_def)
  have "mt_store (t1\<lparr>mt_m := (mt_m t1)(k \<mapsto> Some c)\<rparr>) \<noteq> None" using inv by (simp add: build_inv_def)
  from stands_put [OF sha this, of b] have later: "later E t1 t'" by (simp add: t' later_def stands_def)
  have cont: "tree_content t' = be_content E"
  proof -
    have "tree_content t' = (tree_content t1)(k \<mapsto> dir_content c)" by (simp add: t' tree_content_upd)
    then show ?thesis using inv k by (auto simp: build_inv_def)
  qed
  have right: "node_right E t' q x"
    if "mt_m t' q = Some (Some dir)" "x \<in> set (dir_Directories dir)" "dn_Digest x \<noteq> None" for q dir x
  proof -
    have "node_right E t1 q x" using that c(2) inv by (auto simp: t' build_inv_def split: if_splits)
    then show ?thesis by (rule node_right_later [OF later])
  qed
  have "\<forall>q. mt_m t' q \<noteq> Some None" "mt_store t' \<noteq> None" using inv by (auto simp: t' build_inv_def put_data_def)
  then have 1: "build_inv E t'" unfolding build_inv_def using cont right by blast
  have kids: "\<exists>g'. dn_Digest x = Some g' \<and> represents (be_max E - length k) ?sha (be_marshal E) (be_content E) (the (mt_store t')) (pathJoin k (dn_Name x)) g'"
    if x: "x \<in> set (dir_Directories c)" for x
  proof -
    have "length k < length (pathJoin k (dn_Name x))"
      using E k x unfolding env_ok_def dir_content_def by blast
    then have "Suc (be_max E) - length (pathJoin k (dn_Name x)) \<le> be_max E - length k" by simp
    moreover have "node_right E t' k x" using c(2) x by (intro node_right_later [OF later]) blast
    ultimately show ?thesis using represents_mono unfolding node_right_def stands_def by blast
  qed
  obtain ds where ds: "mt_store t1 = Some ds" using inv by (auto simp: build_inv_def)
  have "store_Get (the (mt_store t')) (ofBytes ?sha b) = Some (data_FromBytes ?sha b)"
    by (simp add: t' put_data_def ds store_Get_def store_Set_def update_conv' data_FromBytes_def)
  then have "represents (Suc (be_max E - length k)) ?sha (be_marshal E) (be_content E) (the (mt_store t')) k (ofBytes ?sha b)"
    unfolding represents.simps using b c(1) k kids by blast
  then have "stands E t' k (ofBytes ?sha b)" unfolding stands_def using le by (simp add: Suc_diff_le)
  then show ?thesis using 1 later by blast
qed

lemma buildTree_sound:
  assumes E: "env_ok E"
  shows "build_sound E (buildTree fuel (be_sha E) (be_marshal E))"
proof (induction fuel)
  case 0
  then show ?case by (simp add: build_sound_def)
next
  case (Suc fuel)
  have "build_inv E t' \<and> later E t t' \<and> (\<exists>g. dg = Some g \<and> stands E t' k g)"
    if inv: "build_inv E t" and run: "buildTree (Suc fuel) (be_sha E) (be_marshal E) t k = Some (Inr (dg, t'))" for t k dg t'
  proof -
    obtain dir where dir: "mt_m t k = Some (Some dir)" using run by (auto split: option.splits)
    obtain names files where f: "keep_files (dir_Files dir) Map.empty [] = Inr (names, files)"
      using run dir by (auto simp: obind_eq_Some)
    obtain names' links where s: "keep_symlinks (dir_Symlinks dir) names [] = Inr (names', links)"
      using run dir f by (auto simp: obind_eq_Some)
    obtain dirs t1 where d: "build_dirs (buildTree fuel (be_sha E) (be_marshal E)) k (dir_Directories dir) names' [] t = Some (Inr (dirs, t1))"
      using run dir f s by (auto simp: obind_eq_Some)
    define c where "c = \<lparr>dir_Files = sort_key fn_Name files, dir_Symlinks = sort_key sn_Name links,
        dir_Directories = sort_key dn_Name dirs\<rparr>"
    obtain b where b: "be_marshal E c = Some b"
      using run dir f s d by (auto simp: Let_def fromProtoMessage_def c_def split: option.splits)
    have t': "t' = put_data (data_FromBytes (be_sha E) b) (t1\<lparr>mt_m := (mt_m t1)(k \<mapsto> Some c)\<rparr>)"
      and dg: "dg = digest_Proto (ofBytes (be_sha E) b)"
      using run dir f s d b by (auto simp: Let_def fromProtoMessage_def data_FromBytes_def c_def)
    have fc: "set files = set (dir_Files dir)" "names_are names (map fn_Name files)" "\<forall>m \<in> ran names. \<exists>f \<in> set files. m = FileMsg f"
      using keep_files_content [OF f] by (auto simp: names_are_def)
    then have "\<forall>s. SymlinkMsg s \<in> ran names \<longrightarrow> s \<in> set []" by blast
    then have sc: "set links = set (dir_Symlinks dir)" "names_are names' (map fn_Name files @ map sn_Name links)"
        "\<forall>s. SymlinkMsg s \<in> ran names' \<longrightarrow> s \<in> set links"
      using keep_symlinks_content [OF s, of "map fn_Name files"] fc(2) by auto
    have k: "be_content E k = Some (dir_content dir)" proof -
      have "tree_content t k = Some (dir_content dir)" using dir by (simp add: tree_content_def)
      then show ?thesis using inv by (simp add: build_inv_def)
    qed
    have msgs: "(\<exists>f. m = FileMsg f) \<or> (\<exists>s \<in> set (dir_Symlinks dir). m = SymlinkMsg s \<and> sn_Name s = n)"
      if "names' n = Some m" for n m
      using keep_symlinks_msgs [OF s that] fc(3) by (auto simp: ran_def)
    have nodir: "DirMsg x \<notin> ran names'" for x using msgs by (fastforce simp: ran_def)
    have clear: "\<not> is_symlink_msg (names' (dn_Name x))" if x: "x \<in> set (dir_Directories dir)" for x
    proof
      assume "is_symlink_msg (names' (dn_Name x))"
      then obtain s where "names' (dn_Name x) = Some (SymlinkMsg s)" by (auto elim: is_symlink_msg.elims)
      from msgs [OF this] have "dn_Name x \<in> sn_Name ` set (dir_Symlinks dir)" by force
      then show False using E k x unfolding env_ok_def dir_content_def by blast
    qed
    have dc: "build_inv E t1 \<and> later E t t1 \<and> (\<forall>x \<in> set dirs. node_right E t1 k x) \<and>
        dn_Name ` set dirs = dn_Name ` set (dir_Directories dir) \<and>
        distinct ((map fn_Name files @ map sn_Name links) @ map dn_Name dirs)"
    proof -
      have "\<forall>x \<in> set (dir_Directories dir). dn_Digest x \<noteq> None \<longrightarrow> node_right E t k x"
        using inv dir by (simp add: build_inv_def)
      then show ?thesis
        using build_dirs_content [OF Suc.IH d inv, of "map fn_Name files @ map sn_Name links"] sc(2) nodir clear by auto
    qed
    have "canonical c"
    proof -
      have "distinct ((map fn_Name files @ map sn_Name links) @ map dn_Name dirs)" using dc by blast
      then show ?thesis by (simp add: canonical_def c_def distinct_sort_key)
    qed
    moreover have "dir_content c = dir_content dir" using fc(1) sc(1) dc by (simp add: dir_content_def c_def)
    moreover have "\<forall>x \<in> set (dir_Directories c). node_right E t1 k x" using dc by (simp add: c_def)
    ultimately have "build_inv E t' \<and> later E t1 t' \<and> stands E t' k (ofBytes (be_sha E) b)"
      using build_finish [OF E _ _ _ _ b t'] dc k by auto
    then show ?thesis using dc dg later_trans digest_Proto_ofBytes E by (auto simp: env_ok_def)
  qed
  then show ?case unfolding build_sound_def by blast
qed

end
