(* ===== verification/Merkle_Roundtrip.thy ===== *)
theory Merkle_Roundtrip
  imports Merkle_Content
begin

text \<open>
  Reading a stored tree back: \<open>Traverse\<close> gives the content that a digest represents, and the content
  of a tree after a sequence of \<open>Set\<close> calls is what was set.
\<close>

subsection \<open>Everything below a directory\<close>

inductive reach :: "(bytes \<Rightarrow> content option) \<Rightarrow> bytes \<Rightarrow> bytes \<Rightarrow> bool" for a where
  here: "reach a k k"
| below: "a k = Some (F, S, D) \<Longrightarrow> n \<in> D \<Longrightarrow> reach a (pathJoin k n) k' \<Longrightarrow> reach a k k'"

definition file_at :: "bytes \<Rightarrow> fileNode \<Rightarrow> outputFile" where
  "file_at k f = \<lparr>of_Path = pathJoin k (fn_Name f), of_Digest = fn_Digest f, of_IsExecutable = fn_IsExecutable f\<rparr>"

definition link_at :: "bytes \<Rightarrow> symlinkNode \<Rightarrow> outputSymlink" where
  "link_at k s = \<lparr>os_Path = pathJoin k (sn_Name s), os_Target = sn_Target s\<rparr>"

definition files_below :: "(bytes \<Rightarrow> content option) \<Rightarrow> bytes \<Rightarrow> outputFile set" where
  "files_below a k = {file_at k' f | k' F S D f. reach a k k' \<and> a k' = Some (F, S, D) \<and> f \<in> F}"

definition links_below :: "(bytes \<Rightarrow> content option) \<Rightarrow> bytes \<Rightarrow> outputSymlink set" where
  "links_below a k = {link_at k' s | k' F S D s. reach a k k' \<and> a k' = Some (F, S, D) \<and> s \<in> S}"

definition dirs_below :: "(bytes \<Rightarrow> content option) \<Rightarrow> bytes \<Rightarrow> bytes set" where
  "dirs_below a k = {pathJoin k' n | k' F S D n. reach a k k' \<and> a k' = Some (F, S, D) \<and> n \<in> D}"

inductive_cases reachE: "reach a k k'"

lemma below_step:
  assumes "a k = Some (F, S, D)"
  shows "files_below a k = file_at k ` F \<union> (\<Union>n \<in> D. files_below a (pathJoin k n))"
    and "links_below a k = link_at k ` S \<union> (\<Union>n \<in> D. links_below a (pathJoin k n))"
    and "dirs_below a k = (\<Union>n \<in> D. insert (pathJoin k n) (dirs_below a (pathJoin k n)))"
proof -
  have split: "reach a k k' \<longleftrightarrow> k' = k \<or> (\<exists>n \<in> D. reach a (pathJoin k n) k')" for k'
    using assms by (auto intro: reach.intros elim: reachE)
  show "files_below a k = file_at k ` F \<union> (\<Union>n \<in> D. files_below a (pathJoin k n))"
    unfolding files_below_def split using assms by (auto; blast)
  show "links_below a k = link_at k ` S \<union> (\<Union>n \<in> D. links_below a (pathJoin k n))"
    unfolding links_below_def split using assms by (auto; blast)
  show "dirs_below a k = (\<Union>n \<in> D. insert (pathJoin k n) (dirs_below a (pathJoin k n)))"
    unfolding dirs_below_def split using assms by (auto; blast)
qed

subsection \<open>Traverse\<close>

definition content_plain :: "(bytes \<Rightarrow> content option) \<Rightarrow> bool" where
  "content_plain a \<longleftrightarrow> (\<forall>k F S D. a k = Some (F, S, D) \<longrightarrow> key_ok k \<and> (\<forall>f \<in> F. plain_elem (fn_Name f)) \<and>
     (\<forall>s \<in> S. plain_elem (sn_Name s)) \<and> (\<forall>n \<in> D. plain_elem n))"

lemma fp_join_key: "key_ok k \<Longrightarrow> plain_elem n \<Longrightarrow> fp_join [k, n] = pathJoin k n"
proof -
  assume k: "key_ok k" and n: "plain_elem n"
  obtain es where es: "plain_elems es" "k = key_of es" using k by (auto simp: key_ok_def)
  have "plain_elems (es @ [n])" using es n by (simp add: plain_elems_def)
  then have "plain_path (key_of (es @ [n])) (es @ [n])" by (rule key_plain_path) simp
  then have "fp_clean (pathJoin k n) = pathJoin k n" using plain_clean pathJoin_key [OF es(1)] es(2) by simp
  moreover have "n \<noteq> []" using plain_elem_ne [OF n] by blast
  moreover have "k \<noteq> ''.''" by (rule key_ok_not_dot [OF k])
  ultimately show ?thesis by (auto simp: fp_join_def pathJoin_def)
qed

definition decodes :: "(directory \<Rightarrow> bytes option) \<Rightarrow> (bytes \<Rightarrow> directory option) \<Rightarrow> bool" where
  "decodes marshal unmarshal \<longleftrightarrow> (\<forall>d b. marshal d = Some b \<longrightarrow> unmarshal b = Some d)"

definition reads :: "(bytes \<Rightarrow> directory option) \<Rightarrow> digest_store \<Rightarrow> digest \<Rightarrow> directory option" where
  "reads unmarshal ds g = Option.bind (store_Get ds g) (readProto unmarshal)"

definition traversal_is :: "(bytes \<Rightarrow> bytes) \<Rightarrow> (bytes \<Rightarrow> content option) \<Rightarrow> bytes \<Rightarrow> traversal option \<Rightarrow> bool" where
  "traversal_is sha256 a k r \<longleftrightarrow> (\<exists>files links dirs. r = Some (files, links, dirs) \<and>
     set files = files_below a k \<and> set links = links_below a k \<and> od_Path ` set dirs = dirs_below a k)"

lemma traverse_dirs_content:
  assumes sub: "\<And>x. x \<in> set subs \<Longrightarrow> fp_join [k, dn_Name x] = pathJoin k (dn_Name x) \<and>
      (\<exists>dir. reads unmarshal ds (digest_FromProto (dn_Digest x)) = Some dir \<and>
        traversal_is sha256 a (pathJoin k (dn_Name x)) (again (pathJoin k (dn_Name x)) dir))"
  shows "\<exists>files' links' dirs'. traverse_dirs again sha256 unmarshal k subs ds (files, links, dirs) = Some (files', links', dirs') \<and>
    set files' = set files \<union> (\<Union>x \<in> set subs. files_below a (pathJoin k (dn_Name x))) \<and>
    set links' = set links \<union> (\<Union>x \<in> set subs. links_below a (pathJoin k (dn_Name x))) \<and>
    od_Path ` set dirs' = od_Path ` set dirs \<union>
      (\<Union>x \<in> set subs. insert (pathJoin k (dn_Name x)) (dirs_below a (pathJoin k (dn_Name x))))"
  using assms
proof (induction subs arbitrary: files links dirs)
  case (Cons x subs)
  let ?p = "pathJoin k (dn_Name x)"
  obtain dir f l d where x: "fp_join [k, dn_Name x] = ?p" "reads unmarshal ds (digest_FromProto (dn_Digest x)) = Some dir"
    "again ?p dir = Some (f, l, d)" "set f = files_below a ?p" "set l = links_below a ?p" "od_Path ` set d = dirs_below a ?p"
    using Cons.prems [of x] by (auto simp: traversal_is_def)
  define d' where "d' = dirs @ [\<lparr>od_Path = ?p, od_TreeDigest = digest_Proto (ofBytes sha256 [])\<rparr>] @ d"
  have run: "traverse_dirs again sha256 unmarshal k (x # subs) ds (files, links, dirs) =
      traverse_dirs again sha256 unmarshal k subs ds (files @ f, links @ l, d')"
    using x(1-3) by (simp add: reads_def d'_def)
  obtain files' links' dirs' where r: "traverse_dirs again sha256 unmarshal k subs ds (files @ f, links @ l, d') = Some (files', links', dirs')"
    "set files' = set (files @ f) \<union> (\<Union>x \<in> set subs. files_below a (pathJoin k (dn_Name x)))"
    "set links' = set (links @ l) \<union> (\<Union>x \<in> set subs. links_below a (pathJoin k (dn_Name x)))"
    "od_Path ` set dirs' = od_Path ` set d' \<union> (\<Union>x \<in> set subs. insert (pathJoin k (dn_Name x)) (dirs_below a (pathJoin k (dn_Name x))))"
    using Cons.IH [of "files @ f" "links @ l" d'] Cons.prems by auto
  have "od_Path ` set d' = insert ?p (od_Path ` set dirs \<union> dirs_below a ?p)" using x(6) by (auto simp: d'_def)
  then show ?case unfolding run using r x(4,5) by auto
qed simp

lemma traverse_content:
  assumes plain: "content_plain a" and dec: "decodes marshal unmarshal" and "represents n sha256 marshal a ds k g"
  shows "\<exists>dir. reads unmarshal ds g = Some dir \<and> traversal_is sha256 a k (traverse n sha256 unmarshal ds k dir)"
  using assms(3)
proof (induction n arbitrary: k g)
  case (Suc n)
  then obtain dir b where d: "marshal dir = Some b" "g = ofBytes sha256 b" "store_Get ds g = Some (data_FromBytes sha256 b)"
      "canonical dir" "a k = Some (dir_content dir)"
      "\<forall>x \<in> set (dir_Directories dir). \<exists>g'. dn_Digest x = Some g' \<and> represents n sha256 marshal a ds (pathJoin k (dn_Name x)) g'"
    by auto
  have ca: "a k = Some (set (dir_Files dir), set (dir_Symlinks dir), dn_Name ` set (dir_Directories dir))"
    using d(5) by (simp add: dir_content_def)
  have p: "key_ok k" "\<forall>f \<in> set (dir_Files dir). plain_elem (fn_Name f)" "\<forall>s \<in> set (dir_Symlinks dir). plain_elem (sn_Name s)"
    "\<forall>x \<in> set (dir_Directories dir). plain_elem (dn_Name x)"
    using plain ca unfolding content_plain_def by blast+
  have read: "reads unmarshal ds g = Some dir"
    using d(1,3) dec by (simp add: reads_def readProto_def dataToBytes_def data_FromBytes_def decodes_def)
  let ?files = "map (\<lambda>f. \<lparr>of_Path = fp_join [k, fn_Name f], of_Digest = fn_Digest f, of_IsExecutable = fn_IsExecutable f\<rparr>) (dir_Files dir)"
  let ?links = "map (\<lambda>s. \<lparr>os_Path = fp_join [k, sn_Name s], os_Target = sn_Target s\<rparr>) (dir_Symlinks dir)"
  have own: "set ?files = file_at k ` set (dir_Files dir)" "set ?links = link_at k ` set (dir_Symlinks dir)"
    using p(2,3) fp_join_key [OF p(1)] by (auto simp: file_at_def link_at_def image_iff)
  have "fp_join [k, dn_Name x] = pathJoin k (dn_Name x) \<and>
      (\<exists>dir. reads unmarshal ds (digest_FromProto (dn_Digest x)) = Some dir \<and>
        traversal_is sha256 a (pathJoin k (dn_Name x)) (traverse n sha256 unmarshal ds (pathJoin k (dn_Name x)) dir))"
    if x: "x \<in> set (dir_Directories dir)" for x
  proof -
    obtain g' where g': "dn_Digest x = Some g'" "represents n sha256 marshal a ds (pathJoin k (dn_Name x)) g'"
      using d(6) x by blast
    show ?thesis using Suc.IH [OF g'(2)] g'(1) p(4) x fp_join_key [OF p(1)] by (simp add: digest_FromProto_def)
  qed
  from traverse_dirs_content [OF this, of "dir_Directories dir" ?files ?links "[]"] obtain files' links' dirs' where
    r: "traverse (Suc n) sha256 unmarshal ds k dir = Some (files', links', dirs')"
      "set files' = set ?files \<union> (\<Union>x \<in> set (dir_Directories dir). files_below a (pathJoin k (dn_Name x)))"
      "set links' = set ?links \<union> (\<Union>x \<in> set (dir_Directories dir). links_below a (pathJoin k (dn_Name x)))"
      "od_Path ` set dirs' = (\<Union>x \<in> set (dir_Directories dir). insert (pathJoin k (dn_Name x)) (dirs_below a (pathJoin k (dn_Name x))))"
    by auto
  have "traversal_is sha256 a k (traverse (Suc n) sha256 unmarshal ds k dir)"
    unfolding traversal_is_def r(1) below_step [of a k, OF ca] using r(2-4) own by auto
  then show ?case using read by blast
qed simp

subsection \<open>Setting entries\<close>

definition dir_at :: "merkleTree \<Rightarrow> bytes \<Rightarrow> directory" where
  "dir_at t k = (case mt_m t k of Some (Some d) \<Rightarrow> d | _ \<Rightarrow> empty_dir)"

definition all_files :: "merkleTree \<Rightarrow> outputFile set" where
  "all_files t = (\<Union>k. file_at k ` set (dir_Files (dir_at t k)))"

definition all_links :: "merkleTree \<Rightarrow> outputSymlink set" where
  "all_links t = (\<Union>k. link_at k ` set (dir_Symlinks (dir_at t k)))"

text \<open>A tree made by \<open>Set\<close> calls: no precomputed subtree, no digest yet, every key is reached.\<close>

definition plain_tree :: "merkleTree \<Rightarrow> bool" where
  "plain_tree t \<longleftrightarrow> tree_ok t \<and> (\<forall>k. mt_m t k \<noteq> Some None) \<and> mt_store t \<noteq> None \<and>
     (\<forall>k dir. mt_m t k = Some (Some dir) \<longrightarrow>
        (\<forall>f \<in> set (dir_Files dir). plain_elem (fn_Name f)) \<and> (\<forall>s \<in> set (dir_Symlinks dir). plain_elem (sn_Name s)) \<and>
        (\<forall>x \<in> set (dir_Directories dir). dn_Digest x = None) \<and> distinct (map dn_Name (dir_Directories dir))) \<and>
     (\<forall>k. mt_m t k \<noteq> None \<longrightarrow> k \<noteq> [] \<longrightarrow> (\<exists>q dir x. mt_m t q = Some (Some dir) \<and> x \<in> set (dir_Directories dir) \<and> k = pathJoin q (dn_Name x)))"

lemma plain_treeD:
  assumes "plain_tree t"
  shows "tree_ok t" "mt_m t k \<noteq> Some None" "mt_store t \<noteq> None"
    "mt_m t k = Some (Some dir) \<Longrightarrow> f \<in> set (dir_Files dir) \<Longrightarrow> plain_elem (fn_Name f)"
    "mt_m t k = Some (Some dir) \<Longrightarrow> s \<in> set (dir_Symlinks dir) \<Longrightarrow> plain_elem (sn_Name s)"
    "mt_m t k = Some (Some dir) \<Longrightarrow> x \<in> set (dir_Directories dir) \<Longrightarrow> dn_Digest x = None"
    "mt_m t k \<noteq> None \<Longrightarrow> k \<noteq> [] \<Longrightarrow> \<exists>q dir x. mt_m t q = Some (Some dir) \<and> x \<in> set (dir_Directories dir) \<and> k = pathJoin q (dn_Name x)"
    "mt_m t k = Some (Some dir) \<Longrightarrow> distinct (map dn_Name (dir_Directories dir))"
  using assms unfolding plain_tree_def by blast+

lemma plain_tree_New: "plain_tree (merkle_New (Some ds))"
  using tree_ok_New [of "Some ds"] by (auto simp: plain_tree_def merkle_New_def empty_dir_def split: if_splits)

lemma plain_child:
  assumes t: "plain_tree t" and k: "mt_m t k = Some (Some dir)" and n: "plain_elem n"
    and new: "mt_m t (pathJoin k n) = None" and t': "t' = add_child k \<lparr>dn_Name = n, dn_Digest = None\<rparr> (Some empty_dir) t"
  shows "plain_tree t'" and "all_files t' = all_files t" and "all_links t' = all_links t"
    and "dom (mt_m t') = insert (pathJoin k n) (dom (mt_m t))"
proof -
  let ?p = "pathJoin k n" and ?d = "add_dirnode \<lparr>dn_Name = n, dn_Digest = None\<rparr> dir"
  have ne: "?p \<noteq> k" using new k by auto
  have m: "mt_m t' q = (if q = ?p then Some (Some empty_dir) else if q = k then Some (Some ?d) else mt_m t q)" for q
    unfolding t' using mt_m_add_child [of k "\<lparr>dn_Name = n, dn_Digest = None\<rparr>"] ne new k by auto
  have ok: "tree_ok t'"
    unfolding t' using add_child_ok [OF plain_treeD(1) [OF t] k, of "\<lparr>dn_Name = n, dn_Digest = None\<rparr>" "Some empty_dir"] n
    by (simp add: empty_dir_def)
  have st: "mt_store t' = mt_store t" by (simp add: t' add_child_def Let_def upd_dir_def)
  have dirs: "mt_m t' q = Some (Some e) \<longleftrightarrow> q = ?p \<and> e = empty_dir \<or> q = k \<and> e = ?d \<or> q \<noteq> ?p \<and> q \<noteq> k \<and> mt_m t q = Some (Some e)" for q e
    using ne by (auto simp: m)
  show "all_files t' = all_files t" "all_links t' = all_links t"
  proof -
    have "dir_Files (dir_at t' q) = dir_Files (dir_at t q) \<and> dir_Symlinks (dir_at t' q) = dir_Symlinks (dir_at t q)" for q
      using k new by (simp add: dir_at_def m add_dirnode_def)
    then show "all_files t' = all_files t" "all_links t' = all_links t" by (simp_all add: all_files_def all_links_def)
  qed
  show "dom (mt_m t') = insert ?p (dom (mt_m t))" using k by (auto simp: m dom_def)
  have parent: "\<exists>q dir x. mt_m t' q = Some (Some dir) \<and> x \<in> set (dir_Directories dir) \<and> r = pathJoin q (dn_Name x)"
    if r: "mt_m t' r \<noteq> None" "r \<noteq> []" for r
  proof (cases "r = ?p")
    case True
    then show ?thesis using dirs [of k ?d] by (intro exI [of _ k] exI [of _ ?d] exI [of _ "\<lparr>dn_Name = n, dn_Digest = None\<rparr>"]) (auto simp: add_dirnode_def)
  next
    case False
    then have "mt_m t r \<noteq> None" using r k by (auto simp: m split: if_splits)
    then obtain q e x where q: "mt_m t q = Some (Some e)" "x \<in> set (dir_Directories e)" "r = pathJoin q (dn_Name x)"
      using plain_treeD(7) [OF t _ r(2)] by blast
    show ?thesis
    proof (cases "q = k")
      case True
      then show ?thesis using q k dirs [of k ?d] by (intro exI [of _ k] exI [of _ ?d] exI [of _ x]) (auto simp: add_dirnode_def)
    next
      case False
      then have "mt_m t' q = Some (Some e)" using q(1) new by (auto simp: m)
      then show ?thesis using q by blast
    qed
  qed
  show "plain_tree t'"
    unfolding plain_tree_def
  proof (intro conjI allI impI ballI)
    show "tree_ok t'" by (rule ok)
    show "mt_m t' q \<noteq> Some None" for q using plain_treeD(2) [OF t] by (auto simp: m)
    show "mt_store t' \<noteq> None" using plain_treeD(3) [OF t] st by simp
    show "plain_elem (fn_Name f)" if "mt_m t' q = Some (Some e)" "f \<in> set (dir_Files e)" for q e f
      using that plain_treeD(4) [OF t] k by (auto simp: dirs empty_dir_def add_dirnode_def)
    show "plain_elem (sn_Name f)" if "mt_m t' q = Some (Some e)" "f \<in> set (dir_Symlinks e)" for q e f
      using that plain_treeD(5) [OF t] k by (auto simp: dirs empty_dir_def add_dirnode_def)
    show "dn_Digest x = None" if "mt_m t' q = Some (Some e)" "x \<in> set (dir_Directories e)" for q e x
      using that plain_treeD(6) [OF t] k by (auto simp: dirs empty_dir_def add_dirnode_def)
    have "n \<notin> dn_Name ` set (dir_Directories dir)"
      using tree_okD(4) [OF plain_treeD(1) [OF t] k] new by (metis imageE)
    then show "distinct (map dn_Name (dir_Directories e))" if "mt_m t' q = Some (Some e)" for q e
      using that plain_treeD(8) [OF t] k by (auto simp: dirs empty_dir_def add_dirnode_def)
  qed (rule parent)
qed

lemma plain_setDir:
  assumes t: "plain_tree t" and cur: "cur_ok t cur" and n: "plain_elem n"
  obtains cur' t' where "setDir cur n t = (Inr cur', t')" "plain_tree t'" "cur_ok t' cur'" "grows t t'"
    "ds_dir cur' = pathJoin (ds_dir cur) n" "all_files t' = all_files t" "all_links t' = all_links t"
    "dom (mt_m t') = insert (pathJoin (ds_dir cur) n) (dom (mt_m t))"
proof -
  let ?p = "pathJoin (ds_dir cur) n"
  obtain dir where dir: "mt_m t (ds_dir cur) = Some (Some dir)" using cur by (auto simp: cur_ok_def)
  obtain r t' where run: "setDir cur n t = (r, t')" by force
  note ok = setDir_ok [OF plain_treeD(1) [OF t] cur n run]
  show thesis
  proof (cases "mt_m t ?p")
    case None
    then have r: "r = Inr \<lparr>ds_name = ?p, ds_dir = ?p\<rparr>" and t': "t' = add_child (ds_dir cur) \<lparr>dn_Name = n, dn_Digest = None\<rparr> (Some empty_dir) t"
      using setDir_add_child [OF cur None] run by simp_all
    note c = plain_child [OF t dir n None t']
    have "cur_ok t' \<lparr>ds_name = ?p, ds_dir = ?p\<rparr>" "grows t t'" using ok r by blast+
    then show thesis by (rule that [OF run [unfolded r] c(1) _ _ _ c(2-4)]) simp
  next
    case (Some d)
    then obtain d' where "d = Some d'" using plain_treeD(2) [OF t, of ?p] by (cases d) auto
    then have r: "r = Inr \<lparr>ds_name = ?p, ds_dir = ?p\<rparr>" and t': "t' = t"
      using Some run by (auto simp: setDir_def cur_join [OF cur] Let_def)
    have "cur_ok t \<lparr>ds_name = ?p, ds_dir = ?p\<rparr>" using ok r t' by blast
    then show thesis by (rule that [OF run [unfolded r t'] t _ tree_grows_refl]) (use Some in auto)
  qed
qed

text \<open>The keys of the directories on the way to a path below the elements \<open>es\<close>.\<close>

definition keys_on :: "bytes list \<Rightarrow> bytes list \<Rightarrow> bytes set" where
  "keys_on es ds = {key_of (es @ p) | p. p \<noteq> [] \<and> prefix p ds}"

lemma keys_on_Cons: "keys_on es (d # ds) = insert (key_of (es @ [d])) (keys_on (es @ [d]) ds)"
proof -
  have "p \<noteq> [] \<and> prefix p (d # ds) \<longleftrightarrow> p = [d] \<or> (\<exists>q. p = d # q \<and> q \<noteq> [] \<and> prefix q ds)" for p
    by (cases p) auto
  then show ?thesis unfolding keys_on_def by force
qed

lemma keys_on_Nil [simp]: "keys_on es [] = {}"
  by (auto simp: keys_on_def)

lemma walk_plain:
  assumes "plain_tree t" "cur_ok t cur" "plain_elems es" "ds_dir cur = key_of es" "plain_elems ds" "n \<noteq> []"
  shows "\<exists>cur' t' b. walk leaf (ds @ [n]) cur stack t = leaf cur' n b t' \<and> plain_tree t' \<and> cur_ok t' cur' \<and>
    ds_dir cur' = key_of (es @ ds) \<and> all_files t' = all_files t \<and> all_links t' = all_links t \<and>
    dom (mt_m t') = keys_on es ds \<union> dom (mt_m t)"
  using assms(1-5)
proof (induction ds arbitrary: cur t es stack)
  case Nil
  then show ?case by auto
next
  case (Cons d ds)
  have d: "plain_elem d" "plain_elems ds" using Cons.prems(5) by (simp_all add: plain_elems_def)
  obtain cur1 t1 where s: "setDir cur d t = (Inr cur1, t1)" "plain_tree t1" "cur_ok t1 cur1"
    "ds_dir cur1 = pathJoin (ds_dir cur) d" "all_files t1 = all_files t" "all_links t1 = all_links t"
    "dom (mt_m t1) = insert (pathJoin (ds_dir cur) d) (dom (mt_m t))"
    using plain_setDir [OF Cons.prems(1,2) d(1)] by metis
  have k: "ds_dir cur1 = key_of (es @ [d])" "plain_elems (es @ [d])"
    using s(4) Cons.prems(3,4) pathJoin_key d(1) by (simp_all add: plain_elems_def)
  obtain e rest where er: "ds @ [n] = e # rest" by (cases "ds @ [n]") auto
  have "walk leaf ((d # ds) @ [n]) cur stack t = walk leaf (ds @ [n]) cur1 (cur # stack) t1"
    using plain_elem_ne [OF d(1)] s(1) by (simp add: er)
  moreover have "keys_on es (d # ds) \<union> dom (mt_m t) = keys_on (es @ [d]) ds \<union> dom (mt_m t1)"
    using s(7) Cons.prems(3,4) pathJoin_key by (auto simp: keys_on_Cons)
  ultimately show ?case
    using Cons.IH [OF s(2,3) k(2,1) d(2), of "cur # stack"] s(5,6) by (metis append.assoc append_Cons append_Nil)
qed

text \<open>Changing the files or symlinks of one directory.\<close>

lemma dir_at_upd: "mt_m t k = Some (Some d) \<Longrightarrow> dir_at (upd_dir k f t) q = (if q = k then f d else dir_at t q)"
  by (simp add: dir_at_def mt_m_upd)

lemma Union_one: "(\<Union>q. F q (if q = k then x else G q)) = F k x \<union> (\<Union>q \<in> - {k}. F q (G q))"
  by (auto split: if_splits)

lemma plain_upd:
  assumes t: "plain_tree t" and k: "mt_m t k = Some (Some d)" and st: "mt_m u = mt_m t" "mt_store u \<noteq> None"
    and f: "\<And>x. dir_Directories (f x) = dir_Directories x"
      "set (dir_Files (f d)) = F \<union> set (dir_Files d)" "set (dir_Symlinks (f d)) = S \<union> set (dir_Symlinks d)"
    and names: "\<forall>x \<in> F. plain_elem (fn_Name x)" "\<forall>x \<in> S. plain_elem (sn_Name x)"
  shows "plain_tree (upd_dir k f u)" and "all_files (upd_dir k f u) = file_at k ` F \<union> all_files t"
    and "all_links (upd_dir k f u) = link_at k ` S \<union> all_links t" and "dom (mt_m (upd_dir k f u)) = dom (mt_m t)"
proof -
  have m: "mt_m (upd_dir k f u) q = (if q = k then Some (Some (f d)) else mt_m t q)" for q
    using k st(1) by (simp add: mt_m_upd)
  have at: "dir_at (upd_dir k f u) q = (if q = k then f d else dir_at t q)" and atk: "dir_at t k = d" for q
    using k by (simp_all add: dir_at_def m)
  have dirs: "mt_m (upd_dir k f u) q = Some (Some e) \<Longrightarrow>
      \<exists>e'. mt_m t q = Some (Some e') \<and> dir_Directories e = dir_Directories e'" for q e
    using k f(1) by (auto simp: m split: if_splits)
  have "all_files t = file_at k ` set (dir_Files d) \<union> (\<Union>q \<in> - {k}. file_at q ` set (dir_Files (dir_at t q)))"
    "all_links t = link_at k ` set (dir_Symlinks d) \<union> (\<Union>q \<in> - {k}. link_at q ` set (dir_Symlinks (dir_at t q)))"
    using atk unfolding all_files_def all_links_def by (auto; metis ComplI singletonD)+
  then show "all_files (upd_dir k f u) = file_at k ` F \<union> all_files t"
    "all_links (upd_dir k f u) = link_at k ` S \<union> all_links t"
    unfolding all_files_def all_links_def at
    using f(2,3) Union_one [of "\<lambda>q x. file_at q ` set (dir_Files x)" k "f d" "dir_at t"]
      Union_one [of "\<lambda>q x. link_at q ` set (dir_Symlinks x)" k "f d" "dir_at t"]
    by (simp_all add: image_Un Un_assoc)
  show "dom (mt_m (upd_dir k f u)) = dom (mt_m t)" using k by (auto simp: m dom_def)
  show "plain_tree (upd_dir k f u)"
    unfolding plain_tree_def
  proof (intro conjI allI impI ballI)
    show "tree_ok (upd_dir k f u)"
      using tree_ok_upd [of u f k] tree_ok_cong [OF st(1)] plain_treeD(1) [OF t] f(1) by simp
    show "mt_m (upd_dir k f u) q \<noteq> Some None" for q using plain_treeD(2) [OF t] by (simp add: m)
    show "mt_store (upd_dir k f u) \<noteq> None" using st(2) by (simp add: upd_dir_def)
    show "plain_elem (fn_Name x)" if "mt_m (upd_dir k f u) q = Some (Some e)" "x \<in> set (dir_Files e)" for q e x
      using that names(1) f(2) plain_treeD(4) [OF t] k by (auto simp: m split: if_splits)
    show "plain_elem (sn_Name x)" if "mt_m (upd_dir k f u) q = Some (Some e)" "x \<in> set (dir_Symlinks e)" for q e x
      using that names(2) f(3) plain_treeD(5) [OF t] k by (auto simp: m split: if_splits)
    show "dn_Digest x = None" if "mt_m (upd_dir k f u) q = Some (Some e)" "x \<in> set (dir_Directories e)" for q e x
      using that plain_treeD(6) [OF t] dirs by metis
    show "distinct (map dn_Name (dir_Directories e))" if "mt_m (upd_dir k f u) q = Some (Some e)" for q e
      using that plain_treeD(8) [OF t] dirs by metis
    show "\<exists>q dir x. mt_m (upd_dir k f u) q = Some (Some dir) \<and> x \<in> set (dir_Directories dir) \<and> r = pathJoin q (dn_Name x)"
      if r1: "mt_m (upd_dir k f u) r \<noteq> None" and r2: "r \<noteq> []" for r
    proof -
      have "mt_m t r \<noteq> None" using r1 k by (auto simp: m split: if_splits)
      then obtain q e x where q: "mt_m t q = Some (Some e)" "x \<in> set (dir_Directories e)" "r = pathJoin q (dn_Name x)"
        using plain_treeD(7) [OF t _ r2] by blast
      have "mt_m (upd_dir k f u) q = Some (Some (if q = k then f d else e))" using q(1) by (simp add: m)
      moreover have "x \<in> set (dir_Directories (if q = k then f d else e))" using q k f(1) by auto
      ultimately show ?thesis using q(3) by blast
    qed
  qed
qed

lemma key_of_inj: "plain_elems es \<Longrightarrow> plain_elems es' \<Longrightarrow> key_of es = key_of es' \<Longrightarrow> es = es'"
  using key_of_ne(1,3) by (metis key_of_Nil)

lemma keys_on_snoc: "keys_on [] (es @ [n]) = insert (key_of (es @ [n])) (keys_on [] es)"
  by (auto simp: keys_on_def)

lemma keys_closed:
  assumes "plain_tree t"
  shows "plain_elems es \<Longrightarrow> mt_m t (key_of es) \<noteq> None \<Longrightarrow> keys_on [] es \<subseteq> dom (mt_m t)"
proof (induction es rule: rev_induct)
  case (snoc n es)
  have ne: "key_of (es @ [n]) \<noteq> []" using key_of_ne(1) [OF snoc.prems(1)] by simp
  obtain q dir x where q: "mt_m t q = Some (Some dir)" "x \<in> set (dir_Directories dir)" "key_of (es @ [n]) = pathJoin q (dn_Name x)"
    using plain_treeD(7) [OF assms snoc.prems(2) ne] by blast
  have "key_ok q" using tree_okD(3) [OF plain_treeD(1) [OF assms]] q(1) by simp
  then obtain qs where qs: "plain_elems qs" "q = key_of qs" by (auto simp: key_ok_def)
  have "plain_elem (dn_Name x)" using tree_okD(4) [OF plain_treeD(1) [OF assms] q(1,2)] by simp
  then have "plain_elems (qs @ [dn_Name x])" using qs by (simp add: plain_elems_def)
  then have "es @ [n] = qs @ [dn_Name x]"
    by (rule key_of_inj [OF snoc.prems(1)]) (use q(3) pathJoin_key [OF qs(1)] qs(2) in simp)
  then have "qs = es" by simp
  then have "keys_on [] es \<subseteq> dom (mt_m t)" using snoc.IH snoc.prems(1) q(1) qs by (simp add: plain_elems_def)
  then show ?case using snoc.prems(2) by (auto simp: keys_on_snoc)
qed simp

subsection \<open>Entries\<close>

definition entry_ok :: "entry \<Rightarrow> bool" where
  "entry_ok e \<longleftrightarrow> plain_elems (splitElem (en_Name e)) \<and> (en_Target e = [] \<or> data_IsZero (en_Data e)) \<and>
     \<not> has_prefix (en_Name e) [BSL]"

definition entry_files :: "entry \<Rightarrow> outputFile set" where
  "entry_files e = (if data_IsZero (en_Data e) then {} else
     {\<lparr>of_Path = en_Name e, of_Digest = digest_Proto (da_digest (en_Data e)), of_IsExecutable = en_IsExecutable e\<rparr>})"

definition entry_links :: "entry \<Rightarrow> outputSymlink set" where
  "entry_links e = (if entry_IsSymlink e then {\<lparr>os_Path = en_Name e, os_Target = en_Target e\<rparr>} else {})"

definition entry_dirs :: "entry \<Rightarrow> bytes set" where
  "entry_dirs e = keys_on [] (if entry_IsDir e then splitElem (en_Name e) else butlast (splitElem (en_Name e)))"

lemma plain_Set:
  assumes t: "plain_tree t" and e: "entry_ok e" and link: "entry_IsSymlink e \<Longrightarrow> mt_m t (en_Name e) = None"
  shows "\<exists>t'. merkle_Set e t = (Inr (), t') \<and> plain_tree t' \<and> all_files t' = entry_files e \<union> all_files t \<and>
    all_links t' = entry_links e \<union> all_links t \<and> dom (mt_m t') = entry_dirs e \<union> dom (mt_m t)"
proof -
  obtain ds n where es: "splitElem (en_Name e) = ds @ [n]" by (metis splitElem_def split_on_ne rev_exhaust)
  have p: "plain_elems ds" "plain_elem n" "plain_elems (ds @ [n])" using e es by (auto simp: entry_ok_def plain_elems_def)
  have name: "en_Name e = key_of (ds @ [n])" using es join_split_on [of "CHR ''/''" "en_Name e"] by (simp add: splitElem_def key_of_def)
  have n: "n \<noteq> []" "n \<noteq> ''.''" "n \<noteq> ''..''" using plain_elem_ne [OF p(2)] by auto
  have "\<not> isAbs (en_Name e)" using plain_not_abs [OF key_plain_path [OF p(3)]] name by simp
  then have root: "\<not> bad_root (en_Name e)"
    using e by (cases "en_Name e") (auto simp: bad_root_def entry_ok_def isAbs_def has_prefix_def)
  show ?thesis
  proof (cases "entry_IsDir e \<and> mt_m t (en_Name e) \<noteq> None")
    case True
    then have "entry_dirs e \<subseteq> dom (mt_m t)" using keys_closed [OF t p(3)] name es by (simp add: entry_dirs_def)
    moreover have "merkle_Set e t = (Inr (), t)"
      using True root by (auto simp: merkle_Set_def Let_def entry_IsDir_def)
    ultimately show ?thesis using t True by (auto simp: entry_files_def entry_links_def entry_IsDir_def entry_IsSymlink_def)
  next
    case new: False
    obtain cur t1 b where w: "walk (set_leaf e) (ds @ [n]) root_state [] t = set_leaf e cur n b t1" "plain_tree t1" "cur_ok t1 cur"
      "ds_dir cur = key_of ds" "all_files t1 = all_files t" "all_links t1 = all_links t" "dom (mt_m t1) = keys_on [] ds \<union> dom (mt_m t)"
      using walk_plain [OF t cur_ok_root [OF plain_treeD(1) [OF t]], of "[]" ds n "set_leaf e" "[]"] p(1) n(1)
      by (auto simp: root_state_def plain_elems_def)
    have run: "merkle_Set e t = set_leaf e cur n b t1"
      using e root new link w(1) es by (auto simp: merkle_Set_def Let_def entry_ok_def entry_IsSymlink_def)
    obtain d where d: "mt_m t1 (key_of ds) = Some (Some d)" using w(3,4) by (auto simp: cur_ok_def)
    have path: "pathJoin (key_of ds) n = en_Name e" using pathJoin_key [OF p(1)] name by simp
    consider (regular) "\<not> data_IsZero (en_Data e)" | (symlink) "entry_IsSymlink e" | (dir) "entry_IsDir e"
      by (auto simp: entry_IsSymlink_def entry_IsDir_def)
    then show ?thesis
    proof cases
      case regular
      define f where "f = \<lparr>fn_Name = n, fn_Digest = digest_Proto (da_digest (en_Data e)), fn_IsExecutable = en_IsExecutable e\<rparr>"
      have r: "merkle_Set e t = (Inr (), upd_dir (key_of ds) (add_file f) (put_data (en_Data e) t1))"
        unfolding run using regular n w(4) by (simp add: set_leaf_def f_def)
      have "mt_store (put_data (en_Data e) t1) \<noteq> None" using plain_treeD(3) [OF w(2)] by (simp add: put_data_def)
      note u = plain_upd [OF w(2) d mt_m_put this, of "add_file f" "{f}" "{}"]
      have "file_at (key_of ds) f = \<lparr>of_Path = en_Name e, of_Digest = digest_Proto (da_digest (en_Data e)), of_IsExecutable = en_IsExecutable e\<rparr>"
        using path by (simp add: file_at_def f_def)
      then show ?thesis
        using u p(2) r w(5-7) regular es
        by (simp add: add_file_def f_def entry_files_def entry_links_def entry_dirs_def entry_IsDir_def entry_IsSymlink_def)
    next
      case symlink
      define s where "s = \<lparr>sn_Name = n, sn_Target = en_Target e\<rparr>"
      have r: "merkle_Set e t = (Inr (), upd_dir (key_of ds) (add_symlink s) t1)"
        unfolding run using symlink n w(4) by (simp add: set_leaf_def s_def entry_IsSymlink_def)
      note u = plain_upd [OF w(2) d refl plain_treeD(3) [OF w(2)], of "add_symlink s" "{}" "{s}"]
      have "link_at (key_of ds) s = \<lparr>os_Path = en_Name e, os_Target = en_Target e\<rparr>"
        using path by (simp add: link_at_def s_def)
      then show ?thesis
        using u p(2) r w(5-7) symlink es
        by (simp add: add_symlink_def s_def entry_files_def entry_links_def entry_dirs_def entry_IsDir_def entry_IsSymlink_def)
    next
      case dir
      obtain cur' t2 where s: "setDir cur n t1 = (Inr cur', t2)" "plain_tree t2"
        "all_files t2 = all_files t1" "all_links t2 = all_links t1" "dom (mt_m t2) = insert (pathJoin (ds_dir cur) n) (dom (mt_m t1))"
        using plain_setDir [OF w(2,3) p(2)] by metis
      have r: "merkle_Set e t = (Inr (), t2)"
        unfolding run using dir n s(1) by (simp add: set_leaf_def entry_IsDir_def entry_IsSymlink_def)
      have "dom (mt_m t2) = entry_dirs e \<union> dom (mt_m t)"
        using s(5) w(4,7) path name dir es by (simp add: entry_dirs_def keys_on_snoc)
      then show ?thesis
        using r s(2-4) w(5,6) dir by (simp add: entry_files_def entry_links_def entry_IsDir_def entry_IsSymlink_def)
    qed
  qed
qed

subsection \<open>Build does not fail on consistent content\<close>

definition dirs_distinct :: "merkleTree \<Rightarrow> bool" where
  "dirs_distinct t \<longleftrightarrow> (\<forall>k dir. mt_m t k = Some (Some dir) \<longrightarrow> distinct (map dn_Name (dir_Directories dir)))"

definition consistent_content :: "(bytes \<Rightarrow> content option) \<Rightarrow> bool" where
  "consistent_content a \<longleftrightarrow> (\<forall>k F S D. a k = Some (F, S, D) \<longrightarrow> inj_on fn_Name F \<and> inj_on sn_Name S \<and>
     fn_Name ` F \<inter> sn_Name ` S = {} \<and> fn_Name ` F \<inter> D = {} \<and> sn_Name ` S \<inter> D = {} \<and>
     (\<forall>n \<in> D. a (pathJoin k n) \<noteq> None))"

lemma keep_files_fine:
  assumes "inj_on fn_Name (set files \<union> set fs)" "\<forall>n m. names n = Some m \<longrightarrow> (\<exists>f \<in> set files. m = FileMsg f \<and> fn_Name f = n)"
  shows "keep_files fs names files \<noteq> Inl e"
  using assms
proof (induction fs arbitrary: names files)
  case (Cons f fs)
  show ?case
  proof (cases "names (fn_Name f)")
    case None
    have "keep_files fs (names(fn_Name f \<mapsto> FileMsg f)) (files @ [f]) \<noteq> Inl e"
      by (rule Cons.IH) (use Cons.prems in \<open>auto split: if_splits\<close>)
    then show ?thesis using None by simp
  next
    case (Some m)
    then obtain g where g: "g \<in> set files" "m = FileMsg g" "fn_Name g = fn_Name f" using Cons.prems(2) by blast
    then have "g = f" using inj_onD [OF Cons.prems(1) g(3)] by simp
    then show ?thesis using Cons.IH [of files names] Cons.prems Some g by (simp add: insert_absorb)
  qed
qed simp

lemma keep_symlinks_fine:
  assumes "inj_on sn_Name (set links \<union> set ss)" "\<forall>s \<in> set ss. \<forall>m. names (sn_Name s) = Some m \<longrightarrow> (\<exists>r \<in> set links. m = SymlinkMsg r \<and> sn_Name r = sn_Name s)"
  shows "keep_symlinks ss names links \<noteq> Inl e"
  using assms
proof (induction ss arbitrary: names links)
  case (Cons s ss)
  show ?case
  proof (cases "names (sn_Name s)")
    case None
    have "keep_symlinks ss (names(sn_Name s \<mapsto> SymlinkMsg s)) (links @ [s]) \<noteq> Inl e"
      by (rule Cons.IH) (use Cons.prems in \<open>auto split: if_splits\<close>)
    then show ?thesis using None by simp
  next
    case (Some m)
    then obtain g where g: "g \<in> set links" "m = SymlinkMsg g" "sn_Name g = sn_Name s" using Cons.prems(2) by auto
    then have "g = s" using inj_onD [OF Cons.prems(1) g(3)] by simp
    then show ?thesis using Cons.IH [of links names] Cons.prems Some g by (simp add: insert_absorb)
  qed
qed simp

definition build_fine :: "build_env \<Rightarrow> (merkleTree \<Rightarrow> bytes \<Rightarrow> build_result) \<Rightarrow> bool" where
  "build_fine E build \<longleftrightarrow> (\<forall>t p. build_inv E t \<longrightarrow> dirs_distinct t \<longrightarrow> be_content E p \<noteq> None \<longrightarrow>
     (\<forall>e. build t p = Some (Inl e) \<longrightarrow> e = Err ''marshal'') \<and>
     (\<forall>dg t'. build t p = Some (Inr (dg, t')) \<longrightarrow> dirs_distinct t'))"

lemma build_dirs_fine:
  assumes sound: "build_sound E again" and again: "build_fine E again" and inv: "build_inv E t" "dirs_distinct t"
    and "distinct (map dn_Name subs)" "\<forall>x \<in> set subs. names (dn_Name x) = None \<and> be_content E (pathJoin k (dn_Name x)) \<noteq> None"
  shows "(\<forall>e. build_dirs again k subs names dirs t = Some (Inl e) \<longrightarrow> e = Err ''marshal'') \<and>
    (\<forall>dirs' t'. build_dirs again k subs names dirs t = Some (Inr (dirs', t')) \<longrightarrow>
      dirs_distinct t' \<and> map dn_Name dirs' = map dn_Name (dirs @ subs))"
  using inv assms(5,6)
proof (induction subs arbitrary: names dirs t)
  case (Cons n subs)
  let ?p = "pathJoin k (dn_Name n)"
  have name: "names (dn_Name n) = None" and here: "be_content E ?p \<noteq> None" using Cons.prems(4) by auto
  then have "tree_content t ?p \<noteq> None" using Cons.prems(1) by (simp add: build_inv_def)
  then obtain d where d: "mt_m t ?p = Some (Some d)" by (auto simp: tree_content_def split: option.splits)
  define step where "step = (if dn_Digest n = None
      then obind (again t ?p) (\<lambda>(dg, t1). Some (Inr (n\<lparr>dn_Digest := dg\<rparr>, t1))) else Some (Inr (n, t)))"
  have run: "build_dirs again k (n # subs) names dirs t =
      obind step (\<lambda>(n', t1). build_dirs again k subs (names(dn_Name n \<mapsto> DirMsg n')) (dirs @ [n']) t1)"
    using d name by (simp add: Let_def step_def)
  have err: "e = Err ''marshal''" if "step = Some (Inl e)" for e
    using that again Cons.prems(1,2) here unfolding build_fine_def step_def
    by (fastforce simp: obind_eq_Some split: if_splits)
  have ok: "build_inv E t1 \<and> dirs_distinct t1 \<and> dn_Name n' = dn_Name n" if st: "step = Some (Inr (n', t1))" for n' t1
  proof (cases "dn_Digest n = None")
    case True
    then obtain dg where "again t ?p = Some (Inr (dg, t1))" "n' = n\<lparr>dn_Digest := dg\<rparr>"
      using st unfolding step_def by (auto simp: obind_eq_Some)
    then show ?thesis using sound again Cons.prems(1,2) here unfolding build_sound_def build_fine_def by fastforce
  qed (use st Cons.prems(1,2) in \<open>auto simp: step_def\<close>)
  have rest: "(\<forall>e. build_dirs again k subs (names(dn_Name n \<mapsto> DirMsg n')) (dirs @ [n']) t1 = Some (Inl e) \<longrightarrow> e = Err ''marshal'') \<and>
      (\<forall>dirs' t'. build_dirs again k subs (names(dn_Name n \<mapsto> DirMsg n')) (dirs @ [n']) t1 = Some (Inr (dirs', t')) \<longrightarrow>
        dirs_distinct t' \<and> map dn_Name dirs' = map dn_Name ((dirs @ [n']) @ subs))"
    if "step = Some (Inr (n', t1))" for n' t1
  proof (rule Cons.IH)
    have "\<forall>x \<in> set subs. dn_Name x \<noteq> dn_Name n" using Cons.prems(3) by (simp add: image_iff) metis
    then show "\<forall>x \<in> set subs. (names(dn_Name n \<mapsto> DirMsg n')) (dn_Name x) = None \<and> be_content E (pathJoin k (dn_Name x)) \<noteq> None"
      using Cons.prems(4) by simp
  qed (use ok [OF that] Cons.prems(3) in auto)
  show ?case
  proof (cases step)
    case (Some r)
    show ?thesis
    proof (cases r)
      case (Inl e)
      then have "build_dirs again k (n # subs) names dirs t = Some (Inl e)" unfolding run using Some Inl by simp
      then show ?thesis using err Some Inl by simp
    next
      case (Inr w)
      obtain n' t1 where w: "w = (n', t1)" by force
      then have st: "step = Some (Inr (n', t1))" using Some Inr by simp
      show ?thesis unfolding run st obind_simps prod.case using rest [OF st] ok [OF st] by simp
    qed
  next
    case None
    then show ?thesis unfolding run by simp
  qed
qed simp

lemma buildTree_fine:
  assumes E: "env_ok E" and a: "consistent_content (be_content E)"
  shows "build_fine E (buildTree fuel (be_sha E) (be_marshal E))"
proof (induction fuel)
  case (Suc fuel)
  have "(\<forall>e. buildTree (Suc fuel) (be_sha E) (be_marshal E) t k = Some (Inl e) \<longrightarrow> e = Err ''marshal'') \<and>
     (\<forall>dg t'. buildTree (Suc fuel) (be_sha E) (be_marshal E) t k = Some (Inr (dg, t')) \<longrightarrow> dirs_distinct t')"
    if inv: "build_inv E t" "dirs_distinct t" and k: "be_content E k \<noteq> None" for t k
  proof -
    have "tree_content t k \<noteq> None" using inv(1) k by (simp add: build_inv_def)
    then obtain dir where dir: "mt_m t k = Some (Some dir)" by (auto simp: tree_content_def split: option.splits)
    then have "tree_content t k = Some (dir_content dir)" by (simp add: tree_content_def)
    then have c: "be_content E k = Some (set (dir_Files dir), set (dir_Symlinks dir), dn_Name ` set (dir_Directories dir))"
      using inv(1) by (simp add: build_inv_def dir_content_def)
    have con: "inj_on fn_Name (set (dir_Files dir))" "inj_on sn_Name (set (dir_Symlinks dir))"
      "fn_Name ` set (dir_Files dir) \<inter> sn_Name ` set (dir_Symlinks dir) = {}"
      "fn_Name ` set (dir_Files dir) \<inter> dn_Name ` set (dir_Directories dir) = {}"
      "sn_Name ` set (dir_Symlinks dir) \<inter> dn_Name ` set (dir_Directories dir) = {}"
      "\<forall>x \<in> set (dir_Directories dir). be_content E (pathJoin k (dn_Name x)) \<noteq> None"
    proof -
      have "\<forall>n \<in> dn_Name ` set (dir_Directories dir). be_content E (pathJoin k n) \<noteq> None"
        using a c unfolding consistent_content_def by blast
      then show "\<forall>x \<in> set (dir_Directories dir). be_content E (pathJoin k (dn_Name x)) \<noteq> None" by simp
    qed (use a c in \<open>simp_all add: consistent_content_def\<close>)
    obtain names files where f: "keep_files (dir_Files dir) Map.empty [] = Inr (names, files)"
      using keep_files_fine [of "[]" "dir_Files dir" Map.empty] con(1) by (cases "keep_files (dir_Files dir) Map.empty []") auto
    have fc: "set files = set (dir_Files dir)" "dom names = fn_Name ` set (dir_Files dir)"
      using keep_files_content [OF f] by (auto simp: names_are_def)
    have "\<forall>s \<in> set (dir_Symlinks dir). names (sn_Name s) = None" using fc(2) con(3) by blast
    then obtain names' links where s: "keep_symlinks (dir_Symlinks dir) names [] = Inr (names', links)"
      using keep_symlinks_fine [of "[]" "dir_Symlinks dir" names] con(2) by (cases "keep_symlinks (dir_Symlinks dir) names []") auto
    have "names' (dn_Name x) = None" if x: "x \<in> set (dir_Directories dir)" for x
    proof (rule ccontr)
      assume "names' (dn_Name x) \<noteq> None"
      then obtain m where "names' (dn_Name x) = Some m" by blast
      from keep_symlinks_msgs [OF s this] have "dn_Name x \<in> dom names \<or> dn_Name x \<in> sn_Name ` set (dir_Symlinks dir)" by force
      then show False using con(4,5) fc(2) x by blast
    qed
    then have d: "(\<forall>e. build_dirs (buildTree fuel (be_sha E) (be_marshal E)) k (dir_Directories dir) names' [] t = Some (Inl e) \<longrightarrow> e = Err ''marshal'') \<and>
      (\<forall>dirs' t'. build_dirs (buildTree fuel (be_sha E) (be_marshal E)) k (dir_Directories dir) names' [] t = Some (Inr (dirs', t')) \<longrightarrow>
        dirs_distinct t' \<and> map dn_Name dirs' = map dn_Name (dir_Directories dir))"
      using build_dirs_fine [OF buildTree_sound [OF E] Suc.IH inv _ _, of "dir_Directories dir" names' k "[]"]
        con(6) inv(2) [unfolded dirs_distinct_def, rule_format, OF dir] by simp
    show ?thesis
    proof (cases "build_dirs (buildTree fuel (be_sha E) (be_marshal E)) k (dir_Directories dir) names' [] t")
      case None
      then show ?thesis using dir f s by simp
    next
      case (Some r)
      show ?thesis
      proof (cases r)
        case (Inl e)
        then show ?thesis using dir f s d Some by simp
      next
        case (Inr w)
        obtain dirs t1 where w: "w = (dirs, t1)" by force
        define u where "u = \<lparr>dir_Files = sort_key fn_Name files, dir_Symlinks = sort_key sn_Name links, dir_Directories = sort_key dn_Name dirs\<rparr>"
        have run: "buildTree (Suc fuel) (be_sha E) (be_marshal E) t k =
            Some (case fromProtoMessage (be_sha E) (be_marshal E) u of Inl err \<Rightarrow> Inl err
              | Inr x \<Rightarrow> Inr (digest_Proto (da_digest x), put_data x (t1\<lparr>mt_m := (mt_m t1)(k \<mapsto> Some u)\<rparr>)))"
          unfolding u_def using dir f s Some Inr w by (simp add: Let_def)
        have "distinct (map dn_Name dirs)" using d Some Inr w inv(2) dir by (simp add: dirs_distinct_def)
        then have "dirs_distinct (put_data x (t1\<lparr>mt_m := (mt_m t1)(k \<mapsto> Some u)\<rparr>))" for x
          using d Some Inr w by (auto simp: dirs_distinct_def u_def distinct_sort_key)
        then show ?thesis unfolding run by (auto simp: fromProtoMessage_def split: option.splits)
      qed
    qed
  qed
  then show ?case unfolding build_fine_def by blast
qed (simp add: build_fine_def)

end
