(* ===== verification/Merkle_Props.thy ===== *)
theory Merkle_Props
  imports Merkle_Roundtrip
begin

text \<open>
  Properties of the Merkle tree: it stays well-formed under every operation and can always be built;
  and what was set is what a traversal of the stored tree finds.
\<close>

subsection \<open>Sequences of operations\<close>

datatype tree_op = SetOp entry | SetTreeOp treeEntry

fun run_op :: "tree_op \<Rightarrow> merkleTree \<Rightarrow> merkleTree" where
  "run_op (SetOp e) t = snd (merkle_Set e t)"
| "run_op (SetTreeOp te) t = snd (merkle_SetTree te t)"

definition max_key :: "merkleTree \<Rightarrow> nat" where
  "max_key t = Max (length ` dom (mt_m t))"

lemma run_ops_ok: "tree_ok t \<Longrightarrow> tree_ok (fold run_op ops t)"
proof (induction ops arbitrary: t)
  case (Cons op ops)
  then show ?case by (cases op) (simp_all add: merkle_Set_ok merkle_SetTree_ok)
qed simp

lemma max_key_ge: "tree_ok t \<Longrightarrow> k \<in> dom (mt_m t) \<Longrightarrow> length k \<le> max_key t"
  using tree_okD(1) by (simp add: max_key_def)

text \<open>
  C31: From an empty tree on, every sequence of \<open>Set\<close> and \<open>SetTree\<close> calls, failed ones included, leaves a
  well-formed table: a root, clean directory names, and an entry for every directory node. \<open>Build\<close>
  then always returns, with as many nested calls as the longest key is long; the tree it leaves is
  well-formed again, and it can only report a duplicate name or an encoding error, never a missing
  directory or a nil pointer.
\<close>

theorem merkle_tree_wf:
  "tree_ok (fold run_op ops (merkle_New store)) \<and>
   (case merkle_Build (Suc (max_key (fold run_op ops (merkle_New store)))) sha256 marshal (fold run_op ops (merkle_New store)) of
      None \<Rightarrow> False
    | Some (Inl e) \<Rightarrow> e \<in> {Err ''duplicate file'', Err ''duplicate symlink'', Err ''duplicate dir'', Err ''marshal''}
    | Some (Inr (d, t')) \<Rightarrow> tree_ok t')"
proof -
  define t where "t = fold run_op ops (merkle_New store)"
  have ok: "tree_ok t" unfolding t_def by (rule run_ops_ok [OF tree_ok_New])
  have "built t (\<lambda>_ _. True) (buildTree (Suc (max_key t)) sha256 marshal t [])"
    by (rule buildTree_built [OF ok _ tree_okD(2) [OF ok], where N = "max_key t"]) (use max_key_ge [OF ok] in auto)
  then show ?thesis
    unfolding t_def [symmetric] merkle_Build_def using ok
    by (elim builtE) (simp_all del: buildTree.simps add: build_error_def)
qed

subsection \<open>Entries\<close>

fun set_all :: "entry list \<Rightarrow> merkleTree \<Rightarrow> merkleTree res" where
  "set_all [] t = Inr t"
| "set_all (e # es) t = (case merkle_Set e t of (Inl err, _) \<Rightarrow> Inl err | (Inr _, t1) \<Rightarrow> set_all es t1)"

text \<open>No path is used twice in different ways, and no file or symlink stands where a directory is.\<close>

definition entries_consistent :: "entry list \<Rightarrow> bool" where
  "entries_consistent es \<longleftrightarrow> (\<forall>e \<in> set es. \<forall>e' \<in> set es. \<not> entry_IsDir e \<longrightarrow> en_Name e \<notin> entry_dirs e' \<and>
     (\<not> entry_IsDir e' \<and> en_Name e = en_Name e' \<longrightarrow> entry_files e = entry_files e' \<and> entry_links e = entry_links e'))"

lemma set_all_plain:
  assumes "plain_tree t" "\<forall>e \<in> set es. entry_ok e" "\<forall>s \<in> set es. entry_IsSymlink s \<longrightarrow> mt_m t (en_Name s) = None"
    "\<forall>s \<in> set es. \<forall>e \<in> set es. entry_IsSymlink s \<longrightarrow> en_Name s \<notin> entry_dirs e"
  shows "\<exists>t'. set_all es t = Inr t' \<and> plain_tree t' \<and> all_files t' = (\<Union>e \<in> set es. entry_files e) \<union> all_files t \<and>
    all_links t' = (\<Union>e \<in> set es. entry_links e) \<union> all_links t \<and> dom (mt_m t') = (\<Union>e \<in> set es. entry_dirs e) \<union> dom (mt_m t)"
  using assms
proof (induction es arbitrary: t)
  case (Cons e es)
  obtain t1 where t1: "merkle_Set e t = (Inr (), t1)" "plain_tree t1" "all_files t1 = entry_files e \<union> all_files t"
    "all_links t1 = entry_links e \<union> all_links t" "dom (mt_m t1) = entry_dirs e \<union> dom (mt_m t)"
    using plain_Set [OF Cons.prems(1), of e] Cons.prems(2,3) by auto
  have "\<forall>s \<in> set es. entry_IsSymlink s \<longrightarrow> mt_m t1 (en_Name s) = None"
    using t1(5) Cons.prems(3,4) by (auto simp: domIff [symmetric] simp del: domIff)
  then obtain t' where "set_all es t1 = Inr t'" "plain_tree t'" "all_files t' = (\<Union>e \<in> set es. entry_files e) \<union> all_files t1"
    "all_links t' = (\<Union>e \<in> set es. entry_links e) \<union> all_links t1" "dom (mt_m t') = (\<Union>e \<in> set es. entry_dirs e) \<union> dom (mt_m t1)"
    using Cons.IH [OF t1(2)] Cons.prems(2,4) by auto
  then show ?case using t1 by auto
qed simp

lemma new_tree_empty:
  "all_files (merkle_New s) = {}" "all_links (merkle_New s) = {}" "dom (mt_m (merkle_New s)) = {[]}"
proof -
  have "dir_at (merkle_New s) k = empty_dir" for k by (simp add: dir_at_def merkle_New_def)
  then show "all_files (merkle_New s) = {}" "all_links (merkle_New s) = {}"
    by (simp_all add: all_files_def all_links_def empty_dir_def)
  show "dom (mt_m (merkle_New s)) = {[]}" by (simp add: merkle_New_def)
qed

lemma key_prefix_length: "prefix p es \<Longrightarrow> length (key_of p) \<le> length (key_of es)"
proof (induction es rule: rev_induct)
  case (snoc e es)
  have "length (key_of es) \<le> length (key_of (es @ [e]))"
    by (cases "es = []") (simp_all add: key_of_snoc)
  then show ?case using snoc by auto
qed simp

lemma entry_dirs_length: "k \<in> entry_dirs e \<Longrightarrow> length k \<le> length (en_Name e) \<and> k \<noteq> [] \<or> \<not> entry_ok e"
proof -
  assume k: "k \<in> entry_dirs e"
  have name: "key_of (splitElem (en_Name e)) = en_Name e" by (simp add: key_of_def splitElem_def join_split_on)
  have b: "prefix (butlast xs) xs" for xs :: "bytes list" by (simp add: butlast_conv_take take_is_prefix)
  obtain p where p: "k = key_of p" "p \<noteq> []" "prefix p (splitElem (en_Name e))"
    using k b unfolding entry_dirs_def keys_on_def by (auto split: if_splits intro: prefix_order.trans)
  have "k \<noteq> []" if "entry_ok e"
  proof -
    have "plain_elems p" using that p(3) by (auto simp: entry_ok_def plain_elems_def dest: set_mono_prefix)
    from key_of_ne(1) [OF this p(2)] show ?thesis using p(1) by simp
  qed
  then show ?thesis using key_prefix_length [OF p(3)] p(1) name by auto
qed

subsection \<open>From entries to content\<close>

lemma tree_content_at: "tree_content t k = Some (F, S, D) \<Longrightarrow>
    F = set (dir_Files (dir_at t k)) \<and> S = set (dir_Symlinks (dir_at t k)) \<and>
    (\<exists>dir. mt_m t k = Some (Some dir) \<and> D = dn_Name ` set (dir_Directories dir))"
  by (auto simp: tree_content_def dir_content_def dir_at_def split: option.splits)

lemma plain_tree_content:
  assumes "plain_tree t"
  shows "content_plain (tree_content t)"
  unfolding content_plain_def
proof (intro allI impI)
  fix k F S D assume a: "tree_content t k = Some (F, S, D)"
  then obtain dir where dir: "mt_m t k = Some (Some dir)" "F = set (dir_Files dir)" "S = set (dir_Symlinks dir)"
    "D = dn_Name ` set (dir_Directories dir)"
    by (auto simp: tree_content_def dir_content_def split: option.splits)
  have "key_ok k" using tree_okD(3) [OF plain_treeD(1) [OF assms]] dir(1) by simp
  moreover have "\<forall>x \<in> set (dir_Directories dir). plain_elem (dn_Name x)"
    using tree_okD(4) [OF plain_treeD(1) [OF assms] dir(1)] by blast
  ultimately show "key_ok k \<and> (\<forall>f \<in> F. plain_elem (fn_Name f)) \<and> (\<forall>s \<in> S. plain_elem (sn_Name s)) \<and> (\<forall>n \<in> D. plain_elem n)"
    using plain_treeD(4,5) [OF assms dir(1)] dir(2-4) by blast
qed

lemma reach_snoc: "reach a k q \<Longrightarrow> a q = Some (F, S, D) \<Longrightarrow> n \<in> D \<Longrightarrow> reach a k (pathJoin q n)"
  by (induction rule: reach.induct) (auto intro: reach.intros)

lemma plain_reach:
  assumes t: "plain_tree t"
  shows "mt_m t k \<noteq> None \<Longrightarrow> reach (tree_content t) [] k"
proof (induction k rule: measure_induct_rule [of length])
  case (less k)
  show ?case
  proof (cases "k = []")
    case False
    then obtain q dir x where q: "mt_m t q = Some (Some dir)" "x \<in> set (dir_Directories dir)" "k = pathJoin q (dn_Name x)"
      using plain_treeD(7) [OF t less.prems] by blast
    have ok: "plain_elem (dn_Name x)" "key_ok q" using tree_okD(3,4) [OF plain_treeD(1) [OF t]] q(1,2) by blast+
    then have "length q < length k" using pathJoin_longer key_ok_not_dot q(3) by blast
    then have "reach (tree_content t) [] q" using less.IH q(1) by blast
    moreover have "tree_content t q = Some (set (dir_Files dir), set (dir_Symlinks dir), dn_Name ` set (dir_Directories dir))"
      using q(1) by (simp add: tree_content_def dir_content_def)
    ultimately show ?thesis using reach_snoc q(2,3) by blast
  qed (simp add: reach.here)
qed

lemma plain_below:
  assumes t: "plain_tree t"
  shows "files_below (tree_content t) [] = all_files t" "links_below (tree_content t) [] = all_links t"
    "dirs_below (tree_content t) [] = dom (mt_m t) - {[]}"
proof -
  have content: "tree_content t k = Some (set (dir_Files (dir_at t k)), set (dir_Symlinks (dir_at t k)), dn_Name ` set (dir_Directories (dir_at t k)))
      \<and> reach (tree_content t) [] k" if "mt_m t k \<noteq> None" for k
    using that plain_treeD(2) [OF t, of k] plain_reach [OF t that]
    by (auto simp: tree_content_def dir_content_def dir_at_def split: option.splits)
  have none: "mt_m t k = None \<Longrightarrow> tree_content t k = None \<and> dir_at t k = empty_dir" for k
    by (simp add: tree_content_def dir_at_def)
  show "files_below (tree_content t) [] = all_files t"
  proof (intro set_eqI iffI)
    fix x assume "x \<in> files_below (tree_content t) []"
    then show "x \<in> all_files t" unfolding files_below_def all_files_def using tree_content_at by fastforce
  next
    fix x assume "x \<in> all_files t"
    then obtain k f where k: "x = file_at k f" "f \<in> set (dir_Files (dir_at t k))" unfolding all_files_def by blast
    then have "mt_m t k \<noteq> None" using none [of k] by (cases "mt_m t k") (simp_all add: empty_dir_def)
    from content [OF this] show "x \<in> files_below (tree_content t) []" unfolding files_below_def using k by blast
  qed
  show "links_below (tree_content t) [] = all_links t"
  proof (intro set_eqI iffI)
    fix x assume "x \<in> links_below (tree_content t) []"
    then show "x \<in> all_links t" unfolding links_below_def all_links_def using tree_content_at by fastforce
  next
    fix x assume "x \<in> all_links t"
    then obtain k f where k: "x = link_at k f" "f \<in> set (dir_Symlinks (dir_at t k))" unfolding all_links_def by blast
    then have "mt_m t k \<noteq> None" using none [of k] by (cases "mt_m t k") (simp_all add: empty_dir_def)
    from content [OF this] show "x \<in> links_below (tree_content t) []" unfolding links_below_def using k by blast
  qed
  show "dirs_below (tree_content t) [] = dom (mt_m t) - {[]}"
  proof (intro set_eqI iffI)
    fix x assume "x \<in> dirs_below (tree_content t) []"
    then obtain k F S D n where x: "x = pathJoin k n" "tree_content t k = Some (F, S, D)" "n \<in> D" unfolding dirs_below_def by blast
    then obtain dir y where y: "mt_m t k = Some (Some dir)" "y \<in> set (dir_Directories dir)" "n = dn_Name y"
      using tree_content_at [OF x(2)] by blast
    have "plain_elem n" "mt_m t x \<noteq> None" using tree_okD(4) [OF plain_treeD(1) [OF t] y(1,2)] y(3) x(1) by simp_all
    then show "x \<in> dom (mt_m t) - {[]}" using x(1) plain_elem_ne by (auto simp: pathJoin_def)
  next
    fix x assume "x \<in> dom (mt_m t) - {[]}"
    then obtain k dir y where y: "mt_m t k = Some (Some dir)" "y \<in> set (dir_Directories dir)" "x = pathJoin k (dn_Name y)"
      using plain_treeD(7) [OF t] by blast
    have "tree_content t k = Some (set (dir_Files dir), set (dir_Symlinks dir), dn_Name ` set (dir_Directories dir))"
      using y(1) by (simp add: tree_content_def dir_content_def)
    moreover have "reach (tree_content t) [] k" using plain_reach [OF t] y(1) by simp
    ultimately show "x \<in> dirs_below (tree_content t) []" unfolding dirs_below_def using y(2,3) by blast
  qed
qed

text \<open>The content of consistent entries is consistent.\<close>

lemma entries_content:
  assumes t: "plain_tree t" and es: "entries_consistent es"
    and files: "all_files t = (\<Union>e \<in> set es. entry_files e)" and links: "all_links t = (\<Union>e \<in> set es. entry_links e)"
    and dirs: "dom (mt_m t) - {[]} = (\<Union>e \<in> set es. entry_dirs e)"
  shows "consistent_content (tree_content t)"
  unfolding consistent_content_def
proof (intro allI impI)
  fix k F S D assume a: "tree_content t k = Some (F, S, D)"
  have F: "file_at k f \<in> all_files t" if "f \<in> F" for f using tree_content_at [OF a] that by (auto simp: all_files_def)
  have S: "link_at k s \<in> all_links t" if "s \<in> S" for s using tree_content_at [OF a] that by (auto simp: all_links_def)
  have D: "pathJoin k n \<in> (\<Union>e \<in> set es. entry_dirs e) \<and> tree_content t (pathJoin k n) \<noteq> None" if nD: "n \<in> D" for n
  proof -
    obtain dir y where y: "mt_m t k = Some (Some dir)" "y \<in> set (dir_Directories dir)" "n = dn_Name y"
      using tree_content_at [OF a] nD by blast
    then have "plain_elem n" "mt_m t (pathJoin k n) \<noteq> None" using tree_okD(4) [OF plain_treeD(1) [OF t] y(1,2)] by simp_all
    moreover from this have "pathJoin k n \<noteq> []" using plain_elem_ne by (auto simp: pathJoin_def)
    moreover have "tree_content t (pathJoin k n) \<noteq> None"
      using plain_treeD(2) [OF t, of "pathJoin k n"] \<open>mt_m t (pathJoin k n) \<noteq> None\<close> by (auto simp: tree_content_def dir_content_def split: option.splits)
    ultimately show ?thesis using dirs by blast
  qed
  have file_entry: "\<not> entry_IsDir e \<and> entry_files e = {x} \<and> en_Name e = of_Path x" if "x \<in> entry_files e" for x e
    using that by (simp add: entry_files_def entry_IsDir_def split: if_splits)
  have link_entry: "\<not> entry_IsDir e \<and> entry_links e = {x} \<and> entry_files e = {} \<and> en_Name e = os_Path x" if "x \<in> entry_links e" for x e
    using that by (simp add: entry_links_def entry_files_def entry_IsSymlink_def entry_IsDir_def split: if_splits)
  have fileE: "\<exists>e \<in> set es. \<not> entry_IsDir e \<and> entry_files e = {file_at k f} \<and> en_Name e = pathJoin k (fn_Name f)" if fF: "f \<in> F" for f
  proof -
    obtain e where e: "e \<in> set es" "file_at k f \<in> entry_files e" using F [OF fF] files by blast
    show ?thesis using e(1) file_entry [OF e(2)] by (intro bexI [of _ e]) (simp_all add: file_at_def)
  qed
  have linkE: "\<exists>e \<in> set es. \<not> entry_IsDir e \<and> entry_links e = {link_at k s} \<and> entry_files e = {} \<and> en_Name e = pathJoin k (sn_Name s)"
    if sS: "s \<in> S" for s
  proof -
    obtain e where e: "e \<in> set es" "link_at k s \<in> entry_links e" using S [OF sS] links by blast
    show ?thesis using e(1) link_entry [OF e(2)] by (intro bexI [of _ e]) (simp_all add: link_at_def)
  qed
  have same: "entry_files e = entry_files e' \<and> entry_links e = entry_links e'"
    if "e \<in> set es" "e' \<in> set es" "\<not> entry_IsDir e" "\<not> entry_IsDir e'" "en_Name e = en_Name e'" for e e'
    using es [unfolded entries_consistent_def, rule_format, OF that(1-3)] that(4,5) by blast
  have apart: "en_Name e \<noteq> pathJoin k n" if e: "e \<in> set es" "\<not> entry_IsDir e" and n: "n \<in> D" for e n
  proof -
    obtain e' where e': "e' \<in> set es" "pathJoin k n \<in> entry_dirs e'" using D [OF n] by blast
    have "en_Name e \<notin> entry_dirs e'" using es e e'(1) by (simp add: entries_consistent_def)
    then show ?thesis using e'(2) by metis
  qed
  have "inj_on fn_Name F"
  proof (rule inj_onI)
    fix f g assume fg: "f \<in> F" "g \<in> F" "fn_Name f = fn_Name g"
    obtain e e' where e: "e \<in> set es" "\<not> entry_IsDir e" "entry_files e = {file_at k f}" "en_Name e = pathJoin k (fn_Name f)"
      and e': "e' \<in> set es" "\<not> entry_IsDir e'" "entry_files e' = {file_at k g}" "en_Name e' = pathJoin k (fn_Name g)"
      using fileE [OF fg(1)] fileE [OF fg(2)] by blast
    then have "file_at k f = file_at k g" using same [OF e(1) e'(1) e(2) e'(2)] fg(3) by simp
    then show "f = g" using fg(3) by (simp add: file_at_def fileNode.equality)
  qed
  moreover have "inj_on sn_Name S"
  proof (rule inj_onI)
    fix f g assume fg: "f \<in> S" "g \<in> S" "sn_Name f = sn_Name g"
    obtain e e' where e: "e \<in> set es" "\<not> entry_IsDir e" "entry_links e = {link_at k f}" "en_Name e = pathJoin k (sn_Name f)"
      and e': "e' \<in> set es" "\<not> entry_IsDir e'" "entry_links e' = {link_at k g}" "en_Name e' = pathJoin k (sn_Name g)"
      using linkE [OF fg(1)] linkE [OF fg(2)] by blast
    then have "link_at k f = link_at k g" using same [OF e(1) e'(1) e(2) e'(2)] fg(3) by simp
    then show "f = g" using fg(3) by (simp add: link_at_def symlinkNode.equality)
  qed
  moreover have "fn_Name f \<noteq> sn_Name s" if fs: "f \<in> F" "s \<in> S" for f s
  proof
    assume eq: "fn_Name f = sn_Name s"
    obtain e where e: "e \<in> set es" "\<not> entry_IsDir e" "entry_files e = {file_at k f}" "en_Name e = pathJoin k (fn_Name f)"
      using fileE [OF fs(1)] by blast
    obtain e' where e': "e' \<in> set es" "\<not> entry_IsDir e'" "entry_files e' = {}" "en_Name e' = pathJoin k (sn_Name s)"
      using linkE [OF fs(2)] by blast
    show False using same [OF e(1) e'(1) e(2) e'(2)] e(3,4) e'(3,4) eq by simp
  qed
  moreover have "fn_Name f \<notin> D" if "f \<in> F" for f using fileE [OF that] apart by blast
  moreover have "sn_Name s \<notin> D" if "s \<in> S" for s using linkE [OF that] apart by blast
  ultimately show "inj_on fn_Name F \<and> inj_on sn_Name S \<and> fn_Name ` F \<inter> sn_Name ` S = {} \<and> fn_Name ` F \<inter> D = {} \<and>
      sn_Name ` S \<inter> D = {} \<and> (\<forall>n \<in> D. tree_content t (pathJoin k n) \<noteq> None)"
    using D by blast
qed

text \<open>
  C12: Setting consistent entries never fails, and building the tree then succeeds unless a directory
  cannot be encoded. The digest that \<open>Build\<close> returns is in the store, and a traversal from it finds
  exactly the files and symlinks that were set, with their digests, modes and targets, and exactly
  the directories on the way to them. Hashes do not collide, and decoding inverts encoding.
\<close>

theorem merkle_roundtrip:
  assumes ok: "\<forall>e \<in> set es. entry_ok e" and con: "entries_consistent es" and len: "\<forall>e \<in> set es. length (en_Name e) \<le> N"
    and sha: "no_collision sha256" and dec: "decodes marshal unmarshal"
  shows "\<exists>t r. set_all es (merkle_New (Some ds)) = Inr t \<and> merkle_Build (Suc N) sha256 marshal t = Some r \<and>
    (case r of
       Inl err \<Rightarrow> err = Err ''marshal''
     | Inr (d, t') \<Rightarrow> \<exists>dir files links dirs. reads unmarshal (the (mt_store t')) d = Some dir \<and>
         traverse (Suc N) sha256 unmarshal (the (mt_store t')) [] dir = Some (files, links, dirs) \<and>
         set files = (\<Union>e \<in> set es. entry_files e) \<and> set links = (\<Union>e \<in> set es. entry_links e) \<and>
         od_Path ` set dirs = (\<Union>e \<in> set es. entry_dirs e))"
proof -
  have sym: "\<forall>s \<in> set es. \<forall>e \<in> set es. entry_IsSymlink s \<longrightarrow> en_Name s \<notin> entry_dirs e"
    using con unfolding entries_consistent_def entry_IsSymlink_def entry_IsDir_def by blast
  have ne: "en_Name e \<noteq> []" if "e \<in> set es" for e
    using ok that by (auto simp: entry_ok_def splitElem_def plain_elems_def plain_elem_def elem_ok_def)
  obtain t where t: "set_all es (merkle_New (Some ds)) = Inr t" "plain_tree t" "all_files t = (\<Union>e \<in> set es. entry_files e)"
    "all_links t = (\<Union>e \<in> set es. entry_links e)" "dom (mt_m t) = insert [] (\<Union>e \<in> set es. entry_dirs e)"
    using set_all_plain [OF plain_tree_New ok _ sym, of ds] ne by (auto simp: new_tree_empty) (auto simp: merkle_New_def)
  have dirs: "dom (mt_m t) - {[]} = (\<Union>e \<in> set es. entry_dirs e)"
    using t(5) entry_dirs_length ok by blast
  have keys: "length k \<le> N" if kd: "k \<in> dom (mt_m t)" for k
  proof (cases "k = []")
    case False
    then obtain e where "e \<in> set es" "k \<in> entry_dirs e" using kd t(5) by blast
    then show ?thesis using entry_dirs_length [of k e] ok len by (metis le_trans)
  qed simp
  define E where "E = \<lparr>be_sha = sha256, be_marshal = marshal, be_content = tree_content t, be_max = N\<rparr>"
  have content: "consistent_content (be_content E)" using entries_content [OF t(2) con t(3,4) dirs] by (simp add: E_def)
  have env: "env_ok E"
    unfolding env_ok_def
  proof (intro conjI allI impI)
    show "no_collision (be_sha E)" using sha by (simp add: E_def)
    fix k F S D assume a: "be_content E k = Some (F, S, D)"
    then have a': "tree_content t k = Some (F, S, D)" by (simp add: E_def)
    have m: "mt_m t k \<noteq> None" using tree_content_at [OF a'] by auto
    show "sn_Name ` S \<inter> D = {}" using content a unfolding consistent_content_def by blast
    show "length k \<le> be_max E" using keys [of k] m by (auto simp: E_def)
    show "\<forall>n \<in> D. length k < length (pathJoin k n)"
      using plain_tree_content [OF t(2)] a' pathJoin_longer key_ok_not_dot unfolding content_plain_def by blast
  qed
  have "node_right E t k x" if "mt_m t k = Some (Some dir)" "x \<in> set (dir_Directories dir)" "dn_Digest x \<noteq> None" for k dir x
    using plain_treeD(6) [OF t(2) that(1,2)] that(3) by simp
  then have inv: "build_inv E t" using plain_treeD(2,3) [OF t(2)] unfolding build_inv_def E_def by auto
  have dist: "dirs_distinct t" using plain_treeD(8) [OF t(2)] by (simp add: dirs_distinct_def)
  have root: "be_content E [] \<noteq> None"
    using tree_okD(2) [OF plain_treeD(1) [OF t(2)]] by (auto simp: E_def tree_content_def dir_content_def)
  note fine = buildTree_fine [OF env content, of "Suc N", unfolded build_fine_def, rule_format, OF inv dist root]
  note sound = buildTree_sound [OF env, of "Suc N", unfolded build_sound_def, rule_format, OF inv]
  have "built t (\<lambda>_ _. True) (buildTree (Suc N) sha256 marshal t [])"
    by (rule buildTree_built [OF plain_treeD(1) [OF t(2)] _ tree_okD(2) [OF plain_treeD(1) [OF t(2)]], where N = N])
      (use keys in auto)
  then show ?thesis
  proof (cases rule: builtE)
    case (1 e)
    then have "e = Err ''marshal''" using fine by (simp del: buildTree.simps add: E_def)
    then show ?thesis using t(1) 1(1) by (simp del: buildTree.simps add: merkle_Build_def)
  next
    case (2 dg t')
    then obtain g where g: "dg = Some g" "stands E t' [] g" using sound [of "[]" dg t'] by (auto simp del: buildTree.simps simp: E_def)
    then have "represents (Suc N) sha256 marshal (tree_content t) (the (mt_store t')) [] g" by (simp del: represents.simps add: stands_def E_def)
    from traverse_content [OF plain_tree_content [OF t(2)] dec this] obtain dir where
      dir: "reads unmarshal (the (mt_store t')) g = Some dir"
        "traversal_is sha256 (tree_content t) [] (traverse (Suc N) sha256 unmarshal (the (mt_store t')) [] dir)" by blast
    have "merkle_Build (Suc N) sha256 marshal t = Some (Inr (g, t'))"
      using 2(1) g(1) by (simp del: buildTree.simps add: merkle_Build_def digest_FromProto_def)
    then show ?thesis
      using t(1) dir unfolding traversal_is_def plain_below [OF t(2)] t(3,4) dirs by auto
  qed
qed

text \<open>A tree with a file in a subdirectory and a symlink; the encoding covers its two directories.\<close>

definition demo_file :: data where
  "demo_file = \<lparr>da_digest = \<lparr>dg_Hash = ''f0'', dg_SizeBytes = 3\<rparr>, da_source = None\<rparr>"

definition demo_entries :: "entry list" where
  "demo_entries =
     [\<lparr>en_Name = ''d/f'', en_Data = demo_file, en_IsExecutable = True, en_Target = []\<rparr>,
      \<lparr>en_Name = ''l'', en_Data = zero_data, en_IsExecutable = False, en_Target = ''d/f''\<rparr>,
      \<lparr>en_Name = ''d/f'', en_Data = demo_file, en_IsExecutable = True, en_Target = []\<rparr>]"

definition demo_sha :: "bytes \<Rightarrow> bytes" where
  "demo_sha b = CHR ''#'' # b"

definition demo_sub :: directory where
  "demo_sub = \<lparr>dir_Files = [\<lparr>fn_Name = ''f'', fn_Digest = Some (da_digest demo_file), fn_IsExecutable = True\<rparr>],
     dir_Symlinks = [], dir_Directories = []\<rparr>"

definition demo_root :: directory where
  "demo_root = \<lparr>dir_Files = [], dir_Symlinks = [\<lparr>sn_Name = ''l'', sn_Target = ''d/f''\<rparr>],
     dir_Directories = [\<lparr>dn_Name = ''d'', dn_Digest = Some (ofBytes demo_sha ''s'')\<rparr>]\<rparr>"

definition demo_marshal :: "directory \<Rightarrow> bytes option" where
  "demo_marshal d = (if d = demo_sub then Some ''s'' else if d = demo_root then Some ''r'' else None)"

definition demo_unmarshal :: "bytes \<Rightarrow> directory option" where
  "demo_unmarshal b = (if b = ''s'' then Some demo_sub else if b = ''r'' then Some demo_root else None)"

definition demo_builds :: bool where
  "demo_builds =
     (case set_all demo_entries (merkle_New (Some [])) of
        Inl _ \<Rightarrow> False
      | Inr t \<Rightarrow> (case merkle_Build 4 demo_sha demo_marshal t of Some (Inr _) \<Rightarrow> True | _ \<Rightarrow> False))"

lemma demo_builds: demo_builds
  by code_simp

lemma demo_codec: "no_collision demo_sha" "decodes demo_marshal demo_unmarshal"
proof -
  show "no_collision demo_sha"
    unfolding no_collision_def ofBytes_def demo_sha_def using hex_encode_inj by fastforce
  show "decodes demo_marshal demo_unmarshal"
    by (simp add: decodes_def demo_marshal_def demo_unmarshal_def)
qed

lemma demo_entries_ok: "\<forall>e \<in> set demo_entries. entry_ok e" "entries_consistent demo_entries"
  "\<forall>e \<in> set demo_entries. length (en_Name e) \<le> 3"
proof -
  have split: "splitElem ''d/f'' = [''d'', ''f'']" "splitElem ''l'' = [''l'']" by (simp_all add: splitElem_def)
  show "\<forall>e \<in> set demo_entries. entry_ok e"
    by (simp add: demo_entries_def entry_ok_def split plain_elems_def plain_elem_def elem_ok_def has_prefix_def
        data_IsZero_def digest_IsZero_def zero_data_def zero_digest_def)
  show "entries_consistent demo_entries"
    by (simp add: entries_consistent_def demo_entries_def entry_dirs_def entry_IsDir_def split keys_on_Cons key_of_def
        data_IsZero_def digest_IsZero_def zero_data_def zero_digest_def demo_file_def)
  show "\<forall>e \<in> set demo_entries. length (en_Name e) \<le> 3" by (simp add: demo_entries_def)
qed

theorem merkle_roundtrip_witness:
  "\<exists>t d t' dir files links dirs. set_all demo_entries (merkle_New (Some [])) = Inr t \<and>
     merkle_Build 4 demo_sha demo_marshal t = Some (Inr (d, t')) \<and>
     reads demo_unmarshal (the (mt_store t')) d = Some dir \<and>
     traverse 4 demo_sha demo_unmarshal (the (mt_store t')) [] dir = Some (files, links, dirs) \<and>
     set files = (\<Union>e \<in> set demo_entries. entry_files e) \<and> od_Path ` set dirs = (\<Union>e \<in> set demo_entries. entry_dirs e)"
proof -
  have 4: "4 = Suc 3" by simp
  obtain t r where t: "set_all demo_entries (merkle_New (Some [])) = Inr t" "merkle_Build 4 demo_sha demo_marshal t = Some r"
    and r: "case r of Inl err \<Rightarrow> err = Err ''marshal''
       | Inr (d, t') \<Rightarrow> \<exists>dir files links dirs. reads demo_unmarshal (the (mt_store t')) d = Some dir \<and>
         traverse 4 demo_sha demo_unmarshal (the (mt_store t')) [] dir = Some (files, links, dirs) \<and>
         set files = (\<Union>e \<in> set demo_entries. entry_files e) \<and> set links = (\<Union>e \<in> set demo_entries. entry_links e) \<and>
         od_Path ` set dirs = (\<Union>e \<in> set demo_entries. entry_dirs e)"
    using merkle_roundtrip [OF demo_entries_ok demo_codec, of "[]"] unfolding 4 by blast
  obtain d t' where "r = Inr (d, t')"
    using demo_builds t unfolding demo_builds_def by (cases r) auto
  then show ?thesis using t r by auto
qed

end
