(* ===== verification/Cas.thy ===== *)
theory Cas
  imports Merkle
begin

text \<open>
  The client of the content addressed storage (\<open>reapi/cas.go\<close>). The gRPC services, \<open>proto.Size\<close>, the
  compressors and the random part of upload names are operations of the parameter \<open>api\<close> on the
  service's own state. \<open>knownDigests\<close> is a map whose values are either \<open>true\<close> or a pointer to an
  upload operation, an index into the list of operations. A call that waits for the operation of
  another goroutine gets its outcome from the parameter \<open>others\<close>, which may also change the service.
  A stream write gets the digest beside the name that
  contains it. Goroutines of an error group run in list order. A result pairs the count with the error, which
  is \<open>None\<close> for nil.
\<close>

section \<open>State\<close>

datatype compressor = IDENTITY | ZSTD | DEFLATE | BROTLI

record request =
  rq_Digest :: "digest option"
  rq_Data :: bytes

record 'c api =
  api_FindMissing :: "'c \<Rightarrow> digest option list \<Rightarrow> digest option list res \<times> 'c"
  api_BatchUpdate :: "'c \<Rightarrow> bytes \<Rightarrow> request list \<Rightarrow> (digest option \<times> failure option) list res \<times> 'c"
  api_Write :: "'c \<Rightarrow> bytes \<Rightarrow> digest \<Rightarrow> bytes \<Rightarrow> unit res \<times> 'c"
  api_BatchRead :: "'c \<Rightarrow> digest option list \<Rightarrow> bytes list res"
  api_Read :: "'c \<Rightarrow> bytes \<Rightarrow> bytes res"
  api_encode :: "compressor \<Rightarrow> bytes \<Rightarrow> bytes"
  api_decode :: "compressor \<Rightarrow> bytes \<Rightarrow> bytes res"
  api_size :: "bytes \<Rightarrow> request list \<Rightarrow> nat"
  api_uuid :: "digest \<Rightarrow> bytes"

record uploadOp =
  uo_closed :: bool
  uo_err :: "failure option"

datatype known = Present | Op nat

record 'c client =
  cl_casConn :: bool
  cl_Instance :: bytes
  cl_CompressedBlob :: int
  cl_compressors :: "compressor list"
  cl_maxBatch :: int
  cl_knownDigests :: "digest \<Rightarrow> known option"
  cl_ops :: "uploadOp list"
  cl_cas :: 'c

definition bytestreamReadThreshold :: nat where "bytestreamReadThreshold = 2 * 1024 * 1024"
definition defaultBatchUpdateByteLimit :: int where "defaultBatchUpdateByteLimit = 4 * 1024 * 1024"
definition batchBlobUploadLimit :: nat where "batchBlobUploadLimit = 1000"

definition errUploadNotFinished :: failure where "errUploadNotFinished = Err ''upload not finished''"
definition errBlobNotInReq :: failure where "errBlobNotInReq = Err ''blob not in request''"

text \<open>Sequencing of a fallible operation on a state.\<close>

definition sbind :: "'a res \<times> 's \<Rightarrow> ('a \<Rightarrow> 's \<Rightarrow> 'b res \<times> 's) \<Rightarrow> 'b res \<times> 's" where
  "sbind m f = (case m of (Inl e, s) \<Rightarrow> (Inl e, s) | (Inr x, s) \<Rightarrow> f x s)"

lemma sbind_simps [simp]: "sbind (Inl e, s) f = (Inl e, s)" "sbind (Inr x, s) f = f x s"
  by (simp_all add: sbind_def)

text \<open>A call of the service.\<close>

definition with_cas :: "('c \<Rightarrow> 'a res \<times> 'c) \<Rightarrow> 'c client \<Rightarrow> 'a res \<times> 'c client" where
  "with_cas f c = (case f (cl_cas c) of (r, s) \<Rightarrow> (r, c\<lparr>cl_cas := s\<rparr>))"

section \<open>Upload operations\<close>

definition newUploadOp :: uploadOp where
  "newUploadOp = \<lparr>uo_closed = False, uo_err = Some errUploadNotFinished\<rparr>"

definition set_op :: "nat \<Rightarrow> uploadOp \<Rightarrow> 'c client \<Rightarrow> 'c client" where
  "set_op i u c = c\<lparr>cl_ops := (cl_ops c)[i := u]\<rparr>"

definition op_close :: "nat \<Rightarrow> 'c client \<Rightarrow> unit res \<times> 'c client" where
  "op_close i c =
     (let u = cl_ops c ! i in
      if uo_closed u then (Inl (Panic ''close of closed channel''), c)
      else (Inr (), set_op i (u\<lparr>uo_closed := True\<rparr>) c))"

definition op_done :: "nat \<Rightarrow> failure option \<Rightarrow> 'c client \<Rightarrow> unit res \<times> 'c client" where
  "op_done i err c = op_close i (set_op i ((cl_ops c ! i)\<lparr>uo_err := err\<rparr>) c)"

definition op_wait :: "(nat \<Rightarrow> 'c \<Rightarrow> failure option \<times> 'c) \<Rightarrow> nat \<Rightarrow> 'c client \<Rightarrow> failure option \<times> 'c client" where
  "op_wait others i c =
     (if uo_closed (cl_ops c ! i) then (uo_err (cl_ops c ! i), c)
      else case others i (cl_cas c) of (e, s) \<Rightarrow> (e, c\<lparr>cl_cas := s\<rparr>))"

text \<open>A Go map from digests to operations, such as \<open>newBlobs\<close>.\<close>

type_synonym uploads = "(digest \<times> nat) list"

text \<open>\<open>uploads[d].done(err)\<close>\<close>

definition uploads_done :: "uploads \<Rightarrow> digest \<Rightarrow> failure option \<Rightarrow> 'c client \<Rightarrow> unit res \<times> 'c client" where
  "uploads_done uploads d err c =
     (case map_of uploads d of None \<Rightarrow> (Inl (Panic ''nil pointer''), c) | Some i \<Rightarrow> op_done i err c)"

fun done_all :: "uploads \<Rightarrow> failure option \<Rightarrow> 'c client \<Rightarrow> unit res \<times> 'c client" where
  "done_all [] err c = (Inr (), c)"
| "done_all ((d, i) # us) err c = sbind (op_done i err c) (\<lambda>_. done_all us err)"

text \<open>\<open>sync.Map.CompareAndSwap\<close> and \<open>CompareAndDelete\<close> on \<open>knownDigests\<close>.\<close>

definition compareAndSwap :: "digest \<Rightarrow> nat \<Rightarrow> 'c client \<Rightarrow> 'c client" where
  "compareAndSwap d i c =
     (if cl_knownDigests c d = Some (Op i) then c\<lparr>cl_knownDigests := (cl_knownDigests c)(d \<mapsto> Present)\<rparr> else c)"

definition compareAndDelete :: "digest \<Rightarrow> nat \<Rightarrow> 'c client \<Rightarrow> 'c client" where
  "compareAndDelete d i c =
     (if cl_knownDigests c d = Some (Op i) then c\<lparr>cl_knownDigests := (cl_knownDigests c)(d := None)\<rparr> else c)"

section \<open>Names and compression\<close>

fun itoa :: "nat \<Rightarrow> bytes" where
  "itoa n = (if n < 10 then [hex_digit n] else itoa (n div 10) @ [hex_digit (n mod 10)])"

definition useCompressedBlob :: "'c client \<Rightarrow> digest \<Rightarrow> bool" where
  "useCompressedBlob c d \<longleftrightarrow> 0 < cl_CompressedBlob c \<and> cl_CompressedBlob c \<le> int (dg_SizeBytes d)"

definition getCompressor :: "'c client \<Rightarrow> compressor" where
  "getCompressor c = (case cl_compressors c of [] \<Rightarrow> IDENTITY | x # _ \<Rightarrow> x)"

fun compressor_name :: "compressor \<Rightarrow> bytes" where
  "compressor_name IDENTITY = ''identity''"
| "compressor_name ZSTD = ''zstd''"
| "compressor_name DEFLATE = ''deflate''"
| "compressor_name BROTLI = ''brotli''"

definition resourceName :: "'c client \<Rightarrow> digest \<Rightarrow> bytes" where
  "resourceName c d =
     (if useCompressedBlob c d
      then fp_join [cl_Instance c, ''compressed-blobs'', compressor_name (getCompressor c), dg_Hash d, itoa (dg_SizeBytes d)]
      else fp_join [cl_Instance c, ''blobs'', dg_Hash d, itoa (dg_SizeBytes d)])"

definition uploadResourceName :: "'c api \<Rightarrow> 'c client \<Rightarrow> digest \<Rightarrow> bytes" where
  "uploadResourceName api c d =
     (if useCompressedBlob c d
      then fp_join [cl_Instance c, ''uploads'', api_uuid api d, ''compressed-blobs'', compressor_name (getCompressor c),
        dg_Hash d, itoa (dg_SizeBytes d)]
      else fp_join [cl_Instance c, ''uploads'', api_uuid api d, ''blobs'', dg_Hash d, itoa (dg_SizeBytes d)])"

text \<open>Reading through \<open>newDecoder\<close> and writing through \<open>newEncoder\<close>.\<close>

definition newDecoder :: "'c api \<Rightarrow> 'c client \<Rightarrow> digest \<Rightarrow> bytes \<Rightarrow> bytes res" where
  "newDecoder api c d b =
     (if useCompressedBlob c d then
        if getCompressor c \<in> {ZSTD, DEFLATE} then api_decode api (getCompressor c) b
        else Inl (Err ''unsupported compressor'')
      else Inr b)"

definition newEncoder :: "'c api \<Rightarrow> 'c client \<Rightarrow> digest \<Rightarrow> bytes \<Rightarrow> bytes res" where
  "newEncoder api c d b =
     (if useCompressedBlob c d then
        if getCompressor c \<in> {ZSTD, DEFLATE} then Inr (api_encode api (getCompressor c) b)
        else Inl (Err ''unsupported compressor'')
      else Inr b)"

section \<open>Reading\<close>

definition getWithBatchReadBlobs :: "'c api \<Rightarrow> 'c client \<Rightarrow> digest \<Rightarrow> bytes res" where
  "getWithBatchReadBlobs api c d =
     rbind (api_BatchRead api (cl_cas c) [digest_Proto d]) (\<lambda>resp.
       if length resp \<noteq> 1 then Inl (Err ''failed to read blobs: responses'')
       else if length (resp ! 0) \<noteq> dg_SizeBytes d then Inl (Err ''failed to read blobs: size mismatch'')
       else Inr (resp ! 0))"

text \<open>\<open>io.ReadFull\<close> into a buffer of the digest's size.\<close>

definition readFull :: "nat \<Rightarrow> bytes \<Rightarrow> bytes res" where
  "readFull n b = (if length b < n then Inl (Err ''unexpected EOF'') else Inr (take n b))"

definition getWithByteStream :: "'c api \<Rightarrow> 'c client \<Rightarrow> digest \<Rightarrow> bytes res" where
  "getWithByteStream api c d =
     rbind (api_Read api (cl_cas c) (resourceName c d)) (\<lambda>r.
     rbind (newDecoder api c d r) (readFull (dg_SizeBytes d)))"

text \<open>\<open>None\<close> is the nil client.\<close>

definition cas_Get :: "'c api \<Rightarrow> 'c client option \<Rightarrow> digest \<Rightarrow> bytes res" where
  "cas_Get api client d =
     (case client of
        None \<Rightarrow> Inl (Err ''reapi is not configured'')
      | Some c \<Rightarrow>
          if dg_SizeBytes d = 0 then Inr []
          else if dg_SizeBytes d < bytestreamReadThreshold then getWithBatchReadBlobs api c d
          else getWithByteStream api c d)"

section \<open>Writing\<close>

definition missing :: "'c api \<Rightarrow> digest list \<Rightarrow> 'c client \<Rightarrow> digest list res \<times> 'c client" where
  "missing api blobs c =
     sbind (with_cas (\<lambda>s. api_FindMissing api s (map digest_Proto blobs)) c) (\<lambda>resp c. (Inr (map digest_FromProto resp), c))"

text \<open>The binary search of \<open>sort.Search\<close> between two bounds.\<close>

function search_loop :: "(nat \<Rightarrow> bool) \<Rightarrow> nat \<Rightarrow> nat \<Rightarrow> nat" where
  "search_loop f i j =
     (if i < j then
        let h = (i + j) div 2 in
        if \<not> f h then search_loop f (h + 1) j else search_loop f i h
      else i)"
  by pat_completeness auto
termination by (relation "measure (\<lambda>(f, i, j). j - i)") auto

declare search_loop.simps [simp del]

definition sort_Search :: "nat \<Rightarrow> (nat \<Rightarrow> bool) \<Rightarrow> nat" where
  "sort_Search n f = search_loop f 0 n"

text \<open>
  The sort is not stable in Go; a stable one is one of its outcomes. The dummy request holds zeros
  in place of the blob.
\<close>

definition dummy_request :: "digest \<Rightarrow> request" where
  "dummy_request d = \<lparr>rq_Digest = digest_Proto d, rq_Data = replicate (dg_SizeBytes d) NUL\<rparr>"

definition too_large :: "'c api \<Rightarrow> bytes \<Rightarrow> int \<Rightarrow> digest \<Rightarrow> bool" where
  "too_large api inst byteLimit d \<longleftrightarrow>
     byteLimit \<le> int (dg_SizeBytes d) \<or> byteLimit \<le> int (api_size api inst [dummy_request d])"

definition separateBlobs :: "'c api \<Rightarrow> bytes \<Rightarrow> digest list \<Rightarrow> int \<Rightarrow> digest list \<times> digest list" where
  "separateBlobs api inst blobs byteLimit =
     (if blobs = [] then ([], [])
      else
        let sorted = sort_key dg_SizeBytes blobs;
            i = sort_Search (length sorted) (\<lambda>i. too_large api inst byteLimit (sorted ! i)) in
        if i < length sorted then (take i sorted, drop i sorted) else (sorted, []))"

definition readAll :: "data \<Rightarrow> bytes res" where
  "readAll d = (case da_source d of None \<Rightarrow> Inl (Err ''open'') | Some b \<Rightarrow> Inr b)"

definition lookupBlobsInStore :: "digest list \<Rightarrow> digest_store \<Rightarrow> request list res" where
  "lookupBlobsInStore blobs ds =
     map_res (\<lambda>blob.
       case store_Get ds blob of
         None \<Rightarrow> Inl errBlobNotInReq
       | Some data \<Rightarrow> rbind (readAll data) (\<lambda>b. Inr \<lparr>rq_Digest = digest_Proto (da_digest data), rq_Data = b\<rparr>)) blobs"

text \<open>
  The loop of \<open>createBatchUpdateBlobsRequests\<close>: \<open>cur\<close> are the requests from \<open>lastOffset\<close> on, \<open>sz\<close> their
  size with that of the empty message.
\<close>

fun batch_loop :: "'c api \<Rightarrow> int \<Rightarrow> int \<Rightarrow> request list \<Rightarrow> int \<Rightarrow> request list \<Rightarrow> request list list" where
  "batch_loop api base byteLimit cur sz [] = []"
| "batch_loop api base byteLimit cur sz (r # rs) =
     (let total = sz + int (api_size api [] [r]); cur' = cur @ [r] in
      if rs = [] \<or> length cur' = batchBlobUploadLimit \<or>
         (0 < byteLimit \<and> byteLimit < total + int (api_size api [] (take 1 rs)))
      then cur' # batch_loop api base byteLimit [] base rs
      else batch_loop api base byteLimit cur' total rs)"

definition createBatchUpdateBlobsRequests :: "'c api \<Rightarrow> bytes \<Rightarrow> request list \<Rightarrow> int \<Rightarrow> request list list" where
  "createBatchUpdateBlobsRequests api inst blobReqs byteLimit =
     (let base = int (api_size api inst []) in batch_loop api base byteLimit [] base blobReqs)"

definition first_err :: "failure option \<Rightarrow> failure \<Rightarrow> failure option" where
  "first_err err e = (case err of None \<Rightarrow> Some e | Some _ \<Rightarrow> err)"

fun batch_results :: "uploads \<Rightarrow> digest_store \<Rightarrow> (digest option \<times> failure option) list \<Rightarrow> failure option \<Rightarrow> 'c client \<Rightarrow>
    unit res \<times> 'c client" where
  "batch_results uploads ds [] err c = (case err of None \<Rightarrow> Inr () | Some e \<Rightarrow> Inl e, c)"
| "batch_results uploads ds ((d, st) # rs) err c =
     (let blob = digest_FromProto d in
      case store_Get ds blob of
        None \<Rightarrow> batch_results uploads ds rs (first_err err (Err ''blob not found in store'')) c
      | Some _ \<Rightarrow>
          sbind (uploads_done uploads blob st c) (\<lambda>_.
            batch_results uploads ds rs (case st of None \<Rightarrow> err | Some e \<Rightarrow> first_err err e)))"

fun send_batches :: "'c api \<Rightarrow> uploads \<Rightarrow> digest_store \<Rightarrow> request list list \<Rightarrow> 'c client \<Rightarrow> unit res \<times> 'c client" where
  "send_batches api uploads ds [] c = (Inr (), c)"
| "send_batches api uploads ds (batchReq # batchReqs) c =
     (if \<exists>r \<in> set batchReq. rq_Digest r = None then (Inl (Panic ''nil pointer''), c)
      else
        sbind (with_cas (\<lambda>s. api_BatchUpdate api s (cl_Instance c) batchReq) c) (\<lambda>resp c.
        sbind (batch_results uploads ds resp None c) (\<lambda>_. send_batches api uploads ds batchReqs)))"

definition uploadWithBatchUpdateBlobs :: "'c api \<Rightarrow> digest list \<Rightarrow> uploads \<Rightarrow> digest_store \<Rightarrow> int \<Rightarrow> 'c client \<Rightarrow>
    unit res \<times> 'c client" where
  "uploadWithBatchUpdateBlobs api digests uploads ds byteLimit c =
     sbind (lookupBlobsInStore digests ds, c) (\<lambda>blobReqs.
       send_batches api uploads ds (createBatchUpdateBlobsRequests api (cl_Instance c) blobReqs byteLimit))"

definition uploadWithByteStream :: "'c api \<Rightarrow> data \<Rightarrow> 'c client \<Rightarrow> unit res \<times> 'c client" where
  "uploadWithByteStream api data c =
     sbind (rbind (readAll data) (newEncoder api c (da_digest data)), c) (\<lambda>b.
       with_cas (\<lambda>s. api_Write api s (uploadResourceName api c (da_digest data)) (da_digest data) b))"

fun stream_loop :: "'c api \<Rightarrow> uploads \<Rightarrow> digest_store \<Rightarrow> digest list \<Rightarrow> failure option \<Rightarrow> 'c client \<Rightarrow>
    unit res \<times> 'c client" where
  "stream_loop api uploads ds [] err c = (case err of None \<Rightarrow> Inr () | Some e \<Rightarrow> Inl e, c)"
| "stream_loop api uploads ds (d # digests) err c =
     (let (r, c1) =
        (case store_Get ds d of
           None \<Rightarrow> (Inl (Err ''blob not found in store''), c)
         | Some data \<Rightarrow> uploadWithByteStream api data c);
       e = (case r of Inl e \<Rightarrow> Some e | Inr _ \<Rightarrow> None) in
      sbind (uploads_done uploads d e c1) (\<lambda>_.
        stream_loop api uploads ds digests (case e of None \<Rightarrow> err | Some e \<Rightarrow> first_err err e)))"

definition uploadAllWithByteStream :: "'c api \<Rightarrow> digest list \<Rightarrow> uploads \<Rightarrow> digest_store \<Rightarrow> 'c client \<Rightarrow> unit res \<times> 'c client" where
  "uploadAllWithByteStream api digests uploads ds c = stream_loop api uploads ds digests None c"

definition byte_limit :: "'c client \<Rightarrow> int" where
  "byte_limit c = (if 0 < cl_maxBatch c then cl_maxBatch c else defaultBatchUpdateByteLimit)"

fun is_panic :: "failure \<Rightarrow> bool" where
  "is_panic (Panic m) = True"
| "is_panic (Err m) = False"

text \<open>
  An error of the byte stream uploads is not returned: \<open>upload\<close> reports that nothing was uploaded, and
  no error. A panic ends the process.
\<close>

definition upload :: "'c api \<Rightarrow> digest_store \<Rightarrow> digest list \<Rightarrow> uploads \<Rightarrow> 'c client \<Rightarrow> nat res \<times> 'c client" where
  "upload api ds blobs uploads c =
     (let (smalls, larges) = separateBlobs api (cl_Instance c) blobs (byte_limit c) in
      sbind (if smalls \<noteq> [] then uploadWithBatchUpdateBlobs api smalls uploads ds (byte_limit c) c else (Inr (), c)) (\<lambda>_ c.
        if larges = [] then (Inr (length blobs), c)
        else
          case uploadAllWithByteStream api larges uploads ds c of
            (Inl e, c1) \<Rightarrow> if is_panic e then (Inl e, c1) else (Inr 0, c1)
          | (Inr _, c1) \<Rightarrow> (Inr (length blobs), c1)))"

text \<open>The partition of the blobs: the new ones, the pending ones and the number of skipped ones.\<close>

fun partition_blobs :: "digest list \<Rightarrow> 'c client \<Rightarrow> uploads \<times> uploads \<times> nat \<times> 'c client" where
  "partition_blobs [] c = ([], [], 0, c)"
| "partition_blobs (d # ds) c =
     (case cl_knownDigests c d of
        Some Present \<Rightarrow> (case partition_blobs ds c of (new, pending, skipped, c1) \<Rightarrow> (new, pending, skipped + 1, c1))
      | Some (Op i) \<Rightarrow> (case partition_blobs ds c of (new, pending, skipped, c1) \<Rightarrow> (new, (d, i) # pending, skipped, c1))
      | None \<Rightarrow>
          let i = length (cl_ops c) in
          (case partition_blobs ds (c\<lparr>cl_knownDigests := (cl_knownDigests c)(d \<mapsto> Op i), cl_ops := cl_ops c @ [newUploadOp]\<rparr>) of
             (new, pending, skipped, c1) \<Rightarrow> ((d, i) # new, pending, skipped, c1)))"

fun finish_found :: "uploads \<Rightarrow> 'c client \<Rightarrow> unit res \<times> 'c client" where
  "finish_found [] c = (Inr (), c)"
| "finish_found ((d, i) # us) c = sbind (op_done i None (compareAndSwap d i c)) (\<lambda>_. finish_found us)"

fun wait_pending :: "(nat \<Rightarrow> 'c \<Rightarrow> failure option \<times> 'c) \<Rightarrow> uploads \<Rightarrow> 'c client \<Rightarrow> unit res \<times> 'c client" where
  "wait_pending others [] c = (Inr (), c)"
| "wait_pending others ((d, i) # us) c =
     (case op_wait others i c of (Some e, c1) \<Rightarrow> (Inl e, c1) | (None, c1) \<Rightarrow> wait_pending others us c1)"

text \<open>The deferred function.\<close>

fun finish_new :: "uploads \<Rightarrow> failure option \<Rightarrow> 'c client \<Rightarrow> unit res \<times> 'c client" where
  "finish_new [] err c = (Inr (), c)"
| "finish_new ((d, i) # us) err c =
     (let u = cl_ops c ! i in
      if uo_err u = None then finish_new us err (compareAndSwap d i c)
      else if uo_err u = Some errUploadNotFinished then
        sbind (op_close i (if err \<noteq> None then set_op i (u\<lparr>uo_err := err\<rparr>) c else c)) (\<lambda>_. finish_new us err)
      else finish_new us err (compareAndDelete d i c))"

text \<open>
  The body of \<open>UploadAll\<close> behind the partition: the result, the new blobs that are left for the
  deferred function, and the client.
\<close>

definition upload_new :: "'c api \<Rightarrow> digest_store \<Rightarrow> uploads \<Rightarrow> 'c client \<Rightarrow> nat res \<times> uploads \<times> 'c client" where
  "upload_new api ds new c =
     (if new = [] then (Inr 0, new, c)
      else
        case missing api (map fst new) c of
          (Inl e, c1) \<Rightarrow> (case done_all new (Some e) c1 of (Inl p, c2) \<Rightarrow> (Inl p, new, c2) | (Inr _, c2) \<Rightarrow> (Inl e, new, c2))
        | (Inr missingBlobs, c1) \<Rightarrow>
            let found = filter (\<lambda>(d, _). d \<notin> set missingBlobs) new;
                left = filter (\<lambda>(d, _). d \<in> set missingBlobs) new in
            case finish_found found c1 of
              (Inl p, c2) \<Rightarrow> (Inl p, left, c2)
            | (Inr _, c2) \<Rightarrow>
                if missingBlobs = [] then (Inr 0, left, c2)
                else (case upload api ds missingBlobs left c2 of (r, c3) \<Rightarrow> (r, left, c3)))"

definition uploadAll :: "'c api \<Rightarrow> (nat \<Rightarrow> 'c \<Rightarrow> failure option \<times> 'c) \<Rightarrow> digest_store \<Rightarrow> 'c client \<Rightarrow>
    nat res \<times> 'c client" where
  "uploadAll api others ds c =
     (if \<not> cl_casConn c then (Inl (Err ''conn is not configured''), c)
      else
        let (new, pending, skipped, c1) = partition_blobs (store_List ds) c;
            (r, left, c2) = upload_new api ds new c1;
            (r', c3) = sbind (r, c2) (\<lambda>n c. sbind (wait_pending others pending c) (\<lambda>_ c. (Inr n, c))) in
        if (case r' of Inl e \<Rightarrow> is_panic e | Inr _ \<Rightarrow> False) then (r', c3)
        else
          case finish_new left (case r' of Inl e \<Rightarrow> Some e | Inr _ \<Rightarrow> None) c3 of
            (Inl p, c4) \<Rightarrow> (Inl p, c4)
          | (Inr _, c4) \<Rightarrow> (r', c4))"

end
