(* ===== verification/Cas_Proofs.thy ===== *)
theory Cas_Proofs
  imports Cas "HOL-Library.Multiset"
begin

text \<open>
  Lemmas on the storage client: the binary search, the split of the blobs by size and the bundling
  into batches; and the contract of the service with what every operation keeps under it.
\<close>

section \<open>Searching and bundling\<close>

lemma search_loop_spec:
  assumes "i \<le> j" "\<And>a b. i \<le> a \<Longrightarrow> a \<le> b \<Longrightarrow> b < j \<Longrightarrow> f a \<Longrightarrow> f b"
  shows "i \<le> search_loop f i j \<and> search_loop f i j \<le> j \<and> (\<forall>k. i \<le> k \<and> k < search_loop f i j \<longrightarrow> \<not> f k) \<and>
    (\<forall>k. search_loop f i j \<le> k \<and> k < j \<longrightarrow> f k)"
  using assms
proof (induction f i j rule: search_loop.induct)
  case (1 f i j)
  define h where "h = (i + j) div 2"
  show ?case
  proof (cases "i < j")
    case True
    have h: "i \<le> h" "h < j" using True by (auto simp: h_def)
    show ?thesis
    proof (cases "f h")
      case False
      have below: "\<not> f k" if "i \<le> k" "k \<le> h" for k using "1.prems"(2) [of k h] that h(2) False by blast
      have eq: "search_loop f i j = search_loop f (h + 1) j"
        using True False by (simp add: search_loop.simps [of f i j] h_def Let_def)
      have IH: "h + 1 \<le> search_loop f (h + 1) j \<and> search_loop f (h + 1) j \<le> j \<and>
          (\<forall>k. h + 1 \<le> k \<and> k < search_loop f (h + 1) j \<longrightarrow> \<not> f k) \<and> (\<forall>k. search_loop f (h + 1) j \<le> k \<and> k < j \<longrightarrow> f k)"
        
      proof (rule "1.IH"(1) [OF True h_def False])
        show "f b" if "h + 1 \<le> a" "a \<le> b" "b < j" "f a" for a b by (rule "1.prems"(2) [OF _ that(2-4)]) (use that(1) h in simp)
      qed (use h in simp)
      then show ?thesis unfolding eq using below h by (auto simp: not_less_eq_eq) (metis Suc_leI not_less)
    next
      case fh: True
      have above: "f k" if "h \<le> k" "k < j" for k using "1.prems"(2) [of h k] that h(1) fh by blast
      have eq: "search_loop f i j = search_loop f i h"
        using True fh by (simp add: search_loop.simps [of f i j] h_def Let_def)
      have IH: "i \<le> search_loop f i h \<and> search_loop f i h \<le> h \<and>
          (\<forall>k. i \<le> k \<and> k < search_loop f i h \<longrightarrow> \<not> f k) \<and> (\<forall>k. search_loop f i h \<le> k \<and> k < h \<longrightarrow> f k)"
        
      proof (rule "1.IH"(2) [OF True h_def])
        show "f b" if "i \<le> a" "a \<le> b" "b < h" "f a" for a b by (rule "1.prems"(2) [OF that(1,2) _ that(4)]) (use that(3) h in simp)
      qed (use fh h in simp_all)
      then show ?thesis unfolding eq using above h by (auto) (metis not_less)
    qed
  next
    case False
    then have "search_loop f i j = i" by (simp add: search_loop.simps [of f i j])
    then show ?thesis using False "1.prems"(1) by auto
  qed
qed

lemma separateBlobs_spec:
  assumes mono: "\<And>a b. a \<in> set blobs \<Longrightarrow> b \<in> set blobs \<Longrightarrow> dg_SizeBytes a \<le> dg_SizeBytes b \<Longrightarrow>
      api_size api inst [dummy_request a] \<le> api_size api inst [dummy_request b]"
    and sep: "separateBlobs api inst blobs limit = (smalls, larges)"
  shows "mset (smalls @ larges) = mset blobs" "\<forall>d \<in> set smalls. \<not> too_large api inst limit d" "\<forall>d \<in> set larges. too_large api inst limit d"
proof -
  define xs where "xs = sort_key dg_SizeBytes blobs"
  define f where "f = (\<lambda>i. too_large api inst limit (xs ! i))"
  define i where "i = sort_Search (length xs) f"
  have xs: "mset xs = mset blobs" "sorted (map dg_SizeBytes xs)" by (simp_all add: xs_def)
  have mono_f: "f b" if "a \<le> b" "b < length xs" "f a" for a b
  proof -
    have le: "dg_SizeBytes (xs ! a) \<le> dg_SizeBytes (xs ! b)"
      using sorted_nth_mono [OF xs(2) that(1)] that by simp
    moreover have "xs ! a \<in> set blobs" "xs ! b \<in> set blobs"
      unfolding mset_eq_setD [OF xs(1), symmetric] using that(1,2) by simp_all
    ultimately have "api_size api inst [dummy_request (xs ! a)] \<le> api_size api inst [dummy_request (xs ! b)]" using mono by blast
    then show ?thesis using that(3) le unfolding f_def too_large_def by (metis order_trans of_nat_le_iff)
  qed
  have "0 \<le> i \<and> i \<le> length xs \<and> (\<forall>k. 0 \<le> k \<and> k < i \<longrightarrow> \<not> f k) \<and> (\<forall>k. i \<le> k \<and> k < length xs \<longrightarrow> f k)"
    unfolding i_def sort_Search_def by (rule search_loop_spec) (simp, erule (2) mono_f)
  then have spec: "i \<le> length xs" "\<forall>k < i. \<not> f k" "\<forall>k. i \<le> k \<and> k < length xs \<longrightarrow> f k" by simp_all
  have eq: "smalls = take i xs \<and> larges = drop i xs"
  proof (cases "blobs = []")
    case True
    then show ?thesis using sep xs by (simp add: separateBlobs_def)
  next
    case False
    then show ?thesis
      using sep spec(1) by (auto simp: separateBlobs_def xs_def [symmetric] f_def [symmetric] i_def [symmetric] Let_def split: if_splits)
  qed
  show "mset (smalls @ larges) = mset blobs" using eq xs(1) by simp
  show "\<forall>d \<in> set smalls. \<not> too_large api inst limit d"
    using eq spec(1,2) by (auto simp: in_set_conv_nth f_def)
  show "\<forall>d \<in> set larges. too_large api inst limit d"
    using eq spec(3) by (auto simp: in_set_conv_nth f_def)
qed

definition weight :: "'c api \<Rightarrow> request list \<Rightarrow> int" where
  "weight api rs = (\<Sum>r\<leftarrow>rs. int (api_size api [] [r]))"

lemma batch_loop_spec:
  assumes "\<And>r. r \<in> set rs \<Longrightarrow> base + int (api_size api [] [r]) \<le> limit" "0 < limit" "length cur < batchBlobUploadLimit"
    and "sz = base + weight api cur" "rs \<noteq> [] \<Longrightarrow> sz + int (api_size api [] [hd rs]) \<le> limit"
  shows "concat (batch_loop api base limit cur sz rs) = (if rs = [] then [] else cur @ rs) \<and>
    (\<forall>b \<in> set (batch_loop api base limit cur sz rs). b \<noteq> [] \<and> length b \<le> batchBlobUploadLimit \<and> base + weight api b \<le> limit)"
  using assms
proof (induction api base limit cur sz rs rule: batch_loop.induct)
  case (2 api base limit cur sz r rs)
  define sz' where "sz' = sz + int (api_size api [] [r])"
  have w: "sz' = base + weight api (cur @ [r])" using "2.prems"(4) by (simp add: sz'_def weight_def)
  have le: "sz' \<le> limit" using "2.prems"(5) by (simp add: sz'_def)
  define stop where "stop \<longleftrightarrow> rs = [] \<or> length (cur @ [r]) = batchBlobUploadLimit \<or>
     (0 < limit \<and> limit < sz' + int (api_size api [] (take 1 rs)))"
  show ?case
  proof (cases stop)
    case True
    have eq: "batch_loop api base limit cur sz (r # rs) = (cur @ [r]) # batch_loop api base limit [] base rs"
      using True by (simp add: stop_def sz'_def Let_def)
    have rest: "concat (batch_loop api base limit [] base rs) = (if rs = [] then [] else [] @ rs) \<and>
        (\<forall>b \<in> set (batch_loop api base limit [] base rs). b \<noteq> [] \<and> length b \<le> batchBlobUploadLimit \<and> base + weight api b \<le> limit)"
      using True "2.prems"(1,2)
      by (intro "2.IH"(1) [OF sz'_def refl]) (simp_all add: stop_def weight_def batchBlobUploadLimit_def)
    have "length (cur @ [r]) \<le> batchBlobUploadLimit" "base + weight api (cur @ [r]) \<le> limit" using "2.prems"(3) w le by simp_all
    then show ?thesis using rest unfolding eq by simp
  next
    case False
    have one: "take 1 rs = [hd rs]" using False by (cases rs) (simp_all add: stop_def)
    have "concat (batch_loop api base limit (cur @ [r]) sz' rs) = (if rs = [] then [] else (cur @ [r]) @ rs) \<and>
        (\<forall>b \<in> set (batch_loop api base limit (cur @ [r]) sz' rs). b \<noteq> [] \<and> length b \<le> batchBlobUploadLimit \<and> base + weight api b \<le> limit)"
      using False "2.prems"(1,2,3) w one
      by (intro "2.IH"(2) [OF sz'_def refl]) (simp_all add: stop_def)
    moreover have "batch_loop api base limit cur sz (r # rs) = batch_loop api base limit (cur @ [r]) sz' rs" "rs \<noteq> []"
      using False unfolding stop_def sz'_def batch_loop.simps(2) Let_def by (simp_all only: if_False de_Morgan_disj simp_thms)
    ultimately show ?thesis by simp
  qed
qed simp

lemma batch_loop_concat: "concat (batch_loop api base limit cur sz rs) = (if rs = [] then [] else cur @ rs)"
  by (induction api base limit cur sz rs rule: batch_loop.induct) (auto simp: Let_def)

lemma separateBlobs_small:
  assumes "\<forall>d \<in> set blobs. \<not> too_large api inst limit d"
  shows "separateBlobs api inst blobs limit = (sort_key dg_SizeBytes blobs, [])"
proof -
  define xs where "xs = sort_key dg_SizeBytes blobs"
  define f where "f = (\<lambda>i. too_large api inst limit (xs ! i))"
  have no: "\<not> f k" if "k < length xs" for k
    using assms nth_mem [OF that] by (simp add: f_def xs_def)
  have "0 \<le> search_loop f 0 (length xs) \<and> search_loop f 0 (length xs) \<le> length xs \<and>
      (\<forall>k. 0 \<le> k \<and> k < search_loop f 0 (length xs) \<longrightarrow> \<not> f k) \<and> (\<forall>k. search_loop f 0 (length xs) \<le> k \<and> k < length xs \<longrightarrow> f k)"
    by (rule search_loop_spec) (use no in \<open>simp, blast dest: le_less_trans\<close>)
  then have "\<not> sort_Search (length xs) f < length xs" unfolding sort_Search_def using no by (metis le_refl)
  then show ?thesis by (simp add: separateBlobs_def xs_def [symmetric] f_def [symmetric] Let_def) (simp add: xs_def)
qed

lemma map_res_nth: "map_res f xs = Inr ys \<Longrightarrow> i < length xs \<Longrightarrow> f (xs ! i) = Inr (ys ! i)"
proof (induction xs arbitrary: ys i)
  case (Cons x xs)
  then show ?case by (cases i) (auto simp: rbind_eq_Inr)
qed simp

lemma weight_int: "weight api rs = int (\<Sum>r\<leftarrow>rs. api_size api [] [r])"
  by (induction rs) (simp_all add: weight_def)

section \<open>What the client keeps\<close>

text \<open>
  Digests that are marked present are stored, and so is the digest of an operation that ended
  without an error. No two digests share an operation.
\<close>

definition client_ok :: "('c \<Rightarrow> digest set) \<Rightarrow> 'c client \<Rightarrow> bool" where
  "client_ok stored c \<longleftrightarrow>
     (\<forall>d. cl_knownDigests c d = Some Present \<longrightarrow> d \<in> stored (cl_cas c)) \<and>
     (\<forall>d i. cl_knownDigests c d = Some (Op i) \<longrightarrow>
        i < length (cl_ops c) \<and> (uo_err (cl_ops c ! i) = None \<longrightarrow> d \<in> stored (cl_cas c))) \<and>
     (\<forall>d d' i. cl_knownDigests c d = Some (Op i) \<longrightarrow> cl_knownDigests c d' = Some (Op i) \<longrightarrow> d = d')"

lemma client_okD:
  assumes "client_ok stored c"
  shows "cl_knownDigests c d = Some Present \<Longrightarrow> d \<in> stored (cl_cas c)"
    and "cl_knownDigests c d = Some (Op i) \<Longrightarrow> i < length (cl_ops c)"
    and "cl_knownDigests c d = Some (Op i) \<Longrightarrow> uo_err (cl_ops c ! i) = None \<Longrightarrow> d \<in> stored (cl_cas c)"
    and "cl_knownDigests c d = Some (Op i) \<Longrightarrow> cl_knownDigests c d' = Some (Op i) \<Longrightarrow> d = d'"
  using assms unfolding client_ok_def by blast+

text \<open>Other goroutines report success only for stored blobs.\<close>

definition honest_others :: "('c \<Rightarrow> digest set) \<Rightarrow> (nat \<Rightarrow> 'c \<Rightarrow> failure option \<times> 'c) \<Rightarrow> 'c client \<Rightarrow> bool" where
  "honest_others stored others c \<longleftrightarrow>
     (\<forall>d i s s'. cl_knownDigests c d = Some (Op i) \<longrightarrow> others i s = (None, s') \<longrightarrow> d \<in> stored s')"

definition same_options :: "'c client \<Rightarrow> 'c client \<Rightarrow> bool" where
  "same_options c c' \<longleftrightarrow> cl_casConn c' = cl_casConn c \<and> cl_Instance c' = cl_Instance c \<and> cl_maxBatch c' = cl_maxBatch c \<and>
     cl_CompressedBlob c' = cl_CompressedBlob c \<and> cl_compressors c' = cl_compressors c"

text \<open>A step of the client: nothing stored is lost and no operation is attached to another digest.\<close>

definition moves :: "('c \<Rightarrow> digest set) \<Rightarrow> 'c client \<Rightarrow> 'c client \<Rightarrow> bool" where
  "moves stored c c' \<longleftrightarrow> client_ok stored c' \<and> stored (cl_cas c) \<subseteq> stored (cl_cas c') \<and> length (cl_ops c') = length (cl_ops c) \<and>
     same_options c c' \<and> (\<forall>d i. cl_knownDigests c' d = Some (Op i) \<longrightarrow> cl_knownDigests c d = Some (Op i))"

lemma movesI:
  assumes "client_ok stored c'" "stored (cl_cas c) \<subseteq> stored (cl_cas c')" "length (cl_ops c') = length (cl_ops c)" "same_options c c'"
    and "\<And>d i. cl_knownDigests c' d = Some (Op i) \<Longrightarrow> cl_knownDigests c d = Some (Op i)"
  shows "moves stored c c'"
  using assms unfolding moves_def by blast

lemma movesD:
  assumes "moves stored c c'"
  shows "client_ok stored c'" "stored (cl_cas c) \<subseteq> stored (cl_cas c')" "length (cl_ops c') = length (cl_ops c)" "same_options c c'"
    and "cl_knownDigests c' d = Some (Op i) \<Longrightarrow> cl_knownDigests c d = Some (Op i)"
  using assms unfolding moves_def by blast+

lemma moves_refl: "client_ok stored c \<Longrightarrow> moves stored c c"
  by (rule movesI) (simp_all add: same_options_def)

lemma moves_trans:
  assumes "moves stored c c'" "moves stored c' c''"
  shows "moves stored c c''"
proof (rule movesI)
  show "client_ok stored c''" by (rule movesD(1) [OF assms(2)])
  show "stored (cl_cas c) \<subseteq> stored (cl_cas c'')" using movesD(2) [OF assms(1)] movesD(2) [OF assms(2)] by blast
  show "length (cl_ops c'') = length (cl_ops c)" using movesD(3) [OF assms(1)] movesD(3) [OF assms(2)] by simp
  show "same_options c c''" using movesD(4) [OF assms(1)] movesD(4) [OF assms(2)] by (simp add: same_options_def)
  show "cl_knownDigests c d = Some (Op i)" if "cl_knownDigests c'' d = Some (Op i)" for d i
    using movesD(5) [OF assms(1) movesD(5) [OF assms(2) that]] .
qed

definition owns :: "uploads \<Rightarrow> 'c client \<Rightarrow> bool" where
  "owns us c \<longleftrightarrow> (\<forall>(d, i) \<in> set us. i < length (cl_ops c) \<and> (\<forall>d'. cl_knownDigests c d' = Some (Op i) \<longrightarrow> d' = d))"

lemma owns_moves: "owns us c \<Longrightarrow> moves stored c c' \<Longrightarrow> owns us c'"
  unfolding owns_def moves_def by fastforce

lemma owns_simps [simp]: "owns [] c"
  "owns ((d, i) # us) c \<longleftrightarrow> i < length (cl_ops c) \<and> (\<forall>d'. cl_knownDigests c d' = Some (Op i) \<longrightarrow> d' = d) \<and> owns us c"
  by (auto simp: owns_def)

lemma owns_map_of: "owns us c \<Longrightarrow> map_of us d = Some i \<Longrightarrow> i < length (cl_ops c) \<and> (\<forall>d'. cl_knownDigests c d' = Some (Op i) \<longrightarrow> d' = d)"
  unfolding owns_def by (auto dest: map_of_SomeD)

lemma owns_filter: "owns us c \<Longrightarrow> owns (filter P us) c"
  by (auto simp: owns_def)

lemma moves_set_op:
  assumes ok: "client_ok stored c"
    and err: "\<And>d. cl_knownDigests c d = Some (Op i) \<Longrightarrow> uo_err u = None \<Longrightarrow> d \<in> stored (cl_cas c)"
  shows "moves stored c (set_op i u c)"
proof (rule movesI)
  show "client_ok stored (set_op i u c)"
    using ok err unfolding client_ok_def set_op_def by (auto simp: nth_upd split: if_splits)
qed (simp_all add: set_op_def same_options_def)

lemma op_close_moves:
  assumes ok: "client_ok stored c"
  shows "moves stored c (snd (op_close i c))"
proof (cases "uo_closed (cl_ops c ! i)")
  case True
  then show ?thesis by (simp add: op_close_def moves_refl [OF ok] Let_def)
next
  case False
  have "moves stored c (set_op i ((cl_ops c ! i)\<lparr>uo_closed := True\<rparr>) c)"
    by (rule moves_set_op [OF ok]) (use client_okD(3) [OF ok] in simp)
  then show ?thesis using False by (simp add: op_close_def Let_def)
qed

lemma op_done_moves:
  assumes ok: "client_ok stored c" and err: "\<And>d. cl_knownDigests c d = Some (Op i) \<Longrightarrow> err = None \<Longrightarrow> d \<in> stored (cl_cas c)"
  shows "moves stored c (snd (op_done i err c))"
proof -
  have "moves stored c (set_op i ((cl_ops c ! i)\<lparr>uo_err := err\<rparr>) c)"
    by (rule moves_set_op [OF ok]) (use err in simp)
  then show ?thesis unfolding op_done_def using op_close_moves movesD(1) moves_trans by blast
qed

lemma op_done_cas [simp]: "cl_cas (snd (op_done i err c)) = cl_cas c" "cl_cas (snd (op_close i c)) = cl_cas c"
  by (simp_all add: op_done_def op_close_def set_op_def Let_def)

lemma uploads_done_moves:
  assumes "client_ok stored c" "owns us c" "err = None \<Longrightarrow> d \<in> stored (cl_cas c)"
  shows "moves stored c (snd (uploads_done us d err c))"
proof (cases "map_of us d")
  case None
  then show ?thesis by (simp add: uploads_done_def moves_refl assms(1))
next
  case (Some i)
  then show ?thesis
    using op_done_moves [OF assms(1), of i err] owns_map_of [OF assms(2) Some] assms(3) by (auto simp: uploads_done_def)
qed

lemma uploads_done_cas [simp]: "cl_cas (snd (uploads_done us d err c)) = cl_cas c"
  by (simp add: uploads_done_def split: option.split)

lemma moves_swap:
  assumes ok: "client_ok stored c" and d: "d \<in> stored (cl_cas c)"
  shows "moves stored c (compareAndSwap d i c)"
proof (rule movesI)
  show "client_ok stored (compareAndSwap d i c)"
    using ok d unfolding client_ok_def compareAndSwap_def by auto
qed (auto simp: compareAndSwap_def same_options_def split: if_splits)

lemma moves_delete:
  assumes ok: "client_ok stored c"
  shows "moves stored c (compareAndDelete d i c)"
proof (rule movesI)
  show "client_ok stored (compareAndDelete d i c)"
    using ok unfolding client_ok_def compareAndDelete_def by auto
qed (auto simp: compareAndDelete_def same_options_def split: if_splits)

text \<open>Sequencing keeps the property when both parts do.\<close>

lemma sbind_moves:
  assumes "moves stored c (snd m)" "\<And>x c1. m = (Inr x, c1) \<Longrightarrow> moves stored c1 (snd (f x c1))"
  shows "moves stored c (snd (sbind m f))"
proof -
  obtain r c1 where m: "m = (r, c1)" by fastforce
  then show ?thesis using assms moves_trans by (cases r) fastforce+
qed

section \<open>The service\<close>

text \<open>
  What the code relies on: nothing stored is lost; digests that are not reported missing are stored;
  a batch update answers for every blob of the request, and a blob is stored when its status is OK;
  a completed write to the upload name of a digest stores it; waiting for other uploads loses nothing.
\<close>

locale cas_service =
  fixes api :: "'c api" and stored :: "'c \<Rightarrow> digest set" and others :: "nat \<Rightarrow> 'c \<Rightarrow> failure option \<times> 'c"
  assumes find_keeps: "api_FindMissing api s ds = (r, s') \<Longrightarrow> stored s \<subseteq> stored s'"
    and find_missing: "api_FindMissing api s ds = (Inr ms, s') \<Longrightarrow> set ms \<subseteq> set ds"
    and find_present: "api_FindMissing api s ds = (Inr ms, s') \<Longrightarrow> x \<in> set ds \<Longrightarrow> x \<notin> set ms \<Longrightarrow> digest_FromProto x \<in> stored s'"
    and update_keeps: "api_BatchUpdate api s inst rqs = (q, s') \<Longrightarrow> stored s \<subseteq> stored s'"
    and update_all: "api_BatchUpdate api s inst rqs = (Inr rs, s') \<Longrightarrow> rq_Digest ` set rqs \<subseteq> fst ` set rs"
    and update_ok: "api_BatchUpdate api s inst rqs = (Inr rs, s') \<Longrightarrow> (x, None) \<in> set rs \<Longrightarrow> digest_FromProto x \<in> stored s'"
    and write_keeps: "api_Write api s name d b = (w, s') \<Longrightarrow> stored s \<subseteq> stored s'"
    and write_ok: "api_Write api s (uploadResourceName api c d) d b = (Inr (), s') \<Longrightarrow> d \<in> stored s'"
    and others_keep: "others i s = (e, s') \<Longrightarrow> stored s \<subseteq> stored s'"
begin

lemma with_cas_moves:
  assumes ok: "client_ok stored c" and keeps: "\<And>r s'. f (cl_cas c) = (r, s') \<Longrightarrow> stored (cl_cas c) \<subseteq> stored s'"
  shows "moves stored c (snd (with_cas f c))"
proof -
  obtain r s' where f: "f (cl_cas c) = (r, s')" by fastforce
  have "moves stored c (c\<lparr>cl_cas := s'\<rparr>)"
    by (rule movesI) (use ok keeps [OF f] in \<open>auto simp: client_ok_def same_options_def\<close>)
  then show ?thesis by (simp add: with_cas_def f)
qed

lemma batch_results_moves:
  assumes "client_ok stored c" "owns us c" "\<And>d. (d, None) \<in> set rs \<Longrightarrow> digest_FromProto d \<in> stored (cl_cas c)"
  shows "moves stored c (snd (batch_results us ds rs err c)) \<and> cl_cas (snd (batch_results us ds rs err c)) = cl_cas c"
  using assms
proof (induction us ds rs err c rule: batch_results.induct)
  case (2 us ds d st rs err c)
  show ?case
  proof (cases "store_Get ds (digest_FromProto d)")
    case None
    then show ?thesis using "2.IH"(1) [OF refl None "2.prems"(1,2)] "2.prems"(3) by simp
  next
    case (Some x)
    define m where "m = uploads_done us (digest_FromProto d) st c"
    obtain r c1 where m: "m = (r, c1)" by fastforce
    have m1: "moves stored c c1" "cl_cas c1 = cl_cas c"
      using uploads_done_moves [OF "2.prems"(1,2), of st "digest_FromProto d"] "2.prems"(3) [of d] m
      by (simp_all add: m_def) (metis snd_conv uploads_done_cas)
    show ?thesis
    proof (cases r)
      case (Inl e)
      then show ?thesis using Some m m1 by (simp add: m_def)
    next
      case (Inr u)
      then show ?thesis
        using "2.IH"(2) [OF refl Some movesD(1) [OF m1(1)] owns_moves [OF "2.prems"(2) m1(1)]] "2.prems"(3) Some m m1
          moves_trans [OF m1(1)] by (simp add: m_def)
    qed
  qed
qed (simp add: moves_refl)

lemma batch_results_Inr:
  "fst (batch_results us ds rs err c) = Inr () \<Longrightarrow> err = None \<and> (\<forall>x \<in> set rs. snd x = None)"
proof (induction us ds rs err c rule: batch_results.induct)
  case (2 us ds d st rs err c)
  show ?case
  proof (cases "store_Get ds (digest_FromProto d)")
    case None
    then show ?thesis using "2.IH"(1) [OF refl None] "2.prems" by (simp add: first_err_def split: option.splits)
  next
    case (Some x)
    obtain r c1 where m: "uploads_done us (digest_FromProto d) st c = (r, c1)" by fastforce
    then obtain u where r: "r = Inr u" using "2.prems" Some by (cases r) simp_all
    then have "(case st of None \<Rightarrow> err | Some e \<Rightarrow> first_err err e) = None \<and> (\<forall>x \<in> set rs. snd x = None)"
      using "2.IH"(2) [OF refl Some] "2.prems" Some m by simp
    then show ?thesis by (simp add: first_err_def split: option.splits)
  qed
qed (simp split: option.splits)

end

end
