(* ===== verification/Cas_Sound.thy ===== *)
theory Cas_Sound
  imports Cas_Proofs
begin

text \<open>
  The steps of \<open>UploadAll\<close> under the contract of the service: each keeps the client's invariant, and
  a success means that the blobs are stored.
\<close>

section \<open>What the steps leave alone\<close>

text \<open>The table of known digests and all operations but those of a given set.\<close>

definition frame :: "nat set \<Rightarrow> 'c client \<Rightarrow> 'c client \<Rightarrow> bool" where
  "frame J c c' \<longleftrightarrow> cl_knownDigests c' = cl_knownDigests c \<and> (\<forall>i. i \<notin> J \<longrightarrow> cl_ops c' ! i = cl_ops c ! i)"

lemma frame_refl [simp]: "frame J c c"
  by (simp add: frame_def)

lemma frame_trans: "frame J c c' \<Longrightarrow> frame J c' c'' \<Longrightarrow> frame J c c''"
  by (simp add: frame_def)

lemma frame_known: "frame J c c' \<Longrightarrow> cl_knownDigests c' = cl_knownDigests c"
  by (simp add: frame_def)

lemma frame_op: "frame {i} c (snd (op_close i c))" "frame {i} c (snd (op_done i err c))"
  by (simp_all add: op_done_def op_close_def set_op_def Let_def frame_def nth_upd)

lemma op_known: "cl_knownDigests (snd (op_done i err c)) = cl_knownDigests c"
  by (rule frame_known [OF frame_op(2)])

lemma frame_mono: "frame J c c' \<Longrightarrow> J \<subseteq> K \<Longrightarrow> frame K c c'"
  by (auto simp: frame_def)

lemma frame_with_cas [simp]: "frame J c (snd (with_cas f c))"
  by (simp add: with_cas_def frame_def split: prod.split)

lemma frame_uploads_done: "frame (snd ` set us) c (snd (uploads_done us d err c))"
proof (cases "map_of us d")
  case (Some i)
  then have "i \<in> snd ` set us" by (metis image_eqI map_of_SomeD snd_conv)
  then show ?thesis using Some frame_mono [OF frame_op(2), of i] by (simp add: uploads_done_def)
qed (simp add: uploads_done_def)

lemma sbind_frame:
  assumes "frame J c (snd m)" "\<And>x c1. m = (Inr x, c1) \<Longrightarrow> frame J c1 (snd (f x c1))"
  shows "frame J c (snd (sbind m f))"
proof -
  obtain r c1 where m: "m = (r, c1)" by fastforce
  then show ?thesis using assms frame_trans by (cases r) fastforce+
qed

lemma frame_batch_results: "frame (snd ` set us) c (snd (batch_results us ds rs err c))"
proof (induction us ds rs err c rule: batch_results.induct)
  case (2 us ds d st rs err c)
  then show ?case by (auto simp: Let_def split: option.split intro!: sbind_frame frame_uploads_done)
qed simp

lemma frame_send_batches: "frame (snd ` set us) c (snd (send_batches api us ds bs c))"
proof (induction bs arbitrary: c)
  case (Cons b bs)
  show ?case by (auto intro!: sbind_frame frame_batch_results Cons.IH)
qed simp

lemma frame_uploadWithBatch: "frame (snd ` set us) c (snd (uploadWithBatchUpdateBlobs api blobs us ds limit c))"
  unfolding uploadWithBatchUpdateBlobs_def by (rule sbind_frame) (auto simp: frame_send_batches)

lemma frame_uploadWithByteStream: "frame J c (snd (uploadWithByteStream api data c))"
  unfolding uploadWithByteStream_def by (rule sbind_frame) auto

lemma frame_stream_loop: "frame (snd ` set us) c (snd (stream_loop api us ds digests err c))"
proof (induction digests arbitrary: err c)
  case (Cons d digests)
  define m where "m = (case store_Get ds d of None \<Rightarrow> (Inl (Err ''blob not found in store''), c) | Some data \<Rightarrow> uploadWithByteStream api data c)"
  obtain r c1 where m: "m = (r, c1)" by fastforce
  have c1: "frame (snd ` set us) c c1"
    using m frame_uploadWithByteStream [of "snd ` set us" c api] unfolding m_def by (auto split: option.splits) (metis snd_conv)
  have "frame (snd ` set us) c1 (snd (stream_loop api us ds digests e c1))" for e c1 by (rule Cons.IH)
  then show ?case
    using m unfolding m_def by (auto simp: Let_def intro!: frame_trans [OF c1] sbind_frame frame_uploads_done)
qed simp

lemma frame_upload: "frame (snd ` set us) c (snd (upload api ds blobs us c))"
proof -
  obtain smalls larges where sep: "separateBlobs api (cl_Instance c) blobs (byte_limit c) = (smalls, larges)" by fastforce
  show ?thesis
    unfolding upload_def sep prod.case Let_def
  proof (rule sbind_frame)
    show "frame (snd ` set us) c (snd (if smalls \<noteq> [] then uploadWithBatchUpdateBlobs api smalls us ds (byte_limit c) c else (Inr (), c)))"
      by (simp add: frame_uploadWithBatch)
    fix x c1
    obtain r c2 where r: "uploadAllWithByteStream api larges us ds c1 = (r, c2)" by fastforce
    have "frame (snd ` set us) c1 c2" using r frame_stream_loop unfolding uploadAllWithByteStream_def by (metis snd_conv)
    then show "frame (snd ` set us) c1 (snd (if larges = [] then (Inr (length blobs), c1)
        else case uploadAllWithByteStream api larges us ds c1 of
            (Inl e, c1) \<Rightarrow> if is_panic e then (Inl e, c1) else (Inr 0, c1)
          | (Inr _, c1) \<Rightarrow> (Inr (length blobs), c1)))"
      using r by (cases r) auto
  qed
qed

lemma frame_done_all: "frame (snd ` set us) c (snd (done_all us err c))"
proof (induction us arbitrary: c)
  case (Cons u us)
  obtain d i where u: "u = (d, i)" by fastforce
  show ?case unfolding u done_all.simps
    by (rule sbind_frame) (use frame_mono [OF frame_op(2) [of i c err]] in \<open>auto intro!: frame_mono [OF Cons.IH]\<close>)
qed simp

text \<open>\<open>finish_found\<close> changes only the operations and the digests it is given.\<close>

lemma finish_found_ops: "i \<notin> snd ` set us \<Longrightarrow> cl_ops (snd (finish_found us c)) ! i = cl_ops c ! i"
proof (induction us arbitrary: c)
  case (Cons u us)
  obtain d j where u: "u = (d, j)" by fastforce
  obtain r c1 where r: "op_done j None (compareAndSwap d j c) = (r, c1)" by fastforce
  have "frame {j} (compareAndSwap d j c) c1" using frame_op(2) [of j "compareAndSwap d j c" None] r by simp
  then have "cl_ops c1 ! i = cl_ops c ! i" using Cons.prems u by (simp add: frame_def compareAndSwap_def)
  then show ?case using u r Cons by (cases r) simp_all
qed simp

section \<open>The partition\<close>

lemma partition_pending:
  "partition_blobs ds c = (new, pending, k, c1) \<Longrightarrow> (d, i) \<in> set pending \<Longrightarrow> d \<in> set ds"
proof (induction ds arbitrary: c new pending k)
  case (Cons x ds)
  then show ?case by (auto simp: Let_def split: option.splits known.splits prod.splits) blast
qed simp

lemma partition_ops:
  assumes "partition_blobs ds c = (new, pending, k, c1)" "i < length (cl_ops c)"
  shows "i \<notin> snd ` set new \<and> cl_ops c1 ! i = cl_ops c ! i \<and> (\<forall>d \<in> set ds. cl_knownDigests c d = Some (Op i) \<longrightarrow> (d, i) \<in> set pending)"
  using assms
proof (induction ds arbitrary: c new pending k)
  case (Cons d ds)
  consider (present) "cl_knownDigests c d = Some Present" | (op) j where "cl_knownDigests c d = Some (Op j)" | (new) "cl_knownDigests c d = None"
    by (metis known.exhaust option.exhaust)
  then show ?case
  proof cases
    case present
    then show ?thesis using Cons by (auto split: prod.splits)
  next
    case op
    obtain new' pending' k' c' where p: "partition_blobs ds c = (new', pending', k', c')" by (metis prod_cases4)
    then have "new = new'" "pending = (d, j) # pending'" "c1 = c'" using Cons.prems(1) op by simp_all
    then show ?thesis using Cons.IH Cons.prems(2) p op by auto
  next
    case new
    define c0 where "c0 = c\<lparr>cl_knownDigests := (cl_knownDigests c)(d \<mapsto> Op (length (cl_ops c))), cl_ops := cl_ops c @ [newUploadOp]\<rparr>"
    obtain k' new' where p: "partition_blobs ds c0 = (new', pending, k', c1)" "new = (d, length (cl_ops c)) # new'"
      using Cons.prems(1) new by (auto simp: c0_def Let_def split: prod.splits)
    have "i < length (cl_ops c0)" using Cons.prems(2) by (simp add: c0_def)
    from Cons.IH [OF p(1) this] show ?thesis
      using new p(2) Cons.prems(2) by (auto simp: c0_def nth_append split: if_splits)
  qed
qed simp

lemma upload_new_ops:
  assumes "upload_new api ds new c = (r, left, c')" "i \<notin> snd ` set new"
  shows "cl_ops c' ! i = cl_ops c ! i"
proof (cases "new = []")
  case True
  then show ?thesis using assms(1) by (simp add: upload_new_def)
next
  case False
  obtain r1 c1 where m: "missing api (map fst new) c = (r1, c1)" by fastforce
  have "frame {} c (snd (missing api (map fst new) c))" unfolding missing_def by (rule sbind_frame) simp_all
  then have c1: "cl_ops c1 ! i = cl_ops c ! i" using m by (simp add: frame_def)
  show ?thesis
  proof (cases r1)
    case (Inl e)
    obtain p c2 where p: "done_all new (Some e) c1 = (p, c2)" by fastforce
    have "frame (snd ` set new) c1 c2" using frame_done_all [of new c1 "Some e"] p by simp
    moreover have "c' = c2" using assms(1) False m Inl p by (auto simp: upload_new_def split: sum.splits)
    ultimately show ?thesis using c1 assms(2) by (simp add: frame_def)
  next
    case (Inr ms)
    define found where "found = filter (\<lambda>(d, _). d \<notin> set ms) new"
    define lft where "lft = filter (\<lambda>(d, _). d \<in> set ms) new"
    have sub: "snd ` set found \<subseteq> snd ` set new" "snd ` set lft \<subseteq> snd ` set new" by (auto simp: found_def lft_def)
    obtain p c2 where p: "finish_found found c1 = (p, c2)" by fastforce
    have "i \<notin> snd ` set found" "i \<notin> snd ` set lft" using sub assms(2) by blast+
    then have c2: "cl_ops c2 ! i = cl_ops c1 ! i" and "i \<notin> snd ` set lft" using finish_found_ops [of i found c1] p by simp_all
    obtain r3 c3 where u: "upload api ds ms lft c2 = (r3, c3)" by fastforce
    have "cl_ops c3 ! i = cl_ops c2 ! i" using frame_upload [of lft c2 api ds ms] u \<open>i \<notin> snd ` set lft\<close> by (simp add: frame_def)
    moreover have "c' = c2 \<or> c' = c3"
      using assms(1) False m Inr p u by (auto simp: upload_new_def found_def lft_def Let_def split: sum.splits if_splits)
    ultimately show ?thesis using c1 c2 by auto
  qed
qed

text \<open>Waiting for an operation that has failed is an error, at once and every time.\<close>

lemma wait_pending_failed:
  assumes "(d, i) \<in> set us" "uo_closed (cl_ops c ! i)" "uo_err (cl_ops c ! i) = Some e"
  shows "\<exists>f. fst (wait_pending others us c) = Inl f"
  using assms
proof (induction us arbitrary: c)
  case (Cons u us)
  obtain x j where u: "u = (x, j)" by fastforce
  obtain f c1 where w: "op_wait others j c = (f, c1)" by fastforce
  have ops: "cl_ops c1 = cl_ops c" using w by (auto simp: op_wait_def split: if_splits prod.splits)
  show ?case
  proof (cases f)
    case None
    then have "j \<noteq> i" using w Cons.prems by (auto simp: op_wait_def)
    then show ?thesis using Cons u w None ops by auto
  qed (use u w in simp)
qed simp

lemma uploadAll_failed_op:
  assumes "cl_knownDigests c d = Some (Op i)" "i < length (cl_ops c)" "uo_closed (cl_ops c ! i)" "uo_err (cl_ops c ! i) = Some e"
    and "d \<in> set (store_List ds)"
  shows "\<exists>f. fst (uploadAll api others ds c) = Inl f"
proof (cases "cl_casConn c")
  case True
  obtain new pending k c1 where p: "partition_blobs (store_List ds) c = (new, pending, k, c1)" by (metis prod_cases4)
  note part = partition_ops [OF p assms(2)]
  obtain r lft c2 where u: "upload_new api ds new c1 = (r, lft, c2)" by (metis prod_cases3)
  have "cl_ops c2 ! i = cl_ops c ! i" "(d, i) \<in> set pending" using upload_new_ops [OF u] part assms(1,5) by auto
  then obtain f where f: "fst (wait_pending others pending c2) = Inl f" using wait_pending_failed assms(3,4) by metis
  obtain r' c3 where w: "sbind (r, c2) (\<lambda>n c. sbind (wait_pending others pending c) (\<lambda>_ c. (Inr n, c))) = (r', c3)" by fastforce
  obtain cw where "wait_pending others pending c2 = (Inl f, cw)" using f by (metis prod.collapse)
  then obtain g where g: "r' = Inl g" using w by (cases r) auto
  show ?thesis using p u w g True by (auto simp: uploadAll_def split: prod.split sum.split)
qed (simp add: uploadAll_def)

lemma partition_blobs_ok:
  assumes "partition_blobs ds c = (new, pending, k, c1)" "client_ok stored c" "distinct ds"
  shows "client_ok stored c1 \<and> cl_cas c1 = cl_cas c \<and> same_options c c1 \<and> owns new c1 \<and>
    (\<forall>d \<in> set ds. cl_knownDigests c d = Some Present \<or> d \<in> fst ` set new \<or> d \<in> fst ` set pending) \<and>
    fst ` set new = {d \<in> set ds. cl_knownDigests c d = None} \<and> distinct (map fst new) \<and>
    (\<forall>(d, i) \<in> set pending. cl_knownDigests c d = Some (Op i)) \<and>
    (\<forall>d. d \<notin> fst ` set new \<longrightarrow> cl_knownDigests c1 d = cl_knownDigests c d)"
  using assms
proof (induction ds arbitrary: c new pending k)
  case Nil
  then show ?case by (simp add: same_options_def)
next
  case (Cons d ds)
  consider (present) "cl_knownDigests c d = Some Present" | (op) i where "cl_knownDigests c d = Some (Op i)" | (new) "cl_knownDigests c d = None"
    by (metis known.exhaust option.exhaust)
  then show ?case
  proof cases
    case present
    then obtain k' where "partition_blobs ds c = (new, pending, k', c1)"
      using Cons.prems(1) by (auto split: prod.splits)
    from Cons.IH [OF this Cons.prems(2)] Cons.prems(3) show ?thesis using present by auto
  next
    case op
    then obtain k' pending' where "partition_blobs ds c = (new, pending', k', c1)" "pending = (d, i) # pending'"
      using Cons.prems(1) by (auto split: prod.splits)
    from Cons.IH [OF this(1) Cons.prems(2)] Cons.prems(3) this(2) show ?thesis using op by auto fastforce
  next
    case new
    define c0 where "c0 = c\<lparr>cl_knownDigests := (cl_knownDigests c)(d \<mapsto> Op (length (cl_ops c))), cl_ops := cl_ops c @ [newUploadOp]\<rparr>"
    have c0: "client_ok stored c0"
      using Cons.prems(2) unfolding client_ok_def c0_def by (auto simp: nth_append newUploadOp_def less_Suc_eq)
    obtain k' new' where p: "partition_blobs ds c0 = (new', pending, k', c1)" "new = (d, length (cl_ops c)) # new'"
      using Cons.prems(1) new by (auto simp: c0_def Let_def split: prod.splits)
    have known: "cl_knownDigests c0 x = (if x = d then Some (Op (length (cl_ops c))) else cl_knownDigests c x)" for x by (simp add: c0_def)
    have d: "d \<notin> set ds" "distinct ds" using Cons.prems(3) by simp_all
    note IH = Cons.IH [OF p(1) c0 d(2)]
    have ok1: "client_ok stored c1" and cas1: "cl_cas c1 = cl_cas c0" and opt: "same_options c0 c1"
      and own: "owns new' c1" and cover: "\<forall>x \<in> set ds. cl_knownDigests c0 x = Some Present \<or> x \<in> fst ` set new' \<or> x \<in> fst ` set pending"
      and new': "fst ` set new' = {x \<in> set ds. cl_knownDigests c0 x = None}" and dist: "distinct (map fst new')"
      and pend: "\<forall>(x, i) \<in> set pending. cl_knownDigests c0 x = Some (Op i)"
      and same: "\<forall>x. x \<notin> fst ` set new' \<longrightarrow> cl_knownDigests c1 x = cl_knownDigests c0 x"
      using IH by - (elim conjE, assumption)+
    have nd: "d \<notin> fst ` set new'" unfolding new' using d(1) by simp
    have dk: "cl_knownDigests c1 d = Some (Op (length (cl_ops c)))" using same nd known by simp
    have op: "length (cl_ops c) < length (cl_ops c1)" "\<forall>d'. cl_knownDigests c1 d' = Some (Op (length (cl_ops c))) \<longrightarrow> d' = d"
      using client_okD(2,4) [OF ok1] dk by metis+
    have "fst ` set new' = {x \<in> set ds. cl_knownDigests c x = None}" unfolding new' using d(1) known by (auto split: if_splits)
    then have "fst ` set new = {x \<in> set (d # ds). cl_knownDigests c x = None}" using p(2) new by auto
    moreover have "\<forall>x \<in> set (d # ds). cl_knownDigests c x = Some Present \<or> x \<in> fst ` set new \<or> x \<in> fst ` set pending"
      using cover d(1) p(2) known by (auto split: if_splits)
    moreover have "cl_knownDigests c x = Some (Op i)" if "(x, i) \<in> set pending" for x i
    proof -
      have q: "cl_knownDigests c0 x = Some (Op i)" using pend that by blast
      have "x \<noteq> d"
      proof
        assume "x = d"
        then have "i = length (cl_ops c)" using q known by simp
        then show False using partition_pending [OF p(1) that] d(1) \<open>x = d\<close> by blast
      qed
      then show ?thesis using q known by simp
    qed
    moreover have "\<forall>x. x \<notin> fst ` set new \<longrightarrow> cl_knownDigests c1 x = cl_knownDigests c x" using same p(2) known by simp
    moreover have "owns new c1" using own op p(2) by simp
    moreover have "cl_cas c1 = cl_cas c" "same_options c c1" using cas1 opt by (simp_all add: c0_def same_options_def)
    moreover have "distinct (map fst new)" using dist nd p(2) by simp
    ultimately show ?thesis using ok1 by blast
  qed
qed

section \<open>Steps under the contract\<close>

context cas_service
begin

lemma send_batches_moves:
  assumes "client_ok stored c" "owns us c"
  shows "moves stored c (snd (send_batches api us ds bs c)) \<and>
    (fst (send_batches api us ds bs c) = Inr () \<longrightarrow>
      (\<forall>r \<in> set (concat bs). digest_FromProto (rq_Digest r) \<in> stored (cl_cas (snd (send_batches api us ds bs c)))))"
  using assms
proof (induction bs arbitrary: c)
  case Nil
  then show ?case by (simp add: moves_refl)
next
  case (Cons b bs)
  show ?case
  proof (cases "\<exists>r \<in> set b. rq_Digest r = None")
    case True
    then show ?thesis by (simp add: moves_refl Cons.prems(1))
  next
    case False
    obtain q s where q: "api_BatchUpdate api (cl_cas c) (cl_Instance c) b = (q, s)" by fastforce
    define c1 where "c1 = c\<lparr>cl_cas := s\<rparr>"
    have w: "with_cas (\<lambda>s. api_BatchUpdate api s (cl_Instance c) b) c = (q, c1)" by (simp add: with_cas_def q c1_def)
    have m1: "moves stored c c1"
      using with_cas_moves [OF Cons.prems(1), of "\<lambda>s. api_BatchUpdate api s (cl_Instance c) b"] update_keeps w by (metis snd_conv)
    show ?thesis
    proof (cases q)
      case (Inl e)
      then show ?thesis using False w m1 by auto
    next
      case (Inr rs)
      have rs: "digest_FromProto d \<in> stored (cl_cas c1)" if "(d, None) \<in> set rs" for d
        using update_ok [OF q [unfolded Inr] that] by (simp add: c1_def)
      obtain r2 c2 where r2: "batch_results us ds rs None c1 = (r2, c2)" by fastforce
      have m2: "moves stored c1 c2" "cl_cas c2 = cl_cas c1"
        using batch_results_moves [OF movesD(1) [OF m1] owns_moves [OF Cons.prems(2) m1] rs] r2 by (metis snd_conv)+
      show ?thesis
      proof (cases r2)
        case (Inl e)
        then show ?thesis using False w Inr r2 moves_trans [OF m1 m2(1)] by auto
      next
        case r2': (Inr u)
        have "\<forall>x \<in> set rs. snd x = None" using batch_results_Inr [of us ds rs None c1] r2 r2' by simp
        then have b: "digest_FromProto (rq_Digest r) \<in> stored (cl_cas c2)" if "r \<in> set b" for r
          using update_all [OF q [unfolded Inr]] that rs m2(2) by fastforce
        have eq: "send_batches api us ds (b # bs) c = send_batches api us ds bs c2"
          using False w Inr r2 r2' by auto
        note IH = Cons.IH [OF movesD(1) [OF m2(1)] owns_moves [OF owns_moves [OF Cons.prems(2) m1] m2(1)]]
        have m: "moves stored c2 (snd (send_batches api us ds bs c2))" using IH by blast
        show ?thesis
          unfolding eq using IH moves_trans [OF moves_trans [OF m1 m2(1)] m] b movesD(2) [OF m] by auto
      qed
    qed
  qed
qed

lemma lookupBlobs_digests:
  assumes "store_ok ds" "lookupBlobsInStore blobs ds = Inr rqs"
  shows "map rq_Digest rqs = map digest_Proto blobs"
  using assms(2)
proof (induction blobs arbitrary: rqs)
  case (Cons d blobs)
  then show ?case
    using cas.get_digest [OF assms(1), of d] by (auto simp: lookupBlobsInStore_def rbind_eq_Inr split: option.splits)
qed (simp add: lookupBlobsInStore_def)

lemma uploadWithBatch_moves:
  assumes "client_ok stored c" "owns us c" "store_ok ds" "\<forall>d \<in> set blobs. \<not> digest_IsZero d"
  shows "moves stored c (snd (uploadWithBatchUpdateBlobs api blobs us ds limit c)) \<and>
    (fst (uploadWithBatchUpdateBlobs api blobs us ds limit c) = Inr () \<longrightarrow>
      set blobs \<subseteq> stored (cl_cas (snd (uploadWithBatchUpdateBlobs api blobs us ds limit c))))"
proof (cases "lookupBlobsInStore blobs ds")
  case (Inl e)
  then show ?thesis by (simp add: uploadWithBatchUpdateBlobs_def moves_refl assms(1))
next
  case (Inr rqs)
  define bs where "bs = createBatchUpdateBlobsRequests api (cl_Instance c) rqs limit"
  have "concat bs = rqs" by (simp add: bs_def createBatchUpdateBlobsRequests_def batch_loop_concat Let_def)
  moreover have "set (map rq_Digest rqs) = set (map digest_Proto blobs)" using lookupBlobs_digests [OF assms(3) Inr] by simp
  moreover have "digest_FromProto (digest_Proto d) = d" if "d \<in> set blobs" for d
    using assms(4) that by (simp add: digest_FromProto_def digest_Proto_def)
  ultimately have stored_all: "\<exists>r \<in> set (concat bs). digest_FromProto (rq_Digest r) = d" if "d \<in> set blobs" for d
    using that by (metis (no_types, lifting) imageE image_eqI list.set_map)
  have eq: "uploadWithBatchUpdateBlobs api blobs us ds limit c = send_batches api us ds bs c"
    by (simp add: uploadWithBatchUpdateBlobs_def Inr bs_def)
  show ?thesis unfolding eq using send_batches_moves [OF assms(1,2), of ds bs] stored_all by fastforce
qed

lemma uploadWithByteStream_moves:
  assumes ok: "client_ok stored c" and run: "uploadWithByteStream api data c = (r, c')"
  shows "moves stored c c'" "r = Inr () \<Longrightarrow> da_digest data \<in> stored (cl_cas c')"
proof -
  consider (err) e where "rbind (readAll data) (newEncoder api c (da_digest data)) = Inl e"
    | (b) b where "rbind (readAll data) (newEncoder api c (da_digest data)) = Inr b" by (cases "rbind (readAll data) (newEncoder api c (da_digest data))")
  then have "moves stored c c' \<and> (r = Inr () \<longrightarrow> da_digest data \<in> stored (cl_cas c'))"
  proof cases
    case err
    then show ?thesis using run moves_refl [OF ok] by (auto simp: uploadWithByteStream_def)
  next
    case b
    obtain w s where w: "api_Write api (cl_cas c) (uploadResourceName api c (da_digest data)) (da_digest data) b = (w, s)" by fastforce
    have eq: "with_cas (\<lambda>s. api_Write api s (uploadResourceName api c (da_digest data)) (da_digest data) b) c = (r, c')"
      using run b by (simp add: uploadWithByteStream_def)
    then have "r = w" "c' = c\<lparr>cl_cas := s\<rparr>" by (simp_all add: with_cas_def w)
    then show ?thesis
      using with_cas_moves [OF ok, of "\<lambda>s. api_Write api s (uploadResourceName api c (da_digest data)) (da_digest data) b"] write_keeps eq
        write_ok [of "cl_cas c" c "da_digest data" b s] w by (auto split: sum.splits)
  qed
  then show "moves stored c c'" "r = Inr () \<Longrightarrow> da_digest data \<in> stored (cl_cas c')" by blast+
qed

lemma stream_loop_moves:
  assumes "client_ok stored c" "owns us c" "store_ok ds"
  shows "moves stored c (snd (stream_loop api us ds digests err c))"
  using assms(1,2)
proof (induction digests arbitrary: err c)
  case Nil
  then show ?case by (simp add: moves_refl)
next
  case (Cons d digests)
  define m where "m = (case store_Get ds d of None \<Rightarrow> (Inl (Err ''blob not found in store''), c) | Some data \<Rightarrow> uploadWithByteStream api data c)"
  obtain r c1 where m: "m = (r, c1)" by fastforce
  define e where "e = (case r of Inl e \<Rightarrow> Some e | Inr _ \<Rightarrow> None)"
  have m1: "moves stored c c1 \<and> (e = None \<longrightarrow> d \<in> stored (cl_cas c1))"
  proof (cases "store_Get ds d")
    case None
    then show ?thesis using m moves_refl [OF Cons.prems(1)] by (auto simp: m_def e_def)
  next
    case (Some data)
    then have "uploadWithByteStream api data c = (r, c1)" using m by (simp add: m_def)
    from uploadWithByteStream_moves [OF Cons.prems(1) this] show ?thesis
      using cas.get_digest [OF assms(3) Some] by (cases r) (auto simp: e_def)
  qed
  have "moves stored c1 (snd (sbind (uploads_done us d e c1) (\<lambda>_. stream_loop api us ds digests (case e of None \<Rightarrow> err | Some e \<Rightarrow> first_err err e))))"
  proof (rule sbind_moves)
    show m2: "moves stored c1 (snd (uploads_done us d e c1))"
      by (rule uploads_done_moves) (use m1 movesD(1) owns_moves [OF Cons.prems(2)] in auto)
    fix x c2 assume c2: "uploads_done us d e c1 = (Inr x, c2)"
    have "moves stored c1 c2" using m2 c2 by simp
    then show "moves stored c2 (snd (stream_loop api us ds digests (case e of None \<Rightarrow> err | Some e \<Rightarrow> first_err err e) c2))"
      using Cons.IH movesD(1) owns_moves [OF owns_moves [OF Cons.prems(2)]] m1 by blast
  qed
  then show ?case using m1 m moves_trans unfolding m_def e_def by (auto simp: Let_def)
qed

lemma upload_moves:
  assumes ok: "client_ok stored c" and us: "owns us c" and ds: "store_ok ds" and nz: "\<forall>d \<in> set blobs. \<not> digest_IsZero d"
  shows "moves stored c (snd (upload api ds blobs us c)) \<and>
    (\<forall>n. fst (upload api ds blobs us c) = Inr n \<longrightarrow> (\<forall>d \<in> set blobs. \<not> too_large api (cl_Instance c) (byte_limit c) d) \<longrightarrow>
      set blobs \<subseteq> stored (cl_cas (snd (upload api ds blobs us c))))"
proof -
  obtain smalls larges where sep: "separateBlobs api (cl_Instance c) blobs (byte_limit c) = (smalls, larges)" by fastforce
  have sub: "set smalls \<subseteq> set blobs"
    using sep by (auto simp: separateBlobs_def Let_def split: if_splits dest: in_set_takeD)
  define m where "m = (if smalls \<noteq> [] then uploadWithBatchUpdateBlobs api smalls us ds (byte_limit c) c else (Inr (), c))"
  obtain r c1 where m: "m = (r, c1)" by fastforce
  have m1: "moves stored c c1 \<and> (r = Inr () \<longrightarrow> set smalls \<subseteq> stored (cl_cas c1))"
    using uploadWithBatch_moves [OF ok us ds, of smalls "byte_limit c"] nz sub m moves_refl [OF ok] by (auto simp: m_def split: if_splits)
  have up: "upload api ds blobs us c = sbind m (\<lambda>_ c.
        if larges = [] then (Inr (length blobs), c)
        else case uploadAllWithByteStream api larges us ds c of
            (Inl e, c1) \<Rightarrow> if is_panic e then (Inl e, c1) else (Inr 0, c1)
          | (Inr _, c1) \<Rightarrow> (Inr (length blobs), c1))"
    by (simp add: upload_def sep m_def)
  have small: "larges = [] \<and> set smalls = set blobs" if "\<forall>d \<in> set blobs. \<not> too_large api (cl_Instance c) (byte_limit c) d"
    using separateBlobs_small [OF that] sep by auto
  show ?thesis
  proof (cases r)
    case (Inl e)
    then show ?thesis using up m m1 by simp
  next
    case (Inr u)
    show ?thesis
    proof (cases "larges = []")
      case True
      then show ?thesis using up m m1 Inr small by auto
    next
      case False
      then have "\<not> (\<forall>d \<in> set blobs. \<not> too_large api (cl_Instance c) (byte_limit c) d)" using small by blast
      moreover obtain r2 c2 where r2: "uploadAllWithByteStream api larges us ds c1 = (r2, c2)" by fastforce
      moreover have "moves stored c1 c2"
        using stream_loop_moves [OF movesD(1) owns_moves [OF us] ds] m1 r2 unfolding uploadAllWithByteStream_def by (metis snd_conv)
      ultimately show ?thesis using up m m1 Inr False moves_trans [of stored c c1 c2] by (cases r2) auto
    qed
  qed
qed

lemma swap_moves:
  assumes "client_ok stored c" "cl_knownDigests c d = Some (Op i) \<Longrightarrow> d \<in> stored (cl_cas c)"
  shows "moves stored c (compareAndSwap d i c)"
  using moves_swap [OF assms(1), of d i] assms moves_refl [OF assms(1)] by (cases "cl_knownDigests c d = Some (Op i)") (simp_all add: compareAndSwap_def)

lemma finish_found_moves:
  assumes "client_ok stored c" "owns us c" "\<forall>(d, i) \<in> set us. d \<in> stored (cl_cas c)"
  shows "moves stored c (snd (finish_found us c)) \<and>
    (\<forall>d. d \<notin> fst ` set us \<longrightarrow> cl_knownDigests (snd (finish_found us c)) d = cl_knownDigests c d)"
  using assms
proof (induction us arbitrary: c)
  case (Cons u us)
  obtain d i where u: "u = (d, i)" by fastforce
  define c1 where "c1 = compareAndSwap d i c"
  have m1: "moves stored c c1" unfolding c1_def using Cons.prems(3) u by (intro swap_moves [OF Cons.prems(1)]) simp
  obtain r c2 where r: "op_done i None c1 = (r, c2)" by fastforce
  have "e \<in> stored (cl_cas c1)" if "cl_knownDigests c1 e = Some (Op i)" for e
    using owns_moves [OF Cons.prems(2) m1] u that Cons.prems(3) movesD(2) [OF m1] by auto
  then have m2: "moves stored c1 c2" using op_done_moves [OF movesD(1) [OF m1], of i None] r by simp
  have "cl_knownDigests c2 = cl_knownDigests c1" using op_known [of i None c1] r by simp
  then have k: "cl_knownDigests c2 x = cl_knownDigests c x" if "x \<noteq> d" for x
    using that by (simp add: c1_def compareAndSwap_def)
  note m12 = moves_trans [OF m1 m2]
  have st: "\<forall>(d, i) \<in> set us. d \<in> stored (cl_cas c2)" using Cons.prems(3) movesD(2) [OF m12] by auto
  show ?case
  proof (cases r)
    case (Inl e)
    then show ?thesis using u r m12 k by (auto simp: c1_def)
  next
    case (Inr x)
    have o: "owns us c2" using owns_moves [OF Cons.prems(2) m12] u by simp
    have eq: "finish_found (u # us) c = finish_found us c2" using u r Inr by (simp add: c1_def)
    show ?thesis unfolding eq using Cons.IH [OF movesD(1) [OF m12] o st] moves_trans [OF m12] k u by simp
  qed
qed (simp add: moves_refl)

lemma done_all_moves:
  assumes "client_ok stored c"
  shows "moves stored c (snd (done_all us (Some e) c)) \<and> cl_knownDigests (snd (done_all us (Some e) c)) = cl_knownDigests c"
  using assms
proof (induction us arbitrary: c)
  case (Cons u us)
  obtain d i where u: "u = (d, i)" by fastforce
  obtain r c1 where r: "op_done i (Some e) c = (r, c1)" by fastforce
  have m1: "moves stored c c1" "cl_knownDigests c1 = cl_knownDigests c"
    using op_done_moves [OF Cons.prems, of i "Some e"] op_known [of i "Some e" c] r by simp_all
  then show ?case
    using u r Cons.IH [OF movesD(1) [OF m1(1)]] moves_trans [OF m1(1)] by (cases r) simp_all
qed (simp add: moves_refl)

lemma wait_pending_moves:
  assumes "client_ok stored c"
    and "\<And>d i. (d, i) \<in> set us \<Longrightarrow> cl_knownDigests c d = Some (Op i)"
    and honest: "\<And>d i s s'. (d, i) \<in> set us \<Longrightarrow> others i s = (None, s') \<Longrightarrow> d \<in> stored s'"
  shows "moves stored c (snd (wait_pending others us c)) \<and>
    (fst (wait_pending others us c) = Inr () \<longrightarrow> fst ` set us \<subseteq> stored (cl_cas (snd (wait_pending others us c))))"
  using assms
proof (induction us arbitrary: c)
  case (Cons u us)
  obtain d i where u: "u = (d, i)" by fastforce
  obtain e c1 where w: "op_wait others i c = (e, c1)" by fastforce
  have m1: "moves stored c c1 \<and> cl_knownDigests c1 = cl_knownDigests c \<and> (e = None \<longrightarrow> d \<in> stored (cl_cas c1))"
  proof (cases "uo_closed (cl_ops c ! i)")
    case True
    then have "e = uo_err (cl_ops c ! i)" "c1 = c" using w by (auto simp: op_wait_def)
    then show ?thesis using moves_refl [OF Cons.prems(1)] client_okD(3) [OF Cons.prems(1)] Cons.prems(2) [of d i] u by simp
  next
    case False
    obtain e' s where s: "others i (cl_cas c) = (e', s)" by fastforce
    have c1: "e = e'" "c1 = c\<lparr>cl_cas := s\<rparr>" using w False s by (simp_all add: op_wait_def)
    have "moves stored c c1"
      by (rule movesI) (use Cons.prems(1) others_keep [OF s] c1(2) in \<open>auto simp: client_ok_def same_options_def\<close>)
    then show ?thesis using c1 s Cons.prems(3) [of d i] u by auto
  qed
  show ?case
  proof (cases e)
    case None
    have eq: "wait_pending others (u # us) c = wait_pending others us c1" using u w None by simp
    have IH: "moves stored c1 (snd (wait_pending others us c1)) \<and>
      (fst (wait_pending others us c1) = Inr () \<longrightarrow> fst ` set us \<subseteq> stored (cl_cas (snd (wait_pending others us c1))))"
    proof (rule Cons.IH)
      show "client_ok stored c1" using m1 movesD(1) by blast
      show "cl_knownDigests c1 x = Some (Op j)" if "(x, j) \<in> set us" for x j using m1 Cons.prems(2) [of x j] that by simp
      show "x \<in> stored s'" if "(x, j) \<in> set us" "others j s = (None, s')" for x j s s'
        by (rule Cons.prems(3) [OF _ that(2)]) (simp add: that(1))
    qed
    then have "moves stored c1 (snd (wait_pending others us c1))" by blast
    from movesD(2) [OF this] moves_trans [OF _ this, of c] show ?thesis unfolding eq using IH m1 None u by auto
  next
    case (Some f)
    then show ?thesis using u w m1 by simp
  qed
qed (simp add: moves_refl)

lemma finish_new_moves:
  assumes "client_ok stored c"
  shows "moves stored c (snd (finish_new us err c))"
  using assms
proof (induction us arbitrary: c)
  case (Cons u us)
  obtain d i where u: "u = (d, i)" by fastforce
  consider (ok) "uo_err (cl_ops c ! i) = None" | (unfinished) "uo_err (cl_ops c ! i) = Some errUploadNotFinished"
    | (failed) "uo_err (cl_ops c ! i) \<noteq> None" "uo_err (cl_ops c ! i) \<noteq> Some errUploadNotFinished" by blast
  then show ?case
  proof cases
    case ok
    have m: "moves stored c (compareAndSwap d i c)"
      by (rule swap_moves [OF Cons.prems]) (use client_okD(3) [OF Cons.prems] ok in blast)
    show ?thesis using u ok moves_trans [OF m Cons.IH [OF movesD(1) [OF m]]] by simp
  next
    case unfinished
    define c1 where "c1 = (if err \<noteq> None then set_op i ((cl_ops c ! i)\<lparr>uo_err := err\<rparr>) c else c)"
    have m1: "moves stored c c1"
      unfolding c1_def using moves_set_op [OF Cons.prems, of i "(cl_ops c ! i)\<lparr>uo_err := err\<rparr>"] moves_refl [OF Cons.prems]
      by (cases err) simp_all
    have "moves stored c1 (snd (sbind (op_close i c1) (\<lambda>_. finish_new us err)))"
      by (rule sbind_moves) (use op_close_moves [OF movesD(1) [OF m1], of i] Cons.IH movesD(1) in auto)
    then show ?thesis using u unfinished moves_trans [OF m1] by (simp add: c1_def Let_def)
  next
    case failed
    have m: "moves stored c (compareAndDelete d i c)" by (rule moves_delete [OF Cons.prems])
    show ?thesis using u failed moves_trans [OF m Cons.IH [OF movesD(1) [OF m]]] by (auto simp: Let_def)
  qed
qed (simp add: moves_refl)

lemma missing_moves:
  assumes ok: "client_ok stored c" and run: "missing api blobs c = (r, c1)" and nz: "\<forall>d \<in> set blobs. \<not> digest_IsZero d"
  shows "moves stored c c1" "cl_knownDigests c1 = cl_knownDigests c"
    "r = Inr ms \<Longrightarrow> set ms \<subseteq> set blobs" "r = Inr ms \<Longrightarrow> d \<in> set blobs \<Longrightarrow> d \<notin> set ms \<Longrightarrow> d \<in> stored (cl_cas c1)"
proof -
  obtain q s where q: "api_FindMissing api (cl_cas c) (map digest_Proto blobs) = (q, s)" by fastforce
  have c1: "c1 = c\<lparr>cl_cas := s\<rparr>" and r: "r = (case q of Inl e \<Rightarrow> Inl e | Inr ps \<Rightarrow> Inr (map digest_FromProto ps))"
    using run by (cases q; simp add: missing_def with_cas_def q)+
  have proto: "digest_FromProto (digest_Proto d) = d" if "d \<in> set blobs" for d
    using nz that by (simp add: digest_FromProto_def digest_Proto_def)
  show "moves stored c c1"
    using with_cas_moves [OF ok, of "\<lambda>s. api_FindMissing api s (map digest_Proto blobs)"] find_keeps q c1 by (simp add: with_cas_def)
  show "cl_knownDigests c1 = cl_knownDigests c" by (simp add: c1)
  show "set ms \<subseteq> set blobs" if rms: "r = Inr ms"
  proof -
    obtain ps where ps: "q = Inr ps" "ms = map digest_FromProto ps" using rms r by (cases q) simp_all
    have "set ps \<subseteq> digest_Proto ` set blobs" using find_missing [OF q [unfolded ps(1)]] by simp
    then show ?thesis using proto by (auto simp: ps(2))
  qed
  show "d \<in> stored (cl_cas c1)" if rms: "r = Inr ms" and d: "d \<in> set blobs" "d \<notin> set ms"
  proof -
    obtain ps where ps: "q = Inr ps" "ms = map digest_FromProto ps" using rms r by (cases q) simp_all
    have "digest_Proto d \<notin> set ps" using d(2) proto [OF d(1)] unfolding ps(2) by (metis image_eqI list.set_map)
    then show ?thesis using find_present [OF q [unfolded ps(1)], of "digest_Proto d"] d(1) proto [OF d(1)] c1 by simp
  qed
qed

lemma upload_new_moves:
  assumes ok: "client_ok stored c" and own: "owns new c" and ds: "store_ok ds" and nz: "\<forall>d \<in> fst ` set new. \<not> digest_IsZero d"
    and run: "upload_new api ds new c = (r, left, c')"
  shows "moves stored c c' \<and> (\<forall>d. d \<notin> fst ` set new \<longrightarrow> cl_knownDigests c' d = cl_knownDigests c d) \<and>
    (\<forall>n. r = Inr n \<longrightarrow> (\<forall>d \<in> fst ` set new. \<not> too_large api (cl_Instance c) (byte_limit c) d) \<longrightarrow> fst ` set new \<subseteq> stored (cl_cas c'))"
proof (cases "new = []")
  case True
  then show ?thesis using run moves_refl [OF ok] by (simp add: upload_new_def)
next
  case False
  obtain r1 c1 where m: "missing api (map fst new) c = (r1, c1)" by fastforce
  have nz': "\<forall>d \<in> set (map fst new). \<not> digest_IsZero d" using nz by simp
  note m1 = missing_moves [OF ok m nz']
  show ?thesis
  proof (cases r1)
    case (Inl e)
    obtain p c2 where p: "done_all new (Some e) c1 = (p, c2)" by fastforce
    have "moves stored c1 c2" "cl_knownDigests c2 = cl_knownDigests c1" using done_all_moves [OF movesD(1) [OF m1(1)], of new e] p by simp_all
    moreover have "c' = c2" "\<exists>f. r = Inl f" using run False m Inl p by (auto simp: upload_new_def split: sum.splits)
    ultimately show ?thesis using moves_trans [OF m1(1)] m1(2) by auto
  next
    case (Inr ms)
    define found where "found = filter (\<lambda>(d, _). d \<notin> set ms) new"
    define lft where "lft = filter (\<lambda>(d, _). d \<in> set ms) new"
    obtain p c2 where p: "finish_found found c1 = (p, c2)" by fastforce
    have st: "\<forall>(d, i) \<in> set found. d \<in> stored (cl_cas c1)" using m1(4) [OF Inr] by (auto simp: found_def) (metis fst_conv image_eqI)
    have m2: "moves stored c1 c2" "\<forall>d. d \<notin> fst ` set found \<longrightarrow> cl_knownDigests c2 d = cl_knownDigests c1 d"
      using finish_found_moves [OF movesD(1) [OF m1(1)] owns_filter [OF owns_moves [OF own m1(1)], of "\<lambda>(d, _). d \<notin> set ms", folded found_def] st] p by simp_all
    have fnew: "fst ` set found \<subseteq> fst ` set new" by (auto simp: found_def)
    note m12 = moves_trans [OF m1(1) m2(1)]
    have found_st: "d \<in> stored (cl_cas c2)" if "d \<in> fst ` set new" "d \<notin> set ms" for d
      using m1(4) [OF Inr, of d] that movesD(2) [OF m2(1)] by auto
    have known2: "cl_knownDigests c2 d = cl_knownDigests c d" if "d \<notin> fst ` set new" for d
    proof -
      have "d \<notin> fst ` set found" using fnew that by blast
      then show ?thesis using m2(2) m1(2) by simp
    qed
    show ?thesis
    proof (cases "p = Inr () \<and> ms \<noteq> []")
      case True
      obtain r3 c3 where u: "upload api ds ms lft c2 = (r3, c3)" by fastforce
      have "\<forall>d \<in> set ms. \<not> digest_IsZero d" using m1(3) [OF Inr] nz by auto
      moreover have "owns lft c2" unfolding lft_def by (rule owns_filter [OF owns_moves [OF own m12]])
      ultimately have m3: "moves stored c2 c3 \<and> (\<forall>n. r3 = Inr n \<longrightarrow>
          (\<forall>d \<in> set ms. \<not> too_large api (cl_Instance c2) (byte_limit c2) d) \<longrightarrow> set ms \<subseteq> stored (cl_cas c3))"
        using upload_moves [OF movesD(1) [OF m12] _ ds, of lft ms] u by simp
      have k3: "cl_knownDigests c3 = cl_knownDigests c2" using frame_known [OF frame_upload [of lft c2 api ds ms]] u by simp
      have c': "r = r3" "c' = c3" using run False m Inr p True u by (auto simp: upload_new_def found_def lft_def Let_def)
      have opt: "cl_Instance c2 = cl_Instance c" "byte_limit c2 = byte_limit c"
        using movesD(4) [OF m12] by (simp_all add: same_options_def byte_limit_def)
      have sub: "set ms \<subseteq> fst ` set new" using m1(3) [OF Inr] by simp
      have "fst ` set new \<subseteq> stored (cl_cas c3)" if "r3 = Inr n" "\<forall>d \<in> fst ` set new. \<not> too_large api (cl_Instance c) (byte_limit c) d" for n
      proof -
        have "\<forall>d \<in> set ms. \<not> too_large api (cl_Instance c2) (byte_limit c2) d" using that(2) sub unfolding opt by blast
        then have "set ms \<subseteq> stored (cl_cas c3)" using m3 that(1) by simp
        then show ?thesis using found_st movesD(2) [OF conjunct1 [OF m3]] by blast
      qed
      moreover have "moves stored c c3" by (rule moves_trans [OF m12 conjunct1 [OF m3]])
      ultimately show ?thesis unfolding c' using known2 k3 by simp
    next
      case False2: False
      then have c': "c' = c2" "\<exists>e. p = Inl e \<and> r = Inl e \<or> p = Inr () \<and> ms = []"
        using run False m Inr p by (auto simp: upload_new_def found_def [symmetric] lft_def Let_def split: sum.splits)
      have "fst ` set new \<subseteq> stored (cl_cas c2)" if "ms = []" using found_st that by auto
      then show ?thesis unfolding c'(1) using m12 known2 c'(2) by auto
    qed
  qed
qed

theorem uploadAll_sound:
  assumes ok: "client_ok stored c" and ds: "store_ok ds" and nz: "\<forall>d \<in> set (store_List ds). \<not> digest_IsZero d"
    and honest: "honest_others stored others c"
    and run: "uploadAll api others ds c = (r, c')"
  shows "client_ok stored c'" "stored (cl_cas c) \<subseteq> stored (cl_cas c')"
    and "r = Inr n \<Longrightarrow> \<forall>d \<in> set (store_List ds). \<not> too_large api (cl_Instance c) (byte_limit c) d \<Longrightarrow>
      set (store_List ds) \<subseteq> stored (cl_cas c')"
proof -
  have "client_ok stored c' \<and> stored (cl_cas c) \<subseteq> stored (cl_cas c') \<and>
    (\<forall>n. r = Inr n \<longrightarrow> (\<forall>d \<in> set (store_List ds). \<not> too_large api (cl_Instance c) (byte_limit c) d) \<longrightarrow>
      set (store_List ds) \<subseteq> stored (cl_cas c'))"
  proof (cases "cl_casConn c")
    case False
    then show ?thesis using run ok by (auto simp: uploadAll_def)
  next
    case True
    obtain new pending k c1 where p: "partition_blobs (store_List ds) c = (new, pending, k, c1)" by (metis prod_cases4)
    note part = partition_blobs_ok [OF p ok cas.keys_distinct [OF ds]]
    have ok1: "client_ok stored c1" and cas1: "cl_cas c1 = cl_cas c" and opt: "same_options c c1" and own: "owns new c1"
      and cover: "\<forall>d \<in> set (store_List ds). cl_knownDigests c d = Some Present \<or> d \<in> fst ` set new \<or> d \<in> fst ` set pending"
      and new: "fst ` set new = {d \<in> set (store_List ds). cl_knownDigests c d = None}"
      and pend: "\<forall>(d, i) \<in> set pending. cl_knownDigests c d = Some (Op i)"
      and same: "\<forall>d. d \<notin> fst ` set new \<longrightarrow> cl_knownDigests c1 d = cl_knownDigests c d"
      using part by - (elim conjE, assumption)+
    have nz': "\<forall>d \<in> fst ` set new. \<not> digest_IsZero d" unfolding new using nz by simp
    obtain r2 lft c2 where u: "upload_new api ds new c1 = (r2, lft, c2)" by (metis prod_cases3)
    note up = upload_new_moves [OF ok1 own ds nz' u]
    have m2: "moves stored c1 c2" using up by blast
    have pk: "cl_knownDigests c2 d = Some (Op i)" if "(d, i) \<in> set pending" for d i
    proof -
      have "cl_knownDigests c d = Some (Op i)" using pend that by blast
      moreover from this have "d \<notin> fst ` set new" unfolding new by simp
      ultimately show ?thesis using up same by simp
    qed
    have hon: "d \<in> stored s'" if "(d, i) \<in> set pending" "others i s = (None, s')" for d i s s'
      using honest pend that unfolding honest_others_def by blast
    obtain r3 c3 where w: "sbind (r2, c2) (\<lambda>n c. sbind (wait_pending others pending c) (\<lambda>_ c. (Inr n, c))) = (r3, c3)" by fastforce
    obtain q cw where q: "wait_pending others pending c2 = (q, cw)" by fastforce
    have wm: "moves stored c2 cw \<and> (q = Inr () \<longrightarrow> fst ` set pending \<subseteq> stored (cl_cas cw))"
      using wait_pending_moves [OF movesD(1) [OF m2], of pending] pk hon q by (metis (no_types, lifting) fst_conv snd_conv)
    have m3: "moves stored c2 c3 \<and> (\<forall>n. r3 = Inr n \<longrightarrow> (\<exists>m. r2 = Inr m) \<and> fst ` set pending \<subseteq> stored (cl_cas c3))"
      using w wm q moves_refl [OF movesD(1) [OF m2]] by (cases r2; cases q) auto
    have m13: "moves stored c1 c3" by (rule moves_trans [OF m2 conjunct1 [OF m3]])
    have all: "set (store_List ds) \<subseteq> stored (cl_cas c3)"
      if r3n: "r3 = Inr n" and small: "\<forall>d \<in> set (store_List ds). \<not> too_large api (cl_Instance c) (byte_limit c) d" for n
    proof
      fix d assume d: "d \<in> set (store_List ds)"
      have "fst ` set new \<subseteq> stored (cl_cas c2)"
      proof -
        have "cl_Instance c1 = cl_Instance c" "byte_limit c1 = byte_limit c" using opt by (simp_all add: same_options_def byte_limit_def)
        then have "\<forall>d \<in> fst ` set new. \<not> too_large api (cl_Instance c1) (byte_limit c1) d" unfolding new using small by simp
        moreover obtain m where "r2 = Inr m" using m3 r3n by blast
        ultimately show ?thesis using up by blast
      qed
      moreover have "stored (cl_cas c) \<subseteq> stored (cl_cas c3)" "stored (cl_cas c2) \<subseteq> stored (cl_cas c3)"
        using movesD(2) [OF m13] movesD(2) [OF conjunct1 [OF m3]] cas1 by simp_all
      moreover have "fst ` set pending \<subseteq> stored (cl_cas c3)" using m3 r3n by simp
      ultimately show "d \<in> stored (cl_cas c3)" using bspec [OF cover d] client_okD(1) [OF ok, of d] by blast
    qed
    obtain pp c4 where f: "finish_new lft (case r3 of Inl e \<Rightarrow> Some e | Inr _ \<Rightarrow> None) c3 = (pp, c4)" by fastforce
    have m4: "moves stored c3 c4" using finish_new_moves [OF movesD(1) [OF m13]] f by (metis snd_conv)
    have fin: "(r, c') = (if (case r3 of Inl e \<Rightarrow> is_panic e | Inr _ \<Rightarrow> False) then (r3, c3) else case pp of Inl p \<Rightarrow> (Inl p, c4) | Inr _ \<Rightarrow> (r3, c4))"
      using run True p u w f unfolding uploadAll_def by (cases r3; cases pp) (auto simp: Let_def)
    have cc: "c' = c3 \<or> c' = c4" and rr: "\<forall>n. r = Inr n \<longrightarrow> r3 = Inr n" using fin by (auto split: sum.splits if_splits)
    have ok': "client_ok stored c'" using cc movesD(1) [OF m13] movesD(1) [OF m4] by blast
    have s3: "stored (cl_cas c3) \<subseteq> stored (cl_cas c')" using cc movesD(2) [OF m4] by blast
    have s0: "stored (cl_cas c) \<subseteq> stored (cl_cas c3)" using movesD(2) [OF m13] cas1 by simp
    have "set (store_List ds) \<subseteq> stored (cl_cas c')"
      if "r = Inr n" "\<forall>d \<in> set (store_List ds). \<not> too_large api (cl_Instance c) (byte_limit c) d" for n
      using order_trans [OF all [OF rr [rule_format, OF that(1)] that(2)] s3] .
    then show ?thesis using ok' s0 s3 by simp
  qed
  then show "client_ok stored c'" "stored (cl_cas c) \<subseteq> stored (cl_cas c')"
    "r = Inr n \<Longrightarrow> \<forall>d \<in> set (store_List ds). \<not> too_large api (cl_Instance c) (byte_limit c) d \<Longrightarrow> set (store_List ds) \<subseteq> stored (cl_cas c')"
    by blast+
qed

end

end
