(* ===== verification/Cas_Props.thy ===== *)
theory Cas_Props
  imports Cas_Sound
begin

text \<open>
  Properties of the storage client: batches stay within the limits of the service; a successful
  upload means that the blobs are stored, unless a blob is too large for a batch, because errors of
  stream uploads are dropped; and a batch that fails once blocks its blobs for the rest of the run.
\<close>

section \<open>A service in memory\<close>

text \<open>The content addressed storage as its interface documents it, with the stored digests as its state.\<close>

definition mem_size :: "bytes \<Rightarrow> request list \<Rightarrow> nat" where
  "mem_size inst rs = length inst + (\<Sum>r\<leftarrow>rs. length (rq_Data r) + (case rq_Digest r of None \<Rightarrow> 0 | Some d \<Rightarrow> length (dg_Hash d)) + 4)"

definition mem_api :: "digest list api" where
  "mem_api = \<lparr>
     api_FindMissing = (\<lambda>s ds. (Inr (filter (\<lambda>x. digest_FromProto x \<notin> set s) ds), s)),
     api_BatchUpdate = (\<lambda>s inst rqs. (Inr (map (\<lambda>r. (rq_Digest r, None)) rqs), map (\<lambda>r. digest_FromProto (rq_Digest r)) rqs @ s)),
     api_Write = (\<lambda>s name d b. (Inr (), d # s)),
     api_BatchRead = (\<lambda>s ds. Inl (Err ''unavailable'')), api_Read = (\<lambda>s name. Inl (Err ''unavailable'')),
     api_encode = (\<lambda>_ b. b), api_decode = (\<lambda>_ b. Inr b), api_size = mem_size, api_uuid = (\<lambda>d. ''u'')\<rparr>"

definition no_others :: "nat \<Rightarrow> digest list \<Rightarrow> failure option \<times> digest list" where
  "no_others i s = (Some (Err ''context canceled''), s)"

interpretation mem_cas: cas_service mem_api set no_others
  by unfold_locales (auto simp: mem_api_def no_others_def image_iff)

definition new_client :: "'c \<Rightarrow> 'c client" where
  "new_client s = \<lparr>cl_casConn = True, cl_Instance = ''i'', cl_CompressedBlob = 0, cl_compressors = [], cl_maxBatch = 60,
     cl_knownDigests = Map.empty, cl_ops = [], cl_cas = s\<rparr>"

lemma client_ok_new: "client_ok stored (new_client s)"
  by (simp add: client_ok_def new_client_def)

definition demo_blob :: "bytes \<Rightarrow> data" where
  "demo_blob b = \<lparr>da_digest = \<lparr>dg_Hash = b, dg_SizeBytes = length b\<rparr>, da_source = Some b\<rparr>"

definition demo_store :: digest_store where
  "demo_store = map (\<lambda>b. (da_digest (demo_blob b), demo_blob b)) [''a'', ''bcd'', ''efghijklmn'']"

lemma demo_store_ok: "store_ok demo_store"
  by (simp add: demo_store_def demo_blob_def store_ok_def)

section \<open>Limits\<close>

text \<open>
  C33: The small blobs that \<open>upload\<close> picks are sent once each and in order, and each batch has at most
  1000 blobs and fits the byte limit. The size of a message adds up over its repeated field, and
  depends on a blob only through its digest and length.
\<close>

theorem batches_within_limits:
  assumes add: "\<And>inst rs. api_size api inst rs = api_size api inst [] + (\<Sum>r\<leftarrow>rs. api_size api [] [r])"
    and shape: "\<And>r r'. rq_Digest r = rq_Digest r' \<Longrightarrow> length (rq_Data r) = length (rq_Data r') \<Longrightarrow> api_size api inst [r] = api_size api inst [r']"
    and mono: "\<And>a b. a \<in> set blobs \<Longrightarrow> b \<in> set blobs \<Longrightarrow> dg_SizeBytes a \<le> dg_SizeBytes b \<Longrightarrow>
      api_size api inst [dummy_request a] \<le> api_size api inst [dummy_request b]"
    and ds: "store_ok ds" and sizes: "\<And>d x b. store_Get ds d = Some x \<Longrightarrow> da_source x = Some b \<Longrightarrow> length b = dg_SizeBytes d"
    and limit: "0 < byteLimit" and sep: "separateBlobs api inst blobs byteLimit = (smalls, larges)"
    and look: "lookupBlobsInStore smalls ds = Inr rqs"
  shows "mset (smalls @ larges) = mset blobs \<and> map rq_Digest rqs = map digest_Proto smalls \<and>
    concat (createBatchUpdateBlobsRequests api inst rqs byteLimit) = rqs \<and>
    (\<forall>b \<in> set (createBatchUpdateBlobsRequests api inst rqs byteLimit).
       b \<noteq> [] \<and> length b \<le> 1000 \<and> int (api_size api inst b) \<le> byteLimit)"
proof -
  define base where "base = int (api_size api inst [])"
  have weight: "int (api_size api inst rs) = base + weight api rs" for rs
    using add [of inst rs] by (simp add: base_def weight_int)
  have small: "base + int (api_size api [] [r]) \<le> byteLimit" if "r \<in> set rqs" for r
  proof -
    obtain k where k: "k < length rqs" "r = rqs ! k" using \<open>r \<in> set rqs\<close> by (metis in_set_conv_nth)
    have len: "length rqs = length smalls" using look unfolding lookupBlobsInStore_def by (rule map_res_length)
    obtain x b where x: "store_Get ds (smalls ! k) = Some x" "da_source x = Some b"
      "r = \<lparr>rq_Digest = digest_Proto (da_digest x), rq_Data = b\<rparr>"
      using map_res_nth [OF look [unfolded lookupBlobsInStore_def], of k] k len
      by (auto simp: rbind_eq_Inr readAll_def split: option.splits)
    have "api_size api inst [r] = api_size api inst [dummy_request (smalls ! k)]"
      by (rule shape) (use x cas.get_digest [OF ds x(1)] sizes [OF x(1,2)] in \<open>simp_all add: dummy_request_def\<close>)
    moreover have "\<not> too_large api inst byteLimit (smalls ! k)"
      using separateBlobs_spec(2) [OF mono sep] k(1) len by auto
    ultimately show ?thesis using weight [of "[r]"] by (simp add: too_large_def weight_def)
  qed
  have "concat (batch_loop api base byteLimit [] base rqs) = (if rqs = [] then [] else [] @ rqs) \<and>
    (\<forall>b \<in> set (batch_loop api base byteLimit [] base rqs). b \<noteq> [] \<and> length b \<le> batchBlobUploadLimit \<and> base + weight api b \<le> byteLimit)"
    by (rule batch_loop_spec [OF small limit]) (use small in \<open>simp_all add: weight_def batchBlobUploadLimit_def\<close>)
  moreover have "createBatchUpdateBlobsRequests api inst rqs byteLimit = batch_loop api base byteLimit [] base rqs"
    by (simp add: createBatchUpdateBlobsRequests_def base_def Let_def)
  ultimately show ?thesis
    using separateBlobs_spec(1) [OF mono sep] mem_cas.lookupBlobs_digests [OF ds look]
    unfolding weight batchBlobUploadLimit_def by (cases "rqs = []") simp_all
qed

lemma mem_size_add: "api_size mem_api inst rs = api_size mem_api inst [] + (\<Sum>r\<leftarrow>rs. api_size mem_api [] [r])"
  by (induction rs) (simp_all add: mem_api_def mem_size_def)

theorem batches_within_limits_witness:
  "\<exists>smalls larges rqs. separateBlobs mem_api ''i'' (store_List demo_store) 20 = (smalls, larges) \<and> length smalls = 2 \<and>
     lookupBlobsInStore smalls demo_store = Inr rqs \<and>
     (\<forall>b \<in> set (createBatchUpdateBlobsRequests mem_api ''i'' rqs 20). b \<noteq> [] \<and> length b \<le> 1000 \<and> int (api_size mem_api ''i'' b) \<le> 20)"
proof -
  define smalls where "smalls = [da_digest (demo_blob ''a''), da_digest (demo_blob ''bcd'')]"
  define rqs where "rqs = map (\<lambda>b. \<lparr>rq_Digest = digest_Proto (da_digest (demo_blob b)), rq_Data = b\<rparr>) [''a'', ''bcd'']"
  have sep: "separateBlobs mem_api ''i'' (store_List demo_store) 20 = (smalls, [da_digest (demo_blob ''efghijklmn'')])"
    unfolding smalls_def by code_simp
  have look: "lookupBlobsInStore smalls demo_store = Inr rqs" unfolding smalls_def rqs_def by code_simp
  have "mset (smalls @ [da_digest (demo_blob ''efghijklmn'')]) = mset (store_List demo_store) \<and> map rq_Digest rqs = map digest_Proto smalls \<and>
    concat (createBatchUpdateBlobsRequests mem_api ''i'' rqs 20) = rqs \<and>
    (\<forall>b \<in> set (createBatchUpdateBlobsRequests mem_api ''i'' rqs 20). b \<noteq> [] \<and> length b \<le> 1000 \<and> int (api_size mem_api ''i'' b) \<le> 20)"
  proof (rule batches_within_limits [OF mem_size_add _ _ demo_store_ok _ _ sep look])
    fix d x b assume "store_Get demo_store d = Some x" "da_source x = Some b"
    then show "length b = dg_SizeBytes d" by (auto simp: store_Get_def demo_store_def demo_blob_def split: if_splits)
  next
    fix a b assume "a \<in> set (store_List demo_store)" "b \<in> set (store_List demo_store)" "dg_SizeBytes a \<le> dg_SizeBytes b"
    then show "api_size mem_api ''i'' [dummy_request a] \<le> api_size mem_api ''i'' [dummy_request b]"
      by (auto simp: store_List_def demo_store_def demo_blob_def mem_api_def mem_size_def dummy_request_def digest_Proto_def digest_IsZero_def)
  qed (simp_all add: mem_api_def mem_size_def)
  then show ?thesis using sep look by (auto simp: smalls_def)
qed

section \<open>Uploads\<close>

text \<open>
  C15: Under the contract of the service, \<open>UploadAll\<close> keeps the client's invariant: what it marks as
  present is stored, also when the call fails. When it succeeds and every blob fits a batch, all
  blobs of the store are stored. Other goroutines report success only for stored blobs.
\<close>

theorem upload_all_stored:
  assumes service: "cas_service api stored others" and ok: "client_ok stored c" and ds: "store_ok ds"
    and nz: "\<forall>d \<in> set (store_List ds). \<not> digest_IsZero d"
    and honest: "honest_others stored others c"
    and run: "uploadAll api others ds c = (r, c')"
  shows "client_ok stored c' \<and> stored (cl_cas c) \<subseteq> stored (cl_cas c') \<and>
    ((\<exists>n. r = Inr n) \<and> (\<forall>d \<in> set (store_List ds). \<not> too_large api (cl_Instance c) (byte_limit c) d) \<longrightarrow>
      set (store_List ds) \<subseteq> stored (cl_cas c'))"
  using cas_service.uploadAll_sound [OF service ok ds nz honest run] by blast

definition demo_client :: "digest list client" where
  "demo_client = new_client []"

theorem upload_all_stored_witness:
  "\<exists>n c'. uploadAll mem_api no_others demo_store demo_client = (Inr n, c') \<and> n = 3 \<and> set (store_List demo_store) \<subseteq> set (cl_cas c')"
proof -
  obtain r c' where run: "uploadAll mem_api no_others demo_store demo_client = (r, c')" by fastforce
  have "fst (uploadAll mem_api no_others demo_store demo_client) = Inr 3" by code_simp
  then have r: "r = Inr 3" using run by simp
  have small: "\<forall>d \<in> set (store_List demo_store). \<not> too_large mem_api (cl_Instance demo_client) (byte_limit demo_client) d"
    by code_simp
  have "client_ok set c' \<and> set (cl_cas demo_client) \<subseteq> set (cl_cas c') \<and>
    ((\<exists>n. r = Inr n) \<and> (\<forall>d \<in> set (store_List demo_store). \<not> too_large mem_api (cl_Instance demo_client) (byte_limit demo_client) d) \<longrightarrow>
      set (store_List demo_store) \<subseteq> set (cl_cas c'))"
    by (rule upload_all_stored [OF mem_cas.cas_service_axioms _ demo_store_ok _ _ run])
      (simp_all add: store_List_def demo_store_def demo_blob_def digest_IsZero_def demo_client_def client_ok_new honest_others_def,
       simp add: new_client_def)
  then show ?thesis using run r small by blast
qed

section \<open>Dropped errors\<close>

lemma one_blob:
  assumes c: "cl_casConn c" "cl_knownDigests c d = None" and ds: "store_List ds = [d]" and nz: "\<not> digest_IsZero d"
    and find: "api_FindMissing api (cl_cas c) [Some d] = (Inr [Some d], s1)"
  defines "i \<equiv> length (cl_ops c)"
  defines "c1 \<equiv> c\<lparr>cl_knownDigests := (cl_knownDigests c)(d \<mapsto> Op i), cl_ops := cl_ops c @ [newUploadOp], cl_cas := s1\<rparr>"
  shows "uploadAll api others ds c =
    (let (r, c2) = upload api ds [d] [(d, i)] c1 in
     if (case r of Inl e \<Rightarrow> is_panic e | Inr _ \<Rightarrow> False) then (r, c2)
     else case finish_new [(d, i)] (case r of Inl e \<Rightarrow> Some e | Inr _ \<Rightarrow> None) c2 of (Inl p, c3) \<Rightarrow> (Inl p, c3) | (Inr _, c3) \<Rightarrow> (r, c3))"
proof -
  have "digest_Proto d = Some d" "digest_FromProto (Some d) = d" using nz by (simp_all add: digest_Proto_def digest_FromProto_def)
  moreover obtain r c2 where "upload api ds [d] [(d, i)] c1 = (r, c2)" by fastforce
  ultimately show ?thesis
    using c find by (cases r)
      (simp_all add: uploadAll_def ds upload_new_def missing_def with_cas_def i_def c1_def Let_def del: finish_new.simps)
qed

text \<open>
  C37: An error of a stream upload is lost. When the only blob is too large for a batch and its
  write fails, \<open>UploadAll\<close> reports no error, only that it uploaded nothing.
\<close>

theorem large_failure_silent:
  assumes c: "cl_casConn c" "cl_knownDigests c d = None" and ds: "store_List ds = [d]" "store_Get ds d = Some x"
      "da_digest x = d" "da_source x = Some b" and nz: "\<not> digest_IsZero d"
    and large: "too_large api (cl_Instance c) (byte_limit c) d" and plain: "\<not> useCompressedBlob c d"
    and find: "api_FindMissing api (cl_cas c) [Some d] = (Inr [Some d], s1)"
    and fails: "api_Write api s1 (uploadResourceName api c d) d b = (Inl (Err e), s2)" and e: "Err e \<noteq> errUploadNotFinished"
  shows "fst (uploadAll api others ds c) = Inr 0 \<and> cl_cas (snd (uploadAll api others ds c)) = s2 \<and>
    cl_knownDigests (snd (uploadAll api others ds c)) d = None"
proof -
  define c1 where "c1 = c\<lparr>cl_knownDigests := (cl_knownDigests c)(d \<mapsto> Op (length (cl_ops c))), cl_ops := cl_ops c @ [newUploadOp], cl_cas := s1\<rparr>"
  have "search_loop (\<lambda>i. too_large api (cl_Instance c) (byte_limit c) ([d] ! i)) 0 (Suc 0) = 0"
    using large by (simp add: search_loop.simps)
  then have sep: "separateBlobs api (cl_Instance c) [d] (byte_limit c) = ([], [d])"
    by (simp add: separateBlobs_def sort_Search_def Let_def)
  have same: "cl_Instance c1 = cl_Instance c" "byte_limit c1 = byte_limit c" "uploadResourceName api c1 d = uploadResourceName api c d"
    "useCompressedBlob c1 d = useCompressedBlob c d"
    by (simp_all add: c1_def byte_limit_def uploadResourceName_def useCompressedBlob_def getCompressor_def)
  have "upload api ds [d] [(d, length (cl_ops c))] c1 =
     (Inr 0, c1\<lparr>cl_cas := s2, cl_ops := cl_ops c @ [\<lparr>uo_closed = True, uo_err = Some (Err e)\<rparr>]\<rparr>)"
    using sep plain fails ds
    by (simp add: upload_def same uploadAllWithByteStream_def uploadWithByteStream_def readAll_def newEncoder_def with_cas_def
        uploads_done_def op_done_def op_close_def set_op_def first_err_def)
      (simp add: c1_def newUploadOp_def set_op_def first_err_def list_update_append Let_def)
  then show ?thesis
    using one_blob [OF c ds(1) nz find, of others] e unfolding c1_def [symmetric]
    by (simp add: c1_def compareAndDelete_def)
qed

definition one_store :: "bytes \<Rightarrow> digest_store" where
  "one_store b = [(da_digest (demo_blob b), demo_blob b)]"

definition big_blob :: bytes where
  "big_blob = replicate 60 CHR ''x''"

definition write_fails :: "digest list api" where
  "write_fails = mem_api\<lparr>api_Write := (\<lambda>s name d b. (Inl (Err ''unavailable''), s))\<rparr>"

theorem large_failure_silent_witness:
  "fst (uploadAll write_fails no_others (one_store big_blob) demo_client) = Inr 0 \<and>
   cl_cas (snd (uploadAll write_fails no_others (one_store big_blob) demo_client)) = []"
proof -
  define d where "d = da_digest (demo_blob big_blob)"
  have len: "dg_SizeBytes d = 60" "\<not> digest_IsZero d" by (simp_all add: d_def demo_blob_def big_blob_def digest_IsZero_def)
  have "fst (uploadAll write_fails no_others (one_store big_blob) demo_client) = Inr 0 \<and>
      cl_cas (snd (uploadAll write_fails no_others (one_store big_blob) demo_client)) = [] \<and>
      cl_knownDigests (snd (uploadAll write_fails no_others (one_store big_blob) demo_client)) d = None"
  proof (rule large_failure_silent [where x = "demo_blob big_blob" and ?s1.0 = "[]" and e = "''unavailable''"])
    show "too_large write_fails (cl_Instance demo_client) (byte_limit demo_client) d"
      using len by (simp add: too_large_def byte_limit_def demo_client_def new_client_def)
  qed (use len in \<open>simp_all add: one_store_def d_def store_List_def store_Get_def demo_blob_def demo_client_def new_client_def
      write_fails_def mem_api_def digest_FromProto_def errUploadNotFinished_def useCompressedBlob_def\<close>)
  then show ?thesis by blast
qed

text \<open>
  A failed batch blocks its blobs. When the batch request of a blob fails, the deferred function
  closes the blob's operation but leaves it in the table: every later call of \<open>UploadAll\<close> with this blob
  fails, whatever the service does by then.
\<close>

theorem failed_batch_sticks:
  assumes c: "cl_casConn c" "cl_knownDigests c d = None" and ds: "store_List ds = [d]" "store_Get ds d = Some x"
      "da_digest x = d" "da_source x = Some b" and nz: "\<not> digest_IsZero d"
    and small: "\<not> too_large api (cl_Instance c) (byte_limit c) d"
    and find: "api_FindMissing api (cl_cas c) [Some d] = (Inr [Some d], s1)"
    and fails: "api_BatchUpdate api s1 (cl_Instance c) [\<lparr>rq_Digest = Some d, rq_Data = b\<rparr>] = (Inl (Err e), s2)"
  shows "fst (uploadAll api others ds c) = Inl (Err e) \<and>
    (\<forall>api' others' ds' s'. d \<in> set (store_List ds') \<longrightarrow>
      (\<exists>f. fst (uploadAll api' others' ds' ((snd (uploadAll api others ds c))\<lparr>cl_cas := s'\<rparr>)) = Inl f))"
proof -
  define i where "i = length (cl_ops c)"
  define c1 where "c1 = c\<lparr>cl_knownDigests := (cl_knownDigests c)(d \<mapsto> Op i), cl_ops := cl_ops c @ [newUploadOp], cl_cas := s1\<rparr>"
  define c2 where "c2 = c1\<lparr>cl_cas := s2, cl_ops := cl_ops c @ [\<lparr>uo_closed = True, uo_err = Some (Err e)\<rparr>]\<rparr>"
  have sep: "separateBlobs api (cl_Instance c) [d] (byte_limit c) = ([d], [])"
    using separateBlobs_small [of "[d]" api "cl_Instance c" "byte_limit c"] small by simp
  have same: "cl_Instance c1 = cl_Instance c" "byte_limit c1 = byte_limit c" by (simp_all add: c1_def byte_limit_def)
  have look: "lookupBlobsInStore [d] ds = Inr [\<lparr>rq_Digest = Some d, rq_Data = b\<rparr>]"
    using ds nz by (simp add: lookupBlobsInStore_def readAll_def digest_Proto_def)
  have "upload api ds [d] [(d, i)] c1 = (Inl (Err e), c1\<lparr>cl_cas := s2\<rparr>)"
    using sep look fails by (simp add: upload_def same uploadWithBatchUpdateBlobs_def createBatchUpdateBlobsRequests_def with_cas_def Let_def)
      (simp add: c1_def)
  then have up: "uploadAll api others ds c = (Inl (Err e), c2)"
    using one_blob [OF c ds(1) nz find, of others] unfolding i_def [symmetric] c1_def [symmetric]
    by (simp add: op_close_def set_op_def Let_def c1_def c2_def i_def newUploadOp_def list_update_append)
  have "cl_knownDigests (c2\<lparr>cl_cas := s'\<rparr>) d = Some (Op i)" "i < length (cl_ops (c2\<lparr>cl_cas := s'\<rparr>))"
    "uo_closed (cl_ops (c2\<lparr>cl_cas := s'\<rparr>) ! i)" "uo_err (cl_ops (c2\<lparr>cl_cas := s'\<rparr>) ! i) = Some (Err e)" for s'
    by (simp_all add: c1_def c2_def i_def)
  from uploadAll_failed_op [OF this] up show ?thesis by simp
qed

definition batch_fails :: "digest list api" where
  "batch_fails = mem_api\<lparr>api_BatchUpdate := (\<lambda>s inst rqs. (Inl (Err ''unavailable''), s))\<rparr>"

theorem failed_batch_sticks_witness:
  "\<exists>f. fst (uploadAll mem_api no_others (one_store ''a'') (snd (uploadAll batch_fails no_others (one_store ''a'') demo_client))) = Inl f"
proof -
  define d where "d = da_digest (demo_blob ''a'')"
  define c' where "c' = snd (uploadAll batch_fails no_others (one_store ''a'') demo_client)"
  have "fst (uploadAll batch_fails no_others (one_store ''a'') demo_client) = Inl (Err ''unavailable'') \<and>
    (\<forall>api' others' ds' s'. d \<in> set (store_List ds') \<longrightarrow>
      (\<exists>f. fst (uploadAll api' others' ds' ((snd (uploadAll batch_fails no_others (one_store ''a'') demo_client))\<lparr>cl_cas := s'\<rparr>)) = Inl f))"
    by (rule failed_batch_sticks [where x = "demo_blob ''a''" and b = "''a''" and ?s1.0 = "[]"])
      (simp_all add: one_store_def d_def store_List_def store_Get_def demo_blob_def demo_client_def new_client_def too_large_def
        byte_limit_def batch_fails_def mem_api_def mem_size_def dummy_request_def digest_FromProto_def digest_Proto_def digest_IsZero_def)
  moreover have "d \<in> set (store_List (one_store ''a''))" by (simp add: one_store_def store_List_def d_def)
  ultimately have "\<exists>f. fst (uploadAll mem_api no_others (one_store ''a'') (c'\<lparr>cl_cas := cl_cas c'\<rparr>)) = Inl f" unfolding c'_def by blast
  then show ?thesis by (simp add: c'_def)
qed

end
