(* ===== verification/Layered_Cache.thy ===== *)
theory Layered_Cache
  imports Cas
begin

text \<open>
  The action cache (\<open>build/layered_cache.go\<close>, \<open>build/cache.go\<close>, \<open>build/cachestore/cache_store.go\<close>,
  \<open>reapi/cache.go\<close>). The interface \<open>CacheStore\<close> is a record of operations on the state of one layer;
  a layered cache is the list of its layers, the fastest first. Errors are told apart as far as
  \<open>isNotExist\<close> does.
\<close>

section \<open>Cache stores\<close>

datatype cacheErr = NotFound | Failed failure

type_synonym 'a cres = "cacheErr + 'a"

record actionResult =
  ar_ExitCode :: int
  ar_OutputFiles :: "outputFile list"
  ar_OutputSymlinks :: "outputSymlink list"
  ar_OutputDirectories :: "outputDirectory list"
  ar_StdoutRaw :: bytes
  ar_StdoutDigest :: "digest option"
  ar_StderrRaw :: bytes
  ar_StderrDigest :: "digest option"

text \<open>An action result is a pointer: \<open>None\<close> is nil.\<close>

record 's cacheStore =
  cs_GetActionResult :: "digest \<Rightarrow> 's \<Rightarrow> actionResult option cres \<times> 's"
  cs_SetActionResult :: "digest \<Rightarrow> actionResult option \<Rightarrow> 's \<Rightarrow> unit cres \<times> 's"
  cs_GetContent :: "digest \<Rightarrow> bytes \<Rightarrow> 's \<Rightarrow> bytes cres \<times> 's"
  cs_SetContent :: "digest \<Rightarrow> bytes \<Rightarrow> bytes \<Rightarrow> 's \<Rightarrow> unit cres \<times> 's"
  cs_HasContent :: "digest \<Rightarrow> 's \<Rightarrow> bool \<times> 's"
  cs_Source :: "digest \<Rightarrow> bytes \<Rightarrow> 's \<Rightarrow> bytes option"

definition isNotExist :: "cacheErr \<Rightarrow> bool" where
  "isNotExist e \<longleftrightarrow> e = NotFound"

definition validateRemoteActionResult :: "actionResult option \<Rightarrow> bool" where
  "validateRemoteActionResult result =
     (case result of None \<Rightarrow> False | Some r \<Rightarrow> \<not> (ar_ExitCode r = 0 \<and> ar_OutputFiles r = []))"

subsection \<open>The store behind the remote API\<close>

text \<open>\<open>getAR\<close> is the remote call that looks an action up.\<close>

definition to_cres :: "'a res \<times> 's \<Rightarrow> 'a cres \<times> 's" where
  "to_cres m = (case m of (Inl e, s) \<Rightarrow> (Inl (Failed e), s) | (Inr x, s) \<Rightarrow> (Inr x, s))"

definition reapi_SetContent :: "(bytes \<Rightarrow> bytes) \<Rightarrow> 'c api \<Rightarrow> (nat \<Rightarrow> 'c \<Rightarrow> failure option \<times> 'c) \<Rightarrow>
    digest \<Rightarrow> bytes \<Rightarrow> 'c client \<Rightarrow> unit res \<times> 'c client" where
  "reapi_SetContent sha256 api others d content c =
     (let data = data_FromBytes sha256 content in
      if d \<noteq> da_digest data then (Inl (Err ''digest mismatch''), c)
      else sbind (uploadAll api others (store_Set data newStore) c) (\<lambda>_ c. (Inr (), c)))"

definition reapi_HasContent :: "'c api \<Rightarrow> digest \<Rightarrow> 'c client \<Rightarrow> bool \<times> 'c client" where
  "reapi_HasContent api d c =
     (case missing api [d] c of (Inl _, c1) \<Rightarrow> (False, c1) | (Inr ms, c1) \<Rightarrow> (length ms \<noteq> 1, c1))"

definition reapi_store :: "(bytes \<Rightarrow> bytes) \<Rightarrow> 'c api \<Rightarrow> (nat \<Rightarrow> 'c \<Rightarrow> failure option \<times> 'c) \<Rightarrow>
    ('c \<Rightarrow> digest \<Rightarrow> actionResult option cres) \<Rightarrow> 'c client cacheStore" where
  "reapi_store sha256 api others getAR = \<lparr>
     cs_GetActionResult = (\<lambda>d c. (getAR (cl_cas c) d, c)),
     cs_SetActionResult = (\<lambda>d ar c. (Inr (), c)),
     cs_GetContent = (\<lambda>d f c. to_cres (cas_Get api (Some c) d, c)),
     cs_SetContent = (\<lambda>d f content c. to_cres (reapi_SetContent sha256 api others d content c)),
     cs_HasContent = reapi_HasContent api,
     cs_Source = (\<lambda>d f c. (case getWithByteStream api c d of Inl _ \<Rightarrow> None | Inr b \<Rightarrow> Some b))\<rparr>"

section \<open>Layers\<close>

definition newLayeredCache :: "'s list" where
  "newLayeredCache = []"

definition addLayer :: "'s \<Rightarrow> 's list \<Rightarrow> 's list" where
  "addLayer cache caches = caches @ [cache]"

definition noCaches :: cacheErr where
  "noCaches = Failed (Err ''no caches to retrieve content from'')"

text \<open>The loops over the layers; \<open>faster\<close> are the layers that did not have the entry.\<close>

fun get_ar_loop :: "'s cacheStore \<Rightarrow> digest \<Rightarrow> 's list \<Rightarrow> 's list \<Rightarrow> actionResult option cres \<times> 's list" where
  "get_ar_loop ops d faster [] = (Inl noCaches, faster)"
| "get_ar_loop ops d faster (cache # caches) =
     (case cs_GetActionResult ops d cache of
        (Inl err, cache') \<Rightarrow>
          if isNotExist err then get_ar_loop ops d (faster @ [cache']) caches
          else (Inl err, faster @ cache' # caches)
      | (Inr None, cache') \<Rightarrow> (Inl (Failed (Panic ''nil pointer'')), faster @ cache' # caches)
      | (Inr (Some ar), cache') \<Rightarrow>
          if ar_ExitCode ar \<noteq> 0 \<or> \<not> validateRemoteActionResult (Some ar) then (Inr (Some ar), faster @ cache' # caches)
          else (Inr (Some ar), map (\<lambda>l. snd (cs_SetActionResult ops d (Some ar) l)) faster @ cache' # caches))"

definition layered_GetActionResult :: "'s cacheStore \<Rightarrow> digest \<Rightarrow> 's list \<Rightarrow> actionResult option cres \<times> 's list" where
  "layered_GetActionResult ops d caches = get_ar_loop ops d [] caches"

definition layered_SetActionResult :: "'s cacheStore \<Rightarrow> digest \<Rightarrow> actionResult option \<Rightarrow> 's list \<Rightarrow> unit cres \<times> 's list" where
  "layered_SetActionResult ops d ar caches =
     (case caches of
        [] \<Rightarrow> (Inr (), [])
      | cache # rest \<Rightarrow> (case cs_SetActionResult ops d ar cache of (r, cache') \<Rightarrow> (r, cache' # rest)))"

fun get_content_loop :: "'s cacheStore \<Rightarrow> digest \<Rightarrow> bytes \<Rightarrow> 's list \<Rightarrow> 's list \<Rightarrow> bytes cres \<times> 's list" where
  "get_content_loop ops d f faster [] = (Inl noCaches, faster)"
| "get_content_loop ops d f faster (cache # caches) =
     (case cs_GetContent ops d f cache of
        (Inl err, cache') \<Rightarrow>
          if isNotExist err then get_content_loop ops d f (faster @ [cache']) caches
          else (Inl err, faster @ cache' # caches)
      | (Inr content, cache') \<Rightarrow>
          (Inr content, map (\<lambda>l. snd (cs_SetContent ops d f content l)) faster @ cache' # caches))"

definition layered_GetContent :: "'s cacheStore \<Rightarrow> digest \<Rightarrow> bytes \<Rightarrow> 's list \<Rightarrow> bytes cres \<times> 's list" where
  "layered_GetContent ops d f caches = get_content_loop ops d f [] caches"

definition layered_SetContent :: "'s cacheStore \<Rightarrow> digest \<Rightarrow> bytes \<Rightarrow> bytes \<Rightarrow> 's list \<Rightarrow> unit cres \<times> 's list" where
  "layered_SetContent ops d f content caches =
     (case caches of
        [] \<Rightarrow> (Inr (), [])
      | cache # rest \<Rightarrow> (case cs_SetContent ops d f content cache of (r, cache') \<Rightarrow> (r, cache' # rest)))"

fun layered_HasContent :: "'s cacheStore \<Rightarrow> digest \<Rightarrow> 's list \<Rightarrow> bool \<times> 's list" where
  "layered_HasContent ops d [] = (False, [])"
| "layered_HasContent ops d (cache # caches) =
     (case cs_HasContent ops d cache of
        (True, cache') \<Rightarrow> (True, cache' # caches)
      | (False, cache') \<Rightarrow> (case layered_HasContent ops d caches of (r, caches') \<Rightarrow> (r, cache' # caches')))"

fun layered_Source :: "'s cacheStore \<Rightarrow> digest \<Rightarrow> bytes \<Rightarrow> 's list \<Rightarrow> bytes option \<times> 's list" where
  "layered_Source ops d f [] = (None, [])"
| "layered_Source ops d f [cache] = (cs_Source ops d f cache, [cache])"
| "layered_Source ops d f (cache # c2 # caches) =
     (case cs_HasContent ops d cache of
        (True, cache') \<Rightarrow> (cs_Source ops d f cache', cache' # c2 # caches)
      | (False, cache') \<Rightarrow> (case layered_Source ops d f (c2 # caches) of (r, caches') \<Rightarrow> (r, cache' # caches')))"

definition layered_store :: "'s cacheStore \<Rightarrow> 's list cacheStore" where
  "layered_store ops = \<lparr>
     cs_GetActionResult = layered_GetActionResult ops,
     cs_SetActionResult = layered_SetActionResult ops,
     cs_GetContent = layered_GetContent ops,
     cs_SetContent = layered_SetContent ops,
     cs_HasContent = layered_HasContent ops,
     cs_Source = (\<lambda>d f caches. fst (layered_Source ops d f caches))\<rparr>"

section \<open>The cache of the builder\<close>

text \<open>What a command gets from a cached action result.\<close>

record cachedCmd =
  cc_actionDigest :: digest
  cc_result :: "actionResult option"
  cc_stdout :: bytes
  cc_stderr :: bytes

definition error_text :: "cacheErr \<Rightarrow> bytes" where
  "error_text e = (case e of NotFound \<Rightarrow> ''not found'' | Failed (Err m) \<Rightarrow> m | Failed (Panic m) \<Rightarrow> m)"

definition result_output :: "'s cacheStore \<Rightarrow> bytes \<Rightarrow> bytes \<Rightarrow> digest option \<Rightarrow> 's \<Rightarrow> bytes \<times> 's" where
  "result_output store name raw dg s =
     (if raw \<noteq> [] then (raw, s)
      else if dg_SizeBytes (digest_FromProto dg) = 0 then ([], s)
      else case cs_GetContent store (digest_FromProto dg) name s of
          (Inl err, s1) \<Rightarrow> (error_text err, s1)
        | (Inr buf, s1) \<Rightarrow> (buf, s1))"

definition setActionResultStdout :: "'s cacheStore \<Rightarrow> actionResult \<Rightarrow> cachedCmd \<Rightarrow> 's \<Rightarrow> cachedCmd \<times> 's" where
  "setActionResultStdout store result cmd s =
     (case result_output store ''stdout'' (ar_StdoutRaw result) (ar_StdoutDigest result) s of
        (out, s1) \<Rightarrow> (cmd\<lparr>cc_stdout := out\<rparr>, s1))"

definition setActionResultStderr :: "'s cacheStore \<Rightarrow> actionResult \<Rightarrow> cachedCmd \<Rightarrow> 's \<Rightarrow> cachedCmd \<times> 's" where
  "setActionResultStderr store result cmd s =
     (case result_output store ''stderr'' (ar_StderrRaw result) (ar_StderrDigest result) s of
        (out, s1) \<Rightarrow> (cmd\<lparr>cc_stderr := out\<rparr>, s1))"

text \<open>
  \<open>cmd.Digest\<close> and \<open>cmd.RecordOutputs\<close> are the parameters \<open>cmdDigest\<close> and \<open>recordOutputs\<close>; \<open>None\<close> is a
  cache that is not configured.
\<close>

definition cache_GetActionResult :: "'s cacheStore option \<Rightarrow> digest res \<Rightarrow> (actionResult option \<Rightarrow> 's \<Rightarrow> unit cres) \<Rightarrow>
    cachedCmd \<Rightarrow> 's \<Rightarrow> unit cres \<times> cachedCmd \<times> 's" where
  "cache_GetActionResult cache cmdDigest recordOutputs cmd s =
     (case cache of
        None \<Rightarrow> (Inl NotFound, cmd, s)
      | Some store \<Rightarrow>
          (case cmdDigest of
             Inl e \<Rightarrow> (Inl (Failed e), cmd, s)
           | Inr d \<Rightarrow>
               (case cs_GetActionResult store d s of
                  (Inl e, s1) \<Rightarrow> (Inl e, cmd, s1)
                | (Inr result, s1) \<Rightarrow>
                    let cmd1 = cmd\<lparr>cc_actionDigest := d, cc_result := result\<rparr> in
                    (case result of
                       None \<Rightarrow> (Inl (Failed (Panic ''nil pointer'')), cmd1, s1)
                     | Some r \<Rightarrow>
                         (case setActionResultStdout store r cmd1 s1 of (cmd2, s2) \<Rightarrow>
                         (case setActionResultStderr store r cmd2 s2 of (cmd3, s3) \<Rightarrow>
                           (recordOutputs result s3, cmd3, s3)))))))"

end
