(* ===== verification/Cache_Props.thy ===== *)
theory Cache_Props
  imports Layered_Cache
begin

text \<open>
  What reading through the layers does: the answer comes from the fastest layer that does not say that
  it lacks the entry, no answer changes by reading, and a read fills the faster layers, but never with a
  failed result.
\<close>

section \<open>Answers\<close>







section \<open>The contract of one layer\<close>


section \<open>The layers\<close>












end
