(* ===== verification/Command.thy ===== *)
theory Command
  imports Layered_Cache Mtime_Check
begin

text \<open>
  Build commands and their action digests (\<open>execute/cmd.go\<close>). What a command asks of the file system
  are parameters: the entries of files, and the entries it recorded before the run. Messages are
  values of the type \<open>proto\<close>; their encoding and SHA-256 are parameters. Times are numbers, 0 the
  zero time, and maps with a fixed set of keys are association lists. \<open>filepath.ToSlash\<close> is the identity.
\<close>

section \<open>Commands\<close>

record mode =
  md_perm :: nat
  md_dir :: bool
  md_symlink :: bool

record updateEntry =
  ue_Name :: bytes
  ue_Entry :: "entry option"
  ue_Mode :: mode
  ue_ModTime :: nat
  ue_CmdHash :: bytes
  ue_Action :: digest
  ue_UpdatedTime :: nat
  ue_IsChanged :: bool
  ue_IsLocal :: bool

record cmd =
  cm_ID :: bytes
  cm_Desc :: bytes
  cm_ActionName :: bytes
  cm_Args :: "bytes list"
  cm_Env :: "bytes list"
  cm_RSPFile :: bytes
  cm_RSPFileContent :: bytes
  cm_CmdHash :: bytes
  cm_ExecRoot :: bytes
  cm_Dir :: bytes
  cm_Inputs :: "bytes list"
  cm_ToolInputs :: "bytes list"
  cm_TreeInputs :: "treeEntry list"
  cm_UseSystemInput :: bool
  cm_Outputs :: "bytes list"
  cm_ReconcileOutputdirs :: "bytes list"
  cm_Deps :: bytes
  cm_Depfile :: bytes
  cm_Restat :: bool
  cm_RestatContent :: bool
  cm_Pure :: bool
  cm_SkipCacheLookup :: bool
  cm_Platform :: "(bytes \<times> bytes) list"
  cm_RemoteWrapper :: bytes
  cm_RemoteCommand :: bytes
  cm_RemoteInputs :: "(bytes \<times> bytes) list"
  cm_CanonicalizeDir :: bool
  cm_Timeout :: int
  cm_ActionSalt :: bytes
  cm_Console :: bool
  cm_outfiles :: "bytes list"
  cm_preOutputEntries :: "updateEntry list"
  cm_stdout :: bytes
  cm_stderr :: bytes
  cm_actionDigest :: digest
  cm_result :: "actionResult option"

definition initOutputs :: "cmd \<Rightarrow> cmd" where
  "initOutputs c = c\<lparr>cm_outfiles := cm_Outputs c\<rparr>"

definition allInputs :: "cmd \<Rightarrow> bytes list" where
  "allInputs c = (if cm_RSPFile c = [] then cm_Inputs c else cm_Inputs c @ [cm_RSPFile c])"

definition allOutputs :: "cmd \<Rightarrow> bytes list" where
  "allOutputs c = (if cm_Depfile c = [] then cm_Outputs c else cm_Outputs c @ [cm_Depfile c])"

definition remoteArgs :: "cmd \<Rightarrow> bytes list res" where
  "remoteArgs c =
     (case cm_Args c of
        [] \<Rightarrow> Inl (Err ''0 args'')
      | a # as \<Rightarrow>
          let args = (if cm_RemoteCommand c \<noteq> [] then cm_RemoteCommand c # as else a # as) in
          Inr (if cm_RemoteWrapper c \<noteq> [] then cm_RemoteWrapper c # args else args))"

section \<open>Action digests\<close>

record command =
  co_Arguments :: "bytes list"
  co_WorkingDirectory :: bytes
  co_OutputFiles :: "bytes list"
  co_Platform :: "(bytes \<times> bytes) list"
  co_EnvironmentVariables :: "(bytes \<times> bytes) list"

record action =
  ac_CommandDigest :: "digest option"
  ac_InputRootDigest :: "digest option"
  ac_Timeout :: "int option"
  ac_Salt :: bytes
  ac_Platform :: "(bytes \<times> bytes) list"

datatype proto = CommandMsg command | ActionMsg action | DirectoryMsg directory

subsection \<open>Entries\<close>

text \<open>
  The remote entries by remote name; the reverse map lists the remote names of a local one. Remote
  names are distinct, being keys of a map.
\<close>

definition remote_names :: "(bytes \<times> bytes) list \<Rightarrow> bytes \<Rightarrow> bytes list" where
  "remote_names remoteInputs l = map fst (filter (\<lambda>(r, l'). l' = l) remoteInputs)"

definition remap_entries :: "(bytes \<times> bytes) list \<Rightarrow> entry list \<Rightarrow> (bytes \<times> entry) list" where
  "remap_entries remoteInputs reents =
     fold (\<lambda>e m. fold (\<lambda>r m. AList.update r (e\<lparr>en_Name := r\<rparr>) m) (remote_names remoteInputs (en_Name e)) m) reents []"

fun replace_entries :: "entry list \<Rightarrow> (bytes \<times> entry) list \<Rightarrow> entry list \<times> (bytes \<times> entry) list" where
  "replace_entries [] remap = ([], remap)"
| "replace_entries (e # ents) remap =
     (case map_of remap (en_Name e) of
        Some re \<Rightarrow> (case replace_entries ents (AList.delete (en_Name e) remap) of (ents', m) \<Rightarrow> (re # ents', m))
      | None \<Rightarrow> (case replace_entries ents remap of (ents', m) \<Rightarrow> (e # ents', m)))"

definition inputTree :: "(bytes list \<Rightarrow> entry list res) \<Rightarrow> cmd \<Rightarrow> entry list res" where
  "inputTree entries c =
     (let inputs = (if cm_UseSystemInput c then filter fp_isLocal (allInputs c) else allInputs c) in
      rbind (entries inputs) (\<lambda>ents.
        if cm_RemoteInputs c = [] then Inr ents
        else
          rbind (entries (sort (map snd (cm_RemoteInputs c)))) (\<lambda>reents.
            let (ents', rest) = replace_entries ents (remap_entries (cm_RemoteInputs c) reents) in
            Inr (sort_key en_Name (ents' @ map snd rest)))))"

text \<open>
  Building the tree needs as much fuel as the longest name is long. A tree that cannot be built
  leaves no store behind: the code that calls it gives up then.
\<close>

fun set_trees :: "treeEntry list \<Rightarrow> merkleTree \<Rightarrow> merkleTree res" where
  "set_trees [] t = Inr t"
| "set_trees (te # tes) t =
     (case merkle_SetTree te t of
        (Inl err, t1) \<Rightarrow> if err = errPrecomputedSubTree then set_trees tes t1 else Inl err
      | (Inr _, t1) \<Rightarrow> set_trees tes t1)"

fun set_entries :: "entry list \<Rightarrow> merkleTree \<Rightarrow> merkleTree res" where
  "set_entries [] t = Inr t"
| "set_entries (e # es) t =
     (case merkle_Set e t of
        (Inl err, t1) \<Rightarrow> if err = errPrecomputedSubTree then set_entries es t1 else Inl err
      | (Inr _, t1) \<Rightarrow> set_entries es t1)"

definition tree_fuel :: "treeEntry list \<Rightarrow> entry list \<Rightarrow> nat" where
  "tree_fuel subtrees ents = Suc (foldr max (map (length \<circ> te_Name) subtrees @ map (length \<circ> en_Name) ents) 0)"

definition treeDigest :: "(bytes \<Rightarrow> bytes) \<Rightarrow> (proto \<Rightarrow> bytes option) \<Rightarrow> treeEntry list \<Rightarrow> entry list \<Rightarrow> digest_store option \<Rightarrow>
    (digest \<times> digest_store option) res option" where
  "treeDigest sha256 marshal subtrees ents ds =
     obind (Some (rbind (set_trees subtrees (merkle_New ds)) (set_entries ents))) (\<lambda>t.
     obind (merkle_Build (tree_fuel subtrees ents) sha256 (\<lambda>d. marshal (DirectoryMsg d)) t) (\<lambda>(d, t'). Some (Inr (d, mt_store t'))))"

subsection \<open>Canonical directories\<close>

definition canonicalDir :: "cmd \<Rightarrow> bytes" where
  "canonicalDir c =
     (if cm_Dir c = [] \<or> cm_Dir c = ''.'' then []
      else fp_join (''out'' # replicate (length (split_on CHR ''/'' (cm_Dir c)) - 1) ''x''))"

fun cut_prefixes :: "bytes list \<Rightarrow> bytes \<Rightarrow> bytes option" where
  "cut_prefixes [] fname = None"
| "cut_prefixes (p # ps) fname = (if has_prefix fname p then Some (drop (length p) fname) else cut_prefixes ps fname)"

definition canonicalizeDir :: "bytes \<Rightarrow> bytes \<Rightarrow> bytes \<Rightarrow> bytes" where
  "canonicalizeDir fname dir cdir =
     (if dir = cdir then fname
      else if fname = dir then cdir
      else case cut_prefixes [dir @ ''/'', dir @ [BSL]] fname of Some f \<Rightarrow> fp_join [cdir, f] | None \<Rightarrow> fname)"

definition canonicalizeEntries :: "cmd \<Rightarrow> bytes \<Rightarrow> entry list \<Rightarrow> entry list" where
  "canonicalizeEntries c cdir ents = map (\<lambda>e. e\<lparr>en_Name := canonicalizeDir (en_Name e) (cm_Dir c) cdir\<rparr>) ents"

definition canonicalizeTrees :: "cmd \<Rightarrow> bytes \<Rightarrow> treeEntry list \<Rightarrow> treeEntry list" where
  "canonicalizeTrees c cdir trees = map (\<lambda>e. e\<lparr>te_Name := canonicalizeDir (te_Name e) (cm_Dir c) cdir\<rparr>) trees"

definition cmd_canonicalizeDir :: "cmd \<Rightarrow> entry list \<Rightarrow> treeEntry list \<Rightarrow> entry list \<times> treeEntry list" where
  "cmd_canonicalizeDir c ents trees =
     (let cdir = canonicalDir c in
      if cdir = [] then (ents, trees) else (canonicalizeEntries c cdir ents, canonicalizeTrees c cdir trees))"

subsection \<open>The digests\<close>

definition remoteExecutionPlatform :: "cmd \<Rightarrow> (bytes \<times> bytes) list" where
  "remoteExecutionPlatform c = sort_key fst (cm_Platform c)"

definition put_message :: "data \<Rightarrow> digest_store option \<Rightarrow> digest_store option" where
  "put_message d ds = map_option (store_Set d) ds"

definition remote_command :: "cmd \<Rightarrow> command res" where
  "remote_command c =
     rbind (remoteArgs c) (\<lambda>args.
       Inr \<lparr>co_Arguments = args,
         co_WorkingDirectory = (if cm_CanonicalizeDir c then canonicalDir c else cm_Dir c),
         co_OutputFiles = sort (map (\<lambda>out. case fp_rel (cm_Dir c) out of Inl _ \<Rightarrow> out | Inr rout \<Rightarrow> rout) (allOutputs c)),
         co_Platform = remoteExecutionPlatform c,
         co_EnvironmentVariables = sort_key fst (List.map_filter (\<lambda>e. str_cut e CHR ''='') (cm_Env c))\<rparr>)"

definition commandDigest :: "(bytes \<Rightarrow> bytes) \<Rightarrow> (proto \<Rightarrow> bytes option) \<Rightarrow> cmd \<Rightarrow> digest_store option \<Rightarrow> (digest \<times> digest_store option) res" where
  "commandDigest sha256 marshal c ds =
     rbind (remote_command c) (\<lambda>command.
     rbind (fromProtoMessage sha256 marshal (CommandMsg command)) (\<lambda>data.
       Inr (da_digest data, put_message data ds)))"

definition cmd_Digest :: "(bytes \<Rightarrow> bytes) \<Rightarrow> (proto \<Rightarrow> bytes option) \<Rightarrow> (bytes list \<Rightarrow> entry list res) \<Rightarrow> cmd \<Rightarrow> digest_store option \<Rightarrow>
    (digest \<times> cmd \<times> digest_store option) res option" where
  "cmd_Digest sha256 marshal entries c ds =
     (if \<not> cm_Pure c then Some (Inl (Err ''unable to create digest for impure cmd''))
      else
        obind (Some (inputTree entries c)) (\<lambda>ents0.
          let (ents1, treeInputs) = (if cm_CanonicalizeDir c then cmd_canonicalizeDir c ents0 (cm_TreeInputs c) else (ents0, cm_TreeInputs c));
              dir = (if cm_CanonicalizeDir c then canonicalDir c else cm_Dir c);
              ents = ents1 @ [\<lparr>en_Name = dir, en_Data = zero_data, en_IsExecutable = False, en_Target = []\<rparr>] in
          obind (treeDigest sha256 marshal treeInputs ents ds) (\<lambda>(inputRoot, ds1).
          obind (Some (commandDigest sha256 marshal c ds1)) (\<lambda>(cd, ds2).
          obind (Some (fromProtoMessage sha256 marshal (ActionMsg
            \<lparr>ac_CommandDigest = digest_Proto cd, ac_InputRootDigest = digest_Proto inputRoot,
              ac_Timeout = (if cm_Timeout c > 0 then Some (cm_Timeout c * 2) else None), ac_Salt = cm_ActionSalt c,
              ac_Platform = remoteExecutionPlatform c\<rparr>))) (\<lambda>act.
            Some (Inr (da_digest act, c\<lparr>cm_actionDigest := da_digest act\<rparr>, put_message act ds2)))))))"

section \<open>Results\<close>

definition setActionResult :: "actionResult option \<Rightarrow> cmd \<Rightarrow> cmd" where
  "setActionResult r c = c\<lparr>cm_result := r\<rparr>"

definition update_entry :: "bytes \<Rightarrow> entry \<Rightarrow> mode \<Rightarrow> bytes \<Rightarrow> digest \<Rightarrow> nat \<Rightarrow> updateEntry" where
  "update_entry name e m cmdhash act now =
     \<lparr>ue_Name = name, ue_Entry = Some e, ue_Mode = m, ue_ModTime = now, ue_CmdHash = cmdhash, ue_Action = act,
      ue_UpdatedTime = now, ue_IsChanged = True, ue_IsLocal = False\<rparr>"

text \<open>\<open>source\<close> is the data source of a digest, a part of the cache.\<close>

definition file_update :: "(digest \<Rightarrow> bytes \<Rightarrow> bytes option) \<Rightarrow> cmd \<Rightarrow> digest \<Rightarrow> nat \<Rightarrow> outputFile \<Rightarrow> updateEntry option" where
  "file_update source c act now f =
     (case of_Digest f of
        None \<Rightarrow> None
      | Some d \<Rightarrow>
          let fname = fp_join [cm_Dir c, of_Path f] in
          Some (update_entry fname
            \<lparr>en_Name = fname, en_Data = \<lparr>da_digest = d, da_source = source d fname\<rparr>, en_IsExecutable = of_IsExecutable f, en_Target = []\<rparr>
            \<lparr>md_perm = (if of_IsExecutable f then 493 else 420), md_dir = False, md_symlink = False\<rparr> [] act now))"

definition symlink_update :: "cmd \<Rightarrow> bytes \<Rightarrow> digest \<Rightarrow> nat \<Rightarrow> outputSymlink \<Rightarrow> updateEntry option" where
  "symlink_update c cmdhash act now s =
     (if os_Target s = [] then None
      else
        let fname = fp_join [cm_Dir c, os_Path s] in
        Some (update_entry fname \<lparr>en_Name = fname, en_Data = zero_data, en_IsExecutable = False, en_Target = os_Target s\<rparr>
          \<lparr>md_perm = 420, md_dir = False, md_symlink = True\<rparr> cmdhash act now))"

definition dir_update :: "cmd \<Rightarrow> bytes \<Rightarrow> digest \<Rightarrow> nat \<Rightarrow> outputDirectory \<Rightarrow> updateEntry" where
  "dir_update c cmdhash act now d =
     (let dname = fp_join [cm_Dir c, od_Path d] in
      update_entry dname \<lparr>en_Name = dname, en_Data = zero_data, en_IsExecutable = False, en_Target = []\<rparr>
        \<lparr>md_perm = 493, md_dir = True, md_symlink = False\<rparr> cmdhash act now)"

definition entriesFromResult :: "(digest \<Rightarrow> bytes \<Rightarrow> bytes option) \<Rightarrow> cmd \<Rightarrow> actionResult \<Rightarrow> bytes \<Rightarrow> digest \<Rightarrow> nat \<Rightarrow>
    updateEntry list \<times> updateEntry list" where
  "entriesFromResult source c result cmdhash act now =
     (let files = List.map_filter (file_update source c act now) (ar_OutputFiles result);
          known = filter (\<lambda>e. ue_Name e \<in> set (cm_outfiles c)) files in
      (map (\<lambda>e. e\<lparr>ue_CmdHash := cmdhash\<rparr>) known @
         List.map_filter (symlink_update c cmdhash act now) (ar_OutputSymlinks result) @
         map (dir_update c cmdhash act now) (ar_OutputDirectories result),
       filter (\<lambda>e. ue_Name e \<notin> set (cm_outfiles c)) files))"

definition recordPreOutputs :: "(bytes list \<Rightarrow> updateEntry list) \<Rightarrow> cmd \<Rightarrow> cmd" where
  "recordPreOutputs retrieve c = c\<lparr>cm_preOutputEntries := retrieve (allOutputs c)\<rparr>"

text \<open>The last entry of a name counts; without one the zero entry, with the zero time 0, is read.\<close>

definition pre_entry :: "cmd \<Rightarrow> bytes \<Rightarrow> updateEntry option" where
  "pre_entry c name =
     (if cm_Restat c \<or> cm_RestatContent c
      then map_of (rev (map (\<lambda>e. (ue_Name e, e)) (cm_preOutputEntries c))) name else None)"

definition entry_data :: "updateEntry option \<Rightarrow> data" where
  "entry_data u = (case u of None \<Rightarrow> zero_data | Some e \<Rightarrow> (case ue_Entry e of None \<Rightarrow> zero_data | Some en \<Rightarrow> en_Data en))"

definition mod_time :: "updateEntry option \<Rightarrow> nat" where
  "mod_time u = (case u of None \<Rightarrow> 0 | Some e \<Rightarrow> ue_ModTime e)"

definition output_entry :: "cmd \<Rightarrow> nat \<Rightarrow> bytes \<Rightarrow> updateEntry \<Rightarrow> updateEntry" where
  "output_entry c now cmdhash e0 =
     (let e = e0\<lparr>ue_CmdHash := cmdhash, ue_UpdatedTime := now\<rparr>;
          pent = pre_entry c (ue_Name e) in
      if cm_RestatContent c then
        let changed =
              (if \<not> data_IsZero (entry_data pent) \<and> \<not> data_IsZero (entry_data (Some e))
               then \<not> (da_digest (entry_data pent) = da_digest (entry_data (Some e)) \<and> dg_SizeBytes (da_digest (entry_data (Some e))) > 0)
               else True) in
        e\<lparr>ue_IsChanged := changed, ue_ModTime := (if changed then now else mod_time pent)\<rparr>
      else if cm_Restat c then e\<lparr>ue_IsChanged := (mod_time pent \<noteq> ue_ModTime e)\<rparr>
      else e\<lparr>ue_ModTime := now, ue_IsChanged := True\<rparr>)"

definition computeOutputEntries :: "cmd \<Rightarrow> updateEntry list \<Rightarrow> nat \<Rightarrow> bytes \<Rightarrow> updateEntry list" where
  "computeOutputEntries c entries now cmdhash = map (output_entry c now cmdhash) entries"

text \<open>The lists that are handed to \<open>HashFS.Update\<close>, which may fail; an error ends the sequence.\<close>

definition recordOutputs :: "(digest \<Rightarrow> bytes \<Rightarrow> bytes option) \<Rightarrow> (updateEntry list \<Rightarrow> 'fs \<Rightarrow> unit res \<times> 'fs) \<Rightarrow> cmd \<Rightarrow> nat \<Rightarrow> 'fs \<Rightarrow>
    unit res \<times> 'fs" where
  "recordOutputs source update c now fs =
     (case cm_result c of
        None \<Rightarrow> update [] fs
      | Some result \<Rightarrow>
          (case entriesFromResult source c result (cm_CmdHash c) (cm_actionDigest c) now of (entries, additional) \<Rightarrow>
             sbind (update (computeOutputEntries c entries now (cm_CmdHash c)) fs) (\<lambda>_ fs1.
               if additional = [] then (Inr (), fs1) else update (computeOutputEntries c additional now []) fs1)))"

text \<open>
  The files that \<open>RecordOutputsFromLocal\<close> reads back from the disk: the additional ones first, then
  the outputs of the build graph. \<open>retrieve\<close> reads their entries.
\<close>

definition additional_files :: "cmd \<Rightarrow> bytes list" where
  "additional_files c =
     (if cm_Depfile c \<noteq> [] \<and> cm_Depfile c \<notin> set (cm_outfiles c) then [cm_Depfile c] else []) @
     filter (\<lambda>out. out \<notin> set (cm_outfiles c)) (cm_Outputs c)"

definition update_dirs :: "(bytes \<Rightarrow> updateEntry list \<Rightarrow> 'fs \<Rightarrow> unit res \<times> 'fs) \<Rightarrow> updateEntry list \<Rightarrow> 'fs \<Rightarrow> unit res \<times> 'fs" where
  "update_dirs updateDir entries fs =
     fold (\<lambda>e m. sbind m (\<lambda>_ fs. if md_dir (ue_Mode e) then updateDir (ue_Name e) entries fs else (Inr (), fs))) entries (Inr (), fs)"

definition recordOutputsFromLocal :: "('fs \<Rightarrow> bytes list \<Rightarrow> updateEntry list) \<Rightarrow> (updateEntry list \<Rightarrow> 'fs \<Rightarrow> unit res \<times> 'fs) \<Rightarrow>
    (bytes \<Rightarrow> 'fs \<Rightarrow> 'fs) \<Rightarrow> (bytes \<Rightarrow> updateEntry list \<Rightarrow> 'fs \<Rightarrow> unit res \<times> 'fs) \<Rightarrow> cmd \<Rightarrow> nat \<Rightarrow> 'fs \<Rightarrow> unit res \<times> 'fs" where
  "recordOutputsFromLocal retrieve update forget updateDir c now fs0 =
     (let fs = fold forget (cm_ReconcileOutputdirs c) fs0;
          additional = sort (additional_files c) in
      sbind (if additional \<noteq> [] then update (computeOutputEntries c (retrieve fs additional) now []) fs else (Inr (), fs)) (\<lambda>_ fs1.
        let entries = computeOutputEntries c (retrieve fs1 (sort (remdups (cm_outfiles c)))) now (cm_CmdHash c) in
        sbind (update entries fs1) (\<lambda>_. update_dirs updateDir entries)))"

definition resultFromEntries :: "digest \<Rightarrow> actionResult \<Rightarrow> entry list \<Rightarrow> actionResult" where
  "resultFromEntries empty_digest result ents =
     fold (\<lambda>e r.
       if entry_IsSymlink e then r\<lparr>ar_OutputSymlinks := ar_OutputSymlinks r @ [\<lparr>os_Path = en_Name e, os_Target = en_Target e\<rparr>]\<rparr>
       else if entry_IsDir e then
         r\<lparr>ar_OutputDirectories := ar_OutputDirectories r @ [\<lparr>od_Path = en_Name e, od_TreeDigest = digest_Proto empty_digest\<rparr>]\<rparr>
       else r\<lparr>ar_OutputFiles := ar_OutputFiles r @
         [\<lparr>of_Path = en_Name e, of_Digest = digest_Proto (da_digest (en_Data e)), of_IsExecutable = en_IsExecutable e\<rparr>]\<rparr>) ents result"

end
