(* ===== verification/Command_Props.thy ===== *)
theory Command_Props
  imports Command Merkle_Proofs
begin

text \<open>
  Properties of commands: the digest computation always returns, and with a canonical directory the
  action digest does not depend on the name of the build directory.
\<close>

section \<open>The digest is computed\<close>

text \<open>No key of the table is longer than a bound.\<close>

definition keys_le :: "nat \<Rightarrow> merkleTree \<Rightarrow> bool" where
  "keys_le N t \<longleftrightarrow> (\<forall>k \<in> dom (mt_m t). length k \<le> N)"

text \<open>The length that a directory adds to the names below it.\<close>

definition reach_len :: "dirstate \<Rightarrow> nat" where
  "reach_len cur = (if ds_name cur = ''.'' \<or> ds_name cur = [] then 0 else Suc (length (ds_name cur)))"

lemma pathJoin_len: "length (pathJoin (ds_name cur) name) = reach_len cur + length name"
  by (simp add: pathJoin_def reach_len_def)

lemma keys_le_upd [simp]: "keys_le N (upd_dir k f t) \<longleftrightarrow> keys_le N t"
  by (auto simp: keys_le_def mt_m_upd dom_def split: if_splits)

lemma keys_le_put [simp]: "keys_le N (put_data d t) \<longleftrightarrow> keys_le N t"
  by (simp add: keys_le_def)

lemma keys_le_store [simp]: "keys_le N (t\<lparr>mt_store := x\<rparr>) \<longleftrightarrow> keys_le N t"
  by (simp add: keys_le_def)

lemma keys_le_add: "keys_le N t \<Longrightarrow> length k \<le> N \<Longrightarrow> keys_le N (t\<lparr>mt_m := (mt_m t)(k \<mapsto> x)\<rparr>)"
  by (auto simp: keys_le_def)

lemma setDir_keys:
  assumes "keys_le N t" "reach_len cur + length name \<le> N" "setDir cur name t = (r, t1)"
  shows "keys_le N t1 \<and> (\<forall>cur'. r = Inr cur' \<longrightarrow> reach_len cur' \<le> Suc (reach_len cur + length name))"
proof -
  have len: "length (pathJoin (ds_name cur) name) = reach_len cur + length name" by (rule pathJoin_len)
  consider (new) "mt_m t (pathJoin (ds_name cur) name) = None" | (pre) "mt_m t (pathJoin (ds_name cur) name) = Some None"
    | (old) d where "mt_m t (pathJoin (ds_name cur) name) = Some (Some d)" by (metis option.exhaust)
  then show ?thesis
  proof cases
    case new
    have k: "keys_le N (upd_dir (ds_dir cur) (add_dirnode \<lparr>dn_Name = name, dn_Digest = None\<rparr>) t)" using assms(1) by simp
    show ?thesis
      using assms(3) new keys_le_add [OF k, of "pathJoin (ds_name cur) name"] len assms(2)
      by (auto simp: setDir_def Let_def) (simp add: reach_len_def)
  next
    case pre
    then show ?thesis using assms(1,3) by (auto simp: setDir_def)
  next
    case old
    then have "r = Inr \<lparr>ds_name = pathJoin (ds_name cur) name, ds_dir = pathJoin (ds_name cur) name\<rparr>" "t1 = t"
      using assms(3) by (auto simp: setDir_def Let_def)
    then show ?thesis using assms(1) len by (auto simp: reach_len_def)
  qed
qed

lemma join_len_Cons: "length (join_with ''/'' (x # y # xs)) = Suc (length x + length (join_with ''/'' (y # xs)))"
  by simp

lemma walk_keys:
  assumes leaf: "\<And>cur name b t. keys_le N t \<Longrightarrow> reach_len cur + length name \<le> N \<Longrightarrow> keys_le N (snd (leaf cur name b t))"
    and "keys_le N t" "\<forall>c \<in> insert cur (set dirstack). reach_len c + length (join_with ''/'' elems) \<le> N"
  shows "keys_le N (snd (walk leaf elems cur dirstack t))"
  using assms(2-)
proof (induction elems arbitrary: cur dirstack t rule: induct_list012)
  case 1
  then show ?case by simp
next
  case (2 name)
  then show ?case using leaf by simp
next
  case (3 name e elems)
  have len: "\<forall>c \<in> insert cur (set dirstack). reach_len c + Suc (length name + length (join_with ''/'' (e # elems))) \<le> N"
    using "3.prems"(2) unfolding join_len_Cons .
  then have rest: "\<forall>c \<in> insert cur (set dirstack). reach_len c + length (join_with ''/'' (e # elems)) \<le> N" by fastforce
  consider "name = [] \<or> name = ''.''" | "name = ''..''" | "name \<noteq> [] \<and> name \<noteq> ''.'' \<and> name \<noteq> ''..''" by blast
  then show ?case
  proof cases
    case 1
    then show ?thesis using "3.IH"(2) [OF "3.prems"(1) rest] by simp
  next
    case 2
    show ?thesis
    proof (cases dirstack)
      case Nil
      then show ?thesis using 2 "3.prems"(1) by simp
    next
      case (Cons up st)
      have "keys_le N (snd (walk leaf (e # elems) up st t))" by (rule "3.IH"(2) [OF "3.prems"(1)]) (use rest Cons in simp)
      then show ?thesis using 2 Cons by simp
    qed
  next
    case plain: 3
    obtain r t1 where run: "setDir cur name t = (r, t1)" by fastforce
    have b: "reach_len cur + Suc (length name + length (join_with ''/'' (e # elems))) \<le> N" using len by blast
    then have "reach_len cur + length name \<le> N" by simp
    note t1 = setDir_keys [OF "3.prems"(1) this run]
    show ?thesis
    proof (cases r)
      case (Inl err)
      then show ?thesis using plain run t1 by simp
    next
      case (Inr cur')
      have "keys_le N (snd (walk leaf (e # elems) cur' (cur # dirstack) t1))"
        by (rule "3.IH"(2)) (use t1 Inr rest b in auto)
      then show ?thesis using plain run Inr by simp
    qed
  qed
qed

lemma set_leaf_keys:
  assumes "keys_le N t" "reach_len cur + length name \<le> N"
  shows "keys_le N (snd (set_leaf e cur name b t))"
proof -
  obtain r t1 where run: "setDir cur name t = (r, t1)" by fastforce
  then show ?thesis using assms setDir_keys [OF assms run] by (auto simp: set_leaf_def split: sum.split)
qed

lemma setTree_leaf_keys:
  assumes "keys_le N t" "reach_len cur + length name \<le> N"
  shows "keys_le N (snd (setTree_leaf te cur name b t))"
  using assms pathJoin_len [of cur name]
  by (auto simp: setTree_leaf_def Let_def intro!: keys_le_add split: option.split)

lemma walk_root_keys:
  assumes "\<And>cur name b t. keys_le N t \<Longrightarrow> reach_len cur + length name \<le> N \<Longrightarrow> keys_le N (snd (leaf cur name b t))"
    and "keys_le N t" "length fname \<le> N"
  shows "keys_le N (snd (walk leaf (splitElem fname) root_state [] t))"
  by (rule walk_keys [OF assms(1,2)]) (use assms(3) in \<open>auto simp: splitElem_def join_split_on reach_len_def root_state_def\<close>)

lemma merkle_Set_keys: "keys_le N t \<Longrightarrow> length (en_Name e) \<le> N \<Longrightarrow> keys_le N (snd (merkle_Set e t))"
  using walk_root_keys [of N "set_leaf e", OF set_leaf_keys] by (simp add: merkle_Set_def Let_def)

lemma merkle_SetTree_keys: "keys_le N t \<Longrightarrow> length (te_Name te) \<le> N \<Longrightarrow> keys_le N (snd (merkle_SetTree te t))"
  using walk_root_keys [of N "setTree_leaf te", OF setTree_leaf_keys] by (simp add: merkle_SetTree_def Let_def)

lemma set_trees_ok:
  assumes "set_trees tes t = Inr t'" "tree_ok t" "keys_le N t" "\<forall>te \<in> set tes. length (te_Name te) \<le> N"
  shows "tree_ok t' \<and> keys_le N t'"
  using assms
proof (induction tes arbitrary: t)
  case (Cons te tes)
  obtain r t1 where r: "merkle_SetTree te t = (r, t1)" by fastforce
  have "tree_ok t1" "keys_le N t1"
    using merkle_SetTree_ok [OF Cons.prems(2), of te] merkle_SetTree_keys [OF Cons.prems(3), of te] r Cons.prems(4) by simp_all
  moreover have "set_trees tes t1 = Inr t'" using Cons.prems(1) r by (auto split: sum.splits if_splits)
  ultimately show ?case using Cons.IH Cons.prems(4) by simp
qed simp

lemma set_entries_ok:
  assumes "set_entries es t = Inr t'" "tree_ok t" "keys_le N t" "\<forall>e \<in> set es. length (en_Name e) \<le> N"
  shows "tree_ok t' \<and> keys_le N t'"
  using assms
proof (induction es arbitrary: t)
  case (Cons e es)
  obtain r t1 where r: "merkle_Set e t = (r, t1)" by fastforce
  have "tree_ok t1" "keys_le N t1"
    using merkle_Set_ok [OF Cons.prems(2), of e] merkle_Set_keys [OF Cons.prems(3), of e] r Cons.prems(4) by simp_all
  moreover have "set_entries es t1 = Inr t'" using Cons.prems(1) r by (auto split: sum.splits if_splits)
  ultimately show ?case using Cons.IH Cons.prems(4) by simp
qed simp

lemma foldr_max_ge: "(x :: nat) \<in> set xs \<Longrightarrow> x \<le> foldr max xs 0"
  by (induction xs) auto

lemma treeDigest_returns: "treeDigest sha256 marshal subtrees ents ds \<noteq> None"
proof (cases "rbind (set_trees subtrees (merkle_New ds)) (set_entries ents)")
  case (Inl e)
  then show ?thesis by (simp add: treeDigest_def)
next
  case (Inr t)
  define N where "N = foldr max (map (length \<circ> te_Name) subtrees @ map (length \<circ> en_Name) ents) 0"
  have len: "length (te_Name x) \<le> N" if "x \<in> set subtrees" for x
    unfolding N_def by (rule foldr_max_ge) (use that in auto)
  have len': "length (en_Name x) \<le> N" if "x \<in> set ents" for x
    unfolding N_def by (rule foldr_max_ge) (use that in auto)
  obtain t0 where t0: "set_trees subtrees (merkle_New ds) = Inr t0" "set_entries ents t0 = Inr t"
    using Inr by (auto simp: rbind_eq_Inr)
  have "keys_le N (merkle_New ds)" by (simp add: keys_le_def merkle_New_def)
  then have "tree_ok t0 \<and> keys_le N t0" using set_trees_ok [OF t0(1) tree_ok_New] len by blast
  then have t: "tree_ok t" "keys_le N t" using set_entries_ok [OF t0(2)] len' by blast+
  have "built t (\<lambda>_ _. True) (buildTree (Suc N) sha256 (\<lambda>d. marshal (DirectoryMsg d)) t [])"
    by (rule buildTree_built [OF t(1) _ tree_okD(2) [OF t(1)], where N = N]) (use t(2) in \<open>simp_all add: keys_le_def\<close>)
  moreover have "tree_fuel subtrees ents = Suc N" by (simp add: tree_fuel_def N_def)
  ultimately show ?thesis
    using Inr by (elim builtE) (simp_all del: buildTree.simps add: treeDigest_def merkle_Build_def)
qed

text \<open>
  Computing the digest of a command always returns, with a digest or an error. The fuel for the
  tree, the length of the longest name, is enough for any entries and subtrees.
\<close>

theorem cmd_Digest_returns: "\<exists>r. cmd_Digest sha256 marshal entries c ds = Some r"
proof -
  have bind: "\<exists>r. obind m f = Some r" if "m \<noteq> None" "\<And>x. m = Some (Inr x) \<Longrightarrow> \<exists>r. f x = Some r" for m :: "'x res option" and f :: "'x \<Rightarrow> 'y res option"
    using that by (auto simp: obind_def split: option.splits sum.splits)
  show ?thesis
    unfolding cmd_Digest_def Let_def
    by (auto intro!: bind treeDigest_returns split: prod.split)
qed

section \<open>Relocation\<close>

text \<open>A path of at least one plain element.\<close>

definition proper :: "bytes \<Rightarrow> bytes list \<Rightarrow> bool" where
  "proper p es \<longleftrightarrow> plain_path p es \<and> es \<noteq> []"

lemma join_with_append:
  "xs \<noteq> [] \<Longrightarrow> ys \<noteq> [] \<Longrightarrow> join_with ''/'' (xs @ ys) = join_with ''/'' xs @ ''/'' @ join_with ''/'' ys"
proof (induction xs rule: induct_list012)
  case (2 x)
  then show ?case by (cases ys) auto
qed auto

lemma proper_join:
  assumes "proper d ds" "proper f fs"
  shows "proper (d @ ''/'' @ f) (ds @ fs)"
  using assms join_with_append [of ds fs] by (auto simp: proper_def plain_path_def)

lemma proper_ne: "proper p es \<Longrightarrow> p \<noteq> [] \<and> p \<noteq> ''.'' \<and> \<not> isAbs p \<and> fp_clean p = p \<and> split_on CHR ''/'' p = es"
proof -
  assume p: "proper p es"
  then have pl: "plain_path p es" and ne: "es \<noteq> []" by (simp_all add: proper_def)
  have sp: "split_on CHR ''/'' p = es" using plain_split [OF pl] ne by simp
  have "p \<noteq> ''.''"
  proof
    assume "p = ''.''"
    then have "es = [''.'']" using sp by simp
    then show False using pl by (simp add: plain_path_def plain_elem_def elem_ok_def)
  qed
  then show ?thesis using plain_not_abs [OF pl] plain_clean [OF pl] sp by simp
qed

lemma fp_join_proper:
  assumes "proper d ds" "proper f fs"
  shows "fp_join [d, f] = d @ ''/'' @ f"
  using proper_ne [OF assms(1)] proper_ne [OF proper_join [OF assms]] by (simp add: fp_join_def Let_def)

lemma strip_common_prefix: "strip_common ds (ds @ fs) = ([], fs)"
  by (induction ds) (cases fs, simp_all)

lemma fp_rel_below:
  assumes "proper d ds" "proper f fs"
  shows "fp_rel d (d @ ''/'' @ f) = Inr f"
proof -
  note d = proper_ne [OF assms(1)] and df = proper_ne [OF proper_join [OF assms]] and f = assms(2) [unfolded proper_def plain_path_def]
  have "path_elems d = ds" "path_elems (d @ ''/'' @ f) = ds @ fs" using d df by (simp_all add: path_elems_def)
  then show ?thesis using d df f strip_common_prefix [of ds fs] by (simp add: fp_rel_def Let_def)
qed

lemma canonicalDir_proper:
  assumes "proper (cm_Dir c) ds"
  shows "proper (canonicalDir c) (''out'' # replicate (length ds - 1) ''x'')"
proof -
  let ?es = "''out'' # replicate (length ds - 1) ''x''"
  have "plain_path (join_with ''/'' ?es) ?es" by (auto simp: plain_path_def plain_elem_def elem_ok_def)
  then have "proper (join_with ''/'' ?es) ?es" by (simp add: proper_def)
  moreover from this have "canonicalDir c = join_with ''/'' ?es"
    using proper_ne [OF assms] proper_ne [of "join_with ''/'' ?es" ?es] by (simp add: canonicalDir_def fp_join_def Let_def)
  ultimately show ?thesis by simp
qed

text \<open>
  The same file for two build directories: the directory itself, a file below it, or a file that is
  outside of both.
\<close>

definition outside :: "bytes \<Rightarrow> bytes \<Rightarrow> bool" where
  "outside d n \<longleftrightarrow> n \<noteq> d \<and> \<not> has_prefix n (d @ ''/'') \<and> \<not> has_prefix n (d @ [BSL])"

definition moved :: "bytes \<Rightarrow> bytes \<Rightarrow> bytes \<Rightarrow> bytes \<Rightarrow> bool" where
  "moved d1 d2 n1 n2 \<longleftrightarrow>
     (n1 = d1 \<and> n2 = d2) \<or> (\<exists>f fs. proper f fs \<and> n1 = d1 @ ''/'' @ f \<and> n2 = d2 @ ''/'' @ f) \<or>
     (n1 = n2 \<and> outside d1 n1 \<and> outside d2 n1)"

lemma canonicalizeDir_below:
  assumes "proper cdir cs" "proper f fs"
  shows "canonicalizeDir (d @ ''/'' @ f) d cdir = cdir @ ''/'' @ f"
proof (cases "d = cdir")
  case False
  have "cut_prefixes [d @ ''/'', d @ [BSL]] (d @ ''/'' @ f) = Some f"
    using has_prefix_append [of "d @ ''/''" f] by simp
  then show ?thesis using False fp_join_proper [OF assms] by (simp add: canonicalizeDir_def)
qed (simp add: canonicalizeDir_def)

lemma canonicalizeDir_moved:
  assumes "proper cdir cs" "moved d1 d2 n1 n2"
  shows "canonicalizeDir n1 d1 cdir = canonicalizeDir n2 d2 cdir"
proof -
  consider "n1 = d1" "n2 = d2" | f fs where "proper f fs" "n1 = d1 @ ''/'' @ f" "n2 = d2 @ ''/'' @ f" | "n1 = n2" "outside d1 n1" "outside d2 n1"
    using assms(2) unfolding moved_def by blast
  then show ?thesis
  proof cases
    case 1
    then show ?thesis by (simp add: canonicalizeDir_def)
  next
    case 2
    then show ?thesis using canonicalizeDir_below [OF assms(1)] by simp
  next
    case 3
    then show ?thesis by (simp add: canonicalizeDir_def outside_def)
  qed
qed

definition moved_entry :: "bytes \<Rightarrow> bytes \<Rightarrow> entry \<Rightarrow> entry \<Rightarrow> bool" where
  "moved_entry d1 d2 e1 e2 \<longleftrightarrow> moved d1 d2 (en_Name e1) (en_Name e2) \<and> e2 = e1\<lparr>en_Name := en_Name e2\<rparr>"

definition moved_tree :: "bytes \<Rightarrow> bytes \<Rightarrow> treeEntry \<Rightarrow> treeEntry \<Rightarrow> bool" where
  "moved_tree d1 d2 e1 e2 \<longleftrightarrow> moved d1 d2 (te_Name e1) (te_Name e2) \<and> e2 = e1\<lparr>te_Name := te_Name e2\<rparr>"

definition moved_output :: "bytes \<Rightarrow> bytes \<Rightarrow> bytes \<Rightarrow> bytes \<Rightarrow> bool" where
  "moved_output d1 d2 o1 o2 \<longleftrightarrow> (\<exists>f fs. proper f fs \<and> o1 = d1 @ ''/'' @ f \<and> o2 = d2 @ ''/'' @ f)"

text \<open>What the digest depends on besides files and the directory.\<close>

definition same_command :: "cmd \<Rightarrow> cmd \<Rightarrow> bool" where
  "same_command c1 c2 \<longleftrightarrow> cm_Args c1 = cm_Args c2 \<and> cm_Env c1 = cm_Env c2 \<and> cm_Platform c1 = cm_Platform c2 \<and>
     cm_RemoteWrapper c1 = cm_RemoteWrapper c2 \<and> cm_RemoteCommand c1 = cm_RemoteCommand c2 \<and> cm_Timeout c1 = cm_Timeout c2 \<and>
     cm_ActionSalt c1 = cm_ActionSalt c2 \<and> cm_Pure c1 = cm_Pure c2"

lemma map_moved: "list_all2 R xs ys \<Longrightarrow> (\<And>x y. R x y \<Longrightarrow> f x = g y) \<Longrightarrow> map f xs = map g ys"
  by (induction rule: list_all2_induct) simp_all

text \<open>
  C19: With a canonical directory the action digest is the same for build directories of the same depth:
  if two commands differ only in the directory, and their inputs, subtrees and outputs are the same
  files relative to it or outside of it, then both digest computations end the same way, with the same
  digest and the same store.
\<close>

theorem action_digest_relocatable:
  assumes dirs: "proper (cm_Dir c1) ds1" "proper (cm_Dir c2) ds2" "length ds1 = length ds2"
    and canon: "cm_CanonicalizeDir c1" "cm_CanonicalizeDir c2" and same: "same_command c1 c2"
    and ents: "inputTree entries1 c1 = Inr es1" "inputTree entries2 c2 = Inr es2" "list_all2 (moved_entry (cm_Dir c1) (cm_Dir c2)) es1 es2"
    and trees: "list_all2 (moved_tree (cm_Dir c1) (cm_Dir c2)) (cm_TreeInputs c1) (cm_TreeInputs c2)"
    and outs: "list_all2 (moved_output (cm_Dir c1) (cm_Dir c2)) (allOutputs c1) (allOutputs c2)"
  shows "map_option (map_sum id (\<lambda>(d, _, s). (d, s))) (cmd_Digest sha256 marshal entries1 c1 ds) =
    map_option (map_sum id (\<lambda>(d, _, s). (d, s))) (cmd_Digest sha256 marshal entries2 c2 ds)"
proof -
  define cdir where "cdir = canonicalDir c1"
  have cdir: "proper cdir (''out'' # replicate (length ds1 - 1) ''x'')" unfolding cdir_def by (rule canonicalDir_proper [OF dirs(1)])
  have c2: "canonicalDir c2 = cdir"
    using canonicalDir_proper [OF dirs(2)] cdir dirs(3) by (simp add: proper_def plain_path_def)
  have cne: "cdir \<noteq> []" using proper_ne [OF cdir] by blast
  have plat: "remoteExecutionPlatform c1 = remoteExecutionPlatform c2" "cm_Pure c1 = cm_Pure c2" "cm_Timeout c1 = cm_Timeout c2"
    "cm_ActionSalt c1 = cm_ActionSalt c2"
    using same by (simp_all add: same_command_def remoteExecutionPlatform_def)
  have args: "remoteArgs c1 = remoteArgs c2" and env: "cm_Env c1 = cm_Env c2"
    using same unfolding remoteArgs_def same_command_def by (simp_all cong: list.case_cong if_cong)
  have "canonicalizeEntries c1 cdir es1 = canonicalizeEntries c2 cdir es2"
    unfolding canonicalizeEntries_def
  proof (rule map_moved [OF ents(3)])
    fix e1 e2 assume m: "moved_entry (cm_Dir c1) (cm_Dir c2) e1 e2"
    then have "canonicalizeDir (en_Name e1) (cm_Dir c1) cdir = canonicalizeDir (en_Name e2) (cm_Dir c2) cdir"
      using canonicalizeDir_moved [OF cdir] by (simp add: moved_entry_def)
    moreover have "e2\<lparr>en_Name := x\<rparr> = e1\<lparr>en_Name := x\<rparr>" for x using m unfolding moved_entry_def by (cases e1; cases e2) simp
    ultimately show "e1\<lparr>en_Name := canonicalizeDir (en_Name e1) (cm_Dir c1) cdir\<rparr> = e2\<lparr>en_Name := canonicalizeDir (en_Name e2) (cm_Dir c2) cdir\<rparr>" by simp
  qed
  moreover have "canonicalizeTrees c1 cdir (cm_TreeInputs c1) = canonicalizeTrees c2 cdir (cm_TreeInputs c2)"
    unfolding canonicalizeTrees_def
  proof (rule map_moved [OF trees])
    fix e1 e2 assume m: "moved_tree (cm_Dir c1) (cm_Dir c2) e1 e2"
    then have "canonicalizeDir (te_Name e1) (cm_Dir c1) cdir = canonicalizeDir (te_Name e2) (cm_Dir c2) cdir"
      using canonicalizeDir_moved [OF cdir] by (simp add: moved_tree_def)
    moreover have "e2\<lparr>te_Name := x\<rparr> = e1\<lparr>te_Name := x\<rparr>" for x using m unfolding moved_tree_def by (cases e1; cases e2) simp
    ultimately show "e1\<lparr>te_Name := canonicalizeDir (te_Name e1) (cm_Dir c1) cdir\<rparr> = e2\<lparr>te_Name := canonicalizeDir (te_Name e2) (cm_Dir c2) cdir\<rparr>" by simp
  qed
  moreover have "map (\<lambda>out. case fp_rel (cm_Dir c1) out of Inl _ \<Rightarrow> out | Inr rout \<Rightarrow> rout) (allOutputs c1) =
      map (\<lambda>out. case fp_rel (cm_Dir c2) out of Inl _ \<Rightarrow> out | Inr rout \<Rightarrow> rout) (allOutputs c2)"
    by (rule map_moved [OF outs]) (use fp_rel_below [OF dirs(1)] fp_rel_below [OF dirs(2)] in \<open>auto simp: moved_output_def\<close>)
  then have cmd: "remote_command c1 = remote_command c2"
    unfolding remote_command_def args env plat(1) by (simp add: canon c2 cdir_def)
  ultimately have tree: "cmd_canonicalizeDir c1 es1 (cm_TreeInputs c1) = cmd_canonicalizeDir c2 es2 (cm_TreeInputs c2)"
    using c2 cne by (simp add: cmd_canonicalizeDir_def cdir_def Let_def)
  have obind_map: "map_option (map_sum id h) (obind m f) = map_option (map_sum id h) (obind m g)"
    if "\<And>x. m = Some (Inr x) \<Longrightarrow> map_option (map_sum id h) (f x) = map_option (map_sum id h) (g x)"
    for m :: "'x res option" and f g :: "'x \<Rightarrow> 'y res option" and h :: "'y \<Rightarrow> 'z"
    using that by (auto simp: obind_def split: option.split sum.split)
  show ?thesis
    unfolding cmd_Digest_def ents(1,2) commandDigest_def cmd plat Let_def
    using canon c2 by (auto simp: tree cdir_def intro!: obind_map split: prod.split)
qed

text \<open>A compile step in a build directory: a source, a generated header and an object file.\<close>

definition example_cmd :: "bytes \<Rightarrow> cmd" where
  "example_cmd dir =
     \<lparr>cm_ID = ''1'', cm_Desc = ''CXX'', cm_ActionName = ''cxx'', cm_Args = [''clang++'', ''-c'', ''a.cc''], cm_Env = [''PATH=/bin''],
      cm_RSPFile = [], cm_RSPFileContent = [], cm_CmdHash = [], cm_ExecRoot = ''/b'', cm_Dir = dir,
      cm_Inputs = [''a.cc'', dir @ ''/gen.h''], cm_ToolInputs = [], cm_TreeInputs = [], cm_UseSystemInput = False,
      cm_Outputs = [dir @ ''/a.o''], cm_ReconcileOutputdirs = [], cm_Deps = [], cm_Depfile = [], cm_Restat = False,
      cm_RestatContent = False, cm_Pure = True, cm_SkipCacheLookup = False, cm_Platform = [(''container-image'', ''img'')],
      cm_RemoteWrapper = [], cm_RemoteCommand = [], cm_RemoteInputs = [], cm_CanonicalizeDir = True, cm_Timeout = 60,
      cm_ActionSalt = [], cm_Console = False, cm_outfiles = [], cm_preOutputEntries = [], cm_stdout = [], cm_stderr = [],
      cm_actionDigest = \<lparr>dg_Hash = [], dg_SizeBytes = 0\<rparr>, cm_result = None\<rparr>"

definition example_entries :: "bytes list \<Rightarrow> entry list res" where
  "example_entries names =
     Inr (map (\<lambda>n. \<lparr>en_Name = n, en_Data = \<lparr>da_digest = \<lparr>dg_Hash = ''h'', dg_SizeBytes = 1\<rparr>, da_source = None\<rparr>,
       en_IsExecutable = False, en_Target = []\<rparr>) names)"

lemma example_proper: "proper ''out/A'' [''out'', ''A'']" "proper ''out/B'' [''out'', ''B'']" "proper ''gen.h'' [''gen.h'']" "proper ''a.o'' [''a.o'']"
  by (simp_all add: proper_def plain_path_def plain_elem_def elem_ok_def)

lemma example_moved:
  "moved ''out/A'' ''out/B'' ''a.cc'' ''a.cc''" "moved ''out/A'' ''out/B'' ''out/A/gen.h'' ''out/B/gen.h''"
proof -
  show "moved ''out/A'' ''out/B'' ''a.cc'' ''a.cc''" by (simp add: moved_def outside_def has_prefix_def)
  show "moved ''out/A'' ''out/B'' ''out/A/gen.h'' ''out/B/gen.h''"
    unfolding moved_def using example_proper(3) by (intro disjI2 disjI1 exI [of _ "''gen.h''"] exI [of _ "[''gen.h'']"]) simp
qed

lemma example_output: "moved_output ''out/A'' ''out/B'' ''out/A/a.o'' ''out/B/a.o''"
  unfolding moved_output_def using example_proper(4) by (intro exI [of _ "''a.o''"] exI [of _ "[''a.o'']"]) simp

theorem action_digest_relocatable_witness:
  "map_option (map_sum id (\<lambda>(d, _, s). (d, s))) (cmd_Digest (\<lambda>b. b) (\<lambda>_. Some ''m'') example_entries (example_cmd ''out/A'') None) =
   map_option (map_sum id (\<lambda>(d, _, s). (d, s))) (cmd_Digest (\<lambda>b. b) (\<lambda>_. Some ''m'') example_entries (example_cmd ''out/B'') None)"
  by (rule action_digest_relocatable [where ?ds1.0 = "[''out'', ''A'']" and ?ds2.0 = "[''out'', ''B'']"])
    (simp_all add: example_cmd_def example_proper same_command_def inputTree_def allInputs_def allOutputs_def example_entries_def
      moved_entry_def moved_tree_def example_moved example_output)+

end
