(* ===== verification/Retry.thy ===== *)
theory Retry
  imports Go_Base
begin

text \<open>
  Errors of a build step as far as the code tells them apart with \<open>errors.Is\<close> and \<open>status.Code\<close>, and
  the retry loop of remote calls (\<open>reapi/retry/retry.go\<close>). A wrapped error keeps its cause; a panic
  is an error of its own. The function that is retried works on a state, and the context is asked
  on that state whether it is done.
\<close>

section \<open>Errors\<close>

datatype code =
  OK | CodeCanceled | Unknown | InvalidArgument | CodeDeadlineExceeded | NotFound | PermissionDenied | ResourceExhausted |
  FailedPrecondition | Aborted | Internal | Unavailable | Unauthenticated

datatype error =
  Canceled | DeadlineExceeded | BadPlatformContainerImage | NotRelocatable | Status code | Msg bytes |
  Wrap bytes error | Join error error | StepErr bytes error | Panicked bytes

text \<open>\<open>errors.Is\<close>\<close>

fun errors_Is :: "error \<Rightarrow> error \<Rightarrow> bool" where
  "errors_Is (Wrap m e) t \<longleftrightarrow> errors_Is e t"
| "errors_Is (Join a b) t \<longleftrightarrow> errors_Is a t \<or> errors_Is b t"
| "errors_Is (StepErr m e) t \<longleftrightarrow> errors_Is e t"
| "errors_Is e t \<longleftrightarrow> e = t"

fun panics :: "error \<Rightarrow> bool" where
  "panics (Panicked m) = True"
| "panics _ = False"

text \<open>\<open>status.FromError\<close>: the code of the first gRPC status in the chain.\<close>

fun as_status :: "error \<Rightarrow> code option" where
  "as_status (Status c) = Some c"
| "as_status (Wrap m e) = as_status e"
| "as_status (Join a b) = (case as_status a of None \<Rightarrow> as_status b | Some c \<Rightarrow> Some c)"
| "as_status (StepErr m e) = as_status e"
| "as_status _ = None"

definition status_Code :: "error option \<Rightarrow> code" where
  "status_Code err = (case err of None \<Rightarrow> OK | Some e \<Rightarrow> (case as_status e of None \<Rightarrow> Unknown | Some c \<Rightarrow> c))"

text \<open>\<open>status.FromContextError\<close>\<close>

definition from_context :: "error \<Rightarrow> code" where
  "from_context e =
     (if errors_Is e DeadlineExceeded then CodeDeadlineExceeded else if errors_Is e Canceled then CodeCanceled else Unknown)"

section \<open>The retry loop\<close>

definition retriableError :: "error \<Rightarrow> nat \<Rightarrow> bool \<times> nat" where
  "retriableError err authRetry =
     (let ok = (as_status err \<noteq> None);
          c = (case as_status err of Some c \<Rightarrow> c | None \<Rightarrow> from_context err) in
      if c \<in> {ResourceExhausted, Internal, Unavailable, Aborted} then (True, authRetry)
      else if c = Unknown then (ok, authRetry)
      else if c \<in> {Unauthenticated, PermissionDenied} then (authRetry + 1 < 2, authRetry + 1)
      else (False, authRetry))"

text \<open>
  \<open>n\<close> is the number of rounds that are left, \<open>err\<close> the error of the last round. A panic of the
  function is not caught.
\<close>

fun retry_loop :: "nat \<Rightarrow> nat \<Rightarrow> ('s \<Rightarrow> error option) \<Rightarrow> ('s \<Rightarrow> error option \<times> 's) \<Rightarrow> error option \<Rightarrow> 's \<Rightarrow> error option \<times> 's" where
  "retry_loop 0 authRetry ctx fn err s = (err, s)"
| "retry_loop (Suc n) authRetry ctx fn err s =
     (case ctx s of
        Some e \<Rightarrow> (Some e, s)
      | None \<Rightarrow>
          (case fn s of
             (None, s1) \<Rightarrow> (None, s1)
           | (Some e, s1) \<Rightarrow>
               if panics e \<or> ctx s1 \<noteq> None then (Some e, s1)
               else case retriableError e authRetry of
                   (False, _) \<Rightarrow> (Some e, s1)
                 | (True, a) \<Rightarrow> retry_loop n a ctx fn (Some e) s1))"

definition retry_Do :: "('s \<Rightarrow> error option) \<Rightarrow> ('s \<Rightarrow> error option \<times> 's) \<Rightarrow> 's \<Rightarrow> error option \<times> 's" where
  "retry_Do ctx fn s = retry_loop 10 0 ctx fn None s"

text \<open>The delays before the retries, in milliseconds.\<close>

fun retry_delays :: "nat \<Rightarrow> nat \<Rightarrow> nat list" where
  "retry_delays 0 delay = []"
| "retry_delays (Suc n) delay = (let d = min (delay * 2) 10000 in d # retry_delays n d)"

section \<open>Calls of the retried function\<close>

text \<open>The errors that the rounds of the loop return, for a function that counts its calls.\<close>

definition auth_error :: "error \<Rightarrow> bool" where
  "auth_error e \<longleftrightarrow> as_status e \<in> {Some Unauthenticated, Some PermissionDenied}"

definition counting :: "('s \<Rightarrow> error option \<times> 's) \<Rightarrow> 's \<times> error option list \<Rightarrow> error option \<times> ('s \<times> error option list)" where
  "counting fn st = (case fn (fst st) of (r, s) \<Rightarrow> (r, s, snd st @ [r]))"

lemma retriable_auth:
  "retriableError e a = (r, a') \<Longrightarrow> a' = (if auth_error e then a + 1 else a) \<and> (auth_error e \<and> r \<longrightarrow> a = 0) \<and>
     (r \<longrightarrow> as_status e \<noteq> None)"
  by (auto simp: retriableError_def auth_error_def from_context_def Let_def split: if_splits option.splits)

lemma retry_loop_calls:
  assumes "retry_loop n a ctx (counting fn) err (s, log) = (r, s', log')"
  shows "\<exists>calls. log' = log @ calls \<and> length calls \<le> n \<and>
    (\<forall>i < length calls - 1. \<exists>e. calls ! i = Some e \<and> as_status e \<noteq> None) \<and>
    (r = None \<longrightarrow> (if calls = [] then n = 0 \<and> err = None else last calls = None)) \<and>
    a + length (filter (\<lambda>c. case c of None \<Rightarrow> False | Some e \<Rightarrow> auth_error e) (butlast calls)) \<le> max a 1"
  using assms
proof (induction n arbitrary: a err s log)
  case 0
  then show ?case by simp
next
  case (Suc n)
  show ?case
  proof (cases "ctx (s, log)")
    case (Some e)
    then have "r = Some e" "log' = log" using Suc.prems by simp_all
    then show ?thesis by simp
  next
    case ctx: None
    obtain q t where fn: "fn s = (q, t)" by fastforce
    have c: "counting fn (s, log) = (q, t, log @ [q])" by (simp add: counting_def fn)
    show ?thesis
    proof (cases q)
      case None
      then show ?thesis using Suc.prems ctx c by (intro exI [of _ "[q]"]) auto
    next
      case (Some e)
      obtain ret b where rt: "retriableError e a = (ret, b)" by fastforce
      show ?thesis
      proof (cases "panics e \<or> ctx (t, log @ [q]) \<noteq> None \<or> \<not> ret")
        case True
        then have "r = Some e \<and> log' = log @ [q]" using Suc.prems ctx c Some rt by (cases ret) (auto split: if_splits)
        then show ?thesis by (intro exI [of _ "[q]"]) auto
      next
        case False
        then have "retry_loop n b ctx (counting fn) (Some e) (t, log @ [q]) = (r, s', log')"
          using Suc.prems ctx c Some rt by (auto split: bool.splits)
        from Suc.IH [OF this] obtain calls where calls: "log' = (log @ [q]) @ calls" "length calls \<le> n"
          "\<forall>i < length calls - 1. \<exists>e. calls ! i = Some e \<and> as_status e \<noteq> None"
          "r = None \<longrightarrow> (if calls = [] then n = 0 \<and> Some e = None else last calls = None)"
          "b + length (filter (\<lambda>c. case c of None \<Rightarrow> False | Some e \<Rightarrow> auth_error e) (butlast calls)) \<le> max b 1" by blast
        have auth: "b = (if auth_error e then a + 1 else a)" "auth_error e \<longrightarrow> a = 0" "as_status e \<noteq> None"
          using retriable_auth [OF rt] False by simp_all
        have "\<forall>i < length (q # calls) - 1. \<exists>e. (q # calls) ! i = Some e \<and> as_status e \<noteq> None"
        proof (intro allI impI)
          fix i assume "i < length (q # calls) - 1"
          then show "\<exists>e. (q # calls) ! i = Some e \<and> as_status e \<noteq> None"
            using calls(3) auth(3) Some by (cases i) auto
        qed
        moreover have "a + length (filter (\<lambda>c. case c of None \<Rightarrow> False | Some e \<Rightarrow> auth_error e) (butlast (q # calls))) \<le> max a 1"
          using calls(5) auth Some by (auto split: if_splits)
        ultimately show ?thesis using calls(1,2,4) by (intro exI [of _ "q # calls"]) auto
      qed
    qed
  qed
qed

end
