(* ===== verification/Step_Run.thy ===== *)
theory Step_Run
  imports Command Retry
begin

text \<open>
  Running one build step (\<open>build/run_step.go\<close>, \<open>run_cmd.go\<close>, \<open>exec_local.go\<close>, \<open>exec_remote.go\<close>,
  \<open>rsp.go\<close>, \<open>stats.go\<close>, \<open>failures.go\<close>, the command and the phases of \<open>step.go\<close>, and \<open>outputs\<close>,
  \<open>dedupInputs\<close> and \<open>updateDeps\<close> of \<open>builder.go\<close>). The state of a run holds the command and the trace
  of what the step did. Whatever the step asks of the outside, the file system, the executors, the
  semaphores, the context and the dependency handlers of \<open>deps.go\<close>, is answered by an environment
  from the trace so far, so that all answers and all orders of failures are covered. A call that may
  fail is an event and an answer. The answers are errors, never panics: the panics here are the index
  errors of this code. Logging and the time stamps of results are left out.
\<close>

section \<open>Phases\<close>

datatype stepPhase =
  stepPhaseNone | stepStart | stepHandler | stepPreproc | stepInput | stepLocalWait | stepLocalRun | stepRemoteWait |
  stepRemoteRun | stepRetryWait | stepRetryRun | stepOutput | stepDone

fun phase_wait :: "stepPhase \<Rightarrow> stepPhase" where
  "phase_wait stepLocalRun = stepLocalWait"
| "phase_wait stepRemoteRun = stepRemoteWait"
| "phase_wait stepRetryRun = stepRetryWait"
| "phase_wait s = s"

fun phase_String :: "stepPhase \<Rightarrow> bytes" where
  "phase_String stepPhaseNone = ''none''"
| "phase_String stepStart = ''start''"
| "phase_String stepHandler = ''handler''"
| "phase_String stepPreproc = ''prep''"
| "phase_String stepInput = ''input''"
| "phase_String stepLocalWait = ''wait-local''"
| "phase_String stepLocalRun = ''local''"
| "phase_String stepRemoteWait = ''wait-remote''"
| "phase_String stepRemoteRun = ''remote''"
| "phase_String stepRetryWait = ''wait-retry''"
| "phase_String stepRetryRun = ''retry''"
| "phase_String stepOutput = ''output''"
| "phase_String stepDone = ''done''"

text \<open>Times are integers; \<open>None\<close> is the zero time.\<close>

record stepState =
  ss_phase :: stepPhase
  ss_waitStart :: "int option"
  ss_waitDuration :: int

definition state_SetPhase :: "int \<Rightarrow> stepPhase \<Rightarrow> stepState \<Rightarrow> stepState" where
  "state_SetPhase now phase s =
     (if phase \<in> {stepLocalWait, stepRemoteWait, stepRetryWait} then s\<lparr>ss_phase := phase, ss_waitStart := Some now\<rparr>
      else s\<lparr>ss_phase := phase, ss_waitStart := None,
        ss_waitDuration := ss_waitDuration s + (case ss_waitStart s of None \<Rightarrow> 0 | Some t \<Rightarrow> now - t)\<rparr>)"

definition state_WaitDuration :: "int \<Rightarrow> stepState \<Rightarrow> int" where
  "state_WaitDuration now s = ss_waitDuration s + (case ss_waitStart s of None \<Rightarrow> 0 | Some t \<Rightarrow> now - t)"

definition step_Done :: "stepState \<Rightarrow> bool" where
  "step_Done s \<longleftrightarrow> ss_phase s = stepDone"

section \<open>Commands\<close>

text \<open>What a step definition answers, as far as running a step asks it.\<close>

record stepDefs =
  sd_String :: bytes
  sd_Binding :: "bytes \<Rightarrow> bytes"
  sd_ActionName :: bytes
  sd_Args :: "bytes list"
  sd_Rspfile :: bytes
  sd_Depfile :: bytes
  sd_Inputs :: "bytes list"
  sd_DepInputs :: "bytes list res"
  sd_ToolInputs :: "bytes list"
  sd_Outputs :: "bytes list"
  sd_LocalOutputs :: "bytes list"
  sd_Pure :: bool
  sd_Platform :: "(bytes \<times> bytes) list"
  sd_RemoteInputs :: "(bytes \<times> bytes) list"
  sd_view :: stepView
  sd_targets :: "nat list"

definition stepInputs :: "stepDefs \<Rightarrow> bytes list" where
  "stepInputs sd =
     (let inputs = add_unseen [] (sd_Inputs sd) in
      case sd_DepInputs sd of Inl _ \<Rightarrow> inputs | Inr deps \<Rightarrow> add_unseen inputs deps)"

definition stepDescription :: "stepDefs \<Rightarrow> bytes" where
  "stepDescription sd = (let s = sd_Binding sd ''description'' in if s \<noteq> [] then s else sd_Binding sd ''command'')"

text \<open>A duration in seconds; \<open>parseDuration\<close> stands for \<open>time.ParseDuration\<close>.\<close>

definition stepTimeout :: "(bytes \<Rightarrow> int res) \<Rightarrow> bytes \<Rightarrow> int" where
  "stepTimeout parseDuration d =
     (if d = [] then 3600 else case parseDuration d of Inl _ \<Rightarrow> 3600 | Inr dur \<Rightarrow> dur)"

text \<open>
  The builder's options that running a step depends on, with the caches of its path and string
  table; \<open>rb_check\<close> is what the up-to-date check reads.
\<close>

record runner =
  rb_check :: builder
  rb_path :: path
  rb_argTab :: symtab
  rb_reCacheEnableRead :: bool
  rb_cache :: bool
  rb_remoteExec :: bool
  rb_dryRun :: bool
  rb_pools :: "bytes list"
  rb_actionSalt :: bytes
  rb_parseDuration :: "bytes \<Rightarrow> int res"

definition newCmd :: "runner \<Rightarrow> stepDefs \<Rightarrow> cmd \<times> runner" where
  "newCmd b sd =
     (let outs = sd_Outputs sd;
          gn = (sd_ActionName sd = ''gn'' \<and> length outs = 1 \<and> fp_base (outs ! 0) = ''build.ninja.stamp'');
          (outputs, path) = (if gn then let (p, path) = maybeFromWD (rb_path b) ''build.ninja'' in (outs @ [p], path) else (outs, rb_path b));
          (args, tab) = symtab_InternSlice (rb_argTab b) (sd_Args sd);
          console = (sd_Binding sd ''pool'' = ''console'');
          rspfileContent = sd_Binding sd ''rspfile_content'' in
      (initOutputs
       \<lparr>cm_ID = sd_String sd, cm_Desc = stepDescription sd, cm_ActionName = sd_ActionName sd, cm_Args = args, cm_Env = [],
        cm_RSPFile = sd_Rspfile sd, cm_RSPFileContent = rspfileContent,
        cm_CmdHash = calculateCmdHash (b_sha256 (rb_check b)) (sd_Binding sd ''command'') rspfileContent,
        cm_ExecRoot = p_execRoot (rb_path b), cm_Dir = p_dir (rb_path b), cm_Inputs = stepInputs sd,
        cm_ToolInputs = sd_ToolInputs sd, cm_TreeInputs = [], cm_UseSystemInput = False, cm_Outputs = outputs,
        cm_ReconcileOutputdirs = [], cm_Deps = sd_Binding sd ''deps'', cm_Depfile = sd_Depfile sd,
        cm_Restat = (sd_Binding sd ''restat'' \<noteq> []), cm_RestatContent = (sd_Binding sd ''restat_content'' \<noteq> []), cm_Pure = sd_Pure sd,
        cm_SkipCacheLookup = (\<not> rb_reCacheEnableRead b), cm_Platform = (if console then [] else sd_Platform sd),
        cm_RemoteWrapper = (if console then [] else sd_Binding sd ''remote_wrapper''),
        cm_RemoteCommand = (if console then [] else sd_Binding sd ''remote_command''),
        cm_RemoteInputs = (if console then [] else sd_RemoteInputs sd), cm_CanonicalizeDir = (sd_Binding sd ''canonicalize_dir'' \<noteq> []),
        cm_Timeout = stepTimeout (rb_parseDuration b) (sd_Binding sd ''timeout''), cm_ActionSalt = rb_actionSalt b, cm_Console = False,
        cm_outfiles = [], cm_preOutputEntries = [], cm_stdout = [], cm_stderr = [],
        cm_actionDigest = \<lparr>dg_Hash = [], dg_SizeBytes = 0\<rparr>, cm_result = None\<rparr>,
       b\<lparr>rb_path := path, rb_argTab := tab\<rparr>))"

section \<open>Runs\<close>

datatype sema = LocalSema | PoolSema bytes | RemoteSema

datatype op =
  Acquire sema | Flush "bytes list" | WriteFile bytes | RemoveFile bytes | OsRemove bytes | Stat bytes | Lstat bytes | Handle |
  ExpandInputs | DepsCmd | DepsAfterRun | RecordDeps bytes "bytes list" | FixCmd "bytes list" | LocalExec | RemoteExec | GetCached

datatype event =
  Call op | Release sema | PlanDone | StatsUpdate bool | Phase stepPhase | Init | Started | Finished | RetryShown | CacheHit |
  StartConsole | FinishConsole | PreOutputs "bytes list" | Output bytes

text \<open>
  The environment: an error or nil for every call and what the call makes of the command, the cause
  of a done context, the clock, and the values that other parts return.
\<close>

record env =
  ev_err :: "event list \<Rightarrow> op \<Rightarrow> error option"
  ev_cmd :: "event list \<Rightarrow> op \<Rightarrow> cmd \<Rightarrow> cmd"
  ev_ctx :: "event list \<Rightarrow> error option"
  ev_now :: "event list \<Rightarrow> int"
  ev_available :: "event list \<Rightarrow> bytes list \<Rightarrow> bytes list"
  ev_retrieve :: "event list \<Rightarrow> bytes list \<Rightarrow> updateEntry list"
  ev_deps :: "event list \<Rightarrow> bytes list"
  ev_cmdOutput :: "event list \<Rightarrow> cmd \<Rightarrow> bool"

record run =
  rn_cmd :: cmd
  rn_state :: stepState
  rn_phase :: stepPhase
  rn_trace :: "event list"

type_synonym act = "run \<Rightarrow> error option \<times> run"

definition emit :: "event \<Rightarrow> run \<Rightarrow> run" where
  "emit e s = s\<lparr>rn_trace := rn_trace s @ [e]\<rparr>"

definition upd_cmd :: "(cmd \<Rightarrow> cmd) \<Rightarrow> run \<Rightarrow> run" where
  "upd_cmd f s = s\<lparr>rn_cmd := f (rn_cmd s)\<rparr>"

definition andThen :: "error option \<times> run \<Rightarrow> act \<Rightarrow> error option \<times> run" where
  "andThen m k = (case m of (Some e, s) \<Rightarrow> (Some e, s) | (None, s) \<Rightarrow> k s)"

lemma andThen_simps [simp]: "andThen (Some e, s) k = (Some e, s)" "andThen (None, s) k = k s"
  by (simp_all add: andThen_def)

definition do_call :: "env \<Rightarrow> op \<Rightarrow> act" where
  "do_call ev c s = (ev_err ev (rn_trace s) c, emit (Call c) s)"

text \<open>A call that is given the command and may change it, for example set its action result.\<close>

definition cmd_call :: "env \<Rightarrow> op \<Rightarrow> act" where
  "cmd_call ev c s = (ev_err ev (rn_trace s) c, emit (Call c) (upd_cmd (ev_cmd ev (rn_trace s) c) s))"

text \<open>A semaphore is taken when the call succeeds; only then it is an event.\<close>

definition acquire :: "env \<Rightarrow> sema \<Rightarrow> act" where
  "acquire ev sm s = (case ev_err ev (rn_trace s) (Acquire sm) of Some e \<Rightarrow> (Some e, s) | None \<Rightarrow> (None, emit (Call (Acquire sm)) s))"

definition setPhase :: "env \<Rightarrow> stepPhase \<Rightarrow> run \<Rightarrow> run" where
  "setPhase ev p s = emit (Phase p) (s\<lparr>rn_state := state_SetPhase (ev_now ev (rn_trace s)) p (rn_state s)\<rparr>)"

text \<open>The error of a call that is only logged.\<close>

definition ignore :: "error option \<times> run \<Rightarrow> run" where
  "ignore m = snd m"

definition go_wrap :: "bytes \<Rightarrow> error option \<times> run \<Rightarrow> error option \<times> run" where
  "go_wrap msg m = (case m of (Some e, s) \<Rightarrow> (Some (if panics e then e else Wrap msg e), s) | (None, s) \<Rightarrow> (None, s))"

definition recordPre :: "env \<Rightarrow> run \<Rightarrow> run" where
  "recordPre ev s = emit (PreOutputs (allOutputs (rn_cmd s))) (upd_cmd (recordPreOutputs (ev_retrieve ev (rn_trace s))) s)"

subsection \<open>Response files\<close>

definition setupRSP :: "env \<Rightarrow> act" where
  "setupRSP ev s =
     (if cm_RSPFile (rn_cmd s) = [] then (None, s)
      else go_wrap ''failed to create rsp'' (do_call ev (WriteFile (cm_RSPFile (rn_cmd s))) s))"

definition teardownRSP :: "env \<Rightarrow> run \<Rightarrow> run" where
  "teardownRSP ev s =
     (if cm_RSPFile (rn_cmd s) = [] then s
      else ignore (do_call ev (OsRemove (cm_RSPFile (rn_cmd s))) (ignore (do_call ev (RemoveFile (cm_RSPFile (rn_cmd s))) s))))"

subsection \<open>Dependencies and outputs\<close>

definition dedupInputs :: "run \<Rightarrow> run" where
  "dedupInputs s = upd_cmd (\<lambda>m. m\<lparr>cm_Inputs := add_unseen [] (cm_Inputs m)\<rparr>) s"

definition updateDeps :: "env \<Rightarrow> runner \<Rightarrow> act" where
  "updateDeps ev b s =
     (case cm_Outputs (rn_cmd s) of
        [] \<Rightarrow> (None, s)
      | out # _ \<Rightarrow>
          (case fp_rel (cm_Dir (rn_cmd s)) out of
             Inl _ \<Rightarrow> (None, s)
           | Inr output \<Rightarrow>
               (case do_call ev (Stat out) s of
                  (Some _, s1) \<Rightarrow> (None, s1)
                | (None, s1) \<Rightarrow>
                    let deps = ev_deps ev (rn_trace s1) in
                    andThen (cmd_call ev DepsAfterRun s1) (\<lambda>s2.
                      let s3 = ignore (do_call ev (RecordDeps output deps) s2);
                          s4 = ignore (cmd_call ev (FixCmd (map (\<lambda>d. fst (maybeFromWD (rb_path b) d)) deps)) s3) in
                      (None, s4)))))"

definition local_output :: "runner \<Rightarrow> bytes \<Rightarrow> bool" where
  "local_output b out \<longleftrightarrow> (case b_outputLocal (rb_check b) of None \<Rightarrow> False | Some f \<Rightarrow> f out)"

text \<open>The loop over the outputs: the outputs to flush, or an error.\<close>

fun outputs_loop :: "env \<Rightarrow> runner \<Rightarrow> bytes list \<Rightarrow> bytes list \<Rightarrow> bytes list \<Rightarrow> bytes list \<Rightarrow> run \<Rightarrow> error option \<times> bytes list \<times> run" where
  "outputs_loop ev b defOutputs [] seen localOutputs s = (None, localOutputs, s)"
| "outputs_loop ev b defOutputs (out # outs) seen localOutputs s =
     (if out \<in> set seen then outputs_loop ev b defOutputs outs seen localOutputs s
      else
        let (local, s1) =
              (if local_output b out then (True, s)
               else case do_call ev (Lstat out) s of (None, s1) \<Rightarrow> (True, s1) | (Some _, s1) \<Rightarrow> (False, s1));
            localOutputs' = (if local then localOutputs @ [out] else localOutputs) in
        case do_call ev (Stat out) s1 of
          (None, s2) \<Rightarrow> outputs_loop ev b defOutputs outs (out # seen) localOutputs' s2
        | (Some e, s2) \<Rightarrow>
            if out \<in> set defOutputs then (Some (Wrap ''missing outputs'' e), localOutputs', s2)
            else
              outputs_loop ev b defOutputs outs (out # seen) localOutputs'
                (if local then s2 else ignore (do_call ev (OsRemove out) s2)))"

definition outputs :: "env \<Rightarrow> runner \<Rightarrow> stepDefs \<Rightarrow> act" where
  "outputs ev b sd s =
     (if sd_Binding sd ''phony_outputs'' \<noteq> [] then (None, s)
      else
        let m = rn_cmd s;
            outs = (if cm_Depfile m \<noteq> [] \<and> cm_Deps m \<noteq> ''gcc'' then cm_Outputs m @ [cm_Depfile m] else cm_Outputs m) in
        case outputs_loop ev b (sd_Outputs sd) outs (sd_LocalOutputs sd) (sd_LocalOutputs sd) s of
          (Some e, _, s1) \<Rightarrow> (Some e, s1)
        | (None, localOutputs, s1) \<Rightarrow>
            if localOutputs \<noteq> [] then go_wrap ''failed to flush outputs to local'' (do_call ev (Flush localOutputs) s1)
            else (None, s1))"

section \<open>Execution\<close>

definition prepareLocalInputs :: "env \<Rightarrow> act" where
  "prepareLocalInputs ev s =
     (let m = rn_cmd s;
          (err, s1) = do_call ev (Flush (allInputs m)) s;
          inputs = ev_available ev (rn_trace s1) (cm_Inputs m) in
      (err, if length inputs \<noteq> length (cm_Inputs m) then upd_cmd (\<lambda>m. m\<lparr>cm_Inputs := inputs\<rparr>) s1 else s1))"

fun check_outputs :: "env \<Rightarrow> bytes list \<Rightarrow> bytes list \<Rightarrow> act" where
  "check_outputs ev defOutputs [] s = (None, s)"
| "check_outputs ev defOutputs (out # outs) s =
     (case do_call ev (Stat out) s of
        (None, s1) \<Rightarrow> check_outputs ev defOutputs outs s1
      | (Some e, s1) \<Rightarrow>
          if out \<in> set defOutputs then (Some (Wrap ''missing outputs'' e), s1) else check_outputs ev defOutputs outs s1)"

definition checkLocalOutputs :: "env \<Rightarrow> stepDefs \<Rightarrow> act" where
  "checkLocalOutputs ev sd s =
     (if (case cm_result (rn_cmd s) of None \<Rightarrow> 0 | Some r \<Rightarrow> ar_ExitCode r) \<noteq> 0 then (None, s)
      else if sd_Binding sd ''phony_output'' \<noteq> [] then (None, s)
      else check_outputs ev (sd_Outputs sd) (cm_Outputs (rn_cmd s)) s)"

definition local_sema :: "runner \<Rightarrow> stepDefs \<Rightarrow> sema" where
  "local_sema b sd = (let pool = sd_Binding sd ''pool'' in if pool \<in> set (rb_pools b) then PoolSema pool else LocalSema)"

definition on_console :: "event \<Rightarrow> run \<Rightarrow> run" where
  "on_console e s = (if cm_Console (rn_cmd s) then emit e s else s)"

definition execLocal :: "env \<Rightarrow> runner \<Rightarrow> stepDefs \<Rightarrow> act" where
  "execLocal ev b sd s =
     andThen (prepareLocalInputs ev (setPhase ev stepInput (upd_cmd (\<lambda>m. m\<lparr>cm_RemoteWrapper := []\<rparr>) s))) (\<lambda>s1.
       let sm = local_sema b sd;
           s2 = setPhase ev (phase_wait stepLocalRun) (upd_cmd (\<lambda>m. m\<lparr>cm_Console := (sd_Binding sd ''pool'' = ''console'')\<rparr>) (recordPre ev s1)) in
       andThen (acquire ev sm s2) (\<lambda>s3.
         let (err, s4) = cmd_call ev LocalExec (on_console StartConsole (setPhase ev stepLocalRun s3));
             s5 = emit (Release sm) (on_console FinishConsole (setPhase ev stepOutput s4)) in
         andThen (err, s5) (\<lambda>s6. andThen (updateDeps ev b s6) (checkLocalOutputs ev sd))))"

text \<open>
  The function that is retried. \<open>rn_phase\<close> is the variable \<open>phase\<close>. \<open>NewContext\<close> reads the first
  output; the timeout is never set, so that only the status code of a deadline counts.
\<close>

definition remote_exit :: "error option \<times> run \<Rightarrow> error option \<times> run" where
  "remote_exit m =
     (case m of (err, s) \<Rightarrow>
        (if status_Code err = CodeDeadlineExceeded then Some (Status Unavailable) else err, emit (Release RemoteSema) s))"

definition execRemote_once :: "env \<Rightarrow> act" where
  "execRemote_once ev s =
     andThen (acquire ev RemoteSema (setPhase ev (phase_wait (rn_phase s)) s)) (\<lambda>s1.
       let s2 = setPhase ev (rn_phase s1) s1;
           s3 = (if rn_phase s2 = stepRetryRun then emit RetryShown s2 else s2) in
       if cm_Outputs (rn_cmd s3) = [] then (Some (Panicked ''index out of range''), s3)
       else
         let (err, s4) = cmd_call ev RemoteExec (s3\<lparr>rn_phase := stepRetryRun\<rparr>);
             s5 = setPhase ev stepOutput s4 in
         if err = None \<and> \<not> validateRemoteActionResult (cm_result (rn_cmd s5)) then
           let s6 = emit (Output ''retry'') s5;
               s7 = setPhase ev stepRetryRun (upd_cmd (\<lambda>m. m\<lparr>cm_SkipCacheLookup := True\<rparr>) s6);
               (err2, s8) = cmd_call ev RemoteExec s7 in
           remote_exit (err2, setPhase ev stepOutput s8)
         else remote_exit (err, s5))"

definition execRemote :: "env \<Rightarrow> runner \<Rightarrow> stepDefs \<Rightarrow> act" where
  "execRemote ev b sd s =
     andThen (retry_Do (\<lambda>s. ev_ctx ev (rn_trace s)) (execRemote_once ev) ((recordPre ev s)\<lparr>rn_phase := stepRemoteRun\<rparr>)) (\<lambda>s1.
       andThen (updateDeps ev b s1) (outputs ev b sd))"

definition execRemoteCache :: "env \<Rightarrow> runner \<Rightarrow> stepDefs \<Rightarrow> act" where
  "execRemoteCache ev b sd s =
     andThen (cmd_call ev GetCached s) (\<lambda>s1.
       if cm_result (rn_cmd s1) \<noteq> None \<and> \<not> validateRemoteActionResult (cm_result (rn_cmd s1)) then
         (Some (Msg ''no output in action result''), upd_cmd (\<lambda>m. m\<lparr>cm_SkipCacheLookup := True\<rparr>) s1)
       else andThen (updateDeps ev b (emit CacheHit s1)) (outputs ev b sd))"

definition container_image :: "cmd \<Rightarrow> bool" where
  "container_image m \<longleftrightarrow> (case map_of (cm_Platform m) ''container-image'' of None \<Rightarrow> False | Some img \<Rightarrow> img \<noteq> [])"

definition runRemoteStep :: "env \<Rightarrow> runner \<Rightarrow> stepDefs \<Rightarrow> bool \<Rightarrow> act" where
  "runRemoteStep ev b sd cacheCheck s =
     (if \<not> container_image (rn_cmd s) then (Some (Msg ''no remote available (missing container-image property)''), s)
      else if cacheCheck then
        (case execRemoteCache ev b sd s of
           (None, s1) \<Rightarrow> (None, s1)
         | (Some e, s1) \<Rightarrow> if panics e then (Some e, s1) else execRemote ev b sd s1)
      else execRemote ev b sd s)"

definition runLocal :: "env \<Rightarrow> runner \<Rightarrow> stepDefs \<Rightarrow> act" where
  "runLocal ev b sd s = execLocal ev b sd (dedupInputs s)"

definition runRemote :: "env \<Rightarrow> runner \<Rightarrow> stepDefs \<Rightarrow> act" where
  "runRemote ev b sd s =
     (let cacheCheck = (rb_cache b \<and> rb_reCacheEnableRead b) in
      case cmd_call ev DepsCmd (setPhase ev stepPreproc s) of
        (Some e, s1) \<Rightarrow>
          (Some (if panics e then e else Wrap ''disable remote: failed to get deps'' e), upd_cmd (\<lambda>m. m\<lparr>cm_Platform := []\<rparr>) s1)
      | (None, s1) \<Rightarrow>
          (case runRemoteStep ev b sd cacheCheck (dedupInputs s1) of
             (None, s2) \<Rightarrow> (None, s2)
           | (Some e, s2) \<Rightarrow>
               if panics e \<or> errors_Is e Canceled \<or> errors_Is e BadPlatformContainerImage \<or> status_Code (Some e) = PermissionDenied \<or>
                  errors_Is e NotRelocatable
               then (Some e, s2)
               else (Some (Wrap ''remote-exec failed'' e), s2)))"

definition runStrategy :: "runner \<Rightarrow> cmd \<Rightarrow> bool" where
  "runStrategy b m \<longleftrightarrow> cm_Pure m \<and> rb_remoteExec b \<and> container_image m"

section \<open>Steps\<close>

text \<open>
  The part of \<open>runStep\<close> that runs the command, behind the response file. The first value is the
  variable \<open>err\<close> when the function is left, which differs from the outcome after a panic.
\<close>

definition run_command :: "env \<Rightarrow> runner \<Rightarrow> stepDefs \<Rightarrow> run \<Rightarrow> error option \<times> (error option \<times> run)" where
  "run_command ev b sd s =
     (let s1 = ignore (cmd_call ev ExpandInputs s) in
      case (if runStrategy b (rn_cmd s1) then runRemote ev b sd s1 else runLocal ev b sd s1) of
        (None, s2) \<Rightarrow> (None, None, emit PlanDone (if ev_cmdOutput ev (rn_trace s2) (rn_cmd s2) then emit (Output ''SUCCESS'') s2 else s2))
      | (Some e, s2) \<Rightarrow>
          if panics e then (None, Some e, s2)
          else
            let err = (case ev_ctx ev (rn_trace s2) of None \<Rightarrow> e | Some c \<Rightarrow> Join c e) in
            if errors_Is err Canceled then (Some err, Some err, s2)
            else
              let s3 = emit (Output ''FAILED'') s2 in
              (case cm_Outputs (rn_cmd s3) of
                 [] \<Rightarrow> (Some err, Some (Panicked ''index out of range''), s3)
               | out # _ \<Rightarrow> let e' = StepErr (maybeToWD (rb_path b) out) err in (Some e', Some e', s3)))"

text \<open>The second deferred function: a failed step keeps its response file.\<close>

definition finish_rsp :: "env \<Rightarrow> error option \<times> (error option \<times> run) \<Rightarrow> error option \<times> run" where
  "finish_rsp ev m =
     (case m of
        (None, r, s) \<Rightarrow> (r, teardownRSP ev s)
      | (Some e, r, s) \<Rightarrow>
          (r, if \<not> errors_Is e Canceled then ignore (do_call ev (Flush [cm_RSPFile (rn_cmd s)]) s) else teardownRSP ev s))"

definition handleStep :: "env \<Rightarrow> run \<Rightarrow> bool \<times> error option \<times> run" where
  "handleStep ev s =
     (case cmd_call ev Handle s of (Some e, s1) \<Rightarrow> (False, Some e, s1) | (None, s1) \<Rightarrow> (cm_result (rn_cmd s1) \<noteq> None, None, s1))"

text \<open>The body of \<open>runStep\<close> after the step has been started.\<close>

definition run_started :: "env \<Rightarrow> runner \<Rightarrow> stepDefs \<Rightarrow> act" where
  "run_started ev b sd s =
     (case handleStep ev (setPhase ev stepHandler s) of
        (exited, Some e, s1) \<Rightarrow> (Some (Wrap ''failed to run handler'' e), emit (Output ''FAILED'') s1)
      | (exited, None, s1) \<Rightarrow>
          let (ferr, s2) = (if exited then do_call ev (Flush (cm_Outputs (rn_cmd s1))) s1 else (None, s1)) in
          if exited \<and> ferr = None then (None, emit PlanDone s2)
          else
            case setupRSP ev s2 of
              (Some e, s3) \<Rightarrow> (Some (Wrap ''failed to setup rsp'' e), emit (Output ''FAILED'') s3)
            | (None, s3) \<Rightarrow> finish_rsp ev (run_command ev b sd s3))"

definition progressStepStarted :: "env \<Rightarrow> run \<Rightarrow> run" where
  "progressStepStarted ev s = emit Started (setPhase ev stepStart s)"

definition progressStepFinished :: "env \<Rightarrow> run \<Rightarrow> run" where
  "progressStepFinished ev s = emit Finished (setPhase ev stepDone s)"

text \<open>
  \<open>runStep\<close> with its first deferred function, which counts the step unless it panicked or was
  canceled. \<open>step.init\<close> is an event, so that the context is asked anew in a dry run.
\<close>

definition step_body :: "env \<Rightarrow> runner \<Rightarrow> stepDefs \<Rightarrow> act" where
  "step_body ev b sd s =
     (case ev_ctx ev (rn_trace s) of
        Some e \<Rightarrow> (Some e, s)
      | None \<Rightarrow>
          let (c, b1) = newCmd b sd;
              s1 = emit Init (s\<lparr>rn_cmd := c\<rparr>) in
          if rb_dryRun b1 then (case ev_ctx ev (rn_trace s1) of Some e \<Rightarrow> (Some e, s1) | None \<Rightarrow> (None, emit PlanDone s1))
          else
            case run_started ev b1 sd (progressStepStarted ev s1) of
              (err, s2) \<Rightarrow> (err, progressStepFinished ev s2))"

definition runStep :: "env \<Rightarrow> runner \<Rightarrow> stepDefs \<Rightarrow> act" where
  "runStep ev b sd s =
     (case needToRun (rb_check b) (sd_view sd) (sd_targets sd) of
        (False, _) \<Rightarrow> (None, emit (StatsUpdate True) (emit PlanDone s))
      | (True, b') \<Rightarrow>
          (case step_body ev (b\<lparr>rb_check := b'\<rparr>) sd s of
             (None, s1) \<Rightarrow> (None, emit (StatsUpdate False) s1)
           | (Some e, s1) \<Rightarrow> (Some e, if panics e \<or> errors_Is e Canceled then s1 else emit (StatsUpdate False) s1)))"

section \<open>Counting\<close>

record statistics =
  st_Done :: nat
  st_Skipped :: nat
  st_Total :: nat

definition stats_update :: "bool \<Rightarrow> statistics \<Rightarrow> statistics" where
  "stats_update skipped s =
     s\<lparr>st_Done := st_Done s + 1, st_Skipped := (if skipped then st_Skipped s + 1 else st_Skipped s)\<rparr>"

record failures =
  fl_allowed :: nat
  fl_n :: nat
  fl_firstErr :: "error option"

definition shouldFail :: "error option \<Rightarrow> failures \<Rightarrow> bool \<times> failures" where
  "shouldFail err f =
     (case err of
        None \<Rightarrow> (False, f)
      | Some e \<Rightarrow>
          if errors_Is e Canceled then (False, f)
          else
            let f' = f\<lparr>fl_firstErr := (case fl_firstErr f of None \<Rightarrow> Some e | Some x \<Rightarrow> Some x), fl_n := fl_n f + 1\<rparr> in
            (fl_allowed f' \<le> fl_n f', f'))"

end
