(* ===== verification/Step_Props.thy ===== *)
theory Step_Props
  imports Step_Run
begin

text \<open>
  Laws of the trace of a step. A law that holds of single events and of an execution between taking and
  releasing a semaphore, and that concatenation keeps, holds of every part of a step; the locale
  \<open>trace_law\<close> proves this once. It is interpreted for the discipline of the semaphores and for the
  absence of \<open>plan.done\<close>, on which the properties of \<open>runStep\<close> rest.
\<close>

section \<open>Laws of traces\<close>

fun basic :: "event \<Rightarrow> bool" where
  "basic (Call (Acquire sm)) = False"
| "basic (Release sm) = False"
| "basic PlanDone = False"
| "basic _ = True"

definition panicked :: "error option \<Rightarrow> bool" where
  "panicked r \<longleftrightarrow> (case r of None \<Rightarrow> False | Some e \<Rightarrow> panics e)"

lemma panicked_simps [simp]: "\<not> panicked None" "panicked (Some e) = panics e"
  by (simp_all add: panicked_def)

text \<open>Runs that only add basic events.\<close>

definition quiet :: "run \<Rightarrow> run \<Rightarrow> bool" where
  "quiet s s' \<longleftrightarrow> (\<exists>t. list_all basic t \<and> rn_trace s' = rn_trace s @ t)"

lemma quiet_refl [simp]: "quiet s s"
  by (simp add: quiet_def)

lemma quiet_emit: "quiet s s' \<Longrightarrow> basic e \<Longrightarrow> quiet s (emit e s')"
  unfolding quiet_def emit_def by fastforce

lemma quiet_same: "quiet s s' \<Longrightarrow> rn_trace s'' = rn_trace s' \<Longrightarrow> quiet s s''"
  by (simp add: quiet_def)

lemma quiet_upd: "quiet s s' \<Longrightarrow> quiet s (upd_cmd f s')"
  by (rule quiet_same) (simp_all add: upd_cmd_def)

lemma quiet_phase: "quiet s s' \<Longrightarrow> quiet s (setPhase ev p s')"
  unfolding setPhase_def by (rule quiet_emit) (auto intro: quiet_same)

lemma quiet_cmd_call: "quiet s s' \<Longrightarrow> basic (Call c) \<Longrightarrow> quiet s (snd (cmd_call ev c s'))"
  by (simp add: cmd_call_def quiet_emit quiet_upd)

lemmas quiet_rules = quiet_emit quiet_upd quiet_phase quiet_cmd_call

text \<open>One round of the remote execution works between taking and releasing the semaphore.\<close>

lemma remote_once_taken:
  assumes "acquire ev RemoteSema (setPhase ev (phase_wait (rn_phase s)) s) = (None, s1)"
  shows "\<exists>s'. quiet s1 s' \<and> (snd (execRemote_once ev s) = emit (Release RemoteSema) s' \<or>
    panicked (fst (execRemote_once ev s)) \<and> snd (execRemote_once ev s) = s')"
proof -
  let ?s2 = "setPhase ev (rn_phase s1) s1"
  define s3 where "s3 = (if rn_phase ?s2 = stepRetryRun then emit RetryShown ?s2 else ?s2)"
  have q3: "quiet s1 s3" by (simp add: s3_def quiet_rules)
  show ?thesis
  proof (cases "cm_Outputs (rn_cmd s3) = []")
    case True
    then have "execRemote_once ev s = (Some (Panicked ''index out of range''), s3)"
      by (simp add: execRemote_once_def assms Let_def s3_def [symmetric])
    then show ?thesis using q3 by auto
  next
    case False
    obtain err s4 where c: "cmd_call ev RemoteExec (s3\<lparr>rn_phase := stepRetryRun\<rparr>) = (err, s4)" by fastforce
    have "quiet s1 (s3\<lparr>rn_phase := stepRetryRun\<rparr>)" by (rule quiet_same [OF q3]) simp
    from quiet_cmd_call [OF this, of RemoteExec ev] have q4: "quiet s1 s4" using c by simp
    define s5 where "s5 = setPhase ev stepOutput s4"
    have q5: "quiet s1 s5" unfolding s5_def by (rule quiet_phase [OF q4])
    define s7 where "s7 = setPhase ev stepRetryRun (upd_cmd (\<lambda>m. m\<lparr>cm_SkipCacheLookup := True\<rparr>) (emit (Output ''retry'') s5))"
    obtain err2 s8 where c2: "cmd_call ev RemoteExec s7 = (err2, s8)" by fastforce
    have "quiet s1 s7" using q5 by (simp add: s7_def quiet_rules)
    from quiet_cmd_call [OF this, of RemoteExec ev] have q8: "quiet s1 s8" using c2 by simp
    have "execRemote_once ev s =
      (if err = None \<and> \<not> validateRemoteActionResult (cm_result (rn_cmd s5)) then remote_exit (err2, setPhase ev stepOutput s8) else remote_exit (err, s5))"
      using False c c2 by (simp add: execRemote_once_def assms Let_def s3_def [symmetric] s5_def [symmetric] s7_def [symmetric])
    moreover have "snd (remote_exit (e, t)) = emit (Release RemoteSema) t" for e t by (simp add: remote_exit_def)
    ultimately have "\<exists>t \<in> {setPhase ev stepOutput s8, s5}. snd (execRemote_once ev s) = emit (Release RemoteSema) t" by simp
    then show ?thesis using q5 quiet_phase [OF q8, of ev stepOutput] by blast
  qed
qed

text \<open>\<open>Q\<close> is the law of a run that returns, \<open>R\<close> that of a run that panics.\<close>

locale trace_law =
  fixes Q R :: "event list \<Rightarrow> bool"
  assumes nil: "Q []"
    and append: "Q t \<Longrightarrow> Q u \<Longrightarrow> Q (t @ u)"
    and append_panic: "Q t \<Longrightarrow> R u \<Longrightarrow> R (t @ u)"
    and event: "basic e \<Longrightarrow> Q [e]"
    and bracket: "list_all basic t \<Longrightarrow> Q (Call (Acquire sm) # t @ [Release sm])"
    and bracket_panic: "list_all basic t \<Longrightarrow> R (Call (Acquire sm) # t)"
    and panic: "Q t \<Longrightarrow> R t"
begin

definition kept :: "run \<Rightarrow> run \<Rightarrow> bool" where
  "kept s s' \<longleftrightarrow> (\<exists>t. rn_trace s' = rn_trace s @ t \<and> Q t)"

definition lawful :: "run \<Rightarrow> error option \<times> run \<Rightarrow> bool" where
  "lawful s m \<longleftrightarrow> (\<exists>t. rn_trace (snd m) = rn_trace s @ t \<and> (if panicked (fst m) then R t else Q t))"

lemma kept_refl [simp]: "kept s s"
  using nil by (simp add: kept_def)

lemma kept_trans: "kept s s1 \<Longrightarrow> kept s1 s2 \<Longrightarrow> kept s s2"
  using append unfolding kept_def by (metis append.assoc)

lemma kept_same: "rn_trace s' = rn_trace s \<Longrightarrow> kept s s'"
  using nil by (simp add: kept_def)

lemma lawfulI: "kept s s' \<Longrightarrow> lawful s (r, s')"
  using panic by (auto simp: kept_def lawful_def)

lemma lawfulD: "lawful s (r, s') \<Longrightarrow> \<not> panicked r \<Longrightarrow> kept s s'"
  by (simp add: kept_def lawful_def)

lemma lawful_after: "kept s s1 \<Longrightarrow> lawful s1 m \<Longrightarrow> lawful s m"
proof -
  assume k: "kept s s1" and l: "lawful s1 m"
  obtain t where t: "rn_trace s1 = rn_trace s @ t" "Q t" using k unfolding kept_def by blast
  obtain u where u: "rn_trace (snd m) = rn_trace s1 @ u" "if panicked (fst m) then R u else Q u" using l unfolding lawful_def by blast
  have "if panicked (fst m) then R (t @ u) else Q (t @ u)" using t(2) u(2) append append_panic by (simp split: if_splits)
  then show "lawful s m" unfolding lawful_def using t(1) u(1) by (intro exI [of _ "t @ u"]) simp
qed

lemma lawful_then:
  assumes "lawful s m" "\<And>s1. kept s s1 \<Longrightarrow> m = (None, s1) \<Longrightarrow> lawful s (k s1)"
  shows "lawful s (andThen m k)"
proof (cases m)
  case (Pair r s1)
  show ?thesis
  proof (cases r)
    case None
    then have "kept s s1" using assms(1) Pair lawfulD [of s r s1] by simp
    then show ?thesis using assms(2) Pair None by simp
  next
    case (Some e)
    then show ?thesis using assms(1) Pair by simp
  qed
qed

lemma lawful_bind:
  assumes "lawful s m" "\<And>s1. kept s s1 \<Longrightarrow> lawful s1 (k s1)"
  shows "lawful s (andThen m k)"
  by (rule lawful_then [OF assms(1)]) (use assms(2) lawful_after in blast)

text \<open>Another error of the same kind leaves a law as it is.\<close>

lemma lawful_result: "lawful s (r, s') \<Longrightarrow> panicked r' = panicked r \<Longrightarrow> lawful s (r', s')"
  by (simp add: lawful_def)

lemma lawful_wrap: "lawful s m \<Longrightarrow> lawful s (go_wrap msg m)"
  by (cases m; cases "fst m") (auto simp: go_wrap_def lawful_def)

lemma kept_emit: "kept s s' \<Longrightarrow> basic e \<Longrightarrow> kept s (emit e s')"
  using event append by (auto simp: kept_def emit_def)

lemma kept_upd: "kept s s' \<Longrightarrow> kept s (upd_cmd f s')"
  by (simp add: kept_def upd_cmd_def)

lemma kept_phase: "kept s s' \<Longrightarrow> kept s (setPhase ev p s')"
  using kept_emit [of s "s'\<lparr>rn_state := x\<rparr>" "Phase p" for x] by (simp add: setPhase_def kept_def)

lemma kept_call: "kept s s' \<Longrightarrow> basic (Call c) \<Longrightarrow> kept s (snd (do_call ev c s'))"
  by (simp add: do_call_def kept_emit)

lemma kept_cmd_call: "kept s s' \<Longrightarrow> basic (Call c) \<Longrightarrow> kept s (snd (cmd_call ev c s'))"
  by (simp add: cmd_call_def kept_emit kept_upd)

lemma kept_ignore: "kept s (snd m) \<Longrightarrow> kept s (ignore m)"
  by (simp add: ignore_def)

lemma kept_pre: "kept s s' \<Longrightarrow> kept s (recordPre ev s')"
  by (simp add: recordPre_def kept_emit kept_upd)

lemma kept_dedup: "kept s s' \<Longrightarrow> kept s (dedupInputs s')"
  by (simp add: dedupInputs_def kept_upd)

lemmas kept_rules = kept_emit kept_upd kept_phase kept_call kept_cmd_call kept_ignore kept_pre kept_dedup

lemma lawful_call: "basic (Call c) \<Longrightarrow> lawful s (do_call ev c s)"
  using lawfulI [of s "snd (do_call ev c s)" "fst (do_call ev c s)"] kept_call [of s s c ev] by simp

lemma lawful_cmd_call: "basic (Call c) \<Longrightarrow> lawful s (cmd_call ev c s)"
  using lawfulI [of s "snd (cmd_call ev c s)" "fst (cmd_call ev c s)"] kept_cmd_call [of s s c ev] by simp

lemma kept_bracket:
  "kept s s1 \<Longrightarrow> rn_trace s2 = rn_trace s1 @ Call (Acquire sm) # t @ [Release sm] \<Longrightarrow> list_all basic t \<Longrightarrow> kept s s2"
  using bracket [of t sm] append unfolding kept_def by fastforce

lemma lawful_bracket_panic:
  "kept s s1 \<Longrightarrow> rn_trace s2 = rn_trace s1 @ Call (Acquire sm) # t \<Longrightarrow> list_all basic t \<Longrightarrow> panicked r \<Longrightarrow> lawful s (r, s2)"
  using bracket_panic [of t sm] append_panic unfolding kept_def lawful_def by fastforce

lemma acquire_cases:
  obtains (busy) e where "acquire ev sm s = (Some e, s)" "ev_err ev (rn_trace s) (Acquire sm) = Some e"
  | (taken) "acquire ev sm s = (None, emit (Call (Acquire sm)) s)"
  by (cases "ev_err ev (rn_trace s) (Acquire sm)") (auto simp: acquire_def)

section \<open>The parts of a step\<close>

lemma kept_setupRSP: "kept s (snd (setupRSP ev s))"
  by (simp add: setupRSP_def go_wrap_def do_call_def kept_emit split: prod.split option.split)

lemma kept_teardown: "kept s s' \<Longrightarrow> kept s (teardownRSP ev s')"
  by (simp add: teardownRSP_def kept_rules)

lemma lawful_updateDeps: "lawful s (updateDeps ev b s)"
proof (cases "cm_Outputs (rn_cmd s)")
  case (Cons out outs)
  show ?thesis
  proof (cases "fp_rel (cm_Dir (rn_cmd s)) out")
    case (Inr rl)
    obtain r s1 where st: "do_call ev (Stat out) s = (r, s1)" by fastforce
    have k: "kept s s1" using kept_call [of s s "Stat out" ev] st by simp
    let ?body = "\<lambda>deps s2. (None, ignore (cmd_call ev (FixCmd (map (\<lambda>d. fst (maybeFromWD (rb_path b) d)) deps)) (ignore (do_call ev (RecordDeps rl deps) s2))))"
    have "lawful s1 (andThen (cmd_call ev DepsAfterRun s1) (?body deps))" for deps
      by (rule lawful_bind [OF lawful_cmd_call]) (auto intro!: lawfulI kept_rules)
    then have "lawful s (andThen (cmd_call ev DepsAfterRun s1) (?body (ev_deps ev (rn_trace s1))))" by (rule lawful_after [OF k])
    then show ?thesis using Cons Inr st k lawfulI by (simp add: updateDeps_def Let_def split: option.split)
  qed (simp add: updateDeps_def Cons lawfulI)
qed (simp add: updateDeps_def lawfulI)

lemma kept_outputs_loop: "outputs_loop ev b defs outs seen loc s = (r, loc', s') \<Longrightarrow> kept s s'"
proof (induction outs arbitrary: seen loc s)
  case (Cons out outs)
  show ?case
  proof (cases "out \<in> set seen")
    case True
    then show ?thesis using Cons by simp
  next
    case False
    define p where "p = (if local_output b out then (True, s)
      else case do_call ev (Lstat out) s of (None, s1) \<Rightarrow> (True, s1) | (Some _, s1) \<Rightarrow> (False, s1))"
    obtain l s1 where p: "p = (l, s1)" by fastforce
    have k1: "kept s s1"
      using p kept_call [of s s "Lstat out" ev] by (auto simp: p_def split: if_splits prod.splits option.splits)
    obtain e s2 where st: "do_call ev (Stat out) s1 = (e, s2)" by fastforce
    have k2: "kept s s2" using kept_trans [OF k1] kept_call [of s1 s1 "Stat out" ev] st by simp
    define m where "m = (if l then s2 else ignore (do_call ev (OsRemove out) s2))"
    have k3: "kept s m" using kept_ignore [OF kept_call [OF k2]] k2 by (simp add: m_def)
    have go: "outputs_loop ev b defs (out # outs) seen loc s =
      (case e of None \<Rightarrow> outputs_loop ev b defs outs (out # seen) (if l then loc @ [out] else loc) s2
       | Some x \<Rightarrow> if out \<in> set defs then (Some (Wrap ''missing outputs'' x), if l then loc @ [out] else loc, s2)
           else outputs_loop ev b defs outs (out # seen) (if l then loc @ [out] else loc) m)"
      using False st p by (cases e) (simp_all add: p_def m_def Let_def)
    show ?thesis
      using Cons.prems Cons.IH kept_trans [OF k2] kept_trans [OF k3] k2 unfolding go by (auto split: option.splits if_splits)
  qed
qed simp

lemma lawful_outputs: "lawful s (outputs ev b sd s)"
proof (cases "sd_Binding sd ''phony_outputs'' = []")
  case True
  define outs where "outs = (if cm_Depfile (rn_cmd s) \<noteq> [] \<and> cm_Deps (rn_cmd s) \<noteq> ''gcc'' then cm_Outputs (rn_cmd s) @ [cm_Depfile (rn_cmd s)] else cm_Outputs (rn_cmd s))"
  obtain r loc s1 where l: "outputs_loop ev b (sd_Outputs sd) outs (sd_LocalOutputs sd) (sd_LocalOutputs sd) s = (r, loc, s1)"
    by (cases "outputs_loop ev b (sd_Outputs sd) outs (sd_LocalOutputs sd) (sd_LocalOutputs sd) s") blast
  note k = kept_outputs_loop [OF l]
  have "lawful s (go_wrap ''failed to flush outputs to local'' (do_call ev (Flush loc) s1))"
    by (rule lawful_after [OF k]) (simp add: lawful_wrap lawful_call)
  then show ?thesis using True l k lawfulI by (simp add: outputs_def outs_def [symmetric] Let_def split: option.split)
qed (simp add: outputs_def lawfulI)

lemma lawful_check_outputs: "lawful s (check_outputs ev defs outs s)"
proof (induction outs arbitrary: s)
  case (Cons out outs)
  obtain e s1 where st: "do_call ev (Stat out) s = (e, s1)" by fastforce
  have k: "kept s s1" using kept_call [of s s "Stat out" ev] st by simp
  show ?case using st lawful_after [OF k Cons.IH] lawfulI [OF k] by (simp split: option.split)
qed (simp add: lawfulI)

lemma lawful_checkLocal: "lawful s (checkLocalOutputs ev sd s)"
  by (simp add: checkLocalOutputs_def lawful_check_outputs lawfulI)

lemma lawful_prepare: "lawful s (prepareLocalInputs ev s)"
  unfolding prepareLocalInputs_def Let_def
  by (auto intro!: lawfulI kept_upd kept_emit simp: do_call_def split: prod.split)

lemma lawful_execLocal: "lawful s (execLocal ev b sd s)"
  unfolding execLocal_def Let_def
proof (rule lawful_bind [OF lawful_after [OF _ lawful_prepare]])
  show "kept s (setPhase ev stepInput (upd_cmd (\<lambda>m. m\<lparr>cm_RemoteWrapper := []\<rparr>) s))" by (simp add: kept_rules)
next
  fix s1 assume "kept s s1"
  let ?sm = "local_sema b sd"
  let ?s2 = "setPhase ev (phase_wait stepLocalRun) (upd_cmd (\<lambda>m. m\<lparr>cm_Console := (sd_Binding sd ''pool'' = ''console'')\<rparr>) (recordPre ev s1))"
  have k2: "kept s1 ?s2" by (simp add: kept_rules)
  let ?run = "\<lambda>s3. let (err, s4) = cmd_call ev LocalExec (on_console StartConsole (setPhase ev stepLocalRun s3)) in
    andThen (err, emit (Release ?sm) (on_console FinishConsole (setPhase ev stepOutput s4))) (\<lambda>s6. andThen (updateDeps ev b s6) (checkLocalOutputs ev sd))"
  have "lawful s1 (andThen (acquire ev ?sm ?s2) ?run)"
  proof (cases rule: acquire_cases [of ev ?sm ?s2])
    case (busy e)
    then show ?thesis using lawfulI [OF k2] by simp
  next
    case taken
    obtain err s4 where c: "cmd_call ev LocalExec (on_console StartConsole (setPhase ev stepLocalRun (emit (Call (Acquire ?sm)) ?s2))) = (err, s4)" by fastforce
    let ?s5 = "emit (Release ?sm) (on_console FinishConsole (setPhase ev stepOutput s4))"
    have "\<exists>t. rn_trace ?s5 = rn_trace ?s2 @ Call (Acquire ?sm) # t @ [Release ?sm] \<and> list_all basic t"
      using c by (auto simp: cmd_call_def on_console_def setPhase_def emit_def upd_cmd_def)
    then have k5: "kept s1 ?s5" using kept_bracket [OF k2] by blast
    have "lawful s1 (andThen (err, ?s5) (\<lambda>s6. andThen (updateDeps ev b s6) (checkLocalOutputs ev sd)))"
      by (rule lawful_bind [OF lawfulI [OF k5]]) (rule lawful_bind [OF lawful_updateDeps lawful_checkLocal])
    then show ?thesis using taken c by simp
  qed
  then show "lawful s1 (andThen (acquire ev ?sm ?s2) (\<lambda>s3. case cmd_call ev LocalExec (on_console StartConsole (setPhase ev stepLocalRun s3)) of
    (err, s4) \<Rightarrow> andThen (err, emit (Release ?sm) (on_console FinishConsole (setPhase ev stepOutput s4))) (\<lambda>s6. andThen (updateDeps ev b s6) (checkLocalOutputs ev sd))))"
    by simp
qed

lemma lawful_remote_once: "lawful s (execRemote_once ev s)"
proof (cases rule: acquire_cases [of ev RemoteSema "setPhase ev (phase_wait (rn_phase s)) s"])
  case (busy e)
  then show ?thesis using lawfulI [OF kept_phase [OF kept_refl]] by (simp add: execRemote_once_def)
next
  case taken
  let ?s0 = "setPhase ev (phase_wait (rn_phase s)) s" and ?m = "execRemote_once ev s"
  have k0: "kept s ?s0" by (simp add: kept_phase)
  obtain s' where q: "quiet (emit (Call (Acquire RemoteSema)) ?s0) s'"
    and m: "snd ?m = emit (Release RemoteSema) s' \<or> panicked (fst ?m) \<and> snd ?m = s'"
    using remote_once_taken [OF taken] by blast
  from q obtain t where t: "list_all basic t" "rn_trace s' = rn_trace ?s0 @ Call (Acquire RemoteSema) # t" by (auto simp: quiet_def emit_def)
  from m show ?thesis
  proof
    assume "snd ?m = emit (Release RemoteSema) s'"
    then have "kept s (snd ?m)" by (intro kept_bracket [OF k0 _ t(1)]) (simp add: emit_def t(2))
    then show ?thesis using lawfulI [of s "snd ?m" "fst ?m"] by simp
  next
    assume "panicked (fst ?m) \<and> snd ?m = s'"
    then show ?thesis using lawful_bracket_panic [OF k0 t(2,1), of "fst ?m"] by (metis prod.collapse)
  qed
qed

lemma lawful_retry_loop:
  assumes "\<And>s. lawful s (fn s)"
  shows "lawful s (retry_loop n a ctx fn err s)"
proof (induction n arbitrary: a err s)
  case (Suc n)
  obtain r s1 where f: "fn s = (r, s1)" by fastforce
  have l: "lawful s (r, s1)" using assms [of s] f by simp
  have step: "lawful s (retry_loop n a' ctx fn (Some e) s1)" if "r = Some e" "\<not> panics e" for a' e
    using lawful_after [OF lawfulD [OF l]] Suc.IH that by simp
  show ?case
  proof (cases r)
    case None
    then show ?thesis using f l lawfulI [of s s] by (simp split: option.split)
  next
    case (Some e)
    show ?thesis
      using f l step [OF Some] Some lawfulI [of s s] by (cases "panics e") (simp_all split: option.split prod.split bool.split)
  qed
qed (simp add: lawfulI)

lemma lawful_execRemote: "lawful s (execRemote ev b sd s)"
  unfolding execRemote_def retry_Do_def
proof (rule lawful_bind)
  have "kept s ((recordPre ev s)\<lparr>rn_phase := stepRemoteRun\<rparr>)" using kept_pre [OF kept_refl, of s ev] by (simp add: kept_def)
  then show "lawful s (retry_loop 10 0 (\<lambda>s. ev_ctx ev (rn_trace s)) (execRemote_once ev) None ((recordPre ev s)\<lparr>rn_phase := stepRemoteRun\<rparr>))"
    by (rule lawful_after) (rule lawful_retry_loop [OF lawful_remote_once])
qed (rule lawful_bind [OF lawful_updateDeps lawful_outputs])

lemma lawful_execRemoteCache: "lawful s (execRemoteCache ev b sd s)"
  unfolding execRemoteCache_def
proof (rule lawful_bind [OF lawful_cmd_call])
  fix s1 assume "kept s s1"
  have "lawful s1 (andThen (updateDeps ev b (emit CacheHit s1)) (outputs ev b sd))"
    by (rule lawful_bind [OF lawful_after [OF kept_emit [OF kept_refl] lawful_updateDeps] lawful_outputs]) simp
  then show "lawful s1 (if cm_result (rn_cmd s1) \<noteq> None \<and> \<not> validateRemoteActionResult (cm_result (rn_cmd s1)) then
      (Some (Msg ''no output in action result''), upd_cmd (\<lambda>m. m\<lparr>cm_SkipCacheLookup := True\<rparr>) s1)
    else andThen (updateDeps ev b (emit CacheHit s1)) (outputs ev b sd))"
    by (simp add: lawfulI kept_upd)
qed simp

lemma lawful_runRemoteStep: "lawful s (runRemoteStep ev b sd check s)"
proof -
  obtain r s1 where c: "execRemoteCache ev b sd s = (r, s1)" by fastforce
  have l: "lawful s (r, s1)" using lawful_execRemoteCache [of s ev b sd] c by simp
  have "lawful s (execRemote ev b sd s1)" if "\<not> panicked r" by (rule lawful_after [OF lawfulD [OF l that] lawful_execRemote])
  then show ?thesis using c l lawful_execRemote [of s ev b sd] by (cases r) (simp_all add: runRemoteStep_def lawfulI)
qed

lemma lawful_runLocal: "lawful s (runLocal ev b sd s)"
  unfolding runLocal_def by (rule lawful_after [OF kept_dedup lawful_execLocal]) simp

lemma lawful_runRemote: "lawful s (runRemote ev b sd s)"
proof -
  obtain r s1 where d: "cmd_call ev DepsCmd (setPhase ev stepPreproc s) = (r, s1)" by fastforce
  have k1: "kept s s1" using kept_cmd_call [OF kept_phase [OF kept_refl], of DepsCmd s ev ev stepPreproc] d by simp
  obtain q s2 where rr: "runRemoteStep ev b sd (rb_cache b \<and> rb_reCacheEnableRead b) (dedupInputs s1) = (q, s2)" by fastforce
  have l2: "lawful s (q, s2)" using lawful_after [OF kept_dedup [OF k1] lawful_runRemoteStep] rr by metis
  have err: "lawful s (Some (Wrap m e), s2)" if "q = Some e" "\<not> panics e" for e m
    by (rule lawful_result [OF l2]) (use that in simp)
  show ?thesis
  proof (cases r)
    case (Some e)
    then show ?thesis using d lawfulI [OF kept_upd [OF k1]] by (simp add: runRemote_def)
  next
    case None
    then show ?thesis using d rr l2 err by (cases q) (auto simp: runRemote_def)
  qed
qed

subsection \<open>Whole steps\<close>

text \<open>A run that succeeds has told the plan once, one that fails has not.\<close>

definition closes :: "run \<Rightarrow> error option \<times> run \<Rightarrow> bool" where
  "closes s m \<longleftrightarrow> (case m of (None, s') \<Rightarrow> \<exists>s1. kept s s1 \<and> kept (emit PlanDone s1) s' | (Some e, s') \<Rightarrow> lawful s m)"

lemma closes_done: "kept s s1 \<Longrightarrow> closes s (None, emit PlanDone s1)"
  by (auto simp: closes_def)

lemma closes_error: "lawful s (Some e, s') \<Longrightarrow> closes s (Some e, s')"
  by (simp add: closes_def)

lemma closes_after: "kept s s1 \<Longrightarrow> closes s1 m \<Longrightarrow> closes s m"
  using kept_trans lawful_after by (cases m; cases "fst m") (auto simp: closes_def)

lemma lawful_more: "lawful s (r, s1) \<Longrightarrow> kept s1 s2 \<Longrightarrow> \<not> panicked r \<Longrightarrow> lawful s (r, s2)"
  using kept_trans lawfulD lawfulI by blast

end

text \<open>Laws of panics that later events keep.\<close>

locale trace_law_panic = trace_law +
  assumes panic_append: "R t \<Longrightarrow> list_all basic u \<Longrightarrow> R (t @ u)"
    and quiet_law: "list_all basic u \<Longrightarrow> Q u"
begin

lemma kept_quiet: "quiet s s' \<Longrightarrow> kept s s'"
  using quiet_law by (auto simp: quiet_def kept_def)

lemma lawful_quiet: "lawful s (r, s1) \<Longrightarrow> quiet s1 s2 \<Longrightarrow> lawful s (r, s2)"
proof (cases "panicked r")
  case True
  assume l: "lawful s (r, s1)" and q: "quiet s1 s2"
  obtain t where t: "rn_trace s1 = rn_trace s @ t" "R t" using l True unfolding lawful_def by auto
  obtain u where u: "list_all basic u" "rn_trace s2 = rn_trace s1 @ u" using q unfolding quiet_def by blast
  show ?thesis unfolding lawful_def using True t u panic_append [OF t(2) u(1)] by auto
next
  case False
  assume "lawful s (r, s1)" "quiet s1 s2"
  then show ?thesis using lawful_more kept_quiet False by blast
qed

lemma closes_quiet:
  assumes "closes s (r, s1)" "quiet s1 s2"
  shows "closes s (r, s2)"
proof (cases r)
  case None
  then obtain s0 where s0: "kept s s0" "kept (emit PlanDone s0) s1" using assms(1) by (auto simp: closes_def)
  then show ?thesis using None kept_trans [OF s0(2) kept_quiet [OF assms(2)]] by (auto simp: closes_def)
next
  case (Some e)
  then show ?thesis using assms lawful_quiet [of s r s1 s2] by (simp add: closes_def)
qed

lemma closes_run_command: "closes s (snd (run_command ev b sd s))"
proof -
  define s1 where "s1 = ignore (cmd_call ev ExpandInputs s)"
  have k1: "kept s s1" unfolding s1_def by (intro kept_ignore kept_cmd_call) simp_all
  obtain r s2 where r: "(if runStrategy b (rn_cmd s1) then runRemote ev b sd s1 else runLocal ev b sd s1) = (r, s2)" by fastforce
  have l1: "lawful s1 (r, s2)" using lawful_runRemote [of s1 ev b sd] lawful_runLocal [of s1 ev b sd] r by metis
  then have l: "lawful s (r, s2)" by (rule lawful_after [OF k1])
  show ?thesis
  proof (cases r)
    case None
    then have k: "kept s s2" using lawfulD [OF l] by simp
    have "closes s (None, emit PlanDone (if c then emit (Output m) s2 else s2))" for c m
      by (rule closes_done) (simp add: k kept_emit)
    then show ?thesis using None r by (simp add: run_command_def Let_def s1_def [symmetric])
  next
    case (Some e)
    show ?thesis
    proof (cases "panics e")
      case True
      then show ?thesis using Some r l by (simp add: run_command_def Let_def s1_def [symmetric] closes_error)
    next
      case False
      then have k: "kept s s2" using lawfulD [OF l] Some by simp
      have "closes s (Some e', s2)" "closes s (Some e', emit (Output m) s2)" for e' m
        using k by (simp_all add: closes_error lawfulI kept_emit)
      then show ?thesis using Some r False by (simp add: run_command_def Let_def s1_def [symmetric] split: list.split)
    qed
  qed
qed

lemma quiet_teardown: "quiet s (teardownRSP ev s)"
  by (simp add: teardownRSP_def ignore_def do_call_def quiet_emit)

lemma closes_finish: "closes s (snd m) \<Longrightarrow> closes s (finish_rsp ev m)"
proof -
  assume c: "closes s (snd m)"
  obtain v r s1 where m: "m = (v, r, s1)" by (metis prod.collapse)
  have "closes s (r, teardownRSP ev s1)" by (rule closes_quiet [OF _ quiet_teardown]) (use c m in simp)
  moreover have "closes s (r, ignore (do_call ev (Flush x) s1))" for x
    using closes_quiet [of s r s1 "emit (Call (Flush x)) s1"] c m by (simp add: ignore_def do_call_def quiet_emit)
  ultimately show ?thesis using m by (simp add: finish_rsp_def split: option.split)
qed

lemma closes_run_started: "closes s (run_started ev b sd s)"
proof -
  obtain r s1 where h: "cmd_call ev Handle (setPhase ev stepHandler s) = (r, s1)" by fastforce
  have k1: "kept s s1" using kept_cmd_call [OF kept_phase [OF kept_refl], of Handle s ev ev stepHandler] h by simp
  show ?thesis
  proof (cases r)
    case (Some e)
    have "closes s (Some e', emit (Output m) s1)" for e' m by (simp add: closes_error lawfulI kept_emit k1)
    then show ?thesis using h Some by (simp add: run_started_def handleStep_def)
  next
    case None
    define exited where "exited \<longleftrightarrow> cm_result (rn_cmd s1) \<noteq> None"
    obtain ferr s2 where fl: "(if exited then do_call ev (Flush (cm_Outputs (rn_cmd s1))) s1 else (None, s1)) = (ferr, s2)" by fastforce
    have k2: "kept s s2" using fl k1 kept_emit [OF k1, of "Call (Flush (cm_Outputs (rn_cmd s1)))"] by (auto simp: do_call_def split: if_splits)
    obtain q s3 where rsp: "setupRSP ev s2 = (q, s3)" by fastforce
    have k3: "kept s s3" using kept_trans [OF k2 kept_setupRSP, of ev] rsp by simp
    have run: "run_started ev b sd s = (if exited \<and> ferr = None then (None, emit PlanDone s2)
        else case q of Some e \<Rightarrow> (Some (Wrap ''failed to setup rsp'' e), emit (Output ''FAILED'') s3) | None \<Rightarrow> finish_rsp ev (run_command ev b sd s3))"
      using h None fl rsp by (simp add: run_started_def handleStep_def exited_def)
    have "closes s (finish_rsp ev (run_command ev b sd s3))"
      by (rule closes_after [OF k3 closes_finish [OF closes_run_command]])
    moreover have "closes s (Some e, emit (Output x) s3)" for e x
      by (rule closes_error, rule lawfulI) (simp add: kept_emit k3)
    ultimately show ?thesis using closes_done [OF k2] unfolding run by (simp split: option.split)
  qed
qed

lemma closes_step_body: "closes s (step_body ev b sd s)"
proof (cases "ev_ctx ev (rn_trace s)")
  case (Some e)
  then show ?thesis by (simp add: step_body_def closes_error lawfulI)
next
  case None
  obtain c b1 where n: "newCmd b sd = (c, b1)" by fastforce
  define s1 where "s1 = emit Init (s\<lparr>rn_cmd := c\<rparr>)"
  have k1: "kept s s1" unfolding s1_def by (rule kept_emit) (simp_all add: kept_same)
  have k2: "kept s (progressStepStarted ev s1)" by (simp add: progressStepStarted_def kept_emit kept_phase k1)
  obtain err s2 where r: "run_started ev b1 sd (progressStepStarted ev s1) = (err, s2)" by fastforce
  have "closes s (err, s2)" using closes_after [OF k2 closes_run_started [of _ ev b1 sd]] r by metis
  then have "closes s (err, progressStepFinished ev s2)"
    by (rule closes_quiet) (simp add: progressStepFinished_def quiet_rules)
  moreover have "closes s (Some e, s1)" for e by (simp add: closes_error lawfulI k1)
  ultimately show ?thesis using None n r closes_done [OF k1] by (simp add: step_body_def s1_def [symmetric] split: option.split)
qed

lemma closes_runStep: "closes s (runStep ev b sd s)"
proof -
  obtain n b' where n: "needToRun (rb_check b) (sd_view sd) (sd_targets sd) = (n, b')" by fastforce
  obtain r s1 where r: "step_body ev (b\<lparr>rb_check := b'\<rparr>) sd s = (r, s1)" by fastforce
  have c: "closes s (r, s1)" using closes_step_body [of s ev "b\<lparr>rb_check := b'\<rparr>" sd] r by simp
  then have "closes s (r, emit (StatsUpdate x) s1)" for x by (rule closes_quiet) (simp add: quiet_emit)
  moreover have "closes s (None, emit (StatsUpdate x) (emit PlanDone s))" for x
    by (rule closes_quiet [OF closes_done [OF kept_refl]]) (simp add: quiet_emit)
  ultimately show ?thesis using n r c by (cases n; cases r) (simp_all add: runStep_def)
qed

end

section \<open>Semaphores\<close>

text \<open>
  The semaphore that a step holds after a trace; \<open>None\<close> if it took one while it held one, or released
  one that it did not hold.
\<close>

fun sema_run :: "event list \<Rightarrow> sema option \<Rightarrow> sema option option" where
  "sema_run [] h = Some h"
| "sema_run (Call (Acquire sm) # t) h = (case h of None \<Rightarrow> sema_run t (Some sm) | Some _ \<Rightarrow> None)"
| "sema_run (Release sm # t) h = (if h = Some sm then sema_run t None else None)"
| "sema_run (e # t) h = sema_run t h"

lemma sema_run_append: "sema_run (t @ u) h = (case sema_run t h of None \<Rightarrow> None | Some h' \<Rightarrow> sema_run u h')"
  by (induction t h rule: sema_run.induct) (simp_all split: option.split)

lemma sema_run_basic: "list_all basic t \<Longrightarrow> sema_run t h = Some h"
  by (induction t h rule: sema_run.induct) simp_all

interpretation semas: trace_law_panic "\<lambda>t. sema_run t None = Some None" "\<lambda>t. \<exists>h. sema_run t None = Some h"
  by unfold_locales (auto simp: sema_run_append sema_run_basic)

text \<open>The plan is not told.\<close>

interpretation untold: trace_law_panic "\<lambda>t. PlanDone \<notin> set t" "\<lambda>t. PlanDone \<notin> set t"
  by unfold_locales (auto simp: list_all_iff)

text \<open>
  C21: A step takes and releases its semaphores in order: it never takes one while it holds another,
  releases only what it holds, and holds none when \<open>runStep\<close> returns, with an error or without. Only a
  panic may leave one taken.
\<close>

theorem semaphores_released:
  "\<exists>t h. rn_trace (snd (runStep ev b sd s)) = rn_trace s @ t \<and> sema_run t None = Some h \<and>
     (h = None \<or> panicked (fst (runStep ev b sd s)))"
proof -
  obtain r s' where r: "runStep ev b sd s = (r, s')" by fastforce
  have c: "semas.closes s (r, s')" using semas.closes_runStep [of s ev b sd] r by simp
  show ?thesis
  proof (cases r)
    case None
    then obtain s1 where s1: "semas.kept s s1" "semas.kept (emit PlanDone s1) s'" using c by (auto simp: semas.closes_def)
    obtain t u where "rn_trace s1 = rn_trace s @ t" "sema_run t None = Some None"
      "rn_trace s' = rn_trace s @ t @ PlanDone # u" "sema_run u None = Some None"
      using s1 by (auto simp: semas.kept_def emit_def)
    then show ?thesis using r by (intro exI [of _ "t @ PlanDone # u"]) (simp add: sema_run_append)
  next
    case (Some e)
    then show ?thesis using c r by (auto simp: semas.closes_def semas.lawful_def split: if_splits)
  qed
qed

text \<open>
  C8: The plan is told that a step is done exactly once when \<open>runStep\<close> succeeds, and not at all when it
  returns an error, whatever the file system, the executors and the context do.
\<close>

theorem plan_told_once:
  "\<exists>t. rn_trace (snd (runStep ev b sd s)) = rn_trace s @ t \<and>
     count_list t PlanDone = (if fst (runStep ev b sd s) = None then 1 else 0)"
proof -
  obtain r s' where r: "runStep ev b sd s = (r, s')" by fastforce
  have c: "untold.closes s (r, s')" using untold.closes_runStep [of s ev b sd] r by simp
  show ?thesis
  proof (cases r)
    case None
    then obtain s1 where s1: "untold.kept s s1" "untold.kept (emit PlanDone s1) s'" using c by (auto simp: untold.closes_def)
    obtain t u where "PlanDone \<notin> set t" "rn_trace s' = rn_trace s @ t @ PlanDone # u" "PlanDone \<notin> set u"
      using s1 by (auto simp: untold.kept_def emit_def)
    then show ?thesis using r None by (intro exI [of _ "t @ PlanDone # u"]) (simp add: count_notin)
  next
    case (Some e)
    then show ?thesis using c r by (auto simp: untold.closes_def untold.lawful_def count_notin split: if_splits)
  qed
qed

section \<open>Retries\<close>

text \<open>
  A call that is retried is made at most ten times. Every call but the last failed with a status
  error, at most one of them with an authentication error, and the loop succeeds only if the last call
  did.
\<close>

theorem retry_bounded:
  assumes "retry_Do ctx (counting fn) (s, []) = (r, s', calls)"
  shows "length calls \<le> 10 \<and>
    (\<forall>i < length calls - 1. \<exists>e. calls ! i = Some e \<and> as_status e \<noteq> None) \<and>
    length (filter (\<lambda>c. case c of None \<Rightarrow> False | Some e \<Rightarrow> auth_error e) (butlast calls)) \<le> 1 \<and>
    (r = None \<longrightarrow> calls \<noteq> [] \<and> last calls = None)"
  using retry_loop_calls [OF assms [unfolded retry_Do_def]] by (auto split: if_splits)

definition flaky :: "nat \<Rightarrow> error option \<times> nat" where
  "flaky n = (if n < 2 then Some (Status Unavailable) else None, n + 1)"

lemma flaky_run: "retry_Do (\<lambda>_. None) (counting flaky) (0, []) = (None, 3, [Some (Status Unavailable), Some (Status Unavailable), None])"
  by (simp add: retry_Do_def numeral_eq_Suc counting_def flaky_def retriableError_def Let_def)

theorem retry_bounded_witness:
  "length (snd (snd (retry_Do (\<lambda>_. None) (counting flaky) (0, [])))) \<le> 10"
  using retry_bounded [OF flaky_run] by (simp add: flaky_run)

end
