(* ===== verification/Build_Loop.thy ===== *)
theory Build_Loop
  imports Plan_Run Step_Run
begin

text \<open>
  The build (\<open>Builder.Build\<close> of \<open>build/builder.go\<close>): after scheduling, the main loop takes a slot of
  the step semaphore, receives a step from the plan's queue and starts a worker for it, or handles
  what the workers report. Workers run concurrently with the loop and with each other; a transition
  of \<open>build_step\<close> is what one of them does between two points at which they meet: the semaphore, the
  queue, the error channel and the context. The result of a worker is arbitrary: what \<open>runStep\<close> may
  return is the subject of \<open>Step_Run\<close>. A worker reports cancellation only if the context is done.
\<close>

section \<open>Preparation\<close>

text \<open>The limits of the pools: no pool exceeds the limit of local steps.\<close>

definition poolSemas :: "int \<Rightarrow> (bytes \<times> int) list \<Rightarrow> (bytes \<times> int) list" where
  "poolSemas localLimit stepLimits = map (\<lambda>(k, v). (k, if v > localLimit then localLimit else v)) (sort_key fst stepLimits)"

text \<open>The deepest output directories; \<open>paths\<close> are the paths of the targets that are outputs.\<close>

function delete_parents :: "bytes \<Rightarrow> bytes list \<Rightarrow> bytes list" where
  "delete_parents dir seen =
     (let pdir = fp_dir dir in if pdir \<notin> set seen then seen else delete_parents pdir (removeAll pdir seen))"
  by pat_completeness auto
termination
  by (relation "measure (\<lambda>(dir, seen). length seen)") (auto intro: length_removeAll_less)

declare delete_parents.simps [simp del]

definition prepareAllOutDirs :: "bytes list \<Rightarrow> bytes list" where
  "prepareAllOutDirs paths =
     (let seen = remdups (map fp_dir paths) in sort (fold delete_parents (sort seen) seen))"

text \<open>
  What the deferred function makes of the result when the build regenerates its own manifest:
  \<open>mtime\<close> and \<open>mtime'\<close> are the times of the manifest before and after, if it exists.
\<close>

datatype build_err = BuildErr error | ErrManifestModified

definition manifest_result :: "bytes \<Rightarrow> nat option \<Rightarrow> nat option \<Rightarrow> statistics \<Rightarrow> build_err option \<Rightarrow> build_err option" where
  "manifest_result rebuildManifest mtime mtime' stat err =
     (if rebuildManifest = [] then err
      else case mtime' of
        None \<Rightarrow> err
      | Some t \<Rightarrow>
          if err \<noteq> None then err
          else if (case mtime of None \<Rightarrow> True | Some t0 \<Rightarrow> t0 < t) \<or> st_Done stat \<noteq> st_Skipped stat then Some ErrManifestModified
          else None)"

section \<open>The loop\<close>

text \<open>
  A worker runs its step, then has a result and still its slot, then has given the slot back and has
  to send its result.
\<close>

datatype worker = Running | Ran "error option" | Released "error option"

datatype loopAt = AtAcquire | AtSelect | AtDrain | Returned "error option"

text \<open>
  \<open>bl_canceled\<close> says that the context is done, \<open>bl_interrupted\<close> that it was done from outside;
  \<open>bl_saw\<close> is the variable \<open>canceled\<close> of the last phase. \<open>bl_finished\<close> and \<open>bl_failed\<close> are the steps whose
  \<open>runStep\<close> returned nil and an error.
\<close>

record building =
  bl_plan :: scheduler
  bl_workers :: "nat \<Rightarrow> worker option"
  bl_free :: nat
  bl_errch :: "error option list"
  bl_failures :: failures
  bl_canceled :: bool
  bl_interrupted :: bool
  bl_saw :: bool
  bl_at :: loopAt
  bl_finished :: "nat set"
  bl_failed :: "nat set"

definition build_init :: "nat \<Rightarrow> scheduler \<Rightarrow> building" where
  "build_init limit st =
     \<lparr>bl_plan = st, bl_workers = (\<lambda>_. None), bl_free = limit, bl_errch = [],
      bl_failures = \<lparr>fl_allowed = 1, fl_n = 0, fl_firstErr = None\<rparr>, bl_canceled = False, bl_interrupted = False,
      bl_saw = False, bl_at = AtAcquire, bl_finished = {}, bl_failed = {}\<rparr>"

definition errch_cap :: nat where
  "errch_cap = 1000"

definition build_error :: "building \<Rightarrow> error option" where
  "build_error s =
     (if fl_n (bl_failures s) = 0 then (if bl_saw s \<and> bl_canceled s then Some Canceled else None)
      else case fl_firstErr (bl_failures s) of
        None \<Rightarrow> Some (Msg ''steps failed'')
      | Some e \<Rightarrow> Some (Wrap ''steps failed'' e))"

definition saw_cancel :: "error option \<Rightarrow> bool" where
  "saw_cancel r \<longleftrightarrow> (case r of None \<Rightarrow> False | Some e \<Rightarrow> errors_Is e Canceled)"

inductive build_step :: "graph \<Rightarrow> building \<Rightarrow> building \<Rightarrow> bool" for g where
  acquired: "bl_at s = AtAcquire \<Longrightarrow> 0 < bl_free s \<Longrightarrow> build_step g s (s\<lparr>bl_free := bl_free s - 1, bl_at := AtSelect\<rparr>)"
| acquire_canceled: "bl_at s = AtAcquire \<Longrightarrow> bl_canceled s \<Longrightarrow> build_step g s (s\<lparr>bl_at := Returned (Some Canceled)\<rparr>)"
| received: "bl_at s = AtSelect \<Longrightarrow> pl_q (bl_plan s) = i # rest \<Longrightarrow>
    build_step g s (s\<lparr>bl_plan := pushReady ((bl_plan s)\<lparr>pl_q := rest\<rparr>), bl_workers := (bl_workers s)(i := Some Running), bl_at := AtAcquire\<rparr>)"
| closed: "bl_at s = AtSelect \<Longrightarrow> pl_q (bl_plan s) = [] \<Longrightarrow> pl_closed (bl_plan s) \<Longrightarrow>
    build_step g s (s\<lparr>bl_free := bl_free s + 1, bl_at := AtDrain\<rparr>)"
| reported: "bl_at s = AtSelect \<Longrightarrow> bl_errch s = r # rs \<Longrightarrow> shouldFail r (bl_failures s) = (False, f) \<Longrightarrow>
    build_step g s (s\<lparr>bl_errch := rs, bl_failures := f, bl_free := bl_free s + 1, bl_at := AtAcquire\<rparr>)"
| failed: "bl_at s = AtSelect \<Longrightarrow> bl_errch s = r # rs \<Longrightarrow> shouldFail r (bl_failures s) = (True, f) \<Longrightarrow>
    build_step g s (s\<lparr>bl_errch := rs, bl_failures := f, bl_free := bl_free s + 1, bl_canceled := True, bl_at := AtDrain\<rparr>)"
| canceled: "bl_at s = AtSelect \<Longrightarrow> bl_canceled s \<Longrightarrow>
    build_step g s (s\<lparr>bl_free := bl_free s + 1, bl_at := Returned (Some Canceled)\<rparr>)"
| drained: "bl_at s = AtDrain \<Longrightarrow> bl_errch s = r # rs \<Longrightarrow>
    build_step g s (s\<lparr>bl_errch := rs, bl_failures := snd (shouldFail r (bl_failures s)), bl_saw := bl_saw s \<or> saw_cancel r\<rparr>)"
| returned: "bl_at s = AtDrain \<Longrightarrow> bl_errch s = [] \<Longrightarrow> bl_workers s = (\<lambda>_. None) \<Longrightarrow>
    build_step g s (s\<lparr>bl_at := Returned (build_error s)\<rparr>)"
| interrupted: "build_step g s (s\<lparr>bl_canceled := True, bl_interrupted := True\<rparr>)"
| succeeds: "bl_workers s i = Some Running \<Longrightarrow>
    build_step g s (s\<lparr>bl_plan := planDone g i (bl_plan s), bl_workers := (bl_workers s)(i := Some (Ran None)),
      bl_finished := insert i (bl_finished s)\<rparr>)"
| fails: "bl_workers s i = Some Running \<Longrightarrow> errors_Is e Canceled \<longrightarrow> bl_canceled s \<Longrightarrow>
    build_step g s (s\<lparr>bl_workers := (bl_workers s)(i := Some (Ran (Some e))), bl_failed := insert i (bl_failed s)\<rparr>)"
| released: "bl_workers s i = Some (Ran r) \<Longrightarrow>
    build_step g s (s\<lparr>bl_workers := (bl_workers s)(i := Some (Released r)), bl_free := bl_free s + 1\<rparr>)"
| sent: "bl_workers s i = Some (Released r) \<Longrightarrow> length (bl_errch s) < errch_cap \<Longrightarrow>
    build_step g s (s\<lparr>bl_workers := (bl_workers s)(i := None), bl_errch := bl_errch s @ [r]\<rparr>)"
| dropped: "bl_workers s i = Some (Released r) \<Longrightarrow> bl_canceled s \<Longrightarrow>
    build_step g s (s\<lparr>bl_workers := (bl_workers s)(i := None)\<rparr>)"

inductive build_reach :: "graph \<Rightarrow> nat \<Rightarrow> scheduler \<Rightarrow> building \<Rightarrow> bool" for g limit st where
  start: "build_reach g limit st (build_init limit st)"
| step: "build_reach g limit st s \<Longrightarrow> build_step g s s' \<Longrightarrow> build_reach g limit st s'"

inductive_cases build_stepE: "build_step g s s'"

section \<open>The run of the plan\<close>

text \<open>A step that failed stays active for the plan: nobody told it that the step is done.\<close>

definition plan_run :: "building \<Rightarrow> running" where
  "plan_run s = \<lparr>rn_plan = bl_plan s, rn_active = {i. bl_workers s i = Some Running} \<union> bl_failed s, rn_finished = bl_finished s\<rparr>"

lemma run_push: "run_reach g st r \<Longrightarrow> run_reach g st (r\<lparr>rn_plan := pushReady (rn_plan r)\<rparr>)"
  by (rule run_reach.step [OF _ run_trans.push])

text \<open>A worker that runs has not failed, and every transition is a part of a run of the plan.\<close>

definition refines :: "graph \<Rightarrow> scheduler \<Rightarrow> building \<Rightarrow> bool" where
  "refines g st s \<longleftrightarrow> run_reach g st (plan_run s) \<and> (\<forall>i \<in> bl_failed s. bl_workers s i \<noteq> Some Running)"

lemma refines_idle:
  assumes "refines g st s" "bl_plan s' = bl_plan s" "bl_failed s' = bl_failed s" "bl_finished s' = bl_finished s"
    "\<And>i. bl_workers s' i = Some Running \<longleftrightarrow> bl_workers s i = Some Running"
  shows "refines g st s'"
  using assms by (simp add: refines_def plan_run_def)

lemma refines_received:
  assumes R: "refines g st s" and inv: "plan_inv g W {} st" and q: "pl_q (bl_plan s) = i # rest"
    and s': "bl_plan s' = pushReady ((bl_plan s)\<lparr>pl_q := rest\<rparr>)" "bl_workers s' = (bl_workers s)(i := Some Running)"
      "bl_failed s' = bl_failed s" "bl_finished s' = bl_finished s"
  shows "refines g st s'"
proof -
  let ?r = "plan_run s"
  have r: "run_reach g st ?r" using R by (simp add: refines_def)
  have q': "pl_q (rn_plan ?r) = i # rest" using q by (simp add: plan_run_def)
  have "i \<notin> rn_active ?r" using run_invD(2) [OF run_reach_inv [OF inv r]] q' by (auto simp: counted_def)
  then have i: "i \<notin> bl_failed s" by (simp add: plan_run_def)
  have "run_reach g st (?r\<lparr>rn_active := insert i (rn_active ?r), rn_plan := pushReady ((rn_plan ?r)\<lparr>pl_q := rest\<rparr>)\<rparr>)"
    using run_push [OF run_reach.step [OF r run_trans.receive [OF q']]] by simp
  moreover have "?r\<lparr>rn_active := insert i (rn_active ?r), rn_plan := pushReady ((rn_plan ?r)\<lparr>pl_q := rest\<rparr>)\<rparr> = plan_run s'"
    using s' by (auto simp: plan_run_def)
  ultimately show ?thesis using R i s' by (auto simp: refines_def)
qed

lemma refines_succeeds:
  assumes R: "refines g st s" and i: "bl_workers s i = Some Running"
    and s': "bl_plan s' = planDone g i (bl_plan s)" "bl_workers s' = (bl_workers s)(i := Some (Ran None))"
      "bl_failed s' = bl_failed s" "bl_finished s' = insert i (bl_finished s)"
  shows "refines g st s'"
proof -
  let ?r = "plan_run s"
  have r: "run_reach g st ?r" and nf: "i \<notin> bl_failed s" using R i by (auto simp: refines_def)
  have "i \<in> rn_active ?r" using i by (simp add: plan_run_def)
  from run_reach.step [OF r run_trans.finish [OF this]]
  have "run_reach g st (?r\<lparr>rn_plan := planDone g i (rn_plan ?r), rn_active := rn_active ?r - {i}, rn_finished := insert i (rn_finished ?r)\<rparr>)" .
  moreover have "?r\<lparr>rn_plan := planDone g i (rn_plan ?r), rn_active := rn_active ?r - {i}, rn_finished := insert i (rn_finished ?r)\<rparr> = plan_run s'"
    using s' nf by (auto simp: plan_run_def)
  ultimately show ?thesis using R s' by (auto simp: refines_def)
qed

lemma refines_fails:
  assumes R: "refines g st s" and i: "bl_workers s i = Some Running"
    and s': "bl_plan s' = bl_plan s" "bl_workers s' = (bl_workers s)(i := Some (Ran r))"
      "bl_failed s' = insert i (bl_failed s)" "bl_finished s' = bl_finished s"
  shows "refines g st s'"
proof -
  have "plan_run s' = plan_run s" using i s' by (auto simp: plan_run_def)
  then show ?thesis using R s' by (auto simp: refines_def)
qed

lemma refines_step:
  assumes inv: "plan_inv g W {} st" and R: "refines g st s" and "build_step g s s'"
  shows "refines g st s'"
  using assms(3)
proof cases
  case (received i rest)
  then show ?thesis by (intro refines_received [OF R inv received(3)]) simp_all
next
  case (succeeds i)
  then show ?thesis by (intro refines_succeeds [OF R succeeds(2)]) simp_all
next
  case (fails i e)
  then show ?thesis by (intro refines_fails [OF R fails(2)]) simp_all
qed (rule refines_idle [OF R]; auto split: if_splits)+

lemma build_refines:
  assumes "plan_inv g W {} st" and "build_reach g limit st s"
  shows "refines g st s"
  using assms(2)
proof induction
  case start
  then show ?case using run_reach.start [of g st] by (simp add: refines_def plan_run_def run_start_def build_init_def)
qed (use refines_step [OF assms(1)] in blast)

end
