(* ===== verification/Build_Props.thy ===== *)
theory Build_Props
  imports Build_Loop Plan_Props
begin

text \<open>
  Properties of the build loop: it refines the runs of the plan, it respects the limit of steps, it
  returns on an acyclic graph, and what its result says about the steps.
\<close>

section \<open>The queue\<close>

text \<open>Steps are spilled only while the queue is full.\<close>

definition full :: "'a plan_scheme \<Rightarrow> bool" where
  "full p \<longleftrightarrow> 0 < pl_cap p \<and> (pl_ready p \<noteq> [] \<longrightarrow> pl_cap p \<le> length (pl_q p))"

lemma full_same: "full p \<Longrightarrow> pl_cap p' = pl_cap p \<Longrightarrow> pl_ready p' = pl_ready p \<Longrightarrow> pl_q p' = pl_q p \<Longrightarrow> full p'"
  by (simp add: full_def)

lemma full_upd [simp]: "full (upd_target t f p) = full p" "full (upd_step i h p) = full p"
  by (simp_all add: full_def upd_target_def upd_step_def)

lemma full_fold_upd: "full (fold (\<lambda>t. upd_target t f) ts p) = full p"
  by (induction ts arbitrary: p) simp_all

lemma full_readyToRun: "full (fst (readyToRun i prev out p)) = full p"
  by (simp add: readyToRun_def Let_def)

lemma full_addStep: "full st \<Longrightarrow> full (addStep g i st)"
proof -
  assume st: "full st"
  define st1 where "st1 = st\<lparr>sc_total := sc_total st + 1\<rparr>"
  define st2 where "st2 = (if be_phony (g_edge g (sp_def (pl_steps st1 ! i))) then st1
    else fold (\<lambda>out. upd_target out (\<lambda>ti. ti\<lparr>ti_output := True\<rparr>)) (sp_outputs (pl_steps st1 ! i)) st1)"
  have f1: "full st1" using st by (simp add: st1_def full_def)
  then have f2: "full st2" by (simp add: st2_def full_fold_upd)
  obtain st3 rdy where r: "readyToRun i [] 0 st2 = (st3, rdy)" by fastforce
  have f3: "full st3" using full_readyToRun [of i "[]" 0 st2] r f2 by simp
  show "full (addStep g i st)"
    unfolding addStep_def Let_def st1_def [symmetric] st2_def [symmetric] r
    using f3 by (auto simp: full_def try_send_def)
qed

lemma full_mark_outputs: "full (mark_outputs outs p) = full p"
  by (simp add: mark_outputs_def full_fold_upd)

lemma full_stepDef: "full (snd (stepDef g t st)) = full st"
  by (simp add: stepDef_def full_def split: option.split)

lemma full_mark: "full (fst (mark g t nx st)) = full st"
  by (simp add: mark_def)

lemma full_scheduleInputs:
  assumes T: "\<And>inp st. full st \<Longrightarrow> full (fst (scheduleTarget fuel g ctxDone inp (Some e) st))"
  shows "full st \<Longrightarrow> full (fst (scheduleInputs fuel g ctxDone target e i ins st))"
proof (induction ins arbitrary: st)
  case (Cons it ins)
  obtain inp trigger where it: "it = (inp, trigger)" by force
  obtain st1 err where r: "(if scan_of st inp \<noteq> scanStateDone
      then scheduleTarget fuel g ctxDone inp (Some e) st else (st, None)) = (st1, err)" by force
  have f: "full st1" using T [OF Cons.prems, of inp] Cons.prems r by (auto split: if_splits)
  then have "full (add_wait i inp st1)" by (simp add: add_wait_def)
  then show ?case using Cons r f by (cases err) (simp_all add: it scheduleInputs_Cons)
qed simp

lemma full_scheduleTarget: "full st \<Longrightarrow> full (fst (scheduleTarget fuel g ctxDone target nx st))"
proof (induction fuel arbitrary: target nx st)
  case (Suc fuel)
  have step: "full (fst (scheduleStep fuel g ctxDone target e st1))" if st1: "full st1" for e st1
  proof -
    have f: "full (start_step g target e st1)"
      by (rule full_same [of "upd_target target (\<lambda>ti. ti\<lparr>ti_phonyOutput := be_phonyOutput (g_edge g e)\<rparr>) st1"]) (simp_all add: st1 start_step_def)
    then have "full (push_step e (start_step g target e st1))" by (simp add: push_step_def full_def)
    note i = full_scheduleInputs [OF Suc.IH this, of target e "length (pl_steps st1)" "edge_ins g e"]
    then show ?thesis
      using f by (auto simp: scheduleStep_eq finish_step_def full_mark_outputs full_addStep split: prod.split option.split)
  qed
  have v: "full (fst (visit fuel g ctxDone target nx ign st1))" if "full st1" for ign st1
    using step full_stepDef [of g target st1] full_mark [of g target nx] that
    by (auto simp: visit_def split: prod.split step_def_result.split)
  have "full (set_scan target scanStateVisiting st)" using Suc.prems by simp
  from v [OF this, of "scan_of st target = scanStateIgnored"] show ?case
    using Suc.prems by (simp add: scheduleTarget_visit split: prod.split) auto
qed simp

lemma full_schedule:
  assumes "schedule g ctxDone targets (newScheduler n) = (st, err)"
  shows "full st"
proof -
  have T: "full st' \<Longrightarrow> full (fst (scheduleTargets fuel g ctxDone ts st'))" for fuel ts st'
  proof (induction ts arbitrary: st')
    case (Cons t ts)
    obtain st1 e where r: "scheduleTarget fuel g ctxDone t None st' = (st1, e)" by fastforce
    have "full st1" using full_scheduleTarget [OF Cons.prems, of fuel g ctxDone t None] r by simp
    then show ?case using Cons r by (simp split: option.split)
  qed simp
  have f0: "full (newScheduler n)" by (simp add: full_def newScheduler_def)
  obtain st1 e where r: "scheduleTargets (Suc (length (pl_targets (newScheduler n)))) g ctxDone targets (newScheduler n) = (st1, e)" by fastforce
  have f1: "full st1" using T [OF f0] r by (metis fst_conv)
  show ?thesis
    using assms r f0 f1 T [OF f1, of "Suc (length (pl_targets (newScheduler n)))" "sc_validations st1"]
    by (auto simp: schedule_def Let_def split: if_splits option.splits)
qed

subsection \<open>Running\<close>

lemma full_received: "full p \<Longrightarrow> pl_q p = i # rest \<Longrightarrow> full (pushReady (p\<lparr>pl_q := rest\<rparr>))"
  by (auto simp: full_def pushReady_def try_send_def split: list.split)

text \<open>While steps are flushed or woken up, a list of spilled steps means that the queue is full.\<close>

definition spilled :: "nat list \<Rightarrow> 'a plan_scheme \<Rightarrow> bool" where
  "spilled xs p \<longleftrightarrow> 0 < pl_cap p \<and> (xs \<noteq> [] \<longrightarrow> pl_cap p \<le> length (pl_q p))"

lemma spilled_flush:
  assumes "spilled ks p"
  shows "full (flush_ready ks ss p)"
  using assms
proof (induction ss arbitrary: ks p)
  case Nil
  then show ?case by (simp add: spilled_def full_def)
next
  case (Cons s ss)
  show ?case
  proof (cases "length (pl_q p) < pl_cap p")
    case True
    then have "spilled ks (p\<lparr>pl_q := pl_q p @ [s]\<rparr>)" using Cons.prems by (simp add: spilled_def)
    then show ?thesis using Cons.IH True by (simp add: try_send_def)
  next
    case False
    then have "spilled (ks @ [s]) p" using Cons.prems by (simp add: spilled_def)
    then show ?thesis using Cons.IH False by (simp add: try_send_def)
  qed
qed

lemma spilled_readyToRun: "spilled xs (fst (readyToRun i prev out p)) = spilled xs p" "pl_ready (fst (readyToRun i prev out p)) = pl_ready p"
  by (simp_all add: readyToRun_def Let_def spilled_def upd_step_def)

lemma spilled_done_waits:
  assumes "spilled (pl_ready p @ spill) p" "done_waits prev out ws ks spill p = (p', ks', spill')"
  shows "spilled (pl_ready p' @ spill') p'"
  using assms
proof (induction ws arbitrary: ks spill p)
  case (Cons s ws)
  obtain p1 rdy where r: "readyToRun s prev out p = (p1, rdy)" by fastforce
  have s1: "spilled (pl_ready p1 @ spill) p1"
    using spilled_readyToRun(1) [of "pl_ready p @ spill" s prev out p] spilled_readyToRun(2) [of s prev out p] r Cons.prems(1) by simp
  show ?case
  proof (cases rdy)
    case True
    let ?p = "p1\<lparr>pl_npendings := pl_npendings p1 - 1\<rparr>"
    obtain p2 ok where t: "try_send s ?p = (p2, ok)" by fastforce
    have "spilled (pl_ready p2 @ (if ok then spill else spill @ [s])) p2"
      using s1 t by (auto simp: spilled_def try_send_def split: if_splits)
    then show ?thesis using Cons.IH Cons.prems(2) r t True by (cases ok) auto
  next
    case False
    then show ?thesis using Cons.IH [OF s1] Cons.prems(2) r by simp
  qed
qed simp

lemma spilled_done_outs:
  assumes "spilled (pl_ready p @ spill) p" "done_outs prev outs spill p = (p', spill')"
  shows "spilled (pl_ready p' @ spill') p'"
  using assms
proof (induction outs arbitrary: spill p)
  case (Cons out outs)
  obtain p1 ks sp1 where w: "done_waits prev out (ti_waits (pl_targets p ! out)) [] spill p = (p1, ks, sp1)"
    by (metis prod_cases3)
  have "spilled (pl_ready p1 @ sp1) p1" by (rule spilled_done_waits [OF Cons.prems(1) w])
  then have "spilled (pl_ready (upd_target out f p1) @ sp1) (upd_target out f p1)" for f by (simp add: spilled_def upd_target_def)
  then show ?case using Cons.IH [of "upd_target out (\<lambda>ti. ti\<lparr>ti_waits := ks\<rparr>) p1" sp1] Cons.prems(2) w by simp
qed simp

lemma full_planDone: "full p \<Longrightarrow> full (planDone g i p)"
proof (cases "pl_closed p")
  case False
  assume p: "full p"
  define p1 where "p1 = flush_ready [] (pl_ready p) p"
  have "full p1" unfolding p1_def by (rule spilled_flush) (use p in \<open>simp add: spilled_def full_def\<close>)
  then have s1: "spilled (pl_ready p1 @ []) p1" by (simp add: spilled_def full_def)
  define prev where "prev = (if be_phony (g_edge g (sp_def (pl_steps p ! i))) then sp_prevStepID (pl_steps p ! i) else be_name (g_edge g (sp_def (pl_steps p ! i))))"
  obtain p2 spill where d: "done_outs prev (sp_outputs (pl_steps p ! i)) [] p1 = (p2, spill)" by fastforce
  have "full (p2\<lparr>pl_ready := pl_ready p2 @ spill\<rparr>)" using spilled_done_outs [OF s1 d] by (simp add: spilled_def full_def)
  then show ?thesis
    using False d unfolding planDone_def Let_def p1_def [symmetric] prev_def [symmetric] by (simp add: full_def)
qed (simp add: planDone_def)

section \<open>Invariants of the loop\<close>

subsection \<open>Slots\<close>

definition holders :: "building \<Rightarrow> nat set" where
  "holders s = {i. bl_workers s i = Some Running \<or> (\<exists>r. bl_workers s i = Some (Ran r))}"

definition slots :: "nat \<Rightarrow> building \<Rightarrow> bool" where
  "slots limit s \<longleftrightarrow> finite (dom (bl_workers s)) \<and>
     bl_free s + card (holders s) + (if bl_at s = AtSelect then 1 else 0) = limit"

lemma finite_holders: "finite (dom (bl_workers s)) \<Longrightarrow> finite (holders s)"
  by (rule finite_subset [of _ "dom (bl_workers s)"]) (auto simp: holders_def)

lemma holders_upd:
  "holders (s\<lparr>bl_workers := (bl_workers s)(i := Some Running)\<rparr>) = insert i (holders s)"
  "holders (s\<lparr>bl_workers := (bl_workers s)(i := Some (Ran r))\<rparr>) = insert i (holders s)"
  "holders (s\<lparr>bl_workers := (bl_workers s)(i := Some (Released r))\<rparr>) = holders s - {i}"
  "holders (s\<lparr>bl_workers := (bl_workers s)(i := None)\<rparr>) = holders s - {i}"
  by (auto simp: holders_def)

lemma holders_same: "bl_workers s' = bl_workers s \<Longrightarrow> holders s' = holders s"
  by (simp add: holders_def)

text \<open>The slot of a step that is received becomes the slot of its worker, if the step had no worker.\<close>

lemma slots_step:
  assumes S: "slots limit s" and "build_step g s s'" and new: "\<And>i rest. pl_q (bl_plan s) = i # rest \<Longrightarrow> bl_workers s i = None"
  shows "slots limit s'"
proof -
  note F = finite_holders [of s]
  from assms(2) show ?thesis
  proof cases
    case (received i rest)
    then have "i \<notin> holders s" using new by (auto simp: holders_def)
    moreover have "holders s' = insert i (holders s)" using received(1) by (auto simp: holders_def)
    ultimately show ?thesis using S received F by (simp add: slots_def)
  next
    case (succeeds i)
    then have "holders s' = holders s" by (auto simp: holders_def)
    then show ?thesis using S succeeds by (simp add: slots_def)
  next
    case (fails i e)
    then have "holders s' = holders s" by (auto simp: holders_def)
    then show ?thesis using S fails by (simp add: slots_def)
  next
    case (released i r)
    then have "holders s' = holders s - {i}" "i \<in> holders s" by (auto simp: holders_def)
    moreover from this(2) have "0 < card (holders s)" using S F by (auto simp: card_gt_0_iff slots_def)
    ultimately show ?thesis using S released F by (simp add: slots_def card_Diff_singleton)
  next
    case (sent i r)
    then have "holders s' = holders s" by (auto simp: holders_def)
    then show ?thesis using S sent by (simp add: slots_def)
  next
    case (dropped i r)
    then have "holders s' = holders s" by (auto simp: holders_def)
    then show ?thesis using S dropped by (simp add: slots_def)
  qed (use S in \<open>auto simp: slots_def holders_def\<close>)
qed

subsection \<open>Errors\<close>

text \<open>An error that a worker has yet to report, or that is in the channel.\<close>

fun carried :: "worker option \<Rightarrow> error option" where
  "carried (Some (Ran r)) = r"
| "carried (Some (Released r)) = r"
| "carried _ = None"

definition pending_err :: "building \<Rightarrow> error \<Rightarrow> bool" where
  "pending_err s e \<longleftrightarrow> Some e \<in> set (bl_errch s) \<or> (\<exists>i. carried (bl_workers s i) = Some e)"

lemma pending_same:
  assumes "bl_errch s' = bl_errch s" "\<And>i. carried (bl_workers s' i) = carried (bl_workers s i)"
  shows "pending_err s' = pending_err s"
  using assms by (auto simp: pending_err_def fun_eq_iff)

definition errors_inv :: "building \<Rightarrow> bool" where
  "errors_inv s \<longleftrightarrow> fl_allowed (bl_failures s) = 1 \<and>
     (bl_at s = AtAcquire \<or> bl_at s = AtSelect \<longrightarrow> fl_n (bl_failures s) = 0) \<and>
     (bl_canceled s \<longrightarrow> bl_interrupted s \<or> 0 < fl_n (bl_failures s)) \<and>
     (\<not> bl_canceled s \<longrightarrow> (\<forall>e. pending_err s e \<longrightarrow> \<not> errors_Is e Canceled)) \<and>
     (\<not> bl_canceled s \<longrightarrow> bl_failed s \<noteq> {} \<longrightarrow> 0 < fl_n (bl_failures s) \<or> (\<exists>e. pending_err s e)) \<and>
     (bl_at s = AtDrain \<longrightarrow> 0 < fl_n (bl_failures s) \<or> pl_q (bl_plan s) = [] \<and> pl_closed (bl_plan s)) \<and>
     (bl_at s = Returned None \<longrightarrow> fl_n (bl_failures s) = 0 \<and> bl_workers s = (\<lambda>_. None) \<and> bl_errch s = [] \<and>
        pl_q (bl_plan s) = [] \<and> pl_closed (bl_plan s))"

lemma errors_invD:
  assumes "errors_inv s"
  shows "fl_allowed (bl_failures s) = 1"
    and "bl_at s = AtAcquire \<or> bl_at s = AtSelect \<Longrightarrow> fl_n (bl_failures s) = 0"
    and "bl_canceled s \<Longrightarrow> bl_interrupted s \<or> 0 < fl_n (bl_failures s)"
    and "\<not> bl_canceled s \<Longrightarrow> pending_err s e \<Longrightarrow> \<not> errors_Is e Canceled"
    and "\<not> bl_canceled s \<Longrightarrow> i \<in> bl_failed s \<Longrightarrow> 0 < fl_n (bl_failures s) \<or> (\<exists>e. pending_err s e)"
    and "bl_at s = AtDrain \<Longrightarrow> 0 < fl_n (bl_failures s) \<or> pl_q (bl_plan s) = [] \<and> pl_closed (bl_plan s)"
    and "bl_at s = Returned None \<Longrightarrow> fl_n (bl_failures s) = 0 \<and> bl_workers s = (\<lambda>_. None) \<and> bl_errch s = [] \<and>
      pl_q (bl_plan s) = [] \<and> pl_closed (bl_plan s)"
  using assms unfolding errors_inv_def by auto

text \<open>A transition that keeps the loop where it is and the failures as they are.\<close>

lemma errors_inv_worker:
  assumes E: "errors_inv s" and at: "bl_at s' = bl_at s" "bl_failures s' = bl_failures s" "bl_canceled s' = bl_canceled s"
      "bl_interrupted s' = bl_interrupted s" "bl_at s = Returned None \<longrightarrow> bl_workers s' = (\<lambda>_. None) \<and> bl_errch s' = []"
    and plan: "pl_closed (bl_plan s) \<Longrightarrow> bl_plan s' = bl_plan s"
    and new: "\<not> bl_canceled s \<Longrightarrow> (\<forall>e. pending_err s' e \<longrightarrow> pending_err s e \<or> \<not> errors_Is e Canceled) \<and>
      (bl_failed s' \<noteq> {} \<longrightarrow> bl_failed s \<noteq> {} \<and> (\<forall>e. pending_err s e \<longrightarrow> pending_err s' e) \<or> (\<exists>e. pending_err s' e))"
  shows "errors_inv s'"
proof -
  note D = errors_invD [OF E]
  have "\<forall>e. pending_err s' e \<longrightarrow> \<not> errors_Is e Canceled" if "\<not> bl_canceled s" using new that D(4) by blast
  moreover have "bl_failed s' \<noteq> {} \<longrightarrow> 0 < fl_n (bl_failures s) \<or> (\<exists>e. pending_err s' e)" if "\<not> bl_canceled s"
    using new that D(5) by blast
  moreover have "0 < fl_n (bl_failures s) \<or> pl_q (bl_plan s') = [] \<and> pl_closed (bl_plan s')" if "bl_at s = AtDrain"
    using D(6) [OF that] plan by auto
  moreover have "fl_n (bl_failures s) = 0 \<and> pl_q (bl_plan s') = [] \<and> pl_closed (bl_plan s')" if "bl_at s = Returned None"
    using D(7) [OF that] plan by auto
  ultimately show ?thesis using D(1-3) at unfolding errors_inv_def by simp
qed

lemma shouldFail_first:
  assumes "fl_allowed f = 1" "shouldFail r f = (b, f')"
  shows "fl_allowed f' = 1" "fl_n f \<le> fl_n f'"
    "b \<longleftrightarrow> (\<exists>e. r = Some e \<and> \<not> errors_Is e Canceled)" "b \<Longrightarrow> 0 < fl_n f'" "\<not> b \<Longrightarrow> f' = f"
  using assms by (auto simp: shouldFail_def Let_def split: option.splits if_splits)

lemma errors_inv_step:
  assumes E: "errors_inv s" and "build_step g s s'" and new: "\<And>i rest. pl_q (bl_plan s) = i # rest \<Longrightarrow> bl_workers s i = None"
  shows "errors_inv s'"
proof -
  note D = errors_invD [OF E]
  have P: "pending_err s' = pending_err s" if "bl_errch s' = bl_errch s" "bl_workers s' = (bl_workers s)(i := w)" "carried w = carried (bl_workers s i)" for i w
    by (rule pending_same) (use that in auto)
  from assms(2) show ?thesis
  proof cases
    case (received i rest)
    have p: "pending_err s' = pending_err s" by (rule P [of i "Some Running"]) (use received(1) new [OF received(3)] in simp_all)
    show ?thesis using D(1-5) received p unfolding errors_inv_def by auto
  next
    case (reported r rs f)
    note F = shouldFail_first [OF D(1) reported(4)]
    have p: "pending_err s e \<longleftrightarrow> r = Some e \<or> pending_err s' e" for e using reported by (auto simp: pending_err_def)
    have "r = None" if "\<not> bl_canceled s" using F(3) D(4) [OF that] p by (cases r) auto
    then show ?thesis using D(1-5) reported F p unfolding errors_inv_def by auto
  next
    case (failed r rs f)
    then show ?thesis using shouldFail_first [OF D(1) failed(4)] D by (simp add: errors_inv_def)
  next
    case (drained r rs)
    obtain b f where sf: "shouldFail r (bl_failures s) = (b, f)" by fastforce
    note F = shouldFail_first [OF D(1) sf]
    have p: "pending_err s e \<longleftrightarrow> r = Some e \<or> pending_err s' e" for e using drained by (auto simp: pending_err_def)
    have "r = None \<or> 0 < fl_n f" if "\<not> bl_canceled s" using F(3,4) D(4) [OF that] p by (cases r) auto
    then show ?thesis using D(1,3-6) drained sf F(1,2) p unfolding errors_inv_def by fastforce
  next
    case returned
    have "fl_n (bl_failures s) = 0" if "build_error s = None" using that by (auto simp: build_error_def split: if_splits option.splits)
    moreover have "pending_err s' = pending_err s" by (rule pending_same) (use returned in simp_all)
    ultimately show ?thesis using D(1,3-6) returned unfolding errors_inv_def by auto
  next
    case (succeeds i)
    have p: "pending_err s' = pending_err s" by (rule P [of i "Some (Ran None)"]) (use succeeds in simp_all)
    have "bl_at s \<noteq> Returned None" using D(7) succeeds by auto
    then show ?thesis by (intro errors_inv_worker [OF E]) (use succeeds p in \<open>simp_all add: planDone_def\<close>)
  next
    case (fails i e)
    have p: "pending_err s' e' \<longleftrightarrow> e' = e \<or> pending_err s e'" for e'
    proof -
      have "(\<exists>j. carried (((bl_workers s)(i := Some (Ran (Some e)))) j) = Some e') \<longleftrightarrow> e' = e \<or> (\<exists>j. carried (bl_workers s j) = Some e')"
        using fails(2) by (metis carried.simps(1,4) fun_upd_other fun_upd_same option.distinct(1) option.inject)
      then show ?thesis using fails(1) by (simp add: pending_err_def) blast
    qed
    have "bl_at s \<noteq> Returned None" using D(7) fails by auto
    then show ?thesis by (intro errors_inv_worker [OF E]) (use fails p in auto)
  next
    case (released i r)
    have p: "pending_err s' = pending_err s" by (rule P [of i "Some (Released r)"]) (use released in simp_all)
    have "bl_at s \<noteq> Returned None" using D(7) released by auto
    then show ?thesis by (intro errors_inv_worker [OF E]) (use released p in simp_all)
  next
    case (sent i r)
    have "pending_err s' e \<longleftrightarrow> pending_err s e" for e
    proof
      assume "pending_err s' e"
      then have "Some e \<in> set (bl_errch s) \<or> r = Some e \<or> (\<exists>j. j \<noteq> i \<and> carried (bl_workers s j) = Some e)"
        using sent(1) by (auto simp: pending_err_def split: if_splits)
      moreover have "carried (bl_workers s i) = r" using sent(2) by simp
      ultimately show "pending_err s e" unfolding pending_err_def by blast
    next
      assume "pending_err s e"
      then consider "Some e \<in> set (bl_errch s)" | j where "carried (bl_workers s j) = Some e" by (auto simp: pending_err_def)
      then show "pending_err s' e"
      proof cases
        case (2 j)
        then show ?thesis using sent(1,2) by (cases "j = i") (auto simp: pending_err_def intro: exI [of _ j])
      qed (simp add: sent(1) pending_err_def)
    qed
    then have p: "pending_err s' = pending_err s" by (simp add: fun_eq_iff)
    have "bl_at s \<noteq> Returned None" using D(7) sent by auto
    then show ?thesis by (intro errors_inv_worker [OF E]) (use sent p in simp_all)
  next
    case (dropped i r)
    have "bl_at s \<noteq> Returned None" using D(7) dropped by auto
    then show ?thesis by (intro errors_inv_worker [OF E]) (use dropped in simp_all)
  qed (use D in \<open>auto simp: errors_inv_def pending_err_def\<close>)
qed

subsection \<open>Reachable states\<close>

definition owned :: "building \<Rightarrow> bool" where
  "owned s \<longleftrightarrow> (\<forall>i. bl_workers s i \<noteq> None \<longrightarrow> i \<in> rn_active (plan_run s) \<union> rn_finished (plan_run s))"

lemma owned_step:
  assumes "owned s" "build_step g s s'"
  shows "owned s'"
  using assms(2,1) by cases (auto simp: owned_def plan_run_def split: if_splits)

lemma full_step:
  assumes "full (bl_plan s)" "build_step g s s'"
  shows "full (bl_plan s')"
  using assms(2,1) by cases (auto simp: full_received full_planDone)

lemma no_worker:
  assumes inv: "plan_inv g W {} st" and R: "refines g st s" and O: "owned s" and q: "pl_q (bl_plan s) = i # rest"
  shows "bl_workers s i = None"
proof -
  have "run_inv g st (plan_run s)" using run_reach_inv [OF inv] R by (simp add: refines_def)
  then have "i \<notin> rn_active (plan_run s) \<union> rn_finished (plan_run s)"
    using run_invD(2) [of g st "plan_run s"] q by (auto simp: counted_def plan_run_def)
  then show ?thesis using O by (auto simp: owned_def)
qed

lemma build_inv:
  assumes inv: "plan_inv g W {} st" and full: "full st" and "build_reach g limit st s"
  shows "refines g st s \<and> owned s \<and> full (bl_plan s) \<and> slots limit s \<and> errors_inv s"
  using assms(3)
proof induction
  case start
  have "refines g st (build_init limit st)" by (rule build_refines [OF inv build_reach.start])
  moreover have "errors_inv (build_init limit st)" by (simp add: errors_inv_def build_init_def pending_err_def)
  ultimately show ?case using full by (simp add: owned_def slots_def holders_def build_init_def)
next
  case (step s s')
  then have I: "refines g st s" "owned s" "full (bl_plan s)" "slots limit s" "errors_inv s" by blast+
  have new: "bl_workers s i = None" if "pl_q (bl_plan s) = i # rest" for i rest
    by (rule no_worker [OF inv I(1,2) that])
  have "slots limit s'" by (rule slots_step [OF I(4) step.hyps(2)]) (rule new)
  moreover have "errors_inv s'" by (rule errors_inv_step [OF I(5) step.hyps(2)]) (rule new)
  ultimately show ?case
    using refines_step [OF inv I(1) step.hyps(2)] owned_step [OF I(2) step.hyps(2)] full_step [OF I(3) step.hyps(2)] by simp
qed

text \<open>If nothing is queued and no step is active for the plan, every step finished.\<close>

lemma all_finished:
  assumes wf: "wf_graph g" and inv: "plan_inv g W {} st" and R: "refines g st s" and rk: "ranked g rk"
    and idle: "pl_q (bl_plan s) = []" "pl_ready (bl_plan s) = []" "\<And>i. bl_workers s i \<noteq> Some Running" "bl_failed s = {}"
  shows "bl_finished s = {..<length (pl_steps st)}" "pl_steps st \<noteq> [] \<longrightarrow> pl_closed (bl_plan s)"
proof -
  let ?r = "plan_run s"
  have I: "run_inv g st ?r" using run_reach_inv [OF inv] R by (simp add: refines_def)
  have r: "pl_q (rn_plan ?r) = []" "pl_ready (rn_plan ?r) = []" "rn_active ?r = {}" "rn_finished ?r = bl_finished s"
    using idle by (simp_all add: plan_run_def)
  have all: "rn_finished ?r = {..<length (pl_steps st)}"
    using run_progress [OF wf inv I rk] run_finite(2) [OF I] r by blast
  then show "bl_finished s = {..<length (pl_steps st)}" using r by simp
  note D = run_invD [OF I]
  have "{i. i < length (pl_steps st) \<and> unmet g (map sp_def (pl_steps st)) (map ti_source (pl_targets st))
      (produced st (rn_finished ?r)) i \<noteq> 0} = {}"
    using D(2) all r(3) by (auto simp: counted_def)
  then have "pl_npendings (rn_plan ?r) = 0" using D(2) by (simp add: counted_def)
  then have "pl_steps st \<noteq> [] \<longrightarrow> pl_closed (rn_plan ?r)" using D(6) all r by auto
  then show "pl_steps st \<noteq> [] \<longrightarrow> pl_closed (bl_plan s)" by (simp add: plan_run_def)
qed

subsection \<open>Progress\<close>

text \<open>
  What is left to do: a step that was not received, a worker by what it still has to do, a report that
  was not read, and the point that the loop has reached.
\<close>

fun worker_left :: "worker option \<Rightarrow> nat" where
  "worker_left None = 0"
| "worker_left (Some Running) = 5"
| "worker_left (Some (Ran r)) = 4"
| "worker_left (Some (Released r)) = 3"

fun at_left :: "loopAt \<Rightarrow> nat" where
  "at_left AtAcquire = 3"
| "at_left AtSelect = 2"
| "at_left AtDrain = 1"
| "at_left (Returned r) = 0"

definition build_left :: "nat \<Rightarrow> building \<Rightarrow> nat" where
  "build_left n s = 7 * (n - card (rn_active (plan_run s) \<union> rn_finished (plan_run s))) + (\<Sum>i<n. worker_left (bl_workers s i)) +
     2 * length (bl_errch s) + at_left (bl_at s)"

lemma sum_upd:
  fixes h :: "'w \<Rightarrow> nat" and n :: nat
  assumes "i < n"
  shows "(\<Sum>j<n. h ((w(i := x)) j)) + h (w i) = (\<Sum>j<n. h (w j)) + h x"
proof -
  have "(\<Sum>j<n. h ((w(i := x)) j)) = h x + (\<Sum>j \<in> {..<n} - {i}. h (w j))"
    using assms by (subst sum.remove [of _ i]) (auto intro: sum.cong)
  moreover have "(\<Sum>j<n. h (w j)) = h (w i) + (\<Sum>j \<in> {..<n} - {i}. h (w j))"
    using assms by (subst sum.remove [of _ i]) auto
  ultimately show ?thesis by simp
qed

lemma build_left_worker:
  assumes "i < n" "rn_active (plan_run s') \<union> rn_finished (plan_run s') = rn_active (plan_run s) \<union> rn_finished (plan_run s)"
    and "bl_workers s' = (bl_workers s)(i := w)" "bl_at s' = bl_at s"
    and "worker_left w + 2 * length (bl_errch s') < worker_left (bl_workers s i) + 2 * length (bl_errch s)"
  shows "build_left n s' < build_left n s"
  using sum_upd [OF assms(1), of worker_left "bl_workers s" w] assms(2-5) unfolding build_left_def by simp

lemma build_left_step:
  assumes inv: "plan_inv g W {} st" and R: "refines g st s" and O: "owned s" and "build_step g s s'"
  shows "build_left (length (pl_steps st)) s' < build_left (length (pl_steps st)) s \<or> s' = s\<lparr>bl_canceled := True, bl_interrupted := True\<rparr>"
proof -
  let ?n = "length (pl_steps st)" and ?U = "rn_active (plan_run s) \<union> rn_finished (plan_run s)"
  have I: "run_inv g st (plan_run s)" using run_reach_inv [OF inv] R by (simp add: refines_def)
  note F = run_finite(1,2) [OF I]
  have iN: "i < ?n" if "bl_workers s i \<noteq> None" for i using O that F(2) by (auto simp: owned_def)
  from assms(4) show ?thesis
  proof cases
    case (received i rest)
    have i: "i \<notin> ?U" "i < ?n" using run_invD(2) [OF I] received(3) by (auto simp: counted_def plan_run_def)
    have U': "rn_active (plan_run s') \<union> rn_finished (plan_run s') = insert i ?U" using received(1) by (auto simp: plan_run_def)
    have "card (insert i ?U) = Suc (card ?U)" using F(1) i by simp
    moreover have "card (insert i ?U) \<le> ?n" using card_mono [of "{..<?n}" "insert i ?U"] F(2) i by auto
    ultimately have c: "7 * (?n - card (insert i ?U)) + 7 = 7 * (?n - card ?U)" by simp
    have n: "bl_workers s i = None" by (rule no_worker [OF inv R O received(3)])
    have w: "(\<Sum>j<?n. worker_left (bl_workers s' j)) = (\<Sum>j<?n. worker_left (bl_workers s j)) + 5"
      using sum_upd [OF i(2), of worker_left "bl_workers s" "Some Running"] received(1) n by simp
    show ?thesis unfolding build_left_def U' w using c received by simp
  next
    case (succeeds i)
    show ?thesis by (rule disjI1, rule build_left_worker [of i _ _ _ "Some (Ran None)"]) (use succeeds iN in \<open>auto simp: plan_run_def\<close>)
  next
    case (fails i e)
    show ?thesis by (rule disjI1, rule build_left_worker [of i _ _ _ "Some (Ran (Some e))"]) (use fails iN in \<open>auto simp: plan_run_def\<close>)
  next
    case (released i r)
    show ?thesis by (rule disjI1, rule build_left_worker [of i _ _ _ "Some (Released r)"]) (use released iN in \<open>auto simp: plan_run_def\<close>)
  next
    case (sent i r)
    show ?thesis by (rule disjI1, rule build_left_worker [of i _ _ _ None]) (use sent iN in \<open>auto simp: plan_run_def\<close>)
  next
    case (dropped i r)
    show ?thesis by (rule disjI1, rule build_left_worker [of i _ _ _ None]) (use dropped iN in \<open>auto simp: plan_run_def\<close>)
  qed (auto simp: build_left_def plan_run_def)
qed

text \<open>A transition that is not just an interrupt.\<close>

definition moves :: "graph \<Rightarrow> building \<Rightarrow> bool" where
  "moves g s \<longleftrightarrow> (\<exists>s'. build_step g s s' \<and> s' \<noteq> s\<lparr>bl_canceled := True, bl_interrupted := True\<rparr>)"

lemma loop_movesI:
  assumes "build_step g s s'" "bl_at s' \<noteq> bl_at s \<or> bl_errch s' \<noteq> bl_errch s \<or> bl_workers s' \<noteq> bl_workers s"
  shows "moves g s"
proof -
  have "s' \<noteq> s\<lparr>bl_canceled := True, bl_interrupted := True\<rparr>" using assms(2) by auto
  then show ?thesis using assms(1) by (auto simp: moves_def)
qed

text \<open>A worker is never stuck, except when the channel is full.\<close>

lemma worker_moves:
  assumes "bl_workers s i = Some w" "length (bl_errch s) < errch_cap"
  shows "moves g s"
proof (cases w)
  case Running
  show ?thesis by (rule loop_movesI [OF build_step.succeeds [of s i]]) (use assms Running in \<open>auto simp: fun_upd_idem_iff\<close>)
next
  case (Ran r)
  show ?thesis by (rule loop_movesI [OF build_step.released [of s i r]]) (use assms Ran in \<open>auto simp: fun_upd_idem_iff\<close>)
next
  case (Released r)
  show ?thesis by (rule loop_movesI [OF build_step.sent [of s i r]]) (use assms Released in auto)
qed

lemma build_progress:
  assumes wf: "wf_graph g" and rk: "ranked g rk" and inv: "plan_inv g W {} st" and full: "full st" and reach: "build_reach g limit st s"
    and "0 < limit" "pl_steps st \<noteq> []" "\<And>r. bl_at s \<noteq> Returned r"
  shows "moves g s"
proof -
  have I: "refines g st s" "owned s" "full (bl_plan s)" "slots limit s" "errors_inv s"
    using build_inv [OF inv full reach] by blast+
  note D = errors_invD [OF I(5)]
  show ?thesis
  proof (cases "bl_at s")
    case AtAcquire
    show ?thesis
    proof (cases "0 < bl_free s")
      case True
      show ?thesis by (rule loop_movesI [OF build_step.acquired]) (use AtAcquire True in auto)
    next
      case False
      then have "holders s \<noteq> {}" using I(4) AtAcquire assms(6) by (auto simp: slots_def)
      then obtain i where "bl_workers s i = Some Running \<or> (\<exists>r. bl_workers s i = Some (Ran r))" by (auto simp: holders_def)
      then show ?thesis
      proof
        assume "bl_workers s i = Some Running"
        then show ?thesis by (intro loop_movesI [OF build_step.succeeds [of s i]]) (auto simp: fun_upd_idem_iff)
      next
        assume "\<exists>r. bl_workers s i = Some (Ran r)"
        then obtain r where "bl_workers s i = Some (Ran r)" by blast
        then show ?thesis by (intro loop_movesI [OF build_step.released [of s i r]]) (auto simp: fun_upd_idem_iff)
      qed
    qed
  next
    case AtSelect
    show ?thesis
    proof (cases "bl_errch s")
      case (Cons r rs)
      obtain b f where "shouldFail r (bl_failures s) = (b, f)" by fastforce
      then show ?thesis
        using loop_movesI [OF build_step.reported [of s r rs f]] loop_movesI [OF build_step.failed [of s r rs f]] AtSelect Cons by (cases b) auto
    next
      case Nil
      show ?thesis
      proof (cases "\<exists>i w. bl_workers s i = Some w")
        case True
        then show ?thesis using worker_moves Nil by (auto simp: errch_cap_def)
      next
        case no: False
        show ?thesis
        proof (cases "pl_q (bl_plan s)")
          case (Cons i rest)
          show ?thesis by (rule loop_movesI [OF build_step.received [of s i rest]]) (use AtSelect Cons in auto)
        next
          case q: Nil
          show ?thesis
          proof (cases "bl_canceled s")
            case True
            show ?thesis by (rule loop_movesI [OF build_step.canceled]) (use AtSelect True in auto)
          next
            case False
            have "\<not> pending_err s e" for e using no Nil by (auto simp: pending_err_def elim: carried.elims)
            then have nf: "bl_failed s = {}" using D(2) D(5) [OF False] AtSelect by fastforce
            have "pl_ready (bl_plan s) = []" using I(3) q by (auto simp: full_def)
            then have "pl_closed (bl_plan s)" using all_finished(2) [OF wf inv I(1) rk q _ _ nf] no assms(7) by auto
            then show ?thesis by (intro loop_movesI [OF build_step.closed]) (use AtSelect q in auto)
          qed
        qed
      qed
    qed
  next
    case AtDrain
    show ?thesis
    proof (cases "bl_errch s")
      case (Cons r rs)
      show ?thesis by (rule loop_movesI [OF build_step.drained [of s r rs]]) (use AtDrain Cons in auto)
    next
      case Nil
      show ?thesis
      proof (cases "\<exists>i w. bl_workers s i = Some w")
        case True
        then show ?thesis using worker_moves Nil by (auto simp: errch_cap_def)
      next
        case False
        then have "bl_workers s = (\<lambda>_. None)" by auto
        then show ?thesis by (intro loop_movesI [OF build_step.returned]) (use AtDrain Nil in auto)
      qed
    qed
  qed (use assms(8) in blast)
qed

section \<open>Properties\<close>

text \<open>
  C5: The build loop is a run of the plan: in every state that it can reach, with any interleaving of
  the workers, the plan, the steps that run or failed, and the steps that succeeded are a state of
  such a run. A step that failed is never told to the plan. So a step runs only after the steps that
  generate its inputs succeeded.
\<close>

theorem build_refines_plan:
  assumes "wf_graph g" "schedule g ctxDone targets (newScheduler (g_numTargets g)) = (st, None)" "build_reach g limit st s"
  shows "run_reach g st (plan_run s) \<and>
    (bl_workers s i = Some Running \<longrightarrow> t \<in> set (step_ins g (sp_def (pl_steps st ! i))) \<longrightarrow>
      ti_source (pl_targets st ! t) \<or> (\<exists>j \<in> bl_finished s. t \<in> set (sp_outputs (pl_steps st ! j))))"
proof -
  have inv: "plan_inv g (\<lambda>_. []) {} st" by (rule schedule_kept(1) [OF assms(1,2)])
  have r: "run_reach g st (plan_run s)" using build_refines [OF inv assms(3)] by (simp add: refines_def)
  have "i \<in> started (plan_run s)" if "bl_workers s i = Some Running" using that by (simp add: started_def plan_run_def)
  then show ?thesis using r started_inputs [OF inv run_reach_inv [OF inv r]] by (auto simp: plan_run_def)
qed

text \<open>
  At most as many steps run at a time as the limit of the step semaphore allows, and every slot is
  accounted for.
\<close>

theorem build_within_limit:
  assumes "wf_graph g" "schedule g ctxDone targets (newScheduler (g_numTargets g)) = (st, None)" "build_reach g limit st s"
  shows "card {i. bl_workers s i = Some Running} \<le> limit \<and>
    bl_free s + card (holders s) + (if bl_at s = AtSelect then 1 else 0) = limit"
proof -
  have inv: "plan_inv g (\<lambda>_. []) {} st" by (rule schedule_kept(1) [OF assms(1,2)])
  have S: "slots limit s" using build_inv [OF inv full_schedule [OF assms(2)] assms(3)] by blast
  have "{i. bl_workers s i = Some Running} \<subseteq> holders s" by (auto simp: holders_def)
  then have "card {i. bl_workers s i = Some Running} \<le> card (holders s)"
    using S finite_holders by (simp add: card_mono slots_def)
  then show ?thesis using S unfolding slots_def by linarith
qed

text \<open>
  C6: On a graph without a cycle, with a positive limit and at least one step, the build returns. As long
  as it has not returned some transition is possible that is not just an interrupt, and every such
  transition decreases \<open>build_left\<close>: there is no deadlock between the loop, the workers, the semaphore and
  the channels, and no endless run. It is assumed that every \<open>runStep\<close> returns. (With a cycle through
  sibling outputs, which \<open>schedule\<close> accepts, the loop hangs.)
\<close>

theorem build_returns:
  assumes "wf_graph g" "ranked g rk" "schedule g ctxDone targets (newScheduler (g_numTargets g)) = (st, None)"
    and "pl_steps st \<noteq> []" "0 < limit" "build_reach g limit st s"
  shows "((\<exists>r. bl_at s = Returned r) \<or> (\<exists>s'. build_step g s s' \<and> build_left (length (pl_steps st)) s' < build_left (length (pl_steps st)) s)) \<and>
    (\<forall>s'. build_step g s s' \<longrightarrow> build_left (length (pl_steps st)) s' < build_left (length (pl_steps st)) s \<or>
      s' = s\<lparr>bl_canceled := True, bl_interrupted := True\<rparr>)"
proof -
  have inv: "plan_inv g (\<lambda>_. []) {} st" by (rule schedule_kept(1) [OF assms(1,3)])
  note full = full_schedule [OF assms(3)]
  have I: "refines g st s" "owned s" using build_inv [OF inv full assms(6)] by blast+
  note left = build_left_step [OF inv I]
  have "moves g s" if "\<nexists>r. bl_at s = Returned r"
    by (rule build_progress [OF assms(1,2) inv full assms(6,5,4)]) (use that in blast)
  then show ?thesis using left unfolding moves_def by blast
qed

text \<open>
  C4: Success means that everything was built: if the build returns without an error and was not
  interrupted, \<open>runStep\<close> returned without an error for every step of the plan.
\<close>

theorem build_success:
  assumes "wf_graph g" "ranked g rk" "schedule g ctxDone targets (newScheduler (g_numTargets g)) = (st, None)"
    and "build_reach g limit st s" "bl_at s = Returned None" "\<not> bl_interrupted s"
  shows "bl_finished s = {..<length (pl_steps st)} \<and> bl_failed s = {}"
proof -
  have inv: "plan_inv g (\<lambda>_. []) {} st" by (rule schedule_kept(1) [OF assms(1,3)])
  have I: "refines g st s" "full (bl_plan s)" "errors_inv s" using build_inv [OF inv full_schedule [OF assms(3)] assms(4)] by blast+
  note D = errors_invD [OF I(3)]
  have ret: "fl_n (bl_failures s) = 0" "bl_workers s = (\<lambda>_. None)" "bl_errch s = []" "pl_q (bl_plan s) = []" using D(7) [OF assms(5)] by blast+
  have "\<not> bl_canceled s" using D(3) assms(6) ret(1) by auto
  moreover have "\<not> pending_err s e" for e using ret by (simp add: pending_err_def)
  ultimately have nf: "bl_failed s = {}" using D(5) ret(1) by fastforce
  have "pl_ready (bl_plan s) = []" using I(2) ret(4) by (auto simp: full_def)
  then show ?thesis using all_finished(1) [OF assms(1) inv I(1) assms(2) ret(4) _ _ nf] nf ret(2) by simp
qed

section \<open>Runs of a small build\<close>

text \<open>Two steps without inputs.\<close>

definition two_graph :: graph where
  "two_graph = list_graph
     [\<lparr>be_name = ''a'', be_inputs = [], be_orderOnly = [], be_outputs = [1], be_validations = [], be_phony = False, be_phonyOutput = False\<rparr>,
      \<lparr>be_name = ''b'', be_inputs = [], be_orderOnly = [], be_outputs = [2], be_validations = [], be_phony = False, be_phonyOutput = False\<rparr>]
     [None, Some 0, Some 1]"

definition two_target :: targetInfo where
  "two_target = \<lparr>ti_scan = scanStateDone, ti_waits = [], ti_source = False, ti_output = True, ti_phonyOutput = False\<rparr>"

definition two_plan :: scheduler where
  "two_plan =
     \<lparr>pl_closed = False, pl_q = [0, 1], pl_cap = 10000, pl_ready = [], pl_targets = [emptyTarget, two_target, two_target], pl_npendings = 0,
      pl_steps = [\<lparr>sp_def = 0, sp_nwaits = 0, sp_outputs = [1], sp_prevStepID = [], sp_prevStepOut = 0\<rparr>,
        \<lparr>sp_def = 1, sp_nwaits = 0, sp_outputs = [2], sp_prevStepID = [], sp_prevStepOut = 0\<rparr>],
      sc_total = 2, sc_visited = 2, sc_edges = [0, 1], sc_validations = [], sc_phony = []\<rparr>"

lemmas two_simps = two_graph_def list_graph_def

lemma two_wf: "wf_graph two_graph"
  by (simp add: two_simps wf_graph_def wf_edge_def step_ins_def lookupNode_def)

lemma two_ranked: "ranked two_graph (\<lambda>e. e)"
  by (simp add: two_simps ranked_def step_ins_def)

lemma two_schedule: "schedule two_graph (\<lambda>_. False) [1, 2] (newScheduler (g_numTargets two_graph)) = (two_plan, None)"
  by (simp add: two_simps two_plan_def two_target_def schedule_simps)

text \<open>Both steps are received; the first one succeeds, which closes the queue, and the loop ends.\<close>

abbreviation two_state :: "scheduler \<Rightarrow> (nat \<Rightarrow> worker option) \<Rightarrow> nat \<Rightarrow> error option list \<Rightarrow> loopAt \<Rightarrow> nat set \<Rightarrow> building" where
  "two_state p ws free ch at fin \<equiv>
     \<lparr>bl_plan = p, bl_workers = ws, bl_free = free, bl_errch = ch, bl_failures = \<lparr>fl_allowed = 1, fl_n = 0, fl_firstErr = None\<rparr>,
      bl_canceled = False, bl_interrupted = False, bl_saw = False, bl_at = at, bl_finished = fin, bl_failed = {}\<rparr>"

definition two_closed :: scheduler where
  "two_closed = two_plan\<lparr>pl_q := [], pl_closed := True\<rparr>"

lemma two_drain: "build_reach two_graph 2 two_plan (two_state two_closed [1 \<mapsto> Running] 1 [] AtDrain {0})"
proof -
  have push: "pushReady (two_plan\<lparr>pl_q := xs\<rparr>) = two_plan\<lparr>pl_q := xs\<rparr>" for xs by (simp add: pushReady_def two_plan_def)
  have done0: "planDone two_graph 0 (two_plan\<lparr>pl_q := []\<rparr>) = two_closed"
    by (simp add: two_closed_def two_plan_def two_target_def two_simps run_simps)
  have q: "pl_q two_plan = [0, 1]" by (simp add: two_plan_def)
  have r0: "build_reach two_graph 2 two_plan (two_state two_plan Map.empty 2 [] AtAcquire {})"
    using build_reach.start [of two_graph 2 two_plan] by (simp add: build_init_def)
  have r1: "build_reach two_graph 2 two_plan (two_state two_plan Map.empty 1 [] AtSelect {})"
    using build_reach.step [OF r0 build_step.acquired] by simp
  have r2: "build_reach two_graph 2 two_plan (two_state (two_plan\<lparr>pl_q := [1]\<rparr>) [0 \<mapsto> Running] 1 [] AtAcquire {})"
    using build_reach.step [OF r1 build_step.received [of _ 0 "[1]"]] by (simp add: q push)
  have r3: "build_reach two_graph 2 two_plan (two_state (two_plan\<lparr>pl_q := [1]\<rparr>) [0 \<mapsto> Running] 0 [] AtSelect {})"
    using build_reach.step [OF r2 build_step.acquired] by simp
  have r4: "build_reach two_graph 2 two_plan (two_state (two_plan\<lparr>pl_q := []\<rparr>) [0 \<mapsto> Running, 1 \<mapsto> Running] 0 [] AtAcquire {})"
    using build_reach.step [OF r3 build_step.received [of _ 1 "[]"]] by (simp add: push)
  have r5: "build_reach two_graph 2 two_plan (two_state two_closed [0 \<mapsto> Ran None, 1 \<mapsto> Running] 0 [] AtAcquire {0})"
    using build_reach.step [OF r4 build_step.succeeds [of _ 0]] by (simp add: done0 fun_upd_twist)
  have r6: "build_reach two_graph 2 two_plan (two_state two_closed [0 \<mapsto> Released None, 1 \<mapsto> Running] 1 [] AtAcquire {0})"
    using build_reach.step [OF r5 build_step.released [of _ 0 None]] by (simp add: fun_upd_twist)
  have r7: "build_reach two_graph 2 two_plan (two_state two_closed [0 \<mapsto> Released None, 1 \<mapsto> Running] 0 [] AtSelect {0})"
    using build_reach.step [OF r6 build_step.acquired] by simp
  have r8: "build_reach two_graph 2 two_plan (two_state two_closed [0 \<mapsto> Released None, 1 \<mapsto> Running] 1 [] AtDrain {0})"
    using build_reach.step [OF r7 build_step.closed] by (simp add: two_closed_def)
  have r9: "build_reach two_graph 2 two_plan (two_state two_closed [1 \<mapsto> Running] 1 [None] AtDrain {0})"
    using build_reach.step [OF r8 build_step.sent [of _ 0 None]] by (simp add: errch_cap_def fun_upd_twist fun_upd_idem)
  show ?thesis
    using build_reach.step [OF r9 build_step.drained [of _ None "[]"]] by (simp add: shouldFail_def saw_cancel_def)
qed

lemma two_success: "\<exists>s. build_reach two_graph 2 two_plan s \<and> bl_at s = Returned None \<and> \<not> bl_interrupted s"
proof -
  have "planDone two_graph 1 two_closed = two_closed" by (simp add: planDone_def two_closed_def)
  then have r1: "build_reach two_graph 2 two_plan (two_state two_closed [1 \<mapsto> Ran None] 1 [] AtDrain {0, 1})"
    using build_reach.step [OF two_drain build_step.succeeds [of _ 1]] by (simp add: insert_commute)
  have r2: "build_reach two_graph 2 two_plan (two_state two_closed [1 \<mapsto> Released None] 2 [] AtDrain {0, 1})"
    using build_reach.step [OF r1 build_step.released [of _ 1 None]] by (simp add: numeral_2_eq_2)
  have r3: "build_reach two_graph 2 two_plan (two_state two_closed Map.empty 2 [None] AtDrain {0, 1})"
    using build_reach.step [OF r2 build_step.sent [of _ 1 None]] by (simp add: errch_cap_def fun_upd_idem)
  have r4: "build_reach two_graph 2 two_plan (two_state two_closed Map.empty 2 [] AtDrain {0, 1})"
    using build_reach.step [OF r3 build_step.drained [of _ None "[]"]] by (simp add: shouldFail_def saw_cancel_def)
  have r5: "build_reach two_graph 2 two_plan (two_state two_closed Map.empty 2 [] (Returned None) {0, 1})"
    using build_reach.step [OF r4 build_step.returned] by (simp add: build_error_def)
  show ?thesis by (rule exI, rule conjI [OF r5]) simp
qed

lemma two_steps: "length (pl_steps two_plan) = 2" "pl_steps two_plan \<noteq> []"
  by (simp_all add: two_plan_def)

theorem build_refines_plan_witness: "run_reach two_graph two_plan (plan_run (build_init 2 two_plan))"
  using build_refines_plan [OF two_wf two_schedule build_reach.start] by blast

theorem build_within_limit_witness: "\<exists>s :: building. bl_workers s 1 = Some Running \<and> card {i. bl_workers s i = Some Running} \<le> 2"
  using build_within_limit [OF two_wf two_schedule two_drain] by (intro exI [of _ "two_state two_closed [1 \<mapsto> Running] 1 [] AtDrain {0}"]) simp

theorem build_returns_witness: "\<exists>s'. build_step two_graph (build_init 2 two_plan) s' \<and> build_left 2 s' < build_left 2 (build_init 2 two_plan)"
proof -
  have "\<nexists>r. bl_at (build_init 2 two_plan) = Returned r" by (simp add: build_init_def)
  then show ?thesis
    using build_returns [OF two_wf two_ranked two_schedule two_steps(2) _ build_reach.start, of 2] two_steps(1) by simp
qed

theorem build_success_witness: "\<exists>s :: building. bl_at s = Returned None \<and> bl_finished s = {..<2}"
proof -
  obtain s where s: "build_reach two_graph 2 two_plan s" "bl_at s = Returned None" "\<not> bl_interrupted s" using two_success by blast
  from build_success [OF two_wf two_ranked two_schedule s] show ?thesis using s(2) two_steps(1) by auto
qed

section \<open>A lost interrupt\<close>

text \<open>When the context is done, a worker may end without a trace: its step is canceled, and its result is dropped.\<close>

lemma reach_steps: "(build_step g)\<^sup>*\<^sup>* s s' \<Longrightarrow> build_reach g limit st s \<Longrightarrow> build_reach g limit st s'"
  by (induction rule: rtranclp_induct) (auto intro: build_reach.step)

definition ended :: "nat \<Rightarrow> building \<Rightarrow> building" where
  "ended i s = s\<lparr>bl_workers := (bl_workers s)(i := None),
     bl_free := (case bl_workers s i of Some (Released _) \<Rightarrow> bl_free s | _ \<Rightarrow> bl_free s + 1),
     bl_failed := (if bl_workers s i = Some Running then insert i (bl_failed s) else bl_failed s)\<rparr>"

lemma worker_dropped:
  assumes "bl_canceled s" "bl_workers s i = Some (Released r)"
  shows "(build_step g)\<^sup>*\<^sup>* s (ended i s)"
  using build_step.dropped [of s i r g] assms by (auto simp: ended_def)

lemma worker_releases:
  assumes "bl_canceled s" "bl_workers s i = Some (Ran r)"
  shows "(build_step g)\<^sup>*\<^sup>* s (ended i s)"
proof -
  let ?t = "s\<lparr>bl_workers := (bl_workers s)(i := Some (Released r)), bl_free := bl_free s + 1\<rparr>"
  have "build_step g s ?t" by (rule build_step.released [OF assms(2)])
  moreover have "(build_step g)\<^sup>*\<^sup>* ?t (ended i ?t)" by (rule worker_dropped) (use assms in simp_all)
  moreover have "ended i ?t = ended i s" using assms(2) by (simp add: ended_def)
  ultimately show ?thesis by (metis converse_rtranclp_into_rtranclp)
qed

lemma worker_ends:
  assumes "bl_canceled s" "bl_workers s i = Some x"
  shows "(build_step g)\<^sup>*\<^sup>* s (ended i s)"
proof (cases x)
  case Running
  let ?t = "s\<lparr>bl_workers := (bl_workers s)(i := Some (Ran (Some Canceled))), bl_failed := insert i (bl_failed s)\<rparr>"
  have "build_step g s ?t" using build_step.fails [of s i Canceled g] assms Running by simp
  moreover have "(build_step g)\<^sup>*\<^sup>* ?t (ended i ?t)" by (rule worker_releases) (use assms in simp_all)
  moreover have "ended i ?t = ended i s" using assms(2) Running by (simp add: ended_def)
  ultimately show ?thesis by (metis converse_rtranclp_into_rtranclp)
qed (use worker_releases worker_dropped assms in auto)

lemma workers_end:
  assumes "finite (dom (bl_workers s))" "bl_canceled s"
  shows "\<exists>free. (build_step g)\<^sup>*\<^sup>* s (s\<lparr>bl_workers := \<lambda>_. None, bl_free := free, bl_failed := bl_failed s \<union> {i. bl_workers s i = Some Running}\<rparr>)"
  using assms
proof (induction "card (dom (bl_workers s))" arbitrary: s)
  case 0
  then have "bl_workers s = (\<lambda>_. None)" by (simp add: dom_eq_empty_conv)
  then have "s\<lparr>bl_workers := \<lambda>_. None, bl_free := bl_free s, bl_failed := bl_failed s \<union> {i. bl_workers s i = Some Running}\<rparr> = s" by simp
  then show ?case by (metis rtranclp.rtrancl_refl)
next
  case (Suc n)
  obtain i x where i: "bl_workers s i = Some x" using Suc.hyps(2) by (metis card.empty dom_eq_empty_conv nat.distinct(1) not_None_eq)
  have dom: "dom (bl_workers (ended i s)) = dom (bl_workers s) - {i}" by (simp add: ended_def)
  then have "n = card (dom (bl_workers (ended i s)))" using Suc.hyps(2) i Suc.prems(1) by (simp add: card_Diff_singleton domI)
  then obtain free where "(build_step g)\<^sup>*\<^sup>* (ended i s) ((ended i s)\<lparr>bl_workers := \<lambda>_. None, bl_free := free,
      bl_failed := bl_failed (ended i s) \<union> {k. bl_workers (ended i s) k = Some Running}\<rparr>)"
    using Suc.hyps(1) [of "ended i s"] Suc.prems dom by (auto simp: ended_def)
  moreover have "bl_failed (ended i s) \<union> {k. bl_workers (ended i s) k = Some Running} = bl_failed s \<union> {k. bl_workers s k = Some Running}"
    by (auto simp: ended_def)
  ultimately have "(build_step g)\<^sup>*\<^sup>* s (s\<lparr>bl_workers := \<lambda>_. None, bl_free := free, bl_failed := bl_failed s \<union> {i. bl_workers s i = Some Running}\<rparr>)"
    using rtranclp_trans [OF worker_ends [OF Suc.prems(2) i]] by (simp add: ended_def)
  then show ?case by blast
qed

lemma nil_reports_drained:
  assumes "bl_at s = AtDrain" "set (bl_errch s) \<subseteq> {None}"
  shows "(build_step g)\<^sup>*\<^sup>* s (s\<lparr>bl_errch := []\<rparr>)"
  using assms
proof (induction "bl_errch s" arbitrary: s)
  case Nil
  then have "s\<lparr>bl_errch := []\<rparr> = s" by simp
  then show ?case by (metis rtranclp.rtrancl_refl)
next
  case (Cons r rs)
  have r: "bl_errch s = None # rs" using Cons.prems(2) Cons.hyps(2) [symmetric] by simp
  have "build_step g s (s\<lparr>bl_errch := rs\<rparr>)"
    using build_step.drained [OF Cons.prems(1) r] by (simp add: shouldFail_def saw_cancel_def)
  moreover have "(build_step g)\<^sup>*\<^sup>* (s\<lparr>bl_errch := rs\<rparr>) (s\<lparr>bl_errch := []\<rparr>)"
    using Cons.hyps(1) [of "s\<lparr>bl_errch := rs\<rparr>"] Cons.prems r by simp
  ultimately show ?case by (rule converse_rtranclp_into_rtranclp)
qed

text \<open>
  C38: An interrupt may be lost. In every build in which the loop has ended without a failure so far,
  while steps still run, an interrupt can be followed by a run in which the workers of these steps, which
  are canceled, drop their results: the build returns without an error, although it was interrupted and
  the steps that were running have failed and none of them finished.
\<close>

theorem interrupted_build_succeeds:
  assumes "wf_graph g" "schedule g ctxDone targets (newScheduler (g_numTargets g)) = (st, None)"
    and "build_reach g limit st s" "bl_at s = AtDrain" "fl_n (bl_failures s) = 0" "\<not> bl_saw s" "set (bl_errch s) \<subseteq> {None}"
    and "bl_workers s i = Some Running"
  shows "\<exists>s'. (build_step g)\<^sup>*\<^sup>* (s\<lparr>bl_canceled := True, bl_interrupted := True\<rparr>) s' \<and> build_reach g limit st s' \<and>
    bl_interrupted s' \<and> bl_at s' = Returned None \<and> i \<in> bl_failed s' \<and> i \<notin> bl_finished s'"
proof -
  have inv: "plan_inv g (\<lambda>_. []) {} st" by (rule schedule_kept(1) [OF assms(1,2)])
  have I: "refines g st s" "slots limit s" using build_inv [OF inv full_schedule [OF assms(2)] assms(3)] by blast+
  have r: "run_reach g st (plan_run s)" using I(1) by (simp add: refines_def)
  have "i \<in> rn_active (plan_run s)" using assms(8) by (simp add: plan_run_def)
  then have fin: "i \<notin> bl_finished s" using run_invD(4) [OF run_reach_inv [OF inv r]] by (auto simp: plan_run_def)
  let ?s1 = "s\<lparr>bl_canceled := True, bl_interrupted := True\<rparr>"
  obtain free where w: "(build_step g)\<^sup>*\<^sup>* ?s1 (?s1\<lparr>bl_workers := \<lambda>_. None, bl_free := free, bl_failed := bl_failed s \<union> {i. bl_workers s i = Some Running}\<rparr>)"
    using workers_end [of ?s1 g] I(2) by (auto simp: slots_def)
  let ?s2 = "?s1\<lparr>bl_workers := \<lambda>_. None, bl_free := free, bl_failed := bl_failed s \<union> {i. bl_workers s i = Some Running}\<rparr>"
  have d: "(build_step g)\<^sup>*\<^sup>* ?s2 (?s2\<lparr>bl_errch := []\<rparr>)" by (rule nil_reports_drained) (use assms(4,7) in simp_all)
  let ?s3 = "?s2\<lparr>bl_errch := [], bl_at := Returned None\<rparr>"
  have "build_step g (?s2\<lparr>bl_errch := []\<rparr>) ?s3"
    using build_step.returned [of "?s2\<lparr>bl_errch := []\<rparr>" g] assms(4,5,6) by (simp add: build_error_def)
  then have all: "(build_step g)\<^sup>*\<^sup>* ?s1 ?s3" using w d by (meson rtranclp.rtrancl_into_rtrancl rtranclp_trans)
  have "build_reach g limit st ?s3"
    by (rule reach_steps [OF all build_reach.step [OF assms(3) build_step.interrupted]])
  then show ?thesis using all assms(8) fin by (intro exI [of _ ?s3]) simp
qed

theorem interrupted_build_succeeds_witness:
  "\<exists>s'. build_reach two_graph 2 two_plan s' \<and> bl_interrupted s' \<and> bl_at s' = Returned None \<and> 1 \<in> bl_failed s' \<and> 1 \<notin> bl_finished s'"
  using interrupted_build_succeeds [OF two_wf two_schedule two_drain, of 1] by auto

section \<open>Output directories\<close>

text \<open>A directory of an output is dropped only if it is the parent of another one, or of itself.\<close>

lemma delete_parents_dropped:
  assumes "dir \<in> D" "set seen \<subseteq> D"
  shows "set (delete_parents dir seen) \<subseteq> set seen \<and> (\<forall>d \<in> set seen - set (delete_parents dir seen). \<exists>c \<in> D. fp_dir c = d)"
  using assms
proof (induction dir seen rule: delete_parents.induct)
  case (1 dir seen)
  show ?case
  proof (cases "fp_dir dir \<in> set seen")
    case True
    let ?p = "fp_dir dir" and ?seen = "removeAll (fp_dir dir) seen"
    have IH: "set (delete_parents ?p ?seen) \<subseteq> set ?seen"
      "\<forall>d \<in> set ?seen - set (delete_parents ?p ?seen). \<exists>c \<in> D. fp_dir c = d"
      using 1(1) [OF refl _ subsetD [OF 1(3) True]] True 1(3) by auto
    have eq: "delete_parents dir seen = delete_parents ?p ?seen" using True by (subst delete_parents.simps) (simp add: Let_def)
    show ?thesis unfolding eq using IH 1(2) by auto
  next
    case False
    then show ?thesis by (subst (1 2) delete_parents.simps) (simp add: Let_def)
  qed
qed

lemma outdirs_dropped:
  assumes "p \<in> set paths" "fp_dir p \<notin> set (prepareAllOutDirs paths)"
  shows "\<exists>q \<in> set paths. fp_dir (fp_dir q) = fp_dir p"
proof -
  define D where "D = fp_dir ` set paths"
  have fold: "set (fold delete_parents ds seen) \<subseteq> set seen \<and> (\<forall>d \<in> set seen - set (fold delete_parents ds seen). \<exists>c \<in> D. fp_dir c = d)"
    if "set ds \<subseteq> D" "set seen \<subseteq> D" for ds seen
    using that
  proof (induction ds arbitrary: seen)
    case (Cons d ds)
    have one: "set (delete_parents d seen) \<subseteq> set seen" "\<forall>d' \<in> set seen - set (delete_parents d seen). \<exists>c \<in> D. fp_dir c = d'"
      using delete_parents_dropped [of d D seen] Cons.prems by simp_all
    have "set (delete_parents d seen) \<subseteq> D" using one(1) Cons.prems(2) by blast
    note rest = Cons.IH [OF _ this]
    show ?case using rest one Cons.prems(1) by simp blast
  qed simp
  let ?ds = "sort (remdups (map fp_dir paths))" and ?seen = "remdups (map fp_dir paths)"
  have "set ?ds \<subseteq> D" "set ?seen \<subseteq> D" by (simp_all add: D_def)
  note dropped = conjunct2 [OF fold [OF this]]
  have "fp_dir p \<in> set ?seen - set (fold delete_parents ?ds ?seen)"
    using assms by (simp add: prepareAllOutDirs_def Let_def)
  from bspec [OF dropped this] show ?thesis by (simp add: D_def)
qed

end
