(* ===== verification/Hash_Dir.thy ===== *)
theory Hash_Dir
  imports Command
begin

text \<open>
  The directory tree of the hash file system (the types \<open>entry\<close> and \<open>directory\<close> of
  \<open>hashfs/fs.go\<close>). An entry belongs to one directory, so that the tree is a value; a directory is
  named by the keys that lead to it. The code calls these operations from several goroutines; the
  model is their sequential meaning, in which the compare-and-swap of \<open>storeEntry\<close> succeeds. The
  local disk is asked through the record \<open>os\<close>. Times are numbers and 0 is the zero time; the mode of
  a file is the record \<open>mode\<close> of \<open>Command\<close>.
\<close>

unbundle bit_operations_syntax

section \<open>Entries\<close>

datatype fsErr = ErrNotExist | ErrExist | ErrCanceled | ErrStatusNotFound | ErrOther bytes

datatype source = NoSource | FileSource bytes | BytesSource bytes | DataSource digest bytes

text \<open>\<open>he_need\<close> is the value that the channel \<open>lready\<close> yields: true if the file has to be written first.\<close>

record einfo =
  ei_need :: bool
  ei_err :: "fsErr option"
  ei_size :: nat
  ei_mode :: mode
  ei_cmdhash :: bytes
  ei_action :: digest
  ei_isChanged :: bool
  ei_target :: bytes
  ei_src :: source
  ei_buf :: bytes
  ei_mtime :: nat
  ei_mtimeUpdated :: bool
  ei_updatedTime :: nat
  ei_d :: digest

datatype hentry = HEntry (he_info: einfo) (he_dir: "hdir option")
  and hdir = HDir (hd_mtime: nat) (hd_m: "(bytes \<times> hentry) list")

definition zero_info :: einfo where
  "zero_info = \<lparr>ei_need = True, ei_err = None, ei_size = 0, ei_mode = \<lparr>md_perm = 0, md_dir = False, md_symlink = False\<rparr>, ei_cmdhash = [],
     ei_action = zero_digest, ei_isChanged = False, ei_target = [], ei_src = NoSource, ei_buf = [], ei_mtime = 0,
     ei_mtimeUpdated = False, ei_updatedTime = 0, ei_d = zero_digest\<rparr>"

definition upd_info :: "(einfo \<Rightarrow> einfo) \<Rightarrow> hentry \<Rightarrow> hentry" where
  "upd_info f e = HEntry (f (he_info e)) (he_dir e)"

definition newLocalEntry :: hentry where
  "newLocalEntry = HEntry (zero_info\<lparr>ei_need := False\<rparr>) None"

definition empty_dir :: hdir where
  "empty_dir = HDir 0 []"

definition reg_mode :: mode where
  "reg_mode = \<lparr>md_perm = 420, md_dir = False, md_symlink = False\<rparr>"

subsection \<open>The local disk\<close>

datatype ftype = FDir | FSymlink | FRegular | FOther

record osInfo =
  oi_type :: ftype
  oi_perm :: nat
  oi_size :: nat
  oi_mtime :: nat
  oi_hardlink :: bool

text \<open>The functions of the package \<open>os\<close> on a disk.\<close>

record 'w os =
  os_now :: "'w \<Rightarrow> nat"
  os_lstat :: "bytes \<Rightarrow> 'w \<Rightarrow> fsErr + osInfo"
  os_readlink :: "bytes \<Rightarrow> 'w \<Rightarrow> fsErr + bytes"
  os_readdirnames :: "bytes \<Rightarrow> 'w \<Rightarrow> fsErr + bytes list"
  os_readFile :: "bytes \<Rightarrow> 'w \<Rightarrow> fsErr + bytes"
  os_remove :: "bytes \<Rightarrow> 'w \<Rightarrow> fsErr option \<times> 'w"
  os_removeAll :: "bytes \<Rightarrow> 'w \<Rightarrow> fsErr option \<times> 'w"
  os_mkdirAll :: "bytes \<Rightarrow> 'w \<Rightarrow> fsErr option \<times> 'w"
  os_chtimes :: "bytes \<Rightarrow> nat \<Rightarrow> 'w \<Rightarrow> fsErr option \<times> 'w"
  os_chmod :: "bytes \<Rightarrow> nat \<Rightarrow> 'w \<Rightarrow> fsErr option \<times> 'w"
  os_symlink :: "bytes \<Rightarrow> bytes \<Rightarrow> 'w \<Rightarrow> fsErr option \<times> 'w"
  os_writeFile :: "bytes \<Rightarrow> bytes \<Rightarrow> nat \<Rightarrow> 'w \<Rightarrow> fsErr option \<times> 'w"
  os_rename :: "bytes \<Rightarrow> bytes \<Rightarrow> 'w \<Rightarrow> fsErr option \<times> 'w"

definition isExecutable :: "osInfo \<Rightarrow> bytes \<Rightarrow> bytes list \<Rightarrow> bool" where
  "isExecutable fi fname executables \<longleftrightarrow> (oi_perm fi AND 73) \<noteq> 0 \<or> fname \<in> set executables"

definition set_err :: "fsErr \<Rightarrow> hentry \<Rightarrow> hentry" where
  "set_err err e = upd_info (\<lambda>i. i\<lparr>ei_err := Some err\<rparr>) e"

definition entry_init :: "'w os \<Rightarrow> 'w \<Rightarrow> bytes \<Rightarrow> bytes list \<Rightarrow> hentry \<Rightarrow> hentry" where
  "entry_init os w fname executables e =
     (case os_lstat os fname w of
        Inl err \<Rightarrow> set_err err e
      | Inr fi \<Rightarrow>
          if oi_mtime fi > os_now os w then set_err (ErrOther ''future timestamp'') e
          else
            let stamp = (\<lambda>e. upd_info (\<lambda>i.
                  let m = max (ei_mtime i) (oi_mtime fi) in i\<lparr>ei_mtime := m, ei_updatedTime := max (ei_updatedTime i) m\<rparr>) e) in
            case oi_type fi of
              FDir \<Rightarrow> stamp (HEntry ((he_info e)\<lparr>ei_mode := reg_mode\<lparr>md_dir := True\<rparr>\<rparr>) (Some empty_dir))
            | FSymlink \<Rightarrow>
                let e1 = upd_info (\<lambda>i. i\<lparr>ei_mode := reg_mode\<lparr>md_symlink := True\<rparr>\<rparr>) e in
                (case os_readlink os fname w of
                   Inl err \<Rightarrow> stamp (set_err err e1)
                 | Inr target \<Rightarrow> stamp (upd_info (\<lambda>i. i\<lparr>ei_target := target\<rparr>) e1))
            | FRegular \<Rightarrow>
                stamp (upd_info (\<lambda>i. i\<lparr>ei_mode := reg_mode\<lparr>md_perm := (if isExecutable fi fname executables then 493 else 420)\<rparr>,
                  ei_size := oi_size fi, ei_src := FileSource fname\<rparr>) e)
            | FOther \<Rightarrow> set_err (ErrOther ''unexpected filetype'') e)"

section \<open>Lookup\<close>

text \<open>
  The name that a symlink to \<open>target\<close> resolves to: \<open>elems\<close> are the elements before the link, with a
  leading slash if the name has one, and \<open>rest\<close> is what follows it.
\<close>

definition resolve_link :: "bytes list \<Rightarrow> bytes \<Rightarrow> bytes \<Rightarrow> bytes" where
  "resolve_link elems target rest =
     (if isAbs target then fp_join [target, rest] else fp_join (elems @ [target, rest]))"

text \<open>
  Results of a lookup: an entry, no entry in the directory with the given keys, another name to look
  up, or nothing. An entry comes with the keys that lead to it.
\<close>

datatype look = Found hentry "bytes list" | Missing "bytes list" | Link bytes | NoDir

lemma str_cut_shorter: "str_cut s c = Some (a, b) \<Longrightarrow> length b < length s"
  by (auto simp: str_cut_def dest: index_byte_lt)

lemma trim_prefix_le: "length (trim_prefix s p) \<le> length s"
  by (simp add: trim_prefix_def)

function (sequential) lookup_from :: "hdir \<Rightarrow> bytes list \<Rightarrow> bytes list \<Rightarrow> bytes \<Rightarrow> look" where
  "lookup_from d keys elems [] = NoDir"
| "lookup_from d keys elems fname =
     (let f = trim_prefix fname ''/'' in
      case str_cut f CHR ''/'' of
        None \<Rightarrow> (case map_of (hd_m d) f of None \<Rightarrow> Missing keys | Some e \<Rightarrow> Found e (keys @ [f]))
      | Some (elem, rest) \<Rightarrow>
          (case map_of (hd_m d) elem of
             None \<Rightarrow> NoDir
           | Some dent \<Rightarrow>
               if ei_err (he_info dent) \<noteq> None then NoDir
               else if ei_target (he_info dent) \<noteq> [] then Link (resolve_link elems (ei_target (he_info dent)) rest)
               else (case he_dir dent of
                   None \<Rightarrow> NoDir
                 | Some sdir \<Rightarrow> lookup_from sdir (keys @ [elem]) (elems @ [elem]) rest)))"
  by pat_completeness auto
termination
proof (relation "measure (\<lambda>(d, keys, elems, fname). length fname)", simp, goal_cases)
  case (1 d keys elems v va f x elem rest dent sdir)
  then have "str_cut (trim_prefix (v # va) ''/'') CHR ''/'' = Some (elem, rest)" by simp
  from str_cut_shorter [OF this] trim_prefix_le [of "v # va" "''/''"] show ?case by simp
qed

definition lead :: "bytes \<Rightarrow> bytes list" where
  "lead fname = (if has_prefix fname ''/'' then [''/''] else [])"

definition lookupEntry :: "hdir \<Rightarrow> bytes \<Rightarrow> look" where
  "lookupEntry d fname = lookup_from d [] (lead fname) fname"

definition maxSymlinks :: nat where
  "maxSymlinks = 40"

fun lookup_loop :: "nat \<Rightarrow> hdir \<Rightarrow> bytes \<Rightarrow> look" where
  "lookup_loop 0 d fname = NoDir"
| "lookup_loop (Suc n) d fname =
     (case lookupEntry d fname of
        Link resolved \<Rightarrow> if resolved \<noteq> [] then lookup_loop n d resolved else NoDir
      | r \<Rightarrow> r)"

definition dir_lookup :: "hdir \<Rightarrow> bytes \<Rightarrow> look" where
  "dir_lookup d fname = lookup_loop maxSymlinks d fname"

section \<open>Store\<close>

text \<open>
  \<open>merge_entry ee e\<close> is what \<open>storeEntry\<close> makes of the entry \<open>e\<close> where \<open>ee\<close> is stored: the entry that is stored
  then. \<open>keep_cmdhash\<close> is the change it makes to \<open>e\<close> itself. Entries are values here, so the test
  \<open>e == ee\<close> of \<open>storeEntry\<close>, which leaves the same pointer alone when it is stored again, has no counterpart:
  only \<open>Update\<close> stores an entry that is in the tree already, and its model does not store it again; all
  other callers store an entry that they have just made.
\<close>

definition keep_cmdhash :: "hentry \<Rightarrow> hentry \<Rightarrow> hentry" where
  "keep_cmdhash ee e =
     (if ei_cmdhash (he_info ee) \<noteq> [] \<and> ei_cmdhash (he_info e) = [] \<and> digest_IsZero (ei_action (he_info e))
      then upd_info (\<lambda>i. i\<lparr>ei_cmdhash := ei_cmdhash (he_info ee), ei_action := ei_action (he_info ee)\<rparr>) e else e)"

definition merge_entry :: "hentry \<Rightarrow> hentry \<Rightarrow> hentry" where
  "merge_entry ee e0 =
     (let e = keep_cmdhash ee e0; i = he_info e; ii = he_info ee in
      if ei_target i \<noteq> [] \<and> ei_target ii \<noteq> ei_target i then e
      else if \<not> digest_IsZero (ei_d i) \<and> ei_d ii \<noteq> ei_d i \<and> dg_SizeBytes (ei_d ii) \<noteq> 0 \<and> dg_SizeBytes (ei_d i) \<noteq> 0 then e
      else if ei_cmdhash ii \<noteq> ei_cmdhash i \<or> ei_action ii \<noteq> ei_action i then e
      else if ei_target ii = ei_target i \<and> ei_size ii = ei_size i \<and> ei_mode ii = ei_mode i \<and> (digest_IsZero (ei_d i) \<or> ei_d ii = ei_d i)
      then upd_info (\<lambda>ii. ii\<lparr>ei_mtimeUpdated := (ei_mtime ii \<noteq> ei_mtime i), ei_mtime := ei_mtime i,
        ei_updatedTime := max (ei_updatedTime ii) (ei_updatedTime i), ei_isChanged := ei_isChanged i\<rparr>) ee
      else if he_dir ee \<noteq> None \<and> he_dir e \<noteq> None \<and>
        (ei_cmdhash ii \<noteq> [] \<and> ei_cmdhash i = [] \<or> ei_cmdhash ii = ei_cmdhash i) then ee
      else e)"

text \<open>Results of a store: the stored entry with the entry that was to be stored, another name, or an error.\<close>

datatype stored = Stored hentry hentry | StoreLink bytes | StoreErr fsErr

definition put_entry :: "bytes \<Rightarrow> hentry \<Rightarrow> hdir \<Rightarrow> hdir" where
  "put_entry k e d = HDir (hd_mtime d) (AList.update k e (hd_m d))"

definition del_entry :: "bytes \<Rightarrow> hdir \<Rightarrow> hdir" where
  "del_entry k d = HDir (hd_mtime d) (AList.delete k (hd_m d))"

text \<open>\<open>nextDir\<close>: the directory or the link target of an element, and the changed directory.\<close>

datatype hop = SubDir hentry | LinkTo bytes | NoHop

definition nextDir :: "'w os \<Rightarrow> 'w \<Rightarrow> hdir \<Rightarrow> bytes list \<Rightarrow> bytes \<Rightarrow> hop \<times> hdir" where
  "nextDir os w d elems elem =
     (let (present, d1) = (case map_of (hd_m d) elem of
            None \<Rightarrow> (None, d)
          | Some dent \<Rightarrow> if ei_err (he_info dent) = None then (Some dent, d) else (None, del_entry elem d)) in
      case present of
        Some dent \<Rightarrow>
          (if ei_target (he_info dent) \<noteq> [] then LinkTo (ei_target (he_info dent))
           else if he_dir dent = None then NoHop else SubDir dent, d1)
      | None \<Rightarrow>
          let fullname = fp_join (elems @ [elem]);
              newdir = (\<lambda>t. HEntry (zero_info\<lparr>ei_mode := reg_mode\<lparr>md_dir := True\<rparr>, ei_mtime := t\<rparr>) (Some empty_dir)) in
          (case os_lstat os fullname w of
             Inl _ \<Rightarrow> let n = newdir (os_now os w) in (SubDir n, put_entry elem n d1)
           | Inr fi \<Rightarrow>
               (case oi_type fi of
                  FDir \<Rightarrow> let n = newdir (oi_mtime fi) in (SubDir n, put_entry elem n d1)
                | FSymlink \<Rightarrow>
                    (case os_readlink os fullname w of
                       Inl _ \<Rightarrow> (NoHop, d1)
                     | Inr target \<Rightarrow>
                         (if target \<noteq> [] then LinkTo target else NoHop,
                          put_entry elem (HEntry (zero_info\<lparr>ei_mode := reg_mode\<lparr>md_symlink := True\<rparr>, ei_mtime := oi_mtime fi, ei_target := target\<rparr>) None) d1))
                | _ \<Rightarrow> (NoHop, d1))))"

definition set_sub :: "hentry \<Rightarrow> hdir \<Rightarrow> hentry" where
  "set_sub dent sdir = HEntry (he_info dent) (Some sdir)"

function (sequential) store_from :: "'w os \<Rightarrow> 'w \<Rightarrow> hdir \<Rightarrow> bytes list \<Rightarrow> bytes \<Rightarrow> hentry \<Rightarrow> stored \<times> hdir" where
  "store_from os w d elems [] e = (StoreErr (ErrOther ''bad fname?''), d)"
| "store_from os w d elems fname e =
     (let f = trim_prefix fname ''/'' in
      case str_cut f CHR ''/'' of
        None \<Rightarrow>
          (case map_of (hd_m d) f of
             None \<Rightarrow> (Stored e e, put_entry f e d)
           | Some ee \<Rightarrow> let r = merge_entry ee e in (Stored r (keep_cmdhash ee e), put_entry f r d))
      | Some (elem, rest) \<Rightarrow>
          (case nextDir os w d elems elem of
             (LinkTo target, d1) \<Rightarrow> (StoreLink (resolve_link elems target rest), d1)
           | (NoHop, d1) \<Rightarrow> (StoreErr (ErrOther ''store resolve next dir''), d1)
           | (SubDir dent, d1) \<Rightarrow>
               (case store_from os w (the (he_dir dent)) (elems @ [elem]) rest e of
                  (r, sdir) \<Rightarrow> (r, put_entry elem (set_sub dent sdir) d1))))"
  by pat_completeness auto
termination
proof (relation "measure (\<lambda>(os, w, d, elems, fname, e). length fname)", simp, goal_cases)
  case (1 os w d elems v va e f x elem rest)
  then have "str_cut (trim_prefix (v # va) ''/'') CHR ''/'' = Some (elem, rest)" by simp
  from str_cut_shorter [OF this] trim_prefix_le [of "v # va" "''/''"] show ?case by simp
qed

definition storeEntry :: "'w os \<Rightarrow> 'w \<Rightarrow> hdir \<Rightarrow> bytes \<Rightarrow> hentry \<Rightarrow> stored \<times> hdir" where
  "storeEntry os w d fname e = store_from os w d (lead fname) fname e"

text \<open>\<open>store\<close> of the root directory, which follows up to 40 links.\<close>

fun store_loop :: "nat \<Rightarrow> 'w os \<Rightarrow> 'w \<Rightarrow> hdir \<Rightarrow> bytes \<Rightarrow> hentry \<Rightarrow> (fsErr + hentry \<times> hentry) \<times> hdir" where
  "store_loop 0 os w d fname e = (Inl (ErrOther ''ELOOP''), d)"
| "store_loop (Suc n) os w d fname e =
     (case storeEntry os w d fname e of
        (StoreLink resolved, d1) \<Rightarrow> if resolved \<noteq> [] then store_loop n os w d1 resolved e else (Inl (ErrOther ''no entry''), d1)
      | (StoreErr err, d1) \<Rightarrow> (Inl err, d1)
      | (Stored ent e1, d1) \<Rightarrow> (Inr (ent, e1), d1))"

definition dir_store :: "'w os \<Rightarrow> 'w \<Rightarrow> hdir \<Rightarrow> bytes \<Rightarrow> hentry \<Rightarrow> (fsErr + hentry \<times> hentry) \<times> hdir" where
  "dir_store os w d fname e = store_loop maxSymlinks os w d fname e"

section \<open>Delete\<close>

function (sequential) dir_delete :: "bytes \<Rightarrow> hdir \<Rightarrow> hdir" where
  "dir_delete [] d = d"
| "dir_delete fname d =
     (let f = trim_prefix fname ''/'' in
      case str_cut f CHR ''/'' of
        None \<Rightarrow> del_entry f d
      | Some (elem, rest) \<Rightarrow>
          (case map_of (hd_m d) elem of
             None \<Rightarrow> d
           | Some e \<Rightarrow> (case he_dir e of None \<Rightarrow> d | Some sdir \<Rightarrow> put_entry elem (set_sub e (dir_delete rest sdir)) d)))"
  by pat_completeness auto
termination
proof (relation "measure (\<lambda>(fname, d). length fname)", simp, goal_cases)
  case (1 v va d f x elem rest e sdir)
  then have "str_cut (trim_prefix (v # va) ''/'') CHR ''/'' = Some (elem, rest)" by simp
  from str_cut_shorter [OF this] trim_prefix_le [of "v # va" "''/''"] show ?case by simp
qed

declare lookup_from.simps(2) [simp del] store_from.simps(2) [simp del] dir_delete.simps(2) [simp del]

end
