(* ===== verification/Hash_Props.thy ===== *)
theory Hash_Props
  imports Hash_Dir "HOL-Library.Sublist"
begin

text \<open>
  The directory tree as a map from lists of names to entries: what \<open>store\<close>, \<open>lookup\<close> and \<open>delete\<close>
  mean for names whose directories are no links.
\<close>

section \<open>Names\<close>

definition key_ok :: "bytes \<Rightarrow> bool" where
  "key_ok k \<longleftrightarrow> k \<noteq> [] \<and> CHR ''/'' \<notin> set k"

definition keys_ok :: "bytes list \<Rightarrow> bool" where
  "keys_ok ks \<longleftrightarrow> ks \<noteq> [] \<and> list_all key_ok ks"

definition abs_name :: "bytes list \<Rightarrow> bytes" where
  "abs_name ks = ''/'' @ join_with ''/'' ks"

lemma key_head: "key_ok k \<Longrightarrow> \<not> has_prefix (k @ x) ''/''"
  by (cases k) (auto simp: key_ok_def has_prefix_def)

lemma trim_key: "key_ok k \<Longrightarrow> trim_prefix (k @ x) ''/'' = k @ x"
  by (simp add: trim_prefix_def key_head)

lemma trim_slash: "trim_prefix (CHR ''/'' # x) ''/'' = x"
  by (simp add: trim_prefix_def has_prefix_def)

lemma cut_key: "key_ok k \<Longrightarrow> str_cut (k @ CHR ''/'' # x) CHR ''/'' = Some (k, x)"
proof -
  assume k: "key_ok k"
  have "index_byte (k @ CHR ''/'' # x) CHR ''/'' = Some (length k)"
    unfolding index_byte_def by (rule index_of_append_first) (use k in \<open>auto simp: key_ok_def\<close>)
  then show ?thesis by (simp add: str_cut_def)
qed

lemma cut_key_last: "key_ok k \<Longrightarrow> str_cut k CHR ''/'' = None"
  by (simp add: str_cut_def key_ok_def index_byte_None)

lemma join_Cons2: "join_with ''/'' (k # k' # ks) = k @ CHR ''/'' # join_with ''/'' (k' # ks)"
  by simp

lemma join_ne: "keys_ok ks \<Longrightarrow> join_with ''/'' ks \<noteq> [] \<and> trim_prefix (join_with ''/'' ks) ''/'' = join_with ''/'' ks"
proof (cases ks rule: remdups_adj.cases)
  case (2 k)
  assume "keys_ok ks"
  then show ?thesis using 2 trim_key [of k "[]"] by (simp add: keys_ok_def key_ok_def)
next
  case (3 k k' ks')
  assume "keys_ok ks"
  then show ?thesis using 3 trim_key [of k "CHR ''/'' # join_with ''/'' (k' # ks')"] by (simp add: keys_ok_def key_ok_def)
qed (simp add: keys_ok_def)

lemma keys_ok_Cons2: "keys_ok (k # k' # ks) \<longleftrightarrow> key_ok k \<and> keys_ok (k' # ks)"
  by (auto simp: keys_ok_def)

lemma keys_ok_single: "keys_ok [k] \<longleftrightarrow> key_ok k"
  by (simp add: keys_ok_def)

section \<open>The tree as a map\<close>

definition plain_entry :: "hentry \<Rightarrow> bool" where
  "plain_entry e \<longleftrightarrow> ei_err (he_info e) = None \<and> ei_target (he_info e) = []"

definition sub_of :: "hentry \<Rightarrow> hdir option" where
  "sub_of e = (if plain_entry e then he_dir e else None)"

fun dir_get :: "hdir \<Rightarrow> bytes list \<Rightarrow> hentry option" where
  "dir_get d [] = None"
| "dir_get d [k] = map_of (hd_m d) k"
| "dir_get d (k # ks) = (case map_of (hd_m d) k of None \<Rightarrow> None
     | Some e \<Rightarrow> (case sub_of e of None \<Rightarrow> None | Some s \<Rightarrow> dir_get s ks))"

lemma dir_get_Cons: "ks \<noteq> [] \<Longrightarrow> dir_get d (k # ks) = (case map_of (hd_m d) k of None \<Rightarrow> None
     | Some e \<Rightarrow> (case sub_of e of None \<Rightarrow> None | Some s \<Rightarrow> dir_get s ks))"
  by (cases ks) (simp_all split: option.split)

subsection \<open>One element of a name\<close>

lemma lookup_unfold:
  "fname \<noteq> [] \<Longrightarrow> lookup_from d ks el fname =
    (let f = trim_prefix fname ''/'' in
     case str_cut f CHR ''/'' of
       None \<Rightarrow> (case map_of (hd_m d) f of None \<Rightarrow> Missing ks | Some e \<Rightarrow> Found e (ks @ [f]))
     | Some (elem, rest) \<Rightarrow>
         (case map_of (hd_m d) elem of
            None \<Rightarrow> NoDir
          | Some dent \<Rightarrow>
              if ei_err (he_info dent) \<noteq> None then NoDir
              else if ei_target (he_info dent) \<noteq> [] then Link (resolve_link el (ei_target (he_info dent)) rest)
              else (case he_dir dent of
                  None \<Rightarrow> NoDir
                | Some sdir \<Rightarrow> lookup_from sdir (ks @ [elem]) (el @ [elem]) rest)))"
  by (cases fname) (simp_all only: lookup_from.simps(2) simp_thms list.distinct)

lemma store_unfold:
  "fname \<noteq> [] \<Longrightarrow> store_from os w d el fname e =
    (let f = trim_prefix fname ''/'' in
     case str_cut f CHR ''/'' of
       None \<Rightarrow>
         (case map_of (hd_m d) f of
            None \<Rightarrow> (Stored e e, put_entry f e d)
          | Some ee \<Rightarrow> let r = merge_entry ee e in (Stored r (keep_cmdhash ee e), put_entry f r d))
     | Some (elem, rest) \<Rightarrow>
         (case nextDir os w d el elem of
            (LinkTo target, d1) \<Rightarrow> (StoreLink (resolve_link el target rest), d1)
          | (NoHop, d1) \<Rightarrow> (StoreErr (ErrOther ''store resolve next dir''), d1)
          | (SubDir dent, d1) \<Rightarrow>
              (case store_from os w (the (he_dir dent)) (el @ [elem]) rest e of
                 (r, sdir) \<Rightarrow> (r, put_entry elem (set_sub dent sdir) d1))))"
  by (cases fname) (simp_all only: store_from.simps(2) simp_thms list.distinct)

lemma lookup_slash: "keys_ok ks' \<Longrightarrow> lookup_from d ks el (abs_name ks') = lookup_from d ks el (join_with ''/'' ks')"
  using join_ne [of ks'] by (simp add: abs_name_def lookup_unfold [of "CHR ''/'' # _"] lookup_unfold [of "join_with ''/'' ks'"] trim_slash)

lemma store_slash: "keys_ok ks \<Longrightarrow> store_from os w d el (abs_name ks) e = store_from os w d el (join_with ''/'' ks) e"
  using join_ne [of ks] by (simp add: abs_name_def store_unfold [of "CHR ''/'' # _"] store_unfold [of "join_with ''/'' ks"] trim_slash)

lemma lookup_last: "key_ok k \<Longrightarrow> lookup_from d ks el k = (case map_of (hd_m d) k of None \<Rightarrow> Missing ks | Some e \<Rightarrow> Found e (ks @ [k]))"
  using trim_key [of k "[]"] by (simp add: lookup_unfold key_ok_def cut_key_last)

lemma lookup_cut: "key_ok k \<Longrightarrow> lookup_from d ks el (k @ CHR ''/'' # x) =
    (case map_of (hd_m d) k of
       None \<Rightarrow> NoDir
     | Some dent \<Rightarrow>
         if ei_err (he_info dent) \<noteq> None then NoDir
         else if ei_target (he_info dent) \<noteq> [] then Link (resolve_link el (ei_target (he_info dent)) x)
         else (case he_dir dent of None \<Rightarrow> NoDir | Some sdir \<Rightarrow> lookup_from sdir (ks @ [k]) (el @ [k]) x))"
  by (simp add: lookup_unfold trim_key cut_key)

lemma store_last: "key_ok k \<Longrightarrow> store_from os w d el k e =
    (case map_of (hd_m d) k of
       None \<Rightarrow> (Stored e e, put_entry k e d)
     | Some ee \<Rightarrow> (Stored (merge_entry ee e) (keep_cmdhash ee e), put_entry k (merge_entry ee e) d))"
  using trim_key [of k "[]"] by (simp add: store_unfold key_ok_def cut_key_last Let_def split: option.split)

lemma store_cut: "key_ok k \<Longrightarrow> store_from os w d el (k @ CHR ''/'' # x) e =
    (case nextDir os w d el k of
       (LinkTo target, d1) \<Rightarrow> (StoreLink (resolve_link el target x), d1)
     | (NoHop, d1) \<Rightarrow> (StoreErr (ErrOther ''store resolve next dir''), d1)
     | (SubDir dent, d1) \<Rightarrow>
         (case store_from os w (the (he_dir dent)) (el @ [k]) x e of
            (r, sdir) \<Rightarrow> (r, put_entry k (set_sub dent sdir) d1)))"
  by (simp add: store_unfold trim_key cut_key)

subsection \<open>Lookup\<close>

text \<open>A name is found exactly if the map has an entry for it.\<close>

lemma lookup_get: "keys_ok ks' \<Longrightarrow> lookup_from d ks el (join_with ''/'' ks') = Found e ks'' \<longleftrightarrow> dir_get d ks' = Some e \<and> ks'' = ks @ ks'"
proof (induction ks' arbitrary: d ks el rule: induct_list012)
  case (2 k)
  then show ?case by (auto simp: keys_ok_single lookup_last split: option.split)
next
  case (3 k k' ks')
  have k: "key_ok k" "keys_ok (k' # ks')" using 3(3) by (simp_all add: keys_ok_Cons2)
  note IH = 3(2) [OF k(2)]
  show ?case
    unfolding join_Cons2 lookup_cut [OF k(1)] dir_get.simps
    by (auto simp: sub_of_def plain_entry_def IH split: option.split)
qed (simp add: keys_ok_def)

lemma lookupEntry_get: "keys_ok ks \<Longrightarrow> lookupEntry d (abs_name ks) = Found e ks' \<longleftrightarrow> dir_get d ks = Some e \<and> ks' = ks"
  by (simp add: lookupEntry_def lookup_slash lookup_get)

subsection \<open>Store\<close>

lemma map_of_put [simp]: "map_of (hd_m (put_entry k e d)) = (map_of (hd_m d))(k \<mapsto> e)"
  by (simp add: put_entry_def update_conv')

lemma map_of_del [simp]: "map_of (hd_m (del_entry k d)) = (map_of (hd_m d))(k := None)"
  by (simp add: del_entry_def delete_conv')

text \<open>What \<open>nextDir\<close> does when it goes to a directory: the directory is there and open, or it is new and empty.\<close>

lemma nextDir_sub:
  assumes "nextDir os w d el k = (SubDir dent, d1)"
  shows "plain_entry dent" "he_dir dent \<noteq> None" "\<And>x. x \<noteq> k \<Longrightarrow> map_of (hd_m d1) x = map_of (hd_m d) x"
    "(case map_of (hd_m d) k of None \<Rightarrow> None | Some e \<Rightarrow> sub_of e) \<in> {None, he_dir dent}"
    "map_of (hd_m d) k = Some dent \<or> (he_dir dent = Some empty_dir \<and> (case map_of (hd_m d) k of None \<Rightarrow> None | Some e \<Rightarrow> sub_of e) = None)"
  using assms
  by (auto simp: nextDir_def Let_def plain_entry_def sub_of_def zero_info_def split: option.splits if_splits sum.splits ftype.splits)

text \<open>The sub-directory of an element, as names go through it.\<close>

definition sub_at :: "hdir \<Rightarrow> bytes \<Rightarrow> hdir option" where
  "sub_at d k = (case map_of (hd_m d) k of None \<Rightarrow> None | Some e \<Rightarrow> sub_of e)"

lemma dir_get_sub: "ks \<noteq> [] \<Longrightarrow> dir_get d (k # ks) = (case sub_at d k of None \<Rightarrow> None | Some s \<Rightarrow> dir_get s ks)"
  by (simp add: dir_get_Cons sub_at_def split: option.split)

lemma dir_get_empty: "dir_get empty_dir ks = None"
  by (cases ks rule: remdups_adj.cases) (simp_all add: empty_dir_def)

lemma sub_at_set_sub:
  "plain_entry dent \<Longrightarrow> sub_at (put_entry k (set_sub dent s) d) k = Some s"
  by (simp add: sub_at_def sub_of_def set_sub_def plain_entry_def)

text \<open>
  A store that reaches its directory without a link: the name has the stored entry, and names that
  are neither above nor below it keep theirs. Which entry is stored depends on the entry before.
\<close>

lemma store_get:
  assumes "keys_ok ks" "store_from os w d el (join_with ''/'' ks) e = (Stored r e1, d')"
  shows "dir_get d' ks = Some r" "r = (case dir_get d ks of None \<Rightarrow> e | Some ee \<Rightarrow> merge_entry ee e)"
    "\<And>qs. \<not> prefix ks qs \<Longrightarrow> \<not> prefix qs ks \<Longrightarrow> dir_get d' qs = dir_get d qs"
    "\<And>qs. qs \<noteq> [] \<Longrightarrow> dir_get d' (ks @ qs) = (case sub_of r of None \<Rightarrow> None | Some s \<Rightarrow> dir_get s qs)"
proof -
  have "dir_get d' ks = Some r \<and> r = (case dir_get d ks of None \<Rightarrow> e | Some ee \<Rightarrow> merge_entry ee e) \<and>
    (\<forall>qs. \<not> prefix ks qs \<longrightarrow> \<not> prefix qs ks \<longrightarrow> dir_get d' qs = dir_get d qs) \<and>
    (\<forall>qs. qs \<noteq> [] \<longrightarrow> dir_get d' (ks @ qs) = (case sub_of r of None \<Rightarrow> None | Some s \<Rightarrow> dir_get s qs))"
    using assms
  proof (induction ks arbitrary: d el d' rule: induct_list012)
    case (2 k)
    then have k: "key_ok k" by (simp add: keys_ok_single)
    have r: "r = (case map_of (hd_m d) k of None \<Rightarrow> e | Some ee \<Rightarrow> merge_entry ee e)" "d' = put_entry k r d"
      using 2(2) by (auto simp: store_last [OF k] split: option.splits)
    have "dir_get d' qs = dir_get d qs" if "\<not> prefix [k] qs" "\<not> prefix qs [k]" for qs
    proof (cases qs)
      case (Cons q qs')
      then have "q \<noteq> k" using that by auto
      then show ?thesis using Cons by (cases qs') (simp_all add: r(2))
    qed (use that in simp)
    moreover have "dir_get d' ([k] @ qs) = (case sub_of r of None \<Rightarrow> None | Some s \<Rightarrow> dir_get s qs)" if "qs \<noteq> []" for qs
      using that by (simp add: dir_get_Cons r(2) split: option.split)
    ultimately show ?case using r by simp
  next
    case (3 k k' ks)
    have k: "key_ok k" "keys_ok (k' # ks)" using 3(3) by (simp_all add: keys_ok_Cons2)
    obtain h d1 where n: "nextDir os w d el k = (h, d1)" by fastforce
    obtain dent where h: "h = SubDir dent"
      using 3(4) n by (cases h) (simp_all add: join_Cons2 store_cut [OF k(1)] del: join_with.simps)
    note N = nextDir_sub [OF n [unfolded h]]
    obtain sub0 where s0: "he_dir dent = Some sub0" using N(2) by blast
    obtain sub1 where st: "store_from os w sub0 (el @ [k]) (join_with ''/'' (k' # ks)) e = (Stored r e1, sub1)"
      and d': "d' = put_entry k (set_sub dent sub1) d1"
      using 3(4) n h s0 by (auto simp: join_Cons2 store_cut [OF k(1)] simp del: join_with.simps split: prod.splits)
    note IH = 3(2) [OF k(2) st]
    have sub': "sub_at d' k = Some sub1" unfolding d' by (rule sub_at_set_sub [OF N(1)])
    have sub: "sub_at d k = Some sub0 \<or> sub_at d k = None \<and> sub0 = empty_dir"
      using N(1,5) s0 by (auto simp: sub_at_def sub_of_def split: option.splits)
    have old: "dir_get d (k # qs) = dir_get sub0 qs" if "qs \<noteq> []" for qs
      using sub that by (auto simp: dir_get_sub dir_get_empty)
    have new: "dir_get d' (k # qs) = dir_get sub1 qs" if "qs \<noteq> []" for qs
      using sub' that by (simp add: dir_get_sub)
    have other: "dir_get d' (q # qs) = dir_get d (q # qs)" if "q \<noteq> k" for q qs
      using that N(3) by (cases qs) (simp_all add: d')
    have "dir_get d' qs = dir_get d qs" if np: "\<not> prefix (k # k' # ks) qs" "\<not> prefix qs (k # k' # ks)" for qs
    proof (cases qs)
      case (Cons q qs')
      show ?thesis
      proof (cases "q = k")
        case True
        then have ne: "qs' \<noteq> []" "\<not> prefix (k' # ks) qs'" "\<not> prefix qs' (k' # ks)" using Cons np by auto
        then show ?thesis using IH old [OF ne(1)] new [OF ne(1)] Cons True by simp
      next
        case False
        then show ?thesis using other Cons by simp
      qed
    qed (use np in simp)
    then show ?case using IH old [of "k' # ks"] new [of "k' # ks"] new [of "(k' # ks) @ qs" for qs] by simp
  qed simp
  then show "dir_get d' ks = Some r" "r = (case dir_get d ks of None \<Rightarrow> e | Some ee \<Rightarrow> merge_entry ee e)"
    "\<And>qs. \<not> prefix ks qs \<Longrightarrow> \<not> prefix qs ks \<Longrightarrow> dir_get d' qs = dir_get d qs"
    "\<And>qs. qs \<noteq> [] \<Longrightarrow> dir_get d' (ks @ qs) = (case sub_of r of None \<Rightarrow> None | Some s \<Rightarrow> dir_get s qs)" by blast+
qed

subsection \<open>Delete\<close>

lemma delete_unfold:
  "fname \<noteq> [] \<Longrightarrow> dir_delete fname d =
    (let f = trim_prefix fname ''/'' in
     case str_cut f CHR ''/'' of
       None \<Rightarrow> del_entry f d
     | Some (elem, rest) \<Rightarrow>
         (case map_of (hd_m d) elem of
            None \<Rightarrow> d
          | Some e \<Rightarrow> (case he_dir e of None \<Rightarrow> d | Some sdir \<Rightarrow> put_entry elem (set_sub e (dir_delete rest sdir)) d)))"
  by (cases fname) (simp_all only: dir_delete.simps(2) simp_thms list.distinct)

lemma delete_last: "key_ok k \<Longrightarrow> dir_delete k d = del_entry k d"
  using trim_key [of k "[]"] by (simp add: delete_unfold key_ok_def cut_key_last)

lemma delete_cut: "key_ok k \<Longrightarrow> dir_delete (k @ CHR ''/'' # x) d =
    (case map_of (hd_m d) k of
       None \<Rightarrow> d
     | Some e \<Rightarrow> (case he_dir e of None \<Rightarrow> d | Some sdir \<Rightarrow> put_entry k (set_sub e (dir_delete x sdir)) d))"
  by (simp add: delete_unfold trim_key cut_key)

lemma sub_of_set_sub: "sub_of (set_sub e s) = (if plain_entry e then Some s else None)"
  by (simp add: sub_of_def set_sub_def plain_entry_def)

lemma delete_get:
  assumes "keys_ok ks"
  shows "dir_get (dir_delete (join_with ''/'' ks) d) ks = None \<and>
    (\<forall>qs. \<not> prefix ks qs \<longrightarrow> \<not> prefix qs ks \<longrightarrow> dir_get (dir_delete (join_with ''/'' ks) d) qs = dir_get d qs)"
  using assms
proof (induction ks arbitrary: d rule: induct_list012)
  case (2 k)
  then have k: "key_ok k" by (simp add: keys_ok_single)
  have "dir_get (del_entry k d) qs = dir_get d qs" if "\<not> prefix [k] qs" "\<not> prefix qs [k]" for qs
  proof (cases qs)
    case (Cons q qs')
    then have "q \<noteq> k" using that by auto
    then show ?thesis using Cons by (cases qs') simp_all
  qed (use that in simp)
  then show ?case by (simp add: delete_last [OF k])
next
  case (3 k k' ks)
  have k: "key_ok k" "keys_ok (k' # ks)" using 3(3) by (simp_all add: keys_ok_Cons2)
  let ?d = "dir_delete (join_with ''/'' (k # k' # ks)) d"
  note IH = 3(2) [OF k(2)]
  show ?case
  proof (cases "\<exists>e s. map_of (hd_m d) k = Some e \<and> he_dir e = Some s")
    case False
    then have "?d = d" unfolding join_Cons2 delete_cut [OF k(1)] by (auto split: option.split)
    moreover have "dir_get d (k # k' # ks) = None" using False by (auto simp: sub_of_def split: option.split)
    ultimately show ?thesis by simp
  next
    case True
    then obtain e s where e: "map_of (hd_m d) k = Some e" "he_dir e = Some s" by blast
    let ?s = "dir_delete (join_with ''/'' (k' # ks)) s"
    have d: "?d = put_entry k (set_sub e ?s) d" unfolding join_Cons2 delete_cut [OF k(1)] using e by simp
    have new: "dir_get ?d (k # qs) = (if plain_entry e then dir_get ?s qs else None)" if "qs \<noteq> []" for qs
      unfolding d using that by (simp add: dir_get_Cons sub_of_set_sub)
    have old: "dir_get d (k # qs) = (if plain_entry e then dir_get s qs else None)" if "qs \<noteq> []" for qs
      using that e by (simp add: dir_get_Cons sub_of_def)
    have "dir_get ?d qs = dir_get d qs" if np: "\<not> prefix (k # k' # ks) qs" "\<not> prefix qs (k # k' # ks)" for qs
    proof (cases qs)
      case (Cons q qs')
      show ?thesis
      proof (cases "q = k")
        case True
        then have ne: "qs' \<noteq> []" "\<not> prefix (k' # ks) qs'" "\<not> prefix qs' (k' # ks)" using Cons np by auto
        then show ?thesis using IH new [OF ne(1)] old [OF ne(1)] Cons True by simp
      next
        case False
        then show ?thesis unfolding d using Cons by (cases qs') simp_all
      qed
    qed (use np in simp)
    then show ?thesis using IH new [of "k' # ks"] by simp
  qed
qed (simp add: keys_ok_def)

section \<open>Properties\<close>

lemma merge_content:
  assumes "he_dir e = None"
  shows "ei_target (he_info (merge_entry ee e)) = ei_target (he_info e)" "ei_size (he_info (merge_entry ee e)) = ei_size (he_info e)"
    "ei_mode (he_info (merge_entry ee e)) = ei_mode (he_info e)"
    "digest_IsZero (ei_d (he_info e)) \<or> ei_d (he_info (merge_entry ee e)) = ei_d (he_info e)"
  using assms by (auto simp: merge_entry_def keep_cmdhash_def upd_info_def Let_def)

text \<open>
  C16: The tree is a map. A store that meets no link is found under its name; for a file or a link the
  entry found has the target, the size, the mode and, if it is known, the digest that were stored; and
  names that are neither above nor below it are found as before.
\<close>

theorem store_lookup:
  assumes "keys_ok ks" "storeEntry os w d (abs_name ks) e = (Stored r e1, d')"
  shows "dir_lookup d' (abs_name ks) = Found r ks \<and>
    (he_dir e = None \<longrightarrow> ei_target (he_info r) = ei_target (he_info e) \<and> ei_size (he_info r) = ei_size (he_info e) \<and>
      ei_mode (he_info r) = ei_mode (he_info e) \<and> (digest_IsZero (ei_d (he_info e)) \<or> ei_d (he_info r) = ei_d (he_info e))) \<and>
    (\<forall>qs x. keys_ok qs \<longrightarrow> \<not> prefix ks qs \<longrightarrow> \<not> prefix qs ks \<longrightarrow>
      (lookupEntry d' (abs_name qs) = Found x qs \<longleftrightarrow> lookupEntry d (abs_name qs) = Found x qs))"
proof -
  note G = store_get [OF assms(1) assms(2) [unfolded storeEntry_def store_slash [OF assms(1)]]]
  have "lookupEntry d' (abs_name ks) = Found r ks" using G(1) by (simp add: lookupEntry_get [OF assms(1)])
  then have "dir_lookup d' (abs_name ks) = Found r ks" by (simp add: dir_lookup_def maxSymlinks_def numeral_eq_Suc)
  moreover have "he_dir e = None \<longrightarrow> ei_target (he_info r) = ei_target (he_info e) \<and> ei_size (he_info r) = ei_size (he_info e) \<and>
      ei_mode (he_info r) = ei_mode (he_info e) \<and> (digest_IsZero (ei_d (he_info e)) \<or> ei_d (he_info r) = ei_d (he_info e))"
    using G(2) merge_content [of e] by (cases "dir_get d ks") simp_all
  moreover have "lookupEntry d' (abs_name qs) = Found x qs \<longleftrightarrow> lookupEntry d (abs_name qs) = Found x qs"
    if "keys_ok qs" "\<not> prefix ks qs" "\<not> prefix qs ks" for qs x
    using G(3) [OF that(2,3)] by (simp add: lookupEntry_get [OF that(1)])
  ultimately show ?thesis by blast
qed

text \<open>
  A directory that is stored with another command hash replaces the directory that was there, with
  all its entries: no name below it is found any more, whether or not its file is on the local disk.
\<close>

theorem store_dir_forgets:
  assumes "keys_ok ks" "dir_get d ks = Some ee" "he_dir e = Some empty_dir" "ei_cmdhash (he_info e) \<noteq> []"
    "ei_cmdhash (he_info ee) \<noteq> ei_cmdhash (he_info e)" "storeEntry os w d (abs_name ks) e = (Stored r e1, d')" "keys_ok qs"
  shows "lookupEntry d' (abs_name (ks @ qs)) \<noteq> Found x ks'"
proof -
  note G = store_get [OF assms(1) assms(6) [unfolded storeEntry_def store_slash [OF assms(1)]]]
  have "r = e" using G(2) assms(2,4,5) by (simp add: merge_entry_def keep_cmdhash_def Let_def)
  moreover have "qs \<noteq> []" using assms(7) by (simp add: keys_ok_def)
  ultimately have "dir_get d' (ks @ qs) = None" using G(4) assms(3) by (simp add: sub_of_def dir_get_empty)
  moreover have "keys_ok (ks @ qs)" using assms(1,7) by (simp add: keys_ok_def)
  ultimately show ?thesis by (simp add: lookupEntry_get)
qed

section \<open>A small tree\<close>

definition no_os :: "unit os" where
  "no_os = \<lparr>os_now = (\<lambda>_. 5), os_lstat = (\<lambda>_ _. Inl ErrNotExist), os_readlink = (\<lambda>_ _. Inl ErrNotExist),
     os_readdirnames = (\<lambda>_ _. Inl ErrNotExist), os_readFile = (\<lambda>_ _. Inl ErrNotExist), os_remove = (\<lambda>_ w. (Some ErrNotExist, w)),
     os_removeAll = (\<lambda>_ w. (None, w)), os_mkdirAll = (\<lambda>_ w. (None, w)), os_chtimes = (\<lambda>_ _ w. (None, w)),
     os_chmod = (\<lambda>_ _ w. (None, w)), os_symlink = (\<lambda>_ _ w. (None, w)), os_writeFile = (\<lambda>_ _ _ w. (None, w)), os_rename = (\<lambda>_ _ w. (None, w))\<rparr>"

definition small_file :: hentry where
  "small_file = HEntry (zero_info\<lparr>ei_size := 3, ei_mode := reg_mode, ei_mtime := 2\<rparr>) None"

definition small_dir :: "bytes \<Rightarrow> hentry" where
  "small_dir cmdhash = HEntry (zero_info\<lparr>ei_mode := reg_mode\<lparr>md_dir := True\<rparr>, ei_cmdhash := cmdhash\<rparr>) (Some empty_dir)"

lemma small_keys: "keys_ok [''a'']" "keys_ok [''a'', ''b'']" "keys_ok [''b'']" "keys_ok [''c'']"
  by (simp_all add: keys_ok_def key_ok_def)

lemma small_store: "\<exists>d. storeEntry no_os () empty_dir (abs_name [''a'', ''b'']) small_file = (Stored small_file small_file, d) \<and>
    (\<exists>ee. dir_get d [''a''] = Some ee \<and> ei_cmdhash (he_info ee) = [])"
  by (simp add: storeEntry_def store_slash small_keys store_cut [of "''a''" _ _ _ _ "''b''", simplified] store_last key_ok_def nextDir_def
      empty_dir_def no_os_def put_entry_def set_sub_def zero_info_def Let_def)

theorem store_lookup_witness:
  "\<exists>d. storeEntry no_os () empty_dir (abs_name [''a'', ''b'']) small_file = (Stored small_file small_file, d) \<and>
     dir_lookup d (abs_name [''a'', ''b'']) = Found small_file [''a'', ''b'']"
proof -
  obtain d where d: "storeEntry no_os () empty_dir (abs_name [''a'', ''b'']) small_file = (Stored small_file small_file, d)" using small_store by blast
  show ?thesis using store_lookup [OF small_keys(2) d] d by blast
qed

theorem store_dir_forgets_witness:
  "\<exists>d d' r. lookupEntry d (abs_name [''a'', ''b'']) = Found small_file [''a'', ''b''] \<and>
     storeEntry no_os () d (abs_name [''a'']) (small_dir ''h'') = (Stored r (small_dir ''h''), d') \<and>
     lookupEntry d' (abs_name [''a'', ''b'']) \<noteq> Found small_file [''a'', ''b'']"
proof -
  obtain d ee where d: "storeEntry no_os () empty_dir (abs_name [''a'', ''b'']) small_file = (Stored small_file small_file, d)"
    "dir_get d [''a''] = Some ee" "ei_cmdhash (he_info ee) = []" using small_store by blast
  have g: "dir_get d [''a'', ''b''] = Some small_file"
    by (rule store_get(1) [OF small_keys(2) d(1) [unfolded storeEntry_def store_slash [OF small_keys(2)]]])
  have ok: "key_ok ''a''" by (simp add: key_ok_def)
  have ee: "map_of (hd_m d) ''a'' = Some ee" using d(2) by simp
  have kp: "keep_cmdhash ee (small_dir ''h'') = small_dir ''h''" by (simp add: keep_cmdhash_def small_dir_def)
  obtain r d' where st: "storeEntry no_os () d (abs_name [''a'']) (small_dir ''h'') = (Stored r (small_dir ''h''), d')"
    using ee kp by (simp add: storeEntry_def store_slash small_keys store_last [OF ok])
  have "lookupEntry d' (abs_name ([''a''] @ [''b''])) \<noteq> Found small_file [''a'', ''b'']"
    by (rule store_dir_forgets [OF small_keys(1) d(2) _ _ _ st small_keys(3)]) (simp_all add: small_dir_def d(3))
  then show ?thesis using st g lookupEntry_get [OF small_keys(2)] by auto
qed

end
