(* ===== verification/Hash_FS.thy ===== *)
theory Hash_FS
  imports Hash_Props
begin

text \<open>
  The operations of the hash file system (\<open>HashFS\<close> in \<open>hashfs/fs.go\<close>) on the directory tree of
  \<open>Hash_Dir\<close>, and how entries are written to the local disk. Operations run one after the other;
  digests that the code computes in the background are computed where they are needed, and the
  concurrent flushes of one call are done in order. Cancellation of the context is left out.
\<close>

record 'w fsEnv =
  fe_os :: "'w os"
  fe_executables :: "bytes list"
  fe_sha256 :: "bytes \<Rightarrow> bytes"
  fe_fetch :: "digest \<Rightarrow> bytes \<Rightarrow> fsErr + bytes"
  fe_outputLocal :: "bytes \<Rightarrow> bool"
  fe_ignore :: "bytes \<Rightarrow> bool"

record 'w hfs =
  hf_dir :: hdir
  hf_clean :: bool
  hf_journal :: "(bytes \<times> hentry) list"
  hf_notified :: "bytes list"
  hf_disk :: 'w

section \<open>Entries\<close>

definition read_source :: "'w fsEnv \<Rightarrow> 'w \<Rightarrow> source \<Rightarrow> fsErr + bytes" where
  "read_source ev w src =
     (case src of
        NoSource \<Rightarrow> Inl (ErrOther ''no source'')
      | FileSource f \<Rightarrow> os_readFile (fe_os ev) f w
      | BytesSource b \<Rightarrow> Inr b
      | DataSource d f \<Rightarrow> fe_fetch ev d f)"

definition entry_compute :: "'w fsEnv \<Rightarrow> 'w \<Rightarrow> hentry \<Rightarrow> fsErr option \<times> hentry" where
  "entry_compute ev w e =
     (case ei_err (he_info e) of
        Some err \<Rightarrow> (Some err, e)
      | None \<Rightarrow>
          if \<not> digest_IsZero (ei_d (he_info e)) \<or> ei_src (he_info e) = NoSource then (None, e)
          else case read_source ev w (ei_src (he_info e)) of
              Inl err \<Rightarrow> (Some err, e)
            | Inr b \<Rightarrow> (None, upd_info (\<lambda>i. i\<lparr>ei_d := ofBytes (fe_sha256 ev) b\<rparr>) e))"

definition local_entry :: "'w fsEnv \<Rightarrow> 'w hfs \<Rightarrow> bytes \<Rightarrow> hentry" where
  "local_entry ev s fname = entry_init (fe_os ev) (hf_disk s) fname (fe_executables ev) newLocalEntry"

text \<open>An entry changed in place.\<close>

fun upd_at :: "bytes list \<Rightarrow> (hentry \<Rightarrow> hentry) \<Rightarrow> hdir \<Rightarrow> hdir" where
  "upd_at [] f d = d"
| "upd_at [k] f d = (case map_of (hd_m d) k of None \<Rightarrow> d | Some e \<Rightarrow> put_entry k (f e) d)"
| "upd_at (k # ks) f d =
     (case map_of (hd_m d) k of
        None \<Rightarrow> d
      | Some e \<Rightarrow> (case he_dir e of None \<Rightarrow> d | Some sdir \<Rightarrow> put_entry k (set_sub e (upd_at ks f sdir)) d))"

section \<open>Storing and looking up\<close>

definition hfs_store :: "'w fsEnv \<Rightarrow> bytes \<Rightarrow> hentry \<Rightarrow> 'w hfs \<Rightarrow> (fsErr + hentry \<times> hentry) \<times> 'w hfs" where
  "hfs_store ev fname e s = (case dir_store (fe_os ev) (hf_disk s) (hf_dir s) fname e of (r, d) \<Rightarrow> (r, s\<lparr>hf_dir := d\<rparr>))"

definition needPathClean :: "bytes list \<Rightarrow> bool" where
  "needPathClean names =
     list_ex (\<lambda>name. BSL \<in> set name \<or> str_contains name ''//'' \<or>
       (case index_byte name CHR ''.'' of
          None \<Rightarrow> False
        | Some i \<Rightarrow> has_prefix (drop i name) ''./'' \<or> has_prefix (drop i name) ''../'')) names"

definition dirLookup :: "hdir \<Rightarrow> bytes \<Rightarrow> bytes \<Rightarrow> look" where
  "dirLookup d root fname =
     (if isAbs fname then dir_lookup d fname
      else if needPathClean [root, fname] then dir_lookup d (fp_join [root, fname])
      else case dir_lookup d root of
          Found e keys \<Rightarrow>
            (case he_dir e of
               None \<Rightarrow> NoDir
             | Some sdir \<Rightarrow>
                 (case lookup_from sdir keys (lead fname) fname of
                    Found e' keys' \<Rightarrow> Found e' keys'
                  | Link resolved \<Rightarrow> dir_lookup d (if isAbs resolved then resolved else fp_join [root, resolved])
                  | _ \<Rightarrow> NoDir))
        | _ \<Rightarrow> NoDir)"

definition dirStoreAndNotify :: "'w fsEnv \<Rightarrow> bytes \<Rightarrow> hentry \<Rightarrow> 'w hfs \<Rightarrow> (fsErr + hentry \<times> hentry) \<times> 'w hfs" where
  "dirStoreAndNotify ev fname e s =
     (case hfs_store ev fname e s of
        (Inl err, s1) \<Rightarrow> (Inl err, s1)
      | (Inr r, s1) \<Rightarrow> (Inr r, s1\<lparr>hf_notified := hf_notified s1 @ [fname]\<rparr>))"

definition journalEntry :: "'w fsEnv \<Rightarrow> bytes \<Rightarrow> hentry \<Rightarrow> 'w hfs \<Rightarrow> 'w hfs" where
  "journalEntry ev fname e s = s\<lparr>hf_journal := hf_journal s @ [(fname, snd (entry_compute ev (hf_disk s) e))]\<rparr>"

definition store_journal :: "'w fsEnv \<Rightarrow> bytes \<Rightarrow> hentry \<Rightarrow> 'w hfs \<Rightarrow> fsErr option \<times> 'w hfs" where
  "store_journal ev fname e s =
     (case dirStoreAndNotify ev fname e s of
        (Inl err, s1) \<Rightarrow> (Some err, s1)
      | (Inr (_, e1), s1) \<Rightarrow> (None, journalEntry ev fname e1 s1))"

text \<open>An entry from the tree, or from the disk and then stored in the tree.\<close>

definition load_entry :: "'w fsEnv \<Rightarrow> bytes \<Rightarrow> 'w hfs \<Rightarrow> (fsErr + hentry) \<times> 'w hfs" where
  "load_entry ev fname s =
     (case dir_lookup (hf_dir s) fname of
        Found e _ \<Rightarrow> (Inr e, s)
      | _ \<Rightarrow>
          (case hfs_store ev fname (local_entry ev s fname) s of
             (Inl err, s1) \<Rightarrow> (Inl err, s1)
           | (Inr (ent, _), s1) \<Rightarrow> (Inr ent, s1)))"

section \<open>Operations\<close>

text \<open>The directory of an entry may have changed on the disk behind the tree.\<close>

definition refresh_dir :: "'w fsEnv \<Rightarrow> bytes \<Rightarrow> hentry \<Rightarrow> 'w hfs \<Rightarrow> fsErr + hentry" where
  "refresh_dir ev fullname e s =
     (case os_lstat (fe_os ev) fullname (hf_disk s) of
        Inl ErrNotExist \<Rightarrow> Inr e
      | Inl err \<Rightarrow> Inl err
      | Inr fi \<Rightarrow>
          if oi_mtime fi > os_now (fe_os ev) (hf_disk s) then Inl (ErrOther ''future timestamp'')
          else Inr (upd_info (\<lambda>i. i\<lparr>ei_mtime := oi_mtime fi, ei_updatedTime := max (ei_updatedTime i) (oi_mtime fi)\<rparr>) e))"

text \<open>The store of \<open>Stat\<close> goes to the directory that the lookup ended in, if there is one.\<close>

fun at_dir :: "bytes list \<Rightarrow> (hdir \<Rightarrow> 'a \<times> hdir) \<Rightarrow> hdir \<Rightarrow> ('a \<times> hdir) option" where
  "at_dir [] f d = Some (f d)"
| "at_dir (k # ks) f d =
     (case map_of (hd_m d) k of
        None \<Rightarrow> None
      | Some e \<Rightarrow>
          (case he_dir e of
             None \<Rightarrow> None
           | Some sdir \<Rightarrow> map_option (\<lambda>(r, sdir'). (r, put_entry k (set_sub e sdir') d)) (at_dir ks f sdir)))"

definition stat_store :: "'w fsEnv \<Rightarrow> look \<Rightarrow> bytes \<Rightarrow> hentry \<Rightarrow> 'w hfs \<Rightarrow> (fsErr + hentry \<times> hentry) \<times> 'w hfs" where
  "stat_store ev l fname e s =
     (case l of
        Missing keys \<Rightarrow>
          (case at_dir keys (\<lambda>d. storeEntry (fe_os ev) (hf_disk s) d (fp_base fname) e) (hf_dir s) of
             Some (Stored ent e1, d) \<Rightarrow> (Inr (ent, e1), s\<lparr>hf_dir := d\<rparr>)
           | Some (StoreErr err, d) \<Rightarrow> (Inl err, s\<lparr>hf_dir := d\<rparr>)
           | _ \<Rightarrow> hfs_store ev fname e s)
      | _ \<Rightarrow> hfs_store ev fname e s)"

definition hfs_Stat :: "'w fsEnv \<Rightarrow> bytes \<Rightarrow> bytes \<Rightarrow> 'w hfs \<Rightarrow> (fsErr + hentry) \<times> 'w hfs" where
  "hfs_Stat ev root fname s =
     (case dirLookup (hf_dir s) root fname of
        Found e keys \<Rightarrow>
          (case ei_err (he_info e) of
             Some err \<Rightarrow> (Inl err, s)
           | None \<Rightarrow>
               if he_dir e = None then (Inr e, s)
               else case refresh_dir ev (fp_join [root, fname]) e s of
                   Inl err \<Rightarrow> (Inl err, s)
                 | Inr e' \<Rightarrow> (Inr e', s\<lparr>hf_dir := upd_at keys (\<lambda>_. e') (hf_dir s)\<rparr>))
      | l \<Rightarrow>
          let full = (if isAbs fname then fname else fp_join [root, fname]) in
          (case stat_store ev l full (local_entry ev s full) s of
             (Inl err, s1) \<Rightarrow> (Inl err, s1)
           | (Inr (ent, _), s1) \<Rightarrow> (case ei_err (he_info ent) of Some err \<Rightarrow> (Inl err, s1) | None \<Rightarrow> (Inr ent, s1))))"

definition hfs_ReadFile :: "'w fsEnv \<Rightarrow> bytes \<Rightarrow> bytes \<Rightarrow> 'w hfs \<Rightarrow> (fsErr + bytes) \<times> 'w hfs" where
  "hfs_ReadFile ev root fname0 s =
     (let fname = fp_join [root, fname0] in
      case load_entry ev fname s of
        (Inl err, s1) \<Rightarrow> (Inl err, s1)
      | (Inr e, s1) \<Rightarrow>
          (case ei_err (he_info e) of
             Some err \<Rightarrow> (Inl err, s1)
           | None \<Rightarrow>
               if ei_buf (he_info e) \<noteq> [] then (Inr (ei_buf (he_info e)), s1)
               else
                 let e1 = snd (entry_compute ev (hf_disk s1) e) in
                 if digest_IsZero (ei_d (he_info e1)) then (Inl (ErrOther ''no data''), s1)
                 else (read_source ev (hf_disk s1) (ei_src (he_info e1)), s1)))"

definition new_info :: "'w fsEnv \<Rightarrow> 'w hfs \<Rightarrow> nat \<Rightarrow> bytes \<Rightarrow> einfo" where
  "new_info ev s mtime cmdhash =
     zero_info\<lparr>ei_mtime := mtime, ei_cmdhash := cmdhash, ei_updatedTime := os_now (fe_os ev) (hf_disk s), ei_isChanged := True\<rparr>"

definition hfs_WriteFile :: "'w fsEnv \<Rightarrow> bytes \<Rightarrow> bytes \<Rightarrow> bytes \<Rightarrow> bool \<Rightarrow> nat \<Rightarrow> bytes \<Rightarrow> 'w hfs \<Rightarrow> fsErr option \<times> 'w hfs" where
  "hfs_WriteFile ev root fname b executable mtime cmdhash s =
     (let d = ofBytes (fe_sha256 ev) b;
          e = HEntry ((new_info ev s mtime cmdhash)\<lparr>ei_size := dg_SizeBytes d, ei_mode := reg_mode\<lparr>md_perm := (if executable then 493 else 420)\<rparr>,
            ei_src := BytesSource b, ei_d := d, ei_buf := b\<rparr>) None in
      store_journal ev (fp_join [root, fname]) e (s\<lparr>hf_clean := False\<rparr>))"

definition hfs_Symlink :: "'w fsEnv \<Rightarrow> bytes \<Rightarrow> bytes \<Rightarrow> bytes \<Rightarrow> nat \<Rightarrow> bytes \<Rightarrow> 'w hfs \<Rightarrow> fsErr option \<times> 'w hfs" where
  "hfs_Symlink ev root target linkpath mtime cmdhash s =
     store_journal ev (fp_join [root, linkpath])
       (HEntry ((new_info ev s mtime cmdhash)\<lparr>ei_mode := reg_mode\<lparr>md_symlink := True\<rparr>, ei_target := target\<rparr>) None) (s\<lparr>hf_clean := False\<rparr>)"

definition hfs_Copy :: "'w fsEnv \<Rightarrow> bytes \<Rightarrow> bytes \<Rightarrow> bytes \<Rightarrow> nat \<Rightarrow> bytes \<Rightarrow> 'w hfs \<Rightarrow> fsErr option \<times> 'w hfs" where
  "hfs_Copy ev root src dst mtime cmdhash s =
     (case load_entry ev (if isAbs src then src else fp_join [root, src]) (s\<lparr>hf_clean := False\<rparr>) of
        (Inl err, s1) \<Rightarrow> (Some err, s1)
      | (Inr e0, s1) \<Rightarrow>
          (case ei_err (he_info e0) of
             Some err \<Rightarrow> (Some err, s1)
           | None \<Rightarrow>
               if he_dir e0 \<noteq> None then (Some (ErrOther ''is a directory''), s1)
               else
                 let e = (if ei_target (he_info e0) = [] then snd (entry_compute ev (hf_disk s1) e0) else e0); i = he_info e in
                 store_journal ev (fp_join [root, dst])
                   (HEntry ((new_info ev s1 mtime cmdhash)\<lparr>ei_size := ei_size i, ei_mode := ei_mode i, ei_target := ei_target i,
                     ei_src := ei_src i, ei_d := ei_d i, ei_buf := ei_buf i\<rparr>) None) s1))"

definition hfs_Mkdir :: "'w fsEnv \<Rightarrow> bytes \<Rightarrow> bytes \<Rightarrow> bytes \<Rightarrow> 'w hfs \<Rightarrow> fsErr option \<times> 'w hfs" where
  "hfs_Mkdir ev root dirname0 cmdhash s0 =
     (let s = s0\<lparr>hf_clean := False\<rparr>; dirname = fp_join [root, dirname0]; os = fe_os ev; w = hf_disk s; now = os_now os w;
          made = (case os_lstat os dirname w of
            Inr fi \<Rightarrow> if oi_type fi = FDir then (Inr now, snd (os_chtimes os dirname now w)) else
              (case os_mkdirAll os dirname w of
                 (Some err, w1) \<Rightarrow> (Inl err, w1)
               | (None, w1) \<Rightarrow> (case os_lstat os dirname w1 of Inl err \<Rightarrow> (Inl err, w1) | Inr fi' \<Rightarrow> (Inr (max now (oi_mtime fi')), w1)))
          | Inl _ \<Rightarrow>
              (case os_mkdirAll os dirname w of
                 (Some err, w1) \<Rightarrow> (Inl err, w1)
               | (None, w1) \<Rightarrow> (case os_lstat os dirname w1 of Inl err \<Rightarrow> (Inl err, w1) | Inr fi' \<Rightarrow> (Inr (max now (oi_mtime fi')), w1)))) in
      case made of
        (Inl err, w1) \<Rightarrow> (Some err, s\<lparr>hf_disk := w1\<rparr>)
      | (Inr mtime, w1) \<Rightarrow>
          let s1 = s\<lparr>hf_disk := w1\<rparr>;
              e = HEntry ((new_info ev s1 mtime cmdhash)\<lparr>ei_mode := reg_mode\<lparr>md_dir := True\<rparr>\<rparr>) (Some empty_dir) in
          (case dirStoreAndNotify ev dirname e s1 of
             (Inl err, s2) \<Rightarrow> (Some err, s2)
           | (Inr (_, e1), s2) \<Rightarrow> (None, if cmdhash \<noteq> [] then journalEntry ev dirname e1 s2 else s2)))"

definition tombstone :: "fsErr \<Rightarrow> hentry" where
  "tombstone err = HEntry (zero_info\<lparr>ei_err := Some err\<rparr>) None"

definition hfs_Remove :: "'w fsEnv \<Rightarrow> bytes \<Rightarrow> bytes \<Rightarrow> 'w hfs \<Rightarrow> fsErr option \<times> 'w hfs" where
  "hfs_Remove ev root fname s =
     (case hfs_store ev (fp_join [root, fname]) (tombstone ErrNotExist) (s\<lparr>hf_clean := False\<rparr>) of
        (Inl err, s1) \<Rightarrow> (Some err, s1) | (Inr _, s1) \<Rightarrow> (None, s1))"

definition hfs_RemoveAll :: "'w fsEnv \<Rightarrow> bytes \<Rightarrow> bytes \<Rightarrow> 'w hfs \<Rightarrow> fsErr option \<times> 'w hfs" where
  "hfs_RemoveAll ev root name0 s =
     (let name = fp_join [root, name0] in
      case os_removeAll (fe_os ev) name (hf_disk s) of (err, w1) \<Rightarrow>
        (case hfs_store ev name (tombstone (case err of None \<Rightarrow> ErrNotExist | Some x \<Rightarrow> x)) (s\<lparr>hf_clean := False, hf_disk := w1\<rparr>) of
           (Inl e, s1) \<Rightarrow> (Some e, s1) | (Inr _, s1) \<Rightarrow> (None, s1)))"

definition hfs_Forget :: "bytes \<Rightarrow> bytes list \<Rightarrow> 'w hfs \<Rightarrow> 'w hfs" where
  "hfs_Forget root inputs s = s\<lparr>hf_dir := fold (\<lambda>fname. dir_delete (fp_join [root, fname])) inputs (hf_dir s)\<rparr>"

fun hfs_Availables :: "'w fsEnv \<Rightarrow> bytes \<Rightarrow> bytes list \<Rightarrow> 'w hfs \<Rightarrow> bytes list \<times> 'w hfs" where
  "hfs_Availables ev root [] s = ([], s)"
| "hfs_Availables ev root (f # fs) s =
     (case hfs_Stat ev root f s of (r, s1) \<Rightarrow>
        (case hfs_Availables ev root fs s1 of (rest, s2) \<Rightarrow> (if r = Inl ErrNotExist then rest else f # rest, s2)))"

end
