(* ===== verification/Hash_Update.thy ===== *)
theory Hash_Update
  imports Hash_FS
begin

text \<open>
  The operations of the hash file system that serve build steps (\<open>Entries\<close>, \<open>Update\<close>,
  \<open>RetrieveUpdateEntries\<close>, \<open>RetrieveUpdateEntriesFromLocal\<close>, \<open>ReadDir\<close> of \<open>hashfs/fs.go\<close>). An
  entry that \<open>Update\<close> changes in place is not stored again: it is the entry of its name.
\<close>

section \<open>Entries of inputs\<close>

text \<open>A list of operations that stops at the first error.\<close>

fun load_entries :: "'w fsEnv \<Rightarrow> bytes \<Rightarrow> bytes list \<Rightarrow> 'w hfs \<Rightarrow> (fsErr + hentry list) \<times> 'w hfs" where
  "load_entries ev root [] s = (Inr [], s)"
| "load_entries ev root (f # fs) s =
     (case load_entry ev (fp_join [root, f]) s of
        (Inl err, s1) \<Rightarrow> (Inl err, s1)
      | (Inr e, s1) \<Rightarrow>
          (case load_entries ev root fs s1 of
             (Inl err, s2) \<Rightarrow> (Inl err, s2)
           | (Inr es, s2) \<Rightarrow> (Inr (snd (entry_compute ev (hf_disk s1) e) # es), s2)))"

text \<open>
  The loop that follows a link out of the root: \<open>None\<close> for the link itself, if it points below the
  root, otherwise the entry that was reached last.
\<close>

fun follow_links :: "nat \<Rightarrow> 'w fsEnv \<Rightarrow> bytes \<Rightarrow> bytes \<Rightarrow> hentry \<Rightarrow> hentry option \<Rightarrow> 'w hfs \<Rightarrow> (fsErr + hentry option) \<times> 'w hfs" where
  "follow_links 0 ev root name elink r s = (Inr r, s)"
| "follow_links (Suc n) ev root name elink r s =
     (let target = ei_target (he_info elink);
          tname = (if isAbs target then target else fp_join [fp_dir name, target]) in
      if has_prefix tname (root @ ''/'') then (Inr r, s)
      else case load_entry ev tname s of
          (Inl err, s1) \<Rightarrow> (Inl err, s1)
        | (Inr e, s1) \<Rightarrow>
            if ei_err (he_info e) \<noteq> None \<or> ei_target (he_info e) = [] then (Inr (Some e), s1)
            else follow_links n ev root tname e (Some e) s1)"

definition entry_data_of :: "'w fsEnv \<Rightarrow> 'w \<Rightarrow> hentry \<Rightarrow> data" where
  "entry_data_of ev w e =
     \<lparr>da_digest = ei_d (he_info e), da_source = (case read_source ev w (ei_src (he_info e)) of Inl _ \<Rightarrow> None | Inr b \<Rightarrow> Some b)\<rparr>"

definition merkle_entry :: "'w fsEnv \<Rightarrow> 'w \<Rightarrow> bytes \<Rightarrow> hentry \<Rightarrow> entry" where
  "merkle_entry ev w fname e =
     \<lparr>en_Name = fname, en_Data = entry_data_of ev w e, en_IsExecutable = (md_perm (ei_mode (he_info e)) AND 73 \<noteq> 0), en_Target = ei_target (he_info e)\<rparr>"

definition skip_entry :: "hentry \<Rightarrow> bool" where
  "skip_entry e \<longleftrightarrow> ei_err (he_info e) \<noteq> None \<or> (digest_IsZero (ei_d (he_info e)) \<and> ei_target (he_info e) = [] \<and> he_dir e = None)"

fun merkle_entries :: "'w fsEnv \<Rightarrow> bytes \<Rightarrow> (bytes \<times> hentry) list \<Rightarrow> 'w hfs \<Rightarrow> (fsErr + entry list) \<times> 'w hfs" where
  "merkle_entries ev root [] s = (Inr [], s)"
| "merkle_entries ev root ((fname, e) # es) s =
     (if skip_entry e then merkle_entries ev root es s
      else
        case (if ei_target (he_info e) = [] then (Inr None, s) else follow_links maxSymlinks ev root (fp_join [root, fname]) e None s) of
          (Inl err, s1) \<Rightarrow> (Inl err, s1)
        | (Inr r, s1) \<Rightarrow>
            let x = (case r of None \<Rightarrow> e | Some elink \<Rightarrow> snd (entry_compute ev (hf_disk s1) elink)) in
            (case merkle_entries ev root es s1 of
               (Inl err, s2) \<Rightarrow> (Inl err, s2)
             | (Inr rest, s2) \<Rightarrow> (Inr (merkle_entry ev (hf_disk s1) fname x # rest), s2)))"

definition hfs_Entries :: "'w fsEnv \<Rightarrow> bytes \<Rightarrow> bytes list \<Rightarrow> 'w hfs \<Rightarrow> (fsErr + entry list) \<times> 'w hfs" where
  "hfs_Entries ev root inputs s =
     (case load_entries ev root inputs s of
        (Inl err, s1) \<Rightarrow> (Inl err, s1)
      | (Inr es, s1) \<Rightarrow> merkle_entries ev root (zip inputs es) s1)"

section \<open>Updates\<close>

definition chtimes_changed :: "'w fsEnv \<Rightarrow> bytes \<Rightarrow> bool \<Rightarrow> nat \<Rightarrow> 'w hfs \<Rightarrow> fsErr option \<times> 'w hfs" where
  "chtimes_changed ev fname cond mtime s =
     (if \<not> cond then (None, s)
      else case os_chtimes (fe_os ev) fname mtime (hf_disk s) of
          (err, w1) \<Rightarrow> (if err = Some ErrNotExist then None else err, s\<lparr>hf_disk := w1\<rparr>))"

definition upd_from :: "updateEntry \<Rightarrow> einfo \<Rightarrow> einfo" where
  "upd_from ent i = i\<lparr>ei_mtime := ue_ModTime ent, ei_cmdhash := ue_CmdHash ent, ei_action := ue_Action ent,
     ei_updatedTime := ue_UpdatedTime ent, ei_isChanged := ue_IsChanged ent\<rparr>"

text \<open>An entry without digest: it was read from the local disk.\<close>

definition update_local :: "'w fsEnv \<Rightarrow> bytes \<Rightarrow> updateEntry \<Rightarrow> 'w hfs \<Rightarrow> fsErr option \<times> 'w hfs" where
  "update_local ev execRoot ent s =
     (let fname = fp_join [execRoot, ue_Name ent] in
      case dirLookup (hf_dir s) execRoot (ue_Name ent) of
        Found e0 keys \<Rightarrow>
          let (r, s1, e) =
            (if ei_mtime (he_info e0) = ue_ModTime ent \<or> he_dir e0 \<noteq> None then
               let e = upd_info (\<lambda>i. (upd_from ent i)\<lparr>ei_mode := ue_Mode ent\<rparr>) e0 in
               (None, s\<lparr>hf_dir := upd_at keys (\<lambda>_. e) (hf_dir s), hf_notified := hf_notified s @ [fname]\<rparr>, e)
             else
               let e = upd_info (upd_from ent) (local_entry ev s fname) in
               (case dirStoreAndNotify ev fname e s of (Inl err, s1) \<Rightarrow> (Some err, s1, e) | (Inr (_, e1), s1) \<Rightarrow> (None, s1, e1))) in
          (case r of
             Some err \<Rightarrow> (Some err, s1)
           | None \<Rightarrow>
               chtimes_changed ev fname (ue_IsLocal ent \<and> ei_isChanged (he_info e) \<and> ei_target (he_info e) = []) (ei_mtime (he_info e))
                 (journalEntry ev fname e s1))
      | _ \<Rightarrow> (None, s))"

definition source_of :: "digest \<Rightarrow> bytes option \<Rightarrow> source" where
  "source_of d b = (case b of None \<Rightarrow> DataSource d [] | Some x \<Rightarrow> BytesSource x)"

definition update_entry_info :: "updateEntry \<Rightarrow> entry \<Rightarrow> hentry" where
  "update_entry_info ent en =
     (let i = (upd_from ent zero_info)\<lparr>ei_need := \<not> ue_IsLocal ent\<rparr>; m = ue_Mode ent in
      if \<not> data_IsZero (en_Data en) then
        HEntry (i\<lparr>ei_size := dg_SizeBytes (da_digest (en_Data en)),
          ei_mode := (if en_IsExecutable en then m\<lparr>md_perm := md_perm m OR 73\<rparr> else m),
          ei_src := source_of (da_digest (en_Data en)) (da_source (en_Data en)), ei_d := da_digest (en_Data en)\<rparr>) None
      else if en_Target en \<noteq> [] then HEntry (i\<lparr>ei_mode := m\<lparr>md_symlink := True\<rparr>, ei_target := en_Target en\<rparr>) None
      else HEntry (i\<lparr>ei_mode := m\<lparr>md_dir := True\<rparr>\<rparr>) (Some empty_dir))"

definition update_one :: "'w fsEnv \<Rightarrow> bytes \<Rightarrow> updateEntry \<Rightarrow> 'w hfs \<Rightarrow> fsErr option \<times> 'w hfs" where
  "update_one ev execRoot ent s =
     (case ue_Entry ent of
        None \<Rightarrow> update_local ev execRoot ent s
      | Some en \<Rightarrow>
          let fname = fp_join [execRoot, ue_Name ent]; e = update_entry_info ent en in
          (case store_journal ev fname e s of
             (Some err, s1) \<Rightarrow> (Some err, s1)
           | (None, s1) \<Rightarrow>
               if \<not> data_IsZero (en_Data en) then chtimes_changed ev fname (ue_IsLocal ent \<and> ue_IsChanged ent) (ue_ModTime ent) s1
               else if en_Target en \<noteq> [] then (None, s1)
               else (None, s1\<lparr>hf_disk := snd (os_chtimes (fe_os ev) fname (ue_ModTime ent) (hf_disk s1))\<rparr>)))"

fun update_all :: "'w fsEnv \<Rightarrow> bytes \<Rightarrow> updateEntry list \<Rightarrow> 'w hfs \<Rightarrow> fsErr option \<times> 'w hfs" where
  "update_all ev execRoot [] s = (None, s)"
| "update_all ev execRoot (ent # ents) s =
     (case update_one ev execRoot ent s of (Some err, s1) \<Rightarrow> (Some err, s1) | (None, s1) \<Rightarrow> update_all ev execRoot ents s1)"

definition hfs_Update :: "'w fsEnv \<Rightarrow> bytes \<Rightarrow> updateEntry list \<Rightarrow> 'w hfs \<Rightarrow> fsErr option \<times> 'w hfs" where
  "hfs_Update ev execRoot entries s = update_all ev execRoot (sort_key ue_Name entries) (s\<lparr>hf_clean := False\<rparr>)"

section \<open>Reading entries for updates\<close>

fun hfs_RetrieveUpdateEntries_loop :: "'w fsEnv \<Rightarrow> bytes \<Rightarrow> entry list \<Rightarrow> 'w hfs \<Rightarrow> updateEntry list \<times> 'w hfs" where
  "hfs_RetrieveUpdateEntries_loop ev root [] s = ([], s)"
| "hfs_RetrieveUpdateEntries_loop ev root (en # ens) s =
     (case hfs_Stat ev root (en_Name en) s of
        (Inl _, s1) \<Rightarrow> hfs_RetrieveUpdateEntries_loop ev root ens s1
      | (Inr fi, s1) \<Rightarrow>
          (case hfs_RetrieveUpdateEntries_loop ev root ens s1 of (rest, s2) \<Rightarrow>
             (let i = he_info fi in
              (\<lparr>ue_Name = en_Name en, ue_Entry = Some en, ue_Mode = ei_mode i, ue_ModTime = ei_mtime i, ue_CmdHash = ei_cmdhash i, ue_Action = ei_action i,
                ue_UpdatedTime = ei_updatedTime i, ue_IsChanged = ei_isChanged i, ue_IsLocal = False\<rparr> # rest, s2))))"

definition hfs_RetrieveUpdateEntries :: "'w fsEnv \<Rightarrow> bytes \<Rightarrow> bytes list \<Rightarrow> 'w hfs \<Rightarrow> updateEntry list \<times> 'w hfs" where
  "hfs_RetrieveUpdateEntries ev root fnames s =
     (case hfs_Entries ev root fnames s of
        (Inl _, s1) \<Rightarrow> ([], s1)
      | (Inr ents, s1) \<Rightarrow> hfs_RetrieveUpdateEntries_loop ev root ents s1)"

definition os_mode :: "osInfo \<Rightarrow> mode" where
  "os_mode fi = \<lparr>md_perm = oi_perm fi, md_dir = (oi_type fi = FDir), md_symlink = (oi_type fi = FSymlink)\<rparr>"

fun hfs_RetrieveUpdateEntriesFromLocal :: "'w fsEnv \<Rightarrow> bytes \<Rightarrow> bytes list \<Rightarrow> 'w hfs \<Rightarrow> updateEntry list \<times> 'w hfs" where
  "hfs_RetrieveUpdateEntriesFromLocal ev root [] s = ([], s)"
| "hfs_RetrieveUpdateEntriesFromLocal ev root (f # fs) s =
     (let full = fp_join [root, f] in
      case os_lstat (fe_os ev) full (hf_disk s) of
        Inl _ \<Rightarrow> hfs_RetrieveUpdateEntriesFromLocal ev root fs (s\<lparr>hf_dir := dir_delete full (hf_dir s)\<rparr>)
      | Inr lfi \<Rightarrow>
          let s1 = (if oi_type lfi \<noteq> FDir then s\<lparr>hf_dir := dir_delete full (hf_dir s)\<rparr> else s);
              (r, s2) = hfs_Stat ev root f s1;
              i = (case r of Inl _ \<Rightarrow> zero_info | Inr fi \<Rightarrow> he_info fi);
              (rest, s3) = hfs_RetrieveUpdateEntriesFromLocal ev root fs s2 in
          (\<lparr>ue_Name = f, ue_Entry = None, ue_Mode = os_mode lfi, ue_ModTime = oi_mtime lfi, ue_CmdHash = ei_cmdhash i, ue_Action = ei_action i,
            ue_UpdatedTime = ei_updatedTime i, ue_IsChanged = ei_isChanged i, ue_IsLocal = True\<rparr> # rest, s3))"

section \<open>Directories\<close>

text \<open>The names of a directory on the disk are entered in the tree if the directory changed since.\<close>

fun stat_names :: "'w fsEnv \<Rightarrow> bytes \<Rightarrow> bytes list \<Rightarrow> 'w hfs \<Rightarrow> 'w hfs" where
  "stat_names ev dname [] s = s"
| "stat_names ev dname (n # ns) s =
     stat_names ev dname ns (if fe_ignore ev (fp_join [dname, n]) then s else snd (hfs_Stat ev dname n s))"

definition updateDir :: "'w fsEnv \<Rightarrow> bytes \<Rightarrow> bytes list \<Rightarrow> hentry \<Rightarrow> 'w hfs \<Rightarrow> 'w hfs" where
  "updateDir ev dname keys e s =
     (case (os_lstat (fe_os ev) dname (hf_disk s), os_readdirnames (fe_os ev) dname (hf_disk s), he_dir e) of
        (Inr fi, Inr names, Some sdir) \<Rightarrow>
          if oi_type fi \<noteq> FDir \<or> oi_mtime fi = hd_mtime sdir then s
          else
            let s1 = stat_names ev dname names s;
                stamp = (\<lambda>e. HEntry ((he_info e)\<lparr>ei_mtime := max (ei_mtime (he_info e)) (oi_mtime fi)\<rparr>)
                  (map_option (\<lambda>x. HDir (oi_mtime fi) (hd_m x)) (he_dir e))) in
            s1\<lparr>hf_dir := upd_at keys stamp (hf_dir s1)\<rparr>
      | _ \<Rightarrow> s)"

definition hfs_ReadDir :: "'w fsEnv \<Rightarrow> bytes \<Rightarrow> bytes \<Rightarrow> 'w hfs \<Rightarrow> (fsErr + (bytes \<times> hentry) list) \<times> 'w hfs" where
  "hfs_ReadDir ev root name s =
     (let dname = (if isAbs name then name else fp_join [root, name]) in
      case load_entry ev dname s of
        (Inl err, s1) \<Rightarrow> (Inl err, s1)
      | (Inr e, s1) \<Rightarrow>
          (case ei_err (he_info e) of
             Some err \<Rightarrow> (Inl err, s1)
           | None \<Rightarrow>
               if he_dir e = None then (Inl (ErrOther ''not dir''), s1)
               else
                 (case dir_lookup (hf_dir s1) dname of
                    Found e1 keys \<Rightarrow>
                      let s2 = updateDir ev dname keys e1 s1 in
                      (case dir_lookup (hf_dir s2) dname of
                         Found e2 _ \<Rightarrow>
                           (Inr (map (\<lambda>(n, x). (fp_join [dname, n], x))
                             (filter (\<lambda>(n, x). ei_err (he_info x) = None) (case he_dir e2 of None \<Rightarrow> [] | Some sdir \<Rightarrow> hd_m sdir))), s2)
                       | _ \<Rightarrow> (Inr [], s2))
                  | _ \<Rightarrow> (Inr [], s1))))"

end
