(* ===== verification/Hash_Flush.thy ===== *)
theory Hash_Flush
  imports Hash_FS
begin

text \<open>
  Writing entries to the local disk (\<open>entry.flush\<close> and \<open>HashFS.Flush\<close> of \<open>hashfs/fs.go\<close>). What a
  disk does is the locale \<open>local_disk\<close>: laws of the package \<open>os\<close> that the code relies on. It is
  interpreted by a disk in memory. \<open>osfs.HasClonefile\<close> is false, as on Linux.
\<close>

section \<open>Flushing an entry\<close>

definition write_times :: "'w os \<Rightarrow> bytes \<Rightarrow> nat \<Rightarrow> fsErr option \<times> 'w \<Rightarrow> fsErr option \<times> 'w" where
  "write_times os fname mtime m = (case m of (Some err, w) \<Rightarrow> (Some err, w) | (None, w) \<Rightarrow> os_chtimes os fname mtime w)"

definition flush_dir :: "'w os \<Rightarrow> bytes \<Rightarrow> nat \<Rightarrow> 'w \<Rightarrow> fsErr option \<times> 'w" where
  "flush_dir os fname mtime w =
     (if (case os_lstat os fname w of Inl _ \<Rightarrow> False | Inr fi \<Rightarrow> oi_type fi = FDir \<and> oi_mtime fi = mtime) then (None, w)
      else write_times os fname mtime (os_mkdirAll os fname w))"

definition flush_symlink :: "'w os \<Rightarrow> bytes \<Rightarrow> bytes \<Rightarrow> 'w \<Rightarrow> fsErr option \<times> 'w" where
  "flush_symlink os fname target w =
     (if os_readlink os fname w = Inr target then (None, w)
      else case os_symlink os target fname w of
          (Some ErrExist, w1) \<Rightarrow> (case os_remove os fname w1 of (None, w2) \<Rightarrow> os_symlink os target fname w2 | (Some err, w2) \<Rightarrow> (Some err, w2))
        | r \<Rightarrow> r)"

text \<open>
  What is found on the disk where a file is to be written: an error, a file that is or is made the
  same, or a file that is written, removed before if the flag says so.
\<close>

datatype 'w there = FlushDone "fsErr option" 'w | FlushWrite bool 'w

definition check_file :: "'w fsEnv \<Rightarrow> bytes \<Rightarrow> digest \<Rightarrow> nat \<Rightarrow> 'w \<Rightarrow> 'w there" where
  "check_file ev fname d mtime w =
     (let os = fe_os ev in
      case os_lstat os fname w of
        Inl _ \<Rightarrow> FlushWrite False w
      | Inr fi \<Rightarrow>
          if oi_type fi = FDir then FlushDone (Some (ErrOther ''EISDIR'')) w
          else if oi_size fi = dg_SizeBytes d \<and> oi_mtime fi = mtime then FlushDone None w
          else
            let rm = (oi_hardlink fi \<or> oi_type fi \<noteq> FRegular) in
            if \<not> rm \<and> oi_size fi = dg_SizeBytes d \<and> (case os_readFile os fname w of Inl _ \<Rightarrow> False | Inr b \<Rightarrow> ofBytes (fe_sha256 ev) b = d)
            then (if oi_mtime fi \<noteq> mtime then (case os_chtimes os fname mtime w of (err, w1) \<Rightarrow> FlushDone err w1) else FlushDone None w)
            else FlushWrite rm (if \<not> rm \<and> (oi_perm fi AND 128) = 0 then snd (os_chmod os fname (oi_perm fi OR 128) w) else w))"

definition remove_first :: "'w os \<Rightarrow> bool \<Rightarrow> bytes \<Rightarrow> 'w \<Rightarrow> 'w" where
  "remove_first os rm fname w = (if rm then snd (os_remove os fname w) else w)"

definition tmp_name :: "bytes \<Rightarrow> bytes" where
  "tmp_name fname = fp_join [fp_dir fname, ''.'' @ fp_base fname @ ''.tmp'']"

definition write_content :: "'w fsEnv \<Rightarrow> bytes \<Rightarrow> einfo \<Rightarrow> bool \<Rightarrow> 'w \<Rightarrow> fsErr option \<times> 'w" where
  "write_content ev fname i rm w =
     (let os = fe_os ev in
      if dg_SizeBytes (ei_d i) = 0 then os_writeFile os fname [] 420 (remove_first os rm fname w)
      else if ei_buf i \<noteq> [] then os_writeFile os fname (ei_buf i) (md_perm (ei_mode i)) (remove_first os rm fname w)
      else if digest_IsZero (ei_d i) then (Some (ErrOther ''no data''), w)
      else case read_source ev w (ei_src i) of
          Inl err \<Rightarrow> (Some err, w)
        | Inr b \<Rightarrow>
            (case os_writeFile os (tmp_name fname) b (md_perm (ei_mode i)) w of
               (Some err, w1) \<Rightarrow> (Some err, w1)
             | (None, w1) \<Rightarrow> os_rename os (tmp_name fname) fname (remove_first os rm fname w1)))"

definition flush_file :: "'w fsEnv \<Rightarrow> bytes \<Rightarrow> einfo \<Rightarrow> 'w \<Rightarrow> fsErr option \<times> 'w" where
  "flush_file ev fname i w =
     (case check_file ev fname (ei_d i) (ei_mtime i) w of
        FlushDone err w1 \<Rightarrow> (err, w1)
      | FlushWrite rm w1 \<Rightarrow>
          (case os_mkdirAll (fe_os ev) (fp_dir fname) w1 of
             (Some err, w2) \<Rightarrow> (Some (ErrOther ''failed to create directory''), w2)
           | (None, w2) \<Rightarrow> write_times (fe_os ev) fname (ei_mtime i) (write_content ev fname i rm w2)))"

definition entry_flush :: "'w fsEnv \<Rightarrow> bytes \<Rightarrow> hentry \<Rightarrow> 'w \<Rightarrow> fsErr option \<times> 'w" where
  "entry_flush ev fname e w =
     (let i = he_info e in
      if ei_err i = Some ErrNotExist then os_remove (fe_os ev) fname w
      else if he_dir e \<noteq> None then flush_dir (fe_os ev) fname (ei_mtime i) w
      else if digest_IsZero (ei_d i) \<and> ei_target i \<noteq> [] then flush_symlink (fe_os ev) fname (ei_target i) w
      else flush_file ev fname i w)"

section \<open>Flushing names\<close>

definition hfs_NeedFlush :: "'w fsEnv \<Rightarrow> bytes \<Rightarrow> bytes \<Rightarrow> bool" where
  "hfs_NeedFlush ev execRoot fname = fe_outputLocal ev (fp_join [execRoot, fname])"

text \<open>One name: an entry that is on the disk may only get a new time; another one is written.\<close>

definition flush_name :: "'w fsEnv \<Rightarrow> bytes \<Rightarrow> 'w hfs \<Rightarrow> fsErr option \<times> 'w hfs" where
  "flush_name ev fname s =
     (case dir_lookup (hf_dir s) fname of
        Found e keys \<Rightarrow>
          if \<not> ei_need (he_info e) then
            let (err, w1) = (if ei_mtimeUpdated (he_info e) \<and> ei_target (he_info e) = [] then os_chtimes (fe_os ev) fname (ei_mtime (he_info e)) (hf_disk s)
                  else (Some ErrExist, hf_disk s));
                s1 = s\<lparr>hf_disk := w1, hf_dir := (if err = None then upd_at keys (upd_info (\<lambda>i. i\<lparr>ei_mtimeUpdated := False\<rparr>)) (hf_dir s) else hf_dir s)\<rparr> in
            (case ei_err (he_info e) of None \<Rightarrow> (None, s1) | Some ErrNotExist \<Rightarrow> (None, s1) | Some x \<Rightarrow> (Some x, s1))
          else
            let e1 = snd (entry_compute ev (hf_disk s) e);
                (err, w1) = entry_flush ev fname e1 (hf_disk s);
                d1 = upd_at keys (\<lambda>_. upd_info (\<lambda>i. i\<lparr>ei_need := False\<rparr>) e1) (hf_dir s) in
            (err, s\<lparr>hf_disk := w1, hf_dir := (if err = Some ErrStatusNotFound then dir_delete fname d1 else d1)\<rparr>)
      | _ \<Rightarrow> (None, s))"

text \<open>The first error is returned; an error of an entry that is on the disk ends the loop.\<close>

fun hfs_Flush :: "'w fsEnv \<Rightarrow> bytes \<Rightarrow> bytes list \<Rightarrow> 'w hfs \<Rightarrow> fsErr option \<times> 'w hfs" where
  "hfs_Flush ev execRoot [] s = (None, s)"
| "hfs_Flush ev execRoot (f # fs) s =
     (let (err, s1) = flush_name ev (fp_join [execRoot, f]) s; (err2, s2) = hfs_Flush ev execRoot fs s1 in
      (case err of None \<Rightarrow> err2 | Some x \<Rightarrow> Some x, s2))"

section \<open>Disks\<close>

locale local_disk =
  fixes os :: "'w os"
  assumes write_read: "os_writeFile os f b m w = (None, w') \<Longrightarrow> (m AND 256) \<noteq> 0 \<Longrightarrow> os_readFile os f w' = Inr b"
    and rename_read: "os_rename os f g w = (None, w') \<Longrightarrow> os_readFile os g w' = os_readFile os f w"
    and remove_other: "os_remove os f w = (r, w') \<Longrightarrow> g \<noteq> f \<Longrightarrow> os_readFile os g w' = os_readFile os g w"
    and mkdir_read: "os_mkdirAll os f w = (r, w') \<Longrightarrow> os_readFile os g w = Inr b \<Longrightarrow> os_readFile os g w' = Inr b"
    and chmod_read: "os_chmod os f (oi_perm fi OR 128) w = (r, w') \<Longrightarrow> os_lstat os f w = Inr fi \<Longrightarrow> os_readFile os g w = Inr b \<Longrightarrow>
      os_readFile os g w' = Inr b"
    and chtimes_read: "os_chtimes os f t w = (r, w') \<Longrightarrow> os_readFile os g w' = os_readFile os g w"
begin

lemma write_times_read: "write_times os f t (m, w) = (None, w') \<Longrightarrow> m = None \<and> os_readFile os g w' = os_readFile os g w"
  using chtimes_read [of f t w None w' g] by (auto simp: write_times_def split: option.splits)

lemma remove_first_read: "g \<noteq> f \<Longrightarrow> os_readFile os g (remove_first os rm f w) = os_readFile os g w"
  using remove_other [of f w "fst (os_remove os f w)" "snd (os_remove os f w)" g] by (simp add: remove_first_def)

text \<open>Readable sources stay readable while the file is prepared.\<close>

lemma source_kept:
  assumes "fe_os ev = os" "read_source ev w src = Inr c" "\<And>g b. os_readFile os g w = Inr b \<Longrightarrow> os_readFile os g w' = Inr b"
  shows "read_source ev w' src = Inr c"
  using assms by (cases src) (auto simp: read_source_def)

lemma write_content_read:
  assumes "fe_os ev = os" "write_content ev fname i rm w = (None, w')" "ei_d i = ofBytes (fe_sha256 ev) c"
    and "(md_perm (ei_mode i) AND 256) \<noteq> 0" "tmp_name fname \<noteq> fname"
    and "ei_buf i \<noteq> [] \<Longrightarrow> ei_buf i = c" "ei_buf i = [] \<Longrightarrow> read_source ev w (ei_src i) = Inr c"
  shows "os_readFile os fname w' = Inr c"
proof (cases "c = []")
  case True
  then have "os_writeFile os fname [] 420 (remove_first os rm fname w) = (None, w')"
    using assms(1-3) by (simp add: write_content_def ofBytes_def)
  then show ?thesis using write_read [of fname "[]" 420] True by simp
next
  case False
  then have sz: "dg_SizeBytes (ei_d i) \<noteq> 0" using assms(3) by (simp add: ofBytes_def)
  show ?thesis
  proof (cases "ei_buf i = []")
    case True
    then have "\<not> digest_IsZero (ei_d i)" "read_source ev w (ei_src i) = Inr c"
      using assms(1,2,7) sz by (auto simp: write_content_def Let_def split: if_splits)
    then obtain w1 where w1: "os_writeFile os (tmp_name fname) c (md_perm (ei_mode i)) w = (None, w1)"
      "os_rename os (tmp_name fname) fname (remove_first os rm fname w1) = (None, w')"
      using assms(1,2) sz True by (auto simp: write_content_def Let_def split: prod.splits option.splits)
    have "os_readFile os (tmp_name fname) w1 = Inr c" by (rule write_read [OF w1(1) assms(4)])
    then show ?thesis using rename_read [OF w1(2)] remove_first_read [OF assms(5)] by simp
  next
    case buf: False
    then have "os_writeFile os fname c (md_perm (ei_mode i)) (remove_first os rm fname w) = (None, w')"
      using assms(1,2,6) sz by (simp add: write_content_def)
    then show ?thesis by (rule write_read [OF _ assms(4)])
  qed
qed

lemma check_file_write:
  assumes "fe_os ev = os" "check_file ev fname d t w = FlushWrite rm w1" "os_readFile os g w = Inr b"
  shows "os_readFile os g w1 = Inr b"
  using assms chmod_read [of fname _ w _ _ g b]
  by (auto simp: check_file_def Let_def split: sum.splits if_splits prod.splits) (metis prod.collapse)+

lemma check_file_done:
  assumes "fe_os ev = os" "check_file ev fname d t w = FlushDone None w1"
  shows "(\<exists>b. os_readFile os fname w1 = Inr b \<and> ofBytes (fe_sha256 ev) b = d) \<or>
    (w1 = w \<and> (\<exists>fi. os_lstat os fname w = Inr fi \<and> oi_size fi = dg_SizeBytes d \<and> oi_mtime fi = t))"
proof -
  obtain fi where fi: "os_lstat os fname w = Inr fi" using assms by (auto simp: check_file_def Let_def split: sum.splits)
  show ?thesis
  proof (cases "oi_size fi = dg_SizeBytes d \<and> oi_mtime fi = t")
    case True
    then show ?thesis using assms fi by (auto simp: check_file_def Let_def split: if_splits)
  next
    case False
    then obtain b where b: "os_readFile os fname w = Inr b" "ofBytes (fe_sha256 ev) b = d"
      using assms fi by (auto simp: check_file_def Let_def split: if_splits sum.splits)
    have "w1 = w \<or> os_chtimes os fname t w = (None, w1)"
      using assms fi False by (auto simp: check_file_def Let_def split: if_splits prod.splits)
    then have "os_readFile os fname w1 = Inr b" using b(1) chtimes_read [of fname t w None w1 fname] by auto
    then show ?thesis using b(2) by blast
  qed
qed

lemma flush_file_read:
  assumes "fe_os ev = os" "flush_file ev fname i w = (None, w')" "ei_d i = ofBytes (fe_sha256 ev) c"
    and "(md_perm (ei_mode i) AND 256) \<noteq> 0" "tmp_name fname \<noteq> fname"
    and "ei_buf i \<noteq> [] \<Longrightarrow> ei_buf i = c" "ei_buf i = [] \<Longrightarrow> read_source ev w (ei_src i) = Inr c"
  shows "(\<exists>b. os_readFile os fname w' = Inr b \<and> ofBytes (fe_sha256 ev) b = ei_d i) \<or>
    (w' = w \<and> (\<exists>fi. os_lstat os fname w = Inr fi \<and> oi_size fi = dg_SizeBytes (ei_d i) \<and> oi_mtime fi = ei_mtime i))"
proof (cases "check_file ev fname (ei_d i) (ei_mtime i) w")
  case (FlushDone err w1)
  then have "err = None" "w1 = w'" using assms(2) by (simp_all add: flush_file_def)
  then show ?thesis using check_file_done [OF assms(1)] FlushDone by blast
next
  case (FlushWrite rm w1)
  obtain w2 where m: "os_mkdirAll os (fp_dir fname) w1 = (None, w2)" "write_times os fname (ei_mtime i) (write_content ev fname i rm w2) = (None, w')"
    using assms(1,2) FlushWrite by (auto simp: flush_file_def split: prod.splits option.splits)
  obtain r w3 where wc: "write_content ev fname i rm w2 = (r, w3)" by fastforce
  have r: "r = None" "os_readFile os fname w' = os_readFile os fname w3"
    using write_times_read [of fname "ei_mtime i" r w3 w'] m(2) wc by simp_all
  have "read_source ev w2 (ei_src i) = Inr c" if "ei_buf i = []"
    by (rule source_kept [OF assms(1) assms(7) [OF that]])
      (use check_file_write [OF assms(1) FlushWrite] mkdir_read [OF m(1)] in blast)
  then have "os_readFile os fname w3 = Inr c"
    using write_content_read [OF assms(1) wc [unfolded r(1)] assms(3-6)] by blast
  then show ?thesis using r(2) assms(3) by auto
qed

end

section \<open>A disk in memory\<close>

text \<open>A disk whose directories need not exist before their files; links are not followed.\<close>

datatype node = NFile bytes nat nat | NDir nat | NLink bytes

type_synonym disk = "bytes \<Rightarrow> node option"

fun node_info :: "node \<Rightarrow> osInfo" where
  "node_info (NFile b m t) = \<lparr>oi_type = FRegular, oi_perm = m, oi_size = length b, oi_mtime = t, oi_hardlink = False\<rparr>"
| "node_info (NDir t) = \<lparr>oi_type = FDir, oi_perm = 493, oi_size = 0, oi_mtime = t, oi_hardlink = False\<rparr>"
| "node_info (NLink l) = \<lparr>oi_type = FSymlink, oi_perm = 511, oi_size = length l, oi_mtime = 0, oi_hardlink = False\<rparr>"

fun node_time :: "nat \<Rightarrow> node \<Rightarrow> node" where
  "node_time t (NFile b m _) = NFile b m t"
| "node_time t (NDir _) = NDir t"
| "node_time t (NLink l) = NLink l"

fun node_perm :: "nat \<Rightarrow> node \<Rightarrow> node" where
  "node_perm m (NFile b _ t) = NFile b m t"
| "node_perm m n = n"

definition mem_os :: "nat \<Rightarrow> disk os" where
  "mem_os now =
     \<lparr>os_now = (\<lambda>_. now),
      os_lstat = (\<lambda>f w. case w f of None \<Rightarrow> Inl ErrNotExist | Some n \<Rightarrow> Inr (node_info n)),
      os_readlink = (\<lambda>f w. case w f of Some (NLink l) \<Rightarrow> Inr l | _ \<Rightarrow> Inl (ErrOther ''EINVAL'')),
      os_readdirnames = (\<lambda>f w. Inl (ErrOther ''EINVAL'')),
      os_readFile = (\<lambda>f w. case w f of Some (NFile b m t) \<Rightarrow> Inr b | _ \<Rightarrow> Inl ErrNotExist),
      os_remove = (\<lambda>f w. if w f = None then (Some ErrNotExist, w) else (None, w(f := None))),
      os_removeAll = (\<lambda>f w. (None, \<lambda>g. if g = f \<or> has_prefix g (f @ ''/'') then None else w g)),
      os_mkdirAll = (\<lambda>f w. case w f of None \<Rightarrow> (None, w(f \<mapsto> NDir now)) | Some (NDir t) \<Rightarrow> (None, w) | Some _ \<Rightarrow> (Some (ErrOther ''ENOTDIR''), w)),
      os_chtimes = (\<lambda>f t w. case w f of None \<Rightarrow> (Some ErrNotExist, w) | Some n \<Rightarrow> (None, w(f \<mapsto> node_time t n))),
      os_chmod = (\<lambda>f m w. case w f of None \<Rightarrow> (Some ErrNotExist, w) | Some n \<Rightarrow> (None, w(f \<mapsto> node_perm m n))),
      os_symlink = (\<lambda>l f w. if w f = None then (None, w(f \<mapsto> NLink l)) else (Some ErrExist, w)),
      os_writeFile = (\<lambda>f b m w. case w f of Some (NDir t) \<Rightarrow> (Some (ErrOther ''EISDIR''), w) | _ \<Rightarrow> (None, w(f \<mapsto> NFile b m now))),
      os_rename = (\<lambda>f g w. case w f of None \<Rightarrow> (Some ErrNotExist, w) | Some n \<Rightarrow> (None, (w(f := None))(g \<mapsto> n)))\<rparr>"

lemma node_perm_file: "(case Some (node_perm t n) of Some (NFile b m t) \<Rightarrow> Inr b | _ \<Rightarrow> Inl ErrNotExist) = (case Some n of Some (NFile b m t) \<Rightarrow> Inr b | _ \<Rightarrow> Inl ErrNotExist)"
  by (cases n) simp_all

interpretation mem: local_disk "mem_os now"
proof
  show "os_readFile (mem_os now) f w' = Inr b" if "os_writeFile (mem_os now) f b m w = (None, w')" for f b m w w'
    using that by (auto simp: mem_os_def split: option.splits node.splits)
  show "os_readFile (mem_os now) g w' = os_readFile (mem_os now) f w" if "os_rename (mem_os now) f g w = (None, w')" for f g w w'
    using that by (auto simp: mem_os_def split: option.splits)
  show "os_readFile (mem_os now) g w' = os_readFile (mem_os now) g w" if "os_remove (mem_os now) f w = (r, w')" "g \<noteq> f" for f w r w' g
    using that by (auto simp: mem_os_def split: if_splits)
  show "os_readFile (mem_os now) g w' = Inr b" if "os_mkdirAll (mem_os now) f w = (r, w')" "os_readFile (mem_os now) g w = Inr b" for f w r w' g b
    using that by (auto simp: mem_os_def split: option.splits node.splits if_splits)
  show "os_readFile (mem_os now) g w' = Inr b"
    if "os_chmod (mem_os now) f (oi_perm fi OR 128) w = (r, w')" "os_readFile (mem_os now) g w = Inr b" for f fi w r w' g b
    using that node_perm_file by (auto simp: mem_os_def split: option.splits node.splits if_splits)
  show "os_readFile (mem_os now) g w' = os_readFile (mem_os now) g w" if "os_chtimes (mem_os now) f t w = (r, w')" for f t w r w' g
  proof (cases "w f")
    case (Some n)
    then have "w' = w(f \<mapsto> node_time t n)" using that by (simp add: mem_os_def)
    then show ?thesis using Some by (cases n) (simp_all add: mem_os_def)
  qed (use that in \<open>simp add: mem_os_def\<close>)
qed

section \<open>Properties\<close>

text \<open>
  C17: A flush that succeeds has one of two outcomes. The entry is a file with a digest of its content
  \<open>c\<close>, which it holds or which its source yields. Either the file on the disk has this digest afterwards,
  or the disk is untouched, because a file with the size and the time of the entry was there before;
  the hash of that file is not checked, so its content may differ. It is assumed of the disk that it
  obeys \<open>local_disk\<close>.
\<close>

theorem flush_content:
  assumes "local_disk (fe_os ev)" "entry_flush ev fname e w = (None, w')"
    and "ei_err (he_info e) = None" "he_dir e = None" "ei_target (he_info e) = []"
    and "ei_d (he_info e) = ofBytes (fe_sha256 ev) c" "(md_perm (ei_mode (he_info e)) AND 256) \<noteq> 0" "tmp_name fname \<noteq> fname"
    and "ei_buf (he_info e) \<noteq> [] \<longrightarrow> ei_buf (he_info e) = c" "ei_buf (he_info e) = [] \<longrightarrow> read_source ev w (ei_src (he_info e)) = Inr c"
  shows "(\<exists>b. os_readFile (fe_os ev) fname w' = Inr b \<and> ofBytes (fe_sha256 ev) b = ei_d (he_info e)) \<or>
    (w' = w \<and> (\<exists>fi. os_lstat (fe_os ev) fname w = Inr fi \<and> oi_size fi = dg_SizeBytes (ei_d (he_info e)) \<and> oi_mtime fi = ei_mtime (he_info e)))"
proof -
  have "flush_file ev fname (he_info e) w = (None, w')" using assms(2-5) by (simp add: entry_flush_def Let_def)
  then show ?thesis by (rule local_disk.flush_file_read [OF assms(1) refl _ assms(6-8)]) (use assms(9,10) in simp_all)
qed

definition example_env :: "disk fsEnv" where
  "example_env = \<lparr>fe_os = mem_os 5, fe_executables = [], fe_sha256 = (\<lambda>b. b), fe_fetch = (\<lambda>_ _. Inl ErrStatusNotFound),
     fe_outputLocal = (\<lambda>_. True), fe_ignore = (\<lambda>_. False)\<rparr>"

definition example_file :: "bytes \<Rightarrow> hentry" where
  "example_file c = HEntry (zero_info\<lparr>ei_size := length c, ei_mode := reg_mode, ei_src := BytesSource c, ei_d := ofBytes (\<lambda>b. b) c, ei_buf := c,
     ei_mtime := 3\<rparr>) None"

lemma example_tmp: "tmp_name ''/b/a'' = ''/b/.a.tmp''"
  by code_simp

theorem flush_content_witness:
  "\<exists>w'. entry_flush example_env ''/b/a'' (example_file ''xy'') (\<lambda>_. None) = (None, w') \<and>
     (\<exists>b. os_readFile (fe_os example_env) ''/b/a'' w' = Inr b \<and> ofBytes (\<lambda>b. b) b = ofBytes (\<lambda>b. b) ''xy'')"
proof -
  let ?e = "example_file ''xy''"
  have "fst (entry_flush example_env ''/b/a'' ?e (\<lambda>_. None)) = None" by code_simp
  then obtain w' where f: "entry_flush example_env ''/b/a'' ?e (\<lambda>_. None) = (None, w')" by (metis prod.collapse)
  have "local_disk (fe_os example_env)" by (simp add: example_env_def mem.local_disk_axioms)
  from flush_content [OF this f, of "''xy''"]
  have "\<exists>b. os_readFile (fe_os example_env) ''/b/a'' w' = Inr b \<and> ofBytes (\<lambda>b. b) b = ofBytes (\<lambda>b. b) ''xy''"
    by (auto simp: example_file_def example_env_def zero_info_def reg_mode_def example_tmp mem_os_def)
  then show ?thesis using f by blast
qed

end
