(* ===== verification/Hash_Links.thy ===== *)
theory Hash_Links
  imports Hash_Update Hash_Flush
begin

text \<open>Links that lead out of the exec root, in the entries of inputs.\<close>

definition link_state :: "disk hfs" where
  "link_state = \<lparr>hf_dir = empty_dir, hf_clean = True, hf_journal = [], hf_notified = [],
     hf_disk = [''/r'' \<mapsto> NDir 1, ''/r/l'' \<mapsto> NLink ''../x'']\<rparr>"

text \<open>
  A link below the exec root to a file outside of it that does not exist is not left out of the
  entries: it becomes an entry without data and without target, which is a directory for the tree that
  is sent to a worker.
\<close>

theorem escaped_link_is_directory:
  "\<exists>en. fst (hfs_Entries example_env ''/r'' [''l''] link_state) = Inr [en] \<and> en_Name en = ''l'' \<and> entry_IsDir en"
proof -
  have "fst (hfs_Entries example_env ''/r'' [''l''] link_state) =
    Inr [\<lparr>en_Name = ''l'', en_Data = \<lparr>da_digest = zero_digest, da_source = None\<rparr>, en_IsExecutable = False, en_Target = []\<rparr>]"
    by code_simp
  then show ?thesis by (simp add: entry_IsDir_def data_IsZero_def digest_IsZero_def zero_digest_def)
qed

end
