(* ===== verification/Hash_State.thy ===== *)
theory Hash_State
  imports Hash_Flush "HOL-Library.Multiset"
begin

text \<open>
  The saved state of the hash file system (\<open>hashfs/state.go\<close>): \<open>State\<close> turns the tree into a list of
  entries, \<open>Save\<close> and \<open>Load\<close> keep it in a file, \<open>loadJournal\<close> adds what an interrupted build wrote, and
  \<open>SetState\<close> puts the entries into a new tree after comparing them with the disk. The message encoding
  and the compressors are parameters. Times are the numbers of \<open>Hash_Dir\<close>, so that \<open>UnixNano\<close> and
  \<open>time.Unix\<close> are the identity; the time 0 of an entry of the tree is its zero time.
\<close>

section \<open>Messages\<close>

record pbEntry =
  pe_ModTime :: nat
  pe_Name :: bytes
  pe_Digest :: "digest option"
  pe_IsExecutable :: bool
  pe_Target :: bytes
  pe_CmdHash :: bytes
  pe_Action :: "digest option"
  pe_UpdatedTime :: nat

record pbState =
  ps_Entries :: "pbEntry list"
  ps_BuildTargets :: "bytes list option"

definition toDigest :: "digest option \<Rightarrow> digest" where
  "toDigest d = (case d of None \<Rightarrow> zero_digest | Some d \<Rightarrow> d)"

definition fromDigest :: "digest \<Rightarrow> digest option" where
  "fromDigest d = (if digest_IsZero d then None else Some d)"

section \<open>The state file\<close>

record fsOption =
  op_StateFile :: bytes
  op_GzipUsesBgzf :: bool
  op_CompressZstd :: bool
  op_CompressLevel :: nat

text \<open>
  The compressors and the message encoding. \<open>cd_bgzfDecode\<close> is \<open>None\<close> if the reader refuses the file with
  \<open>ErrNoBlockSize\<close>; \<open>cd_tmp\<close> is the name that \<open>CreateTemp\<close> chooses.
\<close>

record codec =
  cd_zstdDecode :: "bytes \<Rightarrow> fsErr + bytes"
  cd_gzipDecode :: "bytes \<Rightarrow> fsErr + bytes"
  cd_bgzfDecode :: "bytes \<Rightarrow> (fsErr + bytes) option"
  cd_zstdEncode :: "nat \<Rightarrow> bytes \<Rightarrow> fsErr + bytes"
  cd_gzipEncode :: "nat \<Rightarrow> bytes \<Rightarrow> fsErr + bytes"
  cd_bgzfEncode :: "nat \<Rightarrow> bytes \<Rightarrow> fsErr + bytes"
  cd_marshal :: "pbState \<Rightarrow> fsErr + bytes"
  cd_unmarshal :: "bytes \<Rightarrow> fsErr + pbState"
  cd_tmp :: "bytes \<Rightarrow> bytes"

definition isGzip :: "bytes \<Rightarrow> bool" where
  "isGzip b \<longleftrightarrow> length b \<ge> 2 \<and> b ! 0 = CHR 0x1f \<and> b ! 1 = CHR 0x8b"

definition isZstd :: "bytes \<Rightarrow> bool" where
  "isZstd b \<longleftrightarrow> length b \<ge> 4 \<and> b ! 0 = CHR 0x28 \<and> b ! 1 = CHR 0xb5 \<and> b ! 2 = CHR 0x2f \<and> b ! 3 = CHR 0xfd"

definition loadFile :: "codec \<Rightarrow> 'w os \<Rightarrow> fsOption \<Rightarrow> 'w \<Rightarrow> fsErr + bytes" where
  "loadFile cd os opts w =
     (case os_readFile os (op_StateFile opts) w of
        Inl err \<Rightarrow> Inl err
      | Inr b \<Rightarrow>
          if length b < 4 then Inl (ErrOther ''unexpected EOF'')
          else
            let magicBytes = take 4 b in
            if isZstd magicBytes then cd_zstdDecode cd b
            else if isGzip magicBytes then
              (if op_GzipUsesBgzf opts then (case cd_bgzfDecode cd b of None \<Rightarrow> cd_gzipDecode cd b | Some r \<Rightarrow> r)
               else cd_gzipDecode cd b)
            else Inl (ErrOther ''unknown compression format, neither gzip nor zstd?''))"

definition state_Load :: "codec \<Rightarrow> 'w os \<Rightarrow> fsOption \<Rightarrow> 'w \<Rightarrow> fsErr + pbState" where
  "state_Load cd os opts w = (case loadFile cd os opts w of Inl err \<Rightarrow> Inl err | Inr b \<Rightarrow> cd_unmarshal cd b)"

definition compress :: "codec \<Rightarrow> fsOption \<Rightarrow> bytes \<Rightarrow> fsErr + bytes" where
  "compress cd opts b =
     (if op_CompressZstd opts then cd_zstdEncode cd (op_CompressLevel opts) b
      else if op_GzipUsesBgzf opts then cd_bgzfEncode cd (op_CompressLevel opts) b
      else cd_gzipEncode cd (op_CompressLevel opts) b)"

text \<open>An error that is not \<open>ErrNotExist\<close>.\<close>

definition real_err :: "fsErr option \<Rightarrow> bool" where
  "real_err err \<longleftrightarrow> err \<noteq> None \<and> err \<noteq> Some ErrNotExist"

text \<open>The old file becomes the backup and the new one takes its place.\<close>

definition rotate :: "'w os \<Rightarrow> bytes \<Rightarrow> bytes \<Rightarrow> 'w \<Rightarrow> fsErr option \<times> 'w" where
  "rotate os stateFile tmp w =
     (case os_remove os (stateFile @ ''.0'') w of (err0, w1) \<Rightarrow>
        if real_err err0 then (err0, w1)
        else case os_rename os stateFile (stateFile @ ''.0'') w1 of (err1, w2) \<Rightarrow>
          if real_err err1 then (err1, w2) else os_rename os tmp stateFile w2)"

definition saveFile :: "codec \<Rightarrow> 'w os \<Rightarrow> bytes \<Rightarrow> fsOption \<Rightarrow> 'w \<Rightarrow> fsErr option \<times> 'w" where
  "saveFile cd os b opts w =
     (let tmp = cd_tmp cd (op_StateFile opts); failed = (\<lambda>err w. (Some err, snd (os_remove os tmp w))) in
      case os_writeFile os tmp [] 384 w of
        (Some err, w1) \<Rightarrow> (Some err, w1)
      | (None, w1) \<Rightarrow>
          (case compress cd opts b of
             Inl err \<Rightarrow> failed err w1
           | Inr z \<Rightarrow>
               (case os_writeFile os tmp z 384 w1 of
                  (Some err, w2) \<Rightarrow> failed err w2
                | (None, w2) \<Rightarrow>
                    (case rotate os (op_StateFile opts) tmp w2 of
                       (Some err, w3) \<Rightarrow> failed err w3
                     | (None, w3) \<Rightarrow> (None, w3)))))"

definition state_Save :: "codec \<Rightarrow> 'w os \<Rightarrow> pbState \<Rightarrow> fsOption \<Rightarrow> 'w \<Rightarrow> fsErr option \<times> 'w" where
  "state_Save cd os st opts w =
     (case cd_marshal cd st of
        Inl err \<Rightarrow> (Some err, w)
      | Inr b \<Rightarrow>
          (case saveFile cd os b opts w of
             (Some err, w1) \<Rightarrow> (Some err, w1)
           | (None, w1) \<Rightarrow>
               (case os_remove os (op_StateFile opts @ ''.journal'') w1 of
                  (err, w2) \<Rightarrow> (if err \<noteq> Some ErrNotExist then err else None, w2))))"

section \<open>Entries of the state\<close>

datatype entryStateType = EntryNoLocal | EntryBeforeLocal | EntryEqLocal | EntryAfterLocal

text \<open>The time of the file on the disk is \<open>None\<close> for the zero \<open>time.Time\<close>, which is not a time of a file.\<close>

definition stateType :: "nat \<Rightarrow> nat option \<Rightarrow> entryStateType" where
  "stateType entTime ftime =
     (case ftime of
        None \<Rightarrow> EntryNoLocal
      | Some t \<Rightarrow> if entTime < t then EntryBeforeLocal else if entTime = t then EntryEqLocal else EntryAfterLocal)"

definition newStateEntry :: "pbEntry \<Rightarrow> nat option \<Rightarrow> hentry \<times> entryStateType" where
  "newStateEntry ent ftime =
     (let et = stateType (pe_ModTime ent) ftime;
          d = toDigest (pe_Digest ent);
          mode = reg_mode\<lparr>md_perm := (if pe_IsExecutable ent then 493 else 420)\<rparr>;
          link = (digest_IsZero d \<and> pe_Target ent \<noteq> []);
          isDir = (digest_IsZero d \<and> pe_Target ent = []) in
      (HEntry (zero_info\<lparr>ei_need := (et = EntryNoLocal \<or> et = EntryAfterLocal),
          ei_size := dg_SizeBytes d, ei_mtime := pe_ModTime ent, ei_mode := mode\<lparr>md_symlink := link, md_dir := isDir\<rparr>,
          ei_updatedTime := max (pe_UpdatedTime ent) (pe_ModTime ent), ei_target := pe_Target ent,
          ei_src := (if digest_IsZero d then NoSource
                     else if et = EntryEqLocal then FileSource (pe_Name ent) else DataSource d (pe_Name ent)),
          ei_d := d\<rparr>) (if isDir then Some empty_dir else None), et))"

text \<open>The entry with the command that wrote it, as both branches of \<open>SetState\<close> make it.\<close>

definition state_entry :: "pbEntry \<Rightarrow> nat option \<Rightarrow> hentry" where
  "state_entry ent ftime =
     upd_info (\<lambda>i. i\<lparr>ei_cmdhash := pe_CmdHash ent, ei_action := toDigest (pe_Action ent)\<rparr>) (fst (newStateEntry ent ftime))"

section \<open>Putting a state into the tree\<close>

text \<open>What the goroutines of \<open>SetState\<close> share: the disk, the flag \<open>dirty\<close> and the counters.\<close>

record 'w setting =
  st_disk :: 'w
  st_dirty :: bool
  st_neq :: nat
  st_nnew :: nat
  st_nnotexist :: nat
  st_nfail :: nat
  st_ninvalidate :: nat

datatype verdict = Dropped | AsDir hentry | AsFile hentry bool

definition setting_fail :: "'w setting \<Rightarrow> 'w setting" where
  "setting_fail s = s\<lparr>st_nfail := st_nfail s + 1, st_dirty := True\<rparr>"

definition setting_invalid :: "'w setting \<Rightarrow> 'w setting" where
  "setting_invalid s = s\<lparr>st_ninvalidate := st_ninvalidate s + 1, st_dirty := True\<rparr>"

text \<open>A generated file with another time on the disk but the same content gets the time of the state.\<close>

definition reconcile :: "'w fsEnv \<Rightarrow> pbEntry \<Rightarrow> hentry \<Rightarrow> entryStateType \<Rightarrow> 'w setting \<Rightarrow> entryStateType \<times> 'w setting" where
  "reconcile ev ent e et s =
     (if \<not> digest_IsZero (ei_d (he_info e)) \<and> pe_CmdHash ent \<noteq> [] \<and> et \<noteq> EntryEqLocal \<and> \<not> st_dirty s \<and>
        (case os_readFile (fe_os ev) (pe_Name ent) (st_disk s) of Inl _ \<Rightarrow> False | Inr b \<Rightarrow> ofBytes (fe_sha256 ev) b = ei_d (he_info e))
      then (EntryEqLocal, s\<lparr>st_disk := snd (os_chtimes (fe_os ev) (pe_Name ent) (ei_mtime (he_info e)) (st_disk s))\<rparr>)
      else (et, s))"

definition judge :: "'w fsEnv \<Rightarrow> pbEntry \<Rightarrow> hentry \<Rightarrow> bool \<Rightarrow> entryStateType \<Rightarrow> 'w setting \<Rightarrow> verdict \<times> 'w setting" where
  "judge ev ent e isDir et s =
     (let kept = (if isDir then AsDir e else AsFile e (pe_CmdHash ent \<noteq> [])) in
      case et of
        EntryNoLocal \<Rightarrow>
          let s1 = s\<lparr>st_nnotexist := st_nnotexist s + 1, st_dirty := True\<rparr> in
          if pe_CmdHash ent = [] \<or> fe_outputLocal ev (pe_Name ent) then (Dropped, s1) else (kept, s1)
      | EntryBeforeLocal \<Rightarrow> (Dropped, setting_invalid s)
      | EntryEqLocal \<Rightarrow> (kept, s\<lparr>st_neq := st_neq s + 1\<rparr>)
      | EntryAfterLocal \<Rightarrow>
          let s1 = s\<lparr>st_nnew := st_nnew s + 1, st_dirty := True\<rparr> in
          if pe_CmdHash ent = [] then (Dropped, s1) else (kept, s1))"

text \<open>One entry: the body of the goroutine.\<close>

definition set_entry :: "'w fsEnv \<Rightarrow> pbEntry \<Rightarrow> 'w setting \<Rightarrow> (fsErr + verdict) \<times> 'w setting" where
  "set_entry ev ent s =
     (if fe_ignore ev (pe_Name ent) then (Inr Dropped, s)
      else case os_lstat (fe_os ev) (pe_Name ent) (st_disk s) of
          Inl ErrNotExist \<Rightarrow>
            (let s1 = s\<lparr>st_nnotexist := st_nnotexist s + 1\<rparr> in
             if pe_CmdHash ent = [] \<or> fe_outputLocal ev (pe_Name ent) then (Inr Dropped, s1)
             else (Inr (AsFile (state_entry ent None) False), s1))
        | Inl err \<Rightarrow> (Inr Dropped, setting_fail s)
        | Inr fi \<Rightarrow>
            if oi_mtime fi > os_now (fe_os ev) (st_disk s) then (Inl (ErrOther ''future timestamp''), s)
            else
              let et = snd (newStateEntry ent (Some (oi_mtime fi))); e = state_entry ent (Some (oi_mtime fi)); i = he_info e in
              if digest_IsZero (ei_d i) \<and> ei_target i = [] then
                (if pe_CmdHash ent = [] then (Inr Dropped, s) else map_prod Inr id (judge ev ent e True et s))
              else if digest_IsZero (ei_d i) then
                (case os_readlink (fe_os ev) (pe_Name ent) (st_disk s) of
                   Inl _ \<Rightarrow> (Inr Dropped, setting_fail s)
                 | Inr t \<Rightarrow> if t \<noteq> ei_target i then (Inr Dropped, setting_invalid s) else map_prod Inr id (judge ev ent e False et s))
              else (case reconcile ev ent e et s of (et1, s1) \<Rightarrow> map_prod Inr id (judge ev ent e False et1 s1)))"

text \<open>The goroutines in the order in which they run; each leaves its verdict under its index.\<close>

fun set_entries :: "'w fsEnv \<Rightarrow> (nat \<times> pbEntry) list \<Rightarrow> 'w setting \<Rightarrow> (nat \<times> (fsErr + verdict)) list \<times> 'w setting" where
  "set_entries ev [] s = ([], s)"
| "set_entries ev ((i, ent) # ents) s =
     (case set_entry ev ent s of (v, s1) \<Rightarrow> (case set_entries ev ents s1 of (vs, s2) \<Rightarrow> ((i, v) # vs, s2)))"

text \<open>The stores of the background goroutine, one list after the other, until one fails.\<close>

fun store_all :: "'w os \<Rightarrow> 'w \<Rightarrow> (bytes \<times> hentry) list \<Rightarrow> hdir \<Rightarrow> fsErr option \<times> hdir" where
  "store_all os w [] d = (None, d)"
| "store_all os w ((name, e) # es) d =
     (case dir_store os w d name e of
        (Inl err, d1) \<Rightarrow> (Some err, d1)
      | (Inr _, d1) \<Rightarrow> store_all os w es d1)"

record 'w loadedFS =
  lf_dir :: hdir
  lf_buildTargets :: "bytes list option"
  lf_previous :: "bytes list"
  lf_clean :: bool
  lf_loaded :: bool
  lf_disk :: 'w

definition verdict_of :: "(nat \<times> (fsErr + verdict)) list \<Rightarrow> nat \<Rightarrow> verdict" where
  "verdict_of vs i = (case map_of vs i of Some (Inr v) \<Rightarrow> v | _ \<Rightarrow> Dropped)"

definition dirs_of :: "(bytes \<times> verdict) list \<Rightarrow> (bytes \<times> hentry) list" where
  "dirs_of xs = List.map_filter (\<lambda>(n, v). case v of AsDir e \<Rightarrow> Some (n, e) | _ \<Rightarrow> None) xs"

definition files_of :: "(bytes \<times> verdict) list \<Rightarrow> (bytes \<times> hentry) list" where
  "files_of xs = List.map_filter (\<lambda>(n, v). case v of AsFile e _ \<Rightarrow> Some (n, e) | _ \<Rightarrow> None) xs"

definition generated_of :: "(bytes \<times> verdict) list \<Rightarrow> bytes list" where
  "generated_of xs = map fst (filter (\<lambda>(n, v). case v of AsFile e g \<Rightarrow> g | AsDir e \<Rightarrow> ei_cmdhash (he_info e) \<noteq> [] | Dropped \<Rightarrow> False) xs)"

definition first_err :: "(nat \<times> (fsErr + verdict)) list \<Rightarrow> fsErr option" where
  "first_err vs = (case List.map_filter (\<lambda>(_, v). case v of Inl err \<Rightarrow> Some err | Inr _ \<Rightarrow> None) vs of [] \<Rightarrow> None | err # _ \<Rightarrow> Some err)"

definition start_setting :: "'w \<Rightarrow> 'w setting" where
  "start_setting w = \<lparr>st_disk = w, st_dirty = False, st_neq = 0, st_nnew = 0, st_nnotexist = 0, st_nfail = 0, st_ninvalidate = 0\<rparr>"

definition setting_clean :: "'w setting \<Rightarrow> bool" where
  "setting_clean s \<longleftrightarrow> st_nnew s = 0 \<and> st_nnotexist s = 0 \<and> st_nfail s = 0 \<and> st_ninvalidate s = 0"

text \<open>
  The whole of \<open>SetState\<close> with its background stores. \<open>order\<close> is a permutation of the indices of the
  entries; the result is the error that \<open>SetState\<close> returns or that it sends to the waiting reader.
\<close>

definition hfs_SetState :: "'w fsEnv \<Rightarrow> nat list \<Rightarrow> pbState \<Rightarrow> 'w loadedFS \<Rightarrow> fsErr option \<times> 'w loadedFS" where
  "hfs_SetState ev order st h =
     (let ents = ps_Entries st;
          h0 = h\<lparr>lf_buildTargets := ps_BuildTargets st\<rparr> in
      case set_entries ev (map (\<lambda>i. (i, ents ! i)) order) (start_setting (lf_disk h)) of (vs, s) \<Rightarrow>
        (case first_err vs of
           Some err \<Rightarrow> (Some err, h0\<lparr>lf_disk := st_disk s\<rparr>)
         | None \<Rightarrow>
             let xs = map (\<lambda>i. (pe_Name (ents ! i), verdict_of vs i)) [0..<length ents];
                 h1 = h0\<lparr>lf_disk := st_disk s, lf_previous := lf_previous h @ generated_of xs, lf_clean := setting_clean s\<rparr> in
             (case store_all (fe_os ev) (st_disk s) (dirs_of xs @ files_of xs) (lf_dir h) of
                (Some err, d) \<Rightarrow> (Some err, h1\<lparr>lf_dir := d, lf_clean := False\<rparr>)
              | (None, d) \<Rightarrow> (None, h1\<lparr>lf_dir := d, lf_loaded := True\<rparr>))))"

section \<open>The state of the tree\<close>

definition pb_of :: "bytes \<Rightarrow> einfo \<Rightarrow> pbEntry" where
  "pb_of name i =
     \<lparr>pe_ModTime = ei_mtime i, pe_Name = name, pe_Digest = fromDigest (ei_d i), pe_IsExecutable = (md_perm (ei_mode i) AND 73) \<noteq> 0,
      pe_Target = ei_target i, pe_CmdHash = ei_cmdhash i, pe_Action = fromDigest (ei_action i), pe_UpdatedTime = ei_updatedTime i\<rparr>"

text \<open>The digest of a generated file is computed before the file is recorded.\<close>

definition record_digest :: "'w fsEnv \<Rightarrow> 'w \<Rightarrow> hentry \<Rightarrow> hentry" where
  "record_digest ev w e =
     (let i = he_info e in
      if ei_cmdhash i \<noteq> [] \<and> he_dir e = None \<and> ei_target i = [] \<and> digest_IsZero (ei_d i) \<and> ei_src i \<noteq> NoSource
      then snd (entry_compute ev w e) else e)"

definition record_entry :: "bytes \<Rightarrow> hentry \<Rightarrow> pbEntry list" where
  "record_entry name e =
     (let i = he_info e in
      if \<not> digest_IsZero (ei_d i) \<or> ei_target i \<noteq> [] then [pb_of name i]
      else if he_dir e \<noteq> None \<and> ei_cmdhash i \<noteq> [] then [(pb_of name i)\<lparr>pe_Digest := None, pe_IsExecutable := False, pe_Target := []\<rparr>]
      else [])"

text \<open>One name of a directory: the recorded entries, the entry with its digest and the directory to visit.\<close>

definition visit_entry :: "'w fsEnv \<Rightarrow> 'w \<Rightarrow> bytes \<Rightarrow> hentry \<Rightarrow> pbEntry list \<times> hentry" where
  "visit_entry ev w name e =
     (if ei_err (he_info e) \<noteq> None \<or> ei_mtime (he_info e) = 0 then ([], e)
      else let e1 = record_digest ev w e in (record_entry name e1, e1))"

definition visit_sub :: "bytes \<Rightarrow> bytes list \<Rightarrow> hentry \<Rightarrow> (bytes \<times> bytes list \<times> hdir) list" where
  "visit_sub name keys e = (if ei_err (he_info e) = None then (case he_dir e of None \<Rightarrow> [] | Some d \<Rightarrow> [(name, keys, d)]) else [])"

definition dir_names :: "bytes \<Rightarrow> hdir \<Rightarrow> bytes list" where
  "dir_names name d = sort (map (\<lambda>k. fp_join [name, k]) (map fst (hd_m d)))"

definition dir_children :: "bytes \<Rightarrow> bytes list \<Rightarrow> hdir \<Rightarrow> (bytes \<times> bytes list \<times> hentry) list" where
  "dir_children name keys d =
     List.map_filter (\<lambda>n. case map_of (hd_m d) (fp_base n) of None \<Rightarrow> None | Some e \<Rightarrow> Some (n, keys @ [fp_base n], e)) (dir_names name d)"

lemma size_map_of: "map_of (hd_m d) k = Some e \<Longrightarrow> he_dir e = Some d' \<Longrightarrow> size d' < size d"
proof -
  assume a: "map_of (hd_m d) k = Some e" "he_dir e = Some d'"
  obtain i where e: "e = HEntry i (Some d')" using a(2) by (cases e) simp
  obtain t m where d: "d = HDir t m" by (cases d)
  have "(k, e) \<in> set m" using a(1) d by (auto dest: map_of_SomeD)
  then have "size (snd (k, e)) \<le> size_list (\<lambda>p. size (snd p)) m"
    by (intro size_list_estimation') auto
  moreover have "size_list (\<lambda>p. size (snd p)) m \<le> size_list (size_prod (\<lambda>x. 0) size) m"
    by (rule size_list_pointwise) (auto simp: size_prod_simp)
  ultimately show ?thesis using d e by simp
qed

lemma children_entry: "(n, ks, e) \<in> set (dir_children name keys d) \<Longrightarrow>
    n \<in> set (dir_names name d) \<and> ks = keys @ [fp_base n] \<and> map_of (hd_m d) (fp_base n) = Some e"
  by (auto simp: dir_children_def map_filter_def split: option.splits)

lemma children_smaller:
  assumes "(n, ks, e) \<in> set (dir_children name keys d)" "(n', ks', d') \<in> set (visit_sub n ks e)"
  shows "size d' < size d"
proof -
  have "he_dir e = Some d'" using assms(2) unfolding visit_sub_def by (cases "he_dir e"; cases "ei_err (he_info e)") simp_all
  then show ?thesis using size_map_of children_entry [OF assms(1)] by blast
qed

text \<open>
  The names in the order of the queue of directories. A directory is replaced by smaller ones, so that
  the loop ends.
\<close>

function state_walk :: "(bytes \<times> bytes list \<times> hdir) list \<Rightarrow> (bytes \<times> bytes list \<times> hentry) list" where
  "state_walk [] = []"
| "state_walk ((name, keys, d) # dirs) =
     (let cs = dir_children name keys d in cs @ state_walk (dirs @ concat (map (\<lambda>(n, ks, e). visit_sub n ks e) cs)))"
  by pat_completeness auto
termination
proof (relation "inv_image (mult less_than) (\<lambda>q. image_mset (\<lambda>(n, k, d). size d) (mset q))", goal_cases)
  case 1
  show ?case by (rule wf_inv_image [OF wf_mult [OF wf_less_than]])
next
  case (2 name keys d dirs cs)
  let ?f = "\<lambda>(n :: bytes, k :: bytes list, d :: hdir). size d"
  let ?new = "concat (map (\<lambda>(n, ks, e). visit_sub n ks e) (dir_children name keys d))"
  have "size d' < size d" if "(n', ks', d') \<in> set ?new" for n' ks' d'
    using that by (auto elim: children_smaller)
  then have "\<forall>n \<in># image_mset ?f (mset ?new). \<exists>x \<in># {#size d#}. (n, x) \<in> less_than" by fastforce
  then have "(image_mset ?f (mset dirs) + image_mset ?f (mset ?new), image_mset ?f (mset dirs) + {#size d#}) \<in> mult less_than"
    by (intro one_step_implies_mult) (simp_all only: add_mset_not_empty not_False_eq_True)
  then show ?case using 2 by (simp add: inv_image_def)
qed

text \<open>The state, and the tree with the digests that were computed for it.\<close>

definition hfs_State :: "'w fsEnv \<Rightarrow> 'w \<Rightarrow> bytes list option \<Rightarrow> hdir \<Rightarrow> pbState \<times> hdir" where
  "hfs_State ev w buildTargets d =
     (let vs = map (\<lambda>(n, ks, e). (ks, visit_entry ev w n e)) (state_walk [(''/'', [], d)]) in
      (\<lparr>ps_Entries = concat (map (\<lambda>(ks, p, e). p) vs), ps_BuildTargets = buildTargets\<rparr>,
       fold (\<lambda>(ks, p, e). upd_at ks (upd_info (\<lambda>i. i\<lparr>ei_d := ei_d (he_info e)\<rparr>))) vs d))"

section \<open>The journal\<close>

definition stateMap :: "pbState \<Rightarrow> bytes \<Rightarrow> pbEntry option" where
  "stateMap st = map_of (rev (map (\<lambda>e. (pe_Name e, e)) (ps_Entries st)))"

text \<open>
  \<open>loadJournal\<close> on what reading the file gives: an error, or the entries that can be decoded before the
  end of the file or before the first broken one.
\<close>

definition loadJournal :: "fsErr + pbEntry list \<Rightarrow> pbState \<Rightarrow> bool \<times> pbState" where
  "loadJournal jn st =
     (case jn of
        Inl err \<Rightarrow> (False, st)
      | Inr [] \<Rightarrow> (False, st)
      | Inr es \<Rightarrow>
          let m = stateMap st ++ map_of (rev (map (\<lambda>e. (pe_Name e, e)) es));
              keys = sort (remdups (map pe_Name (ps_Entries st @ es))) in
          (True, st\<lparr>ps_Entries := map (\<lambda>k. the (m k)) keys\<rparr>))"

text \<open>What \<open>journalEntry\<close> writes for an entry of the tree.\<close>

definition journal_pb :: "bytes \<times> hentry \<Rightarrow> pbEntry" where
  "journal_pb = (\<lambda>(name, e). pb_of name (he_info e))"

end
