(* ===== verification/Hash_State_Proofs.thy ===== *)
theory Hash_State_Proofs
  imports Hash_State
begin

text \<open>
  Lemmas on the saved state: which stores succeed and what they keep, the names that a tree has and the
  order in which \<open>State\<close> visits them, and the verdicts of \<open>SetState\<close> on an unchanged disk.
\<close>

section \<open>Stores that meet no link\<close>

text \<open>A directory name that is a directory on the disk, or that is not there.\<close>

definition disk_open :: "'w os \<Rightarrow> 'w \<Rightarrow> bytes list \<Rightarrow> bool" where
  "disk_open os w names \<longleftrightarrow> (case os_lstat os (fp_join names) w of Inl _ \<Rightarrow> True | Inr fi \<Rightarrow> oi_type fi = FDir)"

definition open_dir :: "hentry \<Rightarrow> bool" where
  "open_dir e \<longleftrightarrow> plain_entry e \<and> he_dir e \<noteq> None"

lemma open_dir_sub: "open_dir e \<longleftrightarrow> sub_of e \<noteq> None"
  by (simp add: open_dir_def sub_of_def)

lemma nextDir_open:
  assumes "case map_of (hd_m d) k of None \<Rightarrow> disk_open os w (el @ [k]) | Some e \<Rightarrow> open_dir e"
  shows "\<exists>dent d1. nextDir os w d el k = (SubDir dent, d1) \<and>
    (case map_of (hd_m d) k of None \<Rightarrow> he_dir dent = Some empty_dir | Some e \<Rightarrow> dent = e)"
  using assms
  by (auto simp: nextDir_def Let_def open_dir_def plain_entry_def disk_open_def split: option.splits sum.splits ftype.splits)

lemma prefix_Cons_strict: "strict_prefix (k # p) (k # q) \<longleftrightarrow> strict_prefix p q"
  by (auto simp: strict_prefix_def)

lemma dir_get_prefix_Cons:
  assumes "p \<noteq> []"
  shows "dir_get d (k # p) = (case sub_at d k of None \<Rightarrow> None | Some s \<Rightarrow> dir_get s p)"
  using assms by (rule dir_get_sub)

text \<open>
  A store under open directories succeeds; the directories above it are open afterwards, with the data
  they had.
\<close>

lemma store_open:
  assumes "keys_ok ks" "dir_get d ks = None"
    and "\<And>p. p \<noteq> [] \<Longrightarrow> strict_prefix p ks \<Longrightarrow> (case dir_get d p of None \<Rightarrow> disk_open os w (el @ p) | Some e \<Rightarrow> open_dir e)"
  shows "\<exists>d'. store_from os w d el (join_with ''/'' ks) e = (Stored e e, d') \<and>
    (\<forall>p. p \<noteq> [] \<longrightarrow> strict_prefix p ks \<longrightarrow> (\<exists>e'. dir_get d' p = Some e' \<and> open_dir e' \<and>
      (\<forall>e0. dir_get d p = Some e0 \<longrightarrow> he_info e' = he_info e0)))"
  using assms
proof (induction ks arbitrary: d el rule: induct_list012)
  case (2 k)
  then show ?case by (auto simp: keys_ok_single store_last strict_prefix_def prefix_Cons)
next
  case (3 k k' ks)
  have k: "key_ok k" "keys_ok (k' # ks)" using 3(3) by (simp_all add: keys_ok_Cons2)
  have "strict_prefix [k] (k # k' # ks)" by (simp add: strict_prefix_def)
  from 3(5) [OF _ this] have "case map_of (hd_m d) k of None \<Rightarrow> disk_open os w (el @ [k]) | Some e \<Rightarrow> open_dir e" by simp
  from nextDir_open [OF this] obtain dent d1 where n: "nextDir os w d el k = (SubDir dent, d1)"
    and dent: "case map_of (hd_m d) k of None \<Rightarrow> he_dir dent = Some empty_dir | Some e \<Rightarrow> dent = e"
    by blast
  note N = nextDir_sub [OF n]
  obtain sub0 where s0: "he_dir dent = Some sub0" using N(2) by blast
  have sub: "sub_at d k = Some sub0 \<or> sub_at d k = None \<and> sub0 = empty_dir"
    using N(1,5) s0 by (auto simp: sub_at_def sub_of_def split: option.splits)
  have old: "dir_get d (k # qs) = dir_get sub0 qs" if "qs \<noteq> []" for qs
    using sub that by (auto simp: dir_get_sub dir_get_empty)
  have "case dir_get sub0 p of None \<Rightarrow> disk_open os w ((el @ [k]) @ p) | Some e \<Rightarrow> open_dir e"
    if "p \<noteq> []" "strict_prefix p (k' # ks)" for p
    using 3(5) [of "k # p"] that by (cases "dir_get sub0 p") (simp_all add: prefix_Cons_strict old)
  moreover have "dir_get sub0 (k' # ks) = None" using 3(4) old [of "k' # ks"] by (simp only: list.distinct not_False_eq_True)
  ultimately obtain sub1 where st: "store_from os w sub0 (el @ [k]) (join_with ''/'' (k' # ks)) e = (Stored e e, sub1)"
    and IH: "\<And>p. p \<noteq> [] \<Longrightarrow> strict_prefix p (k' # ks) \<Longrightarrow> \<exists>e'. dir_get sub1 p = Some e' \<and> open_dir e' \<and>
      (\<forall>e0. dir_get sub0 p = Some e0 \<longrightarrow> he_info e' = he_info e0)"
    using 3(2) [OF k(2), of sub0 "el @ [k]"] by blast
  let ?d = "put_entry k (set_sub dent sub1) d1"
  have "store_from os w d el (join_with ''/'' (k # k' # ks)) e = (Stored e e, ?d)"
    unfolding join_Cons2 store_cut [OF k(1)] using n s0 st by simp
  moreover have "\<exists>e'. dir_get ?d p = Some e' \<and> open_dir e' \<and> (\<forall>e0. dir_get d p = Some e0 \<longrightarrow> he_info e' = he_info e0)"
    if p: "p \<noteq> []" "strict_prefix p (k # k' # ks)" for p
  proof -
    obtain q where q: "p = k # q" "strict_prefix q (k' # ks)"
      using p by (cases p) (auto simp: strict_prefix_def prefix_Cons)
    show ?thesis
    proof (cases "q = []")
      case True
      have "open_dir (set_sub dent sub1)" using N(1) by (simp add: open_dir_def set_sub_def plain_entry_def)
      moreover have "\<forall>e0. dir_get d [k] = Some e0 \<longrightarrow> he_info (set_sub dent sub1) = he_info e0"
        using dent by (auto simp: set_sub_def)
      ultimately show ?thesis using q True by simp
    next
      case False
      have "sub_at ?d k = Some sub1" by (rule sub_at_set_sub [OF N(1)])
      then have "dir_get ?d p = dir_get sub1 q" "dir_get d p = dir_get sub0 q" using False q(1) old by (simp_all add: dir_get_sub)
      then show ?thesis using IH [OF False q(2)] by simp
    qed
  qed
  ultimately show ?case by blast
qed (simp add: keys_ok_def)


section \<open>Storing a list of entries\<close>

text \<open>A list of names that a tree can take in this order: no name comes after one below it, and a name above another one is an open directory.\<close>

definition layered :: "(bytes list \<times> hentry) list \<Rightarrow> bool" where
  "layered xs \<longleftrightarrow> (\<forall>x \<in> set xs. keys_ok (fst x) \<and> (he_dir (snd x) = None \<or> he_dir (snd x) = Some empty_dir)) \<and>
     sorted_wrt (\<lambda>x y. \<not> prefix (fst y) (fst x) \<and> (prefix (fst x) (fst y) \<longrightarrow> open_dir (snd x))) xs"

definition room :: "'w os \<Rightarrow> 'w \<Rightarrow> (bytes list \<times> hentry) list \<Rightarrow> hdir \<Rightarrow> bool" where
  "room os w xs d \<longleftrightarrow> (\<forall>x \<in> set xs. dir_get d (fst x) = None \<and>
     (\<forall>p. p \<noteq> [] \<longrightarrow> strict_prefix p (fst x) \<longrightarrow> (case dir_get d p of None \<Rightarrow> disk_open os w (''/'' # p) | Some e \<Rightarrow> open_dir e)))"

definition dirs_open :: "'w os \<Rightarrow> 'w \<Rightarrow> (bytes list \<times> hentry) list \<Rightarrow> bool" where
  "dirs_open os w xs \<longleftrightarrow> (\<forall>x \<in> set xs. \<forall>p. p \<noteq> [] \<longrightarrow> strict_prefix p (fst x) \<longrightarrow> disk_open os w (''/'' # p))"

text \<open>An entry as it was stored, except that a directory may have got entries.\<close>

definition holds :: "hdir \<Rightarrow> bytes list \<times> hentry \<Rightarrow> bool" where
  "holds d x \<longleftrightarrow> (\<exists>e'. dir_get d (fst x) = Some e' \<and> he_info e' = he_info (snd x) \<and> (he_dir (snd x) = None \<longrightarrow> e' = snd x) \<and>
     (open_dir (snd x) \<longrightarrow> open_dir e'))"

lemma store_one:
  assumes "layered ((ks, e) # xs)" "room os w ((ks, e) # xs) d" "dirs_open os w xs"
  obtains d' where "dir_store os w d (abs_name ks) e = (Inr (e, e), d')" "holds d' (ks, e)" "room os w xs d'"
    "\<And>x. holds d x \<Longrightarrow> \<not> prefix ks (fst x) \<Longrightarrow> (prefix (fst x) ks \<Longrightarrow> open_dir (snd x) \<and> he_dir (snd x) \<noteq> None \<and> fst x \<noteq> []) \<Longrightarrow> holds d' x"
proof -
  have ok: "keys_ok ks" "he_dir e = None \<or> he_dir e = Some empty_dir" and xs: "layered xs"
    and rel: "\<And>x. x \<in> set xs \<Longrightarrow> \<not> prefix (fst x) ks \<and> (prefix ks (fst x) \<longrightarrow> open_dir e)"
    using assms(1) by (auto simp: layered_def)
  have get: "dir_get d ks = None"
    and above: "\<And>p. p \<noteq> [] \<Longrightarrow> strict_prefix p ks \<Longrightarrow> (case dir_get d p of None \<Rightarrow> disk_open os w (''/'' # p) | Some e \<Rightarrow> open_dir e)"
    using assms(2) by (auto simp: room_def)
  obtain d' where st: "store_from os w d [''/''] (join_with ''/'' ks) e = (Stored e e, d')"
    and up: "\<And>p. p \<noteq> [] \<Longrightarrow> strict_prefix p ks \<Longrightarrow> \<exists>e'. dir_get d' p = Some e' \<and> open_dir e' \<and> (\<forall>e0. dir_get d p = Some e0 \<longrightarrow> he_info e' = he_info e0)"
    using store_open [OF ok(1) get, of os w "[''/'']" e, unfolded append_Cons append_Nil] above by blast
  note G = store_get [OF ok(1) st]
  have lead: "lead (abs_name ks) = [''/'']" by (simp add: lead_def abs_name_def has_prefix_def)
  have d1: "dir_store os w d (abs_name ks) e = (Inr (e, e), d')"
    using st by (simp add: dir_store_def maxSymlinks_def numeral_eq_Suc storeEntry_def lead store_slash [OF ok(1)])
  have d2: "holds d' (ks, e)" using G(1) by (simp add: holds_def)
  have d3: "holds d' x" if x: "holds d x" "\<not> prefix ks (fst x)" "prefix (fst x) ks \<Longrightarrow> open_dir (snd x) \<and> he_dir (snd x) \<noteq> None \<and> fst x \<noteq> []" for x
  proof (cases "prefix (fst x) ks")
    case True
    then have "strict_prefix (fst x) ks" using x(2) by (auto simp: strict_prefix_def)
    then show ?thesis using up [of "fst x"] x(1) x(3) [OF True] by (auto simp: holds_def)
  next
    case False
    then show ?thesis using G(3) [OF x(2) False] x(1) by (simp add: holds_def)
  qed
  have below: "dir_get d' p = None" if sp: "strict_prefix ks p" for p
  proof -
    obtain qs where "p = ks @ qs" "qs \<noteq> []" using sp by (auto simp: strict_prefix_def prefix_def)
    then show ?thesis using G(4) ok(2) by (auto simp: sub_of_def dir_get_empty)
  qed
  have "dir_get d' (fst x) = None" if "x \<in> set xs" for x
  proof (cases "prefix ks (fst x)")
    case True
    then have "strict_prefix ks (fst x)" using rel [OF that] by (auto simp: strict_prefix_def)
    then show ?thesis by (rule below)
  next
    case False
    then show ?thesis using G(3) [OF False] rel [OF that] assms(2) that by (auto simp: room_def)
  qed
  moreover have "case dir_get d' p of None \<Rightarrow> disk_open os w (''/'' # p) | Some e \<Rightarrow> open_dir e"
    if x: "x \<in> set xs" and p: "p \<noteq> []" "strict_prefix p (fst x)" for x p
  proof -
    consider "p = ks" | "strict_prefix p ks" | "strict_prefix ks p" | "\<not> prefix ks p" "\<not> prefix p ks"
      by (auto simp: strict_prefix_def)
    then show ?thesis
    proof cases
      case 1
      then have "open_dir e" using rel [OF x] p(2) by (auto simp: strict_prefix_def)
      then show ?thesis using 1 G(1) by simp
    next
      case 2
      then show ?thesis using up [OF p(1) 2] by auto
    next
      case 3
      then show ?thesis using below [OF 3] assms(3) x p by (simp add: dirs_open_def)
    next
      case 4
      then show ?thesis using G(3) [OF 4] assms(2) x p by (simp add: room_def)
    qed
  qed
  ultimately have d4: "room os w xs d'" by (auto simp: room_def)
  from that [OF d1 d2 d4] d3 show ?thesis by blast
qed

lemma store_layered:
  assumes "layered xs" "room os w xs d" "dirs_open os w xs"
  shows "\<exists>d'. store_all os w (map (\<lambda>(ks, e). (abs_name ks, e)) xs) d = (None, d') \<and> (\<forall>x \<in> set xs. holds d' x) \<and>
    (\<forall>x. holds d x \<longrightarrow> (\<forall>y \<in> set xs. \<not> prefix (fst y) (fst x) \<and> (prefix (fst x) (fst y) \<longrightarrow> open_dir (snd x) \<and> fst x \<noteq> [])) \<longrightarrow> holds d' x)"
  using assms
proof (induction xs arbitrary: d)
  case (Cons x xs)
  obtain ks e where x: "x = (ks, e)" by fastforce
  have dd: "dirs_open os w xs" using Cons.prems(3) by (simp add: dirs_open_def)
  obtain d1 where d1: "dir_store os w d (abs_name ks) e = (Inr (e, e), d1)" "holds d1 (ks, e)" "room os w xs d1"
    "\<And>y. holds d y \<Longrightarrow> \<not> prefix ks (fst y) \<Longrightarrow> (prefix (fst y) ks \<Longrightarrow> open_dir (snd y) \<and> he_dir (snd y) \<noteq> None \<and> fst y \<noteq> []) \<Longrightarrow> holds d1 y"
    by (rule store_one [OF Cons.prems(1) [unfolded x] Cons.prems(2) [unfolded x] dd]) blast+
  have l: "layered xs" "ks \<noteq> []" and rel: "\<And>y. y \<in> set xs \<Longrightarrow> \<not> prefix (fst y) ks \<and> (prefix ks (fst y) \<longrightarrow> open_dir e)"
    using Cons.prems(1) x by (auto simp: layered_def keys_ok_def)
  obtain d' where d': "store_all os w (map (\<lambda>(ks, e). (abs_name ks, e)) xs) d1 = (None, d')" "\<forall>x \<in> set xs. holds d' x"
    "\<And>x. holds d1 x \<Longrightarrow> (\<forall>y \<in> set xs. \<not> prefix (fst y) (fst x) \<and> (prefix (fst x) (fst y) \<longrightarrow> open_dir (snd x) \<and> fst x \<noteq> [])) \<Longrightarrow> holds d' x"
    using Cons.IH [OF l(1) d1(3) dd] by blast
  have "holds d' (ks, e)" by (rule d'(3) [OF d1(2)]) (use rel l(2) in auto)
  moreover have "holds d' y" if "holds d y" "\<forall>z \<in> set (x # xs). \<not> prefix (fst z) (fst y) \<and> (prefix (fst y) (fst z) \<longrightarrow> open_dir (snd y) \<and> fst y \<noteq> [])" for y
    by (rule d'(3) [OF d1(4) [OF that(1)]]) (use that(2) x in \<open>auto simp: open_dir_def\<close>)
  ultimately show ?case using d1(1) d'(1,2) x by auto
qed simp


section \<open>The names of a tree\<close>

definition key_clean :: "bytes \<Rightarrow> bool" where
  "key_clean k \<longleftrightarrow> elem_ok k \<and> k \<noteq> ''..''"

text \<open>A tree as the operations build it: proper names, each once, and no directory with a digest or a target.\<close>

primrec tree_ok :: "hdir \<Rightarrow> bool" and entry_ok :: "hentry \<Rightarrow> bool" where
  "tree_ok (HDir t m) \<longleftrightarrow> distinct (map fst m) \<and> list_all (\<lambda>(k, b). key_clean k \<and> b) (map (map_prod id entry_ok) m)"
| "entry_ok (HEntry i d) \<longleftrightarrow> (case map_option tree_ok d of None \<Rightarrow> True | Some b \<Rightarrow> b \<and> ei_target i = [] \<and> digest_IsZero (ei_d i))"

lemma tree_ok_get:
  assumes "tree_ok d" "map_of (hd_m d) k = Some e"
  shows "key_clean k" "entry_ok e"
proof -
  obtain t m where d: "d = HDir t m" by (cases d)
  have "(k, e) \<in> set m" using assms(2) d by (auto dest: map_of_SomeD)
  then show "key_clean k" "entry_ok e" using assms(1) d by (auto simp: list_all_iff)
qed

lemma entry_ok_dir: "entry_ok e \<Longrightarrow> he_dir e = Some s \<Longrightarrow> tree_ok s \<and> ei_target (he_info e) = [] \<and> digest_IsZero (ei_d (he_info e))"
  by (cases e) simp

lemma dir_get_ok: "tree_ok d \<Longrightarrow> dir_get d ks = Some e \<Longrightarrow> list_all key_clean ks \<and> ks \<noteq> [] \<and> entry_ok e"
proof (induction ks arbitrary: d rule: induct_list012)
  case (2 k)
  then show ?case using tree_ok_get by auto
next
  case (3 k k' ks)
  obtain x s where x: "map_of (hd_m d) k = Some x" "sub_of x = Some s" "dir_get s (k' # ks) = Some e"
    using 3(4) by (auto split: option.splits)
  then have "tree_ok s" using tree_ok_get(2) [OF 3(3) x(1)] entry_ok_dir [of x s] by (auto simp: sub_of_def split: if_splits)
  then show ?case using 3(2) x(3) tree_ok_get [OF 3(3) x(1)] by auto
qed simp

lemma clean_keys_ok: "list_all key_clean ks \<Longrightarrow> ks \<noteq> [] \<Longrightarrow> keys_ok ks"
  by (auto simp: list_all_iff keys_ok_def key_ok_def key_clean_def elem_ok_def)

subsection \<open>Names\<close>

definition dir_name :: "bytes list \<Rightarrow> bytes" where
  "dir_name keys = (if keys = [] then ''/'' else abs_name keys)"

lemma split_keys: "list_all key_clean ks \<Longrightarrow> ks \<noteq> [] \<Longrightarrow> split_on CHR ''/'' (join_with ''/'' ks) = ks"
  by (rule split_join) (auto simp: list_all_iff key_clean_def elem_ok_def)

lemma clean_keys: "list_all key_clean ks \<Longrightarrow> clean_elems True ks = ks"
proof -
  assume "list_all key_clean ks"
  then have "clean_stack True (rev ks)" using clean_stackI [of "rev ks" True 0] by (auto simp: list_all_iff key_clean_def)
  then show ?thesis using fold_clean_stack [of True "rev ks"] by (simp add: clean_elems_def)
qed

lemma clean_elems_empty: "clean_elems r ([] # es) = clean_elems r es"
  by (simp add: clean_elems_def clean_elem_def)

lemma join_append: "join_with ''/'' (ks @ [k]) = (if ks = [] then k else join_with ''/'' ks @ CHR ''/'' # k)"
  by (induction ks rule: induct_list012) auto

lemma join_child:
  assumes "list_all key_clean keys" "key_clean k"
  shows "fp_join [dir_name keys, k] = abs_name (keys @ [k])"
proof -
  let ?p = "dir_name keys @ CHR ''/'' # k"
  have "split_on CHR ''/'' ?p = (if keys = [] then [[], [], k] else [] # keys @ [k])"
    using split_keys [of "keys @ [k]"] assms split_on_nosep_id [of "CHR ''/''" k] by (auto simp: dir_name_def abs_name_def join_append key_clean_def elem_ok_def)
  moreover have "clean_elems True (keys @ [k]) = keys @ [k]" by (rule clean_keys) (use assms in simp)
  moreover have "fp_join [dir_name keys, k] = fp_clean ?p" using assms(2) by (simp add: fp_join_def dir_name_def abs_name_def)
  ultimately show ?thesis
    using clean_keys [of "[k]"] assms(2) by (simp add: fp_clean_def isAbs_def dir_name_def clean_elems_empty abs_name_def)
qed

lemma base_child:
  assumes "list_all key_clean (keys @ [k])"
  shows "fp_base (abs_name (keys @ [k])) = k"
proof -
  have k: "k \<noteq> []" "CHR ''/'' \<notin> set k" using assms by (auto simp: key_clean_def elem_ok_def)
  let ?p = "abs_name (keys @ [k])"
  have e: "\<exists>x. ?p = x @ CHR ''/'' # k" by (auto simp: abs_name_def join_append)
  then have "strip_slashes ?p = ?p" using k by (cases "rev k") (auto simp: strip_slashes_def)
  moreover have "last (split_on CHR ''/'' ?p) = k" using split_keys [OF assms] by (simp add: abs_name_def)
  moreover have "?p \<noteq> []" using e by auto
  ultimately show ?thesis by (simp add: fp_base_def)
qed

lemma abs_name_inj:
  assumes "list_all key_clean ks" "ks \<noteq> []" "list_all key_clean ks'" "ks' \<noteq> []" "abs_name ks = abs_name ks'"
  shows "ks = ks'"
proof -
  have "join_with ''/'' ks = join_with ''/'' ks'" using assms(5) by (simp only: abs_name_def same_append_eq)
  then show ?thesis using split_keys [OF assms(1,2)] split_keys [OF assms(3,4)] by metis
qed

subsection \<open>The walk\<close>

lemma map_filter_all: "(\<And>x. x \<in> set xs \<Longrightarrow> f x = Some (g x)) \<Longrightarrow> List.map_filter f xs = map g xs"
  by (induction xs) (simp_all add: List.map_filter_simps)

text \<open>The children of a directory: exactly its entries, under their names, each once.\<close>

lemma children_ok:
  assumes "tree_ok d" "list_all key_clean keys"
  shows "set (dir_children (dir_name keys) keys d) = {(abs_name (keys @ [k]), keys @ [k], e) |k e. map_of (hd_m d) k = Some e}"
    "distinct (map (fst \<circ> snd) (dir_children (dir_name keys) keys d))"
proof -
  let ?ks = "map fst (hd_m d)"
  have clean: "\<And>k. k \<in> set ?ks \<Longrightarrow> key_clean k" and dist: "distinct ?ks"
    using assms(1) by (cases d; auto simp: list_all_iff)+
  have names: "map (\<lambda>k. fp_join [dir_name keys, k]) ?ks = map (\<lambda>k. abs_name (keys @ [k])) ?ks"
    by (rule map_cong [OF refl]) (use join_child [OF assms(2)] clean in auto)
  have base: "fp_base (abs_name (keys @ [k])) = k" if "k \<in> set ?ks" for k
    by (rule base_child) (use clean [OF that] assms(2) in simp)
  have inj: "inj_on (\<lambda>k. abs_name (keys @ [k])) (set ?ks)" using base by (intro inj_on_inverseI [where g = fp_base]) simp
  have set_names: "set (dir_names (dir_name keys) d) = (\<lambda>k. abs_name (keys @ [k])) ` set ?ks"
    unfolding dir_names_def names by (simp add: image_image)
  have dist_names: "distinct (dir_names (dir_name keys) d)"
    unfolding dir_names_def names using inj dist by (auto simp: distinct_map intro: comp_inj_on)
  have some: "\<exists>e. map_of (hd_m d) k = Some e" if "k \<in> set ?ks" for k
    using that map_of_eq_None_iff [of "hd_m d" k] by (cases "map_of (hd_m d) k") auto
  have key: "k \<in> set ?ks" if "map_of (hd_m d) k = Some e" for k e
    using that by (auto dest: map_of_SomeD intro: rev_image_eqI)
  have children: "dir_children (dir_name keys) keys d = map (\<lambda>n. (n, keys @ [fp_base n], the (map_of (hd_m d) (fp_base n)))) (dir_names (dir_name keys) d)"
    unfolding dir_children_def
  proof (rule map_filter_all)
    fix n assume "n \<in> set (dir_names (dir_name keys) d)"
    then obtain k where k: "k \<in> set ?ks" "n = abs_name (keys @ [k])" unfolding set_names by blast
    then show "(case map_of (hd_m d) (fp_base n) of None \<Rightarrow> None | Some e \<Rightarrow> Some (n, keys @ [fp_base n], e)) =
        Some (n, keys @ [fp_base n], the (map_of (hd_m d) (fp_base n)))"
      using some [OF k(1)] base [OF k(1)] by auto
  qed
  show "set (dir_children (dir_name keys) keys d) = {(abs_name (keys @ [k]), keys @ [k], e) |k e. map_of (hd_m d) k = Some e}"
    unfolding children set_map set_names using base key some by (force simp: image_iff)
  have "inj_on fp_base (set (dir_names (dir_name keys) d))" unfolding set_names using base by (auto simp: inj_on_def)
  then show "distinct (map (fst \<circ> snd) (dir_children (dir_name keys) keys d))"
    unfolding children using dist_names by (simp add: distinct_map inj_on_def)
qed


lemma sub_eq: "entry_ok e \<Longrightarrow> (if ei_err (he_info e) = None then he_dir e else None) = sub_of e"
  using entry_ok_dir [of e] by (cases "he_dir e") (auto simp: sub_of_def plain_entry_def)

lemma visit_sub_eq: "entry_ok e \<Longrightarrow> visit_sub n ks e = (case sub_of e of None \<Rightarrow> [] | Some s \<Rightarrow> [(n, ks, s)])"
  using sub_eq [of e] by (auto simp: visit_sub_def split: option.splits if_splits)

definition queue_ok :: "(bytes \<times> bytes list \<times> hdir) list \<Rightarrow> bool" where
  "queue_ok q \<longleftrightarrow> (\<forall>(n, ks, d) \<in> set q. n = dir_name ks \<and> list_all key_clean ks \<and> tree_ok d)"

definition subs :: "bytes list \<Rightarrow> hdir \<Rightarrow> (bytes \<times> bytes list \<times> hdir) list" where
  "subs keys d = concat (map (\<lambda>(n, ks, e). visit_sub n ks e) (dir_children (dir_name keys) keys d))"

lemma subs_set:
  assumes "tree_ok d" "list_all key_clean keys"
  shows "set (subs keys d) = {(dir_name (keys @ [k]), keys @ [k], s) |k s. sub_at d k = Some s}"
proof -
  have "(x \<in> set (subs keys d)) = (\<exists>k e. map_of (hd_m d) k = Some e \<and> x \<in> set (visit_sub (abs_name (keys @ [k])) (keys @ [k]) e))" for x
    unfolding subs_def using children_ok(1) [OF assms] by auto
  also have "\<dots> x = (\<exists>k s. x = (dir_name (keys @ [k]), keys @ [k], s) \<and> sub_at d k = Some s)" for x
    using tree_ok_get(2) [OF assms(1)] by (fastforce simp: visit_sub_eq sub_at_def dir_name_def split: option.splits)
  finally show ?thesis by auto
qed

lemma subs_ok:
  assumes "tree_ok d" "list_all key_clean keys"
  shows "queue_ok (subs keys d)"
proof -
  have "key_clean k \<and> tree_ok s" if sp: "sub_at d k = Some s" for k s
  proof -
    obtain e where e: "map_of (hd_m d) k = Some e" "he_dir e = Some s"
      using sp by (auto simp: sub_at_def sub_of_def split: option.splits if_splits)
    then show ?thesis using tree_ok_get [OF assms(1) e(1)] entry_ok_dir [of e s] by simp
  qed
  then show ?thesis using assms(2) by (auto simp: queue_ok_def subs_set [OF assms])
qed

lemma walk_step: "state_walk ((dir_name keys, keys, d) # q) = dir_children (dir_name keys) keys d @ state_walk (q @ subs keys d)"
  by (simp add: subs_def Let_def)

lemma dir_get_step: "dir_get d ks = Some e \<longleftrightarrow>
    (\<exists>k. ks = [k] \<and> map_of (hd_m d) k = Some e) \<or> (\<exists>k ks' s. ks = k # ks' \<and> sub_at d k = Some s \<and> dir_get s ks' = Some e)"
  by (cases ks rule: remdups_adj.cases) (auto simp: sub_at_def split: option.splits)

lemma walk_set:
  assumes "queue_ok q"
  shows "set (state_walk q) = {(abs_name (keys @ ks), keys @ ks, e) |n keys d ks e. (n, keys, d) \<in> set q \<and> dir_get d ks = Some e}"
  using assms
proof (induction q rule: state_walk.induct)
  case (2 n keys d q)
  have q: "n = dir_name keys" "list_all key_clean keys" "tree_ok d" "queue_ok q" using 2(2) by (auto simp: queue_ok_def)
  note S = subs_set [OF q(3,2)]
  have "queue_ok (q @ subs keys d)" using q(4) subs_ok [OF q(3,2)] by (auto simp: queue_ok_def)
  from 2(1) [OF refl, folded q(1), unfolded q(1), folded subs_def, OF this]
  have IH: "set (state_walk (q @ subs keys d)) =
    {(abs_name (keys' @ ks), keys' @ ks, e) |n' keys' d' ks e. (n', keys', d') \<in> set (q @ subs keys d) \<and> dir_get d' ks = Some e}" .
  have child: "x \<in> set (dir_children (dir_name keys) keys d) \<longleftrightarrow> (\<exists>k e. map_of (hd_m d) k = Some e \<and> x = (abs_name (keys @ [k]), keys @ [k], e))" for x
    unfolding children_ok(1) [OF q(3,2)] by blast
  have sub: "(\<exists>n' ks' s ks e. (n', ks', s) \<in> set (subs keys d) \<and> dir_get s ks = Some e \<and> x = (abs_name (ks' @ ks), ks' @ ks, e)) \<longleftrightarrow>
    (\<exists>k s ks e. sub_at d k = Some s \<and> dir_get s ks = Some e \<and> x = (abs_name ((keys @ [k]) @ ks), (keys @ [k]) @ ks, e))" for x
    unfolding S by blast
  have here: "(\<exists>k e. map_of (hd_m d) k = Some e \<and> x = (abs_name (keys @ [k]), keys @ [k], e)) \<or>
    (\<exists>k s ks e. sub_at d k = Some s \<and> dir_get s ks = Some e \<and> x = (abs_name ((keys @ [k]) @ ks), (keys @ [k]) @ ks, e)) \<longleftrightarrow>
    (\<exists>ks e. dir_get d ks = Some e \<and> x = (abs_name (keys @ ks), keys @ ks, e))" for x
    unfolding dir_get_step [of d] append_assoc append_Cons append_Nil by blast
  have "x \<in> set (state_walk ((dir_name keys, keys, d) # q)) \<longleftrightarrow> (\<exists>ks e. dir_get d ks = Some e \<and> x = (abs_name (keys @ ks), keys @ ks, e)) \<or>
    (\<exists>n' keys' d' ks e. (n', keys', d') \<in> set q \<and> dir_get d' ks = Some e \<and> x = (abs_name (keys' @ ks), keys' @ ks, e))" for x
    unfolding walk_step set_append IH here [symmetric] sub [symmetric] child [symmetric] by blast
  then show ?case unfolding q(1) by (intro set_eqI) (simp only: mem_Collect_eq list.set insert_iff prod.inject, blast)
qed simp


definition apart :: "bytes list \<Rightarrow> bytes list \<Rightarrow> bool" where
  "apart ks ks' \<longleftrightarrow> \<not> prefix ks ks' \<and> \<not> prefix ks' ks"

lemma apart_sym: "apart x y \<Longrightarrow> apart y x"
  by (simp add: apart_def)

lemma apart_child: "apart keys x \<Longrightarrow> apart (keys @ [k]) x"
  by (auto simp: apart_def dest: append_prefixD)

lemma apart_siblings: "k \<noteq> k' \<Longrightarrow> apart (keys @ [k]) (keys @ [k'])"
  by (simp add: apart_def)

lemma visit_sub_one: "visit_sub n ks e = [] \<or> (\<exists>s. visit_sub n ks e = [(n, ks, s)])"
  by (cases "he_dir e"; cases "ei_err (he_info e)"; simp add: visit_sub_def)

lemma sorted_concat_visit:
  "sorted_wrt (\<lambda>x y. apart (fst (snd x)) (fst (snd y))) cs \<Longrightarrow>
    sorted_wrt (\<lambda>x y. apart (fst (snd x)) (fst (snd y))) (concat (map (\<lambda>(n, ks, e). visit_sub n ks e) cs))"
proof (induction cs)
  case (Cons c cs)
  obtain n ks e where c: "c = (n, ks, e)" by (cases c)
  have one: "x \<in> set (visit_sub n ks e) \<Longrightarrow> fst (snd x) = ks" "sorted_wrt R (visit_sub n ks e)" for x n ks e R
    using visit_sub_one [of n ks e] by auto
  have "apart ks (fst (snd y))" if "y \<in> set (concat (map (\<lambda>(n, ks, e). visit_sub n ks e) cs))" for y
    using that Cons.prems c one(1) by fastforce
  then show ?case using Cons.IH Cons.prems c one by (auto simp: sorted_wrt_append)
qed simp

lemma walk_sorted:
  assumes "queue_ok q" "sorted_wrt (\<lambda>x y. apart (fst (snd x)) (fst (snd y))) q"
  shows "sorted_wrt (\<lambda>x y. \<not> prefix (fst (snd y)) (fst (snd x))) (state_walk q)"
  using assms
proof (induction q rule: state_walk.induct)
  case (2 n keys d q)
  have q: "n = dir_name keys" "list_all key_clean keys" "tree_ok d" "queue_ok q" using 2(2) by (auto simp: queue_ok_def)
  let ?cs = "dir_children (dir_name keys) keys d"
  note S = subs_set [OF q(3,2)] and C = children_ok [OF q(3,2)]
  have other: "apart keys (fst (snd x))" if "x \<in> set q" for x using 2(3) that by simp
  have kid: "\<exists>k. fst (snd x) = keys @ [k]" if "x \<in> set ?cs" for x using that C(1) by auto
  have qk: "queue_ok (q @ subs keys d)" using q(4) subs_ok [OF q(3,2)] by (auto simp: queue_ok_def)
  have "sorted_wrt (\<lambda>x y. fst (snd x) \<noteq> fst (snd y)) ?cs"
    using C(2) by (simp add: distinct_conv_nth sorted_wrt_iff_nth_less)
  then have cs: "sorted_wrt (\<lambda>x y. apart (fst (snd x)) (fst (snd y))) ?cs"
  proof (rule sorted_wrt_mono_rel [rotated])
    fix x y assume "x \<in> set ?cs" "y \<in> set ?cs" "fst (snd x) \<noteq> fst (snd y)"
    then show "apart (fst (snd x)) (fst (snd y))" using kid [of x] kid [of y] apart_siblings by force
  qed
  then have "sorted_wrt (\<lambda>x y. apart (fst (snd x)) (fst (snd y))) (subs keys d)" unfolding subs_def by (rule sorted_concat_visit)
  moreover have "apart (fst (snd x)) (fst (snd y))" if "x \<in> set q" "y \<in> set (subs keys d)" for x y
    using apart_child [OF other [OF that(1)]] that(2) by (auto simp: S intro: apart_sym)
  ultimately have "sorted_wrt (\<lambda>x y. apart (fst (snd x)) (fst (snd y))) (q @ subs keys d)"
    using 2(3) by (simp add: sorted_wrt_append)
  from 2(1) [OF refl, folded q(1), unfolded q(1), folded subs_def, OF qk this]
  have IH: "sorted_wrt (\<lambda>x y. \<not> prefix (fst (snd y)) (fst (snd x))) (state_walk (q @ subs keys d))" .
  have "\<not> prefix (fst (snd y)) (fst (snd x))" if x: "x \<in> set ?cs" and y: "y \<in> set (state_walk (q @ subs keys d))" for x y
  proof -
    obtain k where k: "fst (snd x) = keys @ [k]" using kid [OF x] by blast
    obtain m keys' d' ks e where y': "(m, keys', d') \<in> set (q @ subs keys d)" "dir_get d' ks = Some e" "fst (snd y) = keys' @ ks"
      using y unfolding walk_set [OF qk] mem_Collect_eq by (metis fst_conv snd_conv)
    have ks: "ks \<noteq> []" using y'(2) by auto
    show ?thesis
    proof (cases "(m, keys', d') \<in> set q")
      case True
      have "apart keys keys'" using other [OF True] by simp
      moreover obtain ys z where "ks = ys @ [z]" using ks by (cases ks rule: rev_cases) auto
      ultimately show ?thesis using k y'(3) by (auto simp: apart_def prefix_snoc simp flip: append_assoc dest: append_prefixD)
    next
      case False
      then obtain k' where "keys' = keys @ [k']" using y'(1) by (auto simp: S)
      then show ?thesis using k y'(3) ks by simp
    qed
  qed
  moreover have "sorted_wrt (\<lambda>x y. \<not> prefix (fst (snd y)) (fst (snd x))) ?cs"
    by (rule sorted_wrt_mono_rel [OF _ cs]) (simp add: apart_def)
  ultimately show ?case unfolding q(1) walk_step using IH by (simp add: sorted_wrt_append)
qed simp


section \<open>Comparing with the disk\<close>

text \<open>
  The disk has not changed since the state was taken: a recorded name is as it was, or it is a
  generated file that was never written to the disk and is not needed there.
\<close>

definition same_local :: "'w fsEnv \<Rightarrow> 'w \<Rightarrow> pbEntry \<Rightarrow> bool" where
  "same_local ev w p \<longleftrightarrow>
     (case os_lstat (fe_os ev) (pe_Name p) w of
        Inl err \<Rightarrow> False
      | Inr fi \<Rightarrow> oi_mtime fi = pe_ModTime p \<and> oi_mtime fi \<le> os_now (fe_os ev) w \<and>
          (toDigest (pe_Digest p) = zero_digest \<and> pe_Target p \<noteq> [] \<longrightarrow> os_readlink (fe_os ev) (pe_Name p) w = Inr (pe_Target p)))"

definition not_local :: "'w fsEnv \<Rightarrow> 'w \<Rightarrow> pbEntry \<Rightarrow> bool" where
  "not_local ev w p \<longleftrightarrow> os_lstat (fe_os ev) (pe_Name p) w = Inl ErrNotExist \<and> pe_CmdHash p \<noteq> [] \<and> \<not> fe_outputLocal ev (pe_Name p) \<and>
     (pe_Digest p \<noteq> None \<or> pe_Target p \<noteq> [])"

definition unchanged :: "'w fsEnv \<Rightarrow> 'w \<Rightarrow> pbEntry \<Rightarrow> bool" where
  "unchanged ev w p \<longleftrightarrow> \<not> fe_ignore ev (pe_Name p) \<and> (same_local ev w p \<or> not_local ev w p)"

text \<open>An entry that \<open>State\<close> records: its time is set, and digests are present or nil.\<close>

definition recorded :: "pbEntry \<Rightarrow> bool" where
  "recorded p \<longleftrightarrow> pe_ModTime p \<noteq> 0 \<and> (case pe_Digest p of None \<Rightarrow> pe_Target p \<noteq> [] \<or> pe_CmdHash p \<noteq> [] | Some d \<Rightarrow> \<not> digest_IsZero d) \<and>
     (case pe_Action p of None \<Rightarrow> True | Some d \<Rightarrow> \<not> digest_IsZero d)"

definition is_dir_pb :: "pbEntry \<Rightarrow> bool" where
  "is_dir_pb p \<longleftrightarrow> pe_Digest p = None \<and> pe_Target p = []"

definition local_time :: "'w fsEnv \<Rightarrow> 'w \<Rightarrow> pbEntry \<Rightarrow> nat option" where
  "local_time ev w p = (if same_local ev w p then Some (pe_ModTime p) else None)"

definition kept_verdict :: "'w fsEnv \<Rightarrow> 'w \<Rightarrow> pbEntry \<Rightarrow> verdict" where
  "kept_verdict ev w p = (let e = state_entry p (local_time ev w p) in
     if is_dir_pb p then AsDir e else AsFile e (same_local ev w p \<and> pe_CmdHash p \<noteq> []))"

lemma zero_digest_zero [simp]: "digest_IsZero zero_digest"
  by (simp add: digest_IsZero_def zero_digest_def)

lemma state_entry_fields:
  "ei_d (he_info (state_entry p t)) = toDigest (pe_Digest p)" "ei_target (he_info (state_entry p t)) = pe_Target p"
  "ei_cmdhash (he_info (state_entry p t)) = pe_CmdHash p" "ei_action (he_info (state_entry p t)) = toDigest (pe_Action p)"
  "ei_mtime (he_info (state_entry p t)) = pe_ModTime p" "ei_err (he_info (state_entry p t)) = None"
  "he_dir (state_entry p t) = (if digest_IsZero (toDigest (pe_Digest p)) \<and> pe_Target p = [] then Some empty_dir else None)"
  "ei_size (he_info (state_entry p t)) = dg_SizeBytes (toDigest (pe_Digest p))"
  "md_perm (ei_mode (he_info (state_entry p t))) = (if pe_IsExecutable p then 493 else 420)"
  by (simp_all add: state_entry_def newStateEntry_def upd_info_def Let_def zero_info_def)

lemma recorded_zero: "recorded p \<Longrightarrow> digest_IsZero (toDigest (pe_Digest p)) \<longleftrightarrow> pe_Digest p = None"
  by (auto simp: recorded_def toDigest_def split: option.splits)

text \<open>Every goroutine comes to its verdict whatever the others did before.\<close>

lemma set_entry_unchanged:
  assumes "unchanged ev w p" "recorded p" "st_disk s = w"
  shows "\<exists>s'. set_entry ev p s = (Inr (kept_verdict ev w p), s') \<and> st_disk s' = w"
proof (cases "same_local ev w p")
  case True
  then obtain fi where fi: "os_lstat (fe_os ev) (pe_Name p) w = Inr fi" "oi_mtime fi = pe_ModTime p" "\<not> os_now (fe_os ev) w < oi_mtime fi"
    by (auto simp: same_local_def split: sum.splits)
  have t: "local_time ev w p = Some (pe_ModTime p)" using True by (simp add: local_time_def)
  have et: "snd (newStateEntry p (Some (pe_ModTime p))) = EntryEqLocal" using assms(2) by (simp add: newStateEntry_def Let_def stateType_def recorded_def)
  have z: "toDigest (pe_Digest p) = zero_digest" if "pe_Digest p = None" using that by (simp add: toDigest_def)
  have link: "os_readlink (fe_os ev) (pe_Name p) w = Inr (pe_Target p)" if "pe_Digest p = None" "pe_Target p \<noteq> []"
    using True fi(1) that z by (simp add: same_local_def)
  have cmd: "pe_CmdHash p \<noteq> []" if "is_dir_pb p" using assms(2) that by (auto simp: recorded_def is_dir_pb_def)
  have ign: "\<not> fe_ignore ev (pe_Name p)" using assms(1) by (simp add: unchanged_def)
  show ?thesis
  proof (cases "pe_Digest p")
    case None
    then show ?thesis using fi t et ign link cmd True assms(3) recorded_zero [OF assms(2)]
      by (simp add: set_entry_def state_entry_fields judge_def Let_def kept_verdict_def is_dir_pb_def)
  next
    case (Some dg)
    then show ?thesis using fi t et ign True assms(3) recorded_zero [OF assms(2)]
      by (simp add: set_entry_def state_entry_fields judge_def Let_def kept_verdict_def is_dir_pb_def reconcile_def)
  qed
next
  case False
  then have "not_local ev w p" "\<not> fe_ignore ev (pe_Name p)" using assms(1) by (auto simp: unchanged_def)
  then show ?thesis using False assms(3)
    by (auto simp: set_entry_def not_local_def kept_verdict_def is_dir_pb_def local_time_def Let_def)
qed

lemma set_entries_unchanged:
  assumes "\<And>i. i \<in> set order \<Longrightarrow> unchanged ev w (f i) \<and> recorded (f i)" "st_disk s = w"
  shows "\<exists>s'. set_entries ev (map (\<lambda>i. (i, f i)) order) s = (map (\<lambda>i. (i, Inr (kept_verdict ev w (f i)))) order, s') \<and> st_disk s' = w"
  using assms
proof (induction order arbitrary: s)
  case (Cons i order)
  obtain s1 where s1: "set_entry ev (f i) s = (Inr (kept_verdict ev w (f i)), s1)" "st_disk s1 = w"
    using set_entry_unchanged [of ev w "f i" s] Cons.prems by auto
  obtain s2 where "set_entries ev (map (\<lambda>i. (i, f i)) order) s1 = (map (\<lambda>i. (i, Inr (kept_verdict ev w (f i)))) order, s2)" "st_disk s2 = w"
    using Cons.IH [OF _ s1(2)] Cons.prems(1) by auto
  then show ?case using s1 by simp
qed simp


section \<open>The recorded entries of a tree\<close>

definition items :: "'w fsEnv \<Rightarrow> 'w \<Rightarrow> hdir \<Rightarrow> (bytes list \<times> pbEntry) list" where
  "items ev w d = concat (map (\<lambda>(n, ks, e). map (Pair ks) (fst (visit_entry ev w n e))) (state_walk [(''/'', [], d)]))"

lemma state_items: "ps_Entries (fst (hfs_State ev w bt d)) = map snd (items ev w d)"
  by (simp add: hfs_State_def items_def map_concat Let_def comp_def case_prod_beta)

lemma start_queue: "tree_ok d \<Longrightarrow> queue_ok [(''/'', [], d)]"
  by (simp add: queue_ok_def dir_name_def)

lemma record_digest_dir: "he_dir (record_digest ev w e) = he_dir e" "ei_target (he_info (record_digest ev w e)) = ei_target (he_info e)"
  "ei_mtime (he_info (record_digest ev w e)) = ei_mtime (he_info e)"
  "he_dir e \<noteq> None \<or> \<not> digest_IsZero (ei_d (he_info e)) \<or> ei_target (he_info e) \<noteq> [] \<Longrightarrow> record_digest ev w e = e"
  by (auto simp: record_digest_def entry_compute_def upd_info_def Let_def split: option.split sum.split)

lemma visit_one: "fst (visit_entry ev w n e) = [] \<or> (\<exists>p. fst (visit_entry ev w n e) = [p])"
  by (auto simp: visit_entry_def record_entry_def Let_def)

lemma from_digest_ok: "case fromDigest d of None \<Rightarrow> True | Some d \<Rightarrow> \<not> digest_IsZero d"
  by (simp add: fromDigest_def)

lemma visit_recorded:
  assumes "entry_ok e" "p \<in> set (fst (visit_entry ev w n e))"
  shows "recorded p" "pe_Name p = n" "is_dir_pb p \<longleftrightarrow> sub_of e \<noteq> None"
proof -
  let ?e = "record_digest ev w e"
  have e: "ei_err (he_info e) = None" "ei_mtime (he_info e) \<noteq> 0" and p: "p \<in> set (record_entry n ?e)"
    using assms(2) by (auto simp: visit_entry_def Let_def split: if_splits)
  have dir: "he_dir e \<noteq> None \<Longrightarrow> ei_target (he_info e) = [] \<and> digest_IsZero (ei_d (he_info e)) \<and> ?e = e"
    using entry_ok_dir [OF assms(1)] record_digest_dir(4) [of e ev w] by auto
  show "pe_Name p = n" using p by (auto simp: record_entry_def pb_of_def Let_def split: if_splits)
  show "recorded p" using p e(2) record_digest_dir(3) [of ev w e]
    by (auto simp: record_entry_def recorded_def pb_of_def fromDigest_def Let_def split: if_splits)
  have "is_dir_pb p \<longleftrightarrow> he_dir e \<noteq> None"
  proof (cases "he_dir e")
    case None
    then show ?thesis using p record_digest_dir(1,2) [of ev w e]
      by (auto simp: record_entry_def is_dir_pb_def pb_of_def fromDigest_def Let_def split: if_splits)
  next
    case (Some s)
    then show ?thesis using p dir by (simp add: record_entry_def is_dir_pb_def pb_of_def Let_def split: if_splits)
  qed
  then show "is_dir_pb p \<longleftrightarrow> sub_of e \<noteq> None" using dir e(1) by (auto simp: sub_of_def plain_entry_def)
qed

lemma items_set:
  assumes "tree_ok d"
  shows "(ks, p) \<in> set (items ev w d) \<longleftrightarrow> (\<exists>e. dir_get d ks = Some e \<and> p \<in> set (fst (visit_entry ev w (abs_name ks) e)))"
  unfolding items_def using walk_set [OF start_queue [OF assms]] by fastforce

lemma items_sorted:
  assumes "tree_ok d"
  shows "sorted_wrt (\<lambda>x y. \<not> prefix (fst y) (fst x)) (items ev w d)"
proof -
  have "sorted_wrt (\<lambda>x y. \<not> prefix (fst y) (fst x)) (concat (map (\<lambda>(n, ks, e). map (Pair ks) (fst (visit_entry ev w n e))) ws))"
    if "sorted_wrt (\<lambda>x y. \<not> prefix (fst (snd y)) (fst (snd x))) ws" for ws
    using that
  proof (induction ws)
    case (Cons c ws)
    obtain n ks e where c: "c = (n, ks, e)" by (cases c)
    have "\<not> prefix (fst y) ks" if "y \<in> set (concat (map (\<lambda>(n, ks, e). map (Pair ks) (fst (visit_entry ev w n e))) ws))" for y
      using that Cons.prems c by fastforce
    then show ?case using Cons.IH Cons.prems c visit_one [of ev w n e] by (auto simp: sorted_wrt_append)
  qed simp
  then show ?thesis unfolding items_def using walk_sorted [OF start_queue [OF assms]] by simp
qed

lemma dir_get_above:
  assumes "dir_get d ks = Some e" "strict_prefix p ks" "p \<noteq> []"
  shows "\<exists>e'. dir_get d p = Some e' \<and> sub_of e' \<noteq> None"
  using assms
proof (induction p arbitrary: d ks rule: induct_list012)
  case (2 k)
  then obtain k' ks' where "ks = k # k' # ks'" by (cases ks rule: remdups_adj.cases) (auto simp: strict_prefix_def)
  then show ?case using 2(1) by (auto split: option.splits)
next
  case (3 k k' p)
  then obtain ks' where ks: "ks = k # ks'" "strict_prefix (k' # p) ks'" by (cases ks) (auto simp: strict_prefix_def)
  then have "ks' \<noteq> []" by auto
  then obtain x s where x: "map_of (hd_m d) k = Some x" "sub_of x = Some s" "dir_get s ks' = Some e"
    using 3(3) ks(1) by (auto simp: dir_get_Cons split: option.splits)
  show ?case using 3(2) [OF x(3) ks(2)] x(1,2) by simp
qed simp


section \<open>A restart\<close>

definition plan_stores :: "'w fsEnv \<Rightarrow> 'w \<Rightarrow> (bytes list \<times> pbEntry) list \<Rightarrow> (bytes list \<times> hentry) list" where
  "plan_stores ev w is = map (\<lambda>(ks, p). (ks, state_entry p (local_time ev w p))) (filter (\<lambda>x. is_dir_pb (snd x)) is @ filter (\<lambda>x. \<not> is_dir_pb (snd x)) is)"

lemma kept_dirs: "dirs_of (map (\<lambda>p. (pe_Name p, kept_verdict ev w p)) ps) =
    map (\<lambda>p. (pe_Name p, state_entry p (local_time ev w p))) (filter is_dir_pb ps)"
  by (induction ps) (simp_all add: dirs_of_def kept_verdict_def List.map_filter_simps Let_def)

lemma kept_files: "files_of (map (\<lambda>p. (pe_Name p, kept_verdict ev w p)) ps) =
    map (\<lambda>p. (pe_Name p, state_entry p (local_time ev w p))) (filter (\<lambda>p. \<not> is_dir_pb p) ps)"
  by (induction ps) (simp_all add: files_of_def kept_verdict_def List.map_filter_simps Let_def)

lemma open_state_entry: "recorded p \<Longrightarrow> is_dir_pb p \<Longrightarrow> open_dir (state_entry p t)"
  by (simp add: open_dir_def plain_entry_def state_entry_fields is_dir_pb_def toDigest_def)

lemma item_facts:
  assumes "tree_ok d" "x \<in> set (items ev w d)"
  shows "recorded (snd x)" "pe_Name (snd x) = abs_name (fst x)" "list_all key_clean (fst x)" "fst x \<noteq> []"
    "\<exists>e. dir_get d (fst x) = Some e \<and> (is_dir_pb (snd x) \<longleftrightarrow> sub_of e \<noteq> None) \<and> snd x \<in> set (fst (visit_entry ev w (abs_name (fst x)) e))"
proof -
  obtain e where e: "dir_get d (fst x) = Some e" "snd x \<in> set (fst (visit_entry ev w (abs_name (fst x)) e))"
    using items_set [OF assms(1), of "fst x" "snd x" ev w] assms(2) by auto
  note ok = dir_get_ok [OF assms(1) e(1)]
  show "recorded (snd x)" "pe_Name (snd x) = abs_name (fst x)" using visit_recorded [OF _ e(2)] ok by simp_all
  show "list_all key_clean (fst x)" "fst x \<noteq> []" using ok by simp_all
  show "\<exists>e. dir_get d (fst x) = Some e \<and> (is_dir_pb (snd x) \<longleftrightarrow> sub_of e \<noteq> None) \<and> snd x \<in> set (fst (visit_entry ev w (abs_name (fst x)) e))"
    using e visit_recorded [OF _ e(2)] ok by blast
qed

text \<open>A recorded name below another recorded name: the other one is a directory.\<close>

lemma item_above:
  assumes "tree_ok d" "x \<in> set (items ev w d)" "y \<in> set (items ev w d)" "prefix (fst x) (fst y)"
  shows "x = y \<or> is_dir_pb (snd x)"
proof -
  obtain e where e: "dir_get d (fst x) = Some e" "is_dir_pb (snd x) \<longleftrightarrow> sub_of e \<noteq> None" "snd x \<in> set (fst (visit_entry ev w (abs_name (fst x)) e))"
    using item_facts(5) [OF assms(1,2)] by blast
  obtain e' where e': "dir_get d (fst y) = Some e'" "snd y \<in> set (fst (visit_entry ev w (abs_name (fst y)) e'))"
    using item_facts(5) [OF assms(1,3)] by blast
  show ?thesis
  proof (cases "fst x = fst y")
    case True
    then have "snd x = snd y" using e(1,3) e' visit_one [of ev w "abs_name (fst x)" e] by auto
    then show ?thesis using True by (simp add: prod_eq_iff)
  next
    case False
    then have "strict_prefix (fst x) (fst y)" using assms(4) by (simp add: strict_prefix_def)
    from dir_get_above [OF e'(1) this item_facts(4) [OF assms(1,2)]] show ?thesis using e(1,2) by auto
  qed
qed

lemma plan_layered:
  assumes "tree_ok d"
  shows "layered (plan_stores ev w (items ev w d))"
proof -
  let ?is = "items ev w d" and ?g = "\<lambda>(ks, p). (ks, state_entry p (local_time ev w p))"
  let ?R = "\<lambda>x y. \<not> prefix (fst y) (fst x) \<and> (prefix (fst x) (fst y) \<longrightarrow> is_dir_pb (snd x))"
  have "sorted_wrt ?R ?is"
    by (rule sorted_wrt_mono_rel [OF _ items_sorted [OF assms]]) (use item_above [OF assms] in fastforce)
  then have "sorted_wrt ?R (filter P ?is)" for P by (rule sorted_wrt_filter)
  moreover have "?R x y" if "x \<in> set ?is" "is_dir_pb (snd x)" "y \<in> set ?is" "\<not> is_dir_pb (snd y)" for x y
    using item_above [OF assms that(3,1)] that by auto
  ultimately have "sorted_wrt ?R (filter (\<lambda>x. is_dir_pb (snd x)) ?is @ filter (\<lambda>x. \<not> is_dir_pb (snd x)) ?is)"
    by (simp add: sorted_wrt_append)
  then have "sorted_wrt (\<lambda>x y. \<not> prefix (fst (?g y)) (fst (?g x)) \<and> (prefix (fst (?g x)) (fst (?g y)) \<longrightarrow> open_dir (snd (?g x))))
    (filter (\<lambda>x. is_dir_pb (snd x)) ?is @ filter (\<lambda>x. \<not> is_dir_pb (snd x)) ?is)"
    by (rule sorted_wrt_mono_rel [rotated]) (use item_facts(1) [OF assms] open_state_entry in \<open>force split: prod.splits\<close>)
  moreover have "keys_ok (fst x) \<and> (he_dir (snd x) = None \<or> he_dir (snd x) = Some empty_dir)" if "x \<in> set (plan_stores ev w ?is)" for x
    using that item_facts(3,4) [OF assms] clean_keys_ok by (force simp: plan_stores_def state_entry_fields)
  ultimately show ?thesis unfolding layered_def plan_stores_def sorted_wrt_map by blast
qed

definition dirs_there :: "'w os \<Rightarrow> 'w \<Rightarrow> hdir \<Rightarrow> bool" where
  "dirs_there os w d \<longleftrightarrow> (\<forall>ks e. dir_get d ks = Some e \<longrightarrow> sub_of e \<noteq> None \<longrightarrow> disk_open os w (''/'' # ks))"

lemma plan_open:
  assumes "tree_ok d" "dirs_there os w d"
  shows "dirs_open os w (plan_stores ev w (items ev w d))"
proof -
  have "disk_open os w (''/'' # p)" if x: "x \<in> set (items ev w d)" and p: "p \<noteq> []" "strict_prefix p (fst x)" for x p
    using item_facts(5) [OF assms(1) x] dir_get_above [OF _ p(2,1)] assms(2) unfolding dirs_there_def by blast
  then show ?thesis by (auto simp: dirs_open_def plan_stores_def)
qed

lemma plan_room:
  assumes "tree_ok d" "dirs_there os w d"
  shows "room os w (plan_stores ev w (items ev w d)) empty_dir"
  using plan_open [OF assms] by (simp add: room_def dirs_open_def dir_get_empty)

lemma pb_restored:
  assumes "recorded p"
  shows "pb_of (pe_Name p) (he_info (state_entry p t)) = p\<lparr>pe_UpdatedTime := max (pe_UpdatedTime p) (pe_ModTime p)\<rparr>"
proof -
  have "fromDigest (toDigest (pe_Digest p)) = pe_Digest p" "fromDigest (toDigest (pe_Action p)) = pe_Action p"
    using assms by (auto simp: recorded_def fromDigest_def toDigest_def split: option.splits)
  moreover have "(493 :: nat) AND 73 \<noteq> 0" "(420 :: nat) AND 73 = 0" by code_simp+
  moreover have "ei_updatedTime (he_info (state_entry p t)) = max (pe_UpdatedTime p) (pe_ModTime p)"
    by (simp add: state_entry_def newStateEntry_def upd_info_def Let_def)
  ultimately show ?thesis by (simp add: pb_of_def state_entry_fields)
qed


lemma plan_names:
  assumes "tree_ok d"
  shows "map (\<lambda>(ks, e). (abs_name ks, e)) (plan_stores ev w (items ev w d)) =
    dirs_of (map (\<lambda>p. (pe_Name p, kept_verdict ev w p)) (map snd (items ev w d))) @
    files_of (map (\<lambda>p. (pe_Name p, kept_verdict ev w p)) (map snd (items ev w d)))"
proof -
  have "map (\<lambda>(ks, e). (abs_name ks, e)) (map (\<lambda>(ks, p). (ks, state_entry p (local_time ev w p))) (filter (\<lambda>x. P (snd x)) xs)) =
    map (\<lambda>p. (pe_Name p, state_entry p (local_time ev w p))) (filter P (map snd xs))"
    if "\<And>x. x \<in> set xs \<Longrightarrow> pe_Name (snd x) = abs_name (fst x)" for P xs
    using that by (induction xs) auto
  from this [of "items ev w d"]
  have E: "map (\<lambda>(ks, e). (abs_name ks, e)) (map (\<lambda>(ks, p). (ks, state_entry p (local_time ev w p))) (filter (\<lambda>x. P (snd x)) (items ev w d))) =
    map (\<lambda>p. (pe_Name p, state_entry p (local_time ev w p))) (filter P (map snd (items ev w d)))" for P
    using item_facts(2) [OF assms, of _ ev w] by blast
  show ?thesis unfolding kept_dirs kept_files plan_stores_def map_append using E [of is_dir_pb] E [of "\<lambda>p. \<not> is_dir_pb p"] by (simp only:)
qed

lemma verdict_of_map:
  "i \<in> set order \<Longrightarrow> verdict_of (map (\<lambda>i. (i, Inr (g i))) order) i = g i"
  by (induction order) (auto simp: verdict_of_def)

lemma first_err_map: "first_err (map (\<lambda>i. (i, Inr (g i))) order) = None"
  by (induction order) (simp_all add: first_err_def List.map_filter_simps)

definition fresh_fs :: "'w \<Rightarrow> 'w loadedFS" where
  "fresh_fs w = \<lparr>lf_dir = empty_dir, lf_buildTargets = None, lf_previous = [], lf_clean = False, lf_loaded = False, lf_disk = w\<rparr>"

lemma set_state_unchanged:
  assumes "\<And>p. p \<in> set (ps_Entries st) \<Longrightarrow> unchanged ev w p \<and> recorded p" "set order = {..<length (ps_Entries st)}"
    and "store_all (fe_os ev) w (dirs_of (map (\<lambda>p. (pe_Name p, kept_verdict ev w p)) (ps_Entries st)) @
      files_of (map (\<lambda>p. (pe_Name p, kept_verdict ev w p)) (ps_Entries st))) empty_dir = (None, d')"
  shows "\<exists>h. hfs_SetState ev order st (fresh_fs w) = (None, h) \<and> lf_dir h = d' \<and> lf_loaded h \<and> lf_disk h = w"
proof -
  let ?ps = "ps_Entries st"
  obtain s where s: "set_entries ev (map (\<lambda>i. (i, ?ps ! i)) order) (start_setting w) =
      (map (\<lambda>i. (i, Inr (kept_verdict ev w (?ps ! i)))) order, s)" "st_disk s = w"
    using set_entries_unchanged [of order ev w "\<lambda>i. ?ps ! i" "start_setting w"] assms(1,2) by (auto simp: start_setting_def)
  have "map (\<lambda>i. (pe_Name (?ps ! i), verdict_of (map (\<lambda>i. (i, Inr (kept_verdict ev w (?ps ! i)))) order) i)) [0..<length ?ps] =
    map (\<lambda>i. (pe_Name (?ps ! i), kept_verdict ev w (?ps ! i))) [0..<length ?ps]"
    using assms(2) by (intro map_cong [OF refl]) (simp add: verdict_of_map)
  also have "\<dots> = map (\<lambda>p. (pe_Name p, kept_verdict ev w p)) ?ps"
    by (rule nth_equalityI) simp_all
  finally show ?thesis using s assms(3) by (simp add: hfs_SetState_def fresh_fs_def first_err_map Let_def)
qed


lemma state_roundtrip_pre:
  assumes "tree_ok d" "dirs_there (fe_os ev) w d" "\<And>p. p \<in> set (ps_Entries (fst (hfs_State ev w bt d))) \<Longrightarrow> unchanged ev w p"
    and "set order = {..<length (ps_Entries (fst (hfs_State ev w bt d)))}"
  shows "\<exists>h. hfs_SetState ev order (fst (hfs_State ev w bt d)) (fresh_fs w) = (None, h) \<and> lf_loaded h \<and> lf_disk h = w \<and>
    (\<forall>x \<in> set (plan_stores ev w (items ev w d)). holds (lf_dir h) x)"
proof -
  note pl = plan_layered [OF assms(1), of ev w] plan_room [OF assms(1,2), of ev] plan_open [OF assms(1,2), of ev]
  obtain d' where d': "store_all (fe_os ev) w (map (\<lambda>(ks, e). (abs_name ks, e)) (plan_stores ev w (items ev w d))) empty_dir = (None, d')"
    "\<forall>x \<in> set (plan_stores ev w (items ev w d)). holds d' x"
    using store_layered [OF pl] by blast
  have "unchanged ev w p \<and> recorded p" if "p \<in> set (ps_Entries (fst (hfs_State ev w bt d)))" for p
    using assms(3) [OF that] that item_facts(1) [OF assms(1)] by (auto simp: state_items)
  from set_state_unchanged [OF this assms(4) d'(1) [unfolded plan_names [OF assms(1)], folded state_items [of ev w bt d]]]
  show ?thesis using d'(2) by blast
qed

end
