(* ===== verification/Hash_State_Props.thy ===== *)
theory Hash_State_Props
  imports Hash_State_Proofs
begin

text \<open>
  Properties of the saved state: what was recorded is found again after a restart, the journal of an
  interrupted build takes precedence, the state file survives a failing save, and what \<open>SetState\<close> keeps
  of a changed disk depends on the order of its goroutines.
\<close>

section \<open>Properties\<close>

text \<open>
  C13: A restart loses nothing. The tree is saved with \<open>State\<close> and put into a new tree with \<open>SetState\<close>, in
  any order of its goroutines, while the disk did not change; a generated file need not be on the disk
  at all. Then \<open>SetState\<close> succeeds and does not touch the disk, every recorded name is found, and the
  entry found would be recorded with the same digest, target, mode, command hash, action and time.
  Every file and link of the tree with a time and a digest or a target is recorded.
\<close>

theorem restart_keeps_entries:
  assumes "tree_ok d" "dirs_there (fe_os ev) w d" "hfs_State ev w bt d = (st, d1)"
    and "\<forall>p \<in> set (ps_Entries st). unchanged ev w p" "set order = {..<length (ps_Entries st)}"
  shows "\<exists>h. hfs_SetState ev order st (fresh_fs w) = (None, h) \<and> lf_loaded h \<and> lf_disk h = w \<and>
    (\<forall>p \<in> set (ps_Entries st). \<exists>e ks. dir_lookup (lf_dir h) (pe_Name p) = Found e ks \<and>
      pb_of (pe_Name p) (he_info e) = p\<lparr>pe_UpdatedTime := max (pe_UpdatedTime p) (pe_ModTime p)\<rparr>) \<and>
    (\<forall>ks e. dir_get d ks = Some e \<longrightarrow> ei_err (he_info e) = None \<longrightarrow> ei_mtime (he_info e) \<noteq> 0 \<longrightarrow>
      \<not> digest_IsZero (ei_d (he_info e)) \<or> ei_target (he_info e) \<noteq> [] \<longrightarrow> pb_of (abs_name ks) (he_info e) \<in> set (ps_Entries st))"
proof -
  have st: "st = fst (hfs_State ev w bt d)" using assms(3) by simp
  obtain h where h: "hfs_SetState ev order st (fresh_fs w) = (None, h)" "lf_loaded h" "lf_disk h = w"
    "\<forall>x \<in> set (plan_stores ev w (items ev w d)). holds (lf_dir h) x"
    using state_roundtrip_pre [OF assms(1,2), of bt order] assms(4,5) unfolding st by blast
  have "\<exists>e ks. dir_lookup (lf_dir h) (pe_Name p) = Found e ks \<and>
      pb_of (pe_Name p) (he_info e) = p\<lparr>pe_UpdatedTime := max (pe_UpdatedTime p) (pe_ModTime p)\<rparr>" if pp: "p \<in> set (ps_Entries st)" for p
  proof -
    obtain ks where x: "(ks, p) \<in> set (items ev w d)" using pp by (auto simp: st state_items)
    note F = item_facts [OF assms(1) x, simplified]
    have "(ks, state_entry p (local_time ev w p)) \<in> set (plan_stores ev w (items ev w d))" using x by (force simp: plan_stores_def)
    then obtain e where e: "dir_get (lf_dir h) ks = Some e" "he_info e = he_info (state_entry p (local_time ev w p))"
      using h(4) by (fastforce simp: holds_def)
    have "lookupEntry (lf_dir h) (abs_name ks) = Found e ks" using e(1) lookupEntry_get [OF clean_keys_ok [OF F(3,4)]] by blast
    then have "dir_lookup (lf_dir h) (pe_Name p) = Found e ks" using F(2) by (simp add: dir_lookup_def maxSymlinks_def numeral_eq_Suc)
    then show ?thesis using e(2) pb_restored [OF F(1)] by auto
  qed
  moreover have "pb_of (abs_name ks) (he_info e) \<in> set (ps_Entries st)" if e: "dir_get d ks = Some e" "ei_err (he_info e) = None" "ei_mtime (he_info e) \<noteq> 0"
    "\<not> digest_IsZero (ei_d (he_info e)) \<or> ei_target (he_info e) \<noteq> []" for ks e
  proof -
    have "record_digest ev w e = e" using e(4) record_digest_dir(4) [of e ev w] by blast
    then have "pb_of (abs_name ks) (he_info e) \<in> set (fst (visit_entry ev w (abs_name ks) e))" using e by (simp add: visit_entry_def record_entry_def Let_def)
    then have "(ks, pb_of (abs_name ks) (he_info e)) \<in> set (items ev w d)" unfolding items_set [OF assms(1)] using e(1) by blast
    then show ?thesis by (force simp: st state_items)
  qed
  ultimately show ?thesis using h(1-3) by blast
qed


definition restart_env :: "disk fsEnv" where
  "restart_env = example_env\<lparr>fe_outputLocal := (\<lambda>_. False)\<rparr>"

definition restart_file :: hentry where
  "restart_file = HEntry (zero_info\<lparr>ei_size := 2, ei_mode := reg_mode, ei_cmdhash := ''h'', ei_d := ofBytes (\<lambda>b. b) ''xy'', ei_src := BytesSource ''xy'',
     ei_mtime := 3, ei_updatedTime := 4\<rparr>) None"

definition restart_tree :: hdir where
  "restart_tree = HDir 0 [(''b'', HEntry (zero_info\<lparr>ei_mode := reg_mode\<lparr>md_dir := True\<rparr>, ei_mtime := 2\<rparr>) (Some (HDir 0 [(''a'', restart_file)])))]"

definition restart_pb :: pbEntry where
  "restart_pb = \<lparr>pe_ModTime = 3, pe_Name = ''/b/a'', pe_Digest = Some (ofBytes (\<lambda>b. b) ''xy''), pe_IsExecutable = False, pe_Target = [],
     pe_CmdHash = ''h'', pe_Action = None, pe_UpdatedTime = 4\<rparr>"

lemma restart_state: "ps_Entries (fst (hfs_State restart_env (\<lambda>_. None) None restart_tree)) = [restart_pb]"
  by code_simp

theorem restart_keeps_entries_witness:
  "\<exists>h e ks. hfs_SetState restart_env [0] (fst (hfs_State restart_env (\<lambda>_. None) None restart_tree)) (fresh_fs (\<lambda>_. None)) = (None, h) \<and>
     dir_lookup (lf_dir h) ''/b/a'' = Found e ks \<and> pb_of ''/b/a'' (he_info e) = restart_pb"
proof -
  let ?st = "fst (hfs_State restart_env (\<lambda>_. None) None restart_tree)"
  obtain d1 where st: "hfs_State restart_env (\<lambda>_. None) None restart_tree = (?st, d1)" by (metis prod.collapse)
  have t: "tree_ok restart_tree" by code_simp
  have os: "os_lstat (fe_os restart_env) f (\<lambda>_. None) = Inl ErrNotExist" for f by (simp add: restart_env_def example_env_def mem_os_def)
  have "dirs_there (fe_os restart_env) (\<lambda>_. None) restart_tree" by (simp add: dirs_there_def disk_open_def os)
  moreover have "unchanged restart_env (\<lambda>_. None) restart_pb"
    by (simp add: unchanged_def not_local_def os) (simp add: restart_env_def example_env_def restart_pb_def)
  ultimately obtain h where h: "hfs_SetState restart_env [0] ?st (fresh_fs (\<lambda>_. None)) = (None, h)"
    "\<exists>e ks. dir_lookup (lf_dir h) (pe_Name restart_pb) = Found e ks \<and>
      pb_of (pe_Name restart_pb) (he_info e) = restart_pb\<lparr>pe_UpdatedTime := max (pe_UpdatedTime restart_pb) (pe_ModTime restart_pb)\<rparr>"
    using restart_keeps_entries [OF t _ st, of "[0]"] by (auto simp: restart_state lessThan_Suc)
  then show ?thesis by (auto simp: restart_pb_def)
qed

section \<open>The journal\<close>

text \<open>
  C35: After an interrupted build, the journal takes precedence over the saved state: under every name the
  state has the last entry that the journal has for it, or the entry that was saved if the journal has
  none; and the names of the state are sorted and distinct, as \<open>SetState\<close> expects.
\<close>

theorem journal_wins:
  assumes "es \<noteq> []"
  shows "fst (loadJournal (Inr es) st) \<and>
    stateMap (snd (loadJournal (Inr es) st)) = stateMap st ++ map_of (rev (map (\<lambda>e. (pe_Name e, e)) es)) \<and>
    sorted (map pe_Name (ps_Entries (snd (loadJournal (Inr es) st)))) \<and> distinct (map pe_Name (ps_Entries (snd (loadJournal (Inr es) st))))"
proof -
  let ?pairs = "\<lambda>es. rev (map (\<lambda>e. (pe_Name e, e)) es)"
  define m where "m = stateMap st ++ map_of (?pairs es)"
  define keys where "keys = sort (remdups (map pe_Name (ps_Entries st @ es)))"
  have name: "map_of (?pairs es) k = Some e \<Longrightarrow> pe_Name e = k" for es k e by (auto dest: map_of_SomeD)
  have mname: "m k = Some e \<Longrightarrow> pe_Name e = k" for k e using name unfolding m_def stateMap_def by (auto simp: map_add_Some_iff)
  have "dom m = set keys" by (auto simp: m_def stateMap_def keys_def dom_map_of_conv_image_fst image_image)
  then have some: "m k = Some (the (m k))" if "k \<in> set keys" for k using that by (cases "m k") auto
  have ents: "ps_Entries (snd (loadJournal (Inr es) st)) = map (\<lambda>k. the (m k)) keys" "fst (loadJournal (Inr es) st)"
    using assms by (auto simp: loadJournal_def m_def keys_def Let_def neq_Nil_conv)
  have names: "map pe_Name (map (\<lambda>k. the (m k)) keys) = keys"
    using some mname by (auto simp: comp_def intro!: map_idI)
  have fs: "fst ` set (?pairs es) = set (map pe_Name es)" for es by (simp add: image_image)
  have dist: "distinct keys" "sorted keys" by (simp_all add: keys_def)
  have "map_of (?pairs (map (\<lambda>k. the (m k)) keys)) k = m k" for k
  proof (cases "k \<in> set keys")
    case True
    then have "(k, the (m k)) \<in> set (?pairs (map (\<lambda>k. the (m k)) keys))" using mname [OF some [OF True]] by force
    moreover have "distinct (map fst (?pairs (map (\<lambda>k. the (m k)) keys)))" using names dist by (simp add: rev_map [symmetric] comp_def)
    ultimately show ?thesis using some [OF True] by simp
  next
    case False
    then have "m k = None" using \<open>dom m = set keys\<close> by auto
    moreover have "k \<notin> fst ` set (?pairs (map (\<lambda>k. the (m k)) keys))" using False fs [of "map (\<lambda>k. the (m k)) keys"] names by (simp only:) simp
    ultimately show ?thesis by (simp add: map_of_eq_None_iff)
  qed
  then have "stateMap (snd (loadJournal (Inr es) st)) = m" by (simp add: stateMap_def ents fun_eq_iff)
  then show ?thesis using ents names dist by (simp add: m_def)
qed


definition journal_entry :: "nat \<Rightarrow> bytes \<Rightarrow> pbEntry" where
  "journal_entry t name = restart_pb\<lparr>pe_ModTime := t, pe_Name := name\<rparr>"

theorem journal_wins_witness:
  "stateMap (snd (loadJournal (Inr [journal_entry 5 ''/b'', journal_entry 6 ''/b'']) \<lparr>ps_Entries = [journal_entry 1 ''/a'', journal_entry 2 ''/b''], ps_BuildTargets = None\<rparr>)) ''/b''
     = Some (journal_entry 6 ''/b'')"
proof -
  have "[journal_entry 5 ''/b'', journal_entry 6 ''/b''] \<noteq> []" by simp
  from journal_wins [OF this] show ?thesis by (simp add: journal_entry_def restart_pb_def)
qed

section \<open>The state file\<close>

text \<open>What \<open>saveFile\<close> relies on when it replaces the file: only the named files change, and a failing rename changes nothing.\<close>

locale rename_disk = local_disk os for os :: "'w os" +
  assumes write_other: "os_writeFile os f b m w = (r, w') \<Longrightarrow> g \<noteq> f \<Longrightarrow> os_readFile os g w' = os_readFile os g w"
    and rename_other: "os_rename os f f' w = (r, w') \<Longrightarrow> g \<noteq> f \<Longrightarrow> g \<noteq> f' \<Longrightarrow> os_readFile os g w' = os_readFile os g w"
    and rename_failed: "os_rename os f f' w = (Some err, w') \<Longrightarrow> os_readFile os g w' = os_readFile os g w"
    and rename_missing: "os_rename os f f' w = (Some ErrNotExist, w') \<Longrightarrow> os_readFile os f w \<noteq> Inr b"
begin

lemma rotate_old:
  assumes "rotate os f tmp w = (r, w')" "os_readFile os f w = Inr old" "tmp \<noteq> f" "tmp \<noteq> f @ ''.0''"
  shows "os_readFile os (f @ ''.0'') w' = Inr old \<or> r \<noteq> None \<and> os_readFile os f w' = Inr old"
    "r = None \<Longrightarrow> os_readFile os f w' = os_readFile os tmp w"
proof -
  obtain r0 w1 where w1: "os_remove os (f @ ''.0'') w = (r0, w1)" by fastforce
  have f1: "os_readFile os f w1 = Inr old" "os_readFile os tmp w1 = os_readFile os tmp w"
    using remove_other [OF w1] assms(2,4) by simp_all
  obtain r1 w2 where w2: "os_rename os f (f @ ''.0'') w1 = (r1, w2)" by fastforce
  have t2: "os_readFile os tmp w2 = os_readFile os tmp w" using rename_other [OF w2 assms(3,4)] f1(2) by simp
  have nm: "r1 \<noteq> Some ErrNotExist" using rename_missing w2 f1(1) by blast
  have "(os_readFile os (f @ ''.0'') w' = Inr old \<or> r \<noteq> None \<and> os_readFile os f w' = Inr old) \<and>
    (r = None \<longrightarrow> os_readFile os f w' = os_readFile os tmp w)"
  proof (cases "real_err r0 \<or> real_err r1")
    case True
    then show ?thesis
      using assms(1) w1 w2 f1(1) rename_failed [of f "f @ ''.0''" w1 _ w2 f] by (auto simp: rotate_def real_err_def split: if_splits)
  next
    case False
    then have r1: "r1 = None" using nm by (simp add: real_err_def)
    have bak: "os_readFile os (f @ ''.0'') w2 = Inr old" using rename_read [OF w2 [unfolded r1]] f1(1) by simp
    have w3: "os_rename os tmp f w2 = (r, w')" using assms(1) w1 w2 False by (simp add: rotate_def)
    have "os_readFile os (f @ ''.0'') w' = os_readFile os (f @ ''.0'') w2" by (rule rename_other [OF w3]) (use assms(4) in auto)
    then show ?thesis using bak rename_read [of tmp f w2 w'] w3 t2 by auto
  qed
  then show "os_readFile os (f @ ''.0'') w' = Inr old \<or> r \<noteq> None \<and> os_readFile os f w' = Inr old"
    "r = None \<Longrightarrow> os_readFile os f w' = os_readFile os tmp w" by blast+
qed

lemma saveFile_old:
  assumes "saveFile cd os b opts w = (r, w')" "f = op_StateFile opts" "tmp = cd_tmp cd f"
    and "os_readFile os f w = Inr old" "tmp \<noteq> f" "tmp \<noteq> f @ ''.0''"
  shows "os_readFile os (f @ ''.0'') w' = Inr old \<or> r \<noteq> None \<and> os_readFile os f w' = Inr old"
    "r = None \<Longrightarrow> \<exists>z. compress cd opts b = Inr z \<and> os_readFile os f w' = Inr z"
proof -
  obtain r1 w1 where w1: "os_writeFile os tmp [] 384 w = (r1, w1)" by fastforce
  have f1: "os_readFile os f w1 = Inr old" using write_other [OF w1] assms(4,5) by simp
  have rm: "os_readFile os f (snd (os_remove os tmp x)) = os_readFile os f x"
    "os_readFile os (f @ ''.0'') (snd (os_remove os tmp x)) = os_readFile os (f @ ''.0'') x" for x
    using remove_other [of tmp x "fst (os_remove os tmp x)" "snd (os_remove os tmp x)"] assms(5,6) by simp_all
  note [simp] = saveFile_def Let_def
  have "(os_readFile os (f @ ''.0'') w' = Inr old \<or> r \<noteq> None \<and> os_readFile os f w' = Inr old) \<and>
    (r = None \<longrightarrow> (\<exists>z. compress cd opts b = Inr z \<and> os_readFile os f w' = Inr z))"
  proof (cases "r1 = None \<and> (\<exists>z. compress cd opts b = Inr z)")
    case False
    then show ?thesis using assms(1-3) w1 f1 rm by (auto split: option.splits sum.splits)
  next
    case True
    then obtain z where z: "r1 = None" "compress cd opts b = Inr z" by blast
    obtain r2 w2 where w2: "os_writeFile os tmp z 384 w1 = (r2, w2)" by fastforce
    have f2: "os_readFile os f w2 = Inr old" using write_other [OF w2] f1 assms(5) by simp
    show ?thesis
    proof (cases r2)
      case (Some err)
      then show ?thesis using assms(1-3) w1 z w2 f2 rm by auto
    next
      case None
      have z2: "os_readFile os tmp w2 = Inr z" using write_read [OF w2 [unfolded None]] by simp
      obtain r3 w3 where w3: "rotate os f tmp w2 = (r3, w3)" by fastforce
      note R = rotate_old [OF w3 f2 assms(5,6)]
      have "(r, w') = (case r3 of None \<Rightarrow> (None, w3) | Some err \<Rightarrow> (Some err, snd (os_remove os tmp w3)))"
        using assms(1-3) w1 z w2 w3 None by (cases r3) auto
      then show ?thesis using R z(2) z2 rm by (cases r3) auto
    qed
  qed
  then show "os_readFile os (f @ ''.0'') w' = Inr old \<or> r \<noteq> None \<and> os_readFile os f w' = Inr old"
    "r = None \<Longrightarrow> \<exists>z. compress cd opts b = Inr z \<and> os_readFile os f w' = Inr z" by blast+
qed

end

interpretation mem_rename: rename_disk "mem_os now"
proof
  show "os_readFile (mem_os now) g w' = os_readFile (mem_os now) g w" if "os_writeFile (mem_os now) f b m w = (r, w')" "g \<noteq> f" for f b m w r w' g
    using that by (auto simp: mem_os_def split: option.splits node.splits)
  show "os_readFile (mem_os now) g w' = os_readFile (mem_os now) g w" if "os_rename (mem_os now) f f' w = (r, w')" "g \<noteq> f" "g \<noteq> f'" for f f' w r w' g
    using that by (auto simp: mem_os_def split: option.splits)
  show "os_readFile (mem_os now) g w' = os_readFile (mem_os now) g w" if "os_rename (mem_os now) f f' w = (Some err, w')" for f f' w err w' g
    using that by (auto simp: mem_os_def split: option.splits)
  show "os_readFile (mem_os now) f w \<noteq> Inr b" if "os_rename (mem_os now) f f' w = (Some ErrNotExist, w')" for f f' w w' b
    using that by (auto simp: mem_os_def split: option.splits)
qed


text \<open>
  Laws of the compressors and of the message encoding: a stream is recognised by its first bytes and
  decoded to what was encoded; a blocked gzip file is a gzip file, and the reader of blocked files
  refuses others.
\<close>

definition codec_ok :: "codec \<Rightarrow> bool" where
  "codec_ok cd \<longleftrightarrow>
     (\<forall>l b z. cd_zstdEncode cd l b = Inr z \<longrightarrow> isZstd z \<and> cd_zstdDecode cd z = Inr b) \<and>
     (\<forall>l b z. cd_gzipEncode cd l b = Inr z \<longrightarrow> length z \<ge> 4 \<and> isGzip z \<and> cd_gzipDecode cd z = Inr b \<and> cd_bgzfDecode cd z = None) \<and>
     (\<forall>l b z. cd_bgzfEncode cd l b = Inr z \<longrightarrow> length z \<ge> 4 \<and> isGzip z \<and> cd_gzipDecode cd z = Inr b \<and> cd_bgzfDecode cd z = Some (Inr b)) \<and>
     (\<forall>st b. cd_marshal cd st = Inr b \<longrightarrow> cd_unmarshal cd b = Inr st)"

lemma magic_take: "isZstd z \<Longrightarrow> isZstd (take 4 z)" "length z \<ge> 4 \<Longrightarrow> isGzip z \<Longrightarrow> isGzip (take 4 z) \<and> \<not> isZstd (take 4 z)" "isZstd z \<Longrightarrow> length z \<ge> 4"
  by (simp_all add: isZstd_def isGzip_def)

lemma load_compressed:
  assumes "codec_ok cd" "compress cd opts b = Inr z" "os_readFile os (op_StateFile opts') w = Inr z"
  shows "loadFile cd os opts' w = Inr b"
proof -
  consider "cd_zstdEncode cd (op_CompressLevel opts) b = Inr z" | "cd_gzipEncode cd (op_CompressLevel opts) b = Inr z"
    | "cd_bgzfEncode cd (op_CompressLevel opts) b = Inr z"
    using assms(2) by (auto simp: compress_def split: if_splits)
  then show ?thesis
  proof cases
    case 1
    then have "isZstd z" "cd_zstdDecode cd z = Inr b" using assms(1) unfolding codec_ok_def by blast+
    then show ?thesis using assms(3) magic_take(1,3) [of z] by (simp add: loadFile_def)
  next
    case 2
    then have "length z \<ge> 4" "isGzip z" "cd_gzipDecode cd z = Inr b" "cd_bgzfDecode cd z = None" using assms(1) unfolding codec_ok_def by blast+
    then show ?thesis using assms(3) magic_take(2) [of z] by (simp add: loadFile_def)
  next
    case 3
    then have "length z \<ge> 4" "isGzip z" "cd_gzipDecode cd z = Inr b" "cd_bgzfDecode cd z = Some (Inr b)" using assms(1) unfolding codec_ok_def by blast+
    then show ?thesis using assms(3) magic_take(2) [of z] by (simp add: loadFile_def)
  qed
qed

text \<open>
  C14: Saving is safe. If \<open>Save\<close> succeeds, \<open>Load\<close> returns the saved state, whatever compression either of
  them was asked to use. Whether it succeeds or fails at any step, the previous state is still there: in
  the backup file, or, if saving failed, in the state file itself. It is assumed that the disk obeys
  \<open>rename_disk\<close>, that the codecs obey \<open>codec_ok\<close> and that the temporary file has a name of its own.
\<close>

theorem save_is_safe:
  assumes "rename_disk os" "codec_ok cd" "state_Save cd os st opts w = (r, w')" "os_readFile os (op_StateFile opts) w = Inr old"
    and "cd_tmp cd (op_StateFile opts) \<noteq> op_StateFile opts" "cd_tmp cd (op_StateFile opts) \<noteq> op_StateFile opts @ ''.0''"
    and "op_StateFile opts' = op_StateFile opts"
  shows "(r = None \<longrightarrow> state_Load cd os opts' w' = Inr st) \<and>
    (os_readFile os (op_StateFile opts @ ''.0'') w' = Inr old \<or> r \<noteq> None \<and> os_readFile os (op_StateFile opts) w' = Inr old)"
proof (cases "cd_marshal cd st")
  case (Inl err)
  then show ?thesis using assms(3,4) by (auto simp: state_Save_def)
next
  case (Inr b)
  let ?f = "op_StateFile opts"
  obtain r1 w1 where w1: "saveFile cd os b opts w = (r1, w1)" by fastforce
  note S = rename_disk.saveFile_old [OF assms(1) w1 refl refl assms(4-6)]
  show ?thesis
  proof (cases r1)
    case (Some err)
    then show ?thesis using assms(3) Inr w1 S(1) by (auto simp: state_Save_def)
  next
    case None
    obtain r2 w2 where w2: "os_remove os (?f @ ''.journal'') w1 = (r2, w2)" by fastforce
    have w': "w' = w2" using assms(3) Inr w1 None w2 by (simp add: state_Save_def)
    have "local_disk os" using assms(1) by (rule rename_disk.axioms(1))
    then have keep: "os_readFile os ?f w2 = os_readFile os ?f w1" "os_readFile os (?f @ ''.0'') w2 = os_readFile os (?f @ ''.0'') w1"
      using local_disk.remove_other [OF _ w2] by simp_all
    obtain z where "compress cd opts b = Inr z" "os_readFile os ?f w1 = Inr z" using S(2) None by blast
    then have "loadFile cd os opts' w2 = Inr b" using load_compressed [OF assms(2)] keep(1) assms(7) by metis
    then have "state_Load cd os opts' w2 = Inr st" using assms(2) Inr by (simp add: state_Load_def codec_ok_def)
    then show ?thesis using S(1) None keep(2) w' by simp
  qed
qed

text \<open>Codecs for a concrete state: the magic bytes in front of the content, and an encoding of two states.\<close>

definition magic_codec :: "pbState \<Rightarrow> codec" where
  "magic_codec st =
     (let z = [CHR 0x28, CHR 0xb5, CHR 0x2f, CHR 0xfd]; g = [CHR 0x1f, CHR 0x8b, CHR 0x08, CHR 0x00] in
      \<lparr>cd_zstdDecode = (\<lambda>b. Inr (drop 4 b)), cd_gzipDecode = (\<lambda>b. Inr (drop 5 b)),
       cd_bgzfDecode = (\<lambda>b. if length b > 4 \<and> b ! 4 = CHR ''B'' then Some (Inr (drop 5 b)) else None),
       cd_zstdEncode = (\<lambda>_ b. Inr (z @ b)), cd_gzipEncode = (\<lambda>_ b. Inr (g @ ''G'' @ b)), cd_bgzfEncode = (\<lambda>_ b. Inr (g @ ''B'' @ b)),
       cd_marshal = (\<lambda>s. if s = st then Inr ''s'' else Inl (ErrOther ''unknown'')), cd_unmarshal = (\<lambda>_. Inr st),
       cd_tmp = (\<lambda>f. f @ ''.1'')\<rparr>)"

lemma magic_codec_ok: "codec_ok (magic_codec st)"
  by (auto simp: codec_ok_def magic_codec_def Let_def isZstd_def isGzip_def numeral_eq_Suc)

definition saved_options :: "bool \<Rightarrow> bool \<Rightarrow> fsOption" where
  "saved_options zstd bgzf = \<lparr>op_StateFile = ''s'', op_GzipUsesBgzf = bgzf, op_CompressZstd = zstd, op_CompressLevel = 3\<rparr>"

theorem save_is_safe_witness:
  "\<exists>w'. let st = \<lparr>ps_Entries = [restart_pb], ps_BuildTargets = None\<rparr>; cd = magic_codec st in
     state_Save cd (mem_os 5) st (saved_options True False) [''s'' \<mapsto> NFile ''old'' 420 1] = (None, w') \<and>
     state_Load cd (mem_os 5) (saved_options False True) w' = Inr st \<and> os_readFile (mem_os 5) ''s.0'' w' = Inr ''old''"
proof -
  let ?st = "\<lparr>ps_Entries = [restart_pb], ps_BuildTargets = None\<rparr>" and ?w = "[''s'' \<mapsto> NFile ''old'' 420 1] :: disk"
  let ?cd = "magic_codec ?st"
  have "fst (state_Save ?cd (mem_os 5) ?st (saved_options True False) ?w) = None"
    by (simp add: state_Save_def saveFile_def rotate_def real_err_def compress_def magic_codec_def saved_options_def mem_os_def Let_def)
  then obtain w' where s: "state_Save ?cd (mem_os 5) ?st (saved_options True False) ?w = (None, w')" by (metis prod.collapse)
  have old: "os_readFile (mem_os 5) (op_StateFile (saved_options True False)) ?w = Inr ''old''" by (simp add: saved_options_def mem_os_def)
  have n: "op_StateFile (saved_options True False) = ''s''" "op_StateFile (saved_options False True) = ''s''" "cd_tmp ?cd ''s'' = ''s.1''"
    by (simp_all add: saved_options_def magic_codec_def Let_def)
  from save_is_safe [OF mem_rename.rename_disk_axioms magic_codec_ok s old, of "saved_options False True"] show ?thesis
    using s by (auto simp: n Let_def)
qed

section \<open>A changed disk\<close>

text \<open>Once \<open>dirty\<close> is set it stays set, and no goroutine changes the disk any more.\<close>

lemma judge_dirty: "st_dirty s \<Longrightarrow> st_dirty (snd (judge ev ent e isDir et s))"
  "st_disk (snd (judge ev ent e isDir et s)) = st_disk s"
  by (cases et; simp add: judge_def Let_def setting_invalid_def)+

lemma set_entry_dirty:
  assumes "st_dirty s"
  shows "st_dirty (snd (set_entry ev ent s)) \<and> st_disk (snd (set_entry ev ent s)) = st_disk s"
  using assms
  by (simp add: set_entry_def Let_def reconcile_def setting_fail_def setting_invalid_def judge_dirty split: sum.splits fsErr.splits)

lemma set_entries_Cons:
  "set_entries ev ((i, ent) # xs) s =
     (case set_entry ev ent s of (v, s1) \<Rightarrow> ((i, v) # fst (set_entries ev xs s1), snd (set_entries ev xs s1)))"
  by (simp add: case_prod_beta)

lemma set_entries_dirty:
  "st_dirty s \<Longrightarrow> st_disk (snd (set_entries ev xs s)) = st_disk s"
proof (induction xs arbitrary: s)
  case (Cons x xs)
  obtain i ent where x: "x = (i, ent)" by fastforce
  obtain v s1 where s1: "set_entry ev ent s = (v, s1)" by fastforce
  have "st_dirty s1" "st_disk s1 = st_disk s" using set_entry_dirty [OF Cons.prems, of ev ent] s1 by simp_all
  then show ?case using Cons.IH [of s1] by (simp add: x s1 set_entries_Cons del: set_entries.simps)
qed simp

lemma set_entries_dirty_verdict:
  assumes "st_dirty s" "i \<in> set is" "\<And>s. st_dirty s \<Longrightarrow> st_disk s = w \<Longrightarrow> fst (set_entry ev (f i) s) = v" "st_disk s = w"
  shows "map_of (fst (set_entries ev (map (\<lambda>k. (k, f k)) is) s)) i = Some v"
  using assms
proof (induction "is" arbitrary: s)
  case (Cons k ks)
  obtain r s1 where s1: "set_entry ev (f k) s = (r, s1)" by fastforce
  have s1': "st_dirty s1" "st_disk s1 = w" using set_entry_dirty [OF Cons.prems(1), of ev "f k"] s1 Cons.prems(4) by simp_all
  show ?case
  proof (cases "k = i")
    case True
    then show ?thesis using Cons.prems(3) [OF Cons.prems(1,4)] s1 by (simp add: set_entries_Cons del: set_entries.simps)
  next
    case False
    then have "map_of (fst (set_entries ev (map (\<lambda>k. (k, f k)) ks) s1)) i = Some v"
      using Cons.IH [OF s1'(1) _ Cons.prems(3) s1'(2)] Cons.prems(2) by simp
    then show ?thesis using False s1 by (simp add: set_entries_Cons del: set_entries.simps)
  qed
qed simp

text \<open>
  A generated file that was only touched: the disk has a later time for it, and the content of the
  state. A link that was changed to another target.
\<close>

definition touched :: "'w fsEnv \<Rightarrow> 'w \<Rightarrow> pbEntry \<Rightarrow> nat \<Rightarrow> bool" where
  "touched ev w p t \<longleftrightarrow> \<not> fe_ignore ev (pe_Name p) \<and> pe_CmdHash p \<noteq> [] \<and> \<not> digest_IsZero (toDigest (pe_Digest p)) \<and>
     (case os_lstat (fe_os ev) (pe_Name p) w of Inl _ \<Rightarrow> False | Inr fi \<Rightarrow> oi_mtime fi = t) \<and>
     pe_ModTime p < t \<and> t \<le> os_now (fe_os ev) w \<and>
     (case os_readFile (fe_os ev) (pe_Name p) w of Inl _ \<Rightarrow> False | Inr b \<Rightarrow> ofBytes (fe_sha256 ev) b = toDigest (pe_Digest p))"

definition relinked :: "'w fsEnv \<Rightarrow> 'w \<Rightarrow> pbEntry \<Rightarrow> bool" where
  "relinked ev w q \<longleftrightarrow> \<not> fe_ignore ev (pe_Name q) \<and> digest_IsZero (toDigest (pe_Digest q)) \<and> pe_Target q \<noteq> [] \<and>
     (case os_lstat (fe_os ev) (pe_Name q) w of Inl _ \<Rightarrow> False | Inr fi \<Rightarrow> oi_mtime fi \<le> os_now (fe_os ev) w) \<and>
     (case os_readlink (fe_os ev) (pe_Name q) w of Inl _ \<Rightarrow> False | Inr t \<Rightarrow> t \<noteq> pe_Target q)"

lemma touched_type: "touched ev w p t \<Longrightarrow> snd (newStateEntry p (Some t)) = EntryBeforeLocal"
  by (simp add: touched_def newStateEntry_def stateType_def Let_def)

lemma touched_clean:
  assumes "touched ev w p t"
  shows "set_entry ev p (start_setting w) = (Inr (AsFile (state_entry p (Some t)) True),
    (start_setting w)\<lparr>st_disk := snd (os_chtimes (fe_os ev) (pe_Name p) (pe_ModTime p) w), st_neq := 1\<rparr>)"
  using assms touched_type [OF assms]
  by (auto simp: touched_def set_entry_def start_setting_def state_entry_fields reconcile_def judge_def Let_def split: sum.splits)

lemma touched_dirty:
  assumes "touched ev w p t" "st_dirty s" "st_disk s = w"
  shows "fst (set_entry ev p s) = Inr Dropped"
  using assms touched_type [OF assms(1)]
  by (auto simp: touched_def set_entry_def state_entry_fields reconcile_def judge_def Let_def split: sum.splits)

lemma relinked_sets_dirty:
  "relinked ev w q \<Longrightarrow> st_disk s = w \<Longrightarrow> set_entry ev q s = (Inr Dropped, setting_invalid s)"
  by (auto simp: relinked_def set_entry_def state_entry_fields Let_def split: sum.splits)

text \<open>
  C39: What \<open>SetState\<close> keeps depends on the order in which its goroutines run. Let the state have a
  generated file that was only touched, and a link that was changed. If the goroutine of the file is the
  first one, its time on the disk is reset and it is kept as a previously generated file, whatever the
  others do. If the goroutine of the link is the first one, it sets the shared flag \<open>dirty\<close>; then the
  disk stays as it is and the file is forgotten, wherever its goroutine comes in the order.
\<close>

theorem set_state_race:
  assumes "i < length (ps_Entries st)" "touched ev w (ps_Entries st ! i) t" "relinked ev w (ps_Entries st ! j)"
    and "distinct (map pe_Name (ps_Entries st))" "i \<in> set o2"
  shows "(\<exists>vs s. set_entries ev (map (\<lambda>k. (k, ps_Entries st ! k)) (i # o1)) (start_setting w) =
        ((i, Inr (AsFile (state_entry (ps_Entries st ! i) (Some t)) True)) # vs, s)) \<and>
     st_disk (snd (set_entry ev (ps_Entries st ! i) (start_setting w))) =
        snd (os_chtimes (fe_os ev) (pe_Name (ps_Entries st ! i)) (pe_ModTime (ps_Entries st ! i)) w) \<and>
     (\<forall>h. hfs_SetState ev (i # o1) st (fresh_fs w) = (None, h) \<longrightarrow> pe_Name (ps_Entries st ! i) \<in> set (lf_previous h)) \<and>
     verdict_of (fst (set_entries ev (map (\<lambda>k. (k, ps_Entries st ! k)) (j # o2)) (start_setting w))) i = Dropped \<and>
     (\<forall>r h. hfs_SetState ev (j # o2) st (fresh_fs w) = (r, h) \<longrightarrow> pe_Name (ps_Entries st ! i) \<notin> set (lf_previous h) \<and> lf_disk h = w)"
proof -
  let ?ps = "ps_Entries st"
  let ?run = "\<lambda>os. set_entries ev (map (\<lambda>k. (k, ?ps ! k)) os) (start_setting w)"
  let ?e = "state_entry (?ps ! i) (Some t)"
  have ne: "i \<noteq> j" using assms(2,3) by (auto simp: touched_def relinked_def)
  obtain vs s where first: "?run (i # o1) = ((i, Inr (AsFile ?e True)) # vs, s)"
    using touched_clean [OF assms(2)] by (simp add: set_entries_Cons del: set_entries.simps)
  let ?s1 = "setting_invalid (start_setting w)"
  have s1: "st_dirty ?s1" "st_disk ?s1 = w" by (simp_all add: setting_invalid_def start_setting_def)
  have step: "set_entry ev (?ps ! j) (start_setting w) = (Inr Dropped, ?s1)"
    by (rule relinked_sets_dirty [OF assms(3)]) (simp add: start_setting_def)
  obtain vs2 s2 where second: "?run (j # o2) = ((j, Inr Dropped) # vs2, s2)"
    "set_entries ev (map (\<lambda>k. (k, ?ps ! k)) o2) ?s1 = (vs2, s2)"
    using step by (cases "set_entries ev (map (\<lambda>k. (k, ?ps ! k)) o2) ?s1") (simp add: set_entries_Cons del: set_entries.simps)
  have "map_of vs2 i = Some (Inr Dropped)"
    using set_entries_dirty_verdict [OF s1(1) assms(5) _ s1(2), where f = "\<lambda>k. ?ps ! k" and ev = ev and v = "Inr Dropped"]
      touched_dirty [OF assms(2)] second(2) by simp
  then have dropped: "verdict_of ((j, Inr Dropped) # vs2) i = Dropped" using ne by (simp add: verdict_of_def)
  have disk: "st_disk s2 = w" using set_entries_dirty [OF s1(1), of ev "map (\<lambda>k. (k, ?ps ! k)) o2"] s1(2) second(2) by simp
  have gen: "pe_Name (?ps ! i) \<in> set (generated_of (map (\<lambda>k. (pe_Name (?ps ! k), verdict_of vs k)) [0..<length ?ps])) \<longleftrightarrow>
      (case verdict_of vs i of Dropped \<Rightarrow> False | AsDir e \<Rightarrow> ei_cmdhash (he_info e) \<noteq> [] | AsFile e g \<Rightarrow> g)" for vs
    using assms(1) nth_eq_iff_index_eq [OF assms(4)] by (force simp: generated_of_def split: verdict.splits)
  have "pe_Name (?ps ! i) \<in> set (lf_previous h)" if "hfs_SetState ev (i # o1) st (fresh_fs w) = (None, h)" for h
  proof -
    have "verdict_of ((i, Inr (AsFile ?e True)) # vs) i = AsFile ?e True" by (simp add: verdict_of_def)
    then show ?thesis using that first gen [of "(i, Inr (AsFile ?e True)) # vs"]
      by (auto simp: hfs_SetState_def fresh_fs_def Let_def split: option.splits prod.splits)
  qed
  moreover have "pe_Name (?ps ! i) \<notin> set (lf_previous h) \<and> lf_disk h = w" if "hfs_SetState ev (j # o2) st (fresh_fs w) = (r, h)" for r h
    using that second(1) dropped disk gen [of "(j, Inr Dropped) # vs2"]
    by (auto simp: hfs_SetState_def fresh_fs_def Let_def split: option.splits prod.splits)
  ultimately show ?thesis using first second(1) dropped touched_clean [OF assms(2)] by simp
qed

text \<open>A state with both, on a disk where the file was touched and the link was changed.\<close>

definition changed_link :: pbEntry where
  "changed_link = \<lparr>pe_ModTime = 3, pe_Name = ''/b/l'', pe_Digest = None, pe_IsExecutable = False, pe_Target = ''a'', pe_CmdHash = [], pe_Action = None, pe_UpdatedTime = 3\<rparr>"

definition touched_state :: pbState where
  "touched_state = \<lparr>ps_Entries = [restart_pb, changed_link], ps_BuildTargets = None\<rparr>"

definition touched_disk :: disk where
  "touched_disk = [''/b'' \<mapsto> NDir 2, ''/b/a'' \<mapsto> NFile ''xy'' 420 4, ''/b/l'' \<mapsto> NLink ''z'']"

theorem set_state_race_witness:
  "''/b/a'' \<in> set (lf_previous (snd (hfs_SetState restart_env [0, 1] touched_state (fresh_fs touched_disk)))) \<and>
   ''/b/a'' \<notin> set (lf_previous (snd (hfs_SetState restart_env [1, 0] touched_state (fresh_fs touched_disk)))) \<and>
   lf_disk (snd (hfs_SetState restart_env [1, 0] touched_state (fresh_fs touched_disk))) = touched_disk"
proof -
  let ?r = "hfs_SetState restart_env [0, 1] touched_state (fresh_fs touched_disk)"
  have t: "touched restart_env touched_disk (ps_Entries touched_state ! 0) 4" "relinked restart_env touched_disk (ps_Entries touched_state ! 1)"
    by (code_simp, code_simp)
  have "fst ?r = None" by code_simp
  then have "?r = (None, snd ?r)" by (metis prod.collapse)
  moreover have "0 < length (ps_Entries touched_state)" "distinct (map pe_Name (ps_Entries touched_state))" "(0 :: nat) \<in> set [0]"
    "pe_Name (ps_Entries touched_state ! 0) = ''/b/a''"
    by (simp_all add: touched_state_def restart_pb_def changed_link_def)
  ultimately show ?thesis using set_state_race [OF _ t, of "[0]" "[1]"]
    by (cases "hfs_SetState restart_env [1, 0] touched_state (fresh_fs touched_disk)") simp
qed

end
