(* ===== verification/Step_Config.thy ===== *)
theory Step_Config
  imports Build_Path Graph "HOL-Library.List_Lexorder" "HOL-Library.Char_ord" "HOL-Library.AList"
begin

text \<open>
  The step configuration (\<open>build/ninjabuild/step_config.go\<close>): rules that are matched with the edges of
  the manifest, and files that come with others as inputs. Regular expressions are a parameter. Go maps
  are association lists. A rule is a value, except that \<open>Lookup\<close> copies it with its map of platform
  properties: where the code writes into a map that the configuration still holds, the configuration is
  returned with the change. The conversions of \<open>build.Path\<close> are used without their caches, which never
  change an answer. The fields that only matter for log output are left out.
\<close>

section \<open>Rules\<close>

record stepDeps =
  sd_Inputs :: "bytes list"
  sd_Outputs :: "bytes list"
  sd_Platform :: "(bytes \<times> bytes) list"
  sd_PlatformRef :: bytes

record stepRule =
  sr_Name :: bytes
  sr_ActionName :: bytes
  sr_actionRE :: "bytes option"
  sr_ActionOuts :: "bytes list"
  sr_CommandPrefix :: bytes
  sr_Inputs :: "bytes list"
  sr_ExcludeInputPatterns :: "bytes list"
  sr_IndirectInputs :: "bytes list"
  sr_Outputs :: "bytes list"
  sr_OutputsMap :: "(bytes \<times> stepDeps) list"
  sr_Restat :: bool
  sr_RestatContent :: bool
  sr_PlatformRef :: bytes
  sr_Platform :: "(bytes \<times> bytes) list"
  sr_Remote :: bool
  sr_RemoteWrapper :: bytes
  sr_RemoteCommand :: bytes
  sr_RemoteInputs :: "(bytes \<times> bytes) list"
  sr_InputRootAbsolutePath :: bool
  sr_CanonicalizeDir :: bool
  sr_UseSystemInput :: bool
  sr_Timeout :: bytes
  sr_Handler :: bytes
  sr_Deps :: bytes
  sr_OutputLocal :: bool
  sr_Impure :: bool
  sr_Replace :: bool
  sr_Accumulate :: bool

record stepConfig =
  sc_Platforms :: "(bytes \<times> (bytes \<times> bytes) list) list"
  sc_InputDeps :: "(bytes \<times> bytes list) list"
  sc_Rules :: "stepRule list"

definition zero_rule :: stepRule where
  "zero_rule = \<lparr>sr_Name = [], sr_ActionName = [], sr_actionRE = None, sr_ActionOuts = [], sr_CommandPrefix = [], sr_Inputs = [],
     sr_ExcludeInputPatterns = [], sr_IndirectInputs = [], sr_Outputs = [], sr_OutputsMap = [], sr_Restat = False, sr_RestatContent = False,
     sr_PlatformRef = [], sr_Platform = [], sr_Remote = False, sr_RemoteWrapper = [], sr_RemoteCommand = [], sr_RemoteInputs = [],
     sr_InputRootAbsolutePath = False, sr_CanonicalizeDir = False, sr_UseSystemInput = False, sr_Timeout = [], sr_Handler = [], sr_Deps = [],
     sr_OutputLocal = False, sr_Impure = False, sr_Replace = False, sr_Accumulate = False\<rparr>"

definition zero_deps :: stepDeps where
  "zero_deps = \<lparr>sd_Inputs = [], sd_Outputs = [], sd_Platform = [], sd_PlatformRef = []\<rparr>"

text \<open>The package \<open>regexp\<close>: whether a pattern compiles, and whether it matches.\<close>

record regexps =
  re_compile :: "bytes \<Rightarrow> bool"
  re_match :: "bytes \<Rightarrow> bytes \<Rightarrow> bool"

subsection \<open>Init\<close>

definition anchored :: "bytes \<Rightarrow> bytes" where
  "anchored pat = (let p = (if has_prefix pat ''^'' then pat else ''^'' @ pat) in if has_suffix p ''$'' then p else p @ ''$'')"

definition rule_Init :: "regexps \<Rightarrow> stepRule \<Rightarrow> stepRule res" where
  "rule_Init re r =
     (if sr_ActionName r \<noteq> [] \<and> \<not> re_compile re (anchored (sr_ActionName r)) then Inl (Err ''regexp'')
      else if sr_ActionName r = [] \<and> sr_ActionOuts r = [] \<and> sr_CommandPrefix r = [] then Inl (Err ''no selector in rule'')
      else Inr (r\<lparr>sr_actionRE := (if sr_ActionName r \<noteq> [] then Some (anchored (sr_ActionName r)) else sr_actionRE r), sr_Inputs := sort (sr_Inputs r)\<rparr>))"

fun rules_Init :: "regexps \<Rightarrow> bytes list \<Rightarrow> stepRule option list \<Rightarrow> stepRule list res" where
  "rules_Init re seen [] = Inr []"
| "rules_Init re seen (None # rs) = Inl (Err ''encountered nil rule'')"
| "rules_Init re seen (Some r # rs) =
     (if sr_Name r = [] then Inl (Err ''no name in rule'')
      else if sr_Name r \<in> set seen then Inl (Err ''duplicate name in rule'')
      else case rule_Init re r of
          Inl err \<Rightarrow> Inl err
        | Inr r' \<Rightarrow> (case rules_Init re (sr_Name r # seen) rs of Inl err \<Rightarrow> Inl err | Inr rs' \<Rightarrow> Inr (r' # rs')))"

definition config_Init :: "regexps \<Rightarrow> stepRule option list \<Rightarrow> stepConfig \<Rightarrow> stepConfig res" where
  "config_Init re rules sc = (case rules_Init re [] rules of Inl err \<Rightarrow> Inl err | Inr rs \<Rightarrow> Inr (sc\<lparr>sc_Rules := rs\<rparr>))"

definition updateFilegroups :: "(bytes \<times> bytes list) list \<Rightarrow> stepConfig \<Rightarrow> stepConfig" where
  "updateFilegroups filegroups sc = sc\<lparr>sc_InputDeps := fold (\<lambda>(k, v). AList.update k v) filegroups (sc_InputDeps sc)\<rparr>"

section \<open>Lookup\<close>

definition fromConfigPath :: "path \<Rightarrow> bytes \<Rightarrow> bytes" where
  "fromConfigPath p x = (if has_prefix x ''./'' then fst (maybeFromWD p x) else x)"

definition toConfigPath :: "path \<Rightarrow> bytes \<Rightarrow> bytes" where
  "toConfigPath p x = (if has_prefix x (p_dir p @ ''/'') then ''./'' @ drop (length (p_dir p) + 1) x else x)"

text \<open>\<open>strings.Trim\<close> with a double quote, and \<open>strings.ReplaceAll\<close> of \<open>$:\<close> by a colon.\<close>

definition trim_quotes :: "bytes \<Rightarrow> bytes" where
  "trim_quotes s = rev (dropWhile (\<lambda>c. c = CHR 0x22) (rev (dropWhile (\<lambda>c. c = CHR 0x22) s)))"

fun replace_colons :: "bytes \<Rightarrow> bytes" where
  "replace_colons (a # b # s) = (if a = CHR ''$'' \<and> b = CHR '':'' then CHR '':'' # replace_colons s else a # replace_colons (b # s))"
| "replace_colons s = s"

text \<open>What \<open>Lookup\<close> asks of an edge: the paths of its outputs, the name of its rule and its raw command.\<close>

record edgeView =
  ev_outputs :: "bytes list"
  ev_ruleName :: bytes
  ev_command :: bytes

definition view_edge :: "(bytes \<Rightarrow> 64 word) \<Rightarrow> edge \<Rightarrow> edgeView" where
  "view_edge hash e = \<lparr>ev_outputs = map nc_path (edge_Outs e), ev_ruleName = r_name (ed_rule e), ev_command = edge_RawBinding hash e ''command''\<rparr>"

definition edge_out_config :: "path \<Rightarrow> edgeView \<Rightarrow> bytes" where
  "edge_out_config p e = (case ev_outputs e of [] \<Rightarrow> [] | o1 # _ \<Rightarrow> toConfigPath p (fst (maybeFromWD p o1)))"

definition lookup_command :: "path \<Rightarrow> bytes \<Rightarrow> bytes" where
  "lookup_command p command =
     (case str_cut command CHR '' '' of
        None \<Rightarrow> command
      | Some (args0, args) \<Rightarrow>
          let a = replace_colons (trim_quotes args0) in
          if isAbs a \<and> \<not> has_prefix a (p_execRoot p) then fp_base a @ '' '' @ args else command)"

definition rule_matches :: "regexps \<Rightarrow> bytes \<Rightarrow> bytes \<Rightarrow> bytes \<Rightarrow> stepRule \<Rightarrow> bool" where
  "rule_matches re actionName outConfig command c \<longleftrightarrow>
     (case sr_actionRE c of None \<Rightarrow> True | Some pat \<Rightarrow> re_match re pat actionName) \<and>
     (sr_ActionOuts c \<noteq> [] \<longrightarrow> outConfig \<in> set (sr_ActionOuts c)) \<and>
     (sr_CommandPrefix c \<noteq> [] \<longrightarrow> has_prefix command (sr_CommandPrefix c))"

definition map_get :: "('k \<times> 'v) list \<Rightarrow> 'v \<Rightarrow> 'k \<Rightarrow> 'v" where
  "map_get m z k = (case map_of m k of None \<Rightarrow> z | Some v \<Rightarrow> v)"

text \<open>The platform properties of a rule: those of the platform it refers to do not replace its own.\<close>

definition add_platform :: "(bytes \<times> bytes) list \<Rightarrow> (bytes \<times> bytes) list \<Rightarrow> (bytes \<times> bytes) list" where
  "add_platform p own = fold (\<lambda>(k, v) m. if map_of m k = None then AList.update k v m else m) p own"

definition rule_platform :: "stepConfig \<Rightarrow> path \<Rightarrow> stepDeps \<Rightarrow> stepRule \<Rightarrow> (bytes \<times> bytes) list" where
  "rule_platform sc p opt c =
     (let ref = (if sd_PlatformRef opt \<noteq> [] then sd_PlatformRef opt else if sr_PlatformRef c \<noteq> [] then sr_PlatformRef c else ''default'');
          m1 = (if sr_Remote c then add_platform (map_get (sc_Platforms sc) [] ref) (sr_Platform c) else sr_Platform c);
          m2 = (if sr_InputRootAbsolutePath c then AList.update ''InputRootAbsolutePath'' (p_execRoot p) m1 else m1) in
      fold (\<lambda>(k, v). AList.update k v) (sd_Platform opt) m2)"

definition apply_rule :: "stepConfig \<Rightarrow> path \<Rightarrow> bytes \<Rightarrow> stepRule \<Rightarrow> stepRule" where
  "apply_rule sc p outConfig c =
     (let opt = map_get (sr_OutputsMap c) zero_deps outConfig in
      c\<lparr>sr_actionRE := None, sr_Platform := rule_platform sc p opt c,
        sr_Inputs := map (fromConfigPath p) (sr_Inputs c @ sd_Inputs opt),
        sr_RemoteInputs := map (\<lambda>(k, v). (fromConfigPath p k, fromConfigPath p v)) (sr_RemoteInputs c),
        sr_Outputs := map (fromConfigPath p) (sr_Outputs c @ sd_Outputs opt)\<rparr>)"

text \<open>
  The copy of the rule shares the map of platform properties with the configuration, unless the map is
  empty, in which case the code makes a new one.
\<close>

definition shared_platform :: "stepRule \<Rightarrow> stepRule \<Rightarrow> stepRule" where
  "shared_platform rule c = (if sr_Platform c = [] then c else c\<lparr>sr_Platform := sr_Platform rule\<rparr>)"

fun lookup_rules :: "regexps \<Rightarrow> stepConfig \<Rightarrow> path \<Rightarrow> bytes \<Rightarrow> bytes \<Rightarrow> bytes \<Rightarrow> stepRule list \<Rightarrow> (stepRule \<times> bool) \<times> stepRule list" where
  "lookup_rules re sc p act outConfig command [] = ((zero_rule, False), [])"
| "lookup_rules re sc p act outConfig command (c # cs) =
     (if rule_matches re act outConfig command c then
        let rule = apply_rule sc p outConfig c in ((rule, \<not> sr_Impure c), shared_platform rule c # cs)
      else case lookup_rules re sc p act outConfig command cs of (r, cs') \<Rightarrow> (r, c # cs'))"

definition config_Lookup :: "regexps \<Rightarrow> path \<Rightarrow> edgeView \<Rightarrow> stepConfig \<Rightarrow> (stepRule \<times> bool) \<times> stepConfig" where
  "config_Lookup re p e sc =
     (case lookup_rules re sc p (ev_ruleName e) (edge_out_config p e) (lookup_command p (ev_command e)) (sc_Rules sc) of
        (r, rs) \<Rightarrow> (r, sc\<lparr>sc_Rules := rs\<rparr>))"

section \<open>Expanding inputs\<close>

definition is_label :: "bytes \<Rightarrow> bool" where
  "is_label x \<longleftrightarrow> CHR '':'' \<in> set x"

text \<open>\<open>stat\<close> tells whether \<open>hashFS.Stat\<close> finds a file below the exec root.\<close>

definition input_deps :: "(bytes \<Rightarrow> bool) \<Rightarrow> path \<Rightarrow> stepConfig \<Rightarrow> bytes \<Rightarrow> bytes list" where
  "input_deps stat p sc x =
     filter (\<lambda>dep. is_label dep \<or> stat dep) (map (fromConfigPath p) (map_get (sc_InputDeps sc) [] (toConfigPath p x)))"

definition all_deps :: "path \<Rightarrow> stepConfig \<Rightarrow> bytes list" where
  "all_deps p sc = map (fromConfigPath p) (concat (map snd (sc_InputDeps sc)))"

lemma input_deps_all: "set (input_deps stat p sc x) \<subseteq> set (all_deps p sc)"
proof
  fix y assume "y \<in> set (input_deps stat p sc x)"
  then obtain v z where "map_of (sc_InputDeps sc) (toConfigPath p x) = Some v" "z \<in> set v" "y = fromConfigPath p z"
    by (cases "map_of (sc_InputDeps sc) (toConfigPath p x)") (auto simp: input_deps_def map_get_def)
  then show "y \<in> set (all_deps p sc)" by (force simp: all_deps_def dest: map_of_SomeD)
qed

text \<open>The loop over \<open>paths\<close>, which grows while it is walked, and the files found, in the order of the walk.\<close>

function expand_loop :: "(bytes \<Rightarrow> bool) \<Rightarrow> path \<Rightarrow> stepConfig \<Rightarrow> bytes list \<Rightarrow> bytes list \<Rightarrow> bytes list" where
  "expand_loop stat p sc seen [] = []"
| "expand_loop stat p sc seen (x # xs) =
     (if x \<in> set seen then expand_loop stat p sc seen xs
      else (if \<not> is_label x \<and> stat x then [x] else []) @ expand_loop stat p sc (x # seen) (xs @ input_deps stat p sc x))"
  by pat_completeness auto
termination
proof (relation "measures [\<lambda>(stat, p, sc, seen, xs). card ((set xs \<union> set (all_deps p sc)) - set seen), \<lambda>(stat, p, sc, seen, xs). length xs]", goal_cases)
  case 1
  show ?case by simp
next
  case (2 stat p sc seen x xs)
  then have "(set (x # xs) \<union> set (all_deps p sc)) - set seen = (set xs \<union> set (all_deps p sc)) - set seen" by auto
  then show ?case by simp
next
  case (3 stat p sc seen x xs)
  have "(set (xs @ input_deps stat p sc x) \<union> set (all_deps p sc)) - set (x # seen) \<subset> (set (x # xs) \<union> set (all_deps p sc)) - set seen"
    using input_deps_all [of stat p sc x] 3 by auto
  then have "card ((set (xs @ input_deps stat p sc x) \<union> set (all_deps p sc)) - set (x # seen)) < card ((set (x # xs) \<union> set (all_deps p sc)) - set seen)"
    by (intro psubset_card_mono) auto
  then show ?case by simp
qed

definition expandInputs :: "(bytes \<Rightarrow> bool) \<Rightarrow> path \<Rightarrow> stepConfig \<Rightarrow> bytes list \<Rightarrow> bytes list" where
  "expandInputs stat p sc paths = sort (expand_loop stat p sc [] paths)"

end
