(* ===== verification/Step_Config_Props.thy ===== *)
theory Step_Config_Props
  imports Step_Config
begin

text \<open>
  Properties of the step configuration: initialised rules have distinct names and a selector, the
  expansion of inputs finds exactly the files that are reachable, and a lookup may change later ones.
\<close>

section \<open>Rules\<close>

lemma rules_Init_ok:
  "rules_Init re seen rs = Inr rs' \<Longrightarrow> distinct (map sr_Name rs') \<and> set (map sr_Name rs') \<inter> set seen = {} \<and> length rs' = length rs \<and>
    (\<forall>r \<in> set rs'. sr_Name r \<noteq> [] \<and> sorted (sr_Inputs r) \<and> (sr_ActionName r \<noteq> [] \<or> sr_ActionOuts r \<noteq> [] \<or> sr_CommandPrefix r \<noteq> []) \<and>
      (sr_ActionName r \<noteq> [] \<longrightarrow> re_compile re (anchored (sr_ActionName r)) \<and> sr_actionRE r = Some (anchored (sr_ActionName r))))"
proof (induction re seen rs arbitrary: rs' rule: rules_Init.induct)
  case (3 re seen r rs)
  obtain r' where r': "rule_Init re r = Inr r'" "sr_Name r \<noteq> []" "sr_Name r \<notin> set seen" using 3(2) by (auto split: if_splits sum.splits)
  obtain rs1 where rs1: "rules_Init re (sr_Name r # seen) rs = Inr rs1" "rs' = r' # rs1" using 3(2) r' by (auto split: sum.splits)
  note IH = 3(1) [OF r'(2,3,1) rs1(1)]
  have "sr_Name r' = sr_Name r \<and> sorted (sr_Inputs r') \<and> (sr_ActionName r' \<noteq> [] \<or> sr_ActionOuts r' \<noteq> [] \<or> sr_CommandPrefix r' \<noteq> []) \<and>
      (sr_ActionName r' \<noteq> [] \<longrightarrow> re_compile re (anchored (sr_ActionName r')) \<and> sr_actionRE r' = Some (anchored (sr_ActionName r')))"
    using r'(1) by (auto simp: rule_Init_def split: if_splits)
  then show ?case using IH rs1(2) r'(2,3) by auto
qed auto

section \<open>Expanding inputs\<close>

text \<open>
  What the given paths need: the configured dependencies of a needed path that are labels or exist.
\<close>

inductive needed :: "(bytes \<Rightarrow> bool) \<Rightarrow> path \<Rightarrow> stepConfig \<Rightarrow> bytes set \<Rightarrow> bytes \<Rightarrow> bool" for stat p sc A where
  given: "x \<in> A \<Longrightarrow> needed stat p sc A x"
| dep: "needed stat p sc A x \<Longrightarrow> map_of (sc_InputDeps sc) (toConfigPath p x) = Some ds \<Longrightarrow> z \<in> set ds \<Longrightarrow>
    is_label (fromConfigPath p z) \<or> stat (fromConfigPath p z) \<Longrightarrow> needed stat p sc A (fromConfigPath p z)"

lemma input_deps_iff:
  "y \<in> set (input_deps stat p sc x) \<longleftrightarrow>
    (\<exists>ds z. map_of (sc_InputDeps sc) (toConfigPath p x) = Some ds \<and> z \<in> set ds \<and> y = fromConfigPath p z \<and> (is_label y \<or> stat y))"
  by (cases "map_of (sc_InputDeps sc) (toConfigPath p x)") (auto simp: input_deps_def map_get_def)

lemma needed_dep: "needed stat p sc A x \<Longrightarrow> y \<in> set (input_deps stat p sc x) \<Longrightarrow> needed stat p sc A y"
  by (auto simp: input_deps_iff intro: needed.dep)

lemma needed_mono: "needed stat p sc A x \<Longrightarrow> (\<And>y. y \<in> A \<Longrightarrow> needed stat p sc B y) \<Longrightarrow> needed stat p sc B x"
  by (induction rule: needed.induct) (blast intro: needed.intros)+

lemma needed_closed: "needed stat p sc A x \<Longrightarrow> (\<And>y. y \<in> A \<Longrightarrow> set (input_deps stat p sc y) \<subseteq> A) \<Longrightarrow> x \<in> A"
proof (induction rule: needed.induct)
  case (dep x ds z)
  then have "fromConfigPath p z \<in> set (input_deps stat p sc x)" unfolding input_deps_iff by blast
  then show ?case using dep by blast
qed

lemma expand_loop_unseen: "set (expand_loop stat p sc seen xs) \<inter> set seen = {} \<and> distinct (expand_loop stat p sc seen xs)"
  by (induction stat p sc seen xs rule: expand_loop.induct) auto

lemma expand_loop_set:
  "(\<And>s. s \<in> set seen \<Longrightarrow> set (input_deps stat p sc s) \<subseteq> set seen \<union> set xs) \<Longrightarrow>
    x \<in> set (expand_loop stat p sc seen xs) \<longleftrightarrow> needed stat p sc (set seen \<union> set xs) x \<and> x \<notin> set seen \<and> \<not> is_label x \<and> stat x"
proof (induction stat p sc seen xs rule: expand_loop.induct)
  case (1 stat p sc seen)
  then show ?case using needed_closed [of stat p sc "set seen" x] by auto
next
  case (2 stat p sc seen y ys)
  show ?case
  proof (cases "y \<in> set seen")
    case True
    then have "set seen \<union> set (y # ys) = set seen \<union> set ys" by auto
    then show ?thesis using 2(1) [OF True] 2(3) True by simp
  next
    case False
    let ?A = "set seen \<union> set (y # ys)" and ?B = "set (y # seen) \<union> set (ys @ input_deps stat p sc y)"
    have "set (input_deps stat p sc s) \<subseteq> ?B" if "s \<in> set (y # seen)" for s using 2(3) [of s] that by auto
    note IH = 2(2) [OF False this]
    have eq: "needed stat p sc ?B x \<longleftrightarrow> needed stat p sc ?A x"
      by (rule iffI; erule needed_mono) (auto intro: needed.given needed_dep)
    have y: "needed stat p sc ?A y" by (rule given) simp
    show ?thesis using False IH eq y by auto
  qed
qed

text \<open>
  C30: The expansion of inputs ends and is exact: the result is sorted and has every file once that
  exists, is no label and is needed, that is, given or a dependency of a needed file or label; labels and
  missing files are left out, and dependencies of a missing file that was given are still followed.
\<close>

theorem expandInputs_exact:
  "sorted (expandInputs stat p sc paths) \<and> distinct (expandInputs stat p sc paths) \<and>
    set (expandInputs stat p sc paths) = {x. needed stat p sc (set paths) x \<and> \<not> is_label x \<and> stat x}"
  using expand_loop_unseen [of stat p sc "[]" paths] expand_loop_set [of "[]" stat p sc paths]
  by (auto simp: expandInputs_def)

section \<open>Lookups\<close>

definition edge_matches :: "regexps \<Rightarrow> path \<Rightarrow> edgeView \<Rightarrow> stepRule \<Rightarrow> bool" where
  "edge_matches re p e c \<longleftrightarrow> rule_matches re (ev_ruleName e) (edge_out_config p e) (lookup_command p (ev_command e)) c"

definition edge_options :: "path \<Rightarrow> edgeView \<Rightarrow> stepRule \<Rightarrow> stepDeps" where
  "edge_options p e c = map_get (sr_OutputsMap c) zero_deps (edge_out_config p e)"

text \<open>The first rule that matches is used, and only this rule may be changed.\<close>

lemma config_Lookup_hit:
  assumes "sc_Rules sc = pre @ c # post" "\<forall>r \<in> set pre. \<not> edge_matches re p e r" "edge_matches re p e c"
  shows "config_Lookup re p e sc =
    ((apply_rule sc p (edge_out_config p e) c, \<not> sr_Impure c),
     sc\<lparr>sc_Rules := pre @ shared_platform (apply_rule sc p (edge_out_config p e) c) c # post\<rparr>)"
proof -
  let ?l = "lookup_rules re sc p (ev_ruleName e) (edge_out_config p e) (lookup_command p (ev_command e))"
  have "?l (pre @ c # post) = ((apply_rule sc p (edge_out_config p e) c, \<not> sr_Impure c),
      pre @ shared_platform (apply_rule sc p (edge_out_config p e) c) c # post)"
    using assms(2,3) by (induction pre) (simp_all add: edge_matches_def Let_def)
  then show ?thesis by (simp add: config_Lookup_def assms(1))
qed

lemma edge_matches_shared [simp]: "edge_matches re p e (shared_platform r c) = edge_matches re p e c"
  by (simp add: edge_matches_def rule_matches_def shared_platform_def)

lemma edge_options_shared [simp]: "edge_options p e (shared_platform r c) = edge_options p e c"
  by (simp add: edge_options_def shared_platform_def)

lemma map_of_updates:
  "map_of (fold (\<lambda>(k, v). AList.update k v) xs m) k = (case map_of (rev xs) k of None \<Rightarrow> map_of m k | Some v \<Rightarrow> Some v)"
proof (induction xs arbitrary: m)
  case (Cons x xs)
  obtain k' v where "x = (k', v)" by fastforce
  then show ?case using Cons by (auto simp: update_conv map_add_Some_iff map_add_def split: option.splits)
qed simp

lemma map_of_add_platform:
  "map_of (add_platform q own) k = (case map_of own k of None \<Rightarrow> map_of q k | Some v \<Rightarrow> Some v)"
  unfolding add_platform_def
proof (induction q arbitrary: own)
  case (Cons x q)
  obtain k' v where "x = (k', v)" by fastforce
  then show ?case using Cons by (auto simp: update_conv split: option.splits)
qed (simp split: option.split)

lemma map_of_rule_platform:
  assumes "k \<noteq> ''InputRootAbsolutePath''" "distinct (map fst (sd_Platform opt))"
  shows "map_of (rule_platform sc p opt c) k =
    (case map_of (sd_Platform opt) k of
       Some v \<Rightarrow> Some v
     | None \<Rightarrow> (case map_of (sr_Platform c) k of
         Some v \<Rightarrow> Some v
       | None \<Rightarrow> if sr_Remote c
           then map_of (map_get (sc_Platforms sc) [] (if sd_PlatformRef opt \<noteq> [] then sd_PlatformRef opt
             else if sr_PlatformRef c \<noteq> [] then sr_PlatformRef c else ''default'')) k
           else None))"
proof -
  have "map_of (rev (sd_Platform opt)) = map_of (sd_Platform opt)"
    using assms(2) by (subst map_of_inject_set) (simp_all add: rev_map [symmetric])
  then show ?thesis
    using assms(1) by (cases "map_of (sd_Platform opt) k"; cases "map_of (sr_Platform c) k")
      (simp_all add: rule_platform_def Let_def map_of_updates map_of_add_platform update_conv)
qed

text \<open>
  C40: A lookup may change later ones. Two edges get the same rule \<open>c\<close>, and the options of the first one
  set the property \<open>k\<close>, which those of the second one do not set. If the rule has no platform properties
  of its own, looking the first edge up changes nothing. If it has some, the copy of the rule shares
  them with the configuration: once the first edge was looked up, the second one gets the value that was
  meant for the first one, although before it got the one of the rule or of its platform.
\<close>

theorem lookup_leaks_platform:
  assumes "sc_Rules sc = pre @ c # post" "\<forall>r \<in> set pre. \<not> edge_matches re p e1 r \<and> \<not> edge_matches re p e2 r"
    and "edge_matches re p e1 c" "edge_matches re p e2 c"
    and "map_of (sd_Platform (edge_options p e1 c)) k = Some v" "map_of (sd_Platform (edge_options p e2 c)) k = None"
    and "distinct (map fst (sd_Platform (edge_options p e1 c)))" "distinct (map fst (sd_Platform (edge_options p e2 c)))"
    and "k \<noteq> ''InputRootAbsolutePath''"
  shows "map_of (sr_Platform (fst (fst (config_Lookup re p e1 sc)))) k = Some v \<and>
    map_of (sr_Platform (fst (fst (config_Lookup re p e2 sc)))) k =
      (case map_of (sr_Platform c) k of
         Some u \<Rightarrow> Some u
       | None \<Rightarrow> if sr_Remote c
           then map_of (map_get (sc_Platforms sc) [] (if sd_PlatformRef (edge_options p e2 c) \<noteq> [] then sd_PlatformRef (edge_options p e2 c)
             else if sr_PlatformRef c \<noteq> [] then sr_PlatformRef c else ''default'')) k
           else None) \<and>
    (if sr_Platform c = [] then snd (config_Lookup re p e1 sc) = sc
     else map_of (sr_Platform (fst (fst (config_Lookup re p e2 (snd (config_Lookup re p e1 sc)))))) k = Some v)"
proof -
  define c1 where "c1 = shared_platform (apply_rule sc p (edge_out_config p e1) c) c"
  define sc1 where "sc1 = sc\<lparr>sc_Rules := pre @ c1 # post\<rparr>"
  have rule: "sr_Platform (apply_rule sc p (edge_out_config p e) c) = rule_platform sc p (edge_options p e c) c" for sc e c
    by (simp add: apply_rule_def edge_options_def Let_def)
  have first: "config_Lookup re p e1 sc = ((apply_rule sc p (edge_out_config p e1) c, \<not> sr_Impure c), sc1)"
    unfolding sc1_def c1_def by (rule config_Lookup_hit) (use assms in simp_all)
  have second: "fst (fst (config_Lookup re p e2 sc)) = apply_rule sc p (edge_out_config p e2) c"
    by (subst config_Lookup_hit [OF assms(1)]) (use assms in simp_all)
  have after: "fst (fst (config_Lookup re p e2 sc1)) = apply_rule sc1 p (edge_out_config p e2) c1"
    by (subst config_Lookup_hit [of sc1 pre c1 post]) (use assms in \<open>simp_all add: sc1_def c1_def\<close>)
  have one: "map_of (rule_platform sc p (edge_options p e1 c) c) k = Some v"
    using map_of_rule_platform [OF assms(9,7)] assms(5) by simp
  have "sc1 = sc" if "sr_Platform c = []"
    using that assms(1) by (simp add: sc1_def c1_def shared_platform_def)
  moreover have "map_of (sr_Platform (fst (fst (config_Lookup re p e2 sc1)))) k = Some v" if "sr_Platform c \<noteq> []"
  proof -
    have "sr_Platform c1 = rule_platform sc p (edge_options p e1 c) c"
      using that rule [of sc e1 c] by (simp add: c1_def shared_platform_def)
    moreover have opt: "edge_options p e2 c1 = edge_options p e2 c" by (simp add: c1_def)
    ultimately show ?thesis
      using one map_of_rule_platform [OF assms(9), of "edge_options p e2 c" sc1 p c1] assms(6,8) unfolding after rule opt by simp
  qed
  ultimately show ?thesis
    using one map_of_rule_platform [OF assms(9,8), of sc p c] assms(6) unfolding first second rule fst_conv snd_conv by simp
qed

text \<open>A rule with properties of its own, and one output that asks for a larger machine.\<close>

definition large_rule :: stepRule where
  "large_rule = zero_rule\<lparr>sr_Name := ''link'', sr_CommandPrefix := ''link'', sr_Remote := True, sr_Platform := [(''os'', ''linux'')],
     sr_OutputsMap := [(''./big'', zero_deps\<lparr>sd_Platform := [(''cpu'', ''16'')]\<rparr>)]\<rparr>"

definition large_config :: stepConfig where
  "large_config = \<lparr>sc_Platforms = [(''default'', [(''cpu'', ''2'')])], sc_InputDeps = [], sc_Rules = [large_rule]\<rparr>"

definition link_edge :: "bytes \<Rightarrow> edgeView" where
  "link_edge out = \<lparr>ev_outputs = [out], ev_ruleName = ''link'', ev_command = ''link -o''\<rparr>"

definition no_regexps :: regexps where
  "no_regexps = \<lparr>re_compile = (\<lambda>_. True), re_match = (\<lambda>_ _. False)\<rparr>"

definition cpu_of :: "bytes \<Rightarrow> stepConfig \<Rightarrow> bytes option" where
  "cpu_of out sc = map_of (sr_Platform (fst (fst (config_Lookup no_regexps (newPath ''/r'' ''out'') (link_edge out) sc)))) ''cpu''"

theorem lookup_leaks_platform_witness:
  "cpu_of ''small'' large_config = Some ''2'' \<and> cpu_of ''big'' large_config = Some ''16'' \<and>
   cpu_of ''small'' (snd (config_Lookup no_regexps (newPath ''/r'' ''out'') (link_edge ''big'') large_config)) = Some ''16''"
proof -
  let ?p = "newPath ''/r'' ''out''"
  have rules: "sc_Rules large_config = [] @ large_rule # []" by (simp add: large_config_def)
  have m: "edge_matches no_regexps ?p (link_edge ''big'') large_rule" "edge_matches no_regexps ?p (link_edge ''small'') large_rule"
    by (code_simp, code_simp)
  have o: "sd_Platform (edge_options ?p (link_edge ''big'') large_rule) = [(''cpu'', ''16'')]"
    "edge_options ?p (link_edge ''small'') large_rule = zero_deps" by (code_simp, code_simp)
  have f: "sr_Platform large_rule = [(''os'', ''linux'')]" "sr_Remote large_rule" "sr_PlatformRef large_rule = []"
    "map_get (sc_Platforms large_config) [] ''default'' = [(''cpu'', ''2'')]" "sd_Platform zero_deps = []" "sd_PlatformRef zero_deps = []"
    by (simp_all add: large_rule_def zero_rule_def large_config_def map_get_def zero_deps_def)
  from lookup_leaks_platform [OF rules _ m, of "''cpu''" "''16''"] show ?thesis by (simp add: o f cpu_of_def)
qed

end
