(* ===== verification/Spec2Isabelle.thy ===== *)
theory Spec2Isabelle
  imports
    Go_Base
    Lexer
    Eval
    Paths
    Bindings
    Scope
    NodeMap
    Shell
    Plan_Props
    Deps_Log_Props
    Parse_Props
    Table_Props
    Tool_Props
    Merkle_Props
    Cas_Props
    Cache_Props
    Command_Props
    Step_Props
    Build_Props
    Hash_Links
    Hash_State_Props
    Step_Config_Props
begin

text \<open>
  A verification library of siso, a build tool that reads ninja manifests, decides which steps are out
  of date, and runs them locally or through a remote execution service. The theories model the Go code
  under \<open>src/\<close>; each opens with a text that names its files.

  \<^bold>\<open>The program.\<close> \<open>toolsupport/ninjautil\<close> parses the manifest: it splits a file into chunks, parses and
  interprets the chunks in parallel, and builds nodes and edges. \<open>build/ninjabuild\<close> makes a graph of it,
  which \<open>build/plan.go\<close> turns into a plan: which steps wait for which, and which are ready. The loop of
  \<open>build/builder.go\<close> takes ready steps and runs each in a worker (\<open>build/run_step.go\<close> and the files it
  calls), which first asks \<open>build/mtimecheck.go\<close> whether the step has to run, then looks into the action
  cache, executes the command remotely or locally, records the dependencies it found in the deps log
  and tells the plan. A command (\<open>execute/cmd.go\<close>) becomes a digest of a Merkle tree of its inputs
  (\<open>reapi/merkletree\<close>), whose blobs are uploaded by \<open>reapi/cas.go\<close>. All files are seen through the hash
  file system (\<open>hashfs\<close>), which keeps entries for files that may exist nowhere on the disk, writes them
  when they are needed, and saves its state between builds.

  \<^bold>\<open>Conventions.\<close> Go strings and byte slices are lists of characters; \<open>Go_Base\<close> and \<open>Filepath\<close> model what
  the code uses of \<open>bytes\<close>, \<open>strings\<close> and \<open>path/filepath\<close> on systems with slashes. Errors are values of sum,
  option or result types and panics are results of their own, so that every early return is a branch.
  Records are structs, with one field per field that the modelled code reads or writes. Maps are
  functions or association lists. Integers are numbers, except where the code depends on their width:
  offsets of the deps log and hashes are words. Pointers are indices where identity matters (nodes,
  edges, steps) and values where it does not. Logging, progress output and timing are left out
  everywhere. Functions of other packages (SHA-256, message encoding, gRPC services, compressors) and
  of the operating system are parameters, gathered in records; what is assumed of them is written in the
  theorem that needs it, and a witness shows that it can hold.

  \<^bold>\<open>Reading the manifest\<close> (\<open>toolsupport/ninjautil\<close>).
  \<^item> \<open>Lexer\<close>, \<open>Eval\<close>, \<open>Paths\<close>: \<open>lexer.go\<close>, \<open>eval.go\<close>, \<open>paths.go\<close>. \<open>Bindings\<close>, \<open>Scope\<close>: \<open>binding.go\<close>,
    \<open>rule.go\<close>, \<open>scope.go\<close>, \<open>statement.go\<close>. \<open>NodeMap\<close>: \<open>nodemap.go\<close>, as operations of one goroutine and as
    an interleaving of the atomic steps of many. \<open>Alloc\<close>: \<open>arena.go\<close>, \<open>slab.go\<close>. \<open>Graph\<close>: \<open>graph.go\<close>.
  \<^item> \<open>Chunk\<close>, \<open>Chunk_Build\<close>: \<open>chunk_parser.go\<close>. \<open>File_Parser\<close>: \<open>file_parser.go\<close>, \<open>manifest_parser.go\<close>, with
    includes and subninjas; goroutines run in the order of the file, and all of them to their end, as
    \<open>errgroup\<close> has it. \<open>State\<close>, \<open>Targets\<close>: \<open>state.go\<close>.
    \<open>Ninja_Graph\<close>: \<open>build/ninjabuild/ninjabuild.go\<close>.
  \<^item> \<open>Chunk_Proofs\<close>, \<open>Chunk_Split\<close>, \<open>Parse_Inv\<close>, \<open>Parse_Load\<close>, \<open>Load_Inv\<close>, \<open>Parse_Props\<close>, \<open>Table_Props\<close>: parsing
    in chunks is parsing the file, whichever error the group of goroutines reports; statements lie in the buffer; parsing returns; the graph is well
    formed and no output has two edges, which is the contract that the plan assumes; concurrent node
    lookups agree; a variable has its latest binding; and a manifest with an include panics.
  \<^item> \<open>Edit_Distance\<close>, \<open>Shell\<close>, \<open>Depfile\<close>, \<open>Cpp_Scan\<close>: \<open>edit_distance.go\<close>, \<open>shell_escape.go\<close> with
    \<open>shutil/split.go\<close>, \<open>makeutil/deps.go\<close>, \<open>scandeps/cpp.go\<close>; \<open>Tool_Props\<close> has round trips and the
    equivalence with a reference definition.

  \<^bold>\<open>The plan and the build\<close> (\<open>build\<close>).
  \<^item> \<open>Plan\<close>: \<open>plan.go\<close>; \<open>Plan_Inv\<close>, \<open>Plan_Schedule\<close>, \<open>Plan_Run\<close>, \<open>Plan_Props\<close>: scheduling returns on every graph,
    finds a cycle only if there is one, and leaves a plan in which exactly the steps without missing
    inputs are queued; a run never starts a step before its inputs are made, runs none twice, and with an
    acyclic graph runs all.
  \<^item> \<open>Mtime_Check\<close>, \<open>Build_Path\<close>: \<open>mtimecheck.go\<close>, \<open>path.go\<close>, \<open>symtab.go\<close>. \<open>Retry\<close>: \<open>reapi/retry\<close>.
  \<^item> \<open>Step_Run\<close>: \<open>run_step.go\<close>, \<open>run_cmd.go\<close>, \<open>exec_local.go\<close>, \<open>exec_remote.go\<close>, \<open>rsp.go\<close> and the parts of
    \<open>step.go\<close>, \<open>stats.go\<close>, \<open>failures.go\<close> they use, as a trace of events against an environment that answers
    for the file system, the executors and the cache. \<open>Step_Props\<close>: the locale \<open>trace_law\<close> lifts laws of
    single events to a whole step; its interpretations show that semaphores are always released and that
    the plan is told exactly once.
  \<^item> \<open>Build_Loop\<close>, \<open>Build_Props\<close>: \<open>Builder.Build\<close> as a step relation of the main loop and its workers. It
    refines the runs of the plan, returns on an acyclic graph, and a result without an error means that
    all steps succeeded, unless the build was interrupted; then an interrupt may be lost.
  \<^item> \<open>Deps_Log\<close>, \<open>Deps_Log_Proofs\<close>, \<open>Deps_Log_Props\<close>: \<open>ninjautil/deps_log.go\<close>, the file format included: what was
    recorded is read back, and recompaction loses nothing.
  \<^item> \<open>Step_Config\<close>, \<open>Step_Config_Props\<close>: \<open>build/ninjabuild/step_config.go\<close>. The expansion of inputs finds exactly
    the reachable files; and a lookup of a rule may change what later lookups find.

  \<^bold>\<open>Commands and remote storage\<close> (\<open>execute\<close>, \<open>reapi\<close>).
  \<^item> \<open>Digest\<close>, \<open>Merkle\<close>, \<open>Merkle_Proofs\<close>, \<open>Merkle_Content\<close>, \<open>Merkle_Roundtrip\<close>, \<open>Merkle_Props\<close>: \<open>reapi/digest\<close>,
    \<open>reapi/merkletree\<close>. Every sequence of \<open>Set\<close> calls can be built, and a traversal finds what was set.
  \<^item> \<open>Cas\<close>, \<open>Cas_Proofs\<close>, \<open>Cas_Sound\<close>, \<open>Cas_Props\<close>: \<open>reapi/cas.go\<close>. Batches respect the limits; a successful
    upload means stored blobs, if they fit a batch. The locales state the contract of the service.
  \<^item> \<open>Layered_Cache\<close>, \<open>Cache_Props\<close>: \<open>build/layered_cache.go\<close>, \<open>build/cache.go\<close>, \<open>reapi/cache.go\<close>,
    \<open>build/cachestore\<close>. The locale \<open>cache_layer\<close> is the contract of one layer, interpreted by the store of
    the remote API; a read returns the first answer that is not \<open>NotFound\<close>. \<open>Command\<close>, \<open>Command_Props\<close>: \<open>execute/cmd.go\<close>; the action digest does not depend on
    the name of a canonical build directory, for directories of the same depth.

  \<^bold>\<open>The hash file system\<close> (\<open>hashfs\<close>).
  \<^item> \<open>Hash_Dir\<close>, \<open>Hash_Props\<close>: the tree of \<open>fs.go\<close> with its links, and that it is a map from names.
  \<^item> \<open>Hash_FS\<close>, \<open>Hash_Update\<close>, \<open>Hash_Links\<close>, \<open>Hash_Flush\<close>: the operations of \<open>HashFS\<close>, and what a flush puts on
    the disk. A disk is the record \<open>os\<close>, its laws the locales \<open>local_disk\<close> and \<open>rename_disk\<close>; both are
    interpreted by the disk in memory \<open>mem_os\<close>.
  \<^item> \<open>Hash_State\<close>, \<open>Hash_State_Proofs\<close>, \<open>Hash_State_Props\<close>: \<open>state.go\<close>. A restart restores every recorded entry, the
    journal of an interrupted build takes precedence, and a failing save keeps the previous state; what
    is kept of a changed disk depends on the order of the goroutines.

  \<^bold>\<open>Fuel and bounds.\<close> Functions that recurse on graphs or buffers take fuel where no structural measure is
  at hand. The scheduler starts with more fuel than there are nodes and is shown never to run out
  (\<open>schedule_terminates\<close>); trees and stores are traversed with more fuel than the longest name. Loops
  that may run forever are partial functions whose value \<open>None\<close> means that they do not return: the chunk
  parser returns for every buffer that ends with a newline (\<open>parseChunks_returns\<close>), and so does the parser
  of dependency files on what it is shown to read back; loops whose bound is in the
  code, such as 40 symlinks or 10 retries, have that bound. The order in which the goroutines of one call
  run is a parameter or a step relation where the code shares data between them (node table, build loop,
  restoring a state), and the order of the source elsewhere.

  \<^bold>\<open>Not modelled.\<close> Starlark configuration (\<open>build/buildconfig\<close>), which runs an interpreter of another
  package; \<open>build/ninjabuild/step_def.go\<close>, which answers for a step
  what \<open>Step_Run\<close> asks of its environment; \<open>build/deps.go\<close>, \<open>deps_gcc.go\<close>, \<open>tree_input.go\<close> and the scanner
  around \<open>CPPScan\<close> in \<open>scandeps\<close>, for the same reason; the processes and connections of
  \<open>execute/localexec\<close>, \<open>execute/remoteexec\<close>, \<open>reapi/exec.go\<close>, \<open>reapi/reapi.go\<close>, \<open>reapi/bytestreamio\<close>, \<open>auth\<close>;
  user interface, flags and subcommands (\<open>ui\<close>, \<open>subcmd\<close>, \<open>main.go\<close>, \<open>progress.go\<close>); generated code. Also left
  out are cancellation inside the file system, background digests, and concurrency between operations
  on one directory of the tree.
\<close>

end
